(* ===== verification/Prelude.thy ===== *)
theory Prelude
  imports Main "HOL-Library.AList" "HOL-Library.Word"
begin

text \<open>
  Shared vocabulary of the development.

  \<^item> A JavaScript \<^verbatim>\<open>Map\<close> keeps its entries in insertion order, and \<^verbatim>\<open>set\<close> on a key that is
    present changes the value in place. It is modelled by an association list with
    \<^verbatim>\<open>AList.update\<close> and \<^verbatim>\<open>AList.delete\<close>, under the names below.
  \<^item> JavaScript numbers that the code uses as integers are \<open>int\<close> or \<open>nat\<close>.
  \<^item> Strings are \<open>string\<close>, one \<open>char\<close> per code unit.
  \<^item> \<open>transition_system\<close> is the interface every stateful component is checked against:
    initial states, steps, and an invariant each step keeps.
\<close>

section \<open>Insertion-ordered maps\<close>

type_synonym ('k, 'v) jsmap = "('k \<times> 'v) list"

abbreviation js_get :: "('k, 'v) jsmap \<Rightarrow> 'k \<Rightarrow> 'v option" where
  "js_get m k \<equiv> map_of m k"

abbreviation js_has :: "('k, 'v) jsmap \<Rightarrow> 'k \<Rightarrow> bool" where
  "js_has m k \<equiv> k \<in> fst ` set m"

abbreviation js_set :: "('k, 'v) jsmap \<Rightarrow> 'k \<Rightarrow> 'v \<Rightarrow> ('k, 'v) jsmap" where
  "js_set m k v \<equiv> AList.update k v m"

abbreviation js_del :: "('k, 'v) jsmap \<Rightarrow> 'k \<Rightarrow> ('k, 'v) jsmap" where
  "js_del m k \<equiv> AList.delete k m"

abbreviation js_keys :: "('k, 'v) jsmap \<Rightarrow> 'k list" where
  "js_keys m \<equiv> map fst m"

abbreviation js_values :: "('k, 'v) jsmap \<Rightarrow> 'v list" where
  "js_values m \<equiv> map snd m"

text \<open>The representation invariant: a key occurs once.\<close>

abbreviation js_wf :: "('k, 'v) jsmap \<Rightarrow> bool" where
  "js_wf m \<equiv> distinct (map fst m)"

named_theorems jsmap \<open>lookup, key and well-formedness facts of insertion-ordered maps\<close>

lemma js_get_set [simp, jsmap]: "js_get (js_set m k v) k' = (if k' = k then Some v else js_get m k')"
  by (simp add: update_conv')

lemma js_get_del [simp, jsmap]: "js_get (js_del m k) k' = (if k' = k then None else js_get m k')"
  by (simp add: delete_conv')

lemma js_wf_set [simp, intro, jsmap]: "js_wf m \<Longrightarrow> js_wf (js_set m k v)"
  by (rule distinct_update)

lemma js_wf_del [simp, intro, jsmap]: "js_wf m \<Longrightarrow> js_wf (js_del m k)"
  by (rule distinct_delete)

lemma js_keys_set [jsmap]:
  "js_keys (js_set m k v) = (if k \<in> set (js_keys m) then js_keys m else js_keys m @ [k])"
  by (rule update_keys)

lemma js_get_None_iff: "js_get m k = None \<longleftrightarrow> k \<notin> set (js_keys m)"
  by (simp add: map_of_eq_None_iff)

lemma js_get_Some_iff [jsmap]: "js_wf m \<Longrightarrow> js_get m k = Some v \<longleftrightarrow> (k, v) \<in> set m"
  by simp

lemma js_get_filter:
  "js_wf m \<Longrightarrow> js_get (filter P m) k = (case js_get m k of None \<Rightarrow> None | Some v \<Rightarrow> if P (k, v) then Some v else None)"
  by (induction m) (auto simp: map_of_eq_None_iff split: option.splits)

lemma js_wf_filter [simp, intro]: "js_wf m \<Longrightarrow> js_wf (filter P m)"
  by (induction m) auto

lemma js_wf_map_values [simp]: "js_wf (map (\<lambda>(k, v). (k, f k v)) m) = js_wf m"
  by (simp add: case_prod_unfold comp_def)

lemma js_get_map_values: "js_get (map (\<lambda>(k, v). (k, f k v)) m) k = map_option (f k) (js_get m k)"
  by (induction m) auto

lemma js_set_append:
  "k \<notin> set (js_keys m) \<Longrightarrow> js_set m k v = m @ [(k, v)]"
  by (induction m) auto

lemma length_js_set:
  "length (js_set m k v) = (if k \<in> set (js_keys m) then length m else Suc (length m))"
  by (induction m) auto

lemma js_values_set_subset: "set (js_values (js_set m k v)) \<subseteq> insert v (set (js_values m))"
  by (induction m) auto

lemma set_js_set_wf: "js_wf m \<Longrightarrow> set (js_set m k v) = {(k', v') \<in> set m. k' \<noteq> k} \<union> {(k, v)}"
  by (induction m) (auto simp: image_iff)

lemma set_js_del: "set (js_del m k) = {(k', v') \<in> set m. k' \<noteq> k}"
  by (auto simp: AList.delete_eq)

section \<open>Lists\<close>

text \<open>\<^verbatim>\<open>lines.slice(i, j)\<close>, where an index below 0 counts from the end.\<close>

definition js_slice :: "int \<Rightarrow> int \<Rightarrow> 'a list \<Rightarrow> 'a list" where
  "js_slice i j xs =
     (let n = int (length xs);
          from' = (if i < 0 then max (n + i) 0 else min i n); until = (if j < 0 then max (n + j) 0 else min j n) in
      take (nat (until - from')) (drop (nat from') xs))"

lemma js_slice_nat: "js_slice (int i) (int j) xs = take (j - i) (drop i xs)"
  by (cases "i \<le> length xs"; cases "j \<le> length xs") (auto simp: js_slice_def Let_def min_def nat_diff_distrib')

section \<open>Strings\<close>

text \<open>The white space \<^verbatim>\<open>String.prototype.trim\<close> removes, among the code units a \<open>char\<close> can hold.\<close>

definition js_space :: "char \<Rightarrow> bool" where
  "js_space c \<longleftrightarrow> (of_char c :: nat) \<in> {9, 10, 11, 12, 13, 32, 160}"

definition js_trim :: "string \<Rightarrow> string" where
  "js_trim s = rev (dropWhile js_space (rev (dropWhile js_space s)))"

text \<open>\<^verbatim>\<open>value.trim().length > 0\<close>\<close>

definition non_blank :: "string \<Rightarrow> bool" where
  "non_blank s \<longleftrightarrow> js_trim s \<noteq> []"

lemma non_blank_iff: "non_blank s \<longleftrightarrow> (\<exists>c \<in> set s. \<not> js_space c)"
proof (cases "dropWhile js_space s")
  case Nil
  then show ?thesis by (auto simp: non_blank_def js_trim_def dropWhile_eq_Nil_conv dest: set_dropWhileD)
next
  case (Cons c cs)
  then have "\<not> js_space c" and "c \<in> set s"
    using hd_dropWhile [of js_space s] set_dropWhileD [of c js_space s] by auto
  moreover have "dropWhile js_space (rev (c # cs)) \<noteq> []"
    using \<open>\<not> js_space c\<close> by auto
  ultimately show ?thesis using Cons by (auto simp: non_blank_def js_trim_def)
qed

section \<open>Numbers\<close>

text \<open>\<^verbatim>\<open>Number.MAX_SAFE_INTEGER\<close>\<close>

abbreviation max_safe_integer :: int where
  "max_safe_integer \<equiv> 9007199254740991"

abbreviation is_safe_integer :: "int \<Rightarrow> bool" where
  "is_safe_integer n \<equiv> - max_safe_integer \<le> n \<and> n \<le> max_safe_integer"

fun show_nat :: "nat \<Rightarrow> string" where
  "show_nat n = (if n < 10 then [char_of (48 + n)] else show_nat (n div 10) @ [char_of (48 + n mod 10)])"

declare show_nat.simps [simp del]

definition show_int :: "int \<Rightarrow> string" where
  "show_int i = (if i < 0 then CHR ''-'' # show_nat (nat (- i)) else show_nat (nat i))"

section \<open>Numerals\<close>

definition is_digit :: "char \<Rightarrow> bool" where
  "is_digit c \<longleftrightarrow> 48 \<le> (of_char c :: nat) \<and> of_char c \<le> (57 :: nat)"

definition digits_value :: "string \<Rightarrow> nat" where
  "digits_value ds = foldl (\<lambda>n c. 10 * n + (of_char c - 48)) 0 ds"

lemma digit_char: "n < 10 \<Longrightarrow> (of_char (char_of (48 + n) :: char) :: nat) = 48 + n"
  by (simp add: of_char_of)

lemma show_nat_digits: "c \<in> set (show_nat n) \<Longrightarrow> is_digit c"
proof (induction n rule: show_nat.induct)
  case (1 n)
  show ?case
  proof (cases "n < 10")
    case True
    then show ?thesis using 1(2) digit_char [of n] by (subst (asm) show_nat.simps) (simp add: is_digit_def)
  next
    case False
    then have "c \<in> set (show_nat (n div 10)) \<or> c = char_of (48 + n mod 10)"
      using 1(2) by (subst (asm) show_nat.simps) auto
    then show ?thesis using 1(1) [OF False] digit_char [of "n mod 10"] by (auto simp: is_digit_def)
  qed
qed

lemma show_nat_Nil: "show_nat n \<noteq> []"
  by (subst show_nat.simps) simp

lemma digits_show: "digits_value (show_nat n) = n"
proof (induction n rule: show_nat.induct)
  case (1 n)
  show ?case
  proof (cases "n < 10")
    case True
    then show ?thesis using digit_char [of n] by (subst show_nat.simps) (simp add: digits_value_def)
  next
    case False
    then have "digits_value (show_nat n) = 10 * digits_value (show_nat (n div 10)) + (of_char (char_of (48 + n mod 10) :: char) - 48)"
      by (subst show_nat.simps) (simp add: digits_value_def)
    then show ?thesis using 1 [OF False] digit_char [of "n mod 10"] by simp
  qed
qed

lemma show_nat_inj: "show_nat m = show_nat n \<Longrightarrow> m = n"
  using digits_show by metis

text \<open>The part after the last separator is determined.\<close>

lemma last_part_unique:
  assumes "xs @ c # a = ys @ c # b" and "c \<notin> set a" and "c \<notin> set b"
  shows "a = b"
proof -
  have "rev a @ c # rev xs = rev b @ c # rev ys" using arg_cong [OF assms(1), of rev] by simp
  then have "takeWhile (\<lambda>x. x \<noteq> c) (rev a @ c # rev xs) = takeWhile (\<lambda>x. x \<noteq> c) (rev b @ c # rev ys)" by simp
  moreover have "takeWhile (\<lambda>x. x \<noteq> c) (rev a @ c # rev xs) = rev a"
    using assms(2) by (subst takeWhile_append2) auto
  moreover have "takeWhile (\<lambda>x. x \<noteq> c) (rev b @ c # rev ys) = rev b"
    using assms(3) by (subst takeWhile_append2) auto
  ultimately show ?thesis by simp
qed

section \<open>Transition systems\<close>

inductive reach :: "('s \<Rightarrow> bool) \<Rightarrow> ('s \<Rightarrow> 's \<Rightarrow> bool) \<Rightarrow> 's \<Rightarrow> bool" for init step where
  reach_init: "init s \<Longrightarrow> reach init step s"
| reach_step: "reach init step s \<Longrightarrow> step s t \<Longrightarrow> reach init step t"

locale transition_system =
  fixes init :: "'s \<Rightarrow> bool"
    and step :: "'s \<Rightarrow> 's \<Rightarrow> bool"
    and inv :: "'s \<Rightarrow> bool"
  assumes inv_init: "init s \<Longrightarrow> inv s"
    and inv_step: "inv s \<Longrightarrow> step s t \<Longrightarrow> inv t"
begin

lemma reach_inv: "reach init step s \<Longrightarrow> inv s"
  by (induction rule: reach.induct) (auto intro: inv_init inv_step)

lemma steps_inv: "step\<^sup>*\<^sup>* s t \<Longrightarrow> inv s \<Longrightarrow> inv t"
  by (induction rule: rtranclp_induct) (auto intro: inv_step)

lemma reach_steps: "reach init step s \<Longrightarrow> step\<^sup>*\<^sup>* s t \<Longrightarrow> reach init step t"
  by (rotate_tac, induction rule: rtranclp_induct) (auto intro: reach_step)

end

text \<open>
  Systems with a preorder on states that every step climbs: what a state has recorded, later
  states still have. Stale observations of such a system stay valid.
\<close>

locale monotone_system = transition_system init step inv
  for init :: "'s \<Rightarrow> bool" and step :: "'s \<Rightarrow> 's \<Rightarrow> bool" and inv :: "'s \<Rightarrow> bool" +
  fixes leq :: "'s \<Rightarrow> 's \<Rightarrow> bool"
  assumes leq_refl: "leq s s"
    and leq_trans: "leq s t \<Longrightarrow> leq t u \<Longrightarrow> leq s u"
    and step_leq: "inv s \<Longrightarrow> step s t \<Longrightarrow> leq s t"
begin

lemma steps_leq: "step\<^sup>*\<^sup>* s t \<Longrightarrow> inv s \<Longrightarrow> leq s t"
proof (induction rule: rtranclp_induct)
  case base
  show ?case by (rule leq_refl)
next
  case (step t u)
  then have "inv t" by (blast intro: steps_inv)
  with step show ?case by (blast intro: leq_trans step_leq)
qed

end

section \<open>Lists\<close>

lemma sum_list_map_ge: "x \<in> set xs \<Longrightarrow> f x \<le> sum_list (map f xs)" for f :: "'a \<Rightarrow> nat"
  by (induction xs) auto

lemma filter_eq_iff_set: "filter P xs = [] \<longleftrightarrow> (\<forall>x \<in> set xs. \<not> P x)"
  by (simp add: filter_empty_conv)

lemma inj_on_append1: "inj_on f (set xs) \<Longrightarrow> f x \<notin> f ` set xs \<Longrightarrow> inj_on f (set (xs @ [x]))"
  by auto

lemma card_remove_less: "finite U \<Longrightarrow> i \<in> U \<Longrightarrow> card U < Suc n \<Longrightarrow> card (U - {i}) < n"
  using card_Diff1_less [of U i] by linarith

section \<open>Cycles\<close>

lemma acc_no_cycle: "x \<in> Wellfounded.acc (r\<inverse>) \<Longrightarrow> (x, x) \<notin> r\<^sup>+"
proof (induction rule: acc.induct)
  case (accI x)
  show ?case
  proof
    assume "(x, x) \<in> r\<^sup>+"
    then obtain y where y: "(x, y) \<in> r" "(y, x) \<in> r\<^sup>*" by (auto dest: tranclD)
    then have "(y, y) \<in> r\<^sup>+" by (auto intro: rtrancl_into_trancl1)
    with accI y(1) show False by simp
  qed
qed

end
