(* ===== verification/Lifecycle_Types.thy ===== *)
theory Lifecycle_Types
  imports Prelude
begin

text \<open>
  The data model of the task lifecycle, \<^verbatim>\<open>src/shared/lifecycle/taskLifecycleEvent.ts\<close>: the
  record, snapshot, event and intent types, and the runtime guards that decide whether a value
  restored from storage is one of them.

  The guards take a value of unknown shape, so they are stated over \<open>json\<close>, the values
  \<^verbatim>\<open>JSON.parse\<close> returns (numbers are integers here: every number the lifecycle stores is a
  timestamp, a revision or a sequence number). The typed records are tied to it by encoders,
  which omit absent fields as \<^verbatim>\<open>JSON.stringify\<close> does.
\<close>

section \<open>States, outcomes, causes\<close>

datatype task_lifecycle_state = Registered | Active | Suspended | Terminal

datatype task_terminal_outcome = Completed | Cancelled | Failed | Timed_out

datatype task_cancellation_state =
    No_cancellation
  | Requested (requestedAt: int) (requestEventId: string) (requestIntentId: string)

datatype task_lifecycle_transition_type =
    Register_generation | Activate_generation | Suspend_generation | Resume_generation
  | Replace_generation | Request_cancellation | Settle_cancellation | Settle_completion
  | Settle_failure | Settle_timeout | Propagate_parent_termination
  | Reactivate_after_completion_rejection

datatype task_lifecycle_causal_source =
    Src_task | Src_controller | Src_execution_funnel | Src_completion_funnel | Src_subagent
  | Src_parent_lifecycle | Src_recovery | Src_storage_restore | Src_test

record task_lifecycle_cause =
  cs_source :: task_lifecycle_causal_source
  cs_reason :: string
  cs_originatingOperationId :: "string option"
  cs_originatingEventId :: "string option"
  cs_authoritativeAt :: "int option"

datatype parent_governance = Attached | Detached

record task_parent_link =
  pl_taskId :: string
  pl_generationId :: string
  pl_governance :: parent_governance

section \<open>Records, snapshots, events\<close>

record task_lifecycle_record =
  tr_taskId :: string
  tr_generationId :: string
  tr_lifecycleRevision :: int
  tr_state :: task_lifecycle_state
  tr_terminalOutcome :: "task_terminal_outcome option"
  tr_cancellation :: task_cancellation_state
  tr_cause :: task_lifecycle_cause
  tr_parent :: "task_parent_link option"
  tr_lastEventId :: string
  tr_committedAt :: int
  tr_monotonicSequence :: int

record task_lifecycle_snapshot =
  sn_generationId :: string
  sn_lifecycleRevision :: int
  sn_state :: task_lifecycle_state
  sn_terminalOutcome :: "task_terminal_outcome option"
  sn_cancellation :: task_cancellation_state
  sn_lastEventId :: string
  sn_committedAt :: int
  sn_monotonicSequence :: int

datatype metadata_value = Meta_string string | Meta_number int | Meta_boolean bool

type_synonym metadata = "(string, metadata_value) jsmap"

record task_lifecycle_event =
  ev_eventId :: string
  ev_intentId :: string
  ev_taskId :: string
  ev_generationId :: string
  ev_lifecycleRevision :: int
  ev_transition :: task_lifecycle_transition_type
  ev_previous :: "task_lifecycle_snapshot option"
  ev_committed :: task_lifecycle_snapshot
  ev_terminalOutcome :: "task_terminal_outcome option"
  ev_cause :: task_lifecycle_cause
  ev_parent :: "task_parent_link option"
  ev_originatingOperationId :: "string option"
  ev_originatingEventId :: "string option"
  ev_committedAt :: int
  ev_monotonicSequence :: int
  ev_metadata :: "metadata option"

section \<open>Intents, rejections, eligibility\<close>

text \<open>\<^verbatim>\<open>Exclude<TaskTerminalOutcome, "completed">\<close>, the outcomes a parent passes on.\<close>

datatype propagated_outcome = Parent_cancelled | Parent_failed | Parent_timed_out

primrec outcome_of_propagated :: "propagated_outcome \<Rightarrow> task_terminal_outcome" where
  "outcome_of_propagated Parent_cancelled = Cancelled"
| "outcome_of_propagated Parent_failed = Failed"
| "outcome_of_propagated Parent_timed_out = Timed_out"

datatype task_lifecycle_intent_type =
    RegisterGeneration "task_parent_link option"
  | ActivateGeneration
  | SuspendGeneration
  | ReactivateAfterCompletionRejection int string string
  | is_ResumeWithGeneration: ResumeWithGeneration "string option"
  | RequestCancellation
  | SettleCancellation "metadata option"
  | SettleCompletion
  | SettleFailure "metadata option"
  | SettleTimeout "metadata option"
  | PropagateParentTermination string propagated_outcome

record task_lifecycle_intent =
  in_intentId :: string
  in_taskId :: string
  in_generationId :: string
  in_cause :: task_lifecycle_cause
  in_type :: task_lifecycle_intent_type

datatype task_lifecycle_rejection_code =
    Unknown_generation | Stale_generation | Stale_revision | Invalid_transition
  | Terminal_generation | Duplicate_intent | Cancellation_fenced | Cancellation_not_requested
  | Parent_constraint | Persistence_failed | Compare_and_swap_failed | Malformed_intent

datatype task_lifecycle_transition_result =
    Committed task_lifecycle_record task_lifecycle_event
  | Rejected task_lifecycle_rejection_code "task_lifecycle_record option"

definition isTaskLifecycleTerminal :: "task_lifecycle_record option \<Rightarrow> bool" where
  "isTaskLifecycleTerminal r \<longleftrightarrow> (case r of None \<Rightarrow> False | Some r \<Rightarrow> tr_state r = Terminal)"

definition cancellation_requested :: "task_lifecycle_record \<Rightarrow> bool" where
  "cancellation_requested r \<longleftrightarrow> tr_cancellation r \<noteq> No_cancellation"

definition isTaskCancellationPending :: "task_lifecycle_record option \<Rightarrow> bool" where
  "isTaskCancellationPending r \<longleftrightarrow> (case r of None \<Rightarrow> False | Some r \<Rightarrow> cancellation_requested r)"

definition attached_to :: "task_lifecycle_record \<Rightarrow> task_parent_link option" where
  "attached_to r = (case tr_parent r of
      Some p \<Rightarrow> if pl_governance p = Attached then Some p else None
    | None \<Rightarrow> None)"

section \<open>JSON values\<close>

datatype json =
    JNull
  | JBool bool
  | JNum int
  | JStr string
  | JArr "json list"
  | JObj "(string \<times> json) list"

text \<open>Property access: \<open>None\<close> is \<^verbatim>\<open>undefined\<close>.\<close>

definition jfield :: "json \<Rightarrow> string \<Rightarrow> json option" where
  "jfield v k = (case v of JObj fs \<Rightarrow> map_of fs k | _ \<Rightarrow> None)"

definition intersperse_comma :: "string list \<Rightarrow> string" where
  "intersperse_comma ss = (case ss of [] \<Rightarrow> [] | s # rest \<Rightarrow> s @ concat (map (\<lambda>t. CHR '','' # t) rest))"

text \<open>\<^verbatim>\<open>String(v)\<close>\<close>

fun js_String :: "json \<Rightarrow> string" where
  "js_String JNull = ''null''"
| "js_String (JBool b) = (if b then ''true'' else ''false'')"
| "js_String (JNum n) = show_int n"
| "js_String (JStr s) = s"
| "js_String (JArr xs) = intersperse_comma (map (\<lambda>x. if x = JNull then [] else js_String x) xs)"
| "js_String (JObj fs) = ''[object Object]''"

definition js_String_opt :: "json option \<Rightarrow> string" where
  "js_String_opt v = (case v of None \<Rightarrow> ''undefined'' | Some j \<Rightarrow> js_String j)"

end
