(* ===== verification/Lifecycle_Guards.thy ===== *)
theory Lifecycle_Guards
  imports Lifecycle_Types
begin

text \<open>
  The runtime guards of \<^verbatim>\<open>taskLifecycleEvent.ts\<close> over JSON values, the encoders of the typed
  records, and what the guards say of an encoded record: exactly the well-formedness the funnel
  has to establish for a record to survive its own restoration.
\<close>

section \<open>Guards over unknown values\<close>

definition isObject :: "json option \<Rightarrow> bool" where
  "isObject v = (case v of Some (JObj _) \<Rightarrow> True | _ \<Rightarrow> False)"

definition isIdentity :: "json option \<Rightarrow> bool" where
  "isIdentity v = (case v of Some (JStr s) \<Rightarrow> non_blank s | _ \<Rightarrow> False)"

definition isNumber :: "json option \<Rightarrow> bool" where
  "isNumber v = (case v of Some (JNum _) \<Rightarrow> True | _ \<Rightarrow> False)"

definition isPositiveSafeInteger :: "json option \<Rightarrow> bool" where
  "isPositiveSafeInteger v = (case v of Some (JNum n) \<Rightarrow> is_safe_integer n \<and> n > 0 | _ \<Rightarrow> False)"

definition ofield :: "json option \<Rightarrow> string \<Rightarrow> json option" where
  "ofield v k = (case v of None \<Rightarrow> None | Some j \<Rightarrow> jfield j k)"

definition causal_source_names :: "string list" where
  "causal_source_names = [''task'', ''controller'', ''execution_funnel'', ''completion_funnel'',
     ''subagent'', ''parent_lifecycle'', ''recovery'', ''storage_restore'', ''test'']"

definition isCause :: "json option \<Rightarrow> bool" where
  "isCause v \<longleftrightarrow>
     isObject v \<and> isIdentity (ofield v ''reason'') \<and>
     js_String_opt (ofield v ''source'') \<in> set causal_source_names \<and>
     (ofield v ''originatingOperationId'' = None \<or> isIdentity (ofield v ''originatingOperationId'')) \<and>
     (ofield v ''originatingEventId'' = None \<or> isIdentity (ofield v ''originatingEventId'')) \<and>
     (ofield v ''authoritativeAt'' = None \<or> isNumber (ofield v ''authoritativeAt''))"

definition isCancellation :: "json option \<Rightarrow> bool" where
  "isCancellation v \<longleftrightarrow>
     isObject v \<and>
     (if ofield v ''status'' = Some (JStr ''none'') then True
      else ofield v ''status'' = Some (JStr ''requested'') \<and>
           isNumber (ofield v ''requestedAt'') \<and>
           isIdentity (ofield v ''requestEventId'') \<and>
           isIdentity (ofield v ''requestIntentId''))"

definition isParent :: "json option \<Rightarrow> bool" where
  "isParent v \<longleftrightarrow>
     isObject v \<and> isIdentity (ofield v ''taskId'') \<and> isIdentity (ofield v ''generationId'') \<and>
     (ofield v ''governance'' = Some (JStr ''attached'') \<or>
      ofield v ''governance'' = Some (JStr ''detached''))"

definition is_outcome_name :: "json option \<Rightarrow> bool" where
  "is_outcome_name v \<longleftrightarrow> v \<in> (Some \<circ> JStr) ` {''completed'', ''cancelled'', ''failed'', ''timed_out''}"

definition is_state_name :: "json option \<Rightarrow> bool" where
  "is_state_name v \<longleftrightarrow> v \<in> (Some \<circ> JStr) ` {''registered'', ''active'', ''suspended'', ''terminal''}"

definition outcome_fits_state :: "json option \<Rightarrow> bool" where
  "outcome_fits_state v \<longleftrightarrow>
     (if ofield v ''state'' = Some (JStr ''terminal'') then is_outcome_name (ofield v ''terminalOutcome'')
      else ofield v ''terminalOutcome'' = None)"

definition isSnapshot :: "json option \<Rightarrow> bool" where
  "isSnapshot v \<longleftrightarrow>
     isObject v \<and>
     isIdentity (ofield v ''generationId'') \<and>
     isPositiveSafeInteger (ofield v ''lifecycleRevision'') \<and>
     is_state_name (ofield v ''state'') \<and>
     outcome_fits_state v \<and>
     isCancellation (ofield v ''cancellation'') \<and>
     isIdentity (ofield v ''lastEventId'') \<and>
     isNumber (ofield v ''committedAt'') \<and>
     isPositiveSafeInteger (ofield v ''monotonicSequence'')"

definition parent_ok :: "json option \<Rightarrow> bool" where
  "parent_ok v \<longleftrightarrow>
     ofield v ''parent'' = None \<or>
     (isParent (ofield v ''parent'') \<and> ofield (ofield v ''parent'') ''taskId'' \<noteq> ofield v ''taskId'')"

definition isTaskLifecycleRecord :: "json option \<Rightarrow> bool" where
  "isTaskLifecycleRecord v \<longleftrightarrow>
     isObject v \<and>
     ofield v ''schemaVersion'' = Some (JNum 1) \<and>
     isIdentity (ofield v ''taskId'') \<and>
     isIdentity (ofield v ''generationId'') \<and>
     isPositiveSafeInteger (ofield v ''lifecycleRevision'') \<and>
     is_state_name (ofield v ''state'') \<and>
     outcome_fits_state v \<and>
     isCancellation (ofield v ''cancellation'') \<and>
     isCause (ofield v ''cause'') \<and>
     parent_ok v \<and>
     isIdentity (ofield v ''lastEventId'') \<and>
     isNumber (ofield v ''committedAt'') \<and>
     isPositiveSafeInteger (ofield v ''monotonicSequence'')"

definition transition_names :: "string list" where
  "transition_names = [''register_generation'', ''activate_generation'', ''suspend_generation'',
     ''resume_generation'', ''replace_generation'', ''request_cancellation'', ''settle_cancellation'',
     ''settle_completion'', ''settle_failure'', ''settle_timeout'', ''propagate_parent_termination'',
     ''reactivate_after_completion_rejection'']"

definition is_metadata :: "json option \<Rightarrow> bool" where
  "is_metadata v \<longleftrightarrow> (case v of
       None \<Rightarrow> True
     | Some (JObj fs) \<Rightarrow> (\<forall>(k, e) \<in> set fs. case e of JStr _ \<Rightarrow> True | JNum _ \<Rightarrow> True | JBool _ \<Rightarrow> True | _ \<Rightarrow> False)
     | Some _ \<Rightarrow> False)"

definition isTaskLifecycleEvent :: "json option \<Rightarrow> bool" where
  "isTaskLifecycleEvent v \<longleftrightarrow>
     isObject v \<and>
     ofield v ''schemaVersion'' = Some (JNum 1) \<and>
     isIdentity (ofield v ''eventId'') \<and>
     isIdentity (ofield v ''intentId'') \<and>
     isIdentity (ofield v ''taskId'') \<and>
     isIdentity (ofield v ''generationId'') \<and>
     isPositiveSafeInteger (ofield v ''lifecycleRevision'') \<and>
     js_String_opt (ofield v ''transition'') \<in> set transition_names \<and>
     (ofield v ''previous'' = None \<or> isSnapshot (ofield v ''previous'')) \<and>
     isSnapshot (ofield v ''committed'') \<and>
     ofield (ofield v ''committed'') ''generationId'' = ofield v ''generationId'' \<and>
     ofield (ofield v ''committed'') ''lifecycleRevision'' = ofield v ''lifecycleRevision'' \<and>
     ofield (ofield v ''committed'') ''lastEventId'' = ofield v ''eventId'' \<and>
     ofield v ''terminalOutcome'' = ofield (ofield v ''committed'') ''terminalOutcome'' \<and>
     isCause (ofield v ''cause'') \<and>
     parent_ok v \<and>
     (ofield v ''originatingOperationId'' = None \<or> isIdentity (ofield v ''originatingOperationId'')) \<and>
     (ofield v ''originatingEventId'' = None \<or> isIdentity (ofield v ''originatingEventId'')) \<and>
     isNumber (ofield v ''committedAt'') \<and>
     ofield v ''committedAt'' = ofield (ofield v ''committed'') ''committedAt'' \<and>
     isPositiveSafeInteger (ofield v ''monotonicSequence'') \<and>
     ofield v ''monotonicSequence'' = ofield (ofield v ''committed'') ''monotonicSequence'' \<and>
     is_metadata (ofield v ''metadata'')"

text \<open>
  An object literal whose absent (\<^verbatim>\<open>undefined\<close>) fields are dropped, as \<^verbatim>\<open>JSON.stringify\<close> drops
  them.
\<close>

definition obj :: "(string \<times> json option) list \<Rightarrow> json" where
  "obj fs = JObj [(k, the v). (k, v) \<leftarrow> fs, v \<noteq> None]"

definition taskLifecycleRecordFromEvent :: "json option \<Rightarrow> json option" where
  "taskLifecycleRecordFromEvent v =
     (if \<not> isTaskLifecycleEvent v then None
      else let rec = obj
             [(''schemaVersion'', ofield v ''schemaVersion''),
              (''taskId'', ofield v ''taskId''),
              (''generationId'', ofield (ofield v ''committed'') ''generationId''),
              (''lifecycleRevision'', ofield (ofield v ''committed'') ''lifecycleRevision''),
              (''state'', ofield (ofield v ''committed'') ''state''),
              (''terminalOutcome'', ofield (ofield v ''committed'') ''terminalOutcome''),
              (''cancellation'', ofield (ofield v ''committed'') ''cancellation''),
              (''cause'', ofield v ''cause''),
              (''parent'', ofield v ''parent''),
              (''lastEventId'', ofield v ''eventId''),
              (''committedAt'', ofield v ''committedAt''),
              (''monotonicSequence'', ofield v ''monotonicSequence'')]
           in if isTaskLifecycleRecord (Some rec) then Some rec else None)"

definition isTaskLifecycleEventForRecord :: "json option \<Rightarrow> json option \<Rightarrow> bool" where
  "isTaskLifecycleEventForRecord event rec \<longleftrightarrow>
     isTaskLifecycleEvent event \<and>
     ofield event ''eventId'' = ofield rec ''lastEventId'' \<and>
     ofield event ''taskId'' = ofield rec ''taskId'' \<and>
     ofield event ''generationId'' = ofield rec ''generationId'' \<and>
     ofield event ''lifecycleRevision'' = ofield rec ''lifecycleRevision'' \<and>
     ofield (ofield event ''committed'') ''generationId'' = ofield rec ''generationId'' \<and>
     ofield (ofield event ''committed'') ''lifecycleRevision'' = ofield rec ''lifecycleRevision'' \<and>
     ofield (ofield event ''committed'') ''state'' = ofield rec ''state'' \<and>
     ofield (ofield event ''committed'') ''terminalOutcome'' = ofield rec ''terminalOutcome'' \<and>
     ofield (ofield event ''committed'') ''lastEventId'' = ofield rec ''lastEventId'' \<and>
     ofield (ofield event ''committed'') ''committedAt'' = ofield rec ''committedAt'' \<and>
     ofield (ofield event ''committed'') ''monotonicSequence'' = ofield rec ''monotonicSequence'' \<and>
     ofield event ''committedAt'' = ofield rec ''committedAt'' \<and>
     ofield event ''monotonicSequence'' = ofield rec ''monotonicSequence'' \<and>
     ofield event ''originatingOperationId'' = ofield (ofield rec ''cause'') ''originatingOperationId'' \<and>
     ofield event ''originatingEventId'' = ofield (ofield rec ''cause'') ''originatingEventId'' \<and>
     ofield (ofield event ''committed'') ''cancellation'' = ofield rec ''cancellation'' \<and>
     ofield event ''cause'' = ofield rec ''cause'' \<and>
     ofield event ''parent'' = ofield rec ''parent''"

section \<open>Encoders\<close>

primrec state_name :: "task_lifecycle_state \<Rightarrow> string" where
  "state_name Registered = ''registered''"
| "state_name Active = ''active''"
| "state_name Suspended = ''suspended''"
| "state_name Terminal = ''terminal''"

primrec outcome_name :: "task_terminal_outcome \<Rightarrow> string" where
  "outcome_name Completed = ''completed''"
| "outcome_name Cancelled = ''cancelled''"
| "outcome_name Failed = ''failed''"
| "outcome_name Timed_out = ''timed_out''"

primrec source_name :: "task_lifecycle_causal_source \<Rightarrow> string" where
  "source_name Src_task = ''task''"
| "source_name Src_controller = ''controller''"
| "source_name Src_execution_funnel = ''execution_funnel''"
| "source_name Src_completion_funnel = ''completion_funnel''"
| "source_name Src_subagent = ''subagent''"
| "source_name Src_parent_lifecycle = ''parent_lifecycle''"
| "source_name Src_recovery = ''recovery''"
| "source_name Src_storage_restore = ''storage_restore''"
| "source_name Src_test = ''test''"

primrec transition_type_name :: "task_lifecycle_transition_type \<Rightarrow> string" where
  "transition_type_name Register_generation = ''register_generation''"
| "transition_type_name Activate_generation = ''activate_generation''"
| "transition_type_name Suspend_generation = ''suspend_generation''"
| "transition_type_name Resume_generation = ''resume_generation''"
| "transition_type_name Replace_generation = ''replace_generation''"
| "transition_type_name Request_cancellation = ''request_cancellation''"
| "transition_type_name Settle_cancellation = ''settle_cancellation''"
| "transition_type_name Settle_completion = ''settle_completion''"
| "transition_type_name Settle_failure = ''settle_failure''"
| "transition_type_name Settle_timeout = ''settle_timeout''"
| "transition_type_name Propagate_parent_termination = ''propagate_parent_termination''"
| "transition_type_name Reactivate_after_completion_rejection = ''reactivate_after_completion_rejection''"

definition enc_cause :: "task_lifecycle_cause \<Rightarrow> json" where
  "enc_cause c = obj
     [(''source'', Some (JStr (source_name (cs_source c)))),
      (''reason'', Some (JStr (cs_reason c))),
      (''originatingOperationId'', map_option JStr (cs_originatingOperationId c)),
      (''originatingEventId'', map_option JStr (cs_originatingEventId c)),
      (''authoritativeAt'', map_option JNum (cs_authoritativeAt c))]"

definition enc_cancellation :: "task_cancellation_state \<Rightarrow> json" where
  "enc_cancellation c = (case c of
       No_cancellation \<Rightarrow> obj [(''status'', Some (JStr ''none''))]
     | Requested at eid iid \<Rightarrow> obj
         [(''status'', Some (JStr ''requested'')), (''requestedAt'', Some (JNum at)),
          (''requestEventId'', Some (JStr eid)), (''requestIntentId'', Some (JStr iid))])"

definition enc_parent :: "task_parent_link \<Rightarrow> json" where
  "enc_parent p = obj
     [(''taskId'', Some (JStr (pl_taskId p))),
      (''generationId'', Some (JStr (pl_generationId p))),
      (''governance'', Some (JStr (case pl_governance p of Attached \<Rightarrow> ''attached'' | Detached \<Rightarrow> ''detached'')))]"

definition enc_record :: "task_lifecycle_record \<Rightarrow> json" where
  "enc_record r = obj
     [(''schemaVersion'', Some (JNum 1)),
      (''taskId'', Some (JStr (tr_taskId r))),
      (''generationId'', Some (JStr (tr_generationId r))),
      (''lifecycleRevision'', Some (JNum (tr_lifecycleRevision r))),
      (''state'', Some (JStr (state_name (tr_state r)))),
      (''terminalOutcome'', map_option (JStr \<circ> outcome_name) (tr_terminalOutcome r)),
      (''cancellation'', Some (enc_cancellation (tr_cancellation r))),
      (''cause'', Some (enc_cause (tr_cause r))),
      (''parent'', map_option enc_parent (tr_parent r)),
      (''lastEventId'', Some (JStr (tr_lastEventId r))),
      (''committedAt'', Some (JNum (tr_committedAt r))),
      (''monotonicSequence'', Some (JNum (tr_monotonicSequence r)))]"

definition enc_snapshot :: "task_lifecycle_snapshot \<Rightarrow> json" where
  "enc_snapshot s = obj
     [(''generationId'', Some (JStr (sn_generationId s))),
      (''lifecycleRevision'', Some (JNum (sn_lifecycleRevision s))),
      (''state'', Some (JStr (state_name (sn_state s)))),
      (''terminalOutcome'', map_option (JStr \<circ> outcome_name) (sn_terminalOutcome s)),
      (''cancellation'', Some (enc_cancellation (sn_cancellation s))),
      (''lastEventId'', Some (JStr (sn_lastEventId s))),
      (''committedAt'', Some (JNum (sn_committedAt s))),
      (''monotonicSequence'', Some (JNum (sn_monotonicSequence s)))]"

primrec enc_metadata_value :: "metadata_value \<Rightarrow> json" where
  "enc_metadata_value (Meta_string s) = JStr s"
| "enc_metadata_value (Meta_number n) = JNum n"
| "enc_metadata_value (Meta_boolean b) = JBool b"

definition enc_event :: "task_lifecycle_event \<Rightarrow> json" where
  "enc_event e = obj
     [(''schemaVersion'', Some (JNum 1)),
      (''eventId'', Some (JStr (ev_eventId e))),
      (''intentId'', Some (JStr (ev_intentId e))),
      (''taskId'', Some (JStr (ev_taskId e))),
      (''generationId'', Some (JStr (ev_generationId e))),
      (''lifecycleRevision'', Some (JNum (ev_lifecycleRevision e))),
      (''transition'', Some (JStr (transition_type_name (ev_transition e)))),
      (''previous'', map_option enc_snapshot (ev_previous e)),
      (''committed'', Some (enc_snapshot (ev_committed e))),
      (''terminalOutcome'', map_option (JStr \<circ> outcome_name) (ev_terminalOutcome e)),
      (''cause'', Some (enc_cause (ev_cause e))),
      (''parent'', map_option enc_parent (ev_parent e)),
      (''originatingOperationId'', map_option JStr (ev_originatingOperationId e)),
      (''originatingEventId'', map_option JStr (ev_originatingEventId e)),
      (''committedAt'', Some (JNum (ev_committedAt e))),
      (''monotonicSequence'', Some (JNum (ev_monotonicSequence e))),
      (''metadata'', map_option (\<lambda>m. JObj (map (\<lambda>(k, v). (k, enc_metadata_value v)) m)) (ev_metadata e))]"

section \<open>Well-formed typed values\<close>

definition opt_ok :: "('a \<Rightarrow> bool) \<Rightarrow> 'a option \<Rightarrow> bool" where
  "opt_ok P v \<longleftrightarrow> (case v of None \<Rightarrow> True | Some x \<Rightarrow> P x)"

lemma opt_ok_simps [simp]: "opt_ok P None" "opt_ok P (Some x) = P x"
  by (simp_all add: opt_ok_def)

definition wf_cause :: "task_lifecycle_cause \<Rightarrow> bool" where
  "wf_cause c \<longleftrightarrow> non_blank (cs_reason c) \<and> opt_ok non_blank (cs_originatingOperationId c) \<and>
     opt_ok non_blank (cs_originatingEventId c)"

primrec wf_cancellation :: "task_cancellation_state \<Rightarrow> bool" where
  "wf_cancellation No_cancellation = True"
| "wf_cancellation (Requested at eid iid) = (non_blank eid \<and> non_blank iid)"

definition wf_parent :: "string \<Rightarrow> task_parent_link \<Rightarrow> bool" where
  "wf_parent task p \<longleftrightarrow> non_blank (pl_taskId p) \<and> non_blank (pl_generationId p) \<and> pl_taskId p \<noteq> task"

definition wf_outcome :: "task_lifecycle_state \<Rightarrow> task_terminal_outcome option \<Rightarrow> bool" where
  "wf_outcome s out \<longleftrightarrow> (s = Terminal \<longleftrightarrow> out \<noteq> None)"

definition wf_counter :: "int \<Rightarrow> bool" where
  "wf_counter n \<longleftrightarrow> 0 < n \<and> n \<le> max_safe_integer"

definition wf_record :: "task_lifecycle_record \<Rightarrow> bool" where
  "wf_record r \<longleftrightarrow> non_blank (tr_taskId r) \<and> non_blank (tr_generationId r) \<and>
     wf_counter (tr_lifecycleRevision r) \<and> wf_outcome (tr_state r) (tr_terminalOutcome r) \<and>
     wf_cancellation (tr_cancellation r) \<and> wf_cause (tr_cause r) \<and>
     opt_ok (wf_parent (tr_taskId r)) (tr_parent r) \<and> non_blank (tr_lastEventId r) \<and>
     wf_counter (tr_monotonicSequence r)"

definition wf_snapshot :: "task_lifecycle_snapshot \<Rightarrow> bool" where
  "wf_snapshot s \<longleftrightarrow> non_blank (sn_generationId s) \<and> wf_counter (sn_lifecycleRevision s) \<and>
     wf_outcome (sn_state s) (sn_terminalOutcome s) \<and> wf_cancellation (sn_cancellation s) \<and>
     non_blank (sn_lastEventId s) \<and> wf_counter (sn_monotonicSequence s)"

definition wf_event :: "task_lifecycle_event \<Rightarrow> bool" where
  "wf_event e \<longleftrightarrow> non_blank (ev_eventId e) \<and> non_blank (ev_intentId e) \<and> non_blank (ev_taskId e) \<and>
     non_blank (ev_generationId e) \<and> wf_counter (ev_lifecycleRevision e) \<and>
     opt_ok wf_snapshot (ev_previous e) \<and> wf_snapshot (ev_committed e) \<and>
     sn_generationId (ev_committed e) = ev_generationId e \<and>
     sn_lifecycleRevision (ev_committed e) = ev_lifecycleRevision e \<and>
     sn_lastEventId (ev_committed e) = ev_eventId e \<and>
     ev_terminalOutcome e = sn_terminalOutcome (ev_committed e) \<and>
     wf_cause (ev_cause e) \<and> opt_ok (wf_parent (ev_taskId e)) (ev_parent e) \<and>
     opt_ok non_blank (ev_originatingOperationId e) \<and> opt_ok non_blank (ev_originatingEventId e) \<and>
     ev_committedAt e = sn_committedAt (ev_committed e) \<and>
     wf_counter (ev_monotonicSequence e) \<and>
     ev_monotonicSequence e = sn_monotonicSequence (ev_committed e)"

text \<open>What \<^verbatim>\<open>isTaskLifecycleEventForRecord\<close> compares, on typed values.\<close>

definition event_commits :: "task_lifecycle_event \<Rightarrow> task_lifecycle_record \<Rightarrow> bool" where
  "event_commits e r \<longleftrightarrow>
     ev_eventId e = tr_lastEventId r \<and> ev_taskId e = tr_taskId r \<and>
     ev_generationId e = tr_generationId r \<and> ev_lifecycleRevision e = tr_lifecycleRevision r \<and>
     sn_state (ev_committed e) = tr_state r \<and> sn_terminalOutcome (ev_committed e) = tr_terminalOutcome r \<and>
     sn_committedAt (ev_committed e) = tr_committedAt r \<and>
     sn_monotonicSequence (ev_committed e) = tr_monotonicSequence r \<and>
     sn_cancellation (ev_committed e) = tr_cancellation r \<and>
     ev_originatingOperationId e = cs_originatingOperationId (tr_cause r) \<and>
     ev_originatingEventId e = cs_originatingEventId (tr_cause r) \<and>
     ev_cause e = tr_cause r \<and> ev_parent e = tr_parent r"

section \<open>Guards of encoded values\<close>

named_theorems enc_simps \<open>field access on encoded values\<close>

lemma jfield_obj:
  "distinct (map fst fs) \<Longrightarrow> jfield (obj fs) k = (case map_of fs k of None \<Rightarrow> None | Some v \<Rightarrow> v)"
proof (induction fs)
  case Nil
  then show ?case by (simp add: jfield_def obj_def)
next
  case (Cons f fs)
  obtain k' v where f: "f = (k', v)" by fastforce
  with Cons.prems have none: "map_of fs k' = None" by (auto simp: map_of_eq_None_iff)
  from Cons have IH: "jfield (obj fs) k = (case map_of fs k of None \<Rightarrow> None | Some v \<Rightarrow> v)" by simp
  show ?case
    using IH none by (cases v) (auto simp: f jfield_def obj_def)
qed

lemma isObject_obj [enc_simps]: "isObject (Some (obj fs))"
  by (simp add: isObject_def obj_def)

lemma ofield_obj [enc_simps]:
  "distinct (map fst fs) \<Longrightarrow> ofield (Some (obj fs)) k = (case map_of fs k of None \<Rightarrow> None | Some v \<Rightarrow> v)"
  by (simp add: ofield_def jfield_obj)

lemma ofield_None [enc_simps]: "ofield None k = None"
  by (simp add: ofield_def)

lemma isIdentity_simps [enc_simps]:
  "isIdentity (Some (JStr s)) = non_blank s" "\<not> isIdentity None"
  "isNumber (Some (JNum n))" "\<not> isNumber None"
  "isPositiveSafeInteger (Some (JNum n)) = wf_counter n"
  by (auto simp: isIdentity_def isNumber_def isPositiveSafeInteger_def wf_counter_def)

lemma optional_enc [enc_simps]:
  "isIdentity (map_option JStr x) \<longleftrightarrow> (\<exists>s. x = Some s \<and> non_blank s)"
  "isNumber (map_option JNum y) \<longleftrightarrow> y \<noteq> None"
  "map_option JStr x = map_option JStr x' \<longleftrightarrow> x = x'"
  "map_option JNum y = map_option JNum y' \<longleftrightarrow> y = y'"
  by (cases x; cases x'; cases y; cases y'; simp add: isIdentity_simps)+

lemma state_name_valid [enc_simps]: "is_state_name (Some (JStr (state_name s)))"
  by (cases s) (simp_all add: is_state_name_def)

lemma state_name_terminal [enc_simps]: "state_name s = ''terminal'' \<longleftrightarrow> s = Terminal"
  by (cases s) simp_all

lemma state_name_inj [enc_simps]: "state_name s = state_name t \<longleftrightarrow> s = t"
  by (cases s; cases t) simp_all

lemma outcome_name_valid [enc_simps]: "is_outcome_name (Some (JStr (outcome_name s)))"
  by (cases s) (simp_all add: is_outcome_name_def)

lemma outcome_name_inj [enc_simps]: "outcome_name s = outcome_name t \<longleftrightarrow> s = t"
  by (cases s; cases t) simp_all

lemma is_outcome_name_None [enc_simps]: "\<not> is_outcome_name None"
  by (auto simp: is_outcome_name_def)

lemma source_name_valid: "source_name s \<in> set causal_source_names"
  by (cases s) (simp_all add: causal_source_names_def)

lemma transition_type_name_valid: "transition_type_name t \<in> set transition_names"
  by (cases t) (simp_all add: transition_names_def)

lemma isCause_enc [enc_simps]: "isCause (Some (enc_cause c)) = wf_cause c"
  by (auto simp: isCause_def enc_cause_def wf_cause_def enc_simps js_String_opt_def source_name_valid
      opt_ok_def split: option.splits)

lemma isCancellation_enc [enc_simps]: "isCancellation (Some (enc_cancellation c)) = wf_cancellation c"
  by (cases c) (simp_all add: isCancellation_def enc_cancellation_def enc_simps)

lemma isParent_enc [enc_simps]:
  "isParent (Some (enc_parent p)) \<longleftrightarrow> non_blank (pl_taskId p) \<and> non_blank (pl_generationId p)"
  by (cases "pl_governance p") (simp_all add: isParent_def enc_parent_def enc_simps)

lemma enc_parent_taskId [enc_simps]: "ofield (Some (enc_parent p)) ''taskId'' = Some (JStr (pl_taskId p))"
  by (simp add: enc_parent_def enc_simps)

lemma ofield_enc_snapshot [enc_simps]:
  "ofield (Some (enc_snapshot s)) ''generationId'' = Some (JStr (sn_generationId s))"
  "ofield (Some (enc_snapshot s)) ''lifecycleRevision'' = Some (JNum (sn_lifecycleRevision s))"
  "ofield (Some (enc_snapshot s)) ''state'' = Some (JStr (state_name (sn_state s)))"
  "ofield (Some (enc_snapshot s)) ''terminalOutcome'' = map_option (JStr \<circ> outcome_name) (sn_terminalOutcome s)"
  "ofield (Some (enc_snapshot s)) ''cancellation'' = Some (enc_cancellation (sn_cancellation s))"
  "ofield (Some (enc_snapshot s)) ''lastEventId'' = Some (JStr (sn_lastEventId s))"
  "ofield (Some (enc_snapshot s)) ''committedAt'' = Some (JNum (sn_committedAt s))"
  "ofield (Some (enc_snapshot s)) ''monotonicSequence'' = Some (JNum (sn_monotonicSequence s))"
  "isObject (Some (enc_snapshot s))"
  by (simp_all add: enc_snapshot_def enc_simps)

lemma ofield_enc_record [enc_simps]:
  "ofield (Some (enc_record r)) ''schemaVersion'' = Some (JNum 1)"
  "ofield (Some (enc_record r)) ''taskId'' = Some (JStr (tr_taskId r))"
  "ofield (Some (enc_record r)) ''generationId'' = Some (JStr (tr_generationId r))"
  "ofield (Some (enc_record r)) ''lifecycleRevision'' = Some (JNum (tr_lifecycleRevision r))"
  "ofield (Some (enc_record r)) ''state'' = Some (JStr (state_name (tr_state r)))"
  "ofield (Some (enc_record r)) ''terminalOutcome'' = map_option (JStr \<circ> outcome_name) (tr_terminalOutcome r)"
  "ofield (Some (enc_record r)) ''cancellation'' = Some (enc_cancellation (tr_cancellation r))"
  "ofield (Some (enc_record r)) ''cause'' = Some (enc_cause (tr_cause r))"
  "ofield (Some (enc_record r)) ''parent'' = map_option enc_parent (tr_parent r)"
  "ofield (Some (enc_record r)) ''lastEventId'' = Some (JStr (tr_lastEventId r))"
  "ofield (Some (enc_record r)) ''committedAt'' = Some (JNum (tr_committedAt r))"
  "ofield (Some (enc_record r)) ''monotonicSequence'' = Some (JNum (tr_monotonicSequence r))"
  "isObject (Some (enc_record r))"
  by (simp_all add: enc_record_def enc_simps)

lemma ofield_enc_event [enc_simps]:
  "ofield (Some (enc_event e)) ''schemaVersion'' = Some (JNum 1)"
  "ofield (Some (enc_event e)) ''eventId'' = Some (JStr (ev_eventId e))"
  "ofield (Some (enc_event e)) ''intentId'' = Some (JStr (ev_intentId e))"
  "ofield (Some (enc_event e)) ''taskId'' = Some (JStr (ev_taskId e))"
  "ofield (Some (enc_event e)) ''generationId'' = Some (JStr (ev_generationId e))"
  "ofield (Some (enc_event e)) ''lifecycleRevision'' = Some (JNum (ev_lifecycleRevision e))"
  "ofield (Some (enc_event e)) ''transition'' = Some (JStr (transition_type_name (ev_transition e)))"
  "ofield (Some (enc_event e)) ''previous'' = map_option enc_snapshot (ev_previous e)"
  "ofield (Some (enc_event e)) ''committed'' = Some (enc_snapshot (ev_committed e))"
  "ofield (Some (enc_event e)) ''terminalOutcome'' = map_option (JStr \<circ> outcome_name) (ev_terminalOutcome e)"
  "ofield (Some (enc_event e)) ''cause'' = Some (enc_cause (ev_cause e))"
  "ofield (Some (enc_event e)) ''parent'' = map_option enc_parent (ev_parent e)"
  "ofield (Some (enc_event e)) ''originatingOperationId'' = map_option JStr (ev_originatingOperationId e)"
  "ofield (Some (enc_event e)) ''originatingEventId'' = map_option JStr (ev_originatingEventId e)"
  "ofield (Some (enc_event e)) ''committedAt'' = Some (JNum (ev_committedAt e))"
  "ofield (Some (enc_event e)) ''monotonicSequence'' = Some (JNum (ev_monotonicSequence e))"
  "ofield (Some (enc_event e)) ''metadata'' =
     map_option (\<lambda>m. JObj (map (\<lambda>(k, v). (k, enc_metadata_value v)) m)) (ev_metadata e)"
  "isObject (Some (enc_event e))"
  by (simp_all add: enc_event_def enc_simps)

lemma outcome_option_enc [enc_simps]:
  "map_option (JStr \<circ> outcome_name) a = map_option (JStr \<circ> outcome_name) b \<longleftrightarrow> a = b"
  by (cases a; cases b) (simp_all add: enc_simps)

lemma outcome_fits_state_enc [enc_simps]:
  "outcome_fits_state (Some (enc_record r)) = wf_outcome (tr_state r) (tr_terminalOutcome r)"
  "outcome_fits_state (Some (enc_snapshot s)) = wf_outcome (sn_state s) (sn_terminalOutcome s)"
  by (cases "tr_terminalOutcome r"; cases "sn_terminalOutcome s";
      simp add: outcome_fits_state_def wf_outcome_def enc_simps; fail)+

lemma parent_ok_enc [enc_simps]:
  "parent_ok (Some (enc_record r)) = opt_ok (wf_parent (tr_taskId r)) (tr_parent r)"
  "parent_ok (Some (enc_event e)) = opt_ok (wf_parent (ev_taskId e)) (ev_parent e)"
  by (cases "tr_parent r"; cases "ev_parent e"; simp add: parent_ok_def wf_parent_def enc_simps; blast)+

lemma isSnapshot_enc [enc_simps]: "isSnapshot (Some (enc_snapshot s)) = wf_snapshot s"
  by (simp add: isSnapshot_def wf_snapshot_def enc_simps)

lemma is_metadata_enc [enc_simps]:
  "is_metadata (map_option (\<lambda>m. JObj (map (\<lambda>(k, v). (k, enc_metadata_value v)) m)) x)"
proof (cases x)
  case None
  then show ?thesis by (simp add: is_metadata_def)
next
  case (Some m)
  have "(case enc_metadata_value v of JStr _ \<Rightarrow> True | JNum _ \<Rightarrow> True | JBool _ \<Rightarrow> True | _ \<Rightarrow> False)" for v
    by (cases v) simp_all
  with Some show ?thesis by (auto simp: is_metadata_def)
qed

lemma isTaskLifecycleRecord_enc: "isTaskLifecycleRecord (Some (enc_record r)) = wf_record r"
  by (simp add: isTaskLifecycleRecord_def wf_record_def enc_simps)

lemma isTaskLifecycleEvent_enc: "isTaskLifecycleEvent (Some (enc_event e)) = wf_event e"
  by (cases "ev_previous e"; cases "ev_originatingOperationId e"; cases "ev_originatingEventId e")
    (auto simp: isTaskLifecycleEvent_def wf_event_def enc_simps js_String_opt_def transition_type_name_valid)

lemma enc_cause_inj [enc_simps]: "enc_cause c = enc_cause d \<longleftrightarrow> c = d"
proof
  assume eq: "enc_cause c = enc_cause d"
  then have "ofield (Some (enc_cause c)) k = ofield (Some (enc_cause d)) k" for k by simp
  from this [of "''source''"] this [of "''reason''"] this [of "''originatingOperationId''"]
    this [of "''originatingEventId''"] this [of "''authoritativeAt''"]
  have "source_name (cs_source c) = source_name (cs_source d)" "cs_reason c = cs_reason d"
    "cs_originatingOperationId c = cs_originatingOperationId d"
    "cs_originatingEventId c = cs_originatingEventId d" "cs_authoritativeAt c = cs_authoritativeAt d"
    by (simp_all add: enc_cause_def enc_simps)
  moreover then have "cs_source c = cs_source d"
    by (cases "cs_source c"; cases "cs_source d") simp_all
  ultimately show "c = d" by simp
qed simp

lemma enc_cancellation_inj [enc_simps]: "enc_cancellation c = enc_cancellation d \<longleftrightarrow> c = d"
  by (cases c; cases d) (auto simp: enc_cancellation_def obj_def)

lemma enc_parent_inj [enc_simps]: "enc_parent p = enc_parent q \<longleftrightarrow> p = q"
  by (cases "pl_governance p"; cases "pl_governance q")
    (auto simp: enc_parent_def obj_def intro!: task_parent_link.equality)

lemma enc_parent_option [enc_simps]: "map_option enc_parent a = map_option enc_parent b \<longleftrightarrow> a = b"
  by (cases a; cases b) (simp_all add: enc_simps)

lemma ofield_enc_cause [enc_simps]:
  "ofield (Some (enc_cause c)) ''originatingOperationId'' = map_option JStr (cs_originatingOperationId c)"
  "ofield (Some (enc_cause c)) ''originatingEventId'' = map_option JStr (cs_originatingEventId c)"
  by (simp_all add: enc_cause_def enc_simps)

lemma isTaskLifecycleEventForRecord_enc:
  "isTaskLifecycleEventForRecord (Some (enc_event e)) (Some (enc_record r)) \<longleftrightarrow> wf_event e \<and> event_commits e r"
  by (auto simp: isTaskLifecycleEventForRecord_def isTaskLifecycleEvent_enc event_commits_def wf_event_def enc_simps)

end
