(* ===== verification/Lifecycle_Store.thy ===== *)
theory Lifecycle_Store
  imports Lifecycle_Guards
begin

text \<open>
  The journal behind the lifecycle funnel: \<^verbatim>\<open>InMemoryTaskLifecyclePersistence\<close> of
  \<^verbatim>\<open>src/core/task/lifecycle/TaskLifecyclePersistence.ts\<close>. A commit is a compare-and-swap on
  the task's record that also enforces the constraints between an attached child and its parent.

  The two maps of the class are insertion-ordered maps. \<^verbatim>\<open>clone\<close> copies a value through JSON,
  the identity on the typed values.
\<close>

section \<open>The store\<close>

record lifecycle_store =
  st_records :: "(string, task_lifecycle_record) jsmap"
  st_eventsByIntent :: "(string, task_lifecycle_event) jsmap"
  st_sequence :: int

definition empty_store :: lifecycle_store where
  "empty_store = \<lparr>st_records = [], st_eventsByIntent = [], st_sequence = 0\<rparr>"

text \<open>The expectation of a commit: the task is absent, or is at this generation and revision.\<close>

datatype lifecycle_commit_expectation = Expect_absent | Expect_at string int

datatype lifecycle_commit_result =
    Commit_committed task_lifecycle_record task_lifecycle_event
  | Commit_duplicate_intent task_lifecycle_record task_lifecycle_event
  | Commit_compare_and_swap_failed "task_lifecycle_record option"
  | Commit_constraint_failed "task_lifecycle_record option"

definition seq_record :: "int \<Rightarrow> task_lifecycle_record \<Rightarrow> task_lifecycle_record" where
  "seq_record n r = r\<lparr>tr_monotonicSequence := n\<rparr>"

definition seq_event :: "int \<Rightarrow> task_lifecycle_event \<Rightarrow> task_lifecycle_event" where
  "seq_event n e = e\<lparr>ev_committed := (ev_committed e)\<lparr>sn_monotonicSequence := n\<rparr>, ev_monotonicSequence := n\<rparr>"

definition withSequence ::
  "task_lifecycle_record \<Rightarrow> task_lifecycle_event \<Rightarrow> int \<Rightarrow> task_lifecycle_record \<times> task_lifecycle_event" where
  "withSequence r e n = (seq_record n r, seq_event n e)"

lemma seq_record_simps [simp]:
  "tr_taskId (seq_record n r) = tr_taskId r" "tr_generationId (seq_record n r) = tr_generationId r"
  "tr_lifecycleRevision (seq_record n r) = tr_lifecycleRevision r" "tr_state (seq_record n r) = tr_state r"
  "tr_terminalOutcome (seq_record n r) = tr_terminalOutcome r"
  "tr_cancellation (seq_record n r) = tr_cancellation r" "tr_cause (seq_record n r) = tr_cause r"
  "tr_parent (seq_record n r) = tr_parent r" "tr_lastEventId (seq_record n r) = tr_lastEventId r"
  "tr_committedAt (seq_record n r) = tr_committedAt r" "tr_monotonicSequence (seq_record n r) = n"
  by (simp_all add: seq_record_def)

lemma seq_event_simps [simp]:
  "ev_eventId (seq_event n e) = ev_eventId e" "ev_intentId (seq_event n e) = ev_intentId e"
  "ev_taskId (seq_event n e) = ev_taskId e" "ev_generationId (seq_event n e) = ev_generationId e"
  "ev_lifecycleRevision (seq_event n e) = ev_lifecycleRevision e"
  "ev_transition (seq_event n e) = ev_transition e" "ev_previous (seq_event n e) = ev_previous e"
  "ev_committed (seq_event n e) = (ev_committed e)\<lparr>sn_monotonicSequence := n\<rparr>"
  "ev_terminalOutcome (seq_event n e) = ev_terminalOutcome e" "ev_cause (seq_event n e) = ev_cause e"
  "ev_parent (seq_event n e) = ev_parent e"
  "ev_originatingOperationId (seq_event n e) = ev_originatingOperationId e"
  "ev_originatingEventId (seq_event n e) = ev_originatingEventId e"
  "ev_committedAt (seq_event n e) = ev_committedAt e" "ev_monotonicSequence (seq_event n e) = n"
  "ev_metadata (seq_event n e) = ev_metadata e"
  by (simp_all add: seq_event_def)

section \<open>Constraints between attached child and parent\<close>

text \<open>The reasons \<^verbatim>\<open>attachedParentConstraint\<close> returns, one per message.\<close>

datatype parent_violation =
    Stale_or_unknown_parent | Not_current_parent_event | Cancellation_without_parent_request
  | Settlement_without_parent_cancellation | Termination_mismatch | Untyped_propagation
  | Propagation_without_parent_source | After_parent_terminal | Fenced_by_parent_cancellation

definition propagation_violation ::
  "task_lifecycle_record \<Rightarrow> task_lifecycle_event \<Rightarrow> task_lifecycle_record \<Rightarrow> parent_violation option" where
  "propagation_violation r e parent =
     (if cs_source (ev_cause e) \<noteq> Src_parent_lifecycle then None
      else if cs_originatingEventId (ev_cause e) \<noteq> Some (tr_lastEventId parent)
      then Some Not_current_parent_event
      else if ev_transition e = Request_cancellation
      then (if \<not> cancellation_requested parent then Some Cancellation_without_parent_request else None)
      else if ev_transition e = Settle_cancellation
      then (if tr_state parent \<noteq> Terminal \<or> tr_terminalOutcome parent \<noteq> Some Cancelled
            then Some Settlement_without_parent_cancellation else None)
      else if ev_transition e = Propagate_parent_termination
      then (if tr_state parent \<noteq> Terminal \<or>
               (tr_terminalOutcome parent \<noteq> Some Failed \<and> tr_terminalOutcome parent \<noteq> Some Timed_out) \<or>
               tr_terminalOutcome r \<noteq> tr_terminalOutcome parent
            then Some Termination_mismatch else None)
      else Some Untyped_propagation)"

definition parent_settlement :: "task_lifecycle_event \<Rightarrow> bool" where
  "parent_settlement e \<longleftrightarrow> cs_source (ev_cause e) = Src_parent_lifecycle \<and>
     (ev_transition e = Propagate_parent_termination \<or> ev_transition e = Settle_cancellation)"

definition attachedParentConstraint ::
  "task_lifecycle_record \<Rightarrow> task_lifecycle_event \<Rightarrow> task_lifecycle_record option \<Rightarrow> parent_violation option" where
  "attachedParentConstraint r e parent_opt =
     (case attached_to r of
        None \<Rightarrow> None
      | Some link \<Rightarrow>
          if ev_transition e = Register_generation then None
          else (case parent_opt of
              None \<Rightarrow> Some Stale_or_unknown_parent
            | Some parent \<Rightarrow>
                if tr_generationId parent \<noteq> pl_generationId link then Some Stale_or_unknown_parent
                else (case propagation_violation r e parent of
                    Some v \<Rightarrow> Some v
                  | None \<Rightarrow>
                      if ev_transition e = Propagate_parent_termination \<and>
                         cs_source (ev_cause e) \<noteq> Src_parent_lifecycle
                      then Some Propagation_without_parent_source
                      else if tr_state parent = Terminal \<and> \<not> parent_settlement e
                      then Some After_parent_terminal
                      else if cancellation_requested parent \<and>
                              ev_transition e \<noteq> Request_cancellation \<and>
                              ev_transition e \<noteq> Settle_cancellation
                      then Some Fenced_by_parent_cancellation
                      else None)))"

section \<open>Operations\<close>

definition store_load :: "lifecycle_store \<Rightarrow> string \<Rightarrow> task_lifecycle_record option" where
  "store_load s taskId = js_get (st_records s) taskId"

definition store_loadEvent :: "lifecycle_store \<Rightarrow> string \<Rightarrow> task_lifecycle_event option" where
  "store_loadEvent s eventId = find (\<lambda>e. ev_eventId e = eventId) (js_values (st_eventsByIntent s))"

definition parent_record :: "lifecycle_store \<Rightarrow> task_lifecycle_record \<Rightarrow> task_lifecycle_record option" where
  "parent_record s r = (case tr_parent r of None \<Rightarrow> None | Some p \<Rightarrow> js_get (st_records s) (pl_taskId p))"

definition expectation_matches ::
  "lifecycle_commit_expectation \<Rightarrow> task_lifecycle_record option \<Rightarrow> bool" where
  "expectation_matches ex current =
     (case ex of
        Expect_absent \<Rightarrow> current = None
      | Expect_at g n \<Rightarrow> (case current of None \<Rightarrow> False
          | Some c \<Rightarrow> tr_generationId c = g \<and> tr_lifecycleRevision c = n))"

text \<open>An attached child registers only under the exact, active, unfenced parent generation.\<close>

definition register_blocked :: "lifecycle_store \<Rightarrow> task_lifecycle_record \<Rightarrow> task_lifecycle_event \<Rightarrow> bool" where
  "register_blocked s r e =
     (case attached_to r of
        None \<Rightarrow> False
      | Some link \<Rightarrow> ev_transition e = Register_generation \<and>
          (case js_get (st_records s) (pl_taskId link) of
             None \<Rightarrow> True
           | Some p \<Rightarrow> tr_generationId p \<noteq> pl_generationId link \<or> tr_state p \<noteq> Active \<or>
               cancellation_requested p))"

text \<open>An attached child completes only while its parent generation is open and unfenced.\<close>

definition completion_blocked :: "lifecycle_store \<Rightarrow> task_lifecycle_record \<Rightarrow> task_lifecycle_event \<Rightarrow> bool" where
  "completion_blocked s r e =
     (case attached_to r of
        None \<Rightarrow> False
      | Some link \<Rightarrow> ev_transition e = Settle_completion \<and>
          (case js_get (st_records s) (pl_taskId link) of
             None \<Rightarrow> True
           | Some p \<Rightarrow> tr_generationId p \<noteq> pl_generationId link \<or> tr_state p = Terminal \<or>
               cancellation_requested p))"

definition governedGeneration :: "task_lifecycle_record \<Rightarrow> task_lifecycle_event \<Rightarrow> string option" where
  "governedGeneration r e =
     (if ev_transition e = Replace_generation then map_option sn_generationId (ev_previous e)
      else Some (tr_generationId r))"

definition is_open_child :: "string \<Rightarrow> string option \<Rightarrow> task_lifecycle_record \<Rightarrow> bool" where
  "is_open_child taskId gen c =
     (case attached_to c of
        None \<Rightarrow> False
      | Some link \<Rightarrow> pl_taskId link = taskId \<and> Some (pl_generationId link) = gen \<and> tr_state c \<noteq> Terminal)"

definition activeChild ::
  "lifecycle_store \<Rightarrow> task_lifecycle_record \<Rightarrow> task_lifecycle_event \<Rightarrow> task_lifecycle_record option" where
  "activeChild s r e =
     (if ev_transition e = Settle_completion \<or> ev_transition e = Replace_generation
      then find (is_open_child (tr_taskId r) (governedGeneration r e)) (js_values (st_records s))
      else None)"

definition store_commit ::
  "lifecycle_store \<Rightarrow> lifecycle_commit_expectation \<Rightarrow> task_lifecycle_record \<Rightarrow> task_lifecycle_event \<Rightarrow>
   lifecycle_commit_result \<times> lifecycle_store" where
  "store_commit s ex r e =
     (let current = js_get (st_records s) (tr_taskId r)
      in case js_get (st_eventsByIntent s) (ev_intentId e) of
        Some dup \<Rightarrow>
          (case js_get (st_records s) (ev_taskId dup) of
             None \<Rightarrow> (Commit_compare_and_swap_failed None, s)
           | Some existing \<Rightarrow> (Commit_duplicate_intent existing dup, s))
      | None \<Rightarrow>
          if \<not> expectation_matches ex current then (Commit_compare_and_swap_failed current, s)
          else if register_blocked s r e then (Commit_constraint_failed current, s)
          else if attachedParentConstraint r e (parent_record s r) \<noteq> None
          then (Commit_constraint_failed current, s)
          else if completion_blocked s r e then (Commit_constraint_failed current, s)
          else if activeChild s r e \<noteq> None then (Commit_constraint_failed current, s)
          else let n = st_sequence s + 1; (r', e') = withSequence r e n
               in (Commit_committed r' e',
                   s\<lparr>st_records := js_set (st_records s) (tr_taskId r) r',
                     st_eventsByIntent := js_set (st_eventsByIntent s) (ev_intentId e) e',
                     st_sequence := n\<rparr>))"

definition listAttachedChildren :: "lifecycle_store \<Rightarrow> task_parent_link \<Rightarrow> task_lifecycle_record list" where
  "listAttachedChildren s parent =
     filter (\<lambda>r. case attached_to r of None \<Rightarrow> False
               | Some link \<Rightarrow> pl_taskId link = pl_taskId parent \<and> pl_generationId link = pl_generationId parent)
       (js_values (st_records s))"

section \<open>What a commit does\<close>

text \<open>The checks a committed transition has passed.\<close>

definition commit_admitted ::
  "lifecycle_store \<Rightarrow> lifecycle_commit_expectation \<Rightarrow> task_lifecycle_record \<Rightarrow> task_lifecycle_event \<Rightarrow> bool" where
  "commit_admitted s ex r e \<longleftrightarrow>
     js_get (st_eventsByIntent s) (ev_intentId e) = None \<and>
     expectation_matches ex (js_get (st_records s) (tr_taskId r)) \<and>
     \<not> register_blocked s r e \<and> attachedParentConstraint r e (parent_record s r) = None \<and>
     \<not> completion_blocked s r e \<and> activeChild s r e = None"

lemma store_commit_admitted:
  assumes "commit_admitted s ex r e"
  shows "store_commit s ex r e =
    (let n = st_sequence s + 1; (r', e') = withSequence r e n
     in (Commit_committed r' e',
         s\<lparr>st_records := js_set (st_records s) (tr_taskId r) r',
           st_eventsByIntent := js_set (st_eventsByIntent s) (ev_intentId e) e', st_sequence := n\<rparr>))"
  using assms by (simp add: commit_admitted_def store_commit_def Let_def)

lemma store_commit_refused:
  assumes "\<not> commit_admitted s ex r e"
  shows "snd (store_commit s ex r e) = s \<and> (\<forall>r' e'. fst (store_commit s ex r e) \<noteq> Commit_committed r' e')"
  using assms
  by (auto simp: commit_admitted_def store_commit_def Let_def split: option.splits)

lemma store_commit_committed:
  assumes "store_commit s ex r e = (Commit_committed r' e', s')"
  shows "commit_admitted s ex r e"
    and "r' = seq_record (st_sequence s + 1) r"
    and "e' = seq_event (st_sequence s + 1) e"
    and "s' = s\<lparr>st_records := js_set (st_records s) (tr_taskId r) r',
               st_eventsByIntent := js_set (st_eventsByIntent s) (ev_intentId e) e',
               st_sequence := st_sequence s + 1\<rparr>"
proof -
  show adm: "commit_admitted s ex r e"
    using store_commit_refused [of s ex r e] assms by auto
  note eq = assms [unfolded store_commit_admitted [OF adm] Let_def withSequence_def prod.case]
  from eq show "r' = seq_record (st_sequence s + 1) r" by simp
  moreover from eq show "e' = seq_event (st_sequence s + 1) e" by simp
  ultimately show "s' = s\<lparr>st_records := js_set (st_records s) (tr_taskId r) r',
               st_eventsByIntent := js_set (st_eventsByIntent s) (ev_intentId e) e',
               st_sequence := st_sequence s + 1\<rparr>" using eq by simp
qed

end
