(* ===== verification/Lifecycle_Funnel.thy ===== *)
theory Lifecycle_Funnel
  imports Lifecycle_Store
begin

text \<open>
  The transition authority of a task, \<^verbatim>\<open>src/core/task/lifecycle/TaskLifecycleFunnel.ts\<close>:
  \<open>evaluate\<close> decides an intent against the current record, \<open>submit\<close> commits it, projects it
  onto the task's state and passes terminations on to attached children.

  \<^verbatim>\<open>randomUUID\<close> and \<^verbatim>\<open>Date.now\<close> are read from an environment: the \<open>n\<close>-th draw is
  \<open>env_uuid E n\<close>, the \<open>n\<close>-th clock reading \<open>env_now E n\<close>. The English reason of a rejection is
  not modelled; its code and the record it returns are.
\<close>

section \<open>Evaluation of an intent\<close>

definition snapshot :: "task_lifecycle_record \<Rightarrow> task_lifecycle_snapshot" where
  "snapshot r = \<lparr>sn_generationId = tr_generationId r, sn_lifecycleRevision = tr_lifecycleRevision r,
     sn_state = tr_state r, sn_terminalOutcome = tr_terminalOutcome r,
     sn_cancellation = tr_cancellation r, sn_lastEventId = tr_lastEventId r,
     sn_committedAt = tr_committedAt r, sn_monotonicSequence = tr_monotonicSequence r\<rparr>"

primrec terminalOutcomeForIntent :: "task_lifecycle_intent_type \<Rightarrow> task_terminal_outcome option" where
  "terminalOutcomeForIntent SettleCompletion = Some Completed"
| "terminalOutcomeForIntent (SettleCancellation m) = Some Cancelled"
| "terminalOutcomeForIntent (SettleFailure m) = Some Failed"
| "terminalOutcomeForIntent (SettleTimeout m) = Some Timed_out"
| "terminalOutcomeForIntent (PropagateParentTermination ev out) = Some (outcome_of_propagated out)"
| "terminalOutcomeForIntent (RegisterGeneration p) = None"
| "terminalOutcomeForIntent ActivateGeneration = None"
| "terminalOutcomeForIntent SuspendGeneration = None"
| "terminalOutcomeForIntent (ReactivateAfterCompletionRejection n a d) = None"
| "terminalOutcomeForIntent (ResumeWithGeneration g) = None"
| "terminalOutcomeForIntent RequestCancellation = None"

primrec transitionName :: "task_lifecycle_intent_type \<Rightarrow> bool \<Rightarrow> task_lifecycle_transition_type" where
  "transitionName (RegisterGeneration p) replacing = Register_generation"
| "transitionName ActivateGeneration replacing = Activate_generation"
| "transitionName SuspendGeneration replacing = Suspend_generation"
| "transitionName (ReactivateAfterCompletionRejection n a d) replacing = Reactivate_after_completion_rejection"
| "transitionName (ResumeWithGeneration g) replacing =
     (if replacing then Replace_generation else Resume_generation)"
| "transitionName RequestCancellation replacing = Request_cancellation"
| "transitionName (SettleCancellation m) replacing = Settle_cancellation"
| "transitionName SettleCompletion replacing = Settle_completion"
| "transitionName (SettleFailure m) replacing = Settle_failure"
| "transitionName (SettleTimeout m) replacing = Settle_timeout"
| "transitionName (PropagateParentTermination ev out) replacing = Propagate_parent_termination"

text \<open>The local variables of \<^verbatim>\<open>evaluate\<close> that its switch assigns.\<close>

record lifecycle_change =
  ch_generationId :: string
  ch_state :: task_lifecycle_state
  ch_terminalOutcome :: "task_terminal_outcome option"
  ch_cancellation :: task_cancellation_state
  ch_parent :: "task_parent_link option"
  ch_replacingGeneration :: bool
  ch_metadata :: "metadata option"

definition initial_change :: "task_lifecycle_record option \<Rightarrow> task_lifecycle_intent \<Rightarrow> lifecycle_change" where
  "initial_change current i =
     \<lparr>ch_generationId = in_generationId i,
      ch_state = (case current of None \<Rightarrow> Registered | Some c \<Rightarrow> tr_state c),
      ch_terminalOutcome = (case current of None \<Rightarrow> None | Some c \<Rightarrow> tr_terminalOutcome c),
      ch_cancellation = (case current of None \<Rightarrow> No_cancellation | Some c \<Rightarrow> tr_cancellation c),
      ch_parent = (case current of None \<Rightarrow> None | Some c \<Rightarrow> tr_parent c),
      ch_replacingGeneration = False,
      ch_metadata = None\<rparr>"

abbreviation current_state :: "task_lifecycle_record option \<Rightarrow> task_lifecycle_state option" where
  "current_state current \<equiv> map_option tr_state current"

text \<open>\<^verbatim>\<open>!intent.newGenerationId\<close>: absent or empty.\<close>

definition no_string :: "string option \<Rightarrow> bool" where
  "no_string s \<longleftrightarrow> s = None \<or> s = Some []"

definition evaluate_reactivate ::
  "task_lifecycle_record option \<Rightarrow> int \<Rightarrow> string \<Rightarrow> string \<Rightarrow> lifecycle_change \<Rightarrow>
   task_lifecycle_rejection_code + lifecycle_change" where
  "evaluate_reactivate current expectedRevision completionAttemptId decisionId ch =
     (case current of
        None \<Rightarrow> Inl Invalid_transition
      | Some c \<Rightarrow>
          if tr_state c \<noteq> Suspended then Inl Invalid_transition
          else if tr_lifecycleRevision c \<noteq> expectedRevision then Inl Stale_revision
          else if cancellation_requested c then Inl Cancellation_fenced
          else if cs_reason (tr_cause c) \<noteq> ''awaiting_completion_decision:'' @ completionAttemptId
          then Inl Invalid_transition
          else if cs_originatingOperationId (tr_cause c) \<noteq> Some decisionId then Inl Invalid_transition
          else Inr (ch\<lparr>ch_state := Active\<rparr>))"

definition evaluate_resume ::
  "task_lifecycle_record option \<Rightarrow> string option \<Rightarrow> lifecycle_change \<Rightarrow>
   task_lifecycle_rejection_code + lifecycle_change" where
  "evaluate_resume current newGenerationId ch =
     (if current_state current = Some Suspended \<and> no_string newGenerationId
      then (if isTaskCancellationPending current then Inl Cancellation_fenced
            else Inr (ch\<lparr>ch_state := Active\<rparr>))
      else if current_state current \<noteq> Some Suspended \<and> current_state current \<noteq> Some Terminal
      then Inl Invalid_transition
      else if no_string newGenerationId \<or> newGenerationId = map_option tr_generationId current
      then Inl (if current_state current = Some Terminal then Terminal_generation else Invalid_transition)
      else Inr (ch\<lparr>ch_generationId := the newGenerationId, ch_state := Active,
                  ch_terminalOutcome := None, ch_cancellation := No_cancellation,
                  ch_replacingGeneration := True\<rparr>))"

definition evaluate_requestCancellation ::
  "task_lifecycle_record option \<Rightarrow> string \<Rightarrow> int \<Rightarrow> lifecycle_change \<Rightarrow>
   task_lifecycle_rejection_code + lifecycle_change" where
  "evaluate_requestCancellation current intentId now ch =
     (if isTaskCancellationPending current then Inl Duplicate_intent
      else if current_state current \<notin> {Some Active, Some Suspended, Some Registered}
      then Inl Invalid_transition
      else Inr (ch\<lparr>ch_cancellation := Requested now ''pending'' intentId\<rparr>))"

definition evaluate_settleCompletion ::
  "task_lifecycle_record option \<Rightarrow> task_lifecycle_cause \<Rightarrow> lifecycle_change \<Rightarrow>
   task_lifecycle_rejection_code + lifecycle_change" where
  "evaluate_settleCompletion current cause ch =
     (if cs_source cause \<noteq> Src_completion_funnel \<and> cs_source cause \<noteq> Src_test
      then Inl Invalid_transition
      else if (case map_option tr_cancellation current of
                 Some (Requested at _ _) \<Rightarrow>
                   (case cs_authoritativeAt cause of None \<Rightarrow> True | Some t \<Rightarrow> t \<ge> at)
               | _ \<Rightarrow> False)
      then Inl Cancellation_fenced
      else Inr (ch\<lparr>ch_state := Terminal, ch_terminalOutcome := Some Completed\<rparr>))"

definition evaluate_propagate ::
  "task_lifecycle_record option \<Rightarrow> string \<Rightarrow> string \<Rightarrow> propagated_outcome \<Rightarrow> lifecycle_change \<Rightarrow>
   task_lifecycle_rejection_code + lifecycle_change" where
  "evaluate_propagate current taskId parentEventId parentOutcome ch =
     (case Option.bind current attached_to of
        None \<Rightarrow> Inl Parent_constraint
      | Some link \<Rightarrow>
          if pl_taskId link = taskId \<or> parentEventId = [] then Inl Parent_constraint
          else Inr (ch\<lparr>ch_state := Terminal,
                      ch_terminalOutcome := Some (outcome_of_propagated parentOutcome),
                      ch_metadata := Some [(''parentEventId'', Meta_string parentEventId)]\<rparr>))"

definition evaluate_switch ::
  "task_lifecycle_record option \<Rightarrow> task_lifecycle_intent \<Rightarrow> int \<Rightarrow>
   task_lifecycle_rejection_code + lifecycle_change" where
  "evaluate_switch current i now =
     (let ch = initial_change current i in
      case in_type i of
        RegisterGeneration parent \<Rightarrow> Inr (ch\<lparr>ch_state := Registered, ch_parent := parent\<rparr>)
      | ActivateGeneration \<Rightarrow>
          if current_state current \<noteq> Some Registered then Inl Invalid_transition
          else Inr (ch\<lparr>ch_state := Active\<rparr>)
      | ReactivateAfterCompletionRejection n att dec \<Rightarrow> evaluate_reactivate current n att dec ch
      | SuspendGeneration \<Rightarrow>
          if current_state current \<noteq> Some Active \<or> isTaskCancellationPending current
          then Inl Invalid_transition
          else Inr (ch\<lparr>ch_state := Suspended\<rparr>)
      | ResumeWithGeneration g \<Rightarrow> evaluate_resume current g ch
      | RequestCancellation \<Rightarrow> evaluate_requestCancellation current (in_intentId i) now ch
      | SettleCancellation m \<Rightarrow>
          if \<not> isTaskCancellationPending current then Inl Cancellation_not_requested
          else Inr (ch\<lparr>ch_state := Terminal, ch_terminalOutcome := Some Cancelled, ch_metadata := m\<rparr>)
      | SettleCompletion \<Rightarrow> evaluate_settleCompletion current (in_cause i) ch
      | SettleFailure m \<Rightarrow>
          if isTaskCancellationPending current then Inl Cancellation_fenced
          else Inr (ch\<lparr>ch_state := Terminal, ch_terminalOutcome := Some Failed, ch_metadata := m\<rparr>)
      | SettleTimeout m \<Rightarrow>
          if isTaskCancellationPending current then Inl Cancellation_fenced
          else Inr (ch\<lparr>ch_state := Terminal, ch_terminalOutcome := Some Timed_out, ch_metadata := m\<rparr>)
      | PropagateParentTermination ev out \<Rightarrow> evaluate_propagate current (in_taskId i) ev out ch)"

text \<open>The cancellation of the committed record names the event that requested it.\<close>

definition stamp_cancellation :: "task_lifecycle_intent \<Rightarrow> string \<Rightarrow> task_cancellation_state \<Rightarrow> task_cancellation_state" where
  "stamp_cancellation i eventId c =
     (case (in_type i, c) of
        (RequestCancellation, Requested at _ iid) \<Rightarrow> Requested at eventId iid
      | _ \<Rightarrow> c)"

definition record_of_change ::
  "task_lifecycle_record option \<Rightarrow> task_lifecycle_intent \<Rightarrow> lifecycle_change \<Rightarrow> int \<Rightarrow> string \<Rightarrow> task_lifecycle_record" where
  "record_of_change current i ch now eventId =
     \<lparr>tr_taskId = in_taskId i, tr_generationId = ch_generationId ch,
      tr_lifecycleRevision = (case current of None \<Rightarrow> 0 | Some c \<Rightarrow> tr_lifecycleRevision c) + 1,
      tr_state = ch_state ch, tr_terminalOutcome = ch_terminalOutcome ch,
      tr_cancellation = stamp_cancellation i eventId (ch_cancellation ch),
      tr_cause = in_cause i, tr_parent = ch_parent ch, tr_lastEventId = eventId,
      tr_committedAt = now, tr_monotonicSequence = 0\<rparr>"

definition event_of_change ::
  "task_lifecycle_record option \<Rightarrow> task_lifecycle_intent \<Rightarrow> lifecycle_change \<Rightarrow> int \<Rightarrow> string \<Rightarrow> task_lifecycle_event" where
  "event_of_change current i ch now eventId =
     (let r = record_of_change current i ch now eventId in
     \<lparr>ev_eventId = eventId, ev_intentId = in_intentId i, ev_taskId = in_taskId i,
      ev_generationId = ch_generationId ch, ev_lifecycleRevision = tr_lifecycleRevision r,
      ev_transition = transitionName (in_type i) (ch_replacingGeneration ch),
      ev_previous = map_option snapshot current, ev_committed = snapshot r,
      ev_terminalOutcome = terminalOutcomeForIntent (in_type i),
      ev_cause = in_cause i, ev_parent = ch_parent ch,
      ev_originatingOperationId = cs_originatingOperationId (in_cause i),
      ev_originatingEventId = cs_originatingEventId (in_cause i),
      ev_committedAt = now, ev_monotonicSequence = 0, ev_metadata = ch_metadata ch\<rparr>)"

definition evaluate ::
  "task_lifecycle_record option \<Rightarrow> task_lifecycle_intent \<Rightarrow> int \<Rightarrow> string \<Rightarrow>
   task_lifecycle_rejection_code + (task_lifecycle_record \<times> task_lifecycle_event)" where
  "evaluate current i now eventId =
     (case evaluate_switch current i now of
        Inl code \<Rightarrow> Inl code
      | Inr ch \<Rightarrow> Inr (record_of_change current i ch now eventId, event_of_change current i ch now eventId))"

text \<open>The fences \<^verbatim>\<open>submitSerialized\<close> checks before evaluating.\<close>

definition admission ::
  "task_lifecycle_record option \<Rightarrow> task_lifecycle_intent \<Rightarrow> task_lifecycle_rejection_code option" where
  "admission current i =
     (case (in_type i, current) of
        (RegisterGeneration _, None) \<Rightarrow> None
      | (RegisterGeneration _, Some c) \<Rightarrow>
          Some (if tr_generationId c = in_generationId i then Invalid_transition else Stale_generation)
      | (_, None) \<Rightarrow> Some Unknown_generation
      | (t, Some c) \<Rightarrow>
          if tr_generationId c \<noteq> in_generationId i then Some Stale_generation
          else if tr_state c = Terminal \<and> \<not> is_ResumeWithGeneration t then Some Terminal_generation
          else None)"

definition validIdentity :: "string \<Rightarrow> bool" where
  "validIdentity s \<longleftrightarrow> non_blank s"

definition valid_intent_ids :: "task_lifecycle_intent \<Rightarrow> bool" where
  "valid_intent_ids i \<longleftrightarrow> validIdentity (in_intentId i) \<and> validIdentity (in_taskId i) \<and> validIdentity (in_generationId i)"

definition expectation_of :: "task_lifecycle_record option \<Rightarrow> lifecycle_commit_expectation" where
  "expectation_of current = (case current of
       None \<Rightarrow> Expect_absent
     | Some c \<Rightarrow> Expect_at (tr_generationId c) (tr_lifecycleRevision c))"

section \<open>What an accepted evaluation looks like\<close>

text \<open>What the callers of the funnel supply; the funnel itself checks only the three identifiers.\<close>

definition wf_intent :: "task_lifecycle_intent \<Rightarrow> bool" where
  "wf_intent i \<longleftrightarrow> valid_intent_ids i \<and> wf_cause (in_cause i) \<and>
     (case in_type i of
        RegisterGeneration p \<Rightarrow> opt_ok (wf_parent (in_taskId i)) p
      | ResumeWithGeneration g \<Rightarrow> no_string g \<or> opt_ok non_blank g
      | _ \<Rightarrow> True)"

lemmas evaluate_defs =
  evaluate_switch_def evaluate_reactivate_def evaluate_resume_def evaluate_requestCancellation_def
  evaluate_settleCompletion_def evaluate_propagate_def initial_change_def

lemma record_of_change_simps [simp]:
  "tr_taskId (record_of_change cur i ch now eid) = in_taskId i"
  "tr_generationId (record_of_change cur i ch now eid) = ch_generationId ch"
  "tr_lifecycleRevision (record_of_change cur i ch now eid) =
     (case cur of None \<Rightarrow> 0 | Some c \<Rightarrow> tr_lifecycleRevision c) + 1"
  "tr_state (record_of_change cur i ch now eid) = ch_state ch"
  "tr_terminalOutcome (record_of_change cur i ch now eid) = ch_terminalOutcome ch"
  "tr_cancellation (record_of_change cur i ch now eid) = stamp_cancellation i eid (ch_cancellation ch)"
  "tr_cause (record_of_change cur i ch now eid) = in_cause i"
  "tr_parent (record_of_change cur i ch now eid) = ch_parent ch"
  "tr_lastEventId (record_of_change cur i ch now eid) = eid"
  "tr_committedAt (record_of_change cur i ch now eid) = now"
  "tr_monotonicSequence (record_of_change cur i ch now eid) = 0"
  by (simp_all add: record_of_change_def)

lemma event_of_change_simps [simp]:
  "ev_eventId (event_of_change cur i ch now eid) = eid"
  "ev_intentId (event_of_change cur i ch now eid) = in_intentId i"
  "ev_taskId (event_of_change cur i ch now eid) = in_taskId i"
  "ev_generationId (event_of_change cur i ch now eid) = ch_generationId ch"
  "ev_lifecycleRevision (event_of_change cur i ch now eid) =
     (case cur of None \<Rightarrow> 0 | Some c \<Rightarrow> tr_lifecycleRevision c) + 1"
  "ev_transition (event_of_change cur i ch now eid) = transitionName (in_type i) (ch_replacingGeneration ch)"
  "ev_previous (event_of_change cur i ch now eid) = map_option snapshot cur"
  "ev_committed (event_of_change cur i ch now eid) = snapshot (record_of_change cur i ch now eid)"
  "ev_terminalOutcome (event_of_change cur i ch now eid) = terminalOutcomeForIntent (in_type i)"
  "ev_cause (event_of_change cur i ch now eid) = in_cause i"
  "ev_parent (event_of_change cur i ch now eid) = ch_parent ch"
  "ev_originatingOperationId (event_of_change cur i ch now eid) = cs_originatingOperationId (in_cause i)"
  "ev_originatingEventId (event_of_change cur i ch now eid) = cs_originatingEventId (in_cause i)"
  "ev_committedAt (event_of_change cur i ch now eid) = now"
  "ev_monotonicSequence (event_of_change cur i ch now eid) = 0"
  "ev_metadata (event_of_change cur i ch now eid) = ch_metadata ch"
  by (simp_all add: event_of_change_def Let_def)

lemma snapshot_simps [simp]:
  "sn_generationId (snapshot r) = tr_generationId r"
  "sn_lifecycleRevision (snapshot r) = tr_lifecycleRevision r"
  "sn_state (snapshot r) = tr_state r" "sn_terminalOutcome (snapshot r) = tr_terminalOutcome r"
  "sn_cancellation (snapshot r) = tr_cancellation r" "sn_lastEventId (snapshot r) = tr_lastEventId r"
  "sn_committedAt (snapshot r) = tr_committedAt r"
  "sn_monotonicSequence (snapshot r) = tr_monotonicSequence r"
  by (simp_all add: snapshot_def)

lemma evaluate_InrD:
  assumes "evaluate cur i now eid = Inr (r, e)"
  obtains ch where "evaluate_switch cur i now = Inr ch"
    and "r = record_of_change cur i ch now eid" and "e = event_of_change cur i ch now eid"
  using assms by (auto simp: evaluate_def split: sum.splits)

lemma evaluate_fields:
  assumes "evaluate cur i now eid = Inr (r, e)"
  shows "tr_taskId r = in_taskId i" "tr_lastEventId r = eid" "tr_cause r = in_cause i"
    and "tr_lifecycleRevision r = (case cur of None \<Rightarrow> 0 | Some c \<Rightarrow> tr_lifecycleRevision c) + 1"
    and "ev_intentId e = in_intentId i" "ev_eventId e = eid" "ev_cause e = in_cause i"
    and "ev_previous e = map_option snapshot cur"
    and "event_commits e r"
  using assms
  by (auto elim!: evaluate_InrD simp: event_commits_def)

lemma admission_None_iff:
  "admission cur i = None \<longleftrightarrow>
     (case in_type i of
        RegisterGeneration p \<Rightarrow> cur = None
      | t \<Rightarrow> (\<exists>c. cur = Some c \<and> tr_generationId c = in_generationId i \<and>
               (tr_state c = Terminal \<longrightarrow> is_ResumeWithGeneration t)))"
  by (auto simp: admission_def split: option.splits task_lifecycle_intent_type.splits)

text \<open>The transition, generation, state, outcome and parent of an accepted intent, type by type.\<close>

lemma evaluate_switch_cases:
  assumes "evaluate_switch cur i now = Inr ch" and "admission cur i = None"
  shows "case in_type i of
      RegisterGeneration p \<Rightarrow> cur = None \<and> ch_state ch = Registered \<and> ch_parent ch = p \<and>
        ch_generationId ch = in_generationId i \<and> ch_terminalOutcome ch = None \<and>
        ch_cancellation ch = No_cancellation \<and> \<not> ch_replacingGeneration ch
    | t \<Rightarrow> (\<exists>c. cur = Some c \<and> tr_generationId c = in_generationId i \<and> ch_parent ch = tr_parent c \<and>
        (if ch_replacingGeneration ch
         then (\<exists>g. t = ResumeWithGeneration (Some g) \<and> g \<noteq> [] \<and> g \<noteq> tr_generationId c \<and> ch_generationId ch = g) \<and>
              tr_state c \<in> {Suspended, Terminal} \<and> ch_state ch = Active \<and>
              ch_terminalOutcome ch = None \<and> ch_cancellation ch = No_cancellation
         else tr_state c \<noteq> Terminal \<and> ch_generationId ch = tr_generationId c \<and>
              (if terminalOutcomeForIntent t = None
               then ch_state ch \<noteq> Terminal \<and> ch_terminalOutcome ch = tr_terminalOutcome c
               else ch_state ch = Terminal \<and> ch_terminalOutcome ch = terminalOutcomeForIntent t) \<and>
              (if t = RequestCancellation
               then \<not> cancellation_requested c \<and> ch_cancellation ch = Requested now ''pending'' (in_intentId i)
               else ch_cancellation ch = tr_cancellation c)))"
  using assms
  by (cases "in_type i"; cases cur)
    (auto simp: evaluate_defs admission_def no_string_def Let_def isTaskCancellationPending_def
      split: if_splits option.splits task_cancellation_state.splits)

end
