(* ===== verification/Lifecycle_Invariants.thy ===== *)
theory Lifecycle_Invariants
  imports Lifecycle_Funnel
begin

text \<open>
  The journal under concurrent submissions. Submissions for different tasks run interleaved: each
  loads its record, evaluates the intent, and commits later with a compare-and-swap. The step
  relation below takes these two halves as separate steps, in any order, and the invariant says
  what the journal satisfies in every reachable state. Event identifiers are fresh, as
  \<^verbatim>\<open>randomUUID\<close> draws are, and the journal is shorter than \<open>2 ^ 53\<close> commits.
\<close>

section \<open>Steps\<close>

record pending_commit =
  pd_current :: "task_lifecycle_record option"
  pd_intent :: task_lifecycle_intent
  pd_now :: int
  pd_eventId :: string
  pd_record :: task_lifecycle_record
  pd_event :: task_lifecycle_event

type_synonym lifecycle_system = "lifecycle_store \<times> pending_commit list"

definition known_event_ids :: "lifecycle_system \<Rightarrow> string set" where
  "known_event_ids sys = ev_eventId ` set (js_values (st_eventsByIntent (fst sys))) \<union> pd_eventId ` set (snd sys)"

inductive lc_step :: "lifecycle_system \<Rightarrow> lifecycle_system \<Rightarrow> bool" where
  lc_begin:
    "wf_intent i \<Longrightarrow> admission (store_load s (in_taskId i)) i = None \<Longrightarrow>
     evaluate (store_load s (in_taskId i)) i now eid = Inr (r, e) \<Longrightarrow>
     non_blank eid \<Longrightarrow> eid \<notin> known_event_ids (s, P) \<Longrightarrow>
     lc_step (s, P) (s, \<lparr>pd_current = store_load s (in_taskId i), pd_intent = i, pd_now = now, pd_eventId = eid,
                        pd_record = r, pd_event = e\<rparr> # P)"
| lc_finish:
    "p \<in> set P \<Longrightarrow> st_sequence s < max_safe_integer \<Longrightarrow>
     store_commit s (expectation_of (pd_current p)) (pd_record p) (pd_event p) = (res, s') \<Longrightarrow>
     lc_step (s, P) (s', remove1 p P)"

inductive_cases lc_stepE: "lc_step sys sys'"

definition lc_init :: "lifecycle_system \<Rightarrow> bool" where
  "lc_init sys \<longleftrightarrow> sys = (empty_store, [])"

section \<open>The invariant\<close>

definition wf_stored :: "lifecycle_store \<Rightarrow> task_lifecycle_record \<Rightarrow> bool" where
  "wf_stored s r \<longleftrightarrow> wf_record r \<and> tr_lifecycleRevision r \<le> tr_monotonicSequence r \<and>
     tr_monotonicSequence r \<le> st_sequence s \<and>
     (\<exists>e \<in> set (js_values (st_eventsByIntent s)). event_commits e r)"

definition wf_journal_event :: "lifecycle_store \<Rightarrow> task_lifecycle_event \<Rightarrow> bool" where
  "wf_journal_event s e \<longleftrightarrow> wf_event e \<and> ev_monotonicSequence e \<le> st_sequence s \<and>
     (\<exists>r. js_get (st_records s) (ev_taskId e) = Some r \<and>
          ev_lifecycleRevision e \<le> tr_lifecycleRevision r)"

definition journal_inv :: "lifecycle_store \<Rightarrow> bool" where
  "journal_inv s \<longleftrightarrow>
     js_wf (st_records s) \<and> js_wf (st_eventsByIntent s) \<and>
     0 \<le> st_sequence s \<and> st_sequence s \<le> max_safe_integer \<and>
     (\<forall>(k, r) \<in> set (st_records s). tr_taskId r = k \<and> wf_stored s r) \<and>
     (\<forall>(k, e) \<in> set (st_eventsByIntent s). ev_intentId e = k \<and> wf_journal_event s e) \<and>
     inj_on (ev_eventId \<circ> snd) (set (st_eventsByIntent s)) \<and>
     inj_on (ev_monotonicSequence \<circ> snd) (set (st_eventsByIntent s))"

text \<open>A completed parent generation has no open attached child.\<close>

definition completed_closed :: "lifecycle_store \<Rightarrow> bool" where
  "completed_closed s \<longleftrightarrow>
     (\<forall>p \<in> set (js_values (st_records s)). tr_terminalOutcome p = Some Completed \<longrightarrow>
        (\<forall>c \<in> set (js_values (st_records s)). \<not> is_open_child (tr_taskId p) (Some (tr_generationId p)) c))"

text \<open>An attached child stands after its parent in the journal, so links form no cycle.\<close>

fun parents_first :: "string list \<Rightarrow> (string, task_lifecycle_record) jsmap \<Rightarrow> bool" where
  "parents_first seen [] = True"
| "parents_first seen ((k, r) # rs) =
     ((case attached_to r of None \<Rightarrow> True | Some link \<Rightarrow> pl_taskId link \<in> set seen) \<and>
      parents_first (seen @ [k]) rs)"

text \<open>What a pending commit has loaded is the current record, or the task has moved on since.\<close>

definition pending_ok :: "lifecycle_store \<Rightarrow> pending_commit \<Rightarrow> bool" where
  "pending_ok s p \<longleftrightarrow>
     wf_intent (pd_intent p) \<and> admission (pd_current p) (pd_intent p) = None \<and>
     evaluate (pd_current p) (pd_intent p) (pd_now p) (pd_eventId p) = Inr (pd_record p, pd_event p) \<and>
     non_blank (pd_eventId p) \<and>
     (case pd_current p of None \<Rightarrow> True
      | Some c \<Rightarrow> (\<exists>rc. js_get (st_records s) (in_taskId (pd_intent p)) = Some rc \<and>
          (rc = c \<or> tr_lifecycleRevision c < tr_lifecycleRevision rc)))"

definition pending_distinct :: "lifecycle_system \<Rightarrow> bool" where
  "pending_distinct sys \<longleftrightarrow>
     distinct (map pd_eventId (snd sys)) \<and>
     pd_eventId ` set (snd sys) \<inter>
       ev_eventId ` set (js_values (st_eventsByIntent (fst sys))) = {}"

definition lc_inv :: "lifecycle_system \<Rightarrow> bool" where
  "lc_inv sys \<longleftrightarrow> journal_inv (fst sys) \<and> completed_closed (fst sys) \<and>
     parents_first [] (st_records (fst sys)) \<and>
     (\<forall>p \<in> set (snd sys). pending_ok (fst sys) p) \<and> pending_distinct sys"

lemma lc_inv_init: "lc_init sys \<Longrightarrow> lc_inv sys"
  by (simp add: lc_init_def lc_inv_def journal_inv_def completed_closed_def pending_distinct_def empty_store_def)

section \<open>Consequences of the invariant\<close>

lemma journal_recordD:
  assumes "journal_inv s" and "js_get (st_records s) k = Some r"
  shows "tr_taskId r = k" and "wf_stored s r"
proof -
  from assms(2) have "(k, r) \<in> set (st_records s)" by (rule map_of_SomeD)
  with assms(1) show "tr_taskId r = k" and "wf_stored s r" by (auto simp: journal_inv_def)
qed

lemma journal_eventD:
  assumes "journal_inv s" and "js_get (st_eventsByIntent s) k = Some e"
  shows "ev_intentId e = k" and "wf_journal_event s e"
proof -
  from assms(2) have "(k, e) \<in> set (st_eventsByIntent s)" by (rule map_of_SomeD)
  with assms(1) show "ev_intentId e = k" and "wf_journal_event s e" by (auto simp: journal_inv_def)
qed

lemma journal_event_id_inj:
  assumes "journal_inv s" and "e \<in> set (js_values (st_eventsByIntent s))"
    and "x \<in> set (js_values (st_eventsByIntent s))" and "ev_eventId x = ev_eventId e"
  shows "x = e"
proof -
  from assms(2,3) obtain k k' where "(k, e) \<in> set (st_eventsByIntent s)" "(k', x) \<in> set (st_eventsByIntent s)"
    by auto
  moreover from assms(1) have "inj_on (ev_eventId \<circ> snd) (set (st_eventsByIntent s))"
    by (simp only: journal_inv_def)
  ultimately show ?thesis using assms(4) by (auto dest: inj_onD [where x = "(k', x)" and y = "(k, e)"])
qed

lemma loadEvent_unique:
  assumes inv: "journal_inv s" and e: "e \<in> set (js_values (st_eventsByIntent s))"
  shows "store_loadEvent s (ev_eventId e) = Some e"
proof -
  let ?vs = "js_values (st_eventsByIntent s)"
  from e have "find (\<lambda>x. ev_eventId x = ev_eventId e) ?vs \<noteq> None"
    by (auto simp: find_None_iff)
  then obtain x where x: "find (\<lambda>x. ev_eventId x = ev_eventId e) ?vs = Some x" by blast
  then have "x \<in> set ?vs" and "ev_eventId x = ev_eventId e"
    by (auto simp: find_Some_iff)
  with journal_event_id_inj [OF inv e] x show ?thesis by (simp add: store_loadEvent_def)
qed

text \<open>The compare-and-swap: what commits was evaluated against the record it replaces.\<close>

lemma pending_current:
  assumes "pending_ok s p"
    and "expectation_matches (expectation_of (pd_current p)) (js_get (st_records s) (tr_taskId (pd_record p)))"
  shows "js_get (st_records s) (in_taskId (pd_intent p)) = pd_current p"
    and "tr_taskId (pd_record p) = in_taskId (pd_intent p)"
proof -
  show id: "tr_taskId (pd_record p) = in_taskId (pd_intent p)"
    using assms(1) evaluate_fields(1) by (auto simp: pending_ok_def)
  show "js_get (st_records s) (in_taskId (pd_intent p)) = pd_current p"
    using assms id
    by (cases "pd_current p") (auto simp: pending_ok_def expectation_matches_def expectation_of_def)
qed

section \<open>Every step keeps the invariant\<close>

lemma parents_first_append:
  "parents_first seen (rs @ [(k, r)]) \<longleftrightarrow> parents_first seen rs \<and>
     (case attached_to r of None \<Rightarrow> True | Some link \<Rightarrow> pl_taskId link \<in> set seen \<union> set (js_keys rs))"
  by (induction seen rs rule: parents_first.induct) (auto split: option.splits)

lemma parents_first_update:
  "js_get rs k = Some old \<Longrightarrow> attached_to new = attached_to old \<Longrightarrow>
   parents_first seen (js_set rs k new) = parents_first seen rs"
  by (induction seen rs rule: parents_first.induct) (auto split: if_splits)

lemma attached_to_seq [simp]: "attached_to (seq_record n r) = attached_to r"
  by (simp add: attached_to_def)

lemma is_open_child_seq [simp]: "is_open_child t g (seq_record n r) = is_open_child t g r"
  by (simp add: is_open_child_def split: option.split)

text \<open>Everything a commit step provides, in one place.\<close>

definition committing ::
  "lifecycle_store \<Rightarrow> pending_commit \<Rightarrow> task_lifecycle_record \<Rightarrow> task_lifecycle_event \<Rightarrow> lifecycle_store \<Rightarrow> bool" where
  "committing s p r' e' s' \<longleftrightarrow>
     journal_inv s \<and> completed_closed s \<and> parents_first [] (st_records s) \<and> pending_ok s p \<and>
     pd_eventId p \<notin> ev_eventId ` set (js_values (st_eventsByIntent s)) \<and>
     st_sequence s < max_safe_integer \<and>
     store_commit s (expectation_of (pd_current p)) (pd_record p) (pd_event p) = (Commit_committed r' e', s')"

lemma committing_store:
  assumes "committing s p r' e' s'"
  shows "commit_admitted s (expectation_of (pd_current p)) (pd_record p) (pd_event p)"
    and "r' = seq_record (st_sequence s + 1) (pd_record p)"
    and "e' = seq_event (st_sequence s + 1) (pd_event p)"
    and "s' = s\<lparr>st_records := js_set (st_records s) (in_taskId (pd_intent p)) r',
               st_eventsByIntent := js_set (st_eventsByIntent s) (in_intentId (pd_intent p)) e',
               st_sequence := st_sequence s + 1\<rparr>"
proof -
  have c: "store_commit s (expectation_of (pd_current p)) (pd_record p) (pd_event p) = (Commit_committed r' e', s')"
    and pok: "pending_ok s p" using assms by (auto simp: committing_def)
  have f: "tr_taskId (pd_record p) = in_taskId (pd_intent p)" "ev_intentId (pd_event p) = in_intentId (pd_intent p)"
    using pok evaluate_fields by (auto simp: pending_ok_def)
  note cc = store_commit_committed [OF c]
  show "commit_admitted s (expectation_of (pd_current p)) (pd_record p) (pd_event p)" by (rule cc(1))
  show "r' = seq_record (st_sequence s + 1) (pd_record p)" by (rule cc(2))
  show "e' = seq_event (st_sequence s + 1) (pd_event p)" by (rule cc(3))
  show "s' = s\<lparr>st_records := js_set (st_records s) (in_taskId (pd_intent p)) r',
               st_eventsByIntent := js_set (st_eventsByIntent s) (in_intentId (pd_intent p)) e',
               st_sequence := st_sequence s + 1\<rparr>"
    using cc(4) f by simp
qed

lemma committing_eval:
  assumes "committing s p r' e' s'"
  shows "js_get (st_records s) (in_taskId (pd_intent p)) = pd_current p"
    and "admission (pd_current p) (pd_intent p) = None" and "wf_intent (pd_intent p)"
    and "evaluate (pd_current p) (pd_intent p) (pd_now p) (pd_eventId p) = Inr (pd_record p, pd_event p)"
    and "non_blank (pd_eventId p)"
    and "\<And>c. pd_current p = Some c \<Longrightarrow> wf_stored s c \<and> tr_taskId c = in_taskId (pd_intent p)"
proof -
  have pok: "pending_ok s p" and ji: "journal_inv s" using assms by (auto simp: committing_def)
  then show "admission (pd_current p) (pd_intent p) = None" "wf_intent (pd_intent p)"
    "evaluate (pd_current p) (pd_intent p) (pd_now p) (pd_eventId p) = Inr (pd_record p, pd_event p)"
    "non_blank (pd_eventId p)"
    by (auto simp: pending_ok_def)
  show cur: "js_get (st_records s) (in_taskId (pd_intent p)) = pd_current p"
    using pending_current(1) [OF pok] committing_store(1) [OF assms] by (auto simp: commit_admitted_def)
  show "\<And>c. pd_current p = Some c \<Longrightarrow> wf_stored s c \<and> tr_taskId c = in_taskId (pd_intent p)"
    using journal_recordD [OF ji] cur by auto
qed

text \<open>The committed record against the record it replaces.\<close>

lemma committing_register:
  assumes "committing s p r' e' s'" and "pd_current p = None"
  shows "\<exists>q. in_type (pd_intent p) = RegisterGeneration q \<and> tr_parent r' = q" and "tr_state r' = Registered"
    and "tr_terminalOutcome r' = None" and "tr_cancellation r' = No_cancellation"
    and "tr_generationId r' = in_generationId (pd_intent p)"
    and "ev_transition e' = Register_generation"
proof -
  note ev = committing_eval [OF assms(1)] and st = committing_store [OF assms(1)]
  from ev(4) obtain ch where sw: "evaluate_switch (pd_current p) (pd_intent p) (pd_now p) = Inr ch"
    and r: "pd_record p = record_of_change (pd_current p) (pd_intent p) ch (pd_now p) (pd_eventId p)"
    and e: "pd_event p = event_of_change (pd_current p) (pd_intent p) ch (pd_now p) (pd_eventId p)"
    by (rule evaluate_InrD)
  from ev(2) assms(2) obtain q where q: "in_type (pd_intent p) = RegisterGeneration q"
    by (auto simp: admission_None_iff split: task_lifecycle_intent_type.splits)
  show "\<exists>q. in_type (pd_intent p) = RegisterGeneration q \<and> tr_parent r' = q" "tr_state r' = Registered"
    "tr_terminalOutcome r' = None" "tr_cancellation r' = No_cancellation"
    "tr_generationId r' = in_generationId (pd_intent p)"
    using evaluate_switch_cases [OF sw ev(2)] q r st(2)
    by (auto simp: stamp_cancellation_def)
  show "ev_transition e' = Register_generation"
    using q e st(3) by simp
qed

definition settles :: "task_lifecycle_transition_type \<Rightarrow> task_terminal_outcome option \<Rightarrow> bool" where
  "settles t out \<longleftrightarrow>
     (case t of
        Settle_completion \<Rightarrow> out = Some Completed
      | Settle_cancellation \<Rightarrow> out = Some Cancelled
      | Settle_failure \<Rightarrow> out = Some Failed
      | Settle_timeout \<Rightarrow> out = Some Timed_out
      | Propagate_parent_termination \<Rightarrow> out \<in> {Some Cancelled, Some Failed, Some Timed_out}
      | _ \<Rightarrow> out = None)"

lemma settles_intent: "settles (transitionName t replacing) (terminalOutcomeForIntent t)"
proof (cases t)
  case (PropagateParentTermination ev out)
  then show ?thesis by (cases out) (simp_all add: settles_def)
qed (simp_all add: settles_def)

lemma committing_update:
  assumes com: "committing s p r' e' s'" and cur: "pd_current p = Some c"
  shows "tr_parent r' = tr_parent c" and "tr_lifecycleRevision r' = tr_lifecycleRevision c + 1"
    and "ev_transition e' \<noteq> Register_generation" and "ev_previous e' = Some (snapshot c)"
    and "settles (ev_transition e') (tr_terminalOutcome r')"
    and "tr_state r' = Terminal \<longleftrightarrow> tr_terminalOutcome r' \<noteq> None"
    and "if ev_transition e' = Replace_generation
         then tr_state c \<in> {Suspended, Terminal} \<and> tr_generationId r' \<noteq> tr_generationId c \<and>
              tr_state r' = Active \<and> tr_cancellation r' = No_cancellation
         else tr_state c \<noteq> Terminal \<and> tr_generationId r' = tr_generationId c \<and>
              (if ev_transition e' = Request_cancellation
               then \<not> cancellation_requested c \<and>
                    tr_cancellation r' = Requested (pd_now p) (pd_eventId p) (in_intentId (pd_intent p))
               else tr_cancellation r' = tr_cancellation c)"
    and "non_blank (tr_generationId r')"
proof -
  note ev = committing_eval [OF com] and st = committing_store [OF com]
  from ev(4) obtain ch where sw: "evaluate_switch (pd_current p) (pd_intent p) (pd_now p) = Inr ch"
    and r: "pd_record p = record_of_change (pd_current p) (pd_intent p) ch (pd_now p) (pd_eventId p)"
    and e: "pd_event p = event_of_change (pd_current p) (pd_intent p) ch (pd_now p) (pd_eventId p)"
    by (rule evaluate_InrD)
  let ?t = "in_type (pd_intent p)"
  have wfc: "wf_record c" using ev(6) [OF cur] by (simp add: wf_stored_def)
  then have out: "tr_state c = Terminal \<longleftrightarrow> tr_terminalOutcome c \<noteq> None" and gen: "non_blank (tr_generationId c)"
    by (simp_all add: wf_record_def wf_outcome_def)
  have noreg: "?t \<noteq> RegisterGeneration q" for q
    using ev(2) cur by (auto simp: admission_def)
  show "tr_lifecycleRevision r' = tr_lifecycleRevision c + 1" "ev_previous e' = Some (snapshot c)"
    using r e st cur by simp_all
  have sc: "(\<exists>g. ?t = ResumeWithGeneration (Some g) \<and> g \<noteq> [] \<and> g \<noteq> tr_generationId c \<and> ch_generationId ch = g) \<and>
              tr_state c \<in> {Suspended, Terminal} \<and> ch_state ch = Active \<and>
              ch_terminalOutcome ch = None \<and> ch_cancellation ch = No_cancellation"
    if "ch_replacingGeneration ch"
    using evaluate_switch_cases [OF sw ev(2)] noreg cur that by (cases ?t) auto
  have su: "tr_state c \<noteq> Terminal \<and> ch_generationId ch = tr_generationId c \<and>
              (if terminalOutcomeForIntent ?t = None
               then ch_state ch \<noteq> Terminal \<and> ch_terminalOutcome ch = tr_terminalOutcome c
               else ch_state ch = Terminal \<and> ch_terminalOutcome ch = terminalOutcomeForIntent ?t) \<and>
              (if ?t = RequestCancellation
               then \<not> cancellation_requested c \<and> ch_cancellation ch = Requested (pd_now p) ''pending'' (in_intentId (pd_intent p))
               else ch_cancellation ch = tr_cancellation c)"
    if "\<not> ch_replacingGeneration ch"
    using evaluate_switch_cases [OF sw ev(2)] noreg cur that by (cases ?t) auto
  have par: "ch_parent ch = tr_parent c"
    using evaluate_switch_cases [OF sw ev(2)] noreg cur by (cases ?t) auto
  then show "tr_parent r' = tr_parent c" using r st by simp
  have tn: "ev_transition e' = transitionName ?t (ch_replacingGeneration ch)" using e st by simp
  show "ev_transition e' \<noteq> Register_generation"
    using noreg tn by (cases ?t) auto
  have repl: "ev_transition e' = Replace_generation \<longleftrightarrow> ch_replacingGeneration ch"
    using tn sc noreg by (cases ?t) (auto split: if_splits)
  have req: "ev_transition e' = Request_cancellation \<longleftrightarrow> ?t = RequestCancellation"
    using tn by (cases ?t) auto
  have stamp: "tr_cancellation r' = (if ?t = RequestCancellation
      then Requested (pd_now p) (pd_eventId p) (in_intentId (pd_intent p)) else ch_cancellation ch)"
    using su sc r st by (cases "ch_replacingGeneration ch"; cases ?t)
      (auto simp: stamp_cancellation_def split: task_cancellation_state.splits)
  have outr: "tr_terminalOutcome r' = terminalOutcomeForIntent ?t"
    using sc su out r st by (cases "ch_replacingGeneration ch"; cases ?t) auto
  then show "settles (ev_transition e') (tr_terminalOutcome r')"
    using settles_intent tn by simp
  show "tr_state r' = Terminal \<longleftrightarrow> tr_terminalOutcome r' \<noteq> None"
    using sc su out r st by (cases "ch_replacingGeneration ch"; cases ?t) auto
  show "if ev_transition e' = Replace_generation
         then tr_state c \<in> {Suspended, Terminal} \<and> tr_generationId r' \<noteq> tr_generationId c \<and>
              tr_state r' = Active \<and> tr_cancellation r' = No_cancellation
         else tr_state c \<noteq> Terminal \<and> tr_generationId r' = tr_generationId c \<and>
              (if ev_transition e' = Request_cancellation
               then \<not> cancellation_requested c \<and>
                    tr_cancellation r' = Requested (pd_now p) (pd_eventId p) (in_intentId (pd_intent p))
               else tr_cancellation r' = tr_cancellation c)"
    using sc su stamp repl req r st by (cases "ch_replacingGeneration ch") auto
  show "non_blank (tr_generationId r')"
    using sc su ev(3) gen r st by (cases "ch_replacingGeneration ch") (auto simp: wf_intent_def no_string_def)
qed

end
