(* ===== verification/Lifecycle_Preservation.thy ===== *)
theory Lifecycle_Preservation
  imports Lifecycle_Invariants
begin

text \<open>
  Every step of the lifecycle journal keeps its invariant, and the journal only grows. Both are
  delivered as an interpretation of \<open>monotone_system\<close>, from which the properties follow.
\<close>

section \<open>The committed record and event\<close>

lemma committing_fields:
  assumes com: "committing s p r' e' s'"
  shows "tr_taskId r' = in_taskId (pd_intent p)" "tr_lastEventId r' = pd_eventId p"
    "tr_cause r' = in_cause (pd_intent p)" "tr_monotonicSequence r' = st_sequence s + 1"
    "tr_lifecycleRevision r' = (case pd_current p of None \<Rightarrow> 0 | Some c \<Rightarrow> tr_lifecycleRevision c) + 1"
    "ev_intentId e' = in_intentId (pd_intent p)" "ev_eventId e' = pd_eventId p"
    "ev_previous e' = map_option snapshot (pd_current p)"
    "ev_monotonicSequence e' = st_sequence s + 1"
    "ev_committed e' = snapshot r'" "ev_taskId e' = tr_taskId r'"
    "event_commits e' r'" "ev_terminalOutcome e' = terminalOutcomeForIntent (in_type (pd_intent p))"
proof -
  note ev = committing_eval [OF com] and st = committing_store [OF com]
  from ev(4) obtain ch where
    r: "pd_record p = record_of_change (pd_current p) (pd_intent p) ch (pd_now p) (pd_eventId p)"
    and e: "pd_event p = event_of_change (pd_current p) (pd_intent p) ch (pd_now p) (pd_eventId p)"
    by (rule evaluate_InrD)
  show "tr_taskId r' = in_taskId (pd_intent p)" "tr_lastEventId r' = pd_eventId p"
    "tr_cause r' = in_cause (pd_intent p)" "tr_monotonicSequence r' = st_sequence s + 1"
    "tr_lifecycleRevision r' = (case pd_current p of None \<Rightarrow> 0 | Some c \<Rightarrow> tr_lifecycleRevision c) + 1"
    "ev_intentId e' = in_intentId (pd_intent p)" "ev_eventId e' = pd_eventId p"
    "ev_previous e' = map_option snapshot (pd_current p)"
    "ev_monotonicSequence e' = st_sequence s + 1"
    "ev_taskId e' = tr_taskId r'" "ev_terminalOutcome e' = terminalOutcomeForIntent (in_type (pd_intent p))"
    unfolding st(2) st(3) r e by simp_all
  show "ev_committed e' = snapshot r'"
    unfolding st(2) st(3) r e by (simp add: snapshot_def)
  show "event_commits e' r'"
    unfolding st(2) st(3) r e by (simp add: event_commits_def)
qed

lemma committing_wf_outcome:
  assumes com: "committing s p r' e' s'"
  shows "wf_outcome (tr_state r') (tr_terminalOutcome r')"
proof (cases "pd_current p")
  case None
  with committing_register [OF com] show ?thesis by (auto simp: wf_outcome_def)
next
  case (Some c)
  with committing_update(6) [OF com] show ?thesis by (simp add: wf_outcome_def)
qed

lemma committing_outcome:
  assumes com: "committing s p r' e' s'"
  shows "tr_terminalOutcome r' = terminalOutcomeForIntent (in_type (pd_intent p))"
proof (cases "pd_current p")
  case None
  with committing_register [OF com] show ?thesis by auto
next
  case (Some c)
  note ev = committing_eval [OF com] and st = committing_store [OF com]
  from ev(4) obtain ch where sw: "evaluate_switch (pd_current p) (pd_intent p) (pd_now p) = Inr ch"
    and r: "pd_record p = record_of_change (pd_current p) (pd_intent p) ch (pd_now p) (pd_eventId p)"
    by (rule evaluate_InrD)
  have "wf_outcome (tr_state c) (tr_terminalOutcome c)"
    using ev(6) [OF Some] by (simp add: wf_stored_def wf_record_def)
  then show ?thesis
    using evaluate_switch_cases [OF sw ev(2)] Some r st(2)
    by (cases "in_type (pd_intent p)") (auto simp: wf_outcome_def split: if_splits)
qed

lemma committing_cancellation:
  assumes com: "committing s p r' e' s'"
  shows "wf_cancellation (tr_cancellation r')"
proof (cases "pd_current p")
  case None
  with committing_register(4) [OF com] show ?thesis by simp
next
  case (Some c)
  have "wf_cancellation (tr_cancellation c)"
    using committing_eval(6) [OF com Some] by (simp add: wf_stored_def wf_record_def)
  moreover have "non_blank (in_intentId (pd_intent p))"
    using committing_eval(3) [OF com] by (simp add: wf_intent_def valid_intent_ids_def validIdentity_def)
  ultimately show ?thesis
    using committing_update(7) [OF com Some] committing_eval(5) [OF com] by (auto split: if_splits)
qed

lemma committing_parent:
  assumes com: "committing s p r' e' s'"
  shows "opt_ok (wf_parent (tr_taskId r')) (tr_parent r')"
proof (cases "pd_current p")
  case None
  with committing_register(1) [OF com] committing_eval(3) [OF com] committing_fields(1) [OF com]
  show ?thesis by (auto simp: wf_intent_def)
next
  case (Some c)
  then have "opt_ok (wf_parent (tr_taskId c)) (tr_parent c)" "tr_taskId c = tr_taskId r'"
    using committing_eval(6) [OF com Some] committing_fields(1) [OF com] by (auto simp: wf_stored_def wf_record_def)
  with committing_update(1) [OF com Some] show ?thesis by simp
qed

lemma committing_generation:
  assumes com: "committing s p r' e' s'"
  shows "non_blank (tr_generationId r')"
proof (cases "pd_current p")
  case None
  with committing_register(5) [OF com] committing_eval(3) [OF com] show ?thesis
    by (simp add: wf_intent_def valid_intent_ids_def validIdentity_def)
next
  case (Some c)
  with committing_update(8) [OF com] show ?thesis by blast
qed

lemma committing_revision:
  assumes com: "committing s p r' e' s'"
  shows "0 < tr_lifecycleRevision r'" and "tr_lifecycleRevision r' \<le> st_sequence s + 1"
proof -
  have "0 \<le> st_sequence s" using com by (simp add: committing_def journal_inv_def)
  moreover have "0 < tr_lifecycleRevision c \<and> tr_lifecycleRevision c \<le> st_sequence s" if "pd_current p = Some c" for c
    using committing_eval(6) [OF com that] by (simp add: wf_stored_def wf_record_def wf_counter_def)
  ultimately show "0 < tr_lifecycleRevision r'" and "tr_lifecycleRevision r' \<le> st_sequence s + 1"
    using committing_fields(5) [OF com] by (auto split: option.splits)
qed

lemma committing_wf_record:
  assumes com: "committing s p r' e' s'"
  shows "wf_record r'"
proof -
  have "0 \<le> st_sequence s" "st_sequence s < max_safe_integer"
    using com by (simp_all add: committing_def journal_inv_def)
  moreover have "non_blank (in_taskId (pd_intent p))" "wf_cause (in_cause (pd_intent p))"
    using committing_eval(3) [OF com] by (simp_all add: wf_intent_def valid_intent_ids_def validIdentity_def)
  ultimately show ?thesis
    unfolding wf_record_def wf_counter_def
    using committing_fields(1-4) [OF com] committing_wf_outcome [OF com] committing_cancellation [OF com]
      committing_parent [OF com] committing_generation [OF com] committing_revision [OF com] committing_eval(5) [OF com]
    by simp
qed

lemma wf_snapshot_record: "wf_record r \<Longrightarrow> wf_snapshot (snapshot r)"
  by (simp add: wf_record_def wf_snapshot_def)

lemma committing_wf_event:
  assumes com: "committing s p r' e' s'"
  shows "wf_event e'"
proof -
  have "opt_ok wf_snapshot (ev_previous e')"
    using committing_fields(8) [OF com] committing_eval(6) [OF com] wf_snapshot_record
    by (cases "pd_current p") (simp_all add: wf_stored_def)
  moreover have "non_blank (in_intentId (pd_intent p))" "wf_cause (in_cause (pd_intent p))"
    using committing_eval(3) [OF com] by (simp_all add: wf_intent_def valid_intent_ids_def validIdentity_def)
  moreover have "ev_committedAt e' = tr_committedAt r'"
    using committing_store(2,3) [OF com] committing_eval(4) [OF com] by (auto elim!: evaluate_InrD)
  ultimately show ?thesis
    using committing_wf_record [OF com] committing_fields [OF com] committing_outcome [OF com]
      committing_parent [OF com]
    by (auto simp: wf_event_def wf_record_def wf_snapshot_def event_commits_def wf_cause_def)
qed

section \<open>The journal after a commit\<close>

lemma committing_lookup:
  assumes com: "committing s p r' e' s'"
  shows "js_get (st_records s') k = (if k = tr_taskId r' then Some r' else js_get (st_records s) k)"
    and "st_eventsByIntent s' = st_eventsByIntent s @ [(in_intentId (pd_intent p), e')]"
    and "in_intentId (pd_intent p) \<notin> set (js_keys (st_eventsByIntent s))"
    and "st_sequence s' = st_sequence s + 1"
    and "js_wf (st_records s')"
    and "set (st_records s') = {(k, r) \<in> set (st_records s). k \<noteq> tr_taskId r'} \<union> {(tr_taskId r', r')}"
proof -
  note st = committing_store [OF com] and f = committing_fields [OF com]
  have ji: "journal_inv s" using com by (simp add: committing_def)
  then have wf: "js_wf (st_records s)" by (simp add: journal_inv_def)
  show "js_get (st_records s') k = (if k = tr_taskId r' then Some r' else js_get (st_records s) k)"
    unfolding st(4) using f(1) by simp
  have "ev_intentId (pd_event p) = in_intentId (pd_intent p)"
    using committing_eval(4) [OF com] evaluate_fields(5) by blast
  with st(1) show fresh: "in_intentId (pd_intent p) \<notin> set (js_keys (st_eventsByIntent s))"
    by (simp add: commit_admitted_def js_get_None_iff)
  then show "st_eventsByIntent s' = st_eventsByIntent s @ [(in_intentId (pd_intent p), e')]"
    unfolding st(4) by (simp add: js_set_append)
  show "st_sequence s' = st_sequence s + 1" unfolding st(4) by simp
  show "js_wf (st_records s')" unfolding st(4) using wf by simp
  show "set (st_records s') = {(k, r) \<in> set (st_records s). k \<noteq> tr_taskId r'} \<union> {(tr_taskId r', r')}"
    unfolding st(4) using f(1) wf by (simp add: set_js_set_wf)
qed

lemma committing_journal_inv:
  assumes com: "committing s p r' e' s'"
  shows "journal_inv s'"
proof -
  note lk = committing_lookup [OF com] and f = committing_fields [OF com]
  have ji: "journal_inv s" and fresh: "pd_eventId p \<notin> ev_eventId ` set (js_values (st_eventsByIntent s))"
    and seq: "st_sequence s < max_safe_integer"
    using com by (simp_all add: committing_def)
  have old_rec: "wf_stored s' r" if "wf_stored s r" for r
    using that lk(2,4) by (auto simp: wf_stored_def)
  have new_rec: "wf_stored s' r'"
    using committing_wf_record [OF com] committing_revision [OF com] f(4,12) lk(2,4)
    by (auto simp: wf_stored_def)
  have old_ev: "wf_journal_event s' e" if "wf_journal_event s e" for e
    using that lk(1,4) committing_eval(1) [OF com] f(1,5)
    by (auto simp: wf_journal_event_def split: option.splits)
  have new_ev: "wf_journal_event s' e'"
    using committing_wf_event [OF com] f lk(1,4) by (auto simp: wf_journal_event_def event_commits_def)
  have seqs: "ev_monotonicSequence e \<noteq> st_sequence s + 1" if "(k, e) \<in> set (st_eventsByIntent s)" for k e
    using ji that by (fastforce simp: journal_inv_def wf_journal_event_def)
  have ids: "(ev_eventId \<circ> snd) (k, e') \<notin> (ev_eventId \<circ> snd) ` set (st_eventsByIntent s)" for k
    using fresh f(7) by force
  have seqs': "(ev_monotonicSequence \<circ> snd) (k, e') \<notin> (ev_monotonicSequence \<circ> snd) ` set (st_eventsByIntent s)" for k
    using seqs f(9) by force
  have recs: "\<forall>(k, r) \<in> set (st_records s'). tr_taskId r = k \<and> wf_stored s' r"
    using ji old_rec new_rec unfolding lk(6) by (auto simp: journal_inv_def)
  have evs: "\<forall>(k, e) \<in> set (st_eventsByIntent s'). ev_intentId e = k \<and> wf_journal_event s' e"
    using ji old_ev new_ev f(6) unfolding lk(2) by (auto simp: journal_inv_def)
  have inj1: "inj_on (ev_eventId \<circ> snd) (set (st_eventsByIntent s'))"
    unfolding lk(2) by (rule inj_on_append1 [OF _ ids]) (use ji in \<open>simp only: journal_inv_def\<close>)
  have inj2: "inj_on (ev_monotonicSequence \<circ> snd) (set (st_eventsByIntent s'))"
    unfolding lk(2) by (rule inj_on_append1 [OF _ seqs']) (use ji in \<open>simp only: journal_inv_def\<close>)
  have wfe: "js_wf (st_eventsByIntent s')"
    using ji lk(3) unfolding lk(2) by (simp add: journal_inv_def)
  show ?thesis
    unfolding journal_inv_def
    using recs evs inj1 inj2 wfe lk(4,5) ji seq by (auto simp: journal_inv_def)
qed

lemma settles_completed: "settles t (Some Completed) \<Longrightarrow> t = Settle_completion"
  by (simp add: settles_def split: task_lifecycle_transition_type.splits)

lemma committing_completed:
  assumes com: "committing s p r' e' s'" and out: "tr_terminalOutcome r' = Some Completed"
    and c: "(k, c) \<in> set (st_records s)"
  shows "\<not> is_open_child (tr_taskId r') (Some (tr_generationId r')) c"
proof -
  note st = committing_store [OF com]
  have "pd_current p \<noteq> None" using committing_register(3) [OF com] out by auto
  then obtain cur where cur: "pd_current p = Some cur" by blast
  have "ev_transition e' = Settle_completion"
    using committing_update(5) [OF com cur] out settles_completed by simp
  then have "find (is_open_child (tr_taskId r') (Some (tr_generationId r'))) (js_values (st_records s)) = None"
    using st by (auto simp: commit_admitted_def activeChild_def governedGeneration_def)
  with c show ?thesis by (force simp: find_None_iff)
qed

lemma committing_open_child:
  assumes com: "committing s p r' e' s'" and q: "js_get (st_records s) (tr_taskId q) = Some q"
    and out: "tr_terminalOutcome q = Some Completed"
  shows "\<not> is_open_child (tr_taskId q) (Some (tr_generationId q)) r'"
proof
  assume "is_open_child (tr_taskId q) (Some (tr_generationId q)) r'"
  then obtain link where link: "attached_to r' = Some link" "pl_taskId link = tr_taskId q"
      "pl_generationId link = tr_generationId q" and opn: "tr_state r' \<noteq> Terminal"
    by (auto simp: is_open_child_def split: option.splits)
  note st = committing_store [OF com]
  have ji: "journal_inv s" using com by (simp add: committing_def)
  have closed: "tr_state q = Terminal"
    using journal_recordD(2) [OF ji q] out by (simp add: wf_stored_def wf_record_def wf_outcome_def)
  have par: "parent_record s (pd_record p) = Some q"
    using link st(2) q by (auto simp: parent_record_def attached_to_def split: option.splits if_splits)
  have att: "attached_to (pd_record p) = Some link" using link(1) st(2) by simp
  show False
  proof (cases "pd_current p")
    case None
    then have "register_blocked s (pd_record p) (pd_event p)"
      using att link q closed committing_register(6) [OF com] st(3) by (simp add: register_blocked_def)
    with st(1) show False by (simp add: commit_admitted_def)
  next
    case (Some c)
    note up = committing_update [OF com Some]
    from st(1) have "attachedParentConstraint (pd_record p) (pd_event p) (Some q) = None"
      by (simp add: commit_admitted_def par)
    then have "parent_settlement (pd_event p)"
      using att link closed up(3) st(3)
      by (auto simp: attachedParentConstraint_def split: if_splits option.splits)
    then have "ev_transition e' = Propagate_parent_termination \<or> ev_transition e' = Settle_cancellation"
      using st(3) by (auto simp: parent_settlement_def)
    with up(5,6) opn show False by (auto simp: settles_def)
  qed
qed

lemma committing_completed_closed:
  assumes com: "committing s p r' e' s'"
  shows "completed_closed s'"
  unfolding completed_closed_def
proof (intro ballI impI)
  fix q c assume "q \<in> set (js_values (st_records s'))" "c \<in> set (js_values (st_records s'))"
    and out: "tr_terminalOutcome q = Some Completed"
  then obtain kq kc where q: "(kq, q) \<in> set (st_records s')" and c: "(kc, c) \<in> set (st_records s')" by auto
  have ji: "journal_inv s" and cc: "completed_closed s" using com by (simp_all add: committing_def)
  have self: "\<not> is_open_child (tr_taskId r') (Some (tr_generationId r')) r'"
    using committing_parent [OF com]
    by (auto simp: is_open_child_def attached_to_def wf_parent_def split: option.splits)
  have old: "js_get (st_records s) (tr_taskId x) = Some x" if "(k, x) \<in> set (st_records s)" for k x
  proof -
    from ji that have "tr_taskId x = k" and "js_wf (st_records s)" by (auto simp: journal_inv_def)
    with that show ?thesis by simp
  qed
  from q c consider "q = r'" "c = r'" | "q = r'" "(kc, c) \<in> set (st_records s)"
    | "(kq, q) \<in> set (st_records s)" "c = r'" | "(kq, q) \<in> set (st_records s)" "(kc, c) \<in> set (st_records s)"
    unfolding committing_lookup(6) [OF com] by auto
  then show "\<not> is_open_child (tr_taskId q) (Some (tr_generationId q)) c"
  proof cases
    case 1 with self show ?thesis by simp
  next
    case 2 with committing_completed [OF com] out show ?thesis by blast
  next
    case 3 with committing_open_child [OF com old] out show ?thesis by blast
  next
    case 4 with cc out show ?thesis by (force simp: completed_closed_def)
  qed
qed

lemma committing_parents_first:
  assumes com: "committing s p r' e' s'"
  shows "parents_first [] (st_records s')"
proof -
  note st = committing_store [OF com] and f = committing_fields [OF com]
  have pf: "parents_first [] (st_records s)" using com by (simp add: committing_def)
  have s': "st_records s' = js_set (st_records s) (in_taskId (pd_intent p)) r'" unfolding st(4) by simp
  show ?thesis
  proof (cases "pd_current p")
    case None
    then have "in_taskId (pd_intent p) \<notin> set (js_keys (st_records s))"
      using committing_eval(1) [OF com] by (simp add: js_get_None_iff)
    moreover have "pl_taskId link \<in> set (js_keys (st_records s))" if "attached_to r' = Some link" for link
    proof -
      have "\<not> register_blocked s (pd_record p) (pd_event p)" using st(1) by (simp add: commit_admitted_def)
      then have "js_get (st_records s) (pl_taskId link) \<noteq> None"
        using that st(2,3) committing_register(6) [OF com None] by (auto simp: register_blocked_def split: option.splits)
      then show ?thesis using js_get_None_iff by metis
    qed
    ultimately show ?thesis
      unfolding s' using pf by (auto simp: js_set_append parents_first_append split: option.splits)
  next
    case (Some c)
    have "attached_to r' = attached_to c"
      using committing_update(1) [OF com Some] by (simp add: attached_to_def)
    with Some committing_eval(1) [OF com] pf show ?thesis
      unfolding s' by (simp add: parents_first_update)
  qed
qed

section \<open>Pending commits\<close>

lemma committing_pending_ok:
  assumes com: "committing s p r' e' s'" and x: "pending_ok s x"
  shows "pending_ok s' x"
proof (cases "pd_current x")
  case None
  with x show ?thesis by (simp add: pending_ok_def)
next
  case (Some c)
  with x obtain rc where rc: "js_get (st_records s) (in_taskId (pd_intent x)) = Some rc"
    and le: "rc = c \<or> tr_lifecycleRevision c < tr_lifecycleRevision rc" by (auto simp: pending_ok_def)
  have "tr_lifecycleRevision c < tr_lifecycleRevision r'" if same: "in_taskId (pd_intent x) = tr_taskId r'"
  proof -
    have "pd_current p = Some rc"
      using committing_eval(1) [OF com] committing_fields(1) [OF com] rc same by simp
    with committing_update(2) [OF com] le show ?thesis by auto
  qed
  with x Some rc le show ?thesis
    using committing_lookup(1) [OF com] by (auto simp: pending_ok_def)
qed

lemma lc_finish_committing:
  assumes inv: "lc_inv (s, P)" and p: "p \<in> set P" and seq: "st_sequence s < max_safe_integer"
    and c: "store_commit s (expectation_of (pd_current p)) (pd_record p) (pd_event p) = (Commit_committed r' e', s')"
  shows "committing s p r' e' s'"
proof -
  from inv have parts: "journal_inv s" "completed_closed s" "parents_first [] (st_records s)"
    "\<forall>p \<in> set P. pending_ok s p"
    "pd_eventId ` set P \<inter> ev_eventId ` set (js_values (st_eventsByIntent s)) = {}"
    by (simp_all add: lc_inv_def pending_distinct_def)
  from parts(4) p have "pending_ok s p" by (rule bspec)
  moreover from parts(5) p have "pd_eventId p \<notin> ev_eventId ` set (js_values (st_eventsByIntent s))" by blast
  ultimately show ?thesis using parts(1-3) seq c by (simp add: committing_def)
qed

lemma lc_finish_cases:
  assumes "store_commit s ex r e = (res, s')"
  obtains (refused) "s' = s" | (committed) r' e' where "res = Commit_committed r' e'"
  using assms store_commit_refused [of s ex r e] store_commit_admitted [of s ex r e]
  by (cases "commit_admitted s ex r e") (auto simp: Let_def withSequence_def)

lemma disjoint_insert_subset: "x \<notin> R \<Longrightarrow> R \<inter> E = {} \<Longrightarrow> E' \<subseteq> insert x E \<Longrightarrow> R \<inter> E' = {}"
  by blast

lemma pending_distinct_finish:
  assumes d: "pending_distinct (s, P)" and p: "p \<in> set P"
    and ev: "st_eventsByIntent s' = st_eventsByIntent s @ [(k, e')] \<and> ev_eventId e' = pd_eventId p
             \<or> st_eventsByIntent s' = st_eventsByIntent s"
  shows "pending_distinct (s', remove1 p P)"
proof -
  from d have dist: "distinct (map pd_eventId P)"
    and disj: "pd_eventId ` set P \<inter> ev_eventId ` set (js_values (st_eventsByIntent s)) = {}"
    by (simp_all add: pending_distinct_def)
  have rest: "set (remove1 p P) = set P - {p}"
    using dist by (simp add: distinct_map)
  have other: "pd_eventId p \<notin> pd_eventId ` set (remove1 p P)"
    using dist p unfolding rest by (auto simp: distinct_map dest: inj_onD)
  have still: "distinct (map pd_eventId (remove1 p P))"
    using dist unfolding distinct_map rest by (auto intro: inj_on_subset distinct_remove1)
  have apart: "pd_eventId ` set (remove1 p P) \<inter> ev_eventId ` set (js_values (st_eventsByIntent s)) = {}"
    using disj rest by auto
  have "ev_eventId ` set (js_values (st_eventsByIntent s')) \<subseteq>
      insert (pd_eventId p) (ev_eventId ` set (js_values (st_eventsByIntent s)))"
    using ev by (elim disjE conjE) (simp_all add: subset_insertI)
  with still disjoint_insert_subset [OF other apart] show ?thesis
    by (simp only: pending_distinct_def fst_conv snd_conv simp_thms)
qed

lemma lc_begin_inv:
  assumes inv: "lc_inv (s, P)" and i: "wf_intent i"
    and adm: "admission (store_load s (in_taskId i)) i = None"
    and ev: "evaluate (store_load s (in_taskId i)) i now eid = Inr (r, e)"
    and nb: "non_blank eid" and fresh: "eid \<notin> known_event_ids (s, P)"
  shows "lc_inv (s, \<lparr>pd_current = store_load s (in_taskId i), pd_intent = i, pd_now = now, pd_eventId = eid,
                     pd_record = r, pd_event = e\<rparr> # P)"
proof -
  have "pending_ok s \<lparr>pd_current = store_load s (in_taskId i), pd_intent = i, pd_now = now, pd_eventId = eid,
                     pd_record = r, pd_event = e\<rparr>"
    using i adm ev nb by (simp add: pending_ok_def store_load_def split: option.split)
  moreover have "pending_distinct (s, \<lparr>pd_current = store_load s (in_taskId i), pd_intent = i, pd_now = now,
                     pd_eventId = eid, pd_record = r, pd_event = e\<rparr> # P)"
    using fresh inv by (auto simp: lc_inv_def pending_distinct_def known_event_ids_def)
  ultimately show ?thesis using inv by (simp add: lc_inv_def)
qed

lemma lc_inv_step:
  assumes "lc_inv sys" and "lc_step sys sys'"
  shows "lc_inv sys'"
  using assms(2,1)
proof cases
  case (lc_begin i s now eid r e P)
  with assms(1) show ?thesis by (simp add: lc_begin_inv)
next
  case (lc_finish p P s res s')
  have inv: "lc_inv (s, P)" using assms(1) lc_finish by simp
  then have parts: "journal_inv s" "completed_closed s" "parents_first [] (st_records s)"
    "\<forall>p \<in> set P. pending_ok s p" "pending_distinct (s, P)" by (simp_all add: lc_inv_def)
  have sub: "set (remove1 p P) \<subseteq> set P" by (rule set_remove1_subset)
  from lc_finish(5) have "lc_inv (s', remove1 p P)"
  proof (cases rule: lc_finish_cases)
    case refused
    with parts sub pending_distinct_finish [OF parts(5) lc_finish(3)] show ?thesis
      by (auto simp: lc_inv_def)
  next
    case (committed r' e')
    have com: "committing s p r' e' s'"
      using lc_finish_committing [OF inv lc_finish(3,4)] lc_finish(5) committed by simp
    have "pending_distinct (s', remove1 p P)"
      using pending_distinct_finish [OF parts(5) lc_finish(3)] committing_lookup(2) [OF com]
        committing_fields(7) [OF com] by blast
    with committing_journal_inv [OF com] committing_completed_closed [OF com] committing_parents_first [OF com]
      committing_pending_ok [OF com] parts(4) sub show ?thesis
      by (auto simp: lc_inv_def)
  qed
  with lc_finish show ?thesis by simp
qed

section \<open>The journal only grows\<close>

text \<open>
  What one state of the journal has recorded, a later one still has: the events are a prefix, a
  task keeps its parent link, and its revision only rises.
\<close>

definition lc_leq :: "lifecycle_system \<Rightarrow> lifecycle_system \<Rightarrow> bool" where
  "lc_leq sys sys' \<longleftrightarrow>
     st_sequence (fst sys) \<le> st_sequence (fst sys') \<and>
     (\<exists>more. st_eventsByIntent (fst sys') = st_eventsByIntent (fst sys) @ more) \<and>
     (\<forall>k r. js_get (st_records (fst sys)) k = Some r \<longrightarrow>
        (\<exists>r'. js_get (st_records (fst sys')) k = Some r' \<and> tr_parent r' = tr_parent r \<and>
              (r' = r \<or> tr_lifecycleRevision r < tr_lifecycleRevision r')))"

lemma lc_leq_refl: "lc_leq sys sys"
  by (simp add: lc_leq_def)

lemma lc_leq_trans: "lc_leq a b \<Longrightarrow> lc_leq b c \<Longrightarrow> lc_leq a c"
  unfolding lc_leq_def by (elim conjE exE, intro conjI) (fastforce intro: order_trans)+

lemma committing_leq:
  assumes com: "committing s p r' e' s'"
  shows "lc_leq (s, P) (s', P')"
proof -
  note lk = committing_lookup [OF com]
  have "\<exists>r''. js_get (st_records s') k = Some r'' \<and> tr_parent r'' = tr_parent r \<and>
              (r'' = r \<or> tr_lifecycleRevision r < tr_lifecycleRevision r'')"
    if k: "js_get (st_records s) k = Some r" for k r
  proof (cases "k = tr_taskId r'")
    case True
    then have "pd_current p = Some r"
      using k committing_eval(1) [OF com] committing_fields(1) [OF com] by simp
    with committing_update(1,2) [OF com] True lk(1) show ?thesis by simp
  next
    case False
    with k lk(1) show ?thesis by simp
  qed
  then show ?thesis using lk(2,4) by (simp add: lc_leq_def)
qed

lemma lc_step_leq:
  assumes "lc_inv sys" and "lc_step sys sys'"
  shows "lc_leq sys sys'"
  using assms(2,1)
proof cases
  case (lc_begin i s now eid r e P)
  then show ?thesis by (simp add: lc_leq_def)
next
  case (lc_finish p P s res s')
  from lc_finish(5) show ?thesis
  proof (cases rule: lc_finish_cases)
    case refused
    with lc_finish show ?thesis by (simp add: lc_leq_def)
  next
    case (committed r' e')
    with lc_finish_committing [OF _ lc_finish(3,4)] lc_finish assms(1) show ?thesis
      by (auto intro: committing_leq)
  qed
qed

interpretation lc: monotone_system lc_init lc_step lc_inv lc_leq
  by unfold_locales (blast intro: lc_inv_init lc_inv_step lc_leq_refl lc_leq_trans lc_step_leq)+

end
