(* ===== verification/Lifecycle_Submit.thy ===== *)
theory Lifecycle_Submit
  imports Lifecycle_Preservation "HOL-Library.Monad_Syntax"
begin

text \<open>
  The effectful part of \<^verbatim>\<open>src/core/task/lifecycle/TaskLifecycleFunnel.ts\<close>: \<open>submit\<close>
  with its projection, publication and propagation to attached children, and the operations built
  on it (\<open>restore\<close>, \<open>registerAndActivate\<close>, \<open>ensureActive\<close>, \<open>executionEligibility\<close>).

  A \<^verbatim>\<open>TaskState\<close> object is a reference into \<open>fn_states\<close>. \<^verbatim>\<open>JSON.stringify\<close> of a record or
  event is its \<open>json\<close> value. \<open>submit\<close> and the propagation call each other, so they carry
  fuel; \<open>None\<close> is running out of it. Listeners are the list of events handed to them.
\<close>

section \<open>State\<close>

record lifecycle_env =
  env_uuid :: "nat \<Rightarrow> string"
  env_now :: "nat \<Rightarrow> int"

record task_state =
  ts_executionGeneration :: string
  ts_lifecycleFunnelRecordJson :: "json option"
  ts_lifecycleFunnelEventJson :: "json option"
  ts_lifecycleFunnelHistory :: "task_lifecycle_event list option"
  ts_executionFunnelEventJson :: "string option"
  ts_executionFunnelHistory :: "string list option"
  ts_executionInvocationLedger :: "(string, string) jsmap"
  ts_completionFunnelEventJson :: "string option"

type_synonym state_ref = nat

record lifecycle_funnel =
  fn_store :: lifecycle_store
  fn_authoritative :: "(string, task_lifecycle_record) jsmap"
  fn_projected :: "(string, state_ref) jsmap"
  fn_states :: "state_ref \<Rightarrow> task_state"
  fn_published :: "task_lifecycle_event list"
  fn_draws :: nat
  fn_ticks :: nat

definition fn_load :: "string \<Rightarrow> lifecycle_funnel \<Rightarrow> task_lifecycle_record option \<times> lifecycle_funnel" where
  "fn_load taskId f =
     (case store_load (fn_store f) taskId of
        None \<Rightarrow> (None, f)
      | Some r \<Rightarrow> (Some r, f\<lparr>fn_authoritative := js_set (fn_authoritative f) taskId r\<rparr>))"

section \<open>Projection onto a task state\<close>

definition max_projected_lifecycle_events :: nat where
  "max_projected_lifecycle_events = 100"

definition take_last :: "nat \<Rightarrow> 'a list \<Rightarrow> 'a list" where
  "take_last n xs = drop (length xs - n) xs"

definition project_event :: "task_lifecycle_event \<Rightarrow> task_state \<Rightarrow> task_state" where
  "project_event e ts =
     (let history = (case ts_lifecycleFunnelHistory ts of None \<Rightarrow> [] | Some h \<Rightarrow> h);
          history' = take_last max_projected_lifecycle_events
                       (filter (\<lambda>c. ev_eventId c \<noteq> ev_eventId e) history @ [e]);
          ts' = ts\<lparr>ts_lifecycleFunnelEventJson := Some (enc_event e), ts_lifecycleFunnelHistory := Some history'\<rparr>
      in if ev_transition e = Replace_generation
         then ts'\<lparr>ts_executionFunnelEventJson := None, ts_executionFunnelHistory := None,
                  ts_executionInvocationLedger := [], ts_completionFunnelEventJson := None\<rparr>
         else ts')"

definition project :: "state_ref \<Rightarrow> task_lifecycle_record \<Rightarrow> task_lifecycle_event option \<Rightarrow> lifecycle_funnel \<Rightarrow> lifecycle_funnel" where
  "project ref r e_opt f =
     (let ts = (fn_states f ref)\<lparr>ts_lifecycleFunnelRecordJson := Some (enc_record r)\<rparr>;
          ts' = (case e_opt of None \<Rightarrow> ts | Some e \<Rightarrow> project_event e ts)
      in f\<lparr>fn_projected := js_set (fn_projected f) (tr_taskId r) ref,
           fn_authoritative := js_set (fn_authoritative f) (tr_taskId r) r,
           fn_states := (fn_states f)(ref := ts')\<rparr>)"

section \<open>Propagation to attached children\<close>

type_synonym submission =
  "state_ref option \<Rightarrow> task_lifecycle_intent \<Rightarrow> lifecycle_funnel \<Rightarrow>
   (task_lifecycle_transition_result \<times> lifecycle_funnel) option"

definition new_intent_id :: "lifecycle_env \<Rightarrow> lifecycle_funnel \<Rightarrow> string \<times> lifecycle_funnel" where
  "new_intent_id E f = (env_uuid E (fn_draws f), f\<lparr>fn_draws := fn_draws f + 1\<rparr>)"

definition parent_cause :: "string \<Rightarrow> string \<Rightarrow> task_lifecycle_cause" where
  "parent_cause reason eventId =
     \<lparr>cs_source = Src_parent_lifecycle, cs_reason = reason, cs_originatingOperationId = None,
      cs_originatingEventId = Some eventId, cs_authoritativeAt = None\<rparr>"

text \<open>Submit an intent of the given type for a child, caused by the parent's event.\<close>

definition submit_for_child ::
  "lifecycle_env \<Rightarrow> submission \<Rightarrow> task_lifecycle_event \<Rightarrow> task_lifecycle_record \<Rightarrow> task_lifecycle_intent_type \<Rightarrow>
   string \<Rightarrow> state_ref option \<Rightarrow> lifecycle_funnel \<Rightarrow> (task_lifecycle_transition_result \<times> lifecycle_funnel) option" where
  "submit_for_child E sub e child t reason ts f =
     (let (iid, f') = new_intent_id E f
      in sub ts \<lparr>in_intentId = iid, in_taskId = tr_taskId child, in_generationId = tr_generationId child,
                 in_cause = parent_cause reason (ev_eventId e), in_type = t\<rparr> f')"

definition fence_reason :: string where
  "fence_reason = ''The attached parent cancellation fence propagated to this child.''"

definition settled_reason :: string where
  "settled_reason = ''The attached parent settled cancellation.''"

definition terminated_reason :: "propagated_outcome \<Rightarrow> string" where
  "terminated_reason out =
     ''The attached parent terminalized as '' @ [CHR 0x27] @ outcome_name (outcome_of_propagated out) @ [CHR 0x27] @ ''.''"

definition settle_child ::
  "lifecycle_env \<Rightarrow> submission \<Rightarrow> task_lifecycle_record \<Rightarrow> task_lifecycle_event \<Rightarrow> state_ref option \<Rightarrow>
   task_lifecycle_record \<Rightarrow> lifecycle_funnel \<Rightarrow> lifecycle_funnel option" where
  "settle_child E sub r e ts child f =
     (if tr_terminalOutcome r = Some Cancelled \<and> cancellation_requested child
      then map_option snd (submit_for_child E sub e child (SettleCancellation None) settled_reason ts f)
      else Some f)"

definition propagated_of_outcome :: "task_terminal_outcome option \<Rightarrow> propagated_outcome option" where
  "propagated_of_outcome out =
     (if out = Some Failed then Some Parent_failed
      else if out = Some Timed_out then Some Parent_timed_out else None)"

definition propagate_child ::
  "lifecycle_env \<Rightarrow> submission \<Rightarrow> task_lifecycle_record \<Rightarrow> task_lifecycle_event \<Rightarrow> task_lifecycle_record \<Rightarrow>
   lifecycle_funnel \<Rightarrow> lifecycle_funnel option" where
  "propagate_child E sub r e child f =
     (if tr_state child = Terminal then Some f
      else let ts = js_get (fn_projected f) (tr_taskId child) in
        if ev_transition e = Request_cancellation \<or> tr_terminalOutcome r = Some Cancelled
        then (if cancellation_requested child then settle_child E sub r e ts child f
              else do {
                (res, f1) \<leftarrow> submit_for_child E sub e child RequestCancellation fence_reason ts f;
                (case res of
                   Rejected code cur \<Rightarrow> Some f1
                 | Committed child' e' \<Rightarrow> settle_child E sub r e ts child' f1)
              })
        else (case propagated_of_outcome (tr_terminalOutcome r) of
            None \<Rightarrow> Some f
          | Some out \<Rightarrow> map_option snd (submit_for_child E sub e child (PropagateParentTermination (ev_eventId e) out)
              (terminated_reason out) ts f)))"

fun propagate_children ::
  "lifecycle_env \<Rightarrow> submission \<Rightarrow> task_lifecycle_record \<Rightarrow> task_lifecycle_event \<Rightarrow> task_lifecycle_record list \<Rightarrow>
   lifecycle_funnel \<Rightarrow> lifecycle_funnel option" where
  "propagate_children E sub r e [] f = Some f"
| "propagate_children E sub r e (child # rest) f =
     Option.bind (propagate_child E sub r e child f) (propagate_children E sub r e rest)"

definition propagateToAttachedChildren ::
  "lifecycle_env \<Rightarrow> submission \<Rightarrow> task_lifecycle_record \<Rightarrow> task_lifecycle_event \<Rightarrow> lifecycle_funnel \<Rightarrow> lifecycle_funnel option" where
  "propagateToAttachedChildren E sub r e f =
     (if ev_transition e \<noteq> Request_cancellation \<and> tr_state r \<noteq> Terminal then Some f
      else if tr_terminalOutcome r = Some Completed then Some f
      else propagate_children E sub r e
             (listAttachedChildren (fn_store f)
               \<lparr>pl_taskId = tr_taskId r, pl_generationId = tr_generationId r, pl_governance = Attached\<rparr>) f)"

section \<open>Submission\<close>

definition rejection_of_commit :: "lifecycle_commit_result \<Rightarrow> task_lifecycle_transition_result" where
  "rejection_of_commit res =
     (case res of
        Commit_duplicate_intent r e \<Rightarrow> Rejected Duplicate_intent (Some r)
      | Commit_compare_and_swap_failed cur \<Rightarrow> Rejected Compare_and_swap_failed cur
      | Commit_constraint_failed cur \<Rightarrow> Rejected Parent_constraint cur
      | Commit_committed r e \<Rightarrow> Committed r e)"

text \<open>What a submission does before it turns to the children: check, load, evaluate, commit, project, publish.\<close>

definition publish_commit ::
  "state_ref option \<Rightarrow> task_lifecycle_record \<Rightarrow> task_lifecycle_event \<Rightarrow> lifecycle_funnel \<Rightarrow> lifecycle_funnel" where
  "publish_commit ts r e f =
     (let f1 = f\<lparr>fn_authoritative := js_set (fn_authoritative f) (tr_taskId r) r\<rparr>;
          f2 = (case ts of None \<Rightarrow> f1 | Some ref \<Rightarrow> project ref r (Some e) f1)
      in f2\<lparr>fn_published := fn_published f2 @ [e]\<rparr>)"

definition submit_serialized_local ::
  "lifecycle_env \<Rightarrow> state_ref option \<Rightarrow> task_lifecycle_intent \<Rightarrow> lifecycle_funnel \<Rightarrow>
   task_lifecycle_transition_result \<times> lifecycle_funnel" where
  "submit_serialized_local E ts i f =
     (let (current, f1) = fn_load (in_taskId i) f in
      case admission current i of
        Some code \<Rightarrow> (Rejected code current, f1)
      | None \<Rightarrow>
          let now = env_now E (fn_ticks f1); f2 = f1\<lparr>fn_ticks := fn_ticks f1 + 1\<rparr> in
          (case evaluate current i now (env_uuid E (fn_draws f2)) of
             Inl code \<Rightarrow> (Rejected code current, f2)
           | Inr (r, e) \<Rightarrow>
               let f3 = f2\<lparr>fn_draws := fn_draws f2 + 1\<rparr>;
                   (res, s') = store_commit (fn_store f3) (expectation_of current) r e;
                   f4 = f3\<lparr>fn_store := s'\<rparr>
               in (case res of
                     Commit_committed r' e' \<Rightarrow> (Committed r' e', publish_commit ts r' e' f4)
                   | _ \<Rightarrow> (rejection_of_commit res, f4))))"

definition submit_local ::
  "lifecycle_env \<Rightarrow> state_ref option \<Rightarrow> task_lifecycle_intent \<Rightarrow> lifecycle_funnel \<Rightarrow>
   task_lifecycle_transition_result \<times> lifecycle_funnel" where
  "submit_local E ts i f =
     (if \<not> valid_intent_ids i then (Rejected Malformed_intent None, f)
      else submit_serialized_local E ts i
        (case ts of None \<Rightarrow> f | Some ref \<Rightarrow> f\<lparr>fn_projected := js_set (fn_projected f) (in_taskId i) ref\<rparr>))"

definition submit_body :: "lifecycle_env \<Rightarrow> submission \<Rightarrow> submission" where
  "submit_body E sub ts i f =
     (case submit_local E ts i f of
        (Rejected code cur, f1) \<Rightarrow> Some (Rejected code cur, f1)
      | (Committed r e, f1) \<Rightarrow> map_option (Pair (Committed r e)) (propagateToAttachedChildren E sub r e f1))"

primrec submit_fuel :: "nat \<Rightarrow> lifecycle_env \<Rightarrow> submission" where
  "submit_fuel 0 E = (\<lambda>ts i f. None)"
| "submit_fuel (Suc n) E = submit_body E (submit_fuel n E)"

text \<open>Fuel: a child is registered after its parent, so the calls nest at most once per record.\<close>

definition submit :: "lifecycle_env \<Rightarrow> submission" where
  "submit E ts i f = submit_fuel (length (st_records (fn_store f)) + 2) E ts i f"

section \<open>The local part of a submission\<close>

lemma publish_commit_store [simp]:
  "fn_store (publish_commit ts r e f) = fn_store f" "fn_draws (publish_commit ts r e f) = fn_draws f"
  by (simp_all add: publish_commit_def project_def Let_def split: option.split)

lemma fn_load_simps [simp]:
  "fst (fn_load t f) = js_get (st_records (fn_store f)) t" "fn_store (snd (fn_load t f)) = fn_store f"
  "fn_draws (snd (fn_load t f)) = fn_draws f"
  by (simp_all add: fn_load_def store_load_def split: option.split)

text \<open>A local submission either leaves the store alone or commits one evaluated transition.\<close>

lemma submit_local_cases:
  assumes "submit_local E ts i f = (res, f')"
  obtains (refused) code cur where "res = Rejected code cur" and "fn_store f' = fn_store f"
      and "fn_draws f \<le> fn_draws f'"
  | (evaluated) now r e cres where "valid_intent_ids i"
      and "admission (js_get (st_records (fn_store f)) (in_taskId i)) i = None"
      and "evaluate (js_get (st_records (fn_store f)) (in_taskId i)) i now (env_uuid E (fn_draws f)) = Inr (r, e)"
      and "store_commit (fn_store f) (expectation_of (js_get (st_records (fn_store f)) (in_taskId i))) r e = (cres, fn_store f')"
      and "res = rejection_of_commit cres" and "fn_draws f' = Suc (fn_draws f)"
proof -
  let ?f = "case ts of None \<Rightarrow> f | Some ref \<Rightarrow> f\<lparr>fn_projected := js_set (fn_projected f) (in_taskId i) ref\<rparr>"
  have store: "fn_store ?f = fn_store f" "fn_draws ?f = fn_draws f" by (simp_all split: option.split)
  show thesis
  proof (cases "valid_intent_ids i")
    case False
    with assms refused [of Malformed_intent None] show thesis by (simp add: submit_local_def)
  next
    case valid: True
    with assms have ser: "submit_serialized_local E ts i ?f = (res, f')" by (simp add: submit_local_def)
    obtain cur f1 where ld: "fn_load (in_taskId i) ?f = (cur, f1)" by (cases "fn_load (in_taskId i) ?f")
    then have cur: "cur = js_get (st_records (fn_store f)) (in_taskId i)"
      and f1: "fn_store f1 = fn_store f" "fn_draws f1 = fn_draws f"
      using fn_load_simps [of "in_taskId i" ?f] store by auto
    show thesis
    proof (cases "admission cur i")
      case (Some code)
      with ser ld f1 refused [of code cur] show thesis by (auto simp: submit_serialized_local_def)
    next
      case adm: None
      let ?now = "env_now E (fn_ticks f1)"
      show thesis
      proof (cases "evaluate cur i ?now (env_uuid E (fn_draws f))")
        case (Inl code)
        with ser ld f1 adm refused [of code cur] show thesis
          by (auto simp: submit_serialized_local_def Let_def)
      next
        case (Inr re)
        then obtain r e where ev: "evaluate cur i ?now (env_uuid E (fn_draws f)) = Inr (r, e)" by (cases re) auto
        obtain cres s' where com: "store_commit (fn_store f) (expectation_of cur) r e = (cres, s')"
          by (cases "store_commit (fn_store f) (expectation_of cur) r e")
        have out: "res = rejection_of_commit cres \<and> fn_store f' = s' \<and> fn_draws f' = Suc (fn_draws f)"
          using ser ld f1 adm ev com
          by (auto simp: submit_serialized_local_def Let_def rejection_of_commit_def
              split: lifecycle_commit_result.splits)
        with evaluated [of ?now r e cres] valid adm ev com cur show thesis by simp
      qed
    qed
  qed
qed

lemma submit_local_committed:
  assumes "submit_local E ts i f = (Committed r e, f')"
  shows "tr_taskId r = in_taskId i" and "ev_eventId e = env_uuid E (fn_draws f)"
    and "tr_lastEventId r = ev_eventId e"
    and "js_get (st_records (fn_store f')) (in_taskId i) = Some r"
proof -
  have "tr_taskId r = in_taskId i \<and> ev_eventId e = env_uuid E (fn_draws f) \<and> tr_lastEventId r = ev_eventId e \<and>
        js_get (st_records (fn_store f')) (in_taskId i) = Some r"
    using assms
  proof (cases rule: submit_local_cases)
    case (evaluated now r0 e0 cres)
    then have com: "store_commit (fn_store f) (expectation_of (js_get (st_records (fn_store f)) (in_taskId i))) r0 e0 =
      (Commit_committed r e, fn_store f')"
      by (auto simp: rejection_of_commit_def split: lifecycle_commit_result.splits)
    note c = store_commit_committed [OF com] and ef = evaluate_fields [OF evaluated(3)]
    have "js_get (st_records (fn_store f')) (in_taskId i) = Some r" unfolding c(4) by (simp add: ef)
    then show ?thesis using c(2,3) ef by simp
  qed simp
  then show "tr_taskId r = in_taskId i" "ev_eventId e = env_uuid E (fn_draws f)" "tr_lastEventId r = ev_eventId e"
    "js_get (st_records (fn_store f')) (in_taskId i) = Some r" by simp_all
qed

lemma submit_fuel_committed:
  assumes "submit_fuel n E ts i f = Some (Committed r e, f')"
  shows "tr_taskId r = in_taskId i"
proof (cases n)
  case 0
  with assms show ?thesis by simp
next
  case (Suc m)
  obtain res f1 where loc: "submit_local E ts i f = (res, f1)" by (cases "submit_local E ts i f")
  with assms Suc have "res = Committed r e"
    by (auto simp: submit_body_def split: task_lifecycle_transition_result.splits)
  with loc submit_local_committed(1) show ?thesis by blast
qed

section \<open>A contract for submissions\<close>

text \<open>
  What propagation needs from \<open>submit\<close>: a relation between funnel states that a local submission
  establishes and that composes. \<open>good\<close> is a state condition the relation keeps, \<open>ok\<close> the
  intents it covers, which include the intents propagation makes up for the children.
\<close>

definition propagation_intent :: "task_lifecycle_event \<Rightarrow> task_lifecycle_record \<Rightarrow> task_lifecycle_intent \<Rightarrow> bool" where
  "propagation_intent e c j \<longleftrightarrow> in_taskId j = tr_taskId c \<and>
     (\<exists>reason. non_blank reason \<and> in_cause j = parent_cause reason (ev_eventId e)) \<and>
     (in_type j = RequestCancellation \<or> in_type j = SettleCancellation None \<or>
      (\<exists>out. in_type j = PropagateParentTermination (ev_eventId e) out))"

abbreviation attached_link :: "task_lifecycle_record \<Rightarrow> task_parent_link" where
  "attached_link r \<equiv> \<lparr>pl_taskId = tr_taskId r, pl_generationId = tr_generationId r, pl_governance = Attached\<rparr>"

lemma non_blank_reasons [simp]:
  "non_blank fence_reason" "non_blank settled_reason" "non_blank (terminated_reason out)"
  by (simp_all add: non_blank_iff js_space_def fence_reason_def settled_reason_def terminated_reason_def)

lemma settle_child_cases:
  assumes "settle_child E sub r e ts c f = Some f'"
  obtains "f' = f" | res where "submit_for_child E sub e c (SettleCancellation None) settled_reason ts f = Some (res, f')"
  using assms by (auto simp: settle_child_def split: if_splits)

lemma propagate_child_cases:
  assumes "propagate_child E sub r e c f = Some f'"
  defines "ts \<equiv> js_get (fn_projected f) (tr_taskId c)"
  obtains (stop) "f' = f"
    | (settle) "settle_child E sub r e ts c f = Some f'"
    | (request) res f1 where "submit_for_child E sub e c RequestCancellation fence_reason ts f = Some (res, f1)"
        "f' = f1 \<or> (\<exists>c' e'. res = Committed c' e' \<and> settle_child E sub r e ts c' f1 = Some f')"
    | (terminate) res out where
        "submit_for_child E sub e c (PropagateParentTermination (ev_eventId e) out) (terminated_reason out) ts f = Some (res, f')"
proof -
  let ?sfc = "\<lambda>t reason. submit_for_child E sub e c t reason ts f"
  consider (closed) "tr_state c = Terminal"
    | (fence) "tr_state c \<noteq> Terminal" "ev_transition e = Request_cancellation \<or> tr_terminalOutcome r = Some Cancelled"
    | (closing) "tr_state c \<noteq> Terminal" "\<not> (ev_transition e = Request_cancellation \<or> tr_terminalOutcome r = Some Cancelled)"
    by blast
  then show thesis
  proof cases
    case closed
    with assms(1) stop show thesis by (simp add: propagate_child_def)
  next
    case fence
    show thesis
    proof (cases "cancellation_requested c")
      case True
      with fence assms settle show thesis by (simp add: propagate_child_def Let_def)
    next
      case False
      with fence assms obtain res f1 where s: "?sfc RequestCancellation fence_reason = Some (res, f1)"
        and k: "(case res of Rejected code cur \<Rightarrow> Some f1
                 | Committed child' e' \<Rightarrow> settle_child E sub r e ts child' f1) = Some f'"
        by (auto simp: propagate_child_def Let_def bind_eq_Some_conv)
      from k have "f' = f1 \<or> (\<exists>c' e'. res = Committed c' e' \<and> settle_child E sub r e ts c' f1 = Some f')"
        by (cases res) simp_all
      with s request show thesis by blast
    qed
  next
    case closing
    with assms(1) have k: "(case propagated_of_outcome (tr_terminalOutcome r) of None \<Rightarrow> Some f
        | Some out \<Rightarrow> map_option snd (?sfc (PropagateParentTermination (ev_eventId e) out) (terminated_reason out))) = Some f'"
      by (simp add: propagate_child_def Let_def ts_def cong: option.case_cong)
    show thesis
    proof (cases "propagated_of_outcome (tr_terminalOutcome r)")
      case None
      with k stop show thesis by simp
    next
      case (Some out)
      with k obtain res where "?sfc (PropagateParentTermination (ev_eventId e) out) (terminated_reason out) = Some (res, f')"
        by auto
      with terminate show thesis by blast
    qed
  qed
qed

locale submission_contract =
  fixes E :: lifecycle_env
    and good :: "lifecycle_funnel \<Rightarrow> bool"
    and ok :: "task_lifecycle_intent \<Rightarrow> bool"
    and rel :: "lifecycle_funnel \<Rightarrow> lifecycle_funnel \<Rightarrow> bool"
  assumes rel_refl: "rel f f"
    and rel_trans: "rel f g \<Longrightarrow> rel g h \<Longrightarrow> rel f h"
    and rel_draw: "rel f (f\<lparr>fn_draws := Suc (fn_draws f)\<rparr>)"
    and rel_good: "rel f g \<Longrightarrow> good f \<Longrightarrow> good g"
    and rel_local: "good f \<Longrightarrow> ok i \<Longrightarrow> submit_local E ts i f = (res, f') \<Longrightarrow> rel f f'"
    and ok_children: "good f \<Longrightarrow> ok i \<Longrightarrow> submit_local E ts i f = (Committed r e, f') \<Longrightarrow>
      c \<in> set (listAttachedChildren (fn_store f') (attached_link r)) \<Longrightarrow> propagation_intent e c j \<Longrightarrow> ok j"
begin

definition serves :: "submission \<Rightarrow> bool" where
  "serves sub \<longleftrightarrow> (\<forall>ts i f res f'. good f \<longrightarrow> ok i \<longrightarrow> sub ts i f = Some (res, f') \<longrightarrow>
     rel f f' \<and> (\<forall>r e. res = Committed r e \<longrightarrow> tr_taskId r = in_taskId i))"

definition covers :: "task_lifecycle_event \<Rightarrow> task_lifecycle_record \<Rightarrow> bool" where
  "covers e c \<longleftrightarrow> (\<forall>j. propagation_intent e c j \<longrightarrow> ok j)"

lemma servesD:
  assumes "serves sub" "good f" "ok i" "sub ts i f = Some (res, f')"
  shows "rel f f'" and "\<forall>r e. res = Committed r e \<longrightarrow> tr_taskId r = in_taskId i"
  using assms by (auto simp: serves_def)

lemma submit_for_child_rel:
  assumes sub: "serves sub" and g: "good f" and cov: "covers e c" and reason: "non_blank reason"
    and t: "t = RequestCancellation \<or> t = SettleCancellation None \<or> (\<exists>out. t = PropagateParentTermination (ev_eventId e) out)"
    and s: "submit_for_child E sub e c t reason ts f = Some (res, f')"
  shows "rel f f' \<and> (\<forall>r e. res = Committed r e \<longrightarrow> tr_taskId r = tr_taskId c)"
proof -
  let ?j = "\<lparr>in_intentId = env_uuid E (fn_draws f), in_taskId = tr_taskId c, in_generationId = tr_generationId c,
             in_cause = parent_cause reason (ev_eventId e), in_type = t\<rparr>"
  let ?g = "f\<lparr>fn_draws := Suc (fn_draws f)\<rparr>"
  have "propagation_intent e c ?j" using reason t by (auto simp: propagation_intent_def)
  with cov have okj: "ok ?j" by (simp add: covers_def)
  have g2: "good ?g" by (rule rel_good [OF rel_draw g])
  have call: "sub ts ?j ?g = Some (res, f')"
    using s by (simp add: submit_for_child_def new_intent_id_def)
  have "\<forall>r e. res = Committed r e \<longrightarrow> tr_taskId r = tr_taskId c"
    using servesD(2) [OF sub g2 okj call] by (simp only: task_lifecycle_intent.select_convs)
  with rel_trans [OF rel_draw servesD(1) [OF sub g2 okj call]] show ?thesis ..
qed

lemma covers_same_task: "covers e c \<Longrightarrow> tr_taskId c' = tr_taskId c \<Longrightarrow> covers e c'"
  by (simp add: covers_def propagation_intent_def)

lemma settle_child_rel:
  assumes sub: "serves sub" and g: "good f" and cov: "covers e c" and p: "settle_child E sub r e ts c f = Some f'"
  shows "rel f f'"
  using p
proof (cases rule: settle_child_cases)
  case 1
  then show ?thesis by (simp add: rel_refl)
next
  case (2 res)
  with submit_for_child_rel [OF sub g cov non_blank_reasons(2)] show ?thesis by blast
qed

lemma propagate_child_rel:
  assumes sub: "serves sub" and g: "good f" and cov: "covers e c"
    and p: "propagate_child E sub r e c f = Some f'"
  shows "rel f f'"
  using p
proof (cases rule: propagate_child_cases)
  case stop
  then show ?thesis by (simp add: rel_refl)
next
  case settle
  with settle_child_rel [OF sub g cov] show ?thesis by blast
next
  case (request res f1)
  then have r1: "rel f f1" and same: "\<And>r e. res = Committed r e \<Longrightarrow> tr_taskId r = tr_taskId c"
    using submit_for_child_rel [OF sub g cov non_blank_reasons(1)] by blast+
  from request(2) show ?thesis
  proof (elim disjE exE conjE)
    assume "f' = f1"
    with r1 show ?thesis by simp
  next
    fix c' e' assume "res = Committed c' e'" and
      s: "settle_child E sub r e (js_get (fn_projected f) (tr_taskId c)) c' f1 = Some f'"
    then have "covers e c'" using covers_same_task [OF cov] same by blast
    with s have "rel f1 f'" by (intro settle_child_rel [OF sub rel_good [OF r1 g]])
    with r1 show ?thesis by (rule rel_trans)
  qed
next
  case terminate
  with submit_for_child_rel [OF sub g cov non_blank_reasons(3)] show ?thesis by blast
qed

lemma propagate_children_rel:
  assumes "serves sub" "good f" "\<And>c. c \<in> set cs \<Longrightarrow> covers e c" "propagate_children E sub r e cs f = Some f'"
  shows "rel f f'"
  using assms(2-4)
proof (induction cs arbitrary: f)
  case Nil
  then show ?case by (simp add: rel_refl)
next
  case (Cons c cs)
  from Cons.prems(3) obtain f1 where f1: "propagate_child E sub r e c f = Some f1"
    and rest: "propagate_children E sub r e cs f1 = Some f'" by (auto simp: bind_eq_Some_conv)
  have r1: "rel f f1" by (rule propagate_child_rel [OF assms(1) Cons.prems(1) Cons.prems(2) f1]) simp
  moreover have "rel f1 f'" by (rule Cons.IH [OF rel_good [OF r1 Cons.prems(1)] Cons.prems(2) rest]) simp
  ultimately show ?case by (rule rel_trans)
qed

lemma propagateToAttachedChildren_rel:
  assumes "serves sub" "good f" "propagateToAttachedChildren E sub r e f = Some f'"
    and "\<And>c. c \<in> set (listAttachedChildren (fn_store f) (attached_link r)) \<Longrightarrow> covers e c"
  shows "rel f f'"
proof -
  have "f' = f \<or> propagate_children E sub r e (listAttachedChildren (fn_store f) (attached_link r)) f = Some f'"
    using assms(3) by (auto simp: propagateToAttachedChildren_def split: if_splits)
  then show ?thesis
  proof
    assume "propagate_children E sub r e (listAttachedChildren (fn_store f) (attached_link r)) f = Some f'"
    with assms(4) show ?thesis by (rule propagate_children_rel [OF assms(1,2)])
  qed (simp add: rel_refl)
qed

lemma serves_submit_fuel: "serves (submit_fuel n E)"
proof (induction n)
  case 0
  then show ?case by (simp add: serves_def)
next
  case (Suc n)
  have "rel f f'" if g: "good f" and ok: "ok i" and s: "submit_fuel (Suc n) E ts i f = Some (res, f')" for ts i f res f'
  proof -
    obtain lres f1 where loc: "submit_local E ts i f = (lres, f1)" by (cases "submit_local E ts i f")
    have r1: "rel f f1" by (rule rel_local [OF g ok loc])
    show ?thesis
    proof (cases lres)
      case (Rejected code cur)
      with s loc r1 show ?thesis by (simp add: submit_body_def)
    next
      case (Committed r e)
      with s loc have "propagateToAttachedChildren E (submit_fuel n E) r e f1 = Some f'"
        by (auto simp: submit_body_def)
      then have "rel f1 f'"
        by (rule propagateToAttachedChildren_rel [OF Suc rel_good [OF r1 g]])
          (use ok_children [OF g ok] loc Committed in \<open>auto simp: covers_def\<close>)
      with r1 show ?thesis by (rule rel_trans)
    qed
  qed
  then show ?case using submit_fuel_committed by (auto simp: serves_def simp del: submit_fuel.simps)
qed

lemma submit_fuel_rel: "good f \<Longrightarrow> ok i \<Longrightarrow> submit_fuel n E ts i f = Some (res, f') \<Longrightarrow> rel f f'"
  using serves_submit_fuel unfolding serves_def by blast

end

end
