(* ===== verification/Lifecycle_Cascade.thy ===== *)
theory Lifecycle_Cascade
  imports Lifecycle_Submit
begin

text \<open>
  What a submission does with its propagation taken into account, by interpretations of
  \<open>submission_contract\<close>: it is a sequence of journal steps, it keeps the parent links, and it
  needs no more fuel than there are records.
\<close>

section \<open>Submissions are journal steps\<close>

definition good_env :: "lifecycle_env \<Rightarrow> bool" where
  "good_env E \<longleftrightarrow> inj (env_uuid E) \<and> (\<forall>n. non_blank (env_uuid E n))"

definition ok_intent :: "task_lifecycle_intent \<Rightarrow> bool" where
  "ok_intent i \<longleftrightarrow> wf_cause (in_cause i) \<and>
     (case in_type i of
        RegisterGeneration p \<Rightarrow> opt_ok (wf_parent (in_taskId i)) p
      | ResumeWithGeneration g \<Rightarrow> no_string g \<or> opt_ok non_blank g
      | _ \<Rightarrow> True)"

lemma wf_intent_iff: "wf_intent i \<longleftrightarrow> valid_intent_ids i \<and> ok_intent i"
  by (auto simp: wf_intent_def ok_intent_def)

definition fn_ok :: "lifecycle_env \<Rightarrow> lifecycle_funnel \<Rightarrow> bool" where
  "fn_ok E f \<longleftrightarrow> lc_inv (fn_store f, []) \<and>
     ev_eventId ` set (js_values (st_eventsByIntent (fn_store f))) \<subseteq> env_uuid E ` {..<fn_draws f}"

definition steps_rel :: "lifecycle_env \<Rightarrow> lifecycle_funnel \<Rightarrow> lifecycle_funnel \<Rightarrow> bool" where
  "steps_rel E f f' \<longleftrightarrow> st_sequence (fn_store f) \<le> st_sequence (fn_store f') \<and>
     (fn_ok E f \<longrightarrow> st_sequence (fn_store f') \<le> max_safe_integer \<longrightarrow>
        fn_ok E f' \<and> lc_step\<^sup>*\<^sup>* (fn_store f, []) (fn_store f', []))"

lemma steps_relI_same:
  assumes "fn_store f' = fn_store f" and "fn_draws f \<le> fn_draws f'"
  shows "steps_rel E f f'"
proof -
  have "{..<fn_draws f} \<subseteq> {..<fn_draws f'}" using assms(2) by auto
  then show ?thesis using assms(1) by (force simp: steps_rel_def fn_ok_def)
qed

lemma steps_rel_trans:
  assumes "steps_rel E f g" and "steps_rel E g h"
  shows "steps_rel E f h"
proof -
  have le: "st_sequence (fn_store f) \<le> st_sequence (fn_store g)" "st_sequence (fn_store g) \<le> st_sequence (fn_store h)"
    using assms by (simp_all add: steps_rel_def)
  have "fn_ok E h \<and> lc_step\<^sup>*\<^sup>* (fn_store f, []) (fn_store h, [])"
    if "fn_ok E f" "st_sequence (fn_store h) \<le> max_safe_integer"
  proof -
    from that le have "fn_ok E g" "lc_step\<^sup>*\<^sup>* (fn_store f, []) (fn_store g, [])"
      using assms(1) by (simp_all add: steps_rel_def)
    moreover from this that have "fn_ok E h" "lc_step\<^sup>*\<^sup>* (fn_store g, []) (fn_store h, [])"
      using assms(2) by (simp_all add: steps_rel_def)
    ultimately show ?thesis by (blast intro: rtranclp_trans)
  qed
  with le show ?thesis by (simp add: steps_rel_def)
qed

lemma store_commit_sequence:
  "store_commit s ex r e = (res, s') \<Longrightarrow>
     s' = s \<or> (\<exists>r' e'. res = Commit_committed r' e' \<and> st_sequence s' = st_sequence s + 1)"
  using store_commit_refused [of s ex r e] store_commit_admitted [of s ex r e]
  by (cases "commit_admitted s ex r e") (auto simp: Let_def withSequence_def)

lemma fresh_draw:
  assumes "good_env E" and "fn_ok E f"
  shows "env_uuid E (fn_draws f) \<notin> ev_eventId ` set (js_values (st_eventsByIntent (fn_store f)))"
proof
  assume "env_uuid E (fn_draws f) \<in> ev_eventId ` set (js_values (st_eventsByIntent (fn_store f)))"
  with assms(2) have "env_uuid E (fn_draws f) \<in> env_uuid E ` {..<fn_draws f}" unfolding fn_ok_def by blast
  with assms(1) show False by (simp add: good_env_def inj_image_mem_iff)
qed

lemma local_steps:
  assumes env: "good_env E" and ok: "ok_intent i" and loc: "submit_local E ts i f = (res, f')"
  shows "steps_rel E f f'"
  using loc
proof (cases rule: submit_local_cases)
  case (refused code cur)
  then show ?thesis by (intro steps_relI_same)
next
  case (evaluated now r e cres)
  let ?s = "fn_store f" and ?cur = "js_get (st_records (fn_store f)) (in_taskId i)" and ?eid = "env_uuid E (fn_draws f)"
  let ?p = "\<lparr>pd_current = store_load ?s (in_taskId i), pd_intent = i, pd_now = now, pd_eventId = ?eid,
             pd_record = r, pd_event = e\<rparr>"
  have seq: "st_sequence ?s \<le> st_sequence (fn_store f')"
    using store_commit_sequence [OF evaluated(4)] by auto
  have "fn_ok E f' \<and> lc_step\<^sup>*\<^sup>* (?s, []) (fn_store f', [])"
    if fok: "fn_ok E f" and bound: "st_sequence (fn_store f') \<le> max_safe_integer"
  proof (cases "fn_store f' = ?s")
    case True
    with steps_relI_same [of f' f E] evaluated(6) fok bound show ?thesis by (simp add: steps_rel_def)
  next
    case False
    with store_commit_sequence [OF evaluated(4)] obtain r' e' where
      cres: "cres = Commit_committed r' e'" and s1: "st_sequence (fn_store f') = st_sequence ?s + 1" by auto
    note fresh = fresh_draw [OF env fok]
    have st1: "lc_step (?s, []) (?s, [?p])"
      using env ok evaluated(1-3) fresh
      by (intro lc_begin) (auto simp: wf_intent_iff good_env_def known_event_ids_def store_load_def)
    have st2: "lc_step (?s, [?p]) (fn_store f', remove1 ?p [?p])"
      using evaluated(4) s1 bound by (intro lc_finish [of ?p]) (auto simp: store_load_def)
    have steps: "lc_step\<^sup>*\<^sup>* (?s, []) (fn_store f', [])"
      using st1 st2 by (auto intro: converse_rtranclp_into_rtranclp)
    have "lc_inv (?s, [])" using fok by (simp add: fn_ok_def)
    then have inv: "lc_inv (fn_store f', [])" by (rule lc.steps_inv [OF steps])
    have evs: "st_eventsByIntent (fn_store f') = js_set (st_eventsByIntent ?s) (ev_intentId e) e'"
      using store_commit_committed(4) [OF evaluated(4) [unfolded cres]] by simp
    have "ev_eventId e' = ?eid"
      using store_commit_committed(3) [OF evaluated(4) [unfolded cres]] evaluate_fields(6) [OF evaluated(3)] by simp
    then have "ev_eventId ` set (js_values (st_eventsByIntent (fn_store f'))) \<subseteq>
      insert ?eid (ev_eventId ` set (js_values (st_eventsByIntent ?s)))"
      unfolding evs using image_mono [OF js_values_set_subset, of ev_eventId "ev_intentId e" e' "st_eventsByIntent ?s"]
      by simp
    also have "\<dots> \<subseteq> insert ?eid (env_uuid E ` {..<fn_draws f})"
      using fok by (intro insert_mono) (simp add: fn_ok_def)
    also have "\<dots> = env_uuid E ` {..<fn_draws f'}"
      using evaluated(6) by (simp add: lessThan_Suc)
    finally have "ev_eventId ` set (js_values (st_eventsByIntent (fn_store f'))) \<subseteq> env_uuid E ` {..<fn_draws f'}" .
    with inv steps show ?thesis by (simp add: fn_ok_def)
  qed
  with seq show ?thesis by (simp add: steps_rel_def)
qed

lemma propagation_ok_intent:
  assumes "good_env E" and "submit_local E ts i f = (Committed r e, f')" and "propagation_intent e c j"
  shows "ok_intent j"
proof -
  have "non_blank (ev_eventId e)"
    using submit_local_committed(2) [OF assms(2)] assms(1) by (simp add: good_env_def)
  with assms(3) show ?thesis
    by (auto simp: propagation_intent_def ok_intent_def wf_cause_def parent_cause_def)
qed

interpretation steps: submission_contract E "\<lambda>f. good_env E" ok_intent "steps_rel E" for E
proof unfold_locales
  show "steps_rel E f (f\<lparr>fn_draws := Suc (fn_draws f)\<rparr>)" for f by (rule steps_relI_same) simp_all
qed (auto intro: steps_relI_same steps_rel_trans local_steps propagation_ok_intent)

section \<open>Submissions keep the links\<close>

definition keyed :: "lifecycle_store \<Rightarrow> bool" where
  "keyed s \<longleftrightarrow> js_wf (st_records s) \<and> (\<forall>(k, r) \<in> set (st_records s). tr_taskId r = k)"

definition same_links :: "lifecycle_store \<Rightarrow> lifecycle_store \<Rightarrow> bool" where
  "same_links s s' \<longleftrightarrow> js_keys (st_records s') = js_keys (st_records s) \<and>
     (\<forall>k. map_option attached_to (js_get (st_records s') k) = map_option attached_to (js_get (st_records s) k)) \<and>
     (keyed s \<longrightarrow> keyed s')"

definition not_register :: "task_lifecycle_intent \<Rightarrow> bool" where
  "not_register i \<longleftrightarrow> (\<forall>p. in_type i \<noteq> RegisterGeneration p)"

lemma same_links_refl: "same_links s s"
  by (simp add: same_links_def)

lemma same_links_trans: "same_links s t \<Longrightarrow> same_links t u \<Longrightarrow> same_links s u"
  by (simp add: same_links_def)

lemma evaluate_parent:
  assumes "evaluate (Some c) i now eid = Inr (r, e)" and "admission (Some c) i = None"
  shows "tr_parent r = tr_parent c"
  using assms(1)
proof (rule evaluate_InrD)
  fix ch assume sw: "evaluate_switch (Some c) i now = Inr ch" and r: "r = record_of_change (Some c) i ch now eid"
  from evaluate_switch_cases [OF sw assms(2)] assms(2) have "ch_parent ch = tr_parent c"
    by (cases "in_type i") (auto simp: admission_def)
  with r show ?thesis by simp
qed

lemma local_same_links:
  assumes ok: "not_register i" and loc: "submit_local E ts i f = (res, f')"
  shows "same_links (fn_store f) (fn_store f')"
  using loc
proof (cases rule: submit_local_cases)
  case (refused code cur)
  then show ?thesis by (simp add: same_links_refl)
next
  case (evaluated now r e cres)
  let ?s = "fn_store f"
  from evaluated(2) ok obtain c where c: "js_get (st_records ?s) (in_taskId i) = Some c"
    by (auto simp: admission_None_iff not_register_def split: task_lifecycle_intent_type.splits)
  have par: "tr_parent r = tr_parent c"
    using evaluate_parent evaluated(2,3) c by auto
  show ?thesis
  proof (cases "\<exists>r' e'. cres = Commit_committed r' e'")
    case False
    then have "fn_store f' = ?s" using store_commit_sequence [OF evaluated(4)] by auto
    then show ?thesis by (simp add: same_links_refl)
  next
    case True
    then obtain r' e' where cres: "cres = Commit_committed r' e'" by blast
    note cc = store_commit_committed [OF evaluated(4) [unfolded cres]]
    have id: "tr_taskId r = in_taskId i" by (rule evaluate_fields(1) [OF evaluated(3)])
    have recs: "st_records (fn_store f') = js_set (st_records ?s) (in_taskId i) r'"
      unfolding cc(4) by (simp add: id)
    have "in_taskId i \<in> set (js_keys (st_records ?s))"
      using c js_get_None_iff by (metis option.distinct(1))
    moreover have "attached_to r' = attached_to c" using par by (simp add: cc(2) attached_to_def)
    moreover have "tr_taskId r' = in_taskId i" by (simp add: cc(2) id)
    ultimately show ?thesis
      using c by (auto simp: same_links_def recs js_keys_set keyed_def set_js_set_wf)
  qed
qed

lemma propagation_not_register: "propagation_intent e c j \<Longrightarrow> not_register j"
  by (auto simp: propagation_intent_def not_register_def)

interpretation links: submission_contract E "\<lambda>f. True" not_register "\<lambda>f f'. same_links (fn_store f) (fn_store f')" for E
  by unfold_locales
    (auto intro: same_links_refl same_links_trans local_same_links propagation_not_register)

section \<open>Submissions return\<close>

text \<open>The number of records from a task's own on: a child comes after its parent, so it counts down.\<close>

definition rank :: "lifecycle_store \<Rightarrow> string \<Rightarrow> nat" where
  "rank s t = length (dropWhile (\<lambda>k. k \<noteq> t) (js_keys (st_records s)))"

definition linked :: "lifecycle_store \<Rightarrow> bool" where
  "linked s \<longleftrightarrow> keyed s \<and> parents_first [] (st_records s)"

lemma rank_le: "rank s t \<le> length (st_records s)"
  unfolding rank_def by (metis length_dropWhile_le length_map)

lemma parents_first_rank:
  assumes "parents_first seen rs" and "(k, c) \<in> set rs" and "attached_to c = Some link" and "pl_taskId link \<notin> set seen"
    and "distinct (map fst rs)" and "k \<notin> set seen"
  shows "length (dropWhile (\<lambda>x. x \<noteq> k) (map fst rs)) < length (dropWhile (\<lambda>x. x \<noteq> pl_taskId link) (map fst rs))"
  using assms
proof (induction seen rs rule: parents_first.induct)
  case (1 seen)
  then show ?case by simp
next
  case (2 seen k' r rs)
  show ?case
  proof (cases "k = k'")
    case True
    then have "c = r" using "2.prems" by (auto simp: image_iff)
    with "2.prems" True show ?thesis by auto
  next
    case False
    then have c: "(k, c) \<in> set rs" using "2.prems" by auto
    show ?thesis
    proof (cases "pl_taskId link = k'")
      case True
      have "length (dropWhile (\<lambda>x. x \<noteq> k) (map fst rs)) \<le> length (map fst rs)" by (rule length_dropWhile_le)
      with True False show ?thesis by simp
    next
      case False
      with \<open>k \<noteq> k'\<close> c "2.prems" show ?thesis by (auto intro: "2.IH")
    qed
  qed
qed

lemma child_rank:
  assumes "linked s" and "c \<in> set (listAttachedChildren s link)"
  shows "rank s (tr_taskId c) < rank s (pl_taskId link)"
proof -
  from assms(2) obtain k l where c: "(k, c) \<in> set (st_records s)" and l: "attached_to c = Some l" "pl_taskId l = pl_taskId link"
    by (auto simp: listAttachedChildren_def split: option.splits)
  from assms(1) c have "tr_taskId c = k" by (auto simp: linked_def keyed_def)
  with parents_first_rank [of "[]" "st_records s" k c l] c l assms(1) show ?thesis
    by (simp add: rank_def linked_def keyed_def)
qed

lemma parents_first_links:
  assumes "js_keys rs' = js_keys rs" and "distinct (js_keys rs)"
    and "\<And>k. map_option attached_to (js_get rs' k) = map_option attached_to (js_get rs k)"
  shows "parents_first seen rs' = parents_first seen rs"
  using assms
proof (induction seen rs arbitrary: rs' rule: parents_first.induct)
  case (1 seen)
  then show ?case by simp
next
  case (2 seen k r rs)
  from "2.prems"(1) obtain r' rest where rs': "rs' = (k, r') # rest" "js_keys rest = js_keys rs"
    by (cases rs') auto
  from "2.prems"(3) [of k] rs' have head: "attached_to r' = attached_to r" by simp
  have "map_option attached_to (js_get rest x) = map_option attached_to (js_get rs x)" for x
  proof (cases "x = k")
    case True
    with "2.prems"(2) rs'(2) have "js_get rest x = None" "js_get rs x = None"
      by (auto simp: map_of_eq_None_iff simp flip: set_map)
    then show ?thesis by simp
  next
    case False
    with "2.prems"(3) [of x] rs' show ?thesis by simp
  qed
  with "2.IH" [OF rs'(2)] "2.prems"(2) rs' head show ?case by simp
qed

lemma same_links_linked: "same_links s s' \<Longrightarrow> linked s \<Longrightarrow> linked s'"
  using parents_first_links [of "st_records s'" "st_records s" "[]"] by (auto simp: same_links_def linked_def keyed_def)

lemma same_links_rank: "same_links s s' \<Longrightarrow> rank s' t = rank s t"
  by (simp add: rank_def same_links_def)

definition total_below :: "nat \<Rightarrow> lifecycle_env \<Rightarrow> submission \<Rightarrow> bool" where
  "total_below m E sub \<longleftrightarrow> (\<forall>ts j g. linked (fn_store g) \<longrightarrow> not_register j \<longrightarrow> rank (fn_store g) (in_taskId j) < m \<longrightarrow>
     sub ts j g \<noteq> None)"

lemma links_covers: "links.covers e c"
  by (simp add: links.covers_def propagation_not_register)

lemma submit_for_child_total:
  assumes "total_below m E sub" "linked (fn_store f)" "rank (fn_store f) (tr_taskId c) < m"
    and "\<forall>p. t \<noteq> RegisterGeneration p"
  shows "submit_for_child E sub e c t reason ts f \<noteq> None"
proof -
  let ?g = "f\<lparr>fn_draws := fn_draws f + 1\<rparr>"
  let ?j = "\<lparr>in_intentId = env_uuid E (fn_draws f), in_taskId = tr_taskId c, in_generationId = tr_generationId c,
             in_cause = parent_cause reason (ev_eventId e), in_type = t\<rparr>"
  have "linked (fn_store ?g)" "not_register ?j" "rank (fn_store ?g) (in_taskId ?j) < m"
    using assms by (simp_all add: not_register_def)
  then have "sub ts ?j ?g \<noteq> None" using assms(1) unfolding total_below_def by blast
  then show ?thesis by (simp add: submit_for_child_def new_intent_id_def)
qed

lemma settle_child_total:
  assumes "total_below m E sub" "linked (fn_store f)" "rank (fn_store f) (tr_taskId c) < m"
  shows "settle_child E sub r e ts c f \<noteq> None"
proof -
  have "submit_for_child E sub e c (SettleCancellation None) settled_reason ts f \<noteq> None"
    by (rule submit_for_child_total [OF assms]) simp
  then show ?thesis by (auto simp: settle_child_def)
qed

lemma propagate_child_total:
  assumes tot: "total_below m E sub" and sv: "links.serves sub" and lk: "linked (fn_store f)"
    and rk: "rank (fn_store f) (tr_taskId c) < m"
  shows "propagate_child E sub r e c f \<noteq> None"
proof -
  let ?ts = "js_get (fn_projected f) (tr_taskId c)"
  have sfc: "submit_for_child E sub e c t reason ts f \<noteq> None" if "\<forall>p. t \<noteq> RegisterGeneration p" for t reason ts
    by (rule submit_for_child_total [OF tot lk rk that])
  have request: "settle_child E sub r e ?ts c' f1 \<noteq> None"
    if s: "submit_for_child E sub e c RequestCancellation fence_reason ?ts f = Some (Committed c' e', f1)" for c' e' f1
  proof -
    have same: "same_links (fn_store f) (fn_store f1)" and id: "tr_taskId c' = tr_taskId c"
      using links.submit_for_child_rel [OF sv TrueI links_covers non_blank_reasons(1) _ s] by auto
    show ?thesis
      by (rule settle_child_total [OF tot same_links_linked [OF same lk]])
        (simp add: id same_links_rank [OF same] rk)
  qed
  obtain res f1 where s: "submit_for_child E sub e c RequestCancellation fence_reason ?ts f = Some (res, f1)"
    using sfc [of RequestCancellation fence_reason ?ts] by auto
  have "(case res of Rejected code cur \<Rightarrow> Some f1 | Committed c' e' \<Rightarrow> settle_child E sub r e ?ts c' f1) \<noteq> None"
    using request s by (cases res) auto
  moreover have "settle_child E sub r e ?ts c f \<noteq> None" by (rule settle_child_total [OF tot lk rk])
  moreover have "(case propagated_of_outcome (tr_terminalOutcome r) of None \<Rightarrow> Some f
      | Some out \<Rightarrow> map_option snd (submit_for_child E sub e c (PropagateParentTermination (ev_eventId e) out)
          (terminated_reason out) ?ts f)) \<noteq> None"
  proof (cases "propagated_of_outcome (tr_terminalOutcome r)")
    case (Some out)
    with sfc [of "PropagateParentTermination (ev_eventId e) out" "terminated_reason out" ?ts] show ?thesis by simp
  qed simp
  ultimately show ?thesis using s by (simp add: propagate_child_def Let_def)
qed

lemma propagate_children_total:
  assumes tot: "total_below m E sub" and sv: "links.serves sub"
    and "linked (fn_store f)" and "\<And>c. c \<in> set cs \<Longrightarrow> rank (fn_store f) (tr_taskId c) < m"
  shows "propagate_children E sub r e cs f \<noteq> None"
  using assms(3,4)
proof (induction cs arbitrary: f)
  case Nil
  then show ?case by simp
next
  case (Cons c cs)
  obtain f1 where f1: "propagate_child E sub r e c f = Some f1"
    using propagate_child_total [OF tot sv Cons.prems(1) Cons.prems(2) [of c]] by auto
  have same: "same_links (fn_store f) (fn_store f1)"
    by (rule links.propagate_child_rel [OF sv TrueI links_covers f1])
  have "propagate_children E sub r e cs f1 \<noteq> None"
    by (rule Cons.IH [OF same_links_linked [OF same Cons.prems(1)]])
      (simp add: same_links_rank [OF same] Cons.prems(2))
  with f1 show ?case by simp
qed

lemma submit_fuel_total_below: "total_below n E (submit_fuel n E)"
proof (induction n)
  case 0
  then show ?case by (simp add: total_below_def)
next
  case (Suc n)
  have "submit_fuel (Suc n) E ts j g \<noteq> None"
    if lk: "linked (fn_store g)" and nr: "not_register j" and rk: "rank (fn_store g) (in_taskId j) < Suc n" for ts j g
  proof -
    obtain res f1 where loc: "submit_local E ts j g = (res, f1)" by (cases "submit_local E ts j g")
    have same: "same_links (fn_store g) (fn_store f1)" by (rule local_same_links [OF nr loc])
    show ?thesis
    proof (cases res)
      case (Rejected code cur)
      with loc show ?thesis by (simp add: submit_body_def)
    next
      case (Committed r e)
      have id: "tr_taskId r = in_taskId j" using submit_local_committed(1) loc Committed by blast
      have lk1: "linked (fn_store f1)" by (rule same_links_linked [OF same lk])
      have "rank (fn_store f1) (tr_taskId c) < n"
        if "c \<in> set (listAttachedChildren (fn_store f1) (attached_link r))" for c
        using child_rank [OF lk1 that] rk id same_links_rank [OF same] by simp
      then have "propagateToAttachedChildren E (submit_fuel n E) r e f1 \<noteq> None"
        using propagate_children_total [OF Suc links.serves_submit_fuel lk1]
        by (simp add: propagateToAttachedChildren_def)
      with loc Committed show ?thesis by (auto simp: submit_body_def)
    qed
  qed
  then show ?case unfolding total_below_def by blast
qed

lemma submit_register_total:
  assumes "in_type i = RegisterGeneration p"
  shows "submit_fuel (Suc n) E ts i f \<noteq> None"
proof -
  obtain res f1 where loc: "submit_local E ts i f = (res, f1)" by (cases "submit_local E ts i f")
  show ?thesis
  proof (cases res)
    case (Rejected code cur)
    with loc show ?thesis by (simp add: submit_body_def)
  next
    case (Committed r e)
    from loc have "ev_transition e = Register_generation \<and> tr_state r = Registered"
    proof (cases rule: submit_local_cases)
      case (refused code cur)
      with Committed show ?thesis by simp
    next
      case (evaluated now r0 e0 cres)
      then have "cres = Commit_committed r e"
        using Committed by (auto simp: rejection_of_commit_def split: lifecycle_commit_result.splits)
      with evaluated have com: "store_commit (fn_store f) (expectation_of (js_get (st_records (fn_store f)) (in_taskId i))) r0 e0
          = (Commit_committed r e, fn_store f1)" by simp
      from evaluated(3) obtain ch where
        sw: "evaluate_switch (js_get (st_records (fn_store f)) (in_taskId i)) i now = Inr ch"
        and r0: "r0 = record_of_change (js_get (st_records (fn_store f)) (in_taskId i)) i ch now (env_uuid E (fn_draws f))"
        and e0: "e0 = event_of_change (js_get (st_records (fn_store f)) (in_taskId i)) i ch now (env_uuid E (fn_draws f))"
        by (rule evaluate_InrD)
      show ?thesis
        using evaluate_switch_cases [OF sw evaluated(2)] assms store_commit_committed(2,3) [OF com] r0 e0 by simp
    qed
    with loc Committed show ?thesis by (simp add: submit_body_def propagateToAttachedChildren_def)
  qed
qed

lemma submit_total:
  assumes "linked (fn_store f)"
  shows "submit E ts i f \<noteq> None"
proof (cases "not_register i")
  case True
  have "rank (fn_store f) (in_taskId i) < length (st_records (fn_store f)) + 2"
    using rank_le [of "fn_store f" "in_taskId i"] by linarith
  with assms True submit_fuel_total_below show ?thesis
    unfolding submit_def total_below_def by blast
next
  case False
  then show ?thesis
    using submit_register_total [of i _ "length (st_records (fn_store f)) + 1"]
    by (auto simp: submit_def not_register_def simp del: submit_fuel.simps)
qed

lemma fn_ok_linked: "fn_ok E f \<Longrightarrow> linked (fn_store f)"
  by (auto simp: fn_ok_def lc_inv_def linked_def keyed_def journal_inv_def)

end
