(* ===== verification/Lifecycle_Recovery.thy ===== *)
theory Lifecycle_Recovery
  imports Lifecycle_Cascade
begin

text \<open>
  The operations of \<^verbatim>\<open>TaskLifecycleFunnel.ts\<close> that read a task back: \<open>readProjection\<close> from
  the task state, \<open>restore\<close> from the journal, and the admission operations built on them
  (\<open>registerAndActivate\<close>, \<open>ensureActive\<close>, \<open>executionEligibility\<close>). A thrown error is
  \<open>Thrown\<close>; \<open>None\<close> is still running out of fuel.
\<close>

section \<open>Decoding\<close>

definition dec_str :: "json option \<Rightarrow> string" where
  "dec_str v = (case v of Some (JStr s) \<Rightarrow> s | _ \<Rightarrow> [])"

definition dec_num :: "json option \<Rightarrow> int" where
  "dec_num v = (case v of Some (JNum n) \<Rightarrow> n | _ \<Rightarrow> 0)"

definition dec_opt :: "(json option \<Rightarrow> 'a) \<Rightarrow> json option \<Rightarrow> 'a option" where
  "dec_opt d v = (if v = None then None else Some (d v))"

definition dec_name :: "('a \<Rightarrow> string) \<Rightarrow> 'a list \<Rightarrow> json option \<Rightarrow> 'a" where
  "dec_name name all v = (case find (\<lambda>x. name x = js_String_opt v) all of Some x \<Rightarrow> x | None \<Rightarrow> hd all)"

definition dec_state :: "json option \<Rightarrow> task_lifecycle_state" where
  "dec_state = dec_name state_name [Registered, Active, Suspended, Terminal]"

definition dec_outcome :: "json option \<Rightarrow> task_terminal_outcome" where
  "dec_outcome = dec_name outcome_name [Completed, Cancelled, Failed, Timed_out]"

definition dec_source :: "json option \<Rightarrow> task_lifecycle_causal_source" where
  "dec_source = dec_name source_name [Src_task, Src_controller, Src_execution_funnel, Src_completion_funnel,
     Src_subagent, Src_parent_lifecycle, Src_recovery, Src_storage_restore, Src_test]"

definition dec_transition :: "json option \<Rightarrow> task_lifecycle_transition_type" where
  "dec_transition = dec_name transition_type_name [Register_generation, Activate_generation, Suspend_generation,
     Resume_generation, Replace_generation, Request_cancellation, Settle_cancellation, Settle_completion,
     Settle_failure, Settle_timeout, Propagate_parent_termination, Reactivate_after_completion_rejection]"

definition dec_cause :: "json option \<Rightarrow> task_lifecycle_cause" where
  "dec_cause v = \<lparr>cs_source = dec_source (ofield v ''source''), cs_reason = dec_str (ofield v ''reason''),
     cs_originatingOperationId = dec_opt dec_str (ofield v ''originatingOperationId''),
     cs_originatingEventId = dec_opt dec_str (ofield v ''originatingEventId''),
     cs_authoritativeAt = dec_opt dec_num (ofield v ''authoritativeAt'')\<rparr>"

definition dec_cancellation :: "json option \<Rightarrow> task_cancellation_state" where
  "dec_cancellation v =
     (if ofield v ''status'' = Some (JStr ''none'') then No_cancellation
      else Requested (dec_num (ofield v ''requestedAt'')) (dec_str (ofield v ''requestEventId''))
             (dec_str (ofield v ''requestIntentId'')))"

definition dec_parent :: "json option \<Rightarrow> task_parent_link" where
  "dec_parent v = \<lparr>pl_taskId = dec_str (ofield v ''taskId''), pl_generationId = dec_str (ofield v ''generationId''),
     pl_governance = (if ofield v ''governance'' = Some (JStr ''attached'') then Attached else Detached)\<rparr>"

definition dec_record :: "json option \<Rightarrow> task_lifecycle_record" where
  "dec_record v = \<lparr>tr_taskId = dec_str (ofield v ''taskId''), tr_generationId = dec_str (ofield v ''generationId''),
     tr_lifecycleRevision = dec_num (ofield v ''lifecycleRevision''), tr_state = dec_state (ofield v ''state''),
     tr_terminalOutcome = dec_opt dec_outcome (ofield v ''terminalOutcome''),
     tr_cancellation = dec_cancellation (ofield v ''cancellation''), tr_cause = dec_cause (ofield v ''cause''),
     tr_parent = dec_opt dec_parent (ofield v ''parent''), tr_lastEventId = dec_str (ofield v ''lastEventId''),
     tr_committedAt = dec_num (ofield v ''committedAt''), tr_monotonicSequence = dec_num (ofield v ''monotonicSequence'')\<rparr>"

definition dec_snapshot :: "json option \<Rightarrow> task_lifecycle_snapshot" where
  "dec_snapshot v = \<lparr>sn_generationId = dec_str (ofield v ''generationId''),
     sn_lifecycleRevision = dec_num (ofield v ''lifecycleRevision''), sn_state = dec_state (ofield v ''state''),
     sn_terminalOutcome = dec_opt dec_outcome (ofield v ''terminalOutcome''),
     sn_cancellation = dec_cancellation (ofield v ''cancellation''), sn_lastEventId = dec_str (ofield v ''lastEventId''),
     sn_committedAt = dec_num (ofield v ''committedAt''), sn_monotonicSequence = dec_num (ofield v ''monotonicSequence'')\<rparr>"

definition dec_metadata_value :: "json \<Rightarrow> metadata_value" where
  "dec_metadata_value j =
     (case j of JNum n \<Rightarrow> Meta_number n | JBool b \<Rightarrow> Meta_boolean b | _ \<Rightarrow> Meta_string (js_String j))"

definition dec_metadata :: "json option \<Rightarrow> metadata" where
  "dec_metadata v = (case v of Some (JObj fs) \<Rightarrow>
map (\<lambda>(k, j). (k, dec_metadata_value j)) fs | _ \<Rightarrow> [])"

definition dec_event :: "json option \<Rightarrow> task_lifecycle_event" where
  "dec_event v = \<lparr>ev_eventId = dec_str (ofield v ''eventId''), ev_intentId = dec_str (ofield v ''intentId''),
     ev_taskId = dec_str (ofield v ''taskId''), ev_generationId = dec_str (ofield v ''generationId''),
     ev_lifecycleRevision = dec_num (ofield v ''lifecycleRevision''),
     ev_transition = dec_transition (ofield v ''transition''),
     ev_previous = dec_opt dec_snapshot (ofield v ''previous''), ev_committed = dec_snapshot (ofield v ''committed''),
     ev_terminalOutcome = dec_opt dec_outcome (ofield v ''terminalOutcome''), ev_cause = dec_cause (ofield v ''cause''),
     ev_parent = dec_opt dec_parent (ofield v ''parent''),
     ev_originatingOperationId = dec_opt dec_str (ofield v ''originatingOperationId''),
     ev_originatingEventId = dec_opt dec_str (ofield v ''originatingEventId''),
     ev_committedAt = dec_num (ofield v ''committedAt''), ev_monotonicSequence = dec_num (ofield v ''monotonicSequence''),
     ev_metadata = dec_opt dec_metadata (ofield v ''metadata'')\<rparr>"

named_theorems dec_simps \<open>decoding an encoded field\<close>

lemma dec_basic [dec_simps]:
  "dec_str (Some (JStr s)) = s" "dec_num (Some (JNum n)) = n"
  "dec_opt dec_str (map_option JStr x) = x" "dec_opt dec_num (map_option JNum y) = y"
  by (cases x; cases y; simp add: dec_str_def dec_num_def dec_opt_def)+

lemma dec_names [dec_simps]:
  "dec_state (Some (JStr (state_name s))) = s" "dec_outcome (Some (JStr (outcome_name out))) = out"
  "dec_source (Some (JStr (source_name src))) = src" "dec_transition (Some (JStr (transition_type_name t))) = t"
  subgoal by (cases s) (simp_all add: dec_state_def dec_name_def js_String_opt_def)
  subgoal by (cases out) (simp_all add: dec_outcome_def dec_name_def js_String_opt_def)
  subgoal by (cases src) (simp_all add: dec_source_def dec_name_def js_String_opt_def)
  subgoal by (cases t) (simp_all add: dec_transition_def dec_name_def js_String_opt_def)
  done

lemma dec_outcome_opt [dec_simps]: "dec_opt dec_outcome (map_option (JStr \<circ> outcome_name) x) = x"
  by (cases x) (simp_all add: dec_opt_def dec_simps)

lemma dec_cause_enc [dec_simps]: "dec_cause (Some (enc_cause c)) = c"
  by (simp add: dec_cause_def enc_cause_def enc_simps dec_simps)

lemma dec_cancellation_enc [dec_simps]: "dec_cancellation (Some (enc_cancellation c)) = c"
  by (cases c) (simp_all add: dec_cancellation_def enc_cancellation_def enc_simps dec_simps)

lemma dec_parent_enc [dec_simps]:
  "dec_parent (Some (enc_parent p)) = p" "dec_opt dec_parent (map_option enc_parent q) = q"
proof -
  show enc: "dec_parent (Some (enc_parent p)) = p" for p
    by (cases "pl_governance p") (simp_all add: dec_parent_def enc_parent_def enc_simps dec_simps)
  show "dec_opt dec_parent (map_option enc_parent q) = q" by (cases q) (simp_all add: dec_opt_def enc)
qed

lemma dec_record_enc [dec_simps]: "dec_record (Some (enc_record r)) = r"
  by (simp add: dec_record_def enc_simps dec_simps)

lemma dec_snapshot_enc [dec_simps]:
  "dec_snapshot (Some (enc_snapshot s)) = s" "dec_opt dec_snapshot (map_option enc_snapshot q) = q"
proof -
  show enc: "dec_snapshot (Some (enc_snapshot s)) = s" for s by (simp add: dec_snapshot_def enc_simps dec_simps)
  show "dec_opt dec_snapshot (map_option enc_snapshot q) = q" by (cases q) (simp_all add: dec_opt_def enc)
qed

lemma dec_metadata_enc [dec_simps]:
  "dec_opt dec_metadata (map_option (\<lambda>m. JObj (map (\<lambda>(k, v). (k, enc_metadata_value v)) m)) x) = x"
proof (cases x)
  case None
  then show ?thesis by (simp add: dec_opt_def)
next
  case (Some m)
  have "dec_metadata_value (enc_metadata_value v) = v" for v
    by (cases v) (simp_all add: dec_metadata_value_def)
  with Some show ?thesis by (simp add: dec_opt_def dec_metadata_def comp_def case_prod_unfold)
qed

lemma dec_event_enc [dec_simps]: "dec_event (Some (enc_event e)) = e"
  by (simp add: dec_event_def enc_simps dec_simps)

section \<open>Reading a task back\<close>

definition readProjection :: "task_state \<Rightarrow> task_lifecycle_record option" where
  "readProjection ts =
     (case ts_lifecycleFunnelRecordJson ts of
        None \<Rightarrow> None
      | Some j \<Rightarrow> if isTaskLifecycleRecord (Some j) then Some (dec_record (Some j)) else None)"

datatype 'a thrown = Returned 'a | Thrown

definition restore ::
  "lifecycle_env \<Rightarrow> state_ref \<Rightarrow> string \<Rightarrow> lifecycle_funnel \<Rightarrow>
   (task_lifecycle_record option thrown \<times> lifecycle_funnel) option" where
  "restore E ref taskId f =
     (let (rec, f1) = fn_load taskId f in
      case rec of
        None \<Rightarrow> Some (Returned None, f1)
      | Some r \<Rightarrow>
          (case store_loadEvent (fn_store f1) (tr_lastEventId r) of
             None \<Rightarrow> Some (Thrown, f1)
           | Some e \<Rightarrow>
               if \<not> isTaskLifecycleEventForRecord (Some (enc_event e)) (Some (enc_record r)) then Some (Thrown, f1)
               else map_option (Pair (Returned (Some r)))
                      (propagateToAttachedChildren E (submit E) r e (project ref r (Some e) f1))))"

definition submit_new ::
  "lifecycle_env \<Rightarrow> state_ref \<Rightarrow> string \<Rightarrow> string \<Rightarrow> task_lifecycle_cause \<Rightarrow> task_lifecycle_intent_type \<Rightarrow>
   lifecycle_funnel \<Rightarrow> (task_lifecycle_transition_result \<times> lifecycle_funnel) option" where
  "submit_new E ref taskId gen cause t f =
     (let (iid, f') = new_intent_id E f
      in submit E (Some ref) \<lparr>in_intentId = iid, in_taskId = taskId, in_generationId = gen, in_cause = cause, in_type = t\<rparr> f')"

definition registerAndActivate ::
  "lifecycle_env \<Rightarrow> state_ref \<Rightarrow> string \<Rightarrow> task_lifecycle_cause \<Rightarrow> task_parent_link option \<Rightarrow> lifecycle_funnel \<Rightarrow>
   (task_lifecycle_transition_result thrown \<times> lifecycle_funnel) option" where
  "registerAndActivate E ref taskId cause parent f =
     (case restore E ref taskId f of
        None \<Rightarrow> None
      | Some (Thrown, f1) \<Rightarrow> Some (Thrown, f1)
      | Some (Returned (Some existing), f1) \<Rightarrow>
          if tr_state existing = Registered
          then map_option (apfst Returned) (submit_new E ref taskId (tr_generationId existing) cause ActivateGeneration f1)
          else Some (Returned (Rejected (if tr_state existing = Active then Invalid_transition else Terminal_generation)
                                 (Some existing)), f1)
      | Some (Returned None, f1) \<Rightarrow>
          let gen = ts_executionGeneration (fn_states f1 ref) in
          (case submit_new E ref taskId gen cause (RegisterGeneration parent) f1 of
             None \<Rightarrow> None
           | Some (Rejected code cur, f2) \<Rightarrow> Some (Returned (Rejected code cur), f2)
           | Some (Committed r e, f2) \<Rightarrow> map_option (apfst Returned) (submit_new E ref taskId gen cause ActivateGeneration f2)))"

definition validateAttachedParentEligibility ::
  "task_lifecycle_record \<Rightarrow> lifecycle_funnel \<Rightarrow> task_lifecycle_transition_result option \<times> lifecycle_funnel" where
  "validateAttachedParentEligibility r f =
     (case attached_to r of
        None \<Rightarrow> (None, f)
      | Some link \<Rightarrow>
          let (parent, f1) = fn_load (pl_taskId link) f
          in ((case parent of
                 Some p \<Rightarrow> if tr_generationId p = pl_generationId link \<and> tr_state p = Active \<and> \<not> cancellation_requested p
                          then None else Some (Rejected Parent_constraint (Some r))
               | None \<Rightarrow> Some (Rejected Parent_constraint (Some r))), f1))"

definition rejected_active :: "task_lifecycle_record \<Rightarrow> task_lifecycle_transition_result" where
  "rejected_active current =
     Rejected (if tr_state current = Terminal then Terminal_generation else Invalid_transition) (Some current)"

definition ensure_from_current ::
  "lifecycle_env \<Rightarrow> state_ref \<Rightarrow> string \<Rightarrow> task_lifecycle_cause \<Rightarrow> task_lifecycle_record \<Rightarrow> lifecycle_funnel \<Rightarrow>
   (task_lifecycle_transition_result thrown \<times> lifecycle_funnel) option" where
  "ensure_from_current E ref taskId cause current f =
     (if tr_state current = Registered
      then map_option (apfst Returned) (submit_new E ref taskId (tr_generationId current) cause ActivateGeneration f)
      else if tr_state current = Active \<and> \<not> cancellation_requested current
      then (case validateAttachedParentEligibility current f of
              (Some rejection, f1) \<Rightarrow> Some (Returned rejection, f1)
            | (None, f1) \<Rightarrow>
                let candidate = ts_lifecycleFunnelEventJson (fn_states f1 ref)
                in if isTaskLifecycleEventForRecord candidate (Some (enc_record current))
                   then Some (Returned (Committed current (dec_event candidate)), f1)
                   else Some (Returned (rejected_active current), f1))
      else Some (Returned (rejected_active current), f))"

definition ensureActiveTransaction ::
  "lifecycle_env \<Rightarrow> state_ref \<Rightarrow> string \<Rightarrow> task_lifecycle_cause \<Rightarrow> task_parent_link option \<Rightarrow> lifecycle_funnel \<Rightarrow>
   (task_lifecycle_transition_result thrown \<times> lifecycle_funnel) option" where
  "ensureActiveTransaction E ref taskId cause parent f =
     (let projected = readProjection (fn_states f ref)
      in if map_option tr_taskId projected = Some taskId
         then ensure_from_current E ref taskId cause (the projected) f
         else (case restore E ref taskId f of
                 None \<Rightarrow> None
               | Some (Thrown, f1) \<Rightarrow> Some (Thrown, f1)
               | Some (Returned None, f1) \<Rightarrow> registerAndActivate E ref taskId cause parent f1
               | Some (Returned (Some current), f1) \<Rightarrow> ensure_from_current E ref taskId cause current f1))"

definition ensureActive ::
  "lifecycle_env \<Rightarrow> state_ref \<Rightarrow> string \<Rightarrow> task_lifecycle_cause \<Rightarrow> task_parent_link option \<Rightarrow> lifecycle_funnel \<Rightarrow>
   (task_lifecycle_transition_result \<times> lifecycle_funnel) option" where
  "ensureActive E ref taskId cause parent f =
     (case ensureActiveTransaction E ref taskId cause parent f of
        None \<Rightarrow> None
      | Some (Thrown, f1) \<Rightarrow> Some (Rejected Persistence_failed None, f1)
      | Some (Returned res, f1) \<Rightarrow> Some (res, f1))"

section \<open>Execution eligibility\<close>

datatype ineligibility = No_committed_record | Stale_or_foreign_generation | Not_executable | Fenced | Parent_ineligible

datatype task_lifecycle_eligibility =
    Eligible int
  | Ineligible "int option" ineligibility

definition executionEligibility ::
  "lifecycle_funnel \<Rightarrow> task_state \<Rightarrow> string \<Rightarrow> string \<Rightarrow> task_lifecycle_eligibility" where
  "executionEligibility f ts taskId gen =
     (case (case js_get (fn_authoritative f) taskId of Some r \<Rightarrow> Some r | None \<Rightarrow> readProjection ts) of
        None \<Rightarrow> Ineligible None No_committed_record
      | Some r \<Rightarrow>
          if tr_taskId r \<noteq> taskId \<or> tr_generationId r \<noteq> gen
          then Ineligible (Some (tr_lifecycleRevision r)) Stale_or_foreign_generation
          else if tr_state r \<noteq> Active then Ineligible (Some (tr_lifecycleRevision r)) Not_executable
          else if cancellation_requested r then Ineligible (Some (tr_lifecycleRevision r)) Fenced
          else if (case attached_to r of
                     None \<Rightarrow> False
                   | Some link \<Rightarrow> (case js_get (fn_authoritative f) (pl_taskId link) of
                         None \<Rightarrow> False
                       | Some p \<Rightarrow> tr_generationId p \<noteq> pl_generationId link \<or> tr_state p \<noteq> Active \<or>
                           cancellation_requested p))
          then Ineligible (Some (tr_lifecycleRevision r)) Parent_ineligible
          else Eligible (tr_lifecycleRevision r))"

end
