(* ===== verification/Lifecycle_Properties.thy ===== *)
theory Lifecycle_Properties
  imports Lifecycle_Recovery
begin

text \<open>
  The properties of the task lifecycle: what a reachable journal satisfies, which transitions
  commit, when a submission returns, and the one situation from which a child cannot leave.
\<close>

section \<open>A scenario\<close>

text \<open>Submissions one after another, and a small environment, to run the model on.\<close>

fun submit_all :: "lifecycle_env \<Rightarrow> task_lifecycle_intent list \<Rightarrow> lifecycle_funnel \<Rightarrow> lifecycle_funnel option" where
  "submit_all E [] f = Some f"
| "submit_all E (i # is) f = (case submit E None i f of None \<Rightarrow> None | Some (res, f') \<Rightarrow> submit_all E is f')"

definition sample_env :: lifecycle_env where
  "sample_env = \<lparr>env_uuid = (\<lambda>n. replicate (Suc n) CHR ''u''), env_now = (\<lambda>n. int n)\<rparr>"

definition empty_task_state :: task_state where
  "empty_task_state = \<lparr>ts_executionGeneration = ''g'', ts_lifecycleFunnelRecordJson = None,
     ts_lifecycleFunnelEventJson = None, ts_lifecycleFunnelHistory = None, ts_executionFunnelEventJson = None,
     ts_executionFunnelHistory = None, ts_executionInvocationLedger = [], ts_completionFunnelEventJson = None\<rparr>"

definition empty_funnel :: lifecycle_funnel where
  "empty_funnel = \<lparr>fn_store = empty_store, fn_authoritative = [], fn_projected = [],
     fn_states = (\<lambda>ref. empty_task_state), fn_published = [], fn_draws = 0, fn_ticks = 0\<rparr>"

definition sample_cause :: "task_lifecycle_causal_source \<Rightarrow> task_lifecycle_cause" where
  "sample_cause src = \<lparr>cs_source = src, cs_reason = ''r'', cs_originatingOperationId = None,
     cs_originatingEventId = None, cs_authoritativeAt = None\<rparr>"

definition sample_intent :: "string \<Rightarrow> string \<Rightarrow> task_lifecycle_intent_type \<Rightarrow> task_lifecycle_intent" where
  "sample_intent iid task t = \<lparr>in_intentId = iid, in_taskId = task, in_generationId = ''g'',
     in_cause = sample_cause Src_test, in_type = t\<rparr>"

lemma good_env_sample: "good_env sample_env"
proof -
  have "inj (\<lambda>n. replicate (Suc n) CHR ''u'')" by (rule injI) (metis length_replicate nat.inject)
  then show ?thesis by (simp add: good_env_def sample_env_def non_blank_iff js_space_def)
qed

lemma fn_ok_empty: "fn_ok E empty_funnel"
  using lc_inv_init [of "(empty_store, [])"]
  by (simp add: fn_ok_def empty_funnel_def lc_init_def) (simp add: empty_store_def)

lemma submit_steps:
  assumes "good_env E" "ok_intent i" "submit E ts i f = Some (res, f')"
  shows "steps_rel E f f'"
  using steps.submit_fuel_rel [OF assms(1,2)] assms(3) unfolding submit_def by blast

lemma submit_all_steps:
  "good_env E \<Longrightarrow> list_all ok_intent is \<Longrightarrow> submit_all E is f = Some f' \<Longrightarrow> steps_rel E f f'"
proof (induction "is" arbitrary: f)
  case Nil
  then show ?case by (simp add: steps_relI_same)
next
  case (Cons i "is")
  then obtain res f1 where f1: "submit E None i f = Some (res, f1)" and rest: "submit_all E is f1 = Some f'"
    by (auto split: option.splits)
  from Cons.prems have "steps_rel E f f1" by (intro submit_steps [OF _ _ f1]) auto
  moreover have "steps_rel E f1 f'" using Cons rest by simp
  ultimately show ?case by (rule steps_rel_trans)
qed

lemma submit_all_reach:
  assumes "good_env E" "list_all ok_intent is" "submit_all E is empty_funnel = Some f"
    and "st_sequence (fn_store f) \<le> max_safe_integer"
  shows "reach lc_init lc_step (fn_store f, [])" and "fn_ok E f"
proof -
  have st: "fn_ok E f \<and> lc_step\<^sup>*\<^sup>* (fn_store empty_funnel, []) (fn_store f, [])"
    using submit_all_steps [OF assms(1-3)] assms(4) fn_ok_empty [of E] by (simp add: steps_rel_def)
  then show "fn_ok E f" by simp
  have "reach lc_init lc_step (fn_store empty_funnel, [])"
    by (rule reach_init) (simp add: lc_init_def empty_funnel_def)
  with st show "reach lc_init lc_step (fn_store f, [])" by (blast intro: lc.reach_steps)
qed

text \<open>
  A grandparent \<open>a\<close> governs \<open>b\<close>, which governs \<open>c\<close>; the cancellation of \<open>b\<close> is requested,
  and then \<open>a\<close> fails.
\<close>

definition link_to :: "string \<Rightarrow> task_parent_link" where
  "link_to t = \<lparr>pl_taskId = t, pl_generationId = ''g'', pl_governance = Attached\<rparr>"

definition family_intents :: "task_lifecycle_intent list" where
  "family_intents =
     [sample_intent ''1'' ''a'' (RegisterGeneration None), sample_intent ''2'' ''a'' ActivateGeneration,
      sample_intent ''3'' ''b'' (RegisterGeneration (Some (link_to ''a''))), sample_intent ''4'' ''b'' ActivateGeneration,
      sample_intent ''5'' ''c'' (RegisterGeneration (Some (link_to ''b'')))]"

definition orphan_intents :: "task_lifecycle_intent list" where
  "orphan_intents = family_intents @
     [sample_intent ''6'' ''b'' RequestCancellation, sample_intent ''7'' ''a'' (SettleFailure None)]"

definition family_funnel :: lifecycle_funnel where
  "family_funnel = the (submit_all sample_env family_intents empty_funnel)"

definition orphan_funnel :: lifecycle_funnel where
  "orphan_funnel = the (submit_all sample_env orphan_intents empty_funnel)"

lemma orphan_funnel_value:
  "submit_all sample_env orphan_intents empty_funnel \<noteq> None"
  "st_sequence (fn_store orphan_funnel) = 9"
  by code_simp+

section \<open>A child no transition can settle\<close>

text \<open>
  An open child whose parent generation ended failed or timed out while a cancellation of the
  parent was pending.
\<close>

definition orphaned :: "lifecycle_store \<Rightarrow> task_lifecycle_record \<Rightarrow> task_lifecycle_record \<Rightarrow> bool" where
  "orphaned s q c \<longleftrightarrow>
     js_get (st_records s) (tr_taskId c) = Some c \<and> js_get (st_records s) (tr_taskId q) = Some q \<and>
     attached_to c = Some (attached_link q) \<and>
     tr_state q = Terminal \<and> tr_terminalOutcome q \<noteq> Some Cancelled \<and> cancellation_requested q \<and>
     tr_state c \<noteq> Terminal"

lemma orphan_constraint:
  assumes "orphaned s q c" and "attached_to r = attached_to c" and "ev_transition e \<noteq> Register_generation"
  shows "attachedParentConstraint r e (Some q) \<noteq> None"
  using assms
  by (auto simp: orphaned_def attachedParentConstraint_def parent_settlement_def propagation_violation_def
      split: option.splits if_splits)

lemma orphaned_commit:
  assumes com: "committing s p r' e' s'" and orph: "orphaned s q c"
  shows "tr_taskId r' \<noteq> tr_taskId c" and "tr_taskId r' \<noteq> tr_taskId q"
proof -
  note st = committing_store [OF com] and f = committing_fields [OF com]
  show "tr_taskId r' \<noteq> tr_taskId c"
  proof
    assume "tr_taskId r' = tr_taskId c"
    then have cur: "pd_current p = Some c"
      using committing_eval(1) [OF com] f(1) orph by (simp add: orphaned_def)
    note up = committing_update [OF com cur]
    have att: "attached_to (pd_record p) = attached_to c" using up(1) st(2) by (simp add: attached_to_def)
    have "parent_record s (pd_record p) = Some q"
      using att orph by (auto simp: parent_record_def attached_to_def orphaned_def split: option.splits if_splits)
    with st(1) have "attachedParentConstraint (pd_record p) (pd_event p) (Some q) = None"
      by (simp add: commit_admitted_def)
    moreover have "ev_transition (pd_event p) \<noteq> Register_generation" using up(3) st(3) by simp
    ultimately show False using orphan_constraint [OF orph att] by simp
  qed
  show "tr_taskId r' \<noteq> tr_taskId q"
  proof
    assume same: "tr_taskId r' = tr_taskId q"
    then have cur: "pd_current p = Some q"
      using committing_eval(1) [OF com] f(1) orph by (simp add: orphaned_def)
    have repl: "ev_transition e' = Replace_generation"
      using committing_update(7) [OF com cur] orph by (auto simp: orphaned_def split: if_splits)
    have "is_open_child (tr_taskId (pd_record p)) (governedGeneration (pd_record p) (pd_event p)) c"
      using orph same repl st(2,3) f(8) cur
      by (simp add: is_open_child_def orphaned_def governedGeneration_def)
    moreover have "c \<in> set (js_values (st_records s))"
      using orph by (force simp: orphaned_def dest: map_of_SomeD)
    ultimately have "activeChild s (pd_record p) (pd_event p) \<noteq> None"
      using repl st(3) by (auto simp: activeChild_def find_None_iff)
    with st(1) show False by (simp add: commit_admitted_def)
  qed
qed

lemma orphaned_step:
  assumes "lc_inv sys" and "lc_step sys sys'" and "orphaned (fst sys) q c"
  shows "orphaned (fst sys') q c"
  using assms(2,1,3)
proof cases
  case (lc_begin i s now eid r e P)
  with assms(3) show ?thesis by simp
next
  case (lc_finish p P s res s')
  from lc_finish(5) show ?thesis
  proof (cases rule: lc_finish_cases)
    case refused
    with lc_finish assms(3) show ?thesis by simp
  next
    case (committed r' e')
    with lc_finish_committing [OF _ lc_finish(3,4)] lc_finish assms(1) have com: "committing s p r' e' s'" by simp
    have orph: "orphaned s q c" using assms(3) lc_finish by simp
    show ?thesis
      using orphaned_commit [OF com orph] committing_lookup(1) [OF com] orph lc_finish by (simp add: orphaned_def)
  qed
qed

text \<open>
  C13. A stuck child. Once a parent generation has ended other than cancelled while its own
  cancellation was pending, an open attached child keeps its record for ever, whatever is
  submitted for any task, and so does the parent: the constraint on attached children refuses the
  child's every transition, the parent's terminal propagation included, and the parent cannot be
  replaced while the child is open.
\<close>

theorem orphaned_child_stuck:
  assumes "reach lc_init lc_step sys" and "lc_step\<^sup>*\<^sup>* sys sys'" and "orphaned (fst sys) q c"
  shows "js_get (st_records (fst sys')) (tr_taskId c) = Some c \<and> tr_state c \<noteq> Terminal \<and>
    js_get (st_records (fst sys')) (tr_taskId q) = Some q"
proof -
  have inv: "lc_inv sys" by (rule lc.reach_inv [OF assms(1)])
  from assms(2) have "lc_inv sys' \<and> orphaned (fst sys') q c"
  proof (induction rule: rtranclp_induct)
    case base
    with inv assms(3) show ?case by simp
  next
    case (step t u)
    with lc_inv_step orphaned_step show ?case by blast
  qed
  then show ?thesis by (simp add: orphaned_def)
qed

lemma sample_intents_ok: "list_all ok_intent orphan_intents" "list_all ok_intent family_intents"
  by code_simp+

lemma orphan_funnel_reach:
  "reach lc_init lc_step (fn_store orphan_funnel, [])" "fn_ok sample_env orphan_funnel"
proof -
  have run: "submit_all sample_env orphan_intents empty_funnel = Some orphan_funnel"
    using orphan_funnel_value(1) by (simp add: orphan_funnel_def)
  show "reach lc_init lc_step (fn_store orphan_funnel, [])" "fn_ok sample_env orphan_funnel"
    using submit_all_reach [OF good_env_sample sample_intents_ok(1) run] orphan_funnel_value(2) by simp_all
qed

definition orphan_record :: "string \<Rightarrow> task_lifecycle_record" where
  "orphan_record t = the (js_get (st_records (fn_store orphan_funnel)) t)"

lemma orphan_sample: "orphaned (fn_store orphan_funnel) (orphan_record ''b'') (orphan_record ''c'')"
  by code_simp

theorem orphaned_child_stuck_witness:
  "orphaned (fn_store orphan_funnel) (orphan_record ''b'') (orphan_record ''c'') \<and>
   tr_state (orphan_record ''c'') \<noteq> Terminal"
  using orphaned_child_stuck [OF orphan_funnel_reach(1) rtranclp.rtrancl_refl, of "orphan_record ''b''" "orphan_record ''c''"]
    orphan_sample by simp

section \<open>The journal\<close>

lemma obj_cong: "fs = gs \<Longrightarrow> obj fs = obj gs"
  by simp

text \<open>
  C6. The journal in memory stays restorable as long as its callers supply well-formed intents:
  whatever submissions interleave, provided that each of them has non-blank identifiers, a cause
  with a non-blank reason and no blank originating operation or event id, and a parent link (on a
  registration) or a new generation id (on a resume) that is well formed, every record of the
  journal passes the restoration guard once serialized, its last event can be loaded, and that
  event passes the guard that ties it to the record. The funnel itself checks only the three
  identifiers of an intent; \<open>blank_operation_unrestorable\<close> below shows that the condition on the
  cause is needed.
\<close>

theorem journal_restorable:
  assumes "reach lc_init lc_step (s, P)" and "store_load s t = Some r"
  shows "isTaskLifecycleRecord (Some (enc_record r)) \<and>
    (\<exists>e. store_loadEvent s (tr_lastEventId r) = Some e \<and>
         isTaskLifecycleEventForRecord (Some (enc_event e)) (Some (enc_record r)))"
proof -
  have inv: "journal_inv s" using lc.reach_inv [OF assms(1)] by (simp add: lc_inv_def)
  then have "wf_stored s r" using journal_recordD(2) assms(2) by (simp add: store_load_def)
  then obtain e where wf: "wf_record r" and e: "e \<in> set (js_values (st_eventsByIntent s))" "event_commits e r"
    by (auto simp: wf_stored_def)
  have "wf_event e" using inv e(1) by (auto simp: journal_inv_def wf_journal_event_def)
  moreover have "store_loadEvent s (tr_lastEventId r) = Some e"
    using loadEvent_unique [OF inv e(1)] e(2) by (simp add: event_commits_def)
  ultimately show ?thesis
    using wf e(2) by (simp add: isTaskLifecycleRecord_enc isTaskLifecycleEventForRecord_enc)
qed

theorem journal_restorable_witness:
  "isTaskLifecycleRecord (Some (enc_record (orphan_record ''c'')))"
proof -
  have "store_load (fn_store orphan_funnel) ''c'' = Some (orphan_record ''c'')" by code_simp
  with journal_restorable [OF orphan_funnel_reach(1)] show ?thesis by blast
qed

text \<open>
  A crashed record can be rebuilt from its event: a well-formed event that commits a record
  projects, through \<^verbatim>\<open>taskLifecycleRecordFromEvent\<close>, to exactly the serialized record, and
  decoding the serialized record gives the record back.
\<close>

theorem record_from_event_roundtrip:
  assumes "wf_event e" and "event_commits e r"
  shows "taskLifecycleRecordFromEvent (Some (enc_event e)) = Some (enc_record r) \<and>
    dec_record (taskLifecycleRecordFromEvent (Some (enc_event e))) = r"
proof -
  have "wf_record r"
    using assms by (auto simp: wf_event_def event_commits_def wf_record_def wf_snapshot_def)
  moreover have "obj
             [(''schemaVersion'', ofield (Some (enc_event e)) ''schemaVersion''),
              (''taskId'', ofield (Some (enc_event e)) ''taskId''),
              (''generationId'', ofield (ofield (Some (enc_event e)) ''committed'') ''generationId''),
              (''lifecycleRevision'', ofield (ofield (Some (enc_event e)) ''committed'') ''lifecycleRevision''),
              (''state'', ofield (ofield (Some (enc_event e)) ''committed'') ''state''),
              (''terminalOutcome'', ofield (ofield (Some (enc_event e)) ''committed'') ''terminalOutcome''),
              (''cancellation'', ofield (ofield (Some (enc_event e)) ''committed'') ''cancellation''),
              (''cause'', ofield (Some (enc_event e)) ''cause''),
              (''parent'', ofield (Some (enc_event e)) ''parent''),
              (''lastEventId'', ofield (Some (enc_event e)) ''eventId''),
              (''committedAt'', ofield (Some (enc_event e)) ''committedAt''),
              (''monotonicSequence'', ofield (Some (enc_event e)) ''monotonicSequence'')] = enc_record r"
    unfolding enc_record_def using assms(1,2)
    by (intro obj_cong) (simp add: enc_simps event_commits_def wf_event_def)
  ultimately have "taskLifecycleRecordFromEvent (Some (enc_event e)) = Some (enc_record r)"
    using assms(1) by (simp add: taskLifecycleRecordFromEvent_def isTaskLifecycleEvent_enc isTaskLifecycleRecord_enc)
  then show ?thesis by (simp add: dec_record_enc)
qed

definition orphan_event :: "string \<Rightarrow> task_lifecycle_event" where
  "orphan_event t = the (store_loadEvent (fn_store orphan_funnel) (tr_lastEventId (orphan_record t)))"

theorem record_from_event_roundtrip_witness:
  "dec_record (taskLifecycleRecordFromEvent (Some (enc_event (orphan_event ''c'')))) = orphan_record ''c''"
proof -
  have "wf_event (orphan_event ''c'')" "event_commits (orphan_event ''c'') (orphan_record ''c'')" by code_simp+
  from record_from_event_roundtrip [OF this] show ?thesis by (rule conjunct2)
qed

section \<open>More scenarios\<close>

definition run_funnel :: "task_lifecycle_intent list \<Rightarrow> lifecycle_funnel" where
  "run_funnel is = the (submit_all sample_env is empty_funnel)"

lemma run_funnel_reach:
  assumes "list_all ok_intent is" and "submit_all sample_env is empty_funnel \<noteq> None"
    and "st_sequence (fn_store (run_funnel is)) \<le> max_safe_integer"
  shows "reach lc_init lc_step (fn_store (run_funnel is), [])" and "fn_ok sample_env (run_funnel is)"
proof -
  have "submit_all sample_env is empty_funnel = Some (run_funnel is)" using assms(2) by (simp add: run_funnel_def)
  from submit_all_reach [OF good_env_sample assms(1) this assms(3)]
  show "reach lc_init lc_step (fn_store (run_funnel is), [])" "fn_ok sample_env (run_funnel is)" by simp_all
qed

text \<open>The submission under way of an intent that has been evaluated at time 50.\<close>

definition pending_of :: "lifecycle_store \<Rightarrow> task_lifecycle_intent \<Rightarrow> pending_commit" where
  "pending_of s i = (case evaluate (store_load s (in_taskId i)) i 50 ''x'' of
      Inr (r, e) \<Rightarrow> \<lparr>pd_current = store_load s (in_taskId i), pd_intent = i, pd_now = 50, pd_eventId = ''x'',
                    pd_record = r, pd_event = e\<rparr>)"

definition can_begin :: "lifecycle_store \<Rightarrow> task_lifecycle_intent \<Rightarrow> bool" where
  "can_begin s i \<longleftrightarrow> wf_intent i \<and> admission (store_load s (in_taskId i)) i = None \<and>
     (case evaluate (store_load s (in_taskId i)) i 50 ''x'' of Inl _ \<Rightarrow> False | Inr _ \<Rightarrow> True) \<and>
     \<not> list_ex (\<lambda>e. ev_eventId e = ''x'') (js_values (st_eventsByIntent s))"

lemma pending_reach:
  assumes "reach lc_init lc_step (s, [])" and "can_begin s i"
  shows "reach lc_init lc_step (s, [pending_of s i])"
proof -
  from assms(2) obtain r e where ev: "evaluate (store_load s (in_taskId i)) i 50 ''x'' = Inr (r, e)"
    by (auto simp: can_begin_def split: sum.splits)
  have "lc_step (s, []) (s, [pending_of s i])"
    unfolding pending_of_def ev sum.case prod.case
    by (rule lc_begin) (use assms(2) ev in \<open>auto simp: can_begin_def known_event_ids_def list_ex_iff non_blank_iff js_space_def\<close>)
  with assms(1) show ?thesis by (rule reach_step)
qed

definition fence_intents :: "task_lifecycle_intent list" where
  "fence_intents = family_intents @ [sample_intent ''6'' ''b'' RequestCancellation]"

definition settle_intent :: task_lifecycle_intent where
  "settle_intent = sample_intent ''7'' ''b'' (SettleCancellation None)"

abbreviation fence_store :: lifecycle_store where
  "fence_store \<equiv> fn_store (run_funnel fence_intents)"

lemma fence_reach:
  "reach lc_init lc_step (fence_store, [])" "fn_ok sample_env (run_funnel fence_intents)"
  by (rule run_funnel_reach; code_simp)+

lemma settle_reach: "reach lc_init lc_step (fence_store, [pending_of fence_store settle_intent])"
  by (rule pending_reach [OF fence_reach(1)]) code_simp

definition settle_result :: "lifecycle_commit_result \<times> lifecycle_store" where
  "settle_result = store_commit fence_store (expectation_of (pd_current (pending_of fence_store settle_intent)))
     (pd_record (pending_of fence_store settle_intent)) (pd_event (pending_of fence_store settle_intent))"

definition settled :: "task_lifecycle_record \<times> task_lifecycle_event" where
  "settled = (case fst settle_result of Commit_committed r e \<Rightarrow> (r, e))"

lemma settle_commit:
  "store_commit fence_store (expectation_of (pd_current (pending_of fence_store settle_intent)))
     (pd_record (pending_of fence_store settle_intent)) (pd_event (pending_of fence_store settle_intent)) =
   (Commit_committed (fst settled) (snd settled), snd settle_result)"
proof -
  have "case fst settle_result of Commit_committed r e \<Rightarrow> True | _ \<Rightarrow> False" by code_simp
  then have "fst settle_result = Commit_committed (fst settled) (snd settled)"
    by (simp add: settled_def split: lifecycle_commit_result.splits)
  then show ?thesis unfolding settle_result_def [symmetric] by (metis prod.collapse)
qed

lemma settle_sequence: "st_sequence fence_store < max_safe_integer"
  by code_simp

section \<open>Commits\<close>

lemma lc_finish_committed:
  assumes "lc_inv (s, P)" and "lc_step (s, P) (s', P')" and "s' \<noteq> s"
  obtains p r' e' where "p \<in> set P" "P' = remove1 p P" "committing s p r' e' s'"
  using assms(2)
proof cases
  case (lc_begin i now eid r e)
  with assms(3) show thesis by simp
next
  case (lc_finish p res)
  from lc_finish(4) show thesis
  proof (cases rule: lc_finish_cases)
    case refused
    with assms(3) show thesis by simp
  next
    case (committed r' e')
    with that [OF lc_finish(2,1)] lc_finish_committing [OF assms(1) lc_finish(2,3)] lc_finish(4) show thesis by blast
  qed
qed

text \<open>
  C2. The compare-and-swap linearizes submissions: when a pending transition commits, in any
  interleaving with other submissions, the record it was evaluated against is still the current
  one, the new record has the next revision and the next sequence number, its event names the old
  record as its previous state, and no other record of the journal changes.
\<close>

theorem commit_linearizes:
  assumes "reach lc_init lc_step (s, P)" and "p \<in> set P" and "st_sequence s < max_safe_integer"
    and "store_commit s (expectation_of (pd_current p)) (pd_record p) (pd_event p) = (Commit_committed r' e', s')"
  shows "store_load s (tr_taskId r') = pd_current p \<and> store_load s' (tr_taskId r') = Some r' \<and>
    ev_previous e' = map_option snapshot (pd_current p) \<and> ev_committed e' = snapshot r' \<and>
    tr_lifecycleRevision r' = (case pd_current p of None \<Rightarrow> 0 | Some c \<Rightarrow> tr_lifecycleRevision c) + 1 \<and>
    tr_monotonicSequence r' = st_sequence s + 1 \<and>
    (\<forall>t. t \<noteq> tr_taskId r' \<longrightarrow> store_load s' t = store_load s t)"
proof -
  have com: "committing s p r' e' s'"
    by (rule lc_finish_committing [OF lc.reach_inv [OF assms(1)] assms(2-4)])
  show ?thesis
    using committing_fields [OF com] committing_eval(1) [OF com] committing_lookup(1) [OF com]
    by (simp add: store_load_def)
qed

theorem commit_linearizes_witness:
  "store_load fence_store ''b'' = pd_current (pending_of fence_store settle_intent) \<and>
   store_load (snd settle_result) ''a'' = store_load fence_store ''a''"
proof -
  have b: "tr_taskId (fst settled) = ''b''" by code_simp
  show ?thesis
    using commit_linearizes [OF settle_reach _ settle_sequence settle_commit] by (simp add: b)
qed

text \<open>
  C3. The law of transitions. A step that changes the record of a task keeps its parent link and
  raises its revision by one; a terminal record is only ever replaced by a new active generation
  without a cancellation; and otherwise the generation stays, and the record is terminal exactly
  when it has an outcome.
\<close>

theorem transition_law:
  assumes "reach lc_init lc_step (s, P)" and "lc_step (s, P) (s', P')"
    and "store_load s t = Some c" and "store_load s' t = Some c'" and "c' \<noteq> c"
  shows "tr_parent c' = tr_parent c \<and> tr_lifecycleRevision c' = tr_lifecycleRevision c + 1 \<and>
    (tr_state c' = Terminal \<longleftrightarrow> tr_terminalOutcome c' \<noteq> None) \<and>
    (if tr_generationId c' = tr_generationId c then tr_state c \<noteq> Terminal
     else tr_state c \<in> {Suspended, Terminal} \<and> tr_state c' = Active \<and> tr_cancellation c' = No_cancellation)"
proof -
  have inv: "lc_inv (s, P)" by (rule lc.reach_inv [OF assms(1)])
  have "s' \<noteq> s"
  proof
    assume "s' = s"
    with assms(3,4) have "c' = c" by simp
    with assms(5) show False ..
  qed
  then obtain p r' e' where com: "committing s p r' e' s'"
    using lc_finish_committed [OF inv assms(2)] by metis
  have t: "t = tr_taskId r'"
  proof (rule ccontr)
    assume "t \<noteq> tr_taskId r'"
    then have "store_load s' t = store_load s t" using committing_lookup(1) [OF com] by (simp add: store_load_def)
    with assms(3-5) show False by simp
  qed
  have c': "c' = r'" using committing_lookup(1) [OF com, of t] assms(4) t by (simp add: store_load_def)
  have cur: "pd_current p = Some c"
    using committing_eval(1) [OF com] committing_fields(1) [OF com] assms(3) t by (simp add: store_load_def)
  note up = committing_update [OF com cur]
  show ?thesis
    using up(1,2,6,7) by (auto simp: c' split: if_splits)
qed

theorem transition_law_witness:
  "tr_lifecycleRevision (fst settled) = tr_lifecycleRevision (the (store_load fence_store ''b'')) + 1"
proof -
  have st: "lc_step (fence_store, [pending_of fence_store settle_intent])
     (snd settle_result, remove1 (pending_of fence_store settle_intent) [pending_of fence_store settle_intent])"
    by (rule lc_finish [OF _ settle_sequence settle_commit]) simp
  have "store_load fence_store ''b'' = Some (the (store_load fence_store ''b''))" by code_simp
  moreover have "store_load (snd settle_result) ''b'' = Some (fst settled)" by code_simp
  moreover have "fst settled \<noteq> the (store_load fence_store ''b'')" by code_simp
  ultimately show ?thesis using transition_law [OF settle_reach st] by blast
qed

lemma outcome_of_propagated_open [simp]: "outcome_of_propagated out \<noteq> Completed"
  by (cases out) simp_all



text \<open>
  C5. A completed parent leaves no open child: in every reachable journal, no attached child of a
  generation that settled as completed is still open.
\<close>

theorem completed_parent_closed:
  assumes "reach lc_init lc_step (s, P)" and "store_load s t = Some q" and "tr_terminalOutcome q = Some Completed"
  shows "\<forall>c \<in> set (listAttachedChildren s (attached_link q)). tr_state c = Terminal"
proof
  fix c assume c: "c \<in> set (listAttachedChildren s (attached_link q))"
  have inv: "completed_closed s" "journal_inv s" using lc.reach_inv [OF assms(1)] by (simp_all add: lc_inv_def)
  from assms(2) have "q \<in> set (js_values (st_records s))" by (force simp: store_load_def dest: map_of_SomeD)
  moreover have "c \<in> set (js_values (st_records s))" using c by (simp add: listAttachedChildren_def)
  ultimately have "\<not> is_open_child (tr_taskId q) (Some (tr_generationId q)) c"
    using inv(1) assms(3) unfolding completed_closed_def by blast
  with c show "tr_state c = Terminal"
    by (auto simp: listAttachedChildren_def is_open_child_def split: option.splits)
qed

definition completed_intents :: "task_lifecycle_intent list" where
  "completed_intents = family_intents @
     [sample_intent ''6'' ''c'' SettleCompletion, sample_intent ''7'' ''b'' SettleCompletion]"

theorem completed_parent_closed_witness:
  "list_all (\<lambda>c. tr_state c = Terminal) (listAttachedChildren (fn_store (run_funnel completed_intents))
      (attached_link (the (store_load (fn_store (run_funnel completed_intents)) ''b''))))"
  unfolding list_all_iff
proof (rule completed_parent_closed)
  show "reach lc_init lc_step (fn_store (run_funnel completed_intents), [])"
    by (rule run_funnel_reach; code_simp)
  show "store_load (fn_store (run_funnel completed_intents)) ''b'' =
      Some (the (store_load (fn_store (run_funnel completed_intents)) ''b''))" by code_simp
  show "tr_terminalOutcome (the (store_load (fn_store (run_funnel completed_intents)) ''b'')) = Some Completed" by code_simp
qed

text \<open>
  The journal only grows: from any reachable state, later states have the same events first,
  keep every task with its parent link, and never lower a task's revision.
\<close>

theorem journal_grows:
  assumes "reach lc_init lc_step (s, P)" and "lc_step\<^sup>*\<^sup>* (s, P) (s', P')"
  shows "(\<exists>more. st_eventsByIntent s' = st_eventsByIntent s @ more) \<and>
    (\<forall>t r. store_load s t = Some r \<longrightarrow>
       (\<exists>r'. store_load s' t = Some r' \<and> tr_parent r' = tr_parent r \<and>
             (r' = r \<or> tr_lifecycleRevision r < tr_lifecycleRevision r')))"
  using lc.steps_leq [OF assms(2) lc.reach_inv [OF assms(1)]] by (auto simp: lc_leq_def store_load_def)

theorem journal_grows_witness:
  "\<exists>more. st_eventsByIntent (snd settle_result) = st_eventsByIntent fence_store @ more"
proof -
  have "lc_step (fence_store, [pending_of fence_store settle_intent])
     (snd settle_result, remove1 (pending_of fence_store settle_intent) [pending_of fence_store settle_intent])"
    by (rule lc_finish [OF _ settle_sequence settle_commit]) simp
  with journal_grows [OF settle_reach r_into_rtranclp] show ?thesis by blast
qed

section \<open>Submissions and recovery\<close>



lemma project_simps [simp]: "fn_store (project ref r e f) = fn_store f" "fn_draws (project ref r e f) = fn_draws f"
  by (simp_all add: project_def Let_def)

lemma submit_serves_links: "links.serves (submit E)"
  using links.serves_submit_fuel unfolding links.serves_def submit_def by blast

lemma propagate_children_submit_total:
  assumes "linked (fn_store f)"
  shows "propagate_children E (submit E) r e cs f \<noteq> None"
proof -
  have "rank (fn_store f) (tr_taskId c) < length (st_records (fn_store f)) + 1" for c
    using rank_le [of "fn_store f" "tr_taskId c"] by linarith
  moreover have "total_below m E (submit E)" for m
    using submit_total by (auto simp: total_below_def)
  ultimately show ?thesis
    by (intro propagate_children_total [OF _ submit_serves_links assms])
qed

text \<open>
  A suspension whose cause has an empty originating operation id is accepted and committed, and its
  record then fails the restoration guard, so that restoring the task throws. The callers
  \<^verbatim>\<open>CompletionFunnel\<close> (\<^verbatim>\<open>attempt.decisionId || ""\<close>) and \<^verbatim>\<open>ExecutionFunnel\<close> (\<^verbatim>\<open>block.call_id\<close>) can
  submit such a cause.
\<close>

definition blank_operation_intent :: task_lifecycle_intent where
  "blank_operation_intent = (sample_intent ''3'' ''a'' SuspendGeneration)
     \<lparr>in_cause := (sample_cause Src_completion_funnel)\<lparr>cs_originatingOperationId := Some ''''\<rparr>\<rparr>"

definition blank_operation_funnel :: lifecycle_funnel where
  "blank_operation_funnel = run_funnel [sample_intent ''1'' ''a'' (RegisterGeneration None),
     sample_intent ''2'' ''a'' ActivateGeneration, blank_operation_intent]"

theorem blank_operation_unrestorable:
  "valid_intent_ids blank_operation_intent \<and>
   map_option tr_state (store_load (fn_store blank_operation_funnel) ''a'') = Some Suspended \<and>
   map_option fst (restore sample_env 0 ''a'' blank_operation_funnel) = Some Thrown"
  by code_simp

text \<open>
  C7. Restoring a task over the journal in memory never throws and always returns, however many
  children its propagation walks: from a state that well-formed submissions have left (the journal
  satisfies its invariant and its event ids are drawn from the id source), \<^verbatim>\<open>restore\<close> finishes with
  the record of the journal, or with nothing for an unknown task, and never makes up a record. A
  journal with an ill-formed cause is outside (\<open>blank_operation_unrestorable\<close>), and so is the
  durable journal after a change of generation, whose load throws
  (\<open>Sql_Regeneration.regenerated_task_unreadable\<close>).
\<close>

theorem restore_returns:
  assumes "fn_ok E f"
  shows "\<exists>f'. restore E ref t f = Some (Returned (store_load (fn_store f) t), f')"
proof (cases "js_get (st_records (fn_store f)) t")
  case None
  then show ?thesis by (simp add: restore_def fn_load_def store_load_def)
next
  case (Some r)
  let ?f1 = "f\<lparr>fn_authoritative := js_set (fn_authoritative f) t r\<rparr>"
  have ld: "fn_load t f = (Some r, ?f1)" using Some by (simp add: fn_load_def store_load_def)
  have inv: "journal_inv (fn_store f)" using assms by (simp add: fn_ok_def lc_inv_def)
  then have "wf_stored (fn_store f) r" using journal_recordD(2) Some by blast
  then obtain e where e: "e \<in> set (js_values (st_eventsByIntent (fn_store f)))" "event_commits e r"
    by (auto simp: wf_stored_def)
  have "wf_event e" using inv e(1) by (auto simp: journal_inv_def wf_journal_event_def)
  then have ok: "isTaskLifecycleEventForRecord (Some (enc_event e)) (Some (enc_record r))"
    using e(2) by (simp add: isTaskLifecycleEventForRecord_enc)
  have le: "store_loadEvent (fn_store f) (tr_lastEventId r) = Some e"
    using loadEvent_unique [OF inv e(1)] e(2) by (simp add: event_commits_def)
  have "propagateToAttachedChildren E (submit E) r e (project ref r (Some e) ?f1) \<noteq> None"
    using propagate_children_submit_total fn_ok_linked [OF assms] by (simp add: propagateToAttachedChildren_def)
  with ld le ok Some show ?thesis by (auto simp: restore_def store_load_def)
qed

theorem restore_returns_witness:
  "\<exists>f'. restore sample_env 0 ''b'' (run_funnel fence_intents) =
     Some (Returned (store_load (fn_store (run_funnel fence_intents)) ''b''), f')"
  by (rule restore_returns [OF fence_reach(2)])

section \<open>Eligibility\<close>

text \<open>Within one process the funnel's cache of authoritative records agrees with the journal.\<close>

definition coherent :: "lifecycle_funnel \<Rightarrow> bool" where
  "coherent f \<longleftrightarrow> (\<forall>k r. js_get (fn_authoritative f) k = Some r \<longrightarrow> js_get (st_records (fn_store f)) k = Some r)"

lemma coherent_load: "coherent f \<Longrightarrow> coherent (snd (fn_load t f))"
  by (auto simp: coherent_def fn_load_def store_load_def split: option.split)

lemma publish_commit_authoritative:
  "js_get (fn_authoritative (publish_commit ts r e f)) k = (if k = tr_taskId r then Some r else js_get (fn_authoritative f) k)"
  by (simp add: publish_commit_def project_def Let_def split: option.split)

lemma coherent_serialized:
  assumes coh: "coherent f" and ser: "submit_serialized_local E ts i f = (res, f')"
  shows "coherent f'"
proof -
  obtain cur f1 where ld: "fn_load (in_taskId i) f = (cur, f1)" by (cases "fn_load (in_taskId i) f")
  have coh1: "coherent f1" using coherent_load [OF coh, of "in_taskId i"] ld by simp
  have more: "coherent (f1\<lparr>fn_ticks := n, fn_draws := d\<rparr>)" "coherent (f1\<lparr>fn_ticks := n\<rparr>)" for n d
    using coh1 by (simp_all add: coherent_def)
  show ?thesis
  proof (cases "admission cur i")
    case (Some code)
    with ser ld coh1 show ?thesis by (auto simp: submit_serialized_local_def)
  next
    case adm: None
    show ?thesis
    proof (cases "evaluate cur i (env_now E (fn_ticks f1)) (env_uuid E (fn_draws f1))")
      case (Inl code)
      with ser ld adm more show ?thesis by (auto simp: submit_serialized_local_def Let_def)
    next
      case (Inr re)
      obtain r e where re: "re = (r, e)" by (cases re)
      obtain cres s' where com: "store_commit (fn_store f1) (expectation_of cur) r e = (cres, s')"
        by (cases "store_commit (fn_store f1) (expectation_of cur) r e")
      show ?thesis
      proof (cases "\<exists>r' e'. cres = Commit_committed r' e'")
        case True
        then obtain r' e' where cres: "cres = Commit_committed r' e'" by blast
        note cc = store_commit_committed [OF com [unfolded cres]]
        have f': "f' = publish_commit ts r' e' (f1\<lparr>fn_ticks := fn_ticks f1 + 1, fn_draws := fn_draws f1 + 1, fn_store := s'\<rparr>)"
          using ser ld adm Inr re com cres by (simp add: submit_serialized_local_def Let_def)
        have "tr_taskId r' = tr_taskId r" by (simp add: cc(2))
        with coh1 show ?thesis by (simp add: f' coherent_def publish_commit_authoritative cc(4))
      next
        case False
        then have "s' = fn_store f1" using store_commit_sequence [OF com] by auto
        with ser ld adm Inr re com False more show ?thesis
          by (auto simp: submit_serialized_local_def Let_def coherent_def split: lifecycle_commit_result.splits)
      qed
    qed
  qed
qed

lemma coherent_local:
  assumes "coherent f" and "submit_local E ts i f = (res, f')"
  shows "coherent f'"
proof (cases "valid_intent_ids i")
  case True
  have "coherent (case ts of None \<Rightarrow> f | Some ref \<Rightarrow> f\<lparr>fn_projected := js_set (fn_projected f) (in_taskId i) ref\<rparr>)"
    using assms(1) by (simp add: coherent_def split: option.split)
  with True assms(2) coherent_serialized show ?thesis by (simp add: submit_local_def)
next
  case False
  with assms show ?thesis by (simp add: submit_local_def)
qed

interpretation cache: submission_contract E "\<lambda>f. True" "\<lambda>i. True" "\<lambda>f f'. coherent f \<longrightarrow> coherent f'" for E
proof unfold_locales
  show "coherent f \<longrightarrow> coherent (f\<lparr>fn_draws := Suc (fn_draws f)\<rparr>)" for f by (simp add: coherent_def)
qed (auto intro: coherent_local)

lemma coherent_submit: "coherent f \<Longrightarrow> submit E ts i f = Some (res, f') \<Longrightarrow> coherent f'"
  using cache.submit_fuel_rel unfolding submit_def by blast

text \<open>
  C8. Execution admission is sound, with the exact strength of each of its sources. After any
  submission from a coherent cache, an eligible answer rests on a record of that very task and
  generation, active, without a pending cancellation, at the answered revision. When the funnel
  has an authoritative record of the task, the record is the one the journal holds now. When it
  has none, the record is the projection kept in the task state, which is read without the journal
  and so says only what the projection says. A governing parent of which the funnel has an
  authoritative record is in the journal active, unfenced and of the generation the child is
  linked to; a parent the funnel has no record of is not checked.
\<close>

theorem eligibility_sound:
  assumes "coherent f0" and "submit E ts0 i f0 = Some (res, f)"
    and "executionEligibility f ts taskId gen = Eligible n"
  shows "\<exists>r. (if js_get (fn_authoritative f) taskId = None then readProjection ts = Some r
               else store_load (fn_store f) taskId = Some r) \<and>
    tr_taskId r = taskId \<and> tr_generationId r = gen \<and> tr_state r = Active \<and>
    \<not> cancellation_requested r \<and> tr_lifecycleRevision r = n \<and>
    (\<forall>link q. attached_to r = Some link \<longrightarrow> js_get (fn_authoritative f) (pl_taskId link) = Some q \<longrightarrow>
       store_load (fn_store f) (pl_taskId link) = Some q \<and> tr_generationId q = pl_generationId link \<and>
       tr_state q = Active \<and> \<not> cancellation_requested q)"
proof -
  have coh: "js_get (fn_authoritative f) k = Some q \<Longrightarrow> store_load (fn_store f) k = Some q" for k q
    using coherent_submit [OF assms(1,2)] by (simp add: coherent_def store_load_def)
  have "\<exists>r. (case js_get (fn_authoritative f) taskId of None \<Rightarrow> readProjection ts | Some r \<Rightarrow> Some r) = Some r \<and>
      tr_taskId r = taskId \<and> tr_generationId r = gen \<and> tr_state r = Active \<and>
      \<not> cancellation_requested r \<and> tr_lifecycleRevision r = n \<and>
      (\<forall>link q. attached_to r = Some link \<longrightarrow> js_get (fn_authoritative f) (pl_taskId link) = Some q \<longrightarrow>
       tr_generationId q = pl_generationId link \<and> tr_state q = Active \<and> \<not> cancellation_requested q)"
    using assms(3) unfolding executionEligibility_def
    by (cases "case js_get (fn_authoritative f) taskId of None \<Rightarrow> readProjection ts | Some r \<Rightarrow> Some r")
      (auto split: if_splits option.splits)
  then show ?thesis using coh by (auto split: option.splits)
qed

definition eligible_run :: "task_lifecycle_transition_result \<times> lifecycle_funnel" where
  "eligible_run = the (submit sample_env None (sample_intent ''2'' ''a'' ActivateGeneration)
     (run_funnel [sample_intent ''1'' ''a'' (RegisterGeneration None)]))"

theorem eligibility_sound_witness:
  "\<exists>r. store_load (fn_store (snd eligible_run)) ''a'' = Some r \<and> tr_state r = Active"
proof -
  have "submit_all sample_env [sample_intent ''1'' ''a'' (RegisterGeneration None)] empty_funnel =
      Some (run_funnel [sample_intent ''1'' ''a'' (RegisterGeneration None)])"
  proof -
    have "submit_all sample_env [sample_intent ''1'' ''a'' (RegisterGeneration None)] empty_funnel \<noteq> None" by code_simp
    then show ?thesis by (simp add: run_funnel_def)
  qed
  then have coh: "coherent (run_funnel [sample_intent ''1'' ''a'' (RegisterGeneration None)])"
    using coherent_submit [of empty_funnel] by (auto simp: coherent_def empty_funnel_def split: option.splits)
  have "submit sample_env None (sample_intent ''2'' ''a'' ActivateGeneration)
     (run_funnel [sample_intent ''1'' ''a'' (RegisterGeneration None)]) \<noteq> None" by code_simp
  then have sub: "submit sample_env None (sample_intent ''2'' ''a'' ActivateGeneration)
     (run_funnel [sample_intent ''1'' ''a'' (RegisterGeneration None)]) = Some (fst eligible_run, snd eligible_run)"
    by (auto simp: eligible_run_def)
  have "executionEligibility (snd eligible_run) empty_task_state ''a'' ''g'' = Eligible 2" by code_simp
  from eligibility_sound [OF coh sub this] obtain r where
    "if js_get (fn_authoritative (snd eligible_run)) ''a'' = None then readProjection empty_task_state = Some r
     else store_load (fn_store (snd eligible_run)) ''a'' = Some r" and "tr_state r = Active" by blast
  moreover have "js_get (fn_authoritative (snd eligible_run)) ''a'' \<noteq> None" by code_simp
  ultimately show ?thesis by auto
qed

end
