(* ===== verification/Lifecycle_Typing.thy ===== *)
theory Lifecycle_Typing
  imports Lifecycle_Recovery
begin

text \<open>
  The guards of \<^verbatim>\<open>taskLifecycleEvent.ts\<close> as type predicates: a value that passes one is the value the declared type
  describes. The typed value is what the decoders read, and \<open>agree\<close> says that the encoding of the
  typed value has the same fields.
\<close>

definition agree :: "string list \<Rightarrow> json option \<Rightarrow> json \<Rightarrow> bool" where
  "agree ks v w \<longleftrightarrow> list_all (\<lambda>k. ofield v k = ofield (Some w) k) ks"

definition is_string :: "json option \<Rightarrow> bool" where
  "is_string v \<longleftrightarrow> (case v of Some (JStr _) \<Rightarrow> True | _ \<Rightarrow> False)"

lemma is_stringE:
  assumes "is_string v"
  obtains s where "v = Some (JStr s)"
  using assms by (auto simp: is_string_def split: option.splits json.splits)

text \<open>Scalars.\<close>

lemma identity_str: "isIdentity v \<Longrightarrow> non_blank (dec_str v) \<and> v = Some (JStr (dec_str v))"
  by (auto simp: isIdentity_def dec_str_def split: option.splits json.splits)

lemma number_num: "isNumber v \<Longrightarrow> v = Some (JNum (dec_num v))"
  by (auto simp: isNumber_def dec_num_def split: option.splits json.splits)

lemma counter_num: "isPositiveSafeInteger v \<Longrightarrow> wf_counter (dec_num v) \<and> v = Some (JNum (dec_num v))"
  by (auto simp: isPositiveSafeInteger_def dec_num_def wf_counter_def split: option.splits json.splits)

lemma opt_identity:
  "v = None \<or> isIdentity v \<Longrightarrow> opt_ok non_blank (dec_opt dec_str v) \<and> v = map_option JStr (dec_opt dec_str v)"
  by (cases v) (auto simp: dec_opt_def dest: identity_str)

lemma opt_number: "v = None \<or> isNumber v \<Longrightarrow> v = map_option JNum (dec_opt dec_num v)"
  by (cases v) (auto simp: dec_opt_def dest: number_num)

text \<open>Names.\<close>

lemma dec_name_found:
  assumes "n \<in> name ` set xs"
  shows "name (dec_name name xs (Some (JStr n))) = n"
proof -
  obtain x where x: "find (\<lambda>x. name x = n) xs = Some x"
    using assms by (cases "find (\<lambda>x. name x = n) xs") (auto simp: find_None_iff)
  then have "name x = n" by (auto simp: find_Some_iff)
  then show ?thesis using x by (simp add: dec_name_def js_String_opt_def)
qed

lemma state_typed: "is_state_name v \<Longrightarrow> v = Some (JStr (state_name (dec_state v)))"
  unfolding is_state_name_def dec_state_def by (elim imageE) (simp add: dec_name_found)

lemma outcome_typed: "is_outcome_name v \<Longrightarrow> v = Some (JStr (outcome_name (dec_outcome v)))"
  unfolding is_outcome_name_def dec_outcome_def by (elim imageE) (simp add: dec_name_found)

lemma source_typed:
  assumes "is_string v" and "js_String_opt v \<in> set causal_source_names"
  shows "v = Some (JStr (source_name (dec_source v)))"
  using assms by (elim is_stringE) (simp add: dec_source_def dec_name_found causal_source_names_def js_String_opt_def)

lemma transition_typed:
  assumes "is_string v" and "js_String_opt v \<in> set transition_names"
  shows "v = Some (JStr (transition_type_name (dec_transition v)))"
  using assms by (elim is_stringE) (simp add: dec_transition_def dec_name_found transition_names_def js_String_opt_def)

section \<open>Parts\<close>

definition repr_cause :: "json option \<Rightarrow> task_lifecycle_cause \<Rightarrow> bool" where
  "repr_cause v c \<longleftrightarrow>
     agree [''source'', ''reason'', ''originatingOperationId'', ''originatingEventId'', ''authoritativeAt''] v (enc_cause c)"

definition repr_cancellation :: "json option \<Rightarrow> task_cancellation_state \<Rightarrow> bool" where
  "repr_cancellation v c \<longleftrightarrow>
     agree (''status'' # (if c = No_cancellation then [] else [''requestedAt'', ''requestEventId'', ''requestIntentId''])) v
       (enc_cancellation c)"

definition repr_parent :: "json option \<Rightarrow> task_parent_link \<Rightarrow> bool" where
  "repr_parent v p \<longleftrightarrow> agree [''taskId'', ''generationId'', ''governance''] v (enc_parent p)"

definition repr_option :: "(json option \<Rightarrow> 'a \<Rightarrow> bool) \<Rightarrow> json option \<Rightarrow> 'a option \<Rightarrow> bool" where
  "repr_option R v x \<longleftrightarrow> (case x of None \<Rightarrow> v = None | Some y \<Rightarrow> v \<noteq> None \<and> R v y)"

lemma cause_typed:
  assumes "isCause v" and "is_string (ofield v ''source'')"
  shows "wf_cause (dec_cause v) \<and> repr_cause v (dec_cause v)"
  using assms identity_str [of "ofield v ''reason''"] source_typed [OF assms(2)]
    opt_identity [of "ofield v ''originatingOperationId''"] opt_identity [of "ofield v ''originatingEventId''"]
    opt_number [of "ofield v ''authoritativeAt''"]
  unfolding isCause_def
  by (simp add: wf_cause_def repr_cause_def agree_def dec_cause_def enc_cause_def ofield_obj)

lemma cancellation_typed:
  assumes "isCancellation v"
  shows "wf_cancellation (dec_cancellation v) \<and> repr_cancellation v (dec_cancellation v)"
  using assms identity_str [of "ofield v ''requestEventId''"] identity_str [of "ofield v ''requestIntentId''"]
    number_num [of "ofield v ''requestedAt''"]
  by (auto simp: isCancellation_def dec_cancellation_def repr_cancellation_def agree_def enc_cancellation_def ofield_obj
      split: if_splits)

lemma parent_typed:
  assumes "isParent v"
  shows "non_blank (pl_taskId (dec_parent v)) \<and> non_blank (pl_generationId (dec_parent v)) \<and> repr_parent v (dec_parent v)"
  using assms identity_str [of "ofield v ''taskId''"] identity_str [of "ofield v ''generationId''"]
  by (auto simp: isParent_def dec_parent_def repr_parent_def agree_def enc_parent_def ofield_obj)

lemma outcome_fits_typed:
  assumes "is_state_name (ofield v ''state'')" and "outcome_fits_state v"
  shows "wf_outcome (dec_state (ofield v ''state'')) (dec_opt dec_outcome (ofield v ''terminalOutcome''))"
    and "ofield v ''terminalOutcome'' = map_option (JStr \<circ> outcome_name) (dec_opt dec_outcome (ofield v ''terminalOutcome''))"
proof -
  have st: "dec_state (ofield v ''state'') = Terminal \<longleftrightarrow> ofield v ''state'' = Some (JStr ''terminal'')"
    using state_typed [OF assms(1)] state_name_inj [of "dec_state (ofield v ''state'')" Terminal] by auto
  consider "ofield v ''state'' = Some (JStr ''terminal'')" "is_outcome_name (ofield v ''terminalOutcome'')"
    | "ofield v ''state'' \<noteq> Some (JStr ''terminal'')" "ofield v ''terminalOutcome'' = None"
    using assms(2) by (auto simp: outcome_fits_state_def split: if_splits)
  then show "wf_outcome (dec_state (ofield v ''state'')) (dec_opt dec_outcome (ofield v ''terminalOutcome''))"
    "ofield v ''terminalOutcome'' = map_option (JStr \<circ> outcome_name) (dec_opt dec_outcome (ofield v ''terminalOutcome''))"
    using st outcome_typed [of "ofield v ''terminalOutcome''"]
    by (cases; auto simp: wf_outcome_def dec_opt_def is_outcome_name_def)+
qed

lemma parent_ok_typed:
  assumes "parent_ok v" and "isIdentity (ofield v ''taskId'')"
  shows "opt_ok (wf_parent (dec_str (ofield v ''taskId''))) (dec_opt dec_parent (ofield v ''parent''))"
    and "repr_option repr_parent (ofield v ''parent'') (dec_opt dec_parent (ofield v ''parent''))"
  using assms parent_typed [of "ofield v ''parent''"] identity_str [OF assms(2)]
    identity_str [of "ofield (ofield v ''parent'') ''taskId''"]
  by (auto simp: parent_ok_def dec_opt_def wf_parent_def repr_option_def dec_parent_def isParent_def)

section \<open>Records, snapshots, events\<close>

definition repr_snapshot :: "json option \<Rightarrow> task_lifecycle_snapshot \<Rightarrow> bool" where
  "repr_snapshot v s \<longleftrightarrow>
     agree [''generationId'', ''lifecycleRevision'', ''state'', ''terminalOutcome'', ''lastEventId'', ''committedAt'',
       ''monotonicSequence''] v (enc_snapshot s) \<and>
     repr_cancellation (ofield v ''cancellation'') (sn_cancellation s)"

definition repr_record :: "json option \<Rightarrow> task_lifecycle_record \<Rightarrow> bool" where
  "repr_record v r \<longleftrightarrow>
     agree [''schemaVersion'', ''taskId'', ''generationId'', ''lifecycleRevision'', ''state'', ''terminalOutcome'', ''lastEventId'',
       ''committedAt'', ''monotonicSequence''] v (enc_record r) \<and>
     repr_cancellation (ofield v ''cancellation'') (tr_cancellation r) \<and> repr_cause (ofield v ''cause'') (tr_cause r) \<and>
     repr_option repr_parent (ofield v ''parent'') (tr_parent r)"

definition repr_event :: "json option \<Rightarrow> task_lifecycle_event \<Rightarrow> bool" where
  "repr_event v e \<longleftrightarrow>
     agree [''schemaVersion'', ''eventId'', ''intentId'', ''taskId'', ''generationId'', ''lifecycleRevision'', ''transition'',
       ''terminalOutcome'', ''originatingOperationId'', ''originatingEventId'', ''committedAt'', ''monotonicSequence'', ''metadata''] v
       (enc_event e) \<and>
     repr_option repr_snapshot (ofield v ''previous'') (ev_previous e) \<and> repr_snapshot (ofield v ''committed'') (ev_committed e) \<and>
     repr_cause (ofield v ''cause'') (ev_cause e) \<and> repr_option repr_parent (ofield v ''parent'') (ev_parent e)"

lemma snapshot_typed:
  assumes "isSnapshot v"
  shows "wf_snapshot (dec_snapshot v) \<and> repr_snapshot v (dec_snapshot v)"
proof -
  from assms have a: "isIdentity (ofield v ''generationId'')" "isPositiveSafeInteger (ofield v ''lifecycleRevision'')"
    "is_state_name (ofield v ''state'')" "outcome_fits_state v" "isCancellation (ofield v ''cancellation'')"
    "isIdentity (ofield v ''lastEventId'')" "isNumber (ofield v ''committedAt'')"
    "isPositiveSafeInteger (ofield v ''monotonicSequence'')"
    by (simp_all add: isSnapshot_def)
  note typed = identity_str [OF a(1)] counter_num [OF a(2)] state_typed [OF a(3)] outcome_fits_typed [OF a(3,4)]
    cancellation_typed [OF a(5)] identity_str [OF a(6)] number_num [OF a(7)] counter_num [OF a(8)]
  show ?thesis
    using typed by (simp add: wf_snapshot_def repr_snapshot_def agree_def dec_snapshot_def ofield_enc_snapshot)
qed

lemma record_typed:
  assumes "isTaskLifecycleRecord v" and "is_string (ofield (ofield v ''cause'') ''source'')"
  shows "wf_record (dec_record v) \<and> repr_record v (dec_record v)"
proof -
  from assms(1) have a: "isIdentity (ofield v ''taskId'')" "isIdentity (ofield v ''generationId'')"
    "isPositiveSafeInteger (ofield v ''lifecycleRevision'')"
    "is_state_name (ofield v ''state'')" "outcome_fits_state v" "isCancellation (ofield v ''cancellation'')"
    "isCause (ofield v ''cause'')" "parent_ok v"
    "isIdentity (ofield v ''lastEventId'')" "isNumber (ofield v ''committedAt'')"
    "isPositiveSafeInteger (ofield v ''monotonicSequence'')" "ofield v ''schemaVersion'' = Some (JNum 1)"
    by (simp_all add: isTaskLifecycleRecord_def)
  note typed = identity_str [OF a(1)] identity_str [OF a(2)] counter_num [OF a(3)] state_typed [OF a(4)]
    outcome_fits_typed [OF a(4,5)] cancellation_typed [OF a(6)] cause_typed [OF a(7) assms(2)] parent_ok_typed [OF a(8,1)]
    identity_str [OF a(9)] number_num [OF a(10)] counter_num [OF a(11)] a(12)
  show ?thesis
    using typed by (simp add: wf_record_def repr_record_def agree_def dec_record_def ofield_enc_record)
qed

lemma metadata_typed:
  assumes "is_metadata v"
  shows "v = map_option (\<lambda>m. JObj (map (\<lambda>(k, x). (k, enc_metadata_value x)) m)) (dec_opt dec_metadata v)"
proof (cases v)
  case (Some j)
  then obtain fs where fs: "j = JObj fs" "\<forall>(k, e) \<in> set fs. case e of JStr _ \<Rightarrow> True | JNum _ \<Rightarrow> True | JBool _ \<Rightarrow> True | _ \<Rightarrow> False"
    using assms by (auto simp: is_metadata_def split: json.splits)
  have "enc_metadata_value (dec_metadata_value e) = e" if "(k, e) \<in> set fs" for k e
    using fs(2) that by (auto simp: dec_metadata_value_def split: json.splits)
  then show ?thesis using Some fs(1) by (auto simp: dec_opt_def dec_metadata_def comp_def intro!: map_idI [symmetric])
qed (simp add: dec_opt_def)

lemma event_typed:
  assumes "isTaskLifecycleEvent v" and "is_string (ofield (ofield v ''cause'') ''source'')" and "is_string (ofield v ''transition'')"
  shows "wf_event (dec_event v) \<and> repr_event v (dec_event v)"
proof -
  from assms(1) have a: "isIdentity (ofield v ''eventId'')" "isIdentity (ofield v ''intentId'')"
    "isIdentity (ofield v ''taskId'')" "isIdentity (ofield v ''generationId'')"
    "isPositiveSafeInteger (ofield v ''lifecycleRevision'')" "js_String_opt (ofield v ''transition'') \<in> set transition_names"
    "ofield v ''previous'' = None \<or> isSnapshot (ofield v ''previous'')" "isSnapshot (ofield v ''committed'')"
    "isCause (ofield v ''cause'')" "parent_ok v"
    "ofield v ''originatingOperationId'' = None \<or> isIdentity (ofield v ''originatingOperationId'')"
    "ofield v ''originatingEventId'' = None \<or> isIdentity (ofield v ''originatingEventId'')"
    "isNumber (ofield v ''committedAt'')" "isPositiveSafeInteger (ofield v ''monotonicSequence'')"
    "is_metadata (ofield v ''metadata'')" "ofield v ''schemaVersion'' = Some (JNum 1)"
    and eq: "ofield (ofield v ''committed'') ''generationId'' = ofield v ''generationId''"
     "ofield (ofield v ''committed'') ''lifecycleRevision'' = ofield v ''lifecycleRevision''"
     "ofield (ofield v ''committed'') ''lastEventId'' = ofield v ''eventId''"
     "ofield v ''terminalOutcome'' = ofield (ofield v ''committed'') ''terminalOutcome''"
     "ofield v ''committedAt'' = ofield (ofield v ''committed'') ''committedAt''"
     "ofield v ''monotonicSequence'' = ofield (ofield v ''committed'') ''monotonicSequence''"
    unfolding isTaskLifecycleEvent_def by blast+
  note com = snapshot_typed [OF a(8)]
  have same: "sn_generationId (dec_snapshot (ofield v ''committed'')) = dec_str (ofield v ''generationId'')"
    "sn_lifecycleRevision (dec_snapshot (ofield v ''committed'')) = dec_num (ofield v ''lifecycleRevision'')"
    "sn_lastEventId (dec_snapshot (ofield v ''committed'')) = dec_str (ofield v ''eventId'')"
    "sn_terminalOutcome (dec_snapshot (ofield v ''committed'')) = dec_opt dec_outcome (ofield v ''terminalOutcome'')"
    "sn_committedAt (dec_snapshot (ofield v ''committed'')) = dec_num (ofield v ''committedAt'')"
    "sn_monotonicSequence (dec_snapshot (ofield v ''committed'')) = dec_num (ofield v ''monotonicSequence'')"
    using eq by (simp_all add: dec_snapshot_def)
  have out: "ofield v ''terminalOutcome'' = map_option (JStr \<circ> outcome_name) (dec_opt dec_outcome (ofield v ''terminalOutcome''))"
    using com eq(4) same(4) by (simp add: repr_snapshot_def agree_def ofield_enc_snapshot)
  have prev: "opt_ok wf_snapshot (dec_opt dec_snapshot (ofield v ''previous''))"
    "repr_option repr_snapshot (ofield v ''previous'') (dec_opt dec_snapshot (ofield v ''previous''))"
    using a(7) snapshot_typed [of "ofield v ''previous''"] by (auto simp: dec_opt_def repr_option_def)
  note typed = identity_str [OF a(1)] identity_str [OF a(2)] identity_str [OF a(3)] identity_str [OF a(4)] counter_num [OF a(5)]
    transition_typed [OF assms(3) a(6)] cause_typed [OF a(9) assms(2)] parent_ok_typed [OF a(10,3)] opt_identity [OF a(11)]
    opt_identity [OF a(12)] number_num [OF a(13)] counter_num [OF a(14)] metadata_typed [OF a(15)] a(16)
  have "wf_event (dec_event v)"
    using typed com prev(1) same unfolding wf_event_def by (simp add: dec_event_def)
  moreover have "repr_event v (dec_event v)"
    using typed com prev(2) out unfolding repr_event_def agree_def by (simp add: dec_event_def ofield_enc_event)
  ultimately show ?thesis ..
qed

section \<open>The guards against the declared types\<close>

text \<open>A record whose cause has the source \<open>src\<close>, with a field the type does not have.\<close>

definition restored_record :: "json \<Rightarrow> json" where
  "restored_record src = JObj
     [(''schemaVersion'', JNum 1), (''taskId'', JStr ''t''), (''generationId'', JStr ''g''), (''lifecycleRevision'', JNum 2),
      (''state'', JStr ''terminal''), (''terminalOutcome'', JStr ''failed''), (''cancellation'', JObj [(''status'', JStr ''none'')]),
      (''cause'', JObj [(''source'', src), (''reason'', JStr ''r'')]), (''lastEventId'', JStr ''e''), (''committedAt'', JNum 5),
      (''monotonicSequence'', JNum 3), (''note'', JBool True)]"

text \<open>
  The source is compared after \<^verbatim>\<open>String(...)\<close>, which takes an array of one string to the string: a cause whose source is an
  array passes the guard of records, though its declared type has only strings.
\<close>

lemma guard_admits_array_source:
  "isTaskLifecycleRecord (Some (restored_record (JArr [JStr ''task'']))) \<and>
     \<not> is_string (ofield (ofield (Some (restored_record (JArr [JStr ''task'']))) ''cause'') ''source'')"
  by code_simp

text \<open>
  C11. A value that passes the guard of records (events) is a value of the declared type: its fields are those of the typed
  record (event) that decoding gives, optional ones absent in both, and that record has the invariants the guard checks:
  non-blank identities, counters between 1 and 2^53 - 1, an outcome exactly in the terminal state, a parent other
  than itself. This needs the cause's source, and the transition of an event, to be strings.
\<close>

theorem guards_are_type_predicates:
  assumes "is_string (ofield (ofield v ''cause'') ''source'')"
  shows "(isTaskLifecycleRecord v \<longrightarrow> wf_record (dec_record v) \<and> repr_record v (dec_record v)) \<and>
     (isTaskLifecycleEvent v \<and> is_string (ofield v ''transition'') \<longrightarrow> wf_event (dec_event v) \<and> repr_event v (dec_event v))"
  using record_typed event_typed assms by blast

theorem guards_are_type_predicates_witness:
  "isTaskLifecycleRecord (Some (restored_record (JStr ''task''))) \<and>
     wf_record (dec_record (Some (restored_record (JStr ''task'')))) \<and>
     tr_terminalOutcome (dec_record (Some (restored_record (JStr ''task'')))) = Some Failed"
proof -
  let ?v = "Some (restored_record (JStr ''task''))"
  have src: "is_string (ofield (ofield ?v ''cause'') ''source'')" by code_simp
  have guard: "isTaskLifecycleRecord ?v" by code_simp
  have out: "tr_terminalOutcome (dec_record ?v) = Some Failed" by code_simp
  from guards_are_type_predicates [OF src] guard out show ?thesis by blast
qed

end
