(* ===== verification/Sql_Tables.thy ===== *)
theory Sql_Tables
  imports Lifecycle_Properties
begin

text \<open>
  The tables under the durable journal: the statements \<^verbatim>\<open>BroccoliRawDatabase.execute\<close> of
  \<^verbatim>\<open>src/infrastructure/db/BroccoliStateDatabase.ts\<close> runs for the lifecycle tables, over the key-value tables of
  the kernel. A statement is given by what its text parses to: table, conditions, assignments.

  The kernel is a package outside the repository, known by its interface \<^verbatim>\<open>IDbTable\<close> of
  \<^verbatim>\<open>src/core/contracts/broccolidb.contracts.ts\<close>: its operations are fields of the argument \<open>E\<close>, and the locale
  \<open>kv_table\<close> states that they are those of a map from keys to rows. So are the hash of a row and the
  text of a JSON value, which only the key of a row without its primary key would show.

  A column holds null, a number, a text, or the text of a JSON value, kept as the value it parses to; a text in a
  JSON column is one that does not parse.
\<close>

declare map_of_eq_Some_iff [simp del]
declare Some_eq_map_of_iff [simp del]

section \<open>Rows and keys\<close>

datatype sql_value = V_null | V_num int | V_text string | V_json json

type_synonym sql_row = "(string, sql_value) jsmap"

record 't sql_env =
  kv_getAll :: "'t \<Rightarrow> sql_row list"
  kv_put :: "string \<Rightarrow> sql_row \<Rightarrow> 't \<Rightarrow> 't"
  kv_delete :: "string \<Rightarrow> 't \<Rightarrow> 't \<times> bool"
  env_hash :: "sql_row \<Rightarrow> string"
  env_stringify :: "json \<Rightarrow> string"

definition sql_String :: "'t sql_env \<Rightarrow> sql_value \<Rightarrow> string" where
  "sql_String E v =
     (case v of V_null \<Rightarrow> ''null'' | V_num n \<Rightarrow> show_int n | V_text s \<Rightarrow> s | V_json j \<Rightarrow> env_stringify E j)"

definition PRIMARY_KEYS :: "(string \<times> string list) list" where
  "PRIMARY_KEYS =
     [(''branches'', [''repoPath'', ''name'']), (''tags'', [''repoPath'', ''name'']), (''trees'', [''repoPath'', ''id'']),
      (''claims'', [''repoPath'', ''branch'', ''path'']), (''telemetry_aggregates'', [''repoPath'', ''id'']),
      (''knowledge_edges'', [''sourceId'', ''targetId'', ''type'']), (''agent_memory'', [''streamId'', ''key'']),
      (''agent_knowledge_edges'', [''sourceId'', ''targetId'', ''type'']), (''swarm_lock_generations'', [''resourceKey'']),
      (''swarm_locks'', [''resource'']), (''task_completions'', [''taskId'']), (''task_rejections'', [''decisionId'']),
      (''completion_attempts'', [''completionAttemptId'']), (''task_lifecycle_records'', [''taskId'', ''generationId'']),
      (''task_lifecycle_events'', [''eventId'']), (''task_lifecycle_sequence'', [''id''])]"

text \<open>\<^verbatim>\<open>parts.join("\u0000")\<close>\<close>

fun join_nul :: "string list \<Rightarrow> string" where
  "join_nul [] = []"
| "join_nul [s] = s"
| "join_nul (s # ss) = s @ CHR 0x00 # join_nul ss"

fun fallback_key :: "'t sql_env \<Rightarrow> string list \<Rightarrow> sql_row \<Rightarrow> string" where
  "fallback_key E [] row = env_hash E row"
| "fallback_key E (f # fs) row =
     (case js_get row f of
        None \<Rightarrow> fallback_key E fs row
      | Some v \<Rightarrow> if v = V_null then fallback_key E fs row else sql_String E v)"

definition fallback_fields :: "string list" where
  "fallback_fields = [''id'', ''key'', ''resource'', ''resourceKey'', ''completionAttemptId'', ''taskId'', ''decisionId'',
     ''eventId'', ''monotonicSequence'']"

definition keyFor :: "'t sql_env \<Rightarrow> string \<Rightarrow> sql_row \<Rightarrow> string" where
  "keyFor E table row =
     (case js_get PRIMARY_KEYS table of
        None \<Rightarrow> fallback_key E fallback_fields row
      | Some cols \<Rightarrow>
          if list_all (\<lambda>f. js_get row f \<noteq> None) cols
          then join_nul (map (\<lambda>f. sql_String E (the (js_get row f))) cols)
          else fallback_key E fallback_fields row)"

section \<open>Statements\<close>

text \<open>The conditions are equalities, the only ones these statements have.\<close>

type_synonym sql_where = "(string \<times> sql_value) list"

definition matchesRow :: "sql_where \<Rightarrow> sql_row \<Rightarrow> bool" where
  "matchesRow preds row \<longleftrightarrow> list_all (\<lambda>(c, v). js_get row c = Some v) preds"

definition sql_select :: "'t sql_env \<Rightarrow> sql_where \<Rightarrow> 't \<Rightarrow> sql_row list" where
  "sql_select E preds t = filter (matchesRow preds) (kv_getAll E t)"

datatype conflict_mode = Or_fail | Or_ignore | Or_replace

definition sql_insert :: "'t sql_env \<Rightarrow> conflict_mode \<Rightarrow> string \<Rightarrow> sql_row \<Rightarrow> 't \<Rightarrow> 't \<times> nat" where
  "sql_insert E mode table row t =
     (if find (\<lambda>c. keyFor E table c = keyFor E table row) (kv_getAll E t) \<noteq> None \<and> mode \<noteq> Or_replace then (t, 0)
      else (kv_put E (keyFor E table row) row t, 1))"

text \<open>
  The assignments of an update take the parameters in turn, through all the rows it changes: the index does not
  go back to the start for the next row. A parameter that is not there is \<^verbatim>\<open>undefined\<close>.
\<close>

datatype assignment = Set_param string | Add_to string int

definition sql_number :: "sql_value option \<Rightarrow> int" where
  "sql_number v = (case v of Some (V_num n) \<Rightarrow> n | _ \<Rightarrow> 0)"

fun apply_assignments :: "assignment list \<Rightarrow> sql_value list \<Rightarrow> sql_row \<Rightarrow> sql_row \<Rightarrow> sql_row \<times> sql_value list" where
  "apply_assignments [] params row nxt = (nxt, params)"
| "apply_assignments (Set_param c # as) params row nxt =
     (case params of
        [] \<Rightarrow> apply_assignments as [] row (js_del nxt c)
      | p # ps \<Rightarrow> apply_assignments as ps row (js_set nxt c p))"
| "apply_assignments (Add_to c n # as) params row nxt =
     apply_assignments as params row (js_set nxt c (V_num (sql_number (js_get row c) + n)))"

fun update_rows ::
  "'t sql_env \<Rightarrow> string \<Rightarrow> assignment list \<Rightarrow> sql_where \<Rightarrow> sql_row list \<Rightarrow> sql_value list \<Rightarrow> 't \<Rightarrow> nat \<Rightarrow> 't \<times> nat" where
  "update_rows E table as preds [] params t changes = (t, changes)"
| "update_rows E table as preds (row # rows) params t changes =
     (if \<not> matchesRow preds row then update_rows E table as preds rows params t changes
      else
        let (nxt, rest) = apply_assignments as params row row
        in update_rows E table as preds rows rest (kv_put E (keyFor E table row) nxt t) (Suc changes))"

definition sql_update ::
  "'t sql_env \<Rightarrow> string \<Rightarrow> assignment list \<Rightarrow> sql_value list \<Rightarrow> sql_where \<Rightarrow> 't \<Rightarrow> 't \<times> nat" where
  "sql_update E table as params preds t = update_rows E table as preds (kv_getAll E t) params t 0"

fun delete_rows :: "'t sql_env \<Rightarrow> string \<Rightarrow> sql_where \<Rightarrow> sql_row list \<Rightarrow> 't \<Rightarrow> nat \<Rightarrow> 't \<times> nat" where
  "delete_rows E table preds [] t changes = (t, changes)"
| "delete_rows E table preds (row # rows) t changes =
     (if \<not> matchesRow preds row then delete_rows E table preds rows t changes
      else
        let (t', deleted) = kv_delete E (keyFor E table row) t
        in delete_rows E table preds rows t' (if deleted then Suc changes else changes))"

definition sql_delete :: "'t sql_env \<Rightarrow> string \<Rightarrow> sql_where \<Rightarrow> 't \<Rightarrow> 't \<times> nat" where
  "sql_delete E table preds t = delete_rows E table preds (kv_getAll E t) t 0"

section \<open>The interface of the kernel's tables\<close>

text \<open>
  \<open>own_keys\<close>: every row is stored under the key its own columns give. An insertion keeps this, an update only
  when it leaves the primary key alone.
\<close>

definition own_keys :: "'t sql_env \<Rightarrow> string \<Rightarrow> (string \<Rightarrow> sql_row option) \<Rightarrow> bool" where
  "own_keys E table m \<longleftrightarrow> (\<forall>k row. m k = Some row \<longrightarrow> keyFor E table row = k)"

locale kv_table =
  fixes E :: "'t sql_env" and kv :: "'t \<Rightarrow> string \<Rightarrow> sql_row option"
  assumes kv_rows: "\<exists>kvs. distinct (map fst kvs) \<and> map snd kvs = kv_getAll E t \<and> map_of kvs = kv t"
    and kv_put: "kv (kv_put E k row t) = (kv t)(k \<mapsto> row)"
    and kv_delete: "kv (fst (kv_delete E k t)) = (kv t)(k := None)"
    and kv_deleted: "snd (kv_delete E k t) \<longleftrightarrow> kv t k \<noteq> None"
begin

lemma set_getAll: "set (kv_getAll E t) = ran (kv t)"
proof -
  obtain kvs where "distinct (map fst kvs)" "map snd kvs = kv_getAll E t" "map_of kvs = kv t" using kv_rows by blast
  then show ?thesis by (metis list.set_map ran_distinct)
qed

lemma set_select: "set (sql_select E preds t) = {row \<in> ran (kv t). matchesRow preds row}"
  by (auto simp: sql_select_def set_getAll)

text \<open>In a table with its own keys no row occurs twice.\<close>

lemma distinct_keys:
  assumes "own_keys E table (kv t)"
  shows "distinct (map (keyFor E table) (kv_getAll E t))"
proof -
  obtain kvs where kvs: "distinct (map fst kvs)" "map snd kvs = kv_getAll E t" "map_of kvs = kv t"
    using kv_rows by blast
  have "keyFor E table row = k" if "(k, row) \<in> set kvs" for k row
    using assms kvs(1,3) that unfolding own_keys_def by (metis map_of_is_SomeI)
  then have "map (keyFor E table) (map snd kvs) = map fst kvs" by auto
  then show ?thesis using kvs(1,2) by metis
qed

lemma insert_fresh:
  assumes "own_keys E table (kv t)" and "kv t (keyFor E table row) = None"
  shows "snd (sql_insert E mode table row t) = 1"
    and "kv (fst (sql_insert E mode table row t)) = (kv t)(keyFor E table row \<mapsto> row)"
proof -
  have "keyFor E table c \<noteq> keyFor E table row" if "c \<in> set (kv_getAll E t)" for c
    using assms that unfolding set_getAll own_keys_def ran_def by fastforce
  then have "find (\<lambda>c. keyFor E table c = keyFor E table row) (kv_getAll E t) = None" by (auto simp: find_None_iff)
  then show "snd (sql_insert E mode table row t) = 1"
    "kv (fst (sql_insert E mode table row t)) = (kv t)(keyFor E table row \<mapsto> row)"
    by (simp_all add: sql_insert_def kv_put)
qed

lemma delete_rows_kv:
  "kv (fst (delete_rows E table preds rows t n)) =
     (\<lambda>k. if k \<in> keyFor E table ` set (filter (matchesRow preds) rows) then None else kv t k)"
proof (induction rows arbitrary: t n)
  case (Cons row rows)
  then show ?case by (auto simp: fun_eq_iff kv_delete split: prod.split) (metis fst_conv kv_delete fun_upd_apply)+
qed simp

text \<open>A deletion removes the rows it matches.\<close>

lemma delete_kv:
  assumes "own_keys E table (kv t)"
  shows "kv (fst (sql_delete E table preds t)) =
     (\<lambda>k. case kv t k of Some row \<Rightarrow> if matchesRow preds row then None else Some row | None \<Rightarrow> None)"
proof
  fix k
  have "k \<in> keyFor E table ` set (filter (matchesRow preds) (kv_getAll E t)) \<longleftrightarrow>
      (\<exists>row. kv t k = Some row \<and> matchesRow preds row)"
    using assms unfolding own_keys_def by (auto simp: set_getAll ran_def)
  then show "kv (fst (sql_delete E table preds t)) k =
     (case kv t k of Some row \<Rightarrow> if matchesRow preds row then None else Some row | None \<Rightarrow> None)"
    by (auto simp: sql_delete_def delete_rows_kv split: option.split)
qed

lemma own_keys_delete:
  assumes "own_keys E table (kv t)"
  shows "own_keys E table (kv (fst (sql_delete E table preds t)))"
  using assms unfolding delete_kv [OF assms] by (auto simp: own_keys_def split: option.splits if_splits)

lemma own_keys_put: "own_keys E table m \<Longrightarrow> keyFor E table row = k \<Longrightarrow> own_keys E table (m(k \<mapsto> row))"
  by (auto simp: own_keys_def)

text \<open>An update that matches one row.\<close>

lemma update_rows_skip:
  "\<forall>row \<in> set xs. \<not> matchesRow preds row \<Longrightarrow>
     update_rows E table as preds (xs @ ys) ps t n = update_rows E table as preds ys ps t n"
  by (induction xs) auto

lemma update_one:
  assumes "own_keys E table (kv t)" and "kv t k = Some row" and "matchesRow preds row"
    and "\<And>k' row'. kv t k' = Some row' \<Longrightarrow> matchesRow preds row' \<Longrightarrow> k' = k"
  shows "snd (sql_update E table as params preds t) = 1"
    and "kv (fst (sql_update E table as params preds t)) = (kv t)(k \<mapsto> fst (apply_assignments as params row row))"
proof -
  have key: "keyFor E table row = k" using assms(1,2) by (simp add: own_keys_def)
  have "row \<in> set (kv_getAll E t)" using assms(2) by (auto simp: set_getAll ran_def)
  then obtain xs ys where rows: "kv_getAll E t = xs @ row # ys" by (auto simp: in_set_conv_decomp)
  have other: "\<not> matchesRow preds c" if "c \<in> set xs \<union> set ys" for c
  proof
    assume m: "matchesRow preds c"
    have "c \<in> set (kv_getAll E t)" using that rows by auto
    then obtain k' where k': "kv t k' = Some c" by (auto simp: set_getAll ran_def)
    then have "k' = k" using assms(4) m by blast
    then have "keyFor E table c = keyFor E table row" using assms(2) k' by simp
    moreover have "keyFor E table row \<notin> keyFor E table ` (set xs \<union> set ys)"
      using distinct_keys [OF assms(1)] unfolding rows by auto
    ultimately show False using that by (metis imageI)
  qed
  have skip_ys: "update_rows E table as preds ys ps t' n = (t', n)" for ps t' n
    using update_rows_skip [of ys preds table as "[]" ps t' n] other by simp
  have skip_xs: "update_rows E table as preds (xs @ row # ys) params t 0 = update_rows E table as preds (row # ys) params t 0"
    by (rule update_rows_skip) (use other in blast)
  obtain nxt rest where nxt: "apply_assignments as params row row = (nxt, rest)" by (cases "apply_assignments as params row row")
  have "update_rows E table as preds (xs @ row # ys) params t 0 = (kv_put E k nxt t, 1)"
    unfolding skip_xs using assms(3) by (simp add: nxt key skip_ys)
  then show "snd (sql_update E table as params preds t) = 1"
    "kv (fst (sql_update E table as params preds t)) = (kv t)(k \<mapsto> fst (apply_assignments as params row row))"
    unfolding sql_update_def rows by (simp_all add: kv_put nxt)
qed

end

section \<open>Tables that are maps\<close>

text \<open>
  The tables of the repository's own kernel, \<^verbatim>\<open>broccolidb-table.ts\<close>, keep their rows in an insertion-ordered map;
  \<open>clearjunk\<close> is the identity on such a map.
\<close>

definition map_env :: "(string, sql_row) jsmap sql_env" where
  "map_env = \<lparr>kv_getAll = (\<lambda>t. js_values (AList.clearjunk t)), kv_put = (\<lambda>k row t. js_set t k row),
     kv_delete = (\<lambda>k t. (js_del t k, js_get t k \<noteq> None)), env_hash = (\<lambda>row. []), env_stringify = (\<lambda>j. [])\<rparr>"

interpretation map_table: kv_table map_env map_of
proof
  show "\<exists>kvs. distinct (map fst kvs) \<and> map snd kvs = kv_getAll map_env t \<and> map_of kvs = map_of t" for t
    by (intro exI [of _ "AList.clearjunk t"]) (simp add: map_env_def distinct_clearjunk map_of_clearjunk)
qed (auto simp: map_env_def update_conv' delete_conv' fun_eq_iff)

end
