(* ===== verification/Sql_Journal.thy ===== *)
theory Sql_Journal
  imports Sql_Tables
begin

text \<open>
  The durable journal of the lifecycle funnel: \<^verbatim>\<open>BroccoliTaskLifecyclePersistence\<close> of
  \<^verbatim>\<open>src/core/task/lifecycle/TaskLifecyclePersistence.ts\<close> and its helpers. The rows of the event table are the
  journal; the rows of the record table are a projection of it, checked on every read and repaired when they do
  not match; a counter numbers the commits.

  Values read from a row are JSON values that have passed a guard, and \<open>record_of\<close> and \<open>event_of\<close> are the typed
  values they stand for. An operation ends with \<open>Thrown\<close> where the code throws, with the tables as they are then: whether
  the kernel undoes the changes of a transaction that throws is not known here, and no property speaks of that state.
\<close>

declare map_of_eq_Some_iff [simp del]
declare Some_eq_map_of_iff [simp del]

section \<open>Tables\<close>

record 't lifecycle_db =
  db_records :: 't
  db_events :: 't
  db_sequence :: 't

abbreviation record_of :: "json \<Rightarrow> task_lifecycle_record" where
  "record_of j \<equiv> dec_record (Some j)"

abbreviation event_of :: "json \<Rightarrow> task_lifecycle_event" where
  "event_of j \<equiv> dec_event (Some j)"

definition sql_equals :: "sql_value \<Rightarrow> json option \<Rightarrow> bool" where
  "sql_equals v x =
     (case v of V_null \<Rightarrow> x = Some JNull | V_num n \<Rightarrow> x = Some (JNum n) | V_text s \<Rightarrow> x = Some (JStr s) | V_json j \<Rightarrow> False)"

definition event_columns :: "string list" where
  "event_columns =
     [''eventId'', ''intentId'', ''taskId'', ''generationId'', ''lifecycleRevision'', ''monotonicSequence'', ''committedAt'']"

text \<open>\<open>None\<close>: the row is malformed and the code throws.\<close>

definition parseEventRow :: "sql_row \<Rightarrow> json option" where
  "parseEventRow row =
     (case js_get row ''eventJson'' of
        Some (V_json j) \<Rightarrow>
          if isTaskLifecycleEvent (Some j) \<and>
             list_all (\<lambda>f. case js_get row f of None \<Rightarrow> True | Some v \<Rightarrow> sql_equals v (ofield (Some j) f)) event_columns
          then Some j else None
      | _ \<Rightarrow> None)"

definition parseRecordRow :: "sql_row \<Rightarrow> json option" where
  "parseRecordRow row =
     (case (js_get row ''taskId'', js_get row ''generationId'', js_get row ''lifecycleRevision'', js_get row ''recordJson'') of
        (Some (V_text t), Some (V_text g), Some (V_num n), Some (V_json j)) \<Rightarrow>
          if isTaskLifecycleRecord (Some j) \<and> ofield (Some j) ''taskId'' = Some (JStr t) \<and>
             ofield (Some j) ''generationId'' = Some (JStr g) \<and> ofield (Some j) ''lifecycleRevision'' = Some (JNum n)
          then Some j else None
      | _ \<Rightarrow> None)"

section \<open>Reading the journal\<close>

text \<open>The outer \<open>None\<close> is a throw.\<close>

fun assertUniqueJournalSequences :: "(int, string) jsmap \<Rightarrow> json list \<Rightarrow> bool" where
  "assertUniqueJournalSequences owners [] = True"
| "assertUniqueJournalSequences owners (j # js) =
     (let e = event_of j in
      case js_get owners (ev_monotonicSequence e) of
        Some previous \<Rightarrow>
          if previous \<noteq> [] \<and> previous \<noteq> ev_eventId e then False
          else assertUniqueJournalSequences (js_set owners (ev_monotonicSequence e) (ev_eventId e)) js
      | None \<Rightarrow> assertUniqueJournalSequences (js_set owners (ev_monotonicSequence e) (ev_eventId e)) js)"

fun latest_event :: "string \<Rightarrow> json option \<Rightarrow> sql_row list \<Rightarrow> json option option" where
  "latest_event t latest [] = Some latest"
| "latest_event t latest (row # rows) =
     (case parseEventRow row of
        None \<Rightarrow> None
      | Some j \<Rightarrow>
          if ev_taskId (event_of j) \<noteq> t then None
          else (case latest of
              None \<Rightarrow> latest_event t (Some j) rows
            | Some l \<Rightarrow>
                if ev_monotonicSequence (event_of j) > ev_monotonicSequence (event_of l) then latest_event t (Some j) rows
                else if ev_monotonicSequence (event_of j) = ev_monotonicSequence (event_of l) \<and>
                        ev_eventId (event_of j) \<noteq> ev_eventId (event_of l) then None
                else latest_event t latest rows))"

definition latestJournalEvent :: "'t sql_env \<Rightarrow> 't lifecycle_db \<Rightarrow> string \<Rightarrow> json option option" where
  "latestJournalEvent E db t = latest_event t None (sql_select E [(''taskId'', V_text t)] (db_events db))"

definition record_of_event :: "json \<Rightarrow> json option" where
  "record_of_event j =
     (case taskLifecycleRecordFromEvent (Some j) of
        None \<Rightarrow> None
      | Some r \<Rightarrow> if isTaskLifecycleEventForRecord (Some j) (Some r) then Some r else None)"

definition latestJournalRecord :: "'t sql_env \<Rightarrow> 't lifecycle_db \<Rightarrow> string \<Rightarrow> json option option" where
  "latestJournalRecord E db t =
     (case latestJournalEvent E db t of
        None \<Rightarrow> None
      | Some None \<Rightarrow> Some None
      | Some (Some j) \<Rightarrow> map_option Some (record_of_event j))"

fun collect_latest ::
  "(string, json) jsmap \<Rightarrow> json list \<Rightarrow> sql_row list \<Rightarrow> ((string, json) jsmap \<times> json list) option" where
  "collect_latest latestByTask events [] = Some (latestByTask, events)"
| "collect_latest latestByTask events (row # rows) =
     (case parseEventRow row of
        None \<Rightarrow> None
      | Some j \<Rightarrow>
          let t = ev_taskId (event_of j); events' = events @ [j] in
          (case js_get latestByTask t of
             None \<Rightarrow> collect_latest (js_set latestByTask t j) events' rows
           | Some l \<Rightarrow>
               if ev_monotonicSequence (event_of j) > ev_monotonicSequence (event_of l)
               then collect_latest (js_set latestByTask t j) events' rows
               else if ev_monotonicSequence (event_of j) = ev_monotonicSequence (event_of l) \<and>
                       ev_eventId (event_of j) \<noteq> ev_eventId (event_of l) then None
               else collect_latest latestByTask events' rows))"

definition latestJournalRecords :: "'t sql_env \<Rightarrow> 't lifecycle_db \<Rightarrow> json list option" where
  "latestJournalRecords E db =
     (case collect_latest [] [] (sql_select E [] (db_events db)) of
        None \<Rightarrow> None
      | Some (latestByTask, events) \<Rightarrow>
          if \<not> assertUniqueJournalSequences [] events then None
          else those (map record_of_event (js_values latestByTask)))"

section \<open>The projection\<close>

record projection =
  pj_record :: "json option"
  pj_rowCount :: nat
  pj_malformed :: bool

definition project_row :: "sql_row \<Rightarrow> json option \<times> bool \<Rightarrow> json option \<times> bool" where
  "project_row row acc =
     (case parseRecordRow row of
        None \<Rightarrow> (fst acc, True)
      | Some j \<Rightarrow>
          if (case fst acc of None \<Rightarrow> True
              | Some r \<Rightarrow> tr_monotonicSequence (record_of j) > tr_monotonicSequence (record_of r))
          then (Some j, snd acc) else acc)"

definition read_projection :: "'t sql_env \<Rightarrow> 't lifecycle_db \<Rightarrow> string \<Rightarrow> projection" where
  "read_projection E db t =
     (let rows = sql_select E [(''taskId'', V_text t)] (db_records db); acc = fold project_row rows (None, False)
      in \<lparr>pj_record = fst acc, pj_rowCount = length rows, pj_malformed = snd acc\<rparr>)"

definition record_row :: "json \<Rightarrow> sql_row" where
  "record_row j =
     [(''taskId'', V_text (tr_taskId (record_of j))), (''generationId'', V_text (tr_generationId (record_of j))),
      (''lifecycleRevision'', V_num (tr_lifecycleRevision (record_of j))), (''recordJson'', V_json j),
      (''updatedAt'', V_num (tr_committedAt (record_of j)))]"

text \<open>False: the projection could not be repaired, and the code throws.\<close>

definition persistRecordProjection :: "'t sql_env \<Rightarrow> json \<Rightarrow> 't lifecycle_db \<Rightarrow> 't lifecycle_db \<times> bool" where
  "persistRecordProjection E j db =
     (let t1 = fst (sql_delete E ''task_lifecycle_records'' [(''taskId'', V_text (tr_taskId (record_of j)))] (db_records db));
          (t2, changes) = sql_insert E Or_fail ''task_lifecycle_records'' (record_row j) t1
      in (db\<lparr>db_records := t2\<rparr>, changes = 1))"

definition drop_projection :: "'t sql_env \<Rightarrow> string \<Rightarrow> 't lifecycle_db \<Rightarrow> 't lifecycle_db" where
  "drop_projection E t db =
     db\<lparr>db_records := fst (sql_delete E ''task_lifecycle_records'' [(''taskId'', V_text t)] (db_records db))\<rparr>"

definition projection_matches :: "projection \<Rightarrow> json \<Rightarrow> bool" where
  "projection_matches p journalEvent \<longleftrightarrow> \<not> pj_malformed p \<and> pj_rowCount p = 1 \<and>
     (case pj_record p of None \<Rightarrow> False | Some r \<Rightarrow> isTaskLifecycleEventForRecord (Some journalEvent) (Some r))"

definition readAuthoritativeRecord ::
  "'t sql_env \<Rightarrow> string \<Rightarrow> 't lifecycle_db \<Rightarrow> json option thrown \<times> 't lifecycle_db" where
  "readAuthoritativeRecord E t db =
     (let p = read_projection E db t in
      case latestJournalRecord E db t of
        None \<Rightarrow> (Thrown, db)
      | Some None \<Rightarrow> (Returned None, if pj_rowCount p > 0 then drop_projection E t db else db)
      | Some (Some r) \<Rightarrow>
          (case latestJournalEvent E db t of
             Some (Some j) \<Rightarrow>
               if projection_matches p j then (Returned (Some r), db)
               else let (db', ok) = persistRecordProjection E r db in (if ok then Returned (Some r) else Thrown, db')
           | _ \<Rightarrow> (Thrown, db)))"

definition readOrRepairAuthoritativeRecord ::
  "'t sql_env \<Rightarrow> string \<Rightarrow> 't lifecycle_db \<Rightarrow> json option thrown \<times> 't lifecycle_db" where
  "readOrRepairAuthoritativeRecord E t db =
     (let p = read_projection E db t in
      case latestJournalEvent E db t of
        None \<Rightarrow> (Thrown, db)
      | Some None \<Rightarrow> (Returned None, if pj_rowCount p > 0 then drop_projection E t db else db)
      | Some (Some j) \<Rightarrow>
          (case record_of_event j of
             None \<Rightarrow> (Thrown, db)
           | Some r \<Rightarrow>
               if projection_matches p j then (Returned (Some r), db)
               else let (db', ok) = persistRecordProjection E r db in (if ok then Returned (Some r) else Thrown, db')))"

section \<open>Operations\<close>

definition tx_bind ::
  "'a thrown \<times> 'd \<Rightarrow> ('a \<Rightarrow> 'd \<Rightarrow> 'b thrown \<times> 'd) \<Rightarrow> 'b thrown \<times> 'd" where
  "tx_bind m f = (case m of (Thrown, d) \<Rightarrow> (Thrown, d) | (Returned x, d) \<Rightarrow> f x d)"

lemma tx_bind_simps [simp]: "tx_bind (Thrown, d) f = (Thrown, d)" "tx_bind (Returned x, d) f = f x d"
  by (simp_all add: tx_bind_def)

definition sql_load ::
  "'t sql_env \<Rightarrow> string \<Rightarrow> 't lifecycle_db \<Rightarrow> task_lifecycle_record option thrown \<times> 't lifecycle_db" where
  "sql_load E t db = tx_bind (readOrRepairAuthoritativeRecord E t db) (\<lambda>r d. (Returned (map_option record_of r), d))"

definition sql_loadEvent :: "'t sql_env \<Rightarrow> string \<Rightarrow> 't lifecycle_db \<Rightarrow> task_lifecycle_event option thrown" where
  "sql_loadEvent E eid db =
     (case sql_select E [(''eventId'', V_text eid)] (db_events db) of
        [] \<Rightarrow> Returned None
      | row # _ \<Rightarrow>
          (case parseEventRow row of
             None \<Rightarrow> Thrown
           | Some j \<Rightarrow> if ev_eventId (event_of j) \<noteq> eid then Thrown else Returned (Some (event_of j))))"

definition read_parent ::
  "'t sql_env \<Rightarrow> task_parent_link \<Rightarrow> 't lifecycle_db \<Rightarrow> task_lifecycle_record option thrown \<times> 't lifecycle_db" where
  "read_parent E link db = tx_bind (readAuthoritativeRecord E (pl_taskId link) db) (\<lambda>r d. (Returned (map_option record_of r), d))"

definition parent_refuses_register :: "task_parent_link \<Rightarrow> task_lifecycle_record option \<Rightarrow> bool" where
  "parent_refuses_register link parent =
     (case parent of None \<Rightarrow> True
      | Some p \<Rightarrow> tr_generationId p \<noteq> pl_generationId link \<or> tr_state p \<noteq> Active \<or> cancellation_requested p)"

definition parent_refuses_completion :: "task_parent_link \<Rightarrow> task_lifecycle_record option \<Rightarrow> bool" where
  "parent_refuses_completion link parent =
     (case parent of None \<Rightarrow> True
      | Some p \<Rightarrow> tr_generationId p \<noteq> pl_generationId link \<or> tr_state p = Terminal \<or> cancellation_requested p)"

text \<open>The constraints of the parent, one read after another; \<open>True\<close> is a refusal.\<close>

definition parent_constraints ::
  "'t sql_env \<Rightarrow> task_parent_link \<Rightarrow> task_lifecycle_record \<Rightarrow> task_lifecycle_event \<Rightarrow> 't lifecycle_db \<Rightarrow>
     bool thrown \<times> 't lifecycle_db" where
  "parent_constraints E link r e db =
     tx_bind (if ev_transition e = Register_generation
              then tx_bind (read_parent E link db) (\<lambda>p d. (Returned (parent_refuses_register link p), d))
              else (Returned False, db))
       (\<lambda>blocked db1. if blocked then (Returned True, db1)
         else tx_bind (read_parent E link db1) (\<lambda>p db2.
           if attachedParentConstraint r e p \<noteq> None then (Returned True, db2)
           else if ev_transition e = Settle_completion
           then tx_bind (read_parent E link db2) (\<lambda>q db3. (Returned (parent_refuses_completion link q), db3))
           else (Returned False, db2)))"

definition children_constraint ::
  "'t sql_env \<Rightarrow> task_lifecycle_record \<Rightarrow> task_lifecycle_event \<Rightarrow> 't lifecycle_db \<Rightarrow> bool thrown" where
  "children_constraint E r e db =
     (if ev_transition e = Settle_completion \<or> ev_transition e = Replace_generation
      then (case latestJournalRecords E db of
              None \<Rightarrow> Thrown
            | Some rs \<Rightarrow>
                Returned (find (\<lambda>j. is_open_child (tr_taskId r) (governedGeneration r e) (record_of j)) rs \<noteq> None))
      else Returned False)"

definition sql_constraints ::
  "'t sql_env \<Rightarrow> task_lifecycle_record \<Rightarrow> task_lifecycle_event \<Rightarrow> 't lifecycle_db \<Rightarrow> bool thrown \<times> 't lifecycle_db" where
  "sql_constraints E r e db =
     tx_bind (case attached_to r of None \<Rightarrow> (Returned False, db) | Some link \<Rightarrow> parent_constraints E link r e db)
       (\<lambda>blocked db1. if blocked then (Returned True, db1) else (children_constraint E r e db1, db1))"

section \<open>Sequence numbers\<close>

definition sequence_row :: "'t sql_env \<Rightarrow> 't lifecycle_db \<Rightarrow> sql_value option option" where
  "sequence_row E db =
     (case sql_select E [(''id'', V_num 1)] (db_sequence db) of [] \<Rightarrow> None | row # _ \<Rightarrow> Some (js_get row ''value''))"

definition safe_number :: "sql_value option option \<Rightarrow> int option" where
  "safe_number v = (case v of Some (Some (V_num n)) \<Rightarrow> if is_safe_integer n then Some n else None | _ \<Rightarrow> None)"

definition highest_sequence :: "json list \<Rightarrow> int" where
  "highest_sequence js = fold (\<lambda>j m. max m (ev_monotonicSequence (event_of j))) js 0"

definition update_sequence ::
  "'t sql_env \<Rightarrow> assignment \<Rightarrow> sql_value list \<Rightarrow> 't lifecycle_db \<Rightarrow> 't lifecycle_db \<times> nat" where
  "update_sequence E a params db =
     (let (t, n) = sql_update E ''task_lifecycle_sequence'' [a] params [(''id'', V_num 1)] (db_sequence db)
      in (db\<lparr>db_sequence := t\<rparr>, n))"

definition init_sequence :: "'t sql_env \<Rightarrow> int \<Rightarrow> 't lifecycle_db \<Rightarrow> 't lifecycle_db" where
  "init_sequence E highest db =
     (if sequence_row E db \<noteq> None then db
      else db\<lparr>db_sequence := fst (sql_insert E Or_ignore ''task_lifecycle_sequence''
                [(''id'', V_num 1), (''value'', V_num highest)] (db_sequence db))\<rparr>)"

definition increment_sequence :: "'t sql_env \<Rightarrow> int \<Rightarrow> 't lifecycle_db \<Rightarrow> int thrown \<times> 't lifecycle_db" where
  "increment_sequence E highest db =
     (let (db1, changes) = update_sequence E (Add_to ''value'' 1) [] db in
      if changes \<noteq> 1 then (Thrown, db1)
      else (case safe_number (sequence_row E db1) of
              None \<Rightarrow> (Thrown, db1)
            | Some n \<Rightarrow> if n \<le> highest then (Thrown, db1) else (Returned n, db1)))"

definition reconcile_sequence :: "'t sql_env \<Rightarrow> int \<Rightarrow> 't lifecycle_db \<Rightarrow> int thrown \<times> 't lifecycle_db" where
  "reconcile_sequence E highest db =
     (let db1 = init_sequence E highest db in
      case safe_number (sequence_row E db1) of
        None \<Rightarrow> (Thrown, db1)
      | Some v \<Rightarrow>
          if v < 0 then (Thrown, db1)
          else if v < highest
          then (let (db2, changes) = update_sequence E (Set_param ''value'') [V_num highest] db1 in
                if changes \<noteq> 1 \<or> sequence_row E db2 = None then (Thrown, db2) else increment_sequence E highest db2)
          else increment_sequence E highest db1)"

definition valid_sequence :: "json \<Rightarrow> bool" where
  "valid_sequence j \<longleftrightarrow> is_safe_integer (ev_monotonicSequence (event_of j)) \<and> 1 \<le> ev_monotonicSequence (event_of j)"

definition next_sequence :: "'t sql_env \<Rightarrow> 't lifecycle_db \<Rightarrow> int thrown \<times> 't lifecycle_db" where
  "next_sequence E db =
     (case those (map parseEventRow (sql_select E [] (db_events db))) of
        None \<Rightarrow> (Thrown, db)
      | Some events \<Rightarrow>
          if \<not> assertUniqueJournalSequences [] events \<or> \<not> list_all valid_sequence events then (Thrown, db)
          else reconcile_sequence E (highest_sequence events) db)"

section \<open>Commit\<close>

definition event_row :: "task_lifecycle_event \<Rightarrow> sql_row" where
  "event_row e =
     [(''monotonicSequence'', V_num (ev_monotonicSequence e)), (''eventId'', V_text (ev_eventId e)),
      (''intentId'', V_text (ev_intentId e)), (''taskId'', V_text (ev_taskId e)),
      (''generationId'', V_text (ev_generationId e)), (''lifecycleRevision'', V_num (ev_lifecycleRevision e)),
      (''eventJson'', V_json (enc_event e)), (''committedAt'', V_num (ev_committedAt e))]"

text \<open>The rows that change; with an absent expectation the parameters are \<^verbatim>\<open>undefined\<close> and no row matches.\<close>

definition write_record ::
  "'t sql_env \<Rightarrow> lifecycle_commit_expectation \<Rightarrow> bool \<Rightarrow> task_lifecycle_record \<Rightarrow> 't lifecycle_db \<Rightarrow> 't lifecycle_db \<times> nat" where
  "write_record E ex present r db =
     (if present
      then (case ex of
              Expect_absent \<Rightarrow> (db, 0)
            | Expect_at g n \<Rightarrow>
                let (t, changes) = sql_update E ''task_lifecycle_records''
                      [Set_param ''generationId'', Set_param ''lifecycleRevision'', Set_param ''recordJson'', Set_param ''updatedAt'']
                      [V_text (tr_generationId r), V_num (tr_lifecycleRevision r), V_json (enc_record r), V_num (tr_committedAt r)]
                      [(''taskId'', V_text (tr_taskId r)), (''generationId'', V_text g), (''lifecycleRevision'', V_num n)]
                      (db_records db)
                in (db\<lparr>db_records := t\<rparr>, changes))
      else let (t, changes) = sql_insert E Or_fail ''task_lifecycle_records'' (record_row (enc_record r)) (db_records db)
           in (db\<lparr>db_records := t\<rparr>, changes))"

definition write_event :: "'t sql_env \<Rightarrow> task_lifecycle_event \<Rightarrow> 't lifecycle_db \<Rightarrow> 't lifecycle_db \<times> nat" where
  "write_event E e db =
     (let (t, changes) = sql_insert E Or_fail ''task_lifecycle_events'' (event_row e) (db_events db)
      in (db\<lparr>db_events := t\<rparr>, changes))"

definition write_commit ::
  "'t sql_env \<Rightarrow> lifecycle_commit_expectation \<Rightarrow> task_lifecycle_record option \<Rightarrow> task_lifecycle_record \<Rightarrow>
     task_lifecycle_event \<Rightarrow> 't lifecycle_db \<Rightarrow> lifecycle_commit_result thrown \<times> 't lifecycle_db" where
  "write_commit E ex current r e db =
     (let (db1, changed) = write_record E ex (current \<noteq> None) r db in
      if changed \<noteq> 1 then (Returned (Commit_compare_and_swap_failed current), db1)
      else let (db2, inserted) = write_event E e db1 in
           if inserted \<noteq> 1 then (Thrown, db2) else (Returned (Commit_committed r e), db2))"

definition sql_commit ::
  "'t sql_env \<Rightarrow> lifecycle_commit_expectation \<Rightarrow> task_lifecycle_record \<Rightarrow> task_lifecycle_event \<Rightarrow> 't lifecycle_db \<Rightarrow>
     lifecycle_commit_result thrown \<times> 't lifecycle_db" where
  "sql_commit E ex r e db =
     (case sql_select E [(''intentId'', V_text (ev_intentId e))] (db_events db) of
        row # _ \<Rightarrow>
          (case parseEventRow row of
             None \<Rightarrow> (Thrown, db)
           | Some dup \<Rightarrow>
               tx_bind (readAuthoritativeRecord E (ev_taskId (event_of dup)) db) (\<lambda>current db1.
                 case current of
                   None \<Rightarrow> (Returned (Commit_compare_and_swap_failed None), db1)
                 | Some c \<Rightarrow> (Returned (Commit_duplicate_intent (record_of c) (event_of dup)), db1)))
      | [] \<Rightarrow>
          tx_bind (readAuthoritativeRecord E (tr_taskId r) db) (\<lambda>j db1.
            let current = map_option record_of j in
            if \<not> expectation_matches ex current then (Returned (Commit_compare_and_swap_failed current), db1)
            else tx_bind (sql_constraints E r e db1) (\<lambda>blocked db2.
              if blocked then (Returned (Commit_constraint_failed current), db2)
              else tx_bind (next_sequence E db2) (\<lambda>n db3.
                let (r', e') = withSequence r e n in write_commit E ex current r' e' db3))))"

definition sql_listAttachedChildren ::
  "'t sql_env \<Rightarrow> task_parent_link \<Rightarrow> 't lifecycle_db \<Rightarrow> task_lifecycle_record list thrown" where
  "sql_listAttachedChildren E parent db =
     (case latestJournalRecords E db of
        None \<Rightarrow> Thrown
      | Some rs \<Rightarrow>
          Returned (filter (\<lambda>r. case attached_to r of None \<Rightarrow> False
              | Some link \<Rightarrow> pl_taskId link = pl_taskId parent \<and> pl_generationId link = pl_generationId parent)
            (map record_of rs)))"

definition empty_db :: "'t \<Rightarrow> 't lifecycle_db" where
  "empty_db t = \<lparr>db_records = t, db_events = t, db_sequence = t\<rparr>"

end
