(* ===== verification/Sql_Refinement.thy ===== *)
theory Sql_Refinement
  imports Sql_Journal
begin

text \<open>
  The durable journal implements the journal in memory. \<open>sql_rel\<close> relates a store to the tables that hold it: the
  event table has exactly its events, the counter and the events give its sequence, and the record table may hold
  anything, stale or malformed or missing, as long as each row is stored under its own key. Every read repairs
  what it reads, and a commit that leaves the generation of its task alone does to the tables what it does to the store.
\<close>

declare map_of_eq_Some_iff [simp del]
declare Some_eq_map_of_iff [simp del]

section \<open>Rows of journal events\<close>

lemma parseEventRow_event_row: "wf_event e \<Longrightarrow> parseEventRow (event_row e) = Some (enc_event e)"
  by (simp add: parseEventRow_def event_row_def isTaskLifecycleEvent_enc event_columns_def sql_equals_def enc_simps)

lemma event_of_enc [simp]: "event_of (enc_event e) = e"
  by (rule dec_event_enc)

lemma record_of_enc [simp]: "record_of (enc_record r) = r"
  by (rule dec_record_enc)

lemma event_row_columns [simp]:
  "js_get (event_row e) ''eventId'' = Some (V_text (ev_eventId e))"
  "js_get (event_row e) ''intentId'' = Some (V_text (ev_intentId e))"
  "js_get (event_row e) ''taskId'' = Some (V_text (ev_taskId e))"
  by (simp_all add: event_row_def)

lemma event_row_inj: "event_row e = event_row f \<longleftrightarrow> e = f"
proof
  assume "event_row e = event_row f"
  then have "js_get (event_row e) ''eventJson'' = js_get (event_row f) ''eventJson''" by simp
  then have "enc_event e = enc_event f" by (simp add: event_row_def)
  then show "e = f" by (metis event_of_enc)
qed simp

lemma keyFor_event_row [simp]: "keyFor E ''task_lifecycle_events'' (event_row e) = ev_eventId e"
  by (simp add: keyFor_def PRIMARY_KEYS_def sql_String_def)

lemma matchesRow_single [simp]: "matchesRow [(c, v)] row \<longleftrightarrow> js_get row c = Some v" "matchesRow [] row"
  by (simp_all add: matchesRow_def)

lemma record_of_event_enc:
  "wf_event e \<Longrightarrow> event_commits e r \<Longrightarrow> record_of_event (enc_event e) = Some (enc_record r)"
  using record_from_event_roundtrip [of e r] by (simp add: record_of_event_def isTaskLifecycleEventForRecord_enc)

text \<open>A list of rows of events is the image of a list of events.\<close>

lemma rows_events:
  assumes "set rows = event_row ` A"
  shows "\<exists>es. rows = map event_row es \<and> set es = A"
proof -
  have "\<forall>row \<in> set rows. \<exists>e. row = event_row e" using assms by auto
  then obtain es where es: "rows = map event_row es" unfolding ex_map_conv [symmetric] by blast
  then have "event_row ` set es = event_row ` A" using assms by simp
  then have "set es = A" by (simp add: inj_image_eq_iff inj_def event_row_inj)
  with es show ?thesis by blast
qed

text \<open>The newest event wins the scan.\<close>

lemma latest_event_correct:
  assumes "\<forall>e \<in> set es. wf_event e \<and> ev_taskId e = t" and "inj_on ev_monotonicSequence (set es \<union> set_option l)"
    and "m \<in> set es \<union> set_option l" and "\<forall>e \<in> set es \<union> set_option l. ev_monotonicSequence e \<le> ev_monotonicSequence m"
  shows "latest_event t (map_option enc_event l) (map event_row es) = Some (Some (enc_event m))"
  using assms
proof (induction es arbitrary: l)
  case Nil
  then show ?case by auto
next
  case (Cons e es)
  have e: "wf_event e" "ev_taskId e = t" using Cons.prems(1) by auto
  show ?case
  proof (cases l)
    case None
    have "latest_event t (map_option enc_event (Some e)) (map event_row es) = Some (Some (enc_event m))"
      using Cons.prems None by (intro Cons.IH) auto
    then show ?thesis using None e by (simp add: parseEventRow_event_row)
  next
    case (Some k)
    show ?thesis
    proof (cases "ev_monotonicSequence e > ev_monotonicSequence k")
      case True
      have "latest_event t (map_option enc_event (Some e)) (map event_row es) = Some (Some (enc_event m))"
      proof (rule Cons.IH)
        show "inj_on ev_monotonicSequence (set es \<union> set_option (Some e))"
          using Cons.prems(2) by (rule inj_on_subset) auto
        have "m \<noteq> k" using Cons.prems(4) True by force
        then show "m \<in> set es \<union> set_option (Some e)" using Cons.prems(3) Some by auto
      qed (use Cons.prems in auto)
      then show ?thesis using Some e True by (simp add: parseEventRow_event_row)
    next
      case False
      have same: "e = k" if "ev_monotonicSequence e = ev_monotonicSequence k"
        using inj_onD [OF Cons.prems(2) that] Some by simp
      have "latest_event t (map_option enc_event (Some k)) (map event_row es) = Some (Some (enc_event m))"
      proof (rule Cons.IH)
        show "inj_on ev_monotonicSequence (set es \<union> set_option (Some k))"
          using Cons.prems(2) Some by (intro inj_on_subset [OF Cons.prems(2)]) auto
        have "m = e \<Longrightarrow> m = k" using Cons.prems(4) Some False same by force
        then show "m \<in> set es \<union> set_option (Some k)" using Cons.prems(3) Some by auto
      qed (use Cons.prems Some in auto)
      then show ?thesis using Some e False same by (auto simp: parseEventRow_event_row)
    qed
  qed
qed

text \<open>The scan for every task at once.\<close>

definition newest_in :: "task_lifecycle_event set \<Rightarrow> task_lifecycle_event \<Rightarrow> bool" where
  "newest_in S e \<longleftrightarrow> e \<in> S \<and> (\<forall>x \<in> S. ev_taskId x = ev_taskId e \<longrightarrow> ev_monotonicSequence x \<le> ev_monotonicSequence e)"

definition newest_map :: "task_lifecycle_event set \<Rightarrow> (string, json) jsmap \<Rightarrow> bool" where
  "newest_map S m \<longleftrightarrow> js_wf m \<and> (\<forall>x \<in> S. js_get m (ev_taskId x) \<noteq> None) \<and>
     (\<forall>t j. js_get m t = Some j \<longrightarrow> (\<exists>e. newest_in S e \<and> ev_taskId e = t \<and> j = enc_event e))"

lemma newest_mapD:
  "newest_map S m \<Longrightarrow> js_get m t = Some j \<Longrightarrow> \<exists>e. newest_in S e \<and> ev_taskId e = t \<and> j = enc_event e"
  unfolding newest_map_def by blast

lemma newest_map_set:
  assumes "newest_map S m" and "\<And>x. x \<in> S \<Longrightarrow> ev_taskId x = ev_taskId e \<Longrightarrow> ev_monotonicSequence x \<le> ev_monotonicSequence e"
  shows "newest_map (insert e S) (js_set m (ev_taskId e) (enc_event e))"
proof -
  have "newest_in (insert e S) e" using assms(2) by (auto simp: newest_in_def)
  moreover have "\<exists>x. newest_in (insert e S) x \<and> ev_taskId x = t \<and> j = enc_event x"
    if j: "js_get m t = Some j" and t: "t \<noteq> ev_taskId e" for t j
  proof -
    obtain x where "newest_in S x" "ev_taskId x = t" "j = enc_event x" using newest_mapD [OF assms(1) j] by blast
    with t show ?thesis by (auto simp: newest_in_def)
  qed
  ultimately show ?thesis using assms(1) by (auto simp: newest_map_def)
qed

lemma newest_map_skip:
  assumes "newest_map S m" and "js_get m (ev_taskId e) = Some (enc_event l)" and "ev_monotonicSequence e \<le> ev_monotonicSequence l"
  shows "newest_map (insert e S) m"
proof -
  have "\<exists>x. newest_in (insert e S) x \<and> ev_taskId x = t \<and> j = enc_event x" if j: "js_get m t = Some j" for t j
  proof -
    obtain x where x: "newest_in S x" "ev_taskId x = t" "j = enc_event x" using newest_mapD [OF assms(1) j] by blast
    have "ev_monotonicSequence e \<le> ev_monotonicSequence x" if "ev_taskId e = t"
    proof -
      have "enc_event x = enc_event l" using j assms(2) that x(3) by simp
      then show ?thesis using assms(3) by (metis event_of_enc)
    qed
    with x show ?thesis by (auto simp: newest_in_def)
  qed
  then show ?thesis using assms(1,2) by (auto simp: newest_map_def)
qed

lemma collect_latest_correct:
  assumes "\<forall>e \<in> set es. wf_event e" and "inj_on ev_monotonicSequence (set es \<union> set seen)" and "newest_map (set seen) latest"
  shows "\<exists>m. collect_latest latest (map enc_event seen) (map event_row es) = Some (m, map enc_event (seen @ es)) \<and>
     newest_map (set (seen @ es)) m"
  using assms
proof (induction es arbitrary: latest seen)
  case (Cons e es)
  have wf: "wf_event e" using Cons.prems(1) by simp
  have inj: "inj_on ev_monotonicSequence (set es \<union> set (seen @ [e]))" using Cons.prems(2) by (rule inj_on_subset) auto
  have go: ?case if "collect_latest latest (map enc_event seen) (map event_row (e # es))
        = collect_latest latest' (map enc_event (seen @ [e])) (map event_row es)"
      "newest_map (insert e (set seen)) latest'" for latest'
    using Cons.IH [of "seen @ [e]" latest', OF _ inj] Cons.prems(1) that by auto
  show ?case
  proof (cases "js_get latest (ev_taskId e)")
    case None
    then have "ev_taskId x \<noteq> ev_taskId e" if "x \<in> set seen" for x
      using Cons.prems(3) that unfolding newest_map_def by metis
    then have "newest_map (insert e (set seen)) (js_set latest (ev_taskId e) (enc_event e))"
      by (intro newest_map_set [OF Cons.prems(3)]) auto
    then show ?thesis using None wf by (intro go) (simp_all add: parseEventRow_event_row Let_def)
  next
    case (Some j)
    then obtain l where l: "newest_in (set seen) l" "ev_taskId l = ev_taskId e" "j = enc_event l"
      using Cons.prems(3) unfolding newest_map_def by metis
    have same: "e = l" if "ev_monotonicSequence e = ev_monotonicSequence l"
      using inj_onD [OF Cons.prems(2) that] l(1) by (simp add: newest_in_def)
    show ?thesis
    proof (cases "ev_monotonicSequence e > ev_monotonicSequence l")
      case True
      then have "newest_map (insert e (set seen)) (js_set latest (ev_taskId e) (enc_event e))"
        using l by (intro newest_map_set [OF Cons.prems(3)]) (force simp: newest_in_def)
      then show ?thesis using Some True l(3) wf by (intro go) (simp_all add: parseEventRow_event_row Let_def)
    next
      case False
      then have "newest_map (insert e (set seen)) latest"
        using Some l by (intro newest_map_skip [OF Cons.prems(3), of e l]) auto
      then show ?thesis using Some False l(3) wf same
        by (intro go [of latest]) (auto simp: parseEventRow_event_row Let_def)
    qed
  qed
qed simp

lemma assertUnique_correct:
  assumes "inj_on ev_monotonicSequence S" and "set es \<subseteq> S"
    and "\<And>n i. js_get owners n = Some i \<Longrightarrow> \<exists>e \<in> S. ev_monotonicSequence e = n \<and> ev_eventId e = i"
  shows "assertUniqueJournalSequences owners (map enc_event es)"
  using assms(2,3)
proof (induction es arbitrary: owners)
  case (Cons e es)
  have e: "e \<in> S" using Cons.prems(1) by simp
  have own: "i = ev_eventId e" if "js_get owners (ev_monotonicSequence e) = Some i" for i
    using Cons.prems(2) [OF that] assms(1) e by (auto dest: inj_onD)
  have "assertUniqueJournalSequences (js_set owners (ev_monotonicSequence e) (ev_eventId e)) (map enc_event es)"
    using Cons.prems e by (intro Cons.IH) (auto split: if_splits)
  then show ?case using own by (auto simp: Let_def split: option.split)
qed simp

section \<open>The relation\<close>

definition no_nul :: "string \<Rightarrow> bool" where
  "no_nul s \<longleftrightarrow> CHR 0x00 \<notin> set s"

lemma nul_key_inj:
  assumes "no_nul t" "no_nul t'" "t @ CHR 0x00 # g = t' @ CHR 0x00 # g'"
  shows "t = t' \<and> g = g'"
proof -
  have "takeWhile (\<lambda>c. c \<noteq> CHR 0x00) (x @ CHR 0x00 # y) = x" if "no_nul x" for x y
    using that by (subst takeWhile_append2) (auto simp: no_nul_def)
  then have "t = t'" using assms by metis
  with assms(3) show ?thesis by simp
qed

text \<open>A record row under its own key; what the row says of its task is free.\<close>

definition record_row_ok :: "string \<Rightarrow> sql_row \<Rightarrow> bool" where
  "record_row_ok k row \<longleftrightarrow> (\<exists>t g. js_get row ''taskId'' = Some (V_text t) \<and> js_get row ''generationId'' = Some (V_text g) \<and>
     no_nul t \<and> k = t @ CHR 0x00 # g)"

definition records_ok :: "(string \<Rightarrow> sql_row option) \<Rightarrow> bool" where
  "records_ok m \<longleftrightarrow> (\<forall>k row. m k = Some row \<longrightarrow> record_row_ok k row)"

definition journal_events :: "lifecycle_store \<Rightarrow> task_lifecycle_event set" where
  "journal_events s = set (js_values (st_eventsByIntent s))"

definition highest :: "lifecycle_store \<Rightarrow> int" where
  "highest s = Max (insert 0 (ev_monotonicSequence ` journal_events s))"

definition counter_row :: "int \<Rightarrow> sql_row" where
  "counter_row v = [(''id'', V_num 1), (''value'', V_num v)]"

definition counter_ok :: "lifecycle_store \<Rightarrow> (string \<Rightarrow> sql_row option) \<Rightarrow> bool" where
  "counter_ok s m \<longleftrightarrow> (m = Map.empty \<and> st_sequence s = highest s) \<or>
     (\<exists>v. m = [''1'' \<mapsto> counter_row v] \<and> 0 \<le> v \<and> st_sequence s = max v (highest s))"

definition ids_ok :: "lifecycle_store \<Rightarrow> bool" where
  "ids_ok s \<longleftrightarrow> (\<forall>r \<in> set (js_values (st_records s)). no_nul (tr_taskId r))"

definition sql_rel ::
  "('t \<Rightarrow> string \<Rightarrow> sql_row option) \<Rightarrow> lifecycle_store \<Rightarrow> 't lifecycle_db \<Rightarrow> bool" where
  "sql_rel kv s db \<longleftrightarrow> ids_ok s \<and> kv (db_events db) = (\<lambda>k. map_option event_row (store_loadEvent s k)) \<and>
     records_ok (kv (db_records db)) \<and> counter_ok s (kv (db_sequence db))"

text \<open>The rows of a task in the record table.\<close>

definition task_rows :: "(string \<Rightarrow> sql_row option) \<Rightarrow> string \<Rightarrow> (string \<times> sql_row) set" where
  "task_rows m t = {(k, row). m k = Some row \<and> js_get row ''taskId'' = Some (V_text t)}"

definition projects :: "(string \<Rightarrow> sql_row option) \<Rightarrow> task_lifecycle_record \<Rightarrow> bool" where
  "projects m r \<longleftrightarrow> (\<exists>k row. task_rows m (tr_taskId r) = {(k, row)} \<and>
     js_get row ''generationId'' = Some (V_text (tr_generationId r)) \<and>
     js_get row ''lifecycleRevision'' = Some (V_num (tr_lifecycleRevision r)))"

lemma keyFor_record:
  "js_get row ''taskId'' = Some (V_text t) \<Longrightarrow> js_get row ''generationId'' = Some (V_text g) \<Longrightarrow>
     keyFor E ''task_lifecycle_records'' row = t @ CHR 0x00 # g"
  by (simp add: keyFor_def PRIMARY_KEYS_def sql_String_def)

lemma keyFor_counter [simp]: "keyFor E ''task_lifecycle_sequence'' (counter_row v) = ''1''"
proof -
  have "show_int 1 = ''1''" by code_simp
  then show ?thesis by (simp add: keyFor_def PRIMARY_KEYS_def sql_String_def counter_row_def)
qed

lemma records_own_keys: "records_ok m \<Longrightarrow> own_keys E ''task_lifecycle_records'' m"
  unfolding own_keys_def records_ok_def record_row_ok_def using keyFor_record by metis

text \<open>What a reachable journal says of its events, the part the scans need: a record is the work of its task's last event.\<close>

definition journal_ordered :: "lifecycle_store \<Rightarrow> bool" where
  "journal_ordered s \<longleftrightarrow> (\<forall>e \<in> journal_events s. \<forall>r. js_get (st_records s) (ev_taskId e) = Some r \<longrightarrow>
     ev_monotonicSequence e \<le> tr_monotonicSequence r)"

lemma journal_events_facts:
  assumes "journal_inv s"
  shows "e \<in> journal_events s \<Longrightarrow> wf_event e" "inj_on ev_monotonicSequence (journal_events s)"
    "e \<in> journal_events s \<Longrightarrow> js_get (st_records s) (ev_taskId e) \<noteq> None"
    "e \<in> journal_events s \<Longrightarrow> ev_monotonicSequence e \<le> st_sequence s"
    "e \<in> journal_events s \<Longrightarrow> store_loadEvent s (ev_eventId e) = Some e"
    "finite (journal_events s)"
proof -
  have e: "wf_journal_event s e" if "e \<in> journal_events s" for e
    using assms that by (auto simp: journal_inv_def journal_events_def)
  show "e \<in> journal_events s \<Longrightarrow> wf_event e" "e \<in> journal_events s \<Longrightarrow> js_get (st_records s) (ev_taskId e) \<noteq> None"
    "e \<in> journal_events s \<Longrightarrow> ev_monotonicSequence e \<le> st_sequence s"
    using e [of e] by (auto simp: wf_journal_event_def)
  show "e \<in> journal_events s \<Longrightarrow> store_loadEvent s (ev_eventId e) = Some e"
    unfolding journal_events_def by (rule loadEvent_unique [OF assms])
  have "inj_on (ev_monotonicSequence \<circ> snd) (set (st_eventsByIntent s))" using assms by (simp only: journal_inv_def)
  then show "inj_on ev_monotonicSequence (journal_events s)" by (auto simp: journal_events_def inj_on_def)
  show "finite (journal_events s)" by (simp add: journal_events_def)
qed

lemma loadEvent_in:
  assumes "store_loadEvent s k = Some e"
  shows "e \<in> journal_events s" "ev_eventId e = k"
proof -
  obtain i where "i < length (js_values (st_eventsByIntent s))" "e = js_values (st_eventsByIntent s) ! i" "ev_eventId e = k"
    using assms unfolding store_loadEvent_def find_Some_iff by blast
  then show "e \<in> journal_events s" "ev_eventId e = k" unfolding journal_events_def by (metis nth_mem)+
qed

lemma loadEvent_ran:
  assumes "journal_inv s"
  shows "ran (store_loadEvent s) = journal_events s"
proof
  show "ran (store_loadEvent s) \<subseteq> journal_events s" using loadEvent_in(1) by (fastforce simp: ran_def)
  show "journal_events s \<subseteq> ran (store_loadEvent s)" using journal_events_facts(5) [OF assms] by (blast intro: ranI)
qed

lemma newest_commits:
  assumes "journal_inv s" "journal_ordered s" "js_get (st_records s) t = Some r"
  obtains e where "e \<in> journal_events s" "ev_taskId e = t" "wf_event e" "event_commits e r"
    "\<And>x. x \<in> journal_events s \<Longrightarrow> ev_taskId x = t \<Longrightarrow> ev_monotonicSequence x \<le> ev_monotonicSequence e"
proof -
  have "tr_taskId r = t" "wf_stored s r" using journal_recordD [OF assms(1,3)] by simp_all
  then obtain e where e: "e \<in> journal_events s" "event_commits e r" by (auto simp: wf_stored_def journal_events_def)
  then have t: "ev_taskId e = t" using \<open>tr_taskId r = t\<close> by (simp add: event_commits_def)
  have wf: "wf_event e" using journal_events_facts(1) [OF assms(1)] e(1) by blast
  then have seq: "ev_monotonicSequence e = tr_monotonicSequence r"
    using e(2) by (simp add: wf_event_def event_commits_def)
  show thesis
  proof (rule that [OF e(1) t wf e(2)])
    fix x assume "x \<in> journal_events s" "ev_taskId x = t"
    then show "ev_monotonicSequence x \<le> ev_monotonicSequence e"
      using assms(2,3) seq by (simp add: journal_ordered_def)
  qed
qed

section \<open>Reads\<close>

context kv_table
begin

lemma event_rows:
  assumes "journal_inv s" "sql_rel kv s db"
  shows "ran (kv (db_events db)) = event_row ` journal_events s"
proof -
  have "kv (db_events db) = (\<lambda>k. map_option event_row (store_loadEvent s k))" using assms(2) by (simp add: sql_rel_def)
  then show ?thesis unfolding loadEvent_ran [OF assms(1), symmetric] by (auto simp: ran_def)
qed

lemma select_events:
  assumes "journal_inv s" "sql_rel kv s db"
  shows "\<exists>es. sql_select E preds (db_events db) = map event_row es \<and>
     set es = {e \<in> journal_events s. matchesRow preds (event_row e)}"
proof (rule rows_events)
  show "set (sql_select E preds (db_events db)) = event_row ` {e \<in> journal_events s. matchesRow preds (event_row e)}"
    unfolding set_select event_rows [OF assms] by auto
qed

lemma latestJournalEvent_correct:
  assumes inv: "journal_inv s" "journal_ordered s" and rel: "sql_rel kv s db"
  shows "js_get (st_records s) t = None \<Longrightarrow> latestJournalEvent E db t = Some None"
    and "js_get (st_records s) t = Some r \<Longrightarrow> \<exists>e. wf_event e \<and> event_commits e r \<and>
       latestJournalEvent E db t = Some (Some (enc_event e)) \<and> latestJournalRecord E db t = Some (Some (enc_record r))"
proof -
  obtain es where es: "sql_select E [(''taskId'', V_text t)] (db_events db) = map event_row es"
    "set es = {e \<in> journal_events s. ev_taskId e = t}"
    using select_events [OF inv(1) rel, of "[(''taskId'', V_text t)]"] by auto
  show "latestJournalEvent E db t = Some None" if "js_get (st_records s) t = None"
  proof -
    have "es = []" using es(2) journal_events_facts(3) [OF inv(1)] that by (metis (mono_tags, lifting) empty_iff mem_Collect_eq set_empty subsetI subset_empty)
    then show ?thesis unfolding latestJournalEvent_def es by simp
  qed
  assume r: "js_get (st_records s) t = Some r"
  obtain e where e: "e \<in> journal_events s" "ev_taskId e = t" "wf_event e" "event_commits e r"
    "\<And>x. x \<in> journal_events s \<Longrightarrow> ev_taskId x = t \<Longrightarrow> ev_monotonicSequence x \<le> ev_monotonicSequence e"
    using newest_commits [OF inv r] by metis
  have "latest_event t (map_option enc_event None) (map event_row es) = Some (Some (enc_event e))"
  proof (rule latest_event_correct)
    show "\<forall>e \<in> set es. wf_event e \<and> ev_taskId e = t" using es(2) journal_events_facts(1) [OF inv(1)] by auto
    show "inj_on ev_monotonicSequence (set es \<union> set_option None)"
      using journal_events_facts(2) [OF inv(1)] es(2) by (auto intro: inj_on_subset)
  qed (use e es(2) in auto)
  then have "latestJournalEvent E db t = Some (Some (enc_event e))" unfolding latestJournalEvent_def es by simp
  then show "\<exists>e. wf_event e \<and> event_commits e r \<and>
       latestJournalEvent E db t = Some (Some (enc_event e)) \<and> latestJournalRecord E db t = Some (Some (enc_record r))"
    using e by (auto simp: latestJournalRecord_def record_of_event_enc)
qed

lemma select_task_rows:
  assumes "records_ok (kv t)"
  shows "length (sql_select E [(''taskId'', V_text i)] t) = card (task_rows (kv t) i)"
    and "snd ` task_rows (kv t) i = set (sql_select E [(''taskId'', V_text i)] t)"
proof -
  show img: "snd ` task_rows (kv t) i = set (sql_select E [(''taskId'', V_text i)] t)"
    unfolding set_select by (force simp: task_rows_def ran_def)
  have keys: "distinct (map (keyFor E ''task_lifecycle_records'') (sql_select E [(''taskId'', V_text i)] t))"
    unfolding sql_select_def using distinct_keys [OF records_own_keys [OF assms]] by (simp add: distinct_map_filter)
  then have "distinct (sql_select E [(''taskId'', V_text i)] t)" by (simp add: distinct_map)
  moreover have "inj_on snd (task_rows (kv t) i)"
  proof (rule inj_onI)
    have own: "keyFor E ''task_lifecycle_records'' (snd x) = fst x" if "x \<in> task_rows (kv t) i" for x
      using that records_own_keys [OF assms, of E] by (auto simp: own_keys_def task_rows_def)
    fix p q assume pq: "p \<in> task_rows (kv t) i" "q \<in> task_rows (kv t) i" "snd p = snd q"
    then have "fst p = fst q" using own by metis
    then show "p = q" using pq(3) by (metis prod.collapse)
  qed
  ultimately show "length (sql_select E [(''taskId'', V_text i)] t) = card (task_rows (kv t) i)"
    using img distinct_card card_image by metis
qed

lemma records_delete:
  fixes i :: string
  assumes "records_ok (kv t)"
  defines "t' \<equiv> fst (sql_delete E ''task_lifecycle_records'' [(''taskId'', V_text i)] t)"
  shows "records_ok (kv t')" "task_rows (kv t') i = {}" "i' \<noteq> i \<Longrightarrow> task_rows (kv t') i' = task_rows (kv t) i'"
proof -
  have kv': "kv t' k = Some row \<longleftrightarrow> kv t k = Some row \<and> js_get row ''taskId'' \<noteq> Some (V_text i)" for k row
    unfolding t'_def delete_kv [OF records_own_keys [OF assms(1)]] by (auto split: option.splits)
  show "records_ok (kv t')" using assms(1) kv' by (simp add: records_ok_def)
  show "task_rows (kv t') i = {}" by (simp add: task_rows_def kv')
  show "i' \<noteq> i \<Longrightarrow> task_rows (kv t') i' = task_rows (kv t) i'" by (auto simp: task_rows_def kv')
qed

lemma record_row_columns [simp]:
  "js_get (record_row (enc_record r)) ''taskId'' = Some (V_text (tr_taskId r))"
  "js_get (record_row (enc_record r)) ''generationId'' = Some (V_text (tr_generationId r))"
  "js_get (record_row (enc_record r)) ''lifecycleRevision'' = Some (V_num (tr_lifecycleRevision r))"
  by (simp_all add: record_row_def)

text \<open>A row for a task without one.\<close>

lemma insert_record:
  fixes r :: task_lifecycle_record
  assumes "records_ok (kv t)" "no_nul (tr_taskId r)" "task_rows (kv t) (tr_taskId r) = {}"
  defines "ins \<equiv> sql_insert E Or_fail ''task_lifecycle_records'' (record_row (enc_record r)) t"
  shows "snd ins = 1" "records_ok (kv (fst ins))" "projects (kv (fst ins)) r"
    "i \<noteq> tr_taskId r \<Longrightarrow> task_rows (kv (fst ins)) i = task_rows (kv t) i"
proof -
  let ?row = "record_row (enc_record r)" and ?k = "tr_taskId r @ CHR 0x00 # tr_generationId r"
  have key: "keyFor E ''task_lifecycle_records'' ?row = ?k" by (rule keyFor_record) simp_all
  have none: "kv t ?k = None"
  proof (rule ccontr)
    assume "kv t ?k \<noteq> None"
    then obtain row where row: "kv t ?k = Some row" by auto
    then have "record_row_ok ?k row" using assms(1) by (simp add: records_ok_def)
    then have "js_get row ''taskId'' = Some (V_text (tr_taskId r))"
      unfolding record_row_ok_def using nul_key_inj [OF assms(2)] by metis
    then show False using row assms(3) by (auto simp: task_rows_def)
  qed
  note ins = insert_fresh [OF records_own_keys [OF assms(1)], where row = "?row" and mode = Or_fail, unfolded key, OF none, folded ins_def]
  show "snd ins = 1" by (rule ins(1))
  have "record_row_ok ?k ?row" using assms(2) by (simp add: record_row_ok_def)
  then show "records_ok (kv (fst ins))" using assms(1) by (simp add: ins(2) records_ok_def)
  have "task_rows (kv (fst ins)) (tr_taskId r) = {(?k, ?row)}"
    using assms(3) none unfolding ins(2) by (auto simp: task_rows_def split: if_splits)
  then show "projects (kv (fst ins)) r" by (auto simp: projects_def)
  show "i \<noteq> tr_taskId r \<Longrightarrow> task_rows (kv (fst ins)) i = task_rows (kv t) i"
    using none unfolding ins(2) by (auto simp: task_rows_def split: if_splits)
qed

lemma persist_correct:
  assumes "records_ok (kv (db_records db))" "no_nul (tr_taskId r)"
  shows "\<exists>t. persistRecordProjection E (enc_record r) db = (db\<lparr>db_records := t\<rparr>, True) \<and> records_ok (kv t) \<and>
     projects (kv t) r \<and> (\<forall>i. i \<noteq> tr_taskId r \<longrightarrow> task_rows (kv t) i = task_rows (kv (db_records db)) i)"
proof -
  note del = records_delete [OF assms(1), where i = "tr_taskId r"]
  note ins = insert_record [OF del(1) assms(2) del(2)]
  show ?thesis
    using ins del(3) by (auto simp: persistRecordProjection_def Let_def split_beta intro!: exI)
qed

text \<open>A projection that matches the journal holds the generation and revision of the record.\<close>

lemma matching_projection:
  assumes "records_ok (kv (db_records db))" "projection_matches (read_projection E db (tr_taskId r)) (enc_event e)"
    and "event_commits e r"
  shows "projects (kv (db_records db)) r"
proof -
  let ?rows = "sql_select E [(''taskId'', V_text (tr_taskId r))] (db_records db)"
  have "length ?rows = 1" using assms(2) by (simp add: projection_matches_def read_projection_def Let_def)
  then obtain row where rows: "?rows = [row]" by (auto simp: length_Suc_conv)
  have "card (task_rows (kv (db_records db)) (tr_taskId r)) = 1"
    using select_task_rows(1) [OF assms(1), of "tr_taskId r"] rows by simp
  then obtain k row' where tr: "task_rows (kv (db_records db)) (tr_taskId r) = {(k, row')}"
    by (metis card_1_singletonE prod.collapse)
  then have "row' = row" using select_task_rows(2) [OF assms(1), of "tr_taskId r"] rows by simp
  obtain j where j: "parseRecordRow row = Some j" "isTaskLifecycleEventForRecord (Some (enc_event e)) (Some j)"
    using assms(2) rows
    by (auto simp: projection_matches_def read_projection_def Let_def project_row_def split: option.splits)
  then have "js_get row ''generationId'' = Some (V_text (tr_generationId r))"
    "js_get row ''lifecycleRevision'' = Some (V_num (tr_lifecycleRevision r))"
    using assms(3)
    by (auto simp: parseRecordRow_def isTaskLifecycleEventForRecord_def event_commits_def enc_simps
        split: option.splits sql_value.splits if_splits)
  then show ?thesis using tr \<open>row' = row\<close> by (auto simp: projects_def)
qed

text \<open>What a read of a task does to the tables.\<close>

definition read_effect :: "lifecycle_store \<Rightarrow> string \<Rightarrow> 't lifecycle_db \<Rightarrow> 't lifecycle_db \<Rightarrow> bool" where
  "read_effect s t db db' \<longleftrightarrow> sql_rel kv s db' \<and>
     (case js_get (st_records s) t of None \<Rightarrow> task_rows (kv (db_records db')) t = {}
      | Some r \<Rightarrow> projects (kv (db_records db')) r) \<and>
     (\<forall>i. i \<noteq> t \<longrightarrow> task_rows (kv (db_records db')) i = task_rows (kv (db_records db)) i)"

lemma readAuthoritativeRecord_correct:
  assumes inv: "journal_inv s" "journal_ordered s" and rel: "sql_rel kv s db"
  shows "\<exists>db'. readAuthoritativeRecord E t db = (Returned (map_option enc_record (js_get (st_records s) t)), db') \<and>
     read_effect s t db db'"
proof (cases "js_get (st_records s) t")
  case None
  note j = latestJournalEvent_correct(1) [OF inv rel None]
  have ok: "records_ok (kv (db_records db))" using rel by (simp add: sql_rel_def)
  let ?n = "pj_rowCount (read_projection E db t)"
  have n: "?n = length (sql_select E [(''taskId'', V_text t)] (db_records db))" by (simp add: read_projection_def Let_def)
  have "task_rows (kv (db_records db)) t = {}" if "\<not> ?n > 0"
    using that select_task_rows(2) [OF ok, of t] n by auto
  then show ?thesis
    using j None rel records_delete [OF ok, where i = t]
    by (auto simp: readAuthoritativeRecord_def Let_def latestJournalRecord_def read_effect_def drop_projection_def sql_rel_def)
next
  case (Some r)
  have t: "tr_taskId r = t" using journal_recordD(1) [OF inv(1) Some] .
  have ok: "records_ok (kv (db_records db))" and "ids_ok s" using rel by (simp_all add: sql_rel_def)
  then have nul: "no_nul (tr_taskId r)" using map_of_SomeD [OF Some] by (force simp: ids_ok_def)
  obtain e where e: "event_commits e r" "latestJournalEvent E db t = Some (Some (enc_event e))"
    "latestJournalRecord E db t = Some (Some (enc_record r))"
    using latestJournalEvent_correct(2) [OF inv rel Some] by auto
  show ?thesis
  proof (cases "projection_matches (read_projection E db t) (enc_event e)")
    case True
    then have "projects (kv (db_records db)) r" using matching_projection [OF ok _ e(1)] t by simp
    then show ?thesis
      using True e rel Some by (simp add: readAuthoritativeRecord_def Let_def read_effect_def)
  next
    case False
    then show ?thesis
      using persist_correct [OF ok nul] e rel Some t
      by (auto simp: readAuthoritativeRecord_def Let_def read_effect_def sql_rel_def)
  qed
qed

lemma readOrRepair_eq: "readOrRepairAuthoritativeRecord E t db = readAuthoritativeRecord E t db"
  by (auto simp: readOrRepairAuthoritativeRecord_def readAuthoritativeRecord_def latestJournalRecord_def Let_def
      split: option.split)

section \<open>Constraints\<close>

lemma read_parent_correct:
  assumes "journal_inv s" "journal_ordered s" "sql_rel kv s db"
  shows "\<exists>db'. read_parent E link db = (Returned (js_get (st_records s) (pl_taskId link)), db') \<and> sql_rel kv s db' \<and>
     (\<forall>i. i \<noteq> pl_taskId link \<longrightarrow> task_rows (kv (db_records db')) i = task_rows (kv (db_records db)) i)"
proof -
  obtain db' where "readAuthoritativeRecord E (pl_taskId link) db
      = (Returned (map_option enc_record (js_get (st_records s) (pl_taskId link))), db')"
    "read_effect s (pl_taskId link) db db'"
    using readAuthoritativeRecord_correct [OF assms] by blast
  then show ?thesis by (simp add: read_parent_def read_effect_def option.map_comp comp_def option.map_ident)
qed

lemma parent_constraints_correct:
  assumes "journal_inv s" "journal_ordered s" "sql_rel kv s db" and link: "attached_to r = Some link"
  shows "\<exists>db'. parent_constraints E link r e db =
       (Returned (register_blocked s r e \<or> attachedParentConstraint r e (parent_record s r) \<noteq> None \<or> completion_blocked s r e), db') \<and>
     sql_rel kv s db' \<and> (\<forall>i. i \<noteq> pl_taskId link \<longrightarrow> task_rows (kv (db_records db')) i = task_rows (kv (db_records db)) i)"
proof -
  let ?p = "js_get (st_records s) (pl_taskId link)"
  have p: "parent_record s r = ?p"
    using link by (auto simp: parent_record_def attached_to_def split: option.splits if_splits)
  have reg: "register_blocked s r e \<longleftrightarrow> ev_transition e = Register_generation \<and> parent_refuses_register link ?p"
    using link by (auto simp: register_blocked_def parent_refuses_register_def split: option.splits)
  have com: "completion_blocked s r e \<longleftrightarrow> ev_transition e = Settle_completion \<and> parent_refuses_completion link ?p"
    using link by (auto simp: completion_blocked_def parent_refuses_completion_def split: option.splits)
  obtain d1 where d1: "read_parent E link db = (Returned ?p, d1)" "sql_rel kv s d1"
      "\<forall>i. i \<noteq> pl_taskId link \<longrightarrow> task_rows (kv (db_records d1)) i = task_rows (kv (db_records db)) i"
    using read_parent_correct [OF assms(1-3), of link] by blast
  obtain d2 where d2: "read_parent E link d1 = (Returned ?p, d2)" "sql_rel kv s d2"
      "\<forall>i. i \<noteq> pl_taskId link \<longrightarrow> task_rows (kv (db_records d2)) i = task_rows (kv (db_records d1)) i"
    using read_parent_correct [OF assms(1,2) d1(2), of link] by blast
  obtain d3 where d3: "read_parent E link d2 = (Returned ?p, d3)" "sql_rel kv s d3"
      "\<forall>i. i \<noteq> pl_taskId link \<longrightarrow> task_rows (kv (db_records d3)) i = task_rows (kv (db_records d2)) i"
    using read_parent_correct [OF assms(1,2) d2(2), of link] by blast
  show ?thesis
    unfolding p reg com using assms(3) d1 d2 d3
    by (cases "ev_transition e") (auto simp: parent_constraints_def)
qed

lemma those_map: "(\<And>x. x \<in> set xs \<Longrightarrow> f x = Some (g x)) \<Longrightarrow> those (map f xs) = Some (map g xs)"
  by (induction xs) auto

lemma latestJournalRecords_correct:
  assumes inv: "journal_inv s" "journal_ordered s" and rel: "sql_rel kv s db"
  shows "\<exists>rs. latestJournalRecords E db = Some (map enc_record rs) \<and> set rs = set (js_values (st_records s))"
proof -
  note facts = journal_events_facts [OF inv(1)]
  obtain es where es: "sql_select E [] (db_events db) = map event_row es" "set es = journal_events s"
    using select_events [OF inv(1) rel, of "[]"] by auto
  have "newest_map (set []) []" by (simp add: newest_map_def)
  moreover have "\<forall>e \<in> set es. wf_event e" "inj_on ev_monotonicSequence (set es \<union> set [])" using facts(1,2) es(2) by auto
  ultimately obtain m where m: "collect_latest [] [] (map event_row es) = Some (m, map enc_event es)"
      "newest_map (journal_events s) m"
    using collect_latest_correct [of es "[]" "[]"] es(2) by auto
  have unique: "assertUniqueJournalSequences [] (map enc_event es)"
    by (rule assertUnique_correct [OF facts(2)]) (simp_all add: es(2))
  define rec where "rec = (\<lambda>j. the (js_get (st_records s) (ev_taskId (event_of j))))"
  have wf: "js_wf m" using m(2) by (simp add: newest_map_def)
  have entry: "record_of_event j = Some (enc_record (rec j)) \<and> js_get (st_records s) t = Some (rec j)"
    if look: "js_get m t = Some j" for t j
  proof -
    obtain e where e: "newest_in (journal_events s) e" "ev_taskId e = t" "j = enc_event e"
      using newest_mapD [OF m(2) look] by blast
    then obtain r where r: "js_get (st_records s) t = Some r" using facts(3) by (auto simp: newest_in_def)
    obtain x where x: "x \<in> journal_events s" "ev_taskId x = t" "wf_event x" "event_commits x r"
      "\<And>y. y \<in> journal_events s \<Longrightarrow> ev_taskId y = t \<Longrightarrow> ev_monotonicSequence y \<le> ev_monotonicSequence x"
      using newest_commits [OF inv r] by metis
    have "ev_monotonicSequence e = ev_monotonicSequence x"
      using e x(1,2) x(5) [of e] by (auto simp: newest_in_def intro: order_antisym)
    then have "e = x" using facts(2) e(1) x(1) by (auto simp: newest_in_def dest: inj_onD)
    then show ?thesis using r x(3,4) e(2,3) by (simp add: rec_def record_of_event_enc)
  qed
  have vals: "\<exists>t. js_get m t = Some j" if "j \<in> set (js_values m)" for j
    using that js_get_Some_iff [OF wf] by auto
  have "those (map record_of_event (js_values m)) = Some (map (\<lambda>j. enc_record (rec j)) (js_values m))"
    using entry vals by (intro those_map) blast
  then have "latestJournalRecords E db = Some (map enc_record (map rec (js_values m)))"
    unfolding latestJournalRecords_def es m using unique by (simp add: comp_def)
  moreover have "set (map rec (js_values m)) = set (js_values (st_records s))"
  proof
    have "rec j \<in> set (js_values (st_records s))" if j: "j \<in> set (js_values m)" for j
    proof -
      obtain t where "js_get (st_records s) t = Some (rec j)" using vals [OF j] entry by blast
      from map_of_SomeD [OF this] show ?thesis by force
    qed
    then show "set (map rec (js_values m)) \<subseteq> set (js_values (st_records s))" by auto
    show "set (js_values (st_records s)) \<subseteq> set (map rec (js_values m))"
    proof
      fix r assume "r \<in> set (js_values (st_records s))"
      then obtain k where "(k, r) \<in> set (st_records s)" by auto
      then have k: "js_get (st_records s) k = Some r"
        using inv(1) js_get_Some_iff [of "st_records s"] by (simp add: journal_inv_def)
      obtain e where e: "e \<in> journal_events s" "ev_taskId e = k" using newest_commits [OF inv k] by metis
      then obtain j where j: "js_get m k = Some j" using m(2) by (auto simp: newest_map_def)
      from map_of_SomeD [OF this] have "j \<in> set (js_values m)" by force
      moreover have "rec j = r" using entry [OF j] k by simp
      ultimately show "r \<in> set (map rec (js_values m))" by force
    qed
  qed
  ultimately show ?thesis by blast
qed

lemma children_constraint_correct:
  assumes "journal_inv s" "journal_ordered s" "sql_rel kv s db"
  shows "children_constraint E r e db = Returned (activeChild s r e \<noteq> None)"
proof -
  obtain rs where rs: "latestJournalRecords E db = Some (map enc_record rs)" "set rs = set (js_values (st_records s))"
    using latestJournalRecords_correct [OF assms] by blast
  have "find (\<lambda>j. is_open_child t g (record_of j)) (map enc_record rs) \<noteq> None \<longleftrightarrow>
      find (is_open_child t g) (js_values (st_records s)) \<noteq> None" for t g
    using rs(2) by (auto simp: find_None_iff)
  then show ?thesis by (simp add: children_constraint_def activeChild_def rs(1) del: not_None_eq)
qed

lemma sql_constraints_correct:
  assumes "journal_inv s" "journal_ordered s" "sql_rel kv s db" "opt_ok (wf_parent (tr_taskId r)) (tr_parent r)"
  shows "\<exists>db'. sql_constraints E r e db =
       (Returned (register_blocked s r e \<or> attachedParentConstraint r e (parent_record s r) \<noteq> None \<or>
          completion_blocked s r e \<or> activeChild s r e \<noteq> None), db') \<and>
     sql_rel kv s db' \<and> task_rows (kv (db_records db')) (tr_taskId r) = task_rows (kv (db_records db)) (tr_taskId r)"
proof (cases "attached_to r")
  case None
  then have "\<not> register_blocked s r e" "attachedParentConstraint r e (parent_record s r) = None" "\<not> completion_blocked s r e"
    by (simp_all add: register_blocked_def attachedParentConstraint_def completion_blocked_def)
  then show ?thesis
    using None assms(3) children_constraint_correct [OF assms(1-3)] by (auto simp: sql_constraints_def)
next
  case (Some link)
  then have "pl_taskId link \<noteq> tr_taskId r"
    using assms(4) by (auto simp: attached_to_def wf_parent_def split: option.splits if_splits)
  then obtain db' where "parent_constraints E link r e db =
       (Returned (register_blocked s r e \<or> attachedParentConstraint r e (parent_record s r) \<noteq> None \<or> completion_blocked s r e), db')"
     "sql_rel kv s db'" "task_rows (kv (db_records db')) (tr_taskId r) = task_rows (kv (db_records db)) (tr_taskId r)"
    using parent_constraints_correct [OF assms(1-3) Some] by metis
  then show ?thesis
    using Some children_constraint_correct [OF assms(1,2)] by (auto simp: sql_constraints_def)
qed

end

end
