(* ===== verification/Sql_Commit.thy ===== *)
theory Sql_Commit
  imports Sql_Refinement
begin

text \<open>
  Commits of the durable journal: the counter behind the sequence numbers, the two rows a commit writes, and the
  refinement theorem. The hypotheses are those of the journal in memory, task identifiers without the separator of
  the composite keys, and a transition that leaves the generation alone; \<open>Sql_Regeneration\<close> shows what happens without it.
\<close>

declare map_of_eq_Some_iff [simp del]
declare Some_eq_map_of_iff [simp del]

section \<open>The journal is ordered\<close>

lemma journal_events_commit:
  assumes "committing s p r' e' s'"
  shows "journal_events s' = insert e' (journal_events s)"
  unfolding journal_events_def committing_lookup(2) [OF assms] by auto

lemma journal_ordered_commit:
  assumes com: "committing s p r' e' s'" and ord: "journal_ordered s"
  shows "journal_ordered s'"
proof -
  have inv: "journal_inv s" using com by (simp add: committing_def)
  note f = committing_fields [OF com]
  have "ev_monotonicSequence e \<le> tr_monotonicSequence r"
    if e: "e \<in> journal_events s'" and r: "js_get (st_records s') (ev_taskId e) = Some r" for e r
  proof (cases "ev_taskId e = tr_taskId r'")
    case True
    then have "r = r'" using r committing_lookup(1) [OF com] by simp
    moreover have "ev_monotonicSequence e \<le> st_sequence s + 1"
      using e f(9) journal_events_facts(4) [OF inv] unfolding journal_events_commit [OF com] by force
    ultimately show ?thesis using f(4) by simp
  next
    case False
    then have "e \<in> journal_events s" using e f(11) unfolding journal_events_commit [OF com] by auto
    then show ?thesis using ord r False committing_lookup(1) [OF com] by (simp add: journal_ordered_def)
  qed
  then show ?thesis by (simp add: journal_ordered_def)
qed

lemma reach_ordered: "reach lc_init lc_step sys \<Longrightarrow> journal_ordered (fst sys)"
proof (induction rule: reach.induct)
  case (reach_init sys)
  then show ?case by (simp add: lc_init_def empty_store_def journal_ordered_def journal_events_def)
next
  case (reach_step sys sys')
  have inv: "lc_inv sys" by (rule lc.reach_inv [OF reach_step.hyps(1)])
  from reach_step.hyps(2) show ?case
  proof cases
    case (lc_begin i s now eid r e P)
    then show ?thesis using reach_step.IH by simp
  next
    case (lc_finish p P s res s')
    from lc_finish(5) show ?thesis
    proof (cases rule: lc_finish_cases)
      case refused
      then show ?thesis using lc_finish reach_step.IH by simp
    next
      case (committed r' e')
      have "committing s p r' e' s'"
        using lc_finish_committing [of s P p r' e' s'] inv lc_finish committed by simp
      then show ?thesis using journal_ordered_commit reach_step.IH lc_finish by simp
    qed
  qed
qed

lemma store_commit_blocked:
  assumes "js_get (st_eventsByIntent s) (ev_intentId e) = None" "expectation_matches ex (js_get (st_records s) (tr_taskId r))"
    and "register_blocked s r e \<or> attachedParentConstraint r e (parent_record s r) \<noteq> None \<or>
         completion_blocked s r e \<or> activeChild s r e \<noteq> None"
  shows "store_commit s ex r e = (Commit_constraint_failed (js_get (st_records s) (tr_taskId r)), s)"
  using assms(3) unfolding store_commit_def Let_def assms(1) by (elim disjE) (simp_all add: assms(2))

text \<open>The parent link of a pending record.\<close>

lemma pending_wf_parent:
  assumes inv: "journal_inv s" and pok: "pending_ok s p"
    and cur: "js_get (st_records s) (in_taskId (pd_intent p)) = pd_current p"
  shows "opt_ok (wf_parent (tr_taskId (pd_record p))) (tr_parent (pd_record p))"
proof -
  from pok have ev: "evaluate (pd_current p) (pd_intent p) (pd_now p) (pd_eventId p) = Inr (pd_record p, pd_event p)"
    and adm: "admission (pd_current p) (pd_intent p) = None" and wi: "wf_intent (pd_intent p)"
    by (simp_all add: pending_ok_def)
  from ev obtain ch where sw: "evaluate_switch (pd_current p) (pd_intent p) (pd_now p) = Inr ch"
    and r: "pd_record p = record_of_change (pd_current p) (pd_intent p) ch (pd_now p) (pd_eventId p)"
    by (rule evaluate_InrD)
  show ?thesis
  proof (cases "pd_current p")
    case None
    with adm obtain q where "in_type (pd_intent p) = RegisterGeneration q"
      by (auto simp: admission_None_iff split: task_lifecycle_intent_type.splits)
    then show ?thesis using evaluate_switch_cases [OF sw adm] wi None r by (auto simp: wf_intent_def)
  next
    case (Some c)
    then have "opt_ok (wf_parent (in_taskId (pd_intent p))) (tr_parent c)"
      using journal_recordD [OF inv cur [unfolded Some]] by (auto simp: wf_stored_def wf_record_def)
    moreover have "in_type (pd_intent p) \<noteq> RegisterGeneration q" for q using adm Some by (auto simp: admission_def)
    then have "ch_parent ch = tr_parent c"
      using evaluate_switch_cases [OF sw adm] Some by (cases "in_type (pd_intent p)") auto
    ultimately show ?thesis using r by simp
  qed
qed

section \<open>The counter\<close>

lemma highest_sequence_correct:
  assumes "set es = journal_events s"
  shows "highest_sequence (map enc_event es) = highest s"
proof -
  have "fold (\<lambda>j m. max m (ev_monotonicSequence (event_of j))) (map enc_event es) n =
      fold max (map ev_monotonicSequence es) n" for n
    by (induction es arbitrary: n) (simp_all add: max.commute)
  then have "highest_sequence (map enc_event es) = fold max (map ev_monotonicSequence es) 0"
    by (simp add: highest_sequence_def)
  also have "\<dots> = Max (set (0 # map ev_monotonicSequence es))" by (rule Max.set_eq_fold [symmetric])
  finally show ?thesis using assms by (simp add: highest_def)
qed

lemma highest_bounds:
  assumes "journal_inv s"
  shows "0 \<le> highest s" "highest s \<le> st_sequence s" "e \<in> journal_events s \<Longrightarrow> ev_monotonicSequence e \<le> highest s"
proof -
  note fin = journal_events_facts(6) [OF assms]
  show "0 \<le> highest s" "e \<in> journal_events s \<Longrightarrow> ev_monotonicSequence e \<le> highest s"
    using fin by (auto simp: highest_def)
  have "0 \<le> st_sequence s" using assms by (simp add: journal_inv_def)
  then show "highest s \<le> st_sequence s" using fin journal_events_facts(4) [OF assms] by (auto simp: highest_def)
qed

lemma highest_commit:
  assumes com: "committing s p r' e' s'"
  shows "highest s' = st_sequence s'"
proof -
  have inv: "journal_inv s" using com by (simp add: committing_def)
  have inv': "journal_inv s'" by (rule committing_journal_inv [OF com])
  have "ev_monotonicSequence e' = st_sequence s'"
    using committing_fields(9) [OF com] committing_lookup(4) [OF com] by simp
  then have "st_sequence s' \<le> highest s'"
    using highest_bounds(3) [OF inv', of e'] journal_events_commit [OF com] by simp
  with highest_bounds(2) [OF inv'] show ?thesis by simp
qed

context kv_table
begin

lemma single_row: "kv t = [k \<mapsto> row] \<Longrightarrow> kv_getAll E t = [row]"
proof -
  assume one: "kv t = [k \<mapsto> row]"
  obtain kvs where kvs: "distinct (map fst kvs)" "map snd kvs = kv_getAll E t" "map_of kvs = kv t" using kv_rows by blast
  have "(k', row') \<in> set kvs \<longleftrightarrow> k' = k \<and> row' = row" for k' row'
    using one kvs(1,3) map_of_eq_Some_iff [of kvs k' row'] by (auto split: if_splits)
  then have set: "set kvs = {(k, row)}" by auto
  moreover have "distinct kvs" using kvs(1) by (simp add: distinct_map)
  ultimately have "length kvs = 1" using distinct_card [of kvs] by simp
  then obtain x where "kvs = [x]" unfolding One_nat_def length_Suc_conv by blast
  then have "kvs = [(k, row)]" using set by simp
  then show ?thesis using kvs(2) by simp
qed

lemma no_rows: "kv t = Map.empty \<Longrightarrow> kv_getAll E t = []"
  using set_getAll [of t] by simp

lemma counter_table:
  assumes "kv (db_sequence db) = [''1'' \<mapsto> counter_row v]"
  shows "sequence_row E db = Some (Some (V_num v))"
    and "\<exists>t. update_sequence E (Set_param ''value'') [V_num h] db = (db\<lparr>db_sequence := t\<rparr>, 1) \<and> kv t = [''1'' \<mapsto> counter_row h]"
    and "\<exists>t. update_sequence E (Add_to ''value'' 1) [] db = (db\<lparr>db_sequence := t\<rparr>, 1) \<and> kv t = [''1'' \<mapsto> counter_row (v + 1)]"
proof -
  show "sequence_row E db = Some (Some (V_num v))"
    by (simp add: sequence_row_def sql_select_def single_row [OF assms] counter_row_def)
  have own: "own_keys E ''task_lifecycle_sequence'' (kv (db_sequence db))"
    unfolding assms by (auto simp: own_keys_def split: if_splits)
  have one: "kv (db_sequence db) ''1'' = Some (counter_row v)" "matchesRow [(''id'', V_num 1)] (counter_row v)"
    using assms by (simp_all add: counter_row_def)
  have uni: "k' = ''1''" if "kv (db_sequence db) k' = Some row'" for k' row'
    using that assms by (auto split: if_splits)
  note up = update_one [OF own one, OF uni]
  have upd: "\<exists>t. update_sequence E a ps db = (db\<lparr>db_sequence := t\<rparr>, 1) \<and> kv t = [''1'' \<mapsto> counter_row w]"
    if "fst (apply_assignments [a] ps (counter_row v) (counter_row v)) = counter_row w" for a ps w
    using up(1) [where as = "[a]" and params = ps] up(2) [where as = "[a]" and params = ps] that
    by (auto simp: update_sequence_def assms split_beta intro!: exI)
  show "\<exists>t. update_sequence E (Set_param ''value'') [V_num h] db = (db\<lparr>db_sequence := t\<rparr>, 1) \<and> kv t = [''1'' \<mapsto> counter_row h]"
    by (rule upd) (simp add: counter_row_def)
  show "\<exists>t. update_sequence E (Add_to ''value'' 1) [] db = (db\<lparr>db_sequence := t\<rparr>, 1) \<and> kv t = [''1'' \<mapsto> counter_row (v + 1)]"
    by (rule upd) (simp add: counter_row_def sql_number_def)
qed

lemma init_counter:
  assumes "kv (db_sequence db) = Map.empty"
  shows "\<exists>t. init_sequence E h db = db\<lparr>db_sequence := t\<rparr> \<and> kv t = [''1'' \<mapsto> counter_row h]"
proof -
  have row: "sequence_row E db = None" by (simp add: sequence_row_def sql_select_def no_rows [OF assms])
  have "own_keys E ''task_lifecycle_sequence'' (kv (db_sequence db))" by (simp add: assms own_keys_def)
  from insert_fresh(2) [OF this, where row = "counter_row h" and mode = Or_ignore]
  have "kv (fst (sql_insert E Or_ignore ''task_lifecycle_sequence'' (counter_row h) (db_sequence db))) = [''1'' \<mapsto> counter_row h]"
    by (simp add: assms)
  then show ?thesis unfolding init_sequence_def counter_row_def by (simp add: row) blast
qed

lemma init_counter_skip: "kv (db_sequence db) = [''1'' \<mapsto> counter_row v] \<Longrightarrow> init_sequence E h db = db"
  by (simp add: init_sequence_def counter_table(1))

lemma increment_correct:
  assumes "kv (db_sequence db) = [''1'' \<mapsto> counter_row v]" "0 \<le> v" "h \<le> v" "v < max_safe_integer"
  shows "\<exists>t. increment_sequence E h db = (Returned (v + 1), db\<lparr>db_sequence := t\<rparr>) \<and> kv t = [''1'' \<mapsto> counter_row (v + 1)]"
proof -
  obtain t where t: "update_sequence E (Add_to ''value'' 1) [] db = (db\<lparr>db_sequence := t\<rparr>, 1)"
    "kv t = [''1'' \<mapsto> counter_row (v + 1)]"
    using counter_table(3) [OF assms(1)] by blast
  then have "sequence_row E (db\<lparr>db_sequence := t\<rparr>) = Some (Some (V_num (v + 1)))" by (intro counter_table(1)) simp
  then show ?thesis using t assms(2-4) by (auto simp: increment_sequence_def safe_number_def)
qed

lemma reconcile_counter:
  assumes row: "kv (db_sequence db) = [''1'' \<mapsto> counter_row v]" and b: "0 \<le> v" "v \<le> max_safe_integer"
    and h: "0 \<le> h" "max v h < max_safe_integer"
  shows "\<exists>t. reconcile_sequence E h db = (Returned (max v h + 1), db\<lparr>db_sequence := t\<rparr>) \<and>
     kv t = [''1'' \<mapsto> counter_row (max v h + 1)]"
proof -
  have num: "safe_number (sequence_row E db) = Some v"
    using counter_table(1) [OF row] b by (simp add: safe_number_def)
  show ?thesis
  proof (cases "v < h")
    case True
    obtain t where t: "update_sequence E (Set_param ''value'') [V_num h] db = (db\<lparr>db_sequence := t\<rparr>, 1)"
      "kv t = [''1'' \<mapsto> counter_row h]"
      using counter_table(2) [OF row] by blast
    then have r: "sequence_row E (db\<lparr>db_sequence := t\<rparr>) = Some (Some (V_num h))" by (intro counter_table(1)) simp
    obtain t' where "increment_sequence E h (db\<lparr>db_sequence := t\<rparr>) = (Returned (h + 1), db\<lparr>db_sequence := t'\<rparr>)"
      "kv t' = [''1'' \<mapsto> counter_row (h + 1)]"
      using increment_correct [of "db\<lparr>db_sequence := t\<rparr>" h h] t(2) h by auto
    then show ?thesis
      using True num t r b by (auto simp: reconcile_sequence_def init_counter_skip [OF row] Let_def max_def)
  next
    case False
    then show ?thesis
      using increment_correct [OF row b(1), of h] h num b
      by (auto simp: reconcile_sequence_def init_counter_skip [OF row] Let_def max_def)
  qed
qed

lemma reconcile_empty:
  assumes "kv (db_sequence db) = Map.empty" "0 \<le> h" "h < max_safe_integer"
  shows "\<exists>t. reconcile_sequence E h db = (Returned (h + 1), db\<lparr>db_sequence := t\<rparr>) \<and> kv t = [''1'' \<mapsto> counter_row (h + 1)]"
proof -
  obtain t where t: "init_sequence E h db = db\<lparr>db_sequence := t\<rparr>" "kv t = [''1'' \<mapsto> counter_row h]"
    using init_counter [OF assms(1)] by blast
  have row: "kv (db_sequence (db\<lparr>db_sequence := t\<rparr>)) = [''1'' \<mapsto> counter_row h]" using t(2) by simp
  have eq: "reconcile_sequence E h db = reconcile_sequence E h (db\<lparr>db_sequence := t\<rparr>)"
    unfolding reconcile_sequence_def t(1) init_counter_skip [OF row] ..
  show ?thesis unfolding eq using reconcile_counter [OF row, of h] assms(2,3) by auto
qed

text \<open>The next sequence number is the one the journal in memory would take.\<close>

lemma next_sequence_correct:
  assumes inv: "journal_inv s" and rel: "sql_rel kv s db" and seq: "st_sequence s < max_safe_integer"
  shows "\<exists>t. next_sequence E db = (Returned (st_sequence s + 1), db\<lparr>db_sequence := t\<rparr>) \<and>
     kv t = [''1'' \<mapsto> counter_row (st_sequence s + 1)]"
proof -
  note facts = journal_events_facts [OF inv]
  obtain es where es: "sql_select E [] (db_events db) = map event_row es" "set es = journal_events s"
    using select_events [OF inv rel, of "[]"] by auto
  have parse: "those (map parseEventRow (map event_row es)) = Some (map enc_event es)"
    using facts(1) es(2) those_map [of es "parseEventRow \<circ> event_row" enc_event] by (simp add: parseEventRow_event_row)
  have unique: "assertUniqueJournalSequences [] (map enc_event es)"
    by (rule assertUnique_correct [OF facts(2)]) (simp_all add: es(2))
  have "valid_sequence (enc_event e)" if "wf_event e" for e
  proof -
    from that have "wf_counter (ev_monotonicSequence e)" unfolding wf_event_def by blast
    then show ?thesis by (simp add: valid_sequence_def wf_counter_def)
  qed
  then have valid: "list_all valid_sequence (map enc_event es)" using facts(1) es(2) by (simp add: list_all_iff)
  have next_eq: "next_sequence E db = reconcile_sequence E (highest s) db"
    unfolding next_sequence_def es parse using unique valid highest_sequence_correct [OF es(2)] by simp
  note hb = highest_bounds [OF inv]
  have "counter_ok s (kv (db_sequence db))" using rel by (simp add: sql_rel_def)
  then consider "kv (db_sequence db) = Map.empty" "st_sequence s = highest s"
    | v where "kv (db_sequence db) = [''1'' \<mapsto> counter_row v]" "0 \<le> v" "st_sequence s = max v (highest s)"
    by (auto simp: counter_ok_def)
  then show ?thesis
  proof cases
    case 1
    then show ?thesis unfolding next_eq using reconcile_empty [of db "highest s"] hb(1) seq by simp
  next
    case (2 v)
    then have "max v (highest s) < max_safe_integer" using seq by simp
    then show ?thesis unfolding next_eq 2(3) using 2(2) hb(1) by (intro reconcile_counter [OF 2(1)]) simp_all
  qed
qed

section \<open>The rows a commit writes\<close>

lemma write_record_present:
  assumes ok: "records_ok (kv (db_records db))" and proj: "projects (kv (db_records db)) c"
    and same: "tr_taskId r = tr_taskId c" "tr_generationId r = tr_generationId c"
  shows "\<exists>t. write_record E (Expect_at (tr_generationId c) (tr_lifecycleRevision c)) True r db = (db\<lparr>db_records := t\<rparr>, 1) \<and>
     records_ok (kv t)"
proof -
  let ?t = "db_records db"
  let ?preds = "[(''taskId'', V_text (tr_taskId r)), (''generationId'', V_text (tr_generationId c)),
     (''lifecycleRevision'', V_num (tr_lifecycleRevision c))]"
  obtain k row where row: "task_rows (kv ?t) (tr_taskId c) = {(k, row)}"
    "js_get row ''generationId'' = Some (V_text (tr_generationId c))"
    "js_get row ''lifecycleRevision'' = Some (V_num (tr_lifecycleRevision c))"
    using proj by (auto simp: projects_def)
  have k: "kv ?t k = Some row" "js_get row ''taskId'' = Some (V_text (tr_taskId c))" using row(1) by (auto simp: task_rows_def)
  have m: "matchesRow ?preds row" using row k(2) same by (simp add: matchesRow_def)
  have uni: "k' = k" if "kv ?t k' = Some row'" "matchesRow ?preds row'" for k' row'
  proof -
    have "(k', row') \<in> task_rows (kv ?t) (tr_taskId c)" using that same by (simp add: task_rows_def matchesRow_def)
    then show ?thesis unfolding row(1) by simp
  qed
  let ?as = "[Set_param ''generationId'', Set_param ''lifecycleRevision'', Set_param ''recordJson'', Set_param ''updatedAt'']"
    and ?ps = "[V_text (tr_generationId r), V_num (tr_lifecycleRevision r), V_json (enc_record r), V_num (tr_committedAt r)]"
  let ?new = "fst (apply_assignments ?as ?ps row row)"
  note up = update_one [OF records_own_keys [OF ok] k(1) m uni, where as = "?as" and params = "?ps"]
  have "record_row_ok k row" using ok k(1) by (simp add: records_ok_def)
  then have "record_row_ok k ?new" using k(2) row(2) same by (auto simp: record_row_ok_def)
  then have "records_ok ((kv ?t)(k \<mapsto> ?new))" using ok by (simp add: records_ok_def)
  then show ?thesis using up by (auto simp: write_record_def split_beta intro!: exI)
qed

lemma write_record_absent:
  assumes "records_ok (kv (db_records db))" "no_nul (tr_taskId r)" "task_rows (kv (db_records db)) (tr_taskId r) = {}"
  shows "\<exists>t. write_record E ex False r db = (db\<lparr>db_records := t\<rparr>, 1) \<and> records_ok (kv t)"
  using insert_record [OF assms] by (auto simp: write_record_def split_beta intro!: exI)

lemma write_event_fresh:
  assumes ev: "kv (db_events db) = (\<lambda>k. map_option event_row (store_loadEvent s k))"
    and fresh: "ev_eventId e \<notin> ev_eventId ` journal_events s"
  shows "\<exists>t. write_event E e db = (db\<lparr>db_events := t\<rparr>, 1) \<and> kv t = (kv (db_events db))(ev_eventId e \<mapsto> event_row e)"
proof -
  have own: "own_keys E ''task_lifecycle_events'' (kv (db_events db))"
    unfolding ev own_keys_def using loadEvent_in(2) by fastforce
  have "store_loadEvent s (ev_eventId e) = None"
  proof (rule ccontr)
    assume "store_loadEvent s (ev_eventId e) \<noteq> None"
    then obtain x where "store_loadEvent s (ev_eventId e) = Some x" by blast
    from loadEvent_in [OF this] show False using fresh by (metis imageI)
  qed
  then have "kv (db_events db) (keyFor E ''task_lifecycle_events'' (event_row e)) = None" by (simp add: ev)
  from insert_fresh [OF own this, where mode = Or_fail] show ?thesis
    by (auto simp: write_event_def split_beta intro!: exI)
qed

section \<open>A commit refines a commit\<close>

lemma intent_rows:
  assumes inv: "journal_inv s" and rel: "sql_rel kv s db"
  shows "js_get (st_eventsByIntent s) i = None \<Longrightarrow> sql_select E [(''intentId'', V_text i)] (db_events db) = []"
    and "js_get (st_eventsByIntent s) i = Some e \<Longrightarrow>
       \<exists>rest. sql_select E [(''intentId'', V_text i)] (db_events db) = event_row e # rest"
proof -
  obtain es where es: "sql_select E [(''intentId'', V_text i)] (db_events db) = map event_row es"
    "set es = {e \<in> journal_events s. ev_intentId e = i}"
    using select_events [OF inv rel, of "[(''intentId'', V_text i)]"] by auto
  have wf: "js_wf (st_eventsByIntent s)" using inv by (simp add: journal_inv_def)
  have found: "x \<in> journal_events s \<and> ev_intentId x = i \<longleftrightarrow> js_get (st_eventsByIntent s) i = Some x" for x
  proof
    assume x: "x \<in> journal_events s \<and> ev_intentId x = i"
    then obtain k where k: "(k, x) \<in> set (st_eventsByIntent s)" by (auto simp: journal_events_def)
    then have "js_get (st_eventsByIntent s) k = Some x" using js_get_Some_iff [OF wf] by simp
    moreover from this have "k = i" using journal_eventD(1) [OF inv] x by blast
    ultimately show "js_get (st_eventsByIntent s) i = Some x" by simp
  next
    assume x: "js_get (st_eventsByIntent s) i = Some x"
    show "x \<in> journal_events s \<and> ev_intentId x = i"
      using map_of_SomeD [OF x] journal_eventD(1) [OF inv x] by (force simp: journal_events_def)
  qed
  show "sql_select E [(''intentId'', V_text i)] (db_events db) = []" if "js_get (st_eventsByIntent s) i = None"
    using es found that by (cases es) auto
  assume e: "js_get (st_eventsByIntent s) i = Some e"
  have "set es = {e}" using es(2) found e by auto
  then obtain rest where "es = e # rest" by (cases es) auto
  then show "\<exists>rest. sql_select E [(''intentId'', V_text i)] (db_events db) = event_row e # rest" using es(1) by simp
qed

lemma typed_record [simp]: "map_option record_of (map_option enc_record x) = x"
  by (simp add: option.map_comp comp_def option.map_ident)

lemma write_commit_correct:
  assumes com: "committing s p r' e' s'" and rel: "sql_rel kv s db" and nul: "no_nul (tr_taskId r')"
    and same: "ev_transition e' \<noteq> Replace_generation"
    and cur: "case pd_current p of None \<Rightarrow> task_rows (kv (db_records db)) (tr_taskId r') = {} | Some c \<Rightarrow> projects (kv (db_records db)) c"
    and seq: "kv t = [''1'' \<mapsto> counter_row (st_sequence s + 1)]"
  shows "\<exists>db'. write_commit E (expectation_of (pd_current p)) (pd_current p) r' e' (db\<lparr>db_sequence := t\<rparr>) =
     (Returned (Commit_committed r' e'), db') \<and> sql_rel kv s' db'"
proof -
  let ?db = "db\<lparr>db_sequence := t\<rparr>"
  have inv: "journal_inv s" using com by (simp add: committing_def)
  have ok: "records_ok (kv (db_records ?db))" and ids: "ids_ok s" using rel by (simp_all add: sql_rel_def)
  obtain t1 where t1: "write_record E (expectation_of (pd_current p)) (pd_current p \<noteq> None) r' ?db = (?db\<lparr>db_records := t1\<rparr>, 1)"
    "records_ok (kv t1)"
  proof (cases "pd_current p")
    case None
    then show ?thesis using that write_record_absent [OF ok nul, of Expect_absent] cur by (auto simp: expectation_of_def)
  next
    case (Some c)
    have "tr_taskId r' = tr_taskId c" "tr_generationId r' = tr_generationId c"
      using committing_eval(6) [OF com Some] committing_fields(1) [OF com] committing_update(7) [OF com Some] same by auto
    then show ?thesis using that write_record_present [OF ok, of c r'] cur Some by (auto simp: expectation_of_def)
  qed
  let ?db1 = "?db\<lparr>db_records := t1\<rparr>"
  have fresh: "ev_eventId e' \<notin> ev_eventId ` journal_events s"
    using com committing_fields(7) [OF com] by (simp add: committing_def journal_events_def)
  have ev: "kv (db_events db) = (\<lambda>k. map_option event_row (store_loadEvent s k))" using rel by (simp add: sql_rel_def)
  obtain t2 where t2: "write_event E e' ?db1 = (?db1\<lparr>db_events := t2\<rparr>, 1)"
    "kv t2 = (kv (db_events db))(ev_eventId e' \<mapsto> event_row e')"
    using write_event_fresh [where db = ?db1 and s = s and e = e'] ev fresh by auto
  have load: "store_loadEvent s' k = (if k = ev_eventId e' then Some e' else store_loadEvent s k)" for k
  proof (cases "k = ev_eventId e'")
    case True
    then show ?thesis
      using journal_events_facts(5) [OF committing_journal_inv [OF com], of e'] journal_events_commit [OF com] by simp
  next
    case False
    have append: "find P (xs @ [x]) = find P xs" if "\<not> P x" for P :: "task_lifecycle_event \<Rightarrow> bool" and xs x
      using that by (induction xs) auto
    from False show ?thesis unfolding store_loadEvent_def committing_lookup(2) [OF com] by (simp add: append)
  qed
  have "ids_ok s'" using ids nul committing_lookup(6) [OF com] by (auto simp: ids_ok_def)
  moreover have "kv t2 = (\<lambda>k. map_option event_row (store_loadEvent s' k))"
    unfolding t2(2) ev by (auto simp: load)
  moreover have "counter_ok s' (kv t)"
    using seq highest_commit [OF com] committing_lookup(4) [OF com] inv by (auto simp: counter_ok_def journal_inv_def)
  ultimately have "sql_rel kv s' (?db1\<lparr>db_events := t2\<rparr>)" using t1(2) by (simp add: sql_rel_def)
  then show ?thesis using t1(1) t2(1) by (simp add: write_commit_def)
qed

lemma sql_commit_correct:
  assumes inv: "lc_inv (s, P)" and ord: "journal_ordered s" and rel: "sql_rel kv s db" and p: "p \<in> set P"
    and seq: "st_sequence s < max_safe_integer" and nul: "no_nul (tr_taskId (pd_record p))"
    and same: "ev_transition (pd_event p) \<noteq> Replace_generation"
    and commit: "store_commit s (expectation_of (pd_current p)) (pd_record p) (pd_event p) = (res, s')"
  shows "\<exists>db'. sql_commit E (expectation_of (pd_current p)) (pd_record p) (pd_event p) db = (Returned res, db') \<and>
     sql_rel kv s' db'"
proof -
  let ?ex = "expectation_of (pd_current p)" and ?r = "pd_record p" and ?e = "pd_event p"
  let ?cur = "js_get (st_records s) (tr_taskId ?r)"
  have ji: "journal_inv s" and pok: "pending_ok s p" using inv p by (auto simp: lc_inv_def)
  show ?thesis
  proof (cases "js_get (st_eventsByIntent s) (ev_intentId ?e)")
    case (Some dup)
    obtain rest where rows: "sql_select E [(''intentId'', V_text (ev_intentId ?e))] (db_events db) = event_row dup # rest"
      using intent_rows(2) [OF ji rel Some] by blast
    have "wf_journal_event s dup" using journal_eventD [OF ji Some] by simp
    then have wf: "wf_event dup" and rec: "js_get (st_records s) (ev_taskId dup) \<noteq> None" by (auto simp: wf_journal_event_def)
    obtain db' where db': "readAuthoritativeRecord E (ev_taskId dup) db =
        (Returned (map_option enc_record (js_get (st_records s) (ev_taskId dup))), db')" "read_effect s (ev_taskId dup) db db'"
      using readAuthoritativeRecord_correct [OF ji ord rel] by blast
    then have "sql_rel kv s db'" by (simp add: read_effect_def)
    moreover have "s' = s" "res = (case js_get (st_records s) (ev_taskId dup) of
        None \<Rightarrow> Commit_compare_and_swap_failed None | Some x \<Rightarrow> Commit_duplicate_intent x dup)"
      using commit Some by (auto simp: store_commit_def Let_def split: option.splits)
    ultimately show ?thesis
      using rec by (auto simp: sql_commit_def rows parseEventRow_event_row [OF wf] db'(1))
  next
    case None
    note rows = intent_rows(1) [OF ji rel None]
    obtain db1 where db1: "readAuthoritativeRecord E (tr_taskId ?r) db = (Returned (map_option enc_record ?cur), db1)"
      "read_effect s (tr_taskId ?r) db db1"
      using readAuthoritativeRecord_correct [OF ji ord rel] by blast
    have rel1: "sql_rel kv s db1" using db1(2) by (simp add: read_effect_def)
    show ?thesis
    proof (cases "expectation_matches ?ex ?cur")
      case False
      then show ?thesis using commit None rel1
        by (auto simp: store_commit_def Let_def sql_commit_def rows db1(1) typed_record)
    next
      case True
      note cur = pending_current [OF pok True]
      let ?blocked = "register_blocked s ?r ?e \<or> attachedParentConstraint ?r ?e (parent_record s ?r) \<noteq> None \<or>
         completion_blocked s ?r ?e \<or> activeChild s ?r ?e \<noteq> None"
      obtain db2 where db2: "sql_constraints E ?r ?e db1 = (Returned ?blocked, db2)" "sql_rel kv s db2"
        "task_rows (kv (db_records db2)) (tr_taskId ?r) = task_rows (kv (db_records db1)) (tr_taskId ?r)"
        using sql_constraints_correct [OF ji ord rel1 pending_wf_parent [OF ji pok cur(1)]] by blast
      show ?thesis
      proof (cases ?blocked)
        case True
        then have "res = Commit_constraint_failed ?cur" "s' = s"
          using trans [OF commit [symmetric] store_commit_blocked [OF None \<open>expectation_matches ?ex ?cur\<close> True]]
          by (simp_all only: prod.inject)
        then show ?thesis using True db2 \<open>expectation_matches ?ex ?cur\<close>
          by (simp add: sql_commit_def rows db1(1) typed_record)
      next
        case False
        then have "commit_admitted s ?ex ?r ?e" using None True by (simp add: commit_admitted_def)
        note adm = commit [unfolded store_commit_admitted [OF this] Let_def withSequence_def prod.case, symmetric]
        let ?r' = "seq_record (st_sequence s + 1) ?r" and ?e' = "seq_event (st_sequence s + 1) ?e"
        have res: "res = Commit_committed ?r' ?e'" using adm by simp
        have com: "committing s p ?r' ?e' s'" using lc_finish_committing [OF inv p seq] commit res by simp
        obtain t where t: "next_sequence E db2 = (Returned (st_sequence s + 1), db2\<lparr>db_sequence := t\<rparr>)"
          "kv t = [''1'' \<mapsto> counter_row (st_sequence s + 1)]"
          using next_sequence_correct [OF ji db2(2) seq] by blast
        have same_cur: "?cur = pd_current p" using cur by simp
        have proj: "case pd_current p of None \<Rightarrow> task_rows (kv (db_records db2)) (tr_taskId ?r') = {}
            | Some c \<Rightarrow> projects (kv (db_records db2)) c"
        proof (cases "pd_current p")
          case None
          then show ?thesis using db1(2) db2(3) same_cur by (simp add: read_effect_def)
        next
          case (Some c)
          then have "tr_taskId c = tr_taskId ?r" using journal_recordD(1) [OF ji, of "tr_taskId ?r" c] same_cur by simp
          then show ?thesis using db1(2) db2(3) same_cur Some by (simp add: read_effect_def projects_def)
        qed
        obtain db' where "write_commit E ?ex (pd_current p) ?r' ?e' (db2\<lparr>db_sequence := t\<rparr>) = (Returned res, db')"
          "sql_rel kv s' db'"
          using write_commit_correct [OF com db2(2) _ _ proj t(2)] nul same res by auto
        then show ?thesis using False True db2(1) t(1)
          by (simp add: sql_commit_def rows db1(1) typed_record withSequence_def same_cur)
      qed
    qed
  qed
qed

section \<open>Reads\<close>

lemma sql_loadEvent_correct:
  assumes inv: "journal_inv s" and rel: "sql_rel kv s db"
  shows "sql_loadEvent E eid db = Returned (store_loadEvent s eid)"
proof -
  obtain es where es: "sql_select E [(''eventId'', V_text eid)] (db_events db) = map event_row es"
    "set es = {e \<in> journal_events s. ev_eventId e = eid}"
    using select_events [OF inv rel, of "[(''eventId'', V_text eid)]"] by auto
  show ?thesis
  proof (cases es)
    case Nil
    have "store_loadEvent s eid = None"
    proof (rule ccontr)
      assume "store_loadEvent s eid \<noteq> None"
      then obtain e where "store_loadEvent s eid = Some e" by blast
      from loadEvent_in [OF this] show False using es(2) Nil by auto
    qed
    then show ?thesis using es(1) Nil by (simp add: sql_loadEvent_def)
  next
    case (Cons e rest)
    then have e: "e \<in> journal_events s" "ev_eventId e = eid" using es(2) by auto
    have "wf_event e" "store_loadEvent s eid = Some e" using journal_events_facts(1,5) [OF inv e(1)] e(2) by simp_all
    then show ?thesis using es(1) Cons e(2) by (simp add: sql_loadEvent_def parseEventRow_event_row)
  qed
qed

lemma sql_reads_correct:
  assumes inv: "journal_inv s" "journal_ordered s" and rel: "sql_rel kv s db"
  shows "(\<exists>db'. sql_load E t db = (Returned (store_load s t), db') \<and> sql_rel kv s db' \<and>
       (case store_load s t of None \<Rightarrow> task_rows (kv (db_records db')) t = {} | Some r \<Rightarrow> projects (kv (db_records db')) r)) \<and>
     sql_loadEvent E eid db = Returned (store_loadEvent s eid) \<and>
     (\<exists>rs. sql_listAttachedChildren E link db = Returned rs \<and> set rs = set (listAttachedChildren s link))"
proof (intro conjI)
  obtain db' where "readAuthoritativeRecord E t db = (Returned (map_option enc_record (js_get (st_records s) t)), db')"
    "read_effect s t db db'"
    using readAuthoritativeRecord_correct [OF inv rel] by blast
  then show "\<exists>db'. sql_load E t db = (Returned (store_load s t), db') \<and> sql_rel kv s db' \<and>
       (case store_load s t of None \<Rightarrow> task_rows (kv (db_records db')) t = {} | Some r \<Rightarrow> projects (kv (db_records db')) r)"
    by (simp add: sql_load_def readOrRepair_eq store_load_def read_effect_def)
  show "sql_loadEvent E eid db = Returned (store_loadEvent s eid)" by (rule sql_loadEvent_correct [OF inv(1) rel])
  obtain rs where "latestJournalRecords E db = Some (map enc_record rs)" "set rs = set (js_values (st_records s))"
    using latestJournalRecords_correct [OF inv rel] by blast
  then show "\<exists>rs. sql_listAttachedChildren E link db = Returned rs \<and> set rs = set (listAttachedChildren s link)"
    by (auto simp: sql_listAttachedChildren_def listAttachedChildren_def comp_def)
qed

end

end
