(* ===== verification/Sql_Properties.thy ===== *)
theory Sql_Properties
  imports Sql_Commit
begin

text \<open>
  The properties of the durable journal: a commit is the commit of the journal in memory, and reads return what that
  journal holds and repair the projection.
\<close>

declare map_of_eq_Some_iff [simp del]
declare Some_eq_map_of_iff [simp del]

section \<open>Samples\<close>

definition registering :: pending_commit where
  "registering =
     (let i = sample_intent ''1'' ''a'' (RegisterGeneration None); c = projr (evaluate None i 0 ''x'')
      in \<lparr>pd_current = None, pd_intent = i, pd_now = 0, pd_eventId = ''x'', pd_record = fst c, pd_event = snd c\<rparr>)"

lemma registering_reach: "reach lc_init lc_step (empty_store, [registering])"
proof -
  let ?i = "sample_intent ''1'' ''a'' (RegisterGeneration None)"
  have i: "wf_intent ?i" by code_simp
  have a: "admission (store_load empty_store (in_taskId ?i)) ?i = None" by code_simp
  have "isl (evaluate None ?i 0 ''x'') = False" by code_simp
  then have "evaluate None ?i 0 ''x'' = Inr (projr (evaluate None ?i 0 ''x''))" by (cases "evaluate None ?i 0 ''x''") auto
  moreover have none: "store_load empty_store (in_taskId ?i) = None" by code_simp
  ultimately have e: "evaluate (store_load empty_store (in_taskId ?i)) ?i 0 ''x'' =
      Inr (pd_record registering, pd_event registering)" by (simp add: registering_def Let_def)
  have f: "''x'' \<notin> known_event_ids (empty_store, [])" by (simp add: known_event_ids_def empty_store_def)
  have "non_blank ''x''" by code_simp
  from lc_begin [OF i a e this f] have "lc_step (empty_store, []) (empty_store, [registering])"
    unfolding none by (simp add: registering_def Let_def)
  moreover have "reach lc_init lc_step (empty_store, [])" by (rule reach_init) (simp add: lc_init_def)
  ultimately show ?thesis by (blast intro: reach_step)
qed

text \<open>A projection row whose record cannot be read, of a task the journal does not know.\<close>

definition stale_db :: "(string, sql_row) jsmap lifecycle_db" where
  "stale_db = (empty_db [])\<lparr>db_records := [(''a'' @ CHR 0x00 # ''g'', [(''taskId'', V_text ''a''), (''generationId'', V_text ''g''),
     (''lifecycleRevision'', V_num 7), (''recordJson'', V_text ''{'')])]\<rparr>"

lemma empty_rel:
  assumes "records_ok (map_of (db_records db))" "db_events db = []" "db_sequence db = []"
  shows "sql_rel map_of empty_store db"
  using assms by (simp add: sql_rel_def ids_ok_def empty_store_def store_loadEvent_def counter_ok_def highest_def journal_events_def)

lemma stale_rel: "sql_rel map_of empty_store stale_db" "sql_rel map_of empty_store (empty_db [])"
  by (rule empty_rel; simp add: stale_db_def empty_db_def records_ok_def record_row_ok_def no_nul_def)+

lemma map_table: "kv_table map_env map_of"
  by (rule map_table.kv_table_axioms)

section \<open>Commits and reads\<close>

text \<open>
  C9. The durable journal commits what the journal in memory commits, as long as no generation is replaced. The tables
  must hold a reachable journal: the event table has exactly its events under their ids, the counter is absent or one the
  code reconciles, and every row of the record table, whatever it says of the state, is stored under the key of the task
  and generation in it (\<open>records_ok\<close>). Then the transaction of a pending submission returns (it does not throw), with
  the same result: committed with the same record, event and sequence number, duplicate, compare-and-swap failure or
  violated constraint; and the tables then hold, in the same sense, the journal that the commit in memory leaves. The task
  identifier must have no null character and the last sequence number be below 2^53 - 1. A transition that replaces the
  generation is excluded, and must be: it leaves its row under the old key, so \<open>records_ok\<close> is lost, and later loads and
  commits of the task throw (\<open>Sql_Regeneration.regenerated_task_unreadable\<close>).
\<close>

theorem sql_commit_refines:
  assumes "kv_table E kv" and "sql_rel kv s db" and "reach lc_init lc_step (s, P)" and "p \<in> set P"
    and "st_sequence s < max_safe_integer" and "no_nul (tr_taskId (pd_record p))"
    and "ev_transition (pd_event p) \<noteq> Replace_generation"
    and "store_commit s (expectation_of (pd_current p)) (pd_record p) (pd_event p) = (res, s')"
  shows "\<exists>db'. sql_commit E (expectation_of (pd_current p)) (pd_record p) (pd_event p) db = (Returned res, db') \<and>
     sql_rel kv s' db'"
  using kv_table.sql_commit_correct [OF assms(1) lc.reach_inv [OF assms(3)] _ assms(2) assms(4-8)]
    reach_ordered [OF assms(3)] by simp

theorem sql_commit_refines_witness:
  "\<exists>r e db'. sql_commit map_env Expect_absent (pd_record registering) (pd_event registering) stale_db =
       (Returned (Commit_committed r e), db') \<and> tr_monotonicSequence r = 1 \<and>
     sql_rel map_of (snd (store_commit empty_store Expect_absent (pd_record registering) (pd_event registering))) db'"
proof -
  have ex: "expectation_of (pd_current registering) = Expect_absent" by code_simp
  have nul: "no_nul (tr_taskId (pd_record registering))" by code_simp
  have same: "ev_transition (pd_event registering) \<noteq> Replace_generation" by code_simp
  let ?c = "store_commit empty_store Expect_absent (pd_record registering) (pd_event registering)"
  have res: "case fst ?c of Commit_committed r e \<Rightarrow> tr_monotonicSequence r = 1 | _ \<Rightarrow> False" by code_simp
  have "st_sequence empty_store < max_safe_integer" by (simp add: empty_store_def)
  from sql_commit_refines [OF map_table stale_rel(1) registering_reach _ this nul same, unfolded ex, of "fst ?c" "snd ?c"]
  obtain db' where db': "sql_commit map_env Expect_absent (pd_record registering) (pd_event registering) stale_db = (Returned (fst ?c), db')"
    "sql_rel map_of (snd ?c) db'" by auto
  obtain r e where "fst ?c = Commit_committed r e" "tr_monotonicSequence r = 1" using res by (cases "fst ?c") simp_all
  with db' show ?thesis by auto
qed

text \<open>
  C10. Reads of the durable journal return what the journal in memory holds, and a load repairs the projection, as long as
  no generation was replaced. On tables that hold a reachable journal in the sense of C9 (every record row under the key of
  its own task and generation) a load of any task returns its record and leaves exactly one projection row of it, at its
  generation and revision, or none where the journal has no such task, however many rows, stale or malformed, there
  were; an event is found by its identifier; the attached children of a generation are those of the journal. After a
  change of generation the row of the task is under the key of the old generation, and a load throws
  (\<open>Sql_Regeneration.regenerated_task_unreadable\<close>).
\<close>

theorem sql_reads_repair:
  assumes "kv_table E kv" and "sql_rel kv s db" and "reach lc_init lc_step (s, P)"
  shows "(\<exists>db'. sql_load E t db = (Returned (store_load s t), db') \<and> sql_rel kv s db' \<and>
       (case store_load s t of None \<Rightarrow> task_rows (kv (db_records db')) t = {} | Some r \<Rightarrow> projects (kv (db_records db')) r)) \<and>
     sql_loadEvent E eid db = Returned (store_loadEvent s eid) \<and>
     (\<exists>rs. sql_listAttachedChildren E link db = Returned rs \<and> set rs = set (listAttachedChildren s link))"
  using kv_table.sql_reads_correct [OF assms(1) _ _ assms(2)] lc.reach_inv [OF assms(3)] reach_ordered [OF assms(3)]
  by (simp add: lc_inv_def)

theorem sql_reads_repair_witness:
  "\<exists>db'. sql_load map_env ''a'' stale_db = (Returned None, db') \<and> task_rows (map_of (db_records stale_db)) ''a'' \<noteq> {} \<and>
     task_rows (map_of (db_records db')) ''a'' = {}"
proof -
  have "reach lc_init lc_step (empty_store, [])" by (rule reach_init) (simp add: lc_init_def)
  from conjunct1 [OF sql_reads_repair [OF map_table stale_rel(1) this, where t = "''a''"]]
  obtain db' where "sql_load map_env ''a'' stale_db = (Returned None, db')" "task_rows (map_of (db_records db')) ''a'' = {}"
    by (auto simp: store_load_def empty_store_def)
  moreover have "(''a'' @ CHR 0x00 # ''g'', the (map_of (db_records stale_db) (''a'' @ CHR 0x00 # ''g''))) \<in>
      task_rows (map_of (db_records stale_db)) ''a''"
    by (simp add: stale_db_def task_rows_def)
  ultimately show ?thesis by blast
qed

end
