(* ===== verification/Sql_Regeneration.thy ===== *)
theory Sql_Regeneration
  imports Sql_Journal
begin

text \<open>
  A run of the durable journal in which a task is given a new generation. The tables are those of the repository's own kernel.
\<close>

text \<open>Submissions without propagation, on the tables of the repository's own kernel.\<close>

definition sql_submit ::
  "int \<Rightarrow> string \<Rightarrow> task_lifecycle_intent \<Rightarrow> (string, sql_row) jsmap lifecycle_db \<Rightarrow>
     lifecycle_commit_result thrown \<times> (string, sql_row) jsmap lifecycle_db" where
  "sql_submit now eid i db =
     tx_bind (sql_load map_env (in_taskId i) db) (\<lambda>current db1.
       if admission current i \<noteq> None then (Thrown, db1)
       else (case evaluate current i now eid of
               Inl code \<Rightarrow> (Thrown, db1)
             | Inr (r, e) \<Rightarrow> sql_commit map_env (expectation_of current) r e db1))"

fun sql_submits ::
  "int \<Rightarrow> task_lifecycle_intent list \<Rightarrow> (string, sql_row) jsmap lifecycle_db \<Rightarrow> (string, sql_row) jsmap lifecycle_db option" where
  "sql_submits now [] db = Some db"
| "sql_submits now (i # is) db =
     (case sql_submit now (in_intentId i) i db of
        (Returned (Commit_committed r e), db') \<Rightarrow> sql_submits (now + 1) is db'
      | _ \<Rightarrow> None)"

definition regenerated_intents :: "task_lifecycle_intent list" where
  "regenerated_intents =
     [sample_intent ''1'' ''a'' (RegisterGeneration None), sample_intent ''2'' ''a'' (SettleFailure None),
      sample_intent ''3'' ''a'' (ResumeWithGeneration (Some ''h'')),
      (sample_intent ''4'' ''a'' SuspendGeneration)\<lparr>in_generationId := ''h''\<rparr>]"

text \<open>
  A commit that gives a task a new generation leaves its projection row under the key of the old one, since
  an update of the table layer stores the changed row under the key of the row it replaces. A task is registered, fails, resumes
  with a new generation and is suspended, four commits that succeed; the next load of the task throws instead of
  returning its record.
\<close>

theorem regenerated_task_unreadable:
  "\<exists>db. sql_submits 0 regenerated_intents (empty_db []) = Some db \<and> fst (sql_load map_env ''a'' db) = Thrown"
proof -
  have "case sql_submits 0 regenerated_intents (empty_db []) of None \<Rightarrow> False | Some db \<Rightarrow> fst (sql_load map_env ''a'' db) = Thrown"
    by code_simp
  then show ?thesis by (cases "sql_submits 0 regenerated_intents (empty_db [])") auto
qed

end
