(* ===== verification/Lane_Scheduling.thy ===== *)
theory Lane_Scheduling
  imports Prelude
begin

text \<open>
  Subagent lanes: the lane states of \<^verbatim>\<open>src/shared/subagent/laneStateMachine.ts\<close> and the lane
  dependency graph of \<^verbatim>\<open>src/core/task/tools/subagent/LaneDAG.ts\<close>.

  Lane indices are \<open>int\<close>, since a dependency may name any number. The two recursive walks of the
  graph carry fuel: \<open>None\<close> is a walk that has not returned. Their arguments \<^verbatim>\<open>visiting\<close> and
  \<^verbatim>\<open>memo\<close> are a list and an insertion-ordered map.
\<close>

section \<open>Lane states\<close>

datatype lane_execution_mode = Read_only | Audit_only | Planning_only | Documentation_only | Diagnostic_only | Mutation

datatype lane_runtime_state =
    Lane_pending | Lane_running | Lane_waiting | Lane_partial | Soft_blocked | Hard_blocked | Lane_sealing
  | Lane_complete | Degraded_complete

datatype subagent_entry_status = Entry_pending | Entry_running | Entry_completed | Entry_failed

definition isOptionalAdvisoryLane :: "lane_execution_mode \<Rightarrow> bool" where
  "isOptionalAdvisoryLane mode \<longleftrightarrow> mode = Read_only \<or> mode = Audit_only \<or> mode = Diagnostic_only \<or> mode = Planning_only"

record entry_options =
  eo_entryStatus :: subagent_entry_status
  eo_hasPartialResult :: bool
  eo_hasHardError :: bool
  eo_hasAdvisoryWarnings :: bool
  eo_waitingOnDependency :: bool
  eo_sealing :: bool
  eo_degraded :: bool

definition mapEntryStatusToLaneState :: "entry_options \<Rightarrow> lane_runtime_state" where
  "mapEntryStatusToLaneState opts =
     (if eo_sealing opts then Lane_sealing
      else if eo_degraded opts \<and> eo_entryStatus opts = Entry_completed then Degraded_complete
      else if eo_entryStatus opts = Entry_completed then Lane_complete
      else if eo_entryStatus opts = Entry_failed \<or> eo_hasHardError opts then Hard_blocked
      else if eo_waitingOnDependency opts then Lane_waiting
      else if eo_hasPartialResult opts \<and> eo_entryStatus opts = Entry_running then Lane_partial
      else if eo_hasAdvisoryWarnings opts \<and> eo_entryStatus opts = Entry_running then Lane_partial
      else if eo_entryStatus opts = Entry_running then Lane_running
      else Lane_pending)"

definition laneStateAllowsSwarmContinuation :: "lane_runtime_state \<Rightarrow> lane_execution_mode \<Rightarrow> bool" where
  "laneStateAllowsSwarmContinuation state mode \<longleftrightarrow>
     (if state = Hard_blocked then False
      else if state = Soft_blocked \<or> state = Degraded_complete then isOptionalAdvisoryLane mode
      else True)"

definition laneStateShouldDegradeOnTimeout :: "lane_execution_mode \<Rightarrow> bool" where
  "laneStateShouldDegradeOnTimeout mode \<longleftrightarrow> isOptionalAdvisoryLane mode"

section \<open>The lane graph\<close>

datatype lane_dag_state = Ready | Blocked | Running | Sealed | Failed

record lane_node =
  ln_index :: int
  ln_laneId :: string
  ln_dependsOn :: "int list"
  ln_state :: lane_dag_state
  ln_agentId :: "string option"
  ln_executionMode :: "lane_execution_mode option"
  ln_error :: "string option"

type_synonym lane_nodes = "(int, lane_node) jsmap"

record lane_dag =
  dg_nodes :: lane_nodes
  dg_stateVersion :: nat

definition sealed_set :: "lane_nodes \<Rightarrow> int list" where
  "sealed_set ns = map ln_index (filter (\<lambda>n. ln_state n = Sealed) (js_values ns))"

definition recompute_node :: "int list \<Rightarrow> lane_node \<Rightarrow> lane_node" where
  "recompute_node sealed n =
     (if ln_state n \<noteq> Ready \<and> ln_state n \<noteq> Blocked then n
      else n\<lparr>ln_state := (if list_ex (\<lambda>dep. dep \<notin> set sealed) (ln_dependsOn n) then Blocked else Ready)\<rparr>)"

definition recomputeBlocked :: "lane_nodes \<Rightarrow> lane_nodes" where
  "recomputeBlocked ns = map (\<lambda>(k, n). (k, recompute_node (sealed_set ns) n)) ns"

definition new_lane_node :: "(int \<Rightarrow> int list option) \<Rightarrow> int \<Rightarrow> lane_node" where
  "new_lane_node dependencies index =
     \<lparr>ln_index = index, ln_laneId = ''lane-'' @ show_int index,
      ln_dependsOn = (case dependencies index of None \<Rightarrow> [] | Some ds \<Rightarrow> ds), ln_state = Ready,
      ln_agentId = None, ln_executionMode = None, ln_error = None\<rparr>"

definition new_LaneDAG :: "nat \<Rightarrow> (int \<Rightarrow> int list option) \<Rightarrow> lane_dag" where
  "new_LaneDAG laneCount dependencies =
     \<lparr>dg_nodes = recomputeBlocked (map (\<lambda>i. (int i, new_lane_node dependencies (int i))) [0..<laneCount]),
      dg_stateVersion = 0\<rparr>"

definition getNode :: "lane_dag \<Rightarrow> int \<Rightarrow> lane_node option" where
  "getNode d i = js_get (dg_nodes d) i"

definition getReadyLanes :: "lane_dag \<Rightarrow> int list" where
  "getReadyLanes d = map ln_index (filter (\<lambda>n. ln_state n = Ready) (js_values (dg_nodes d)))"

definition blockedDependentCount :: "lane_dag \<Rightarrow> int \<Rightarrow> nat" where
  "blockedDependentCount d i =
     length (filter (\<lambda>n. ln_state n = Blocked \<and> i \<in> set (ln_dependsOn n)) (js_values (dg_nodes d)))"

definition allSealedOrFailed :: "lane_dag \<Rightarrow> bool" where
  "allSealedOrFailed d \<longleftrightarrow> list_all (\<lambda>n. ln_state n = Sealed \<or> ln_state n = Failed) (js_values (dg_nodes d))"

text \<open>The mutators; \<open>None\<close> is the error they throw, which leaves the graph as it is.\<close>

definition markRunning :: "int \<Rightarrow> string \<Rightarrow> lane_execution_mode option \<Rightarrow> lane_dag \<Rightarrow> lane_dag option" where
  "markRunning i agentId mode d =
     (case getNode d i of
        None \<Rightarrow> None
      | Some n \<Rightarrow>
          if ln_state n \<noteq> Ready then None
          else let n1 = n\<lparr>ln_state := Running, ln_agentId := Some agentId\<rparr>;
                   n2 = (case mode of None \<Rightarrow> n1 | Some m \<Rightarrow> n1\<lparr>ln_executionMode := Some m\<rparr>)
               in Some (d\<lparr>dg_nodes := js_set (dg_nodes d) i n2, dg_stateVersion := dg_stateVersion d + 1\<rparr>))"

definition set_and_recompute :: "int \<Rightarrow> lane_node \<Rightarrow> lane_dag \<Rightarrow> lane_dag" where
  "set_and_recompute i n d =
     d\<lparr>dg_nodes := recomputeBlocked (js_set (dg_nodes d) i n), dg_stateVersion := dg_stateVersion d + 1\<rparr>"

definition markSealed :: "int \<Rightarrow> lane_dag \<Rightarrow> lane_dag" where
  "markSealed i d =
     (case getNode d i of
        None \<Rightarrow> d
      | Some n \<Rightarrow> if ln_state n = Sealed then d else set_and_recompute i (n\<lparr>ln_state := Sealed\<rparr>) d)"

definition markRetryReady :: "int \<Rightarrow> lane_dag \<Rightarrow> lane_dag option" where
  "markRetryReady i d =
     (case getNode d i of
        None \<Rightarrow> None
      | Some n \<Rightarrow>
          if ln_state n \<noteq> Failed then None
          else Some (set_and_recompute i (n\<lparr>ln_state := Ready, ln_agentId := None, ln_error := None\<rparr>) d))"

definition markFailed :: "int \<Rightarrow> string option \<Rightarrow> lane_dag \<Rightarrow> lane_dag" where
  "markFailed i error d =
     (case getNode d i of
        None \<Rightarrow> d
      | Some n \<Rightarrow>
          if ln_state n = Failed \<and> ln_error n = error then d
          else set_and_recompute i (n\<lparr>ln_state := Failed, ln_error := error\<rparr>) d)"

section \<open>Walks\<close>

text \<open>\<^verbatim>\<open>Array.prototype.some\<close> over a predicate that may not return.\<close>

fun some_m :: "('a \<Rightarrow> bool option) \<Rightarrow> 'a list \<Rightarrow> bool option" where
  "some_m p [] = Some False"
| "some_m p (x # xs) = (case p x of None \<Rightarrow> None | Some True \<Rightarrow> Some True | Some False \<Rightarrow> some_m p xs)"

primrec laneDependsOn :: "nat \<Rightarrow> lane_nodes \<Rightarrow> int \<Rightarrow> int \<Rightarrow> bool option" where
  "laneDependsOn 0 ns i candidate = None"
| "laneDependsOn (Suc fuel) ns i candidate =
     (case js_get ns i of
        None \<Rightarrow> Some False
      | Some n \<Rightarrow>
          if candidate \<in> set (ln_dependsOn n) then Some True
          else some_m (\<lambda>dep. laneDependsOn fuel ns dep candidate) (ln_dependsOn n))"

definition dependents :: "lane_nodes \<Rightarrow> int \<Rightarrow> int list" where
  "dependents ns i = map ln_index (filter (\<lambda>n. i \<in> set (ln_dependsOn n)) (js_values ns))"

type_synonym path_memo = "(int, nat) jsmap"

text \<open>\<^verbatim>\<open>Math.max(0, ...lengths)\<close> of the recursive calls, which share the memo.\<close>

fun max_of_calls :: "(int \<Rightarrow> path_memo \<Rightarrow> (nat \<times> path_memo) option) \<Rightarrow> int list \<Rightarrow> nat \<Rightarrow> path_memo \<Rightarrow> (nat \<times> path_memo) option" where
  "max_of_calls f [] m memo = Some (m, memo)"
| "max_of_calls f (x # xs) m memo =
     (case f x memo of None \<Rightarrow> None | Some (l, memo') \<Rightarrow> max_of_calls f xs (max m l) memo')"

primrec criticalPathLength :: "nat \<Rightarrow> lane_nodes \<Rightarrow> int list \<Rightarrow> int \<Rightarrow> path_memo \<Rightarrow> (nat \<times> path_memo) option" where
  "criticalPathLength 0 ns visiting i memo = None"
| "criticalPathLength (Suc fuel) ns visiting i memo =
     (case js_get memo i of
        Some cached \<Rightarrow> Some (cached, memo)
      | None \<Rightarrow>
          if i \<in> set visiting then Some (0, memo)
          else (case max_of_calls (criticalPathLength fuel ns (i # visiting)) (dependents ns i) 0 memo of
                  None \<Rightarrow> None
                | Some (m, memo') \<Rightarrow> Some (1 + m, js_set memo' i (1 + m))))"

text \<open>The schedule score, in quarters: \<^verbatim>\<open>pathWeight * (1 + blocked * 0.25)\<close>.\<close>

definition getLaneScheduleScore :: "lane_dag \<Rightarrow> path_memo \<Rightarrow> (int \<Rightarrow> int option) \<Rightarrow> int \<Rightarrow> (int \<times> path_memo) option" where
  "getLaneScheduleScore d memo weights i =
     (case criticalPathLength (length (dg_nodes d) + 2) (dg_nodes d) [] i memo of
        None \<Rightarrow> None
      | Some (len, memo') \<Rightarrow>
          Some (int len * (case weights i of None \<Rightarrow> 1 | Some w \<Rightarrow> w) * (4 + int (blockedDependentCount d i)), memo'))"

section \<open>Every operation keeps the graph consistent\<close>

datatype lane_op =
    Mark_running int string "lane_execution_mode option"
  | Mark_sealed int
  | Mark_retry_ready int
  | Mark_failed int "string option"

primrec apply_lane_op :: "lane_op \<Rightarrow> lane_dag \<Rightarrow> lane_dag option" where
  "apply_lane_op (Mark_running i agent mode) d = markRunning i agent mode d"
| "apply_lane_op (Mark_sealed i) d = Some (markSealed i d)"
| "apply_lane_op (Mark_retry_ready i) d = markRetryReady i d"
| "apply_lane_op (Mark_failed i err) d = Some (markFailed i err d)"

definition dag_step :: "lane_dag \<Rightarrow> lane_dag \<Rightarrow> bool" where
  "dag_step d d' \<longleftrightarrow> (\<exists>op. apply_lane_op op d = Some d')"

definition dag_init :: "lane_dag \<Rightarrow> bool" where
  "dag_init d \<longleftrightarrow> (\<exists>n dependencies. d = new_LaneDAG n dependencies)"

definition all_sealed :: "lane_nodes \<Rightarrow> int list \<Rightarrow> bool" where
  "all_sealed ns deps \<longleftrightarrow> (\<forall>dep \<in> set deps. \<exists>n. js_get ns dep = Some n \<and> ln_state n = Sealed)"

definition keyed_nodes :: "lane_nodes \<Rightarrow> bool" where
  "keyed_nodes ns \<longleftrightarrow> js_wf ns \<and> (\<forall>(k, n) \<in> set ns. ln_index n = k)"

definition dag_inv :: "lane_dag \<Rightarrow> bool" where
  "dag_inv d \<longleftrightarrow> keyed_nodes (dg_nodes d) \<and>
     (\<forall>i n. getNode d i = Some n \<longrightarrow>
        (ln_state n = Ready \<longrightarrow> all_sealed (dg_nodes d) (ln_dependsOn n)) \<and>
        (ln_state n = Blocked \<longrightarrow> \<not> all_sealed (dg_nodes d) (ln_dependsOn n)))"

text \<open>The graph itself never changes: the same lanes with the same dependencies; the version counts changes.\<close>

definition dag_leq :: "lane_dag \<Rightarrow> lane_dag \<Rightarrow> bool" where
  "dag_leq d d' \<longleftrightarrow>
     (\<forall>i. map_option ln_dependsOn (getNode d' i) = map_option ln_dependsOn (getNode d i)) \<and>
     (d' = d \<or> dg_stateVersion d < dg_stateVersion d')"

lemma sealed_set_iff:
  assumes "keyed_nodes ns"
  shows "i \<in> set (sealed_set ns) \<longleftrightarrow> (\<exists>n. js_get ns i = Some n \<and> ln_state n = Sealed)"
  using assms by (force simp: sealed_set_def keyed_nodes_def)

lemma recompute_node_simps [simp]:
  "ln_index (recompute_node s n) = ln_index n" "ln_dependsOn (recompute_node s n) = ln_dependsOn n"
  "ln_state (recompute_node s n) = Sealed \<longleftrightarrow> ln_state n = Sealed"
  "ln_state (recompute_node s n) = Running \<longleftrightarrow> ln_state n = Running"
  "ln_state (recompute_node s n) = Failed \<longleftrightarrow> ln_state n = Failed"
  by (auto simp: recompute_node_def)

lemma recompute_get: "js_get (recomputeBlocked ns) i = map_option (recompute_node (sealed_set ns)) (js_get ns i)"
  unfolding recomputeBlocked_def by (rule js_get_map_values)

lemma recompute_keyed: "keyed_nodes ns \<Longrightarrow> keyed_nodes (recomputeBlocked ns)"
  unfolding keyed_nodes_def recomputeBlocked_def js_wf_map_values by auto

lemma recompute_all_sealed: "all_sealed (recomputeBlocked ns) deps = all_sealed ns deps"
  by (auto simp: all_sealed_def recompute_get)

lemma all_sealed_list:
  assumes "keyed_nodes ns"
  shows "list_ex (\<lambda>dep. dep \<notin> set (sealed_set ns)) deps \<longleftrightarrow> \<not> all_sealed ns deps"
  using sealed_set_iff [OF assms] by (auto simp: all_sealed_def list_ex_iff)

lemma recompute_inv:
  assumes "keyed_nodes ns" and "dg_nodes d = recomputeBlocked ns"
  shows "dag_inv d"
proof -
  have node: "(ln_state m = Ready \<longrightarrow> all_sealed ns (ln_dependsOn m)) \<and> (ln_state m = Blocked \<longrightarrow> \<not> all_sealed ns (ln_dependsOn m))"
    if "m = recompute_node (sealed_set ns) n" for m n
    using that all_sealed_list [OF assms(1)] by (simp add: recompute_node_def)
  show ?thesis
    unfolding dag_inv_def getNode_def assms(2) recompute_all_sealed recompute_get
    using node recompute_keyed [OF assms(1)] by (metis map_option_eq_Some)
qed

lemma keyed_set: "keyed_nodes ns \<Longrightarrow> ln_index n = i \<Longrightarrow> keyed_nodes (js_set ns i n)"
  by (auto simp: keyed_nodes_def set_js_set_wf)

lemma getNode_index: "dag_inv d \<Longrightarrow> getNode d i = Some n \<Longrightarrow> ln_index n = i"
  by (auto simp: dag_inv_def keyed_nodes_def getNode_def dest!: map_of_SomeD)

lemma set_and_recompute_inv:
  assumes "dag_inv d" and "ln_index n = i"
  shows "dag_inv (set_and_recompute i n d)"
  by (rule recompute_inv [of "js_set (dg_nodes d) i n"])
    (use assms in \<open>simp_all add: keyed_set dag_inv_def set_and_recompute_def\<close>)

lemma markRunning_cases:
  assumes "markRunning i agent mode d = Some d'"
  obtains n n' where "getNode d i = Some n" "ln_state n = Ready" "ln_state n' = Running" "ln_index n' = ln_index n"
    "ln_dependsOn n' = ln_dependsOn n" "d' = d\<lparr>dg_nodes := js_set (dg_nodes d) i n', dg_stateVersion := dg_stateVersion d + 1\<rparr>"
proof -
  from assms obtain n where n: "getNode d i = Some n" "ln_state n = Ready"
    by (auto simp: markRunning_def split: option.splits if_splits)
  let ?n1 = "n\<lparr>ln_state := Running, ln_agentId := Some agent\<rparr>"
  let ?n2 = "case mode of None \<Rightarrow> ?n1 | Some m \<Rightarrow> ?n1\<lparr>ln_executionMode := Some m\<rparr>"
  show thesis
  proof (rule that [OF n])
    show "ln_state ?n2 = Running" "ln_index ?n2 = ln_index n" "ln_dependsOn ?n2 = ln_dependsOn n"
      by (simp_all split: option.split)
    show "d' = d\<lparr>dg_nodes := js_set (dg_nodes d) i ?n2, dg_stateVersion := dg_stateVersion d + 1\<rparr>"
      using assms n by (simp add: markRunning_def Let_def)
  qed
qed

lemma markRunning_inv:
  assumes inv: "dag_inv d" and m: "markRunning i agent mode d = Some d'"
  shows "dag_inv d'"
  using m
proof (rule markRunning_cases)
  fix n n' assume n: "getNode d i = Some n" "ln_state n = Ready" "ln_state n' = Running" "ln_index n' = ln_index n"
    "ln_dependsOn n' = ln_dependsOn n" and d': "d' = d\<lparr>dg_nodes := js_set (dg_nodes d) i n', dg_stateVersion := dg_stateVersion d + 1\<rparr>"
  have "all_sealed (js_set (dg_nodes d) i n') deps = all_sealed (dg_nodes d) deps" for deps
    using n by (auto simp: all_sealed_def getNode_def split: if_splits)
  then show ?thesis
    using inv n getNode_index [OF inv n(1)] by (auto simp: dag_inv_def d' getNode_def keyed_set)
qed

lemma dag_inv_step: "dag_inv d \<Longrightarrow> dag_step d d' \<Longrightarrow> dag_inv d'"
proof -
  assume inv: "dag_inv d" and "dag_step d d'"
  then obtain op where op: "apply_lane_op op d = Some d'" by (auto simp: dag_step_def)
  show "dag_inv d'"
  proof (cases op)
    case (Mark_running i agent mode)
    with op markRunning_inv [OF inv] show ?thesis by simp
  next
    case (Mark_sealed i)
    with op inv getNode_index [OF inv] show ?thesis
      by (auto simp: markSealed_def set_and_recompute_inv split: option.splits)
  next
    case (Mark_retry_ready i)
    with op inv getNode_index [OF inv] show ?thesis
      by (auto simp: markRetryReady_def set_and_recompute_inv split: option.splits if_splits)
  next
    case (Mark_failed i err)
    with op inv getNode_index [OF inv] show ?thesis
      by (auto simp: markFailed_def set_and_recompute_inv split: option.splits)
  qed
qed

lemma dag_inv_init: "dag_init d \<Longrightarrow> dag_inv d"
proof -
  assume "dag_init d"
  then obtain n deps where d: "d = new_LaneDAG n deps" by (auto simp: dag_init_def)
  show "dag_inv d"
    by (rule recompute_inv [of "map (\<lambda>i. (int i, new_lane_node deps (int i))) [0..<n]"])
      (auto simp: keyed_nodes_def d new_LaneDAG_def new_lane_node_def comp_def distinct_map inj_on_def)
qed

lemma set_and_recompute_leq:
  assumes "getNode d i = Some n" and "ln_dependsOn n' = ln_dependsOn n"
  shows "dag_leq d (set_and_recompute i n' d)"
proof -
  have "getNode (set_and_recompute i n' d) k = map_option (recompute_node (sealed_set (js_set (dg_nodes d) i n')))
      (if k = i then Some n' else getNode d k)" for k
    by (simp add: set_and_recompute_def getNode_def recompute_get)
  then show ?thesis
    using assms by (auto simp: dag_leq_def option.map_comp comp_def) (simp_all add: set_and_recompute_def)
qed

lemma dag_leq_refl [simp]: "dag_leq d d"
  by (simp add: dag_leq_def)

lemma dag_step_leq: "dag_step d d' \<Longrightarrow> dag_leq d d'"
proof -
  assume "dag_step d d'"
  then obtain op where op: "apply_lane_op op d = Some d'" by (auto simp: dag_step_def)
  show "dag_leq d d'"
  proof (cases op)
    case (Mark_running i agent mode)
    with op have "markRunning i agent mode d = Some d'" by simp
    then show ?thesis by (rule markRunning_cases) (auto simp: dag_leq_def getNode_def)
  next
    case (Mark_sealed i)
    with op show ?thesis
      by (cases "getNode d i") (auto simp: markSealed_def set_and_recompute_leq dag_leq_refl split: if_splits)
  next
    case (Mark_retry_ready i)
    with op show ?thesis
      by (auto simp: markRetryReady_def set_and_recompute_leq split: option.splits if_splits)
  next
    case (Mark_failed i err)
    with op show ?thesis
      by (cases "getNode d i") (auto simp: markFailed_def set_and_recompute_leq dag_leq_refl split: if_splits)
  qed
qed

lemma dag_leq_trans: "dag_leq a b \<Longrightarrow> dag_leq b c \<Longrightarrow> dag_leq a c"
  by (auto simp: dag_leq_def)

interpretation lanes: monotone_system dag_init dag_step dag_inv dag_leq
  by unfold_locales (blast intro: dag_inv_init dag_inv_step dag_leq_refl dag_leq_trans dag_step_leq)+

section \<open>Scheduling\<close>

text \<open>
  Dependencies first: from any graph reached by the operations, a lane is let run only when
  every lane it depends on exists and is sealed, and nothing but that lane's node changes.
\<close>

theorem running_after_dependencies:
  assumes "reach dag_init dag_step d" and "markRunning i agent mode d = Some d'"
  shows "\<exists>n. getNode d i = Some n \<and> ln_state n = Ready \<and>
    (\<forall>dep \<in> set (ln_dependsOn n). \<exists>m. getNode d dep = Some m \<and> ln_state m = Sealed) \<and>
    (\<forall>j. j \<noteq> i \<longrightarrow> getNode d' j = getNode d j)"
  using assms(2)
proof (rule markRunning_cases)
  fix n n' assume n: "getNode d i = Some n" "ln_state n = Ready"
    and d': "d' = d\<lparr>dg_nodes := js_set (dg_nodes d) i n', dg_stateVersion := dg_stateVersion d + 1\<rparr>"
  from lanes.reach_inv [OF assms(1)] n have "all_sealed (dg_nodes d) (ln_dependsOn n)" by (simp add: dag_inv_def)
  with n show ?thesis by (auto simp: d' all_sealed_def getNode_def)
qed

definition diamond :: "int \<Rightarrow> int list option" where
  "diamond i = (if i = 1 then Some [0] else if i = 2 then Some [0] else if i = 3 then Some [1, 2] else None)"

definition diamond_dag :: lane_dag where
  "diamond_dag = markSealed 0 (the (markRunning 0 ''a'' None (new_LaneDAG 4 diamond)))"

lemma diamond_reach: "reach dag_init dag_step diamond_dag"
proof -
  have r0: "reach dag_init dag_step (new_LaneDAG 4 diamond)"
    by (rule reach_init) (auto simp: dag_init_def)
  have "markRunning 0 ''a'' None (new_LaneDAG 4 diamond) = Some (the (markRunning 0 ''a'' None (new_LaneDAG 4 diamond)))"
    by code_simp
  then have "dag_step (new_LaneDAG 4 diamond) (the (markRunning 0 ''a'' None (new_LaneDAG 4 diamond)))"
    unfolding dag_step_def by (metis apply_lane_op.simps(1))
  with r0 have "reach dag_init dag_step (the (markRunning 0 ''a'' None (new_LaneDAG 4 diamond)))" by (rule reach_step)
  moreover have "dag_step (the (markRunning 0 ''a'' None (new_LaneDAG 4 diamond))) diamond_dag"
    unfolding dag_step_def diamond_dag_def by (metis apply_lane_op.simps(2))
  ultimately show ?thesis by (rule reach_step)
qed

theorem running_after_dependencies_witness:
  "\<exists>n. getNode diamond_dag 1 = Some n \<and> ln_state n = Ready"
proof -
  have "markRunning 1 ''b'' (Some Mutation) diamond_dag = Some (the (markRunning 1 ''b'' (Some Mutation) diamond_dag))"
    by code_simp
  from running_after_dependencies [OF diamond_reach this] show ?thesis by blast
qed

definition dep_edges :: "lane_nodes \<Rightarrow> (int \<times> int) set" where
  "dep_edges ns = {(i, dep). \<exists>n. js_get ns i = Some n \<and> dep \<in> set (ln_dependsOn n)}"

definition closed_deps :: "lane_nodes \<Rightarrow> bool" where
  "closed_deps ns \<longleftrightarrow> list_all (\<lambda>n. list_all (\<lambda>dep. js_get ns dep \<noteq> None) (ln_dependsOn n)) (js_values ns)"

lemma finite_dep_edges: "finite (dep_edges ns)"
proof (rule finite_subset)
  show "dep_edges ns \<subseteq> set (js_keys ns) \<times> (\<Union>n \<in> set (js_values ns). set (ln_dependsOn n))"
    by (force simp: dep_edges_def dest: map_of_SomeD)
qed simp

lemma dep_edges_wf: "acyclic (dep_edges ns) \<Longrightarrow> wf ((dep_edges ns)\<inverse>)"
  by (rule finite_acyclic_wf_converse [OF finite_dep_edges])

lemma closed_depsD: "closed_deps ns \<Longrightarrow> js_get ns i = Some n \<Longrightarrow> dep \<in> set (ln_dependsOn n) \<Longrightarrow> js_get ns dep \<noteq> None"
  unfolding closed_deps_def list_all_iff by (metis image_eqI map_of_SomeD set_map snd_conv)

text \<open>
  C40. Progress: a graph without cycles whose dependencies are all lanes of the graph never wedges.
  When no lane is running and none has failed, either a lane is ready or every lane is sealed.
\<close>

theorem lanes_progress:
  assumes "reach dag_init dag_step d" and "acyclic (dep_edges (dg_nodes d))" and "closed_deps (dg_nodes d)"
    and "list_all (\<lambda>n. ln_state n \<noteq> Running \<and> ln_state n \<noteq> Failed) (js_values (dg_nodes d))"
  shows "getReadyLanes d \<noteq> [] \<or> list_all (\<lambda>n. ln_state n = Sealed) (js_values (dg_nodes d))"
proof (rule disjCI)
  assume unsealed: "\<not> list_all (\<lambda>n. ln_state n = Sealed) (js_values (dg_nodes d))"
  have inv: "dag_inv d" by (rule lanes.reach_inv [OF assms(1)])
  show "getReadyLanes d \<noteq> []"
  proof
    assume none: "getReadyLanes d = []"
    have "\<forall>n. getNode d i = Some n \<longrightarrow> ln_state n = Sealed" for i
    proof (induction i rule: wf_induct_rule [OF dep_edges_wf [OF assms(2)]])
      case (1 i)
      show ?case
      proof (intro allI impI)
        fix n assume n: "getNode d i = Some n"
        then have mem: "n \<in> set (js_values (dg_nodes d))" by (force simp: getNode_def dest: map_of_SomeD)
        have "\<exists>m. js_get (dg_nodes d) dep = Some m \<and> ln_state m = Sealed" if dep: "dep \<in> set (ln_dependsOn n)" for dep
        proof -
          obtain m where m: "js_get (dg_nodes d) dep = Some m"
            using closed_depsD [OF assms(3) _ dep] n by (auto simp: getNode_def)
          moreover have "(dep, i) \<in> (dep_edges (dg_nodes d))\<inverse>" using n dep by (auto simp: dep_edges_def getNode_def)
          ultimately show ?thesis using 1 by (auto simp: getNode_def)
        qed
        then have "all_sealed (dg_nodes d) (ln_dependsOn n)" by (simp add: all_sealed_def)
        moreover have "ln_state n \<noteq> Running" "ln_state n \<noteq> Failed" using assms(4) mem by (auto simp: list_all_iff)
        moreover have "ln_state n \<noteq> Ready" using none mem by (auto simp: getReadyLanes_def filter_empty_conv)
        ultimately show "ln_state n = Sealed" using inv n by (cases "ln_state n") (auto simp: dag_inv_def)
      qed
    qed
    moreover have "js_wf (dg_nodes d)" using inv by (simp add: dag_inv_def keyed_nodes_def)
    ultimately have "list_all (\<lambda>n. ln_state n = Sealed) (js_values (dg_nodes d))"
      by (auto simp: list_all_iff getNode_def)
    with unsealed show False ..
  qed
qed

text \<open>Edges of the diamond point to smaller lanes, so it has no cycle.\<close>

lemma acyclic_decreasing: "(\<And>i dep. (i, dep) \<in> r \<Longrightarrow> dep < i) \<Longrightarrow> acyclic r" for r :: "(int \<times> int) set"
proof (rule acyclicI, rule allI, rule notI)
  fix x assume step: "\<And>i dep. (i, dep) \<in> r \<Longrightarrow> dep < i" and "(x, x) \<in> r\<^sup>+"
  have "(x, y) \<in> r\<^sup>+ \<Longrightarrow> y < x" for y
    by (induction rule: trancl_induct) (auto dest: step)
  with \<open>(x, x) \<in> r\<^sup>+\<close> show False by blast
qed

lemma diamond_acyclic: "acyclic (dep_edges (dg_nodes diamond_dag))"
proof (rule acyclic_decreasing)
  fix i dep assume "(i, dep) \<in> dep_edges (dg_nodes diamond_dag)"
  then obtain n where "(i, n) \<in> set (dg_nodes diamond_dag)" and "dep \<in> set (ln_dependsOn n)"
    by (auto simp: dep_edges_def dest: map_of_SomeD)
  moreover have "list_all (\<lambda>(i, n). list_all (\<lambda>dep. dep < i) (ln_dependsOn n)) (dg_nodes diamond_dag)" by code_simp
  ultimately show "dep < i" by (auto simp: list_all_iff)
qed

theorem lanes_progress_witness: "getReadyLanes diamond_dag \<noteq> []"
proof -
  have "closed_deps (dg_nodes diamond_dag)" by code_simp
  moreover have "list_all (\<lambda>n. ln_state n \<noteq> Running \<and> ln_state n \<noteq> Failed) (js_values (dg_nodes diamond_dag))"
    by code_simp
  ultimately have "getReadyLanes diamond_dag \<noteq> [] \<or> list_all (\<lambda>n. ln_state n = Sealed) (js_values (dg_nodes diamond_dag))"
    by (rule lanes_progress [OF diamond_reach diamond_acyclic])
  moreover have "\<not> list_all (\<lambda>n. ln_state n = Sealed) (js_values (dg_nodes diamond_dag))" by code_simp
  ultimately show ?thesis by (simp only: simp_thms)
qed

section \<open>Dependency queries\<close>

lemma some_m_True: "some_m p xs = Some True \<Longrightarrow> \<exists>x \<in> set xs. p x = Some True"
  by (induction xs) (auto split: option.splits bool.splits)

lemma some_m_False: "some_m p xs = Some False \<Longrightarrow> x \<in> set xs \<Longrightarrow> p x = Some False"
  by (induction xs) (auto split: option.splits bool.splits)

lemma some_m_total: "(\<And>x. x \<in> set xs \<Longrightarrow> p x \<noteq> None) \<Longrightarrow> some_m p xs \<noteq> None"
  by (induction xs) (auto split: option.splits bool.splits)

lemma dep_trancl_iff:
  assumes "js_get ns i = Some n"
  shows "(i, c) \<in> (dep_edges ns)\<^sup>+ \<longleftrightarrow> (\<exists>dep \<in> set (ln_dependsOn n). dep = c \<or> (dep, c) \<in> (dep_edges ns)\<^sup>+)"
proof
  assume "(i, c) \<in> (dep_edges ns)\<^sup>+"
  then show "\<exists>dep \<in> set (ln_dependsOn n). dep = c \<or> (dep, c) \<in> (dep_edges ns)\<^sup>+"
    by (cases rule: converse_tranclE) (use assms in \<open>auto simp: dep_edges_def\<close>)
next
  assume "\<exists>dep \<in> set (ln_dependsOn n). dep = c \<or> (dep, c) \<in> (dep_edges ns)\<^sup>+"
  then obtain dep where dep: "(i, dep) \<in> dep_edges ns" "dep = c \<or> (dep, c) \<in> (dep_edges ns)\<^sup>+"
    using assms by (auto simp: dep_edges_def)
  then show "(i, c) \<in> (dep_edges ns)\<^sup>+" by (auto intro: trancl_into_trancl2)
qed

lemma dep_trancl_None: "js_get ns i = None \<Longrightarrow> (i, c) \<notin> (dep_edges ns)\<^sup>+"
  by (auto dest!: tranclD simp: dep_edges_def)

lemma laneDependsOn_sound:
  "laneDependsOn fuel ns i c = Some b \<Longrightarrow> b \<longleftrightarrow> (i, c) \<in> (dep_edges ns)\<^sup>+"
proof (induction fuel arbitrary: i b)
  case 0
  then show ?case by simp
next
  case (Suc fuel)
  show ?case
  proof (cases "js_get ns i")
    case None
    with Suc.prems dep_trancl_None [of ns i c] show ?thesis by simp
  next
    case (Some n)
    show ?thesis
    proof (cases "c \<in> set (ln_dependsOn n)")
      case True
      with Suc.prems Some dep_trancl_iff [OF Some] show ?thesis by auto
    next
      case False
      with Suc.prems Some have s: "some_m (\<lambda>dep. laneDependsOn fuel ns dep c) (ln_dependsOn n) = Some b" by simp
      show ?thesis
      proof (cases b)
        case True
        with s obtain dep where dep: "dep \<in> set (ln_dependsOn n)" "laneDependsOn fuel ns dep c = Some True"
          using some_m_True by fastforce
        from Suc.IH [OF dep(2)] have "(dep, c) \<in> (dep_edges ns)\<^sup>+" by simp
        with dep(1) have "(i, c) \<in> (dep_edges ns)\<^sup>+" by (auto simp: dep_trancl_iff [OF Some])
        with True show ?thesis by simp
      next
        case b: False
        with s have "(dep, c) \<notin> (dep_edges ns)\<^sup>+" if "dep \<in> set (ln_dependsOn n)" for dep
          using some_m_False [of "\<lambda>dep. laneDependsOn fuel ns dep c" _ dep] Suc.IH [of dep False] that by simp
        with b False dep_trancl_iff [OF Some] show ?thesis by auto
      qed
    qed
  qed
qed

lemma eventually_list:
  "(\<And>x. x \<in> set xs \<Longrightarrow> \<exists>f0 :: nat. \<forall>f \<ge> f0. P f x) \<Longrightarrow> \<exists>f0. \<forall>f \<ge> f0. \<forall>x \<in> set xs. P f x"
proof (induction xs)
  case Nil
  then show ?case by simp
next
  case (Cons x xs)
  from Cons obtain a where "\<forall>f \<ge> a. \<forall>x \<in> set xs. P f x" by auto
  moreover from Cons.prems obtain b where "\<forall>f \<ge> b. P f x" by auto
  ultimately have "\<forall>f \<ge> max a b. \<forall>y \<in> set (x # xs). P f y" by auto
  then show ?case ..
qed

lemma laneDependsOn_total:
  assumes "acyclic (dep_edges ns)"
  shows "\<exists>f0. \<forall>f \<ge> f0. laneDependsOn f ns i c \<noteq> None"
proof (induction i rule: wf_induct_rule [OF dep_edges_wf [OF assms]])
  case (1 i)
  show ?case
  proof (cases "js_get ns i")
    case None
    then have "\<forall>f \<ge> Suc 0. laneDependsOn f ns i c \<noteq> None" by (auto simp: Suc_le_eq gr0_conv_Suc)
    then show ?thesis ..
  next
    case (Some n)
    have "\<exists>f0. \<forall>f \<ge> f0. laneDependsOn f ns dep c \<noteq> None" if "dep \<in> set (ln_dependsOn n)" for dep
      using that Some by (intro 1) (auto simp: dep_edges_def)
    from eventually_list [where xs = "ln_dependsOn n" and P = "\<lambda>f dep. laneDependsOn f ns dep c \<noteq> None", OF this]
    obtain f0 where
      f0: "\<forall>f \<ge> f0. \<forall>dep \<in> set (ln_dependsOn n). laneDependsOn f ns dep c \<noteq> None" by blast
    have "laneDependsOn f ns i c \<noteq> None" if "Suc f0 \<le> f" for f
    proof -
      obtain g where g: "f = Suc g" "f0 \<le> g" using \<open>Suc f0 \<le> f\<close> by (cases f) auto
      with f0 have "some_m (\<lambda>dep. laneDependsOn g ns dep c) (ln_dependsOn n) \<noteq> None"
        by (intro some_m_total) blast
      with g Some show ?thesis by (auto intro: exI [of _ True])
    qed
    then show ?thesis by blast
  qed
qed

text \<open>
  On a graph without cycles the recursive query \<^verbatim>\<open>laneDependsOn\<close> returns, and it answers
  exactly whether the candidate can be reached through dependencies.
\<close>

theorem laneDependsOn_correct:
  assumes "acyclic (dep_edges ns)"
  shows "\<exists>f0. \<forall>f \<ge> f0. laneDependsOn f ns i c = Some ((i, c) \<in> (dep_edges ns)\<^sup>+)"
proof -
  obtain f0 where f0: "\<forall>f \<ge> f0. laneDependsOn f ns i c \<noteq> None" using laneDependsOn_total [OF assms] by blast
  have "laneDependsOn f ns i c = Some ((i, c) \<in> (dep_edges ns)\<^sup>+)" if "f0 \<le> f" for f
  proof -
    from f0 that obtain b where "laneDependsOn f ns i c = Some b" by blast
    with laneDependsOn_sound [OF this] show ?thesis by simp
  qed
  then show ?thesis by blast
qed

theorem laneDependsOn_correct_witness:
  "\<exists>f. laneDependsOn f (dg_nodes diamond_dag) 3 0 = Some True"
proof -
  have "laneDependsOn 5 (dg_nodes diamond_dag) 3 0 = Some True" by code_simp
  with laneDependsOn_sound have "(3, 0) \<in> (dep_edges (dg_nodes diamond_dag))\<^sup>+" by blast
  with laneDependsOn_correct [OF diamond_acyclic, of 3 0] show ?thesis by auto
qed

section \<open>The critical path\<close>

fun chain :: "lane_nodes \<Rightarrow> int list \<Rightarrow> bool" where
  "chain ns (x # y # rest) = (y \<in> set (dependents ns x) \<and> chain ns (y # rest))"
| "chain ns _ = True"

text \<open>The length of the longest path downstream from a lane, in lanes.\<close>

definition longest :: "lane_nodes \<Rightarrow> int \<Rightarrow> nat \<Rightarrow> bool" where
  "longest ns i c \<longleftrightarrow> (\<exists>p. chain ns (i # p) \<and> length (i # p) = c) \<and> (\<forall>p. chain ns (i # p) \<longrightarrow> length (i # p) \<le> c)"

definition memo_ok :: "lane_nodes \<Rightarrow> path_memo \<Rightarrow> bool" where
  "memo_ok ns memo \<longleftrightarrow> (\<forall>k v. js_get memo k = Some v \<longrightarrow> longest ns k v)"

definition downstream :: "lane_nodes \<Rightarrow> (int \<times> int) set" where
  "downstream ns = {(x, y). y \<in> set (dependents ns x)}"

lemma longest_step:
  assumes "\<And>x. x \<in> set (dependents ns i) \<Longrightarrow> \<exists>c \<le> m. longest ns x c"
    and "m = 0 \<or> (\<exists>x \<in> set (dependents ns i). longest ns x m)"
  shows "longest ns i (1 + m)"
  unfolding longest_def
proof
  from assms(2) show "\<exists>p. chain ns (i # p) \<and> length (i # p) = 1 + m"
  proof
    assume "m = 0"
    then show ?thesis by (intro exI [of _ "[]"]) simp
  next
    assume "\<exists>x \<in> set (dependents ns i). longest ns x m"
    then obtain x p where "x \<in> set (dependents ns i)" "chain ns (x # p)" "length (x # p) = m" by (auto simp: longest_def)
    then show ?thesis by (intro exI [of _ "x # p"]) simp
  qed
  show "\<forall>p. chain ns (i # p) \<longrightarrow> length (i # p) \<le> 1 + m"
  proof (intro allI impI)
    fix p assume ch: "chain ns (i # p)"
    show "length (i # p) \<le> 1 + m"
    proof (cases p)
      case (Cons x rest)
      with ch assms(1) obtain c where "c \<le> m" "longest ns x c" "chain ns (x # rest)" by auto
      with Cons show ?thesis by (auto simp: longest_def)
    qed simp
  qed
qed

lemma max_of_calls_longest:
  assumes "max_of_calls f xs m memo = Some (r, memo')" and "memo_ok ns memo"
    and "\<And>x memo c memo'. x \<in> set xs \<Longrightarrow> memo_ok ns memo \<Longrightarrow> f x memo = Some (c, memo') \<Longrightarrow> longest ns x c \<and> memo_ok ns memo'"
  shows "memo_ok ns memo' \<and> m \<le> r \<and> (r = m \<or> (\<exists>x \<in> set xs. longest ns x r)) \<and> (\<forall>x \<in> set xs. \<exists>c \<le> r. longest ns x c)"
  using assms
proof (induction xs arbitrary: m memo)
  case Nil
  then show ?case by simp
next
  case (Cons x xs)
  from Cons.prems(1) obtain l memo1 where f: "f x memo = Some (l, memo1)" and rest: "max_of_calls f xs (max m l) memo1 = Some (r, memo')"
    by (auto split: option.splits)
  have l: "longest ns x l" "memo_ok ns memo1" using Cons.prems(3) [OF _ Cons.prems(2) f] by auto
  have "memo_ok ns memo' \<and> max m l \<le> r \<and> (r = max m l \<or> (\<exists>x \<in> set xs. longest ns x r)) \<and> (\<forall>x \<in> set xs. \<exists>c \<le> r. longest ns x c)"
    by (rule Cons.IH [OF rest l(2)]) (use Cons.prems(3) in auto)
  then have le: "l \<le> r" "m \<le> r" and rest: "memo_ok ns memo'" "\<forall>x \<in> set xs. \<exists>c \<le> r. longest ns x c"
    and tight: "r = m \<or> r = l \<or> (\<exists>x \<in> set xs. longest ns x r)" by (auto simp: max_def split: if_splits)
  show ?case
    using le rest tight l(1) by auto
qed

lemma criticalPathLength_longest:
  assumes acy: "acyclic (downstream ns)"
  shows "criticalPathLength fuel ns visiting i memo = Some (c, memo') \<Longrightarrow> memo_ok ns memo \<Longrightarrow>
    (\<And>v. v \<in> set visiting \<Longrightarrow> (v, i) \<in> (downstream ns)\<^sup>+) \<Longrightarrow> longest ns i c \<and> memo_ok ns memo'"
proof (induction fuel arbitrary: visiting i memo c memo')
  case 0
  then show ?case by simp
next
  case (Suc fuel)
  show ?case
  proof (cases "js_get memo i")
    case (Some cached)
    with Suc.prems show ?thesis by (auto simp: memo_ok_def)
  next
    case None
    have fresh: "i \<notin> set visiting" using Suc.prems(3) acy by (auto simp: acyclic_def)
    with Suc.prems(1) None obtain m memo1 where
      m: "max_of_calls (criticalPathLength fuel ns (i # visiting)) (dependents ns i) 0 memo = Some (m, memo1)"
      and c: "c = 1 + m" "memo' = js_set memo1 i (1 + m)"
      by (auto split: option.splits)
    have rec: "longest ns x d \<and> memo_ok ns memo3"
      if "x \<in> set (dependents ns i)" "memo_ok ns memo2" "criticalPathLength fuel ns (i # visiting) x memo2 = Some (d, memo3)"
      for x memo2 d memo3
    proof (rule Suc.IH [OF that(3,2)])
      fix v assume v: "v \<in> set (i # visiting)"
      have ix: "(i, x) \<in> downstream ns" using that(1) by (simp add: downstream_def)
      show "(v, x) \<in> (downstream ns)\<^sup>+"
        using v ix Suc.prems(3) by (auto intro: trancl_into_trancl)
    qed
    have mx: "memo_ok ns memo1 \<and> 0 \<le> m \<and> (m = 0 \<or> (\<exists>x \<in> set (dependents ns i). longest ns x m)) \<and>
        (\<forall>x \<in> set (dependents ns i). \<exists>c \<le> m. longest ns x c)"
      by (rule max_of_calls_longest [OF m Suc.prems(2)]) (rule rec)
    have "longest ns i (1 + m)" by (rule longest_step) (use mx in blast)+
    with mx c show ?thesis by (auto simp: memo_ok_def)
  qed
qed

lemma max_of_calls_total:
  "(\<And>x memo. x \<in> set xs \<Longrightarrow> f x memo \<noteq> None) \<Longrightarrow> max_of_calls f xs m memo \<noteq> None"
proof (induction xs arbitrary: m memo)
  case (Cons x xs)
  obtain l memo1 where "f x memo = Some (l, memo1)" using Cons.prems [of x memo] by auto
  with Cons show ?case by auto
qed simp

abbreviation node_indices :: "lane_nodes \<Rightarrow> int set" where
  "node_indices ns \<equiv> ln_index ` set (js_values ns)"

lemma dependents_indices: "x \<in> set (dependents ns i) \<Longrightarrow> x \<in> node_indices ns"
  by (auto simp: dependents_def)

lemma criticalPathLength_total_node:
  "i \<in> node_indices ns \<Longrightarrow> card (node_indices ns - set visiting) < fuel \<Longrightarrow> criticalPathLength fuel ns visiting i memo \<noteq> None"
proof (induction fuel arbitrary: visiting i memo)
  case 0
  then show ?case by simp
next
  case (Suc fuel)
  show ?case
  proof (cases "js_get memo i \<noteq> None \<or> i \<in> set visiting")
    case True
    then show ?thesis by (auto split: option.split)
  next
    case False
    have "node_indices ns - set (i # visiting) = (node_indices ns - set visiting) - {i}" by auto
    moreover have "i \<in> node_indices ns - set visiting" using Suc.prems(1) False by blast
    ultimately have "card (node_indices ns - set (i # visiting)) < card (node_indices ns - set visiting)"
      by (metis card_Diff1_less finite_Diff finite_imageI finite_set)
    then have "card (node_indices ns - set (i # visiting)) < fuel" using Suc.prems(2) by linarith
    then have "max_of_calls (criticalPathLength fuel ns (i # visiting)) (dependents ns i) 0 memo \<noteq> None"
      by (intro max_of_calls_total Suc.IH dependents_indices)
    with False show ?thesis by auto
  qed
qed

lemma criticalPathLength_total: "criticalPathLength (length ns + 2) ns [] i memo \<noteq> None"
proof -
  have card: "card (node_indices ns - set xs) < length ns + 1" for xs
  proof -
    have "card (node_indices ns - set xs) \<le> card (node_indices ns)" by (rule card_mono) auto
    also have "\<dots> \<le> length ns" by (metis card_image_le card_length length_map finite_set order_trans)
    finally show ?thesis by simp
  qed
  have "max_of_calls (criticalPathLength (length ns + 1) ns [i]) (dependents ns i) 0 memo \<noteq> None"
    by (intro max_of_calls_total criticalPathLength_total_node dependents_indices card)
  then show ?thesis by (auto split: option.split)
qed

lemma downstream_converse: "keyed_nodes ns \<Longrightarrow> downstream ns = (dep_edges ns)\<inverse>"
  by (force simp: downstream_def dep_edges_def dependents_def keyed_nodes_def dest: map_of_SomeD)

text \<open>
  The memoized critical-path search always returns, on graphs with cycles too; on a graph
  without cycles it returns the length of the longest chain of dependents from the lane, whatever
  correct entries the memo already holds, and it leaves the memo correct.
\<close>

theorem criticalPathLength_correct:
  assumes "reach dag_init dag_step d" and "acyclic (dep_edges (dg_nodes d))" and "memo_ok (dg_nodes d) memo"
  shows "\<exists>c memo'. criticalPathLength (length (dg_nodes d) + 2) (dg_nodes d) [] i memo = Some (c, memo') \<and>
    longest (dg_nodes d) i c \<and> memo_ok (dg_nodes d) memo'"
proof -
  have "keyed_nodes (dg_nodes d)" using lanes.reach_inv [OF assms(1)] by (simp add: dag_inv_def)
  then have acy: "acyclic (downstream (dg_nodes d))" using assms(2) by (simp add: downstream_converse acyclic_converse)
  obtain c memo' where "criticalPathLength (length (dg_nodes d) + 2) (dg_nodes d) [] i memo = Some (c, memo')"
    using criticalPathLength_total [of "dg_nodes d" i memo] by auto
  with criticalPathLength_longest [OF acy this assms(3)] show ?thesis by simp
qed

theorem criticalPathLength_correct_witness:
  "criticalPathLength 6 (dg_nodes diamond_dag) [] 0 [] = Some (3, [(3, 1), (1, 2), (2, 2), (0, 3)]) \<and>
   longest (dg_nodes diamond_dag) 0 3"
proof -
  have run: "criticalPathLength 6 (dg_nodes diamond_dag) [] 0 [] = Some (3, [(3, 1), (1, 2), (2, 2), (0, 3)])" by code_simp
  have len: "length (dg_nodes diamond_dag) + 2 = 6" by code_simp
  have "memo_ok (dg_nodes diamond_dag) []" by (simp add: memo_ok_def)
  from criticalPathLength_correct [OF diamond_reach diamond_acyclic this, of 0] run len show ?thesis by (auto simp del: criticalPathLength.simps)
qed

text \<open>
  The state version detects every change: along any run of operations, either the graph is
  exactly as it was or its version has grown, so an unchanged version means an unchanged graph;
  and the dependencies of a lane never change.
\<close>

theorem version_identifies_graph:
  assumes "reach dag_init dag_step d" and "dag_step\<^sup>*\<^sup>* d d'"
  shows "(dg_stateVersion d' = dg_stateVersion d \<longleftrightarrow> d' = d) \<and> dg_stateVersion d \<le> dg_stateVersion d' \<and>
    (\<forall>i. map_option ln_dependsOn (getNode d' i) = map_option ln_dependsOn (getNode d i))"
  using lanes.steps_leq [OF assms(2) lanes.reach_inv [OF assms(1)]] by (auto simp: dag_leq_def)

theorem version_identifies_graph_witness:
  "dg_stateVersion (markSealed 1 diamond_dag) \<noteq> dg_stateVersion diamond_dag"
proof -
  have "dag_step diamond_dag (markSealed 1 diamond_dag)" unfolding dag_step_def by (metis apply_lane_op.simps(2))
  moreover have "getNode (markSealed 1 diamond_dag) 1 \<noteq> getNode diamond_dag 1" by code_simp
  ultimately show ?thesis using version_identifies_graph [OF diamond_reach r_into_rtranclp] by metis
qed

end
