(* ===== verification/Sibling_Graph.thy ===== *)
theory Sibling_Graph
  imports Prelude
begin

text \<open>
  The dependency graph of sibling tool calls and its validation, the first half of
  \<^verbatim>\<open>src/core/task/tools/siblings/SiblingToolScheduler.ts\<close> (types from
  \<^verbatim>\<open>SiblingToolDependency.ts\<close>). The depth-first search marks sequences in a map and keeps a
  stack; it carries fuel, and \<open>None\<close> is a search that has not returned.
\<close>

section \<open>Nodes\<close>

datatype sibling_dependency_kind = Conflict | Prerequisite | Barrier

record sibling_edge =
  se_sequence :: int
  se_kind :: sibling_dependency_kind

record sibling_node =
  nd_id :: string
  nd_sequence :: int
  nd_dependencyEdges :: "sibling_edge list"

datatype graph_error =
    Duplicate_sequences "int list"
  | Self_dependency int
  | Missing_sequence int int
  | Dependency_cycle "int list"

definition nodesBySequence :: "sibling_node list \<Rightarrow> int \<Rightarrow> sibling_node option" where
  "nodesBySequence nodes i = map_of (rev (map (\<lambda>n. (nd_sequence n, n)) nodes)) i"

definition edges_of :: "sibling_node list \<Rightarrow> int \<Rightarrow> int list" where
  "edges_of nodes i = (case nodesBySequence nodes i of None \<Rightarrow> [] | Some n \<Rightarrow> map se_sequence (nd_dependencyEdges n))"

section \<open>Validation\<close>

text \<open>The first loop: sequences that occur again, in the order a \<^verbatim>\<open>Set\<close> keeps them.\<close>

fun duplicate_sequences :: "int list \<Rightarrow> int list \<Rightarrow> int list \<Rightarrow> int list" where
  "duplicate_sequences seen dups [] = dups"
| "duplicate_sequences seen dups (x # xs) =
     duplicate_sequences (x # seen) (if x \<in> set seen \<and> x \<notin> set dups then dups @ [x] else dups) xs"

definition edge_error :: "sibling_node list \<Rightarrow> sibling_node \<Rightarrow> sibling_edge \<Rightarrow> graph_error option" where
  "edge_error nodes n e =
     (if se_sequence e = nd_sequence n then Some (Self_dependency (nd_sequence n))
      else if nodesBySequence nodes (se_sequence e) = None then Some (Missing_sequence (se_sequence e) (nd_sequence n))
      else None)"

fun first_error :: "('a \<Rightarrow> 'e option) \<Rightarrow> 'a list \<Rightarrow> 'e option" where
  "first_error f [] = None"
| "first_error f (x # xs) = (case f x of Some e \<Rightarrow> Some e | None \<Rightarrow> first_error f xs)"

definition edges_error :: "sibling_node list \<Rightarrow> graph_error option" where
  "edges_error nodes = first_error (\<lambda>n. first_error (edge_error nodes n) (nd_dependencyEdges n)) nodes"

datatype visit_mark = Visiting | Visited

record dfs_state =
  df_marks :: "(int, visit_mark) jsmap"
  df_stack :: "int list"

text \<open>The stack from the first occurrence of the repeated sequence on.\<close>

definition cycle_of :: "int list \<Rightarrow> int \<Rightarrow> int list" where
  "cycle_of stack i = (if i \<in> set stack then dropWhile (\<lambda>x. x \<noteq> i) stack else stack) @ [i]"

fun visit_all :: "(int \<Rightarrow> dfs_state \<Rightarrow> (graph_error + dfs_state) option) \<Rightarrow> int list \<Rightarrow> dfs_state \<Rightarrow> (graph_error + dfs_state) option" where
  "visit_all f [] st = Some (Inr st)"
| "visit_all f (i # is) st =
     (case f i st of None \<Rightarrow> None | Some (Inl e) \<Rightarrow> Some (Inl e) | Some (Inr st') \<Rightarrow> visit_all f is st')"

primrec visit :: "nat \<Rightarrow> sibling_node list \<Rightarrow> int \<Rightarrow> dfs_state \<Rightarrow> (graph_error + dfs_state) option" where
  "visit 0 nodes i st = None"
| "visit (Suc fuel) nodes i st =
     (if js_get (df_marks st) i = Some Visited then Some (Inr st)
      else if js_get (df_marks st) i = Some Visiting then Some (Inl (Dependency_cycle (cycle_of (df_stack st) i)))
      else (case visit_all (visit fuel nodes) (edges_of nodes i)
                   \<lparr>df_marks = js_set (df_marks st) i Visiting, df_stack = df_stack st @ [i]\<rparr> of
              None \<Rightarrow> None
            | Some (Inl e) \<Rightarrow> Some (Inl e)
            | Some (Inr st') \<Rightarrow> Some (Inr \<lparr>df_marks = js_set (df_marks st') i Visited, df_stack = butlast (df_stack st')\<rparr>)))"

text \<open>Every nested call marks one more sequence, so the calls nest at most once per node.\<close>

definition validateDependencyGraph :: "sibling_node list \<Rightarrow> graph_error option option" where
  "validateDependencyGraph nodes =
     (let dups = duplicate_sequences [] [] (map nd_sequence nodes)
      in if dups \<noteq> [] then Some (Some (Duplicate_sequences dups))
         else (case edges_error nodes of
                 Some e \<Rightarrow> Some (Some e)
               | None \<Rightarrow>
                   (case visit_all (visit (length nodes + 1) nodes) (map nd_sequence nodes) \<lparr>df_marks = [], df_stack = []\<rparr> of
                      None \<Rightarrow> None
                    | Some (Inl e) \<Rightarrow> Some (Some e)
                    | Some (Inr st) \<Rightarrow> Some None)))"

section \<open>The checks before the search\<close>

definition sibling_edges :: "sibling_node list \<Rightarrow> (int \<times> int) set" where
  "sibling_edges nodes = {(i, j). j \<in> set (edges_of nodes i)}"

lemma duplicate_sequences_mono: "set dups \<subseteq> set (duplicate_sequences seen dups xs)"
  by (induction seen dups xs rule: duplicate_sequences.induct) (auto split: if_splits)

lemma duplicate_sequences_Nil:
  "duplicate_sequences seen [] xs = [] \<longleftrightarrow> distinct xs \<and> set xs \<inter> set seen = {}"
proof (induction xs arbitrary: seen)
  case Nil
  then show ?case by simp
next
  case (Cons x xs)
  show ?case
  proof (cases "x \<in> set seen")
    case True
    then have "x \<in> set (duplicate_sequences (x # seen) [x] xs)"
      using duplicate_sequences_mono [of "[x]" "x # seen" xs] by simp
    with True show ?thesis by auto
  next
    case False
    with Cons [of "x # seen"] show ?thesis by auto
  qed
qed

lemma first_error_None: "first_error f xs = None \<longleftrightarrow> (\<forall>x \<in> set xs. f x = None)"
  by (induction xs) (auto split: option.splits)

lemma first_error_Some: "first_error f xs = Some e \<Longrightarrow> \<exists>x \<in> set xs. f x = Some e"
  by (induction xs) (auto split: option.splits)

lemma nodesBySequence_iff:
  assumes "distinct (map nd_sequence nodes)"
  shows "nodesBySequence nodes i = Some n \<longleftrightarrow> n \<in> set nodes \<and> nd_sequence n = i"
proof -
  have "distinct (map fst (rev (map (\<lambda>n. (nd_sequence n, n)) nodes)))"
    using assms by (simp add: comp_def flip: rev_map)
  then show ?thesis by (auto simp: nodesBySequence_def)
qed

lemma nodesBySequence_None: "nodesBySequence nodes i = None \<longleftrightarrow> i \<notin> nd_sequence ` set nodes"
  by (force simp: nodesBySequence_def map_of_eq_None_iff)

lemma edges_of_nodes: "edges_of nodes i \<noteq> [] \<Longrightarrow> i \<in> nd_sequence ` set nodes"
  using nodesBySequence_None [of nodes i] by (auto simp: edges_of_def split: option.splits)

section \<open>The search\<close>

definition mark_set :: "visit_mark \<Rightarrow> dfs_state \<Rightarrow> int set" where
  "mark_set m st = {i. js_get (df_marks st) i = Some m}"

text \<open>Visited sequences have only visited successors and lie on no cycle.\<close>

definition dfs_inv :: "sibling_node list \<Rightarrow> dfs_state \<Rightarrow> bool" where
  "dfs_inv nodes st \<longleftrightarrow> mark_set Visited st \<subseteq> Wellfounded.acc ((sibling_edges nodes)\<inverse>)"

definition visit_ok :: "sibling_node list \<Rightarrow> int list \<Rightarrow> dfs_state \<Rightarrow> (graph_error + dfs_state) \<Rightarrow> bool" where
  "visit_ok nodes is st res \<longleftrightarrow>
     (case res of
        Inl e \<Rightarrow> \<not> acyclic (sibling_edges nodes)
      | Inr st' \<Rightarrow> dfs_inv nodes st' \<and> set is \<subseteq> mark_set Visited st' \<and> mark_set Visited st \<subseteq> mark_set Visited st' \<and>
          mark_set Visiting st' = mark_set Visiting st)"

lemma visit_all_ok:
  assumes "visit_all f is st = Some res" and "dfs_inv nodes st"
    and "\<And>i st res. i \<in> set is \<Longrightarrow> dfs_inv nodes st \<Longrightarrow> P st \<Longrightarrow> f i st = Some res \<Longrightarrow> visit_ok nodes [i] st res"
    and "\<And>st st'. P st \<Longrightarrow> mark_set Visiting st' = mark_set Visiting st \<Longrightarrow> P st'" and "P st"
  shows "visit_ok nodes is st res"
  using assms
proof (induction "is" arbitrary: st)
  case Nil
  then show ?case by (auto simp: visit_ok_def)
next
  case (Cons i "is")
  from Cons.prems(1) obtain r where r: "f i st = Some r" by (auto split: option.splits)
  have ok: "visit_ok nodes [i] st r" by (rule Cons.prems(3) [OF _ Cons.prems(2,5) r]) simp
  show ?case
  proof (cases r)
    case (Inl e)
    with Cons.prems(1) r ok show ?thesis by (auto simp: visit_ok_def)
  next
    case (Inr st1)
    with Cons.prems(1) r have rest: "visit_all f is st1 = Some res" by simp
    from ok Inr have st1: "dfs_inv nodes st1" "i \<in> mark_set Visited st1" "mark_set Visited st \<subseteq> mark_set Visited st1"
      "mark_set Visiting st1 = mark_set Visiting st" by (simp_all add: visit_ok_def)
    have "visit_ok nodes is st1 res"
      by (rule Cons.IH [OF rest st1(1)]) (use Cons.prems(3-5) st1(4) in auto)
    with st1 show ?thesis by (auto simp: visit_ok_def split: sum.splits)
  qed
qed

lemma visit_ok_step:
  "visit fuel nodes i st = Some res \<Longrightarrow> dfs_inv nodes st \<Longrightarrow>
   (\<And>v. v \<in> mark_set Visiting st \<Longrightarrow> (v, i) \<in> (sibling_edges nodes)\<^sup>+) \<Longrightarrow> visit_ok nodes [i] st res"
proof (induction fuel arbitrary: i st res)
  case 0
  then show ?case by simp
next
  case (Suc fuel)
  show ?case
  proof (cases "js_get (df_marks st) i")
    case (Some m)
    show ?thesis
    proof (cases m)
      case Visited
      with Some Suc.prems show ?thesis by (auto simp: visit_ok_def mark_set_def)
    next
      case Visiting
      then have "(i, i) \<in> (sibling_edges nodes)\<^sup>+" using Some Suc.prems(3) by (simp add: mark_set_def)
      then have "\<not> acyclic (sibling_edges nodes)" by (auto simp: acyclic_def)
      with Some Visiting Suc.prems(1) show ?thesis by (auto simp: visit_ok_def)
    qed
  next
    case None
    let ?st = "\<lparr>df_marks = js_set (df_marks st) i Visiting, df_stack = df_stack st @ [i]\<rparr>"
    have vis: "mark_set Visiting ?st = insert i (mark_set Visiting st)" "mark_set Visited ?st = mark_set Visited st"
      using None by (auto simp: mark_set_def)
    from Suc.prems(1) None obtain r where r: "visit_all (visit fuel nodes) (edges_of nodes i) ?st = Some r"
      by (auto split: option.splits)
    have ok: "visit_ok nodes (edges_of nodes i) ?st r"
    proof (rule visit_all_ok [where P = "\<lambda>s. mark_set Visiting s = mark_set Visiting ?st", OF r])
      show "dfs_inv nodes ?st" using Suc.prems(2) by (simp add: dfs_inv_def vis)
      fix j s res' assume j: "j \<in> set (edges_of nodes i)" and s: "dfs_inv nodes s" "mark_set Visiting s = mark_set Visiting ?st"
        "visit fuel nodes j s = Some res'"
      show "visit_ok nodes [j] s res'"
      proof (rule Suc.IH [OF s(3,1)])
        fix v assume "v \<in> mark_set Visiting s"
        then have v: "v = i \<or> v \<in> mark_set Visiting st" using s(2) vis by auto
        have ij: "(i, j) \<in> sibling_edges nodes" using j by (simp add: sibling_edges_def)
        from v Suc.prems(3) ij show "(v, j) \<in> (sibling_edges nodes)\<^sup>+" by (auto intro: trancl_into_trancl)
      qed
    qed auto
    show ?thesis
    proof (cases r)
      case (Inl e)
      with Suc.prems(1) None r ok show ?thesis by (auto simp: visit_ok_def)
    next
      case (Inr st1)
      let ?st1 = "\<lparr>df_marks = js_set (df_marks st1) i Visited, df_stack = butlast (df_stack st1)\<rparr>"
      from Suc.prems(1) None r Inr have res: "res = Inr ?st1" by simp
      from ok Inr vis have st1: "dfs_inv nodes st1" "set (edges_of nodes i) \<subseteq> mark_set Visited st1"
        "mark_set Visited st \<subseteq> mark_set Visited st1" "mark_set Visiting st1 = insert i (mark_set Visiting st)"
        by (simp_all add: visit_ok_def)
      have m1: "mark_set Visited ?st1 = insert i (mark_set Visited st1)" "mark_set Visiting ?st1 = mark_set Visiting st1 - {i}"
        by (auto simp: mark_set_def)
      have "i \<in> Wellfounded.acc ((sibling_edges nodes)\<inverse>)"
        by (rule accI) (use st1(1,2) in \<open>auto simp: dfs_inv_def sibling_edges_def\<close>)
      then have "dfs_inv nodes ?st1" using st1(1) by (simp add: dfs_inv_def m1)
      moreover have "i \<notin> mark_set Visiting st" using None by (simp add: mark_set_def)
      ultimately show ?thesis using st1(3,4) by (auto simp: visit_ok_def res m1)
    qed
  qed
qed

text \<open>The search returns: a call nested below marked sequences has that many fewer to mark.\<close>

definition unmarked :: "sibling_node list \<Rightarrow> dfs_state \<Rightarrow> int set" where
  "unmarked nodes st = {i \<in> nd_sequence ` set nodes. js_get (df_marks st) i = None}"

lemma visit_all_total:
  assumes "\<And>i st. i \<in> set is \<Longrightarrow> P st \<Longrightarrow> \<exists>r. f i st = Some r \<and> (\<forall>st'. r = Inr st' \<longrightarrow> P st')" and "P st"
  shows "\<exists>r. visit_all f is st = Some r \<and> (\<forall>st'. r = Inr st' \<longrightarrow> P st')"
  using assms
proof (induction "is" arbitrary: st)
  case Nil
  then show ?case by simp
next
  case (Cons i "is")
  then obtain r where r: "f i st = Some r" "\<forall>st'. r = Inr st' \<longrightarrow> P st'" by force
  show ?case
  proof (cases r)
    case (Inl e)
    with r show ?thesis by simp
  next
    case (Inr st1)
    with r have "P st1" by simp
    with Cons.IH [of st1] Cons.prems(1) r Inr show ?thesis by auto
  qed
qed

lemma visit_total:
  assumes "\<forall>i. set (edges_of nodes i) \<subseteq> nd_sequence ` set nodes"
  shows "i \<in> nd_sequence ` set nodes \<Longrightarrow> unmarked nodes st \<subseteq> U \<Longrightarrow> finite U \<Longrightarrow> card U < fuel \<Longrightarrow>
    \<exists>r. visit fuel nodes i st = Some r \<and> (\<forall>st'. r = Inr st' \<longrightarrow> unmarked nodes st' \<subseteq> U)"
proof (induction fuel arbitrary: i st U)
  case 0
  then show ?case by simp
next
  case (Suc fuel)
  show ?case
  proof (cases "js_get (df_marks st) i")
    case (Some m)
    with Suc.prems(2) show ?thesis by (cases m) auto
  next
    case None
    let ?st = "\<lparr>df_marks = js_set (df_marks st) i Visiting, df_stack = df_stack st @ [i]\<rparr>"
    have i: "i \<in> U" using Suc.prems(1,2) None by (auto simp: unmarked_def)
    have sub: "unmarked nodes ?st \<subseteq> U - {i}" using Suc.prems(2) by (auto simp: unmarked_def)
    have card: "card (U - {i}) < fuel" using Suc.prems(3,4) i by (intro card_remove_less)
    have "\<exists>r. visit_all (visit fuel nodes) (edges_of nodes i) ?st = Some r \<and>
        (\<forall>st'. r = Inr st' \<longrightarrow> unmarked nodes st' \<subseteq> U - {i})"
    proof (rule visit_all_total [where P = "\<lambda>s. unmarked nodes s \<subseteq> U - {i}", OF _ sub])
      fix j s assume "j \<in> set (edges_of nodes i)" "unmarked nodes s \<subseteq> U - {i}"
      with assms Suc.prems(3) card show "\<exists>r. visit fuel nodes j s = Some r \<and> (\<forall>st'. r = Inr st' \<longrightarrow> unmarked nodes st' \<subseteq> U - {i})"
        by (intro Suc.IH) auto
    qed
    then obtain r where r: "visit_all (visit fuel nodes) (edges_of nodes i) ?st = Some r"
      "\<forall>st'. r = Inr st' \<longrightarrow> unmarked nodes st' \<subseteq> U - {i}" by blast
    show ?thesis
    proof (cases r)
      case (Inl e)
      with r None show ?thesis by simp
    next
      case (Inr st1)
      with r have "unmarked nodes st1 \<subseteq> U - {i}" by simp
      then have "unmarked nodes \<lparr>df_marks = js_set (df_marks st1) i Visited, df_stack = butlast (df_stack st1)\<rparr> \<subseteq> U"
        by (auto simp: unmarked_def split: if_splits)
      with r(1) None Inr show ?thesis by simp
    qed
  qed
qed

section \<open>What validation accepts\<close>

definition valid_graph :: "sibling_node list \<Rightarrow> bool" where
  "valid_graph nodes \<longleftrightarrow> distinct (map nd_sequence nodes) \<and>
     (\<forall>i. set (edges_of nodes i) \<subseteq> nd_sequence ` set nodes) \<and> acyclic (sibling_edges nodes)"

lemma edges_error_None:
  assumes "distinct (map nd_sequence nodes)"
  shows "edges_error nodes = None \<longleftrightarrow>
    (\<forall>i. set (edges_of nodes i) \<subseteq> nd_sequence ` set nodes) \<and> (\<forall>i. i \<notin> set (edges_of nodes i))"
proof -
  have edge: "edge_error nodes n e = None \<longleftrightarrow> se_sequence e \<noteq> nd_sequence n \<and> se_sequence e \<in> nd_sequence ` set nodes" for n e
    using nodesBySequence_None [of nodes "se_sequence e"] by (auto simp: edge_error_def)
  have "(\<exists>n \<in> set nodes. nd_sequence n = i \<and> (\<exists>e \<in> set (nd_dependencyEdges n). se_sequence e = j)) \<longleftrightarrow> j \<in> set (edges_of nodes i)" for i j
    using nodesBySequence_iff [OF assms, of i] by (auto simp: edges_of_def split: option.split)
      (metis image_eqI option.distinct(1), metis image_eqI option.inject)
  then have "(\<forall>n \<in> set nodes. \<forall>e \<in> set (nd_dependencyEdges n). Q (nd_sequence n) (se_sequence e)) \<longleftrightarrow>
      (\<forall>i j. j \<in> set (edges_of nodes i) \<longrightarrow> Q i j)" for Q
    by metis
  from this [of "\<lambda>i j. j \<noteq> i \<and> j \<in> nd_sequence ` set nodes"] show ?thesis
    unfolding edges_error_def first_error_None edge by blast
qed

lemma validation_decides:
  "\<exists>err. validateDependencyGraph nodes = Some err \<and> (err = None \<longleftrightarrow> valid_graph nodes)"
proof (cases "distinct (map nd_sequence nodes)")
  case False
  then have "duplicate_sequences [] [] (map nd_sequence nodes) \<noteq> []" using duplicate_sequences_Nil by auto
  with False show ?thesis by (simp add: validateDependencyGraph_def Let_def valid_graph_def)
next
  case dist: True
  then have nodup: "duplicate_sequences [] [] (map nd_sequence nodes) = []" by (simp add: duplicate_sequences_Nil)
  show ?thesis
  proof (cases "edges_error nodes")
    case (Some e)
    then have "\<not> ((\<forall>i. set (edges_of nodes i) \<subseteq> nd_sequence ` set nodes) \<and> (\<forall>i. i \<notin> set (edges_of nodes i)))"
      using edges_error_None [OF dist] by simp
    moreover have "acyclic (sibling_edges nodes) \<Longrightarrow> i \<notin> set (edges_of nodes i)" for i
      by (auto simp: acyclic_def sibling_edges_def)
    ultimately have "\<not> valid_graph nodes" by (auto simp: valid_graph_def)
    with nodup Some show ?thesis by (simp add: validateDependencyGraph_def)
  next
    case None
    then have closed: "\<forall>i. set (edges_of nodes i) \<subseteq> nd_sequence ` set nodes" using edges_error_None [OF dist] by simp
    let ?st = "\<lparr>df_marks = [], df_stack = []\<rparr>" and ?fuel = "length nodes + 1"
    have "\<exists>r. visit_all (visit ?fuel nodes) (map nd_sequence nodes) ?st = Some r \<and>
        (\<forall>st'. r = Inr st' \<longrightarrow> unmarked nodes st' \<subseteq> nd_sequence ` set nodes)"
    proof (rule visit_all_total)
      show "unmarked nodes ?st \<subseteq> nd_sequence ` set nodes" by (auto simp: unmarked_def)
      fix i st assume "i \<in> set (map nd_sequence nodes)" and "unmarked nodes st \<subseteq> nd_sequence ` set nodes"
      moreover have "card (nd_sequence ` set nodes) < ?fuel"
        using card_image_le [of "set nodes" nd_sequence] card_length [of nodes] by simp
      ultimately show "\<exists>r. visit ?fuel nodes i st = Some r \<and> (\<forall>st'. r = Inr st' \<longrightarrow> unmarked nodes st' \<subseteq> nd_sequence ` set nodes)"
        by (intro visit_total [OF closed]) auto
    qed
    then obtain r where r: "visit_all (visit ?fuel nodes) (map nd_sequence nodes) ?st = Some r" by blast
    have ok: "visit_ok nodes (map nd_sequence nodes) ?st r"
    proof (rule visit_all_ok [OF r, where P = "\<lambda>s. mark_set Visiting s = {}"])
      fix i st res assume "dfs_inv nodes st" "mark_set Visiting st = {}" "visit ?fuel nodes i st = Some res"
      then show "visit_ok nodes [i] st res" by (intro visit_ok_step [where fuel = ?fuel]) (simp_all del: visit.simps)
    qed (auto simp: dfs_inv_def mark_set_def)
    show ?thesis
    proof (cases r)
      case (Inl e)
      with ok have "\<not> valid_graph nodes" by (simp add: visit_ok_def valid_graph_def)
      with nodup None r Inl show ?thesis by (simp add: validateDependencyGraph_def)
    next
      case (Inr st')
      have "acyclic (sibling_edges nodes)"
        unfolding acyclic_def
      proof (intro allI notI)
        fix x assume cyc: "(x, x) \<in> (sibling_edges nodes)\<^sup>+"
        then obtain y where "(x, y) \<in> sibling_edges nodes" by (auto dest: tranclD)
        then have "x \<in> nd_sequence ` set nodes" using edges_of_nodes by (force simp: sibling_edges_def)
        then have "x \<in> Wellfounded.acc ((sibling_edges nodes)\<inverse>)" using ok Inr by (auto simp: visit_ok_def dfs_inv_def)
        from acc_no_cycle [OF this] cyc show False by contradiction
      qed
      with dist closed have "valid_graph nodes" by (simp add: valid_graph_def)
      with nodup None r Inr show ?thesis by (simp add: validateDependencyGraph_def)
    qed
  qed
qed

lemma validated_graph: "validateDependencyGraph nodes = Some None \<Longrightarrow> valid_graph nodes"
  using validation_decides [of nodes] by auto

text \<open>
  C39. Validation decides: for every list of nodes it returns, and it raises no error exactly when
  the sequences are distinct, every dependency names a node of the list, and the dependencies have
  no cycle.
\<close>

theorem validateDependencyGraph_correct:
  "\<exists>err. validateDependencyGraph nodes = Some err \<and> (err = None \<longleftrightarrow> valid_graph nodes)"
  by (rule validation_decides)

end
