(* ===== verification/Sibling_Scheduler.thy ===== *)
theory Sibling_Scheduler
  imports Sibling_Graph
begin

text \<open>
  The bounded scheduler of sibling tool calls, \<^verbatim>\<open>SiblingToolScheduler.execute\<close> of
  \<^verbatim>\<open>src/core/task/tools/siblings/SiblingToolScheduler.ts\<close>.

  The admission loop runs to its next \<^verbatim>\<open>await\<close> without interruption; the promises of running
  siblings settle in between. A state keeps the rest of the pass under way (\<open>ss_work\<close>), and the
  step relation interleaves the loop's iterations with cancellation, settlement (the \<^verbatim>\<open>then\<close> and
  \<^verbatim>\<open>catch\<close> callbacks), the \<^verbatim>\<open>finally\<close> callback and the stall timer. The callbacks \<^verbatim>\<open>canStart\<close>,
  \<^verbatim>\<open>run\<close> and \<^verbatim>\<open>classifyResult\<close> may answer anything. Time stamps and the advisory events are
  not modelled.
\<close>

section \<open>State\<close>

datatype sibling_status = Succeeded | Sib_failed | Sib_cancelled | Skipped

datatype sibling_error =
    Cancelled_before_dispatch
  | Admission_failed string
  | Prerequisite_failed
  | Scheduling_stalled
  | Run_error string
  | Classified_error string

record 'v envelope =
  en_id :: string
  en_sequence :: int
  en_status :: sibling_status
  en_value :: "'v option"
  en_error :: "sibling_error option"

record 'v sib_state =
  ss_pending :: "int list"
  ss_running :: "int list"
  ss_results :: "(int, 'v envelope) jsmap"
  ss_aborted :: bool
  ss_work :: "int list"
  ss_progress :: bool

datatype sibling_admission = Admit | Defer | Admission_throws string

definition sib_start :: "sibling_node list \<Rightarrow> 'v sib_state" where
  "sib_start nodes = \<lparr>ss_pending = map nd_sequence nodes, ss_running = [], ss_results = [], ss_aborted = False,
     ss_work = [], ss_progress = True\<rparr>"

section \<open>The loop\<close>

definition completeWithoutRun :: "sibling_node \<Rightarrow> sibling_status \<Rightarrow> sibling_error \<Rightarrow> 'v sib_state \<Rightarrow> 'v sib_state" where
  "completeWithoutRun n status err s =
     s\<lparr>ss_results := js_set (ss_results s) (nd_sequence n)
         \<lparr>en_id = nd_id n, en_sequence = nd_sequence n, en_status = status, en_value = None, en_error = Some err\<rparr>,
       ss_pending := removeAll (nd_sequence n) (ss_pending s)\<rparr>"

definition made_progress :: "'v sib_state \<Rightarrow> 'v sib_state" where
  "made_progress s = s\<lparr>ss_progress := True\<rparr>"

definition prerequisite_failed :: "'v sib_state \<Rightarrow> sibling_node \<Rightarrow> bool" where
  "prerequisite_failed s n \<longleftrightarrow>
     list_ex (\<lambda>e. case js_get (ss_results s) (se_sequence e) of
         None \<Rightarrow> False | Some r \<Rightarrow> se_kind e \<noteq> Conflict \<and> en_status r \<noteq> Succeeded) (nd_dependencyEdges n)"

definition dependencies_settled :: "'v sib_state \<Rightarrow> sibling_node \<Rightarrow> bool" where
  "dependencies_settled s n \<longleftrightarrow>
     list_all (\<lambda>e. js_get (ss_results s) (se_sequence e) \<noteq> None) (nd_dependencyEdges n)"

definition start_sibling :: "int \<Rightarrow> 'v sib_state \<Rightarrow> 'v sib_state" where
  "start_sibling i s = s\<lparr>ss_pending := removeAll i (ss_pending s), ss_running := ss_running s @ [i]\<rparr>"

text \<open>One iteration of the pass over the pending siblings.\<close>

definition process_node ::
  "nat \<Rightarrow> sibling_node list \<Rightarrow> sibling_admission \<Rightarrow> int \<Rightarrow> 'v sib_state \<Rightarrow> 'v sib_state" where
  "process_node capacity nodes adm i s =
     (case nodesBySequence nodes i of
        None \<Rightarrow> s
      | Some n \<Rightarrow>
          if ss_aborted s then made_progress (completeWithoutRun n Sib_cancelled Cancelled_before_dispatch s)
          else (case adm of
              Defer \<Rightarrow> s
            | Admission_throws msg \<Rightarrow> made_progress (completeWithoutRun n Skipped (Admission_failed msg) s)
            | Admit \<Rightarrow>
                if prerequisite_failed s n then made_progress (completeWithoutRun n Skipped Prerequisite_failed s)
                else if \<not> dependencies_settled s n \<or> capacity \<le> length (ss_running s) then s
                else made_progress (start_sibling i s)))"

definition settle_envelope :: "sibling_node \<Rightarrow> sibling_status \<Rightarrow> 'v option \<Rightarrow> sibling_error option \<Rightarrow> 'v envelope" where
  "settle_envelope n status v err =
     \<lparr>en_id = nd_id n, en_sequence = nd_sequence n, en_status = status, en_value = v, en_error = err\<rparr>"

definition settle_sibling :: "int \<Rightarrow> 'v envelope \<Rightarrow> 'v sib_state \<Rightarrow> 'v sib_state" where
  "settle_sibling i env s = s\<lparr>ss_results := js_set (ss_results s) i env\<rparr>"

definition stall_all :: "sibling_node list \<Rightarrow> 'v sib_state \<Rightarrow> 'v sib_state" where
  "stall_all nodes s =
     fold (\<lambda>i s. case nodesBySequence nodes i of None \<Rightarrow> s | Some n \<Rightarrow> completeWithoutRun n Skipped Scheduling_stalled s)
       (ss_pending s) s"

inductive sib_step :: "nat \<Rightarrow> sibling_node list \<Rightarrow> 'v sib_state \<Rightarrow> 'v sib_state \<Rightarrow> bool" for capacity nodes where
  begin_pass:
    "ss_work s = [] \<Longrightarrow> ss_pending s \<noteq> [] \<or> ss_running s \<noteq> [] \<Longrightarrow>
     sib_step capacity nodes s (s\<lparr>ss_work := ss_pending s, ss_progress := False, ss_aborted := ss_aborted s \<or> isCancelled\<rparr>)"
| iterate:
    "ss_work s = i # rest \<Longrightarrow> sib_step capacity nodes s (process_node capacity nodes adm i (s\<lparr>ss_work := rest\<rparr>))"
| cancel: "sib_step capacity nodes s (s\<lparr>ss_aborted := True\<rparr>)"
| run_returns:
    "ss_work s = [] \<Longrightarrow> i \<in> set (ss_running s) \<Longrightarrow> js_get (ss_results s) i = None \<Longrightarrow> nodesBySequence nodes i = Some n \<Longrightarrow>
     status = Succeeded \<or> status = Sib_failed \<Longrightarrow>
     sib_step capacity nodes s (settle_sibling i (settle_envelope n status (Some v) (map_option Classified_error err)) s)"
| run_throws:
    "ss_work s = [] \<Longrightarrow> i \<in> set (ss_running s) \<Longrightarrow> js_get (ss_results s) i = None \<Longrightarrow> nodesBySequence nodes i = Some n \<Longrightarrow>
     sib_step capacity nodes s (settle_sibling i
       (settle_envelope n (if ss_aborted s then Sib_cancelled else Sib_failed) None (Some (Run_error msg))) s)"
| run_finally:
    "ss_work s = [] \<Longrightarrow> i \<in> set (ss_running s) \<Longrightarrow> js_get (ss_results s) i \<noteq> None \<Longrightarrow>
     sib_step capacity nodes s (s\<lparr>ss_running := removeAll i (ss_running s)\<rparr>)"
| stall:
    "ss_work s = [] \<Longrightarrow> \<not> ss_progress s \<Longrightarrow> ss_running s = [] \<Longrightarrow> ss_pending s \<noteq> [] \<Longrightarrow>
     sib_step capacity nodes s (stall_all nodes s)"

text \<open>What \<^verbatim>\<open>execute\<close> resolves to when the loop has ended.\<close>

definition execute_result :: "sibling_node list \<Rightarrow> 'v sib_state \<Rightarrow> 'v envelope list" where
  "execute_result nodes s = List.map_filter (\<lambda>n. js_get (ss_results s) (nd_sequence n)) nodes"

text \<open>One whole pass, with the answers of \<^verbatim>\<open>canStart\<close>.\<close>

definition run_pass :: "nat \<Rightarrow> sibling_node list \<Rightarrow> (int \<Rightarrow> sibling_admission) \<Rightarrow> 'v sib_state \<Rightarrow> 'v sib_state" where
  "run_pass capacity nodes canStart s =
     fold (\<lambda>i. process_node capacity nodes (canStart i) i) (ss_pending s) (s\<lparr>ss_progress := False\<rparr>)"

section \<open>The invariant\<close>

definition deps_ok :: "sibling_node list \<Rightarrow> 'v sib_state \<Rightarrow> int \<Rightarrow> bool" where
  "deps_ok nodes s i \<longleftrightarrow>
     (\<forall>n. nodesBySequence nodes i = Some n \<longrightarrow>
        (\<forall>e \<in> set (nd_dependencyEdges n). \<exists>r. js_get (ss_results s) (se_sequence e) = Some r \<and>
           (se_kind e \<noteq> Conflict \<longrightarrow> en_status r = Succeeded)))"

definition ran :: "'v sib_state \<Rightarrow> int \<Rightarrow> bool" where
  "ran s i \<longleftrightarrow> (\<exists>r. js_get (ss_results s) i = Some r \<and> (en_status r = Succeeded \<or> en_status r = Sib_failed))"

definition envelope_ok :: "sibling_node list \<Rightarrow> int \<Rightarrow> 'v envelope \<Rightarrow> bool" where
  "envelope_ok nodes i r \<longleftrightarrow> (\<exists>n \<in> set nodes. nd_sequence n = i \<and> en_sequence r = i \<and> en_id r = nd_id n)"

definition sib_shape :: "nat \<Rightarrow> sibling_node list \<Rightarrow> 'v sib_state \<Rightarrow> bool" where
  "sib_shape capacity nodes s \<longleftrightarrow>
     distinct (map nd_sequence nodes) \<and>
     length (ss_running s) \<le> capacity \<and>
     distinct (ss_pending s) \<and> distinct (ss_running s) \<and> set (ss_pending s) \<inter> set (ss_running s) = {} \<and>
     set (ss_pending s) \<inter> fst ` set (ss_results s) = {} \<and>
     set (ss_pending s) \<union> set (ss_running s) \<union> fst ` set (ss_results s) = nd_sequence ` set nodes \<and>
     distinct (ss_work s) \<and> set (ss_work s) \<subseteq> set (ss_pending s) \<and>
     (\<forall>i r. js_get (ss_results s) i = Some r \<longrightarrow> envelope_ok nodes i r)"

definition sib_deps :: "sibling_node list \<Rightarrow> 'v sib_state \<Rightarrow> bool" where
  "sib_deps nodes s \<longleftrightarrow> (\<forall>i. i \<in> set (ss_running s) \<or> ran s i \<longrightarrow> deps_ok nodes s i)"

definition sib_inv :: "nat \<Rightarrow> sibling_node list \<Rightarrow> 'v sib_state \<Rightarrow> bool" where
  "sib_inv capacity nodes s \<longleftrightarrow> sib_shape capacity nodes s \<and> sib_deps nodes s"

definition sib_init :: "sibling_node list \<Rightarrow> 'v sib_state \<Rightarrow> bool" where
  "sib_init nodes s \<longleftrightarrow> distinct (map nd_sequence nodes) \<and> s = sib_start nodes"

text \<open>Results are final.\<close>

definition sib_leq :: "'v sib_state \<Rightarrow> 'v sib_state \<Rightarrow> bool" where
  "sib_leq s s' \<longleftrightarrow> (\<forall>i r. js_get (ss_results s) i = Some r \<longrightarrow> js_get (ss_results s') i = Some r)"

lemma sib_inv_init: "sib_init nodes s \<Longrightarrow> sib_inv capacity nodes s"
  by (auto simp: sib_init_def sib_inv_def sib_shape_def sib_deps_def sib_start_def ran_def)

lemma deps_ok_mono: "deps_ok nodes s i \<Longrightarrow> sib_leq s s' \<Longrightarrow> deps_ok nodes s' i"
  unfolding deps_ok_def sib_leq_def by meson

text \<open>Later results keep the dependencies of whatever ran before.\<close>

lemma sib_deps_mono:
  assumes "sib_deps nodes s" and "sib_leq s s'"
    and "\<And>i. i \<in> set (ss_running s') \<or> ran s' i \<Longrightarrow> i \<in> set (ss_running s) \<or> ran s i \<or> deps_ok nodes s' i"
  shows "sib_deps nodes s'"
  using assms deps_ok_mono [OF _ assms(2)] unfolding sib_deps_def by blast

text \<open>Adding the result of a sibling that has none yet.\<close>

lemma sib_inv_settle:
  assumes inv: "sib_inv capacity nodes s" and fresh: "js_get (ss_results s) i = None"
    and res: "ss_results s' = js_set (ss_results s) i r" and env: "envelope_ok nodes i r"
    and pend: "ss_pending s' = removeAll i (ss_pending s)" and run: "ss_running s' = ss_running s"
    and work: "distinct (ss_work s')" "set (ss_work s') \<subseteq> set (ss_pending s) - {i}"
    and ran: "en_status r = Succeeded \<or> en_status r = Sib_failed \<Longrightarrow> i \<in> set (ss_running s)"
  shows "sib_inv capacity nodes s' \<and> sib_leq s s'"
proof -
  have leq: "sib_leq s s'" using fresh by (auto simp: sib_leq_def res)
  have keys: "fst ` set (ss_results s') = insert i (fst ` set (ss_results s))"
    using js_keys_set [where m = "ss_results s" and k = i and v = r] by (auto simp: res simp flip: set_map)
  have i: "i \<in> nd_sequence ` set nodes" using env by (auto simp: envelope_ok_def)
  have "sib_deps nodes s'"
    by (rule sib_deps_mono [OF _ leq]) (use inv ran in \<open>auto simp: sib_inv_def run ran_def res split: if_splits\<close>)
  moreover have "sib_shape capacity nodes s'"
    using inv env i work unfolding sib_inv_def sib_shape_def keys pend run
    by (auto simp: res distinct_removeAll split: if_splits)
  ultimately show ?thesis using leq by (simp add: sib_inv_def)
qed

lemma completeWithoutRun_inv:
  assumes inv: "sib_inv capacity nodes s" and n: "nodesBySequence nodes i = Some n" and i: "i \<in> set (ss_pending s)" "i \<notin> set (ss_work s)"
    and st: "status = Sib_cancelled \<or> status = Skipped"
  shows "sib_inv capacity nodes (completeWithoutRun n status err s) \<and> sib_leq s (completeWithoutRun n status err s)"
proof -
  have shape: "sib_shape capacity nodes s" using inv by (simp add: sib_inv_def)
  then have dist: "distinct (map nd_sequence nodes)" by (simp add: sib_shape_def)
  have seq: "n \<in> set nodes" "nd_sequence n = i" using n nodesBySequence_iff [OF dist] by auto
  have fresh: "js_get (ss_results s) i = None" using shape i(1) by (auto simp: sib_shape_def map_of_eq_None_iff)
  let ?r = "\<lparr>en_id = nd_id n, en_sequence = nd_sequence n, en_status = status, en_value = None, en_error = Some err\<rparr>"
  show ?thesis
    by (rule sib_inv_settle [OF inv fresh, where r = ?r])
      (use seq st shape i(2) in \<open>auto simp: completeWithoutRun_def envelope_ok_def sib_shape_def\<close>)
qed

lemma made_progress_inv: "sib_inv capacity nodes (made_progress s) = sib_inv capacity nodes s" "sib_leq s0 (made_progress s) = sib_leq s0 s"
  by (simp_all add: made_progress_def sib_inv_def sib_shape_def sib_deps_def sib_leq_def deps_ok_def ran_def)

lemma start_sibling_inv:
  assumes inv: "sib_inv capacity nodes s" and n: "nodesBySequence nodes i = Some n" and i: "i \<in> set (ss_pending s)" "i \<notin> set (ss_work s)"
    and ok: "\<not> prerequisite_failed s n" "dependencies_settled s n" "length (ss_running s) < capacity"
  shows "sib_inv capacity nodes (start_sibling i s)"
proof -
  have leq: "sib_leq s (start_sibling i s)" by (simp add: sib_leq_def start_sibling_def)
  have "deps_ok nodes s i"
    using ok(1,2) n by (force simp: deps_ok_def prerequisite_failed_def dependencies_settled_def list_ex_iff list_all_iff)
  then have "deps_ok nodes (start_sibling i s) i" by (rule deps_ok_mono [OF _ leq])
  then have "sib_deps nodes (start_sibling i s)"
    by (intro sib_deps_mono [OF _ leq]) (use inv in \<open>auto simp: sib_inv_def start_sibling_def ran_def\<close>)
  moreover have "sib_shape capacity nodes (start_sibling i s)"
    using inv i ok(3) unfolding sib_inv_def sib_shape_def by (auto simp: start_sibling_def distinct_removeAll)
  ultimately show ?thesis by (simp add: sib_inv_def)
qed

lemma process_node_inv:
  assumes inv: "sib_inv capacity nodes s" and i: "i \<in> set (ss_pending s)" "i \<notin> set (ss_work s)"
  shows "sib_inv capacity nodes (process_node capacity nodes adm i s) \<and> sib_leq s (process_node capacity nodes adm i s)"
proof (cases "nodesBySequence nodes i")
  case None
  with inv show ?thesis by (simp add: process_node_def sib_leq_def)
next
  case (Some n)
  note cw = completeWithoutRun_inv [OF inv Some i]
  have refl: "sib_leq s s" "sib_leq s (start_sibling i s)" by (simp_all add: sib_leq_def start_sibling_def)
  show ?thesis
    using Some inv refl cw start_sibling_inv [OF inv Some i]
    by (cases adm) (simp_all add: process_node_def made_progress_inv)
qed

lemma stall_all_inv:
  assumes "sib_inv capacity nodes s" and "ss_work s = []"
  shows "sib_inv capacity nodes (stall_all nodes s) \<and> sib_leq s (stall_all nodes s) \<and> ss_pending (stall_all nodes s) = []"
proof -
  let ?f = "\<lambda>i s. case nodesBySequence nodes i of None \<Rightarrow> s | Some n \<Rightarrow> completeWithoutRun n Skipped Scheduling_stalled s"
  have "sib_inv capacity nodes (fold ?f xs s) \<and> sib_leq s (fold ?f xs s) \<and> ss_pending (fold ?f xs s) = []"
    if "sib_inv capacity nodes s" "ss_work s = []" "xs = ss_pending s" for xs and s :: "'a sib_state"
    using that
  proof (induction xs arbitrary: s)
    case Nil
    then show ?case by (simp add: sib_leq_def)
  next
    case (Cons i xs)
    have shape: "sib_shape capacity nodes s" using Cons.prems(1) by (simp add: sib_inv_def)
    have dist: "distinct (map nd_sequence nodes)" "distinct (i # xs)"
      using shape Cons.prems(3) by (auto simp: sib_shape_def)
    have i: "i \<in> set (ss_pending s)" "i \<notin> set (ss_work s)" using Cons.prems(2,3) by (metis list.set_intros(1), simp)
    then have "i \<in> nd_sequence ` set nodes" using shape by (auto simp: sib_shape_def)
    then obtain n where n: "nodesBySequence nodes i = Some n" "nd_sequence n = i"
      using nodesBySequence_iff [OF dist(1)] by auto
    let ?s = "completeWithoutRun n Skipped Scheduling_stalled s :: 'a sib_state"
    have inv: "sib_inv capacity nodes ?s \<and> sib_leq s ?s"
      by (rule completeWithoutRun_inv [OF Cons.prems(1) n(1) i]) simp
    have "xs = ss_pending ?s" "ss_work ?s = []"
      using Cons.prems(2,3) dist(2) n(2) by (auto simp: completeWithoutRun_def simp flip: Cons.prems(3))
    from Cons.IH [OF conjunct1 [OF inv] this(2,1)] inv n(1) show ?case by (auto simp: sib_leq_def)
  qed
  from this [OF assms refl] show ?thesis by (simp add: stall_all_def)
qed

lemma sib_inv_control:
  assumes inv: "sib_inv capacity nodes s" and same: "ss_pending s' = ss_pending s" "ss_running s' = ss_running s" "ss_results s' = ss_results s"
    and work: "distinct (ss_work s')" "set (ss_work s') \<subseteq> set (ss_pending s)"
  shows "sib_inv capacity nodes s' \<and> sib_leq s s'"
  using inv work by (simp add: sib_inv_def sib_shape_def sib_deps_def sib_leq_def deps_ok_def ran_def same)

lemma sib_step_inv: "sib_step capacity nodes s s' \<Longrightarrow> sib_inv capacity nodes s \<Longrightarrow> sib_inv capacity nodes s' \<and> sib_leq s s'"
proof (induction rule: sib_step.induct)
  case (begin_pass s isCancelled)
  then show ?case by (intro sib_inv_control) (auto simp: sib_inv_def sib_shape_def)
next
  case (iterate s i rest adm)
  let ?s = "s\<lparr>ss_work := rest\<rparr>"
  have "sib_inv capacity nodes ?s \<and> sib_leq s ?s"
    using iterate by (intro sib_inv_control) (auto simp: sib_inv_def sib_shape_def)
  moreover have "i \<in> set (ss_pending ?s)" "i \<notin> set (ss_work ?s)"
    using iterate by (auto simp: sib_inv_def sib_shape_def)
  ultimately have "sib_inv capacity nodes (process_node capacity nodes adm i ?s) \<and> sib_leq ?s (process_node capacity nodes adm i ?s)"
    by (intro process_node_inv) simp_all
  then show ?case by (simp add: sib_leq_def)
next
  case (cancel s)
  then show ?case by (intro sib_inv_control) (auto simp: sib_inv_def sib_shape_def)
next
  case (run_returns s i n status v err)
  have shape: "sib_shape capacity nodes s" using run_returns.prems by (simp add: sib_inv_def)
  then have dist: "distinct (map nd_sequence nodes)" by (simp add: sib_shape_def)
  have "i \<notin> set (ss_pending s)" using run_returns shape by (auto simp: sib_shape_def)
  then show ?case
    using run_returns nodesBySequence_iff [OF dist]
    by (intro sib_inv_settle [OF run_returns.prems run_returns(3)])
      (auto simp: settle_sibling_def settle_envelope_def envelope_ok_def removeAll_id)
next
  case (run_throws s i n msg)
  have shape: "sib_shape capacity nodes s" using run_throws.prems by (simp add: sib_inv_def)
  then have dist: "distinct (map nd_sequence nodes)" by (simp add: sib_shape_def)
  have "i \<notin> set (ss_pending s)" using run_throws shape by (auto simp: sib_shape_def)
  then show ?case
    using run_throws nodesBySequence_iff [OF dist]
    by (intro sib_inv_settle [OF run_throws.prems run_throws(3)])
      (auto simp: settle_sibling_def settle_envelope_def envelope_ok_def removeAll_id)
next
  case (run_finally s i)
  let ?s = "s\<lparr>ss_running := removeAll i (ss_running s)\<rparr>"
  have leq: "sib_leq s ?s" by (simp add: sib_leq_def)
  have shape: "sib_shape capacity nodes s" using run_finally.prems by (simp add: sib_inv_def)
  have "i \<in> fst ` set (ss_results s)" using run_finally(3) by (simp add: map_of_eq_None_iff)
  with shape have "sib_shape capacity nodes ?s"
    by (auto simp: sib_shape_def distinct_removeAll intro: order_trans [OF length_removeAll_less_eq])
  moreover have "sib_deps nodes ?s"
    by (rule sib_deps_mono [OF _ leq]) (use run_finally.prems in \<open>auto simp: sib_inv_def ran_def\<close>)
  ultimately show ?case using leq by (simp add: sib_inv_def)
next
  case (stall s)
  then show ?case using stall_all_inv by blast
qed

lemma sib_leq_trans: "sib_leq a b \<Longrightarrow> sib_leq b c \<Longrightarrow> sib_leq a c"
  by (simp add: sib_leq_def)

interpretation sched: monotone_system "sib_init nodes" "sib_step capacity nodes" "sib_inv capacity nodes" sib_leq
  for capacity :: nat and nodes
  by unfold_locales (auto intro: sib_inv_init sib_leq_trans simp: sib_leq_def [of s s for s] dest: sib_step_inv)

section \<open>What the scheduler guarantees\<close>

lemma sched_inv: "reach (sib_init nodes) (sib_step capacity nodes) s \<Longrightarrow> sib_shape capacity nodes s \<and> sib_deps nodes s"
  using sched.reach_inv [of nodes capacity s] by (simp add: sib_inv_def)

text \<open>A run on a small graph: node 2 needs node 1, and node 3 only conflicts with node 1.\<close>

definition sample_nodes :: "sibling_node list" where
  "sample_nodes =
     [\<lparr>nd_id = ''a'', nd_sequence = 1, nd_dependencyEdges = []\<rparr>,
      \<lparr>nd_id = ''b'', nd_sequence = 2, nd_dependencyEdges = [\<lparr>se_sequence = 1, se_kind = Prerequisite\<rparr>]\<rparr>,
      \<lparr>nd_id = ''c'', nd_sequence = 3, nd_dependencyEdges = [\<lparr>se_sequence = 1, se_kind = Conflict\<rparr>]\<rparr>]"

definition sample_pass :: "nat sib_state \<Rightarrow> nat sib_state" where
  "sample_pass s = fold (\<lambda>i s. process_node 2 sample_nodes Admit i (s\<lparr>ss_work := tl (ss_work s)\<rparr>)) (ss_pending s)
     (s\<lparr>ss_work := ss_pending s, ss_progress := False\<rparr>)"

definition sample_settle :: "int \<Rightarrow> nat sib_state \<Rightarrow> nat sib_state" where
  "sample_settle i s = settle_sibling i (settle_envelope (the (nodesBySequence sample_nodes i)) Succeeded (Some 7) None) s"

definition sample_finally :: "int \<Rightarrow> nat sib_state \<Rightarrow> nat sib_state" where
  "sample_finally i s = s\<lparr>ss_running := removeAll i (ss_running s)\<rparr>"

lemma process_node_work: "ss_work (process_node capacity nodes adm i s) = ss_work s"
  by (cases adm) (simp_all add: process_node_def made_progress_def completeWithoutRun_def start_sibling_def split: option.split)

lemma fold_iterate:
  "ss_work s = xs \<Longrightarrow>
   (sib_step capacity nodes)\<^sup>*\<^sup>* s (fold (\<lambda>i s. process_node capacity nodes Admit i (s\<lparr>ss_work := tl (ss_work s)\<rparr>)) xs s)"
proof (induction xs arbitrary: s)
  case Nil
  then show ?case by simp
next
  case (Cons i xs)
  let ?s = "process_node capacity nodes Admit i (s\<lparr>ss_work := xs\<rparr>)"
  have "sib_step capacity nodes s ?s" using Cons.prems by (rule iterate)
  moreover have "ss_work ?s = xs" by (simp add: process_node_work)
  moreover have "tl (ss_work s) = xs" using Cons.prems by simp
  ultimately show ?case using Cons.IH by (auto intro: converse_rtranclp_into_rtranclp)
qed

lemma sample_pass_reach:
  assumes "reach (sib_init sample_nodes) (sib_step 2 sample_nodes) s" and "ss_work s = []" and "ss_pending s \<noteq> []"
  shows "reach (sib_init sample_nodes) (sib_step 2 sample_nodes) (sample_pass s)"
proof -
  have "sib_step 2 sample_nodes s (s\<lparr>ss_work := ss_pending s, ss_progress := False, ss_aborted := ss_aborted s \<or> False\<rparr>)"
    using assms(2,3) by (intro begin_pass) auto
  then have "(sib_step 2 sample_nodes)\<^sup>*\<^sup>* s (s\<lparr>ss_work := ss_pending s, ss_progress := False\<rparr>)" by auto
  moreover have "(sib_step 2 sample_nodes)\<^sup>*\<^sup>* (s\<lparr>ss_work := ss_pending s, ss_progress := False\<rparr>) (sample_pass s)"
    unfolding sample_pass_def by (rule fold_iterate) (simp_all add: process_node_work)
  ultimately show ?thesis using sched.reach_steps [OF assms(1)] by (blast intro: rtranclp_trans)
qed

definition sample_run :: "nat sib_state" where
  "sample_run = sample_pass (sample_finally 1 (sample_settle 1 (sample_pass (sib_start sample_nodes))))"

definition sample_end :: "nat sib_state" where
  "sample_end = sample_finally 3 (sample_settle 3 (sample_finally 2 (sample_settle 2 sample_run)))"

lemma sample_settle_reach:
  assumes "reach (sib_init sample_nodes) (sib_step 2 sample_nodes) s" and "ss_work s = []" and "i \<in> set (ss_running s)"
    and "js_get (ss_results s) i = None" and "nodesBySequence sample_nodes i \<noteq> None"
  shows "reach (sib_init sample_nodes) (sib_step 2 sample_nodes) (sample_finally i (sample_settle i s))"
proof -
  from assms(5) obtain n where n: "nodesBySequence sample_nodes i = Some n" by blast
  have "sib_step 2 sample_nodes s (settle_sibling i (settle_envelope n Succeeded (Some 7) (map_option Classified_error None)) s)"
    using assms(2-4) n by (intro run_returns) auto
  then have st: "sib_step 2 sample_nodes s (sample_settle i s)" by (simp add: sample_settle_def n)
  have "sib_step 2 sample_nodes (sample_settle i s) (sample_finally i (sample_settle i s))"
    unfolding sample_finally_def using assms(2,3)
    by (intro run_finally) (auto simp: sample_settle_def settle_sibling_def)
  with st assms(1) show ?thesis by (blast intro: reach_step)
qed

lemma sample_reach:
  "reach (sib_init sample_nodes) (sib_step 2 sample_nodes) sample_run"
  "reach (sib_init sample_nodes) (sib_step 2 sample_nodes) sample_end"
proof -
  have "reach (sib_init sample_nodes) (sib_step 2 sample_nodes) (sib_start sample_nodes)"
    by (rule reach_init) (simp add: sib_init_def sample_nodes_def)
  then have "reach (sib_init sample_nodes) (sib_step 2 sample_nodes) (sample_pass (sib_start sample_nodes))"
    by (rule sample_pass_reach) code_simp+
  then have "reach (sib_init sample_nodes) (sib_step 2 sample_nodes)
      (sample_finally 1 (sample_settle 1 (sample_pass (sib_start sample_nodes))))"
    by (rule sample_settle_reach) code_simp+
  then show run: "reach (sib_init sample_nodes) (sib_step 2 sample_nodes) sample_run"
    unfolding sample_run_def by (rule sample_pass_reach) code_simp+
  from run have "reach (sib_init sample_nodes) (sib_step 2 sample_nodes) (sample_finally 2 (sample_settle 2 sample_run))"
    by (rule sample_settle_reach) code_simp+
  then show "reach (sib_init sample_nodes) (sib_step 2 sample_nodes) sample_end"
    unfolding sample_end_def by (rule sample_settle_reach) code_simp+
qed

text \<open>
  C38. Bounded and ordered: in every reachable state at most \<open>capacity\<close> siblings run, none runs
  twice, and a running sibling has the results of all its dependencies, successful ones wherever
  the edge is more than a conflict.
\<close>

theorem scheduler_safe:
  assumes "reach (sib_init nodes) (sib_step capacity nodes) s"
  shows "length (ss_running s) \<le> capacity \<and> distinct (ss_running s) \<and> (\<forall>i \<in> set (ss_running s). deps_ok nodes s i)"
  using sched_inv [OF assms] by (auto simp: sib_shape_def sib_deps_def)

theorem scheduler_safe_witness:
  "deps_ok sample_nodes sample_run 2 \<and> ss_running sample_run = [2, 3]"
proof -
  have run: "ss_running sample_run = [2, 3]" by code_simp
  with scheduler_safe [OF sample_reach(1)] show ?thesis by simp
qed

definition hard_edges :: "sibling_node list \<Rightarrow> (int \<times> int) set" where
  "hard_edges nodes = {(i, j). \<exists>n e. nodesBySequence nodes i = Some n \<and> e \<in> set (nd_dependencyEdges n) \<and>
     se_kind e \<noteq> Conflict \<and> se_sequence e = j}"

text \<open>
  Failures propagate along prerequisites: when a sibling has succeeded, every sibling it
  depends on, directly or through others, over edges that are not conflicts has succeeded too.
\<close>

theorem success_needs_prerequisites:
  assumes "reach (sib_init nodes) (sib_step capacity nodes) s" and "js_get (ss_results s) i = Some r" and "en_status r = Succeeded"
    and "(i, j) \<in> (hard_edges nodes)\<^sup>+"
  shows "\<exists>r'. js_get (ss_results s) j = Some r' \<and> en_status r' = Succeeded"
  using assms(4)
proof (induction rule: trancl_induct)
  case (base j)
  have "deps_ok nodes s i" using sched_inv [OF assms(1)] assms(2,3) by (auto simp: sib_deps_def ran_def)
  with base show ?case by (fastforce simp: deps_ok_def hard_edges_def)
next
  case (step j k)
  then have "deps_ok nodes s j" using sched_inv [OF assms(1)] by (auto simp: sib_deps_def ran_def)
  with step show ?case by (fastforce simp: deps_ok_def hard_edges_def)
qed

theorem success_needs_prerequisites_witness:
  "\<exists>r. js_get (ss_results sample_end) 1 = Some r \<and> en_status r = Succeeded"
proof -
  have "js_get (ss_results sample_end) 2 = Some (the (js_get (ss_results sample_end) 2))"
    "en_status (the (js_get (ss_results sample_end) 2)) = Succeeded" by code_simp+
  moreover have "(2, 1) \<in> (hard_edges sample_nodes)\<^sup>+"
    by (rule r_into_trancl) (auto simp: hard_edges_def sample_nodes_def nodesBySequence_def)
  ultimately show ?thesis by (rule success_needs_prerequisites [OF sample_reach(2)])
qed

lemma map_filter_total:
  "(\<And>x. x \<in> set xs \<Longrightarrow> \<exists>y. f x = Some y \<and> g y = h x) \<Longrightarrow> map g (List.map_filter f xs) = map h xs"
proof (induction xs)
  case (Cons x xs)
  from Cons.prems [of x] obtain y where "f x = Some y" "g y = h x" by auto
  with Cons show ?case by (simp add: map_filter_simps)
qed (simp add: map_filter_simps)

text \<open>
  One envelope per sibling: when the loop ends, the result of \<^verbatim>\<open>execute\<close> has exactly one
  envelope for every node, in the order of the nodes and with its identifier, so no call is lost
  or answered twice.
\<close>

theorem execute_complete:
  assumes "reach (sib_init nodes) (sib_step capacity nodes) s" and "ss_pending s = []" and "ss_running s = []"
  shows "map en_sequence (execute_result nodes s) = map nd_sequence nodes \<and> map en_id (execute_result nodes s) = map nd_id nodes"
proof -
  have shape: "sib_shape capacity nodes s" using sched_inv [OF assms(1)] by simp
  have "\<exists>r. js_get (ss_results s) (nd_sequence n) = Some r \<and> en_sequence r = nd_sequence n \<and> en_id r = nd_id n"
    if n: "n \<in> set nodes" for n
  proof -
    have "nd_sequence n \<in> fst ` set (ss_results s)" using shape assms(2,3) n by (auto simp: sib_shape_def)
    then obtain r where r: "js_get (ss_results s) (nd_sequence n) = Some r"
      by (metis map_of_eq_None_iff not_Some_eq)
    with shape have "envelope_ok nodes (nd_sequence n) r" by (simp add: sib_shape_def)
    moreover have "inj_on nd_sequence (set nodes)" using shape by (simp add: sib_shape_def distinct_map)
    ultimately show ?thesis using r n by (auto simp: envelope_ok_def dest: inj_onD)
  qed
  then show ?thesis
    unfolding execute_result_def by (intro conjI map_filter_total) blast+
qed

theorem execute_complete_witness:
  "map en_sequence (execute_result sample_nodes sample_end) = [1, 2, 3]"
proof -
  have "ss_pending sample_end = []" "ss_running sample_end = []" by code_simp+
  with execute_complete [OF sample_reach(2)] show ?thesis by (simp add: sample_nodes_def)
qed

text \<open>One iteration changes nothing, or makes progress and takes its sibling out of the pending ones.\<close>

lemma process_node_progress:
  "process_node capacity nodes adm i s = s \<or>
   (ss_progress (process_node capacity nodes adm i s) \<and>
    (nodesBySequence nodes i = Some n \<longrightarrow> nd_sequence n = i \<longrightarrow> ss_pending (process_node capacity nodes adm i s) = removeAll i (ss_pending s)))"
  by (cases adm) (auto simp: process_node_def made_progress_def completeWithoutRun_def start_sibling_def split: option.split)

lemma process_node_keeps_progress: "ss_progress s \<Longrightarrow> ss_progress (process_node capacity nodes adm i s)"
  using process_node_progress [of capacity nodes adm i s undefined] by (cases "process_node capacity nodes adm i s = s") auto

lemma fold_keeps_progress:
  "ss_progress s \<Longrightarrow> ss_progress (fold (\<lambda>i. process_node capacity nodes (f i) i) xs s)"
  by (induction xs arbitrary: s) (simp_all add: process_node_keeps_progress)

lemma fold_progress:
  "i \<in> set xs \<Longrightarrow> ss_progress (process_node capacity nodes (f i) i s) \<Longrightarrow>
   ss_progress (fold (\<lambda>i. process_node capacity nodes (f i) i) xs s)"
proof (induction xs)
  case (Cons x xs)
  show ?case
  proof (cases "process_node capacity nodes (f x) x s = s")
    case True
    with Cons fold_keeps_progress [of s capacity nodes f xs] show ?thesis by (cases "i = x") auto
  next
    case False
    then have "ss_progress (process_node capacity nodes (f x) x s)" using process_node_progress by metis
    then show ?thesis by (simp add: fold_keeps_progress)
  qed
qed simp

text \<open>
  The scheduler does not wedge: for a valid graph and at least one slot, whenever nothing runs
  but siblings are pending, a pass that \<^verbatim>\<open>canStart\<close> does not hold up starts or completes one.
  Only a guard that defers can therefore bring the stall timer about.
\<close>

theorem pass_makes_progress:
  assumes "reach (sib_init nodes) (sib_step capacity nodes) s" and "valid_graph nodes" and "0 < capacity"
    and "ss_running s = []" and "ss_pending s \<noteq> []"
  shows "ss_progress (run_pass capacity nodes (\<lambda>_. Admit) s)"
proof -
  have shape: "sib_shape capacity nodes s" using sched_inv [OF assms(1)] by simp
  have dist: "distinct (map nd_sequence nodes)" using shape by (simp add: sib_shape_def)
  have fin: "finite (sibling_edges nodes)"
  proof (rule finite_subset)
    show "sibling_edges nodes \<subseteq> nd_sequence ` set nodes \<times> nd_sequence ` set nodes"
      using assms(2) edges_of_nodes by (force simp: sibling_edges_def valid_graph_def)
  qed simp
  have "wf ((sibling_edges nodes)\<inverse>)"
    using finite_acyclic_wf_converse [OF fin] assms(2) by (simp add: valid_graph_def)
  moreover have "hd (ss_pending s) \<in> set (ss_pending s)" using assms(5) by simp
  ultimately obtain i where i: "i \<in> set (ss_pending s)" and min: "\<And>j. (i, j) \<in> sibling_edges nodes \<Longrightarrow> j \<notin> set (ss_pending s)"
    by (auto elim!: wfE_min)
  have "i \<in> nd_sequence ` set nodes" using shape i by (auto simp: sib_shape_def)
  then obtain n where n: "nodesBySequence nodes i = Some n" using nodesBySequence_iff [OF dist] by auto
  have "js_get (ss_results s) (se_sequence e) \<noteq> None" if e: "e \<in> set (nd_dependencyEdges n)" for e
  proof -
    have edge: "(i, se_sequence e) \<in> sibling_edges nodes" using n e by (auto simp: sibling_edges_def edges_of_def)
    then have "se_sequence e \<in> nd_sequence ` set nodes" using assms(2) by (auto simp: sibling_edges_def valid_graph_def)
    with min [OF edge] shape assms(4) have "se_sequence e \<in> fst ` set (ss_results s)" by (auto simp: sib_shape_def)
    then show ?thesis by (simp add: map_of_eq_None_iff)
  qed
  then have "dependencies_settled (s\<lparr>ss_progress := False\<rparr>) n" by (simp add: dependencies_settled_def list_all_iff)
  then have "ss_progress (process_node capacity nodes Admit i (s\<lparr>ss_progress := False\<rparr>))"
    using n assms(3,4) by (simp add: process_node_def made_progress_def)
  then show ?thesis
    unfolding run_pass_def using i fold_progress [where f = "\<lambda>_. Admit"] by blast
qed

lemma sample_valid: "valid_graph sample_nodes"
proof -
  have "validateDependencyGraph sample_nodes = Some None" by code_simp
  then show ?thesis by (rule validated_graph)
qed

theorem pass_makes_progress_witness:
  "ss_progress (run_pass 2 sample_nodes (\<lambda>_. Admit) (sib_start sample_nodes :: nat sib_state))"
proof (rule pass_makes_progress)
  show "reach (sib_init sample_nodes) (sib_step 2 sample_nodes) (sib_start sample_nodes :: nat sib_state)"
    by (rule reach_init) (simp add: sib_init_def sample_nodes_def)
qed (simp_all add: sample_valid sib_start_def sample_nodes_def [THEN arg_cong [where f = "map nd_sequence"]])

end
