(* ===== verification/Io_Bulkhead.thy ===== *)
theory Io_Bulkhead
  imports Prelude Complex_Main
begin

text \<open>
  The parent I/O bulkhead, \<^verbatim>\<open>src/core/task/tools/io/ParentIoBulkhead.ts\<close>: a pool of I/O slots with
  a total capacity, a capacity per class of work, a priority queue of waiters with a bound on
  overtaking, cancellation of queued work and release closures that act once.

  A promise returned by \<^verbatim>\<open>acquire\<close> is known by the sequence number of its waiter. \<open>pl_releases\<close> holds
  the release closures handed out so far with their \<^verbatim>\<open>released\<close> flag, \<open>pl_rejected\<close> the waiters whose
  promise was rejected. An abort signal is a number; its listeners run in the order they were added,
  and a listener whose waiter is gone finds no index and returns.
\<close>

section \<open>Work classes\<close>

definition PARENT_IO_BULKHEAD_CAPACITY :: nat where
  "PARENT_IO_BULKHEAD_CAPACITY = 4"

definition PARENT_IO_MAX_PRIORITY_BYPASSES :: nat where
  "PARENT_IO_MAX_PRIORITY_BYPASSES = 8"

datatype work_class = Metadata | Small_read | Search | Traversal

definition PARENT_IO_WORK_CLASSES :: "work_class list" where
  "PARENT_IO_WORK_CLASSES = [Metadata, Small_read, Search, Traversal]"

fun work_class_name :: "work_class \<Rightarrow> string" where
  "work_class_name Metadata = ''metadata''"
| "work_class_name Small_read = ''small-read''"
| "work_class_name Search = ''search''"
| "work_class_name Traversal = ''traversal''"

text \<open>\<^verbatim>\<open>PARENT_IO_WORK_CLASSES.includes(workClass)\<close>, for a value the compiler did not check\<close>

definition known_work_class :: "string \<Rightarrow> work_class option" where
  "known_work_class n = find (\<lambda>c. work_class_name c = n) PARENT_IO_WORK_CLASSES"

text \<open>A JavaScript number, as far as \<^verbatim>\<open>Number.isInteger\<close> looks at it.\<close>

datatype js_number = Js_int int | Js_fraction | Js_not_finite

fun PARENT_IO_CLASS_CAPACITIES :: "work_class \<Rightarrow> js_number" where
  "PARENT_IO_CLASS_CAPACITIES Metadata = Js_int (int PARENT_IO_BULKHEAD_CAPACITY)"
| "PARENT_IO_CLASS_CAPACITIES Small_read = Js_int (int PARENT_IO_BULKHEAD_CAPACITY)"
| "PARENT_IO_CLASS_CAPACITIES Search = Js_int 2"
| "PARENT_IO_CLASS_CAPACITIES Traversal = Js_int 2"

definition classifyParentIoWorkClass :: "string \<Rightarrow> work_class" where
  "classifyParentIoWorkClass toolName =
     (if toolName = ''search_files'' then Search
      else if toolName = ''list_files'' \<or> toolName = ''list_code_definition_names'' then Traversal
      else if toolName = ''diagnose_stability'' then Metadata
      else Small_read)"

section \<open>State\<close>

record class_stats =
  cs_capacity :: nat
  cs_active :: nat
  cs_pending :: nat
  cs_maxActive :: nat
  cs_maxPending :: nat
  cs_started :: nat
  cs_completed :: nat
  cs_cancelled :: nat

record waiter =
  w_priority :: rat
  w_bypasses :: nat
  w_sequence :: nat
  w_isFastIo :: bool
  w_workClass :: work_class
  w_signal :: "nat option"

record io_release =
  rl_workClass :: work_class
  rl_isFastIo :: bool
  rl_released :: bool

text \<open>\<^verbatim>\<open>Record<ParentIoWorkClass, T>\<close>: an object with one entry per class.\<close>

datatype 'a per_class = Per_class (pc_metadata: 'a) (pc_small_read: 'a) (pc_search: 'a) (pc_traversal: 'a)

fun pc_get :: "'a per_class \<Rightarrow> work_class \<Rightarrow> 'a" where
  "pc_get t Metadata = pc_metadata t"
| "pc_get t Small_read = pc_small_read t"
| "pc_get t Search = pc_search t"
| "pc_get t Traversal = pc_traversal t"

fun pc_set :: "'a per_class \<Rightarrow> work_class \<Rightarrow> 'a \<Rightarrow> 'a per_class" where
  "pc_set (Per_class m r s t) Metadata v = Per_class v r s t"
| "pc_set (Per_class m r s t) Small_read v = Per_class m v s t"
| "pc_set (Per_class m r s t) Search v = Per_class m r v t"
| "pc_set (Per_class m r s t) Traversal v = Per_class m r s v"

definition pc_of :: "(work_class \<Rightarrow> 'a) \<Rightarrow> 'a per_class" where
  "pc_of f = Per_class (f Metadata) (f Small_read) (f Search) (f Traversal)"

lemma pc_get_of [simp]: "pc_get (pc_of f) c = f c"
  by (cases c) (simp_all add: pc_of_def)

lemma pc_get_set [simp]: "pc_get (pc_set t c v) d = (if d = c then v else pc_get t d)"
  by (cases t; cases c; cases d) simp_all

declare pc_get.simps [simp del] pc_set.simps [simp del]

record pool =
  pl_capacity :: nat
  pl_classCapacities :: "work_class \<Rightarrow> nat"
  pl_active :: nat
  pl_activeFastIo :: nat
  pl_waiters :: "waiter list"
  pl_classStats :: "class_stats per_class"
  pl_sequence :: nat
  pl_releases :: "(nat, io_release) jsmap"
  pl_rejected :: "(nat, work_class) jsmap"

definition emptyClassStats :: "nat \<Rightarrow> class_stats" where
  "emptyClassStats cap =
     \<lparr>cs_capacity = cap, cs_active = 0, cs_pending = 0, cs_maxActive = 0, cs_maxPending = 0,
      cs_started = 0, cs_completed = 0, cs_cancelled = 0\<rparr>"

datatype pool_error =
    Bad_capacity
  | Bad_class_capacity work_class
  | Acquisition_aborted
  | Unknown_class_or_priority

text \<open>The constructor: the total and then each class capacity are validated.\<close>

fun class_capacity_ok :: "int \<Rightarrow> js_number \<Rightarrow> bool" where
  "class_capacity_ok capacity (Js_int c) = (\<not> (c < 1 \<or> c > capacity))"
| "class_capacity_ok capacity _ = False"

fun capacity_value :: "js_number \<Rightarrow> nat" where
  "capacity_value (Js_int c) = nat c"
| "capacity_value _ = 0"

fun new_pool :: "js_number \<Rightarrow> (work_class \<Rightarrow> js_number) \<Rightarrow> pool_error + pool" where
  "new_pool (Js_int capacity) classCapacities =
     (if capacity < 1 then Inl Bad_capacity
      else (case find (\<lambda>c. \<not> class_capacity_ok capacity (classCapacities c)) PARENT_IO_WORK_CLASSES of
          Some c \<Rightarrow> Inl (Bad_class_capacity c)
        | None \<Rightarrow> Inr
            \<lparr>pl_capacity = nat capacity,
             pl_classCapacities = (\<lambda>c. capacity_value (classCapacities c)),
             pl_active = 0, pl_activeFastIo = 0, pl_waiters = [],
             pl_classStats = pc_of (\<lambda>c. emptyClassStats (capacity_value (classCapacities c))),
             pl_sequence = 0, pl_releases = [], pl_rejected = []\<rparr>))"
| "new_pool _ classCapacities = Inl Bad_capacity"

section \<open>Operations\<close>

definition canDispatch :: "pool \<Rightarrow> waiter \<Rightarrow> bool" where
  "canDispatch p w \<longleftrightarrow> pl_active p < pl_capacity p \<and>
     cs_active (pc_get (pl_classStats p) (w_workClass w)) < pl_classCapacities p (w_workClass w)"

text \<open>One iteration of the scan: the best index and the oldest overtaken index so far.\<close>

definition scan_waiter :: "pool \<Rightarrow> nat option \<times> nat option \<Rightarrow> nat \<Rightarrow> nat option \<times> nat option" where
  "scan_waiter p acc index =
     (let bestIndex = fst acc; oldestOvertakenIndex = snd acc; waiter = pl_waiters p ! index in
      if \<not> canDispatch p waiter then acc
      else
        let oldest =
          (if w_bypasses waiter \<ge> PARENT_IO_MAX_PRIORITY_BYPASSES \<and>
              (case oldestOvertakenIndex of None \<Rightarrow> True
               | Some o' \<Rightarrow> w_sequence waiter < w_sequence (pl_waiters p ! o'))
           then Some index else oldestOvertakenIndex)
        in case bestIndex of
            None \<Rightarrow> (Some index, oldest)
          | Some b \<Rightarrow>
              let best = pl_waiters p ! b in
              if w_priority waiter > w_priority best \<or>
                 (w_priority waiter = w_priority best \<and> w_sequence waiter < w_sequence best)
              then (Some index, oldest) else (bestIndex, oldest))"

definition findBestEligibleWaiterIndex :: "pool \<Rightarrow> nat option" where
  "findBestEligibleWaiterIndex p =
     (let acc = foldl (scan_waiter p) (None, None) [0..<length (pl_waiters p)] in
      case snd acc of None \<Rightarrow> fst acc | Some i \<Rightarrow> Some i)"

text \<open>\<^verbatim>\<open>waiters.splice(index, 1)\<close>\<close>

definition splice1 :: "nat \<Rightarrow> 'a list \<Rightarrow> 'a list" where
  "splice1 i xs = take i xs @ drop (Suc i) xs"

text \<open>
  The body of the dispatch loop, for the waiter at the index found. The remaining eligible waiters
  count the overtaking while the slot is still free.
\<close>

definition overtake :: "pool \<Rightarrow> waiter \<Rightarrow> waiter" where
  "overtake p w = (if canDispatch p w then w\<lparr>w_bypasses := Suc (w_bypasses w)\<rparr> else w)"

definition dispatch_one :: "pool \<Rightarrow> nat \<Rightarrow> pool" where
  "dispatch_one p i =
     (let waiter = pl_waiters p ! i;
          c = w_workClass waiter;
          rest = map (overtake p) (splice1 i (pl_waiters p));
          stats = pc_get (pl_classStats p) c;
          stats' = stats\<lparr>cs_pending := cs_pending stats - 1,
            cs_active := Suc (cs_active stats),
            cs_maxActive := max (cs_maxActive stats) (Suc (cs_active stats)),
            cs_started := Suc (cs_started stats)\<rparr>
      in p\<lparr>pl_waiters := rest,
           pl_classStats := pc_set (pl_classStats p) c stats',
           pl_active := Suc (pl_active p),
           pl_activeFastIo := (if w_isFastIo waiter then Suc (pl_activeFastIo p) else pl_activeFastIo p),
           pl_releases := pl_releases p @
             [(w_sequence waiter, \<lparr>rl_workClass = c, rl_isFastIo = w_isFastIo waiter, rl_released = False\<rparr>)]\<rparr>)"

definition eligible :: "pool \<Rightarrow> nat \<Rightarrow> bool" where
  "eligible p i \<longleftrightarrow> i < length (pl_waiters p) \<and> canDispatch p (pl_waiters p ! i)"

definition beats :: "waiter \<Rightarrow> waiter \<Rightarrow> bool" where
  "beats w v \<longleftrightarrow> w_priority v < w_priority w \<or> (w_priority v = w_priority w \<and> w_sequence w \<le> w_sequence v)"

definition overtaken :: "waiter \<Rightarrow> bool" where
  "overtaken w \<longleftrightarrow> PARENT_IO_MAX_PRIORITY_BYPASSES \<le> w_bypasses w"

definition scan_ok :: "pool \<Rightarrow> nat \<Rightarrow> nat option \<times> nat option \<Rightarrow> bool" where
  "scan_ok p n acc \<longleftrightarrow>
     (case fst acc of
        None \<Rightarrow> \<forall>i<n. \<not> eligible p i
      | Some b \<Rightarrow> b < n \<and> eligible p b \<and>
          (\<forall>i<n. eligible p i \<longrightarrow> beats (pl_waiters p ! b) (pl_waiters p ! i))) \<and>
     (case snd acc of
        None \<Rightarrow> \<forall>i<n. eligible p i \<longrightarrow> \<not> overtaken (pl_waiters p ! i)
      | Some b \<Rightarrow> b < n \<and> eligible p b \<and> overtaken (pl_waiters p ! b) \<and>
          (\<forall>i<n. eligible p i \<longrightarrow> overtaken (pl_waiters p ! i) \<longrightarrow>
             w_sequence (pl_waiters p ! b) \<le> w_sequence (pl_waiters p ! i)))"

lemma scan_step_ok:
  assumes ok: "scan_ok p n acc" and n: "n < length (pl_waiters p)"
  shows "scan_ok p (Suc n) (scan_waiter p acc n)"
proof (cases "canDispatch p (pl_waiters p ! n)")
  case False
  then have "scan_waiter p acc n = acc" and "\<not> eligible p n"
    by (simp_all add: scan_waiter_def eligible_def)
  then show ?thesis using ok
    by (auto simp: scan_ok_def less_Suc_eq split: option.splits)
next
  case True
  then have e: "eligible p n" using n by (simp add: eligible_def)
  obtain b o' where acc: "acc = (b, o')" by (cases acc)
  have all: "(\<forall>i<Suc n. P i) \<longleftrightarrow> P n \<and> (\<forall>i<n. P i)" for P by (auto simp: less_Suc_eq)
  show ?thesis using ok e True acc
    by (cases b; cases o')
       (auto simp: scan_ok_def scan_waiter_def Let_def all beats_def overtaken_def split: if_splits)
qed

lemma scan_all_ok: "n \<le> length (pl_waiters p) \<Longrightarrow> scan_ok p n (foldl (scan_waiter p) (None, None) [0..<n])"
proof (induction n)
  case 0
  show ?case by (simp add: scan_ok_def)
next
  case (Suc n)
  then show ?case using scan_step_ok [of p n] by simp
qed

lemma findBest_None: "findBestEligibleWaiterIndex p = None \<longleftrightarrow> (\<forall>i. \<not> eligible p i)"
  using scan_all_ok [of "length (pl_waiters p)" p]
  by (auto simp: findBestEligibleWaiterIndex_def scan_ok_def Let_def eligible_def split: option.splits)

text \<open>The choice: an overtaken waiter if one is eligible, the oldest; else the best by priority and age.\<close>

definition best_choice :: "pool \<Rightarrow> nat \<Rightarrow> bool" where
  "best_choice p b \<longleftrightarrow> eligible p b \<and>
     (if \<exists>i < length (pl_waiters p). eligible p i \<and> overtaken (pl_waiters p ! i)
      then overtaken (pl_waiters p ! b) \<and>
        (\<forall>i. eligible p i \<longrightarrow> overtaken (pl_waiters p ! i) \<longrightarrow>
           w_sequence (pl_waiters p ! b) \<le> w_sequence (pl_waiters p ! i))
      else \<forall>i. eligible p i \<longrightarrow> beats (pl_waiters p ! b) (pl_waiters p ! i))"

lemma findBest_Some: "findBestEligibleWaiterIndex p = Some b \<Longrightarrow> best_choice p b"
  using scan_all_ok [of "length (pl_waiters p)" p]
  by (auto simp: findBestEligibleWaiterIndex_def scan_ok_def best_choice_def Let_def
      eligible_def [of p] split: option.splits)

lemma findBest_eligible: "findBestEligibleWaiterIndex p = Some b \<Longrightarrow> eligible p b"
  using findBest_Some [of p b] by (simp add: best_choice_def)

lemma length_splice1 [simp]: "i < length xs \<Longrightarrow> length (splice1 i xs) = length xs - 1"
  by (simp add: splice1_def)

function dispatchWhileCapacity :: "pool \<Rightarrow> pool" where
  "dispatchWhileCapacity p =
     (if pl_active p < pl_capacity p
      then (case findBestEligibleWaiterIndex p of
              None \<Rightarrow> p
            | Some i \<Rightarrow> dispatchWhileCapacity (dispatch_one p i))
      else p)"
  by pat_completeness auto
termination
proof (relation "measure (\<lambda>p. length (pl_waiters p))", goal_cases)
  case 1
  show ?case by simp
next
  case (2 p i)
  then have "i < length (pl_waiters p)" using findBest_eligible by (simp add: eligible_def)
  then show ?case by (simp add: dispatch_one_def Let_def)
qed

declare dispatchWhileCapacity.simps [simp del]

text \<open>
  \<^verbatim>\<open>acquire\<close>: the priority may be any number (absent: not finite), the class any string (absent: \<^verbatim>\<open>small-read\<close>), the
  signal is given with its \<^verbatim>\<open>aborted\<close> flag.
\<close>

definition enqueue :: "rat \<Rightarrow> bool \<Rightarrow> work_class \<Rightarrow> nat option \<Rightarrow> pool \<Rightarrow> pool" where
  "enqueue priority isFastIo c signal p =
     (let waiter = \<lparr>w_priority = priority, w_bypasses = 0, w_sequence = pl_sequence p,
            w_isFastIo = isFastIo, w_workClass = c, w_signal = signal\<rparr>;
          stats = pc_get (pl_classStats p) c;
          pending = Suc (cs_pending stats);
          stats' = stats\<lparr>cs_pending := pending, cs_maxPending := max (cs_maxPending stats) pending\<rparr>
      in p\<lparr>pl_sequence := Suc (pl_sequence p),
           pl_waiters := pl_waiters p @ [waiter],
           pl_classStats := pc_set (pl_classStats p) c stats'\<rparr>)"

fun acquire :: "rat option \<Rightarrow> bool \<Rightarrow> string option \<Rightarrow> (nat \<times> bool) option \<Rightarrow> pool \<Rightarrow> pool \<times> (pool_error + nat)" where
  "acquire priority isFastIo workClass signal p =
     (if (case signal of None \<Rightarrow> False | Some s \<Rightarrow> snd s) then (p, Inl Acquisition_aborted)
      else (case known_work_class (case workClass of None \<Rightarrow> ''small-read'' | Some c \<Rightarrow> c) of
          None \<Rightarrow> (p, Inl Unknown_class_or_priority)
        | Some c \<Rightarrow> (case priority of
              Some n \<Rightarrow>
                (dispatchWhileCapacity (enqueue n isFastIo c (map_option fst signal) p), Inr (pl_sequence p))
            | None \<Rightarrow> (p, Inl Unknown_class_or_priority))))"

text \<open>\<^verbatim>\<open>this.waiters.indexOf(waiter)\<close>, by the sequence number\<close>

fun index_of :: "nat \<Rightarrow> waiter list \<Rightarrow> nat option" where
  "index_of n [] = None"
| "index_of n (w # ws) = (if w_sequence w = n then Some 0 else map_option Suc (index_of n ws))"

definition cancelWaiter :: "nat \<Rightarrow> pool \<Rightarrow> pool" where
  "cancelWaiter n p =
     (case index_of n (pl_waiters p) of
        None \<Rightarrow> p
      | Some i \<Rightarrow>
          let c = w_workClass (pl_waiters p ! i);
              stats = pc_get (pl_classStats p) c;
              stats' = stats\<lparr>cs_pending := cs_pending stats - 1, cs_cancelled := Suc (cs_cancelled stats)\<rparr>
          in dispatchWhileCapacity
               (p\<lparr>pl_waiters := splice1 i (pl_waiters p),
                  pl_classStats := pc_set (pl_classStats p) c stats',
                  pl_rejected := pl_rejected p @ [(n, c)]\<rparr>))"

text \<open>An abort event: the listeners of the signal run in the order they were added.\<close>

definition abort_signal :: "nat \<Rightarrow> pool \<Rightarrow> pool" where
  "abort_signal s p =
     fold cancelWaiter (map w_sequence (filter (\<lambda>w. w_signal w = Some s) (pl_waiters p))) p"

text \<open>The release closure of a grant.\<close>

definition free_slot :: "nat \<Rightarrow> io_release \<Rightarrow> pool \<Rightarrow> pool" where
  "free_slot n r p =
     (let c = rl_workClass r; stats = pc_get (pl_classStats p) c;
          stats' = stats\<lparr>cs_active := cs_active stats - 1, cs_completed := Suc (cs_completed stats)\<rparr>
      in p\<lparr>pl_releases := js_set (pl_releases p) n (r\<lparr>rl_released := True\<rparr>),
           pl_active := pl_active p - 1,
           pl_activeFastIo := (if rl_isFastIo r then pl_activeFastIo p - 1 else pl_activeFastIo p),
           pl_classStats := pc_set (pl_classStats p) c stats'\<rparr>)"

definition call_release :: "nat \<Rightarrow> pool \<Rightarrow> pool" where
  "call_release n p =
     (case js_get (pl_releases p) n of
        None \<Rightarrow> p
      | Some r \<Rightarrow> if rl_released r then p else dispatchWhileCapacity (free_slot n r p))"

definition slot_priority :: "bool \<Rightarrow> bool \<Rightarrow> rat option" where
  "slot_priority isFastIo swarmInFlight =
     (if swarmInFlight \<and> isFastIo then Some 2 else if isFastIo then Some 1 else Some 0)"

definition acquireParentIoSlot ::
  "bool \<Rightarrow> bool \<Rightarrow> string option \<Rightarrow> (nat \<times> bool) option \<Rightarrow> pool \<Rightarrow> pool \<times> (pool_error + nat)" where
  "acquireParentIoSlot isFastIo swarmInFlight workClass signal p =
     acquire (slot_priority isFastIo swarmInFlight) isFastIo workClass signal p"

record bulkhead_stats =
  bs_capacity :: nat
  bs_active :: nat
  bs_pending :: nat
  bs_activeFastIo :: nat
  bs_byClass :: "(work_class \<times> class_stats) list"

definition getStats :: "pool \<Rightarrow> bulkhead_stats" where
  "getStats p = \<lparr>bs_capacity = pl_capacity p, bs_active = pl_active p, bs_pending = length (pl_waiters p),
     bs_activeFastIo = pl_activeFastIo p,
     bs_byClass = map (\<lambda>c. (c, pc_get (pl_classStats p) c)) PARENT_IO_WORK_CLASSES\<rparr>"

inductive pool_step :: "pool \<Rightarrow> pool \<Rightarrow> bool" where
  pool_acquire: "pool_step p (fst (acquire priority isFastIo workClass signal p))"
| pool_abort: "pool_step p (abort_signal s p)"
| pool_release: "pool_step p (call_release n p)"

definition pool_init :: "pool \<Rightarrow> bool" where
  "pool_init p \<longleftrightarrow> (\<exists>capacity classCapacities. new_pool capacity classCapacities = Inr p)"


section \<open>Splicing\<close>

lemma splice1_split: "i < length xs \<Longrightarrow> xs = take i xs @ xs ! i # drop (Suc i) xs"
  by (rule id_take_nth_drop)

lemma map_splice1: "map f (splice1 i xs) = splice1 i (map f xs)"
  by (simp add: splice1_def take_map drop_map)

lemma filter_splice1:
  assumes "i < length xs"
  shows "length (filter P xs) = length (filter P (splice1 i xs)) + (if P (xs ! i) then 1 else 0)"
proof -
  have "length (filter P (take i xs @ xs ! i # drop (Suc i) xs))
      = length (filter P (splice1 i xs)) + (if P (xs ! i) then 1 else 0)"
    by (simp add: splice1_def)
  then show ?thesis using splice1_split [OF assms] by simp
qed

lemma mset_splice1:
  assumes "i < length xs" shows "set xs = insert (xs ! i) (set (splice1 i xs))"
proof -
  have "set (take i xs @ xs ! i # drop (Suc i) xs) = insert (xs ! i) (set (splice1 i xs))"
    by (simp add: splice1_def)
  then show ?thesis using splice1_split [OF assms] by simp
qed

lemma distinct_splice1:
  assumes "i < length xs" "distinct xs"
  shows "distinct (splice1 i xs) \<and> xs ! i \<notin> set (splice1 i xs)"
proof -
  have "distinct (take i xs @ xs ! i # drop (Suc i) xs)"
    using assms(2) splice1_split [OF assms(1)] by simp
  then show ?thesis by (auto simp: splice1_def)
qed

lemma set_splice1_subset: "set (splice1 i xs) \<subseteq> set xs"
  by (auto simp: splice1_def dest: in_set_takeD in_set_dropD)

lemma sorted_splice1: "sorted_wrt R xs \<Longrightarrow> sorted_wrt R (splice1 i xs)"
proof (cases "i < length xs")
  case True
  assume "sorted_wrt R xs"
  then have "sorted_wrt R (take i xs @ xs ! i # drop (Suc i) xs)" using splice1_split [OF True] by simp
  then show ?thesis by (simp add: splice1_def sorted_wrt_append)
next
  case False
  assume "sorted_wrt R xs"
  then show ?thesis using False by (simp add: splice1_def)
qed

lemma filter_map_length: "(\<And>x. P (f x) = P x) \<Longrightarrow> length (filter P (map f xs)) = length (filter P xs)"
  by (induction xs) auto

section \<open>The invariant\<close>

abbreviation held :: "nat \<times> io_release \<Rightarrow> bool" where
  "held e \<equiv> \<not> rl_released (snd e)"

abbreviation grant_of :: "work_class \<Rightarrow> nat \<times> io_release \<Rightarrow> bool" where
  "grant_of c e \<equiv> rl_workClass (snd e) = c"

definition tickets :: "pool \<Rightarrow> nat list" where
  "tickets p = map w_sequence (pl_waiters p) @ js_keys (pl_releases p) @ js_keys (pl_rejected p)"

definition pool_counts :: "pool \<Rightarrow> bool" where
  "pool_counts p \<longleftrightarrow>
     pl_active p = length (filter held (pl_releases p)) \<and>
     pl_activeFastIo p = length (filter (\<lambda>e. held e \<and> rl_isFastIo (snd e)) (pl_releases p))"

definition class_counts :: "pool \<Rightarrow> work_class \<Rightarrow> bool" where
  "class_counts p c \<longleftrightarrow>
     cs_active (pc_get (pl_classStats p) c) = length (filter (\<lambda>e. held e \<and> grant_of c e) (pl_releases p)) \<and>
     cs_pending (pc_get (pl_classStats p) c) = length (filter (\<lambda>w. w_workClass w = c) (pl_waiters p)) \<and>
     cs_started (pc_get (pl_classStats p) c) = length (filter (grant_of c) (pl_releases p)) \<and>
     cs_completed (pc_get (pl_classStats p) c) = length (filter (\<lambda>e. \<not> held e \<and> grant_of c e) (pl_releases p)) \<and>
     cs_cancelled (pc_get (pl_classStats p) c) = length (filter (\<lambda>e. snd e = c) (pl_rejected p))"

definition class_bounds :: "pool \<Rightarrow> work_class \<Rightarrow> bool" where
  "class_bounds p c \<longleftrightarrow>
     cs_capacity (pc_get (pl_classStats p) c) = pl_classCapacities p c \<and>
     1 \<le> pl_classCapacities p c \<and> pl_classCapacities p c \<le> pl_capacity p \<and>
     cs_active (pc_get (pl_classStats p) c) \<le> cs_maxActive (pc_get (pl_classStats p) c) \<and>
     cs_maxActive (pc_get (pl_classStats p) c) \<le> pl_classCapacities p c \<and>
     cs_pending (pc_get (pl_classStats p) c) \<le> cs_maxPending (pc_get (pl_classStats p) c)"

definition pool_tickets :: "pool \<Rightarrow> bool" where
  "pool_tickets p \<longleftrightarrow> distinct (tickets p) \<and> set (tickets p) = {..<pl_sequence p} \<and>
     sorted_wrt (<) (map w_sequence (pl_waiters p))"

definition pool_core :: "pool \<Rightarrow> bool" where
  "pool_core p \<longleftrightarrow> pool_counts p \<and> pl_active p \<le> pl_capacity p \<and> pool_tickets p \<and>
     (\<forall>c. class_counts p c \<and> class_bounds p c)"

text \<open>Work conservation: nobody waits for a slot that is free.\<close>

definition pool_quiet :: "pool \<Rightarrow> bool" where
  "pool_quiet p \<longleftrightarrow> (\<forall>w \<in> set (pl_waiters p). \<not> canDispatch p w)"

definition pool_inv :: "pool \<Rightarrow> bool" where
  "pool_inv p \<longleftrightarrow> pool_core p \<and> pool_quiet p"

lemma quiet_iff: "pool_quiet p \<longleftrightarrow> (\<forall>i. \<not> eligible p i)"
  by (force simp: pool_quiet_def eligible_def in_set_conv_nth)

lemma class_capacity_ok_bounds:
  "class_capacity_ok k x \<Longrightarrow> Suc 0 \<le> capacity_value x \<and> capacity_value x \<le> nat k"
  by (cases x) auto

lemma all_work_classes: "c \<in> set PARENT_IO_WORK_CLASSES"
  by (cases c) (simp_all add: PARENT_IO_WORK_CLASSES_def)

lemma new_pool_Inr:
  "new_pool cap caps = Inr p \<Longrightarrow> \<exists>k. p = \<lparr>pl_capacity = nat k,
     pl_classCapacities = (\<lambda>c. capacity_value (caps c)),
     pl_active = 0, pl_activeFastIo = 0, pl_waiters = [],
     pl_classStats = pc_of (\<lambda>c. emptyClassStats (capacity_value (caps c))),
     pl_sequence = 0, pl_releases = [], pl_rejected = []\<rparr> \<and> (\<forall>c. class_capacity_ok k (caps c))"
  by (cases cap) (auto simp: find_None_iff all_work_classes split: if_splits option.splits)

lemma class_capacities_bounds:
  "\<forall>c. class_capacity_ok k (caps c) \<Longrightarrow> Suc 0 \<le> capacity_value (caps c) \<and> capacity_value (caps c) \<le> nat k"
  by (blast dest: class_capacity_ok_bounds)

lemma core_new_pool: "pool_init p \<Longrightarrow> pool_core p \<and> pl_waiters p = []"
  by (auto simp: pool_init_def pool_core_def pool_counts_def class_counts_def class_bounds_def
      pool_tickets_def tickets_def emptyClassStats_def class_capacities_bounds dest!: new_pool_Inr)

lemma overtake_simps [simp]:
  "w_sequence (overtake p w) = w_sequence w" "w_workClass (overtake p w) = w_workClass w"
  "w_priority (overtake p w) = w_priority w" "w_signal (overtake p w) = w_signal w"
  "w_isFastIo (overtake p w) = w_isFastIo w"
  by (simp_all add: overtake_def)

text \<open>A dispatch.\<close>

lemma dispatch_one_simps [simp]:
  "pl_capacity (dispatch_one p i) = pl_capacity p"
  "pl_classCapacities (dispatch_one p i) = pl_classCapacities p"
  "pl_sequence (dispatch_one p i) = pl_sequence p"
  "pl_rejected (dispatch_one p i) = pl_rejected p"
  "map w_sequence (pl_waiters (dispatch_one p i)) = splice1 i (map w_sequence (pl_waiters p))"
  by (simp_all add: dispatch_one_def Let_def map_splice1 [symmetric] comp_def)

lemma dispatch_one_releases:
  "pl_releases (dispatch_one p i) = pl_releases p @
     [(w_sequence (pl_waiters p ! i), \<lparr>rl_workClass = w_workClass (pl_waiters p ! i),
       rl_isFastIo = w_isFastIo (pl_waiters p ! i), rl_released = False\<rparr>)]"
  by (simp add: dispatch_one_def Let_def)

lemma dispatch_one_pending:
  assumes "i < length (pl_waiters p)"
  shows "length (filter (\<lambda>w. w_workClass w = c) (pl_waiters (dispatch_one p i)))
     + (if w_workClass (pl_waiters p ! i) = c then 1 else 0) = length (filter (\<lambda>w. w_workClass w = c) (pl_waiters p))"
  using filter_splice1 [OF assms, of "\<lambda>w. w_workClass w = c"]
  by (simp add: dispatch_one_def Let_def comp_def)

lemma tickets_dispatch_one:
  assumes i: "i < length (pl_waiters p)" and t: "pool_tickets p"
  shows "pool_tickets (dispatch_one p i)"
proof -
  let ?ws = "map w_sequence (pl_waiters p)"
  have i': "i < length ?ws" using i by simp
  have d: "distinct ?ws" using t by (simp add: pool_tickets_def tickets_def)
  note sp = distinct_splice1 [OF i' d] mset_splice1 [OF i']
  show ?thesis using t sp i sorted_splice1 [of "(<)" ?ws i]
    by (auto simp: pool_tickets_def tickets_def dispatch_one_releases)
qed

lemma core_dispatch_one:
  assumes e: "eligible p i" and core: "pool_core p"
  shows "pool_core (dispatch_one p i)"
proof -
  have i: "i < length (pl_waiters p)" and cd: "canDispatch p (pl_waiters p ! i)"
    using e by (auto simp: eligible_def)
  let ?q = "dispatch_one p i"
  have "pool_counts ?q" using core
    by (auto simp: pool_core_def pool_counts_def dispatch_one_releases) (auto simp: dispatch_one_def Let_def)
  moreover have "pl_active ?q \<le> pl_capacity ?q" using cd by (simp add: canDispatch_def dispatch_one_def Let_def)
  moreover have "pool_tickets ?q" using core i by (simp add: pool_core_def tickets_dispatch_one)
  moreover have "class_counts ?q c" for c
  proof -
    have "class_counts p c" using core by (simp add: pool_core_def)
    then show ?thesis using dispatch_one_pending [OF i, of c]
      by (auto simp: class_counts_def dispatch_one_releases) (auto simp: dispatch_one_def Let_def)
  qed
  moreover have "class_bounds ?q c" for c
  proof -
    have "class_bounds p c" using core by (simp add: pool_core_def)
    then show ?thesis using cd
      by (auto simp: class_bounds_def canDispatch_def) (auto simp: dispatch_one_def Let_def)
  qed
  ultimately show ?thesis by (simp add: pool_core_def)
qed

lemma dispatch_induct [consumes 1, case_names base step]:
  assumes "P p" and "\<And>q i. P q \<Longrightarrow> findBestEligibleWaiterIndex q = Some i \<Longrightarrow> P (dispatch_one q i)"
  shows "P (dispatchWhileCapacity p)"
  using assms(1)
proof (induction p rule: dispatchWhileCapacity.induct)
  case (1 p)
  then show ?case using assms(2)
    by (subst dispatchWhileCapacity.simps) (auto split: option.split)
qed

lemma core_dispatch: "pool_core p \<Longrightarrow> pool_core (dispatchWhileCapacity p)"
  by (induction rule: dispatch_induct) (auto intro: core_dispatch_one findBest_eligible)

lemma quiet_dispatch: "pool_quiet (dispatchWhileCapacity p)"
proof (induction p rule: dispatchWhileCapacity.induct)
  case (1 p)
  then show ?case
    by (subst dispatchWhileCapacity.simps)
       (auto simp: quiet_iff findBest_None eligible_def canDispatch_def split: option.split)
qed

lemma dispatch_quiet: "pool_quiet p \<Longrightarrow> dispatchWhileCapacity p = p"
  by (subst dispatchWhileCapacity.simps) (simp add: quiet_iff findBest_None [symmetric])


section \<open>The operations keep the invariant\<close>

lemma core_enqueue:
  assumes core: "pool_core p" shows "pool_core (enqueue n fast c s p)"
proof -
  let ?q = "enqueue n fast c s p"
  have t: "pool_tickets p" and cc: "\<And>d. class_counts p d" and cb: "\<And>d. class_bounds p d"
    and pc: "pool_counts p" and cap: "pl_active p \<le> pl_capacity p"
    using core by (auto simp: pool_core_def)
  have "pool_tickets ?q" using t
    by (auto simp: pool_tickets_def tickets_def enqueue_def Let_def sorted_wrt_append lessThan_Suc)
  moreover have "class_counts ?q d" for d
    using cc [of d] by (auto simp: class_counts_def enqueue_def Let_def)
  moreover have "class_bounds ?q d" for d
    using cb [of d] by (auto simp: class_bounds_def enqueue_def Let_def)
  moreover have "pool_counts ?q" "pl_active ?q \<le> pl_capacity ?q"
    using pc cap by (simp_all add: pool_counts_def enqueue_def Let_def)
  ultimately show ?thesis by (simp add: pool_core_def)
qed

lemma pool_inv_dispatch: "pool_core p \<Longrightarrow> pool_inv (dispatchWhileCapacity p)"
  by (simp add: pool_inv_def core_dispatch quiet_dispatch)

lemma pool_inv_acquire: "pool_inv p \<Longrightarrow> pool_inv (fst (acquire priority isFastIo workClass signal p))"
  by (auto simp: pool_inv_def [of p] core_enqueue intro!: pool_inv_dispatch split: option.split)

lemma index_of_Some: "index_of n ws = Some i \<Longrightarrow> i < length ws \<and> w_sequence (ws ! i) = n"
  by (induction ws arbitrary: i) (auto split: if_splits)

lemma index_of_None: "index_of n ws = None \<longleftrightarrow> n \<notin> w_sequence ` set ws"
  by (induction ws) auto

text \<open>The state a cancellation leaves before it dispatches.\<close>

definition drop_waiter :: "nat \<Rightarrow> nat \<Rightarrow> pool \<Rightarrow> pool" where
  "drop_waiter n i p =
     (let c = w_workClass (pl_waiters p ! i);
          stats = pc_get (pl_classStats p) c;
          stats' = stats\<lparr>cs_pending := cs_pending stats - 1, cs_cancelled := Suc (cs_cancelled stats)\<rparr>
      in p\<lparr>pl_waiters := splice1 i (pl_waiters p),
           pl_classStats := pc_set (pl_classStats p) c stats',
           pl_rejected := pl_rejected p @ [(n, c)]\<rparr>)"

lemma cancelWaiter_alt:
  "cancelWaiter n p = (case index_of n (pl_waiters p) of None \<Rightarrow> p
     | Some i \<Rightarrow> dispatchWhileCapacity (drop_waiter n i p))"
  by (simp add: cancelWaiter_def drop_waiter_def Let_def split: option.split)

lemma core_drop_waiter:
  assumes core: "pool_core p" and i: "i < length (pl_waiters p)" and n: "w_sequence (pl_waiters p ! i) = n"
  shows "pool_core (drop_waiter n i p)"
proof -
  let ?q = "drop_waiter n i p" and ?ws = "map w_sequence (pl_waiters p)"
  have t: "pool_tickets p" and cc: "\<And>d. class_counts p d" and cb: "\<And>d. class_bounds p d"
    and pc: "pool_counts p" and cap: "pl_active p \<le> pl_capacity p"
    using core by (auto simp: pool_core_def)
  have i': "i < length ?ws" using i by simp
  have d: "distinct ?ws" using t by (simp add: pool_tickets_def tickets_def)
  note sp = distinct_splice1 [OF i' d] mset_splice1 [OF i']
  have "pool_tickets ?q" using t sp i n sorted_splice1 [of "(<)" ?ws i]
    by (auto simp: pool_tickets_def tickets_def drop_waiter_def Let_def map_splice1)
  moreover have "class_counts ?q d" for d
    using cc [of d] filter_splice1 [OF i, of "\<lambda>w. w_workClass w = d"]
    by (auto simp: class_counts_def drop_waiter_def Let_def)
  moreover have "class_bounds ?q d" for d
    using cb [of d] by (auto simp: class_bounds_def drop_waiter_def Let_def)
  moreover have "pool_counts ?q" "pl_active ?q \<le> pl_capacity ?q"
    using pc cap by (simp_all add: pool_counts_def drop_waiter_def Let_def)
  ultimately show ?thesis by (simp add: pool_core_def)
qed

lemma canDispatch_drop_waiter [simp]: "canDispatch (drop_waiter n i p) w = canDispatch p w"
  by (simp add: drop_waiter_def Let_def canDispatch_def)

lemma quiet_drop_waiter: "pool_quiet p \<Longrightarrow> pool_quiet (drop_waiter n i p)"
  using subsetD [OF set_splice1_subset [of i "pl_waiters p"]]
  by (simp add: pool_quiet_def) (simp add: drop_waiter_def Let_def)

text \<open>A cancellation frees no slot: it dispatches nothing.\<close>

lemma cancelWaiter_inv:
  assumes "pool_inv p"
  shows "cancelWaiter n p = (case index_of n (pl_waiters p) of None \<Rightarrow> p | Some i \<Rightarrow> drop_waiter n i p)"
  using assms by (simp add: cancelWaiter_alt pool_inv_def dispatch_quiet quiet_drop_waiter split: option.split)

lemma pool_inv_cancelWaiter: "pool_inv p \<Longrightarrow> pool_inv (cancelWaiter n p)"
  by (auto simp: cancelWaiter_inv pool_inv_def core_drop_waiter quiet_drop_waiter
      dest: index_of_Some split: option.split)

lemma pool_inv_fold_cancel: "pool_inv p \<Longrightarrow> pool_inv (fold cancelWaiter ns p)"
  by (induction ns arbitrary: p) (simp_all add: pool_inv_cancelWaiter)

lemma pool_inv_abort: "pool_inv p \<Longrightarrow> pool_inv (abort_signal s p)"
  by (simp add: abort_signal_def pool_inv_fold_cancel)

lemma update_at:
  assumes "js_wf m" "js_get m k = Some v"
  obtains xs ys where "m = xs @ (k, v) # ys" "js_set m k v' = xs @ (k, v') # ys"
proof -
  have "\<exists>xs ys. m = xs @ (k, v) # ys \<and> js_set m k v' = xs @ (k, v') # ys"
    using assms
  proof (induction m)
    case (Cons e m)
    obtain a b where e: "e = (a, b)" by (cases e)
    show ?case
    proof (cases "a = k")
      case True
      then have "e # m = [] @ (k, v) # m \<and> js_set (e # m) k v' = [] @ (k, v') # m"
        using Cons.prems e by simp
      then show ?thesis by blast
    next
      case False
      then obtain xs ys where "m = xs @ (k, v) # ys" "js_set m k v' = xs @ (k, v') # ys"
        using Cons e by auto
      then have "e # m = (e # xs) @ (k, v) # ys \<and> js_set (e # m) k v' = (e # xs) @ (k, v') # ys"
        using False e by simp
      then show ?thesis by blast
    qed
  qed simp
  then show thesis using that by blast
qed

lemma core_free_slot:
  assumes core: "pool_core p" and r: "js_get (pl_releases p) n = Some r" and held: "\<not> rl_released r"
  shows "pool_core (free_slot n r p)"
proof -
  let ?q = "free_slot n r p"
  have t: "pool_tickets p" and cc: "\<And>d. class_counts p d" and cb: "\<And>d. class_bounds p d"
    and pc: "pool_counts p" and cap: "pl_active p \<le> pl_capacity p"
    using core by (auto simp: pool_core_def)
  have wf: "js_wf (pl_releases p)" using t by (simp add: pool_tickets_def tickets_def)
  obtain xs ys where rel: "pl_releases p = xs @ (n, r) # ys"
    and rel': "js_set (pl_releases p) n (r\<lparr>rl_released := True\<rparr>) = xs @ (n, r\<lparr>rl_released := True\<rparr>) # ys"
    by (rule update_at [OF wf r])
  have q: "pl_releases ?q = xs @ (n, r\<lparr>rl_released := True\<rparr>) # ys"
    using rel' by (simp add: free_slot_def Let_def)
  have "pool_tickets ?q" using t rel q by (simp add: pool_tickets_def tickets_def) (simp add: free_slot_def Let_def)
  moreover have "class_counts ?q d" for d
    using cc [of d] held by (auto simp: class_counts_def rel q) (auto simp: free_slot_def Let_def)
  moreover have "class_bounds ?q d" for d
    using cb [of d] by (auto simp: class_bounds_def free_slot_def Let_def)
  moreover have "pool_counts ?q"
    using pc held by (simp add: pool_counts_def rel q) (simp add: free_slot_def Let_def)
  moreover have "pl_active ?q \<le> pl_capacity ?q" using cap by (simp add: free_slot_def Let_def)
  ultimately show ?thesis by (simp add: pool_core_def)
qed

lemma pool_inv_call_release: "pool_inv p \<Longrightarrow> pool_inv (call_release n p)"
  by (auto simp: call_release_def pool_inv_def [of p] core_free_slot intro!: pool_inv_dispatch split: option.split)

lemma pool_inv_init: "pool_init p \<Longrightarrow> pool_inv p"
  using core_new_pool [of p] by (simp add: pool_inv_def pool_quiet_def)

lemma pool_inv_step: "pool_inv p \<Longrightarrow> pool_step p q \<Longrightarrow> pool_inv q"
  by (auto elim!: pool_step.cases simp del: acquire.simps intro: pool_inv_acquire pool_inv_abort pool_inv_call_release)


section \<open>What later states keep\<close>

definition same_request :: "waiter \<Rightarrow> waiter \<Rightarrow> bool" where
  "same_request w v \<longleftrightarrow> w_sequence w = w_sequence v \<and> w_priority w = w_priority v \<and>
     w_workClass w = w_workClass v \<and> w_isFastIo w = w_isFastIo v \<and> w_signal w = w_signal v"

definition older :: "pool \<Rightarrow> waiter \<Rightarrow> nat" where
  "older p w = length (filter (\<lambda>v. w_sequence v < w_sequence w) (pl_waiters p))"

text \<open>
  The bound on overtaking: past the allowance, every waiter that goes first is an older one, and
  older waiters only get fewer.
\<close>

definition overtaking_bound :: "pool \<Rightarrow> waiter \<Rightarrow> nat" where
  "overtaking_bound p w = max PARENT_IO_MAX_PRIORITY_BYPASSES (w_bypasses w) + older p w"

definition waits_on :: "pool \<Rightarrow> pool \<Rightarrow> bool" where
  "waits_on p q \<longleftrightarrow> (\<forall>w' \<in> set (pl_waiters q). w_sequence w' < pl_sequence p \<longrightarrow>
     (\<exists>w \<in> set (pl_waiters p). same_request w w' \<and> w_bypasses w \<le> w_bypasses w' \<and>
        overtaking_bound q w' \<le> overtaking_bound p w))"

definition releases_kept :: "pool \<Rightarrow> pool \<Rightarrow> bool" where
  "releases_kept p q \<longleftrightarrow> (\<forall>n r. js_get (pl_releases p) n = Some r \<longrightarrow>
     (\<exists>b. js_get (pl_releases q) n = Some (r\<lparr>rl_released := b\<rparr>) \<and> (rl_released r \<longrightarrow> b)))"

definition pool_leq :: "pool \<Rightarrow> pool \<Rightarrow> bool" where
  "pool_leq p q \<longleftrightarrow> pl_capacity q = pl_capacity p \<and> pl_classCapacities q = pl_classCapacities p \<and>
     pl_sequence p \<le> pl_sequence q \<and> set (pl_rejected p) \<subseteq> set (pl_rejected q) \<and>
     releases_kept p q \<and> waits_on p q"

lemma waits_onI:
  assumes "\<And>w'. w' \<in> set (pl_waiters q) \<Longrightarrow> w_sequence w' < pl_sequence p \<Longrightarrow>
     \<exists>w \<in> set (pl_waiters p). same_request w w' \<and> w_bypasses w \<le> w_bypasses w' \<and>
        overtaking_bound q w' \<le> overtaking_bound p w"
  shows "waits_on p q"
  using assms by (auto simp: waits_on_def)

lemma waits_on_refl: "waits_on p p"
  by (auto simp: waits_on_def same_request_def)

lemma waits_on_trans:
  assumes pq: "waits_on p q" and qr: "waits_on q r" and le: "pl_sequence p \<le> pl_sequence q"
  shows "waits_on p r"
proof (rule waits_onI)
  fix w2 assume w2: "w2 \<in> set (pl_waiters r)" "w_sequence w2 < pl_sequence p"
  then obtain w1 where w1: "w1 \<in> set (pl_waiters q)" "same_request w1 w2" "w_bypasses w1 \<le> w_bypasses w2"
      "overtaking_bound r w2 \<le> overtaking_bound q w1"
    using qr le unfolding waits_on_def by (metis order_less_le_trans)
  then have "w_sequence w1 < pl_sequence p" using w2 by (simp add: same_request_def)
  then obtain w where w: "w \<in> set (pl_waiters p)" "same_request w w1" "w_bypasses w \<le> w_bypasses w1"
      "overtaking_bound q w1 \<le> overtaking_bound p w"
    using pq w1(1) unfolding waits_on_def by blast
  have "same_request w w2" using w(2) w1(2) by (simp add: same_request_def)
  moreover have "w_bypasses w \<le> w_bypasses w2" using w w1 by linarith
  moreover have "overtaking_bound r w2 \<le> overtaking_bound p w" using w w1 by linarith
  ultimately show "\<exists>w \<in> set (pl_waiters p). same_request w w2 \<and> w_bypasses w \<le> w_bypasses w2 \<and>
        overtaking_bound r w2 \<le> overtaking_bound p w" using w(1) by blast
qed

lemma waits_on_subset:
  assumes ws: "set (pl_waiters q) \<subseteq> set (pl_waiters p)"
    and old: "\<And>w. older q w \<le> older p w"
  shows "waits_on p q"
proof (rule waits_onI)
  fix w assume "w \<in> set (pl_waiters q)"
  then have "w \<in> set (pl_waiters p)" using ws by blast
  moreover have "overtaking_bound q w \<le> overtaking_bound p w" using old [of w] by (simp add: overtaking_bound_def)
  ultimately show "\<exists>v \<in> set (pl_waiters p). same_request v w \<and> w_bypasses v \<le> w_bypasses w \<and>
        overtaking_bound q w \<le> overtaking_bound p v" by (auto simp: same_request_def)
qed

lemma releases_kept_trans: "releases_kept p q \<Longrightarrow> releases_kept q r \<Longrightarrow> releases_kept p r"
  unfolding releases_kept_def by (fastforce)

lemma releases_kept_refl: "releases_kept p p"
  by (auto simp: releases_kept_def) (metis io_release.surjective io_release.update_convs(3))

lemma pool_leq_refl: "pool_leq p p"
  by (simp add: pool_leq_def releases_kept_refl waits_on_refl)

lemma pool_leq_trans: "pool_leq p q \<Longrightarrow> pool_leq q r \<Longrightarrow> pool_leq p r"
  by (auto simp: pool_leq_def intro: releases_kept_trans waits_on_trans)

lemma older_dispatch_one:
  assumes "i < length (pl_waiters p)"
  shows "older p w = older (dispatch_one p i) w + (if w_sequence (pl_waiters p ! i) < w_sequence w then 1 else 0)"
  using filter_splice1 [OF assms, of "\<lambda>v. w_sequence v < w_sequence w"]
  by (simp add: older_def dispatch_one_def Let_def comp_def)

lemma bypass_dispatch_one:
  assumes core: "pool_core p" and b: "best_choice p i" and w: "w \<in> set (splice1 i (pl_waiters p))"
  shows "overtaking_bound (dispatch_one p i) (overtake p w) \<le> overtaking_bound p w"
proof -
  let ?c = "pl_waiters p ! i" and ?ws = "map w_sequence (pl_waiters p)"
  have i: "i < length (pl_waiters p)" using b by (simp add: best_choice_def eligible_def)
  have old: "older p w = older (dispatch_one p i) (overtake p w)
      + (if w_sequence ?c < w_sequence w then 1 else 0)"
    using older_dispatch_one [OF i, of w] by (simp add: older_def)
  show ?thesis
  proof (cases "canDispatch p w \<and> overtaken w")
    case False
    then have "max PARENT_IO_MAX_PRIORITY_BYPASSES (w_bypasses (overtake p w))
        \<le> max PARENT_IO_MAX_PRIORITY_BYPASSES (w_bypasses w)"
      by (auto simp: overtake_def overtaken_def)
    then show ?thesis using old by (simp add: overtaking_bound_def)
  next
    case True
    have "distinct ?ws" using core by (simp add: pool_core_def pool_tickets_def tickets_def)
    then have "w_sequence ?c \<notin> set (splice1 i ?ws)" using distinct_splice1 [of i ?ws] i by simp
    then have ne: "w_sequence w \<noteq> w_sequence ?c" using imageI [OF w, of w_sequence] by (auto simp: map_splice1 [symmetric])
    obtain j where j: "j < length (pl_waiters p)" "pl_waiters p ! j = w"
      using w set_splice1_subset [of i "pl_waiters p"] by (metis in_set_conv_nth subsetD)
    then have ej: "eligible p j" using True by (simp add: eligible_def)
    have ex: "\<exists>k < length (pl_waiters p). eligible p k \<and> overtaken (pl_waiters p ! k)"
      using j ej True by blast
    then have "\<forall>k. eligible p k \<longrightarrow> overtaken (pl_waiters p ! k) \<longrightarrow> w_sequence ?c \<le> w_sequence (pl_waiters p ! k)"
      using b by (simp add: best_choice_def)
    then have "w_sequence ?c \<le> w_sequence w" using j ej True by blast
    then have "w_sequence ?c < w_sequence w" using ne by simp
    then show ?thesis using old True by (simp add: overtaking_bound_def overtake_def overtaken_def)
  qed
qed

lemma pool_leq_dispatch_one:
  assumes core: "pool_core p" and b: "best_choice p i"
  shows "pool_leq p (dispatch_one p i)"
proof -
  have "waits_on p (dispatch_one p i)"
  proof (rule waits_onI)
    fix w' assume "w' \<in> set (pl_waiters (dispatch_one p i))"
    then obtain w where w: "w \<in> set (splice1 i (pl_waiters p))" and w': "w' = overtake p w"
      by (auto simp: dispatch_one_def Let_def)
    have "w \<in> set (pl_waiters p)" using w set_splice1_subset by (rule subsetD [rotated])
    moreover have "same_request w w'" by (simp add: same_request_def w')
    moreover have "w_bypasses w \<le> w_bypasses w'" by (simp add: w' overtake_def)
    moreover have "overtaking_bound (dispatch_one p i) w' \<le> overtaking_bound p w"
      unfolding w' by (rule bypass_dispatch_one [OF core b w])
    ultimately show "\<exists>w \<in> set (pl_waiters p). same_request w w' \<and> w_bypasses w \<le> w_bypasses w' \<and>
        overtaking_bound (dispatch_one p i) w' \<le> overtaking_bound p w" by blast
  qed
  moreover have "releases_kept p (dispatch_one p i)"
    using releases_kept_refl [of p] by (simp add: releases_kept_def dispatch_one_releases map_add_Some_iff)
  ultimately show ?thesis by (simp add: pool_leq_def)
qed

lemma pool_leq_dispatch: "pool_core p \<Longrightarrow> pool_leq p (dispatchWhileCapacity p)"
proof -
  assume core: "pool_core p"
  have "pool_core (dispatchWhileCapacity p) \<and> pool_leq p (dispatchWhileCapacity p)"
  proof (rule dispatch_induct)
    show "pool_core p \<and> pool_leq p p" using core pool_leq_refl by blast
  next
    fix q i assume "pool_core q \<and> pool_leq p q" and "findBestEligibleWaiterIndex q = Some i"
    then show "pool_core (dispatch_one q i) \<and> pool_leq p (dispatch_one q i)"
      by (blast intro: core_dispatch_one findBest_eligible pool_leq_trans pool_leq_dispatch_one findBest_Some)
  qed
  then show ?thesis by blast
qed

lemma pool_leq_enqueue:
  assumes core: "pool_core p" shows "pool_leq p (enqueue n fast c s p)"
proof -
  have "waits_on p (enqueue n fast c s p)"
  proof (rule waits_onI)
    fix w assume "w \<in> set (pl_waiters (enqueue n fast c s p))" and lt: "w_sequence w < pl_sequence p"
    then have "w \<in> set (pl_waiters p)" by (auto simp: enqueue_def Let_def)
    moreover have "older (enqueue n fast c s p) w = older p w" using lt by (simp add: older_def enqueue_def Let_def)
    ultimately show "\<exists>v \<in> set (pl_waiters p). same_request v w \<and> w_bypasses v \<le> w_bypasses w \<and>
        overtaking_bound (enqueue n fast c s p) w \<le> overtaking_bound p v"
      by (auto simp: same_request_def overtaking_bound_def)
  qed
  moreover have "releases_kept p (enqueue n fast c s p)"
    using releases_kept_refl [of p] by (simp add: releases_kept_def enqueue_def Let_def)
  ultimately show ?thesis by (simp add: pool_leq_def enqueue_def Let_def)
qed

lemma pool_leq_acquire: "pool_inv p \<Longrightarrow> pool_leq p (fst (acquire priority isFastIo workClass signal p))"
  by (auto simp: pool_inv_def intro!: pool_leq_refl pool_leq_trans [OF pool_leq_enqueue pool_leq_dispatch] core_enqueue split: option.split)

lemma pool_leq_drop_waiter: "i < length (pl_waiters p) \<Longrightarrow> pool_leq p (drop_waiter n i p)"
proof -
  assume i: "i < length (pl_waiters p)"
  have "waits_on p (drop_waiter n i p)"
  proof (rule waits_on_subset)
    show "set (pl_waiters (drop_waiter n i p)) \<subseteq> set (pl_waiters p)"
      using set_splice1_subset by (simp add: drop_waiter_def Let_def)
    show "older (drop_waiter n i p) w \<le> older p w" for w
      using filter_splice1 [OF i, of "\<lambda>v. w_sequence v < w_sequence w"]
      by (simp add: older_def drop_waiter_def Let_def)
  qed
  moreover have "releases_kept p (drop_waiter n i p)"
    using releases_kept_refl [of p] by (simp add: releases_kept_def drop_waiter_def Let_def)
  ultimately show ?thesis by (auto simp: pool_leq_def drop_waiter_def Let_def)
qed

lemma pool_leq_cancelWaiter: "pool_inv p \<Longrightarrow> pool_leq p (cancelWaiter n p)"
  by (auto simp: cancelWaiter_inv pool_leq_refl intro!: pool_leq_drop_waiter dest: index_of_Some split: option.split)

lemma pool_leq_abort: "pool_inv p \<Longrightarrow> pool_leq p (abort_signal s p)"
proof -
  have "pool_inv p \<Longrightarrow> pool_leq p (fold cancelWaiter ns p)" for ns
  proof (induction ns arbitrary: p)
    case Nil
    show ?case by (simp add: pool_leq_refl)
  next
    case (Cons n ns)
    then show ?case using pool_leq_trans [OF pool_leq_cancelWaiter Cons.IH [OF pool_inv_cancelWaiter]] by simp
  qed
  then show "pool_inv p \<Longrightarrow> ?thesis" by (simp add: abort_signal_def)
qed

lemma pool_leq_free_slot:
  assumes "js_get (pl_releases p) n = Some r"
  shows "pool_leq p (free_slot n r p)"
proof -
  have "waits_on p (free_slot n r p)"
    by (rule waits_on_subset) (simp_all add: free_slot_def Let_def older_def)
  moreover have "releases_kept p (free_slot n r p)"
    using releases_kept_refl [of p] assms by (auto simp: releases_kept_def free_slot_def Let_def)
  ultimately show ?thesis by (simp add: pool_leq_def free_slot_def Let_def)
qed

lemma pool_leq_call_release: "pool_inv p \<Longrightarrow> pool_leq p (call_release n p)"
  by (auto simp: call_release_def pool_inv_def core_free_slot
      intro!: pool_leq_refl pool_leq_trans [OF pool_leq_free_slot pool_leq_dispatch] split: option.split)

lemma pool_leq_step: "pool_inv p \<Longrightarrow> pool_step p q \<Longrightarrow> pool_leq p q"
  by (auto elim!: pool_step.cases simp del: acquire.simps intro: pool_leq_acquire pool_leq_abort pool_leq_call_release)

interpretation bulk: monotone_system pool_init pool_step pool_inv pool_leq
  by unfold_locales (fact pool_inv_init pool_inv_step pool_leq_refl pool_leq_trans pool_leq_step)+


section \<open>What the bulkhead guarantees\<close>

lemma bulk_inv: "reach pool_init pool_step p \<Longrightarrow> pool_inv p"
  by (rule bulk.reach_inv)

lemma length_dispatch_le: "length (pl_waiters (dispatchWhileCapacity p)) \<le> length (pl_waiters p)"
proof (rule dispatch_induct)
  fix q i assume le: "length (pl_waiters q) \<le> length (pl_waiters p)"
    and "findBestEligibleWaiterIndex q = Some i"
  then have "i < length (pl_waiters q)" using findBest_eligible by (auto simp: eligible_def)
  then show "length (pl_waiters (dispatch_one q i)) \<le> length (pl_waiters p)"
    using le by (simp add: dispatch_one_def Let_def)
qed simp

lemma dispatch_serves:
  assumes w: "w \<in> set (pl_waiters q)" and can: "canDispatch q w"
  shows "length (pl_waiters (dispatchWhileCapacity q)) < length (pl_waiters q)"
proof -
  obtain j where "eligible q j" using w can by (auto simp: eligible_def in_set_conv_nth)
  then obtain i where i: "findBestEligibleWaiterIndex q = Some i"
    using findBest_None [of q] by (cases "findBestEligibleWaiterIndex q") auto
  then have il: "i < length (pl_waiters q)" using findBest_eligible by (auto simp: eligible_def)
  have "dispatchWhileCapacity q = dispatchWhileCapacity (dispatch_one q i)"
    using i can by (subst dispatchWhileCapacity.simps) (simp add: canDispatch_def)
  then have "length (pl_waiters (dispatchWhileCapacity q)) \<le> length (pl_waiters (dispatch_one q i))"
    using length_dispatch_le [of "dispatch_one q i"] by simp
  also have "\<dots> < length (pl_waiters q)" using il by (simp add: dispatch_one_def Let_def)
  finally show ?thesis .
qed

lemma held_grant:
  assumes "0 < length (filter P (pl_releases p))" and "pool_core p"
  obtains n r where "js_get (pl_releases p) n = Some r" "P (n, r)"
proof -
  have "filter P (pl_releases p) \<noteq> []" using assms(1) by auto
  then obtain e where e: "e \<in> set (pl_releases p)" "P e" by (auto simp: filter_empty_conv)
  have "js_wf (pl_releases p)" using assms(2) by (simp add: pool_core_def pool_tickets_def tickets_def)
  then have "js_get (pl_releases p) (fst e) = Some (snd e)" using e(1) by simp
  then show thesis using that e(2) by simp
qed

lemma blocking_grant:
  assumes inv: "pool_inv p" and w: "w \<in> set (pl_waiters p)"
  obtains n r where "js_get (pl_releases p) n = Some r" "\<not> rl_released r" "canDispatch (free_slot n r p) w"
proof -
  let ?c = "w_workClass w"
  have core: "pool_core p" and blocked: "\<not> canDispatch p w"
    using inv w by (auto simp: pool_inv_def pool_quiet_def)
  have cc: "class_counts p ?c" and cb: "class_bounds p ?c" and pc: "pool_counts p"
    and cap: "pl_active p \<le> pl_capacity p" using core by (auto simp: pool_core_def)
  show thesis
  proof (cases "cs_active (pc_get (pl_classStats p) ?c) < pl_classCapacities p ?c")
    case True
    then have "pl_active p = pl_capacity p" using blocked cap by (simp add: canDispatch_def)
    then have "0 < pl_active p" using cb by (simp add: class_bounds_def)
    then have "0 < length (filter held (pl_releases p))" using pc by (simp only: pool_counts_def)
    then obtain n r where r: "js_get (pl_releases p) n = Some r" "held (n, r)" using core by (rule held_grant)
    have "canDispatch (free_slot n r p) w"
      using True cb cap by (auto simp: canDispatch_def free_slot_def Let_def class_bounds_def)
    then show thesis using that r by simp
  next
    case False
    then have "0 < cs_active (pc_get (pl_classStats p) ?c)" using cb by (simp add: class_bounds_def)
    then have "0 < length (filter (\<lambda>e. held e \<and> grant_of ?c e) (pl_releases p))"
      using cc by (simp only: class_counts_def)
    then obtain n r where r: "js_get (pl_releases p) n = Some r" "held (n, r) \<and> grant_of ?c (n, r)"
      using core by (rule held_grant)
    have "canDispatch (free_slot n r p) w"
      using r(2) cb cap by (auto simp: canDispatch_def free_slot_def Let_def class_bounds_def)
    then show thesis using that r by simp
  qed
qed

text \<open>A pool of the default capacities, filled by four searches and reads, with three requests waiting.\<close>

definition sample_pool :: pool where
  "sample_pool =
     (case new_pool (Js_int 4) PARENT_IO_CLASS_CAPACITIES of
        Inl _ \<Rightarrow> undefined
      | Inr p \<Rightarrow>
          let a = (\<lambda>prio c s p. fst (acquire (Some prio) True (Some c) s p)) in
          a 0 ''search'' (Some (7, False)) (a 2 ''small-read'' None (a 1 ''search'' (Some (7, False))
            (a 0 ''small-read'' None (a 0 ''small-read'' None (a 0 ''search'' None (a 0 ''search'' None p)))))))"

lemma sample_pool_init: "\<exists>p. new_pool (Js_int 4) PARENT_IO_CLASS_CAPACITIES = Inr p"
  by (simp add: PARENT_IO_WORK_CLASSES_def PARENT_IO_BULKHEAD_CAPACITY_def)

lemma reach_acquire:
  "reach pool_init pool_step p \<Longrightarrow>
     reach pool_init pool_step (fst (acquire priority isFastIo workClass signal p))"
  by (rule reach_step [where s = p]) (assumption, rule pool_acquire)

lemma sample_pool_reach: "reach pool_init pool_step sample_pool"
proof -
  obtain p where p: "new_pool (Js_int 4) PARENT_IO_CLASS_CAPACITIES = Inr p" using sample_pool_init by blast
  then have "pool_init p" unfolding pool_init_def by blast
  then have "reach pool_init pool_step p" by (rule reach_init)
  then show ?thesis unfolding sample_pool_def p Let_def sum.case
    by (intro reach_acquire)
qed

text \<open>C20. At most \<^verbatim>\<open>capacity\<close> grants are outstanding, at most the class capacity of each class; the counters
  are exactly the grants not yet released, so the \<^verbatim>\<open>Math.max(0, n - 1)\<close> of the code never cuts.\<close>

theorem parent_io_bounded:
  "reach pool_init pool_step p \<Longrightarrow>
     pl_active p = length (filter held (pl_releases p)) \<and> pl_active p \<le> pl_capacity p \<and>
     cs_active (pc_get (pl_classStats p) c) = length (filter (\<lambda>e. held e \<and> grant_of c e) (pl_releases p)) \<and>
     cs_active (pc_get (pl_classStats p) c) \<le> pl_classCapacities p c \<and>
     cs_started (pc_get (pl_classStats p) c) = cs_completed (pc_get (pl_classStats p) c) + cs_active (pc_get (pl_classStats p) c) \<and>
     cs_pending (pc_get (pl_classStats p) c) = length (filter (\<lambda>w. w_workClass w = c) (pl_waiters p))"
proof -
  assume "reach pool_init pool_step p"
  then have core: "pool_core p" using bulk_inv by (simp add: pool_inv_def)
  then have "class_counts p c" "class_bounds p c" "pool_counts p" "pl_active p \<le> pl_capacity p"
    by (auto simp: pool_core_def)
  moreover have "length (filter (grant_of c) xs)
      = length (filter (\<lambda>e. \<not> held e \<and> grant_of c e) xs) + length (filter (\<lambda>e. held e \<and> grant_of c e) xs)" for xs
    by (induction xs) auto
  ultimately show ?thesis by (simp add: class_counts_def class_bounds_def pool_counts_def)
qed

theorem parent_io_bounded_witness:
  "pl_active sample_pool = 4 \<and> length (filter held (pl_releases sample_pool)) = 4 \<and>
   cs_active (pc_get (pl_classStats sample_pool) Search) = 2 \<and> cs_pending (pc_get (pl_classStats sample_pool) Search) = 2"
proof -
  have "pl_active sample_pool = 4" "cs_active (pc_get (pl_classStats sample_pool) Search) = 2"
    "cs_pending (pc_get (pl_classStats sample_pool) Search) = 2" by code_simp+
  then show ?thesis using parent_io_bounded [OF sample_pool_reach, of Search] by simp
qed

text \<open>C22. The pool is work conserving: a waiter waits only for a total or a class capacity that is used up,
  and as long as somebody waits some outstanding grant exists whose release serves a waiter at once.\<close>

theorem parent_io_work_conserving:
  assumes "reach pool_init pool_step p" and "w \<in> set (pl_waiters p)"
  shows "(pl_active p = pl_capacity p \<or> cs_active (pc_get (pl_classStats p) (w_workClass w)) = pl_classCapacities p (w_workClass w)) \<and>
     (\<exists>n r. js_get (pl_releases p) n = Some r \<and> \<not> rl_released r \<and>
        length (pl_waiters (call_release n p)) < length (pl_waiters p))"
proof
  have inv: "pool_inv p" by (rule bulk_inv [OF assms(1)])
  have "class_bounds p (w_workClass w)" using inv by (simp add: pool_inv_def pool_core_def)
  then show "pl_active p = pl_capacity p \<or> cs_active (pc_get (pl_classStats p) (w_workClass w)) = pl_classCapacities p (w_workClass w)"
    using inv assms(2) by (auto simp: pool_inv_def pool_core_def pool_quiet_def canDispatch_def class_bounds_def not_less
        intro: le_antisym order_trans)
  obtain n r where r: "js_get (pl_releases p) n = Some r" "\<not> rl_released r" "canDispatch (free_slot n r p) w"
    by (rule blocking_grant [OF inv assms(2)])
  have "pl_waiters (free_slot n r p) = pl_waiters p" by (simp add: free_slot_def Let_def)
  then have "length (pl_waiters (call_release n p)) < length (pl_waiters p)"
    using dispatch_serves [of w "free_slot n r p"] r assms(2) by (simp add: call_release_def)
  then show "\<exists>n r. js_get (pl_releases p) n = Some r \<and> \<not> rl_released r \<and>
        length (pl_waiters (call_release n p)) < length (pl_waiters p)" using r by blast
qed

theorem parent_io_work_conserving_witness:
  "\<exists>n r. js_get (pl_releases sample_pool) n = Some r \<and> \<not> rl_released r \<and>
     length (pl_waiters (call_release n sample_pool)) < length (pl_waiters sample_pool)"
proof -
  have "pl_waiters sample_pool ! 0 \<in> set (pl_waiters sample_pool)" by (rule nth_mem) code_simp
  then show ?thesis using parent_io_work_conserving [OF sample_pool_reach] by blast
qed

text \<open>The scan chooses an eligible waiter exactly when there is one: the oldest of those overtaken
  eight times or more if there is such a waiter, else the highest priority, first come first served.\<close>

theorem findBestEligibleWaiterIndex_correct:
  "(case findBestEligibleWaiterIndex p of
      None \<Rightarrow> filter (canDispatch p) (pl_waiters p) = []
    | Some b \<Rightarrow> best_choice p b)"
proof (cases "findBestEligibleWaiterIndex p")
  case None
  then have "\<forall>i. \<not> eligible p i" by (simp add: findBest_None)
  then show ?thesis using None quiet_iff [of p] by (simp add: pool_quiet_def filter_empty_conv)
next
  case (Some b)
  then show ?thesis by (simp add: findBest_Some)
qed

text \<open>C21. Overtaking is bounded: however long a waiter stays queued and whatever arrives meanwhile, it is
  passed over while eligible at most as often as the allowance (or its count so far) plus the number of
  older waiters it had.\<close>

theorem bounded_overtaking:
  assumes "reach pool_init pool_step p" and "pool_step\<^sup>*\<^sup>* p q"
    and "w \<in> set (pl_waiters p)" and "w' \<in> set (pl_waiters q)" and "w_sequence w' = w_sequence w"
  shows "w_bypasses w' + older q w' \<le> max PARENT_IO_MAX_PRIORITY_BYPASSES (w_bypasses w) + older p w"
proof -
  have inv: "pool_inv p" by (rule bulk_inv [OF assms(1)])
  then have t: "pool_tickets p" by (simp add: pool_inv_def pool_core_def)
  have "waits_on p q" using bulk.steps_leq [OF assms(2) inv] by (simp add: pool_leq_def)
  moreover have "w_sequence w < pl_sequence p" using t assms(3) by (auto simp: pool_tickets_def tickets_def)
  ultimately obtain v where v: "v \<in> set (pl_waiters p)" "same_request v w'"
      "overtaking_bound q w' \<le> overtaking_bound p v"
    using assms(4,5) unfolding waits_on_def by metis
  have "v = w" using t v assms(3,5)
    by (auto simp: pool_tickets_def tickets_def distinct_map same_request_def dest: inj_onD)
  then show ?thesis using v(3) by (simp add: overtaking_bound_def)
qed

text \<open>Serving the queue of \<open>sample_pool\<close> once: the read of priority 2 goes first.\<close>

theorem bounded_overtaking_witness:
  "w_bypasses (pl_waiters (call_release 2 sample_pool) ! 0) + older (call_release 2 sample_pool) (pl_waiters (call_release 2 sample_pool) ! 0)
     \<le> max 8 (w_bypasses (pl_waiters sample_pool ! 0)) + older sample_pool (pl_waiters sample_pool ! 0)"
proof -
  have s: "pool_step\<^sup>*\<^sup>* sample_pool (call_release 2 sample_pool)" by (rule r_into_rtranclp) (rule pool_release)
  have a: "pl_waiters sample_pool ! 0 \<in> set (pl_waiters sample_pool)" by (rule nth_mem) code_simp
  have b: "pl_waiters (call_release 2 sample_pool) ! 0 \<in> set (pl_waiters (call_release 2 sample_pool))"
    by (rule nth_mem) code_simp
  have e: "w_sequence (pl_waiters (call_release 2 sample_pool) ! 0) = w_sequence (pl_waiters sample_pool ! 0)"
    by code_simp
  show ?thesis
    using bounded_overtaking [OF sample_pool_reach s a b e] by (simp add: PARENT_IO_MAX_PRIORITY_BYPASSES_def)
qed

text \<open>Every accepted request is in exactly one place: queued, granted or rejected; a grant stays, and
  its release closure acts once.\<close>

theorem parent_io_tickets:
  assumes "reach pool_init pool_step p"
  shows "distinct (tickets p) \<and> set (tickets p) = {..<pl_sequence p} \<and>
     call_release n (call_release n p) = call_release n p"
proof -
  have inv: "pool_inv p" by (rule bulk_inv [OF assms])
  then have core: "pool_core p" by (simp add: pool_inv_def)
  have "call_release n (call_release n p) = call_release n p"
  proof (cases "js_get (pl_releases p) n")
    case None
    then show ?thesis by (simp add: call_release_def)
  next
    case (Some r)
    show ?thesis
    proof (cases "rl_released r")
      case True
      then show ?thesis using Some by (simp add: call_release_def)
    next
      case False
      have core': "pool_core (free_slot n r p)" by (rule core_free_slot [OF core Some False])
      have "js_get (pl_releases (free_slot n r p)) n = Some (r\<lparr>rl_released := True\<rparr>)"
        by (simp add: free_slot_def Let_def)
      moreover have "releases_kept (free_slot n r p) (dispatchWhileCapacity (free_slot n r p))"
        using pool_leq_dispatch [OF core'] by (simp add: pool_leq_def)
      ultimately have "js_get (pl_releases (dispatchWhileCapacity (free_slot n r p))) n = Some (r\<lparr>rl_released := True\<rparr>)"
        unfolding releases_kept_def by force
      then show ?thesis using Some False by (simp add: call_release_def)
    qed
  qed
  then show ?thesis using core by (simp add: pool_core_def pool_tickets_def)
qed

theorem parent_io_tickets_witness:
  "set (tickets sample_pool) = {..<7} \<and>
   call_release 2 (call_release 2 sample_pool) = call_release 2 sample_pool \<and> call_release 2 sample_pool \<noteq> sample_pool"
proof -
  have "pl_sequence sample_pool = 7" by code_simp
  moreover have "length (pl_waiters (call_release 2 sample_pool)) \<noteq> length (pl_waiters sample_pool)" by code_simp
  moreover from this have "call_release 2 sample_pool \<noteq> sample_pool" by metis
  ultimately show ?thesis
    using parent_io_tickets [OF sample_pool_reach, of 2] by (simp only: simp_thms)
qed

lemma filter_not_seq:
  assumes sorted: "sorted_wrt (<) (map w_sequence ws)" and i: "i < length ws"
  shows "splice1 i ws = filter (\<lambda>w. w_sequence w \<noteq> w_sequence (ws ! i)) ws"
proof -
  obtain xs x ys where ws: "ws = xs @ x # ys" and len: "length xs = i"
    using id_take_nth_drop [OF i] i by (metis length_take min.absorb4)
  have "w_sequence y \<noteq> w_sequence x" if "y \<in> set xs \<union> set ys" for y
    using sorted that unfolding ws by (auto simp: sorted_wrt_append)
  then have "filter (\<lambda>w. w_sequence w \<noteq> w_sequence x) xs = xs" "filter (\<lambda>w. w_sequence w \<noteq> w_sequence x) ys = ys"
    by (auto simp: filter_id_conv)
  moreover have "ws ! i = x" using len by (simp add: ws nth_append)
  ultimately show ?thesis using len unfolding \<open>ws ! i = x\<close> by (simp add: ws splice1_def)
qed

lemma cancel_waiters:
  assumes "pool_inv p"
  shows "pl_waiters (cancelWaiter n p) = filter (\<lambda>w. w_sequence w \<noteq> n) (pl_waiters p) \<and>
     pl_releases (cancelWaiter n p) = pl_releases p \<and> pl_active (cancelWaiter n p) = pl_active p \<and>
     set (js_keys (pl_rejected (cancelWaiter n p)))
       = set (js_keys (pl_rejected p)) \<union> ({n} \<inter> w_sequence ` set (pl_waiters p))"
proof (cases "index_of n (pl_waiters p)")
  case None
  then have "filter (\<lambda>w. w_sequence w \<noteq> n) (pl_waiters p) = pl_waiters p"
    by (auto simp: index_of_None filter_id_conv)
  moreover have "n \<notin> w_sequence ` set (pl_waiters p)" using None by (simp add: index_of_None)
  moreover have "cancelWaiter n p = p" using None assms by (simp add: cancelWaiter_inv)
  ultimately show ?thesis by simp
next
  case (Some i)
  then have i: "i < length (pl_waiters p)" "w_sequence (pl_waiters p ! i) = n" by (auto dest: index_of_Some)
  then have "n \<in> w_sequence ` set (pl_waiters p)" by (metis image_eqI nth_mem)
  moreover have "sorted_wrt (<) (map w_sequence (pl_waiters p))"
    using assms by (simp add: pool_inv_def pool_core_def pool_tickets_def)
  ultimately show ?thesis using Some assms i filter_not_seq [of "pl_waiters p" i]
    by (auto simp: cancelWaiter_inv drop_waiter_def Let_def)
qed

lemma fold_cancel_waiters:
  "pool_inv p \<Longrightarrow>
     pl_waiters (fold cancelWaiter ns p) = filter (\<lambda>w. w_sequence w \<notin> set ns) (pl_waiters p) \<and>
     pl_releases (fold cancelWaiter ns p) = pl_releases p \<and> pl_active (fold cancelWaiter ns p) = pl_active p \<and>
     set (js_keys (pl_rejected (fold cancelWaiter ns p)))
       = set (js_keys (pl_rejected p)) \<union> (set ns \<inter> w_sequence ` set (pl_waiters p))"
proof (induction ns arbitrary: p)
  case (Cons n ns)
  show ?case using Cons.IH [OF pool_inv_cancelWaiter [OF Cons.prems]] cancel_waiters [OF Cons.prems, of n]
    by (auto simp: conj_commute)
qed simp

text \<open>An abort rejects exactly the queued requests that listen to the signal, keeps the others in order,
  and starts and stops nothing: work that runs is left to its backend.\<close>

theorem abort_signal_exact:
  assumes "reach pool_init pool_step p"
  shows "pl_waiters (abort_signal s p) = filter (\<lambda>w. w_signal w \<noteq> Some s) (pl_waiters p) \<and>
     pl_releases (abort_signal s p) = pl_releases p \<and> pl_active (abort_signal s p) = pl_active p \<and>
     set (js_keys (pl_rejected (abort_signal s p)))
       = set (js_keys (pl_rejected p)) \<union> w_sequence ` set (filter (\<lambda>w. w_signal w = Some s) (pl_waiters p))"
proof -
  let ?ns = "map w_sequence (filter (\<lambda>w. w_signal w = Some s) (pl_waiters p))"
  have inv: "pool_inv p" by (rule bulk_inv [OF assms])
  then have "inj_on w_sequence (set (pl_waiters p))"
    by (simp add: pool_inv_def pool_core_def pool_tickets_def tickets_def distinct_map)
  then have "filter (\<lambda>w. w_sequence w \<notin> set ?ns) (pl_waiters p) = filter (\<lambda>w. w_signal w \<noteq> Some s) (pl_waiters p)"
    by (intro filter_cong) (auto dest: inj_onD)
  moreover have "set ?ns \<inter> w_sequence ` set (pl_waiters p) = set ?ns" by auto
  ultimately show ?thesis using fold_cancel_waiters [OF inv, of ?ns] by (simp add: abort_signal_def)
qed

theorem abort_signal_exact_witness:
  "map w_sequence (pl_waiters (abort_signal 7 sample_pool)) = [5] \<and> length (pl_waiters sample_pool) = 3"
proof -
  have "map w_sequence (filter (\<lambda>w. w_signal w \<noteq> Some 7) (pl_waiters sample_pool)) = [5]" by code_simp
  moreover have "length (pl_waiters sample_pool) = 3" by code_simp
  ultimately show ?thesis using abort_signal_exact [OF sample_pool_reach, of 7] by simp
qed

end
