(* ===== verification/Io_Coalescer.thy ===== *)
theory Io_Coalescer
  imports Prelude
begin

text \<open>
  The coalescer of task-local I/O, \<^verbatim>\<open>src/core/task/tools/io/IoRequestCoalescer.ts\<close>: one execution in
  flight per key, and a small cache of recent results with a time to live and first-in first-out
  eviction.

  An execution is known by its number, the value of \<^verbatim>\<open>executions\<close> when it started; \<open>co_promises\<close> holds
  its key and its phase. The promise runs through two callbacks: \<^verbatim>\<open>then\<close> stores the value, \<^verbatim>\<open>finally\<close>
  deletes the entry of \<^verbatim>\<open>inFlight\<close>; other calls may run between the two. \<open>co_waiters\<close> holds the callers
  that wait on a promise. The clock is an argument of each operation that reads it, so it may do
  anything.
\<close>

section \<open>Keys\<close>

text \<open>The parameters of a tool call the key reads, and the functions of \<^verbatim>\<open>node:path\<close> it uses.\<close>

record io_block =
  ib_name :: string
  ib_path :: "string option"
  ib_absolutePath :: "string option"
  ib_recursive :: "string option"
  ib_regex :: "string option"
  ib_query :: "string option"
  ib_file_pattern :: "string option"

record io_authority =
  ia_canonicalAbsoluteTarget :: string
  ia_filesystemGeneration :: int
  ia_policyGeneration :: int
  ia_workspaceIdentity :: string

record path_module =
  pm_extname :: "string \<Rightarrow> string"
  pm_basename :: "string \<Rightarrow> string"
  pm_resolve :: "string \<Rightarrow> string"
  pm_resolve2 :: "string \<Rightarrow> string \<Rightarrow> string"
  pm_toLowerCase :: "string \<Rightarrow> string"

datatype json_atom = J_string string | J_number int | J_bool bool

datatype cwd_or_authority = Cwd string | Authority io_authority

definition IO_AUTHORITY_TOOLS :: "string list" where
  "IO_AUTHORITY_TOOLS =
     [''read_file'', ''list_files'', ''search_files'', ''list_code_definition_names'', ''diagnose_stability'']"

definition isIoAuthorityTool :: "string \<Rightarrow> bool" where
  "isIoAuthorityTool name \<longleftrightarrow> name \<in> set IO_AUTHORITY_TOOLS"

definition coalesce_null :: "'a option \<Rightarrow> 'a option \<Rightarrow> 'a option" where
  "coalesce_null a b = (case a of None \<Rightarrow> b | Some x \<Rightarrow> Some x)"

text \<open>A trimmed optional string that must not be empty.\<close>

definition non_empty_trim :: "string option \<Rightarrow> string option" where
  "non_empty_trim x = (case x of None \<Rightarrow> None | Some s \<Rightarrow> if js_trim s = [] then None else Some (js_trim s))"

definition trim_or_empty :: "string option \<Rightarrow> string" where
  "trim_or_empty x = (case x of None \<Rightarrow> [] | Some s \<Rightarrow> js_trim s)"

text \<open>What the key says beyond the target: \<open>None\<close> where the request is not cacheable.\<close>

definition semantic_parts :: "path_module \<Rightarrow> io_block \<Rightarrow> string \<Rightarrow> json_atom list option" where
  "semantic_parts pm block rawPath =
     (if ib_name block = ''read_file'' then
        (if pm_toLowerCase pm (pm_basename pm rawPath) = ''scratchpad.md'' then None
         else if pm_toLowerCase pm (pm_extname pm rawPath) \<in> {''.png'', ''.jpg'', ''.jpeg'', ''.webp''} then None
         else Some [])
      else if ib_name block = ''list_files'' then
        Some [J_bool (map_option (pm_toLowerCase pm \<circ> js_trim) (ib_recursive block) = Some ''true'')]
      else if ib_name block = ''search_files'' then
        (case non_empty_trim (coalesce_null (ib_regex block) (ib_query block)) of
           None \<Rightarrow> None
         | Some regex \<Rightarrow> Some [J_string regex, J_string (trim_or_empty (ib_file_pattern block))])
      else if ib_name block = ''list_code_definition_names'' then Some []
      else None)"

fun authority_of :: "path_module \<Rightarrow> cwd_or_authority \<Rightarrow> int \<Rightarrow> string \<Rightarrow> io_authority" where
  "authority_of pm (Cwd cwd) generation rawPath =
     \<lparr>ia_canonicalAbsoluteTarget = pm_resolve2 pm cwd rawPath, ia_filesystemGeneration = generation,
      ia_policyGeneration = 0, ia_workspaceIdentity = pm_resolve pm cwd\<rparr>"
| "authority_of pm (Authority a) generation rawPath = a"

text \<open>The array that \<^verbatim>\<open>JSON.stringify\<close> receives.\<close>

definition key_array :: "path_module \<Rightarrow> io_block \<Rightarrow> cwd_or_authority \<Rightarrow> int \<Rightarrow> json_atom list option" where
  "key_array pm block cwdOrAuthority generation =
     (if \<not> isIoAuthorityTool (ib_name block) then None
      else (case non_empty_trim (coalesce_null (ib_path block) (ib_absolutePath block)) of
          None \<Rightarrow> None
        | Some rawPath \<Rightarrow> (case semantic_parts pm block rawPath of
              None \<Rightarrow> None
            | Some semantic \<Rightarrow>
                let a = authority_of pm cwdOrAuthority generation rawPath in
                Some ([J_string ''io-v2'', J_string (ib_name block), J_string (ia_canonicalAbsoluteTarget a),
                   J_number (ia_filesystemGeneration a), J_number (ia_policyGeneration a),
                   J_string (ia_workspaceIdentity a)] @ semantic))))"

definition buildIoCoalesceKey ::
  "(json_atom list \<Rightarrow> string) \<Rightarrow> path_module \<Rightarrow> io_block \<Rightarrow> cwd_or_authority \<Rightarrow> int \<Rightarrow> string option" where
  "buildIoCoalesceKey stringify pm block cwdOrAuthority generation =
     map_option stringify (key_array pm block cwdOrAuthority generation)"

section \<open>State\<close>

datatype 'v promise_phase =
    Executing
  | Settled "'v option"  \<comment> \<open>the \<^verbatim>\<open>then\<close> callback has run, \<^verbatim>\<open>finally\<close> has not\<close>
  | Finished "'v option"

record 'v coalescer =
  co_recentTtlMs :: int
  co_maxEntries :: int
  co_generation :: nat
  co_inFlight :: "(string, nat \<times> int) jsmap"
  co_recent :: "(string, 'v \<times> int) jsmap"
  co_cacheHits :: nat
  co_cacheMisses :: nat
  co_coalescedWaiters :: nat
  co_executions :: nat
  co_cancelledWaiters :: nat
  co_disposed :: bool
  co_promises :: "(nat, string \<times> 'v promise_phase) jsmap"
  co_waiters :: "(nat \<times> bool) list"

definition new_coalescer :: "int \<Rightarrow> int \<Rightarrow> nat \<Rightarrow> 'v coalescer" where
  "new_coalescer ttl maxEntries generation =
     \<lparr>co_recentTtlMs = ttl, co_maxEntries = maxEntries, co_generation = generation, co_inFlight = [],
      co_recent = [], co_cacheHits = 0, co_cacheMisses = 0, co_coalescedWaiters = 0, co_executions = 0,
      co_cancelledWaiters = 0, co_disposed = False, co_promises = [], co_waiters = []\<rparr>"

section \<open>Operations\<close>

definition prune :: "int \<Rightarrow> 'v coalescer \<Rightarrow> 'v coalescer" where
  "prune now s = s\<lparr>co_recent := filter (\<lambda>e. now - snd (snd e) \<le> co_recentTtlMs s) (co_recent s)\<rparr>"

text \<open>The eviction loop of \<^verbatim>\<open>remember\<close>: the first key goes while the map is too large.\<close>

function evict :: "int \<Rightarrow> ('k, 'a) jsmap \<Rightarrow> ('k, 'a) jsmap" where
  "evict maxEntries m =
     (if int (length m) > maxEntries
      then (case m of [] \<Rightarrow> [] | e # _ \<Rightarrow> evict maxEntries (js_del m (fst e)))
      else m)"
  by pat_completeness auto
termination
proof (relation "measure (length \<circ> snd)", goal_cases)
  case 1
  show ?case by simp
next
  case (2 n m e rest)
  then show ?case using length_delete_le [of "fst e" rest] by (cases e) (simp add: le_imp_less_Suc)
qed

declare evict.simps [simp del]

definition remember :: "string \<Rightarrow> 'v \<Rightarrow> int \<Rightarrow> 'v coalescer \<Rightarrow> 'v coalescer" where
  "remember key v now s = s\<lparr>co_recent := evict (co_maxEntries s) (js_set (co_recent s) key (v, now))\<rparr>"

datatype 'v coalesce_result =
    Cache_hit 'v
  | Coalesced_waiter nat
  | Leader nat
  | Is_disposed
  | Already_aborted

text \<open>
  \<^verbatim>\<open>coalesce\<close> up to the await on the promise: the signal is given with its \<^verbatim>\<open>aborted\<close> flag. The
  caller that goes on waiting is recorded with whether it has a signal.
\<close>

definition coalesce :: "string \<Rightarrow> bool option \<Rightarrow> int \<Rightarrow> 'v coalescer \<Rightarrow> 'v coalescer \<times> 'v coalesce_result" where
  "coalesce key signal now s =
     (if co_disposed s then (s, Is_disposed)
      else if signal = Some True then (s\<lparr>co_cancelledWaiters := Suc (co_cancelledWaiters s)\<rparr>, Already_aborted)
      else
        let s1 = prune now s in
        case (case js_get (co_recent s1) key of
            None \<Rightarrow> None | Some e \<Rightarrow> if now - snd e < co_recentTtlMs s1 then Some (fst e) else None) of
          Some v \<Rightarrow> (s1\<lparr>co_cacheHits := Suc (co_cacheHits s1)\<rparr>, Cache_hit v)
        | None \<Rightarrow>
            let s2 = s1\<lparr>co_cacheMisses := Suc (co_cacheMisses s1)\<rparr> in
            case js_get (co_inFlight s2) key of
              Some e \<Rightarrow>
                (s2\<lparr>co_coalescedWaiters := Suc (co_coalescedWaiters s2),
                    co_waiters := co_waiters s2 @ [(fst e, signal \<noteq> None)]\<rparr>, Coalesced_waiter (fst e))
            | None \<Rightarrow>
                let p = co_executions s2 in
                (s2\<lparr>co_executions := Suc p,
                    co_promises := co_promises s2 @ [(p, key, Executing)],
                    co_inFlight := js_set (co_inFlight s2) key (p, now),
                    co_waiters := co_waiters s2 @ [(p, signal \<noteq> None)]\<rparr>, Leader p))"

text \<open>The backend answers (a value, or \<open>None\<close> for a rejection) and the \<^verbatim>\<open>then\<close> callback runs.\<close>

definition settle :: "nat \<Rightarrow> 'v option \<Rightarrow> int \<Rightarrow> 'v coalescer \<Rightarrow> 'v coalescer" where
  "settle p outcome now s =
     (case js_get (co_promises s) p of
        Some (key, Executing) \<Rightarrow>
          let s1 = s\<lparr>co_promises := js_set (co_promises s) p (key, Settled outcome)\<rparr> in
          (case outcome of
             Some v \<Rightarrow> if co_disposed s then s1 else remember key v now s1
           | None \<Rightarrow> s1)
      | _ \<Rightarrow> s)"

text \<open>The \<^verbatim>\<open>finally\<close> callback.\<close>

definition finalise :: "nat \<Rightarrow> 'v coalescer \<Rightarrow> 'v coalescer" where
  "finalise p s =
     (case js_get (co_promises s) p of
        Some (key, Settled outcome) \<Rightarrow>
          s\<lparr>co_promises := js_set (co_promises s) p (key, Finished outcome),
            co_inFlight := js_del (co_inFlight s) key\<rparr>
      | _ \<Rightarrow> s)"

text \<open>A waiting caller whose signal aborts detaches; a waiter of a finished promise gets its result.\<close>

definition remove_at :: "nat \<Rightarrow> 'a list \<Rightarrow> 'a list" where
  "remove_at i xs = take i xs @ drop (Suc i) xs"

definition abort_waiter :: "nat \<Rightarrow> 'v coalescer \<Rightarrow> 'v coalescer" where
  "abort_waiter i s =
     (if i < length (co_waiters s) \<and> snd (co_waiters s ! i)
      then s\<lparr>co_waiters := remove_at i (co_waiters s), co_cancelledWaiters := Suc (co_cancelledWaiters s)\<rparr>
      else s)"

definition deliver :: "nat \<Rightarrow> 'v coalescer \<Rightarrow> 'v coalescer \<times> 'v option" where
  "deliver i s =
     (if i < length (co_waiters s)
      then (case js_get (co_promises s) (fst (co_waiters s ! i)) of
          Some (key, Finished outcome) \<Rightarrow> (s\<lparr>co_waiters := remove_at i (co_waiters s)\<rparr>, outcome)
        | _ \<Rightarrow> (s, None))
      else (s, None))"

definition dispose :: "'v coalescer \<Rightarrow> 'v coalescer" where
  "dispose s = s\<lparr>co_disposed := True, co_recent := []\<rparr>"

record coalescer_stats =
  st_inFlight :: nat
  st_cached :: nat
  st_generation :: nat
  st_cacheHits :: nat
  st_cacheMisses :: nat
  st_coalescedWaiters :: nat
  st_executions :: nat
  st_cancelledWaiters :: nat

definition coalescer_getStats :: "'v coalescer \<Rightarrow> coalescer_stats" where
  "coalescer_getStats s =
     \<lparr>st_inFlight = length (co_inFlight s), st_cached = length (co_recent s), st_generation = co_generation s,
      st_cacheHits = co_cacheHits s, st_cacheMisses = co_cacheMisses s,
      st_coalescedWaiters = co_coalescedWaiters s, st_executions = co_executions s,
      st_cancelledWaiters = co_cancelledWaiters s\<rparr>"

inductive co_step :: "'v coalescer \<Rightarrow> 'v coalescer \<Rightarrow> bool" where
  co_coalesce: "co_step s (fst (coalesce key signal now s))"
| co_settle: "co_step s (settle p outcome now s)"
| co_finalise: "co_step s (finalise p s)"
| co_abort: "co_step s (abort_waiter i s)"
| co_deliver: "co_step s (fst (deliver i s))"
| co_dispose: "co_step s (dispose s)"

definition co_init :: "'v coalescer \<Rightarrow> bool" where
  "co_init s \<longleftrightarrow> (\<exists>ttl maxEntries generation. s = new_coalescer ttl maxEntries generation)"

section \<open>The registry of coalescers by task\<close>

type_synonym 'v registry = "(string, nat \<times> 'v coalescer) jsmap"

definition getIoRequestCoalescer :: "string \<Rightarrow> 'v registry \<Rightarrow> 'v registry \<times> 'v coalescer" where
  "getIoRequestCoalescer taskId reg =
     (case js_get reg taskId of
        Some e \<Rightarrow> (reg, snd e)
      | None \<Rightarrow> let c = new_coalescer 5000 128 0 in (js_set reg taskId (0, c), c))"

text \<open>The coalescer that is replaced is disposed; callers that still hold it see that.\<close>

definition resetIoRequestCoalescer :: "string \<Rightarrow> 'v registry \<Rightarrow> 'v registry \<times> 'v coalescer option" where
  "resetIoRequestCoalescer taskId reg =
     (let previous = js_get reg taskId;
          generation = (case previous of None \<Rightarrow> 0 | Some e \<Rightarrow> fst e) + 1
      in (js_set reg taskId (generation, new_coalescer 5000 128 generation), map_option (dispose \<circ> snd) previous))"

definition disposeIoRequestCoalescer :: "string \<Rightarrow> 'v registry \<Rightarrow> 'v registry \<times> 'v coalescer option" where
  "disposeIoRequestCoalescer taskId reg =
     (js_del reg taskId, map_option (dispose \<circ> snd) (js_get reg taskId))"

definition getIoRequestCoalescerGeneration :: "string \<Rightarrow> 'v registry \<Rightarrow> nat" where
  "getIoRequestCoalescerGeneration taskId reg = (case js_get reg taskId of None \<Rightarrow> 0 | Some e \<Rightarrow> fst e)"

section \<open>The cache\<close>

lemma evict_is_drop: "js_wf m \<Longrightarrow> \<exists>n. evict maxEntries m = drop n m \<and> int (length (evict maxEntries m)) \<le> max 0 maxEntries"
proof (induction maxEntries m rule: evict.induct)
  case (1 maxEntries m)
  show ?case
  proof (cases m)
    case Nil
    then show ?thesis by (simp add: evict.simps)
  next
    case (Cons e rest)
    show ?thesis
    proof (cases "int (length m) > maxEntries")
      case False
      then show ?thesis by (subst (1 2) evict.simps) (intro exI [of _ 0], simp)
    next
      case True
      have del: "js_del m (fst e) = rest" using 1(2) Cons by (cases e) (auto simp: AList.delete_eq filter_id_conv rev_image_eqI)
      have "\<exists>n. evict maxEntries (js_del m (fst e)) = drop n (js_del m (fst e)) \<and>
          int (length (evict maxEntries (js_del m (fst e)))) \<le> max 0 maxEntries"
        using 1(2) by (intro 1(1) [OF True Cons]) simp
      moreover have "evict maxEntries m = evict maxEntries rest"
        using True Cons del by (subst evict.simps) simp
      ultimately obtain n where "evict maxEntries m = drop n rest" "int (length (evict maxEntries m)) \<le> max 0 maxEntries"
        unfolding del by auto
      then show ?thesis using Cons by (intro exI [of _ "Suc n"]) simp
    qed
  qed
qed


lemma evict_length: "js_wf m \<Longrightarrow> int (length (evict maxEntries m)) \<le> max 0 maxEntries"
  using evict_is_drop [of m maxEntries] by auto

lemma evict_subset: "js_wf m \<Longrightarrow> set (evict maxEntries m) \<subseteq> set m"
  using evict_is_drop [of m maxEntries] by (metis set_drop_subset)

lemma evict_wf: "js_wf m \<Longrightarrow> js_wf (evict maxEntries m)"
  using evict_is_drop [of m maxEntries] by (metis distinct_drop drop_map)

section \<open>The invariant\<close>

declare map_of_eq_Some_iff [simp del]

fun unfinished :: "'v promise_phase \<Rightarrow> bool" where
  "unfinished (Finished _) = False"
| "unfinished _ = True"

fun phase_value :: "'v promise_phase \<Rightarrow> 'v option" where
  "phase_value Executing = None"
| "phase_value (Settled r) = r"
| "phase_value (Finished r) = r"

definition co_flight :: "'v coalescer \<Rightarrow> bool" where
  "co_flight s \<longleftrightarrow>
     (\<forall>k p. (\<exists>t. js_get (co_inFlight s) k = Some (p, t)) \<longleftrightarrow>
        (\<exists>ph. js_get (co_promises s) p = Some (k, ph) \<and> unfinished ph))"

text \<open>The value is the result of an execution for that key.\<close>

definition produced :: "'v coalescer \<Rightarrow> string \<Rightarrow> 'v \<Rightarrow> bool" where
  "produced s k v \<longleftrightarrow> (\<exists>p ph. js_get (co_promises s) p = Some (k, ph) \<and> phase_value ph = Some v)"

definition co_cache :: "'v coalescer \<Rightarrow> bool" where
  "co_cache s \<longleftrightarrow> js_wf (co_recent s) \<and> int (length (co_recent s)) \<le> max 0 (co_maxEntries s) \<and>
     (co_disposed s \<longrightarrow> co_recent s = []) \<and>
     (\<forall>e \<in> set (co_recent s). produced s (fst e) (fst (snd e)))"

definition co_inv :: "'v coalescer \<Rightarrow> bool" where
  "co_inv s \<longleftrightarrow> js_wf (co_inFlight s) \<and> co_flight s \<and> co_cache s \<and>
     co_cacheMisses s = co_coalescedWaiters s + co_executions s \<and>
     js_keys (co_promises s) = [0..<co_executions s]"

lemma co_cacheD: "co_inv s \<Longrightarrow> (k, v, t) \<in> set (co_recent s) \<Longrightarrow> produced s k v"
  by (force simp: co_inv_def co_cache_def)

lemma co_promise_lt:
  "co_inv s \<Longrightarrow> js_get (co_promises s) p = Some x \<Longrightarrow> p < co_executions s"
proof -
  assume "co_inv s" "js_get (co_promises s) p = Some x"
  then have "p \<in> set (js_keys (co_promises s))" by (auto dest: map_of_SomeD intro: rev_image_eqI)
  then show ?thesis using \<open>co_inv s\<close> by (simp add: co_inv_def del: set_map)
qed

lemma co_flight_cong:
  "co_inFlight t = co_inFlight s \<Longrightarrow> co_promises t = co_promises s \<Longrightarrow> co_flight t = co_flight s"
  by (simp add: co_flight_def)

lemma co_cache_filter:
  assumes "co_cache s" and "co_recent t = filter P (co_recent s)" "co_maxEntries t = co_maxEntries s"
    "co_disposed t = co_disposed s" "co_promises t = co_promises s"
  shows "co_cache t"
proof -
  have "length (filter P (co_recent s)) \<le> length (co_recent s)" by simp
  then have "int (length (filter P (co_recent s))) \<le> max 0 (co_maxEntries s)"
    using assms(1) unfolding co_cache_def by linarith
  moreover have "produced t k v = produced s k v" for k v using assms(5) by (simp add: produced_def)
  ultimately show ?thesis using assms by (auto simp: co_cache_def)
qed

lemma co_inv_prune: "co_inv s \<Longrightarrow> co_inv (prune now s)"
  using co_cache_filter [of s "prune now s"] co_flight_cong [of "prune now s" s]
  by (simp add: co_inv_def prune_def)

text \<open>Counters and waiters do not matter to the maps.\<close>

lemma co_inv_counters:
  "co_inv s \<Longrightarrow> co_inFlight t = co_inFlight s \<Longrightarrow> co_promises t = co_promises s \<Longrightarrow> co_recent t = co_recent s \<Longrightarrow>
   co_maxEntries t = co_maxEntries s \<Longrightarrow> co_disposed t = co_disposed s \<Longrightarrow> co_executions t = co_executions s \<Longrightarrow>
   co_cacheMisses t = co_coalescedWaiters t + co_executions t \<Longrightarrow> co_inv t"
  by (simp add: co_inv_def co_flight_def co_cache_def produced_def)

lemma co_inv_new_promise:
  assumes inv: "co_inv s" and none: "js_get (co_inFlight s) key = None"
    and t: "co_inFlight t = js_set (co_inFlight s) key (co_executions s, now)"
    "co_promises t = co_promises s @ [(co_executions s, key, Executing)]" "co_recent t = co_recent s"
    "co_maxEntries t = co_maxEntries s" "co_disposed t = co_disposed s" "co_executions t = Suc (co_executions s)"
    "co_cacheMisses t = co_coalescedWaiters t + co_executions t"
  shows "co_inv t"
proof -
  have fresh: "js_get (co_promises s) (co_executions s) = None"
    using co_promise_lt [OF inv] by (cases "js_get (co_promises s) (co_executions s)") auto
  have get: "js_get (co_promises t) p = (if p = co_executions s then Some (key, Executing) else js_get (co_promises s) p)" for p
    using fresh t(2) by (auto simp: map_add_def split: option.split)
  have old: "\<not> unfinished ph" if "js_get (co_promises s) p = Some (key, ph)" for p ph
    using inv none that unfolding co_inv_def co_flight_def by (metis option.distinct(1))
  have "co_flight t"
  proof -
    have "(\<exists>x. js_get (co_inFlight t) k = Some (p, x)) \<longleftrightarrow>
        (\<exists>ph. js_get (co_promises t) p = Some (k, ph) \<and> unfinished ph)" for k p
    proof (cases "k = key")
      case True
      then show ?thesis using old by (auto simp: t(1) get)
    next
      case False
      have "(\<exists>x. js_get (co_inFlight s) k = Some (p, x)) \<longleftrightarrow>
        (\<exists>ph. js_get (co_promises s) p = Some (k, ph) \<and> unfinished ph)"
        using inv by (simp add: co_inv_def co_flight_def)
      then show ?thesis using False fresh by (auto simp: t(1) get)
    qed
    then show ?thesis by (simp add: co_flight_def)
  qed
  moreover have "co_cache t"
    using inv fresh unfolding co_inv_def co_cache_def produced_def t(3-5) get by (metis option.distinct(1))
  ultimately show ?thesis using inv t by (simp add: co_inv_def)
qed

lemma co_inv_coalesce: "co_inv s \<Longrightarrow> co_inv (fst (coalesce key signal now s))"
proof -
  assume inv: "co_inv s"
  note p = co_inv_prune [OF inv, of now]
  have miss: "co_cacheMisses (prune now s) = co_coalescedWaiters (prune now s) + co_executions (prune now s)"
    using p by (simp add: co_inv_def)
  show ?thesis unfolding coalesce_def Let_def
    using miss by (auto intro: inv co_inv_counters [OF p] co_inv_counters [OF inv] co_inv_new_promise [OF p]
        simp: inv [unfolded co_inv_def] split: option.split)
qed

lemma co_inv_phase:
  assumes inv: "co_inv s" and ph: "js_get (co_promises s) p = Some (key, Executing)"
    and t: "co_inFlight t = co_inFlight s" "co_promises t = js_set (co_promises s) p (key, Settled outcome)"
    "co_maxEntries t = co_maxEntries s" "co_disposed t = co_disposed s" "co_executions t = co_executions s"
    "co_cacheMisses t = co_coalescedWaiters t + co_executions t"
    and cache: "co_recent t = co_recent s \<or>
      (\<exists>v now. outcome = Some v \<and> \<not> co_disposed s \<and> co_recent t = evict (co_maxEntries s) (js_set (co_recent s) key (v, now)))"
  shows "co_inv t"
proof -
  have keys: "js_keys (co_promises t) = js_keys (co_promises s)"
    using ph by (force simp: t(2) js_keys_set dest: map_of_SomeD intro: rev_image_eqI)
  have "co_flight t"
    using inv ph unfolding co_inv_def co_flight_def t(1,2) js_get_set
    by (smt (verit) option.inject prod.inject unfinished.simps)
  moreover have "co_cache t"
  proof -
    have old: "produced t k v" if e: "(k, v, x) \<in> set (co_recent s)" for k v x
    proof -
      obtain q ph' where q: "js_get (co_promises s) q = Some (k, ph')" "phase_value ph' = Some v"
        using co_cacheD [OF inv e] by (auto simp: produced_def)
      then have "q \<noteq> p" using ph by auto
      then show ?thesis using q by (auto simp: t(2) produced_def)
    qed
    show ?thesis
    proof (cases "co_recent t = co_recent s")
      case True
      moreover have "\<forall>e \<in> set (co_recent s). produced t (fst e) (fst (snd e))" using old by auto
      ultimately show ?thesis using inv by (simp add: co_inv_def co_cache_def t(3,4))
    next
      case False
      then obtain v now where r: "outcome = Some v" "\<not> co_disposed s"
          "co_recent t = evict (co_maxEntries s) (js_set (co_recent s) key (v, now))" using cache by blast
      have wf: "js_wf (js_set (co_recent s) key (v, now))" using inv by (simp add: co_inv_def co_cache_def)
      have sub: "set (co_recent t) \<subseteq> insert (key, v, now) (set (co_recent s))"
        using evict_subset [OF wf, of "co_maxEntries s"] inv
        by (auto simp: r(3) set_js_set_wf co_inv_def co_cache_def)
      have new: "produced t key v"
        using r(1) by (auto simp: t(2) produced_def)
      have "produced t k w" if "(k, w, x) \<in> set (co_recent t)" for k w x
      proof (cases "(k, w, x) \<in> set (co_recent s)")
        case True
        then show ?thesis by (rule old)
      next
        case False
        then have "(k, w, x) = (key, v, now)" using that sub by blast
        then show ?thesis using new by blast
      qed
      then have "\<forall>e \<in> set (co_recent t). produced t (fst e) (fst (snd e))" by auto
      then show ?thesis using r(2) evict_wf [OF wf] evict_length [OF wf, of "co_maxEntries s"]
        by (simp add: co_cache_def t(3,4) r(3))
    qed
  qed
  ultimately show ?thesis using inv keys t by (simp add: co_inv_def)
qed

lemma co_inv_settle: "co_inv s \<Longrightarrow> co_inv (settle p outcome now s)"
proof -
  assume inv: "co_inv s"
  then have m: "co_cacheMisses s = co_coalescedWaiters s + co_executions s" by (simp add: co_inv_def)
  show ?thesis
  proof (cases "\<exists>key. js_get (co_promises s) p = Some (key, Executing)")
    case False
    then have "settle p outcome now s = s" by (auto simp: settle_def split: option.split promise_phase.split)
    then show ?thesis using inv by simp
  next
    case True
    then obtain key where key: "js_get (co_promises s) p = Some (key, Executing)" by blast
    show ?thesis
      by (rule co_inv_phase [OF inv key, where outcome = outcome])
         (auto simp: settle_def Let_def remember_def key m split: option.split)
  qed
qed

lemma co_inv_finalise: "co_inv s \<Longrightarrow> co_inv (finalise p s)"
proof -
  assume inv: "co_inv s"
  show ?thesis
  proof (cases "\<exists>key outcome. js_get (co_promises s) p = Some (key, Settled outcome)")
    case False
    then have "finalise p s = s" by (auto simp: finalise_def split: option.split promise_phase.split)
    then show ?thesis using inv by simp
  next
    case True
    then obtain key outcome where ph: "js_get (co_promises s) p = Some (key, Settled outcome)" by blast
    let ?t = "s\<lparr>co_promises := js_set (co_promises s) p (key, Finished outcome), co_inFlight := js_del (co_inFlight s) key\<rparr>"
    have fin: "finalise p s = ?t" using ph by (simp add: finalise_def)
    have keys: "js_keys (co_promises ?t) = js_keys (co_promises s)"
      using ph by (force simp: js_keys_set dest: map_of_SomeD intro: rev_image_eqI)
    have fl: "(\<exists>x. js_get (co_inFlight s) k = Some (q, x)) \<longleftrightarrow>
        (\<exists>ph. js_get (co_promises s) q = Some (k, ph) \<and> unfinished ph)" for k q
      using inv by (simp add: co_inv_def co_flight_def)
    obtain x where x: "js_get (co_inFlight s) key = Some (p, x)"
      using fl [of key p] ph by auto
    have uniq: "q = p" if "js_get (co_promises s) q = Some (key, ph')" "unfinished ph'" for q ph'
      using fl [of key q] that x by auto
    have "co_flight ?t"
    proof -
      have "(\<exists>x. js_get (js_del (co_inFlight s) key) k = Some (q, x)) \<longleftrightarrow>
        (\<exists>ph. js_get (js_set (co_promises s) p (key, Finished outcome)) q = Some (k, ph) \<and> unfinished ph)" for k q
      proof (cases "q = p")
        case True
        then show ?thesis using fl [of k p] ph by auto
      next
        case False
        then show ?thesis using fl [of k q] uniq [of q] by auto
      qed
      then show ?thesis by (simp add: co_flight_def)
    qed
    moreover have "co_cache ?t"
    proof -
      have "produced ?t k v" if e: "(k, v, x) \<in> set (co_recent s)" for k v x
      proof -
        obtain q ph' where q: "js_get (co_promises s) q = Some (k, ph')" "phase_value ph' = Some v"
          using co_cacheD [OF inv e] by (auto simp: produced_def)
        then show ?thesis using ph by (cases "q = p") (auto simp: produced_def intro: exI [of _ p] exI [of _ q])
      qed
      then have "\<forall>e \<in> set (co_recent s). produced ?t (fst e) (fst (snd e))" by auto
      then show ?thesis using inv by (simp add: co_inv_def co_cache_def)
    qed
    ultimately show ?thesis unfolding fin using inv keys by (simp add: co_inv_def)
  qed
qed

lemma co_inv_step: "co_inv s \<Longrightarrow> co_step s t \<Longrightarrow> co_inv t"
proof (erule co_step.cases)
  assume inv: "co_inv s"
  show "\<And>s' key signal now. s = s' \<Longrightarrow> t = fst (coalesce key signal now s') \<Longrightarrow> co_inv t"
    using inv co_inv_coalesce by blast
  show "\<And>s' p outcome now. s = s' \<Longrightarrow> t = settle p outcome now s' \<Longrightarrow> co_inv t"
    using inv co_inv_settle by blast
  show "\<And>s' p. s = s' \<Longrightarrow> t = finalise p s' \<Longrightarrow> co_inv t"
    using inv co_inv_finalise by blast
  show "\<And>s' i. s = s' \<Longrightarrow> t = abort_waiter i s' \<Longrightarrow> co_inv t"
    using inv by (auto simp: abort_waiter_def co_inv_def [of s] intro: co_inv_counters [of s])
  show "\<And>s' i. s = s' \<Longrightarrow> t = fst (deliver i s') \<Longrightarrow> co_inv t"
    using inv by (auto simp: deliver_def co_inv_def [of s] split: option.split promise_phase.split
        intro: co_inv_counters [of s])
  show "\<And>s'. s = s' \<Longrightarrow> t = dispose s' \<Longrightarrow> co_inv t"
    using inv by (simp add: dispose_def co_inv_def co_cache_def co_flight_def)
qed

lemma co_inv_init: "co_init s \<Longrightarrow> co_inv s"
  by (auto simp: co_init_def new_coalescer_def co_inv_def co_flight_def co_cache_def)

interpretation coal: transition_system co_init co_step co_inv
  by unfold_locales (fact co_inv_init co_inv_step)+


section \<open>What the coalescer guarantees\<close>

lemma coal_inv: "reach co_init co_step s \<Longrightarrow> co_inv s"
  by (rule coal.reach_inv)

text \<open>A coalescer with one settled and one running request.\<close>

definition sample_coalescer :: "nat coalescer" where
  "sample_coalescer =
     fst (coalesce ''b'' (Some False) 60 (finalise 0 (settle 0 (Some 9) 50
       (fst (coalesce ''a'' None 12 (fst (coalesce ''a'' None 10 (new_coalescer 5000 128 0))))))))"

lemma sample_coalescer_reach: "reach co_init co_step sample_coalescer"
proof -
  have "co_init (new_coalescer 5000 128 0 :: nat coalescer)" by (auto simp: co_init_def)
  then have "reach co_init co_step (new_coalescer 5000 128 0 :: nat coalescer)" by (rule reach_init)
  then show ?thesis unfolding sample_coalescer_def
    by (meson reach_step co_coalesce co_settle co_finalise)
qed

text \<open>C23. Single flight: two executions of one key that have not settled are the same execution, each call
  that misses the cache either starts one or joins one, and an execution that is under way is joined.\<close>

theorem single_flight:
  assumes "reach co_init co_step s"
    and "js_get (co_promises s) p = Some (key, ph)" and "unfinished ph"
    and "js_get (co_promises s) q = Some (key, ph')" and "unfinished ph'"
  shows "p = q \<and> (\<exists>t. js_get (co_inFlight s) key = Some (p, t)) \<and>
     co_cacheMisses s = co_coalescedWaiters s + co_executions s \<and> js_keys (co_promises s) = [0..<co_executions s] \<and>
     snd (coalesce key signal now s) \<noteq> Leader r"
proof -
  have inv: "co_inv s" by (rule coal_inv [OF assms(1)])
  then have fl: "(\<exists>t. js_get (co_inFlight s) key = Some (x, t)) \<longleftrightarrow>
      (\<exists>ph. js_get (co_promises s) x = Some (key, ph) \<and> unfinished ph)" for x
    by (simp add: co_inv_def co_flight_def)
  obtain t where t: "js_get (co_inFlight s) key = Some (p, t)" using fl [of p] assms by blast
  moreover obtain t' where "js_get (co_inFlight s) key = Some (q, t')" using fl [of q] assms by blast
  moreover have "snd (coalesce key signal now s) \<noteq> Leader r"
    using t by (auto simp: coalesce_def Let_def prune_def split: option.split)
  ultimately show ?thesis using inv by (auto simp: co_inv_def)
qed

theorem single_flight_witness:
  "(\<exists>t. js_get (co_inFlight sample_coalescer) ''b'' = Some (1, t)) \<and>
     snd (coalesce ''b'' None 61 sample_coalescer) \<noteq> Leader 2"
proof -
  have "js_get (co_promises sample_coalescer) 1 = Some (''b'', Executing)" by code_simp
  note a = this
  have u: "unfinished (Executing :: nat promise_phase)" by simp
  show ?thesis using single_flight [OF sample_coalescer_reach a u a u] by blast
qed

text \<open>A cache hit is fresh and genuine: the value is the result of an execution for that very key,
  remembered less than the time to live ago, and nothing is ever served by a disposed coalescer.\<close>

theorem cache_hit_genuine:
  assumes "reach co_init co_step s" and "snd (coalesce key signal now s) = Cache_hit v"
  shows "produced s key v \<and> (\<exists>t. js_get (co_recent s) key = Some (v, t) \<and> now - t < co_recentTtlMs s) \<and> \<not> co_disposed s"
proof -
  have inv: "co_inv s" by (rule coal_inv [OF assms(1)])
  have nd: "\<not> co_disposed s" using assms(2) by (auto simp: coalesce_def)
  have wf: "js_wf (co_recent s)" using inv by (simp add: co_inv_def co_cache_def)
  obtain t where t: "js_get (co_recent (prune now s)) key = Some (v, t)" "now - t < co_recentTtlMs s"
    using assms(2) by (auto simp: coalesce_def Let_def prune_def split: if_splits option.splits)
  then have get: "js_get (co_recent s) key = Some (v, t)"
    using wf by (auto simp: prune_def js_get_filter split: option.splits if_splits)
  then have "(key, v, t) \<in> set (co_recent s)" by (rule map_of_SomeD)
  then show ?thesis using co_cacheD [OF inv] get t nd by blast
qed

theorem cache_hit_genuine_witness:
  "produced sample_coalescer ''a'' 9 \<and> \<not> co_disposed sample_coalescer"
proof -
  have "snd (coalesce ''a'' None 100 sample_coalescer) = Cache_hit 9" by code_simp
  then show ?thesis using cache_hit_genuine [OF sample_coalescer_reach] by blast
qed

lemma disposed_step: "co_step s t \<Longrightarrow> co_disposed s \<Longrightarrow> co_disposed t"
  by (erule co_step.cases)
     (auto simp: coalesce_def settle_def remember_def finalise_def abort_waiter_def deliver_def dispose_def
       Let_def prune_def split: option.split promise_phase.split)

lemma maxEntries_step: "co_step s t \<Longrightarrow> co_maxEntries t = co_maxEntries s"
  by (erule co_step.cases)
     (auto simp: coalesce_def settle_def remember_def finalise_def abort_waiter_def deliver_def dispose_def
       Let_def prune_def split: option.split promise_phase.split)

text \<open>The cache never holds more than \<^verbatim>\<open>maxEntries\<close> results, and once the coalescer is disposed it stays
  empty, whatever still settles, and every request is refused.\<close>

theorem cache_bounded:
  assumes "reach co_init co_step s" and "co_step\<^sup>*\<^sup>* (dispose s) t"
  shows "int (length (co_recent s)) \<le> max 0 (co_maxEntries s) \<and> co_recent t = [] \<and>
     snd (coalesce key signal now t) = Is_disposed"
proof -
  have inv: "co_inv s" by (rule coal_inv [OF assms(1)])
  have d: "co_inv (dispose s)" by (rule co_inv_step [OF inv co_dispose])
  have "co_disposed t" using assms(2)
    by (induction rule: rtranclp_induct) (auto simp: dispose_def intro: disposed_step)
  moreover have "co_inv t" by (rule coal.steps_inv [OF assms(2) d])
  ultimately show ?thesis using inv by (simp add: co_inv_def co_cache_def coalesce_def)
qed

theorem cache_bounded_witness:
  "co_recent (settle 1 (Some 3) 70 (dispose sample_coalescer)) = [] \<and>
     snd (coalesce ''a'' None 80 (settle 1 (Some 3) 70 (dispose sample_coalescer))) = Is_disposed"
proof -
  have "co_step\<^sup>*\<^sup>* (dispose sample_coalescer) (settle 1 (Some 3) 70 (dispose sample_coalescer))"
    by (rule r_into_rtranclp) (rule co_settle)
  then show ?thesis using cache_bounded [OF sample_coalescer_reach] by blast
qed


lemma reset_generation:
  "getIoRequestCoalescerGeneration taskId (fst (resetIoRequestCoalescer taskId reg))
     = Suc (getIoRequestCoalescerGeneration taskId reg)"
  by (simp add: resetIoRequestCoalescer_def getIoRequestCoalescerGeneration_def Let_def)

lemma reset_leaves_others:
  "t \<noteq> taskId \<Longrightarrow> js_get (fst (resetIoRequestCoalescer taskId reg)) t = js_get reg t \<and>
     js_get (fst (disposeIoRequestCoalescer taskId reg)) t = js_get reg t"
  by (simp add: resetIoRequestCoalescer_def disposeIoRequestCoalescer_def Let_def)

end
