(* ===== verification/Fencing_Locks.thy ===== *)
theory Fencing_Locks
  imports Prelude
begin

text \<open>
  Leased locks with fencing tokens: \<^verbatim>\<open>BroccoliFencingMutexEngine\<close> of
  \<^verbatim>\<open>src/sessions/extensions/substrate/broccolidb-fencing-mutex.ts\<close> and \<^verbatim>\<open>LockAuthorityEngine\<close>
  with its tokens of \<^verbatim>\<open>src/sessions/extensions/substrate/lock-authority.ts\<close>.

  Readings of the clock and the random claim id are arguments of the operations. An interval timer
  of the mutex is an entry of \<open>fm_heartbeats\<close>: the owner its closure renews. \<open>fencing\<close> is the
  interface a user of tokens relies on: a token that is no longer current never becomes current
  again.
\<close>

section \<open>The interface of fencing tokens\<close>

locale fencing = transition_system init step inv
  for init :: "'s \<Rightarrow> bool" and step :: "'s \<Rightarrow> 's \<Rightarrow> bool" and inv :: "'s \<Rightarrow> bool" +
  fixes current :: "'s \<Rightarrow> 'r \<Rightarrow> 't option"
    and issued :: "'s \<Rightarrow> 't \<Rightarrow> bool"
  assumes current_issued: "inv s \<Longrightarrow> current s r = Some x \<Longrightarrow> issued s x"
    and issued_step: "inv s \<Longrightarrow> step s t \<Longrightarrow> issued s x \<Longrightarrow> issued t x"
    and current_step: "inv s \<Longrightarrow> step s t \<Longrightarrow> current t r = Some x \<Longrightarrow> current s r = Some x \<or> \<not> issued s x"
begin

lemma issued_steps: "step\<^sup>*\<^sup>* s t \<Longrightarrow> inv s \<Longrightarrow> issued s x \<Longrightarrow> issued t x"
proof (induction rule: rtranclp_induct)
  case (step t u)
  then show ?case using steps_inv issued_step by blast
qed

text \<open>A retired token stays retired.\<close>

lemma retired_stays_retired:
  assumes "step\<^sup>*\<^sup>* s t" and "inv s" and "issued s x" and "current s r \<noteq> Some x"
  shows "current t r \<noteq> Some x"
  using assms
proof (induction rule: rtranclp_induct)
  case (step t u)
  then have "inv t" and "issued t x" using steps_inv issued_steps by blast+
  then show ?case using step current_step by blast
qed

end

section \<open>The fencing mutex\<close>

record fencing_lock =
  fl_resourceId :: string
  fl_ownerId :: string
  fl_fencingToken :: int
  fl_acquiredAt :: int
  fl_ttlMs :: int

record fencing_mutex =
  fm_locks :: "(string, fencing_lock) jsmap"
  fm_heartbeats :: "(string, string) jsmap"
  fm_counter :: int

definition new_fencing_mutex :: "int \<Rightarrow> fencing_mutex" where
  "new_fencing_mutex now = \<lparr>fm_locks = [], fm_heartbeats = [], fm_counter = now\<rparr>"

definition fm_release :: "string \<Rightarrow> string \<Rightarrow> fencing_mutex \<Rightarrow> fencing_mutex \<times> bool" where
  "fm_release resourceId ownerId s =
     (case js_get (fm_locks s) resourceId of
        None \<Rightarrow> (s, False)
      | Some existing \<Rightarrow>
          if fl_ownerId existing \<noteq> ownerId then (s, False)
          else (s\<lparr>fm_heartbeats := js_del (fm_heartbeats s) resourceId,
                  fm_locks := js_del (fm_locks s) resourceId\<rparr>, True))"

definition fm_grant :: "string \<Rightarrow> string \<Rightarrow> int \<Rightarrow> int \<Rightarrow> fencing_mutex \<Rightarrow> fencing_mutex \<times> fencing_lock option" where
  "fm_grant resourceId ownerId ttlMs now s =
     (let c = fm_counter s + 1;
          r = \<lparr>fl_resourceId = resourceId, fl_ownerId = ownerId, fl_fencingToken = c,
               fl_acquiredAt = now, fl_ttlMs = ttlMs\<rparr>
      in (s\<lparr>fm_counter := c, fm_locks := js_set (fm_locks s) resourceId r,
            fm_heartbeats := js_set (fm_heartbeats s) resourceId ownerId\<rparr>, Some r))"

definition fm_acquire :: "string \<Rightarrow> string \<Rightarrow> int \<Rightarrow> int \<Rightarrow> fencing_mutex \<Rightarrow> fencing_mutex \<times> fencing_lock option" where
  "fm_acquire resourceId ownerId ttlMs now s =
     (case js_get (fm_locks s) resourceId of
        None \<Rightarrow> fm_grant resourceId ownerId ttlMs now s
      | Some existing \<Rightarrow>
          if now - fl_acquiredAt existing < fl_ttlMs existing \<and> fl_ownerId existing \<noteq> ownerId then (s, None)
          else fm_grant resourceId ownerId ttlMs now (fst (fm_release resourceId (fl_ownerId existing) s)))"

text \<open>The callback of the interval timer of a resource.\<close>

definition fm_heartbeat :: "string \<Rightarrow> int \<Rightarrow> fencing_mutex \<Rightarrow> fencing_mutex" where
  "fm_heartbeat resourceId now s =
     (case js_get (fm_heartbeats s) resourceId of
        None \<Rightarrow> s
      | Some ownerId \<Rightarrow>
          (case js_get (fm_locks s) resourceId of
             None \<Rightarrow> s\<lparr>fm_heartbeats := js_del (fm_heartbeats s) resourceId\<rparr>
           | Some l \<Rightarrow>
               if fl_ownerId l = ownerId
               then s\<lparr>fm_locks := js_set (fm_locks s) resourceId (l\<lparr>fl_acquiredAt := now\<rparr>)\<rparr>
               else s\<lparr>fm_heartbeats := js_del (fm_heartbeats s) resourceId\<rparr>))"

definition isTokenValid :: "string \<Rightarrow> int \<Rightarrow> fencing_mutex \<Rightarrow> bool" where
  "isTokenValid resourceId fencingToken s \<longleftrightarrow>
     (case js_get (fm_locks s) resourceId of None \<Rightarrow> False | Some l \<Rightarrow> fl_fencingToken l = fencingToken)"

definition fm_shutdown :: "fencing_mutex \<Rightarrow> fencing_mutex" where
  "fm_shutdown s = s\<lparr>fm_heartbeats := [], fm_locks := []\<rparr>"

inductive fm_step :: "fencing_mutex \<Rightarrow> fencing_mutex \<Rightarrow> bool" where
  fm_step_acquire: "fm_step s (fst (fm_acquire resourceId ownerId ttlMs now s))"
| fm_step_release: "fm_step s (fst (fm_release resourceId ownerId s))"
| fm_step_heartbeat: "fm_step s (fm_heartbeat resourceId now s)"
| fm_step_shutdown: "fm_step s (fm_shutdown s)"

definition fm_init :: "fencing_mutex \<Rightarrow> bool" where
  "fm_init s \<longleftrightarrow> (\<exists>now. s = new_fencing_mutex now)"

text \<open>Every lock has its timer, which renews the owner of the lock, and a token issued before.\<close>

definition fm_inv :: "fencing_mutex \<Rightarrow> bool" where
  "fm_inv s \<longleftrightarrow> (\<forall>r. js_get (fm_heartbeats s) r = map_option fl_ownerId (js_get (fm_locks s) r)) \<and>
     (\<forall>r l. js_get (fm_locks s) r = Some l \<longrightarrow> fl_resourceId l = r \<and> fl_fencingToken l \<le> fm_counter s)"

definition fm_current :: "fencing_mutex \<Rightarrow> string \<Rightarrow> int option" where
  "fm_current s r = map_option fl_fencingToken (js_get (fm_locks s) r)"

lemma isTokenValid_current: "isTokenValid r x s \<longleftrightarrow> fm_current s r = Some x"
  by (simp add: isTokenValid_def fm_current_def split: option.split)

lemmas fm_defs = fm_acquire_def fm_grant_def fm_release_def fm_heartbeat_def fm_shutdown_def Let_def

lemma fm_inv_release: "fm_inv s \<Longrightarrow> fm_inv (fst (fm_release r a s))"
  by (auto simp: fm_inv_def fm_release_def split: option.split)

lemma fm_inv_grant: "fm_inv s \<Longrightarrow> fm_inv (fst (fm_grant r a ttl now s))"
  by (auto simp: fm_inv_def fm_grant_def Let_def intro: add_increasing2)

lemma fm_inv_acquire: "fm_inv s \<Longrightarrow> fm_inv (fst (fm_acquire r a ttl now s))"
  by (simp add: fm_acquire_def fm_inv_grant fm_inv_release split: option.split)

lemma fm_inv_heartbeat: "fm_inv s \<Longrightarrow> fm_inv (fm_heartbeat r now s)"
  by (auto simp: fm_inv_def fm_heartbeat_def split: option.split)

lemma fm_inv_step: "fm_inv s \<Longrightarrow> fm_step s t \<Longrightarrow> fm_inv t"
  by (auto elim!: fm_step.cases intro: fm_inv_acquire fm_inv_release fm_inv_heartbeat)
     (simp add: fm_inv_def fm_shutdown_def)

lemma fm_inv_init: "fm_init s \<Longrightarrow> fm_inv s"
  by (auto simp: fm_init_def new_fencing_mutex_def fm_inv_def)

lemma fm_counter_step: "fm_step s t \<Longrightarrow> fm_counter s \<le> fm_counter t"
  by (erule fm_step.cases) (auto simp: fm_defs split: option.split)

lemma fm_current_step:
  "fm_step s t \<Longrightarrow> fm_current t r = Some x \<Longrightarrow> fm_current s r = Some x \<or> fm_counter s < x"
  by (erule fm_step.cases) (auto simp: fm_defs fm_current_def split: option.splits if_splits)

interpretation mutex: fencing fm_init fm_step fm_inv fm_current "\<lambda>s x. x \<le> fm_counter s"
proof unfold_locales
  show "fm_inv s" if "fm_init s" for s using that by (rule fm_inv_init)
  show "fm_inv t" if "fm_inv s" "fm_step s t" for s t using that by (rule fm_inv_step)
  show "x \<le> fm_counter s" if "fm_inv s" "fm_current s r = Some x" for s r x
    using that by (auto simp: fm_inv_def fm_current_def)
  show "x \<le> fm_counter t" if "fm_inv s" "fm_step s t" "x \<le> fm_counter s" for s t x
    using fm_counter_step [OF that(2)] that(3) by simp
  show "fm_current s r = Some x \<or> \<not> x \<le> fm_counter s"
    if "fm_inv s" "fm_step s t" "fm_current t r = Some x" for s t r x
    using fm_current_step [OF that(2,3)] by auto
qed


text \<open>A held lock changes hands only by release, by shutdown, or by annexation of an expired lease.\<close>

lemma fm_handover:
  assumes "js_get (fm_locks s) r = Some l" and "fm_acquire r' a ttl now s = (t, Some l')"
    and "js_get (fm_locks t) r \<noteq> Some l"
  shows "r' = r \<and> (fl_ownerId l = a \<or> fl_ttlMs l \<le> now - fl_acquiredAt l)"
  using assms by (auto simp: fm_defs split: option.splits if_splits)

section \<open>Tokens of the lock authority\<close>

definition generateFencingToken :: "nat \<Rightarrow> string \<Rightarrow> nat \<Rightarrow> string" where
  "generateFencingToken counter ownerId now =
     ''fn-'' @ ownerId @ ''-'' @ show_nat now @ ''-'' @ show_nat counter"

text \<open>\<^verbatim>\<open>split("-")\<close>\<close>

fun js_split :: "char \<Rightarrow> string \<Rightarrow> string list" where
  "js_split c [] = [[]]"
| "js_split c (x # xs) =
     (if x = c then [] # js_split c xs
      else (case js_split c xs of [] \<Rightarrow> [[x]] | p # ps \<Rightarrow> (x # p) # ps))"

text \<open>\<^verbatim>\<open>parseInt(s, 10)\<close>: white space, a sign, and the digits up to the first other character.\<close>

definition parse_digits :: "string \<Rightarrow> nat option" where
  "parse_digits s = (let ds = takeWhile is_digit s in if ds = [] then None else Some (digits_value ds))"

definition parseInt10 :: "string \<Rightarrow> int option" where
  "parseInt10 s =
     (case dropWhile js_space s of
        [] \<Rightarrow> None
      | c # cs \<Rightarrow>
          if c = CHR ''-'' then map_option (\<lambda>n. - int n) (parse_digits cs)
          else if c = CHR ''+'' then map_option int (parse_digits cs)
          else map_option int (parse_digits (c # cs)))"

definition parseEpoch :: "string \<Rightarrow> int" where
  "parseEpoch fencingToken =
     (let parts = js_split CHR ''-'' fencingToken in
      if length parts \<ge> 3 then (case parseInt10 (parts ! 2) of None \<Rightarrow> 0 | Some n \<Rightarrow> n) else 0)"

definition verifyTokenInvariants :: "string \<Rightarrow> string \<Rightarrow> bool" where
  "verifyTokenInvariants activeToken candidateToken \<longleftrightarrow> parseEpoch activeToken \<le> parseEpoch candidateToken"

section \<open>The lock authority\<close>

datatype lock_failure =
    Collision | Split_brain | Stale_owner | Duplicate_claim | Owner_mismatch | Fencing_mismatch
  | Missing_fencing_token | Not_held

record lock_claim =
  lk_resourcePath :: string
  lk_ownerId :: string
  lk_claimId :: string
  lk_fencingToken :: string
  lk_leaseEpoch :: nat
  lk_acquiredAt :: nat
  lk_ttlMs :: int

record lock_engine =
  le_claims :: "(string, lock_claim) jsmap"
  le_defaultTtlMs :: int
  le_tokenCounter :: nat

definition new_lock_engine :: "int \<Rightarrow> nat \<Rightarrow> lock_engine" where
  "new_lock_engine ttl counter = \<lparr>le_claims = [], le_defaultTtlMs = ttl, le_tokenCounter = counter\<rparr>"

definition lease_expired :: "nat \<Rightarrow> lock_claim \<Rightarrow> bool" where
  "lease_expired now c \<longleftrightarrow> int now - int (lk_acquiredAt c) > lk_ttlMs c"

text \<open>The clock is read three times: on entry, for the token and for the epoch.\<close>

definition le_grant :: "string \<Rightarrow> string \<Rightarrow> int \<Rightarrow> nat \<Rightarrow> nat \<Rightarrow> nat \<Rightarrow> string \<Rightarrow> lock_engine \<Rightarrow> lock_engine \<times> lock_claim" where
  "le_grant path ownerId ttlMs now now2 now3 uuid s =
     (let n = Suc (le_tokenCounter s);
          claim = \<lparr>lk_resourcePath = path, lk_ownerId = ownerId, lk_claimId = uuid,
            lk_fencingToken = generateFencingToken n ownerId now2, lk_leaseEpoch = now3,
            lk_acquiredAt = now, lk_ttlMs = ttlMs\<rparr>
      in (s\<lparr>le_tokenCounter := n, le_claims := js_set (le_claims s) path claim\<rparr>, claim))"

definition le_acquire ::
  "string \<Rightarrow> string \<Rightarrow> int option \<Rightarrow> nat \<Rightarrow> nat \<Rightarrow> nat \<Rightarrow> string \<Rightarrow> lock_engine \<Rightarrow> lock_engine \<times> (lock_failure + lock_claim)" where
  "le_acquire path ownerId ttl now now2 now3 uuid s =
     (let ttlMs = (case ttl of None \<Rightarrow> le_defaultTtlMs s | Some t \<Rightarrow> t);
          grant = (\<lambda>s. map_prod id Inr (le_grant path ownerId ttlMs now now2 now3 uuid s))
      in case js_get (le_claims s) path of
        None \<Rightarrow> grant s
      | Some existing \<Rightarrow>
          if lease_expired now existing then grant (s\<lparr>le_claims := js_del (le_claims s) path\<rparr>)
          else if lk_ownerId existing = ownerId then
            let claim = existing\<lparr>lk_acquiredAt := now, lk_ttlMs := ttlMs\<rparr>
            in (s\<lparr>le_claims := js_set (le_claims s) path claim\<rparr>, Inr claim)
          else (s, Inl Collision))"

definition le_release :: "string \<Rightarrow> string \<Rightarrow> string option \<Rightarrow> lock_engine \<Rightarrow> lock_engine \<times> (lock_failure + unit)" where
  "le_release path ownerId fencingToken s =
     (case js_get (le_claims s) path of
        None \<Rightarrow> (s, Inl Not_held)
      | Some existing \<Rightarrow>
          if lk_ownerId existing \<noteq> ownerId then (s, Inl Owner_mismatch)
          else if fencingToken \<noteq> None \<and> fencingToken \<noteq> Some [] \<and> fencingToken \<noteq> Some (lk_fencingToken existing)
          then (s, Inl Fencing_mismatch)
          else (s\<lparr>le_claims := js_del (le_claims s) path\<rparr>, Inr ()))"

definition le_isLocked :: "string \<Rightarrow> nat \<Rightarrow> lock_engine \<Rightarrow> lock_engine \<times> bool" where
  "le_isLocked path now s =
     (case js_get (le_claims s) path of
        None \<Rightarrow> (s, False)
      | Some existing \<Rightarrow>
          if lease_expired now existing then (s\<lparr>le_claims := js_del (le_claims s) path\<rparr>, False) else (s, True))"

definition recoverStaleLocks :: "nat \<Rightarrow> lock_engine \<Rightarrow> lock_engine \<times> string list" where
  "recoverStaleLocks now s =
     (s\<lparr>le_claims := filter (\<lambda>e. \<not> lease_expired now (snd e)) (le_claims s)\<rparr>,
      map fst (filter (\<lambda>e. lease_expired now (snd e)) (le_claims s)))"

definition getActiveClaimCount :: "nat \<Rightarrow> lock_engine \<Rightarrow> lock_engine \<times> nat" where
  "getActiveClaimCount now s = (let t = fst (recoverStaleLocks now s) in (t, length (le_claims t)))"

text \<open>The counter is a static field: another engine of the process may advance it.\<close>

inductive le_step :: "lock_engine \<Rightarrow> lock_engine \<Rightarrow> bool" where
  le_step_acquire: "le_step s (fst (le_acquire path ownerId ttl now now2 now3 uuid s))"
| le_step_release: "le_step s (fst (le_release path ownerId fencingToken s))"
| le_step_isLocked: "le_step s (fst (le_isLocked path now s))"
| le_step_recover: "le_step s (fst (recoverStaleLocks now s))"
| le_step_other: "le_tokenCounter s \<le> n \<Longrightarrow> le_step s (s\<lparr>le_tokenCounter := n\<rparr>)"

definition le_init :: "lock_engine \<Rightarrow> bool" where
  "le_init s \<longleftrightarrow> (\<exists>ttl counter. s = new_lock_engine ttl counter)"

definition le_current :: "lock_engine \<Rightarrow> string \<Rightarrow> string option" where
  "le_current s r = map_option lk_fencingToken (js_get (le_claims s) r)"

definition le_issued :: "lock_engine \<Rightarrow> string \<Rightarrow> bool" where
  "le_issued s x \<longleftrightarrow> (\<exists>n ownerId now. n \<le> le_tokenCounter s \<and> x = generateFencingToken n ownerId now)"

definition le_inv :: "lock_engine \<Rightarrow> bool" where
  "le_inv s \<longleftrightarrow> js_wf (le_claims s) \<and>
     (\<forall>r c. js_get (le_claims s) r = Some c \<longrightarrow> lk_resourcePath c = r \<and> le_issued s (lk_fencingToken c))"

section \<open>Tokens are unique\<close>

lemma show_nat_no_dash: "CHR ''-'' \<notin> set (show_nat n)"
proof
  assume "CHR ''-'' \<in> set (show_nat n)"
  then have "is_digit (CHR ''-'')" by (rule show_nat_digits)
  moreover have "\<not> is_digit (CHR ''-'')" by code_simp
  ultimately show False by contradiction
qed

lemma parseInt_show: "parseInt10 (show_nat n) = Some (int n)"
proof -
  obtain c cs where s: "show_nat n = c # cs" using show_nat_Nil [of n] by (cases "show_nat n") auto
  have d: "is_digit x" if "x \<in> set (c # cs)" for x using that show_nat_digits [of x n] s by simp
  have "\<not> js_space c" using d [of c] by (auto simp: js_space_def is_digit_def)
  moreover have "c \<noteq> CHR ''-''" "c \<noteq> CHR ''+''" using d [of c] by (auto simp: is_digit_def)
  moreover have "takeWhile is_digit (c # cs) = c # cs" using d by (simp add: takeWhile_eq_all_conv)
  ultimately show ?thesis using digits_show [of n] s by (simp add: parseInt10_def parse_digits_def)
qed

lemma token_counter: "generateFencingToken m a t = generateFencingToken n b u \<Longrightarrow> m = n"
proof -
  assume "generateFencingToken m a t = generateFencingToken n b u"
  then have "(''fn-'' @ a @ ''-'' @ show_nat t) @ CHR ''-'' # show_nat m
      = (''fn-'' @ b @ ''-'' @ show_nat u) @ CHR ''-'' # show_nat n"
    by (simp add: generateFencingToken_def)
  then have "show_nat m = show_nat n" by (rule last_part_unique [OF _ show_nat_no_dash show_nat_no_dash])
  then show "m = n" by (rule show_nat_inj)
qed

lemma js_split_no_sep: "c \<notin> set p \<Longrightarrow> js_split c (p @ c # rest) = p # js_split c rest"
  by (induction p) (auto split: list.split)

lemma js_split_end: "c \<notin> set p \<Longrightarrow> js_split c p = [p]"
  by (induction p) auto


section \<open>The invariant\<close>

declare map_of_eq_Some_iff [simp del]

lemma le_issuedI: "n \<le> le_tokenCounter s \<Longrightarrow> le_issued s (generateFencingToken n a t)"
  unfolding le_issued_def by blast

lemma le_issued_mono: "le_tokenCounter s \<le> le_tokenCounter t \<Longrightarrow> le_issued s x \<Longrightarrow> le_issued t x"
  by (auto simp: le_issued_def [of s] intro: le_issuedI order_trans)

lemma le_new_token:
  "\<not> le_issued s (generateFencingToken (Suc (le_tokenCounter s)) a t)"
  by (auto simp: le_issued_def dest: token_counter)

definition next_token :: "lock_engine \<Rightarrow> string \<Rightarrow> bool" where
  "next_token s x \<longleftrightarrow> (\<exists>a n. x = generateFencingToken (Suc (le_tokenCounter s)) a n)"

lemma next_tokenI [simp]: "next_token s (generateFencingToken (Suc (le_tokenCounter s)) a n)"
  unfolding next_token_def by blast

lemma next_token_issued: "next_token s x \<Longrightarrow> le_tokenCounter t = Suc (le_tokenCounter s) \<Longrightarrow> le_issued t x"
  unfolding next_token_def le_issued_def by (metis order_refl)

lemma next_token_new: "next_token s x \<Longrightarrow> \<not> le_issued s x"
  unfolding next_token_def using le_new_token by blast

lemma le_counter_step: "le_step s t \<Longrightarrow> le_tokenCounter s \<le> le_tokenCounter t"
  by (erule le_step.cases)
     (auto simp: le_acquire_def le_grant_def le_release_def le_isLocked_def recoverStaleLocks_def Let_def
       split: option.split)

text \<open>A step leaves a claim as it is, renews it for its owner, or makes one with a new token.\<close>

lemma le_claim_step:
  assumes "le_step s t" and "js_wf (le_claims s)" and "js_get (le_claims t) r = Some c"
  shows "(\<exists>c'. js_get (le_claims s) r = Some c' \<and> lk_fencingToken c = lk_fencingToken c' \<and>
       lk_resourcePath c = lk_resourcePath c' \<and> lk_ownerId c = lk_ownerId c') \<or>
     (lk_resourcePath c = r \<and> le_tokenCounter t = Suc (le_tokenCounter s) \<and> next_token s (lk_fencingToken c))"
  using assms
  by (elim le_step.cases)
     (auto simp: le_acquire_def le_grant_def le_release_def le_isLocked_def recoverStaleLocks_def Let_def
       js_get_filter split: option.splits if_splits)

lemma le_wf_step: "le_step s t \<Longrightarrow> js_wf (le_claims s) \<Longrightarrow> js_wf (le_claims t)"
  by (erule le_step.cases)
     (auto simp: le_acquire_def le_grant_def le_release_def le_isLocked_def recoverStaleLocks_def Let_def
       split: option.split)

lemma le_inv_step: assumes "le_inv s" and "le_step s t" shows "le_inv t"
proof -
  have wf: "js_wf (le_claims s)" using assms(1) by (simp add: le_inv_def)
  have "lk_resourcePath c = r \<and> le_issued t (lk_fencingToken c)" if c: "js_get (le_claims t) r = Some c" for r c
    using le_claim_step [OF assms(2) wf c]
  proof
    assume "\<exists>c'. js_get (le_claims s) r = Some c' \<and> lk_fencingToken c = lk_fencingToken c' \<and>
       lk_resourcePath c = lk_resourcePath c' \<and> lk_ownerId c = lk_ownerId c'"
    then show ?thesis using assms(1) le_issued_mono [OF le_counter_step [OF assms(2)]] by (auto simp: le_inv_def)
  next
    assume new: "lk_resourcePath c = r \<and> le_tokenCounter t = Suc (le_tokenCounter s) \<and> next_token s (lk_fencingToken c)"
    then have "le_issued t (lk_fencingToken c)" by (intro next_token_issued [of s]) simp_all
    then show ?thesis using new by simp
  qed
  then show ?thesis using le_wf_step [OF assms(2) wf] by (simp add: le_inv_def)
qed

lemma le_inv_init: "le_init s \<Longrightarrow> le_inv s"
  by (auto simp: le_init_def new_lock_engine_def le_inv_def)

interpretation authority: fencing le_init le_step le_inv le_current le_issued
proof unfold_locales
  show "le_inv s" if "le_init s" for s using that by (rule le_inv_init)
  show "le_inv t" if "le_inv s" "le_step s t" for s t using that by (rule le_inv_step)
  show "le_issued s x" if "le_inv s" "le_current s r = Some x" for s r x
    using that by (auto simp: le_inv_def le_current_def)
  show "le_issued t x" if "le_inv s" "le_step s t" "le_issued s x" for s t x
    using that le_issued_mono le_counter_step by blast
  show "le_current s r = Some x \<or> \<not> le_issued s x"
    if inv: "le_inv s" and step: "le_step s t" and cur: "le_current t r = Some x" for s t r x
  proof -
    obtain c where c: "js_get (le_claims t) r = Some c" "lk_fencingToken c = x"
      using cur by (auto simp: le_current_def)
    have wf: "js_wf (le_claims s)" using inv by (simp add: le_inv_def)
    from le_claim_step [OF step wf c(1)] show ?thesis
      using c(2) next_token_new [of s x] by (auto simp: le_current_def)
  qed
qed

section \<open>What the locks guarantee\<close>

definition sample_mutex :: fencing_mutex where
  "sample_mutex = fst (fm_acquire ''f'' ''A'' 1000 500 (new_fencing_mutex 100))"

lemma sample_mutex_reach: "reach fm_init fm_step sample_mutex"
proof -
  have "fm_init (new_fencing_mutex 100)" by (auto simp: fm_init_def)
  then have "reach fm_init fm_step (new_fencing_mutex 100)" by (rule reach_init)
  then show ?thesis unfolding sample_mutex_def by (rule reach_step) (rule fm_step_acquire)
qed

text \<open>C32. A fencing token that has been replaced or released is refused for ever, by the mutex for every
  resource and by the lock authority for its claims.\<close>

theorem stale_tokens_refused:
  "(reach fm_init fm_step s \<and> x \<le> fm_counter s \<and> \<not> isTokenValid r x s \<and> fm_step\<^sup>*\<^sup>* s t \<longrightarrow> \<not> isTokenValid r x t) \<and>
   (reach le_init le_step u \<and> le_issued u y \<and> le_current u r \<noteq> Some y \<and> le_step\<^sup>*\<^sup>* u v \<longrightarrow> le_current v r \<noteq> Some y)"
proof
  show "reach fm_init fm_step s \<and> x \<le> fm_counter s \<and> \<not> isTokenValid r x s \<and> fm_step\<^sup>*\<^sup>* s t \<longrightarrow> \<not> isTokenValid r x t"
    using mutex.retired_stays_retired [of s t x r] mutex.reach_inv [of s] by (auto simp: isTokenValid_current)
  show "reach le_init le_step u \<and> le_issued u y \<and> le_current u r \<noteq> Some y \<and> le_step\<^sup>*\<^sup>* u v \<longrightarrow> le_current v r \<noteq> Some y"
    using authority.retired_stays_retired [of u v y r] authority.reach_inv [of u] by auto
qed

text \<open>\<open>A\<close>'s lease expires, \<open>B\<close> annexes the lock, and \<open>A\<close>'s token is dead, also after \<open>B\<close> releases.\<close>

theorem stale_tokens_refused_witness:
  "\<not> isTokenValid ''f'' 101 (fst (fm_release ''f'' ''B'' (fst (fm_acquire ''f'' ''B'' 1000 1500 sample_mutex)))) \<and>
   isTokenValid ''f'' 101 sample_mutex"
proof -
  let ?s = "fst (fm_acquire ''f'' ''B'' 1000 1500 sample_mutex)"
  have r: "reach fm_init fm_step ?s" by (rule reach_step [OF sample_mutex_reach]) (rule fm_step_acquire)
  have c: "101 \<le> fm_counter ?s" "\<not> isTokenValid ''f'' 101 ?s" by code_simp+
  have st: "fm_step\<^sup>*\<^sup>* ?s (fst (fm_release ''f'' ''B'' ?s))" by (rule r_into_rtranclp) (rule fm_step_release)
  have "isTokenValid ''f'' 101 sample_mutex" by code_simp
  then show ?thesis
    using stale_tokens_refused [of ?s 101 "''f''" "fst (fm_release ''f'' ''B'' ?s)"] r c st by blast
qed

text \<open>Mutual exclusion of the lock authority, on every branch: while a claim of another owner is in
  its lease, \<^verbatim>\<open>acquireLock\<close> answers \<^verbatim>\<open>collision\<close> and \<^verbatim>\<open>releaseLock\<close> answers \<^verbatim>\<open>owner_mismatch\<close>, and neither
  changes anything.\<close>

theorem lock_authority_excludes:
  assumes "js_get (le_claims s) path = Some c" and "lk_ownerId c \<noteq> b"
  shows "le_release path b tok s = (s, Inl Owner_mismatch) \<and>
     (lease_expired now c \<or> le_acquire path b ttl now now2 now3 uuid s = (s, Inl Collision))"
  using assms by (auto simp: le_release_def le_acquire_def Let_def)

theorem lock_authority_excludes_witness:
  "le_release ''f'' ''B'' None (fst (le_acquire ''f'' ''A'' None 10 10 11 ''u'' (new_lock_engine 30000 0)))
     = (fst (le_acquire ''f'' ''A'' None 10 10 11 ''u'' (new_lock_engine 30000 0)), Inl Owner_mismatch)"
proof -
  let ?s = "fst (le_acquire ''f'' ''A'' None 10 10 11 ''u'' (new_lock_engine 30000 0))"
  obtain c where "js_get (le_claims ?s) ''f'' = Some c" "lk_ownerId c \<noteq> ''B''"
    by (simp add: le_acquire_def new_lock_engine_def Let_def le_grant_def)
  then show ?thesis using lock_authority_excludes by blast
qed

lemma parts_of_token:
  assumes "CHR ''-'' \<notin> set p"
  shows "js_split (CHR ''-'') (''fn-'' @ p @ CHR ''-'' # rest) = ''fn'' # p # js_split (CHR ''-'') rest"
  using assms js_split_no_sep [of "CHR ''-''" "''fn''" "p @ CHR ''-'' # rest"] by (simp add: js_split_no_sep)

text \<open>The epoch comes back from the token when the owner id has no hyphen; when it has one, the epoch
  is whatever the second part of the owner id says, so later tokens may look older.\<close>

theorem parseEpoch_of_token:
  assumes "CHR ''-'' \<notin> set a"
  shows "parseEpoch (generateFencingToken n a now) = int now \<and>
     (CHR ''-'' \<in> set b \<or>
      parseEpoch (generateFencingToken n (a @ ''-'' @ b) now) = (case parseInt10 b of None \<Rightarrow> 0 | Some e \<Rightarrow> e))"
proof
  have "js_split (CHR ''-'') (generateFencingToken n a now) = [''fn'', a, show_nat now, show_nat n]"
    using parts_of_token [OF assms, of "show_nat now @ CHR ''-'' # show_nat n"]
      js_split_no_sep [OF show_nat_no_dash, of now "show_nat n"] js_split_end [OF show_nat_no_dash, of n]
    by (simp add: generateFencingToken_def)
  then show "parseEpoch (generateFencingToken n a now) = int now" by (simp add: parseEpoch_def parseInt_show)
  show "CHR ''-'' \<in> set b \<or>
      parseEpoch (generateFencingToken n (a @ ''-'' @ b) now) = (case parseInt10 b of None \<Rightarrow> 0 | Some e \<Rightarrow> e)"
  proof (cases "CHR ''-'' \<in> set b")
    case False
    have "js_split (CHR ''-'') (generateFencingToken n (a @ ''-'' @ b) now)
        = [''fn'', a, b, show_nat now, show_nat n]"
      using parts_of_token [OF assms, of "b @ CHR ''-'' # show_nat now @ CHR ''-'' # show_nat n"]
        js_split_no_sep [OF False, of "show_nat now @ CHR ''-'' # show_nat n"]
        js_split_no_sep [OF show_nat_no_dash, of now "show_nat n"] js_split_end [OF show_nat_no_dash, of n]
      by (simp add: generateFencingToken_def)
    then show ?thesis by (simp add: parseEpoch_def)
  qed simp
qed

text \<open>A token of \<open>agent-7\<close> issued at time 200 after one of \<open>agent\<close> at time 100 is refused as older.\<close>

theorem parseEpoch_of_token_witness:
  "parseEpoch (generateFencingToken 1 ''agent'' 100) = 100 \<and>
   \<not> verifyTokenInvariants (generateFencingToken 1 ''agent'' 100) (generateFencingToken 2 (''agent'' @ ''-'' @ ''7'') 200)"
proof -
  have a: "CHR ''-'' \<notin> set ''agent''" by code_simp
  have b: "\<not> CHR ''-'' \<in> set ''7''" by code_simp
  have i: "parseInt10 ''7'' = Some 7" by code_simp
  have e1: "parseEpoch (generateFencingToken 1 ''agent'' 100) = 100"
    using parseEpoch_of_token [OF a, of 1 100 "''7''"] by (simp only: of_nat_numeral)
  have "parseEpoch (generateFencingToken 2 (''agent'' @ ''-'' @ ''7'') 200) = 7"
    using parseEpoch_of_token [OF a, of 2 200 "''7''"] b i by (simp only: option.case simp_thms)
  then show ?thesis using e1 by (simp only: verifyTokenInvariants_def) simp
qed

end
