(* ===== verification/Lock_Authority.thy ===== *)
theory Lock_Authority
  imports Prelude "HOL-Library.List_Lexorder" "HOL-Library.Char_ord"
begin

text \<open>
  Shared and exclusive locks with expiry and batches: \<^verbatim>\<open>BroccoliLockAuthority\<close> of
  \<^verbatim>\<open>src/sessions/extensions/substrate/broccolidb-lock-authority.ts\<close>.

  A JavaScript \<^verbatim>\<open>Set\<close> of lock ids is a list in insertion order. Readings of the clock are arguments.
  \<^verbatim>\<open>acquireAll\<close> awaits between its acquisitions, where other tasks may use the authority: what they do
  is the argument \<open>others\<close>.
\<close>

declare map_of_eq_Some_iff [simp del]

section \<open>State\<close>

datatype lock_mode = Shared_read | Exclusive_write

record lock_handle =
  lh_lockId :: string
  lh_resourceKey :: string
  lh_ownerId :: string
  lh_mode :: lock_mode
  lh_acquiredAt :: int
  lh_expiresAt :: int

record lock_table =
  lt_locks :: "(string, lock_handle) jsmap"
  lt_resourceLocks :: "(string, string list) jsmap"
  lt_total :: nat

definition new_lock_table :: lock_table where
  "new_lock_table = \<lparr>lt_locks = [], lt_resourceLocks = [], lt_total = 0\<rparr>"

section \<open>Operations\<close>

definition lt_release :: "string \<Rightarrow> lock_table \<Rightarrow> lock_table \<times> bool" where
  "lt_release lockId s =
     (case js_get (lt_locks s) lockId of
        None \<Rightarrow> (s, False)
      | Some h \<Rightarrow>
          let r = lh_resourceKey h in
          (s\<lparr>lt_locks := js_del (lt_locks s) lockId,
             lt_resourceLocks :=
               (case js_get (lt_resourceLocks s) r of
                  None \<Rightarrow> lt_resourceLocks s
                | Some ids \<Rightarrow>
                    let ids' = removeAll lockId ids in
                    if ids' = [] then js_del (lt_resourceLocks s) r else js_set (lt_resourceLocks s) r ids')\<rparr>,
           True))"

definition release_ids :: "string list \<Rightarrow> lock_table \<Rightarrow> lock_table" where
  "release_ids ids s = fold (\<lambda>i t. fst (lt_release i t)) ids s"

definition cleanExpiredLocks :: "int \<Rightarrow> lock_table \<Rightarrow> lock_table" where
  "cleanExpiredLocks now s =
     release_ids (map fst (filter (\<lambda>e. lh_expiresAt (snd e) \<le> now) (lt_locks s))) s"

datatype existing_locks = Reentrant lock_handle | Locked_by lock_handle | No_conflict

fun check_existing :: "lock_table \<Rightarrow> string \<Rightarrow> lock_mode \<Rightarrow> string list \<Rightarrow> existing_locks" where
  "check_existing s ownerId mode [] = No_conflict"
| "check_existing s ownerId mode (i # ids) =
     (case js_get (lt_locks s) i of
        None \<Rightarrow> check_existing s ownerId mode ids
      | Some lock \<Rightarrow>
          if lh_ownerId lock = ownerId \<and> lh_mode lock = mode then Reentrant lock
          else if lh_mode lock = Exclusive_write \<or> mode = Exclusive_write then Locked_by lock
          else check_existing s ownerId mode ids)"

text \<open>\<^verbatim>\<open>resourceKey.replace(/[^a-zA-Z0-9]/g, "_")\<close>\<close>

definition alphanumeric :: "char \<Rightarrow> bool" where
  "alphanumeric c \<longleftrightarrow> (let n = (of_char c :: nat) in (48 \<le> n \<and> n \<le> 57) \<or> (65 \<le> n \<and> n \<le> 90) \<or> (97 \<le> n \<and> n \<le> 122))"

definition lock_id :: "string \<Rightarrow> nat \<Rightarrow> string" where
  "lock_id resourceKey n =
     ''lock_'' @ map (\<lambda>c. if alphanumeric c then c else CHR ''_'') resourceKey @ ''_'' @ show_nat n"

definition add_lock :: "string \<Rightarrow> string \<Rightarrow> lock_mode \<Rightarrow> int \<Rightarrow> int \<Rightarrow> lock_table \<Rightarrow> lock_table \<times> lock_handle" where
  "add_lock resourceKey ownerId mode ttlMs now s =
     (let n = Suc (lt_total s);
          h = \<lparr>lh_lockId = lock_id resourceKey n, lh_resourceKey = resourceKey, lh_ownerId = ownerId,
               lh_mode = mode, lh_acquiredAt = now, lh_expiresAt = now + ttlMs\<rparr>;
          ids = (case js_get (lt_resourceLocks s) resourceKey of None \<Rightarrow> [] | Some ids \<Rightarrow> ids)
      in (s\<lparr>lt_total := n, lt_locks := js_set (lt_locks s) (lh_lockId h) h,
            lt_resourceLocks := js_set (lt_resourceLocks s) resourceKey
              (if lh_lockId h \<in> set ids then ids else ids @ [lh_lockId h])\<rparr>, h))"

text \<open>The clock is read by the clean-up and again for the new handle.\<close>

definition lt_acquire ::
  "string \<Rightarrow> string \<Rightarrow> lock_mode \<Rightarrow> int \<Rightarrow> int \<Rightarrow> int \<Rightarrow> lock_table \<Rightarrow> lock_table \<times> (lock_handle + lock_handle)" where
  "lt_acquire resourceKey ownerId mode ttlMs now now2 s =
     (let t = cleanExpiredLocks now s in
      case check_existing t ownerId mode
             (case js_get (lt_resourceLocks t) resourceKey of None \<Rightarrow> [] | Some ids \<Rightarrow> ids) of
        Reentrant h \<Rightarrow> (t, Inr h)
      | Locked_by h \<Rightarrow> (t, Inl h)
      | No_conflict \<Rightarrow> map_prod id Inr (add_lock resourceKey ownerId mode ttlMs now2 t))"

text \<open>The batch: the keys sorted without repetition, the clock \<open>clock\<close> and the other tasks at each await.\<close>

primrec acquire_keys ::
  "(nat \<Rightarrow> lock_table \<Rightarrow> lock_table) \<Rightarrow> (nat \<Rightarrow> int) \<Rightarrow> string \<Rightarrow> lock_mode \<Rightarrow> int \<Rightarrow> string list \<Rightarrow> lock_handle list \<Rightarrow>
   lock_table \<Rightarrow> lock_table \<times> (lock_handle + lock_handle list)" where
  "acquire_keys others clock ownerId mode ttlMs [] acquired s = (s, Inr acquired)"
| "acquire_keys others clock ownerId mode ttlMs (key # keys) acquired s =
     (case lt_acquire key ownerId mode ttlMs (clock (length keys)) (clock (length keys)) s of
        (t, Inl h) \<Rightarrow>
          (release_ids (map lh_lockId acquired) (others (length keys) t), Inl h)
      | (t, Inr h) \<Rightarrow>
          acquire_keys others clock ownerId mode ttlMs keys (acquired @ [h]) (others (length keys) t))"

definition acquireAll ::
  "(nat \<Rightarrow> lock_table \<Rightarrow> lock_table) \<Rightarrow> (nat \<Rightarrow> int) \<Rightarrow> string list \<Rightarrow> string \<Rightarrow> lock_mode \<Rightarrow> int \<Rightarrow>
   lock_table \<Rightarrow> lock_table \<times> (lock_handle + lock_handle list)" where
  "acquireAll others clock resourceKeys ownerId mode ttlMs s =
     acquire_keys others clock ownerId mode ttlMs (sort (remdups resourceKeys)) [] s"

definition releaseAllForOwner :: "string \<Rightarrow> lock_table \<Rightarrow> lock_table \<times> nat" where
  "releaseAllForOwner ownerId s =
     (let ids = map fst (filter (\<lambda>e. lh_ownerId (snd e) = ownerId) (lt_locks s)) in (release_ids ids s, length ids))"

definition isLocked :: "string \<Rightarrow> int \<Rightarrow> lock_table \<Rightarrow> lock_table \<times> bool" where
  "isLocked resourceKey now s =
     (let t = cleanExpiredLocks now s in
      (t, case js_get (lt_resourceLocks t) resourceKey of None \<Rightarrow> False | Some ids \<Rightarrow> ids \<noteq> []))"

definition getActiveLocks :: "int \<Rightarrow> lock_table \<Rightarrow> lock_table \<times> lock_handle list" where
  "getActiveLocks now s = (let t = cleanExpiredLocks now s in (t, js_values (lt_locks t)))"

inductive lt_step :: "lock_table \<Rightarrow> lock_table \<Rightarrow> bool" where
  lt_step_acquire: "lt_step s (fst (lt_acquire r a m ttl now now2 s))"
| lt_step_release: "lt_step s (fst (lt_release i s))"
| lt_step_releaseAll: "lt_step s (fst (releaseAllForOwner a s))"
| lt_step_clean: "lt_step s (cleanExpiredLocks now s)"

section \<open>The invariant\<close>

text \<open>Two locks of one resource are both shared.\<close>

definition compatible :: "lock_table \<Rightarrow> bool" where
  "compatible s \<longleftrightarrow> (\<forall>i j h k. js_get (lt_locks s) i = Some h \<longrightarrow> js_get (lt_locks s) j = Some k \<longrightarrow> i \<noteq> j \<longrightarrow>
     lh_resourceKey h = lh_resourceKey k \<longrightarrow> lh_mode h = Shared_read \<and> lh_mode k = Shared_read)"

definition indexed :: "lock_table \<Rightarrow> bool" where
  "indexed s \<longleftrightarrow>
     (\<forall>i h. js_get (lt_locks s) i = Some h \<longrightarrow> lh_lockId h = i \<and>
        (\<exists>ids. js_get (lt_resourceLocks s) (lh_resourceKey h) = Some ids \<and> i \<in> set ids)) \<and>
     (\<forall>r ids i. js_get (lt_resourceLocks s) r = Some ids \<longrightarrow> i \<in> set ids \<longrightarrow>
        (\<exists>h. js_get (lt_locks s) i = Some h \<and> lh_resourceKey h = r)) \<and>
     (\<forall>r ids. js_get (lt_resourceLocks s) r = Some ids \<longrightarrow> ids \<noteq> [])"

definition unrepeated :: "lock_table \<Rightarrow> bool" where
  "unrepeated s \<longleftrightarrow> (\<forall>r ids. js_get (lt_resourceLocks s) r = Some ids \<longrightarrow> distinct ids)"

definition numbered :: "lock_table \<Rightarrow> bool" where
  "numbered s \<longleftrightarrow> (\<forall>i h. js_get (lt_locks s) i = Some h \<longrightarrow> (\<exists>r n. i = lock_id r n \<and> n \<le> lt_total s))"

definition lt_inv :: "lock_table \<Rightarrow> bool" where
  "lt_inv s \<longleftrightarrow> js_wf (lt_locks s) \<and> js_wf (lt_resourceLocks s) \<and> compatible s \<and> indexed s \<and> unrepeated s \<and> numbered s"

lemma lock_id_inj: "lock_id r m = lock_id q n \<Longrightarrow> m = n"
proof -
  assume eq: "lock_id r m = lock_id q n"
  have nd: "CHR ''_'' \<notin> set (show_nat k)" for k
  proof
    assume "CHR ''_'' \<in> set (show_nat k)"
    then have "is_digit (CHR ''_'')" by (rule show_nat_digits)
    moreover have "\<not> is_digit (CHR ''_'')" by code_simp
    ultimately show False by contradiction
  qed
  from eq have "(''lock_'' @ map (\<lambda>c. if alphanumeric c then c else CHR ''_'') r) @ CHR ''_'' # show_nat m
      = (''lock_'' @ map (\<lambda>c. if alphanumeric c then c else CHR ''_'') q) @ CHR ''_'' # show_nat n"
    by (simp add: lock_id_def)
  then have "show_nat m = show_nat n" by (rule last_part_unique [OF _ nd nd])
  then show "m = n" by (rule show_nat_inj)
qed

lemma lt_release_locks:
  "js_get (lt_locks (fst (lt_release i s))) j = (if j = i then None else js_get (lt_locks s) j)"
  by (auto simp: lt_release_def Let_def split: option.split)

lemma lt_release_total [simp]: "lt_total (fst (lt_release i s)) = lt_total s"
  by (simp add: lt_release_def Let_def split: option.split)

lemma indexed_release: assumes "indexed s" shows "indexed (fst (lt_release i s))"
proof (cases "js_get (lt_locks s) i")
  case None
  then show ?thesis using assms by (simp add: lt_release_def)
next
  case (Some h)
  let ?t = "fst (lt_release i s)" and ?r = "lh_resourceKey h"
  obtain ids where ids: "js_get (lt_resourceLocks s) ?r = Some ids" "i \<in> set ids"
    using assms Some unfolding indexed_def by blast
  have res: "js_get (lt_resourceLocks ?t) q =
      (if q = ?r then (if removeAll i ids = [] then None else Some (removeAll i ids)) else js_get (lt_resourceLocks s) q)" for q
    using Some ids by (simp add: lt_release_def Let_def)
  have "lh_lockId k = j \<and> (\<exists>ids'. js_get (lt_resourceLocks ?t) (lh_resourceKey k) = Some ids' \<and> j \<in> set ids')"
    if "js_get (lt_locks ?t) j = Some k" for j k
  proof -
    have j: "j \<noteq> i" "js_get (lt_locks s) j = Some k" using that by (auto simp: lt_release_locks split: if_splits)
    then obtain ids' where "js_get (lt_resourceLocks s) (lh_resourceKey k) = Some ids'" "j \<in> set ids'" "lh_lockId k = j"
      using assms unfolding indexed_def by blast
    note k = this
    show ?thesis
    proof (cases "lh_resourceKey k = ?r")
      case True
      then have mem: "j \<in> set (removeAll i ids)" using k ids j by simp
      then have "removeAll i ids \<noteq> []" by (metis empty_iff empty_set)
      then show ?thesis using True mem k(3) by (simp add: res)
    next
      case False
      then show ?thesis using k by (simp add: res)
    qed
  qed
  moreover have "\<exists>k. js_get (lt_locks ?t) j = Some k \<and> lh_resourceKey k = q"
    if look: "js_get (lt_resourceLocks ?t) q = Some ids'" and mem: "j \<in> set ids'" for q ids' j
  proof (cases "q = ?r")
    case True
    then have "ids' = removeAll i ids" using look by (simp add: res split: if_splits)
    then have "j \<noteq> i" "j \<in> set ids" using mem by auto
    then show ?thesis using assms ids(1) True unfolding indexed_def lt_release_locks by auto
  next
    case False
    then have q: "js_get (lt_resourceLocks s) q = Some ids'" using look by (simp add: res)
    then obtain k where k: "js_get (lt_locks s) j = Some k" "lh_resourceKey k = q"
      using assms mem unfolding indexed_def by blast
    then have "j \<noteq> i" using False Some by auto
    then show ?thesis using k by (auto simp: lt_release_locks)
  qed
  moreover have "ids' \<noteq> []" if "js_get (lt_resourceLocks ?t) q = Some ids'" for q ids'
    using that assms unfolding res indexed_def by (auto split: if_splits)
  ultimately show ?thesis unfolding indexed_def by blast
qed

lemma release_resource:
  "js_get (lt_resourceLocks (fst (lt_release i s))) q = Some ids' \<Longrightarrow>
     \<exists>ids. js_get (lt_resourceLocks s) q = Some ids \<and> (ids' = ids \<or> ids' = removeAll i ids)"
proof (cases "js_get (lt_locks s) i")
  case (Some h)
  assume look: "js_get (lt_resourceLocks (fst (lt_release i s))) q = Some ids'"
  show ?thesis
  proof (cases "js_get (lt_resourceLocks s) (lh_resourceKey h)")
    case None
    then show ?thesis using look Some by (simp add: lt_release_def Let_def)
  next
    case (Some ids)
    then show ?thesis using look \<open>js_get (lt_locks s) i = Some h\<close>
      by (cases "q = lh_resourceKey h"; cases "removeAll i ids = []") (simp_all add: lt_release_def Let_def)
  qed
qed (simp add: lt_release_def)

lemma unrepeated_release: "unrepeated s \<Longrightarrow> unrepeated (fst (lt_release i s))"
  unfolding unrepeated_def using release_resource distinct_removeAll by metis

lemma lt_inv_release: assumes "lt_inv s" shows "lt_inv (fst (lt_release i s))"
proof -
  have "js_wf (lt_locks (fst (lt_release i s))) \<and> js_wf (lt_resourceLocks (fst (lt_release i s)))"
    using assms by (simp add: lt_inv_def lt_release_def Let_def split: option.split)
  moreover have "compatible (fst (lt_release i s))"
    using assms unfolding lt_inv_def compatible_def lt_release_locks by (metis option.distinct(1))
  moreover have "numbered (fst (lt_release i s))"
    using assms unfolding lt_inv_def numbered_def lt_release_locks lt_release_total by (metis option.distinct(1))
  ultimately show ?thesis using assms indexed_release unrepeated_release by (simp add: lt_inv_def)
qed

lemma lt_inv_release_ids: "lt_inv s \<Longrightarrow> lt_inv (release_ids ids s)"
  unfolding release_ids_def by (induction ids arbitrary: s) (simp_all add: lt_inv_release)

lemma lt_inv_clean: "lt_inv s \<Longrightarrow> lt_inv (cleanExpiredLocks now s)"
  by (simp add: cleanExpiredLocks_def lt_inv_release_ids)

lemma check_no_conflict:
  "check_existing s a m ids = No_conflict \<Longrightarrow> i \<in> set ids \<Longrightarrow> js_get (lt_locks s) i = Some h \<Longrightarrow>
     lh_mode h = Shared_read \<and> m = Shared_read"
proof (induction ids)
  case (Cons j ids)
  then show ?case by (cases m; cases "lh_mode h") (auto split: option.splits if_splits)
qed simp

lemma check_existing_mem:
  "check_existing s a m ids = Reentrant h \<or> check_existing s a m ids = Locked_by h \<Longrightarrow>
     \<exists>i \<in> set ids. js_get (lt_locks s) i = Some h"
  by (induction ids) (auto split: option.splits if_splits)

lemma lt_inv_add:
  assumes inv: "lt_inv s"
    and free: "check_existing s a m (case js_get (lt_resourceLocks s) r of None \<Rightarrow> [] | Some ids \<Rightarrow> ids) = No_conflict"
  shows "lt_inv (fst (add_lock r a m ttl now s))"
proof -
  let ?t = "fst (add_lock r a m ttl now s)" and ?h = "snd (add_lock r a m ttl now s)"
  let ?i = "lock_id r (Suc (lt_total s))"
  let ?ids = "case js_get (lt_resourceLocks s) r of None \<Rightarrow> [] | Some ids \<Rightarrow> ids"
  have h: "lh_lockId ?h = ?i" "lh_resourceKey ?h = r" "lh_mode ?h = m" by (simp_all add: add_lock_def Let_def)
  have fresh: "js_get (lt_locks s) ?i = None"
  proof (rule ccontr)
    assume "js_get (lt_locks s) ?i \<noteq> None"
    then obtain q n where "?i = lock_id q n" "n \<le> lt_total s"
      using inv unfolding lt_inv_def numbered_def by blast
    then show False using lock_id_inj by fastforce
  qed
  have ids: "\<exists>k. js_get (lt_locks s) j = Some k \<and> lh_resourceKey k = r" if "j \<in> set ?ids" for j
    using that inv unfolding lt_inv_def indexed_def by (auto split: option.splits)
  have new: "?i \<notin> set ?ids" using ids fresh by fastforce
  have L: "js_get (lt_locks ?t) j = (if j = ?i then Some ?h else js_get (lt_locks s) j)" for j
    by (simp add: add_lock_def Let_def)
  have R: "js_get (lt_resourceLocks ?t) q = (if q = r then Some (?ids @ [?i]) else js_get (lt_resourceLocks s) q)" for q
    using new by (cases "js_get (lt_resourceLocks s) r") (simp_all add: add_lock_def Let_def)
  have mem: "j \<in> set ?ids" if jk: "js_get (lt_locks s) j = Some k" and kr: "lh_resourceKey k = r" for j k
  proof -
    obtain ids' where "js_get (lt_resourceLocks s) (lh_resourceKey k) = Some ids' \<and> j \<in> set ids'"
      using jk inv unfolding lt_inv_def indexed_def by blast
    then show ?thesis using kr by simp
  qed
  have others: "lh_mode k = Shared_read \<and> m = Shared_read"
    if "js_get (lt_locks s) j = Some k" "lh_resourceKey k = r" for j k
    using check_no_conflict [OF free mem [OF that] that(1)] .
  have "compatible ?t"
    unfolding compatible_def
  proof (intro allI impI)
    fix i j k l assume i: "js_get (lt_locks ?t) i = Some k" and j: "js_get (lt_locks ?t) j = Some l"
      and ij: "i \<noteq> j" and eq: "lh_resourceKey k = lh_resourceKey l"
    have comp: "compatible s" using inv by (simp add: lt_inv_def)
    consider "i = ?i" | "j = ?i" | "i \<noteq> ?i" "j \<noteq> ?i" by blast
    then show "lh_mode k = Shared_read \<and> lh_mode l = Shared_read"
    proof cases
      case 1
      then show ?thesis using i j ij eq h others [of j l] by (simp add: L)
    next
      case 2
      then show ?thesis using i j ij eq h others [of i k] by (simp add: L)
    next
      case 3
      then have "js_get (lt_locks s) i = Some k" "js_get (lt_locks s) j = Some l" using i j by (simp_all add: L)
      then show ?thesis using comp ij eq unfolding compatible_def by blast
    qed
  qed
  moreover have "indexed ?t"
    unfolding indexed_def
  proof (intro conjI allI impI)
    fix i k assume i: "js_get (lt_locks ?t) i = Some k"
    have old: "lh_lockId k = i \<and> (\<exists>ids. js_get (lt_resourceLocks s) (lh_resourceKey k) = Some ids \<and> i \<in> set ids)"
      if "js_get (lt_locks s) i = Some k" using that inv unfolding lt_inv_def indexed_def by blast
    show "lh_lockId k = i" using i old h by (auto simp: L split: if_splits)
    show "\<exists>ids. js_get (lt_resourceLocks ?t) (lh_resourceKey k) = Some ids \<and> i \<in> set ids"
      using i old h mem [of i k] by (auto simp: L R split: if_splits)
  next
    fix q ids' i assume q: "js_get (lt_resourceLocks ?t) q = Some ids'" and i: "i \<in> set ids'"
    show "\<exists>k. js_get (lt_locks ?t) i = Some k \<and> lh_resourceKey k = q"
    proof (cases "q = r")
      case True
      then have "i = ?i \<or> i \<in> set ?ids" using q i by (auto simp: R)
      then show ?thesis using True ids [of i] h by (auto simp: L)
    next
      case False
      then have "js_get (lt_resourceLocks s) q = Some ids'" using q by (simp add: R)
      then obtain k where "js_get (lt_locks s) i = Some k" "lh_resourceKey k = q"
        using i inv unfolding lt_inv_def indexed_def by blast
      then show ?thesis using fresh by (auto simp: L)
    qed
  next
    fix q ids' assume "js_get (lt_resourceLocks ?t) q = Some ids'"
    then show "ids' \<noteq> []" using inv unfolding lt_inv_def indexed_def R by (auto split: if_splits)
  qed
  moreover have "unrepeated ?t"
  proof -
    have "distinct ?ids" using inv by (auto simp: lt_inv_def unrepeated_def split: option.split)
    then show ?thesis using inv new by (simp add: unrepeated_def R lt_inv_def)
  qed
  moreover have "numbered ?t"
    unfolding numbered_def
  proof (intro allI impI)
    fix i k assume "js_get (lt_locks ?t) i = Some k"
    moreover have "lt_total ?t = Suc (lt_total s)" by (simp add: add_lock_def Let_def)
    ultimately show "\<exists>q n. i = lock_id q n \<and> n \<le> lt_total ?t"
      using inv unfolding L lt_inv_def numbered_def by (metis le_Suc_eq order_refl)
  qed
  moreover have "js_wf (lt_locks ?t)" "js_wf (lt_resourceLocks ?t)"
    using inv by (simp_all add: lt_inv_def add_lock_def Let_def)
  ultimately show ?thesis by (simp add: lt_inv_def)
qed

lemma lt_inv_acquire: "lt_inv s \<Longrightarrow> lt_inv (fst (lt_acquire r a m ttl now now2 s))"
  using lt_inv_clean [of s now] lt_inv_add [of "cleanExpiredLocks now s" a m r ttl now2]
  by (simp add: lt_acquire_def Let_def split: existing_locks.split)

lemma lt_inv_step: "lt_inv s \<Longrightarrow> lt_step s t \<Longrightarrow> lt_inv t"
  by (auto elim!: lt_step.cases intro: lt_inv_acquire lt_inv_release lt_inv_clean
      simp: releaseAllForOwner_def Let_def lt_inv_release_ids)

lemma lt_inv_init: "lt_inv new_lock_table"
  by (simp add: new_lock_table_def lt_inv_def compatible_def indexed_def unrepeated_def numbered_def)

interpretation locks: transition_system "\<lambda>s. s = new_lock_table" lt_step lt_inv
  by unfold_locales (auto intro: lt_inv_init lt_inv_step)


section \<open>What the authority guarantees\<close>

lemma locks_inv: "reach (\<lambda>s. s = new_lock_table) lt_step s \<Longrightarrow> lt_inv s"
  by (rule locks.reach_inv)

lemma lock_steps_inv: "lt_step\<^sup>*\<^sup>* s t \<Longrightarrow> lt_inv s \<Longrightarrow> lt_inv t"
  by (rule locks.steps_inv)

lemma release_ids_locks:
  "js_get (lt_locks (release_ids ids s)) j = (if j \<in> set ids then None else js_get (lt_locks s) j)"
  unfolding release_ids_def by (induction ids arbitrary: s) (auto simp: lt_release_locks)

lemma release_ids_steps: "lt_step\<^sup>*\<^sup>* s (release_ids ids s)"
  unfolding release_ids_def
proof (induction ids arbitrary: s)
  case (Cons i ids)
  have "lt_step s (fst (lt_release i s))" by (rule lt_step_release)
  then show ?case using Cons by (simp add: converse_rtranclp_into_rtranclp)
qed simp

lemma lt_acquire_handle:
  assumes "lt_inv s" and "lt_acquire r a m ttl now now2 s = (t, Inr h)"
  shows "lh_resourceKey h = r \<and> lh_ownerId h = a \<and> lh_mode h = m \<and> js_get (lt_locks t) (lh_lockId h) = Some h"
proof -
  let ?c = "cleanExpiredLocks now s"
  let ?ids = "case js_get (lt_resourceLocks ?c) r of None \<Rightarrow> [] | Some ids \<Rightarrow> ids"
  have inv: "lt_inv ?c" using assms(1) by (rule lt_inv_clean)
  have match: "lh_ownerId k = a \<and> lh_mode k = m" if "check_existing ?c a m ids = Reentrant k" for ids k
    using that by (induction ids) (auto split: option.splits if_splits)
  show ?thesis
  proof (cases "check_existing ?c a m ?ids")
    case (Reentrant k)
    then have k: "k = h" "t = ?c" using assms(2) by (simp_all add: lt_acquire_def Let_def)
    obtain i ids where i: "js_get (lt_resourceLocks ?c) r = Some ids" "i \<in> set ids" "js_get (lt_locks ?c) i = Some k"
      using check_existing_mem [of ?c a m ?ids k] Reentrant by (auto split: option.splits)
    then obtain k' where "js_get (lt_locks ?c) i = Some k'" "lh_resourceKey k' = r"
      using inv unfolding lt_inv_def indexed_def by blast
    moreover have "lh_lockId k = i" using inv i(3) unfolding lt_inv_def indexed_def by blast
    ultimately show ?thesis using k i(3) match [OF Reentrant] by simp
  next
    case (Locked_by k)
    then show ?thesis using assms(2) by (simp add: lt_acquire_def Let_def)
  next
    case No_conflict
    then have "add_lock r a m ttl now2 ?c = (t, h)"
      using assms(2) by (cases "add_lock r a m ttl now2 ?c") (simp add: lt_acquire_def Let_def)
    then show ?thesis by (auto simp: add_lock_def Let_def)
  qed
qed

text \<open>C33. Mutual exclusion, and the two indexes agree, in every table reached by acquisitions, releases, releases of an owner and
  clean-ups: an exclusive lock is the only lock of its resource; a lock is stored under its own identifier; the set of a resource holds
  exactly the identifiers of the locks of that resource, none twice, and is dropped when it is empty.\<close>

theorem exclusive_locks_exclude:
  assumes "reach (\<lambda>s. s = new_lock_table) lt_step s"
  shows "(\<forall>i j h k. js_get (lt_locks s) i = Some h \<longrightarrow> js_get (lt_locks s) j = Some k \<longrightarrow>
      lh_resourceKey h = lh_resourceKey k \<longrightarrow> lh_mode h = Exclusive_write \<longrightarrow> i = j) \<and>
    (\<forall>i h. js_get (lt_locks s) i = Some h \<longrightarrow> lh_lockId h = i) \<and>
    (\<forall>r i. (\<exists>ids. js_get (lt_resourceLocks s) r = Some ids \<and> i \<in> set ids) \<longleftrightarrow>
      (\<exists>h. js_get (lt_locks s) i = Some h \<and> lh_resourceKey h = r)) \<and>
    (\<forall>r ids. js_get (lt_resourceLocks s) r = Some ids \<longrightarrow> ids \<noteq> [] \<and> distinct ids)"
proof -
  have inv: "lt_inv s" by (rule locks_inv [OF assms])
  then have ix: "indexed s" "unrepeated s" and "compatible s" by (simp_all add: lt_inv_def)
  then have "i = j" if "js_get (lt_locks s) i = Some h" "js_get (lt_locks s) j = Some k" "lh_resourceKey h = lh_resourceKey k"
      "lh_mode h = Exclusive_write" for i j h k
    using that unfolding compatible_def by (metis lock_mode.distinct(1))
  moreover have "(\<exists>ids. js_get (lt_resourceLocks s) r = Some ids \<and> i \<in> set ids) \<longleftrightarrow>
      (\<exists>h. js_get (lt_locks s) i = Some h \<and> lh_resourceKey h = r)" for r i
    using ix(1) unfolding indexed_def by blast
  moreover have "lh_lockId h = i" if "js_get (lt_locks s) i = Some h" for i h using that ix(1) unfolding indexed_def by blast
  moreover have "ids \<noteq> [] \<and> distinct ids" if "js_get (lt_resourceLocks s) r = Some ids" for r ids
    using that ix unfolding indexed_def unrepeated_def by blast
  ultimately show ?thesis by blast
qed

definition sample_locks :: lock_table where
  "sample_locks = fst (lt_acquire ''b'' ''A'' Exclusive_write 100 1 1 (fst (lt_acquire ''a'' ''B'' Shared_read 100 0 0 new_lock_table)))"

lemma sample_locks_reach: "reach (\<lambda>s. s = new_lock_table) lt_step sample_locks"
proof -
  have "reach (\<lambda>s. s = new_lock_table) lt_step new_lock_table" by (rule reach_init) simp
  then have "reach (\<lambda>s. s = new_lock_table) lt_step (fst (lt_acquire ''a'' ''B'' Shared_read 100 0 0 new_lock_table))"
    by (rule reach_step) (rule lt_step_acquire)
  then show ?thesis unfolding sample_locks_def by (rule reach_step) (rule lt_step_acquire)
qed

theorem exclusive_locks_exclude_witness:
  "\<exists>ids. js_get (lt_resourceLocks sample_locks) ''b'' = Some ids \<and> lock_id ''b'' 2 \<in> set ids"
proof -
  have "\<exists>h. js_get (lt_locks sample_locks) (lock_id ''b'' 2) = Some h \<and> lh_resourceKey h = ''b''"
  proof -
    have "map_option lh_resourceKey (js_get (lt_locks sample_locks) (lock_id ''b'' 2)) = Some ''b''" by code_simp
    then show ?thesis by auto
  qed
  then show ?thesis using exclusive_locks_exclude [OF sample_locks_reach] by blast
qed

text \<open>An acquisition adds no lock but the one it returns.\<close>

lemma lt_acquire_frame:
  assumes "lt_acquire r a m ttl now now2 s = (u, res)" and "js_get (lt_locks u) j = Some h"
  shows "js_get (lt_locks s) j = Some h \<or> (\<exists>h'. res = Inr h' \<and> j = lh_lockId h')"
proof -
  have clean: "js_get (lt_locks s) j = Some h" if "js_get (lt_locks (cleanExpiredLocks now s)) j = Some h"
    using that by (simp add: cleanExpiredLocks_def release_ids_locks split: if_splits)
  show ?thesis using assms clean
    by (auto simp: lt_acquire_def Let_def add_lock_def split: existing_locks.splits if_splits)
qed

lemma acquire_keys_result:
  assumes "lt_inv s" and "\<And>i u. lt_step\<^sup>*\<^sup>* u (others i u)"
    and "acquire_keys others clock a m ttl keys acquired s = (t, res)"
  shows "lt_inv t \<and>
     (case res of
        Inr hs \<Rightarrow> \<exists>new. hs = acquired @ new \<and> map lh_resourceKey new = keys \<and>
          (\<forall>h \<in> set new. lh_ownerId h = a \<and> lh_mode h = m)
      | Inl _ \<Rightarrow> \<forall>h \<in> set acquired. js_get (lt_locks t) (lh_lockId h) = None)"
  using assms(1,3)
proof (induction keys arbitrary: acquired s)
  case Nil
  then show ?case by auto
next
  case (Cons key keys)
  let ?now = "clock (length keys)"
  obtain u r where u: "lt_acquire key a m ttl ?now ?now s = (u, r)" by (cases "lt_acquire key a m ttl ?now ?now s") auto
  have inv_u: "lt_inv u" using lt_inv_acquire [OF Cons.prems(1), of key a m ttl ?now ?now] u by simp
  have inv_o: "lt_inv (others (length keys) u)" by (rule lock_steps_inv [OF assms(2) inv_u])
  show ?case
  proof (cases r)
    case (Inl h)
    then have t: "t = release_ids (map lh_lockId acquired) (others (length keys) u)" "res = Inl h"
      using Cons.prems(2) u by auto
    then show ?thesis using lt_inv_release_ids [OF inv_o] by (simp add: release_ids_locks)
  next
    case (Inr h)
    have rest: "acquire_keys others clock a m ttl keys (acquired @ [h]) (others (length keys) u) = (t, res)"
      using Cons.prems(2) u Inr by simp
    have h: "lh_resourceKey h = key \<and> lh_ownerId h = a \<and> lh_mode h = m"
      using lt_acquire_handle [OF Cons.prems(1)] u Inr by blast
    show ?thesis
    proof (cases res)
      case (Inl e)
      then show ?thesis using Cons.IH [OF inv_o rest] by simp
    next
      case (Inr hs)
      then obtain new where "hs = (acquired @ [h]) @ new" "map lh_resourceKey new = keys"
          "\<forall>h \<in> set new. lh_ownerId h = a \<and> lh_mode h = m" "lt_inv t"
        using Cons.IH [OF inv_o rest] by auto
      then show ?thesis using Inr h by (intro conjI) (auto intro!: exI [of _ "h # new"])
    qed
  qed
qed

lemma acquire_keys_failure:
  assumes "\<And>i u j h. js_get (lt_locks (others i u)) j = Some h \<Longrightarrow> lh_ownerId h = a \<Longrightarrow> js_get (lt_locks u) j = Some h"
    and "acquire_keys others clock a m ttl keys acquired s = (t, Inl e)"
    and "js_get (lt_locks t) j = Some h" and "lh_ownerId h = a"
  shows "js_get (lt_locks s) j = Some h \<and> j \<notin> lh_lockId ` set acquired"
  using assms(2)
proof (induction keys arbitrary: acquired s)
  case Nil
  then show ?case by simp
next
  case (Cons key keys)
  let ?now = "clock (length keys)"
  obtain u r where u: "lt_acquire key a m ttl ?now ?now s = (u, r)" by (cases "lt_acquire key a m ttl ?now ?now s") auto
  show ?case
  proof (cases r)
    case (Inl h')
    then have t: "t = release_ids (map lh_lockId acquired) (others (length keys) u)" using Cons.prems u by auto
    then have j: "j \<notin> lh_lockId ` set acquired" "js_get (lt_locks (others (length keys) u)) j = Some h"
      using assms(3) by (auto simp: release_ids_locks split: if_splits)
    then have "js_get (lt_locks u) j = Some h" using assms(1,4) by blast
    then show ?thesis using lt_acquire_frame [OF u] j(1) Inl by auto
  next
    case (Inr h')
    have "acquire_keys others clock a m ttl keys (acquired @ [h']) (others (length keys) u) = (t, Inl e)"
      using Cons.prems u Inr by simp
    then have j: "js_get (lt_locks (others (length keys) u)) j = Some h" "j \<notin> lh_lockId ` set (acquired @ [h'])"
      using Cons.IH by blast+
    then have "js_get (lt_locks u) j = Some h" using assms(1,4) by blast
    then show ?thesis using lt_acquire_frame [OF u] j(2) Inr by auto
  qed
qed

text \<open>\<^verbatim>\<open>acquireAll\<close> is all or nothing, whatever tasks of other owners do at its awaits: either it returns
  one lock of the owner and mode for each distinct key, in sorted order, or every lock of the owner that is
  there afterwards was there before.\<close>

theorem acquireAll_all_or_nothing:
  assumes "lt_inv s" and "\<And>i u. lt_step\<^sup>*\<^sup>* u (others i u)"
    and "\<And>i u j h. js_get (lt_locks (others i u)) j = Some h \<Longrightarrow> lh_ownerId h = a \<Longrightarrow> js_get (lt_locks u) j = Some h"
    and "acquireAll others clock keys a m ttl s = (t, res)"
  shows "lt_inv t \<and>
     (case res of
        Inr hs \<Rightarrow> map lh_resourceKey hs = sort (remdups keys) \<and> list_all (\<lambda>h. lh_ownerId h = a \<and> lh_mode h = m) hs
      | Inl _ \<Rightarrow> \<forall>j h. js_get (lt_locks t) j = Some h \<longrightarrow> lh_ownerId h = a \<longrightarrow> js_get (lt_locks s) j = Some h)"
proof -
  have keys: "acquire_keys others clock a m ttl (sort (remdups keys)) [] s = (t, res)"
    using assms(4) by (simp add: acquireAll_def)
  note r = acquire_keys_result [OF assms(1,2) keys]
  show ?thesis
  proof (cases res)
    case (Inl e)
    have "js_get (lt_locks s) j = Some h" if "js_get (lt_locks t) j = Some h" "lh_ownerId h = a" for j h
      by (rule conjunct1 [OF acquire_keys_failure [OF _ keys [unfolded Inl] that]]) (rule assms(3))
    then show ?thesis using r Inl by simp
  next
    case (Inr hs)
    then show ?thesis using r by (auto simp: list_all_iff)
  qed
qed

text \<open>A batch over \<open>c\<close> and \<open>b\<close> takes both, sorted, when nobody else interferes.\<close>

theorem acquireAll_all_or_nothing_witness:
  "lt_inv (fst (acquireAll (\<lambda>_ s. s) (\<lambda>_. 2) [''c'', ''b'', ''c''] ''A'' Exclusive_write 100 sample_locks)) \<and>
   map_sum id (map lh_resourceKey) (snd (acquireAll (\<lambda>_ s. s) (\<lambda>_. 2) [''c'', ''b'', ''c''] ''A'' Exclusive_write 100 sample_locks))
     = Inr [''b'', ''c'']"
proof -
  let ?r = "acquireAll (\<lambda>_ s. s) (\<lambda>_. 2) [''c'', ''b'', ''c''] ''A'' Exclusive_write 100 sample_locks"
  have "lt_inv (fst ?r)"
    using acquireAll_all_or_nothing [OF locks_inv [OF sample_locks_reach], of "\<lambda>_ s. s" "''A''" "\<lambda>_. 2"
      "[''c'', ''b'', ''c'']" Exclusive_write 100 "fst ?r" "snd ?r"] by simp
  moreover have "map_sum id (map lh_resourceKey) (snd ?r) = Inr [''b'', ''c'']" by code_simp
  ultimately show ?thesis by blast
qed

text \<open>The rollback of a failed batch also releases locks the owner held before: \<open>A\<close> holds \<open>b\<close>, asks for
  \<open>b\<close> and \<open>d\<close> where \<open>d\<close> is taken, is refused, and has lost \<open>b\<close>.\<close>

theorem failed_batch_drops_held_lock:
  "let s = fst (lt_acquire ''d'' ''C'' Exclusive_write 100 2 2 sample_locks);
       r = acquireAll (\<lambda>_ s. s) (\<lambda>_. 3) [''b'', ''d''] ''A'' Exclusive_write 100 s
   in snd (isLocked ''b'' 3 s) \<and> (\<exists>h. snd r = Inl h \<and> lh_ownerId h = ''C'') \<and> \<not> snd (isLocked ''b'' 3 (fst r))"
proof -
  let ?s = "fst (lt_acquire ''d'' ''C'' Exclusive_write 100 2 2 sample_locks)"
  let ?r = "acquireAll (\<lambda>_ s. s) (\<lambda>_. 3) [''b'', ''d''] ''A'' Exclusive_write 100 ?s"
  have "snd (isLocked ''b'' 3 ?s)" by code_simp
  moreover have "map_sum lh_ownerId id (snd ?r) = Inl ''C''" by code_simp
  then have "\<exists>h. snd ?r = Inl h \<and> lh_ownerId h = ''C''" by (cases "snd ?r") auto
  moreover have "\<not> snd (isLocked ''b'' 3 (fst ?r))" by code_simp
  ultimately show ?thesis unfolding Let_def by blast
qed

end
