(* ===== verification/Deadlock_Detector.thy ===== *)
theory Deadlock_Detector
  imports Prelude
begin

text \<open>
  The wait-for graph of transactions and its search for cycles: \<^verbatim>\<open>BroccoliDeadlockDetector\<close> of
  \<^verbatim>\<open>src/sessions/extensions/substrate/broccolidb-deadlock-detector.ts\<close>.

  The sets \<^verbatim>\<open>visited\<close> and \<^verbatim>\<open>recStack\<close> are lists used as sets. The recursion carries fuel; the number of
  transactions in the graph plus one is enough, since each nested call visits one more.
\<close>

declare map_of_eq_Some_iff [simp del]

section \<open>State and operations\<close>

record wait_edge =
  we_waitingTxId :: string
  we_holdingTxId :: string
  we_resourceKey :: string
  we_timestamp :: nat

record wait_graph =
  wg_edges :: "(string, wait_edge list) jsmap"
  wg_txStartTimes :: "(string, nat) jsmap"

definition new_wait_graph :: wait_graph where
  "new_wait_graph = \<lparr>wg_edges = [], wg_txStartTimes = []\<rparr>"

definition edges_from :: "wait_graph \<Rightarrow> string \<Rightarrow> wait_edge list" where
  "edges_from s t = (case js_get (wg_edges s) t of None \<Rightarrow> [] | Some es \<Rightarrow> es)"

definition note_start :: "string \<Rightarrow> nat \<Rightarrow> (string, nat) jsmap \<Rightarrow> (string, nat) jsmap" where
  "note_start t now m = (if js_get m t = None then js_set m t now else m)"

text \<open>The clock is read up to three times.\<close>

definition addWaitFor :: "string \<Rightarrow> string \<Rightarrow> string \<Rightarrow> nat \<Rightarrow> nat \<Rightarrow> nat \<Rightarrow> wait_graph \<Rightarrow> wait_graph" where
  "addWaitFor waiting holding key t1 t2 t3 s =
     (if waiting = holding then s
      else
        let es = edges_from s waiting;
            exists = list_ex (\<lambda>e. we_holdingTxId e = holding \<and> we_resourceKey e = key) es
        in s\<lparr>wg_txStartTimes := note_start holding t2 (note_start waiting t1 (wg_txStartTimes s)),
             wg_edges := js_set (wg_edges s) waiting
               (if exists then es
                else es @ [\<lparr>we_waitingTxId = waiting, we_holdingTxId = holding, we_resourceKey = key, we_timestamp = t3\<rparr>])\<rparr>)"

text \<open>An absent or empty resource key removes every edge to the holder.\<close>

definition removeWaitFor :: "string \<Rightarrow> string \<Rightarrow> string option \<Rightarrow> wait_graph \<Rightarrow> wait_graph" where
  "removeWaitFor waiting holding key s =
     (case js_get (wg_edges s) waiting of
        None \<Rightarrow> s
      | Some es \<Rightarrow>
          let filtered = filter (\<lambda>e. \<not> (we_holdingTxId e = holding \<and>
                (key = None \<or> key = Some [] \<or> key = Some (we_resourceKey e)))) es
          in s\<lparr>wg_edges := (if filtered = [] then js_del (wg_edges s) waiting else js_set (wg_edges s) waiting filtered)\<rparr>)"

definition without_holder :: "string \<Rightarrow> string \<times> wait_edge list \<Rightarrow> (string, wait_edge list) jsmap \<Rightarrow> (string, wait_edge list) jsmap" where
  "without_holder t entry m =
     (let remaining = filter (\<lambda>e. we_holdingTxId e \<noteq> t) (snd entry) in
      if remaining = [] then js_del m (fst entry) else js_set m (fst entry) remaining)"

definition removeTx :: "string \<Rightarrow> wait_graph \<Rightarrow> wait_graph" where
  "removeTx t s =
     (let m = js_del (wg_edges s) t in
      s\<lparr>wg_txStartTimes := js_del (wg_txStartTimes s) t,
        wg_edges := fold (without_holder t) m m\<rparr>)"

definition getActiveWaitEdges :: "wait_graph \<Rightarrow> wait_edge list" where
  "getActiveWaitEdges s = concat (js_values (wg_edges s))"

section \<open>The search\<close>

record dfs_sets =
  ds_visited :: "string list"
  ds_recStack :: "string list"
  ds_pathStack :: "string list"

text \<open>\<^verbatim>\<open>pathStack.slice(pathStack.indexOf(next))\<close>, where the index is not -1\<close>

definition slice_from :: "string \<Rightarrow> string list \<Rightarrow> string list" where
  "slice_from t path = dropWhile (\<lambda>x. x \<noteq> t) path"

fun search_edges ::
  "(string \<Rightarrow> dfs_sets \<Rightarrow> (dfs_sets \<times> string list option) option) \<Rightarrow> string list \<Rightarrow> dfs_sets \<Rightarrow>
   (dfs_sets \<times> string list option) option" where
  "search_edges f [] st = Some (st, None)"
| "search_edges f (nextTx # rest) st =
     (if nextTx \<notin> set (ds_visited st) then
        (case f nextTx st of
           None \<Rightarrow> None
         | Some (st', Some cycle) \<Rightarrow> Some (st', Some cycle)
         | Some (st', None) \<Rightarrow> search_edges f rest st')
      else if nextTx \<in> set (ds_recStack st) \<and> nextTx \<in> set (ds_pathStack st)
      then Some (st, Some (slice_from nextTx (ds_pathStack st)))
      else search_edges f rest st)"

primrec findCycleDfs :: "nat \<Rightarrow> wait_graph \<Rightarrow> string \<Rightarrow> dfs_sets \<Rightarrow> (dfs_sets \<times> string list option) option" where
  "findCycleDfs 0 s currentTx st = None"
| "findCycleDfs (Suc fuel) s currentTx st =
     (case search_edges (findCycleDfs fuel s) (map we_holdingTxId (edges_from s currentTx))
             \<lparr>ds_visited = currentTx # ds_visited st, ds_recStack = currentTx # ds_recStack st,
              ds_pathStack = ds_pathStack st @ [currentTx]\<rparr> of
        None \<Rightarrow> None
      | Some (st', Some cycle) \<Rightarrow> Some (st', Some cycle)
      | Some (st', None) \<Rightarrow>
          Some (st'\<lparr>ds_pathStack := butlast (ds_pathStack st'), ds_recStack := removeAll currentTx (ds_recStack st')\<rparr>, None))"

text \<open>The roots: the waiting transactions not visited yet.\<close>

fun search_roots :: "nat \<Rightarrow> wait_graph \<Rightarrow> string list \<Rightarrow> dfs_sets \<Rightarrow> string list option option" where
  "search_roots fuel s [] st = Some None"
| "search_roots fuel s (t # ts) st =
     (if t \<in> set (ds_visited st) then search_roots fuel s ts st
      else (case findCycleDfs fuel s t st of
          None \<Rightarrow> None
        | Some (st', Some cycle) \<Rightarrow> Some (Some cycle)
        | Some (st', None) \<Rightarrow> search_roots fuel s ts st'))"

definition start_time :: "wait_graph \<Rightarrow> string \<Rightarrow> nat" where
  "start_time s t = (case js_get (wg_txStartTimes s) t of None \<Rightarrow> 0 | Some n \<Rightarrow> n)"

text \<open>The loop over the cycle: the victim is the last of those that started latest.\<close>

definition later_start :: "wait_graph \<Rightarrow> string \<Rightarrow> string \<times> int \<Rightarrow> string \<times> int" where
  "later_start s t acc = (if int (start_time s t) \<ge> snd acc then (t, int (start_time s t)) else acc)"

definition select_victim :: "wait_graph \<Rightarrow> string list \<Rightarrow> string" where
  "select_victim s cycle = fst (fold (later_start s) cycle (hd cycle, -1))"

definition all_txs :: "wait_graph \<Rightarrow> string list" where
  "all_txs s = js_keys (wg_edges s) @ map we_holdingTxId (getActiveWaitEdges s)"

definition detectDeadlock :: "wait_graph \<Rightarrow> (string list \<times> string) option option" where
  "detectDeadlock s =
     map_option (map_option (\<lambda>cycle. (cycle, select_victim s cycle)))
       (search_roots (length (all_txs s) + 1) s (js_keys (wg_edges s))
          \<lparr>ds_visited = [], ds_recStack = [], ds_pathStack = []\<rparr>)"

section \<open>Cycles\<close>

definition waits_for :: "wait_graph \<Rightarrow> (string \<times> string) set" where
  "waits_for s = {(a, b). b \<in> we_holdingTxId ` set (edges_from s a)}"

definition is_cycle :: "('a \<times> 'a) set \<Rightarrow> 'a list \<Rightarrow> bool" where
  "is_cycle E c \<longleftrightarrow> c \<noteq> [] \<and> successively (\<lambda>a b. (a, b) \<in> E) c \<and> (last c, hd c) \<in> E"

lemma successively_trancl:
  "successively (\<lambda>a b. (a, b) \<in> E) (x # xs) \<Longrightarrow> (x, last (x # xs)) \<in> E\<^sup>*"
  by (induction xs arbitrary: x) (auto intro: converse_rtrancl_into_rtrancl)

lemma cycle_not_acyclic: "is_cycle E c \<Longrightarrow> \<not> acyclic E"
proof -
  assume c: "is_cycle E c"
  then obtain x xs where xs: "c = x # xs" by (cases c) (auto simp: is_cycle_def)
  then have "(x, last c) \<in> E\<^sup>*" using c successively_trancl by (force simp: is_cycle_def)
  then have "(x, x) \<in> E\<^sup>+" using c xs by (auto simp: is_cycle_def intro: rtrancl_into_trancl1)
  then show ?thesis by (auto simp: acyclic_def)
qed

lemma slice_cycle:
  assumes "successively (\<lambda>a b. (a, b) \<in> E) path" and "t \<in> set path" and "(last path, t) \<in> E"
  shows "is_cycle E (slice_from t path)"
proof -
  obtain xs ys where path: "path = xs @ t # ys" and "t \<notin> set xs" using assms(2) by (meson split_list_first)
  then have "slice_from t path = t # ys" unfolding slice_from_def
    by (subst path) (auto simp: dropWhile_append3 intro: dropWhile_append2 [THEN trans])
  then show ?thesis using assms path by (auto simp: is_cycle_def successively_append_iff)
qed

section \<open>The search is correct\<close>

definition search_inv :: "wait_graph \<Rightarrow> dfs_sets \<Rightarrow> bool" where
  "search_inv s st \<longleftrightarrow> distinct (ds_pathStack st) \<and> set (ds_recStack st) = set (ds_pathStack st) \<and>
     set (ds_pathStack st) \<subseteq> set (ds_visited st) \<and>
     set (ds_visited st) - set (ds_pathStack st) \<subseteq> Wellfounded.acc ((waits_for s)\<inverse>) \<and>
     successively (\<lambda>a b. (a, b) \<in> waits_for s) (ds_pathStack st)"

definition search_post :: "wait_graph \<Rightarrow> string list \<Rightarrow> dfs_sets \<Rightarrow> (dfs_sets \<times> string list option) option \<Rightarrow> bool" where
  "search_post s ts st res \<longleftrightarrow>
     (case res of
        None \<Rightarrow> False
      | Some (st', Some cycle) \<Rightarrow> is_cycle (waits_for s) cycle
      | Some (st', None) \<Rightarrow> search_inv s st' \<and> ds_pathStack st' = ds_pathStack st \<and>
          set (ds_visited st) \<subseteq> set (ds_visited st') \<and> set ts \<subseteq> set (ds_visited st') - set (ds_pathStack st))"

lemma search_edges_post:
  assumes "search_inv s st" and "ds_pathStack st \<noteq> []"
    and "\<And>t. t \<in> set ts \<Longrightarrow> (last (ds_pathStack st), t) \<in> waits_for s"
    and "\<And>t st'. t \<in> set ts \<Longrightarrow> t \<notin> set (ds_visited st') \<Longrightarrow> search_inv s st' \<Longrightarrow>
      ds_pathStack st' = ds_pathStack st \<Longrightarrow> set (ds_visited st) \<subseteq> set (ds_visited st') \<Longrightarrow>
      search_post s [t] st' (f t st')"
  shows "search_post s ts st (search_edges f ts st)"
  using assms
proof (induction ts arbitrary: st)
  case Nil
  then show ?case by (simp add: search_post_def)
next
  case (Cons t ts)
  have IH: "search_post s ts st1 (search_edges f ts st1)"
    if st1: "search_inv s st1" "ds_pathStack st1 = ds_pathStack st" "set (ds_visited st) \<subseteq> set (ds_visited st1)" for st1
  proof (rule Cons.IH)
    show "search_inv s st1" by (rule st1)
    show "ds_pathStack st1 \<noteq> []" using Cons.prems(2) st1 by simp
    show "(last (ds_pathStack st1), u) \<in> waits_for s" if "u \<in> set ts" for u using that Cons.prems(3) st1 by simp
    show "search_post s [u] st' (f u st')"
      if "u \<in> set ts" "u \<notin> set (ds_visited st')" "search_inv s st'" "ds_pathStack st' = ds_pathStack st1"
        "set (ds_visited st1) \<subseteq> set (ds_visited st')" for u st'
      using that st1 by (intro Cons.prems(4)) auto
  qed
  show ?case
  proof (cases "t \<in> set (ds_visited st)")
    case False
    have post: "search_post s [t] st (f t st)" using False Cons.prems by (intro Cons.prems(4)) auto
    then obtain st1 r where r: "f t st = Some (st1, r)" by (auto simp: search_post_def split: option.splits)
    show ?thesis
    proof (cases r)
      case (Some c)
      then show ?thesis using post r False by (simp add: search_post_def)
    next
      case None
      then have st1: "search_inv s st1" "ds_pathStack st1 = ds_pathStack st"
          "set (ds_visited st) \<subseteq> set (ds_visited st1)" "t \<in> set (ds_visited st1) - set (ds_pathStack st)"
        using post r by (simp_all add: search_post_def)
      show ?thesis using IH [OF st1(1-3)] st1 r None False
        by (auto simp: search_post_def split: option.splits)
    qed
  next
    case True
    show ?thesis
    proof (cases "t \<in> set (ds_pathStack st)")
      case on_path: True
      have "is_cycle (waits_for s) (slice_from t (ds_pathStack st))"
        using Cons.prems on_path by (intro slice_cycle) (auto simp: search_inv_def)
      then show ?thesis using True on_path Cons.prems(1) by (simp add: search_post_def search_inv_def)
    next
      case False
      then show ?thesis using IH [OF Cons.prems(1) refl subset_refl] True
        by (auto simp: search_post_def split: option.splits)
    qed
  qed
qed

lemma findCycleDfs_post:
  assumes closed: "\<And>a b. (a, b) \<in> waits_for s \<Longrightarrow> b \<in> N" and fin: "finite N"
  shows "search_inv s st \<Longrightarrow> t \<in> N \<Longrightarrow> t \<notin> set (ds_visited st) \<Longrightarrow>
     (ds_pathStack st \<noteq> [] \<Longrightarrow> (last (ds_pathStack st), t) \<in> waits_for s) \<Longrightarrow>
     card (N - set (ds_visited st)) < fuel \<Longrightarrow> search_post s [t] st (findCycleDfs fuel s t st)"
proof (induction fuel arbitrary: t st)
  case 0
  then show ?case by simp
next
  case (Suc fuel)
  let ?st = "\<lparr>ds_visited = t # ds_visited st, ds_recStack = t # ds_recStack st, ds_pathStack = ds_pathStack st @ [t]\<rparr>"
  let ?ts = "map we_holdingTxId (edges_from s t)"
  have t_path: "t \<notin> set (ds_pathStack st)" using Suc.prems(1,3) by (auto simp: search_inv_def)
  have succ: "(t, u) \<in> waits_for s \<longleftrightarrow> u \<in> set ?ts" for u by (simp add: waits_for_def)
  have inv: "search_inv s ?st"
    using Suc.prems(1,4) t_path by (auto simp: search_inv_def successively_append_iff)
  have card: "card (N - set (ds_visited ?st)) < fuel"
  proof -
    have "N - set (ds_visited ?st) = (N - set (ds_visited st)) - {t}" by auto
    then show ?thesis using card_remove_less [of "N - set (ds_visited st)" t fuel] Suc.prems fin by simp
  qed
  have post: "search_post s ?ts ?st (search_edges (findCycleDfs fuel s) ?ts ?st)"
  proof (rule search_edges_post [OF inv])
    show "ds_pathStack ?st \<noteq> []" by simp
    show "(last (ds_pathStack ?st), u) \<in> waits_for s" if "u \<in> set ?ts" for u using that succ by simp
    show "search_post s [u] st' (findCycleDfs fuel s u st')"
      if "u \<in> set ?ts" "u \<notin> set (ds_visited st')" "search_inv s st'" "ds_pathStack st' = ds_pathStack ?st"
        "set (ds_visited ?st) \<subseteq> set (ds_visited st')" for u st'
    proof (rule Suc.IH)
      show "u \<in> N" using closed succ that(1) by blast
      show "(last (ds_pathStack st'), u) \<in> waits_for s" using that succ by simp
      have "card (N - set (ds_visited st')) \<le> card (N - set (ds_visited ?st))"
        using that(5) fin by (intro card_mono) auto
      then show "card (N - set (ds_visited st')) < fuel" using card by simp
    qed (use that in auto)
  qed
  then obtain st1 r where r: "search_edges (findCycleDfs fuel s) ?ts ?st = Some (st1, r)"
    by (auto simp: search_post_def split: option.splits)
  show ?case
  proof (cases r)
    case (Some c)
    then show ?thesis using post r by (simp add: search_post_def)
  next
    case None
    then have st1: "search_inv s st1" "ds_pathStack st1 = ds_pathStack st @ [t]"
        "insert t (set (ds_visited st)) \<subseteq> set (ds_visited st1)"
        "set ?ts \<subseteq> set (ds_visited st1) - set (ds_pathStack st @ [t])"
      using post r by (simp_all add: search_post_def)
    have "t \<in> Wellfounded.acc ((waits_for s)\<inverse>)"
    proof (rule accI)
      fix u assume "(u, t) \<in> (waits_for s)\<inverse>"
      then have "u \<in> set ?ts" using succ by simp
      then have "u \<in> set (ds_visited st1) - set (ds_pathStack st1)" using st1(2,4) by auto
      then show "u \<in> Wellfounded.acc ((waits_for s)\<inverse>)" using st1(1) unfolding search_inv_def by blast
    qed
    then have "search_inv s (st1\<lparr>ds_pathStack := butlast (ds_pathStack st1), ds_recStack := removeAll t (ds_recStack st1)\<rparr>)"
      using st1 t_path by (auto simp: search_inv_def successively_append_iff)
    then show ?thesis using r None st1 t_path by (auto simp: search_post_def)
  qed
qed


lemma waits_for_txs: "(a, b) \<in> waits_for s \<Longrightarrow> a \<in> set (js_keys (wg_edges s)) \<and> b \<in> set (all_txs s)"
proof -
  assume "(a, b) \<in> waits_for s"
  then obtain es where es: "js_get (wg_edges s) a = Some es" "b \<in> we_holdingTxId ` set es"
    by (cases "js_get (wg_edges s) a") (auto simp: waits_for_def edges_from_def)
  then have "(a, es) \<in> set (wg_edges s)" by (blast dest: map_of_SomeD)
  then show ?thesis using es(2) by (force simp: all_txs_def getActiveWaitEdges_def)
qed

lemma search_roots_post:
  assumes "search_inv s st" and "ds_pathStack st = []" and "set ts \<subseteq> set (all_txs s)"
  shows "\<exists>r. search_roots (length (all_txs s) + 1) s ts st = Some r \<and>
     (case r of Some c \<Rightarrow> is_cycle (waits_for s) c
      | None \<Rightarrow> set ts \<subseteq> Wellfounded.acc ((waits_for s)\<inverse>))"
  using assms
proof (induction ts arbitrary: st)
  case Nil
  then show ?case by auto
next
  case (Cons t ts)
  have visited: "set (ds_visited st') \<subseteq> Wellfounded.acc ((waits_for s)\<inverse>)"
    if "search_inv s st'" "ds_pathStack st' = []" for st' using that by (simp add: search_inv_def)
  show ?case
  proof (cases "t \<in> set (ds_visited st)")
    case True
    obtain r where r: "search_roots (length (all_txs s) + 1) s ts st = Some r"
      "case r of Some c \<Rightarrow> is_cycle (waits_for s) c
       | None \<Rightarrow> set ts \<subseteq> Wellfounded.acc ((waits_for s)\<inverse>)"
      using Cons by auto
    have "t \<in> Wellfounded.acc ((waits_for s)\<inverse>)" using True visited Cons.prems by blast
    then show ?thesis using r True by (cases r) auto
  next
    case False
    have "card (set (all_txs s) - set (ds_visited st)) \<le> card (set (all_txs s))" by (intro card_mono) auto
    then have "card (set (all_txs s) - set (ds_visited st)) < length (all_txs s) + 1"
      using card_length [of "all_txs s"] by simp
    then have "search_post s [t] st (findCycleDfs (length (all_txs s) + 1) s t st)"
      using Cons.prems False waits_for_txs by (intro findCycleDfs_post [where N = "set (all_txs s)"]) auto
    then obtain st1 r where r: "findCycleDfs (length (all_txs s) + 1) s t st = Some (st1, r)"
      and post: "search_post s [t] st (Some (st1, r))"
      by (auto simp: search_post_def simp del: findCycleDfs.simps split: option.splits)
    show ?thesis
    proof (cases r)
      case (Some c)
      then show ?thesis using r post False by (simp add: search_post_def del: findCycleDfs.simps)
    next
      case None
      then have st1: "search_inv s st1" "ds_pathStack st1 = []" "t \<in> set (ds_visited st1)"
        using post Cons.prems(2) by (simp_all add: search_post_def)
      obtain r' where r': "search_roots (length (all_txs s) + 1) s ts st1 = Some r'"
        "case r' of Some c \<Rightarrow> is_cycle (waits_for s) c
         | None \<Rightarrow> set ts \<subseteq> Wellfounded.acc ((waits_for s)\<inverse>)"
        using Cons.IH [OF st1(1,2)] Cons.prems(3) by auto
      have "t \<in> Wellfounded.acc ((waits_for s)\<inverse>)" using visited [OF st1(1,2)] st1(3) by blast
      then show ?thesis using r r' None False by (cases r') (auto simp del: findCycleDfs.simps)
    qed
  qed
qed

lemma later_start_fold:
  assumes "set ts \<subseteq> C" and "fst acc \<in> C"
  shows "fst (fold (later_start s) ts acc) \<in> C \<and> snd acc \<le> snd (fold (later_start s) ts acc) \<and>
     (\<forall>t \<in> set ts. int (start_time s t) \<le> snd (fold (later_start s) ts acc)) \<and>
     (ts = [] \<or> 0 \<le> snd acc \<longrightarrow> snd acc = int (start_time s (fst acc)) \<longrightarrow>
        snd (fold (later_start s) ts acc) = int (start_time s (fst (fold (later_start s) ts acc))))"
  using assms
proof (induction ts arbitrary: acc)
  case Nil
  then show ?case by simp
next
  case (Cons t ts)
  have "fst (later_start s t acc) \<in> C" "snd acc \<le> snd (later_start s t acc)"
    "int (start_time s t) \<le> snd (later_start s t acc)"
    using Cons.prems by (auto simp: later_start_def)
  moreover have "0 \<le> snd acc \<Longrightarrow> snd acc = int (start_time s (fst acc)) \<Longrightarrow>
      0 \<le> snd (later_start s t acc) \<and> snd (later_start s t acc) = int (start_time s (fst (later_start s t acc)))"
    by (auto simp: later_start_def)
  ultimately show ?case using Cons.IH [of "later_start s t acc"] Cons.prems(1) by fastforce
qed

lemma select_victim_correct:
  assumes "cycle \<noteq> []"
  shows "select_victim s cycle \<in> set cycle \<and> list_all (\<lambda>t. start_time s t \<le> start_time s (select_victim s cycle)) cycle"
proof -
  obtain t ts where c: "cycle = t # ts" using assms by (cases cycle) auto
  have first: "later_start s t (t, -1) = (t, int (start_time s t))" by (simp add: later_start_def)
  have sub: "set ts \<subseteq> set cycle" using c by auto
  show ?thesis
    using later_start_fold [OF sub, of "(t, int (start_time s t))" s]
    by (auto simp: select_victim_def c first list_all_iff)
qed

section \<open>The graph as the operations change it\<close>

inductive wg_step :: "wait_graph \<Rightarrow> wait_graph \<Rightarrow> bool" where
  wg_add: "wg_step s (addWaitFor a b k t1 t2 t3 s)"
| wg_remove: "wg_step s (removeWaitFor a b k s)"
| wg_removeTx: "wg_step s (removeTx t s)"

definition wg_inv :: "wait_graph \<Rightarrow> bool" where
  "wg_inv s \<longleftrightarrow> js_wf (wg_edges s) \<and> (\<forall>a. (a, a) \<notin> waits_for s)"

lemma edges_from_set [simp]:
  "edges_from (s\<lparr>wg_edges := js_set (wg_edges s) a es\<rparr>) b = (if b = a then es else edges_from s b)"
  "edges_from (s\<lparr>wg_edges := js_del (wg_edges s) a\<rparr>) b = (if b = a then [] else edges_from s b)"
  "edges_from (s\<lparr>wg_txStartTimes := m\<rparr>) b = edges_from s b"
  by (simp_all add: edges_from_def)

lemma waits_for_add:
  "waits_for (addWaitFor a b k t1 t2 t3 s) = (if a = b then waits_for s else insert (a, b) (waits_for s))"
proof -
  have "edges_from (addWaitFor a b k t1 t2 t3 s) x =
      (if a \<noteq> b \<and> x = a \<and> \<not> list_ex (\<lambda>e. we_holdingTxId e = b \<and> we_resourceKey e = k) (edges_from s a)
       then edges_from s a @ [\<lparr>we_waitingTxId = a, we_holdingTxId = b, we_resourceKey = k, we_timestamp = t3\<rparr>]
       else edges_from s x)" for x
    by (auto simp: addWaitFor_def Let_def edges_from_def)
  then show ?thesis by (auto simp: waits_for_def list_ex_iff split: if_splits)
qed

lemma waits_for_remove: "waits_for (removeWaitFor a b k s) \<subseteq> waits_for s"
proof -
  have "set (edges_from (removeWaitFor a b k s) x) \<subseteq> set (edges_from s x)" for x
    by (auto simp: removeWaitFor_def Let_def edges_from_def split: option.splits if_splits)
  then show ?thesis by (auto simp: waits_for_def)
qed

lemma get_without_holder:
  "js_get (without_holder t e m) x =
     (if x = fst e then let es' = filter (\<lambda>e. we_holdingTxId e \<noteq> t) (snd e) in if es' = [] then None else Some es'
      else js_get m x)"
  by (simp add: without_holder_def Let_def)

lemma fold_without_holder:
  assumes "js_wf l"
  shows "js_get (fold (without_holder t) l m) x =
     (case js_get l x of None \<Rightarrow> js_get m x
      | Some es \<Rightarrow> let es' = filter (\<lambda>e. we_holdingTxId e \<noteq> t) es in if es' = [] then None else Some es')"
  using assms
proof (induction l arbitrary: m)
  case (Cons e l)
  have none: "js_get l (fst e) = None" using Cons.prems by (simp add: map_of_eq_None_iff)
  have "js_get (fold (without_holder t) (e # l) m) x =
      (case js_get l x of None \<Rightarrow> js_get (without_holder t e m) x
       | Some es \<Rightarrow> let es' = filter (\<lambda>e. we_holdingTxId e \<noteq> t) es in if es' = [] then None else Some es')"
    using Cons.IH Cons.prems by simp
  then show ?case using none by (cases e) (auto simp: get_without_holder simp del: fold_simps split: option.split)
qed simp

lemma fold_without_holder_wf: "js_wf m \<Longrightarrow> js_wf (fold (without_holder t) l m)"
  by (induction l arbitrary: m) (simp_all add: without_holder_def Let_def)

lemma edges_from_removeTx:
  assumes "js_wf (wg_edges s)"
  shows "edges_from (removeTx t s) x = (if x = t then [] else filter (\<lambda>e. we_holdingTxId e \<noteq> t) (edges_from s x))"
proof -
  have "js_wf (js_del (wg_edges s) t)" using assms by simp
  from fold_without_holder [OF this] show ?thesis
    by (auto simp: edges_from_def removeTx_def Let_def split: option.split)
qed

lemma waits_for_removeTx:
  "js_wf (wg_edges s) \<Longrightarrow> waits_for (removeTx t s) = {(a, b) \<in> waits_for s. a \<noteq> t \<and> b \<noteq> t}"
  by (auto simp: waits_for_def edges_from_removeTx split: if_splits)

lemma wg_inv_step: "wg_inv s \<Longrightarrow> wg_step s t \<Longrightarrow> wg_inv t"
proof (erule wg_step.cases)
  assume inv: "wg_inv s"
  have remove: "js_wf (wg_edges (removeWaitFor a b k s)) \<and> (c, c) \<notin> waits_for (removeWaitFor a b k s)" for a b k c
    using inv waits_for_remove [of a b k s]
    by (auto simp: wg_inv_def) (auto simp: removeWaitFor_def Let_def split: option.split)
  show "\<And>s' a b k t1 t2 t3. s = s' \<Longrightarrow> t = addWaitFor a b k t1 t2 t3 s' \<Longrightarrow> wg_inv t"
    using inv by (simp add: wg_inv_def waits_for_add) (auto simp: addWaitFor_def Let_def)
  show "\<And>s' a b k. s = s' \<Longrightarrow> t = removeWaitFor a b k s' \<Longrightarrow> wg_inv t"
    using remove by (auto simp: wg_inv_def)
  show "\<And>s' x. s = s' \<Longrightarrow> t = removeTx x s' \<Longrightarrow> wg_inv t"
    using inv by (auto simp: wg_inv_def waits_for_removeTx)
      (simp add: removeTx_def Let_def fold_without_holder_wf)
qed

interpretation waits: transition_system "\<lambda>s. s = new_wait_graph" wg_step wg_inv
proof unfold_locales
  show "wg_inv s" if "s = new_wait_graph" for s
    using that by (simp add: wg_inv_def new_wait_graph_def waits_for_def edges_from_def)
qed (rule wg_inv_step)

section \<open>What the detector guarantees\<close>

text \<open>C34. The search returns for every graph and decides: it reports no deadlock exactly when no
  transaction waits for itself through others, and else a genuine cycle of waits with a victim on the
  cycle, one of those that started latest.\<close>

theorem detectDeadlock_correct:
  "\<exists>res. detectDeadlock s = Some res \<and> (res = None \<longleftrightarrow> acyclic (waits_for s)) \<and>
     (case res of None \<Rightarrow> True
      | Some (cycle, victim) \<Rightarrow> is_cycle (waits_for s) cycle \<and> victim \<in> set cycle \<and>
          list_all (\<lambda>t. start_time s t \<le> start_time s victim) cycle)"
proof -
  let ?st = "\<lparr>ds_visited = [], ds_recStack = [], ds_pathStack = []\<rparr>"
  have "search_inv s ?st" by (simp add: search_inv_def)
  then obtain r where r: "search_roots (length (all_txs s) + 1) s (js_keys (wg_edges s)) ?st = Some r"
    "case r of Some c \<Rightarrow> is_cycle (waits_for s) c
     | None \<Rightarrow> set (js_keys (wg_edges s)) \<subseteq> Wellfounded.acc ((waits_for s)\<inverse>)"
    using search_roots_post [of s ?st "js_keys (wg_edges s)"] by (auto simp: all_txs_def)
  show ?thesis
  proof (cases r)
    case (Some c)
    then have c: "is_cycle (waits_for s) c" using r by simp
    then have "c \<noteq> []" by (simp add: is_cycle_def)
    then show ?thesis
      using r Some c cycle_not_acyclic [OF c] select_victim_correct [of c s] by (simp add: detectDeadlock_def)
  next
    case None
    have "acyclic (waits_for s)"
      unfolding acyclic_def
    proof (intro allI notI)
      fix x assume cyc: "(x, x) \<in> (waits_for s)\<^sup>+"
      then obtain y where "(x, y) \<in> waits_for s" by (auto dest: tranclD)
      then have "x \<in> set (js_keys (wg_edges s))" using waits_for_txs by blast
      moreover have "set (js_keys (wg_edges s)) \<subseteq> Wellfounded.acc ((waits_for s)\<inverse>)"
        using r(2) unfolding None option.case .
      ultimately have "x \<in> Wellfounded.acc ((waits_for s)\<inverse>)" by blast
      from acc_no_cycle [OF this] cyc show False by contradiction
    qed
    then show ?thesis using r None by (simp add: detectDeadlock_def)
  qed
qed

text \<open>Aborting a transaction takes exactly its waits out of the graph, those for it and its own; no
  operation ever makes a transaction wait for itself directly.\<close>

theorem removeTx_cuts:
  assumes "reach (\<lambda>s. s = new_wait_graph) wg_step s"
  shows "waits_for (removeTx t s) = {(a, b) \<in> waits_for s. a \<noteq> t \<and> b \<noteq> t} \<and> (a, a) \<notin> waits_for s"
  using waits.reach_inv [OF assms] waits_for_removeTx [of s t] by (simp add: wg_inv_def)

definition sample_waits :: wait_graph where
  "sample_waits = addWaitFor ''t2'' ''t1'' ''y'' 3 4 5 (addWaitFor ''t1'' ''t2'' ''x'' 1 2 3 new_wait_graph)"

theorem removeTx_cuts_witness:
  "map_option fst (the (detectDeadlock sample_waits)) = Some [''t1'', ''t2''] \<and>
   (''t1'', ''t2'') \<notin> waits_for (removeTx ''t2'' sample_waits)"
proof -
  have "reach (\<lambda>s. s = new_wait_graph) wg_step new_wait_graph" by (rule reach_init) simp
  then have "reach (\<lambda>s. s = new_wait_graph) wg_step (addWaitFor ''t1'' ''t2'' ''x'' 1 2 3 new_wait_graph)"
    by (rule reach_step) (rule wg_add)
  then have "reach (\<lambda>s. s = new_wait_graph) wg_step sample_waits"
    unfolding sample_waits_def by (rule reach_step) (rule wg_add)
  note removeTx_cuts [OF this, of "''t2''" "''t1''"]
  moreover have "map_option fst (the (detectDeadlock sample_waits)) = Some [''t1'', ''t2'']" by code_simp
  ultimately show ?thesis by auto
qed

end
