(* ===== verification/Mvcc_Engine.thy ===== *)
theory Mvcc_Engine
  imports Prelude
begin

text \<open>
  The multi-version engine of BroccoliDB, \<^verbatim>\<open>BroccoliMvccEngine\<close> of
  \<^verbatim>\<open>src/sessions/extensions/substrate/broccolidb-mvcc-engine.ts\<close>: transactions, version chains from
  newest to oldest, reads by visibility, rollback and vacuum. The record data is a type parameter.
\<close>

declare map_of_eq_Some_iff [simp del] Some_eq_map_of_iff [simp del]

section \<open>State\<close>

datatype isolation_level = Snapshot_isolation | Read_committed

datatype tx_status = Tx_active | Tx_committed | Tx_rolled_back

record mvcc_tx =
  mt_txId :: nat
  mt_startedAt :: int
  mt_isolationLevel :: isolation_level
  mt_status :: tx_status
  mt_writtenRecords :: "(string \<times> string) list"

record 'd version =
  v_recordId :: string
  v_txId :: nat
  v_deletedTxId :: "nat option"
  v_createdAt :: int
  v_isDeleted :: bool
  v_data :: "'d option"

type_synonym 'd chains = "(string, (string, 'd version list) jsmap) jsmap"

record 'd mvcc =
  mv_currentTxSeq :: nat
  mv_transactions :: "(nat, mvcc_tx) jsmap"
  mv_versionChains :: "'d chains"

definition new_mvcc :: "'d mvcc" where
  "new_mvcc = \<lparr>mv_currentTxSeq = 0, mv_transactions = [], mv_versionChains = []\<rparr>"

definition table_map :: "'d mvcc \<Rightarrow> string \<Rightarrow> (string, 'd version list) jsmap" where
  "table_map s table = (case js_get (mv_versionChains s) table of None \<Rightarrow> [] | Some m \<Rightarrow> m)"

definition chain_of :: "'d mvcc \<Rightarrow> string \<Rightarrow> string \<Rightarrow> 'd version list" where
  "chain_of s table rid = (case js_get (table_map s table) rid of None \<Rightarrow> [] | Some c \<Rightarrow> c)"

section \<open>Transactions\<close>

definition beginTransaction :: "isolation_level \<Rightarrow> int \<Rightarrow> 'd mvcc \<Rightarrow> 'd mvcc \<times> mvcc_tx" where
  "beginTransaction level now s =
     (let txId = Suc (mv_currentTxSeq s);
          tx = \<lparr>mt_txId = txId, mt_startedAt = now, mt_isolationLevel = level, mt_status = Tx_active,
                mt_writtenRecords = []\<rparr>
      in (s\<lparr>mv_currentTxSeq := txId, mv_transactions := js_set (mv_transactions s) txId tx\<rparr>, tx))"

definition active_tx :: "'d mvcc \<Rightarrow> nat \<Rightarrow> mvcc_tx option" where
  "active_tx s txId =
     (case js_get (mv_transactions s) txId of
        None \<Rightarrow> None | Some tx \<Rightarrow> if mt_status tx \<noteq> Tx_active then None else Some tx)"

definition commitTransaction :: "nat \<Rightarrow> 'd mvcc \<Rightarrow> 'd mvcc \<times> bool" where
  "commitTransaction txId s =
     (case active_tx s txId of
        None \<Rightarrow> (s, False)
      | Some tx \<Rightarrow> (s\<lparr>mv_transactions := js_set (mv_transactions s) txId (tx\<lparr>mt_status := Tx_committed\<rparr>)\<rparr>, True))"

text \<open>One written record of a rollback: the versions of the transaction leave its chain.\<close>

definition unwrite :: "nat \<Rightarrow> string \<times> string \<Rightarrow> 'd chains \<Rightarrow> 'd chains" where
  "unwrite txId item cs =
     (case js_get cs (fst item) of
        None \<Rightarrow> cs
      | Some m \<Rightarrow>
          (case js_get m (snd item) of
             None \<Rightarrow> cs
           | Some chain \<Rightarrow>
               let filtered = filter (\<lambda>v. v_txId v \<noteq> txId) chain in
               js_set cs (fst item)
                 (if filtered = [] then js_del m (snd item) else js_set m (snd item) filtered)))"

definition rollbackTransaction :: "nat \<Rightarrow> 'd mvcc \<Rightarrow> 'd mvcc \<times> bool" where
  "rollbackTransaction txId s =
     (case active_tx s txId of
        None \<Rightarrow> (s, False)
      | Some tx \<Rightarrow>
          (s\<lparr>mv_transactions := js_set (mv_transactions s) txId (tx\<lparr>mt_status := Tx_rolled_back\<rparr>),
             mv_versionChains := fold (unwrite txId) (mt_writtenRecords tx) (mv_versionChains s)\<rparr>, True))"

section \<open>Reads and writes\<close>

definition isTxCommitted :: "'d mvcc \<Rightarrow> nat \<Rightarrow> bool" where
  "isTxCommitted s txId =
     (case js_get (mv_transactions s) txId of None \<Rightarrow> True | Some tx \<Rightarrow> mt_status tx = Tx_committed)"

definition deleted_for :: "'d mvcc \<Rightarrow> nat \<Rightarrow> 'd version \<Rightarrow> bool" where
  "deleted_for s txId v \<longleftrightarrow>
     v_deletedTxId v = Some txId \<or>
     (case v_deletedTxId v of None \<Rightarrow> False | Some d \<Rightarrow> isTxCommitted s d \<and> d \<le> txId)"

fun read_chain :: "'d mvcc \<Rightarrow> nat \<Rightarrow> 'd version list \<Rightarrow> 'd option" where
  "read_chain s txId [] = None"
| "read_chain s txId (v # vs) =
     (if v_txId v = txId then (if v_isDeleted v then None else v_data v)
      else if isTxCommitted s (v_txId v) \<and> v_txId v \<le> txId then
        (if deleted_for s txId v then None else if v_isDeleted v then None else v_data v)
      else read_chain s txId vs)"

definition readRecord :: "string \<Rightarrow> string \<Rightarrow> nat \<Rightarrow> 'd mvcc \<Rightarrow> 'd option" where
  "readRecord table rid txId s = read_chain s txId (chain_of s table rid)"

text \<open>\<^verbatim>\<open>if (chain.length > 0 && !chain[0].deletedTxId) chain[0].deletedTxId = txId\<close>\<close>

fun mark_head :: "nat \<Rightarrow> 'd version list \<Rightarrow> 'd version list" where
  "mark_head txId [] = []"
| "mark_head txId (v # vs) =
     (if v_deletedTxId v = None \<or> v_deletedTxId v = Some 0 then v\<lparr>v_deletedTxId := Some txId\<rparr> else v) # vs"

definition push_version :: "string \<Rightarrow> 'd version \<Rightarrow> mvcc_tx \<Rightarrow> 'd mvcc \<Rightarrow> 'd mvcc" where
  "push_version table v tx s =
     (let m = table_map s table; txId = v_txId v; rid = v_recordId v in
      s\<lparr>mv_versionChains := js_set (mv_versionChains s) table
          (js_set m rid (v # mark_head txId (chain_of s table rid))),
        mv_transactions := js_set (mv_transactions s) txId
          (tx\<lparr>mt_writtenRecords := mt_writtenRecords tx @ [(table, rid)]\<rparr>)\<rparr>)"

text \<open>A write or delete in a transaction that is not active raises: \<open>None\<close>.\<close>

definition writeRecord :: "string \<Rightarrow> string \<Rightarrow> 'd \<Rightarrow> nat \<Rightarrow> int \<Rightarrow> 'd mvcc \<Rightarrow> 'd mvcc option" where
  "writeRecord table rid data txId now s =
     (case active_tx s txId of
        None \<Rightarrow> None
      | Some tx \<Rightarrow>
          Some (push_version table
            \<lparr>v_recordId = rid, v_txId = txId, v_deletedTxId = None, v_createdAt = now, v_isDeleted = False,
             v_data = Some data\<rparr> tx s))"

definition deleteRecord :: "string \<Rightarrow> string \<Rightarrow> nat \<Rightarrow> int \<Rightarrow> 'd mvcc \<Rightarrow> 'd mvcc option" where
  "deleteRecord table rid txId now s =
     (case active_tx s txId of
        None \<Rightarrow> None
      | Some tx \<Rightarrow>
          if chain_of s table rid = [] then Some s
          else Some (push_version table
            \<lparr>v_recordId = rid, v_txId = txId, v_deletedTxId = None, v_createdAt = now, v_isDeleted = True,
             v_data = None\<rparr> tx s))"

section \<open>Vacuum\<close>

definition getActiveTransactions :: "'d mvcc \<Rightarrow> mvcc_tx list" where
  "getActiveTransactions s = filter (\<lambda>t. mt_status t = Tx_active) (js_values (mv_transactions s))"

definition getOldestActiveTxId :: "'d mvcc \<Rightarrow> nat option" where
  "getOldestActiveTxId s =
     fold (\<lambda>tx m. if mt_status tx = Tx_active then
              (case m of None \<Rightarrow> Some (mt_txId tx) | Some i \<Rightarrow> if mt_txId tx < i then Some (mt_txId tx) else Some i)
            else m) (js_values (mv_transactions s)) None"

definition vacuumed :: "nat \<Rightarrow> 'd version \<Rightarrow> bool" where
  "vacuumed threshold v \<longleftrightarrow>
     (case v_deletedTxId v of None \<Rightarrow> False | Some d \<Rightarrow> d \<le> threshold) \<or> (v_isDeleted v \<and> v_txId v \<le> threshold)"

definition vacuum_table :: "nat \<Rightarrow> (string, 'd version list) jsmap \<Rightarrow> (string, 'd version list) jsmap" where
  "vacuum_table threshold m =
     concat (map (\<lambda>(rid, chain).
       let retained = filter (\<lambda>v. \<not> vacuumed threshold v) chain in
       if list_all v_isDeleted retained then [] else [(rid, retained)]) m)"

definition vacuum_threshold :: "nat option \<Rightarrow> 'd mvcc \<Rightarrow> nat" where
  "vacuum_threshold minActiveTxId s =
     (case minActiveTxId of Some n \<Rightarrow> n
      | None \<Rightarrow> (case getOldestActiveTxId s of Some n \<Rightarrow> n | None \<Rightarrow> mv_currentTxSeq s + 1))"

definition vacuum :: "nat option \<Rightarrow> 'd mvcc \<Rightarrow> 'd mvcc \<times> nat" where
  "vacuum minActiveTxId s =
     (let threshold = vacuum_threshold minActiveTxId s
      in (s\<lparr>mv_versionChains := map (\<lambda>(table, m). (table, vacuum_table threshold m)) (mv_versionChains s)\<rparr>,
          length (filter (vacuumed threshold) (concat (concat (map (js_values \<circ> snd) (mv_versionChains s)))))))"

inductive mvcc_step :: "'d mvcc \<Rightarrow> 'd mvcc \<Rightarrow> bool" where
  mvcc_begin: "mvcc_step s (fst (beginTransaction level now s))"
| mvcc_commit: "mvcc_step s (fst (commitTransaction txId s))"
| mvcc_rollback: "mvcc_step s (fst (rollbackTransaction txId s))"
| mvcc_write: "writeRecord table rid data txId now s = Some t \<Longrightarrow> mvcc_step s t"
| mvcc_delete: "deleteRecord table rid txId now s = Some t \<Longrightarrow> mvcc_step s t"
| mvcc_vacuum: "mvcc_step s (fst (vacuum minActiveTxId s))"

section \<open>The invariant\<close>

text \<open>Every version belongs to a known transaction that lists its record and was not rolled back.\<close>

definition version_ok :: "'d mvcc \<Rightarrow> string \<Rightarrow> string \<Rightarrow> 'd version \<Rightarrow> bool" where
  "version_ok s table rid v \<longleftrightarrow>
     (\<exists>tx. js_get (mv_transactions s) (v_txId v) = Some tx \<and> mt_status tx \<noteq> Tx_rolled_back \<and>
        (table, rid) \<in> set (mt_writtenRecords tx))"

definition mvcc_inv :: "'d mvcc \<Rightarrow> bool" where
  "mvcc_inv s \<longleftrightarrow> js_wf (mv_transactions s) \<and> js_wf (mv_versionChains s) \<and>
     (\<forall>table. js_wf (table_map s table)) \<and>
     (\<forall>i tx. js_get (mv_transactions s) i = Some tx \<longrightarrow> mt_txId tx = i \<and> 1 \<le> i \<and> i \<le> mv_currentTxSeq s) \<and>
     (\<forall>table rid. \<forall>v \<in> set (chain_of s table rid). version_ok s table rid v)"

lemma active_txD: "active_tx s i = Some tx \<Longrightarrow> js_get (mv_transactions s) i = Some tx \<and> mt_status tx = Tx_active"
  by (auto simp: active_tx_def split: option.splits if_splits)

lemma table_map_set [simp]:
  "table_map (s\<lparr>mv_versionChains := js_set (mv_versionChains s) t m\<rparr>) t' = (if t' = t then m else table_map s t')"
  "table_map (s\<lparr>mv_transactions := txs\<rparr>) t' = table_map s t'"
  "table_map (s\<lparr>mv_currentTxSeq := n\<rparr>) t' = table_map s t'"
  by (simp_all add: table_map_def)

lemma chain_of_simps [simp]:
  "chain_of (s\<lparr>mv_transactions := txs\<rparr>) t r = chain_of s t r"
  "chain_of (s\<lparr>mv_currentTxSeq := n\<rparr>) t r = chain_of s t r"
  by (simp_all add: chain_of_def)

lemma set_mark_head: "v \<in> set (mark_head i vs) \<Longrightarrow> \<exists>w \<in> set vs. v_txId v = v_txId w"
  by (cases vs) (auto split: if_splits)

lemma chain_of_push:
  "chain_of (push_version table v tx s) t r =
     (if t = table \<and> r = v_recordId v then v # mark_head (v_txId v) (chain_of s table r) else chain_of s t r)"
  by (simp add: push_version_def Let_def chain_of_def table_map_def)

lemma tx_push:
  "mv_transactions (push_version table v tx s) =
     js_set (mv_transactions s) (v_txId v) (tx\<lparr>mt_writtenRecords := mt_writtenRecords tx @ [(table, v_recordId v)]\<rparr>)"
  by (simp add: push_version_def Let_def)

lemma mvcc_inv_push:
  assumes inv: "mvcc_inv s" and tx: "active_tx s (v_txId v) = Some tx"
  shows "mvcc_inv (push_version table v tx s)"
proof -
  let ?t = "push_version table v tx s"
  have old: "js_get (mv_transactions s) (v_txId v) = Some tx" "mt_status tx = Tx_active"
    using active_txD [OF tx] by simp_all
  have keep: "version_ok ?t t r w" if "version_ok s t r w" for t r w
    using that old by (auto simp: version_ok_def tx_push)
  have new: "version_ok ?t table (v_recordId v) v" using old by (simp add: version_ok_def tx_push)
  have "version_ok ?t t r w" if w: "w \<in> set (chain_of ?t t r)" for t r w
  proof (cases "t = table \<and> r = v_recordId v")
    case False
    then show ?thesis using w inv keep by (auto simp: chain_of_push mvcc_inv_def split: if_splits)
  next
    case True
    then consider "w = v" | u where "u \<in> set (chain_of s table r)" "v_txId w = v_txId u"
      using w set_mark_head by (fastforce simp: chain_of_push)
    then show ?thesis
    proof cases
      case 1
      then show ?thesis using new True by simp
    next
      case 2
      then have "version_ok s table r u" using inv by (simp add: mvcc_inv_def)
      then have "version_ok s table r w" using 2 by (simp add: version_ok_def)
      then show ?thesis using keep True by simp
    qed
  qed
  moreover have "js_wf (mv_versionChains ?t)" "js_wf (table_map ?t t)" for t
    using inv by (auto simp: mvcc_inv_def push_version_def Let_def)
  moreover have "js_wf (mv_transactions ?t)" using inv by (simp add: mvcc_inv_def tx_push)
  moreover have "mt_txId tx' = i \<and> 1 \<le> i \<and> i \<le> mv_currentTxSeq ?t" if "js_get (mv_transactions ?t) i = Some tx'" for i tx'
    using that inv old by (auto simp: mvcc_inv_def tx_push split: if_splits) (auto simp: push_version_def Let_def)
  ultimately show ?thesis by (simp add: mvcc_inv_def)
qed

text \<open>The chains after a rollback.\<close>

definition chain_in :: "'d chains \<Rightarrow> string \<Rightarrow> string \<Rightarrow> 'd version list" where
  "chain_in cs t r = (case js_get cs t of None \<Rightarrow> [] | Some m \<Rightarrow> (case js_get m r of None \<Rightarrow> [] | Some c \<Rightarrow> c))"

lemma chain_of_in: "chain_of s t r = chain_in (mv_versionChains s) t r"
  by (simp add: chain_of_def chain_in_def table_map_def split: option.split)

definition chains_wf :: "'d chains \<Rightarrow> bool" where
  "chains_wf cs \<longleftrightarrow> js_wf cs \<and> (\<forall>t m. js_get cs t = Some m \<longrightarrow> js_wf m)"

lemma chains_wf_unwrite: "chains_wf cs \<Longrightarrow> chains_wf (unwrite i item cs)"
  by (auto simp: chains_wf_def unwrite_def Let_def split: option.split)

lemma chain_in_unwrite:
  "chain_in (unwrite i item cs) t r =
     (if (t, r) = item then filter (\<lambda>v. v_txId v \<noteq> i) (chain_in cs t r) else chain_in cs t r)"
  by (cases item) (auto simp: unwrite_def chain_in_def Let_def split: option.split)

lemma chain_in_unwrites:
  "chain_in (fold (unwrite i) items cs) t r =
     (if (t, r) \<in> set items then filter (\<lambda>v. v_txId v \<noteq> i) (chain_in cs t r) else chain_in cs t r)"
  by (induction items arbitrary: cs) (auto simp: chain_in_unwrite)

lemma chains_wf_unwrites: "chains_wf cs \<Longrightarrow> chains_wf (fold (unwrite i) items cs)"
  by (induction items arbitrary: cs) (simp_all add: chains_wf_unwrite)

lemma mvcc_wf_iff: "js_wf (mv_versionChains s) \<and> (\<forall>t. js_wf (table_map s t)) \<longleftrightarrow> chains_wf (mv_versionChains s)"
proof -
  have "(\<forall>t. js_wf (table_map s t)) \<longleftrightarrow> (\<forall>t m. js_get (mv_versionChains s) t = Some m \<longrightarrow> js_wf m)"
    by (auto simp: table_map_def split: option.split)
  then show ?thesis by (simp add: chains_wf_def)
qed

lemma mvcc_invI:
  assumes "js_wf (mv_transactions s)" and "chains_wf (mv_versionChains s)"
    and "\<And>i tx. js_get (mv_transactions s) i = Some tx \<Longrightarrow> mt_txId tx = i \<and> 1 \<le> i \<and> i \<le> mv_currentTxSeq s"
    and "\<And>t r v. v \<in> set (chain_in (mv_versionChains s) t r) \<Longrightarrow> version_ok s t r v"
  shows "mvcc_inv s"
  using assms mvcc_wf_iff [of s] by (auto simp: mvcc_inv_def chain_of_in)

lemma mvcc_inv_rollback: assumes "mvcc_inv s" shows "mvcc_inv (fst (rollbackTransaction i s))"
proof (cases "active_tx s i")
  case None
  then show ?thesis using assms by (simp add: rollbackTransaction_def)
next
  case (Some tx)
  note tx = active_txD [OF Some]
  let ?t = "fst (rollbackTransaction i s)"
  have t: "mv_transactions ?t = js_set (mv_transactions s) i (tx\<lparr>mt_status := Tx_rolled_back\<rparr>)"
    "mv_versionChains ?t = fold (unwrite i) (mt_writtenRecords tx) (mv_versionChains s)"
    "mv_currentTxSeq ?t = mv_currentTxSeq s"
    using Some by (simp_all add: rollbackTransaction_def)
  show ?thesis
  proof (rule mvcc_invI)
    show "js_wf (mv_transactions ?t)" using assms t by (simp add: mvcc_inv_def)
    show "chains_wf (mv_versionChains ?t)"
      using assms mvcc_wf_iff [of s] t(2) by (auto simp: mvcc_inv_def intro: chains_wf_unwrites)
    show "mt_txId tx' = j \<and> 1 \<le> j \<and> j \<le> mv_currentTxSeq ?t" if "js_get (mv_transactions ?t) j = Some tx'" for j tx'
      using that assms tx by (auto simp: mvcc_inv_def t split: if_splits)
    fix tb r v assume v: "v \<in> set (chain_in (mv_versionChains ?t) tb r)"
    then have old: "v \<in> set (chain_of s tb r)" by (auto simp: t chain_in_unwrites chain_of_in split: if_splits)
    then have ok: "version_ok s tb r v" using assms by (simp add: mvcc_inv_def)
    have "v_txId v \<noteq> i"
    proof
      assume i: "v_txId v = i"
      then have "(tb, r) \<in> set (mt_writtenRecords tx)" using ok tx by (simp add: version_ok_def)
      then show False using v i by (simp add: t chain_in_unwrites)
    qed
    then show "version_ok ?t tb r v" using ok by (simp add: version_ok_def t)
  qed
qed

lemma vacuum_table_simps [simp]:
  "vacuum_table n [] = []"
  "vacuum_table n ((a, c) # m) =
     (let c' = filter (\<lambda>v. \<not> vacuumed n v) c in
      if list_all v_isDeleted c' then vacuum_table n m else (a, c') # vacuum_table n m)"
  by (simp_all add: vacuum_table_def Let_def)

lemma vacuum_table_get:
  "js_wf m \<Longrightarrow> js_get (vacuum_table n m) r =
     (case js_get m r of None \<Rightarrow> None
      | Some c \<Rightarrow> let c' = filter (\<lambda>v. \<not> vacuumed n v) c in if list_all v_isDeleted c' then None else Some c')"
proof (induction m)
  case (Cons e m)
  obtain a c where e: "e = (a, c)" by (cases e)
  have none: "js_get m a = None" using Cons.prems e by (simp add: map_of_eq_None_iff)
  show ?case using Cons none by (auto simp: e Let_def)
qed simp

lemma vacuum_table_wf: "js_wf m \<Longrightarrow> js_wf (vacuum_table n m) \<and> set (js_keys (vacuum_table n m)) \<subseteq> set (js_keys m)"
proof (induction m)
  case (Cons e m)
  then show ?case by (cases e) (auto simp: Let_def)
qed simp

lemma mvcc_inv_vacuum: assumes "mvcc_inv s" shows "mvcc_inv (fst (vacuum x s))"
proof -
  have wf: "chains_wf (mv_versionChains s)" using assms mvcc_wf_iff [of s] by (simp add: mvcc_inv_def)
  define n where "n = vacuum_threshold x s"
  have t: "mv_versionChains (fst (vacuum x s)) = map (\<lambda>(k, m). (k, vacuum_table n m)) (mv_versionChains s)"
    "mv_transactions (fst (vacuum x s)) = mv_transactions s" "mv_currentTxSeq (fst (vacuum x s)) = mv_currentTxSeq s"
    by (simp_all add: vacuum_def Let_def n_def)
  have get: "js_get (mv_versionChains (fst (vacuum x s))) k = map_option (vacuum_table n) (js_get (mv_versionChains s) k)" for k
    unfolding t using js_get_map_values [of "\<lambda>_. vacuum_table n" "mv_versionChains s" k] by simp
  show ?thesis
  proof (rule mvcc_invI)
    show "js_wf (mv_transactions (fst (vacuum x s)))" using assms by (simp add: mvcc_inv_def t)
    have "js_wf (mv_versionChains (fst (vacuum x s)))"
      using wf by (simp add: t chains_wf_def comp_def case_prod_unfold)
    then show "chains_wf (mv_versionChains (fst (vacuum x s)))"
      using wf vacuum_table_wf by (auto simp: chains_wf_def get)
    show "mt_txId tx = i \<and> 1 \<le> i \<and> i \<le> mv_currentTxSeq (fst (vacuum x s))"
      if "js_get (mv_transactions (fst (vacuum x s))) i = Some tx" for i tx
      using that assms by (simp add: mvcc_inv_def t)
    fix tb r v assume v: "v \<in> set (chain_in (mv_versionChains (fst (vacuum x s))) tb r)"
    obtain m where m: "js_get (mv_versionChains s) tb = Some m"
      using v by (cases "js_get (mv_versionChains s) tb") (simp_all add: chain_in_def get)
    then have "js_wf m" using wf by (simp add: chains_wf_def)
    then have "v \<in> set (chain_of s tb r)" using v m
      by (auto simp: chain_in_def get vacuum_table_get chain_of_in Let_def split: option.splits if_splits)
    then show "version_ok (fst (vacuum x s)) tb r v" using assms by (simp add: mvcc_inv_def version_ok_def t)
  qed
qed

lemma mvcc_inv_begin: assumes "mvcc_inv s" shows "mvcc_inv (fst (beginTransaction level now s))"
proof -
  have fresh: "js_get (mv_transactions s) (Suc (mv_currentTxSeq s)) = None"
    using assms unfolding mvcc_inv_def by (meson Suc_n_not_le_n not_Some_eq)
  then have keep: "version_ok s t r v \<Longrightarrow> version_ok (fst (beginTransaction level now s)) t r v" for t r v
    by (auto simp: version_ok_def beginTransaction_def Let_def)
  show ?thesis using assms keep
    by (auto simp: mvcc_inv_def) (auto simp: beginTransaction_def Let_def split: if_splits intro: le_SucI)
qed

lemma mvcc_inv_commit: assumes "mvcc_inv s" shows "mvcc_inv (fst (commitTransaction i s))"
proof (cases "active_tx s i")
  case None
  then show ?thesis using assms by (simp add: commitTransaction_def)
next
  case (Some tx)
  note tx = active_txD [OF Some]
  have keep: "version_ok s t r v \<Longrightarrow> version_ok (fst (commitTransaction i s)) t r v" for t r v
    using Some tx by (auto simp: version_ok_def commitTransaction_def)
  show ?thesis using assms keep Some tx
    by (auto simp: mvcc_inv_def) (auto simp: commitTransaction_def split: if_splits)
qed

lemma mvcc_inv_step: "mvcc_inv s \<Longrightarrow> mvcc_step s t \<Longrightarrow> mvcc_inv t"
proof (erule mvcc_step.cases)
  assume inv: "mvcc_inv s"
  show "\<And>s' table rid data i now u. s = s' \<Longrightarrow> t = u \<Longrightarrow> writeRecord table rid data i now s' = Some u \<Longrightarrow> mvcc_inv t"
    using inv by (auto simp: writeRecord_def intro!: mvcc_inv_push split: option.splits)
  show "\<And>s' table rid i now u. s = s' \<Longrightarrow> t = u \<Longrightarrow> deleteRecord table rid i now s' = Some u \<Longrightarrow> mvcc_inv t"
    using inv by (auto simp: deleteRecord_def intro!: mvcc_inv_push split: option.splits if_splits)
qed (simp_all add: mvcc_inv_begin mvcc_inv_commit mvcc_inv_rollback mvcc_inv_vacuum)

interpretation mvcc: transition_system "\<lambda>s. s = new_mvcc" mvcc_step mvcc_inv
proof unfold_locales
  show "mvcc_inv s" if "s = new_mvcc" for s :: "'a mvcc"
    using that by (simp add: new_mvcc_def mvcc_inv_def table_map_def chain_of_def)
qed (rule mvcc_inv_step)


section \<open>What the engine guarantees, and what it does not\<close>

lemma read_chain_visible:
  "read_chain s i vs = Some d \<Longrightarrow> \<exists>v \<in> set vs. v_data v = Some d \<and> \<not> v_isDeleted v \<and>
     (v_txId v = i \<or> (isTxCommitted s (v_txId v) \<and> v_txId v \<le> i))"
  by (induction vs) (auto split: if_splits)

text \<open>C35. No dirty reads: a transaction reads its own writes, or data of a transaction that has committed
  and is not younger; data of active or rolled-back transactions is never seen.\<close>

theorem reads_are_committed:
  assumes "reach (\<lambda>s. s = new_mvcc) mvcc_step s" and "readRecord table rid i s = Some d"
  shows "\<exists>v tx. v \<in> set (chain_of s table rid) \<and> v_data v = Some d \<and> \<not> v_isDeleted v \<and>
     js_get (mv_transactions s) (v_txId v) = Some tx \<and> (table, rid) \<in> set (mt_writtenRecords tx) \<and>
     (if v_txId v = i then mt_status tx \<noteq> Tx_rolled_back else mt_status tx = Tx_committed \<and> v_txId v < i)"
proof -
  have inv: "mvcc_inv s" by (rule mvcc.reach_inv [OF assms(1)])
  obtain v where v: "v \<in> set (chain_of s table rid)" "v_data v = Some d" "\<not> v_isDeleted v"
      "v_txId v = i \<or> (isTxCommitted s (v_txId v) \<and> v_txId v \<le> i)"
    using read_chain_visible [of s i "chain_of s table rid" d] assms(2) by (auto simp: readRecord_def)
  then have "version_ok s table rid v" using inv by (simp add: mvcc_inv_def)
  then show ?thesis using v by (fastforce simp: version_ok_def isTxCommitted_def)
qed

text \<open>Transaction 1 writes and commits; transactions 2 and 3 are open, and 2 has written.\<close>

definition sample_mvcc :: "nat mvcc" where
  "sample_mvcc =
     the (writeRecord ''t'' ''r'' 20 2 5
       (fst (beginTransaction Snapshot_isolation 4 (fst (beginTransaction Snapshot_isolation 3
         (fst (commitTransaction 1 (the (writeRecord ''t'' ''r'' 10 1 2
           (fst (beginTransaction Snapshot_isolation 1 new_mvcc)))))))))))"

lemma sample_mvcc_reach: "reach (\<lambda>s. s = new_mvcc) mvcc_step sample_mvcc"
proof -
  let ?s1 = "fst (beginTransaction Snapshot_isolation 1 new_mvcc) :: nat mvcc"
  let ?s2 = "the (writeRecord ''t'' ''r'' 10 1 2 ?s1)"
  let ?s3 = "fst (beginTransaction Snapshot_isolation 4 (fst (beginTransaction Snapshot_isolation 3 (fst (commitTransaction 1 ?s2)))))"
  have w: "writeRecord a b c i n s = Some (the (writeRecord a b c i n s))" if "active_tx s i \<noteq> None"
    for a b and c :: nat and i n s
    using that by (auto simp: writeRecord_def)
  have "reach (\<lambda>s. s = new_mvcc) mvcc_step (new_mvcc :: nat mvcc)" by (rule reach_init) simp
  then have "reach (\<lambda>s. s = new_mvcc) mvcc_step ?s1" by (rule reach_step) (rule mvcc_begin)
  moreover have "active_tx ?s1 1 \<noteq> None" by code_simp
  ultimately have "reach (\<lambda>s. s = new_mvcc) mvcc_step ?s2" by (blast intro: reach_step mvcc_write w)
  then have "reach (\<lambda>s. s = new_mvcc) mvcc_step (fst (commitTransaction 1 ?s2))"
    by (rule reach_step) (rule mvcc_commit)
  then have "reach (\<lambda>s. s = new_mvcc) mvcc_step
      (fst (beginTransaction Snapshot_isolation 3 (fst (commitTransaction 1 ?s2))))"
    by (rule reach_step) (rule mvcc_begin)
  then have "reach (\<lambda>s. s = new_mvcc) mvcc_step ?s3" by (rule reach_step) (rule mvcc_begin)
  moreover have "active_tx ?s3 2 \<noteq> None" by code_simp
  ultimately show ?thesis unfolding sample_mvcc_def by (blast intro: reach_step mvcc_write w)
qed

theorem reads_are_committed_witness:
  "readRecord ''t'' ''r'' 3 sample_mvcc = Some 10 \<and>
   (\<exists>v tx. v \<in> set (chain_of sample_mvcc ''t'' ''r'') \<and> v_data v = Some 10 \<and>
      js_get (mv_transactions sample_mvcc) (v_txId v) = Some tx)"
proof -
  have r: "readRecord ''t'' ''r'' 3 sample_mvcc = Some 10" by code_simp
  from reads_are_committed [OF sample_mvcc_reach r] show ?thesis using r by blast
qed

text \<open>A rollback leaves nothing behind: no version of the transaction remains in any chain, the other
  versions are untouched, and the transaction is no longer active.\<close>

theorem rollback_erases:
  assumes "reach (\<lambda>s. s = new_mvcc) mvcc_step s" and "active_tx s i = Some tx"
  shows "chain_of (fst (rollbackTransaction i s)) table rid = filter (\<lambda>v. v_txId v \<noteq> i) (chain_of s table rid) \<and>
     snd (rollbackTransaction i s) \<and> active_tx (fst (rollbackTransaction i s)) i = None"
proof -
  have inv: "mvcc_inv s" by (rule mvcc.reach_inv [OF assms(1)])
  note tx = active_txD [OF assms(2)]
  have "v_txId v \<noteq> i" if "v \<in> set (chain_of s table rid)" "(table, rid) \<notin> set (mt_writtenRecords tx)" for v
    using that inv tx by (fastforce simp: mvcc_inv_def version_ok_def)
  then have "(table, rid) \<notin> set (mt_writtenRecords tx) \<Longrightarrow>
      filter (\<lambda>v. v_txId v \<noteq> i) (chain_of s table rid) = chain_of s table rid"
    by (auto simp: filter_id_conv)
  then show ?thesis using assms(2)
    by (auto simp: rollbackTransaction_def chain_of_in chain_in_unwrites active_tx_def)
qed

theorem rollback_erases_witness:
  "map v_txId (chain_of (fst (rollbackTransaction 2 sample_mvcc)) ''t'' ''r'') = [1] \<and>
   map v_txId (chain_of sample_mvcc ''t'' ''r'') = [2, 1]"
proof -
  have "active_tx sample_mvcc 2 \<noteq> None" by code_simp
  then obtain tx where tx: "active_tx sample_mvcc 2 = Some tx" by (auto simp only: not_None_eq)
  have "map v_txId (chain_of sample_mvcc ''t'' ''r'') = [2, 1]" by code_simp
  moreover have "map v_txId (filter (\<lambda>v. v_txId v \<noteq> 2) (chain_of sample_mvcc ''t'' ''r'')) = [1]" by code_simp
  ultimately show ?thesis
    using rollback_erases [OF sample_mvcc_reach tx, of "''t''" "''r''"] by simp
qed

text \<open>
  The snapshot is not fixed when a transaction begins: transaction 3 reads 10, transaction 2 commits,
  and transaction 3 then reads 20, under \<^verbatim>\<open>SNAPSHOT_ISOLATION\<close>.
\<close>

lemma snapshot_reads_move:
  "readRecord ''t'' ''r'' 3 sample_mvcc = Some 10 \<and>
   readRecord ''t'' ''r'' 3 (fst (commitTransaction 2 sample_mvcc)) = Some 20"
  by code_simp

text \<open>
  A rolled-back overwrite leaves its mark on the version it overwrote, and the vacuum takes the mark for
  a deletion: the committed value 10 is lost.
\<close>

lemma vacuum_loses_committed_data:
  "readRecord ''t'' ''r'' 3 (fst (rollbackTransaction 2 sample_mvcc)) = Some 10 \<and>
   readRecord ''t'' ''r'' 3 (fst (vacuum None (fst (rollbackTransaction 2 sample_mvcc)))) = None"
  by code_simp

end
