(* ===== verification/Raft_Consensus.thy ===== *)
theory Raft_Consensus
  imports Prelude
begin

text \<open>
  One node of the Raft engine of BroccoliDB, \<^verbatim>\<open>BroccoliRaftConsensusEngine\<close> of
  \<^verbatim>\<open>src/sessions/extensions/substrate/broccolidb-raft-consensus.ts\<close>: its handlers of votes and log
  replication, proposals and elections. Messages from other nodes may be anything. The command of an entry stands for its \<^verbatim>\<open>command\<close> and
  \<^verbatim>\<open>payload\<close>. Array positions that
  hold nothing read as \<open>None\<close>.
\<close>

section \<open>State\<close>

datatype raft_role = Follower | Candidate | Raft_leader

record 'c raft_entry =
  re_index :: nat
  re_term :: nat
  re_command :: 'c
  re_timestamp :: int

record 'c raft =
  rf_nodeId :: string
  rf_role :: raft_role
  rf_currentTerm :: nat
  rf_votedFor :: "string option"
  rf_leaderId :: "string option"
  rf_commitIndex :: nat
  rf_log :: "'c raft_entry list"
  rf_clusterNodes :: "string list"

record vote_request =
  vr_term :: nat
  vr_candidateId :: string
  vr_lastLogIndex :: nat
  vr_lastLogTerm :: nat

record vote_response =
  vp_term :: nat
  vp_voteGranted :: bool

record 'c append_request =
  ar_term :: nat
  ar_leaderId :: string
  ar_prevLogIndex :: nat
  ar_prevLogTerm :: nat
  ar_entries :: "'c raft_entry list"
  ar_leaderCommit :: nat

record append_response =
  ap_term :: nat
  ap_success :: bool
  ap_matchIndex :: nat

definition new_raft :: "string \<Rightarrow> string list \<Rightarrow> 'c raft" where
  "new_raft nodeId clusterNodes =
     \<lparr>rf_nodeId = nodeId, rf_role = Follower, rf_currentTerm = 0, rf_votedFor = None, rf_leaderId = None,
      rf_commitIndex = 0, rf_log = [], rf_clusterNodes = (if clusterNodes \<noteq> [] then clusterNodes else [nodeId])\<rparr>"

text \<open>\<^verbatim>\<open>this.log[i - 1]\<close>\<close>

definition log_at :: "'c raft_entry list \<Rightarrow> nat \<Rightarrow> 'c raft_entry option" where
  "log_at log i = (if 1 \<le> i \<and> i \<le> length log then Some (log ! (i - 1)) else None)"

section \<open>Votes\<close>

definition last_term :: "'c raft_entry list \<Rightarrow> nat" where
  "last_term log = (if log = [] then 0 else re_term (last log))"

definition last_index :: "'c raft_entry list \<Rightarrow> nat" where
  "last_index log = (if log = [] then 0 else re_index (last log))"

definition step_down :: "nat \<Rightarrow> 'c raft \<Rightarrow> 'c raft" where
  "step_down t s =
     (if t > rf_currentTerm s
      then s\<lparr>rf_currentTerm := t, rf_role := Follower, rf_votedFor := None, rf_leaderId := None\<rparr> else s)"

definition log_ok :: "vote_request \<Rightarrow> 'c raft \<Rightarrow> bool" where
  "log_ok r s \<longleftrightarrow> vr_lastLogTerm r > last_term (rf_log s) \<or>
     (vr_lastLogTerm r = last_term (rf_log s) \<and> vr_lastLogIndex r \<ge> last_index (rf_log s))"

definition requestVote :: "vote_request \<Rightarrow> 'c raft \<Rightarrow> 'c raft \<times> vote_response" where
  "requestVote r s =
     (if vr_term r < rf_currentTerm s then (s, \<lparr>vp_term = rf_currentTerm s, vp_voteGranted = False\<rparr>)
      else
        let t = step_down (vr_term r) s;
            canVote = (rf_votedFor t = None \<or> rf_votedFor t = Some (vr_candidateId r))
        in if canVote \<and> log_ok r t
           then (t\<lparr>rf_votedFor := Some (vr_candidateId r)\<rparr>, \<lparr>vp_term = rf_currentTerm t, vp_voteGranted = True\<rparr>)
           else (t, \<lparr>vp_term = rf_currentTerm t, vp_voteGranted = False\<rparr>))"

section \<open>Replication\<close>

fun append_log :: "'c raft_entry list \<Rightarrow> 'c raft_entry list \<Rightarrow> 'c raft_entry list" where
  "append_log [] log = log"
| "append_log (e # es) log =
     append_log es
       (case log_at log (re_index e) of
          Some existing \<Rightarrow> if re_term existing \<noteq> re_term e then take (re_index e - 1) log @ [e] else log
        | None \<Rightarrow> log @ [e])"

definition log_matches :: "'c append_request \<Rightarrow> 'c raft_entry list \<Rightarrow> bool" where
  "log_matches r log \<longleftrightarrow> \<not> ar_prevLogIndex r > 0 \<or>
     (case log_at log (ar_prevLogIndex r) of None \<Rightarrow> False | Some e \<Rightarrow> re_term e = ar_prevLogTerm r)"

definition appendEntries :: "'c append_request \<Rightarrow> 'c raft \<Rightarrow> 'c raft \<times> append_response" where
  "appendEntries r s =
     (if ar_term r < rf_currentTerm s then (s, \<lparr>ap_term = rf_currentTerm s, ap_success = False, ap_matchIndex = 0\<rparr>)
      else
        let t = s\<lparr>rf_currentTerm := ar_term r, rf_role := Follower, rf_leaderId := Some (ar_leaderId r)\<rparr>
        in if \<not> log_matches r (rf_log t)
           then (t, \<lparr>ap_term = rf_currentTerm t, ap_success = False, ap_matchIndex = length (rf_log t)\<rparr>)
           else
             let log = append_log (ar_entries r) (rf_log t)
             in (t\<lparr>rf_log := log,
                   rf_commitIndex := (if ar_leaderCommit r > rf_commitIndex t
                     then min (ar_leaderCommit r) (length log) else rf_commitIndex t)\<rparr>,
                 \<lparr>ap_term = rf_currentTerm t, ap_success = True, ap_matchIndex = length log\<rparr>))"

section \<open>Proposals and elections\<close>

text \<open>A node that is not the leader raises: \<open>None\<close>.\<close>

definition proposeCommand :: "'c \<Rightarrow> int \<Rightarrow> 'c raft \<Rightarrow> ('c raft \<times> 'c raft_entry) option" where
  "proposeCommand command now s =
     (if rf_role s \<noteq> Raft_leader then None
      else
        let index = length (rf_log s) + 1;
            entry = \<lparr>re_index = index, re_term = rf_currentTerm s, re_command = command, re_timestamp = now\<rparr>
        in Some (s\<lparr>rf_log := rf_log s @ [entry],
                   rf_commitIndex := (if length (rf_clusterNodes s) \<le> 1 then index else rf_commitIndex s)\<rparr>, entry))"

definition startElection :: "'c raft \<Rightarrow> 'c raft \<times> bool" where
  "startElection s =
     (let t = s\<lparr>rf_role := Candidate, rf_currentTerm := Suc (rf_currentTerm s),
                rf_votedFor := Some (rf_nodeId s), rf_leaderId := None\<rparr>;
          votes = 1; majority = length (rf_clusterNodes s) div 2 + 1
      in if votes \<ge> majority then (t\<lparr>rf_role := Raft_leader, rf_leaderId := Some (rf_nodeId s)\<rparr>, True)
         else (t, False))"

definition getLogEntries :: "nat \<Rightarrow> 'c raft \<Rightarrow> 'c raft_entry list" where
  "getLogEntries fromIndex s = filter (\<lambda>e. re_index e \<ge> fromIndex) (rf_log s)"

section \<open>Runs of a node\<close>

text \<open>A run with the votes it cast: term and candidate of each, the newest first.\<close>

inductive raft_run :: "'c raft \<Rightarrow> (nat \<times> string) list \<Rightarrow> bool" where
  raft_start: "raft_run (new_raft nodeId nodes) []"
| raft_vote_granted:
    "raft_run s vs \<Longrightarrow> requestVote r s = (t, p) \<Longrightarrow> vp_voteGranted p \<Longrightarrow>
       raft_run t ((vp_term p, vr_candidateId r) # vs)"
| raft_vote_refused: "raft_run s vs \<Longrightarrow> requestVote r s = (t, p) \<Longrightarrow> \<not> vp_voteGranted p \<Longrightarrow> raft_run t vs"
| raft_append: "raft_run s vs \<Longrightarrow> raft_run (fst (appendEntries r s)) vs"
| raft_propose: "raft_run s vs \<Longrightarrow> proposeCommand c now s = Some (t, e) \<Longrightarrow> raft_run t vs"
| raft_elect: "raft_run s vs \<Longrightarrow> raft_run (fst (startElection s)) ((Suc (rf_currentTerm s), rf_nodeId s) # vs)"

inductive_cases raft_run_voteE: "raft_run s (v # vs)"

text \<open>The votes cast so far bind the node: none is for a later term, and the vote of this term is remembered.\<close>

definition votes_bound :: "'c raft \<Rightarrow> (nat \<times> string) list \<Rightarrow> bool" where
  "votes_bound s vs \<longleftrightarrow>
     (\<forall>(t, c) \<in> set vs. t \<le> rf_currentTerm s \<and> (t = rf_currentTerm s \<longrightarrow> rf_votedFor s = Some c)) \<and>
     (\<forall>(t, c) \<in> set vs. \<forall>(t', c') \<in> set vs. t = t' \<longrightarrow> c = c')"

lemma votes_bound_grant:
  assumes "votes_bound s vs" and "requestVote r s = (t, p)" and "vp_voteGranted p"
  shows "votes_bound t ((vp_term p, vr_candidateId r) # vs)"
proof -
  have le: "rf_currentTerm s \<le> vr_term r" using assms(2,3) by (auto simp: requestVote_def split: if_splits)
  define u where "u = step_down (vr_term r) s"
  have u: "t = u\<lparr>rf_votedFor := Some (vr_candidateId r)\<rparr>" "vp_term p = rf_currentTerm u"
    "rf_votedFor u = None \<or> rf_votedFor u = Some (vr_candidateId r)"
    using assms(2,3) le by (auto simp: requestVote_def Let_def u_def split: if_splits)
  have bound: "votes_bound u vs"
    using assms(1) by (fastforce simp: votes_bound_def u_def step_down_def)
  then have "c = vr_candidateId r" if "(rf_currentTerm u, c) \<in> set vs" for c
    using that u(3) by (fastforce simp: votes_bound_def)
  then show ?thesis using bound unfolding votes_bound_def u(1,2) by fastforce
qed

lemma votes_bound_keep:
  "votes_bound s vs \<Longrightarrow> rf_currentTerm s < rf_currentTerm t \<or>
     (rf_currentTerm s = rf_currentTerm t \<and> rf_votedFor s = rf_votedFor t) \<Longrightarrow> votes_bound t vs"
  by (fastforce simp: votes_bound_def)

lemma raft_run_votes: "raft_run s vs \<Longrightarrow> votes_bound s vs"
proof (induction rule: raft_run.induct)
  case (raft_start nodeId nodes)
  show ?case by (simp add: votes_bound_def)
next
  case (raft_vote_granted s vs r t p)
  then show ?case by (intro votes_bound_grant)
next
  case (raft_vote_refused s vs r t p)
  show ?case by (rule votes_bound_keep [OF raft_vote_refused.IH])
     (use raft_vote_refused.hyps in \<open>auto simp: requestVote_def Let_def step_down_def split: if_splits\<close>)
next
  case (raft_append s vs r)
  show ?case by (rule votes_bound_keep [OF raft_append.IH]) (auto simp: appendEntries_def Let_def)
next
  case (raft_propose s vs c now t e)
  show ?case by (rule votes_bound_keep [OF raft_propose.IH])
     (use raft_propose.hyps in \<open>auto simp: proposeCommand_def Let_def split: if_splits\<close>)
next
  case (raft_elect s vs)
  then show ?case by (fastforce simp: votes_bound_def startElection_def Let_def)
qed

section \<open>Replication keeps logs in order\<close>

definition log_indexed :: "'c raft_entry list \<Rightarrow> bool" where
  "log_indexed log \<longleftrightarrow> map re_index log = [1..<Suc (length log)]"

lemma log_indexed_nth: "log_indexed log \<longleftrightarrow> (\<forall>i < length log. re_index (log ! i) = Suc i)"
  unfolding log_indexed_def list_eq_iff_nth_eq [of "map re_index log"] by (simp add: nth_upt del: upt_Suc)

lemma append_log_correct:
  assumes "n \<le> length log" and "map re_index es = [Suc n..<Suc (n + length es)]" and "log_indexed log"
  shows "log_indexed (append_log es log) \<and> n + length es \<le> length (append_log es log) \<and>
     take n (append_log es log) = take n log \<and>
     (\<forall>i < length es. re_term (append_log es log ! (n + i)) = re_term (es ! i))"
  using assms
proof (induction es arbitrary: n log)
  case Nil
  then show ?case by simp
next
  case (Cons e es)
  have idx: "re_index e = Suc n" "map re_index es = [Suc (Suc n)..<Suc (Suc n + length es)]"
    using Cons.prems(2) by (simp_all add: upt_conv_Cons del: upt_Suc)
  define l where "l = (case log_at log (re_index e) of
      Some x \<Rightarrow> if re_term x \<noteq> re_term e then take (re_index e - 1) log @ [e] else log | None \<Rightarrow> log @ [e])"
  have l: "take n l = take n log \<and> Suc n \<le> length l \<and> log_indexed l \<and> re_term (l ! n) = re_term e"
  proof (cases "n < length log")
    case True
    then have "l = (if re_term (log ! n) \<noteq> re_term e then take n log @ [e] else log)"
      by (simp add: l_def log_at_def idx)
    then show ?thesis using True Cons.prems(3) idx(1)
      by (auto simp: log_indexed_nth nth_append min_def less_Suc_eq)
  next
    case False
    then have "l = log @ [e]" "n = length log" using Cons.prems(1) by (simp_all add: l_def log_at_def idx)
    then show ?thesis using Cons.prems(3) idx(1) by (auto simp: log_indexed_nth nth_append less_Suc_eq)
  qed
  have IH: "log_indexed (append_log es l) \<and> Suc n + length es \<le> length (append_log es l) \<and>
     take (Suc n) (append_log es l) = take (Suc n) l \<and>
     (\<forall>i < length es. re_term (append_log es l ! (Suc n + i)) = re_term (es ! i))"
    using l idx(2) by (intro Cons.IH) simp_all
  have eq: "append_log (e # es) log = append_log es l" by (simp add: l_def)
  have "take n (append_log es l) = take n l"
    using arg_cong [OF conjunct1 [OF conjunct2 [OF conjunct2 [OF IH]]], of "take n"] by (simp add: min_def)
  moreover have "append_log es l ! n = l ! n"
    using IH l by (metis lessI nth_take)
  moreover have "re_term (append_log es l ! (n + i)) = re_term ((e # es) ! i)" if "i < Suc (length es)" for i
    using that IH l calculation(2) by (cases i) auto
  ultimately show ?case using IH l unfolding eq by simp
qed

lemma append_log_prefix:
  assumes "n \<le> length log" and "map re_index es = [Suc n..<Suc (n + length es)]"
    and "\<And>i. i < length es \<Longrightarrow> n + i < length log \<Longrightarrow> re_term (log ! (n + i)) = re_term (es ! i)"
  shows "\<exists>tail. append_log es log = log @ tail"
  using assms
proof (induction es arbitrary: n log)
  case Nil
  then show ?case by simp
next
  case (Cons e es)
  have idx: "re_index e = Suc n" "map re_index es = [Suc (Suc n)..<Suc (Suc n + length es)]"
    using Cons.prems(2) by (simp_all add: upt_conv_Cons del: upt_Suc)
  show ?case
  proof (cases "n < length log")
    case True
    then have "append_log (e # es) log = append_log es log"
      using Cons.prems(3) [of 0] by (simp add: log_at_def idx)
    moreover have "\<exists>tail. append_log es log = log @ tail"
    proof (rule Cons.IH [OF _ idx(2)])
      show "Suc n \<le> length log" using True by simp
      show "re_term (log ! (Suc n + i)) = re_term (es ! i)" if "i < length es" "Suc n + i < length log" for i
        using that Cons.prems(3) [of "Suc i"] by simp
    qed
    ultimately show ?thesis by simp
  next
    case False
    then have n: "n = length log" using Cons.prems(1) by simp
    then have "append_log (e # es) log = append_log es (log @ [e])" by (simp add: log_at_def idx)
    moreover have "\<exists>tail. append_log es (log @ [e]) = (log @ [e]) @ tail"
      by (rule Cons.IH [OF _ idx(2)]) (simp_all add: n)
    ultimately obtain tail where "append_log (e # es) log = log @ (e # tail)" by auto
    then show ?thesis by blast
  qed
qed

text \<open>The first entries sent are in the log behind a position, with their terms.\<close>

definition agree :: "nat \<Rightarrow> nat \<Rightarrow> 'c raft_entry list \<Rightarrow> 'c raft_entry list \<Rightarrow> bool" where
  "agree n j es log \<longleftrightarrow> (\<forall>i < j. n + i < length log \<and> re_term (log ! (n + i)) = re_term (es ! i))"

lemma append_log_all:
  "map re_index es = [Suc (length log)..<Suc (length log + length es)] \<Longrightarrow> append_log es log = log @ es"
proof (induction es arbitrary: log)
  case (Cons e es)
  then have "re_index e = Suc (length log)" "map re_index es = [Suc (length (log @ [e]))..<Suc (length (log @ [e]) + length es)]"
    by (simp_all add: upt_conv_Cons del: upt_Suc)
  then show ?case using Cons.IH [of "log @ [e]"] by (simp add: log_at_def)
qed simp

lemma append_log_exact:
  assumes "n \<le> length log" and "map re_index es = [Suc n..<Suc (n + length es)]"
  shows "\<exists>j \<le> length es. agree n j es log \<and>
    (if j = length es then append_log es log = log
     else \<not> agree n (Suc j) es log \<and> append_log es log = take (n + j) log @ drop j es)"
  using assms
proof (induction es arbitrary: n)
  case Nil
  then show ?case by (simp add: agree_def)
next
  case (Cons e es)
  have idx: "re_index e = Suc n" "map re_index es = [Suc (Suc n)..<Suc (Suc n + length es)]"
    using Cons.prems(2) by (simp_all add: upt_conv_Cons del: upt_Suc)
  have shift: "agree n (Suc j) (e # es) log \<longleftrightarrow> agree n 1 (e # es) log \<and> agree (Suc n) j es log" for j
    by (simp add: agree_def All_less_Suc2)
  show ?case
  proof (cases "agree n 1 (e # es) log")
    case True
    then have n: "n < length log" "append_log (e # es) log = append_log es log"
      by (simp_all add: agree_def log_at_def idx)
    then obtain j where j: "j \<le> length es" "agree (Suc n) j es log"
      "if j = length es then append_log es log = log
       else \<not> agree (Suc n) (Suc j) es log \<and> append_log es log = take (Suc n + j) log @ drop j es"
      using Cons.IH [OF _ idx(2)] by (metis Suc_leI)
    have "agree n (Suc j) (e # es) log" using shift [of j] True j(2) by blast
    moreover have "agree n (Suc (Suc j)) (e # es) log \<longleftrightarrow> agree (Suc n) (Suc j) es log" using shift [of "Suc j"] True by blast
    ultimately show ?thesis using j(1,3) n(2) by (intro exI [of _ "Suc j"]) simp
  next
    case False
    let ?l = "take n log @ [e]"
    have "append_log (e # es) log = append_log es ?l"
    proof (cases "n < length log")
      case True
      then have "re_term (log ! n) \<noteq> re_term e" using False by (simp add: agree_def)
      then show ?thesis using True by (simp add: log_at_def idx(1))
    next
      case False
      then show ?thesis using Cons.prems(1) by (simp add: log_at_def idx(1))
    qed
    also have "\<dots> = ?l @ es" by (rule append_log_all) (use Cons.prems(1) idx(2) in \<open>simp add: min_absorb2 del: upt_Suc\<close>)
    finally show ?thesis using False by (intro exI [of _ 0]) (simp add: agree_def)
  qed
qed

lemma append_log_same:
  assumes "\<exists>j \<le> length es. agree n j es log \<and>
    (if j = length es then append_log es log = log
     else \<not> agree n (Suc j) es log \<and> append_log es log = take (n + j) log @ drop j es)"
    and "log_indexed log" and "map re_index es = [Suc n..<Suc (n + length es)]"
    and "n \<le> length log"
  shows "(\<forall>e \<in> set es. \<forall>x \<in> set log. re_index x = re_index e \<longrightarrow> re_term x = re_term e \<longrightarrow> x = e) \<longrightarrow>
    take (length es) (drop n (append_log es log)) = es"
proof
  assume same: "\<forall>e \<in> set es. \<forall>x \<in> set log. re_index x = re_index e \<longrightarrow> re_term x = re_term e \<longrightarrow> x = e"
  obtain j where j: "j \<le> length es" "agree n j es log" "append_log es log = (if j = length es then log else take (n + j) log @ drop j es)"
    using assms(1) by (metis (full_types))
  have "log ! (n + i) = es ! i" if "i < j" for i
  proof -
    have i: "n + i < length log" "re_term (log ! (n + i)) = re_term (es ! i)" using j(2) that by (auto simp: agree_def)
    moreover have "re_index (es ! i) = Suc (n + i)"
      using arg_cong [OF assms(3), of "\<lambda>xs. xs ! i"] that j(1) by (simp del: upt_Suc)
    moreover have "re_index (log ! (n + i)) = Suc (n + i)" using assms(2) i(1) by (simp add: log_indexed_nth)
    ultimately show ?thesis using same that j(1) by (metis nth_mem order_less_le_trans)
  qed
  moreover have len: "n + j \<le> length log" using j(2) assms(4) by (cases j) (auto simp: agree_def)
  ultimately have "take j (drop n log) = take j es"
    using j(1) by (intro nth_equalityI) auto
  then show "take (length es) (drop n (append_log es log)) = es"
    using j(1,3) len append_take_drop_id [of j es] by (auto simp: drop_take split: if_splits)
qed

section \<open>What a node guarantees\<close>

text \<open>C36. One vote per term: whatever messages arrive in whatever order, all votes a node casts in a term,
  its own in elections included, are for one candidate, and the terms of its votes never pass its term.\<close>

theorem one_vote_per_term:
  assumes "raft_run s vs" and "(t, c) \<in> set vs" and "(t, c') \<in> set vs"
  shows "c = c' \<and> t \<le> rf_currentTerm s \<and> (t = rf_currentTerm s \<longrightarrow> rf_votedFor s = Some c)"
  using raft_run_votes [OF assms(1)] assms(2,3) unfolding votes_bound_def by fast

theorem one_vote_per_term_witness:
  "rf_votedFor (fst (startElection (new_raft ''n1'' [''n1'', ''n2'', ''n3''] :: nat raft))) = Some ''n1''"
proof -
  let ?s = "new_raft ''n1'' [''n1'', ''n2'', ''n3''] :: nat raft"
  have run: "raft_run (fst (startElection ?s)) ((Suc (rf_currentTerm ?s), rf_nodeId ?s) # [])"
    by (rule raft_elect [OF raft_start])
  have "rf_currentTerm (fst (startElection ?s)) = 1" "rf_currentTerm ?s = 0" "rf_nodeId ?s = ''n1''" by code_simp+
  then show ?thesis
    using one_vote_per_term [OF run, of 1 "''n1''" "''n1''"] by simp
qed

text \<open>C37. A successful \<^verbatim>\<open>appendEntries\<close>, on a log whose entries are numbered from 1 and with entries sent that are numbered on from the
  previous index: with \<open>j\<close> the number of entries sent before the first that is missing or has another term in the log, the log stays as it is when
  there is none such, and is otherwise cut there and continued by the rest of the entries sent, commands and times included. When entries of
  the same index and term are the same entry, the log then holds the entries sent. The log before them and the numbering are kept; the commit index does not
  move back unless it lay beyond the entries sent. (Nothing in the code refuses a truncation of committed entries.)\<close>

theorem appendEntries_matches:
  assumes "appendEntries r s = (t, p)" and "ap_success p" and "log_indexed (rf_log s)"
    and "map re_index (ar_entries r) = [Suc (ar_prevLogIndex r)..<Suc (ar_prevLogIndex r + length (ar_entries r))]"
  shows "log_indexed (rf_log t) \<and> take (ar_prevLogIndex r) (rf_log t) = take (ar_prevLogIndex r) (rf_log s) \<and>
     (\<exists>j \<le> length (ar_entries r). agree (ar_prevLogIndex r) j (ar_entries r) (rf_log s) \<and>
        (if j = length (ar_entries r) then rf_log t = rf_log s
         else \<not> agree (ar_prevLogIndex r) (Suc j) (ar_entries r) (rf_log s) \<and>
           rf_log t = take (ar_prevLogIndex r + j) (rf_log s) @ drop j (ar_entries r))) \<and>
     map re_term (take (length (ar_entries r)) (drop (ar_prevLogIndex r) (rf_log t))) = map re_term (ar_entries r) \<and>
     ((\<forall>e \<in> set (ar_entries r). \<forall>x \<in> set (rf_log s). re_index x = re_index e \<longrightarrow> re_term x = re_term e \<longrightarrow> x = e) \<longrightarrow>
        take (length (ar_entries r)) (drop (ar_prevLogIndex r) (rf_log t)) = ar_entries r) \<and>
     (rf_commitIndex s \<le> ar_prevLogIndex r + length (ar_entries r) \<longrightarrow> rf_commitIndex s \<le> rf_commitIndex t) \<and>
     ap_matchIndex p = length (rf_log t) \<and> rf_currentTerm t = ar_term r"
proof -
  let ?n = "ar_prevLogIndex r" and ?es = "ar_entries r"
  have le: "?n \<le> length (rf_log s)"
    using assms(1,2) by (auto simp: appendEntries_def Let_def log_matches_def log_at_def split: if_splits option.splits)
  have t: "rf_log t = append_log ?es (rf_log s)" "rf_currentTerm t = ar_term r" "ap_matchIndex p = length (rf_log t)"
    "rf_commitIndex t = (if ar_leaderCommit r > rf_commitIndex s
       then min (ar_leaderCommit r) (length (rf_log t)) else rf_commitIndex s)"
    using assms(1,2) by (auto simp: appendEntries_def Let_def split: if_splits)
  note a = append_log_correct [OF le assms(4,3)]
  note x = append_log_exact [OF le assms(4)]
  have "map re_term (take (length ?es) (drop ?n (rf_log t))) = map re_term ?es"
    using a by (intro nth_equalityI) (auto simp: t(1))
  moreover have "rf_commitIndex s \<le> ?n + length ?es \<longrightarrow> rf_commitIndex s \<le> rf_commitIndex t"
    using a t(1,4) by (auto simp: min_def)
  ultimately show ?thesis using a x append_log_same [OF x assms(3,4) le] t(2,3) unfolding t(1) by blast
qed

text \<open>A follower with entries of term 1 gets, from the leader of term 2, an entry that replaces its second.\<close>

definition sample_follower :: "nat raft" where
  "sample_follower =
     (new_raft ''n1'' [''n1'', ''n2''])
       \<lparr>rf_currentTerm := 1, rf_log := [\<lparr>re_index = 1, re_term = 1, re_command = 5, re_timestamp = 0\<rparr>,
          \<lparr>re_index = 2, re_term = 1, re_command = 6, re_timestamp = 0\<rparr>]\<rparr>"

definition sample_append :: "nat append_request" where
  "sample_append = \<lparr>ar_term = 2, ar_leaderId = ''n2'', ar_prevLogIndex = 1, ar_prevLogTerm = 1,
     ar_entries = [\<lparr>re_index = 2, re_term = 2, re_command = 7, re_timestamp = 1\<rparr>], ar_leaderCommit = 2\<rparr>"

theorem appendEntries_matches_witness:
  "map re_term (take 1 (drop 1 (rf_log (fst (appendEntries sample_append sample_follower))))) = [2] \<and>
   rf_commitIndex sample_follower \<le> rf_commitIndex (fst (appendEntries sample_append sample_follower))"
proof -
  have app: "appendEntries sample_append sample_follower
      = (fst (appendEntries sample_append sample_follower), snd (appendEntries sample_append sample_follower))" by simp
  have ok: "ap_success (snd (appendEntries sample_append sample_follower))" by code_simp
  have ix: "log_indexed (rf_log sample_follower)" unfolding log_indexed_def by code_simp
  have es: "map re_index (ar_entries sample_append) =
      [Suc (ar_prevLogIndex sample_append)..<Suc (ar_prevLogIndex sample_append + length (ar_entries sample_append))]"
    by code_simp
  have vals: "length (ar_entries sample_append) = 1" "ar_prevLogIndex sample_append = 1"
    "map re_term (ar_entries sample_append) = [2]" by code_simp+
  have old: "rf_commitIndex sample_follower \<le> 1 + 1" by code_simp
  show ?thesis using appendEntries_matches [OF app ok ix es] old unfolding vals by blast
qed

text \<open>
  \<^verbatim>\<open>appendEntries\<close> with a later term keeps the vote of the earlier term, so the node then refuses the only
  candidate of the new term although it has not voted in it.
\<close>

lemma append_keeps_stale_vote:
  "let s = fst (startElection (new_raft ''n1'' [''n1'', ''n2'', ''n3''] :: nat raft));
       t = fst (appendEntries \<lparr>ar_term = 5, ar_leaderId = ''n2'', ar_prevLogIndex = 0, ar_prevLogTerm = 0,
              ar_entries = [], ar_leaderCommit = 0\<rparr> s)
   in rf_currentTerm s = 1 \<and> rf_currentTerm t = 5 \<and> rf_votedFor t = Some ''n1'' \<and>
     \<not> vp_voteGranted (snd (requestVote \<lparr>vr_term = 5, vr_candidateId = ''n3'', vr_lastLogIndex = 0, vr_lastLogTerm = 0\<rparr> t))"
  by code_simp

end
