(* ===== verification/Lsm_Store.thy ===== *)
theory Lsm_Store
  imports Prelude "HOL-Library.Multiset" "HOL-Library.List_Lexorder" "HOL-Library.Char_ord"
begin

text \<open>
  The log-structured store of BroccoliDB, \<^verbatim>\<open>BroccoliLsmStore\<close> of
  \<^verbatim>\<open>src/sessions/extensions/substrate/broccolidb-lsm-store.ts\<close>: a table in memory, immutable sorted
  tables with bloom filters, newest first, and compaction level by level.

  \<^item> A value is \<open>'v option\<close>, with \<open>None\<close> for \<^verbatim>\<open>undefined\<close>.
  \<^item> \<open><\<close> on strings is the code unit order, as in the source. \<^verbatim>\<open>a.localeCompare(b)\<close> depends on the locale of
    the host: it is the argument \<open>lc\<close> of the operations that sort and search. \<open>key_order lc K\<close> says that on
    the keys \<open>K\<close> it is the code unit order, as it is for keys of digits; the last section shows what happens
    without.
  \<^item> \<open>js\<close> is the length of \<^verbatim>\<open>JSON.stringify\<close> of the entries, \<open>None\<close> where that throws, as it does for a value that
    is a big integer or refers to itself.
  \<^item> Table identifiers and clock readings are arguments.
\<close>

declare map_of_eq_Some_iff [simp del]
declare Some_eq_map_of_iff [simp del]

unbundle bit_operations_syntax

section \<open>State\<close>

record 'v cell =
  cl_value :: "'v option"
  cl_isTombstone :: bool

record 'v lsm_entry =
  le_key :: string
  le_value :: "'v option"
  le_isTombstone :: bool

record 'v mem_value =
  mm_value :: "'v option"
  mm_isTombstone :: bool
  mm_timestamp :: int

record sstable_meta =
  sm_tableId :: string
  sm_level :: int
  sm_recordCount :: nat
  sm_minKey :: string
  sm_maxKey :: string
  sm_bloomFilterMask :: int
  sm_createdAt :: int
  sm_sizeBytes :: nat

record 'v sstable =
  sst_meta :: sstable_meta
  sst_entries :: "'v lsm_entry list"
  sst_sequence :: nat

record 'v lsm =
  ls_maxMemTableSize :: int
  ls_memTable :: "(string, 'v mem_value) jsmap"
  ls_ssTables :: "'v sstable list"
  ls_nextSequence :: nat

record compaction_stats =
  cs_compactedTablesCount :: nat
  cs_inputRecordsCount :: nat
  cs_outputRecordsCount :: nat
  cs_purgedTombstonesCount :: nat
  cs_durationMs :: int

datatype lsm_error = Key_empty | Bad_table_size | Bad_limit | Bad_range | Bad_level | Json_throws

definition new_lsm :: "int \<Rightarrow> lsm_error + 'v lsm" where
  "new_lsm maxMemTableSize =
     (if \<not> is_safe_integer maxMemTableSize \<or> maxMemTableSize \<le> 0 then Inl Bad_table_size
      else Inr \<lparr>ls_maxMemTableSize = maxMemTableSize, ls_memTable = [], ls_ssTables = [], ls_nextSequence = 1\<rparr>)"

section \<open>Bloom filters\<close>

text \<open>Big integers do not wrap.\<close>

definition hash64 :: "string \<Rightarrow> int" where
  "hash64 str =
     (let h = foldl (\<lambda>h c. (h XOR of_char c) * 1099511628211) 1125899906842597 str
      in if h < 0 then - h else h)"

definition bloom_bit :: "string \<Rightarrow> int" where
  "bloom_bit key = push_bit (nat (hash64 key mod 64)) 1"

definition bloom_of :: "'v lsm_entry list \<Rightarrow> int" where
  "bloom_of es = foldl (\<lambda>mask e. mask OR bloom_bit (le_key e)) 0 es"

lemma bloom_fold_bit:
  "bit (foldl (\<lambda>mask e. mask OR bloom_bit (le_key e)) m es) n \<longleftrightarrow>
     bit m n \<or> (\<exists>e \<in> set es. bit (bloom_bit (le_key e)) n)"
  by (induction es arbitrary: m) (auto simp: bit_or_iff)

text \<open>A bloom filter has no false negatives.\<close>

lemma bloom_no_false_negative:
  assumes "e \<in> set es"
  shows "bloom_of es AND bloom_bit (le_key e) \<noteq> 0"
proof -
  let ?n = "nat (hash64 (le_key e) mod 64)"
  have "bit (bloom_bit (le_key e)) ?n" by (simp add: bloom_bit_def bit_exp_iff)
  then have "bit (bloom_of es AND bloom_bit (le_key e)) ?n"
    using assms by (auto simp: bloom_of_def bit_and_iff bloom_fold_bit)
  then show ?thesis by auto
qed

section \<open>Sorted entries and binary search\<close>

text \<open>\<^verbatim>\<open>Array.sort\<close> with the comparator is stable: an entry goes before the later entries it ties with.\<close>

fun insert_entry :: "(string \<Rightarrow> string \<Rightarrow> int) \<Rightarrow> 'v lsm_entry \<Rightarrow> 'v lsm_entry list \<Rightarrow> 'v lsm_entry list" where
  "insert_entry lc e [] = [e]"
| "insert_entry lc e (x # xs) = (if lc (le_key e) (le_key x) \<le> 0 then e # x # xs else x # insert_entry lc e xs)"

definition sort_entries :: "(string \<Rightarrow> string \<Rightarrow> int) \<Rightarrow> 'v lsm_entry list \<Rightarrow> 'v lsm_entry list" where
  "sort_entries lc es = foldr (insert_entry lc) es []"

function binarySearch ::
  "(string \<Rightarrow> string \<Rightarrow> int) \<Rightarrow> 'v lsm_entry list \<Rightarrow> string \<Rightarrow> int \<Rightarrow> int \<Rightarrow> 'v lsm_entry option" where
  "binarySearch lc entries key low high =
     (if low \<le> high then
        let mid = (low + high) div 2; e = entries ! nat mid; cmp = lc (le_key e) key
        in if cmp = 0 then Some e
           else if cmp < 0 then binarySearch lc entries key (mid + 1) high
           else binarySearch lc entries key low (mid - 1)
      else None)"
  by pat_completeness auto
termination
  by (relation "measure (\<lambda>(lc, entries, key, low, high). nat (high - low + 1))") (simp, auto simp: nat_less_iff)

declare binarySearch.simps [simp del]

definition search_entries ::
  "(string \<Rightarrow> string \<Rightarrow> int) \<Rightarrow> 'v lsm_entry list \<Rightarrow> string \<Rightarrow> 'v lsm_entry option" where
  "search_entries lc entries key = binarySearch lc entries key 0 (int (length entries) - 1)"

text \<open>On the keys \<open>K\<close> the comparator is the code unit order.\<close>

definition key_order :: "(string \<Rightarrow> string \<Rightarrow> int) \<Rightarrow> string set \<Rightarrow> bool" where
  "key_order lc K \<longleftrightarrow> (\<forall>a \<in> K. \<forall>b \<in> K. (lc a b = 0 \<longleftrightarrow> a = b) \<and> (lc a b < 0 \<longleftrightarrow> a < b))"

lemma key_orderD:
  assumes "key_order lc K" "a \<in> K" "b \<in> K"
  shows "lc a b = 0 \<longleftrightarrow> a = b" "lc a b < 0 \<longleftrightarrow> a < b" "lc a b \<le> 0 \<longleftrightarrow> a \<le> b"
  using assms by (auto simp: key_order_def order_le_less)

abbreviation keys_sorted :: "'v lsm_entry list \<Rightarrow> bool" where
  "keys_sorted es \<equiv> sorted_wrt (<) (map le_key es)"

lemma mset_insert_entry: "mset (insert_entry lc e es) = add_mset e (mset es)"
  by (induction es) auto

lemma mset_sort_entries [simp]: "mset (sort_entries lc es) = mset es"
  by (induction es) (simp_all add: sort_entries_def mset_insert_entry)

lemma set_sort_entries [simp]: "set (sort_entries lc es) = set es"
  by (rule mset_eq_setD) simp

lemma length_sort_entries [simp]: "length (sort_entries lc es) = length es"
  by (rule mset_eq_length) simp

lemma sort_entries_Nil_iff [simp]: "sort_entries lc es = [] \<longleftrightarrow> es = []"
  by (metis length_0_conv length_sort_entries)

lemma insert_entry_sorted:
  assumes "key_order lc K" "le_key e \<in> K" "le_key ` set es \<subseteq> K" "keys_sorted es" "le_key e \<notin> le_key ` set es"
  shows "keys_sorted (insert_entry lc e es)"
  using assms(3-5)
proof (induction es)
  case (Cons x xs)
  have set: "set (insert_entry lc e xs) = insert e (set xs)"
    using mset_insert_entry [of lc e xs] by (metis set_mset_add_mset_insert set_mset_mset)
  have x: "le_key x \<in> K" using Cons.prems(1) by simp
  show ?case
  proof (cases "le_key e \<le> le_key x")
    case True
    then have "le_key e < le_key x" using Cons.prems(3) by auto
    then show ?thesis using Cons.prems key_orderD(3) [OF assms(1,2) x] True by (auto intro: less_trans)
  next
    case False
    then show ?thesis
      using Cons.prems Cons.IH key_orderD(3) [OF assms(1,2) x] by (auto simp: set)
  qed
qed simp

lemma sort_entries_sorted:
  assumes "key_order lc K" "le_key ` set es \<subseteq> K" "distinct (map le_key es)"
  shows "keys_sorted (sort_entries lc es)"
  using assms(2,3)
proof (induction es)
  case (Cons e es)
  have "set (foldr (insert_entry lc) es []) = set es" using set_sort_entries [of lc es] by (simp add: sort_entries_def)
  then show ?case
    using Cons insert_entry_sorted [OF assms(1), of e "sort_entries lc es"] by (auto simp: sort_entries_def)
qed (simp add: sort_entries_def)

lemma find_key_nth:
  assumes "keys_sorted es" "i < length es" "le_key (es ! i) = key"
  shows "find (\<lambda>e. le_key e = key) es = Some (es ! i)"
proof -
  have "le_key (es ! j) \<noteq> key" if "j < i" for j
    using sorted_wrt_nth_less [OF assms(1), of j i] that assms by auto
  then show ?thesis using assms(2,3) by (auto simp: find_Some_iff)
qed

text \<open>The search interval always holds the key if the entries hold it.\<close>

lemma binarySearch_correct:
  assumes "key_order lc K" "key \<in> K" "le_key ` set es \<subseteq> K" "keys_sorted es"
    and "0 \<le> low" "high < int (length es)"
    and "\<And>i. i < length es \<Longrightarrow> le_key (es ! i) = key \<Longrightarrow> low \<le> int i \<and> int i \<le> high"
  shows "binarySearch lc es key low high = find (\<lambda>e. le_key e = key) es"
  using assms(5-7)
proof (induction "nat (high - low + 1)" arbitrary: low high rule: less_induct)
  case less
  show ?case
  proof (cases "low \<le> high")
    case False
    then have "find (\<lambda>e. le_key e = key) es = None"
      using less.prems(3) by (fastforce simp: find_None_iff in_set_conv_nth)
    then show ?thesis using False by (simp add: binarySearch.simps)
  next
    case True
    define mid where "mid = (low + high) div 2"
    have mid: "low \<le> mid" "mid \<le> high" using True by (auto simp: mid_def)
    then have m: "nat mid < length es" using less.prems(1,2) by linarith
    have k: "le_key (es ! nat mid) \<in> K" using assms(3) nth_mem [OF m] by blast
    have lc: "lc (le_key (es ! nat mid)) key = 0 \<longleftrightarrow> le_key (es ! nat mid) = key"
      "lc (le_key (es ! nat mid)) key < 0 \<longleftrightarrow> le_key (es ! nat mid) < key"
      by (rule key_orderD [OF assms(1) k assms(2)])+
    have mono: "le_key (es ! i) < le_key (es ! j)" if "i < j" "j < length es" for i j
      using sorted_wrt_nth_less [OF assms(4), of i j] that by simp
    consider "le_key (es ! nat mid) = key" | "le_key (es ! nat mid) < key" | "key < le_key (es ! nat mid)"
      by (rule linorder_cases)
    then show ?thesis
    proof cases
      case 1
      then show ?thesis
        using True lc find_key_nth [OF assms(4) m 1] by (subst binarySearch.simps) (simp add: Let_def mid_def)
    next
      case 2
      have "mid + 1 \<le> int i \<and> int i \<le> high" if "i < length es" "le_key (es ! i) = key" for i
      proof -
        have "nat mid < i" using 2 mono [of i "nat mid"] m that by (metis linorder_neqE_nat order_less_asym order_less_irrefl)
        then show ?thesis using less.prems(3) [OF that] by linarith
      qed
      then have "binarySearch lc es key (mid + 1) high = find (\<lambda>e. le_key e = key) es"
        using less.hyps [of high "mid + 1"] less.prems(1,2) mid by simp
      then show ?thesis using 2 True lc by (subst binarySearch.simps) (simp add: Let_def mid_def)
    next
      case 3
      have "low \<le> int i \<and> int i \<le> mid - 1" if "i < length es" "le_key (es ! i) = key" for i
      proof -
        have "i < nat mid" using 3 mono [of "nat mid" i] that by (metis linorder_neqE_nat order_less_asym order_less_irrefl)
        then show ?thesis using less.prems(3) [OF that] by linarith
      qed
      then have "binarySearch lc es key low (mid - 1) = find (\<lambda>e. le_key e = key) es"
        using less.hyps [of "mid - 1" low] less.prems(1,2) mid by simp
      moreover have "\<not> le_key (es ! nat mid) < key" "le_key (es ! nat mid) \<noteq> key" using 3 by auto
      ultimately show ?thesis using True lc by (subst binarySearch.simps) (simp add: Let_def mid_def)
    qed
  qed
qed

lemma search_entries_correct:
  assumes "key_order lc K" "key \<in> K" "le_key ` set es \<subseteq> K" "keys_sorted es"
  shows "search_entries lc es key = find (\<lambda>e. le_key e = key) es"
  unfolding search_entries_def by (rule binarySearch_correct [OF assms]) auto

section \<open>Point reads\<close>

fun search_tables :: "(string \<Rightarrow> string \<Rightarrow> int) \<Rightarrow> string \<Rightarrow> 'v sstable list \<Rightarrow> 'v option" where
  "search_tables lc key [] = None"
| "search_tables lc key (t # ts) =
     (if sm_bloomFilterMask (sst_meta t) AND bloom_bit key = 0 then search_tables lc key ts
      else if key < sm_minKey (sst_meta t) \<or> key > sm_maxKey (sst_meta t) then search_tables lc key ts
      else
        (case search_entries lc (sst_entries t) key of
           Some e \<Rightarrow> (if le_isTombstone e then None else le_value e)
         | None \<Rightarrow> search_tables lc key ts))"

definition lsm_get :: "(string \<Rightarrow> string \<Rightarrow> int) \<Rightarrow> string \<Rightarrow> 'v lsm \<Rightarrow> lsm_error + 'v option" where
  "lsm_get lc key s =
     (if key = [] then Inl Key_empty
      else
        (case js_get (ls_memTable s) key of
           Some m \<Rightarrow> Inr (if mm_isTombstone m then None else mm_value m)
         | None \<Rightarrow> Inr (search_tables lc key (ls_ssTables s))))"

section \<open>Flushing and writing\<close>

definition flush_meta :: "string \<Rightarrow> int \<Rightarrow> int \<Rightarrow> 'v lsm_entry list \<Rightarrow> nat \<Rightarrow> sstable_meta" where
  "flush_meta tableId level now es bytes =
     \<lparr>sm_tableId = tableId, sm_level = level, sm_recordCount = length es, sm_minKey = le_key (hd es),
      sm_maxKey = le_key (last es), sm_bloomFilterMask = bloom_of es, sm_createdAt = now, sm_sizeBytes = bytes\<rparr>"

definition mem_entry :: "string \<times> 'v mem_value \<Rightarrow> 'v lsm_entry" where
  "mem_entry kv = \<lparr>le_key = fst kv, le_value = mm_value (snd kv), le_isTombstone = mm_isTombstone (snd kv)\<rparr>"

definition flushMemTable ::
  "(string \<Rightarrow> string \<Rightarrow> int) \<Rightarrow> ('v lsm_entry list \<Rightarrow> nat option) \<Rightarrow> string \<Rightarrow> int \<Rightarrow> 'v lsm \<Rightarrow>
     'v lsm \<times> (lsm_error + sstable_meta option)" where
  "flushMemTable lc js uuid now s =
     (if ls_memTable s = [] then (s, Inr None)
      else
        let sortedEntries = sort_entries lc (map mem_entry (ls_memTable s))
        in (case js sortedEntries of
              None \<Rightarrow> (s, Inl Json_throws)
            | Some bytes \<Rightarrow>
                let meta = flush_meta (''sstable_'' @ uuid) 0 now sortedEntries bytes
                in (s\<lparr>ls_ssTables := \<lparr>sst_meta = meta, sst_entries = sortedEntries, sst_sequence = ls_nextSequence s\<rparr> # ls_ssTables s,
                      ls_nextSequence := Suc (ls_nextSequence s), ls_memTable := []\<rparr>, Inr (Some meta))))"

text \<open>A full table is flushed within the write; an exception of that flush is lost with its promise.\<close>

definition flush_if_full ::
  "(string \<Rightarrow> string \<Rightarrow> int) \<Rightarrow> ('v lsm_entry list \<Rightarrow> nat option) \<Rightarrow> string \<Rightarrow> int \<Rightarrow> 'v lsm \<Rightarrow> 'v lsm" where
  "flush_if_full lc js uuid now s =
     (if int (length (ls_memTable s)) \<ge> ls_maxMemTableSize s then fst (flushMemTable lc js uuid now s) else s)"

definition mem_set :: "string \<Rightarrow> 'v option \<Rightarrow> bool \<Rightarrow> int \<Rightarrow> 'v lsm \<Rightarrow> 'v lsm" where
  "mem_set key v tombstone now s =
     s\<lparr>ls_memTable := js_set (ls_memTable s) key \<lparr>mm_value = v, mm_isTombstone = tombstone, mm_timestamp = now\<rparr>\<rparr>"

definition lsm_put ::
  "(string \<Rightarrow> string \<Rightarrow> int) \<Rightarrow> ('v lsm_entry list \<Rightarrow> nat option) \<Rightarrow> string \<Rightarrow> int \<Rightarrow> string \<Rightarrow> 'v option \<Rightarrow> 'v lsm \<Rightarrow>
     lsm_error + 'v lsm" where
  "lsm_put lc js uuid now key v s =
     (if key = [] then Inl Key_empty else Inr (flush_if_full lc js uuid now (mem_set key v False now s)))"

definition lsm_delete ::
  "(string \<Rightarrow> string \<Rightarrow> int) \<Rightarrow> ('v lsm_entry list \<Rightarrow> nat option) \<Rightarrow> string \<Rightarrow> int \<Rightarrow> string \<Rightarrow> 'v lsm \<Rightarrow>
     lsm_error + 'v lsm \<times> bool" where
  "lsm_delete lc js uuid now key s =
     (case lsm_get lc key s of
        Inl e \<Rightarrow> Inl e
      | Inr None \<Rightarrow> Inr (s, False)
      | Inr (Some _) \<Rightarrow> Inr (flush_if_full lc js uuid now (mem_set key None True now s), True))"

section \<open>Range reads\<close>

definition entry_cell :: "'v lsm_entry \<Rightarrow> 'v cell" where
  "entry_cell e = \<lparr>cl_value = le_value e, cl_isTombstone = le_isTombstone e\<rparr>"

definition mem_cell :: "'v mem_value \<Rightarrow> 'v cell" where
  "mem_cell m = \<lparr>cl_value = mm_value m, cl_isTombstone = mm_isTombstone m\<rparr>"

definition overlay_entries :: "'v lsm_entry list \<Rightarrow> (string, 'v cell) jsmap \<Rightarrow> (string, 'v cell) jsmap" where
  "overlay_entries es merged = fold (\<lambda>e m. js_set m (le_key e) (entry_cell e)) es merged"

definition overlay_mem :: "(string, 'v mem_value) jsmap \<Rightarrow> (string, 'v cell) jsmap \<Rightarrow> (string, 'v cell) jsmap" where
  "overlay_mem mem merged = fold (\<lambda>kv m. js_set m (fst kv) (mem_cell (snd kv))) mem merged"

definition merged_view :: "'v lsm \<Rightarrow> (string, 'v cell) jsmap" where
  "merged_view s =
     overlay_mem (ls_memTable s)
       (fold (\<lambda>t. overlay_entries (sst_entries t)) (rev (ls_ssTables s)) [])"

text \<open>An empty bound is no bound. \<open>n\<close> is what is left of the limit.\<close>

definition out_of_range :: "string option \<Rightarrow> string option \<Rightarrow> string \<Rightarrow> bool" where
  "out_of_range startKey endKey k \<longleftrightarrow>
     (case startKey of None \<Rightarrow> False | Some a \<Rightarrow> a \<noteq> [] \<and> k < a) \<or> (case endKey of None \<Rightarrow> False | Some b \<Rightarrow> b \<noteq> [] \<and> k > b)"

fun scan_keys ::
  "(string, 'v cell) jsmap \<Rightarrow> string option \<Rightarrow> string option \<Rightarrow> nat \<Rightarrow> string list \<Rightarrow> (string \<times> 'v option) list" where
  "scan_keys merged startKey endKey n [] = []"
| "scan_keys merged startKey endKey n (k # ks) =
     (if out_of_range startKey endKey k then scan_keys merged startKey endKey n ks
      else
        (case js_get merged k of
           None \<Rightarrow> scan_keys merged startKey endKey n ks
         | Some item \<Rightarrow>
             if cl_isTombstone item then scan_keys merged startKey endKey n ks
             else (k, cl_value item) # (if n \<le> 1 then [] else scan_keys merged startKey endKey (n - 1) ks)))"

definition lsm_scan ::
  "string option \<Rightarrow> string option \<Rightarrow> int \<Rightarrow> 'v lsm \<Rightarrow> lsm_error + (string \<times> 'v option) list" where
  "lsm_scan startKey endKey limit s =
     (if \<not> is_safe_integer limit \<or> limit < 0 then Inl Bad_limit
      else if limit = 0 then Inr []
      else if (case startKey of None \<Rightarrow> False | Some a \<Rightarrow> case endKey of None \<Rightarrow> False | Some b \<Rightarrow> a > b) then Inl Bad_range
      else Inr (scan_keys (merged_view s) startKey endKey (nat limit) (sort (js_keys (merged_view s)))))"

section \<open>Compaction\<close>

definition tablesContainKey :: "(string \<Rightarrow> string \<Rightarrow> int) \<Rightarrow> 'v sstable list \<Rightarrow> string \<Rightarrow> bool" where
  "tablesContainKey lc tables key \<longleftrightarrow>
     list_ex (\<lambda>t. key \<ge> sm_minKey (sst_meta t) \<and> key \<le> sm_maxKey (sst_meta t) \<and>
        search_entries lc (sst_entries t) key \<noteq> None) tables"

text \<open>The newest entry of a key wins: the tables come newest first, and an entry that is there stays.\<close>

definition keep_first :: "'v lsm_entry list \<Rightarrow> (string, 'v cell) jsmap \<Rightarrow> (string, 'v cell) jsmap" where
  "keep_first es merged = fold (\<lambda>e m. if js_has m (le_key e) then m else js_set m (le_key e) (entry_cell e)) es merged"

definition newest_first :: "'v sstable list \<Rightarrow> 'v sstable list" where
  "newest_first ts = sort_key (\<lambda>t. - int (sst_sequence t)) ts"

definition cell_entry :: "string \<times> 'v cell \<Rightarrow> 'v lsm_entry" where
  "cell_entry kv = \<lparr>le_key = fst kv, le_value = cl_value (snd kv), le_isTombstone = cl_isTombstone (snd kv)\<rparr>"

definition purgeable :: "(string \<Rightarrow> string \<Rightarrow> int) \<Rightarrow> 'v sstable list \<Rightarrow> string \<times> 'v cell \<Rightarrow> bool" where
  "purgeable lc remaining kv \<longleftrightarrow> cl_isTombstone (snd kv) \<and> \<not> tablesContainKey lc remaining (fst kv)"

definition level_prefix :: "int \<Rightarrow> string" where
  "level_prefix level = ''sstable_l'' @ show_int level @ ''_''"

definition compact ::
  "(string \<Rightarrow> string \<Rightarrow> int) \<Rightarrow> ('v lsm_entry list \<Rightarrow> nat option) \<Rightarrow> string \<Rightarrow> int \<Rightarrow> int \<Rightarrow> int \<Rightarrow> int \<Rightarrow> 'v lsm \<Rightarrow>
     'v lsm \<times> (lsm_error + compaction_stats)" where
  "compact lc js uuid started created finished level s =
     (if \<not> is_safe_integer level \<or> level < 0 then (s, Inl Bad_level)
      else
        let candidates = newest_first (filter (\<lambda>t. sm_level (sst_meta t) = level) (ls_ssTables s))
        in if length candidates < 2
           then (s, Inr \<lparr>cs_compactedTablesCount = 0, cs_inputRecordsCount = 0, cs_outputRecordsCount = 0,
                         cs_purgedTombstonesCount = 0, cs_durationMs = finished - started\<rparr>)
           else
             let input = concat (map sst_entries candidates);
                 merged = keep_first input [];
                 ids = map (\<lambda>t. sm_tableId (sst_meta t)) candidates;
                 remaining = filter (\<lambda>t. sm_tableId (sst_meta t) \<notin> set ids) (ls_ssTables s);
                 purged = filter (purgeable lc remaining) merged;
                 es = sort_entries lc (map cell_entry (filter (\<lambda>kv. \<not> purgeable lc remaining kv) merged));
                 stats = \<lparr>cs_compactedTablesCount = length candidates, cs_inputRecordsCount = length input,
                          cs_outputRecordsCount = length es, cs_purgedTombstonesCount = length purged,
                          cs_durationMs = finished - started\<rparr>
             in if es = [] then (s\<lparr>ls_ssTables := newest_first remaining\<rparr>, Inr stats)
                else
                  (case js es of
                     None \<Rightarrow> (s, Inl Json_throws)
                   | Some bytes \<Rightarrow>
                       let t = \<lparr>sst_meta = flush_meta (level_prefix (level + 1) @ uuid) (level + 1) created es bytes,
                                sst_entries = es, sst_sequence = Max (set (map sst_sequence candidates))\<rparr>
                       in (s\<lparr>ls_ssTables := newest_first (remaining @ [t])\<rparr>, Inr stats)))"

definition getMemTableSize :: "'v lsm \<Rightarrow> nat" where
  "getMemTableSize s = length (ls_memTable s)"

definition getSsTableMetas :: "'v lsm \<Rightarrow> sstable_meta list" where
  "getSsTableMetas s = map sst_meta (ls_ssTables s)"

end
