(* ===== verification/Lsm_Refinement.thy ===== *)
theory Lsm_Refinement
  imports Lsm_Store
begin

text \<open>
  The log-structured store implements a map: \<open>lsm_view\<close> is what a store holds for every key, the first entry
  found in the table in memory and then in the sorted tables from the newest on. Reads return it, writes and
  deletions change it at one key, and flushes and compactions leave it alone, purged tombstones included.
\<close>

section \<open>The map of a store\<close>

definition entry_map :: "'v lsm_entry list \<Rightarrow> string \<Rightarrow> 'v cell option" where
  "entry_map es = map_of (map (\<lambda>e. (le_key e, entry_cell e)) es)"

fun tables_map :: "'v sstable list \<Rightarrow> string \<Rightarrow> 'v cell option" where
  "tables_map [] = Map.empty"
| "tables_map (t # ts) = tables_map ts ++ entry_map (sst_entries t)"

definition mem_map :: "(string, 'v mem_value) jsmap \<Rightarrow> string \<Rightarrow> 'v cell option" where
  "mem_map m k = map_option mem_cell (js_get m k)"

definition store_map :: "'v lsm \<Rightarrow> string \<Rightarrow> 'v cell option" where
  "store_map s = tables_map (ls_ssTables s) ++ mem_map (ls_memTable s)"

definition live :: "'v cell option \<Rightarrow> 'v option option" where
  "live c = (case c of None \<Rightarrow> None | Some c \<Rightarrow> if cl_isTombstone c then None else Some (cl_value c))"

definition lsm_view :: "'v lsm \<Rightarrow> string \<Rightarrow> 'v option option" where
  "lsm_view s k = live (store_map s k)"

text \<open>A value that is \<^verbatim>\<open>undefined\<close> reads as no value.\<close>

definition js_value :: "'v option option \<Rightarrow> 'v option" where
  "js_value x = (case x of None \<Rightarrow> None | Some v \<Rightarrow> v)"

lemma live_simps [simp]: "live None = None" "live (Some c) = (if cl_isTombstone c then None else Some (cl_value c))"
  by (simp_all add: live_def)

lemma js_value_simps [simp]: "js_value None = None" "js_value (Some v) = v"
  by (simp_all add: js_value_def)

lemma tables_map_append: "tables_map (ts @ us) = tables_map us ++ tables_map ts"
  by (induction ts) simp_all

lemma entry_map_None: "entry_map es k = None \<longleftrightarrow> k \<notin> le_key ` set es"
  by (auto simp: entry_map_def map_of_eq_None_iff image_image)

lemma entry_map_find: "entry_map es k = map_option entry_cell (find (\<lambda>e. le_key e = k) es)"
  by (induction es) (auto simp: entry_map_def)

lemma entry_map_in:
  assumes "distinct (map le_key es)"
  shows "entry_map es k = Some c \<longleftrightarrow> (\<exists>e \<in> set es. le_key e = k \<and> entry_cell e = c)"
proof -
  have "distinct (map fst (map (\<lambda>e. (le_key e, entry_cell e)) es))" using assms by (simp add: comp_def)
  from js_get_Some_iff [OF this] show ?thesis by (auto simp: entry_map_def)
qed

lemma keys_sorted_distinct: "keys_sorted es \<Longrightarrow> distinct (map le_key es)"
  by (simp add: strict_sorted_iff)

lemma entry_map_cong:
  assumes "distinct (map le_key es)" "distinct (map le_key fs)" "set es = set fs"
  shows "entry_map es = entry_map fs"
proof
  fix k
  show "entry_map es k = entry_map fs k"
  proof (cases "entry_map es k")
    case None
    then show ?thesis using assms(3) entry_map_None [of es k] entry_map_None [of fs k] by simp
  next
    case (Some c)
    then show ?thesis using assms entry_map_in [OF assms(1)] entry_map_in [OF assms(2)] by metis
  qed
qed

section \<open>The invariant\<close>

definition table_ok :: "string set \<Rightarrow> 'v sstable \<Rightarrow> bool" where
  "table_ok K t \<longleftrightarrow> sst_entries t \<noteq> [] \<and> keys_sorted (sst_entries t) \<and> le_key ` set (sst_entries t) \<subseteq> K \<and>
     sm_minKey (sst_meta t) = le_key (hd (sst_entries t)) \<and> sm_maxKey (sst_meta t) = le_key (last (sst_entries t)) \<and>
     sm_bloomFilterMask (sst_meta t) = bloom_of (sst_entries t)"

definition newer :: "'v sstable \<Rightarrow> 'v sstable \<Rightarrow> bool" where
  "newer a b \<longleftrightarrow> sst_sequence a > sst_sequence b \<and> sm_level (sst_meta a) \<le> sm_level (sst_meta b)"

abbreviation table_ids :: "'v sstable list \<Rightarrow> string list" where
  "table_ids ts \<equiv> map (\<lambda>t. sm_tableId (sst_meta t)) ts"

definition lsm_inv :: "(string \<Rightarrow> string \<Rightarrow> int) \<Rightarrow> string set \<Rightarrow> 'v lsm \<Rightarrow> bool" where
  "lsm_inv lc K s \<longleftrightarrow> key_order lc K \<and> js_wf (ls_memTable s) \<and> set (js_keys (ls_memTable s)) \<subseteq> K \<and>
     (\<forall>t \<in> set (ls_ssTables s). table_ok K t \<and> sst_sequence t < ls_nextSequence s \<and> 0 \<le> sm_level (sst_meta t)) \<and>
     distinct (table_ids (ls_ssTables s)) \<and> sorted_wrt newer (ls_ssTables s)"

lemma keys_sorted_bounds:
  assumes "keys_sorted es" "e \<in> set es"
  shows "le_key (hd es) \<le> le_key e \<and> le_key e \<le> le_key (last es)"
proof -
  obtain i where i: "i < length es" "e = es ! i" using assms(2) by (auto simp: in_set_conv_nth)
  then have ne: "es \<noteq> []" by auto
  have mono: "le_key (es ! i) \<le> le_key (es ! j)" if "i \<le> j" "j < length es" for i j
    using sorted_wrt_nth_less [OF assms(1), of i j] that by (cases "i = j") auto
  show ?thesis using mono [of 0 i] mono [of i "length es - 1"] i ne by (simp add: hd_conv_nth last_conv_nth)
qed

text \<open>The bloom filter and the bounds of a table only skip a table that does not hold the key.\<close>

lemma table_skip:
  assumes "table_ok K t" "k \<in> le_key ` set (sst_entries t)"
  shows "sm_bloomFilterMask (sst_meta t) AND bloom_bit k \<noteq> 0" "sm_minKey (sst_meta t) \<le> k" "k \<le> sm_maxKey (sst_meta t)"
proof -
  obtain e where e: "e \<in> set (sst_entries t)" "k = le_key e" using assms(2) by auto
  show "sm_bloomFilterMask (sst_meta t) AND bloom_bit k \<noteq> 0"
    using assms(1) bloom_no_false_negative [OF e(1)] e(2) by (simp add: table_ok_def)
  show "sm_minKey (sst_meta t) \<le> k" "k \<le> sm_maxKey (sst_meta t)"
    using assms(1) keys_sorted_bounds [OF _ e(1)] e(2) by (auto simp: table_ok_def)
qed

lemma search_table:
  assumes "key_order lc K" "table_ok K t" "k \<in> K"
  shows "search_entries lc (sst_entries t) k = find (\<lambda>e. le_key e = k) (sst_entries t)"
  using assms by (intro search_entries_correct) (auto simp: table_ok_def)

lemma find_key_None: "find (\<lambda>e. le_key e = k) es = None \<longleftrightarrow> k \<notin> le_key ` set es"
  by (auto simp: find_None_iff)

lemma search_tables_correct:
  assumes "key_order lc K" "\<forall>t \<in> set ts. table_ok K t" "k \<in> K"
  shows "search_tables lc k ts = js_value (live (tables_map ts k))"
  using assms(2)
proof (induction ts)
  case (Cons t ts)
  then have IH: "search_tables lc k ts = js_value (live (tables_map ts k))" and t: "table_ok K t" by simp_all
  show ?case
  proof (cases "find (\<lambda>e. le_key e = k) (sst_entries t)")
    case None
    then show ?thesis
      using IH search_table [OF assms(1) t assms(3)] by (simp add: entry_map_find map_add_def)
  next
    case (Some e)
    then have "k \<in> le_key ` set (sst_entries t)"
      using find_key_None [of k "sst_entries t"] by auto
    from table_skip [OF t this] show ?thesis
      using Some search_table [OF assms(1) t assms(3)] by (auto simp: entry_map_find map_add_def entry_cell_def dest: leD)
  qed
qed simp

lemma tablesContainKey_correct:
  assumes "key_order lc K" "\<forall>t \<in> set ts. table_ok K t" "k \<in> K"
  shows "tablesContainKey lc ts k \<longleftrightarrow> (\<exists>t \<in> set ts. k \<in> le_key ` set (sst_entries t))"
proof -
  have "sm_minKey (sst_meta t) \<le> k \<and> k \<le> sm_maxKey (sst_meta t) \<and> search_entries lc (sst_entries t) k \<noteq> None \<longleftrightarrow>
      k \<in> le_key ` set (sst_entries t)" if "t \<in> set ts" for t
    using table_skip(2,3) [of K t k] search_table [OF assms(1) _ assms(3), of t] find_key_None [of k "sst_entries t"]
      assms(2) that by (metis (no_types, lifting))
  then show ?thesis unfolding tablesContainKey_def list_ex_iff by blast
qed

lemma tables_map_None: "tables_map ts k = None \<longleftrightarrow> (\<forall>t \<in> set ts. k \<notin> le_key ` set (sst_entries t))"
  by (induction ts) (auto simp: entry_map_None)

lemma get_view:
  assumes "lsm_inv lc K s" "k \<in> K" "k \<noteq> []"
  shows "lsm_get lc k s = Inr (js_value (lsm_view s k))"
proof (cases "js_get (ls_memTable s) k")
  case None
  have "search_tables lc k (ls_ssTables s) = js_value (live (tables_map (ls_ssTables s) k))"
    by (rule search_tables_correct [OF _ _ assms(2)]) (use assms(1) in \<open>simp_all add: lsm_inv_def\<close>)
  with None show ?thesis
    using assms(3) by (simp add: lsm_get_def lsm_view_def store_map_def mem_map_def map_add_def)
next
  case (Some m)
  then show ?thesis
    using assms(3) by (simp add: lsm_get_def lsm_view_def store_map_def mem_map_def map_add_def mem_cell_def)
qed

section \<open>Flushes and writes\<close>

lemma mem_entries_distinct: "js_wf m \<Longrightarrow> distinct (map le_key (map mem_entry m))"
  by (simp add: mem_entry_def comp_def)

lemma entry_map_mem: "entry_map (map mem_entry m) = mem_map m"
proof
  fix k
  show "entry_map (map mem_entry m) k = mem_map m k"
    by (induction m) (auto simp: entry_map_def mem_map_def mem_entry_def entry_cell_def mem_cell_def)
qed

lemma flush_meta_ok:
  assumes "key_order lc K" "le_key ` set es \<subseteq> K" "distinct (map le_key es)" "es \<noteq> []"
  shows "table_ok K \<lparr>sst_meta = flush_meta i l n (sort_entries lc es) b, sst_entries = sort_entries lc es, sst_sequence = q\<rparr>"
  using assms sort_entries_sorted [OF assms(1-3)] by (simp add: table_ok_def flush_meta_def)

definition fresh_id :: "'v lsm \<Rightarrow> string \<Rightarrow> bool" where
  "fresh_id s i \<longleftrightarrow> i \<notin> set (table_ids (ls_ssTables s))"

lemma entry_map_sorted:
  assumes "key_order lc K" "le_key ` set es \<subseteq> K" "distinct (map le_key es)"
  shows "entry_map (sort_entries lc es) = entry_map es"
  by (rule entry_map_cong [OF keys_sorted_distinct [OF sort_entries_sorted [OF assms]] assms(3)]) simp

lemma flush_correct:
  assumes "lsm_inv lc K s" "fresh_id s (''sstable_'' @ uuid)"
  shows "lsm_inv lc K (fst (flushMemTable lc js uuid now s)) \<and> store_map (fst (flushMemTable lc js uuid now s)) = store_map s"
proof (cases "ls_memTable s = [] \<or> js (sort_entries lc (map mem_entry (ls_memTable s))) = None")
  case True
  then show ?thesis using assms(1) by (auto simp: flushMemTable_def Let_def)
next
  case False
  let ?es = "map mem_entry (ls_memTable s)"
  have d: "distinct (map le_key ?es)" using assms(1) mem_entries_distinct by (auto simp: lsm_inv_def)
  have k: "key_order lc K" "le_key ` set ?es \<subseteq> K"
    using assms(1) by (auto simp: lsm_inv_def mem_entry_def)
  have ne: "?es \<noteq> []" using False by simp
  note ok = flush_meta_ok [OF k d ne]
  obtain b where b: "js (sort_entries lc ?es) = Some b" using False by auto
  have map: "entry_map (sort_entries lc ?es) = mem_map (ls_memTable s)"
    using entry_map_sorted [OF k d] by (simp add: entry_map_mem)
  have "store_map (fst (flushMemTable lc js uuid now s)) = store_map s"
    using False b map by (auto simp: flushMemTable_def Let_def store_map_def mem_map_def map_add_def)
  moreover have "lsm_inv lc K (fst (flushMemTable lc js uuid now s))"
    using False b assms ok
    by (auto simp: flushMemTable_def Let_def lsm_inv_def fresh_id_def newer_def less_Suc_eq flush_meta_def)
  ultimately show ?thesis by simp
qed

section \<open>Compaction\<close>

lemma entry_map_append: "entry_map (es @ fs) = entry_map fs ++ entry_map es"
  by (simp add: entry_map_def)

lemma entry_map_concat: "entry_map (concat (map sst_entries ts)) = tables_map ts"
  by (induction ts) (simp_all add: entry_map_append entry_map_def [of "[]"])

lemma keep_first_get: "js_get (keep_first es m) k = (case js_get m k of None \<Rightarrow> entry_map es k | Some c \<Rightarrow> Some c)"
proof (induction es arbitrary: m)
  case (Cons e es)
  have has: "js_has m (le_key e) \<longleftrightarrow> js_get m (le_key e) \<noteq> None" by (simp add: map_of_eq_None_iff)
  show ?case
    using Cons by (auto simp: keep_first_def entry_map_def has split: option.splits)
qed (simp add: keep_first_def entry_map_def split: option.split)

lemma keep_first_wf: "js_wf m \<Longrightarrow> js_wf (keep_first es m)"
  by (induction es arbitrary: m) (auto simp: keep_first_def)

lemma entry_map_cells: "entry_map (map cell_entry m) = js_get m"
proof
  fix k
  show "entry_map (map cell_entry m) k = js_get m k"
    by (induction m) (auto simp: entry_map_def cell_entry_def entry_cell_def)
qed

lemma cells_distinct: "js_wf m \<Longrightarrow> distinct (map le_key (map cell_entry m))"
  by (simp add: cell_entry_def comp_def)

lemma newest_first_eq:
  assumes "mset xs = mset ys" "sorted_wrt newer ys"
  shows "newest_first xs = ys"
  unfolding newest_first_def
proof (rule sort_key_inj_key_eq [OF assms(1)])
  have "sorted_wrt (<) (map (\<lambda>t. - int (sst_sequence t)) ys)"
    using assms(2) by (auto simp: sorted_wrt_map newer_def intro: sorted_wrt_mono_rel [rotated])
  then show "sorted (map (\<lambda>t. - int (sst_sequence t)) ys)" by (rule strict_sorted_imp_sorted)
  have "distinct (map (\<lambda>t. - int (sst_sequence t)) ys)"
    using \<open>sorted_wrt (<) (map (\<lambda>t. - int (sst_sequence t)) ys)\<close> by (simp add: strict_sorted_iff)
  then have "inj_on (\<lambda>t. - int (sst_sequence t)) (set ys)" by (simp add: distinct_map)
  then show "inj_on (\<lambda>t. - int (sst_sequence t)) (set xs)" using mset_eq_setD [OF assms(1)] by simp
qed

text \<open>The tables of a level are consecutive.\<close>

lemma level_split:
  "sorted_wrt newer ts \<Longrightarrow>
     ts = filter (\<lambda>t. sm_level (sst_meta t) < l) ts @ filter (\<lambda>t. sm_level (sst_meta t) = l) ts @
          filter (\<lambda>t. l < sm_level (sst_meta t)) ts"
proof (induction ts)
  case (Cons t ts)
  then have le: "\<forall>u \<in> set ts. sm_level (sst_meta t) \<le> sm_level (sst_meta u)" by (auto simp: newer_def)
  have "filter (\<lambda>t. sm_level (sst_meta t) < l) ts = []" if "\<not> sm_level (sst_meta t) < l"
    using le that by (auto simp: filter_empty_conv)
  moreover have "filter (\<lambda>t. sm_level (sst_meta t) = l) ts = []" if "l < sm_level (sst_meta t)"
    using le that by (auto simp: filter_empty_conv)
  ultimately show ?case using Cons by auto
qed simp

lemma remaining_tables:
  assumes "distinct (table_ids (A @ B @ C))"
  shows "filter (\<lambda>t. sm_tableId (sst_meta t) \<notin> set (table_ids B)) (A @ B @ C) = A @ C"
proof -
  have "filter (\<lambda>t. sm_tableId (sst_meta t) \<notin> set (table_ids B)) A = A"
    "filter (\<lambda>t. sm_tableId (sst_meta t) \<notin> set (table_ids B)) C = C"
    using assms by (auto simp: filter_id_conv)
  moreover have "filter (\<lambda>t. sm_tableId (sst_meta t) \<notin> set (table_ids B)) B = []"
    by (auto simp: filter_empty_conv)
  ultimately show ?thesis by simp
qed

text \<open>What a compaction keeps of the merged entries, seen through the tables around it.\<close>

lemma purge_correct:
  assumes "key_order lc K" "\<forall>t \<in> set (A @ B @ C). table_ok K t" "js_wf merged" "js_get merged = tables_map B"
  shows "live ((tables_map C ++ entry_map (map cell_entry (filter (\<lambda>kv. \<not> purgeable lc (A @ C) kv) merged)) ++ tables_map A) k)
       = live ((tables_map C ++ tables_map B ++ tables_map A) k)"
proof -
  let ?kept = "filter (\<lambda>kv. \<not> purgeable lc (A @ C) kv) merged"
  have kept: "entry_map (map cell_entry ?kept) k =
      (case tables_map B k of None \<Rightarrow> None | Some c \<Rightarrow> if purgeable lc (A @ C) (k, c) then None else Some c)"
    unfolding entry_map_cells by (simp add: js_get_filter [OF assms(3)] assms(4) split: option.split)
  show ?thesis
  proof (cases "tables_map B k")
    case None
    then show ?thesis using kept by (auto simp: map_add_def split: option.split)
  next
    case (Some c)
    then have "k \<in> K"
      using assms(2) tables_map_None [of B k] by (auto simp: table_ok_def)
    then have "tablesContainKey lc (A @ C) k \<longleftrightarrow> (\<exists>t \<in> set (A @ C). k \<in> le_key ` set (sst_entries t))"
      using assms(1,2) by (intro tablesContainKey_correct) auto
    then have "tables_map C k = None" if "purgeable lc (A @ C) (k, c)"
      using that by (auto simp: purgeable_def tables_map_None)
    then show ?thesis
      using Some kept by (auto simp: map_add_def purgeable_def split: option.split)
  qed
qed

lemma tables_map_new:
  "tables_map (A @ (if es = [] then [] else [\<lparr>sst_meta = m, sst_entries = es, sst_sequence = q\<rparr>]) @ C)
     = tables_map C ++ entry_map es ++ tables_map A"
  by (simp add: tables_map_append entry_map_def)

lemma compact_correct:
  assumes "lsm_inv lc K s" "fresh_id s (level_prefix (level + 1) @ uuid)"
    and t: "t = fst (compact lc js uuid started created finished level s)"
  shows "lsm_inv lc K t \<and> lsm_view t = lsm_view s"
proof -
  let ?ts = "ls_ssTables s"
  define A where "A = filter (\<lambda>t. sm_level (sst_meta t) < level) ?ts"
  define B where "B = filter (\<lambda>t. sm_level (sst_meta t) = level) ?ts"
  define C where "C = filter (\<lambda>t. level < sm_level (sst_meta t)) ?ts"
  have inv: "key_order lc K" "\<forall>t \<in> set ?ts. table_ok K t \<and> sst_sequence t < ls_nextSequence s \<and> 0 \<le> sm_level (sst_meta t)"
    "distinct (table_ids ?ts)" "sorted_wrt newer ?ts"
    using assms(1) by (simp_all add: lsm_inv_def)
  have ts: "?ts = A @ B @ C" unfolding A_def B_def C_def by (rule level_split [OF inv(4)])
  have "sorted_wrt newer B" unfolding B_def by (rule sorted_wrt_filter [OF inv(4)])
  then have cands: "newest_first (filter (\<lambda>t. sm_level (sst_meta t) = level) ?ts) = B"
    unfolding B_def [symmetric] by (rule newest_first_eq [OF refl])
  have remaining: "filter (\<lambda>t. sm_tableId (sst_meta t) \<notin> set (table_ids B)) ?ts = A @ C"
    unfolding ts by (rule remaining_tables) (use inv(3) ts in simp)
  define merged where "merged = keep_first (concat (map sst_entries B)) []"
  have merged: "js_wf merged" "js_get merged = tables_map B"
    by (simp_all add: merged_def keep_first_wf fun_eq_iff keep_first_get entry_map_concat)
  define es0 where "es0 = map cell_entry (filter (\<lambda>kv. \<not> purgeable lc (A @ C) kv) merged)"
  have ok: "\<forall>t \<in> set (A @ B @ C). table_ok K t" using inv(2) ts by simp
  have d: "distinct (map le_key es0)" unfolding es0_def by (rule cells_distinct) (use merged(1) in simp)
  have ks: "le_key ` set es0 \<subseteq> K"
  proof
    fix k assume "k \<in> le_key ` set es0"
    then have "k \<in> set (js_keys merged)" by (force simp: es0_def cell_entry_def)
    then have "tables_map B k \<noteq> None" using js_get_None_iff [of merged k] merged(2) by simp
    then show "k \<in> K" using ok by (auto simp: tables_map_None table_ok_def)
  qed
  define es where "es = sort_entries lc es0"
  have es: "entry_map es = entry_map es0" unfolding es_def by (rule entry_map_sorted [OF inv(1) ks d])
  show ?thesis
  proof (cases "\<not> is_safe_integer level \<or> level < 0 \<or> length B < 2 \<or> (es \<noteq> [] \<and> js es = None)")
    case True
    then have "t = s"
      unfolding t compact_def Let_def cands remaining merged_def [symmetric] es0_def [symmetric] es_def [symmetric]
      by (auto split: option.split)
    then show ?thesis using assms(1) by simp
  next
    case False
    define new where "new = (if es = [] then []
       else [\<lparr>sst_meta = flush_meta (level_prefix (level + 1) @ uuid) (level + 1) created es (the (js es)), sst_entries = es,
              sst_sequence = Max (set (map sst_sequence B))\<rparr>])"
    have B: "B \<noteq> []" using False by auto
    have seq: "Max (set (map sst_sequence B)) \<in> sst_sequence ` set B" using B Max_in [of "sst_sequence ` set B"] by simp
    have between: "\<forall>a \<in> set A. \<forall>b \<in> set B. sst_sequence a > sst_sequence b" "\<forall>b \<in> set B. \<forall>c \<in> set C. sst_sequence b > sst_sequence c"
      and AC: "sorted_wrt newer A" "sorted_wrt newer C" "\<forall>a \<in> set A. \<forall>c \<in> set C. newer a c"
      using inv(4) unfolding ts by (auto simp: sorted_wrt_append newer_def)
    have lv: "\<forall>a \<in> set A. sm_level (sst_meta a) \<le> level + 1" "\<forall>c \<in> set C. level + 1 \<le> sm_level (sst_meta c)"
      by (auto simp: A_def C_def)
    have new_ok: "\<forall>n \<in> set new. table_ok K n \<and> sst_sequence n \<in> sst_sequence ` set B \<and> sm_level (sst_meta n) = level + 1 \<and>
        sm_tableId (sst_meta n) = level_prefix (level + 1) @ uuid"
      using flush_meta_ok [OF inv(1) ks d] seq unfolding new_def es_def by (simp add: flush_meta_def)
    have len: "length new \<le> 1" by (simp add: new_def)
    have sorted: "sorted_wrt newer (A @ new @ C)"
      unfolding sorted_wrt_append using AC between lv new_ok len by (cases new) (auto simp: newer_def)
    have "newest_first ((A @ C) @ new) = A @ new @ C" by (rule newest_first_eq [OF _ sorted]) simp
    moreover have "newest_first (A @ C) = A @ C"
      by (rule newest_first_eq [OF refl]) (use AC in \<open>simp add: sorted_wrt_append\<close>)
    ultimately have tables: "t = s\<lparr>ls_ssTables := A @ new @ C\<rparr>"
      using False
      unfolding t compact_def Let_def cands remaining merged_def [symmetric] es0_def [symmetric] es_def [symmetric]
      by (auto simp: new_def split: option.split)
    have tm: "tables_map (A @ new @ C) = tables_map C ++ entry_map es ++ tables_map A"
      unfolding new_def by (rule tables_map_new)
    have "live (tables_map (A @ new @ C) k) = live (tables_map ?ts k)" for k
      using purge_correct [OF inv(1) ok merged, of k] unfolding tm es ts by (simp add: es0_def tables_map_append)
    then have "lsm_view t = lsm_view s"
      unfolding tables by (auto simp: fun_eq_iff lsm_view_def store_map_def map_add_def split: option.split)
    moreover have "distinct (table_ids (A @ new @ C))"
      using inv(3) assms(2) new_ok len unfolding fresh_id_def ts by (cases new) auto
    moreover have "\<forall>t \<in> set (A @ new @ C). table_ok K t \<and> sst_sequence t < ls_nextSequence s \<and> 0 \<le> sm_level (sst_meta t)"
      using inv(2) ts new_ok False by auto
    ultimately show ?thesis using assms(1) sorted unfolding tables lsm_inv_def by simp
  qed
qed

section \<open>Steps\<close>

lemma mem_set_correct:
  assumes "lsm_inv lc K s" "key \<in> K"
  shows "lsm_inv lc K (mem_set key v b now s) \<and>
     store_map (mem_set key v b now s) = (store_map s)(key \<mapsto> \<lparr>cl_value = v, cl_isTombstone = b\<rparr>) \<and>
     ls_ssTables (mem_set key v b now s) = ls_ssTables s"
  using assms set_js_set_wf [of "ls_memTable s" key]
  by (auto simp: lsm_inv_def mem_set_def store_map_def mem_map_def map_add_def fun_eq_iff mem_cell_def js_keys_set
      simp flip: set_map split: if_splits)

lemma flush_if_full_correct:
  assumes "lsm_inv lc K s" "fresh_id s (''sstable_'' @ uuid)"
  shows "lsm_inv lc K (flush_if_full lc js uuid now s) \<and> store_map (flush_if_full lc js uuid now s) = store_map s"
  using assms flush_correct [OF assms] by (simp add: flush_if_full_def)

lemma write_correct:
  assumes "lsm_inv lc K s" "key \<in> K" "fresh_id s (''sstable_'' @ uuid)"
  shows "lsm_inv lc K (flush_if_full lc js uuid now (mem_set key v b now s)) \<and>
     store_map (flush_if_full lc js uuid now (mem_set key v b now s)) =
       (store_map s)(key \<mapsto> \<lparr>cl_value = v, cl_isTombstone = b\<rparr>)"
proof -
  note m = mem_set_correct [OF assms(1,2), of v b now]
  have "fresh_id (mem_set key v b now s) (''sstable_'' @ uuid)" using m assms(3) by (simp add: fresh_id_def)
  with m show ?thesis using flush_if_full_correct [of lc K "mem_set key v b now s"] by simp
qed

lemma put_correct:
  assumes "lsm_inv lc K s" "key \<in> K" "fresh_id s (''sstable_'' @ uuid)" "lsm_put lc js uuid now key v s = Inr t"
  shows "lsm_inv lc K t \<and> lsm_view t = (lsm_view s)(key \<mapsto> v)"
  using assms(4) write_correct [OF assms(1-3), of js now v False]
  by (auto simp: lsm_put_def fun_eq_iff lsm_view_def split: if_splits)

lemma delete_correct:
  assumes "lsm_inv lc K s" "key \<in> K" "fresh_id s (''sstable_'' @ uuid)" "lsm_delete lc js uuid now key s = Inr (t, b)"
  shows "lsm_inv lc K t \<and> (b \<longleftrightarrow> js_value (lsm_view s key) \<noteq> None) \<and>
     lsm_view t = (if b then (lsm_view s)(key := None) else lsm_view s)"
proof -
  have "key \<noteq> []" using assms(4) by (auto simp: lsm_delete_def lsm_get_def)
  note get = get_view [OF assms(1,2) this]
  show ?thesis
    using assms(1,4) write_correct [OF assms(1-3), of js now None True]
    by (auto simp: lsm_delete_def get fun_eq_iff lsm_view_def split: option.splits)
qed

inductive lsm_step ::
  "(string \<Rightarrow> string \<Rightarrow> int) \<Rightarrow> ('v lsm_entry list \<Rightarrow> nat option) \<Rightarrow> string set \<Rightarrow> 'v lsm \<Rightarrow> 'v lsm \<Rightarrow> bool"
  for lc js K where
  lsm_step_put: "key \<in> K \<Longrightarrow> fresh_id s (''sstable_'' @ uuid) \<Longrightarrow> lsm_put lc js uuid now key v s = Inr t \<Longrightarrow>
    lsm_step lc js K s t"
| lsm_step_delete: "key \<in> K \<Longrightarrow> fresh_id s (''sstable_'' @ uuid) \<Longrightarrow> lsm_delete lc js uuid now key s = Inr (t, b) \<Longrightarrow>
    lsm_step lc js K s t"
| lsm_step_flush: "fresh_id s (''sstable_'' @ uuid) \<Longrightarrow> t = fst (flushMemTable lc js uuid now s) \<Longrightarrow>
    lsm_step lc js K s t"
| lsm_step_compact: "fresh_id s (level_prefix (level + 1) @ uuid) \<Longrightarrow>
    t = fst (compact lc js uuid started created finished level s) \<Longrightarrow> lsm_step lc js K s t"

text \<open>The runs start from an empty store of a positive size, with a comparator that orders the keys by code units.\<close>

definition lsm_init :: "(string \<Rightarrow> string \<Rightarrow> int) \<Rightarrow> string set \<Rightarrow> 'v lsm \<Rightarrow> bool" where
  "lsm_init lc K s \<longleftrightarrow> key_order lc K \<and> (\<exists>n. new_lsm n = Inr s)"

lemma lsm_init_inv: "lsm_init lc K s \<Longrightarrow> lsm_inv lc K s"
  by (auto simp: lsm_init_def new_lsm_def lsm_inv_def split: if_splits)

lemma lsm_inv_step:
  assumes "lsm_step lc js K s t" "lsm_inv lc K s"
  shows "lsm_inv lc K t"
  using assms(1)
proof cases
  case lsm_step_put
  then show ?thesis using put_correct [OF assms(2)] by simp
next
  case lsm_step_delete
  then show ?thesis using delete_correct [OF assms(2)] by simp
next
  case lsm_step_flush
  then show ?thesis using flush_correct [OF assms(2)] by simp
next
  case lsm_step_compact
  then show ?thesis using compact_correct [OF assms(2)] by simp
qed

interpretation lsm: transition_system "lsm_init lc K" "lsm_step lc js K" "lsm_inv lc K"
  for lc :: "string \<Rightarrow> string \<Rightarrow> int" and K and js :: "'v lsm_entry list \<Rightarrow> nat option"
  by unfold_locales (rule lsm_init_inv, assumption, rule lsm_inv_step)

section \<open>Range reads\<close>

lemma overlay_get:
  assumes "distinct (map le_key es)"
  shows "js_get (overlay_entries es m) k = (case entry_map es k of Some c \<Rightarrow> Some c | None \<Rightarrow> js_get m k)"
  using assms
proof (induction es arbitrary: m)
  case (Cons e es)
  then have "entry_map es (le_key e) = None" by (simp add: entry_map_None)
  with Cons show ?case by (auto simp: overlay_entries_def entry_map_def split: option.split)
qed (simp add: overlay_entries_def entry_map_def)

lemma overlay_tables_get:
  assumes "\<forall>t \<in> set ts. distinct (map le_key (sst_entries t))"
  shows "js_get (fold (\<lambda>t. overlay_entries (sst_entries t)) (rev ts) []) = tables_map ts"
  using assms
proof (induction ts)
  case (Cons t ts)
  then show ?case by (auto simp: fun_eq_iff overlay_get map_add_def split: option.split)
qed simp

lemma overlay_mem_get:
  "js_wf m \<Longrightarrow> js_get (overlay_mem m base) k =
     (case js_get m k of Some v \<Rightarrow> Some (mem_cell v) | None \<Rightarrow> js_get base k)"
proof (induction m arbitrary: base)
  case (Cons x m)
  have "js_get m (fst x) = None" using Cons.prems by (simp add: map_of_eq_None_iff)
  with Cons show ?case by (cases x) (auto simp: overlay_mem_def split: option.split)
qed (simp add: overlay_mem_def)

lemma merged_view_get:
  assumes "lsm_inv lc K s"
  shows "js_get (merged_view s) = store_map s"
proof -
  have "\<forall>t \<in> set (ls_ssTables s). distinct (map le_key (sst_entries t))"
    using assms keys_sorted_distinct by (auto simp: lsm_inv_def table_ok_def)
  moreover have "js_wf (ls_memTable s)" using assms by (simp add: lsm_inv_def)
  ultimately show ?thesis
    unfolding merged_view_def
    by (auto simp: fun_eq_iff overlay_mem_get overlay_tables_get store_map_def mem_map_def map_add_def split: option.split)
qed

lemma overlay_wf: "js_wf m \<Longrightarrow> js_wf (overlay_entries es m)"
  by (induction es arbitrary: m) (auto simp: overlay_entries_def)

lemma merged_view_wf: "js_wf (merged_view s)"
proof -
  have t: "js_wf (fold (\<lambda>t. overlay_entries (sst_entries t)) ts m)" if "js_wf m" for ts m
    using that by (induction ts arbitrary: m) (auto simp: overlay_wf)
  have "js_wf (overlay_mem ms m)" if "js_wf m" for ms :: "(string, 'a mem_value) jsmap" and m
    using that by (induction ms arbitrary: m) (auto simp: overlay_mem_def)
  then show ?thesis unfolding merged_view_def by (simp add: t)
qed

text \<open>The rows of a range, without the limit.\<close>

definition scan_rows ::
  "(string, 'v cell) jsmap \<Rightarrow> string option \<Rightarrow> string option \<Rightarrow> string list \<Rightarrow> (string \<times> 'v option) list" where
  "scan_rows merged a b ks =
     map (\<lambda>k. (k, the (live (js_get merged k)))) (filter (\<lambda>k. \<not> out_of_range a b k \<and> live (js_get merged k) \<noteq> None) ks)"

lemma scan_keys_rows: "0 < n \<Longrightarrow> scan_keys merged a b n ks = take n (scan_rows merged a b ks)"
proof (induction ks arbitrary: n)
  case (Cons k ks)
  then have "scan_keys merged a b n ks = take n (scan_rows merged a b ks)"
    and "\<not> n \<le> 1 \<Longrightarrow> scan_keys merged a b (n - 1) ks = take (n - 1) (scan_rows merged a b ks)" by simp_all
  then show ?case using Cons.prems by (cases n) (auto simp: scan_rows_def split: option.split)
qed (simp add: scan_rows_def)

lemma scan_rows_correct:
  assumes "js_wf merged"
  shows "sorted_wrt (<) (map fst (scan_rows merged a b (sort (js_keys merged)))) \<and>
     set (scan_rows merged a b (sort (js_keys merged))) =
       {(k, v). \<not> out_of_range a b k \<and> live (js_get merged k) = Some v}"
proof
  have "sorted_wrt (<) (sort (js_keys merged))" using assms by (simp add: strict_sorted_iff)
  then show "sorted_wrt (<) (map fst (scan_rows merged a b (sort (js_keys merged))))"
    by (simp add: scan_rows_def comp_def sorted_wrt_filter)
  have key: "k \<in> set (js_keys merged)" if "live (js_get merged k) = Some v" for k v
    using that js_get_None_iff [of merged k] by (cases "js_get merged k") auto
  show "set (scan_rows merged a b (sort (js_keys merged))) = {(k, v). \<not> out_of_range a b k \<and> live (js_get merged k) = Some v}"
  proof (rule set_eqI)
    fix p :: "string \<times> 'a option"
    obtain k v where p: "p = (k, v)" by (cases p)
    have "p \<in> set (scan_rows merged a b (sort (js_keys merged))) \<longleftrightarrow>
        k \<in> set (js_keys merged) \<and> \<not> out_of_range a b k \<and> live (js_get merged k) \<noteq> None \<and> v = the (live (js_get merged k))"
      unfolding p scan_rows_def by auto
    then show "p \<in> set (scan_rows merged a b (sort (js_keys merged))) \<longleftrightarrow>
        p \<in> {(k, v). \<not> out_of_range a b k \<and> live (js_get merged k) = Some v}"
      using key [of k v] unfolding p by auto
  qed
qed

section \<open>What the store guarantees\<close>

text \<open>C24. The store is a map, on a set of keys on which the comparator \<^verbatim>\<open>localeCompare\<close> and the code unit order agree
  (\<open>key_order\<close>), with fresh table identifiers: in every state reached by writes and deletions of such keys, flushes and
  compactions, a read of a non-empty key returns the value the store holds for it, a write changes the map at its key and
  nowhere else, a deletion removes its key and says whether it was there, and a flush or a compaction of any level,
  tombstones purged or not, changes nothing a reader can see. The condition on the keys is needed: with keys as plain as
  \<^verbatim>\<open>a\<close> and \<^verbatim>\<open>B\<close> the usual collations disagree with the code unit order, and the store loses them
  (\<open>locale_order_loses_keys\<close>).\<close>

theorem lsm_refines_map:
  assumes "reach (lsm_init lc K) (lsm_step lc js K) s" and "key \<in> K" and "key \<noteq> []"
    and "fresh_id s (''sstable_'' @ uuid)" and "fresh_id s (level_prefix (level + 1) @ uuid)"
  shows "lsm_get lc key s = Inr (js_value (lsm_view s key)) \<and>
     (\<exists>t. lsm_put lc js uuid now key v s = Inr t \<and> lsm_view t = (lsm_view s)(key \<mapsto> v)) \<and>
     (\<exists>t. lsm_delete lc js uuid now key s = Inr (t, js_value (lsm_view s key) \<noteq> None) \<and>
          lsm_view t = (if js_value (lsm_view s key) \<noteq> None then (lsm_view s)(key := None) else lsm_view s)) \<and>
     lsm_view (fst (flushMemTable lc js uuid now s)) = lsm_view s \<and>
     lsm_view (fst (compact lc js uuid started now finished level s)) = lsm_view s"
proof -
  have inv: "lsm_inv lc K s" by (rule lsm.reach_inv [OF assms(1)])
  note get = get_view [OF inv assms(2,3)]
  have put: "lsm_put lc js uuid now key v s = Inr (flush_if_full lc js uuid now (mem_set key v False now s))"
    using assms(3) by (simp add: lsm_put_def)
  obtain t b where del: "lsm_delete lc js uuid now key s = Inr (t, b)"
    by (cases "js_value (lsm_view s key)") (auto simp: lsm_delete_def get)
  have "lsm_view (fst (flushMemTable lc js uuid now s)) = lsm_view s"
    using flush_correct [OF inv assms(4)] by (simp add: lsm_view_def fun_eq_iff)
  then show ?thesis
    using get put_correct [OF inv assms(2,4) put] put delete_correct [OF inv assms(2,4) del] del
      compact_correct [OF inv assms(5) refl] by auto
qed

text \<open>A range read returns, in key order, the first \<^verbatim>\<open>limit\<close> of the keys in the range that the store holds,
  with their values.\<close>

theorem scan_is_range:
  assumes "reach (lsm_init lc K) (lsm_step lc js K) s" and "0 < limit" and "is_safe_integer limit"
    and "lsm_scan startKey endKey limit s \<noteq> Inl Bad_range"
  shows "\<exists>rows. lsm_scan startKey endKey limit s = Inr (take (nat limit) rows) \<and> sorted_wrt (<) (map fst rows) \<and>
     set rows = {(k, v). \<not> out_of_range startKey endKey k \<and> lsm_view s k = Some v}"
proof -
  have inv: "lsm_inv lc K s" by (rule lsm.reach_inv [OF assms(1)])
  let ?rows = "scan_rows (merged_view s) startKey endKey (sort (js_keys (merged_view s)))"
  have "lsm_scan startKey endKey limit s = Inr (take (nat limit) ?rows)"
    using assms(2-4) by (auto simp: lsm_scan_def scan_keys_rows split: if_splits)
  moreover have "live (js_get (merged_view s) k) = lsm_view s k" for k
    by (simp add: merged_view_get [OF inv] lsm_view_def)
  ultimately show ?thesis using scan_rows_correct [OF merged_view_wf, of s startKey endKey] by auto
qed

text \<open>Where the comparator of the locale and the code unit order disagree, the store loses keys: a collation
  that puts \<^verbatim>\<open>a\<close> before \<^verbatim>\<open>B\<close>, as the usual ones do, flushes a table whose bounds exclude both of its keys, and
  neither is found again.\<close>

theorem locale_order_loses_keys:
  assumes "lc ''a'' ''B'' < 0" and "lc ''B'' ''a'' > 0" and "js [\<lparr>le_key = ''a'', le_value = Some x, le_isTombstone = False\<rparr>,
      \<lparr>le_key = ''B'', le_value = Some y, le_isTombstone = False\<rparr>] = Some bytes"
    and "new_lsm 2 = Inr s0" and "lsm_put lc js u 1 ''a'' (Some x) s0 = Inr s1" and "lsm_put lc js u 2 ''B'' (Some y) s1 = Inr s2"
  shows "lsm_view s2 ''a'' = Some (Some x) \<and> lsm_get lc ''a'' s2 = Inr None \<and>
     lsm_view s2 ''B'' = Some (Some y) \<and> lsm_get lc ''B'' s2 = Inr None"
proof -
  have s0: "s0 = \<lparr>ls_maxMemTableSize = 2, ls_memTable = [], ls_ssTables = [], ls_nextSequence = 1\<rparr>"
    using assms(4) by (simp add: new_lsm_def)
  have s1: "s1 = \<lparr>ls_maxMemTableSize = 2, ls_memTable = [(''a'', \<lparr>mm_value = Some x, mm_isTombstone = False, mm_timestamp = 1\<rparr>)],
      ls_ssTables = [], ls_nextSequence = 1\<rparr>"
    using assms(5) by (simp add: s0 lsm_put_def flush_if_full_def mem_set_def)
  let ?es = "[\<lparr>le_key = ''a'', le_value = Some x, le_isTombstone = False\<rparr>, \<lparr>le_key = ''B'', le_value = Some y, le_isTombstone = False\<rparr>]"
  have es: "sort_entries lc (map mem_entry (ls_memTable s1 @ [(''B'', \<lparr>mm_value = Some y, mm_isTombstone = False, mm_timestamp = 2\<rparr>)])) = ?es"
    using assms(1) by (simp add: s1 sort_entries_def mem_entry_def)
  have s2: "s2 = \<lparr>ls_maxMemTableSize = 2, ls_memTable = [],
      ls_ssTables = [\<lparr>sst_meta = flush_meta (''sstable_'' @ u) 0 2 ?es bytes, sst_entries = ?es, sst_sequence = 1\<rparr>], ls_nextSequence = Suc 1\<rparr>"
    using assms(3,6) es by (simp add: s1 lsm_put_def flush_if_full_def mem_set_def flushMemTable_def Let_def)
  have lt: "''B'' < ''a''" by code_simp
  then show ?thesis
    by (simp add: s2 lsm_view_def store_map_def entry_map_def entry_cell_def mem_map_def map_add_def lsm_get_def flush_meta_def)
qed

section \<open>Witnesses\<close>

definition code_compare :: "string \<Rightarrow> string \<Rightarrow> int" where
  "code_compare a b = (if a = b then 0 else if a < b then - 1 else 1)"

definition nocase_compare :: "string \<Rightarrow> string \<Rightarrow> int" where
  "nocase_compare a b = code_compare (map (\<lambda>c. if CHR ''A'' \<le> c \<and> c \<le> CHR ''Z'' then char_of (of_char c + (32 :: nat)) else c) a)
     (map (\<lambda>c. if CHR ''A'' \<le> c \<and> c \<le> CHR ''Z'' then char_of (of_char c + (32 :: nat)) else c) b)"

lemma key_order_code: "key_order code_compare K"
  by (auto simp: key_order_def code_compare_def)

text \<open>A store of two entries a table: \<^verbatim>\<open>x\<close> and \<^verbatim>\<open>y\<close> are written and flushed, \<^verbatim>\<open>x\<close> is deleted and \<^verbatim>\<open>z\<close> written and flushed.\<close>

definition sample_json :: "nat lsm_entry list \<Rightarrow> nat option" where
  "sample_json es = Some (length es)"

definition sample_lsm :: "nat lsm" where
  "sample_lsm =
     (let put = (\<lambda>u k v s. projr (lsm_put code_compare sample_json u 0 k (Some v) s));
          s = put ''u1'' ''y'' 2 (put ''u1'' ''x'' 1 (projr (new_lsm 2)))
      in put ''u2'' ''z'' 3 (fst (projr (lsm_delete code_compare sample_json ''u2'' 0 ''x'' s))))"

lemma sample_lsm_reach: "reach (lsm_init code_compare UNIV) (lsm_step code_compare sample_json UNIV) sample_lsm"
proof -
  let ?R = "reach (lsm_init code_compare UNIV) (lsm_step code_compare sample_json UNIV)"
  define put where "put = (\<lambda>u k v s. projr (lsm_put code_compare sample_json u 0 k (Some v) s))"
  define s0 where "s0 = (projr (new_lsm 2) :: nat lsm)"
  define s2 where "s2 = put ''u1'' ''y'' 2 (put ''u1'' ''x'' 1 s0)"
  define s3 where "s3 = fst (projr (lsm_delete code_compare sample_json ''u2'' 0 ''x'' s2))"
  have put: "?R (put u k v s)" if "?R s" "k \<noteq> []" "fresh_id s (''sstable_'' @ u)" for u k v s
  proof (rule reach_step [OF that(1)])
    have "lsm_put code_compare sample_json u 0 k (Some v) s = Inr (put u k v s)"
      using that(2) by (simp add: put_def lsm_put_def)
    then show "lsm_step code_compare sample_json UNIV s (put u k v s)" by (rule lsm_step_put [OF UNIV_I that(3)])
  qed
  have "?R s0" by (rule reach_init) (simp add: lsm_init_def key_order_code s0_def new_lsm_def exI [of _ 2])
  moreover have "fresh_id s0 ''sstable_u1''" "fresh_id (put ''u1'' ''x'' 1 s0) ''sstable_u1''"
    unfolding put_def s0_def fresh_id_def by code_simp+
  ultimately have s2: "?R s2" unfolding s2_def by (intro put) simp_all
  have "?R s3"
  proof (rule reach_step [OF s2])
    have "lsm_delete code_compare sample_json ''u2'' 0 ''x'' s2 = Inr (s3, True)"
      unfolding s3_def s2_def put_def s0_def by code_simp
    moreover have "fresh_id s2 (''sstable_'' @ ''u2'')" unfolding s2_def put_def s0_def fresh_id_def by code_simp
    ultimately show "lsm_step code_compare sample_json UNIV s2 s3" by (blast intro: lsm_step_delete)
  qed
  moreover have "fresh_id s3 ''sstable_u2''" unfolding s3_def s2_def put_def s0_def fresh_id_def by code_simp
  ultimately have "?R (put ''u2'' ''z'' 3 s3)" by (intro put) simp_all
  then show ?thesis unfolding s3_def s2_def s0_def put_def by (simp add: sample_lsm_def Let_def)
qed

theorem lsm_refines_map_witness:
  "lsm_get code_compare ''y'' sample_lsm = Inr (js_value (lsm_view sample_lsm ''y'')) \<and>
   map (\<lambda>t. sm_recordCount (sst_meta t)) (ls_ssTables (fst (compact code_compare sample_json ''u3'' 0 0 0 0 sample_lsm))) = [2] \<and>
   lsm_view (fst (compact code_compare sample_json ''u3'' 0 0 0 0 sample_lsm)) = lsm_view sample_lsm"
proof -
  have f: "fresh_id sample_lsm (''sstable_'' @ ''u3'')" "fresh_id sample_lsm (level_prefix (0 + 1) @ ''u3'')"
    unfolding fresh_id_def by code_simp+
  have "map (\<lambda>t. sm_recordCount (sst_meta t)) (ls_ssTables (fst (compact code_compare sample_json ''u3'' 0 0 0 0 sample_lsm))) = [2]"
    by code_simp
  then show ?thesis using lsm_refines_map [OF sample_lsm_reach UNIV_I _ f, of "''y''"] by simp
qed

theorem scan_is_range_witness:
  "lsm_scan (Some ''x'') None 10 sample_lsm = Inr [(''y'', Some 2), (''z'', Some 3)] \<and>
   lsm_view sample_lsm ''z'' = Some (Some 3)"
proof -
  have scan: "lsm_scan (Some ''x'') None 10 sample_lsm = Inr [(''y'', Some 2), (''z'', Some 3)]" by code_simp
  have ok: "lsm_scan (Some ''x'') None 10 sample_lsm \<noteq> Inl Bad_range" unfolding scan by simp
  have n: "(0::int) < 10" "is_safe_integer 10" by simp_all
  obtain rows where rows: "[(''y'', Some 2), (''z'', Some 3)] = take (nat 10) rows"
    "set rows = {(k, v). \<not> out_of_range (Some ''x'') None k \<and> lsm_view sample_lsm k = Some v}"
    using scan_is_range [OF sample_lsm_reach n ok] unfolding scan by blast
  have "(''z'', Some 3) \<in> set (take (nat 10) rows)" unfolding rows(1) [symmetric] by simp
  then have "(''z'', Some 3) \<in> set rows" by (rule in_set_takeD)
  then show ?thesis using scan rows(2) by simp
qed

theorem locale_order_loses_keys_witness:
  "nocase_compare ''a'' ''B'' < 0 \<and>
   (let put = (\<lambda>k v s. projr (lsm_put nocase_compare sample_json ''u'' v k (Some (nat v)) s));
        s = put ''B'' 2 (put ''a'' 1 (projr (new_lsm 2)))
    in lsm_get nocase_compare ''a'' s = Inr None \<and> lsm_view s ''a'' = Some (Some 1))"
proof -
  define s0 where "s0 = (projr (new_lsm 2) :: nat lsm)"
  define s1 where "s1 = projr (lsm_put nocase_compare sample_json ''u'' 1 ''a'' (Some 1) s0)"
  define s2 where "s2 = projr (lsm_put nocase_compare sample_json ''u'' 2 ''B'' (Some 2) s1)"
  have c: "nocase_compare ''a'' ''B'' < 0" "nocase_compare ''B'' ''a'' > 0" by code_simp+
  have j: "sample_json [\<lparr>le_key = ''a'', le_value = Some 1, le_isTombstone = False\<rparr>,
      \<lparr>le_key = ''B'', le_value = Some 2, le_isTombstone = False\<rparr>] = Some 2" by (simp add: sample_json_def)
  have "new_lsm 2 = Inr s0" by (simp add: s0_def new_lsm_def)
  moreover have "lsm_put nocase_compare sample_json ''u'' 1 ''a'' (Some 1) s0 = Inr s1"
    "lsm_put nocase_compare sample_json ''u'' 2 ''B'' (Some 2) s1 = Inr s2"
    by (simp_all add: s1_def s2_def lsm_put_def)
  ultimately have "lsm_view s2 ''a'' = Some (Some 1) \<and> lsm_get nocase_compare ''a'' s2 = Inr None"
    using locale_order_loses_keys [where lc = nocase_compare and js = sample_json and x = 1 and y = 2, OF c j] by blast
  then show ?thesis using c(1) by (simp add: s2_def s1_def s0_def Let_def)
qed

end
