(* ===== verification/Db_Values.thy ===== *)
theory Db_Values
  imports Lifecycle_Types "HOL-Library.List_Lexorder" "HOL-Library.Char_ord"
begin

text \<open>
  Values, rows and the schema engine of the BroccoliDB tables under
  \<^verbatim>\<open>src/sessions/extensions/substrate\<close>: what a field holds, how JavaScript compares two values, and
  \<^verbatim>\<open>BroccoliSchemaEngine\<close> of \<^verbatim>\<open>broccolidb-schema-engine.ts\<close>.

  A row is the JSON data the log and the checkpoints can hold. Its numbers are integers; dates, functions and
  \<^verbatim>\<open>NaN\<close> are left out. The conversions of the language from text to a number and to a date, and the test of a
  regular expression given by its text, are fields of the argument \<open>E\<close>.
\<close>

section \<open>Values\<close>

datatype prim = Undefined | Null | Bool bool | Num int | Str string

text \<open>\<open>Obj\<close> holds an array or an object.\<close>

datatype db_cell = Prim prim | Obj json

type_synonym row = "(string, db_cell) jsmap"

record db_env =
  env_toNumber :: "string \<Rightarrow> int option"
  env_parseDate :: "string \<Rightarrow> int option"
  env_regexp :: "string \<Rightarrow> string \<Rightarrow> bool"

text \<open>\<^verbatim>\<open>JSON.stringify\<close>\<close>

definition hex_digit :: "nat \<Rightarrow> char" where
  "hex_digit n = char_of (if n < 10 then 48 + n else 87 + n)"

definition json_escape :: "char \<Rightarrow> string" where
  "json_escape c =
     (let n = (of_char c :: nat); b = char_of (92 :: nat) in
      if n = 34 \<or> n = 92 then [b, c]
      else if n = 8 then [b, CHR ''b''] else if n = 9 then [b, CHR ''t''] else if n = 10 then [b, CHR ''n'']
      else if n = 12 then [b, CHR ''f''] else if n = 13 then [b, CHR ''r'']
      else if n < 32 then b # ''u00'' @ [hex_digit (n div 16), hex_digit (n mod 16)]
      else [c])"

definition json_quote :: "string \<Rightarrow> string" where
  "json_quote s = (let q = char_of (34 :: nat) in q # concat (map json_escape s) @ [q])"

fun json_text :: "json \<Rightarrow> string" where
  "json_text JNull = ''null''"
| "json_text (JBool b) = (if b then ''true'' else ''false'')"
| "json_text (JNum n) = show_int n"
| "json_text (JStr s) = json_quote s"
| "json_text (JArr xs) = ''['' @ intersperse_comma (map json_text xs) @ '']''"
| "json_text (JObj fs) = ''{'' @ intersperse_comma (map (\<lambda>(k, v). json_quote k @ '':'' @ json_text v) fs) @ ''}''"

definition cell_json :: "db_cell \<Rightarrow> json option" where
  "cell_json c =
     (case c of
        Prim Undefined \<Rightarrow> None | Prim Null \<Rightarrow> Some JNull | Prim (Bool b) \<Rightarrow> Some (JBool b)
      | Prim (Num n) \<Rightarrow> Some (JNum n) | Prim (Str s) \<Rightarrow> Some (JStr s) | Obj j \<Rightarrow> Some j)"

text \<open>A property that is undefined is left out.\<close>

definition row_json :: "row \<Rightarrow> json" where
  "row_json r = JObj (List.map_filter (\<lambda>(f, c). map_option (Pair f) (cell_json c)) r)"

text \<open>What a sorted index holds, and what a range condition compares with.\<close>

datatype sort_value = S_num int | S_str string

definition to_lower :: "string \<Rightarrow> string" where
  "to_lower s = map (\<lambda>c. let n = (of_char c :: nat) in
     if (65 \<le> n \<and> n \<le> 90) \<or> (192 \<le> n \<and> n \<le> 222 \<and> n \<noteq> 215) then char_of (n + 32) else c) s"

lemma length_to_lower [simp]: "length (to_lower s) = length s"
  by (simp add: to_lower_def)

lemma take_to_lower: "take n (to_lower s) = to_lower (take n s)"
  by (simp add: to_lower_def take_map)

section \<open>Comparison\<close>

text \<open>\<^verbatim>\<open>a === b\<close>, where an object equals no other.\<close>

definition strict_eq :: "db_cell \<Rightarrow> db_cell \<Rightarrow> bool" where
  "strict_eq a b = (case (a, b) of (Prim p, Prim q) \<Rightarrow> p = q | _ \<Rightarrow> False)"

lemma strict_eq_prim [simp]: "strict_eq c (Prim p) \<longleftrightarrow> c = Prim p"
  by (auto simp: strict_eq_def split: db_cell.split)

text \<open>\<^verbatim>\<open>ToPrimitive\<close> of a value that is neither undefined nor null, and \<^verbatim>\<open>ToNumber\<close>, \<open>None\<close> for \<^verbatim>\<open>NaN\<close>.\<close>

definition to_primitive :: "db_env \<Rightarrow> db_cell \<Rightarrow> sort_value option" where
  "to_primitive E c =
     (case c of
        Prim Undefined \<Rightarrow> None
      | Prim Null \<Rightarrow> Some (S_num 0)
      | Prim (Bool b) \<Rightarrow> Some (S_num (if b then 1 else 0))
      | Prim (Num n) \<Rightarrow> Some (S_num n)
      | Prim (Str s) \<Rightarrow> Some (S_str s)
      | Obj j \<Rightarrow> Some (S_str (js_String j)))"

definition sort_number :: "db_env \<Rightarrow> sort_value \<Rightarrow> int option" where
  "sort_number E v = (case v of S_num n \<Rightarrow> Some n | S_str s \<Rightarrow> env_toNumber E s)"

definition sort_lt :: "db_env \<Rightarrow> sort_value \<Rightarrow> sort_value \<Rightarrow> bool" where
  "sort_lt E a b =
     (case (a, b) of
        (S_str s, S_str t) \<Rightarrow> s < t
      | _ \<Rightarrow> (case (sort_number E a, sort_number E b) of (Some x, Some y) \<Rightarrow> x < y | _ \<Rightarrow> False))"

definition sort_le :: "db_env \<Rightarrow> sort_value \<Rightarrow> sort_value \<Rightarrow> bool" where
  "sort_le E a b =
     (case (a, b) of
        (S_str s, S_str t) \<Rightarrow> s \<le> t
      | _ \<Rightarrow> (case (sort_number E a, sort_number E b) of (Some x, Some y) \<Rightarrow> x \<le> y | _ \<Rightarrow> False))"

text \<open>\<^verbatim>\<open>a < b\<close> and \<^verbatim>\<open>a <= b\<close> on values, false when one is undefined.\<close>

definition cell_compare :: "(sort_value \<Rightarrow> sort_value \<Rightarrow> bool) \<Rightarrow> db_env \<Rightarrow> db_cell \<Rightarrow> db_cell \<Rightarrow> bool" where
  "cell_compare R E a b = (case (to_primitive E a, to_primitive E b) of (Some x, Some y) \<Rightarrow> R x y | _ \<Rightarrow> False)"

definition cell_of_sort :: "sort_value \<Rightarrow> db_cell" where
  "cell_of_sort v = (case v of S_num n \<Rightarrow> Prim (Num n) | S_str s \<Rightarrow> Prim (Str s))"

definition normalizeSortableValue :: "db_cell \<Rightarrow> sort_value option" where
  "normalizeSortableValue c =
     (case c of Prim (Num n) \<Rightarrow> Some (S_num n) | Prim (Str s) \<Rightarrow> Some (S_str s) | _ \<Rightarrow> None)"

lemma to_primitive_sortable: "normalizeSortableValue c = Some v \<Longrightarrow> to_primitive E c = Some v"
  by (auto simp: normalizeSortableValue_def to_primitive_def split: db_cell.splits prim.splits)

lemma to_primitive_cell_of_sort [simp]: "to_primitive E (cell_of_sort v) = Some v"
  by (cases v) (simp_all add: to_primitive_def cell_of_sort_def)

text \<open>Values of one kind are ordered; \<open>True\<close> is the kind of numbers.\<close>

definition kind :: "bool \<Rightarrow> sort_value set" where
  "kind b = (if b then range S_num else range S_str)"

lemma kind_order:
  assumes "a \<in> kind b" and "c \<in> kind b"
  shows "sort_lt E a c \<or> a = c \<or> sort_lt E c a" and "sort_lt E a c \<Longrightarrow> \<not> sort_lt E c a" and "\<not> sort_lt E a a"
    and "sort_le E a c \<longleftrightarrow> \<not> sort_lt E c a"
  using assms by (auto simp: kind_def sort_lt_def sort_le_def sort_number_def split: if_splits)

lemma kind_trans:
  assumes "a \<in> kind b" and "c \<in> kind b" and "d \<in> kind b" and "sort_lt E a c" and "sort_lt E c d"
  shows "sort_lt E a d"
  using assms by (auto simp: kind_def sort_lt_def sort_number_def split: if_splits)

section \<open>The schema engine\<close>

datatype field_type = T_number | T_string | T_boolean | T_array | T_object | T_date

record field_def =
  fd_type :: field_type
  fd_required :: bool
  fd_default :: db_cell

record table_schema =
  ts_version :: int
  ts_fields :: "(string, field_def) jsmap"

definition get_field :: "row \<Rightarrow> string \<Rightarrow> db_cell" where
  "get_field r f = (case js_get r f of None \<Rightarrow> Prim Undefined | Some c \<Rightarrow> c)"

definition missing :: "db_cell \<Rightarrow> bool" where
  "missing c \<longleftrightarrow> c = Prim Undefined \<or> c = Prim Null"

definition is_array :: "db_cell \<Rightarrow> bool" where
  "is_array c = (case c of Obj (JArr _) \<Rightarrow> True | _ \<Rightarrow> False)"

definition is_object :: "db_cell \<Rightarrow> bool" where
  "is_object c = (case c of Obj (JObj _) \<Rightarrow> True | _ \<Rightarrow> False)"

text \<open>\<^verbatim>\<open>Number(v)\<close> and \<^verbatim>\<open>String(v)\<close> of a value that is neither undefined nor null.\<close>

definition to_js_number :: "db_env \<Rightarrow> db_cell \<Rightarrow> int option" where
  "to_js_number E c = (case to_primitive E c of None \<Rightarrow> None | Some v \<Rightarrow> sort_number E v)"

definition js_string :: "db_cell \<Rightarrow> string" where
  "js_string c =
     (case c of
        Prim Undefined \<Rightarrow> ''undefined'' | Prim Null \<Rightarrow> ''null''
      | Prim (Bool b) \<Rightarrow> if b then ''true'' else ''false''
      | Prim (Num n) \<Rightarrow> show_int n | Prim (Str s) \<Rightarrow> s | Obj j \<Rightarrow> js_String j)"

text \<open>The value a field is coerced to; \<open>None\<close> is an error.\<close>

definition coerce_value :: "db_env \<Rightarrow> field_type \<Rightarrow> db_cell \<Rightarrow> db_cell option" where
  "coerce_value E ty v =
     (case ty of
        T_number \<Rightarrow> (case v of Prim (Num n) \<Rightarrow> Some v | _ \<Rightarrow> map_option (\<lambda>n. Prim (Num n)) (to_js_number E v))
      | T_string \<Rightarrow> (case v of Prim (Str s) \<Rightarrow> Some v | _ \<Rightarrow> Some (Prim (Str (js_string v))))
      | T_boolean \<Rightarrow>
          (case v of Prim (Bool b) \<Rightarrow> Some v
           | _ \<Rightarrow> if v = Prim (Str ''true'') \<or> v = Prim (Num 1) then Some (Prim (Bool True))
                 else if v = Prim (Str ''false'') \<or> v = Prim (Num 0) then Some (Prim (Bool False)) else None)
      | T_array \<Rightarrow> if is_array v then Some v else None
      | T_object \<Rightarrow> if is_object v then Some v else None
      | T_date \<Rightarrow>
          (case v of
             Prim (Str s) \<Rightarrow> (case env_parseDate E s of Some n \<Rightarrow> Some (Prim (Num n)) | None \<Rightarrow> Some v)
           | _ \<Rightarrow> Some v))"

text \<open>The fields one after another; the number of errors counts.\<close>

definition coerce_field :: "db_env \<Rightarrow> string \<times> field_def \<Rightarrow> row \<times> nat \<Rightarrow> row \<times> nat" where
  "coerce_field E fd acc =
     (let (f, d) = fd; (r, errors) = acc; v = get_field r f in
      if missing v
      then (if fd_default d \<noteq> Prim Undefined
            then (case coerce_value E (fd_type d) (fd_default d) of
                    Some w \<Rightarrow> (js_set (js_set r f (fd_default d)) f w, errors)
                  | None \<Rightarrow> (js_set r f (fd_default d), Suc errors))
            else if fd_required d then (r, Suc errors) else (r, errors))
      else (case coerce_value E (fd_type d) v of Some w \<Rightarrow> (js_set r f w, errors) | None \<Rightarrow> (r, Suc errors)))"

definition validateAndCoerce :: "db_env \<Rightarrow> table_schema option \<Rightarrow> row \<Rightarrow> row \<times> nat" where
  "validateAndCoerce E schema r =
     (case schema of None \<Rightarrow> (r, 0) | Some s \<Rightarrow> fold (coerce_field E) (ts_fields s) (r, 0))"

end
