(* ===== verification/Db_Index.thy ===== *)
theory Db_Index
  imports Db_Values
begin

text \<open>
  The index structures of a BroccoliDB table, \<^verbatim>\<open>broccolidb-table.ts\<close>: maps from a key to a set of record identifiers,
  and a list of entries sorted by value that is searched by halving. Both keep, per key, a set of identifiers, the interface \<open>id_index\<close>,
  and the lemmas on covering the records of a table are proved from it once.

  A JavaScript set is a list without repetition, in insertion order.
\<close>

declare map_of_eq_Some_iff [simp del]
declare Some_eq_map_of_iff [simp del]

section \<open>Sets of identifiers\<close>

definition set_add :: "'a list \<Rightarrow> 'a \<Rightarrow> 'a list" where
  "set_add xs x = (if x \<in> set xs then xs else xs @ [x])"

definition set_remove :: "'a list \<Rightarrow> 'a \<Rightarrow> 'a list" where
  "set_remove xs x = filter (\<lambda>y. y \<noteq> x) xs"

lemma set_set_add [simp]: "set (set_add xs x) = insert x (set xs)"
  by (auto simp: set_add_def)

lemma set_set_remove [simp]: "set (set_remove xs x) = set xs - {x}"
  by (auto simp: set_remove_def)

lemma distinct_set_add [simp]: "distinct xs \<Longrightarrow> distinct (set_add xs x)"
  by (simp add: set_add_def)

lemma distinct_set_remove [simp]: "distinct xs \<Longrightarrow> distinct (set_remove xs x)"
  by (simp add: set_remove_def)

section \<open>Maps to sets\<close>

type_synonym 'k id_map = "('k, string list) jsmap"

definition idmap_add :: "'k id_map \<Rightarrow> 'k \<Rightarrow> string \<Rightarrow> 'k id_map" where
  "idmap_add m k i = (case js_get m k of None \<Rightarrow> js_set m k [i] | Some s \<Rightarrow> js_set m k (set_add s i))"

definition idmap_remove :: "'k id_map \<Rightarrow> 'k \<Rightarrow> string \<Rightarrow> 'k id_map" where
  "idmap_remove m k i = (case js_get m k of None \<Rightarrow> m | Some s \<Rightarrow> js_set m k (set_remove s i))"

definition idmap_ids :: "'k id_map \<Rightarrow> 'k \<Rightarrow> string list" where
  "idmap_ids m k = (case js_get m k of None \<Rightarrow> [] | Some s \<Rightarrow> s)"

definition idmap_ok :: "'k id_map \<Rightarrow> bool" where
  "idmap_ok m \<longleftrightarrow> (\<forall>k s. js_get m k = Some s \<longrightarrow> distinct s)"

section \<open>Sorted entries\<close>

type_synonym sorted_entries = "(sort_value \<times> string list) list"

text \<open>The index of the value, or the place where it goes.\<close>

function sorted_search :: "db_env \<Rightarrow> sorted_entries \<Rightarrow> sort_value \<Rightarrow> int \<Rightarrow> int \<Rightarrow> int \<times> bool" where
  "sorted_search E xs v low high =
     (if high < low then (low, False)
      else let mid = (low + high) div 2; x = fst (xs ! nat mid) in
        if x = v then (mid, True)
        else if sort_lt E x v then sorted_search E xs v (mid + 1) high else sorted_search E xs v low (mid - 1))"
  by pat_completeness auto
termination by (relation "measure (\<lambda>(E, xs, v, low, high). nat (high - low + 1))") auto

declare sorted_search.simps [simp del]

definition insertSortedIndexEntry :: "db_env \<Rightarrow> sorted_entries \<Rightarrow> sort_value \<Rightarrow> string \<Rightarrow> sorted_entries" where
  "insertSortedIndexEntry E xs v i =
     (let (at', found) = sorted_search E xs v 0 (int (length xs) - 1); n = nat at' in
      if found then xs[n := (fst (xs ! n), set_add (snd (xs ! n)) i)] else take n xs @ (v, [i]) # drop n xs)"

definition removeSortedIndexEntry :: "db_env \<Rightarrow> sorted_entries \<Rightarrow> sort_value \<Rightarrow> string \<Rightarrow> sorted_entries" where
  "removeSortedIndexEntry E xs v i =
     (let (at', found) = sorted_search E xs v 0 (int (length xs) - 1); n = nat at' in
      if found
      then (let s = set_remove (snd (xs ! n)) i in
            if s = [] then take n xs @ drop (Suc n) xs else xs[n := (fst (xs ! n), s)])
      else xs)"

definition sorted_ids :: "sorted_entries \<Rightarrow> sort_value \<Rightarrow> string list" where
  "sorted_ids xs v = (case map_of xs v of None \<Rightarrow> [] | Some s \<Rightarrow> s)"

definition sorted_ok :: "db_env \<Rightarrow> bool \<Rightarrow> sorted_entries \<Rightarrow> bool" where
  "sorted_ok E b xs \<longleftrightarrow> sorted_wrt (sort_lt E) (map fst xs) \<and> fst ` set xs \<subseteq> kind b \<and> (\<forall>(v, s) \<in> set xs. distinct s)"

fun sorted_scan :: "(sort_value \<Rightarrow> bool) \<Rightarrow> (sort_value \<Rightarrow> bool) \<Rightarrow> sorted_entries \<Rightarrow> string list \<Rightarrow> string list" where
  "sorted_scan below past [] ids = ids"
| "sorted_scan below past ((v, s) # xs) ids =
     (if below v then sorted_scan below past xs ids
      else if past v then ids
      else sorted_scan below past xs (foldl set_add ids s))"

text \<open>Bounds that are undefined do not bound.\<close>

definition scanSortedIndexRange ::
  "db_env \<Rightarrow> sorted_entries \<Rightarrow> sort_value option \<Rightarrow> sort_value option \<Rightarrow> bool \<Rightarrow> bool \<Rightarrow> string list" where
  "scanSortedIndexRange E xs min' max' includeMin includeMax =
     sorted_scan
       (\<lambda>v. case min' of None \<Rightarrow> False | Some m \<Rightarrow> if includeMin then sort_lt E v m else sort_le E v m)
       (\<lambda>v. case max' of None \<Rightarrow> False | Some m \<Rightarrow> if includeMax then sort_lt E m v else sort_le E m v)
       xs []"

section \<open>The interface\<close>

text \<open>
  \<open>add\<close> and \<open>remove\<close> change the set of one key; \<open>K\<close> are the keys the structure is for.
\<close>

locale id_index =
  fixes add remove :: "'ix \<Rightarrow> 'k \<Rightarrow> string \<Rightarrow> 'ix" and ids :: "'ix \<Rightarrow> 'k \<Rightarrow> string list" and ok :: "'ix \<Rightarrow> bool" and K :: "'k set"
  assumes ok_add: "ok ix \<Longrightarrow> k \<in> K \<Longrightarrow> ok (add ix k i)"
    and ok_remove: "ok ix \<Longrightarrow> k \<in> K \<Longrightarrow> ok (remove ix k i)"
    and ids_add: "ok ix \<Longrightarrow> k \<in> K \<Longrightarrow> set (ids (add ix k i) k') = (if k' = k then insert i (set (ids ix k')) else set (ids ix k'))"
    and ids_remove: "ok ix \<Longrightarrow> k \<in> K \<Longrightarrow> set (ids (remove ix k i) k') = (if k' = k then set (ids ix k') - {i} else set (ids ix k'))"
    and ids_distinct: "ok ix \<Longrightarrow> distinct (ids ix k)"

text \<open>All keys of a record, in turn.\<close>

definition index_all :: "('ix \<Rightarrow> 'k \<Rightarrow> string \<Rightarrow> 'ix) \<Rightarrow> 'k list \<Rightarrow> string \<Rightarrow> 'ix \<Rightarrow> 'ix" where
  "index_all op ks i ix = fold (\<lambda>k ix. op ix k i) ks ix"

text \<open>Every record is found under each of its keys.\<close>

definition index_covers :: "('ix \<Rightarrow> 'k \<Rightarrow> string list) \<Rightarrow> (row \<Rightarrow> 'k list) \<Rightarrow> (string \<Rightarrow> row option) \<Rightarrow> 'ix \<Rightarrow> bool" where
  "index_covers ids keys R ix \<longleftrightarrow> (\<forall>i r. R i = Some r \<longrightarrow> (\<forall>k \<in> set (keys r). i \<in> set (ids ix k)))"

lemma coversD: "index_covers ids keys R ix \<Longrightarrow> R i = Some r \<Longrightarrow> k \<in> set (keys r) \<Longrightarrow> i \<in> set (ids ix k)"
  by (simp add: index_covers_def)

context id_index
begin

lemma index_all_add:
  "ok ix \<Longrightarrow> set ks \<subseteq> K \<Longrightarrow> ok (index_all add ks i ix) \<and>
     set (ids (index_all add ks i ix) k) = (if k \<in> set ks then insert i (set (ids ix k)) else set (ids ix k))"
  unfolding index_all_def by (induction ks arbitrary: ix) (auto simp: ids_add ok_add)

lemma index_all_remove:
  "ok ix \<Longrightarrow> set ks \<subseteq> K \<Longrightarrow> ok (index_all remove ks i ix) \<and>
     set (ids (index_all remove ks i ix) k) = (if k \<in> set ks then set (ids ix k) - {i} else set (ids ix k))"
  unfolding index_all_def by (induction ks arbitrary: ix) (auto simp: ids_remove ok_remove)

text \<open>Removing a record from an index leaves the others in place; adding one puts it there.\<close>

lemma covers_remove:
  assumes "ok ix" and "index_covers ids keys R ix" and "set ks \<subseteq> K"
  shows "index_covers ids keys (R(i := None)) (index_all remove ks i ix)" and "ok (index_all remove ks i ix)"
proof -
  show "ok (index_all remove ks i ix)" using index_all_remove [OF assms(1,3)] by blast
  show "index_covers ids keys (R(i := None)) (index_all remove ks i ix)"
    using assms(2) index_all_remove [OF assms(1,3), of i] unfolding index_covers_def by (auto split: if_splits)
qed

lemma covers_add:
  assumes "ok ix" and "index_covers ids keys (R(i := None)) ix" and "set (keys r) \<subseteq> K"
  shows "index_covers ids keys (R(i \<mapsto> r)) (index_all add (keys r) i ix)" and "ok (index_all add (keys r) i ix)"
proof -
  show "ok (index_all add (keys r) i ix)" using index_all_add [OF assms(1,3)] by blast
  show "index_covers ids keys (R(i \<mapsto> r)) (index_all add (keys r) i ix)"
    using assms(2) index_all_add [OF assms(1,3), of i] unfolding index_covers_def by (auto split: if_splits)
qed

text \<open>Building an index from the records of a table.\<close>

lemma covers_build:
  assumes "ok ix" and "js_wf m" and "\<forall>(i, r) \<in> set m. set (keys r) \<subseteq> K"
  shows "index_covers ids keys (map_of m) (fold (\<lambda>(i, r) ix. index_all add (keys r) i ix) m ix) \<and>
     ok (fold (\<lambda>(i, r) ix. index_all add (keys r) i ix) m ix)"
proof -
  have mono: "ok ix' \<Longrightarrow> \<forall>(i, r) \<in> set m'. set (keys r) \<subseteq> K \<Longrightarrow>
      ok (fold (\<lambda>(i, r) ix. index_all add (keys r) i ix) m' ix') \<and>
      (\<forall>k. set (ids ix' k) \<subseteq> set (ids (fold (\<lambda>(i, r) ix. index_all add (keys r) i ix) m' ix') k)) \<and>
      (\<forall>(i, r) \<in> set m'. \<forall>k \<in> set (keys r). i \<in> set (ids (fold (\<lambda>(i, r) ix. index_all add (keys r) i ix) m' ix') k))" for m' ix'
  proof (induction m' arbitrary: ix')
    case (Cons p m')
    obtain i r where p: "p = (i, r)" by (cases p)
    have r: "set (keys r) \<subseteq> K" using Cons.prems(2) p by simp
    note one = index_all_add [OF Cons.prems(1) r, of i]
    have "\<forall>(i, r) \<in> set m'. set (keys r) \<subseteq> K" using Cons.prems(2) by simp
    note rest = Cons.IH [OF conjunct1 [OF one] this]
    have up: "set (ids ix' k) \<subseteq> set (ids (index_all add (keys r) i ix') k)" for k using one by auto
    have new: "k \<in> set (keys r) \<Longrightarrow> i \<in> set (ids (index_all add (keys r) i ix') k)" for k using one by auto
    show ?case using rest up new unfolding p by fastforce
  qed simp
  show ?thesis using mono [OF assms(1,3)] by (fastforce simp: index_covers_def dest: map_of_SomeD)
qed

end

section \<open>Maps are indices\<close>

interpretation idmap: id_index idmap_add idmap_remove idmap_ids idmap_ok UNIV
proof
  fix m :: "'k id_map" and k k' :: 'k and i :: string
  assume ok: "idmap_ok m"
  show "idmap_ok (idmap_add m k i)" "idmap_ok (idmap_remove m k i)"
    using ok by (auto simp: idmap_ok_def idmap_add_def idmap_remove_def split: option.split)
  show "set (idmap_ids (idmap_add m k i) k') = (if k' = k then insert i (set (idmap_ids m k')) else set (idmap_ids m k'))"
    by (auto simp: idmap_ids_def idmap_add_def split: option.split)
  show "set (idmap_ids (idmap_remove m k i) k') = (if k' = k then set (idmap_ids m k') - {i} else set (idmap_ids m k'))"
    by (auto simp: idmap_ids_def idmap_remove_def split: option.split)
  show "distinct (idmap_ids m k)" using ok by (auto simp: idmap_ids_def idmap_ok_def split: option.split)
qed

section \<open>Sorted entries are an index of one kind\<close>

lemma sorted_nth:
  assumes "sorted_ok E b xs" and "i < j" and "j < length xs"
  shows "sort_lt E (fst (xs ! i)) (fst (xs ! j))"
  using assms by (auto simp: sorted_ok_def sorted_wrt_iff_nth_less)

lemma sorted_kind: "sorted_ok E b xs \<Longrightarrow> n < length xs \<Longrightarrow> fst (xs ! n) \<in> kind b"
  by (auto simp: sorted_ok_def)

lemma sorted_search_correct:
  assumes "sorted_ok E b xs" and "v \<in> kind b" and "0 \<le> low" and "high < int (length xs)" and "low \<le> high + 1"
    and "\<forall>j. int j < low \<longrightarrow> sort_lt E (fst (xs ! j)) v"
    and "\<forall>j. high < int j \<and> j < length xs \<longrightarrow> sort_lt E v (fst (xs ! j))"
  shows "\<exists>n. fst (sorted_search E xs v low high) = int n \<and>
     (if snd (sorted_search E xs v low high) then n < length xs \<and> fst (xs ! n) = v
      else n \<le> length xs \<and> (\<forall>j < n. sort_lt E (fst (xs ! j)) v) \<and>
           (\<forall>j. n \<le> j \<and> j < length xs \<longrightarrow> sort_lt E v (fst (xs ! j))))"
  using assms
proof (induction E xs v low high rule: sorted_search.induct)
  case (1 E xs v low high)
  show ?case
  proof (cases "high < low")
    case True
    then have "sorted_search E xs v low high = (low, False)" by (simp add: sorted_search.simps)
    then show ?thesis using 1(5-9) True by (intro exI [of _ "nat low"]) auto
  next
    case False
    define mid where "mid = (low + high) div 2"
    define x where "x = fst (xs ! nat mid)"
    have mid: "low \<le> mid" "mid \<le> high" "nat mid < length xs" using False 1(5,6) by (auto simp: mid_def)
    have search: "sorted_search E xs v low high =
        (if x = v then (mid, True) else if sort_lt E x v then sorted_search E xs v (mid + 1) high
         else sorted_search E xs v low (mid - 1))"
      using False by (subst sorted_search.simps) (simp add: Let_def mid_def x_def)
    have kx: "x \<in> kind b" unfolding x_def by (rule sorted_kind [OF 1(3) mid(3)])
    consider (eq) "x = v" | (lt) "x \<noteq> v" "sort_lt E x v" | (gt) "x \<noteq> v" "\<not> sort_lt E x v" "sort_lt E v x"
      using kind_order(1) [OF kx 1(4), of E] by blast
    then show ?thesis
    proof cases
      case eq
      then show ?thesis using search mid 1(5) by (intro exI [of _ "nat mid"]) (auto simp: x_def)
    next
      case lt
      have below: "sort_lt E (fst (xs ! j)) v" if "int j < mid + 1" for j
      proof (cases "j = nat mid")
        case True
        then show ?thesis using lt by (simp add: x_def)
      next
        case False
        then have j: "j < nat mid" using that mid 1(5) by linarith
        have "fst (xs ! j) \<in> kind b" by (rule sorted_kind [OF 1(3)]) (use j mid in linarith)
        then show ?thesis using kind_trans [OF _ kx 1(4)] sorted_nth [OF 1(3) j mid(3)] lt(2) by (simp add: x_def)
      qed
      have "sorted_search E xs v low high = sorted_search E xs v (mid + 1) high" using search lt by simp
      then show ?thesis using 1(1) [OF False mid_def x_def lt(1,2) 1(3,4)] below mid 1(5-9) by simp
    next
      case gt
      have past: "sort_lt E v (fst (xs ! j))" if "mid - 1 < int j" "j < length xs" for j
      proof (cases "j = nat mid")
        case True
        then show ?thesis using gt by (simp add: x_def)
      next
        case False
        then have j: "nat mid < j" using that mid 1(5) by linarith
        have "fst (xs ! j) \<in> kind b" by (rule sorted_kind [OF 1(3) that(2)])
        then show ?thesis using kind_trans [OF 1(4) kx] sorted_nth [OF 1(3) j that(2)] gt(3) by (simp add: x_def)
      qed
      have "sorted_search E xs v low high = sorted_search E xs v low (mid - 1)" using search gt by simp
      then show ?thesis using 1(2) [OF False mid_def x_def gt(1,2) 1(3,4)] past mid 1(5-9) by simp
    qed
  qed
qed

text \<open>The two outcomes of a search over the whole list.\<close>

lemma sorted_search_cases:
  assumes "sorted_ok E b xs" and "v \<in> kind b"
  obtains (found) ys s zs where "xs = ys @ (v, s) # zs" "sorted_search E xs v 0 (int (length xs) - 1) = (int (length ys), True)"
  | (absent) ys zs where "xs = ys @ zs" "sorted_search E xs v 0 (int (length xs) - 1) = (int (length ys), False)"
      "\<forall>p \<in> set ys. sort_lt E (fst p) v" "\<forall>p \<in> set zs. sort_lt E v (fst p)"
proof -
  let ?s = "sorted_search E xs v 0 (int (length xs) - 1)"
  have vac: "\<forall>j. int (length xs) - 1 < int j \<and> j < length xs \<longrightarrow> sort_lt E v (fst (xs ! j))" by auto
  obtain n where n: "fst ?s = int n" "if snd ?s then n < length xs \<and> fst (xs ! n) = v
      else n \<le> length xs \<and> (\<forall>j < n. sort_lt E (fst (xs ! j)) v) \<and>
           (\<forall>j. n \<le> j \<and> j < length xs \<longrightarrow> sort_lt E v (fst (xs ! j)))"
    using sorted_search_correct [OF assms _ _ _ _ vac, of 0] by auto
  show thesis
  proof (cases "snd ?s")
    case True
    then have "xs = take n xs @ (v, snd (xs ! n)) # drop (Suc n) xs"
      using n(2) id_take_nth_drop [of n xs] by (metis prod.collapse)
    moreover have "?s = (int (length (take n xs)), True)" using n True by (simp add: prod_eq_iff)
    ultimately show thesis by (rule found)
  next
    case False
    then have b: "\<forall>j < n. sort_lt E (fst (xs ! j)) v" "\<forall>j. n \<le> j \<and> j < length xs \<longrightarrow> sort_lt E v (fst (xs ! j))" "n \<le> length xs"
      using n(2) by simp_all
    have "\<forall>p \<in> set (take n xs). sort_lt E (fst p) v"
      using b(1) by (fastforce simp: in_set_conv_nth)
    moreover have "\<forall>p \<in> set (drop n xs). sort_lt E v (fst p)"
    proof
      fix p assume "p \<in> set (drop n xs)"
      then obtain j where "j < length xs - n" "p = xs ! (n + j)" by (auto simp: in_set_conv_nth)
      then show "sort_lt E v (fst p)" using b(2) by simp
    qed
    moreover have "?s = (int (length (take n xs)), False)" using n(1) b(3) False by (simp add: prod_eq_iff)
    ultimately show thesis using absent [of "take n xs" "drop n xs"] by simp
  qed
qed

lemma sorted_wrt_distinct: "sorted_wrt R xs \<Longrightarrow> \<forall>x \<in> set xs. \<not> R x x \<Longrightarrow> distinct xs"
  by (induction xs) auto

lemma sorted_distinct: "sorted_ok E b xs \<Longrightarrow> js_wf xs"
  unfolding sorted_ok_def using kind_order(3) [of _ b, OF _] by (intro sorted_wrt_distinct [of "sort_lt E"]) (auto simp: subset_iff)

lemma sorted_ids_iff:
  assumes "sorted_ok E b xs"
  shows "i \<in> set (sorted_ids xs v) \<longleftrightarrow> (\<exists>s. (v, s) \<in> set xs \<and> i \<in> set s)"
proof -
  have "(v, s) \<in> set xs \<longleftrightarrow> js_get xs v = Some s" for s by (rule js_get_Some_iff [OF sorted_distinct [OF assms], symmetric])
  then show ?thesis by (cases "js_get xs v") (simp_all add: sorted_ids_def)
qed

lemma sorted_parts:
  assumes "sorted_ok E b (ys @ p # zs)" and "distinct s"
  shows "sorted_ok E b (ys @ (fst p, s) # zs)" and "sorted_ok E b (ys @ zs)"
  using assms by (auto simp: sorted_ok_def sorted_wrt_append)

lemma sorted_insert_entry:
  assumes "sorted_ok E b (ys @ zs)" and "v \<in> kind b"
    and "\<forall>p \<in> set ys. sort_lt E (fst p) v" and "\<forall>p \<in> set zs. sort_lt E v (fst p)"
  shows "sorted_ok E b (ys @ (v, [i]) # zs)"
  using assms by (auto simp: sorted_ok_def sorted_wrt_append)

lemma sorted_absent:
  assumes "v \<in> kind b" and "\<forall>p \<in> set ys. sort_lt E (fst p) v" and "\<forall>p \<in> set zs. sort_lt E v (fst p)"
  shows "(v, s) \<notin> set (ys @ zs)"
  using kind_order(3) [OF assms(1,1)] assms(2,3) by auto

interpretation sorted_index: id_index "insertSortedIndexEntry E" "removeSortedIndexEntry E" sorted_ids "sorted_ok E b" "kind b"
  for E b
proof
  fix xs :: sorted_entries and v v' :: sort_value and i :: string
  show "distinct (sorted_ids xs v)" if "sorted_ok E b xs"
    using that by (auto simp: sorted_ids_def sorted_ok_def split: option.split dest!: map_of_SomeD)
  assume ok: "sorted_ok E b xs" and v: "v \<in> kind b"
  have "sorted_ok E b (insertSortedIndexEntry E xs v i) \<and>
      set (sorted_ids (insertSortedIndexEntry E xs v i) v') = (if v' = v then insert i (set (sorted_ids xs v')) else set (sorted_ids xs v'))"
    using ok v
  proof (cases rule: sorted_search_cases)
    case (found ys s zs)
    have res: "insertSortedIndexEntry E xs v i = ys @ (v, set_add s i) # zs"
      unfolding insertSortedIndexEntry_def found(2) by (simp add: found(1))
    have s: "distinct s" using ok found(1) by (auto simp: sorted_ok_def)
    then have ok': "sorted_ok E b (ys @ (v, set_add s i) # zs)" using sorted_parts(1) [of E b ys "(v, s)"] ok found(1) by simp
    have old: "\<forall>s'. (v, s') \<notin> set ys \<union> set zs" using sorted_distinct [OF ok] unfolding found(1) by (auto simp: image_iff)
    have "j \<in> set (sorted_ids (ys @ (v, set_add s i) # zs) v') \<longleftrightarrow> (v' = v \<and> j = i) \<or> j \<in> set (sorted_ids xs v')" for j
      using sorted_ids_iff [OF ok'] sorted_ids_iff [OF ok] old unfolding found(1) by auto
    then show ?thesis unfolding res using ok' by auto
  next
    case (absent ys zs)
    have res: "insertSortedIndexEntry E xs v i = ys @ (v, [i]) # zs"
      unfolding insertSortedIndexEntry_def absent(2) by (simp add: absent(1))
    have ok': "sorted_ok E b (ys @ (v, [i]) # zs)"
      using sorted_insert_entry [of E b ys zs] ok v absent(1,3,4) by simp
    have "j \<in> set (sorted_ids (ys @ (v, [i]) # zs) v') \<longleftrightarrow> (v' = v \<and> j = i) \<or> j \<in> set (sorted_ids xs v')" for j
      using sorted_ids_iff [OF ok'] sorted_ids_iff [OF ok] sorted_absent [OF v absent(3,4)] unfolding absent(1) by auto
    then show ?thesis unfolding res using ok' by auto
  qed
  then show "sorted_ok E b (insertSortedIndexEntry E xs v i)"
    "set (sorted_ids (insertSortedIndexEntry E xs v i) v') = (if v' = v then insert i (set (sorted_ids xs v')) else set (sorted_ids xs v'))"
    by blast+
  have "sorted_ok E b (removeSortedIndexEntry E xs v i) \<and>
      set (sorted_ids (removeSortedIndexEntry E xs v i) v') = (if v' = v then set (sorted_ids xs v') - {i} else set (sorted_ids xs v'))"
    using ok v
  proof (cases rule: sorted_search_cases)
    case (found ys s zs)
    let ?s = "set_remove s i"
    let ?res = "if ?s = [] then ys @ zs else ys @ (v, ?s) # zs"
    have res: "removeSortedIndexEntry E xs v i = ?res"
      unfolding removeSortedIndexEntry_def found(2) by (simp add: found(1) Let_def)
    have s: "distinct s" using ok found(1) by (auto simp: sorted_ok_def)
    then have ok': "sorted_ok E b ?res" using sorted_parts [of E b ys "(v, s)" zs ?s] ok found(1) by simp
    have old: "\<forall>s'. (v, s') \<notin> set ys \<union> set zs" using sorted_distinct [OF ok] unfolding found(1) by (auto simp: image_iff)
    have empty: "?s = [] \<Longrightarrow> set s \<subseteq> {i}" by (auto simp: set_remove_def filter_empty_conv)
    have mem: "j \<in> set (sorted_ids ?res v') \<longleftrightarrow> j \<in> set (sorted_ids xs v') \<and> \<not> (v' = v \<and> j = i)" for j
    proof (cases "?s = []")
      case True
      then have eq: "?res = ys @ zs" by simp
      show ?thesis
        using sorted_ids_iff [OF ok', unfolded eq] sorted_ids_iff [OF ok, unfolded found(1)] old empty [OF True]
        unfolding eq found(1) by auto
    next
      case False
      then have eq: "?res = ys @ (v, ?s) # zs" by simp
      show ?thesis
        using sorted_ids_iff [OF ok', unfolded eq] sorted_ids_iff [OF ok, unfolded found(1)] old
        unfolding eq found(1) by auto
    qed
    have "set (sorted_ids ?res v') = (if v' = v then set (sorted_ids xs v') - {i} else set (sorted_ids xs v'))"
      by (rule set_eqI, subst mem) simp
    with ok' show ?thesis unfolding res by (rule conjI)
  next
    case (absent ys zs)
    have res: "removeSortedIndexEntry E xs v i = xs" unfolding removeSortedIndexEntry_def absent(2) by simp
    have "sorted_ids xs v = []"
      using sorted_absent [OF v absent(3,4)] absent(1) by (auto simp: sorted_ids_def split: option.split dest!: map_of_SomeD)
    then show ?thesis unfolding res using ok by auto
  qed
  then show "sorted_ok E b (removeSortedIndexEntry E xs v i)"
    "set (sorted_ids (removeSortedIndexEntry E xs v i) v') = (if v' = v then set (sorted_ids xs v') - {i} else set (sorted_ids xs v'))"
    by blast+
qed

section \<open>Range scans\<close>

lemma set_foldl_add: "set (foldl set_add ids s) = set ids \<union> set s"
  by (induction s arbitrary: ids) auto

lemma distinct_foldl_add: "distinct ids \<Longrightarrow> distinct (foldl set_add ids s)"
  by (induction s arbitrary: ids) auto

lemma sorted_scan_acc: "distinct ids \<Longrightarrow> distinct (sorted_scan below past xs ids) \<and> set ids \<subseteq> set (sorted_scan below past xs ids)"
  by (induction below past xs ids rule: sorted_scan.induct) (auto simp: distinct_foldl_add set_foldl_add)

text \<open>A scan finds what is neither below nor past its range, when being past is passed on to larger values.\<close>

lemma sorted_scan_finds:
  assumes "sorted_wrt R (map fst xs)" and "\<And>u w. u \<in> fst ` set xs \<Longrightarrow> w \<in> fst ` set xs \<Longrightarrow> R u w \<Longrightarrow> past u \<Longrightarrow> past w"
    and "(v, s) \<in> set xs" and "\<not> below v" and "\<not> past v" and "distinct ids"
  shows "set s \<subseteq> set (sorted_scan below past xs ids)"
  using assms
proof (induction below past xs ids rule: sorted_scan.induct)
  case (2 below past u us xs ids)
  have up: "\<And>u w. u \<in> fst ` set xs \<Longrightarrow> w \<in> fst ` set xs \<Longrightarrow> R u w \<Longrightarrow> past u \<Longrightarrow> past w"
    by (rule 2(4)) auto
  show ?case
  proof (cases "(v, s) = (u, us)")
    case True
    then show ?thesis using 2(6-8) sorted_scan_acc [of "foldl set_add ids s" below past xs]
      by (auto simp: distinct_foldl_add set_foldl_add)
  next
    case False
    then have in_xs: "(v, s) \<in> set xs" using 2(5) by auto
    then have "R u v" using 2(3) by force
    then have "\<not> past u" using 2(4) [of u v] 2(7) in_xs by force
    have sorted: "sorted_wrt R (map fst xs)" using 2(3) by simp
    show ?thesis
    proof (cases "below u")
      case True
      have "set s \<subseteq> set (sorted_scan below past xs ids)" by (rule 2(1) [OF True sorted up in_xs 2(6-8)])
      then show ?thesis by (simp only: sorted_scan.simps True if_True)
    next
      case False
      have d: "distinct (foldl set_add ids us)" by (rule distinct_foldl_add [OF 2(8)])
      have "set s \<subseteq> set (sorted_scan below past xs (foldl set_add ids us))"
        by (rule 2(2) [OF False \<open>\<not> past u\<close> sorted up in_xs 2(6,7) d])
      moreover have "sorted_scan below past ((u, us) # xs) ids = sorted_scan below past xs (foldl set_add ids us)"
        using False \<open>\<not> past u\<close> by (subst sorted_scan.simps) (rule if_not_P [THEN trans], assumption, rule if_not_P, assumption)
      ultimately show ?thesis by (rule ssubst [rotated])
    qed
  qed
qed simp

lemma scan_range_finds:
  assumes "sorted_ok E b xs" and "i \<in> set (sorted_ids xs v)" and "set_option min' \<subseteq> kind b" and "set_option max' \<subseteq> kind b"
    and "case min' of None \<Rightarrow> True | Some m \<Rightarrow> \<not> (if includeMin then sort_lt E v m else sort_le E v m)"
    and "case max' of None \<Rightarrow> True | Some m \<Rightarrow> \<not> (if includeMax then sort_lt E m v else sort_le E m v)"
  shows "i \<in> set (scanSortedIndexRange E xs min' max' includeMin includeMax)"
proof -
  obtain s where s: "(v, s) \<in> set xs" "i \<in> set s" using assms(2) sorted_ids_iff [OF assms(1)] by blast
  have w: "sorted_wrt (sort_lt E) (map fst xs)" "fst ` set xs \<subseteq> kind b" using assms(1) by (simp_all add: sorted_ok_def)
  define below where "below = (\<lambda>v. case min' of None \<Rightarrow> False | Some m \<Rightarrow> if includeMin then sort_lt E v m else sort_le E v m)"
  define past where "past = (\<lambda>v. case max' of None \<Rightarrow> False | Some m \<Rightarrow> if includeMax then sort_lt E m v else sort_le E m v)"
  have scan: "scanSortedIndexRange E xs min' max' includeMin includeMax = sorted_scan below past xs []"
    by (simp only: scanSortedIndexRange_def below_def past_def)
  have nb: "\<not> below v" and np: "\<not> past v"
    using assms(5,6) by (cases min'; cases max'; simp add: below_def past_def)+
  have up: "past w" if u: "u \<in> fst ` set xs" "w \<in> fst ` set xs" "sort_lt E u w" "past u" for u w
  proof (cases max')
    case None
    then show ?thesis using u(4) by (simp add: past_def)
  next
    case (Some m)
    have k: "m \<in> kind b" "u \<in> kind b" "w \<in> kind b" using assms(4) u w(2) Some by auto
    have "sort_lt E m w"
      using u(4) Some kind_trans [OF k(1,2,3)] u(3) kind_order(1,4) [OF k(1,2), of E] by (auto simp: past_def split: if_splits)
    then show ?thesis using Some kind_order(2,4) [OF k(1,3), of E] by (simp add: past_def)
  qed
  have "set s \<subseteq> set (sorted_scan below past xs [])"
    using sorted_scan_finds [where R = "sort_lt E" and past = past and below = below and xs = xs and ids = "[]", OF w(1) up s(1) nb np]
    by simp
  then show ?thesis using s(2) unfolding scan by blast
qed

lemma scan_range_distinct: "distinct (scanSortedIndexRange E xs min' max' includeMin includeMax)"
  unfolding scanSortedIndexRange_def using sorted_scan_acc by simp

end
