(* ===== verification/Db_Table.thy ===== *)
theory Db_Table
  imports Db_Index
begin

text \<open>
  The reactive table \<^verbatim>\<open>BroccoliDbTable\<close> of \<^verbatim>\<open>broccolidb-table.ts\<close>, with its \<^verbatim>\<open>BroccoliBranchingEngine\<close>
  (\<^verbatim>\<open>broccolidb-branching.ts\<close>): rows by identifier, four families of indices kept beside them, computed columns,
  branches with undo and redo, expiry timers, subscriptions and the log hook.

  A computed column is a function of the row, \<open>None\<close> when it throws; subscribers and the log are the sequences of
  what they are given. A table has no relations to other tables here, so that a deletion does not cascade.
\<close>

declare map_of_eq_Some_iff [simp del]
declare Some_eq_map_of_iff [simp del]

section \<open>State\<close>

type_synonym rows = "(string, row) jsmap"

datatype action_op = A_PUT | A_DELETE | A_CLEAR

record action_step =
  as_op :: action_op
  as_id :: string
  as_before :: "row option"
  as_after :: "row option"

text \<open>The stacks have their top at the end.\<close>

record branching =
  be_current :: string
  be_branches :: "(string, rows) jsmap"
  be_undo :: "action_step list"
  be_redo :: "action_step list"

datatype change_op = C_INSERT | C_UPDATE | C_DELETE | C_CLEAR | C_EXPIRE

record change_event =
  ce_op :: change_op
  ce_id :: string
  ce_before :: "row option"
  ce_after :: "row option"
  ce_diff :: "(string \<times> db_cell \<times> db_cell) list option"

datatype wal_op = W_INSERT | W_UPDATE | W_DELETE | W_CLEAR | W_BRANCH_MERGE | W_CHECKPOINT | W_ROLLBACK

record wal_entry =
  we_op :: wal_op
  we_id :: string
  we_payload :: "row option"

type_synonym computed = "(string, row \<Rightarrow> db_cell option) jsmap"

record db_table =
  t_records :: rows
  t_equality :: "(string, db_cell id_map) jsmap"
  t_sorted :: "(string, sorted_entries) jsmap"
  t_composite :: "(string, string list \<times> string id_map) jsmap"
  t_prefix :: "(string, string id_map) jsmap"
  t_computed :: computed
  t_branching :: branching
  t_schema :: "table_schema option"
  t_ttl :: "(string, nat) jsmap"
  t_armed :: "(nat, string) jsmap"
  t_timers :: nat
  t_subscriptions :: "(string, (row \<Rightarrow> bool option) option) jsmap"
  t_delivered :: "(string \<times> change_event) list"
  t_wal :: "wal_entry list"

definition new_branching :: branching where
  "new_branching = \<lparr>be_current = ''main'', be_branches = [(''main'', [])], be_undo = [], be_redo = []\<rparr>"

definition new_table :: db_table where
  "new_table =
     \<lparr>t_records = [], t_equality = [], t_sorted = [], t_composite = [], t_prefix = [], t_computed = [],
      t_branching = new_branching, t_schema = None, t_ttl = [], t_armed = [], t_timers = 0, t_subscriptions = [],
      t_delivered = [], t_wal = []\<rparr>"

section \<open>Fields\<close>

definition resolveFieldValue :: "computed \<Rightarrow> row \<Rightarrow> string \<Rightarrow> db_cell" where
  "resolveFieldValue C r f =
     (case js_get r f of
        Some c \<Rightarrow> c
      | None \<Rightarrow> (case js_get C f of None \<Rightarrow> Prim Undefined
                 | Some fn \<Rightarrow> (case fn r of None \<Rightarrow> Prim Undefined | Some c \<Rightarrow> c)))"

definition cloneRecordWithComputed :: "computed \<Rightarrow> row \<Rightarrow> row" where
  "cloneRecordWithComputed C r = fold (\<lambda>(name, fn) clone. case fn r of None \<Rightarrow> clone | Some c \<Rightarrow> js_set clone name c) C r"

definition join_with :: "string \<Rightarrow> string list \<Rightarrow> string" where
  "join_with sep ss = (case ss of [] \<Rightarrow> [] | s # rest \<Rightarrow> s @ concat (map (\<lambda>t. sep @ t) rest))"

definition buildCompositeKey :: "computed \<Rightarrow> string list \<Rightarrow> row \<Rightarrow> string" where
  "buildCompositeKey C fs r =
     join_with ''|'' (map (\<lambda>f. f @ '':'' @ (case cell_json (resolveFieldValue C r f) of None \<Rightarrow> ''__undef__'' | Some j \<Rightarrow> json_text j)) fs)"

section \<open>The keys of a row in each index\<close>

definition equality_keys :: "computed \<Rightarrow> string \<Rightarrow> row \<Rightarrow> db_cell list" where
  "equality_keys C f r = (let v = resolveFieldValue C r f in if v = Prim Undefined then [] else [v])"

definition sorted_keys :: "computed \<Rightarrow> string \<Rightarrow> row \<Rightarrow> sort_value list" where
  "sorted_keys C f r = (case normalizeSortableValue (resolveFieldValue C r f) of None \<Rightarrow> [] | Some v \<Rightarrow> [v])"

definition composite_keys :: "computed \<Rightarrow> string list \<Rightarrow> row \<Rightarrow> string list" where
  "composite_keys C fs r = [buildCompositeKey C fs r]"

definition prefixes :: "string \<Rightarrow> string list" where
  "prefixes s = (let clean = js_trim (to_lower s) in map (\<lambda>len. take len clean) [1..<Suc (min 20 (length clean))])"

definition prefix_keys :: "computed \<Rightarrow> string \<Rightarrow> row \<Rightarrow> string list" where
  "prefix_keys C f r = (case resolveFieldValue C r f of Prim (Str s) \<Rightarrow> prefixes s | _ \<Rightarrow> [])"

section \<open>Index synchronization\<close>

definition addToIndices :: "db_env \<Rightarrow> string \<Rightarrow> row \<Rightarrow> db_table \<Rightarrow> db_table" where
  "addToIndices E i r T = (let C = t_computed T in T
     \<lparr>t_equality := map (\<lambda>(f, m). (f, index_all idmap_add (equality_keys C f r) i m)) (t_equality T),
      t_sorted := map (\<lambda>(f, xs). (f, index_all (insertSortedIndexEntry E) (sorted_keys C f r) i xs)) (t_sorted T),
      t_composite := map (\<lambda>(n, fs, m). (n, fs, index_all idmap_add (composite_keys C fs r) i m)) (t_composite T),
      t_prefix := map (\<lambda>(f, m). (f, index_all idmap_add (prefix_keys C f r) i m)) (t_prefix T)\<rparr>)"

definition removeFromIndices :: "db_env \<Rightarrow> string \<Rightarrow> row \<Rightarrow> db_table \<Rightarrow> db_table" where
  "removeFromIndices E i r T = (let C = t_computed T in T
     \<lparr>t_equality := map (\<lambda>(f, m). (f, index_all idmap_remove (equality_keys C f r) i m)) (t_equality T),
      t_sorted := map (\<lambda>(f, xs). (f, index_all (removeSortedIndexEntry E) (sorted_keys C f r) i xs)) (t_sorted T),
      t_composite := map (\<lambda>(n, fs, m). (n, fs, index_all idmap_remove (composite_keys C fs r) i m)) (t_composite T),
      t_prefix := map (\<lambda>(f, m). (f, index_all idmap_remove (prefix_keys C f r) i m)) (t_prefix T)\<rparr>)"

definition putInternal :: "db_env \<Rightarrow> string \<Rightarrow> row \<Rightarrow> db_table \<Rightarrow> db_table" where
  "putInternal E i r T =
     (let T1 = (case js_get (t_records T) i of None \<Rightarrow> T | Some old \<Rightarrow> removeFromIndices E i old T) in
      addToIndices E i r (T1\<lparr>t_records := js_set (t_records T1) i r\<rparr>))"

definition deleteInternal :: "db_env \<Rightarrow> string \<Rightarrow> db_table \<Rightarrow> db_table \<times> bool" where
  "deleteInternal E i T =
     (case js_get (t_records T) i of
        None \<Rightarrow> (T, False)
      | Some old \<Rightarrow> (let T1 = removeFromIndices E i old T in (T1\<lparr>t_records := js_del (t_records T1) i\<rparr>, True)))"

text \<open>\<^verbatim>\<open>records.clear()\<close> or \<^verbatim>\<open>clear()\<close>, then every row of a map put again.\<close>

definition put_all :: "db_env \<Rightarrow> rows \<Rightarrow> db_table \<Rightarrow> db_table" where
  "put_all E m T = fold (\<lambda>(i, r). putInternal E i r) m T"

section \<open>Creating indices\<close>

definition createIndex :: "string \<Rightarrow> db_table \<Rightarrow> db_table" where
  "createIndex f T =
     (if js_has (t_equality T) f then T
      else T\<lparr>t_equality := js_set (t_equality T) f
               (fold (\<lambda>(i, r) m. index_all idmap_add (equality_keys (t_computed T) f r) i m) (t_records T) [])\<rparr>)"

definition createSortedIndex :: "db_env \<Rightarrow> string \<Rightarrow> db_table \<Rightarrow> db_table" where
  "createSortedIndex E f T =
     (if js_has (t_sorted T) f then T
      else T\<lparr>t_sorted := js_set (t_sorted T) f
               (fold (\<lambda>(i, r) xs. index_all (insertSortedIndexEntry E) (sorted_keys (t_computed T) f r) i xs) (t_records T) [])\<rparr>)"

definition createCompositeIndex :: "string list \<Rightarrow> db_table \<Rightarrow> db_table" where
  "createCompositeIndex fs T =
     (let name = join_with ''___'' fs in
      if js_has (t_composite T) name then T
      else T\<lparr>t_composite := js_set (t_composite T) name
               (fs, fold (\<lambda>(i, r) m. index_all idmap_add (composite_keys (t_computed T) fs r) i m) (t_records T) [])\<rparr>)"

definition createPrefixIndex :: "string \<Rightarrow> db_table \<Rightarrow> db_table" where
  "createPrefixIndex f T =
     (if js_has (t_prefix T) f then T
      else T\<lparr>t_prefix := js_set (t_prefix T) f
               (fold (\<lambda>(i, r) m. index_all idmap_add (prefix_keys (t_computed T) f r) i m) (t_records T) [])\<rparr>)"

definition addComputedColumn :: "string \<Rightarrow> (row \<Rightarrow> db_cell option) \<Rightarrow> db_table \<Rightarrow> db_table" where
  "addComputedColumn name fn T = T\<lparr>t_computed := js_set (t_computed T) name fn\<rparr>"

section \<open>Subscriptions\<close>

definition subscribe :: "string \<Rightarrow> (row \<Rightarrow> bool option) option \<Rightarrow> db_table \<Rightarrow> db_table" where
  "subscribe sid flt T = T\<lparr>t_subscriptions := js_set (t_subscriptions T) sid flt\<rparr>"

definition unsubscribe :: "string \<Rightarrow> db_table \<Rightarrow> db_table" where
  "unsubscribe sid T = T\<lparr>t_subscriptions := js_del (t_subscriptions T) sid\<rparr>"

definition row_diff :: "row \<Rightarrow> row \<Rightarrow> (string \<times> db_cell \<times> db_cell) list" where
  "row_diff old new =
     List.map_filter (\<lambda>k. if strict_eq (get_field old k) (get_field new k) then None else Some (k, get_field old k, get_field new k))
       (foldl set_add (foldl set_add [] (js_keys old)) (js_keys new))"

text \<open>Whether the filter of a subscription, if any, lets the event through; a filter that throws does not.\<close>

definition delivers :: "(row \<Rightarrow> bool option) option \<Rightarrow> change_event \<Rightarrow> bool" where
  "delivers flt e =
     (case flt of None \<Rightarrow> True
      | Some p \<Rightarrow> (case (case ce_after e of None \<Rightarrow> ce_before e | Some r \<Rightarrow> Some r) of
                    None \<Rightarrow> True | Some target \<Rightarrow> p target = Some True))"

definition emitChangeEvent :: "change_op \<Rightarrow> string \<Rightarrow> row option \<Rightarrow> row option \<Rightarrow> db_table \<Rightarrow> db_table" where
  "emitChangeEvent op i before after T =
     (let e = \<lparr>ce_op = op, ce_id = i, ce_before = before, ce_after = after,
               ce_diff = (case (before, after) of (Some b, Some a) \<Rightarrow> Some (row_diff b a) | _ \<Rightarrow> None)\<rparr> in
      T\<lparr>t_delivered := t_delivered T @ map (\<lambda>(sid, _). (sid, e)) (filter (\<lambda>(_, flt). delivers flt e) (t_subscriptions T))\<rparr>)"

definition walHook :: "wal_op \<Rightarrow> string \<Rightarrow> row option \<Rightarrow> db_table \<Rightarrow> db_table" where
  "walHook op i payload T = T\<lparr>t_wal := t_wal T @ [\<lparr>we_op = op, we_id = i, we_payload = payload\<rparr>]\<rparr>"

section \<open>Branches\<close>

definition getActiveRecords :: "branching \<Rightarrow> rows" where
  "getActiveRecords B = (case js_get (be_branches B) (be_current B) of None \<Rightarrow> [] | Some m \<Rightarrow> m)"

definition set_active :: "(rows \<Rightarrow> rows) \<Rightarrow> db_table \<Rightarrow> db_table" where
  "set_active g T = (let B = t_branching T in
     T\<lparr>t_branching := B\<lparr>be_branches := js_set (be_branches B) (be_current B) (g (getActiveRecords B))\<rparr>\<rparr>)"

definition clean_name :: "string \<Rightarrow> string" where
  "clean_name s = to_lower (js_trim s)"

definition forkBranch :: "string \<Rightarrow> db_table \<Rightarrow> db_table \<times> bool" where
  "forkBranch name T = (let B = t_branching T; c = clean_name name in
     if js_has (be_branches B) c then (T, False)
     else (T\<lparr>t_branching := B\<lparr>be_branches := js_set (be_branches B) c (getActiveRecords B)\<rparr>\<rparr>, True))"

definition checkout :: "string \<Rightarrow> branching \<Rightarrow> branching \<times> bool" where
  "checkout name B = (let c = clean_name name in
     if js_has (be_branches B) c then (B\<lparr>be_current := c, be_undo := [], be_redo := []\<rparr>, True) else (B, False))"

text \<open>The rows of the active branch replace those of the table; the indices are not emptied.\<close>

definition sync_records :: "db_env \<Rightarrow> db_table \<Rightarrow> db_table" where
  "sync_records E T = put_all E (getActiveRecords (t_branching T)) (T\<lparr>t_records := []\<rparr>)"

definition checkoutBranch :: "db_env \<Rightarrow> string \<Rightarrow> db_table \<Rightarrow> db_table \<times> bool" where
  "checkoutBranch E name T = (let (B, ok) = checkout name (t_branching T) in
     if ok then (sync_records E (T\<lparr>t_branching := B\<rparr>), True) else (T, False))"

datatype merge_strategy = TAKE_MAIN | TAKE_BRANCH | LAST_WRITE_WINS | FAIL_ON_CONFLICT

record merge_result =
  mr_success :: bool
  mr_merged :: nat
  mr_conflicts :: "(string \<times> (row \<times> row) option) list"

definition merge_row ::
  "merge_strategy \<Rightarrow> string \<times> row \<Rightarrow> rows \<times> (string \<times> (row \<times> row) option) list \<times> nat \<Rightarrow>
   rows \<times> (string \<times> (row \<times> row) option) list \<times> nat" where
  "merge_row strategy p acc =
     (let (i, src) = p; (target, conflicts, n) = acc in
      case js_get target i of
        Some t \<Rightarrow>
          if json_text (row_json src) = json_text (row_json t) then acc
          else if strategy = FAIL_ON_CONFLICT \<or> strategy = TAKE_MAIN then (target, conflicts @ [(i, Some (t, src))], n)
          else (js_set target i src, conflicts @ [(i, Some (t, src))], Suc n)
      | None \<Rightarrow> (js_set target i src, conflicts, Suc n))"

definition merge_branch :: "string \<Rightarrow> merge_strategy \<Rightarrow> branching \<Rightarrow> branching \<times> merge_result" where
  "merge_branch name strategy B =
     (case js_get (be_branches B) (clean_name name) of
        None \<Rightarrow> (B, \<lparr>mr_success = False, mr_merged = 0, mr_conflicts = [(''*'', None)]\<rparr>)
      | Some source \<Rightarrow>
          let (target, conflicts, n) = fold (merge_row strategy) source (getActiveRecords B, [], 0);
              B1 = B\<lparr>be_branches := js_set (be_branches B) (be_current B) target\<rparr> in
          if strategy = FAIL_ON_CONFLICT \<and> conflicts \<noteq> []
          then (B1, \<lparr>mr_success = False, mr_merged = 0, mr_conflicts = conflicts\<rparr>)
          else (B1, \<lparr>mr_success = True, mr_merged = n, mr_conflicts = conflicts\<rparr>))"

definition mergeBranch :: "db_env \<Rightarrow> string \<Rightarrow> merge_strategy \<Rightarrow> db_table \<Rightarrow> db_table \<times> merge_result" where
  "mergeBranch E name strategy T = (let (B, result) = merge_branch name strategy (t_branching T); T1 = T\<lparr>t_branching := B\<rparr> in
     if mr_success result then (walHook W_BRANCH_MERGE name None (sync_records E T1), result) else (T1, result))"

section \<open>Undo and redo\<close>

definition maxStackDepth :: nat where
  "maxStackDepth = 100"

definition recordAction :: "action_op \<Rightarrow> string \<Rightarrow> row option \<Rightarrow> row option \<Rightarrow> db_table \<Rightarrow> db_table" where
  "recordAction op i before after T =
     (let B = t_branching T;
          pushed = be_undo B @ [\<lparr>as_op = op, as_id = i, as_before = before, as_after = after\<rparr>] in
      T\<lparr>t_branching := B\<lparr>be_undo := (if length pushed > maxStackDepth then tl pushed else pushed), be_redo := []\<rparr>\<rparr>)"

definition undo_action :: "db_env \<Rightarrow> action_step \<Rightarrow> db_table \<Rightarrow> db_table" where
  "undo_action E a T =
     (case (as_op a, as_before a) of
        (A_PUT, Some r) \<Rightarrow> putInternal E (as_id a) r T
      | (A_PUT, None) \<Rightarrow> fst (deleteInternal E (as_id a) T)
      | (A_DELETE, Some r) \<Rightarrow> putInternal E (as_id a) r T
      | _ \<Rightarrow> T)"

definition redo_action :: "db_env \<Rightarrow> action_step \<Rightarrow> db_table \<Rightarrow> db_table" where
  "redo_action E a T =
     (case (as_op a, as_after a) of
        (A_PUT, Some r) \<Rightarrow> putInternal E (as_id a) r T
      | (A_DELETE, _) \<Rightarrow> fst (deleteInternal E (as_id a) T)
      | _ \<Rightarrow> T)"

definition undo :: "db_env \<Rightarrow> db_table \<Rightarrow> db_table \<times> bool" where
  "undo E T = (let B = t_branching T in
     if be_undo B = [] then (T, False)
     else (let a = last (be_undo B) in
       (undo_action E a (T\<lparr>t_branching := B\<lparr>be_undo := butlast (be_undo B), be_redo := be_redo B @ [a]\<rparr>\<rparr>), True)))"

definition redo :: "db_env \<Rightarrow> db_table \<Rightarrow> db_table \<times> bool" where
  "redo E T = (let B = t_branching T in
     if be_redo B = [] then (T, False)
     else (let a = last (be_redo B) in
       (redo_action E a (T\<lparr>t_branching := B\<lparr>be_redo := butlast (be_redo B), be_undo := be_undo B @ [a]\<rparr>\<rparr>), True)))"

section \<open>Reads and writes\<close>

definition get_row :: "string \<Rightarrow> db_table \<Rightarrow> row option" where
  "get_row i T = map_option (cloneRecordWithComputed (t_computed T)) (js_get (t_records T) i)"

definition getAll :: "db_table \<Rightarrow> row list" where
  "getAll T = map (cloneRecordWithComputed (t_computed T)) (js_values (t_records T))"

text \<open>The row as the schema coerces it, or as it is given when it breaks the schema.\<close>

definition valid_row :: "db_env \<Rightarrow> db_table \<Rightarrow> row \<Rightarrow> row" where
  "valid_row E T r = (let (coerced, errors) = validateAndCoerce E (t_schema T) r in if errors = 0 then coerced else r)"

text \<open>Arming a timer disarms the one before it; without an expiry nothing changes.\<close>

definition set_ttl :: "string \<Rightarrow> int option \<Rightarrow> db_table \<Rightarrow> db_table" where
  "set_ttl i ttl T =
     (case ttl of
        None \<Rightarrow> T
      | Some ms \<Rightarrow>
          if ms \<le> 0 then T
          else (let h = t_timers T;
                    armed = (case js_get (t_ttl T) i of None \<Rightarrow> t_armed T | Some old \<Rightarrow> js_del (t_armed T) old) in
                T\<lparr>t_timers := Suc h, t_armed := js_set armed h i, t_ttl := js_set (t_ttl T) i h\<rparr>))"

definition put :: "db_env \<Rightarrow> string \<Rightarrow> row \<Rightarrow> int option \<Rightarrow> db_table \<Rightarrow> db_table \<times> row" where
  "put E i record ttl T =
     (let r = valid_row E T record;
          existing = js_get (t_records T) i;
          T1 = set_ttl i ttl (recordAction A_PUT i existing (Some r) (set_active (\<lambda>m. js_set m i r) (putInternal E i r T)));
          returned = cloneRecordWithComputed (t_computed T1) (the (js_get (t_records T1) i)) in
      (walHook (if existing = None then W_INSERT else W_UPDATE) i (Some returned)
        (emitChangeEvent (if existing = None then C_INSERT else C_UPDATE) i existing (Some returned) T1), returned))"

definition clear_ttl :: "string \<Rightarrow> db_table \<Rightarrow> db_table" where
  "clear_ttl i T =
     (case js_get (t_ttl T) i of
        None \<Rightarrow> T
      | Some h \<Rightarrow> T\<lparr>t_armed := js_del (t_armed T) h, t_ttl := js_del (t_ttl T) i\<rparr>)"

definition delete_row :: "db_env \<Rightarrow> string \<Rightarrow> db_table \<Rightarrow> db_table \<times> bool" where
  "delete_row E i T =
     (case js_get (t_records T) i of
        None \<Rightarrow> (T, False)
      | Some old \<Rightarrow>
          (walHook W_DELETE i None (emitChangeEvent C_DELETE i (Some old) None
             (clear_ttl i (recordAction A_DELETE i (Some old) None (set_active (\<lambda>m. js_del m i) (fst (deleteInternal E i T)))))), True))"

definition empty_indices :: "db_table \<Rightarrow> db_table" where
  "empty_indices T = T
     \<lparr>t_equality := map (\<lambda>(f, m). (f, [])) (t_equality T), t_sorted := map (\<lambda>(f, xs). (f, [])) (t_sorted T),
      t_composite := map (\<lambda>(n, fs, m). (n, fs, [])) (t_composite T), t_prefix := map (\<lambda>(f, m). (f, [])) (t_prefix T)\<rparr>"

definition clear_table :: "db_table \<Rightarrow> db_table" where
  "clear_table T =
     walHook W_CLEAR ''*'' None (emitChangeEvent C_CLEAR ''*'' None None
       ((empty_indices (set_active (\<lambda>_. []) (T\<lparr>t_records := []\<rparr>)))
          \<lparr>t_ttl := [], t_armed := filter (\<lambda>(h, _). h \<notin> snd ` set (t_ttl T)) (t_armed T)\<rparr>))"

text \<open>The timer \<open>h\<close> runs.\<close>

definition expire :: "db_env \<Rightarrow> nat \<Rightarrow> db_table \<Rightarrow> db_table" where
  "expire E h T =
     (case js_get (t_armed T) h of
        None \<Rightarrow> T
      | Some i \<Rightarrow>
          let T1 = T\<lparr>t_armed := js_del (t_armed T) h\<rparr> in
          case js_get (t_records T1) i of
            None \<Rightarrow> T1
          | Some r \<Rightarrow>
              walHook W_DELETE i None (emitChangeEvent C_EXPIRE i (Some r) None
                ((set_active (\<lambda>m. js_del m i) (fst (deleteInternal E i T1)))\<lparr>t_ttl := js_del (t_ttl T1) i\<rparr>)))"

fun bulkPut :: "db_env \<Rightarrow> (string \<times> row \<times> int option) list \<Rightarrow> db_table \<Rightarrow> db_table \<times> row list" where
  "bulkPut E [] T = (T, [])"
| "bulkPut E ((i, r, ttl) # rs) T = (let (T1, x) = put E i r ttl T; (T2, xs) = bulkPut E rs T1 in (T2, x # xs))"

fun bulkDelete :: "db_env \<Rightarrow> string list \<Rightarrow> db_table \<Rightarrow> db_table \<times> nat" where
  "bulkDelete E [] T = (T, 0)"
| "bulkDelete E (i # is) T =
     (let (T1, deleted) = delete_row E i T; (T2, n) = bulkDelete E is T1 in (T2, if deleted then Suc n else n))"

section \<open>Transactions\<close>

definition createSnapshot :: "db_table \<Rightarrow> rows" where
  "createSnapshot T = t_records T"

definition restoreSnapshot :: "db_env \<Rightarrow> rows \<Rightarrow> db_table \<Rightarrow> db_table" where
  "restoreSnapshot E snapshot T = put_all E snapshot (clear_table T)"

datatype staged = S_PUT string row | S_DELETE string

definition stage :: "db_env \<Rightarrow> staged \<Rightarrow> db_table \<Rightarrow> db_table" where
  "stage E m T = (case m of S_PUT i r \<Rightarrow> putInternal E i r T | S_DELETE i \<Rightarrow> fst (deleteInternal E i T))"

definition log_staged :: "staged \<Rightarrow> db_table \<Rightarrow> db_table" where
  "log_staged m T = (case m of S_PUT i r \<Rightarrow> walHook W_INSERT i (Some r) T | S_DELETE i \<Rightarrow> walHook W_DELETE i None T)"

text \<open>A run of the callback: the mutations it stages, and whether it throws after them.\<close>

definition transaction :: "db_env \<Rightarrow> staged list \<Rightarrow> bool \<Rightarrow> db_table \<Rightarrow> db_table" where
  "transaction E ms throws T =
     (let snapshot = createSnapshot T; T1 = fold (stage E) ms T in
      if throws then restoreSnapshot E snapshot T1 else fold log_staged ms T1)"

end
