(* ===== verification/Db_Invariant.thy ===== *)
theory Db_Invariant
  imports Db_Table
begin

text \<open>
  The indices of a reachable table cover its rows. Columns with a sorted index hold values of one kind, or none;
  this is a contract on the rows that are written, \<open>fits\<close>.
\<close>

declare map_of_eq_Some_iff [simp del]
declare Some_eq_map_of_iff [simp del]

section \<open>The contract on columns\<close>

record contract =
  cc_kind :: "string \<Rightarrow> bool option"
  cc_trimmed :: "string \<Rightarrow> bool"

definition fits :: "contract \<Rightarrow> computed \<Rightarrow> row \<Rightarrow> bool" where
  "fits K C r \<longleftrightarrow>
     (\<forall>f b. cc_kind K f = Some b \<longrightarrow>
        missing (resolveFieldValue C r f) \<or> (\<exists>v \<in> kind b. normalizeSortableValue (resolveFieldValue C r f) = Some v)) \<and>
     (\<forall>f s. cc_trimmed K f \<longrightarrow> resolveFieldValue C r f = Prim (Str s) \<longrightarrow> js_trim s = s)"

lemma fits_sorted: "fits K C r \<Longrightarrow> cc_kind K f = Some b \<Longrightarrow> set (sorted_keys C f r) \<subseteq> kind b"
  by (fastforce simp: fits_def sorted_keys_def missing_def normalizeSortableValue_def split: option.split)

section \<open>Index families\<close>

definition reindex ::
  "('ix \<Rightarrow> 'k \<Rightarrow> string \<Rightarrow> 'ix) \<Rightarrow> ('ix \<Rightarrow> 'k \<Rightarrow> string \<Rightarrow> 'ix) \<Rightarrow> (row \<Rightarrow> 'k list) \<Rightarrow> row option \<Rightarrow> string \<Rightarrow> row \<Rightarrow> 'ix \<Rightarrow> 'ix" where
  "reindex add remove keys old i r ix =
     index_all add (keys r) i (case old of None \<Rightarrow> ix | Some prev \<Rightarrow> index_all remove (keys prev) i ix)"

definition unindex ::
  "('ix \<Rightarrow> 'k \<Rightarrow> string \<Rightarrow> 'ix) \<Rightarrow> (row \<Rightarrow> 'k list) \<Rightarrow> row option \<Rightarrow> string \<Rightarrow> 'ix \<Rightarrow> 'ix" where
  "unindex remove keys old i ix = (case old of None \<Rightarrow> ix | Some prev \<Rightarrow> index_all remove (keys prev) i ix)"

lemma covers_mono: "index_covers ids keys R ix \<Longrightarrow> (\<And>i r. R' i = Some r \<Longrightarrow> R i = Some r) \<Longrightarrow> index_covers ids keys R' ix"
  by (simp add: index_covers_def)

lemma covers_none: "index_covers ids keys (\<lambda>_. None) ix"
  by (simp add: index_covers_def)

context id_index
begin

lemma unindex_covers:
  assumes "ok ix" and "index_covers ids keys R ix" and "\<And>prev. R i = Some prev \<Longrightarrow> set (keys prev) \<subseteq> K"
  shows "ok (unindex remove keys (R i) i ix) \<and> index_covers ids keys (R(i := None)) (unindex remove keys (R i) i ix)"
proof (cases "R i")
  case None
  then have "R(i := None) = R" by (simp add: fun_upd_idem)
  then show ?thesis using assms(1,2) None by (simp add: unindex_def)
next
  case (Some prev)
  then show ?thesis using covers_remove [OF assms(1,2) assms(3) [OF Some]] by (simp add: unindex_def)
qed

lemma reindex_covers:
  assumes "ok ix" and "index_covers ids keys R ix" and "\<And>prev. R i = Some prev \<Longrightarrow> set (keys prev) \<subseteq> K" and "set (keys r) \<subseteq> K"
  shows "ok (reindex add remove keys (R i) i r ix) \<and> index_covers ids keys (R(i \<mapsto> r)) (reindex add remove keys (R i) i r ix)"
proof -
  have eq: "reindex add remove keys (R i) i r ix = index_all add (keys r) i (unindex remove keys (R i) i ix)"
    by (simp add: reindex_def unindex_def)
  have u: "ok (unindex remove keys (R i) i ix)" "index_covers ids keys (R(i := None)) (unindex remove keys (R i) i ix)"
    using unindex_covers [OF assms(1-3)] by blast+
  show ?thesis unfolding eq using covers_add [OF u assms(4)] by blast
qed

end

section \<open>What the primitive writes do\<close>

lemma putInternal_fields:
  "t_records (putInternal E i r T) = js_set (t_records T) i r"
  "t_computed (putInternal E i r T) = t_computed T" "t_branching (putInternal E i r T) = t_branching T"
  "t_schema (putInternal E i r T) = t_schema T" "t_ttl (putInternal E i r T) = t_ttl T" "t_armed (putInternal E i r T) = t_armed T"
  "t_timers (putInternal E i r T) = t_timers T" "t_subscriptions (putInternal E i r T) = t_subscriptions T"
  "t_delivered (putInternal E i r T) = t_delivered T" "t_wal (putInternal E i r T) = t_wal T"
  by (simp_all add: putInternal_def addToIndices_def removeFromIndices_def Let_def split: option.split)

lemma putInternal_indices:
  fixes T :: db_table and i :: string
  defines "C \<equiv> t_computed T" and "old \<equiv> js_get (t_records T) i"
  shows "t_equality (putInternal E i r T) = map (\<lambda>(f, m). (f, reindex idmap_add idmap_remove (equality_keys C f) old i r m)) (t_equality T)"
    and "t_sorted (putInternal E i r T) =
      map (\<lambda>(f, xs). (f, reindex (insertSortedIndexEntry E) (removeSortedIndexEntry E) (sorted_keys C f) old i r xs)) (t_sorted T)"
    and "t_composite (putInternal E i r T) =
      map (\<lambda>(n, fs, m). (n, fs, reindex idmap_add idmap_remove (composite_keys C fs) old i r m)) (t_composite T)"
    and "t_prefix (putInternal E i r T) = map (\<lambda>(f, m). (f, reindex idmap_add idmap_remove (prefix_keys C f) old i r m)) (t_prefix T)"
  unfolding C_def old_def
  by (simp_all add: putInternal_def addToIndices_def removeFromIndices_def reindex_def Let_def case_prod_beta split: option.split)

lemma deleteInternal_fields:
  "t_records (fst (deleteInternal E i T)) = js_del (t_records T) i"
  "t_computed (fst (deleteInternal E i T)) = t_computed T" "t_branching (fst (deleteInternal E i T)) = t_branching T"
  "t_schema (fst (deleteInternal E i T)) = t_schema T" "t_ttl (fst (deleteInternal E i T)) = t_ttl T"
  "t_armed (fst (deleteInternal E i T)) = t_armed T" "t_timers (fst (deleteInternal E i T)) = t_timers T"
  "t_subscriptions (fst (deleteInternal E i T)) = t_subscriptions T"
  "t_delivered (fst (deleteInternal E i T)) = t_delivered T" "t_wal (fst (deleteInternal E i T)) = t_wal T"
  by (simp_all add: deleteInternal_def removeFromIndices_def Let_def AList.delete_id js_get_None_iff split: option.split)

lemma deleteInternal_indices:
  fixes T :: db_table and i :: string
  defines "C \<equiv> t_computed T" and "old \<equiv> js_get (t_records T) i"
  shows "t_equality (fst (deleteInternal E i T)) = map (\<lambda>(f, m). (f, unindex idmap_remove (equality_keys C f) old i m)) (t_equality T)"
    and "t_sorted (fst (deleteInternal E i T)) = map (\<lambda>(f, xs). (f, unindex (removeSortedIndexEntry E) (sorted_keys C f) old i xs)) (t_sorted T)"
    and "t_composite (fst (deleteInternal E i T)) =
      map (\<lambda>(n, fs, m). (n, fs, unindex idmap_remove (composite_keys C fs) old i m)) (t_composite T)"
    and "t_prefix (fst (deleteInternal E i T)) = map (\<lambda>(f, m). (f, unindex idmap_remove (prefix_keys C f) old i m)) (t_prefix T)"
  unfolding C_def old_def
  by (simp_all add: deleteInternal_def removeFromIndices_def unindex_def Let_def case_prod_beta split: option.split)

section \<open>The invariant of the indices\<close>

definition index_inv :: "db_env \<Rightarrow> contract \<Rightarrow> db_table \<Rightarrow> bool" where
  "index_inv E K T \<longleftrightarrow> (let C = t_computed T; R = map_of (t_records T) in
     js_wf (t_records T) \<and> js_wf (t_equality T) \<and> js_wf (t_sorted T) \<and> js_wf (t_composite T) \<and> js_wf (t_prefix T) \<and>
     (\<forall>(f, m) \<in> set (t_equality T). idmap_ok m \<and> index_covers idmap_ids (equality_keys C f) R m) \<and>
     (\<forall>(f, xs) \<in> set (t_sorted T). \<exists>b. cc_kind K f = Some b \<and> sorted_ok E b xs \<and> index_covers sorted_ids (sorted_keys C f) R xs) \<and>
     (\<forall>(n, fs, m) \<in> set (t_composite T). idmap_ok m \<and> index_covers idmap_ids (composite_keys C fs) R m) \<and>
     (\<forall>(f, m) \<in> set (t_prefix T). idmap_ok m \<and> index_covers idmap_ids (prefix_keys C f) R m))"

lemma index_invI:
  assumes "js_wf (t_records T)" and "js_wf (t_equality T)" and "js_wf (t_sorted T)" and "js_wf (t_composite T)" and "js_wf (t_prefix T)"
    and "\<And>f m. (f, m) \<in> set (t_equality T) \<Longrightarrow> idmap_ok m \<and> index_covers idmap_ids (equality_keys (t_computed T) f) (map_of (t_records T)) m"
    and "\<And>f xs. (f, xs) \<in> set (t_sorted T) \<Longrightarrow>
      \<exists>b. cc_kind K f = Some b \<and> sorted_ok E b xs \<and> index_covers sorted_ids (sorted_keys (t_computed T) f) (map_of (t_records T)) xs"
    and "\<And>n fs m. (n, fs, m) \<in> set (t_composite T) \<Longrightarrow>
      idmap_ok m \<and> index_covers idmap_ids (composite_keys (t_computed T) fs) (map_of (t_records T)) m"
    and "\<And>f m. (f, m) \<in> set (t_prefix T) \<Longrightarrow> idmap_ok m \<and> index_covers idmap_ids (prefix_keys (t_computed T) f) (map_of (t_records T)) m"
  shows "index_inv E K T"
  unfolding index_inv_def Let_def using assms by (intro conjI) (assumption | fast)+

lemma index_invD:
  assumes "index_inv E K T"
  shows "js_wf (t_records T)" and "js_wf (t_equality T)" and "js_wf (t_sorted T)" and "js_wf (t_composite T)" and "js_wf (t_prefix T)"
    and "(f, m) \<in> set (t_equality T) \<Longrightarrow> idmap_ok m" and "(f, m) \<in> set (t_equality T) \<Longrightarrow> index_covers idmap_ids (equality_keys (t_computed T) f) (map_of (t_records T)) m"
    and "(f, xs) \<in> set (t_sorted T) \<Longrightarrow>
      \<exists>b. cc_kind K f = Some b \<and> sorted_ok E b xs \<and> index_covers sorted_ids (sorted_keys (t_computed T) f) (map_of (t_records T)) xs"
    and "(n, fs, m') \<in> set (t_composite T) \<Longrightarrow> idmap_ok m'"
    and "(n, fs, m') \<in> set (t_composite T) \<Longrightarrow> index_covers idmap_ids (composite_keys (t_computed T) fs) (map_of (t_records T)) m'"
    and "(f, p) \<in> set (t_prefix T) \<Longrightarrow> idmap_ok p" and "(f, p) \<in> set (t_prefix T) \<Longrightarrow> index_covers idmap_ids (prefix_keys (t_computed T) f) (map_of (t_records T)) p"
  using assms by (auto simp: index_inv_def Let_def)

lemma map_of_js_set: "map_of (js_set m k v) = (map_of m)(k \<mapsto> v)"
  by (rule ext) simp

lemma map_of_js_del: "map_of (js_del m k) = (map_of m)(k := None)"
  by (rule ext) simp

lemma putInternal_inv:
  assumes "index_inv E K T" and "\<And>i r. js_get (t_records T) i = Some r \<Longrightarrow> fits K (t_computed T) r" and "fits K (t_computed T) r"
  shows "index_inv E K (putInternal E i r T)"
proof (rule index_invI)
  note D = index_invD [OF assms(1)]
  let ?R = "map_of (t_records T)"
  show "js_wf (t_records (putInternal E i r T))" "js_wf (t_equality (putInternal E i r T))" "js_wf (t_sorted (putInternal E i r T))"
    "js_wf (t_composite (putInternal E i r T))" "js_wf (t_prefix (putInternal E i r T))"
    using D(1-5) by (simp_all add: putInternal_fields putInternal_indices case_prod_beta comp_def)
  show "idmap_ok m \<and> index_covers idmap_ids (equality_keys (t_computed (putInternal E i r T)) f) (map_of (t_records (putInternal E i r T))) m"
    if "(f, m) \<in> set (t_equality (putInternal E i r T))" for f m
    using that idmap.reindex_covers [OF D(6,7)] by (auto simp: putInternal_fields putInternal_indices map_of_js_set)
  show "idmap_ok m \<and> index_covers idmap_ids (prefix_keys (t_computed (putInternal E i r T)) f) (map_of (t_records (putInternal E i r T))) m"
    if "(f, m) \<in> set (t_prefix (putInternal E i r T))" for f m
    using that idmap.reindex_covers [OF D(11,12)] by (auto simp: putInternal_fields putInternal_indices map_of_js_set)
  show "idmap_ok m \<and> index_covers idmap_ids (composite_keys (t_computed (putInternal E i r T)) fs) (map_of (t_records (putInternal E i r T))) m"
    if "(n, fs, m) \<in> set (t_composite (putInternal E i r T))" for n fs m
    using that idmap.reindex_covers [OF D(9,10)] by (auto simp: putInternal_fields putInternal_indices map_of_js_set)
  show "\<exists>b. cc_kind K f = Some b \<and> sorted_ok E b xs \<and>
      index_covers sorted_ids (sorted_keys (t_computed (putInternal E i r T)) f) (map_of (t_records (putInternal E i r T))) xs"
    if "(f, xs) \<in> set (t_sorted (putInternal E i r T))" for f xs
  proof -
    from that obtain ys where ys: "(f, ys) \<in> set (t_sorted T)"
      and xs: "xs = reindex (insertSortedIndexEntry E) (removeSortedIndexEntry E) (sorted_keys (t_computed T) f) (?R i) i r ys"
      by (auto simp: putInternal_indices)
    obtain b where b: "cc_kind K f = Some b" "sorted_ok E b ys" "index_covers sorted_ids (sorted_keys (t_computed T) f) ?R ys"
      using D(8) [OF ys] by blast
    show ?thesis
      using sorted_index.reindex_covers [OF b(2,3) fits_sorted [OF assms(2) b(1)] fits_sorted [OF assms(3) b(1)], of i] b(1)
      unfolding xs by (simp add: putInternal_fields map_of_js_set)
  qed
qed

lemma deleteInternal_inv:
  assumes "index_inv E K T" and "\<And>i r. js_get (t_records T) i = Some r \<Longrightarrow> fits K (t_computed T) r"
  shows "index_inv E K (fst (deleteInternal E i T))"
proof (rule index_invI)
  note D = index_invD [OF assms(1)]
  let ?R = "map_of (t_records T)" and ?T = "fst (deleteInternal E i T)"
  show "js_wf (t_records ?T)" "js_wf (t_equality ?T)" "js_wf (t_sorted ?T)" "js_wf (t_composite ?T)" "js_wf (t_prefix ?T)"
    using D(1-5) by (simp_all add: deleteInternal_fields deleteInternal_indices case_prod_beta comp_def)
  show "idmap_ok m \<and> index_covers idmap_ids (equality_keys (t_computed ?T) f) (map_of (t_records ?T)) m"
    if "(f, m) \<in> set (t_equality ?T)" for f m
    using that idmap.unindex_covers [OF D(6,7)] by (auto simp: deleteInternal_fields deleteInternal_indices map_of_js_del)
  show "idmap_ok m \<and> index_covers idmap_ids (prefix_keys (t_computed ?T) f) (map_of (t_records ?T)) m"
    if "(f, m) \<in> set (t_prefix ?T)" for f m
    using that idmap.unindex_covers [OF D(11,12)] by (auto simp: deleteInternal_fields deleteInternal_indices map_of_js_del)
  show "idmap_ok m \<and> index_covers idmap_ids (composite_keys (t_computed ?T) fs) (map_of (t_records ?T)) m"
    if "(n, fs, m) \<in> set (t_composite ?T)" for n fs m
    using that idmap.unindex_covers [OF D(9,10)] by (auto simp: deleteInternal_fields deleteInternal_indices map_of_js_del)
  show "\<exists>b. cc_kind K f = Some b \<and> sorted_ok E b xs \<and> index_covers sorted_ids (sorted_keys (t_computed ?T) f) (map_of (t_records ?T)) xs"
    if "(f, xs) \<in> set (t_sorted ?T)" for f xs
  proof -
    from that obtain ys where ys: "(f, ys) \<in> set (t_sorted T)"
      and xs: "xs = unindex (removeSortedIndexEntry E) (sorted_keys (t_computed T) f) (?R i) i ys"
      by (auto simp: deleteInternal_indices)
    obtain b where b: "cc_kind K f = Some b" "sorted_ok E b ys" "index_covers sorted_ids (sorted_keys (t_computed T) f) ?R ys"
      using D(8) [OF ys] by blast
    show ?thesis
      using sorted_index.unindex_covers [OF b(2,3) fits_sorted [OF assms(2) b(1)], of i] b(1)
      unfolding xs by (simp add: deleteInternal_fields map_of_js_del)
  qed
qed

end
