(* ===== verification/Db_Reachable.thy ===== *)
theory Db_Reachable
  imports Db_Invariant
begin

text \<open>
  The operations of a table keep the invariant of its indices, so that it holds in every reachable table.
\<close>

declare map_of_eq_Some_iff [simp del]
declare Some_eq_map_of_iff [simp del]

section \<open>The rows a table holds, and those it can bring back\<close>

definition branching_rows :: "branching \<Rightarrow> row set" where
  "branching_rows B = (\<Union>p \<in> set (be_branches B). snd ` set (snd p)) \<union>
     (\<Union>a \<in> set (be_undo B) \<union> set (be_redo B). set_option (as_before a) \<union> set_option (as_after a))"

definition table_inv :: "db_env \<Rightarrow> contract \<Rightarrow> db_table \<Rightarrow> bool" where
  "table_inv E K T \<longleftrightarrow> index_inv E K T \<and>
     (\<forall>r \<in> snd ` set (t_records T) \<union> branching_rows (t_branching T). fits K (t_computed T) r)"

lemma table_invI:
  "index_inv E K T \<Longrightarrow> (\<And>r. r \<in> snd ` set (t_records T) \<Longrightarrow> fits K (t_computed T) r) \<Longrightarrow>
   (\<And>r. r \<in> branching_rows (t_branching T) \<Longrightarrow> fits K (t_computed T) r) \<Longrightarrow> table_inv E K T"
  unfolding table_inv_def by blast

lemma table_invD:
  assumes "table_inv E K T"
  shows "index_inv E K T" and "js_get (t_records T) i = Some r \<Longrightarrow> fits K (t_computed T) r"
    and "r \<in> snd ` set (t_records T) \<Longrightarrow> fits K (t_computed T) r"
    and "r \<in> branching_rows (t_branching T) \<Longrightarrow> fits K (t_computed T) r"
  using assms unfolding table_inv_def by (blast, force dest!: map_of_SomeD, blast+)

text \<open>Parts of the state the invariant does not read.\<close>

named_theorems unread \<open>updates of a table that leave the invariant alone\<close>

lemma index_inv_unread [unread]:
  "index_inv E K (T\<lparr>t_branching := B\<rparr>) = index_inv E K T" "index_inv E K (T\<lparr>t_schema := s\<rparr>) = index_inv E K T"
  "index_inv E K (T\<lparr>t_ttl := l\<rparr>) = index_inv E K T" "index_inv E K (T\<lparr>t_armed := a\<rparr>) = index_inv E K T"
  "index_inv E K (T\<lparr>t_timers := n\<rparr>) = index_inv E K T" "index_inv E K (T\<lparr>t_subscriptions := u\<rparr>) = index_inv E K T"
  "index_inv E K (T\<lparr>t_delivered := d\<rparr>) = index_inv E K T" "index_inv E K (T\<lparr>t_wal := w\<rparr>) = index_inv E K T"
  by (simp_all add: index_inv_def)

lemma table_inv_unread [unread]:
  "table_inv E K (T\<lparr>t_schema := s\<rparr>) = table_inv E K T"
  "table_inv E K (T\<lparr>t_ttl := l\<rparr>) = table_inv E K T" "table_inv E K (T\<lparr>t_armed := a\<rparr>) = table_inv E K T"
  "table_inv E K (T\<lparr>t_timers := n\<rparr>) = table_inv E K T" "table_inv E K (T\<lparr>t_subscriptions := u\<rparr>) = table_inv E K T"
  "table_inv E K (T\<lparr>t_delivered := d\<rparr>) = table_inv E K T" "table_inv E K (T\<lparr>t_wal := w\<rparr>) = table_inv E K T"
  by (simp_all add: table_inv_def unread)

lemma table_inv_effects [unread]:
  "table_inv E K (walHook op i p T) = table_inv E K T" "table_inv E K (emitChangeEvent c i b a T) = table_inv E K T"
  "table_inv E K (set_ttl i ttl T) = table_inv E K T" "table_inv E K (clear_ttl i T) = table_inv E K T"
  "table_inv E K (subscribe sid flt T) = table_inv E K T" "table_inv E K (unsubscribe sid T) = table_inv E K T"
  by (simp_all add: walHook_def emitChangeEvent_def set_ttl_def clear_ttl_def subscribe_def unsubscribe_def unread Let_def split: option.split)

lemma computed_effects [simp]:
  "t_computed (walHook op i p T) = t_computed T" "t_computed (emitChangeEvent c i b a T) = t_computed T"
  "t_computed (set_ttl i ttl T) = t_computed T" "t_computed (clear_ttl i T) = t_computed T"
  "t_computed (set_active g T) = t_computed T" "t_computed (recordAction act i b a T) = t_computed T"
  "t_computed (empty_indices T) = t_computed T" "t_computed (clear_table T) = t_computed T"
  by (simp_all add: walHook_def emitChangeEvent_def set_ttl_def clear_ttl_def set_active_def recordAction_def empty_indices_def
      clear_table_def Let_def split: option.split)

lemma set_js_set: "set (js_set m k v) \<subseteq> insert (k, v) (set m)"
  by (induction m) auto

lemma table_inv_branching:
  assumes "table_inv E K T" and "\<And>r. r \<in> branching_rows B \<Longrightarrow> fits K (t_computed T) r"
  shows "table_inv E K (T\<lparr>t_branching := B\<rparr>)"
  using assms by (auto simp: table_inv_def unread)

section \<open>Primitive writes\<close>

lemma putInternal_table_inv:
  assumes "table_inv E K T" and "fits K (t_computed T) r"
  shows "table_inv E K (putInternal E i r T)"
proof (rule table_invI)
  show "index_inv E K (putInternal E i r T)" by (rule putInternal_inv [OF table_invD(1,2) [OF assms(1)] assms(2)])
  show "fits K (t_computed (putInternal E i r T)) q" if "q \<in> snd ` set (t_records (putInternal E i r T))" for q
    using that set_js_set [of i r "t_records T"] assms(2) table_invD(3) [OF assms(1)]
    by (fastforce simp: putInternal_fields)
  show "fits K (t_computed (putInternal E i r T)) q" if "q \<in> branching_rows (t_branching (putInternal E i r T))" for q
    using that table_invD(4) [OF assms(1)] by (simp add: putInternal_fields)
qed

lemma deleteInternal_table_inv:
  assumes "table_inv E K T"
  shows "table_inv E K (fst (deleteInternal E i T))"
proof (rule table_invI)
  show "index_inv E K (fst (deleteInternal E i T))" by (rule deleteInternal_inv [OF table_invD(1,2) [OF assms]])
  show "fits K (t_computed (fst (deleteInternal E i T))) q" if "q \<in> snd ` set (t_records (fst (deleteInternal E i T)))" for q
    using that table_invD(3) [OF assms] by (auto simp: deleteInternal_fields set_js_del)
  show "fits K (t_computed (fst (deleteInternal E i T))) q" if "q \<in> branching_rows (t_branching (fst (deleteInternal E i T)))" for q
    using that table_invD(4) [OF assms] by (simp add: deleteInternal_fields)
qed

lemma put_all_fields:
  "t_computed (put_all E m T) = t_computed T" "t_branching (put_all E m T) = t_branching T" "t_wal (put_all E m T) = t_wal T"
  by (induction m arbitrary: T) (auto simp: put_all_def putInternal_fields)

lemma put_all_table_inv:
  "table_inv E K T \<Longrightarrow> (\<And>r. r \<in> snd ` set m \<Longrightarrow> fits K (t_computed T) r) \<Longrightarrow> table_inv E K (put_all E m T)"
proof (induction m arbitrary: T)
  case (Cons p m)
  obtain i r where p: "p = (i, r)" by (cases p)
  have "table_inv E K (putInternal E i r T)" by (rule putInternal_table_inv [OF Cons.prems(1)]) (simp add: Cons.prems(2) p)
  moreover have "\<And>q. q \<in> snd ` set m \<Longrightarrow> fits K (t_computed (putInternal E i r T)) q"
    by (simp add: Cons.prems(2) putInternal_fields)
  ultimately have "table_inv E K (put_all E m (putInternal E i r T))" by (rule Cons.IH)
  then show ?case by (simp add: put_all_def p)
qed (simp add: put_all_def)

section \<open>Branches and actions\<close>

lemma branch_rows: "(n, m) \<in> set (be_branches B) \<Longrightarrow> snd ` set m \<subseteq> branching_rows B"
  using UN_upper [of "(n, m)" "set (be_branches B)" "\<lambda>p. snd ` set (snd p)"] unfolding branching_rows_def by simp blast

lemma active_rows:
  assumes "r \<in> snd ` set (getActiveRecords B)"
  shows "r \<in> branching_rows B"
proof (cases "js_get (be_branches B) (be_current B)")
  case (Some m)
  then show ?thesis using assms subsetD [OF branch_rows [OF map_of_SomeD [OF Some]]] by (simp add: getActiveRecords_def)
qed (use assms in \<open>simp add: getActiveRecords_def\<close>)

lemma subset_middle: "a' \<subseteq> m \<union> a \<Longrightarrow> a' \<union> u \<subseteq> a \<union> u \<union> m"
  by blast

lemma branch_set_rows: "branching_rows (B\<lparr>be_branches := js_set (be_branches B) n m\<rparr>) \<subseteq> branching_rows B \<union> snd ` set m"
proof -
  have "(\<Union>p \<in> set (js_set (be_branches B) n m). snd ` set (snd p)) \<subseteq> (\<Union>p \<in> insert (n, m) (set (be_branches B)). snd ` set (snd p))"
    by (rule UN_mono [OF set_js_set subset_refl])
  then have "(\<Union>p \<in> set (js_set (be_branches B) n m). snd ` set (snd p)) \<subseteq> snd ` set m \<union> (\<Union>p \<in> set (be_branches B). snd ` set (snd p))"
    by (simp only: UN_insert snd_conv)
  moreover have same: "be_branches (B\<lparr>be_branches := bs\<rparr>) = bs" "be_undo (B\<lparr>be_branches := bs\<rparr>) = be_undo B"
    "be_redo (B\<lparr>be_branches := bs\<rparr>) = be_redo B" for bs by simp_all
  ultimately show ?thesis unfolding branching_rows_def same by (intro subset_middle)
qed

lemma set_active_table_inv:
  assumes "table_inv E K T" and "\<And>q. q \<in> snd ` set (g (getActiveRecords (t_branching T))) \<Longrightarrow>
    q \<in> snd ` set (getActiveRecords (t_branching T)) \<or> fits K (t_computed T) q"
  shows "table_inv E K (set_active g T)"
  unfolding set_active_def Let_def
  by (rule table_inv_branching [OF assms(1)])
    (use branch_set_rows [where B = "t_branching T"] assms(2) active_rows table_invD(4) [OF assms(1)] in blast)

lemma recordAction_table_inv:
  assumes "table_inv E K T" and "\<And>q. q \<in> set_option before \<union> set_option after \<Longrightarrow> fits K (t_computed T) q"
  shows "table_inv E K (recordAction op i before after T)"
proof -
  let ?B = "t_branching T" and ?a = "\<lparr>as_op = op, as_id = i, as_before = before, as_after = after\<rparr>"
  have "set (if length (be_undo ?B @ [?a]) > maxStackDepth then tl (be_undo ?B @ [?a]) else be_undo ?B @ [?a]) \<subseteq> insert ?a (set (be_undo ?B))"
    by (cases "be_undo ?B") auto
  then show ?thesis
    unfolding recordAction_def Let_def using assms(2) table_invD(4) [OF assms(1)]
    by (intro table_inv_branching [OF assms(1)]) (fastforce simp: branching_rows_def)
qed

lemma action_rows:
  "a \<in> set (be_undo B) \<union> set (be_redo B) \<Longrightarrow> as_before a = Some r \<or> as_after a = Some r \<Longrightarrow> r \<in> branching_rows B"
  by (fastforce simp: branching_rows_def)

lemma undo_table_inv:
  assumes "table_inv E K T"
  shows "table_inv E K (fst (undo E T))"
proof (cases "be_undo (t_branching T) = []")
  case False
  let ?B = "t_branching T" and ?a = "last (be_undo (t_branching T))"
  let ?B' = "?B\<lparr>be_undo := butlast (be_undo ?B), be_redo := be_redo ?B @ [?a]\<rparr>"
  have mem: "?a \<in> set (be_undo ?B)" using False by simp
  have "branching_rows ?B' \<subseteq> branching_rows ?B"
    using mem in_set_butlastD [of _ "be_undo ?B"] by (fastforce simp: branching_rows_def)
  then have inv: "table_inv E K (T\<lparr>t_branching := ?B'\<rparr>)"
    using table_inv_branching [OF assms] table_invD(4) [OF assms] by blast
  have "fits K (t_computed T) r" if "as_before ?a = Some r" for r
    using table_invD(4) [OF assms action_rows] mem that by blast
  then have "table_inv E K (undo_action E ?a (T\<lparr>t_branching := ?B'\<rparr>))"
    using inv deleteInternal_table_inv [OF inv] putInternal_table_inv [OF inv]
    by (simp add: undo_action_def split: action_op.split option.split)
  then show ?thesis using False by (simp add: undo_def Let_def)
qed (simp add: undo_def assms)

lemma redo_table_inv:
  assumes "table_inv E K T"
  shows "table_inv E K (fst (redo E T))"
proof (cases "be_redo (t_branching T) = []")
  case False
  let ?B = "t_branching T" and ?a = "last (be_redo (t_branching T))"
  let ?B' = "?B\<lparr>be_redo := butlast (be_redo ?B), be_undo := be_undo ?B @ [?a]\<rparr>"
  have mem: "?a \<in> set (be_redo ?B)" using False by simp
  have "branching_rows ?B' \<subseteq> branching_rows ?B"
    using mem in_set_butlastD [of _ "be_redo ?B"] by (fastforce simp: branching_rows_def)
  then have inv: "table_inv E K (T\<lparr>t_branching := ?B'\<rparr>)"
    using table_inv_branching [OF assms] table_invD(4) [OF assms] by blast
  have "fits K (t_computed T) r" if "as_after ?a = Some r" for r
    using table_invD(4) [OF assms action_rows] mem that by blast
  then have "table_inv E K (redo_action E ?a (T\<lparr>t_branching := ?B'\<rparr>))"
    using inv deleteInternal_table_inv [OF inv] putInternal_table_inv [OF inv]
    by (simp add: redo_action_def split: action_op.split option.split)
  then show ?thesis using False by (simp add: redo_def Let_def)
qed (simp add: redo_def assms)

lemma empty_records_inv:
  assumes "table_inv E K T"
  shows "table_inv E K (T\<lparr>t_records := []\<rparr>)"
  using assms unfolding table_inv_def index_inv_def Let_def
  by (auto simp: index_covers_def)

lemma sync_table_inv:
  assumes "table_inv E K T"
  shows "table_inv E K (sync_records E T)"
  unfolding sync_records_def
proof (rule put_all_table_inv [OF empty_records_inv [OF assms]])
  fix r
  assume "r \<in> snd ` set (getActiveRecords (t_branching T))"
  then show "fits K (t_computed (T\<lparr>t_records := []\<rparr>)) r" using table_invD(4) [OF assms active_rows] by simp
qed

lemma checkoutBranch_table_inv:
  assumes "table_inv E K T"
  shows "table_inv E K (fst (checkoutBranch E name T))"
proof (cases "js_has (be_branches (t_branching T)) (clean_name name)")
  case True
  let ?B = "(t_branching T)\<lparr>be_current := clean_name name, be_undo := [], be_redo := []\<rparr>"
  have "branching_rows ?B \<subseteq> branching_rows (t_branching T)" by (auto simp: branching_rows_def)
  then have "table_inv E K (T\<lparr>t_branching := ?B\<rparr>)"
    using table_inv_branching [OF assms] table_invD(4) [OF assms] by blast
  then show ?thesis using True by (simp add: checkoutBranch_def checkout_def Let_def sync_table_inv)
qed (simp add: checkoutBranch_def checkout_def Let_def assms)

lemma forkBranch_table_inv:
  assumes "table_inv E K T"
  shows "table_inv E K (fst (forkBranch name T))"
proof -
  have "table_inv E K (T\<lparr>t_branching := (t_branching T)\<lparr>be_branches :=
      js_set (be_branches (t_branching T)) (clean_name name) (getActiveRecords (t_branching T))\<rparr>\<rparr>)"
    by (rule table_inv_branching [OF assms])
      (use branch_set_rows [where B = "t_branching T"] active_rows table_invD(4) [OF assms] in blast)
  then show ?thesis using assms by (simp add: forkBranch_def Let_def)
qed

lemma merge_subset: "a \<subseteq> s \<union> t' \<Longrightarrow> t' \<subseteq> insert r t \<Longrightarrow> a \<subseteq> insert r s \<union> t"
  by blast

lemma merge_rows: "snd ` set (fst (fold (merge_row s) src (t, c, n))) \<subseteq> snd ` set src \<union> snd ` set t"
proof (induction src arbitrary: t c n)
  case (Cons p src)
  obtain i r where p: "p = (i, r)" by (cases p)
  have "fst (merge_row s p (t, c, n)) = t \<or> fst (merge_row s p (t, c, n)) = js_set t i r"
    by (simp add: merge_row_def p Let_def split: option.split)
  moreover have "snd ` set (js_set t i r) \<subseteq> insert r (snd ` set t)" using image_mono [OF set_js_set [of i r t], of snd] by simp
  ultimately have one: "snd ` set (fst (merge_row s p (t, c, n))) \<subseteq> insert r (snd ` set t)" by (elim disjE) (simp_all only: subset_insertI)
  obtain t' c' n' where step: "merge_row s p (t, c, n) = (t', c', n')" by (cases "merge_row s p (t, c, n)")
  have "snd ` set (fst (fold (merge_row s) src (t', c', n'))) \<subseteq> snd ` set src \<union> snd ` set t'" by (rule Cons.IH)
  moreover have "snd ` set t' \<subseteq> insert r (snd ` set t)" using one unfolding step by simp
  ultimately show ?case
    unfolding fold_Cons comp_def step unfolding list.set image_insert p snd_conv by (rule merge_subset)
qed simp

lemma mergeBranch_table_inv:
  assumes "table_inv E K T"
  shows "table_inv E K (fst (mergeBranch E name strategy T))"
proof -
  let ?B = "t_branching T"
  have "branching_rows (fst (merge_branch name strategy ?B)) \<subseteq> branching_rows ?B"
  proof (cases "js_get (be_branches ?B) (clean_name name)")
    case (Some src)
    then have src: "snd ` set src \<subseteq> branching_rows ?B" by (intro branch_rows map_of_SomeD)
    let ?m = "fst (fold (merge_row strategy) src (getActiveRecords ?B, [], 0))"
    have "snd ` set ?m \<subseteq> branching_rows ?B" using merge_rows [of strategy src "getActiveRecords ?B" "[]" 0] src active_rows by blast
    then have "branching_rows (?B\<lparr>be_branches := js_set (be_branches ?B) (be_current ?B) ?m\<rparr>) \<subseteq> branching_rows ?B"
      using branch_set_rows [where B = ?B and n = "be_current ?B" and m = ?m] by blast
    moreover have "fst (merge_branch name strategy ?B) = ?B\<lparr>be_branches := js_set (be_branches ?B) (be_current ?B) ?m\<rparr>"
      by (simp add: merge_branch_def Let_def case_prod_beta Some)
    ultimately show ?thesis by (simp only:)
  qed (simp add: merge_branch_def)
  then have "table_inv E K (T\<lparr>t_branching := fst (merge_branch name strategy ?B)\<rparr>)"
    using table_inv_branching [OF assms] table_invD(4) [OF assms] by blast
  then show ?thesis by (simp add: mergeBranch_def Let_def case_prod_beta unread sync_table_inv)
qed

section \<open>Writes\<close>

lemma valid_row_cases: "valid_row E T r = r \<or> (snd (validateAndCoerce E (t_schema T) r) = 0 \<and> valid_row E T r = fst (validateAndCoerce E (t_schema T) r))"
  by (simp add: valid_row_def Let_def case_prod_beta)

lemma put_table_inv:
  assumes "table_inv E K T" and "fits K (t_computed T) (valid_row E T r)"
  shows "table_inv E K (fst (put E i r ttl T))"
proof -
  let ?r = "valid_row E T r"
  have 1: "table_inv E K (putInternal E i ?r T)" by (rule putInternal_table_inv [OF assms])
  have 2: "table_inv E K (set_active (\<lambda>m. js_set m i ?r) (putInternal E i ?r T))"
  proof (rule set_active_table_inv [OF 1])
    fix q
    let ?m = "getActiveRecords (t_branching (putInternal E i ?r T))"
    assume "q \<in> snd ` set (js_set ?m i ?r)"
    then have "q \<in> insert ?r (snd ` set ?m)" using image_mono [OF set_js_set [of i ?r ?m], of snd] by auto
    then show "q \<in> snd ` set ?m \<or> fits K (t_computed (putInternal E i ?r T)) q" using assms(2) by (auto simp: putInternal_fields)
  qed
  have 3: "table_inv E K (recordAction A_PUT i (js_get (t_records T) i) (Some ?r) (set_active (\<lambda>m. js_set m i ?r) (putInternal E i ?r T)))"
    using assms(2) table_invD(2) [OF assms(1), of i]
    by (intro recordAction_table_inv [OF 2]) (auto simp: putInternal_fields)
  show ?thesis using 3 by (simp add: put_def Let_def unread)
qed

lemma delete_table_inv:
  assumes "table_inv E K T"
  shows "table_inv E K (fst (delete_row E i T))"
proof (cases "js_get (t_records T) i")
  case (Some old)
  have 1: "table_inv E K (set_active (\<lambda>m. js_del m i) (fst (deleteInternal E i T)))"
    by (rule set_active_table_inv [OF deleteInternal_table_inv [OF assms]]) (auto simp: set_js_del)
  have "table_inv E K (recordAction A_DELETE i (Some old) None (set_active (\<lambda>m. js_del m i) (fst (deleteInternal E i T))))"
    using table_invD(2) [OF assms Some] by (intro recordAction_table_inv [OF 1]) (simp add: deleteInternal_fields)
  then show ?thesis using Some by (simp add: delete_row_def unread)
qed (simp add: delete_row_def assms)

lemma empty_indices_inv:
  assumes "table_inv E K T" and "t_records T = []"
  shows "table_inv E K (empty_indices T)"
proof -
  have "index_inv E K (empty_indices T)"
  proof (rule index_invI)
    note D = index_invD [OF table_invD(1) [OF assms(1)]]
    show "js_wf (t_records (empty_indices T))" "js_wf (t_equality (empty_indices T))" "js_wf (t_sorted (empty_indices T))"
      "js_wf (t_composite (empty_indices T))" "js_wf (t_prefix (empty_indices T))"
      using D(1-5) by (simp_all add: empty_indices_def case_prod_beta comp_def)
    show "\<exists>b. cc_kind K f = Some b \<and> sorted_ok E b xs \<and>
        index_covers sorted_ids (sorted_keys (t_computed (empty_indices T)) f) (map_of (t_records (empty_indices T))) xs"
      if "(f, xs) \<in> set (t_sorted (empty_indices T))" for f xs
      using that D(8) [of f] assms(2) by (fastforce simp: empty_indices_def sorted_ok_def index_covers_def)
  qed (auto simp: empty_indices_def assms(2) idmap_ok_def index_covers_def)
  then show ?thesis using assms(1) by (simp add: table_inv_def empty_indices_def)
qed

lemma clear_table_inv:
  assumes "table_inv E K T"
  shows "table_inv E K (clear_table T)"
proof -
  have "table_inv E K (set_active (\<lambda>_. []) (T\<lparr>t_records := []\<rparr>))"
    by (rule set_active_table_inv [OF empty_records_inv [OF assms]]) simp
  then have "table_inv E K (empty_indices (set_active (\<lambda>_. []) (T\<lparr>t_records := []\<rparr>)))"
    by (rule empty_indices_inv) (simp add: set_active_def Let_def)
  then show ?thesis by (simp add: clear_table_def unread)
qed

lemma expire_table_inv:
  assumes "table_inv E K T"
  shows "table_inv E K (expire E h T)"
proof (cases "js_get (t_armed T) h")
  case (Some i)
  let ?T1 = "T\<lparr>t_armed := js_del (t_armed T) h\<rparr>"
  have 1: "table_inv E K ?T1" by (simp add: unread assms)
  have "table_inv E K (set_active (\<lambda>m. js_del m i) (fst (deleteInternal E i ?T1)))"
    by (rule set_active_table_inv [OF deleteInternal_table_inv [OF 1]]) (auto simp: set_js_del)
  then show ?thesis using 1 Some by (simp add: expire_def Let_def unread split: option.split)
qed (simp add: expire_def assms)

section \<open>Transactions\<close>

definition staged_fits :: "contract \<Rightarrow> computed \<Rightarrow> staged \<Rightarrow> bool" where
  "staged_fits K C m = (case m of S_PUT i r \<Rightarrow> fits K C r | S_DELETE i \<Rightarrow> True)"

lemma stage_table_inv:
  "table_inv E K T \<Longrightarrow> staged_fits K (t_computed T) m \<Longrightarrow> table_inv E K (stage E m T) \<and> t_computed (stage E m T) = t_computed T"
  by (simp add: stage_def staged_fits_def putInternal_table_inv deleteInternal_table_inv putInternal_fields deleteInternal_fields split: staged.splits)

lemma stages_table_inv:
  "table_inv E K T \<Longrightarrow> list_all (staged_fits K (t_computed T)) ms \<Longrightarrow>
   table_inv E K (fold (stage E) ms T) \<and> t_computed (fold (stage E) ms T) = t_computed T"
proof (induction ms arbitrary: T)
  case (Cons m ms)
  have "table_inv E K (stage E m T) \<and> t_computed (stage E m T) = t_computed T"
    by (rule stage_table_inv) (use Cons.prems in simp_all)
  with Cons.IH [of "stage E m T"] Cons.prems(2) show ?case by simp
qed simp

lemma log_staged_table_inv: "table_inv E K (fold log_staged ms T) = table_inv E K T"
  by (induction ms arbitrary: T) (simp_all add: log_staged_def unread split: staged.split)

lemma restoreSnapshot_table_inv:
  assumes "table_inv E K T" and "\<And>r. r \<in> snd ` set snap \<Longrightarrow> fits K (t_computed T) r"
  shows "table_inv E K (restoreSnapshot E snap T)"
  unfolding restoreSnapshot_def by (rule put_all_table_inv [OF clear_table_inv [OF assms(1)]]) (simp add: assms(2))

lemma transaction_table_inv:
  assumes "table_inv E K T" and "list_all (staged_fits K (t_computed T)) ms"
  shows "table_inv E K (transaction E ms throws T)"
proof -
  note T1 = stages_table_inv [OF assms]
  have "table_inv E K (restoreSnapshot E (t_records T) (fold (stage E) ms T))"
    by (rule restoreSnapshot_table_inv) (use T1 table_invD(3) [OF assms(1)] in auto)
  then show ?thesis using T1 by (simp add: transaction_def createSnapshot_def Let_def log_staged_table_inv)
qed

section \<open>New indices\<close>

lemma createIndex_table_inv:
  assumes "table_inv E K T"
  shows "table_inv E K (createIndex f T)"
proof (cases "js_has (t_equality T) f")
  case False
  note D = index_invD [OF table_invD(1) [OF assms]]
  let ?m = "fold (\<lambda>(i, r) m. index_all idmap_add (equality_keys (t_computed T) f r) i m) (t_records T) []"
  have new: "index_covers idmap_ids (equality_keys (t_computed T) f) (map_of (t_records T)) ?m \<and> idmap_ok ?m"
    using D(1) by (intro idmap.covers_build) (auto simp: idmap_ok_def)
  have "index_inv E K (T\<lparr>t_equality := js_set (t_equality T) f ?m\<rparr>)"
    by (rule index_invI) (use D new set_js_set [of f ?m "t_equality T"] in auto)
  then show ?thesis using False assms by (simp add: createIndex_def table_inv_def)
qed (simp add: createIndex_def assms)

lemma createPrefixIndex_table_inv:
  assumes "table_inv E K T"
  shows "table_inv E K (createPrefixIndex f T)"
proof (cases "js_has (t_prefix T) f")
  case False
  note D = index_invD [OF table_invD(1) [OF assms]]
  let ?m = "fold (\<lambda>(i, r) m. index_all idmap_add (prefix_keys (t_computed T) f r) i m) (t_records T) []"
  have new: "index_covers idmap_ids (prefix_keys (t_computed T) f) (map_of (t_records T)) ?m \<and> idmap_ok ?m"
    using D(1) by (intro idmap.covers_build) (auto simp: idmap_ok_def)
  have "index_inv E K (T\<lparr>t_prefix := js_set (t_prefix T) f ?m\<rparr>)"
    by (rule index_invI) (use D new set_js_set [of f ?m "t_prefix T"] in auto)
  then show ?thesis using False assms by (simp add: createPrefixIndex_def table_inv_def)
qed (simp add: createPrefixIndex_def assms)

lemma createCompositeIndex_table_inv:
  assumes "table_inv E K T"
  shows "table_inv E K (createCompositeIndex fs T)"
proof (cases "js_has (t_composite T) (join_with ''___'' fs)")
  case False
  note D = index_invD [OF table_invD(1) [OF assms]]
  let ?n = "join_with ''___'' fs"
  let ?m = "fold (\<lambda>(i, r) m. index_all idmap_add (composite_keys (t_computed T) fs r) i m) (t_records T) []"
  have new: "index_covers idmap_ids (composite_keys (t_computed T) fs) (map_of (t_records T)) ?m \<and> idmap_ok ?m"
    using D(1) by (intro idmap.covers_build) (auto simp: idmap_ok_def)
  have "index_inv E K (T\<lparr>t_composite := js_set (t_composite T) ?n (fs, ?m)\<rparr>)"
    by (rule index_invI) (use D new set_js_set [of ?n "(fs, ?m)" "t_composite T"] in auto)
  then show ?thesis using False assms by (simp add: createCompositeIndex_def table_inv_def Let_def)
qed (simp add: createCompositeIndex_def assms)

lemma createSortedIndex_table_inv:
  assumes "table_inv E K T" and "cc_kind K f = Some b"
  shows "table_inv E K (createSortedIndex E f T)"
proof (cases "js_has (t_sorted T) f")
  case False
  note D = index_invD [OF table_invD(1) [OF assms(1)]]
  let ?xs = "fold (\<lambda>(i, r) xs. index_all (insertSortedIndexEntry E) (sorted_keys (t_computed T) f r) i xs) (t_records T) []"
  have new: "index_covers sorted_ids (sorted_keys (t_computed T) f) (map_of (t_records T)) ?xs \<and> sorted_ok E b ?xs"
  proof (rule sorted_index.covers_build [OF _ D(1)])
    show "\<forall>(i, r) \<in> set (t_records T). set (sorted_keys (t_computed T) f r) \<subseteq> kind b"
      using fits_sorted [OF table_invD(3) [OF assms(1)] assms(2)] by fastforce
  qed (simp add: sorted_ok_def)
  have "index_inv E K (T\<lparr>t_sorted := js_set (t_sorted T) f ?xs\<rparr>)"
    by (rule index_invI) (use D new assms(2) set_js_set [of f ?xs "t_sorted T"] in auto)
  then show ?thesis using False assms by (simp add: createSortedIndex_def table_inv_def)
qed (simp add: createSortedIndex_def assms)

section \<open>Runs of a table\<close>

datatype table_op =
    O_put string row "int option"
  | O_delete string
  | O_clear
  | O_expire nat
  | O_transaction "staged list" bool
  | O_undo
  | O_redo
  | O_fork string
  | O_checkout string
  | O_merge string merge_strategy
  | O_index string
  | O_sorted string
  | O_composite "string list"
  | O_prefix string
  | O_schema table_schema
  | O_subscribe string "(row \<Rightarrow> bool option) option"
  | O_unsubscribe string

definition run_op :: "db_env \<Rightarrow> table_op \<Rightarrow> db_table \<Rightarrow> db_table" where
  "run_op E op T =
     (case op of
        O_put i r ttl \<Rightarrow> fst (put E i r ttl T) | O_delete i \<Rightarrow> fst (delete_row E i T) | O_clear \<Rightarrow> clear_table T
      | O_expire h \<Rightarrow> expire E h T | O_transaction ms throws \<Rightarrow> transaction E ms throws T
      | O_undo \<Rightarrow> fst (undo E T) | O_redo \<Rightarrow> fst (redo E T)
      | O_fork n \<Rightarrow> fst (forkBranch n T) | O_checkout n \<Rightarrow> fst (checkoutBranch E n T) | O_merge n s \<Rightarrow> fst (mergeBranch E n s T)
      | O_index f \<Rightarrow> createIndex f T | O_sorted f \<Rightarrow> createSortedIndex E f T
      | O_composite fs \<Rightarrow> createCompositeIndex fs T | O_prefix f \<Rightarrow> createPrefixIndex f T
      | O_schema s \<Rightarrow> T\<lparr>t_schema := Some s\<rparr>
      | O_subscribe sid flt \<Rightarrow> subscribe sid flt T | O_unsubscribe sid \<Rightarrow> unsubscribe sid T)"

text \<open>The contract: rows that are written fit it, and a sorted index is created on a column of one kind.\<close>

definition op_fits :: "db_env \<Rightarrow> contract \<Rightarrow> db_table \<Rightarrow> table_op \<Rightarrow> bool" where
  "op_fits E K T op =
     (case op of
        O_put i r ttl \<Rightarrow> fits K (t_computed T) (valid_row E T r)
      | O_transaction ms throws \<Rightarrow> list_all (staged_fits K (t_computed T)) ms
      | O_sorted f \<Rightarrow> cc_kind K f \<noteq> None
      | _ \<Rightarrow> True)"

inductive table_step :: "db_env \<Rightarrow> contract \<Rightarrow> db_table \<Rightarrow> db_table \<Rightarrow> bool" for E K where
  "op_fits E K T op \<Longrightarrow> table_step E K T (run_op E op T)"

inductive_cases table_stepE: "table_step E K T T'"

definition table_init :: "db_table \<Rightarrow> bool" where
  "table_init T \<longleftrightarrow> (\<exists>C. T = new_table\<lparr>t_computed := C\<rparr>)"

lemma run_op_table_inv:
  assumes "table_inv E K T" and "op_fits E K T op"
  shows "table_inv E K (run_op E op T)"
  using assms
  by (cases op) (auto simp: run_op_def op_fits_def unread intro: put_table_inv delete_table_inv clear_table_inv expire_table_inv
      transaction_table_inv undo_table_inv redo_table_inv forkBranch_table_inv checkoutBranch_table_inv mergeBranch_table_inv
      createIndex_table_inv createSortedIndex_table_inv createCompositeIndex_table_inv createPrefixIndex_table_inv)

lemma new_table_inv: "table_inv E K (new_table\<lparr>t_computed := C\<rparr>)"
  by (simp add: table_inv_def index_inv_def new_table_def new_branching_def branching_rows_def)

interpretation table_run: transition_system table_init "table_step E K" "table_inv E K"
  by unfold_locales (auto simp: table_init_def new_table_inv elim!: table_stepE intro: run_op_table_inv)

end
