(* ===== verification/Db_Query.thy ===== *)
theory Db_Query
  imports Db_Reachable "HOL-Library.Multiset"
begin

text \<open>
  Queries on a table, \<^verbatim>\<open>planQuery\<close>, \<^verbatim>\<open>evaluateWhere\<close> and \<^verbatim>\<open>query\<close> of \<^verbatim>\<open>broccolidb-table.ts\<close>: a plan picks
  the first index that fits the condition, the candidates it yields are filtered, sorted and cut.

  The operand of a condition is a primitive, a regular expression, or an object read as a filter: an object with
  none of the operators is the filter that is always true. An operator that is absent is undefined. A pattern that
  does not compile throws and is left out.
\<close>

declare map_of_eq_Some_iff [simp del]
declare Some_eq_map_of_iff [simp del]

section \<open>Conditions\<close>

datatype regex_operand = Pattern string | Compiled "string \<Rightarrow> bool"

record field_filter =
  ff_eq :: db_cell
  ff_ne :: db_cell
  ff_gt :: db_cell
  ff_gte :: db_cell
  ff_lt :: db_cell
  ff_lte :: db_cell
  ff_in :: "db_cell list option"
  ff_nin :: "db_cell list option"
  ff_between :: "(db_cell \<times> db_cell) option"
  ff_startsWith :: "string option"
  ff_endsWith :: "string option"
  ff_contains :: "string option"
  ff_regex :: "regex_operand option"
  ff_exists :: "bool option"

definition no_filter :: field_filter where
  "no_filter =
     \<lparr>ff_eq = Prim Undefined, ff_ne = Prim Undefined, ff_gt = Prim Undefined, ff_gte = Prim Undefined, ff_lt = Prim Undefined,
      ff_lte = Prim Undefined, ff_in = None, ff_nin = None, ff_between = None, ff_startsWith = None, ff_endsWith = None,
      ff_contains = None, ff_regex = None, ff_exists = None\<rparr>"

datatype where_value = W_prim prim | W_regexp "string \<Rightarrow> bool" | W_filter field_filter

type_synonym where_clause = "(string, where_value) jsmap"

record query_options =
  qo_where :: "where_clause option"
  qo_and :: "where_clause list"
  qo_or :: "where_clause list"
  qo_not :: "where_clause option"
  qo_limit :: "int option"
  qo_offset :: "int option"
  qo_sortBy :: "string list option"
  qo_desc :: "bool list"

text \<open>A test of the text a field holds; other values fail it.\<close>

definition text_test :: "(string \<Rightarrow> bool) \<Rightarrow> db_cell \<Rightarrow> bool" where
  "text_test p c = (case c of Prim (Str s) \<Rightarrow> p s | _ \<Rightarrow> False)"

definition starts_with :: "string \<Rightarrow> string \<Rightarrow> bool" where
  "starts_with p s \<longleftrightarrow> take (length p) s = p"

definition ends_with :: "string \<Rightarrow> string \<Rightarrow> bool" where
  "ends_with p s \<longleftrightarrow> starts_with (rev p) (rev s)"

definition includes_text :: "string \<Rightarrow> string \<Rightarrow> bool" where
  "includes_text p s \<longleftrightarrow> list_ex (\<lambda>n. starts_with p (drop n s)) [0..<Suc (length s)]"

definition present :: "db_cell \<Rightarrow> bool" where
  "present c \<longleftrightarrow> c \<noteq> Prim Undefined"

definition filter_matches :: "db_env \<Rightarrow> db_cell \<Rightarrow> field_filter \<Rightarrow> bool" where
  "filter_matches E a q \<longleftrightarrow>
     (present (ff_eq q) \<longrightarrow> strict_eq a (ff_eq q)) \<and>
     (present (ff_ne q) \<longrightarrow> \<not> strict_eq a (ff_ne q)) \<and>
     (case ff_exists q of None \<Rightarrow> True | Some b \<Rightarrow> present a = b) \<and>
     (present (ff_gt q) \<longrightarrow> \<not> missing a \<and> \<not> cell_compare (sort_le E) E a (ff_gt q)) \<and>
     (present (ff_gte q) \<longrightarrow> \<not> missing a \<and> \<not> cell_compare (sort_lt E) E a (ff_gte q)) \<and>
     (present (ff_lt q) \<longrightarrow> \<not> missing a \<and> \<not> cell_compare (sort_le E) E (ff_lt q) a) \<and>
     (present (ff_lte q) \<longrightarrow> \<not> missing a \<and> \<not> cell_compare (sort_lt E) E (ff_lte q) a) \<and>
     (case ff_in q of None \<Rightarrow> True | Some xs \<Rightarrow> list_ex (strict_eq a) xs) \<and>
     (case ff_nin q of None \<Rightarrow> True | Some xs \<Rightarrow> \<not> list_ex (strict_eq a) xs) \<and>
     (case ff_between q of None \<Rightarrow> True
      | Some (lo, hi) \<Rightarrow> \<not> missing a \<and> \<not> cell_compare (sort_lt E) E a lo \<and> \<not> cell_compare (sort_lt E) E hi a) \<and>
     (case ff_startsWith q of None \<Rightarrow> True | Some p \<Rightarrow> text_test (\<lambda>s. starts_with (to_lower p) (to_lower s)) a) \<and>
     (case ff_endsWith q of None \<Rightarrow> True | Some p \<Rightarrow> text_test (\<lambda>s. ends_with (to_lower p) (to_lower s)) a) \<and>
     (case ff_contains q of None \<Rightarrow> True | Some p \<Rightarrow> text_test (\<lambda>s. includes_text (to_lower p) (to_lower s)) a) \<and>
     (case ff_regex q of None \<Rightarrow> True
      | Some x \<Rightarrow> text_test (case x of Pattern p \<Rightarrow> env_regexp E p | Compiled p \<Rightarrow> p) a)"

definition value_matches :: "db_env \<Rightarrow> db_cell \<Rightarrow> where_value \<Rightarrow> bool" where
  "value_matches E a ex =
     (case ex of W_prim p \<Rightarrow> strict_eq a (Prim p) | W_regexp p \<Rightarrow> text_test p a | W_filter q \<Rightarrow> filter_matches E a q)"

definition evaluateWhere :: "db_env \<Rightarrow> computed \<Rightarrow> row \<Rightarrow> where_clause \<Rightarrow> bool" where
  "evaluateWhere E C r w = list_all (\<lambda>(f, ex). value_matches E (resolveFieldValue C r f) ex) w"

section \<open>Plans\<close>

datatype scan_strategy = INDEX_LOOKUP | INDEX_RANGE_SCAN | PREFIX_SCAN | FULL_TABLE_SCAN

datatype index_type = I_equality | I_sorted | I_composite | I_prefix

record query_plan =
  qp_candidates :: "row list"
  qp_index :: "(string \<times> index_type) option"
  qp_strategy :: scan_strategy

fun first_some :: "('a \<Rightarrow> 'b option) \<Rightarrow> 'a list \<Rightarrow> 'b option" where
  "first_some g [] = None"
| "first_some g (x # xs) = (case g x of None \<Rightarrow> first_some g xs | Some y \<Rightarrow> Some y)"

definition rows_of_ids :: "rows \<Rightarrow> string list \<Rightarrow> row list" where
  "rows_of_ids m ids = List.map_filter (js_get m) ids"

definition full_scan :: "db_table \<Rightarrow> query_plan" where
  "full_scan T = \<lparr>qp_candidates = js_values (t_records T), qp_index = None, qp_strategy = FULL_TABLE_SCAN\<rparr>"

definition composite_operands :: "where_clause \<Rightarrow> string list \<Rightarrow> row" where
  "composite_operands w fs = fold (\<lambda>f m. case js_get w f of Some (W_prim p) \<Rightarrow> js_set m f (Prim p) | _ \<Rightarrow> m) fs []"

definition composite_plan :: "where_clause \<Rightarrow> db_table \<Rightarrow> query_plan option" where
  "composite_plan w T =
     first_some (\<lambda>(n, fs, m).
       let operands = composite_operands w fs in
       if list_all (js_has w) fs \<and> length operands = length fs
       then Some \<lparr>qp_candidates = rows_of_ids (t_records T) (idmap_ids m (buildCompositeKey (t_computed T) fs operands)),
                  qp_index = Some (n, I_composite), qp_strategy = INDEX_LOOKUP\<rparr>
       else None) (t_composite T)"

definition equality_plan :: "where_clause \<Rightarrow> db_table \<Rightarrow> query_plan option" where
  "equality_plan w T =
     first_some (\<lambda>(f, ex).
       case (js_get (t_equality T) f, ex) of
         (Some m, W_prim p) \<Rightarrow> Some \<lparr>qp_candidates = rows_of_ids (t_records T) (idmap_ids m (Prim p)),
                                  qp_index = Some (f, I_equality), qp_strategy = INDEX_LOOKUP\<rparr>
       | _ \<Rightarrow> None) w"

definition has_range :: "field_filter \<Rightarrow> bool" where
  "has_range q \<longleftrightarrow> present (ff_gt q) \<or> present (ff_gte q) \<or> present (ff_lt q) \<or> present (ff_lte q) \<or> ff_between q \<noteq> None"

definition range_min :: "field_filter \<Rightarrow> db_cell" where
  "range_min q = (case ff_between q of Some (lo, hi) \<Rightarrow> lo | None \<Rightarrow> if missing (ff_gte q) then ff_gt q else ff_gte q)"

definition range_max :: "field_filter \<Rightarrow> db_cell" where
  "range_max q = (case ff_between q of Some (lo, hi) \<Rightarrow> hi | None \<Rightarrow> if missing (ff_lte q) then ff_lt q else ff_lte q)"

definition sorted_plan :: "db_env \<Rightarrow> where_clause \<Rightarrow> db_table \<Rightarrow> query_plan option" where
  "sorted_plan E w T =
     first_some (\<lambda>(f, ex).
       case (js_get (t_sorted T) f, ex) of
         (Some xs, W_filter q) \<Rightarrow>
           if has_range q
           then Some \<lparr>qp_candidates = rows_of_ids (t_records T)
                        (scanSortedIndexRange E xs (normalizeSortableValue (range_min q)) (normalizeSortableValue (range_max q))
                          (present (ff_gte q) \<or> ff_between q \<noteq> None) (present (ff_lte q) \<or> ff_between q \<noteq> None)),
                      qp_index = Some (f, I_sorted), qp_strategy = INDEX_RANGE_SCAN\<rparr>
           else None
       | _ \<Rightarrow> None) w"

definition prefix_plan :: "where_clause \<Rightarrow> db_table \<Rightarrow> query_plan option" where
  "prefix_plan w T =
     first_some (\<lambda>(f, ex).
       case (js_get (t_prefix T) f, ex) of
         (Some m, W_filter q) \<Rightarrow>
           (case ff_startsWith q of
              Some p \<Rightarrow>
                if p \<noteq> []
                then Some \<lparr>qp_candidates = rows_of_ids (t_records T) (idmap_ids m (take 20 (to_lower p))),
                           qp_index = Some (f, I_prefix), qp_strategy = PREFIX_SCAN\<rparr>
                else None
            | None \<Rightarrow> None)
       | _ \<Rightarrow> None) w"

definition planQuery :: "db_env \<Rightarrow> query_options \<Rightarrow> db_table \<Rightarrow> query_plan" where
  "planQuery E q T =
     (case qo_where q of
        None \<Rightarrow> full_scan T
      | Some w \<Rightarrow>
          (case first_some (\<lambda>p. p) [composite_plan w T, equality_plan w T, sorted_plan E w T, prefix_plan w T] of
             None \<Rightarrow> full_scan T | Some p \<Rightarrow> p))"

section \<open>Queries\<close>

text \<open>\<^verbatim>\<open>Array.prototype.sort\<close> is stable; on a comparison that is not consistent its result is left open.\<close>

fun insert_by :: "('a \<Rightarrow> 'a \<Rightarrow> int) \<Rightarrow> 'a \<Rightarrow> 'a list \<Rightarrow> 'a list" where
  "insert_by cmp x [] = [x]"
| "insert_by cmp x (y # ys) = (if cmp x y \<le> 0 then x # y # ys else y # insert_by cmp x ys)"

definition sort_by :: "('a \<Rightarrow> 'a \<Rightarrow> int) \<Rightarrow> 'a list \<Rightarrow> 'a list" where
  "sort_by cmp xs = foldr (insert_by cmp) xs []"

fun row_compare :: "db_env \<Rightarrow> computed \<Rightarrow> string list \<Rightarrow> bool list \<Rightarrow> bool \<Rightarrow> row \<Rightarrow> row \<Rightarrow> int" where
  "row_compare E C [] desc desc0 a b = 0"
| "row_compare E C (f # fs) desc desc0 a b =
     (let x = resolveFieldValue C a f; y = resolveFieldValue C b f;
          order = (if (case desc of [] \<Rightarrow> desc0 | d # _ \<Rightarrow> d) then - 1 else 1) in
      if strict_eq x y then row_compare E C fs (tl desc) desc0 a b
      else if missing x then 1
      else if missing y then - 1
      else if cell_compare (sort_lt E) E y x then order else - order)"

definition filter_clauses :: "db_env \<Rightarrow> computed \<Rightarrow> query_options \<Rightarrow> row list \<Rightarrow> row list" where
  "filter_clauses E C q rows =
     (let rows = (case qo_where q of None \<Rightarrow> rows | Some w \<Rightarrow> filter (\<lambda>r. evaluateWhere E C r w) rows);
          rows = (if qo_and q = [] then rows else filter (\<lambda>r. list_all (evaluateWhere E C r) (qo_and q)) rows);
          rows = (if qo_or q = [] then rows else filter (\<lambda>r. list_ex (evaluateWhere E C r) (qo_or q)) rows) in
      case qo_not q of None \<Rightarrow> rows | Some w \<Rightarrow> filter (\<lambda>r. \<not> evaluateWhere E C r w) rows)"

definition query :: "db_env \<Rightarrow> query_options \<Rightarrow> db_table \<Rightarrow> row list" where
  "query E q T =
     (let C = t_computed T;
          rows = filter_clauses E C q (qp_candidates (planQuery E q T));
          rows = (case qo_sortBy q of None \<Rightarrow> rows
                  | Some fs \<Rightarrow> sort_by (row_compare E C fs (qo_desc q) (case qo_desc q of [] \<Rightarrow> False | d # _ \<Rightarrow> d)) rows);
          offset = (case qo_offset q of None \<Rightarrow> 0 | Some n \<Rightarrow> n);
          limit = (case qo_limit q of None \<Rightarrow> int (length rows) | Some n \<Rightarrow> n) in
      map (cloneRecordWithComputed C) (js_slice offset (offset + limit) rows))"

record execution_plan =
  xp_index :: "(string \<times> index_type) option"
  xp_strategy :: scan_strategy
  xp_scanned :: nat
  xp_matched :: nat

definition explain :: "db_env \<Rightarrow> query_options \<Rightarrow> db_table \<Rightarrow> execution_plan" where
  "explain E q T = (let p = planQuery E q T in
     \<lparr>xp_index = qp_index p, xp_strategy = qp_strategy p, xp_scanned = length (qp_candidates p), xp_matched = length (query E q T)\<rparr>)"

section \<open>The reference: every row, tested\<close>

definition query_matches :: "db_env \<Rightarrow> computed \<Rightarrow> query_options \<Rightarrow> row \<Rightarrow> bool" where
  "query_matches E C q r \<longleftrightarrow>
     (case qo_where q of None \<Rightarrow> True | Some w \<Rightarrow> evaluateWhere E C r w) \<and>
     list_all (evaluateWhere E C r) (qo_and q) \<and>
     (qo_or q = [] \<or> list_ex (evaluateWhere E C r) (qo_or q)) \<and>
     (case qo_not q of None \<Rightarrow> True | Some w \<Rightarrow> \<not> evaluateWhere E C r w)"

lemma filter_clauses_eq: "filter_clauses E C q rows = filter (query_matches E C q) rows"
  by (auto simp: filter_clauses_def query_matches_def Let_def conj_ac intro!: filter_cong split: option.split)

lemma mset_insert_by [simp]: "mset (insert_by cmp x xs) = add_mset x (mset xs)"
  by (induction xs) auto

lemma mset_sort_by [simp]: "mset (sort_by cmp xs) = mset xs"
  unfolding sort_by_def by (induction xs) auto

lemma slice_all: "js_slice 0 (int (length xs)) xs = xs"
  by (simp add: js_slice_def)

section \<open>Candidates from a covering set of identifiers\<close>

lemma map_filter_the: "List.map_filter g xs = map (\<lambda>x. the (g x)) (filter (\<lambda>x. g x \<noteq> None) xs)"
  by (induction xs) (auto simp: List.map_filter_simps split: option.split)

lemma values_by_keys: "js_wf m \<Longrightarrow> js_values m = map (\<lambda>i. the (js_get m i)) (js_keys m)"
  by (auto simp: js_get_Some_iff intro!: map_cong)

lemma covering_lookup:
  assumes "js_wf m" and "distinct ids" and "\<And>i r. js_get m i = Some r \<Longrightarrow> P r \<Longrightarrow> i \<in> set ids"
  shows "mset (filter P (rows_of_ids m ids)) = mset (filter P (js_values m))"
proof -
  let ?g = "\<lambda>i. the (js_get m i)"
  let ?xs = "filter (\<lambda>i. P (?g i)) (filter (\<lambda>i. js_get m i \<noteq> None) ids)" and ?ys = "filter (\<lambda>i. P (?g i)) (js_keys m)"
  have "set ?xs = set ?ys"
  proof (rule set_eqI)
    fix i
    show "i \<in> set ?xs \<longleftrightarrow> i \<in> set ?ys"
    proof (cases "js_get m i")
      case None
      then show ?thesis using js_get_None_iff [of m i] by simp
    next
      case (Some r)
      then have "i \<in> set (js_keys m)" using js_get_None_iff [of m i] by fastforce
      then show ?thesis using Some assms(3) [OF Some] by auto
    qed
  qed
  then have "mset ?xs = mset ?ys" using assms(1,2) by (subst set_eq_iff_mset_eq_distinct [symmetric]) auto
  then have "mset (map ?g ?xs) = mset (map ?g ?ys)" by simp
  moreover have "filter P (rows_of_ids m ids) = map ?g ?xs"
    by (simp add: rows_of_ids_def map_filter_the filter_map comp_def)
  moreover have "filter P (js_values m) = map ?g ?ys"
    by (subst values_by_keys [OF assms(1)]) (simp add: filter_map comp_def)
  ultimately show ?thesis by simp
qed

lemma first_some_Some: "first_some g xs = Some y \<Longrightarrow> \<exists>x \<in> set xs. g x = Some y"
  by (induction xs) (auto split: option.splits)

end
