(* ===== verification/Db_Planning.thy ===== *)
theory Db_Planning
  imports Db_Query
begin

text \<open>
  A query answered from an index finds the rows a scan of the whole table finds. The conditions on its operands are
  stated in \<open>safe_where\<close>.
\<close>

declare map_of_eq_Some_iff [simp del]
declare Some_eq_map_of_iff [simp del]

section \<open>Conditions under which an index may be used\<close>

definition bound_ok :: "bool option \<Rightarrow> db_cell \<Rightarrow> bool" where
  "bound_ok b c = (case normalizeSortableValue c of None \<Rightarrow> True
     | Some v \<Rightarrow> b = Some (case v of S_num n \<Rightarrow> True | S_str s \<Rightarrow> False))"

definition safe_where :: "contract \<Rightarrow> db_table \<Rightarrow> where_clause \<Rightarrow> bool" where
  "safe_where K T w =
     list_all (\<lambda>(f, ex).
       case ex of
         W_prim p \<Rightarrow> \<not> (js_has (t_equality T) f \<and> p = Undefined)
       | W_regexp p \<Rightarrow> True
       | W_filter q \<Rightarrow>
           (if js_has (t_sorted T) f then bound_ok (cc_kind K f) (range_min q) \<and> bound_ok (cc_kind K f) (range_max q) else True) \<and>
           (if js_has (t_prefix T) f then cc_trimmed K f else True)) w"

lemma bound_ok_kind: "bound_ok (Some b) c \<Longrightarrow> set_option (normalizeSortableValue c) \<subseteq> kind b"
  by (auto simp: bound_ok_def kind_def split: option.splits sort_value.splits)

lemma safe_at:
  assumes "safe_where K T w" and "(f, ex) \<in> set w"
  shows "case ex of
      W_prim p \<Rightarrow> \<not> (js_has (t_equality T) f \<and> p = Undefined)
    | W_regexp p \<Rightarrow> True
    | W_filter q \<Rightarrow>
        (if js_has (t_sorted T) f then bound_ok (cc_kind K f) (range_min q) \<and> bound_ok (cc_kind K f) (range_max q) else True) \<and>
        (if js_has (t_prefix T) f then cc_trimmed K f else True)"
  using bspec [OF assms(1) [unfolded safe_where_def list_all_iff] assms(2)] by (simp only: case_prod_conv)

lemma safe_whereD:
  assumes "safe_where K T w"
  shows "(f, W_prim p) \<in> set w \<Longrightarrow> js_has (t_equality T) f \<Longrightarrow> p \<noteq> Undefined"
    and "(f, W_filter q) \<in> set w \<Longrightarrow> js_has (t_sorted T) f \<Longrightarrow> bound_ok (cc_kind K f) (range_min q) \<and> bound_ok (cc_kind K f) (range_max q)"
    and "(f, W_filter q) \<in> set w \<Longrightarrow> js_has (t_prefix T) f \<Longrightarrow> cc_trimmed K f"
  using safe_at [OF assms, of f "W_prim p"] safe_at [OF assms, of f "W_filter q"] by (simp_all split: if_splits)

lemma evaluateWhereD: "evaluateWhere E C r w \<Longrightarrow> (f, ex) \<in> set w \<Longrightarrow> value_matches E (resolveFieldValue C r f) ex"
  by (fastforce simp: evaluateWhere_def list_all_iff)

text \<open>The candidates of a plan come from distinct identifiers, among them those of the rows that match.\<close>

definition covering :: "db_table \<Rightarrow> (row \<Rightarrow> bool) \<Rightarrow> query_plan \<Rightarrow> bool" where
  "covering T P p \<longleftrightarrow> (\<exists>ids. qp_candidates p = rows_of_ids (t_records T) ids \<and> distinct ids \<and>
     (\<forall>i r. js_get (t_records T) i = Some r \<longrightarrow> P r \<longrightarrow> i \<in> set ids))"

lemma coveringI:
  "qp_candidates p = rows_of_ids (t_records T) ids \<Longrightarrow> distinct ids \<Longrightarrow>
   (\<And>i r. js_get (t_records T) i = Some r \<Longrightarrow> P r \<Longrightarrow> i \<in> set ids) \<Longrightarrow> covering T P p"
  by (auto simp: covering_def)

section \<open>Composite and equality indices\<close>

lemma composite_operands_get:
  "js_get (fold (\<lambda>f m. case js_get w f of Some (W_prim p) \<Rightarrow> js_set m f (Prim p) | _ \<Rightarrow> m) fs m0) g =
     (if g \<in> set fs then (case js_get w g of Some (W_prim p) \<Rightarrow> Some (Prim p) | _ \<Rightarrow> js_get m0 g) else js_get m0 g)"
  by (induction fs arbitrary: m0) (auto split: option.split where_value.split)

lemma composite_operands_wf:
  "js_wf m0 \<Longrightarrow> js_wf (fold (\<lambda>f m. case js_get w f of Some (W_prim p) \<Rightarrow> js_set m f (Prim p) | _ \<Rightarrow> m) fs m0)"
  by (induction fs arbitrary: m0) (auto split: option.split where_value.split)

lemma composite_operands_full:
  assumes "length (composite_operands w fs) = length fs" and "f \<in> set fs"
  obtains p where "js_get w f = Some (W_prim p)" and "js_get (composite_operands w fs) f = Some (Prim p)"
proof -
  let ?m = "composite_operands w fs"
  note get = composite_operands_get [where ?m0.0 = "[]" and w = w and fs = fs, folded composite_operands_def]
  have sub: "set (js_keys ?m) \<subseteq> set fs"
  proof
    fix g
    assume "g \<in> set (js_keys ?m)"
    then have "js_get ?m g \<noteq> None" using js_get_None_iff [of ?m g] by blast
    then show "g \<in> set fs" using get [of g] by (auto split: if_splits)
  qed
  have "js_wf ?m" using composite_operands_wf [of "[]"] by (simp add: composite_operands_def)
  then have "card (set (js_keys ?m)) = length fs" using assms(1) by (simp only: distinct_card length_map)
  then have "set (js_keys ?m) = set fs" using card_subset_eq [OF _ sub] card_mono [OF _ sub] card_length [of fs] by simp
  then have "js_get ?m f \<noteq> None" using assms(2) js_get_None_iff [of ?m f] by blast
  then show thesis using that get [of f] assms(2) by (auto split: option.splits where_value.splits)
qed

lemma composite_plan_covering:
  assumes "table_inv E K T" and "composite_plan w T = Some p"
  shows "covering T (\<lambda>r. evaluateWhere E (t_computed T) r w) p"
proof -
  let ?C = "t_computed T"
  from first_some_Some [OF assms(2) [unfolded composite_plan_def]] obtain n fs m where x: "(n, fs, m) \<in> set (t_composite T)"
    and len: "length (composite_operands w fs) = length fs"
    and p: "qp_candidates p = rows_of_ids (t_records T) (idmap_ids m (buildCompositeKey ?C fs (composite_operands w fs)))"
    by (auto simp: Let_def split: if_splits)
  note D = index_invD [OF table_invD(1) [OF assms(1)]]
  show ?thesis
  proof (rule coveringI [OF p])
    show "distinct (idmap_ids m (buildCompositeKey ?C fs (composite_operands w fs)))" by (rule idmap.ids_distinct [OF D(9) [OF x]])
    fix i r
    assume r: "js_get (t_records T) i = Some r" "evaluateWhere E ?C r w"
    have "resolveFieldValue ?C (composite_operands w fs) f = resolveFieldValue ?C r f" if f: "f \<in> set fs" for f
    proof (rule composite_operands_full [OF len f])
      fix v
      assume v: "js_get w f = Some (W_prim v)" "js_get (composite_operands w fs) f = Some (Prim v)"
      then have "resolveFieldValue ?C r f = Prim v"
        using evaluateWhereD [OF r(2) map_of_SomeD [OF v(1)]] by (simp add: value_matches_def)
      then show ?thesis using v(2) by (simp add: resolveFieldValue_def)
    qed
    then have "buildCompositeKey ?C fs (composite_operands w fs) = buildCompositeKey ?C fs r"
      by (simp add: buildCompositeKey_def cong: map_cong)
    then show "i \<in> set (idmap_ids m (buildCompositeKey ?C fs (composite_operands w fs)))"
      using coversD [OF D(10) [OF x] r(1)] by (simp add: composite_keys_def)
  qed
qed

lemma equality_plan_covering:
  assumes "table_inv E K T" and "safe_where K T w" and "equality_plan w T = Some p"
  shows "covering T (\<lambda>r. evaluateWhere E (t_computed T) r w) p"
proof -
  let ?C = "t_computed T"
  from first_some_Some [OF assms(3) [unfolded equality_plan_def]] obtain f v m where x: "(f, W_prim v) \<in> set w"
    and m: "js_get (t_equality T) f = Some m" and p: "qp_candidates p = rows_of_ids (t_records T) (idmap_ids m (Prim v))"
    by (auto split: option.splits where_value.splits)
  note D = index_invD [OF table_invD(1) [OF assms(1)]] and fm = map_of_SomeD [OF m]
  have v: "v \<noteq> Undefined" by (rule safe_whereD(1) [OF assms(2) x]) (use fm in force)
  show ?thesis
  proof (rule coveringI [OF p])
    show "distinct (idmap_ids m (Prim v))" by (rule idmap.ids_distinct [OF D(6) [OF fm]])
    fix i r
    assume r: "js_get (t_records T) i = Some r" "evaluateWhere E ?C r w"
    have "resolveFieldValue ?C r f = Prim v" using evaluateWhereD [OF r(2) x] by (simp add: value_matches_def)
    then have "Prim v \<in> set (equality_keys ?C f r)" using v by (simp add: equality_keys_def)
    then show "i \<in> set (idmap_ids m (Prim v))" by (rule coversD [OF D(7) [OF fm] r(1)])
  qed
qed

section \<open>Sorted indices\<close>

lemma range_not_missing: "has_range q \<Longrightarrow> filter_matches E a q \<Longrightarrow> \<not> missing a"
  by (auto simp: has_range_def filter_matches_def)

lemma fits_kind:
  "fits K C r \<Longrightarrow> cc_kind K f = Some b \<Longrightarrow> \<not> missing (resolveFieldValue C r f) \<Longrightarrow>
   \<exists>v \<in> kind b. normalizeSortableValue (resolveFieldValue C r f) = Some v"
  unfolding fits_def by blast

lemma compare_sortable:
  "to_primitive E a = Some v \<Longrightarrow> normalizeSortableValue c = Some m \<Longrightarrow> cell_compare R E a c = R v m \<and> cell_compare R E c a = R m v"
  by (simp add: cell_compare_def to_primitive_sortable)

lemma sortable_present: "normalizeSortableValue c = Some m \<Longrightarrow> present c"
  by (auto simp: present_def normalizeSortableValue_def)

lemma missing_absent: "\<not> missing c \<Longrightarrow> present c"
  by (simp add: missing_def present_def)

lemma range_min_passed:
  assumes "filter_matches E a q" and "to_primitive E a = Some v" and "v \<in> kind b"
    and "set_option (normalizeSortableValue (range_min q)) \<subseteq> kind b"
  shows "case normalizeSortableValue (range_min q) of None \<Rightarrow> True
    | Some m \<Rightarrow> \<not> (if present (ff_gte q) \<or> ff_between q \<noteq> None then sort_lt E v m else sort_le E v m)"
proof (cases "normalizeSortableValue (range_min q)")
  case (Some m)
  have le: "\<not> sort_le E v m \<Longrightarrow> \<not> sort_lt E v m"
    using kind_order(2,4) [OF assms(3), of m E] assms(4) Some by auto
  note cmp = compare_sortable [OF assms(2) Some]
  consider lo hi where "ff_between q = Some (lo, hi)" | "ff_between q = None" "missing (ff_gte q)" | "ff_between q = None" "\<not> missing (ff_gte q)"
    by (cases "ff_between q") auto
  then show ?thesis
  proof cases
    case (1 lo hi)
    then have "range_min q = lo" by (simp add: range_min_def)
    then have "\<not> sort_lt E v m" using assms(1) 1 cmp by (simp add: filter_matches_def)
    then show ?thesis by (simp add: Some 1)
  next
    case 2
    then have "range_min q = ff_gt q" by (simp add: range_min_def)
    then have "\<not> sort_le E v m" using assms(1) sortable_present [OF Some] cmp by (simp add: filter_matches_def)
    then show ?thesis using le by (simp add: Some)
  next
    case 3
    then have "range_min q = ff_gte q" by (simp add: range_min_def)
    then have "\<not> sort_lt E v m" using assms(1) sortable_present [OF Some] cmp by (simp add: filter_matches_def)
    then show ?thesis using missing_absent [OF 3(2)] by (simp add: Some)
  qed
qed simp

lemma range_max_passed:
  assumes "filter_matches E a q" and "to_primitive E a = Some v" and "v \<in> kind b"
    and "set_option (normalizeSortableValue (range_max q)) \<subseteq> kind b"
  shows "case normalizeSortableValue (range_max q) of None \<Rightarrow> True
    | Some m \<Rightarrow> \<not> (if present (ff_lte q) \<or> ff_between q \<noteq> None then sort_lt E m v else sort_le E m v)"
proof (cases "normalizeSortableValue (range_max q)")
  case (Some m)
  have le: "\<not> sort_le E m v \<Longrightarrow> \<not> sort_lt E m v"
    using kind_order(2,4) [of m b v E] assms(3,4) Some by auto
  note cmp = compare_sortable [OF assms(2) Some]
  consider lo hi where "ff_between q = Some (lo, hi)" | "ff_between q = None" "missing (ff_lte q)" | "ff_between q = None" "\<not> missing (ff_lte q)"
    by (cases "ff_between q") auto
  then show ?thesis
  proof cases
    case (1 lo hi)
    then have "range_max q = hi" by (simp add: range_max_def)
    then have "\<not> sort_lt E m v" using assms(1) 1 cmp by (simp add: filter_matches_def)
    then show ?thesis by (simp add: Some 1)
  next
    case 2
    then have "range_max q = ff_lt q" by (simp add: range_max_def)
    then have "\<not> sort_le E m v" using assms(1) sortable_present [OF Some] cmp by (simp add: filter_matches_def)
    then show ?thesis using le by (simp add: Some)
  next
    case 3
    then have "range_max q = ff_lte q" by (simp add: range_max_def)
    then have "\<not> sort_lt E m v" using assms(1) sortable_present [OF Some] cmp by (simp add: filter_matches_def)
    then show ?thesis using missing_absent [OF 3(2)] by (simp add: Some)
  qed
qed simp

lemma sorted_plan_covering:
  assumes "table_inv E K T" and "safe_where K T w" and "sorted_plan E w T = Some p"
  shows "covering T (\<lambda>r. evaluateWhere E (t_computed T) r w) p"
proof -
  let ?C = "t_computed T"
  from first_some_Some [OF assms(3) [unfolded sorted_plan_def]] obtain f q xs where x: "(f, W_filter q) \<in> set w"
    and xs: "js_get (t_sorted T) f = Some xs" and range: "has_range q"
    and p: "qp_candidates p = rows_of_ids (t_records T)
        (scanSortedIndexRange E xs (normalizeSortableValue (range_min q)) (normalizeSortableValue (range_max q))
          (present (ff_gte q) \<or> ff_between q \<noteq> None) (present (ff_lte q) \<or> ff_between q \<noteq> None))"
    by (auto split: option.splits where_value.splits if_splits)
  note D = index_invD [OF table_invD(1) [OF assms(1)]] and fm = map_of_SomeD [OF xs]
  from D(8) [OF fm] obtain b where b: "cc_kind K f = Some b" "sorted_ok E b xs" "index_covers sorted_ids (sorted_keys ?C f) (map_of (t_records T)) xs"
    by blast
  have bounds: "bound_ok (cc_kind K f) (range_min q) \<and> bound_ok (cc_kind K f) (range_max q)"
    by (rule safe_whereD(2) [OF assms(2) x]) (use fm in force)
  then have kinds: "set_option (normalizeSortableValue (range_min q)) \<subseteq> kind b" "set_option (normalizeSortableValue (range_max q)) \<subseteq> kind b"
    using bound_ok_kind b(1) by auto
  show ?thesis
  proof (rule coveringI [OF p])
    show "distinct (scanSortedIndexRange E xs (normalizeSortableValue (range_min q)) (normalizeSortableValue (range_max q))
          (present (ff_gte q) \<or> ff_between q \<noteq> None) (present (ff_lte q) \<or> ff_between q \<noteq> None))"
      by (rule scan_range_distinct)
    fix i r
    assume r: "js_get (t_records T) i = Some r" "evaluateWhere E ?C r w"
    let ?a = "resolveFieldValue ?C r f"
    have match: "filter_matches E ?a q" using evaluateWhereD [OF r(2) x] by (simp add: value_matches_def)
    obtain v where v: "v \<in> kind b" "normalizeSortableValue ?a = Some v"
      using fits_kind [OF table_invD(2) [OF assms(1) r(1)] b(1) range_not_missing [OF range match]] by blast
    have i: "i \<in> set (sorted_ids xs v)" by (rule coversD [OF b(3) r(1)]) (simp add: sorted_keys_def v(2))
    note pv = to_primitive_sortable [OF v(2)]
    show "i \<in> set (scanSortedIndexRange E xs (normalizeSortableValue (range_min q)) (normalizeSortableValue (range_max q))
          (present (ff_gte q) \<or> ff_between q \<noteq> None) (present (ff_lte q) \<or> ff_between q \<noteq> None))"
      by (rule scan_range_finds [OF b(2) i kinds range_min_passed [OF match pv v(1) kinds(1)] range_max_passed [OF match pv v(1) kinds(2)]])
  qed
qed

section \<open>Prefix indices\<close>

definition lower_char :: "char \<Rightarrow> char" where
  "lower_char c = (let n = (of_char c :: nat) in
     if (65 \<le> n \<and> n \<le> 90) \<or> (192 \<le> n \<and> n \<le> 222 \<and> n \<noteq> 215) then char_of (n + 32) else c)"

lemma to_lower_map: "to_lower s = map lower_char s"
  by (simp add: to_lower_def lower_char_def [abs_def])

lemma to_lower_Nil [simp]: "to_lower s = [] \<longleftrightarrow> s = []"
  by (simp add: to_lower_map)

lemma space_lower [simp]: "js_space (lower_char c) = js_space c"
  by (auto simp: lower_char_def js_space_def Let_def of_char_of)

lemma trim_lower: "js_trim (to_lower s) = to_lower (js_trim s)"
  by (simp add: js_trim_def to_lower_map dropWhile_map rev_map comp_def)

lemma prefix_indexed:
  assumes "js_trim s = s" and "starts_with (to_lower p) (to_lower s)" and "p \<noteq> []"
  shows "take 20 (to_lower p) \<in> set (prefixes s)"
proof -
  have pre: "take (length p) (to_lower s) = to_lower p" using assms(2) by (simp add: starts_with_def)
  have "length p \<le> length s" using arg_cong [OF pre, of length] by simp
  moreover have "take 20 (to_lower p) = take (min 20 (length p)) (to_lower s)" unfolding pre [symmetric] by simp
  ultimately show ?thesis
    using assms(1,3) by (auto simp: prefixes_def trim_lower Let_def Suc_le_eq intro!: image_eqI [of _ _ "min 20 (length p)"])
qed

lemma prefix_plan_covering:
  assumes "table_inv E K T" and "safe_where K T w" and "prefix_plan w T = Some p"
  shows "covering T (\<lambda>r. evaluateWhere E (t_computed T) r w) p"
proof -
  let ?C = "t_computed T"
  from first_some_Some [OF assms(3) [unfolded prefix_plan_def]] obtain f q m pr where x: "(f, W_filter q) \<in> set w"
    and m: "js_get (t_prefix T) f = Some m" and pr: "ff_startsWith q = Some pr" "pr \<noteq> []"
    and p: "qp_candidates p = rows_of_ids (t_records T) (idmap_ids m (take 20 (to_lower pr)))"
    by (auto split: option.splits where_value.splits if_splits)
  note D = index_invD [OF table_invD(1) [OF assms(1)]] and fm = map_of_SomeD [OF m]
  have trimmed: "cc_trimmed K f" by (rule safe_whereD(3) [OF assms(2) x]) (use fm in force)
  show ?thesis
  proof (rule coveringI [OF p])
    show "distinct (idmap_ids m (take 20 (to_lower pr)))" by (rule idmap.ids_distinct [OF D(11) [OF fm]])
    fix i r
    assume r: "js_get (t_records T) i = Some r" "evaluateWhere E ?C r w"
    have "filter_matches E (resolveFieldValue ?C r f) q" using evaluateWhereD [OF r(2) x] by (simp add: value_matches_def)
    then obtain s where s: "resolveFieldValue ?C r f = Prim (Str s)" "starts_with (to_lower pr) (to_lower s)"
      using pr(1) by (auto simp: filter_matches_def text_test_def split: db_cell.splits prim.splits)
    have "js_trim s = s" using table_invD(2) [OF assms(1) r(1)] trimmed s(1) by (simp add: fits_def)
    then have "take 20 (to_lower pr) \<in> set (prefix_keys ?C f r)" using prefix_indexed s pr(2) by (simp add: prefix_keys_def)
    then show "i \<in> set (idmap_ids m (take 20 (to_lower pr)))" by (rule coversD [OF D(12) [OF fm] r(1)])
  qed
qed

section \<open>Queries\<close>

lemma full_scan_candidates: "qp_candidates (full_scan T) = js_values (t_records T)"
  by (simp add: full_scan_def)

lemma plan_finds_matches:
  assumes "table_inv E K T" and "\<And>w. qo_where q = Some w \<Longrightarrow> safe_where K T w"
  shows "mset (filter (query_matches E (t_computed T) q) (qp_candidates (planQuery E q T))) =
    mset (filter (query_matches E (t_computed T) q) (js_values (t_records T)))"
proof (cases "qo_where q")
  case (Some w)
  let ?plans = "[composite_plan w T, equality_plan w T, sorted_plan E w T, prefix_plan w T]"
  show ?thesis
  proof (cases "first_some (\<lambda>p. p) ?plans")
    case (Some p)
    from first_some_Some [OF this] have "Some p \<in> set ?plans" by auto
    then have cov: "covering T (\<lambda>r. evaluateWhere E (t_computed T) r w) p"
      using composite_plan_covering [OF assms(1)] equality_plan_covering [OF assms(1) assms(2)]
        sorted_plan_covering [OF assms(1) assms(2)] prefix_plan_covering [OF assms(1) assms(2)] \<open>qo_where q = Some w\<close>
      by (auto dest: sym)
    then obtain ids where ids: "qp_candidates p = rows_of_ids (t_records T) ids" "distinct ids"
      "\<And>i r. js_get (t_records T) i = Some r \<Longrightarrow> evaluateWhere E (t_computed T) r w \<Longrightarrow> i \<in> set ids"
      unfolding covering_def by blast
    have plan: "planQuery E q T = p" unfolding planQuery_def \<open>qo_where q = Some w\<close> option.case Some by simp
    have "mset (filter (query_matches E (t_computed T) q) (rows_of_ids (t_records T) ids)) =
        mset (filter (query_matches E (t_computed T) q) (js_values (t_records T)))"
    proof (rule covering_lookup [OF index_invD(1) [OF table_invD(1) [OF assms(1)]] ids(2)])
      fix i r
      assume "js_get (t_records T) i = Some r" "query_matches E (t_computed T) q r"
      then show "i \<in> set ids" using ids(3) \<open>qo_where q = Some w\<close> by (simp add: query_matches_def)
    qed
    then show ?thesis by (simp only: plan ids(1))
  next
    case None
    then show ?thesis unfolding planQuery_def \<open>qo_where q = Some w\<close> option.case None by (simp only: option.case full_scan_candidates)
  qed
qed (simp add: planQuery_def full_scan_candidates)

end
