(* ===== verification/Db_Wal.thy ===== *)
theory Db_Wal
  imports Db_Table
begin

text \<open>
  The write-ahead log \<^verbatim>\<open>BroccoliWriteAheadLog\<close> of \<^verbatim>\<open>broccolidb-wal.ts\<close>: frames with a checksum over their content
  and the checksum of the frame before, buffered and appended to a file. The file is a list of lines, \<open>None\<close> for one
  that is not JSON. SHA-256 is the argument \<open>H\<close>, the clock an argument of the operation that reads it; the mutex
  around a flush is that of \<open>Db_Mutex\<close>.
\<close>

section \<open>Rows as JSON\<close>

definition cell_of_json :: "json \<Rightarrow> db_cell" where
  "cell_of_json j =
     (case j of JNull \<Rightarrow> Prim Null | JBool b \<Rightarrow> Prim (Bool b) | JNum n \<Rightarrow> Prim (Num n) | JStr s \<Rightarrow> Prim (Str s) | _ \<Rightarrow> Obj j)"

definition row_of_json :: "json \<Rightarrow> row" where
  "row_of_json j = (case j of JObj fs \<Rightarrow> map (\<lambda>(f, v). (f, cell_of_json v)) fs | _ \<Rightarrow> [])"

text \<open>Rows that JSON can carry: no field is undefined, and \<open>Obj\<close> is an array or an object.\<close>

definition plain_cell :: "db_cell \<Rightarrow> bool" where
  "plain_cell c = (case c of Prim p \<Rightarrow> p \<noteq> Undefined | Obj j \<Rightarrow> is_array c \<or> is_object c)"

definition plain_row :: "row \<Rightarrow> bool" where
  "plain_row r = list_all (\<lambda>(f, c). plain_cell c) r"

lemma cell_json_plain: "plain_cell c \<Longrightarrow> \<exists>j. cell_json c = Some j \<and> cell_of_json j = c"
  by (auto simp: plain_cell_def cell_json_def cell_of_json_def is_array_def is_object_def split: db_cell.splits prim.splits json.splits)

lemma row_json_plain: "plain_row r \<Longrightarrow> row_of_json (row_json r) = r"
proof -
  assume "plain_row r"
  then have "map (\<lambda>(f, v). (f, cell_of_json v)) (List.map_filter (\<lambda>(f, c). map_option (Pair f) (cell_json c)) r) = r"
  proof (induction r)
    case (Cons p r)
    obtain f c where p: "p = (f, c)" by (cases p)
    obtain j where "cell_json c = Some j" "cell_of_json j = c"
      using Cons.prems cell_json_plain [of c] by (auto simp: plain_row_def p)
    then show ?case using Cons by (simp add: p List.map_filter_simps plain_row_def)
  qed (simp add: List.map_filter_simps)
  then show ?thesis by (simp add: row_json_def row_of_json_def)
qed

section \<open>Frames\<close>

record wal_frame =
  fr_id :: int
  fr_time :: int
  fr_op :: wal_op
  fr_table :: string
  fr_record :: string
  fr_payload :: "json option"
  fr_checksum :: string
  fr_prev :: "string option"

record wal_log =
  wl_buffer :: "wal_frame list"
  wl_file :: "wal_frame option list"
  wl_next :: int
  wl_last :: string
  wl_total :: nat

definition genesis :: string where
  "genesis = replicate 64 (CHR ''0'')"

definition new_wal :: "wal_frame option list \<Rightarrow> wal_log" where
  "new_wal file = \<lparr>wl_buffer = [], wl_file = file, wl_next = 1, wl_last = genesis, wl_total = 0\<rparr>"

definition op_text :: "wal_op \<Rightarrow> string" where
  "op_text op =
     (case op of W_INSERT \<Rightarrow> ''INSERT'' | W_UPDATE \<Rightarrow> ''UPDATE'' | W_DELETE \<Rightarrow> ''DELETE'' | W_CLEAR \<Rightarrow> ''CLEAR''
      | W_CHECKPOINT \<Rightarrow> ''CHECKPOINT'' | W_ROLLBACK \<Rightarrow> ''ROLLBACK'' | W_BRANCH_MERGE \<Rightarrow> ''BRANCH_MERGE'')"

definition content_for_hash :: "int \<Rightarrow> int \<Rightarrow> wal_op \<Rightarrow> string \<Rightarrow> string \<Rightarrow> json option \<Rightarrow> string \<Rightarrow> string" where
  "content_for_hash n time op table i payload prev =
     join_with '':'' [show_int n, show_int time, op_text op, table, i,
       json_text (case payload of None \<Rightarrow> JObj [] | Some j \<Rightarrow> j), prev]"

definition frame_content :: "string \<Rightarrow> wal_frame \<Rightarrow> string" where
  "frame_content expected f =
     content_for_hash (fr_id f) (fr_time f) (fr_op f) (fr_table f) (fr_record f) (fr_payload f)
       (case fr_prev f of None \<Rightarrow> expected | Some p \<Rightarrow> p)"

section \<open>Appending\<close>

definition flush :: "wal_log \<Rightarrow> wal_log" where
  "flush w = w\<lparr>wl_file := wl_file w @ map Some (wl_buffer w), wl_buffer := []\<rparr>"

definition appendFrame :: "(string \<Rightarrow> string) \<Rightarrow> int \<Rightarrow> wal_op \<Rightarrow> string \<Rightarrow> string \<Rightarrow> json option \<Rightarrow> bool \<Rightarrow> wal_log \<Rightarrow> wal_log" where
  "appendFrame H now op table i payload synchronous w =
     (let checksum = H (content_for_hash (wl_next w) now op table i payload (wl_last w));
          f = \<lparr>fr_id = wl_next w, fr_time = now, fr_op = op, fr_table = table, fr_record = i, fr_payload = payload,
               fr_checksum = checksum, fr_prev = Some (wl_last w)\<rparr>;
          w1 = w\<lparr>wl_next := wl_next w + 1, wl_last := checksum, wl_buffer := wl_buffer w @ [f], wl_total := Suc (wl_total w)\<rparr> in
      if synchronous then flush w1 else w1)"

text \<open>The journal is rotated; the old file is kept under another name and not read again.\<close>

definition truncate_wal :: "wal_log \<Rightarrow> wal_log" where
  "truncate_wal w = (flush w)\<lparr>wl_file := [], wl_last := genesis\<rparr>"

section \<open>Replay\<close>

datatype wal_error = Corrupted_JSON nat | Checksum_mismatch int nat

definition note_frame :: "wal_frame \<Rightarrow> wal_log \<Rightarrow> wal_log" where
  "note_frame f w = w\<lparr>wl_next := (if wl_next w \<le> fr_id f then fr_id f + 1 else wl_next w), wl_last := fr_checksum f\<rparr>"

fun replay_lines ::
  "(string \<Rightarrow> string) \<Rightarrow> nat \<Rightarrow> string \<Rightarrow> wal_frame option list \<Rightarrow> wal_log \<Rightarrow> (wal_error + wal_frame list) \<times> wal_log" where
  "replay_lines H n expected [] w = (Inr [], w)"
| "replay_lines H n expected (None # ls) w = (Inl (Corrupted_JSON (Suc n)), w)"
| "replay_lines H n expected (Some f # ls) w =
     (if H (frame_content expected f) \<noteq> fr_checksum f then (Inl (Checksum_mismatch (fr_id f) (Suc n)), w)
      else (let (result, w1) = replay_lines H (Suc n) (fr_checksum f) ls (note_frame f w) in (map_sum id (Cons f) result, w1)))"

definition replay :: "(string \<Rightarrow> string) \<Rightarrow> wal_log \<Rightarrow> (wal_error + wal_frame list) \<times> wal_log" where
  "replay H w = (let w1 = flush w in replay_lines H 0 genesis (wl_file w1) w1)"

section \<open>What the checksums tell\<close>

text \<open>A frame that names the frame before it, under a checksum of its own content.\<close>

definition sealed :: "(string \<Rightarrow> string) \<Rightarrow> wal_frame \<Rightarrow> bool" where
  "sealed H f \<longleftrightarrow> fr_prev f \<noteq> None \<and> H (frame_content [] f) = fr_checksum f"

lemma sealed_content: "sealed H f \<Longrightarrow> H (frame_content e f) = fr_checksum f"
  by (auto simp: sealed_def frame_content_def)

lemma replay_lines_sealed:
  "list_all (sealed H) fs \<Longrightarrow> fst (replay_lines H n e (map Some fs) w) = Inr fs"
  by (induction fs arbitrary: n e w) (simp_all add: sealed_content case_prod_beta)

lemma replay_lines_verified:
  "fst (replay_lines H n e ls w) = Inr fs \<Longrightarrow> list_all (\<lambda>f. fr_prev f \<noteq> None) fs \<Longrightarrow> ls = map Some fs \<and> list_all (sealed H) fs"
proof (induction H n e ls w arbitrary: fs rule: replay_lines.induct)
  case (3 H n e f ls w)
  then have ok: "H (frame_content e f) = fr_checksum f" by (simp split: if_splits)
  then obtain gs where gs: "fst (replay_lines H (Suc n) (fr_checksum f) ls (note_frame f w)) = Inr gs" "fs = f # gs"
    using 3(2) by (cases "fst (replay_lines H (Suc n) (fr_checksum f) ls (note_frame f w))") (auto simp: case_prod_beta)
  have prev: "fr_prev f \<noteq> None" "list_all (\<lambda>f. fr_prev f \<noteq> None) gs" using 3(3) gs(2) by simp_all
  have "ls = map Some gs \<and> list_all (sealed H) gs" by (rule 3(1) [OF _ gs(1) prev(2)]) (simp add: ok)
  moreover have "sealed H f" using ok prev(1) by (auto simp: sealed_def frame_content_def)
  ultimately show ?case using gs(2) by simp
qed auto

lemma appendFrame_fields:
  "wl_file (appendFrame H now op t i p s w) @ map Some (wl_buffer (appendFrame H now op t i p s w)) =
     wl_file w @ map Some (wl_buffer w) @
       [Some \<lparr>fr_id = wl_next w, fr_time = now, fr_op = op, fr_table = t, fr_record = i, fr_payload = p,
              fr_checksum = H (content_for_hash (wl_next w) now op t i p (wl_last w)), fr_prev = Some (wl_last w)\<rparr>]"
  by (simp add: appendFrame_def flush_def Let_def)

end
