(* ===== verification/Db_Kernel.thy ===== *)
theory Db_Kernel
  imports Db_Wal Db_Reachable
begin

text \<open>
  The kernel of \<^verbatim>\<open>broccolidb-kernel.ts\<close> as far as tables are concerned: tables by name whose log hook appends
  frames, checkpoints, rollback and the recovery at start. The identifiers \<^verbatim>\<open>crypto.randomUUID\<close> draws are the list
  \<open>us\<close>. Content-addressed storage, the other engines the kernel constructs and \<^verbatim>\<open>health\<close> are left out, and
  so are rows whose \<^verbatim>\<open>id\<close> is a number or an object when a checkpoint is read.
\<close>

declare map_of_eq_Some_iff [simp del]
declare Some_eq_map_of_iff [simp del]

section \<open>State\<close>

record checkpoint_record =
  cr_id :: string
  cr_timestamp :: int
  cr_frameIndex :: int
  cr_label :: string
  cr_tableCount :: nat
  cr_totalRecords :: nat
  cr_snapshotHash :: string

type_synonym table_data = "(string, json list) jsmap"

record kernel =
  k_tables :: "(string, db_table) jsmap"
  k_wal :: wal_log
  k_frameIndex :: int
  k_base :: "table_data option"
  k_checkpoints :: "(string, checkpoint_record) jsmap"
  k_memory :: "(string, (string, rows) jsmap) jsmap"
  k_history :: "(string, table_data) jsmap"

text \<open>A process that starts on the files of another.\<close>

definition boot :: "wal_frame option list \<Rightarrow> table_data option \<Rightarrow> (string, table_data) jsmap \<Rightarrow> kernel" where
  "boot file base history =
     \<lparr>k_tables = [], k_wal = new_wal file, k_frameIndex = 0, k_base = base, k_checkpoints = [], k_memory = [], k_history = history\<rparr>"

section \<open>Tables\<close>

definition getTable :: "string \<Rightarrow> kernel \<Rightarrow> kernel \<times> db_table" where
  "getTable name k =
     (case js_get (k_tables k) name of
        Some T \<Rightarrow> (k, T)
      | None \<Rightarrow> (k\<lparr>k_tables := js_set (k_tables k) name new_table\<rparr>, new_table))"

text \<open>What the hook of a table does with one call.\<close>

definition hook_frame :: "(string \<Rightarrow> string) \<Rightarrow> int \<Rightarrow> string \<Rightarrow> wal_entry \<Rightarrow> kernel \<Rightarrow> kernel" where
  "hook_frame H now name e k =
     k\<lparr>k_frameIndex := k_frameIndex k + 1,
       k_wal := appendFrame H now (we_op e) name (we_id e) (map_option row_json (we_payload e)) False (k_wal k)\<rparr>"

text \<open>An operation on a table, with the calls of its hook.\<close>

definition on_table :: "(string \<Rightarrow> string) \<Rightarrow> int \<Rightarrow> string \<Rightarrow> (db_table \<Rightarrow> db_table) \<Rightarrow> kernel \<Rightarrow> kernel" where
  "on_table H now name g k =
     (let (k1, T) = getTable name k; T1 = g (T\<lparr>t_wal := []\<rparr>) in
      fold (hook_frame H now name) (t_wal T1) (k1\<lparr>k_tables := js_set (k_tables k1) name (T1\<lparr>t_wal := []\<rparr>)\<rparr>))"

definition flush_wal :: "kernel \<Rightarrow> kernel" where
  "flush_wal k = k\<lparr>k_wal := flush (k_wal k)\<rparr>"

section \<open>Checkpoints\<close>

definition checkpoint :: "(string \<Rightarrow> string) \<Rightarrow> int \<Rightarrow> string \<Rightarrow> string \<Rightarrow> string \<Rightarrow> kernel \<Rightarrow> kernel" where
  "checkpoint H now cid label digest k =
     (let k1 = flush_wal k;
          data = map (\<lambda>(name, T). (name, map row_json (getAll T))) (k_tables k1);
          snapshot = map (\<lambda>(name, T). (name, createSnapshot T)) (k_tables k1);
          c = \<lparr>cr_id = cid, cr_timestamp = now, cr_frameIndex = k_frameIndex k1, cr_label = label, cr_tableCount = length (k_tables k1),
               cr_totalRecords = sum_list (map (\<lambda>(name, T). length (getAll T)) (k_tables k1)), cr_snapshotHash = digest\<rparr> in
      k1\<lparr>k_base := Some data, k_history := js_set (k_history k1) cid data, k_checkpoints := js_set (k_checkpoints k1) cid c,
         k_memory := js_set (k_memory k1) cid snapshot,
         k_wal := appendFrame H now W_CHECKPOINT ''system'' cid
                    (Some (JObj [(''label'', JStr label), (''snapshotHash'', JStr digest)])) False (truncate_wal (k_wal k1))\<rparr>)"

text \<open>Rows are put again under their \<^verbatim>\<open>id\<close>, or under a new identifier.\<close>

definition row_key :: "string list \<Rightarrow> row \<Rightarrow> string \<times> string list" where
  "row_key us r =
     (let fresh = (case us of [] \<Rightarrow> ([], []) | u # us' \<Rightarrow> (u, us')) in
      case get_field r ''id'' of Prim (Str s) \<Rightarrow> if s = [] then fresh else (s, us) | _ \<Rightarrow> fresh)"

fun load_rows :: "db_env \<Rightarrow> string list \<Rightarrow> json list \<Rightarrow> db_table \<Rightarrow> db_table \<times> string list" where
  "load_rows E us [] T = (T, us)"
| "load_rows E us (j # js) T =
     (let r = row_of_json j; (i, us') = row_key us r in load_rows E us' js (putInternal E i r T))"

fun load_tables :: "db_env \<Rightarrow> (string \<Rightarrow> string) \<Rightarrow> int \<Rightarrow> string list \<Rightarrow> table_data \<Rightarrow> kernel \<Rightarrow> kernel" where
  "load_tables E H now us [] k = k"
| "load_tables E H now us ((name, rows) # data) k =
     (let (T, us') = load_rows E us rows (clear_table (snd (getTable name k))) in
      load_tables E H now us' data (on_table H now name (\<lambda>T. fst (load_rows E us rows (clear_table T))) k))"

definition restore_tables :: "db_env \<Rightarrow> (string \<Rightarrow> string) \<Rightarrow> int \<Rightarrow> (string, rows) jsmap \<Rightarrow> kernel \<Rightarrow> kernel" where
  "restore_tables E H now snapshot k =
     fold (\<lambda>(name, rows) k. if js_has (k_tables k) name then on_table H now name (restoreSnapshot E rows) k else k) snapshot k"

definition log_rollback :: "(string \<Rightarrow> string) \<Rightarrow> int \<Rightarrow> string \<Rightarrow> string \<Rightarrow> kernel \<Rightarrow> kernel" where
  "log_rollback H now cid source k =
     k\<lparr>k_wal := appendFrame H now W_ROLLBACK ''system'' cid (Some (JObj [(''source'', JStr source)])) True (k_wal k)\<rparr>"

definition rollback :: "db_env \<Rightarrow> (string \<Rightarrow> string) \<Rightarrow> int \<Rightarrow> string list \<Rightarrow> string \<Rightarrow> kernel \<Rightarrow> kernel \<times> bool" where
  "rollback E H now us cid k =
     (case js_get (k_memory k) cid of
        Some snapshot \<Rightarrow> (log_rollback H now cid ''memory_cache'' (restore_tables E H now snapshot k), True)
      | None \<Rightarrow>
          (case js_get (k_history k) cid of
             Some data \<Rightarrow> (log_rollback H now cid ''disk_snapshot'' (load_tables E H now us data k), True)
           | None \<Rightarrow> (k, False)))"

section \<open>Recovery\<close>

definition loadBaseCheckpoint :: "db_env \<Rightarrow> (string \<Rightarrow> string) \<Rightarrow> int \<Rightarrow> string list \<Rightarrow> kernel \<Rightarrow> kernel" where
  "loadBaseCheckpoint E H now us k = (case k_base k of None \<Rightarrow> k | Some data \<Rightarrow> load_tables E H now us data k)"

text \<open>\<^verbatim>\<open>getTable\<close>, then a change that does not go through the hook.\<close>

definition silently :: "string \<Rightarrow> (db_table \<Rightarrow> db_table) \<Rightarrow> kernel \<Rightarrow> kernel" where
  "silently name g k = (let (k1, T) = getTable name k in k1\<lparr>k_tables := js_set (k_tables k1) name (g T)\<rparr>)"

definition replay_frame :: "db_env \<Rightarrow> wal_frame \<Rightarrow> kernel \<Rightarrow> kernel" where
  "replay_frame E f k =
     (let k1 =
        (if fr_op f = W_INSERT \<or> fr_op f = W_UPDATE
         then (case fr_payload f of
                 Some j \<Rightarrow> if fr_table f \<noteq> [] then silently (fr_table f) (putInternal E (fr_record f) (row_of_json j)) k else k
               | None \<Rightarrow> k)
         else if fr_op f = W_DELETE
         then (if fr_table f \<noteq> [] then silently (fr_table f) (\<lambda>T. fst (deleteInternal E (fr_record f) T)) k else k)
         else k) in
      k1\<lparr>k_frameIndex := max (k_frameIndex k1) (fr_id f)\<rparr>)"

definition start :: "db_env \<Rightarrow> (string \<Rightarrow> string) \<Rightarrow> int \<Rightarrow> string list \<Rightarrow> kernel \<Rightarrow> wal_error + kernel" where
  "start E H now us k =
     (let k1 = loadBaseCheckpoint E H now us k; (result, w) = replay H (k_wal k1) in
      case result of
        Inl e \<Rightarrow> Inl e
      | Inr frames \<Rightarrow> Inr (fold (replay_frame E) frames (k1\<lparr>k_wal := w\<rparr>)))"

text \<open>The process stops, its log flushed, and another starts on its files.\<close>

definition restart :: "db_env \<Rightarrow> (string \<Rightarrow> string) \<Rightarrow> int \<Rightarrow> string list \<Rightarrow> kernel \<Rightarrow> wal_error + kernel" where
  "restart E H now us k = (let k1 = flush_wal k in start E H now us (boot (wl_file (k_wal k1)) (k_base k1) (k_history k1)))"

end
