(* ===== verification/Db_Recovery.thy ===== *)
theory Db_Recovery
  imports Db_Kernel
begin

text \<open>
  Recovery: what a kernel that starts on the files of another finds in its tables. It is what the tables held when
  they were changed by \<open>durable_op\<close> operations only, the rows are JSON data and carry their key in \<^verbatim>\<open>id\<close>.
\<close>

declare map_of_eq_Some_iff [simp del]
declare Some_eq_map_of_iff [simp del]

section \<open>The effect of log entries on the rows of a table\<close>

definition entry_effect :: "wal_entry \<Rightarrow> rows \<Rightarrow> rows" where
  "entry_effect e m =
     (if we_op e = W_INSERT \<or> we_op e = W_UPDATE then (case we_payload e of Some r \<Rightarrow> js_set m (we_id e) r | None \<Rightarrow> m)
      else if we_op e = W_DELETE then js_del m (we_id e) else m)"

definition frame_effect :: "string \<Rightarrow> wal_frame \<Rightarrow> rows \<Rightarrow> rows" where
  "frame_effect name f m =
     (if fr_table f \<noteq> name \<or> name = [] then m
      else if fr_op f = W_INSERT \<or> fr_op f = W_UPDATE
           then (case fr_payload f of Some j \<Rightarrow> js_set m (fr_record f) (row_of_json j) | None \<Rightarrow> m)
      else if fr_op f = W_DELETE then js_del m (fr_record f) else m)"

text \<open>Rows under their own identifier.\<close>

definition row_keyed :: "string \<Rightarrow> row \<Rightarrow> bool" where
  "row_keyed i r \<longleftrightarrow> i \<noteq> [] \<and> js_get r ''id'' = Some (Prim (Str i)) \<and> plain_row r"

definition entry_keyed :: "wal_entry \<Rightarrow> bool" where
  "entry_keyed e \<longleftrightarrow> (case we_payload e of Some r \<Rightarrow> row_keyed (we_id e) r | None \<Rightarrow> True)"

definition rows_keyed :: "rows \<Rightarrow> bool" where
  "rows_keyed m \<longleftrightarrow> js_wf m \<and> list_all (\<lambda>(i, r). row_keyed i r) m"

lemma row_keyed_set: "rows_keyed m \<Longrightarrow> row_keyed i r \<Longrightarrow> rows_keyed (js_set m i r)"
  using set_js_set [of i r m] by (fastforce simp: rows_keyed_def list_all_iff)

lemma row_keyed_del: "rows_keyed m \<Longrightarrow> rows_keyed (js_del m i)"
  by (auto simp: rows_keyed_def list_all_iff set_js_del)

lemma entry_effect_keyed: "rows_keyed m \<Longrightarrow> entry_keyed e \<Longrightarrow> rows_keyed (entry_effect e m)"
  by (auto simp: entry_effect_def entry_keyed_def row_keyed_set row_keyed_del split: option.splits)

lemma entries_effect_keyed: "rows_keyed m \<Longrightarrow> list_all entry_keyed es \<Longrightarrow> rows_keyed (fold entry_effect es m)"
  by (induction es arbitrary: m) (auto simp: entry_effect_keyed)

section \<open>Operations the log captures\<close>

definition durable_op :: "db_env \<Rightarrow> db_table \<Rightarrow> table_op \<Rightarrow> bool" where
  "durable_op E T op =
     (case op of
        O_put i r ttl \<Rightarrow> row_keyed i (valid_row E T r)
      | O_transaction ms throws \<Rightarrow> \<not> throws \<and> list_all (\<lambda>m. case m of S_PUT i r \<Rightarrow> row_keyed i r | S_DELETE i \<Rightarrow> True) ms
      | O_clear \<Rightarrow> False | O_undo \<Rightarrow> False | O_redo \<Rightarrow> False | O_checkout n \<Rightarrow> False | O_merge n s \<Rightarrow> False
      | _ \<Rightarrow> True)"

text \<open>A table's log tells how its rows changed.\<close>

definition logs :: "db_table \<Rightarrow> db_table \<Rightarrow> bool" where
  "logs T T' \<longleftrightarrow> t_computed T' = [] \<and> (\<exists>es. t_wal T' = t_wal T @ es \<and> list_all entry_keyed es \<and> t_records T' = fold entry_effect es (t_records T))"

lemma logs_quiet: "t_computed T' = [] \<Longrightarrow> t_wal T' = t_wal T \<Longrightarrow> t_records T' = t_records T \<Longrightarrow> logs T T'"
  by (auto simp: logs_def intro!: exI [of _ "[]"])

lemma logs_entry:
  "t_computed T' = [] \<Longrightarrow> t_wal T' = t_wal T @ [e] \<Longrightarrow> entry_keyed e \<Longrightarrow> t_records T' = entry_effect e (t_records T) \<Longrightarrow> logs T T'"
  by (auto simp: logs_def intro!: exI [of _ "[e]"])

lemma emit_fields [simp]:
  "t_records (emitChangeEvent c i b a T) = t_records T" "t_wal (emitChangeEvent c i b a T) = t_wal T"
  by (simp_all add: emitChangeEvent_def Let_def)

lemma ttl_fields [simp]:
  "t_records (set_ttl i ttl T) = t_records T" "t_wal (set_ttl i ttl T) = t_wal T"
  "t_records (clear_ttl i T) = t_records T" "t_wal (clear_ttl i T) = t_wal T"
  by (simp_all add: set_ttl_def clear_ttl_def Let_def split: option.split)

lemma branch_fields [simp]:
  "t_records (set_active g T) = t_records T" "t_wal (set_active g T) = t_wal T"
  "t_records (recordAction op i b a T) = t_records T" "t_wal (recordAction op i b a T) = t_wal T"
  by (simp_all add: set_active_def recordAction_def Let_def)

lemma hook_fields [simp]:
  "t_records (walHook op i p T) = t_records T"
  "t_wal (walHook op i p T) = t_wal T @ [\<lparr>we_op = op, we_id = i, we_payload = p\<rparr>]"
  by (simp_all add: walHook_def)

lemma put_logs:
  assumes "t_computed T = []" and "row_keyed i (valid_row E T r)"
  shows "logs T (fst (put E i r ttl T))"
  by (rule logs_entry [where e = "\<lparr>we_op = (if js_get (t_records T) i = None then W_INSERT else W_UPDATE), we_id = i, we_payload = Some (valid_row E T r)\<rparr>"])
    (use assms in \<open>simp_all add: put_def Let_def putInternal_fields entry_keyed_def entry_effect_def cloneRecordWithComputed_def\<close>)

lemma delete_logs:
  assumes "t_computed T = []"
  shows "logs T (fst (delete_row E i T))"
proof (cases "js_get (t_records T) i")
  case None
  then show ?thesis using assms by (simp add: delete_row_def logs_quiet)
next
  case (Some old)
  show ?thesis
    by (rule logs_entry [where e = "\<lparr>we_op = W_DELETE, we_id = i, we_payload = None\<rparr>"])
      (use assms Some in \<open>simp_all add: delete_row_def deleteInternal_fields entry_keyed_def entry_effect_def\<close>)
qed

lemma expire_logs:
  assumes "t_computed T = []"
  shows "logs T (expire E h T)"
proof (cases "js_get (t_armed T) h")
  case None
  then show ?thesis using assms by (simp add: expire_def logs_quiet)
next
  case (Some i)
  show ?thesis
  proof (cases "js_get (t_records T) i")
    case None
    then show ?thesis using assms Some by (simp add: expire_def logs_quiet)
  next
    case (Some old)
    show ?thesis
      by (rule logs_entry [where e = "\<lparr>we_op = W_DELETE, we_id = i, we_payload = None\<rparr>"])
        (use assms Some \<open>js_get (t_armed T) h = Some i\<close> in
          \<open>simp_all add: expire_def Let_def deleteInternal_fields entry_keyed_def entry_effect_def\<close>)
  qed
qed

definition staged_entry :: "staged \<Rightarrow> wal_entry" where
  "staged_entry m =
     (case m of S_PUT i r \<Rightarrow> \<lparr>we_op = W_INSERT, we_id = i, we_payload = Some r\<rparr>
      | S_DELETE i \<Rightarrow> \<lparr>we_op = W_DELETE, we_id = i, we_payload = None\<rparr>)"

lemma stages_fields:
  "t_records (fold (stage E) ms T) = fold (\<lambda>m. entry_effect (staged_entry m)) ms (t_records T) \<and>
   t_wal (fold (stage E) ms T) = t_wal T \<and> t_computed (fold (stage E) ms T) = t_computed T"
  by (induction ms arbitrary: T)
    (auto simp: stage_def staged_entry_def entry_effect_def putInternal_fields deleteInternal_fields split: staged.split)

lemma log_staged_fields:
  "t_records (fold log_staged ms T) = t_records T \<and> t_wal (fold log_staged ms T) = t_wal T @ map staged_entry ms \<and>
   t_computed (fold log_staged ms T) = t_computed T"
  by (induction ms arbitrary: T) (auto simp: log_staged_def staged_entry_def walHook_def split: staged.split)

lemma transaction_logs:
  assumes "t_computed T = []" and "list_all (\<lambda>m. case m of S_PUT i r \<Rightarrow> row_keyed i r | S_DELETE i \<Rightarrow> True) ms"
  shows "logs T (transaction E ms False T)"
proof -
  have "list_all entry_keyed (map staged_entry ms)"
    using assms(2) by (induction ms) (auto simp: staged_entry_def entry_keyed_def split: staged.splits)
  moreover have "t_records (transaction E ms False T) = fold entry_effect (map staged_entry ms) (t_records T)"
    using stages_fields [of E ms T] log_staged_fields [of ms "fold (stage E) ms T"] by (simp add: transaction_def Let_def fold_map comp_def)
  moreover have "t_wal (transaction E ms False T) = t_wal T @ map staged_entry ms \<and> t_computed (transaction E ms False T) = []"
    using stages_fields [of E ms T] log_staged_fields [of ms "fold (stage E) ms T"] assms(1) by (simp add: transaction_def Let_def)
  ultimately show ?thesis unfolding logs_def by blast
qed

lemma durable_op_logs:
  assumes "durable_op E T op" and "t_computed T = []"
  shows "logs T (run_op E op T)"
  using assms
  by (cases op)
    (auto simp: durable_op_def run_op_def put_logs delete_logs expire_logs transaction_logs forkBranch_def createIndex_def
      createSortedIndex_def createCompositeIndex_def createPrefixIndex_def subscribe_def unsubscribe_def Let_def intro!: logs_quiet)

section \<open>The log of a kernel\<close>

definition table_rows :: "kernel \<Rightarrow> string \<Rightarrow> rows" where
  "table_rows k name = (case js_get (k_tables k) name of None \<Rightarrow> [] | Some T \<Rightarrow> t_records T)"

text \<open>The rows a start finds in the base file.\<close>

definition loaded_rows :: "json list \<Rightarrow> rows" where
  "loaded_rows js = fold (\<lambda>j m. js_set m (fst (row_key [] (row_of_json j))) (row_of_json j)) js []"

definition base_rows :: "kernel \<Rightarrow> string \<Rightarrow> rows" where
  "base_rows k name = (case k_base k of None \<Rightarrow> [] | Some data \<Rightarrow> (case js_get data name of None \<Rightarrow> [] | Some js \<Rightarrow> loaded_rows js))"

definition written :: "wal_log \<Rightarrow> wal_frame option list" where
  "written w = wl_file w @ map Some (wl_buffer w)"

definition table_of :: "kernel \<Rightarrow> string \<Rightarrow> db_table" where
  "table_of k name = (case js_get (k_tables k) name of None \<Rightarrow> new_table | Some T \<Rightarrow> T)"

definition tables_ok :: "kernel \<Rightarrow> bool" where
  "tables_ok k \<longleftrightarrow> js_wf (k_tables k) \<and> (\<forall>(n, T) \<in> set (k_tables k). n \<noteq> [] \<and> t_computed T = [] \<and> t_wal T = [])"

lemma table_of_ok: "tables_ok k \<Longrightarrow> t_computed (table_of k name) = [] \<and> t_wal (table_of k name) = []"
  by (auto simp: tables_ok_def table_of_def new_table_def split: option.split dest!: map_of_SomeD)

lemma table_rows_of: "table_rows k name = t_records (table_of k name)"
  by (simp add: table_rows_def table_of_def new_table_def split: option.split)

lemma tables_ok_set:
  assumes "tables_ok k" and "n \<noteq> []" and "t_computed T = []" and "t_wal T = []"
  shows "tables_ok (k\<lparr>k_tables := js_set (k_tables k) n T\<rparr>)"
  using assms set_js_set [of n T "k_tables k"] by (fastforce simp: tables_ok_def)

lemma getTable_eq: "fst (getTable name k) = k \<or> fst (getTable name k) = k\<lparr>k_tables := js_set (k_tables k) name new_table\<rparr>"
  "snd (getTable name k) = table_of k name"
  by (auto simp: getTable_def table_of_def split: option.split)

lemma js_set_set: "js_set (js_set m k v) k w = js_set m k w"
  by (induction m) auto

lemma getTable_set:
  "(fst (getTable name k))\<lparr>k_tables := js_set (k_tables (fst (getTable name k))) name T\<rparr> = k\<lparr>k_tables := js_set (k_tables k) name T\<rparr>"
  using getTable_eq(1) [of name k] by (auto simp: js_set_set)

section \<open>What the hook writes\<close>

text \<open>\<open>fs\<close> are sealed frames of the table \<open>name\<close> with the effect of \<open>es\<close>.\<close>

definition frames_for :: "(string \<Rightarrow> string) \<Rightarrow> string \<Rightarrow> wal_entry list \<Rightarrow> wal_frame list \<Rightarrow> bool" where
  "frames_for H name es fs \<longleftrightarrow> list_all (sealed H) fs \<and>
     (\<forall>m. fold (frame_effect name) fs m = fold entry_effect es m) \<and> (\<forall>n m. n \<noteq> name \<longrightarrow> fold (frame_effect n) fs m = m)"

lemma hook_frame_writes:
  assumes "entry_keyed e" and "name \<noteq> []"
  obtains f where "written (k_wal (hook_frame H now name e k)) = written (k_wal k) @ [Some f]" and "frames_for H name [e] [f]"
proof (rule that)
  let ?w = "k_wal k" and ?p = "map_option row_json (we_payload e)"
  let ?f = "\<lparr>fr_id = wl_next ?w, fr_time = now, fr_op = we_op e, fr_table = name, fr_record = we_id e, fr_payload = ?p,
    fr_checksum = H (content_for_hash (wl_next ?w) now (we_op e) name (we_id e) ?p (wl_last ?w)), fr_prev = Some (wl_last ?w)\<rparr>"
  show "written (k_wal (hook_frame H now name e k)) = written ?w @ [Some ?f]"
    using appendFrame_fields [of H now "we_op e" name "we_id e" ?p False ?w] by (simp add: hook_frame_def written_def)
  have "frame_effect name ?f m = entry_effect e m" for m
    using assms by (auto simp: frame_effect_def entry_effect_def entry_keyed_def row_keyed_def row_json_plain split: option.split)
  moreover have "sealed H ?f" by (simp add: sealed_def frame_content_def)
  ultimately show "frames_for H name [e] [?f]" by (simp add: frames_for_def frame_effect_def)
qed

lemma hook_frame_rest: "k_tables (hook_frame H now name e k) = k_tables k \<and> k_base (hook_frame H now name e k) = k_base k \<and>
    k_history (hook_frame H now name e k) = k_history k"
  by (simp add: hook_frame_def)

lemma hook_frames_write:
  assumes "list_all entry_keyed es" and "name \<noteq> []"
  shows "\<exists>fs. written (k_wal (fold (hook_frame H now name) es k)) = written (k_wal k) @ map Some fs \<and> frames_for H name es fs \<and>
    k_tables (fold (hook_frame H now name) es k) = k_tables k \<and> k_base (fold (hook_frame H now name) es k) = k_base k \<and>
    k_history (fold (hook_frame H now name) es k) = k_history k"
  using assms(1)
proof (induction es arbitrary: k)
  case Nil
  show ?case by (rule exI [of _ "[]"]) (simp add: frames_for_def)
next
  case (Cons e es)
  have ke: "entry_keyed e" "list_all entry_keyed es" using Cons.prems by simp_all
  obtain f where f: "written (k_wal (hook_frame H now name e k)) = written (k_wal k) @ [Some f]" "frames_for H name [e] [f]"
    by (rule hook_frame_writes [OF ke(1) assms(2)])
  obtain fs where fs: "written (k_wal (fold (hook_frame H now name) es (hook_frame H now name e k))) = written (k_wal (hook_frame H now name e k)) @ map Some fs"
    "frames_for H name es fs"
    "k_tables (fold (hook_frame H now name) es (hook_frame H now name e k)) = k_tables (hook_frame H now name e k)"
    "k_base (fold (hook_frame H now name) es (hook_frame H now name e k)) = k_base (hook_frame H now name e k)"
    "k_history (fold (hook_frame H now name) es (hook_frame H now name e k)) = k_history (hook_frame H now name e k)"
    using Cons.IH [OF ke(2), of "hook_frame H now name e k"] by blast
  have "frames_for H name (e # es) (f # fs)" using f(2) fs(2) by (auto simp: frames_for_def)
  then show ?case using f(1) fs hook_frame_rest [of H now name e k] by (intro exI [of _ "f # fs"]) simp
qed

lemma on_table_effect:
  assumes "tables_ok k" and "name \<noteq> []" and "t_computed (g (table_of k name)) = []" and "list_all entry_keyed (t_wal (g (table_of k name)))"
  obtains fs where "tables_ok (on_table H now name g k)"
    and "\<And>n. table_rows (on_table H now name g k) n = (if n = name then t_records (g (table_of k name)) else table_rows k n)"
    and "js_keys (k_tables (on_table H now name g k)) = js_keys (js_set (k_tables k) name new_table)"
    and "k_base (on_table H now name g k) = k_base k" and "k_history (on_table H now name g k) = k_history k"
    and "written (k_wal (on_table H now name g k)) = written (k_wal k) @ map Some fs"
    and "frames_for H name (t_wal (g (table_of k name))) fs"
proof -
  let ?T = "table_of k name"
  have same: "?T\<lparr>t_wal := []\<rparr> = ?T" using table_of_ok [OF assms(1), of name] by simp
  let ?k = "k\<lparr>k_tables := js_set (k_tables k) name ((g ?T)\<lparr>t_wal := []\<rparr>)\<rparr>"
  have on: "on_table H now name g k = fold (hook_frame H now name) (t_wal (g ?T)) ?k"
    using getTable_eq(2) [of name k] getTable_set [where name = name and k = k] by (simp add: on_table_def case_prod_beta Let_def same)
  obtain fs where fs: "written (k_wal (on_table H now name g k)) = written (k_wal ?k) @ map Some fs" "frames_for H name (t_wal (g ?T)) fs"
    "k_tables (on_table H now name g k) = k_tables ?k" "k_base (on_table H now name g k) = k_base ?k" "k_history (on_table H now name g k) = k_history ?k"
    unfolding on using hook_frames_write [OF assms(4,2)] by blast
  have ok: "tables_ok ?k" by (rule tables_ok_set [OF assms(1,2)]) (use assms(3) in simp_all)
  show thesis
  proof (rule that)
    show "tables_ok (on_table H now name g k)" using ok fs(3) by (simp add: tables_ok_def)
    show "table_rows (on_table H now name g k) n = (if n = name then t_records (g ?T) else table_rows k n)" for n
      using fs(3) by (simp add: table_rows_def)
    show "js_keys (k_tables (on_table H now name g k)) = js_keys (js_set (k_tables k) name new_table)" using fs(3) by (simp add: js_keys_set)
  qed (use fs in simp_all)
qed

section \<open>Loading a base file\<close>

lemma row_key_keyed: "row_keyed i r \<Longrightarrow> row_key us r = (i, us)"
  by (simp add: row_keyed_def row_key_def get_field_def)

lemma loaded_append:
  "js_wf (m0 @ m) \<Longrightarrow> list_all (\<lambda>(i, r). row_keyed i r) m \<Longrightarrow>
   fold (\<lambda>j m. js_set m (fst (row_key us (row_of_json j))) (row_of_json j)) (map row_json (js_values m)) m0 = m0 @ m"
proof (induction m arbitrary: m0)
  case (Cons p m)
  obtain i r where p: "p = (i, r)" by (cases p)
  have k: "row_keyed i r" using Cons.prems(2) p by simp
  then have r: "row_of_json (row_json r) = r" by (simp add: row_keyed_def row_json_plain)
  have "js_set m0 i r = m0 @ [(i, r)]" by (rule js_set_append) (use Cons.prems(1) in \<open>auto simp: p\<close>)
  then show ?case using Cons.IH [of "m0 @ [(i, r)]"] Cons.prems by (simp add: p r row_key_keyed [OF k])
qed simp

lemma loaded_rows_values: "rows_keyed m \<Longrightarrow> loaded_rows (map row_json (js_values m)) = m"
  using loaded_append [of "[]" m] by (simp add: loaded_rows_def rows_keyed_def)

lemma load_rows_fields:
  "list_all (\<lambda>j. \<exists>i. row_keyed i (row_of_json j)) js \<Longrightarrow>
   t_records (fst (load_rows E us js T)) = fold (\<lambda>j m. js_set m (fst (row_key [] (row_of_json j))) (row_of_json j)) js (t_records T) \<and>
   t_wal (fst (load_rows E us js T)) = t_wal T \<and> t_computed (fst (load_rows E us js T)) = t_computed T"
proof (induction js arbitrary: us T)
  case (Cons j js)
  obtain i where "row_keyed i (row_of_json j)" using Cons.prems by auto
  then have "row_key us (row_of_json j) = (i, us)" "row_key [] (row_of_json j) = (i, [])" by (rule row_key_keyed)+
  moreover have "list_all (\<lambda>j. \<exists>i. row_keyed i (row_of_json j)) js" using Cons.prems by simp
  ultimately show ?case using Cons.IH [of us "putInternal E i (row_of_json j) T"] by (simp add: putInternal_fields)
qed simp

lemma clear_fields [simp]:
  "t_records (clear_table T) = []" "t_wal (clear_table T) = t_wal T @ [\<lparr>we_op = W_CLEAR, we_id = ''*'', we_payload = None\<rparr>]"
  by (simp_all add: clear_table_def empty_indices_def set_active_def Let_def)

definition base_ok :: "table_data \<Rightarrow> bool" where
  "base_ok data \<longleftrightarrow> js_wf data \<and> (\<forall>(n, js) \<in> set data. n \<noteq> [] \<and> (\<exists>m. rows_keyed m \<and> js = map row_json (js_values m)))"

lemma rows_keyed_json: "rows_keyed m \<Longrightarrow> list_all (\<lambda>j. \<exists>i. row_keyed i (row_of_json j)) (map row_json (js_values m))"
  by (auto simp: rows_keyed_def list_all_iff row_keyed_def row_json_plain)

end
