(* ===== verification/Db_Restart.thy ===== *)
theory Db_Restart
  imports Db_Recovery
begin

text \<open>
  Restarting a kernel: loading the base file, replaying the log, and the runs after which a restart finds the tables
  as they were.
\<close>

declare map_of_eq_Some_iff [simp del]
declare Some_eq_map_of_iff [simp del]

section \<open>Loading the base file\<close>

definition silent_frames :: "(string \<Rightarrow> string) \<Rightarrow> wal_frame list \<Rightarrow> bool" where
  "silent_frames H fs \<longleftrightarrow> list_all (sealed H) fs \<and> (\<forall>n m. fold (frame_effect n) fs m = m)"

lemma load_tables_effect:
  "tables_ok k \<Longrightarrow> base_ok data \<Longrightarrow> \<exists>fs.
     tables_ok (load_tables E H now us data k) \<and>
     (\<forall>n. table_rows (load_tables E H now us data k) n = (case js_get data n of None \<Rightarrow> table_rows k n | Some js \<Rightarrow> loaded_rows js)) \<and>
     k_base (load_tables E H now us data k) = k_base k \<and> k_history (load_tables E H now us data k) = k_history k \<and>
     written (k_wal (load_tables E H now us data k)) = written (k_wal k) @ map Some fs \<and> silent_frames H fs"
proof (induction data arbitrary: k us)
  case Nil
  show ?case by (rule exI [of _ "[]"]) (simp add: Nil silent_frames_def)
next
  case (Cons d data)
  obtain name js where d: "d = (name, js)" by (cases d)
  obtain m where name: "name \<noteq> []" and m: "rows_keyed m" "js = map row_json (js_values m)"
    and data: "base_ok data" "name \<notin> set (js_keys data)"
    using Cons.prems(2) by (auto simp: base_ok_def d)
  let ?g = "\<lambda>T. fst (load_rows E us js (clear_table T))"
  note rows = load_rows_fields [OF rows_keyed_json [OF m(1)], where E = E and us = us, folded m(2)]
  have g: "t_records (?g T) = loaded_rows js" "t_computed (?g T) = t_computed T"
    "t_wal (?g T) = t_wal T @ [\<lparr>we_op = W_CLEAR, we_id = ''*'', we_payload = None\<rparr>]" for T
    using rows [of "clear_table T"] by (simp_all add: loaded_rows_def)
  note T = table_of_ok [OF Cons.prems(1), of name]
  obtain fs where fs: "tables_ok (on_table H now name ?g k)"
    "\<And>n. table_rows (on_table H now name ?g k) n = (if n = name then t_records (?g (table_of k name)) else table_rows k n)"
    "k_base (on_table H now name ?g k) = k_base k" "k_history (on_table H now name ?g k) = k_history k"
    "written (k_wal (on_table H now name ?g k)) = written (k_wal k) @ map Some fs"
    "frames_for H name (t_wal (?g (table_of k name))) fs"
    by (rule on_table_effect [OF Cons.prems(1) name, where g = ?g and H = H and now = now]) (use T in \<open>simp_all add: g entry_keyed_def\<close>)
  let ?us = "snd (load_rows E us js (clear_table (snd (getTable name k))))"
  obtain gs where gs: "tables_ok (load_tables E H now ?us data (on_table H now name ?g k))"
    "\<forall>n. table_rows (load_tables E H now ?us data (on_table H now name ?g k)) n =
       (case js_get data n of None \<Rightarrow> table_rows (on_table H now name ?g k) n | Some js \<Rightarrow> loaded_rows js)"
    "k_base (load_tables E H now ?us data (on_table H now name ?g k)) = k_base k"
    "k_history (load_tables E H now ?us data (on_table H now name ?g k)) = k_history k"
    "written (k_wal (load_tables E H now ?us data (on_table H now name ?g k))) = written (k_wal (on_table H now name ?g k)) @ map Some gs"
    "silent_frames H gs"
    using Cons.IH [OF fs(1) data(1), of ?us] fs(3,4) by metis
  have quiet: "silent_frames H (fs @ gs)"
  proof -
    have "fold (frame_effect n) fs q = q" for n q
    proof (cases "n = name")
      case True
      then show ?thesis using fs(6) T by (simp add: frames_for_def g entry_effect_def)
    next
      case False
      then show ?thesis using fs(6) by (simp add: frames_for_def)
    qed
    then show ?thesis using fs(6) gs(6) by (simp add: silent_frames_def frames_for_def)
  qed
  have step: "load_tables E H now us (d # data) k = load_tables E H now ?us data (on_table H now name ?g k)"
    by (simp add: d case_prod_beta)
  have "table_rows (load_tables E H now us (d # data) k) n = (case js_get (d # data) n of None \<Rightarrow> table_rows k n | Some js \<Rightarrow> loaded_rows js)" for n
    using gs(2) fs(2) [of n] data(2) js_get_None_iff [of data name] unfolding step by (auto simp: d g split: option.split)
  then show ?case using gs fs(5) quiet unfolding step by (intro exI [of _ "fs @ gs"]) simp
qed

section \<open>Replaying the log\<close>

lemma replay_lines_log: "wl_file (snd (replay_lines H n e ls w)) = wl_file w \<and> wl_buffer (snd (replay_lines H n e ls w)) = wl_buffer w"
  by (induction H n e ls w rule: replay_lines.induct) (auto simp: note_frame_def case_prod_beta)

lemma replay_sealed:
  assumes "written w = map Some fs" and "list_all (sealed H) fs"
  shows "fst (replay H w) = Inr fs" and "written (snd (replay H w)) = written w"
proof -
  have disk: "wl_file (flush w) = written w" "wl_buffer (flush w) = []" by (simp_all add: flush_def written_def)
  show "fst (replay H w) = Inr fs" using replay_lines_sealed [OF assms(2)] by (simp add: replay_def Let_def disk assms(1))
  show "written (snd (replay H w)) = written w"
    using replay_lines_log [of H 0 genesis "wl_file (flush w)" "flush w"] by (simp add: replay_def Let_def disk written_def)
qed

lemma silently_effect:
  assumes "tables_ok k" and "name \<noteq> []" and "\<And>T. t_computed (g T) = t_computed T" and "\<And>T. t_wal (g T) = t_wal T"
  shows "tables_ok (silently name g k)" and "table_rows (silently name g k) n = (if n = name then t_records (g (table_of k name)) else table_rows k n)"
    and "k_wal (silently name g k) = k_wal k" and "k_base (silently name g k) = k_base k" and "k_history (silently name g k) = k_history k"
proof -
  have eq: "silently name g k = k\<lparr>k_tables := js_set (k_tables k) name (g (table_of k name))\<rparr>"
    using getTable_eq(2) [of name k] getTable_set [where name = name and k = k] by (simp add: silently_def case_prod_beta)
  show "tables_ok (silently name g k)"
    unfolding eq by (rule tables_ok_set [OF assms(1,2)]) (use assms(3,4) table_of_ok [OF assms(1), of name] in simp_all)
  show "table_rows (silently name g k) n = (if n = name then t_records (g (table_of k name)) else table_rows k n)"
    unfolding eq by (simp add: table_rows_def)
qed (simp_all add: silently_def getTable_def split: option.split)

lemma replay_frame_effect:
  assumes "tables_ok k"
  shows "tables_ok (replay_frame E f k) \<and> (\<forall>n. n \<noteq> [] \<longrightarrow> table_rows (replay_frame E f k) n = frame_effect n f (table_rows k n)) \<and>
    k_wal (replay_frame E f k) = k_wal k \<and> k_base (replay_frame E f k) = k_base k \<and> k_history (replay_frame E f k) = k_history k"
proof -
  have upd: "tables_ok (k\<lparr>k_frameIndex := x\<rparr>) = tables_ok k" "table_rows (k\<lparr>k_frameIndex := x\<rparr>) n = table_rows k n" for k x n
    by (simp_all add: tables_ok_def table_rows_def)
  show ?thesis
  proof (cases "fr_table f = []")
    case True
    then show ?thesis using assms by (auto simp: replay_frame_def frame_effect_def upd split: option.split)
  next
    case name: False
    have put: "tables_ok (silently (fr_table f) (putInternal E i r) k)"
      "table_rows (silently (fr_table f) (putInternal E i r) k) n =
         (if n = fr_table f then js_set (table_rows k (fr_table f)) i r else table_rows k n)"
      "k_wal (silently (fr_table f) (putInternal E i r) k) = k_wal k" "k_base (silently (fr_table f) (putInternal E i r) k) = k_base k"
      "k_history (silently (fr_table f) (putInternal E i r) k) = k_history k" for i r n
      using silently_effect [OF assms name, of "putInternal E i r"] by (simp_all add: putInternal_fields table_rows_of)
    have del: "tables_ok (silently (fr_table f) (\<lambda>T. fst (deleteInternal E i T)) k)"
      "table_rows (silently (fr_table f) (\<lambda>T. fst (deleteInternal E i T)) k) n =
         (if n = fr_table f then js_del (table_rows k (fr_table f)) i else table_rows k n)"
      "k_wal (silently (fr_table f) (\<lambda>T. fst (deleteInternal E i T)) k) = k_wal k"
      "k_base (silently (fr_table f) (\<lambda>T. fst (deleteInternal E i T)) k) = k_base k"
      "k_history (silently (fr_table f) (\<lambda>T. fst (deleteInternal E i T)) k) = k_history k" for i n
      using silently_effect [OF assms name, of "\<lambda>T. fst (deleteInternal E i T)"] by (simp_all add: deleteInternal_fields table_rows_of)
    show ?thesis
      by (simp add: replay_frame_def frame_effect_def upd put del assms name Let_def split: option.split)
  qed
qed

lemma replay_frames_effect:
  "tables_ok k \<Longrightarrow>
   tables_ok (fold (replay_frame E) fs k) \<and> (\<forall>n. n \<noteq> [] \<longrightarrow> table_rows (fold (replay_frame E) fs k) n = fold (frame_effect n) fs (table_rows k n)) \<and>
   k_wal (fold (replay_frame E) fs k) = k_wal k \<and> k_base (fold (replay_frame E) fs k) = k_base k \<and> k_history (fold (replay_frame E) fs k) = k_history k"
proof (induction fs arbitrary: k)
  case (Cons f fs)
  then show ?case using replay_frame_effect [OF Cons.prems, of E f] Cons.IH [of "replay_frame E f k"] by simp
qed simp

section \<open>Runs of a kernel\<close>

definition kernel_inv :: "(string \<Rightarrow> string) \<Rightarrow> kernel \<Rightarrow> bool" where
  "kernel_inv H k \<longleftrightarrow> tables_ok k \<and> (\<forall>n. rows_keyed (table_rows k n)) \<and> (case k_base k of None \<Rightarrow> True | Some data \<Rightarrow> base_ok data) \<and>
     (\<exists>fs. written (k_wal k) = map Some fs \<and> list_all (sealed H) fs \<and>
        (\<forall>n. n \<noteq> [] \<longrightarrow> table_rows k n = fold (frame_effect n) fs (base_rows k n)))"

lemma kernel_invI:
  "tables_ok k \<Longrightarrow> (\<And>n. rows_keyed (table_rows k n)) \<Longrightarrow> (\<And>data. k_base k = Some data \<Longrightarrow> base_ok data) \<Longrightarrow>
   written (k_wal k) = map Some fs \<Longrightarrow> list_all (sealed H) fs \<Longrightarrow>
   (\<And>n. n \<noteq> [] \<Longrightarrow> table_rows k n = fold (frame_effect n) fs (base_rows k n)) \<Longrightarrow> kernel_inv H k"
  unfolding kernel_inv_def by (auto split: option.split)

lemma no_nameless: "tables_ok k \<Longrightarrow> table_rows k [] = []"
  by (auto simp: tables_ok_def table_rows_def split: option.split dest!: map_of_SomeD)

inductive kernel_step :: "db_env \<Rightarrow> (string \<Rightarrow> string) \<Rightarrow> kernel \<Rightarrow> kernel \<Rightarrow> bool" for E H where
  table_op: "name \<noteq> [] \<Longrightarrow> durable_op E (table_of k name) op \<Longrightarrow> kernel_step E H k (on_table H now name (run_op E op) k)"
| flushed: "kernel_step E H k (flush_wal k)"
| checkpointed: "kernel_step E H k (checkpoint H now cid label digest k)"
| restarted: "restart E H now us k = Inr k' \<Longrightarrow> kernel_step E H k k'"

inductive_cases kernel_stepE: "kernel_step E H k k'"

definition kernel_init :: "kernel \<Rightarrow> bool" where
  "kernel_init k \<longleftrightarrow> k = boot [] None []"

lemma kernel_init_inv: "kernel_init k \<Longrightarrow> kernel_inv H k"
  by (auto simp: kernel_init_def boot_def tables_ok_def table_rows_def rows_keyed_def base_rows_def written_def new_wal_def
      intro!: kernel_invI [where fs = "[]"])

lemma op_kernel_inv:
  assumes "kernel_inv H k" and "name \<noteq> []" and "durable_op E (table_of k name) op"
  shows "kernel_inv H (on_table H now name (run_op E op) k)"
proof -
  from assms(1) obtain fs where k: "tables_ok k" "\<And>n. rows_keyed (table_rows k n)" "\<And>data. k_base k = Some data \<Longrightarrow> base_ok data"
    and fs: "written (k_wal k) = map Some fs" "list_all (sealed H) fs"
      "\<And>n. n \<noteq> [] \<Longrightarrow> table_rows k n = fold (frame_effect n) fs (base_rows k n)"
    unfolding kernel_inv_def by (auto split: option.splits)
  let ?T = "table_of k name"
  obtain es where es: "t_computed (run_op E op ?T) = []" "t_wal (run_op E op ?T) = es" "list_all entry_keyed es"
    "t_records (run_op E op ?T) = fold entry_effect es (table_rows k name)"
    using durable_op_logs [OF assms(3)] table_of_ok [OF k(1), of name] by (auto simp: logs_def table_rows_of)
  obtain gs where gs: "tables_ok (on_table H now name (run_op E op) k)"
    "\<And>n. table_rows (on_table H now name (run_op E op) k) n = (if n = name then t_records (run_op E op ?T) else table_rows k n)"
    "k_base (on_table H now name (run_op E op) k) = k_base k"
    "written (k_wal (on_table H now name (run_op E op) k)) = written (k_wal k) @ map Some gs" "frames_for H name es gs"
    by (rule on_table_effect [where k = k and name = name and g = "run_op E op" and H = H and now = now])
      (use k(1) assms(2) es in simp_all)
  show ?thesis
  proof (rule kernel_invI [where fs = "fs @ gs", OF gs(1)])
    show "rows_keyed (table_rows (on_table H now name (run_op E op) k) n)" for n
      using k(2) entries_effect_keyed [OF k(2) es(3), of name] by (simp add: gs(2) es(4))
    show "base_ok data" if "k_base (on_table H now name (run_op E op) k) = Some data" for data using that k(3) gs(3) by simp
    show "written (k_wal (on_table H now name (run_op E op) k)) = map Some (fs @ gs)" using fs(1) gs(4) by simp
    show "list_all (sealed H) (fs @ gs)" using fs(2) gs(5) by (simp add: frames_for_def)
    show "table_rows (on_table H now name (run_op E op) k) n = fold (frame_effect n) (fs @ gs) (base_rows (on_table H now name (run_op E op) k) n)"
      if "n \<noteq> []" for n
      using fs(3) [OF that] gs(5) by (auto simp: gs(2) es(4) frames_for_def base_rows_def gs(3))
  qed
qed

lemma flush_kernel_inv: "kernel_inv H k \<Longrightarrow> kernel_inv H (flush_wal k)"
  by (simp add: kernel_inv_def flush_wal_def tables_ok_def table_rows_def base_rows_def written_def flush_def)

lemma getAll_plain: "t_computed T = [] \<Longrightarrow> getAll T = js_values (t_records T)"
  by (simp add: getAll_def cloneRecordWithComputed_def)

lemma checkpoint_fields:
  "k_tables (checkpoint H now cid label digest k) = k_tables k"
  "k_base (checkpoint H now cid label digest k) = Some (map (\<lambda>(name, T). (name, map row_json (getAll T))) (k_tables k))"
  by (simp_all add: checkpoint_def flush_wal_def Let_def)

lemma checkpoint_kernel_inv:
  assumes "kernel_inv H k"
  shows "kernel_inv H (checkpoint H now cid label digest k)"
proof -
  from assms have k: "tables_ok k" "\<And>n. rows_keyed (table_rows k n)" by (auto simp: kernel_inv_def)
  let ?k = "checkpoint H now cid label digest k"
  have wf: "js_wf (k_tables k)" using k(1) by (simp add: tables_ok_def)
  have row: "rows_keyed (t_records T) \<and> getAll T = js_values (t_records T) \<and> n \<noteq> []" if "(n, T) \<in> set (k_tables k)" for n T
    using that k(1) k(2) [of n] js_get_Some_iff [OF wf, of n T] by (auto simp: tables_ok_def table_rows_def getAll_plain)
  obtain f where f: "written (k_wal ?k) = [Some f]" "sealed H f" "fr_op f = W_CHECKPOINT"
    using appendFrame_fields [of H now W_CHECKPOINT "''system''" cid "Some (JObj [(''label'', JStr label), (''snapshotHash'', JStr digest)])" False
        "truncate_wal (flush (k_wal k))"]
    by (auto simp: written_def checkpoint_def flush_wal_def truncate_wal_def flush_def Let_def sealed_def frame_content_def)
  show ?thesis
  proof (rule kernel_invI [where fs = "[f]"])
    show "tables_ok ?k" using k(1) by (simp add: tables_ok_def checkpoint_fields)
    show "rows_keyed (table_rows ?k n)" for n using k(2) [of n] by (simp add: table_rows_def checkpoint_fields)
    show "written (k_wal ?k) = map Some [f]" "list_all (sealed H) [f]" using f by simp_all
    show "base_ok data" if "k_base ?k = Some data" for data
    proof -
      have "data = map (\<lambda>(name, T). (name, map row_json (getAll T))) (k_tables k)" using that by (simp add: checkpoint_fields)
      then show ?thesis using wf row unfolding base_ok_def by (auto simp: comp_def case_prod_beta) (metis row)
    qed
    show "table_rows ?k n = fold (frame_effect n) [f] (base_rows ?k n)" if "n \<noteq> []" for n
    proof (cases "js_get (k_tables k) n")
      case None
      then show ?thesis using f(3)
        by (simp add: table_rows_def base_rows_def checkpoint_fields js_get_map_values frame_effect_def)
    next
      case (Some T)
      then show ?thesis using f(3) row [of n T] js_get_Some_iff [OF wf, of n T]
        by (simp add: table_rows_def base_rows_def checkpoint_fields js_get_map_values frame_effect_def loaded_rows_values del: map_map)
    qed
  qed
qed

text \<open>A restart finds the base file with the effects of the log, to which it has added frames without one.\<close>

lemma restart_reads:
  assumes k: "\<And>data. k_base k = Some data \<Longrightarrow> base_ok data"
    and fs: "written (k_wal k) = map Some fs" "list_all (sealed H) fs"
  obtains k' cs where "restart E H now us k = Inr k'" and "tables_ok k'" and "k_base k' = k_base k"
    and "written (k_wal k') = map Some (fs @ cs)" and "silent_frames H cs"
    and "\<And>n. n \<noteq> [] \<Longrightarrow> table_rows k' n = fold (frame_effect n) fs (base_rows k n)"
proof -
  let ?b = "boot (map Some fs) (k_base k) (k_history k)"
  have b: "tables_ok ?b" "\<And>n. table_rows ?b n = []" "k_base ?b = k_base k" "written (k_wal ?b) = map Some fs"
    by (simp_all add: boot_def tables_ok_def table_rows_def written_def new_wal_def)
  let ?k1 = "loadBaseCheckpoint E H now us ?b"
  obtain cs where k1: "tables_ok ?k1" "\<And>n. table_rows ?k1 n = base_rows k n" "k_base ?k1 = k_base k"
    "written (k_wal ?k1) = map Some (fs @ cs)" "silent_frames H cs"
  proof (cases "k_base k")
    case None
    have "?k1 = ?b" unfolding loadBaseCheckpoint_def b(3) unfolding None by simp
    then show thesis using that [of "[]"] b None by (simp add: base_rows_def silent_frames_def)
  next
    case (Some data)
    have eq: "?k1 = load_tables E H now us data ?b" unfolding loadBaseCheckpoint_def b(3) unfolding Some by simp
    have rows: "base_rows k n = (case js_get data n of None \<Rightarrow> table_rows ?b n | Some js \<Rightarrow> loaded_rows js)" for n
      unfolding b(2) base_rows_def unfolding Some by simp
    from load_tables_effect [OF b(1) k [OF Some], where E = E and H = H and now = now and us = us]
    obtain cs where "tables_ok ?k1" "\<forall>n. table_rows ?k1 n = base_rows k n" "k_base ?k1 = k_base ?b"
      "written (k_wal ?k1) = written (k_wal ?b) @ map Some cs" "silent_frames H cs"
      unfolding eq rows by blast
    then show thesis using that [of cs] b by simp
  qed
  have sealed: "list_all (sealed H) (fs @ cs)" using fs(2) k1(5) by (simp add: silent_frames_def)
  note rep = replay_sealed [OF k1(4) sealed]
  let ?w = "snd (replay H (k_wal ?k1))" and ?k' = "fold (replay_frame E) (fs @ cs) (?k1\<lparr>k_wal := snd (replay H (k_wal ?k1))\<rparr>)"
  have pre: "tables_ok (?k1\<lparr>k_wal := ?w\<rparr>)" "\<And>n. table_rows (?k1\<lparr>k_wal := ?w\<rparr>) n = base_rows k n"
    using k1(1,2) by (simp_all add: tables_ok_def table_rows_def)
  note eff = replay_frames_effect [OF pre(1), of E "fs @ cs"]
  have "restart E H now us k = Inr ?k'"
  proof -
    have "wl_file (k_wal (flush_wal k)) = map Some fs" using fs(1) by (simp add: flush_wal_def flush_def written_def)
    then show ?thesis using rep(1) by (simp add: restart_def start_def Let_def case_prod_beta flush_wal_def)
  qed
  then show thesis
  proof (rule that)
    show "tables_ok ?k'" "k_base ?k' = k_base k" using eff k1(3) by simp_all
    show "written (k_wal ?k') = map Some (fs @ cs)" using eff rep(2) k1(4) by simp
    show "silent_frames H cs" by (rule k1(5))
    show "table_rows ?k' n = fold (frame_effect n) fs (base_rows k n)" if "n \<noteq> []" for n
      using that eff pre(2) k1(5) by (simp add: silent_frames_def)
  qed
qed

lemma kernel_invD:
  assumes "kernel_inv H k"
  shows "tables_ok k" and "rows_keyed (table_rows k n)" and "k_base k = Some data \<Longrightarrow> base_ok data"
    and "\<exists>fs. written (k_wal k) = map Some fs \<and> list_all (sealed H) fs \<and>
      (\<forall>n. n \<noteq> [] \<longrightarrow> table_rows k n = fold (frame_effect n) fs (base_rows k n))"
  using assms by (auto simp: kernel_inv_def)

text \<open>A restart finds every table as it was, and its kernel keeps the invariant.\<close>

lemma restart_restores:
  assumes "kernel_inv H k"
  shows "\<exists>k'. restart E H now us k = Inr k' \<and> kernel_inv H k' \<and> (\<forall>n. table_rows k' n = table_rows k n)"
proof -
  note k = kernel_invD(1-3) [OF assms]
  obtain fs where fs: "written (k_wal k) = map Some fs" "list_all (sealed H) fs"
      "\<forall>n. n \<noteq> [] \<longrightarrow> table_rows k n = fold (frame_effect n) fs (base_rows k n)"
    using kernel_invD(4) [OF assms] by blast
  obtain k' cs where k': "restart E H now us k = Inr k'" "tables_ok k'" "k_base k' = k_base k"
    "written (k_wal k') = map Some (fs @ cs)" "silent_frames H cs"
    "\<And>n. n \<noteq> [] \<Longrightarrow> table_rows k' n = fold (frame_effect n) fs (base_rows k n)"
    by (rule restart_reads [where k = k and fs = fs and E = E and H = H and now = now and us = us]) (use k(3) fs(1,2) in simp_all)
  have rows: "table_rows k' n = table_rows k n" for n
    using no_nameless k(1) k'(2) k'(6) [of n] fs(3) by (cases "n = []") simp_all
  have "kernel_inv H k'"
  proof (rule kernel_invI [where fs = "fs @ cs", OF k'(2)])
    show "rows_keyed (table_rows k' n)" for n using k(2) by (simp only: rows)
    show "base_ok data" if "k_base k' = Some data" for data using that k'(3) k(3) by simp
    show "written (k_wal k') = map Some (fs @ cs)" by (rule k'(4))
    show "list_all (sealed H) (fs @ cs)" using fs(2) k'(5) by (simp add: silent_frames_def)
    show "table_rows k' n = fold (frame_effect n) (fs @ cs) (base_rows k' n)" if "n \<noteq> []" for n
      using k'(6) [OF that] k'(5) by (simp add: silent_frames_def base_rows_def k'(3))
  qed
  then show ?thesis using k'(1) rows by blast
qed

interpretation kernel_run: transition_system kernel_init "kernel_step E H" "kernel_inv H"
proof
  fix k k'
  assume "kernel_inv H k" and "kernel_step E H k k'"
  from this(2,1) show "kernel_inv H k'"
  proof (cases rule: kernel_step.cases)
    case (restarted now us)
    then show ?thesis using restart_restores [OF \<open>kernel_inv H k\<close>, of E now us] by auto
  qed (auto intro: op_kernel_inv flush_kernel_inv checkpoint_kernel_inv)
qed (rule kernel_init_inv)

section \<open>Changes the log does not tell\<close>

text \<open>A kernel whose tables changed but whose log only grew by frames without effect restarts with the rows from before.\<close>

lemma silent_change_lost:
  assumes "kernel_inv H k" and "k_base k2 = k_base k" and "written (k_wal k2) = written (k_wal k) @ map Some cs" and "silent_frames H cs"
  shows "\<exists>k'. restart E H now us k2 = Inr k' \<and> (\<forall>n. table_rows k' n = table_rows k n)"
proof -
  note k = kernel_invD(1,3) [OF assms(1)]
  obtain fs where fs: "written (k_wal k) = map Some fs" "list_all (sealed H) fs"
      "\<forall>n. n \<noteq> [] \<longrightarrow> table_rows k n = fold (frame_effect n) fs (base_rows k n)"
    using kernel_invD(4) [OF assms(1)] by blast
  obtain k' ds where k': "restart E H now us k2 = Inr k'" "tables_ok k'"
    "\<And>n. n \<noteq> [] \<Longrightarrow> table_rows k' n = fold (frame_effect n) (fs @ cs) (base_rows k2 n)"
    by (rule restart_reads [where k = k2 and fs = "fs @ cs" and E = E and H = H and now = now and us = us])
      (use k(2) fs(1,2) assms(2-4) in \<open>simp_all add: silent_frames_def\<close>)
  have "table_rows k' n = table_rows k n" for n
    using no_nameless k(1) k'(2) k'(3) [of n] fs(3) assms(2,4) by (cases "n = []") (simp_all add: silent_frames_def base_rows_def)
  then show ?thesis using k'(1) by blast
qed

lemma silent_append: "silent_frames H fs \<Longrightarrow> silent_frames H gs \<Longrightarrow> silent_frames H (fs @ gs)"
  by (simp add: silent_frames_def)

text \<open>An operation that logs only a clearing.\<close>

lemma clearing_is_silent:
  assumes "tables_ok k" and "name \<noteq> []" and "t_computed (g (table_of k name)) = []"
    and "t_wal (g (table_of k name)) = [\<lparr>we_op = W_CLEAR, we_id = ''*'', we_payload = None\<rparr>]"
  obtains cs where "tables_ok (on_table H now name g k)" and "k_base (on_table H now name g k) = k_base k"
    and "written (k_wal (on_table H now name g k)) = written (k_wal k) @ map Some cs" and "silent_frames H cs"
    and "\<And>n. table_rows (on_table H now name g k) n = (if n = name then t_records (g (table_of k name)) else table_rows k n)"
proof -
  obtain cs where cs: "tables_ok (on_table H now name g k)" "k_base (on_table H now name g k) = k_base k"
    "written (k_wal (on_table H now name g k)) = written (k_wal k) @ map Some cs" "frames_for H name (t_wal (g (table_of k name))) cs"
    "\<And>n. table_rows (on_table H now name g k) n = (if n = name then t_records (g (table_of k name)) else table_rows k n)"
    by (rule on_table_effect [where k = k and name = name and g = g and H = H and now = now]) (use assms in \<open>simp_all add: entry_keyed_def\<close>)
  have "fold (frame_effect n) cs m = m" for n m
    using cs(4) by (cases "n = name") (simp_all add: frames_for_def assms(4) entry_effect_def)
  then have "silent_frames H cs" using cs(4) by (simp add: silent_frames_def frames_for_def)
  then show thesis by (rule that [OF cs(1,2,3) _ cs(5)])
qed

lemma put_all_records: "js_wf (t_records T @ m) \<Longrightarrow> t_records (put_all E m T) = t_records T @ m"
proof (induction m arbitrary: T)
  case (Cons p m)
  obtain i r where p: "p = (i, r)" by (cases p)
  have "js_set (t_records T) i r = t_records T @ [(i, r)]" by (rule js_set_append) (use Cons.prems in \<open>auto simp: p\<close>)
  then have "t_records (putInternal E i r T) = t_records T @ [(i, r)]" by (simp add: putInternal_fields)
  then show ?case using Cons.IH [of "putInternal E i r T"] Cons.prems by (simp add: put_all_def p)
qed (simp add: put_all_def)

lemma restoreSnapshot_fields:
  "t_computed (restoreSnapshot E snap T) = t_computed T"
  "t_wal (restoreSnapshot E snap T) = t_wal T @ [\<lparr>we_op = W_CLEAR, we_id = ''*'', we_payload = None\<rparr>]"
  "js_wf snap \<Longrightarrow> t_records (restoreSnapshot E snap T) = snap"
  using put_all_records [of "clear_table T" snap E] by (simp_all add: restoreSnapshot_def put_all_fields)

lemma restore_tables_silent:
  "tables_ok k \<Longrightarrow> \<exists>cs. tables_ok (restore_tables E H now snap k) \<and> k_base (restore_tables E H now snap k) = k_base k \<and>
     written (k_wal (restore_tables E H now snap k)) = written (k_wal k) @ map Some cs \<and> silent_frames H cs"
proof (induction snap arbitrary: k)
  case Nil
  then show ?case by (intro exI [of _ "[]"]) (simp add: restore_tables_def silent_frames_def)
next
  case (Cons p snap)
  obtain name m where p: "p = (name, m)" by (cases p)
  show ?case
  proof (cases "js_has (k_tables k) name")
    case False
    then show ?thesis using Cons by (simp add: restore_tables_def p)
  next
    case True
    then have "name \<noteq> []" using Cons.prems by (auto simp: tables_ok_def)
    note T = table_of_ok [OF Cons.prems, of name]
    let ?k = "on_table H now name (restoreSnapshot E m) k"
    obtain cs where cs: "tables_ok ?k" "k_base ?k = k_base k" "written (k_wal ?k) = written (k_wal k) @ map Some cs" "silent_frames H cs"
      by (rule clearing_is_silent [where k = k and name = name and g = "restoreSnapshot E m" and H = H and now = now])
        (use Cons.prems \<open>name \<noteq> []\<close> T in \<open>simp_all add: restoreSnapshot_fields\<close>)
    obtain ds where ds: "tables_ok (restore_tables E H now snap ?k)" "k_base (restore_tables E H now snap ?k) = k_base ?k"
      "written (k_wal (restore_tables E H now snap ?k)) = written (k_wal ?k) @ map Some ds" "silent_frames H ds"
      using Cons.IH [OF cs(1)] by blast
    have step: "restore_tables E H now (p # snap) k = restore_tables E H now snap ?k" using True by (simp add: restore_tables_def p)
    show ?thesis unfolding step using ds cs silent_append [OF cs(4) ds(4)] by (intro exI [of _ "cs @ ds"]) simp
  qed
qed

lemma rollback_silent:
  assumes "kernel_inv H k" and "js_get (k_memory k) cid = Some snap"
  shows "\<exists>cs. k_base (fst (rollback E H now us cid k)) = k_base k \<and>
    written (k_wal (fst (rollback E H now us cid k))) = written (k_wal k) @ map Some cs \<and> silent_frames H cs"
proof -
  have "tables_ok k" using assms(1) by (simp add: kernel_inv_def)
  then obtain cs where cs: "k_base (restore_tables E H now snap k) = k_base k"
    "written (k_wal (restore_tables E H now snap k)) = written (k_wal k) @ map Some cs" "silent_frames H cs"
    using restore_tables_silent by blast
  let ?w = "k_wal (restore_tables E H now snap k)"
  obtain f where f: "written (appendFrame H now W_ROLLBACK ''system'' cid (Some (JObj [(''source'', JStr ''memory_cache'')])) True ?w) = written ?w @ [Some f]"
    "sealed H f" "fr_op f = W_ROLLBACK"
    using appendFrame_fields [of H now W_ROLLBACK "''system''" cid "Some (JObj [(''source'', JStr ''memory_cache'')])" True ?w]
    by (auto simp: written_def sealed_def frame_content_def)
  then have "silent_frames H (cs @ [f])" using cs(3) by (simp add: silent_frames_def frame_effect_def)
  then show ?thesis using cs f(1) by (intro exI [of _ "cs @ [f]"]) (simp add: rollback_def assms(2) log_rollback_def)
qed

section \<open>Reading tables\<close>

lemma hook_frames_rest:
  "k_tables (fold (hook_frame H now name) es k) = k_tables k \<and> k_memory (fold (hook_frame H now name) es k) = k_memory k"
  by (induction es arbitrary: k) (simp_all add: hook_frame_def)

lemma on_table_reads:
  "table_of (on_table H now name g k) n = (if n = name then (g ((table_of k name)\<lparr>t_wal := []\<rparr>))\<lparr>t_wal := []\<rparr> else table_of k n)"
  "k_memory (on_table H now name g k) = k_memory k"
proof -
  have "on_table H now name g k = fold (hook_frame H now name) (t_wal (g ((table_of k name)\<lparr>t_wal := []\<rparr>)))
      (k\<lparr>k_tables := js_set (k_tables k) name ((g ((table_of k name)\<lparr>t_wal := []\<rparr>))\<lparr>t_wal := []\<rparr>)\<rparr>)"
    using getTable_eq(2) [of name k] getTable_set [where name = name and k = k] by (simp add: on_table_def case_prod_beta Let_def)
  then show "table_of (on_table H now name g k) n = (if n = name then (g ((table_of k name)\<lparr>t_wal := []\<rparr>))\<lparr>t_wal := []\<rparr> else table_of k n)"
    "k_memory (on_table H now name g k) = k_memory k" by (simp_all add: table_of_def hook_frames_rest)
qed

lemma checkpoint_reads:
  "table_of (checkpoint H now cid label digest k) n = table_of k n"
  "k_memory (checkpoint H now cid label digest k) = js_set (k_memory k) cid (map (\<lambda>(name, T). (name, createSnapshot T)) (k_tables k))"
  by (simp_all add: table_of_def checkpoint_def flush_wal_def Let_def)

end
