(* ===== verification/Db_Properties.thy ===== *)
theory Db_Properties
  imports Db_Planning Db_Restart
begin

text \<open>
  What the tables and the kernel of BroccoliDB guarantee, and where they do not.
\<close>

declare map_of_eq_Some_iff [simp del]
declare Some_eq_map_of_iff [simp del]

section \<open>Instances for the witnesses\<close>

definition plain_env :: db_env where
  "plain_env = \<lparr>env_toNumber = (\<lambda>_. None), env_parseDate = (\<lambda>_. None), env_regexp = (\<lambda>_ _. False)\<rparr>"

definition price_contract :: contract where
  "price_contract = \<lparr>cc_kind = (\<lambda>f. if f = ''price'' then Some True else None), cc_trimmed = (\<lambda>_. False)\<rparr>"

definition priced :: "int \<Rightarrow> row" where
  "priced n = [(''price'', Prim (Num n))]"

definition priced_table :: db_table where
  "priced_table =
     run_op plain_env (O_put ''b'' (priced 1) None)
       (run_op plain_env (O_put ''a'' (priced 5) None)
         (run_op plain_env (O_sorted ''price'') (new_table\<lparr>t_computed := []\<rparr>)))"

definition from_two :: query_options where
  "from_two =
     \<lparr>qo_where = Some [(''price'', W_filter (no_filter\<lparr>ff_gte := Prim (Num 2)\<rparr>))], qo_and = [], qo_or = [], qo_not = None,
      qo_limit = None, qo_offset = None, qo_sortBy = None, qo_desc = []\<rparr>"


definition no_hash :: "string \<Rightarrow> string" where
  "no_hash s = ''h''"




lemma fits_priced: "fits price_contract [] (priced n)"
  by (auto simp: fits_def price_contract_def priced_def resolveFieldValue_def normalizeSortableValue_def kind_def split: if_splits)

lemma priced_table_reach: "reach table_init (table_step plain_env price_contract) priced_table"
proof -
  let ?T0 = "new_table\<lparr>t_computed := []\<rparr>"
  let ?T1 = "run_op plain_env (O_sorted ''price'') ?T0"
  let ?T2 = "run_op plain_env (O_put ''a'' (priced 5) None) ?T1"
  have plain: "t_computed ?T1 = []" "valid_row plain_env ?T1 (priced 5) = priced 5"
    "t_computed ?T2 = []" "valid_row plain_env ?T2 (priced 1) = priced 1" by code_simp+
  have "reach table_init (table_step plain_env price_contract) ?T0" by (rule reach_init) (auto simp: table_init_def)
  then have "reach table_init (table_step plain_env price_contract) ?T1"
    by (rule reach_step) (rule table_step.intros, simp add: op_fits_def price_contract_def)
  then have "reach table_init (table_step plain_env price_contract) ?T2"
    by (rule reach_step) (rule table_step.intros, simp add: op_fits_def plain fits_priced)
  then show ?thesis unfolding priced_table_def
    by (rule reach_step) (rule table_step.intros, simp add: op_fits_def plain fits_priced)
qed








section \<open>Queries\<close>

text \<open>
  C14. In every table reached by operations within its column contract, a query without offset and limit returns, as a
  multiset, what testing every row returns, whichever index the planner picks. The contract \<open>K\<close> fixes the columns that may
  have a sorted index, all of whose values are of one kind (all numbers or all text) in every row that is put, and the
  columns whose text has no blanks around it; the computed columns are fixed when the table is made. The condition must not
  ask for undefined on a column with an equality index, must bound a column with a sorted index by values of the column's
  kind, and may put a filter on a column with a prefix index only if its text has no blanks around it (\<open>safe_where\<close>).
  Outside of these conditions index and scan do differ, as the findings on \<^verbatim>\<open>indexPrefixes\<close>, \<^verbatim>\<open>planQuery\<close> and
  \<^verbatim>\<open>insertSortedIndexEntry\<close> record.
\<close>

theorem query_is_scan:
  assumes "reach table_init (table_step E K) T" and "case qo_where q of None \<Rightarrow> True | Some w \<Rightarrow> safe_where K T w"
    and "qo_offset q = None" and "qo_limit q = None"
  shows "mset (query E q T) =
    mset (map (cloneRecordWithComputed (t_computed T)) (filter (query_matches E (t_computed T) q) (js_values (t_records T))))"
proof -
  let ?C = "t_computed T"
  have "mset (filter (query_matches E ?C q) (qp_candidates (planQuery E q T))) = mset (filter (query_matches E ?C q) (js_values (t_records T)))"
    by (rule plan_finds_matches [OF table_run.reach_inv [OF assms(1)]]) (use assms(2) in simp)
  moreover have "mset (query E q T) = image_mset (cloneRecordWithComputed ?C) (mset (filter (query_matches E ?C q) (qp_candidates (planQuery E q T))))"
    by (simp add: query_def Let_def filter_clauses_eq assms(3,4) slice_all split: option.split)
  ultimately show ?thesis by simp
qed

lemma query_is_scan_witness: "mset (query plain_env from_two priced_table) = {#priced 5#}"
proof -
  have safe: "case qo_where from_two of None \<Rightarrow> True | Some w \<Rightarrow> safe_where price_contract priced_table w"
    and cut: "qo_offset from_two = None" "qo_limit from_two = None" by code_simp+
  have scan: "map (cloneRecordWithComputed (t_computed priced_table))
      (filter (query_matches plain_env (t_computed priced_table) from_two) (js_values (t_records priced_table))) = [priced 5]" by code_simp
  show ?thesis using query_is_scan [OF priced_table_reach safe cut] unfolding scan by simp
qed

section \<open>Undo and redo\<close>

lemma undo_last_action:
  "t_records T = m \<Longrightarrow> be_undo (t_branching T) = st @ [a] \<Longrightarrow>
   snd (undo E T) \<and> map_of (t_records (fst (undo E T))) =
     (case (as_op a, as_before a) of
        (A_PUT, Some r) \<Rightarrow> (map_of m)(as_id a \<mapsto> r)
      | (A_PUT, None) \<Rightarrow> (map_of m)(as_id a := None)
      | (A_DELETE, Some r) \<Rightarrow> (map_of m)(as_id a \<mapsto> r)
      | _ \<Rightarrow> map_of m) \<and>
   t_branching (fst (undo E T)) = (t_branching T)\<lparr>be_undo := st, be_redo := be_redo (t_branching T) @ [a]\<rparr>"
  by (auto simp: undo_def undo_action_def Let_def putInternal_fields deleteInternal_fields map_of_js_set map_of_js_del
      split: action_op.split option.split)

lemma redo_last_action:
  "t_records T = m \<Longrightarrow> be_redo (t_branching T) = st @ [a] \<Longrightarrow>
   snd (redo E T) \<and> map_of (t_records (fst (redo E T))) =
     (case (as_op a, as_after a) of
        (A_PUT, Some r) \<Rightarrow> (map_of m)(as_id a \<mapsto> r)
      | (A_DELETE, _) \<Rightarrow> (map_of m)(as_id a := None)
      | _ \<Rightarrow> map_of m) \<and>
   t_branching (fst (redo E T)) = (t_branching T)\<lparr>be_redo := st, be_undo := be_undo (t_branching T) @ [a]\<rparr>"
  by (auto simp: redo_def redo_action_def Let_def putInternal_fields deleteInternal_fields map_of_js_set map_of_js_del
      split: action_op.split option.split)

lemma recorded_last: "\<exists>st. be_undo (t_branching (recordAction op i b a T)) = st @ [\<lparr>as_op = op, as_id = i, as_before = b, as_after = a\<rparr>]"
  by (cases "be_undo (t_branching T)") (auto simp: recordAction_def Let_def maxStackDepth_def)

lemma branching_effects [simp]:
  "t_branching (walHook op i p T) = t_branching T" "t_branching (emitChangeEvent c i b a T) = t_branching T"
  "t_branching (set_ttl i ttl T) = t_branching T" "t_branching (clear_ttl i T) = t_branching T"
  by (simp_all add: walHook_def emitChangeEvent_def set_ttl_def clear_ttl_def Let_def split: option.split)

lemma put_records: "t_records (fst (put E i r ttl T)) = js_set (t_records T) i (valid_row E T r)"
  by (simp add: put_def Let_def putInternal_fields)

lemma put_recorded:
  "\<exists>st. be_undo (t_branching (fst (put E i r ttl T))) =
     st @ [\<lparr>as_op = A_PUT, as_id = i, as_before = js_get (t_records T) i, as_after = Some (valid_row E T r)\<rparr>]"
  using recorded_last by (simp add: put_def Let_def)

text \<open>
  After a put, whatever the table, undo brings every row back to what it was and redo brings back the row that was
  put. The records of the branch follow neither.
\<close>

theorem undo_redo_put:
  fixes E i r ttl T
  defines "T1 \<equiv> fst (put E i r ttl T)"
  defines "T2 \<equiv> fst (undo E T1)"
  shows "snd (undo E T1) \<and> map_of (t_records T2) = map_of (t_records T) \<and>
    snd (redo E T2) \<and> map_of (t_records (fst (redo E T2))) = map_of (t_records T1) \<and>
    getActiveRecords (t_branching T2) = getActiveRecords (t_branching T1) \<and>
    getActiveRecords (t_branching (fst (redo E T2))) = getActiveRecords (t_branching T1)"
proof -
  let ?a = "\<lparr>as_op = A_PUT, as_id = i, as_before = js_get (t_records T) i, as_after = Some (valid_row E T r)\<rparr>"
  obtain st where st: "be_undo (t_branching T1) = st @ [?a]" unfolding T1_def using put_recorded by blast
  note u = undo_last_action [OF refl st, of E, folded T2_def]
  have rows: "map_of (t_records T1) = (map_of (t_records T))(i \<mapsto> valid_row E T r)" by (simp add: T1_def put_records map_of_js_set)
  have undone: "map_of (t_records T2) = map_of (t_records T)" using u rows by (auto split: option.splits)
  have "be_redo (t_branching T2) = be_redo (t_branching T1) @ [?a]" using u by simp
  note d = redo_last_action [OF refl this, of E]
  show ?thesis using u d undone rows by (simp add: getActiveRecords_def)
qed

section \<open>Failed transactions\<close>

lemma stages_branching: "t_branching (fold (stage E) ms T) = t_branching T"
  by (induction ms arbitrary: T) (auto simp: stage_def putInternal_fields deleteInternal_fields split: staged.split)

lemma js_has_set: "js_has (js_set m k v) k"
  by (induction m) auto

lemma clear_branching:
  "getActiveRecords (t_branching (clear_table T)) = []" "be_current (t_branching (clear_table T)) = be_current (t_branching T)"
  "js_has (be_branches (t_branching (clear_table T))) (be_current (t_branching T))"
  by (simp_all add: clear_table_def empty_indices_def set_active_def getActiveRecords_def Let_def js_has_set)

text \<open>
  A transaction that throws leaves the rows of a reachable table as they were, and the records of its active branch
  empty: checking that branch out again empties the table.
\<close>

theorem failed_transaction_empties_branch:
  assumes "reach table_init (table_step E K) T" and "clean_name n = be_current (t_branching T)"
  shows "t_records (transaction E ms True T) = t_records T \<and>
    getActiveRecords (t_branching (transaction E ms True T)) = [] \<and>
    snd (checkoutBranch E n (transaction E ms True T)) \<and> t_records (fst (checkoutBranch E n (transaction E ms True T))) = []"
proof -
  let ?T = "fold (stage E) ms T"
  have wf: "js_wf (t_records T)" by (rule index_invD(1) [OF table_invD(1) [OF table_run.reach_inv [OF assms(1)]]])
  have T: "transaction E ms True T = restoreSnapshot E (t_records T) ?T" by (simp add: transaction_def createSnapshot_def Let_def)
  have br: "t_branching (restoreSnapshot E (t_records T) ?T) = t_branching (clear_table ?T)" by (simp add: restoreSnapshot_def put_all_fields)
  have has: "js_has (be_branches (t_branching (clear_table ?T))) (clean_name n)"
    using clear_branching(3) [of ?T] assms(2) by (simp add: stages_branching)
  have active: "getActiveRecords (t_branching (restoreSnapshot E (t_records T) ?T)) = []" unfolding br by (rule clear_branching(1))
  then have "js_get (be_branches (t_branching (clear_table ?T))) (clean_name n) = None \<or>
      js_get (be_branches (t_branching (clear_table ?T))) (clean_name n) = Some []"
    using clear_branching(2) [of ?T] assms(2) by (auto simp: br getActiveRecords_def stages_branching split: option.splits)
  then have "t_records (fst (checkoutBranch E n (restoreSnapshot E (t_records T) ?T))) = [] \<and>
      snd (checkoutBranch E n (restoreSnapshot E (t_records T) ?T))"
    using has by (auto simp: checkoutBranch_def checkout_def br Let_def sync_records_def getActiveRecords_def put_all_def)
  then show ?thesis unfolding T using active restoreSnapshot_fields(3) [OF wf] by simp
qed

lemma failed_transaction_empties_branch_witness:
  "t_records (fst (checkoutBranch plain_env ''main'' (transaction plain_env [S_DELETE ''a''] True priced_table))) = [] \<and>
   t_records (transaction plain_env [S_DELETE ''a''] True priced_table) = [(''a'', priced 5), (''b'', priced 1)]"
proof -
  have main: "clean_name ''main'' = be_current (t_branching priced_table)" by code_simp
  have rows: "t_records priced_table = [(''a'', priced 5), (''b'', priced 1)]" by code_simp
  show ?thesis using failed_transaction_empties_branch [OF priced_table_reach main, of "[S_DELETE ''a'']"] rows by simp
qed

section \<open>Expiry\<close>

text \<open>A put without an expiry does not disarm the timer of the put before it: the row it writes is deleted.\<close>

lemma armed_effects:
  "t_armed (walHook op j p U) = t_armed U" "t_armed (emitChangeEvent c j b a U) = t_armed U"
  "t_armed (recordAction act j b a U) = t_armed U" "t_armed (set_active g U) = t_armed U"
  "t_timers (recordAction act j b a U) = t_timers U" "t_timers (set_active g U) = t_timers U"
  by (simp_all add: walHook_def emitChangeEvent_def recordAction_def set_active_def Let_def)

lemma set_ttl_armed: "0 < ms \<Longrightarrow> js_get (t_armed (set_ttl i (Some ms) U)) (t_timers U) = Some i"
  by (simp add: set_ttl_def Let_def)

lemma stale_timer_deletes_row:
  assumes "0 < ms"
  shows "js_get (t_records (expire E (t_timers T) (fst (put E i r2 None (fst (put E i r1 (Some ms) T)))))) i = None"
proof -
  let ?T1 = "fst (put E i r1 (Some ms) T)" and ?T2 = "fst (put E i r2 None (fst (put E i r1 (Some ms) T)))"
  let ?U = "recordAction A_PUT i (js_get (t_records T) i) (Some (valid_row E T r1))
      (set_active (\<lambda>m. js_set m i (valid_row E T r1)) (putInternal E i (valid_row E T r1) T))"
  have "t_armed ?T1 = t_armed (set_ttl i (Some ms) ?U)" by (simp add: put_def Let_def armed_effects)
  moreover have "t_timers ?U = t_timers T" by (simp add: armed_effects putInternal_fields)
  moreover have "t_armed ?T2 = t_armed ?T1"
  proof -
    have "t_armed (fst (put E i r2 None U)) = t_armed U" for U
      by (simp add: put_def Let_def armed_effects set_ttl_def putInternal_fields)
    then show ?thesis .
  qed
  ultimately have "js_get (t_armed ?T2) (t_timers T) = Some i" using set_ttl_armed [OF assms, of i ?U] by simp
  then show ?thesis by (simp add: expire_def Let_def deleteInternal_fields split: option.split)
qed

section \<open>Recovery\<close>

text \<open>
  A row stored without its key in \<^verbatim>\<open>id\<close>, as \<^verbatim>\<open>BroccoliSubstrateStore.putEntity\<close> stores them, changes its key: a
  checkpoint writes the rows of the table to the base file without their keys, and the next start draws a new key for it.
\<close>

definition keyless_table :: db_table where
  "keyless_table = run_op plain_env (O_put ''a'' (priced 1) None) new_table"

lemma keyless_row_renamed:
  "t_records keyless_table = [(''a'', priced 1)]"
  "t_records (fst (load_rows plain_env [''u''] (map row_json (getAll keyless_table)) (clear_table new_table))) = [(''u'', priced 1)]"
  by code_simp+





section \<open>The log\<close>

text \<open>
  Replay accepts a file of frames that name a predecessor exactly when every frame carries the checksum of its own
  content. That the predecessor a frame names is the frame before it is not compared: a file with frames left out,
  repeated or in another order is accepted.
\<close>

theorem replay_checks_frames_alone:
  assumes "list_all (\<lambda>f. fr_prev f \<noteq> None) fs"
  shows "fst (replay H (new_wal (map Some fs))) = Inr fs \<longleftrightarrow> list_all (sealed H) fs"
proof
  assume "list_all (sealed H) fs"
  then show "fst (replay H (new_wal (map Some fs))) = Inr fs" by (intro replay_sealed(1)) (simp_all add: written_def new_wal_def)
next
  assume "fst (replay H (new_wal (map Some fs))) = Inr fs"
  then have "fst (replay_lines H 0 genesis (map Some fs) (flush (new_wal (map Some fs)))) = Inr fs"
    by (simp add: replay_def Let_def flush_def new_wal_def)
  from replay_lines_verified [OF this assms] show "list_all (sealed H) fs" by blast
qed

lemma replay_checks_frames_alone_witness:
  fixes f :: wal_frame
  defines "f \<equiv> \<lparr>fr_id = 2, fr_time = 0, fr_op = W_DELETE, fr_table = ''t'', fr_record = ''a'', fr_payload = None, fr_checksum = ''h'',
    fr_prev = Some ''h''\<rparr>"
  shows "fst (replay no_hash (new_wal [Some f, Some f])) = Inr [f, f]"
  using replay_checks_frames_alone [of "[f, f]" no_hash] by (simp add: f_def sealed_def no_hash_def)

end
