(* ===== verification/Db_Mutex.thy ===== *)
theory Db_Mutex
  imports Prelude
begin

text \<open>
  \<^verbatim>\<open>ReentrantAsyncMutex\<close> of \<^verbatim>\<open>broccolidb-mutex.ts\<close>, the lock around the transactions and checkpoints of the kernel and the
  one around the writes of the log, and the tasks that call \<^verbatim>\<open>runLocked\<close> on any of them.

  A task carries the value of the asynchronous local storage its callback runs under; the storage is one for all mutexes. Function objects are compared by
  identity: the functions the promise of a waiter makes are numbered, \<open>2 n\<close> for the one the timer remembers and
  \<open>2 n + 1\<close> for the one that wraps it in the queue.
\<close>

section \<open>The mutex\<close>

record mutex_waiter =
  mw_resolve :: nat
  mw_holder :: string

record mutex =
  mx_locked :: bool
  mx_currentHolder :: "string option"
  mx_holdCount :: nat
  mx_queue :: "mutex_waiter list"
  mx_functions :: nat

definition new_mutex :: mutex where
  "new_mutex = \<lparr>mx_locked = False, mx_currentHolder = None, mx_holdCount = 0, mx_queue = [], mx_functions = 0\<rparr>"

text \<open>The result is the function a waiter in the queue is resolved by, \<open>None\<close> when the lock is taken at once.\<close>

definition mx_acquire :: "string \<Rightarrow> mutex \<Rightarrow> mutex \<times> nat option" where
  "mx_acquire caller m =
     (if mx_locked m \<and> mx_currentHolder m = Some caller then (m\<lparr>mx_holdCount := Suc (mx_holdCount m)\<rparr>, None)
      else if \<not> mx_locked m then (m\<lparr>mx_locked := True, mx_currentHolder := Some caller, mx_holdCount := 1\<rparr>, None)
      else (let n = mx_functions m; wrapped = 2 * n + 1 in
        (m\<lparr>mx_functions := Suc n, mx_queue := mx_queue m @ [\<lparr>mw_resolve = wrapped, mw_holder = caller\<rparr>]\<rparr>, Some wrapped)))"

definition mx_release :: "string \<Rightarrow> mutex \<Rightarrow> mutex" where
  "mx_release caller m =
     (if mx_currentHolder m \<noteq> Some caller then m
      else if 0 < mx_holdCount m - 1 then m\<lparr>mx_holdCount := mx_holdCount m - 1\<rparr>
      else (case mx_queue m of
              w # ws \<Rightarrow> m\<lparr>mx_queue := ws, mx_currentHolder := Some (mw_holder w), mx_holdCount := 1\<rparr>
            | [] \<Rightarrow> m\<lparr>mx_locked := False, mx_currentHolder := None, mx_holdCount := 0\<rparr>))"

text \<open>The timer of the waiter whose promise made the functions \<open>2 n\<close> and \<open>2 n + 1\<close>; true when it rejects.\<close>

definition timed_out :: "nat \<Rightarrow> mutex \<Rightarrow> mutex \<times> bool" where
  "timed_out n m =
     (if 2 * n \<in> mw_resolve ` set (mx_queue m)
      then (m\<lparr>mx_queue := takeWhile (\<lambda>w. mw_resolve w \<noteq> 2 * n) (mx_queue m) @ tl (dropWhile (\<lambda>w. mw_resolve w \<noteq> 2 * n) (mx_queue m))\<rparr>, True)
      else (m, False))"

section \<open>Tasks\<close>

text \<open>
  A call of \<^verbatim>\<open>runLocked\<close>: the mutex, the identity its lock was asked for under, the storage its callback runs under, and the
  function its waiter is resolved by. The calls of a task are nested, the innermost first.
\<close>

record frame =
  fm_lock :: string
  fm_caller :: string
  fm_store :: string
  fm_waiting :: "nat option"

record system =
  sy_mutex :: "string \<Rightarrow> mutex"
  sy_tasks :: "nat \<Rightarrow> frame list"
  sy_drawn :: "string list"

definition waiting :: "system \<Rightarrow> frame \<Rightarrow> bool" where
  "waiting s f = (case fm_waiting f of None \<Rightarrow> False | Some n \<Rightarrow> n \<in> mw_resolve ` set (mx_queue (sy_mutex s (fm_lock f))))"

text \<open>\<^verbatim>\<open>mutexStorage.getStore()\<close>, set by the innermost call on whatever mutex.\<close>

definition top_store :: "frame list \<Rightarrow> string option" where
  "top_store fs = (case fs of [] \<Rightarrow> None | f # _ \<Rightarrow> Some (fm_store f))"

text \<open>\<^verbatim>\<open>getStore() || randomUUID()\<close>, asked once by \<^verbatim>\<open>runLocked\<close> and once by \<^verbatim>\<open>acquire\<close>.\<close>

definition runLocked :: "nat \<Rightarrow> string \<Rightarrow> string \<Rightarrow> string \<Rightarrow> system \<Rightarrow> system" where
  "runLocked t l u1 u2 s =
     (let store = top_store (sy_tasks s t);
          callerId = (case store of None \<Rightarrow> u1 | Some x \<Rightarrow> x);
          asked = (case store of None \<Rightarrow> u2 | Some x \<Rightarrow> x);
          (m, wait) = mx_acquire asked (sy_mutex s l);
          f = \<lparr>fm_lock = l, fm_caller = asked, fm_store = callerId, fm_waiting = wait\<rparr> in
      s\<lparr>sy_mutex := (sy_mutex s)(l := m), sy_tasks := (sy_tasks s)(t := f # sy_tasks s t), sy_drawn := u1 # u2 # sy_drawn s\<rparr>)"

text \<open>The callback of the innermost call returns.\<close>

definition leave :: "nat \<Rightarrow> system \<Rightarrow> system" where
  "leave t s =
     (case sy_tasks s t of
        [] \<Rightarrow> s
      | f # fs \<Rightarrow> s\<lparr>sy_mutex := (sy_mutex s)(fm_lock f := mx_release (fm_caller f) (sy_mutex s (fm_lock f))), sy_tasks := (sy_tasks s)(t := fs)\<rparr>)"

definition runs :: "system \<Rightarrow> nat \<Rightarrow> bool" where
  "runs s t = (case sy_tasks s t of [] \<Rightarrow> True | f # _ \<Rightarrow> \<not> waiting s f)"

text \<open>A task whose innermost call waits for the lock takes no step. The identifiers drawn are new.\<close>

inductive mutex_step :: "system \<Rightarrow> system \<Rightarrow> bool" where
  enter: "runs s t \<Longrightarrow> u1 \<noteq> u2 \<Longrightarrow> u1 \<notin> set (sy_drawn s) \<Longrightarrow> u2 \<notin> set (sy_drawn s) \<Longrightarrow> mutex_step s (runLocked t l u1 u2 s)"
| exit: "runs s t \<Longrightarrow> mutex_step s (leave t s)"
| timer: "mutex_step s (s\<lparr>sy_mutex := (sy_mutex s)(l := fst (timed_out n (sy_mutex s l)))\<rparr>)"

inductive_cases mutex_stepE: "mutex_step s s'"

definition mutex_init :: "system \<Rightarrow> bool" where
  "mutex_init s \<longleftrightarrow> s = \<lparr>sy_mutex = (\<lambda>_. new_mutex), sy_tasks = (\<lambda>_. []), sy_drawn = []\<rparr>"

text \<open>The calls of a task that hold a mutex.\<close>

definition held :: "system \<Rightarrow> string \<Rightarrow> nat \<Rightarrow> frame list" where
  "held s l t = filter (\<lambda>f. fm_lock f = l \<and> \<not> waiting s f) (sy_tasks s t)"

section \<open>The invariant\<close>

text \<open>
  The outermost call of a task asked under an identity of its own, the calls inside under the one in the storage, which is the same in all
  of them; only the innermost call may wait.
\<close>

definition stack_ok :: "system \<Rightarrow> frame list \<Rightarrow> bool" where
  "stack_ok s fs \<longleftrightarrow> (\<forall>g \<in> set (tl fs). \<not> waiting s g) \<and>
     (\<exists>x. (\<forall>g \<in> set fs. fm_store g = x) \<and> (\<forall>g \<in> set (butlast fs). fm_caller g = x) \<and> (fs \<noteq> [] \<longrightarrow> fm_caller (last fs) \<noteq> x))"

definition ids :: "frame list \<Rightarrow> string set" where
  "ids fs = (\<Union>f \<in> set fs. {fm_caller f, fm_store f})"

definition queue_ok :: "system \<Rightarrow> string \<Rightarrow> bool" where
  "queue_ok s l \<longleftrightarrow> (let m = sy_mutex s l in
     distinct (map mw_resolve (mx_queue m)) \<and>
     (\<forall>w \<in> set (mx_queue m). odd (mw_resolve w) \<and> mw_resolve w < 2 * mx_functions m \<and>
        (\<exists>t f fs. sy_tasks s t = f # fs \<and> fm_lock f = l \<and> fm_waiting f = Some (mw_resolve w) \<and> fm_caller f = mw_holder w)))"

definition frames_ok :: "system \<Rightarrow> bool" where
  "frames_ok s \<longleftrightarrow>
     (\<forall>t. stack_ok s (sy_tasks s t) \<and> ids (sy_tasks s t) \<subseteq> set (sy_drawn s)) \<and>
     (\<forall>t t'. t \<noteq> t' \<longrightarrow> ids (sy_tasks s t) \<inter> ids (sy_tasks s t') = {}) \<and>
     (\<forall>t f n. f \<in> set (sy_tasks s t) \<longrightarrow> fm_waiting f = Some n \<longrightarrow> n < 2 * mx_functions (sy_mutex s (fm_lock f))) \<and>
     (\<forall>t f t' f' n. f \<in> set (sy_tasks s t) \<longrightarrow> f' \<in> set (sy_tasks s t') \<longrightarrow> fm_lock f = fm_lock f' \<longrightarrow>
        fm_waiting f = Some n \<longrightarrow> fm_waiting f' = Some n \<longrightarrow> t = t')"

definition lock_ok :: "system \<Rightarrow> string \<Rightarrow> bool" where
  "lock_ok s l \<longleftrightarrow> (let m = sy_mutex s l in
     if mx_locked m
     then \<exists>t c. held s l t \<noteq> [] \<and> mx_currentHolder m = Some c \<and> mx_holdCount m = length (held s l t) \<and>
       (\<forall>f \<in> set (held s l t). fm_caller f = c) \<and> (\<forall>t'. t' \<noteq> t \<longrightarrow> held s l t' = [])
     else mx_queue m = [] \<and> (\<forall>t. held s l t = []))"

definition mutex_inv :: "system \<Rightarrow> bool" where
  "mutex_inv s \<longleftrightarrow> frames_ok s \<and> (\<forall>l. queue_ok s l \<and> lock_ok s l)"

lemma mutex_invD:
  assumes "mutex_inv s"
  shows "distinct (map mw_resolve (mx_queue (sy_mutex s l)))"
    and "w \<in> set (mx_queue (sy_mutex s l)) \<Longrightarrow> odd (mw_resolve w)"
    and "w \<in> set (mx_queue (sy_mutex s l)) \<Longrightarrow> mw_resolve w < 2 * mx_functions (sy_mutex s l)"
    and "w \<in> set (mx_queue (sy_mutex s l)) \<Longrightarrow>
      \<exists>t f fs. sy_tasks s t = f # fs \<and> fm_lock f = l \<and> fm_waiting f = Some (mw_resolve w) \<and> fm_caller f = mw_holder w"
    and "stack_ok s (sy_tasks s t)" and "ids (sy_tasks s t) \<subseteq> set (sy_drawn s)"
    and "t \<noteq> t' \<Longrightarrow> ids (sy_tasks s t) \<inter> ids (sy_tasks s t') = {}"
    and "f \<in> set (sy_tasks s t) \<Longrightarrow> fm_waiting f = Some n \<Longrightarrow> n < 2 * mx_functions (sy_mutex s (fm_lock f))"
    and "f \<in> set (sy_tasks s t) \<Longrightarrow> f' \<in> set (sy_tasks s t') \<Longrightarrow> fm_lock f = fm_lock f' \<Longrightarrow>
      fm_waiting f = Some n \<Longrightarrow> fm_waiting f' = Some n \<Longrightarrow> t = t'"
    and "lock_ok s l"
  using assms unfolding mutex_inv_def queue_ok_def frames_ok_def Let_def by blast+

lemma heldD: "f \<in> set (held s l t) \<longleftrightarrow> f \<in> set (sy_tasks s t) \<and> fm_lock f = l \<and> \<not> waiting s f"
  by (auto simp: held_def)

text \<open>A call that does not wait holds its mutex, for its task alone.\<close>

lemma holding:
  assumes "mutex_inv s" and "f \<in> set (held s l t)"
  shows "mx_locked (sy_mutex s l)" and "mx_currentHolder (sy_mutex s l) = Some (fm_caller f)"
    and "mx_holdCount (sy_mutex s l) = length (held s l t)" and "g \<in> set (held s l t) \<Longrightarrow> fm_caller g = fm_caller f"
    and "t' \<noteq> t \<Longrightarrow> held s l t' = []"
proof -
  have ne: "held s l t \<noteq> []" using assms(2) by auto
  note ok = mutex_invD(10) [OF assms(1), of l]
  show l: "mx_locked (sy_mutex s l)" using ok ne by (auto simp: lock_ok_def Let_def split: if_splits)
  obtain t0 c where t0: "mx_currentHolder (sy_mutex s l) = Some c" "mx_holdCount (sy_mutex s l) = length (held s l t0)"
      "\<forall>f \<in> set (held s l t0). fm_caller f = c" "\<forall>t'. t' \<noteq> t0 \<longrightarrow> held s l t' = []"
    using ok l by (auto simp: lock_ok_def Let_def)
  have "t0 = t" using t0(4) ne by metis
  then show "mx_currentHolder (sy_mutex s l) = Some (fm_caller f)" "mx_holdCount (sy_mutex s l) = length (held s l t)"
    "g \<in> set (held s l t) \<Longrightarrow> fm_caller g = fm_caller f" "t' \<noteq> t \<Longrightarrow> held s l t' = []"
    using t0 assms(2) by auto
qed

lemma locked_held:
  assumes "mutex_inv s" and "mx_locked (sy_mutex s l)"
  obtains t f where "f \<in> set (held s l t)"
proof -
  have "\<exists>t. held s l t \<noteq> []" using mutex_invD(10) [OF assms(1), of l] assms(2) by (auto simp: lock_ok_def Let_def)
  then show thesis using that by (metis list.set_sel(1))
qed

lemma unlocked:
  assumes "mutex_inv s" and "\<not> mx_locked (sy_mutex s l)"
  shows "mx_queue (sy_mutex s l) = []" and "held s l t = []"
  using mutex_invD(10) [OF assms(1), of l] assms(2) by (auto simp: lock_ok_def Let_def)

section \<open>Timers\<close>

text \<open>The timer looks for the function it was given, the queue holds the one that wraps it.\<close>

lemma timer_idle:
  assumes "mutex_inv s"
  shows "timed_out n (sy_mutex s l) = (sy_mutex s l, False)"
proof -
  have "2 * n \<notin> mw_resolve ` set (mx_queue (sy_mutex s l))"
  proof
    assume "2 * n \<in> mw_resolve ` set (mx_queue (sy_mutex s l))"
    then obtain w where "w \<in> set (mx_queue (sy_mutex s l))" "mw_resolve w = 2 * n" by auto
    then show False using mutex_invD(2) [OF assms, of w l] by simp
  qed
  then show ?thesis by (simp add: timed_out_def)
qed

section \<open>Entering\<close>

text \<open>
  What a call adds: a frame on the stack of its task, which asks under the identity in the storage or, outside of all calls, under one of two new
  identities.
\<close>

definition pushed :: "nat \<Rightarrow> frame \<Rightarrow> mutex \<Rightarrow> string list \<Rightarrow> system \<Rightarrow> system" where
  "pushed t g m us s = s\<lparr>sy_mutex := (sy_mutex s)(fm_lock g := m), sy_tasks := (sy_tasks s)(t := g # sy_tasks s t), sy_drawn := us @ sy_drawn s\<rparr>"

definition asks :: "nat \<Rightarrow> frame \<Rightarrow> string list \<Rightarrow> system \<Rightarrow> bool" where
  "asks t g us s \<longleftrightarrow> set us \<inter> set (sy_drawn s) = {} \<and>
     (if sy_tasks s t = [] then fm_caller g \<noteq> fm_store g \<and> {fm_caller g, fm_store g} \<subseteq> set us
      else fm_caller g = fm_store (hd (sy_tasks s t)) \<and> fm_store g = fm_store (hd (sy_tasks s t)))"

lemma runs_none_wait: "mutex_inv s \<Longrightarrow> runs s t \<Longrightarrow> f \<in> set (sy_tasks s t) \<Longrightarrow> \<not> waiting s f"
  using mutex_invD(5) [of s t] by (cases "sy_tasks s t") (auto simp: runs_def stack_ok_def)

lemma pushed_frames:
  assumes inv: "mutex_inv s" and run: "runs s t" and asks: "asks t g us s"
    and m: "mx_functions (sy_mutex s (fm_lock g)) \<le> mx_functions m"
      "\<And>n. n < 2 * mx_functions (sy_mutex s (fm_lock g)) \<Longrightarrow> n \<in> mw_resolve ` set (mx_queue m) \<longleftrightarrow>
         n \<in> mw_resolve ` set (mx_queue (sy_mutex s (fm_lock g)))"
    and new: "\<And>n. fm_waiting g = Some n \<Longrightarrow> 2 * mx_functions (sy_mutex s (fm_lock g)) \<le> n \<and> n < 2 * mx_functions m"
  shows "frames_ok (pushed t g m us s)"
    and "f \<in> set (sy_tasks s a) \<Longrightarrow> waiting (pushed t g m us s) f = waiting s f"
    and "held (pushed t g m us s) l a = (if a = t \<and> fm_lock g = l \<and> \<not> waiting (pushed t g m us s) g then g # held s l a else held s l a)"
proof -
  let ?s = "pushed t g m us s"
  note D = mutex_invD [OF inv]
  have p: "sy_mutex ?s = (sy_mutex s)(fm_lock g := m)" "sy_tasks ?s = (sy_tasks s)(t := g # sy_tasks s t)" "sy_drawn ?s = us @ sy_drawn s"
    by (simp_all add: pushed_def)
  show same: "waiting ?s f = waiting s f" if "f \<in> set (sy_tasks s a)" for f a
  proof (cases "fm_waiting f")
    case (Some n)
    then show ?thesis using D(8) [OF that Some] m(2) [of n] by (cases "fm_lock f = fm_lock g") (simp_all add: waiting_def p)
  qed (simp add: waiting_def)
  show "held ?s l a = (if a = t \<and> fm_lock g = l \<and> \<not> waiting ?s g then g # held s l a else held s l a)" for l a
  proof -
    have "filter (\<lambda>f. fm_lock f = l \<and> \<not> waiting ?s f) (sy_tasks s a) = held s l a"
      unfolding held_def by (rule filter_cong) (use same in auto)
    then show ?thesis by (cases "a = t") (simp_all add: held_def p)
  qed
  have stack: "stack_ok ?s (sy_tasks ?s a)" for a
  proof (cases "a = t")
    case True
    have "\<forall>f \<in> set (sy_tasks s t). \<not> waiting ?s f" using same runs_none_wait [OF inv run] by blast
    then show ?thesis using asks D(5) [of t] True by (cases "sy_tasks s t") (auto simp: stack_ok_def p asks_def)
  next
    case False
    have "\<forall>f \<in> set (tl (sy_tasks s a)). waiting ?s f = waiting s f" using same list.set_sel(2) by (metis tl_Nil)
    then show ?thesis using D(5) [of a] False by (simp add: stack_ok_def p)
  qed
  have own: "ids (g # sy_tasks s t) \<subseteq> ids (sy_tasks s t) \<union> (if sy_tasks s t = [] then set us else {})"
    using asks by (cases "sy_tasks s t") (auto simp: ids_def asks_def)
  have dr: "ids (sy_tasks ?s a) \<subseteq> set (sy_drawn ?s)" for a using own D(6) [of t] D(6) [of a] by (auto simp: p split: if_splits)
  have fresh: "set us \<inter> ids (sy_tasks s a) = {}" for a using asks D(6) [of a] by (auto simp: asks_def)
  have own_disj: "ids (g # sy_tasks s t) \<inter> ids (sy_tasks s b) = {}" if "t \<noteq> b" for b
    using own fresh [of b] D(7) [OF that] by (auto split: if_splits)
  have disj: "ids (sy_tasks ?s a) \<inter> ids (sy_tasks ?s b) = {}" if "a \<noteq> b" for a b
    using own_disj [of b] own_disj [of a] D(7) [OF that] that by (cases "a = t"; cases "b = t") (auto simp: p)
  have old: "f = g \<and> a = t \<or> f \<in> set (sy_tasks s a)" if "f \<in> set (sy_tasks ?s a)" for f a using that by (auto simp: p split: if_splits)
  have bound: "n < 2 * mx_functions (sy_mutex ?s (fm_lock f))" if "f \<in> set (sy_tasks ?s a)" "fm_waiting f = Some n" for f a n
    using old [OF that(1)] that(2) D(8) [of f a n] new [of n] m(1) by (auto simp: p)
  have "fm_waiting f = Some n \<Longrightarrow> fm_waiting g = Some n \<Longrightarrow> fm_lock f = fm_lock g \<Longrightarrow> False" if "f \<in> set (sy_tasks s a)" for f a n
    using D(8) [OF that] new [of n] by fastforce
  then have uniq: "a = b" if "f \<in> set (sy_tasks ?s a)" "f' \<in> set (sy_tasks ?s b)" "fm_lock f = fm_lock f'" "fm_waiting f = Some n" "fm_waiting f' = Some n" for f f' a b n
    using old [OF that(1)] old [OF that(2)] that(3-5) D(9) [of f a f' b n] by metis
  show "frames_ok ?s" unfolding frames_ok_def using stack dr disj bound uniq by blast
qed

text \<open>The other mutexes are as they were.\<close>

lemma pushed_elsewhere:
  assumes inv: "mutex_inv s" and "runs s t" and "l \<noteq> fm_lock g" and h: "\<And>a. held (pushed t g m us s) l a = held s l a"
  shows "queue_ok (pushed t g m us s) l \<and> lock_ok (pushed t g m us s) l"
proof -
  let ?s = "pushed t g m us s"
  note D = mutex_invD [OF inv]
  have p: "sy_mutex ?s l = sy_mutex s l" "sy_tasks ?s = (sy_tasks s)(t := g # sy_tasks s t)" using assms(3) by (simp_all add: pushed_def)
  have "\<exists>a f fs. sy_tasks ?s a = f # fs \<and> fm_lock f = l \<and> fm_waiting f = Some (mw_resolve w) \<and> fm_caller f = mw_holder w"
    if w: "w \<in> set (mx_queue (sy_mutex s l))" for w
  proof -
    obtain a f fs where f: "sy_tasks s a = f # fs" "fm_lock f = l" "fm_waiting f = Some (mw_resolve w)" "fm_caller f = mw_holder w"
      using D(4) [OF w] by blast
    then have "waiting s f" using w by (auto simp: waiting_def)
    then have "a \<noteq> t" using assms(2) f(1) by (auto simp: runs_def)
    then show ?thesis using f by (intro exI [of _ a]) (simp add: p)
  qed
  then have "queue_ok ?s l" using D(1-3) [where l = l] by (simp add: queue_ok_def p(1))
  moreover have "lock_ok ?s l" using D(10) [of l] by (simp only: lock_ok_def p(1) h)
  ultimately show ?thesis by blast
qed

lemma enter_inv:
  assumes inv: "mutex_inv s" and run: "runs s t" and u: "u1 \<noteq> u2" "u1 \<notin> set (sy_drawn s)" "u2 \<notin> set (sy_drawn s)"
  shows "mutex_inv (runLocked t l u1 u2 s)"
proof -
  let ?m = "sy_mutex s l" and ?store = "top_store (sy_tasks s t)"
  let ?asked = "case ?store of None \<Rightarrow> u2 | Some x \<Rightarrow> x" and ?id = "case ?store of None \<Rightarrow> u1 | Some x \<Rightarrow> x"
  obtain m wait where acq: "mx_acquire ?asked ?m = (m, wait)" by (cases "mx_acquire ?asked ?m")
  let ?g = "\<lparr>fm_lock = l, fm_caller = ?asked, fm_store = ?id, fm_waiting = wait\<rparr>" and ?us = "[u1, u2]"
  let ?s = "pushed t ?g m ?us s"
  have eq: "runLocked t l u1 u2 s = ?s" using acq by (simp add: runLocked_def pushed_def Let_def)
  note D = mutex_invD [OF inv]
  have asks: "asks t ?g ?us s" using u by (cases "sy_tasks s t") (auto simp: asks_def top_store_def)
  have m: "mx_functions ?m \<le> mx_functions m"
    "n < 2 * mx_functions ?m \<Longrightarrow> n \<in> mw_resolve ` set (mx_queue m) \<longleftrightarrow> n \<in> mw_resolve ` set (mx_queue ?m)"
    "wait = Some n \<Longrightarrow> 2 * mx_functions ?m \<le> n \<and> n < 2 * mx_functions m" for n
    using acq by (auto simp: mx_acquire_def Let_def split: if_splits)
  note P = pushed_frames [OF inv run asks, of m, simplified, OF m]
  have held: "held ?s l' a = (if a = t \<and> l = l' \<and> \<not> waiting ?s ?g then ?g # held s l' a else held s l' a)" for l' a
    by (rule P(3))
  have other: "queue_ok ?s l' \<and> lock_ok ?s l'" if "l' \<noteq> l" for l'
    by (rule pushed_elsewhere [OF inv run]) (use that held in simp_all)
  have own: "queue_ok ?s l \<and> lock_ok ?s l"
  proof (cases "wait = None")
    case True
    have q: "mx_queue m = mx_queue ?m" "mx_functions m = mx_functions ?m" "mx_locked m" "mx_currentHolder m = Some ?asked"
      using acq True by (auto simp: mx_acquire_def Let_def split: if_splits)
    have nw: "\<not> waiting ?s ?g" using True by (simp add: waiting_def)
    have "\<exists>a f fs. sy_tasks ?s a = f # fs \<and> fm_lock f = l \<and> fm_waiting f = Some (mw_resolve w) \<and> fm_caller f = mw_holder w"
      if w: "w \<in> set (mx_queue ?m)" for w
    proof -
      obtain a f fs where f: "sy_tasks s a = f # fs" "fm_lock f = l" "fm_waiting f = Some (mw_resolve w)" "fm_caller f = mw_holder w"
        using D(4) [OF w] by blast
      then have "waiting s f" using w by (auto simp: waiting_def)
      then have "a \<noteq> t" using run f(1) by (auto simp: runs_def)
      then show ?thesis using f by (intro exI [of _ a]) (simp add: pushed_def)
    qed
    then have "queue_ok ?s l" using D(1-3) [where l = l] by (simp add: queue_ok_def pushed_def q)
    moreover have "lock_ok ?s l"
    proof (cases "mx_locked ?m")
      case False
      then have "mx_holdCount m = 1" using acq True by (auto simp: mx_acquire_def Let_def split: if_splits)
      then show ?thesis using q unlocked(2) [OF inv False] nw held
        by (auto simp: lock_ok_def pushed_def intro!: exI [of _ t])
    next
      case locked: True
      then have re: "mx_currentHolder ?m = Some ?asked" "mx_holdCount m = Suc (mx_holdCount ?m)"
        using acq True by (auto simp: mx_acquire_def Let_def split: if_splits)
      obtain a f where f: "f \<in> set (held s l a)" by (rule locked_held [OF inv locked])
      note H = holding [OF inv f]
      have c: "fm_caller f = ?asked" using H(2) re(1) by simp
      have "fm_caller f \<in> ids (sy_tasks s a)" using f by (auto simp: heldD ids_def)
      moreover have "?asked \<in> ids (sy_tasks s t) \<or> ?asked = u2"
        by (cases "sy_tasks s t") (auto simp: top_store_def ids_def)
      ultimately have a: "a = t" using c D(6) [of a] D(7) [of a t] u(3) by auto
      have "held s l t \<noteq> []" using f a by auto
      then show ?thesis using q re(2) nw held H(3-5) c a
        by (auto simp: lock_ok_def pushed_def intro!: exI [of _ t])
    qed
    ultimately show ?thesis by blast
  next
    case False
    let ?n = "2 * mx_functions ?m + 1" and ?w = "\<lparr>mw_resolve = 2 * mx_functions ?m + 1, mw_holder = ?asked\<rparr>"
    have q: "m = ?m\<lparr>mx_functions := Suc (mx_functions ?m), mx_queue := mx_queue ?m @ [?w]\<rparr>" "wait = Some ?n" "mx_locked ?m"
      using acq False by (auto simp: mx_acquire_def Let_def split: if_splits)
    have w: "waiting ?s ?g" using q by (simp add: waiting_def pushed_def)
    have "queue_ok ?s l"
      unfolding queue_ok_def Let_def
    proof (intro conjI ballI)
      have queue: "mx_queue (sy_mutex ?s l) = mx_queue ?m @ [?w]" "mx_functions (sy_mutex ?s l) = Suc (mx_functions ?m)"
        by (simp_all add: pushed_def q)
      show "distinct (map mw_resolve (mx_queue (sy_mutex ?s l)))" using D(1,3) by (fastforce simp: queue)
      fix x assume x: "x \<in> set (mx_queue (sy_mutex ?s l))"
      then have cases: "x = ?w \<or> x \<in> set (mx_queue ?m)" by (auto simp: queue)
      show "odd (mw_resolve x)" using cases D(2) by auto
      show "mw_resolve x < 2 * mx_functions (sy_mutex ?s l)" using cases D(3) by (fastforce simp: queue)
      show "\<exists>a f fs. sy_tasks ?s a = f # fs \<and> fm_lock f = l \<and> fm_waiting f = Some (mw_resolve x) \<and> fm_caller f = mw_holder x"
      proof (cases "x \<in> set (mx_queue ?m)")
        case True
        obtain a f fs where f: "sy_tasks s a = f # fs" "fm_lock f = l" "fm_waiting f = Some (mw_resolve x)" "fm_caller f = mw_holder x"
          using D(4) [OF True] by blast
        then have "waiting s f" using True by (auto simp: waiting_def)
        then have "a \<noteq> t" using run f(1) by (auto simp: runs_def)
        then show ?thesis using f by (intro exI [of _ a]) (simp add: pushed_def)
      next
        case False
        then have "x = ?w" using cases by blast
        then show ?thesis using q(2) by (intro exI [of _ t]) (simp add: pushed_def)
      qed
    qed
    moreover have "lock_ok ?s l"
    proof -
      have "held ?s l a = held s l a" for a using held w by simp
      moreover have "mx_locked (sy_mutex ?s l)" "mx_currentHolder (sy_mutex ?s l) = mx_currentHolder ?m"
        "mx_holdCount (sy_mutex ?s l) = mx_holdCount ?m" using q(3) by (simp_all add: pushed_def q(1))
      ultimately show ?thesis using D(10) [of l, unfolded lock_ok_def Let_def if_P [OF q(3)]] by (simp only: lock_ok_def Let_def if_True)
    qed
    ultimately show ?thesis by blast
  qed
  have "queue_ok ?s l' \<and> lock_ok ?s l'" for l' using own other by (cases "l' = l") simp_all
  then show ?thesis unfolding eq mutex_inv_def using P(1) by blast
qed

section \<open>Leaving\<close>

lemma leave_inv:
  assumes inv: "mutex_inv s" and run: "runs s t"
  shows "mutex_inv (leave t s)"
proof (cases "sy_tasks s t")
  case Nil
  then show ?thesis using inv by (simp add: leave_def)
next
  case (Cons f fs)
  let ?l = "fm_lock f" and ?s = "leave t s"
  let ?m = "sy_mutex s ?l"
  note D = mutex_invD [OF inv]
  have f: "f \<in> set (held s ?l t)" using run Cons by (auto simp: heldD runs_def)
  note H = holding [OF inv f]
  let ?n = "mx_release (fm_caller f) ?m"
  have tasks: "sy_tasks ?s = (sy_tasks s)(t := fs)" "sy_drawn ?s = sy_drawn s" "sy_mutex ?s = (sy_mutex s)(?l := ?n)" using Cons by (simp_all add: leave_def)
  have funs: "mx_functions (sy_mutex ?s l) = mx_functions (sy_mutex s l)" for l by (simp add: tasks mx_release_def split: list.split)
  have less: "mx_queue (sy_mutex ?s l) = mx_queue (sy_mutex s l) \<or>
      l = ?l \<and> mx_holdCount ?m = 1 \<and> (\<exists>w. mx_queue ?m = w # mx_queue (sy_mutex ?s l))" for l
    using H(2,3) f by (cases "held s ?l t") (auto simp: tasks mx_release_def split: list.split)
  have sub: "h \<in> set (sy_tasks s a)" if "h \<in> set (sy_tasks ?s a)" for h a using that Cons by (auto simp: tasks split: if_splits)
  have nw: "waiting s h" if "waiting ?s h" for h
    using that less [of "fm_lock h"] by (force simp: waiting_def split: option.splits)
  have stack: "stack_ok ?s (sy_tasks ?s a)" for a
  proof (cases "a = t")
    case True
    have "\<forall>h \<in> set fs. \<not> waiting ?s h" using D(5) [of t] Cons nw by (auto simp: stack_ok_def)
    moreover obtain x where "\<forall>g \<in> set (f # fs). fm_store g = x" "\<forall>g \<in> set (butlast (f # fs)). fm_caller g = x" "fm_caller (last (f # fs)) \<noteq> x"
      using D(5) [of t] Cons by (auto simp: stack_ok_def)
    ultimately show ?thesis using True by (cases fs) (auto simp: stack_ok_def tasks)
  next
    case False
    then have "\<forall>h \<in> set (tl (sy_tasks ?s a)). \<not> waiting ?s h" using D(5) [of a] nw by (auto simp: stack_ok_def tasks)
    then show ?thesis using D(5) [of a] False by (simp add: stack_ok_def tasks)
  qed
  have "ids (sy_tasks ?s a) \<subseteq> ids (sy_tasks s a)" for a using sub by (force simp: ids_def)
  then have frames: "frames_ok ?s"
    unfolding frames_ok_def funs
  proof (intro conjI allI impI)
    assume le: "\<And>a. ids (sy_tasks ?s a) \<subseteq> ids (sy_tasks s a)"
    show "stack_ok ?s (sy_tasks ?s a)" for a by (rule stack)
    show "ids (sy_tasks ?s a) \<subseteq> set (sy_drawn ?s)" for a using le [of a] D(6) [of a] by (simp add: tasks(2))
    show "ids (sy_tasks ?s a) \<inter> ids (sy_tasks ?s b) = {}" if "a \<noteq> b" for a b using le [of a] le [of b] D(7) [OF that] by blast
    show "n < 2 * mx_functions (sy_mutex s (fm_lock h))" if "h \<in> set (sy_tasks ?s a)" "fm_waiting h = Some n" for a h n
      by (rule D(8) [OF sub [OF that(1)] that(2)])
    show "a = b" if "h \<in> set (sy_tasks ?s a)" "h' \<in> set (sy_tasks ?s b)" "fm_lock h = fm_lock h'" "fm_waiting h = Some n" "fm_waiting h' = Some n"
      for a h b h' n by (rule D(9) [OF sub [OF that(1)] sub [OF that(2)] that(3-5)])
  qed
  have who: "\<exists>a g gs. a \<noteq> t \<and> sy_tasks ?s a = g # gs \<and> fm_lock g = l \<and> fm_waiting g = Some (mw_resolve w) \<and> fm_caller g = mw_holder w"
    if w: "w \<in> set (mx_queue (sy_mutex s l))" for w l
  proof -
    obtain a g gs where g: "sy_tasks s a = g # gs" "fm_lock g = l" "fm_waiting g = Some (mw_resolve w)" "fm_caller g = mw_holder w"
      using D(4) [OF w] by blast
    then have "waiting s g" using w by (auto simp: waiting_def)
    then have "a \<noteq> t" using run g(1) by (auto simp: runs_def)
    then show ?thesis using g by (intro exI [of _ a]) (simp add: tasks)
  qed
  have queue: "queue_ok ?s l" for l
  proof -
    have "set (mx_queue (sy_mutex ?s l)) \<subseteq> set (mx_queue (sy_mutex s l))" "distinct (map mw_resolve (mx_queue (sy_mutex ?s l)))"
      using less [of l] D(1) [of l] by auto
    then show ?thesis unfolding queue_ok_def Let_def funs using D(2,3) who by (meson subsetD)
  qed
  have keep: "held ?s l a = (if a = t then filter (\<lambda>h. fm_lock h = l) fs else held s l a)" if "mx_queue (sy_mutex ?s l) = mx_queue (sy_mutex s l)" for l a
  proof -
    have same: "waiting ?s h = waiting s h" if "fm_lock h = l" for h
      using that \<open>mx_queue (sy_mutex ?s l) = mx_queue (sy_mutex s l)\<close> by (simp add: waiting_def split: option.split)
    have "\<forall>h \<in> set fs. \<not> waiting ?s h" using D(5) [of t] Cons nw by (auto simp: stack_ok_def)
    then have "filter (\<lambda>h. fm_lock h = l \<and> \<not> waiting ?s h) fs = filter (\<lambda>h. fm_lock h = l) fs" by (auto intro: filter_cong)
    moreover have "filter (\<lambda>h. fm_lock h = l \<and> \<not> waiting ?s h) (sy_tasks s a) = held s l a"
      unfolding held_def by (rule filter_cong) (use same in auto)
    ultimately show ?thesis by (simp add: held_def tasks)
  qed
  have inner: "held s l t = (if ?l = l then f # filter (\<lambda>h. fm_lock h = l) fs else filter (\<lambda>h. fm_lock h = l) fs)" for l
  proof -
    have "\<forall>h \<in> set (f # fs). \<not> waiting s h" using runs_none_wait [OF inv run] Cons by auto
    then show ?thesis unfolding held_def Cons by (auto intro: filter_cong)
  qed
  have other: "lock_ok ?s l" if "l \<noteq> ?l" for l
  proof -
    have "mx_queue (sy_mutex ?s l) = mx_queue (sy_mutex s l)" using that by (simp add: tasks)
    then have same: "held ?s l a = held s l a" for a using keep [of l a] inner [of l] that by auto
    have "sy_mutex ?s l = sy_mutex s l" using that by (simp add: tasks)
    then show ?thesis using D(10) [of l] by (simp only: lock_ok_def same)
  qed
  have rest: "filter (\<lambda>h. fm_lock h = ?l) fs = tl (held s ?l t)" "mx_holdCount ?m = Suc (length (tl (held s ?l t)))"
    using inner [of ?l] H(3) by simp_all
  have own: "lock_ok ?s ?l"
  proof (cases "tl (held s ?l t) = []")
    case False
    have "0 < length (tl (held s ?l t))" using False by blast
    then have n: "?n = ?m\<lparr>mx_holdCount := length (tl (held s ?l t))\<rparr>" using H(2) rest(2) unfolding mx_release_def by (simp del: length_tl)
    then have "held ?s ?l a = (if a = t then tl (held s ?l t) else [])" for a using keep [of ?l a] rest(1) H(5) by (simp add: tasks)
    moreover have "g \<in> set (tl (held s ?l t)) \<Longrightarrow> fm_caller g = fm_caller f" for g using H(4) list.set_sel(2) by (metis tl_Nil)
    ultimately show ?thesis using False H(1,2) n by (auto simp: lock_ok_def tasks intro!: exI [of _ t])
  next
    case True
    show ?thesis
    proof (cases "mx_queue ?m")
      case Nil
      then have n: "?n = ?m\<lparr>mx_locked := False, mx_currentHolder := None, mx_holdCount := 0\<rparr>" using H(2) rest(2) True by (simp add: mx_release_def)
      then have "held ?s ?l a = []" for a using keep [of ?l a] rest(1) True H(5) [of a] by (simp add: tasks)
      then show ?thesis using Nil n by (simp add: lock_ok_def tasks)
    next
      case (Cons w ws)
      then have n: "?n = ?m\<lparr>mx_queue := ws, mx_currentHolder := Some (mw_holder w), mx_holdCount := 1\<rparr>"
        using H(2) rest(2) True by (simp add: mx_release_def)
      have w: "w \<in> set (mx_queue (sy_mutex s ?l))" using Cons by simp
      obtain b g gs where g: "b \<noteq> t" "sy_tasks ?s b = g # gs" "fm_lock g = ?l" "fm_waiting g = Some (mw_resolve w)" "fm_caller g = mw_holder w"
        using who [OF w] by blast
      have gs: "sy_tasks s b = g # gs" using g(1,2) by (simp add: tasks)
      have woken: "waiting ?s h \<longleftrightarrow> waiting s h \<and> fm_waiting h \<noteq> Some (mw_resolve w)" if "fm_lock h = ?l" for h
        using that D(1) [of ?l] Cons n by (fastforce simp: waiting_def tasks image_iff split: option.splits)
      have none: "held s ?l a = []" if "a \<noteq> t" for a by (rule H(5) [OF that])
      have hb: "held ?s ?l b = [g]"
      proof -
        have "\<not> waiting ?s g" using woken [OF g(3)] g(4) by simp
        moreover have "filter (\<lambda>h. fm_lock h = ?l \<and> \<not> waiting ?s h) gs = []"
        proof -
          have "fm_lock h \<noteq> ?l" if "h \<in> set gs" for h
          proof
            assume "fm_lock h = ?l"
            moreover have "\<not> waiting s h" using that D(5) [of b] gs by (simp add: stack_ok_def)
            ultimately have "h \<in> set (held s ?l b)" using that gs by (simp add: heldD)
            then show False using none [OF g(1)] by simp
          qed
          then show ?thesis by (simp add: filter_empty_conv)
        qed
        ultimately show ?thesis using g by (simp add: held_def)
      qed
      have ha: "held ?s ?l a = []" if "a \<noteq> b" for a
      proof (cases "a = t")
        case True
        have "filter (\<lambda>h. fm_lock h = ?l) fs = []" using rest(1) \<open>tl (held s ?l t) = []\<close> by simp
        then show ?thesis using True by (auto simp: held_def tasks filter_empty_conv)
      next
        case False
        have "waiting ?s h" if h: "h \<in> set (sy_tasks s a)" "fm_lock h = ?l" for h
        proof -
          have "waiting s h" using none [OF False] h by (auto simp: held_def filter_empty_conv)
          moreover have "fm_waiting h \<noteq> Some (mw_resolve w)" using D(9) [OF h(1), of g b] gs g(3,4) h(2) that \<open>a \<noteq> b\<close> by auto
          ultimately show ?thesis using woken [OF h(2)] by blast
        qed
        then show ?thesis using False by (auto simp: held_def tasks filter_empty_conv)
      qed
      show ?thesis using n hb ha H(1) g(5) by (auto simp: lock_ok_def tasks intro!: exI [of _ b])
    qed
  qed
  show ?thesis unfolding mutex_inv_def using frames queue own other by metis
qed

interpretation mutex_run: transition_system mutex_init mutex_step mutex_inv
proof
  show "mutex_inv s" if "mutex_init s" for s
    using that by (simp add: mutex_init_def mutex_inv_def queue_ok_def frames_ok_def lock_ok_def new_mutex_def stack_ok_def ids_def held_def)
  fix s s'
  assume inv: "mutex_inv s" and "mutex_step s s'"
  from this(2) show "mutex_inv s'"
    by (cases rule: mutex_stepE) (auto intro: enter_inv [OF inv] leave_inv [OF inv] simp: timer_idle [OF inv] inv)
qed

section \<open>Exclusion and a wait without end\<close>

text \<open>In every reachable state the calls that hold a mutex are of one task.\<close>

theorem mutex_excludes:
  assumes "reach mutex_init mutex_step s" and "f \<in> set (held s l t)" and "f' \<in> set (held s l t')"
  shows "t = t'"
  using holding(5) [OF mutex_run.reach_inv [OF assms(1)] assms(2), of t'] assms(3) by force

text \<open>A call inside the outermost call of its task on the same mutex waits, and nothing changes that.\<close>

lemma inner_waits:
  assumes "mutex_inv s" and "sy_tasks s t = g # fs" and "fs \<noteq> []" and "fm_lock g = fm_lock (last fs)"
  shows "waiting s g"
proof (rule ccontr)
  assume "\<not> waiting s g"
  then have g: "g \<in> set (held s (fm_lock g) t)" using assms(2) by (simp add: heldD)
  have st: "stack_ok s (g # fs)" using mutex_invD(5) [OF assms(1), of t] assms(2) by simp
  then have "last fs \<in> set (held s (fm_lock g) t)" using assms(2-4) by (simp add: heldD stack_ok_def)
  then have "fm_caller (last fs) = fm_caller g" using holding(4) [OF assms(1) g] by blast
  moreover obtain x where "fm_caller g = x" "fm_caller (last fs) \<noteq> x" using st assms(3) by (auto simp: stack_ok_def)
  ultimately show False by simp
qed

lemma inner_stuck:
  assumes "mutex_inv s" and "sy_tasks s t = g # fs" and "fs \<noteq> []" and "fm_lock g = fm_lock (last fs)" and "mutex_step s s'"
  shows "sy_tasks s' t = g # fs"
proof -
  have stop: "\<not> runs s t" using inner_waits [OF assms(1-4)] assms(2) by (simp add: runs_def)
  from assms(5) show ?thesis
  proof (cases rule: mutex_step.cases)
    case (enter a u1 u2 l)
    then have "a \<noteq> t" using stop by blast
    then show ?thesis using enter assms(2) by (simp add: runLocked_def case_prod_beta Let_def)
  next
    case (exit a)
    then have "a \<noteq> t" using stop by blast
    then show ?thesis using exit assms(2) by (simp add: leave_def split: list.split)
  next
    case (timer l n)
    then show ?thesis using assms(2) by simp
  qed
qed

lemma inner_stuck_for_ever:
  assumes "mutex_inv s" and "sy_tasks s t = g # fs" and "fs \<noteq> []" and "fm_lock g = fm_lock (last fs)" and "mutex_step\<^sup>*\<^sup>* s s'"
  shows "sy_tasks s' t = g # fs \<and> waiting s' g"
proof -
  have "mutex_inv s' \<and> sy_tasks s' t = g # fs"
    using assms(5,1,2) by (induction rule: rtranclp_induct) (auto intro: mutex_run.inv_step dest: inner_stuck [OF _ _ assms(3,4)])
  then show ?thesis using inner_waits [OF _ _ assms(3,4)] by blast
qed

section \<open>Properties\<close>

definition one_call :: system where
  "one_call = runLocked 0 ''kernel'' ''a'' ''b'' \<lparr>sy_mutex = (\<lambda>_. new_mutex), sy_tasks = (\<lambda>_. []), sy_drawn = []\<rparr>"

lemma one_call_eq:
  "one_call = \<lparr>sy_mutex = (\<lambda>_. new_mutex)(''kernel'' := new_mutex\<lparr>mx_locked := True, mx_currentHolder := Some ''b'', mx_holdCount := 1\<rparr>),
     sy_tasks = (\<lambda>_. [])(0 := [\<lparr>fm_lock = ''kernel'', fm_caller = ''b'', fm_store = ''a'', fm_waiting = None\<rparr>]), sy_drawn = [''a'', ''b'']\<rparr>"
  by (simp add: one_call_def runLocked_def top_store_def mx_acquire_def new_mutex_def Let_def)

lemma one_call_reach: "reach mutex_init mutex_step one_call"
  unfolding one_call_def by (rule reach_step [OF reach_init], simp add: mutex_init_def) (rule mutex_step.enter, simp_all add: runs_def)

text \<open>
  C18. A task that holds a mutex calls \<^verbatim>\<open>runLocked\<close> on it again. If the outermost call of the task, on any mutex, is on this mutex, the new
  call waits in every later state, whatever the tasks do, and no timer ever rejects its waiter: the outer call holds the lock under an identity
  that is not in the storage its callback runs under. If the outermost call is on another mutex, the new call is re-entrant and goes on at once.
\<close>

theorem nested_run_locked_waits:
  assumes "reach mutex_init mutex_step s" and "runs s t" and "f \<in> set (sy_tasks s t)" and "fm_lock f = l"
    and "u1 \<notin> set (sy_drawn s)" and "u2 \<notin> set (sy_drawn s)" and "u1 \<noteq> u2"
  shows "\<exists>g. if fm_lock (last (sy_tasks s t)) = l
    then \<forall>s'. mutex_step\<^sup>*\<^sup>* (runLocked t l u1 u2 s) s' \<longrightarrow> sy_tasks s' t = g # sy_tasks s t \<and> waiting s' g \<and>
      (\<forall>n. timed_out n (sy_mutex s' l) = (sy_mutex s' l, False))
    else sy_tasks (runLocked t l u1 u2 s) t = g # sy_tasks s t \<and> runs (runLocked t l u1 u2 s) t"
proof -
  let ?s = "runLocked t l u1 u2 s" and ?fs = "sy_tasks s t"
  have inv: "mutex_inv s" by (rule mutex_run.reach_inv [OF assms(1)])
  have inv1: "mutex_inv ?s" by (rule enter_inv [OF inv assms(2,7,5,6)])
  obtain g where g: "sy_tasks ?s t = g # ?fs" "fm_lock g = l" by (auto simp: runLocked_def Let_def case_prod_beta)
  have ne: "?fs \<noteq> []" using assms(3) by auto
  show ?thesis
  proof (cases "fm_lock (last ?fs) = l")
    case True
    have "fm_lock g = fm_lock (last ?fs)" using True g(2) by simp
    note stuck = inner_stuck_for_ever [OF inv1 g(1) ne this]
    have "timed_out n (sy_mutex s' l) = (sy_mutex s' l, False)" if "mutex_step\<^sup>*\<^sup>* ?s s'" for s' n
      by (rule timer_idle [OF mutex_run.steps_inv [OF that inv1]])
    then show ?thesis using True stuck by (intro exI [of _ g]) simp
  next
    case False
    have st: "stack_ok s ?fs" by (rule mutex_invD(5) [OF inv])
    have "\<not> waiting s f" using runs_none_wait [OF inv assms(2,3)] .
    then have f: "f \<in> set (held s l t)" using assms(3,4) by (simp add: heldD)
    have "f \<in> set (butlast ?fs)" using assms(3,4) False ne append_butlast_last_id [of ?fs] by (metis Un_iff list.set(1) insert_iff list.simps(15) set_append empty_iff)
    then have "fm_caller f = fm_store (hd ?fs)" using st ne by (auto simp: stack_ok_def)
    then have "top_store ?fs = Some (fm_caller f)" using ne by (cases ?fs) (simp_all add: top_store_def)
    then have "fm_waiting (hd (sy_tasks ?s t)) = None"
      using holding(1,2) [OF inv f] by (simp add: runLocked_def mx_acquire_def Let_def)
    then show ?thesis using False g(1) by (intro exI [of _ g]) (simp add: runs_def waiting_def)
  qed
qed

lemma nested_run_locked_waits_witness:
  "\<exists>g. sy_tasks (runLocked 0 ''kernel'' ''c'' ''d'' one_call) 0 =
     [g, \<lparr>fm_lock = ''kernel'', fm_caller = ''b'', fm_store = ''a'', fm_waiting = None\<rparr>] \<and>
     waiting (runLocked 0 ''kernel'' ''c'' ''d'' one_call) g"
proof -
  let ?f = "\<lparr>fm_lock = ''kernel'', fm_caller = ''b'', fm_store = ''a'', fm_waiting = None\<rparr>"
  have f: "sy_tasks one_call 0 = [?f]" by (simp add: one_call_eq)
  have "runs one_call 0" "?f \<in> set (sy_tasks one_call 0)" "fm_lock ?f = ''kernel''"
    "''c'' \<notin> set (sy_drawn one_call)" "''d'' \<notin> set (sy_drawn one_call)" "''c'' \<noteq> ''d''"
    by (simp_all add: runs_def waiting_def one_call_eq)
  from nested_run_locked_waits [OF one_call_reach this] show ?thesis unfolding f by auto
qed

end
