(* ===== verification/Db_Relations.thy ===== *)
theory Db_Relations
  imports Db_Planning
begin

text \<open>
  Relations between tables, \<^verbatim>\<open>BroccoliRelationEngine\<close> of \<^verbatim>\<open>broccolidb-relations.ts\<close>: joins, and what the deletion
  of a row does to the rows that refer to it.

  The kernel resolves every table name, creating the table when there is none, so the resolver of a table never
  returns undefined. A deletion calls itself through the target table; the recursion is bounded by fuel, and \<open>None\<close>
  is the deletion that has not returned within it. A foreign value that is an object is read as a filter without
  operators.
\<close>

declare map_of_eq_Some_iff [simp del]
declare Some_eq_map_of_iff [simp del]

section \<open>Relations\<close>

datatype relation_type = BelongsTo | HasMany | HasOne

datatype referential_action = CASCADE | SET_NULL | RESTRICT

record relation_def =
  rl_name :: string
  rl_type :: relation_type
  rl_targetTable :: string
  rl_foreignKey :: string
  rl_targetKey :: string
  rl_onDelete :: "referential_action option"

record database =
  d_tables :: "(string, db_table) jsmap"
  d_relations :: "(string, (string, relation_def) jsmap) jsmap"

definition relations_of :: "string \<Rightarrow> database \<Rightarrow> (string, relation_def) jsmap" where
  "relations_of name d = (case js_get (d_relations d) name of None \<Rightarrow> [] | Some rs \<Rightarrow> rs)"

definition defineRelation :: "string \<Rightarrow> relation_def \<Rightarrow> database \<Rightarrow> database" where
  "defineRelation name rel d = d\<lparr>d_relations := js_set (d_relations d) name (js_set (relations_of name d) (rl_name rel) rel)\<rparr>"

definition resolve_table :: "string \<Rightarrow> database \<Rightarrow> db_table" where
  "resolve_table name d = (case js_get (d_tables d) name of None \<Rightarrow> new_table | Some T \<Rightarrow> T)"

definition set_table :: "string \<Rightarrow> db_table \<Rightarrow> database \<Rightarrow> database" where
  "set_table name T d = d\<lparr>d_tables := js_set (d_tables d) name T\<rparr>"

definition where_options :: "where_clause \<Rightarrow> int option \<Rightarrow> query_options" where
  "where_options w limit =
     \<lparr>qo_where = Some w, qo_and = [], qo_or = [], qo_not = None, qo_limit = limit, qo_offset = None, qo_sortBy = None, qo_desc = []\<rparr>"

section \<open>Joins\<close>

definition projectFields :: "string list option \<Rightarrow> row \<Rightarrow> row" where
  "projectFields select r =
     (case select of
        None \<Rightarrow> r
      | Some fs \<Rightarrow> if fs = [] then r else fold (\<lambda>f p. case js_get r f of None \<Rightarrow> p | Some c \<Rightarrow> js_set p f c) fs [])"

datatype related = One "row option" | Many "row list"

datatype join_error = Relation_not_defined string

definition operand_of :: "db_cell \<Rightarrow> where_value" where
  "operand_of c = (case c of Prim p \<Rightarrow> W_prim p | Obj j \<Rightarrow> W_filter no_filter)"

definition join_row :: "db_env \<Rightarrow> relation_def \<Rightarrow> where_clause \<Rightarrow> string list option \<Rightarrow> db_table \<Rightarrow> row \<Rightarrow> row \<times> related" where
  "join_row E rel w select target parent =
     (let foreignVal = get_field parent (rl_foreignKey rel);
          clause = foldl (\<lambda>m (f, ex). js_set m f ex) [(rl_targetKey rel, operand_of foreignVal)] w in
      (parent,
       if missing foreignVal then (if rl_type rel = HasMany then Many [] else One None)
       else if rl_type rel = HasMany then Many (map (projectFields select) (query E (where_options clause None) target))
       else (case query E (where_options clause (Some 1)) target of
               [] \<Rightarrow> One None
             | r # _ \<Rightarrow> One (Some (projectFields select r)))))"

definition executeJoin ::
  "db_env \<Rightarrow> string \<Rightarrow> string \<Rightarrow> where_clause \<Rightarrow> string list option \<Rightarrow> database \<Rightarrow> join_error + (row \<times> related) list" where
  "executeJoin E name relation w select d =
     (case js_get (relations_of name d) relation of
        None \<Rightarrow> Inl (Relation_not_defined relation)
      | Some rel \<Rightarrow> Inr (map (join_row E rel w select (resolve_table (rl_targetTable rel) d)) (getAll (resolve_table name d))))"

section \<open>Deletion with referential actions\<close>

text \<open>\<^verbatim>\<open>String(dep.id ?? dep._id ?? dep.key)\<close>\<close>

definition dep_id :: "row \<Rightarrow> string" where
  "dep_id r = js_string
     (if \<not> missing (get_field r ''id'') then get_field r ''id''
      else if \<not> missing (get_field r ''_id'') then get_field r ''_id'' else get_field r ''key'')"

datatype delete_outcome = Removed bool | Violation string nat string

definition referring_rows :: "db_env \<Rightarrow> relation_def \<Rightarrow> string \<Rightarrow> database \<Rightarrow> row list" where
  "referring_rows E rel i d = query E (where_options [(rl_targetKey rel, W_prim (Str i))] None) (resolve_table (rl_targetTable rel) d)"

fun delete_referring :: "(string \<Rightarrow> database \<Rightarrow> (delete_outcome \<times> database) option) \<Rightarrow> row list \<Rightarrow> database \<Rightarrow> (delete_outcome \<times> database) option" where
  "delete_referring del [] d = Some (Removed True, d)"
| "delete_referring del (r # rs) d =
     (if dep_id r = [] then delete_referring del rs d
      else (case del (dep_id r) d of
              None \<Rightarrow> None
            | Some (Removed b, d1) \<Rightarrow> delete_referring del rs d1
            | Some (Violation i n t, d1) \<Rightarrow> Some (Violation i n t, d1)))"

definition null_row :: "db_env \<Rightarrow> relation_def \<Rightarrow> row \<Rightarrow> database \<Rightarrow> database" where
  "null_row E rel r d =
     (if dep_id r = [] then d
      else set_table (rl_targetTable rel)
        (fst (put E (dep_id r) (js_set r (rl_targetKey rel) (Prim Null)) None (resolve_table (rl_targetTable rel) d))) d)"

fun handleParentDelete ::
  "db_env \<Rightarrow> (string \<Rightarrow> string \<Rightarrow> database \<Rightarrow> (delete_outcome \<times> database) option) \<Rightarrow> string \<Rightarrow> relation_def list \<Rightarrow> database \<Rightarrow>
   (delete_outcome \<times> database) option" where
  "handleParentDelete E del i [] d = Some (Removed True, d)"
| "handleParentDelete E del i (rel # rels) d =
     (let deps = referring_rows E rel i d in
      if deps = [] then handleParentDelete E del i rels d
      else (case rl_onDelete rel of
              Some CASCADE \<Rightarrow>
                (case delete_referring (del (rl_targetTable rel)) deps d of
                   None \<Rightarrow> None
                 | Some (Removed b, d1) \<Rightarrow> handleParentDelete E del i rels d1
                 | Some (Violation j n t, d1) \<Rightarrow> Some (Violation j n t, d1))
            | Some SET_NULL \<Rightarrow> handleParentDelete E del i rels (fold (null_row E rel) deps d)
            | _ \<Rightarrow> Some (Violation i (length deps) (rl_targetTable rel), d)))"

text \<open>What \<^verbatim>\<open>delete\<close> does after the cascade, with the row it read before.\<close>

definition finish_delete :: "db_env \<Rightarrow> string \<Rightarrow> row \<Rightarrow> db_table \<Rightarrow> db_table" where
  "finish_delete E i old T =
     walHook W_DELETE i None (emitChangeEvent C_DELETE i (Some old) None
       (clear_ttl i (recordAction A_DELETE i (Some old) None (set_active (\<lambda>m. js_del m i) (fst (deleteInternal E i T))))))"

fun cascade_delete :: "db_env \<Rightarrow> nat \<Rightarrow> string \<Rightarrow> string \<Rightarrow> database \<Rightarrow> (delete_outcome \<times> database) option" where
  "cascade_delete E 0 name i d = None"
| "cascade_delete E (Suc fuel) name i d =
     (case js_get (t_records (resolve_table name d)) i of
        None \<Rightarrow> Some (Removed False, d)
      | Some old \<Rightarrow>
          (case handleParentDelete E (cascade_delete E fuel) i (js_values (relations_of name d)) d of
             None \<Rightarrow> None
           | Some (Violation j n t, d1) \<Rightarrow> Some (Violation j n t, d1)
           | Some (Removed b, d1) \<Rightarrow> Some (Removed True, set_table name (finish_delete E i old (resolve_table name d1)) d1)))"

text \<open>Without relations it is the deletion of the table alone.\<close>

lemma cascade_delete_alone:
  "relations_of name d = [] \<Longrightarrow>
   map_option (\<lambda>(out, d'). (out, resolve_table name d')) (cascade_delete E (Suc fuel) name i d) =
     Some (Removed (snd (delete_row E i (resolve_table name d))), fst (delete_row E i (resolve_table name d)))"
  by (simp add: delete_row_def finish_delete_def set_table_def resolve_table_def split: option.split)

lemma delete_row_finish:
  "js_get (t_records T) i = Some old \<Longrightarrow> fst (delete_row E i T) = finish_delete E i old T"
  by (simp add: delete_row_def finish_delete_def)

section \<open>Deletions that do not return\<close>

text \<open>
  \<open>X\<close> holds rows whose table has a cascading relation first, and whose first dependent is in \<open>X\<close> again.
\<close>

definition cascade_step :: "db_env \<Rightarrow> database \<Rightarrow> string \<times> string \<Rightarrow> string \<times> string \<Rightarrow> bool" where
  "cascade_step E d p q \<longleftrightarrow>
     js_get (t_records (resolve_table (fst p) d)) (snd p) \<noteq> None \<and>
     (\<exists>rel rels r rs. js_values (relations_of (fst p) d) = rel # rels \<and> rl_onDelete rel = Some CASCADE \<and>
        referring_rows E rel (snd p) d = r # rs \<and> dep_id r \<noteq> [] \<and> q = (rl_targetTable rel, dep_id r))"

lemma cycle_diverges:
  "\<forall>p \<in> X. \<exists>q \<in> X. cascade_step E d p q \<Longrightarrow> (name, i) \<in> X \<Longrightarrow> cascade_delete E fuel name i d = None"
proof (induction fuel arbitrary: name i)
  case (Suc fuel)
  obtain q where "q \<in> X" and "cascade_step E d (name, i) q" using bspec [OF Suc.prems] by (rule bexE)
  then obtain rel rels r rs where x: "js_get (t_records (resolve_table name d)) i \<noteq> None" "js_values (relations_of name d) = rel # rels"
    "rl_onDelete rel = Some CASCADE" "referring_rows E rel i d = r # rs" "dep_id r \<noteq> []" "(rl_targetTable rel, dep_id r) \<in> X"
    unfolding cascade_step_def by force
  have "cascade_delete E fuel (rl_targetTable rel) (dep_id r) d = None" by (rule Suc.IH [OF Suc.prems(1) x(6)])
  then show ?case using x by (auto simp: Let_def split: option.split)
qed simp

end
