(* ===== verification/Db_Integrity.thy ===== *)
theory Db_Integrity
  imports Db_Relations
begin

text \<open>
  What a deletion with referential actions leaves behind: no row that refers to the deleted one, for databases whose
  rows hold their identifier under \<^verbatim>\<open>id\<close>, and nothing but rows removed and references cleared. Deletions around a
  cycle of cascading relations never return.
\<close>

declare map_of_eq_Some_iff [simp del]
declare Some_eq_map_of_iff [simp del]

section \<open>Well-formed databases\<close>

abbreviation rows_of :: "string \<Rightarrow> database \<Rightarrow> rows" where
  "rows_of name d \<equiv> t_records (resolve_table name d)"

definition row_named :: "string \<Rightarrow> row \<Rightarrow> bool" where
  "row_named i r \<longleftrightarrow> i \<noteq> [] \<and> get_field r ''id'' = Prim (Str i)"

definition relations_ok :: "database \<Rightarrow> bool" where
  "relations_ok d \<longleftrightarrow> list_all (\<lambda>(name, rs). list_all (\<lambda>(n, rel). rl_targetKey rel \<noteq> ''id'') rs) (d_relations d)"

definition related_table_ok :: "db_env \<Rightarrow> contract \<Rightarrow> db_table \<Rightarrow> bool" where
  "related_table_ok E K T \<longleftrightarrow> table_inv E K T \<and> t_computed T = [] \<and> t_schema T = None \<and> (\<forall>i r. js_get (t_records T) i = Some r \<longrightarrow> row_named i r)"

definition database_ok :: "db_env \<Rightarrow> (string \<Rightarrow> contract) \<Rightarrow> database \<Rightarrow> bool" where
  "database_ok E K d \<longleftrightarrow> relations_ok d \<and> (\<forall>name. related_table_ok E (K name) (resolve_table name d))"

definition refers :: "string \<Rightarrow> string \<Rightarrow> row \<Rightarrow> bool" where
  "refers f i r \<longleftrightarrow> get_field r f = Prim (Str i)"

text \<open>Rows are removed, or fields of them cleared.\<close>

definition row_cleared :: "row \<Rightarrow> row \<Rightarrow> bool" where
  "row_cleared r r' \<longleftrightarrow> (\<forall>f. get_field r' f = get_field r f \<or> get_field r' f = Prim Null)"

definition shrinks :: "database \<Rightarrow> database \<Rightarrow> bool" where
  "shrinks d d' \<longleftrightarrow> d_relations d' = d_relations d \<and>
     (\<forall>name i r'. js_get (rows_of name d') i = Some r' \<longrightarrow> (\<exists>r. js_get (rows_of name d) i = Some r \<and> row_cleared r r'))"

lemma row_cleared_refl [simp]: "row_cleared r r"
  by (simp add: row_cleared_def)

lemma row_cleared_trans: "row_cleared a b \<Longrightarrow> row_cleared b c \<Longrightarrow> row_cleared a c"
  unfolding row_cleared_def by metis

lemma shrinks_refl [simp]: "shrinks d d"
  by (auto simp: shrinks_def)

lemma shrinks_trans: "shrinks a b \<Longrightarrow> shrinks b c \<Longrightarrow> shrinks a c"
  unfolding shrinks_def by (intro conjI allI impI; simp) (blast intro: row_cleared_trans)

lemma shrinks_relations: "shrinks d d' \<Longrightarrow> relations_of name d' = relations_of name d"
  by (simp add: shrinks_def relations_of_def)

definition unreferenced :: "string \<Rightarrow> string \<Rightarrow> string \<Rightarrow> database \<Rightarrow> bool" where
  "unreferenced name f i d \<longleftrightarrow> (\<forall>k r. js_get (rows_of name d) k = Some r \<longrightarrow> \<not> refers f i r)"

lemma shrinks_unreferenced: "shrinks d d' \<Longrightarrow> unreferenced name f i d \<Longrightarrow> unreferenced name f i d'"
  unfolding shrinks_def unreferenced_def row_cleared_def refers_def by (metis db_cell.inject(1) prim.distinct(13))

lemma shrinks_absent: "shrinks d d' \<Longrightarrow> js_get (rows_of name d) i = None \<Longrightarrow> js_get (rows_of name d') i = None"
  unfolding shrinks_def by (metis not_None_eq)

section \<open>Tables in a database\<close>

lemma resolve_set [simp]: "resolve_table m (set_table name T d) = (if m = name then T else resolve_table m d)"
  by (simp add: resolve_table_def set_table_def)

lemma relations_set [simp]: "d_relations (set_table name T d) = d_relations d" "relations_of m (set_table name T d) = relations_of m d"
  by (simp_all add: set_table_def relations_of_def)

lemma related_table_ok_get: "related_table_ok E K T \<Longrightarrow> js_get (t_records T) i = Some r \<Longrightarrow> row_named i r \<and> fits K [] r"
  using table_invD(2) [of E K T i r] by (simp add: related_table_ok_def)

lemma row_named_id: "row_named i r \<Longrightarrow> dep_id r = i \<and> dep_id r \<noteq> []"
  by (simp add: row_named_def dep_id_def js_string_def missing_def)

lemma database_ok_set: "database_ok E K d \<Longrightarrow> related_table_ok E (K name) T \<Longrightarrow> database_ok E K (set_table name T d)"
  by (simp add: database_ok_def relations_ok_def)

lemma get_field_set [simp]: "get_field (js_set r f c) g = (if g = f then c else get_field r g)"
  by (simp add: get_field_def)

lemma relation_key:
  assumes "database_ok E K d" and "rel \<in> set (js_values (relations_of name d))"
  shows "rl_targetKey rel \<noteq> ''id''"
proof -
  obtain rs n where rs: "js_get (d_relations d) name = Some rs" "(n, rel) \<in> set rs"
    using assms(2) by (cases "js_get (d_relations d) name") (auto simp: relations_of_def)
  then have "(name, rs) \<in> set (d_relations d)" by (simp add: map_of_SomeD)
  then show ?thesis using assms(1) rs(2) by (fastforce simp: database_ok_def relations_ok_def list_all_iff)
qed

section \<open>Dependents\<close>

lemma clone_plain [simp]: "cloneRecordWithComputed [] r = r"
  by (simp add: cloneRecordWithComputed_def)

lemma referring_rows_iff:
  assumes "related_table_ok E K (resolve_table (rl_targetTable rel) d)"
  shows "r \<in> set (referring_rows E rel i d) \<longleftrightarrow> (\<exists>k. js_get (rows_of (rl_targetTable rel) d) k = Some r \<and> refers (rl_targetKey rel) i r)"
proof -
  let ?T = "resolve_table (rl_targetTable rel) d" and ?q = "where_options [(rl_targetKey rel, W_prim (Str i))] None"
  have inv: "table_inv E K ?T" and C: "t_computed ?T = []" using assms by (simp_all add: related_table_ok_def)
  have "mset (filter (query_matches E [] ?q) (qp_candidates (planQuery E ?q ?T))) = mset (filter (query_matches E [] ?q) (js_values (t_records ?T)))"
    using plan_finds_matches [OF inv, of ?q] by (simp add: C where_options_def safe_where_def)
  then have "set (filter (query_matches E [] ?q) (qp_candidates (planQuery E ?q ?T))) = set (filter (query_matches E [] ?q) (js_values (t_records ?T)))"
    by (rule mset_eq_setD)
  moreover have "set (referring_rows E rel i d) = set (filter (query_matches E [] ?q) (qp_candidates (planQuery E ?q ?T)))"
    by (simp add: referring_rows_def query_def Let_def filter_clauses_eq C where_options_def slice_all split: option.split)
  moreover have "query_matches E [] ?q r \<longleftrightarrow> refers (rl_targetKey rel) i r" for r
    by (simp add: query_matches_def where_options_def evaluateWhere_def value_matches_def refers_def resolveFieldValue_def get_field_def
        split: option.split)
  moreover have "js_wf (t_records ?T)" by (rule index_invD(1) [OF table_invD(1) [OF inv]])
  ultimately show ?thesis by (auto simp: js_get_Some_iff image_iff intro!: bexI [where x = "(_, r)"])
qed

section \<open>One row\<close>

lemma resolve_plain: "resolveFieldValue [] r f = get_field r f"
  by (simp add: resolveFieldValue_def get_field_def split: option.split)

lemma fits_null: "fits K [] r \<Longrightarrow> fits K [] (js_set r f (Prim Null))"
  by (auto simp: fits_def resolve_plain missing_def)

lemma records_effects [simp]:
  "t_records (walHook op i p T) = t_records T" "t_records (emitChangeEvent c i b a T) = t_records T"
  "t_records (clear_ttl i T) = t_records T" "t_records (recordAction act i b a T) = t_records T" "t_records (set_active g T) = t_records T"
  by (simp_all add: walHook_def emitChangeEvent_def clear_ttl_def recordAction_def set_active_def Let_def split: option.split)

lemma schema_effects [simp]:
  "t_schema (walHook op i p T) = t_schema T" "t_schema (emitChangeEvent c i b a T) = t_schema T" "t_schema (set_ttl i ttl T) = t_schema T"
  "t_schema (clear_ttl i T) = t_schema T" "t_schema (recordAction act i b a T) = t_schema T" "t_schema (set_active g T) = t_schema T"
  by (simp_all add: walHook_def emitChangeEvent_def clear_ttl_def set_ttl_def recordAction_def set_active_def Let_def split: option.split)

lemma finish_delete_ok:
  assumes "related_table_ok E K T" and "fits K [] old"
  shows "related_table_ok E K (finish_delete E i old T) \<and> t_records (finish_delete E i old T) = js_del (t_records T) i"
proof -
  let ?D = "fst (deleteInternal E i T)"
  have inv: "table_inv E K T" and plain: "t_computed T = []" "t_schema T = None" using assms(1) by (simp_all add: related_table_ok_def)
  have 1: "table_inv E K (set_active (\<lambda>m. js_del m i) ?D)"
    by (rule set_active_table_inv [OF deleteInternal_table_inv [OF inv]]) (auto simp: set_js_del)
  have "table_inv E K (recordAction A_DELETE i (Some old) None (set_active (\<lambda>m. js_del m i) ?D))"
    by (rule recordAction_table_inv [OF 1]) (simp add: deleteInternal_fields plain assms(2))
  then show ?thesis using assms(1) by (simp add: related_table_ok_def finish_delete_def unread deleteInternal_fields)
qed

lemma put_ok:
  assumes "related_table_ok E K T" and "fits K [] r" and "row_named i r"
  shows "related_table_ok E K (fst (put E i r None T)) \<and> t_records (fst (put E i r None T)) = js_set (t_records T) i r"
proof -
  have r: "valid_row E T r = r" using assms(1) by (simp add: valid_row_def validateAndCoerce_def related_table_ok_def)
  have "table_inv E K (fst (put E i r None T))" by (rule put_table_inv) (use assms r in \<open>simp_all add: related_table_ok_def\<close>)
  moreover have "t_records (fst (put E i r None T)) = js_set (t_records T) i r"
    by (simp add: put_def Let_def r putInternal_fields set_ttl_def)
  moreover have "t_computed (fst (put E i r None T)) = [] \<and> t_schema (fst (put E i r None T)) = None"
    using assms(1) by (simp add: put_def Let_def putInternal_fields related_table_ok_def set_ttl_def)
  ultimately show ?thesis using assms(1,3) by (simp add: related_table_ok_def)
qed

section \<open>Clearing references\<close>

text \<open>Rows \<open>r\<close> as \<open>d0\<close> holds them, in a database that has shrunk since.\<close>

lemma null_row_step:
  assumes "database_ok E K d" and "database_ok E K d0" and "shrinks d0 d" and "rl_targetKey rel \<noteq> ''id''"
    and "js_get (rows_of (rl_targetTable rel) d0) k = Some r"
  shows "database_ok E K (null_row E rel r d) \<and> shrinks d0 (null_row E rel r d) \<and>
    (\<forall>i. \<forall>j q. js_get (rows_of (rl_targetTable rel) (null_row E rel r d)) j = Some q \<longrightarrow> refers (rl_targetKey rel) i q \<longrightarrow>
       j \<noteq> k \<and> js_get (rows_of (rl_targetTable rel) d) j = Some q)"
proof -
  let ?t = "rl_targetTable rel" and ?r = "js_set r (rl_targetKey rel) (Prim Null)"
  have named: "row_named k r" "fits (K ?t) [] r"
    using related_table_ok_get [OF _ assms(5)] assms(2) by (auto simp: database_ok_def)
  have named': "row_named k ?r" using named(1) assms(4) by (simp add: row_named_def)
  have T: "related_table_ok E (K ?t) (resolve_table ?t d)" using assms(1) by (simp add: database_ok_def)
  note p = put_ok [OF T fits_null [OF named(2)] named']
  have eq: "null_row E rel r d = set_table ?t (fst (put E k ?r None (resolve_table ?t d))) d"
    using row_named_id [OF named(1)] by (auto simp: null_row_def)
  have cleared: "row_cleared r ?r" by (simp add: row_cleared_def)
  have "database_ok E K (null_row E rel r d)" unfolding eq using p database_ok_set [OF assms(1)] by blast
  moreover have "shrinks d0 (null_row E rel r d)"
    using assms(3,5) p cleared unfolding eq shrinks_def by auto
  ultimately show ?thesis using p unfolding eq by (auto simp: refers_def split: if_splits)
qed

lemma null_rows:
  assumes "database_ok E K d" and "database_ok E K d0" and "shrinks d0 d" and "rl_targetKey rel \<noteq> ''id''"
    and "\<forall>r \<in> set rs. \<exists>k. js_get (rows_of (rl_targetTable rel) d0) k = Some r"
  shows "database_ok E K (fold (null_row E rel) rs d) \<and> shrinks d0 (fold (null_row E rel) rs d) \<and>
    (\<forall>i. \<forall>j q. js_get (rows_of (rl_targetTable rel) (fold (null_row E rel) rs d)) j = Some q \<longrightarrow> refers (rl_targetKey rel) i q \<longrightarrow>
       (\<forall>r \<in> set rs. js_get (rows_of (rl_targetTable rel) d0) j \<noteq> Some r) \<and> js_get (rows_of (rl_targetTable rel) d) j = Some q)"
  using assms
proof (induction rs arbitrary: d)
  case (Cons r rs)
  obtain k where k: "js_get (rows_of (rl_targetTable rel) d0) k = Some r" using Cons.prems(5) by auto
  note s = null_row_step [OF Cons.prems(1-4) k]
  have rest: "\<forall>r \<in> set rs. \<exists>k. js_get (rows_of (rl_targetTable rel) d0) k = Some r" using Cons.prems(5) by simp
  note IH = Cons.IH [OF conjunct1 [OF s] Cons.prems(2) conjunct1 [OF conjunct2 [OF s]] Cons.prems(4) rest]
  have only: "j = k" if "js_get (rows_of (rl_targetTable rel) d0) j = Some r" for j
  proof -
    have T: "related_table_ok E (K (rl_targetTable rel)) (resolve_table (rl_targetTable rel) d0)" using Cons.prems(2) by (simp add: database_ok_def)
    show ?thesis using related_table_ok_get [OF T that] related_table_ok_get [OF T k] by (auto simp: row_named_def)
  qed
  show ?case using IH s only by (fastforce simp del: split_paired_All)
qed simp

section \<open>Deletions\<close>

definition deletes :: "db_env \<Rightarrow> (string \<Rightarrow> contract) \<Rightarrow> (string \<Rightarrow> string \<Rightarrow> database \<Rightarrow> (delete_outcome \<times> database) option) \<Rightarrow> bool" where
  "deletes E K del \<longleftrightarrow> (\<forall>name i d out d'. database_ok E K d \<longrightarrow> del name i d = Some (out, d') \<longrightarrow>
     database_ok E K d' \<and> shrinks d d' \<and> (\<forall>b. out = Removed b \<longrightarrow> js_get (rows_of name d') i = None))"

lemma deletesD:
  "deletes E K del \<Longrightarrow> database_ok E K d \<Longrightarrow> del name i d = Some (out, d') \<Longrightarrow>
   database_ok E K d' \<and> shrinks d d' \<and> (\<forall>b. out = Removed b \<longrightarrow> js_get (rows_of name d') i = None)"
  unfolding deletes_def by blast

lemma delete_rows_ok:
  assumes "deletes E K del" and "database_ok E K d" and "delete_referring (del t) rs d = Some (out, d')" and "\<forall>r \<in> set rs. dep_id r \<noteq> []"
  shows "database_ok E K d' \<and> shrinks d d' \<and> (\<forall>b. out = Removed b \<longrightarrow> (\<forall>r \<in> set rs. js_get (rows_of t d') (dep_id r) = None))"
  using assms(2-4)
proof (induction rs arbitrary: d)
  case (Cons r rs)
  obtain out1 d1 where d1: "del t (dep_id r) d = Some (out1, d1)"
    using Cons.prems(2,3) by (cases "del t (dep_id r) d") auto
  note D = deletesD [OF assms(1) Cons.prems(1) d1]
  show ?case
  proof (cases out1)
    case (Removed b)
    have rest: "delete_referring (del t) rs d1 = Some (out, d')" using Cons.prems(2,3) d1 Removed by simp
    have IH: "database_ok E K d' \<and> shrinks d1 d' \<and> (\<forall>b. out = Removed b \<longrightarrow> (\<forall>r \<in> set rs. js_get (rows_of t d') (dep_id r) = None))"
      by (rule Cons.IH [OF _ rest]) (use D Cons.prems(3) in simp_all)
    moreover have "js_get (rows_of t d') (dep_id r) = None" by (rule shrinks_absent [where d = d1]) (use IH D Removed in simp_all)
    ultimately show ?thesis using D shrinks_trans [of d d1 d'] by simp
  next
    case (Violation j n u)
    then have "out = Violation j n u \<and> d' = d1" using Cons.prems(2,3) d1 by auto
    then show ?thesis using D by simp
  qed
qed simp

text \<open>After the rows that refer to a row are gone, or their references cleared, none refers to it.\<close>

lemma cascaded_unreferenced:
  assumes "database_ok E K d" and "shrinks d d'"
    and "\<forall>r \<in> set (referring_rows E rel i d). js_get (rows_of (rl_targetTable rel) d') (dep_id r) = None"
  shows "unreferenced (rl_targetTable rel) (rl_targetKey rel) i d'"
  unfolding unreferenced_def
proof (intro allI impI notI)
  fix k q
  assume q: "js_get (rows_of (rl_targetTable rel) d') k = Some q" "refers (rl_targetKey rel) i q"
  then obtain r where r: "js_get (rows_of (rl_targetTable rel) d) k = Some r" "row_cleared r q" using assms(2) unfolding shrinks_def by blast
  have T: "related_table_ok E (K (rl_targetTable rel)) (resolve_table (rl_targetTable rel) d)" using assms(1) by (simp add: database_ok_def)
  have "get_field q (rl_targetKey rel) = get_field r (rl_targetKey rel)" using r(2) q(2) by (auto simp: row_cleared_def refers_def dest: spec [where x = "rl_targetKey rel"])
  then have "r \<in> set (referring_rows E rel i d)" using referring_rows_iff [OF T] r(1) q(2) by (auto simp: refers_def)
  moreover have "dep_id r = k" using row_named_id related_table_ok_get [OF T r(1)] by blast
  ultimately show False using assms(3) q(1) by auto
qed

lemma handleParentDelete_ok:
  assumes "deletes E K del" and "database_ok E K d" and "handleParentDelete E del i rels d = Some (out, d')"
    and "\<forall>rel \<in> set rels. rl_targetKey rel \<noteq> ''id''"
  shows "database_ok E K d' \<and> shrinks d d' \<and>
    (\<forall>b. out = Removed b \<longrightarrow> (\<forall>rel \<in> set rels. unreferenced (rl_targetTable rel) (rl_targetKey rel) i d'))"
  using assms(2-4)
proof (induction rels arbitrary: d)
  case (Cons rel rels)
  let ?t = "rl_targetTable rel" and ?deps = "referring_rows E rel i d"
  have T: "related_table_ok E (K ?t) (resolve_table ?t d)" using Cons.prems(1) by (simp add: database_ok_def)
  have deps: "\<forall>r \<in> set ?deps. \<exists>k. js_get (rows_of ?t d) k = Some r" "\<forall>r \<in> set ?deps. dep_id r \<noteq> []"
    using referring_rows_iff [OF T, of _ i] related_table_ok_get [OF T] row_named_id by blast+
  have step: ?case if d1: "database_ok E K d1" "shrinks d d1" "unreferenced ?t (rl_targetKey rel) i d1"
    and rest: "handleParentDelete E del i rels d1 = Some (out, d')" for d1
  proof -
    have IH: "database_ok E K d' \<and> shrinks d1 d' \<and>
        (\<forall>b. out = Removed b \<longrightarrow> (\<forall>rel \<in> set rels. unreferenced (rl_targetTable rel) (rl_targetKey rel) i d'))"
      by (rule Cons.IH [OF d1(1) rest]) (use Cons.prems(3) in simp)
    then show ?thesis using d1(2,3) shrinks_trans [of d d1 d'] shrinks_unreferenced [of d1 d'] by simp
  qed
  show ?case
  proof (cases "?deps = []")
    case True
    have "unreferenced ?t (rl_targetKey rel) i d" using referring_rows_iff [OF T, of _ i] True by (fastforce simp: unreferenced_def)
    then show ?thesis using step [of d] Cons.prems(1,2) True by simp
  next
    case False
    show ?thesis
    proof (cases "rl_onDelete rel = Some CASCADE")
      case True
      then obtain out1 d1 where d1: "delete_referring (del ?t) ?deps d = Some (out1, d1)"
        using Cons.prems(2) False by (cases "delete_referring (del ?t) ?deps d") (auto simp: Let_def)
      note D = delete_rows_ok [OF assms(1) Cons.prems(1) d1 deps(2)]
      show ?thesis
      proof (cases out1)
        case (Removed b)
        then have gone: "database_ok E K d1" "shrinks d d1" "\<forall>r \<in> set ?deps. js_get (rows_of ?t d1) (dep_id r) = None"
          using D by simp_all
        have "unreferenced ?t (rl_targetKey rel) i d1" by (rule cascaded_unreferenced [OF Cons.prems(1) gone(2,3)])
        moreover have "handleParentDelete E del i rels d1 = Some (out, d')"
          using Cons.prems(2) True False d1 Removed by (simp add: Let_def)
        ultimately show ?thesis by (rule step [OF gone(1,2)])
      next
        case (Violation j n u)
        then have "out = Violation j n u \<and> d' = d1" using Cons.prems(2) True False d1 by (auto simp: Let_def)
        then show ?thesis using D by simp
      qed
    next
      case not_cascade: False
      show ?thesis
      proof (cases "rl_onDelete rel = Some SET_NULL")
        case True
        let ?d1 = "fold (null_row E rel) ?deps d"
        have "rl_targetKey rel \<noteq> ''id''" using Cons.prems(3) by simp
        note N = null_rows [OF Cons.prems(1) Cons.prems(1) shrinks_refl this deps(1)]
        have "unreferenced ?t (rl_targetKey rel) i ?d1"
          unfolding unreferenced_def using N referring_rows_iff [OF T, of _ i] by blast
        moreover have "handleParentDelete E del i rels ?d1 = Some (out, d')" using Cons.prems(2) True False by (simp add: Let_def)
        ultimately show ?thesis by (rule step [OF conjunct1 [OF N] conjunct1 [OF conjunct2 [OF N]]])
      next
        case other: False
        then have "out = Violation i (length ?deps) ?t \<and> d' = d"
          using Cons.prems(2) not_cascade False by (auto simp: Let_def split: option.splits referential_action.splits)
        then show ?thesis using Cons.prems(1) by simp
      qed
    qed
  qed
qed simp

lemma cascade_removes:
  assumes "deletes E K (cascade_delete E fuel)" and "database_ok E K d" and "cascade_delete E (Suc fuel) name i d = Some (out, d')"
  shows "database_ok E K d' \<and> shrinks d d' \<and> (\<forall>b. out = Removed b \<longrightarrow> js_get (rows_of name d') i = None) \<and>
    (out = Removed True \<longrightarrow> (\<forall>rel \<in> set (js_values (relations_of name d)). unreferenced (rl_targetTable rel) (rl_targetKey rel) i d'))"
proof (cases "js_get (rows_of name d) i")
  case None
  then show ?thesis using assms(2,3) by auto
next
  case (Some old)
  have T: "related_table_ok E (K name) (resolve_table name d)" using assms(2) by (simp add: database_ok_def)
  obtain out1 d1 where d1: "handleParentDelete E (cascade_delete E fuel) i (js_values (relations_of name d)) d = Some (out1, d1)"
    using assms(3) Some by (cases "handleParentDelete E (cascade_delete E fuel) i (js_values (relations_of name d)) d") auto
  have "\<forall>rel \<in> set (js_values (relations_of name d)). rl_targetKey rel \<noteq> ''id''" using relation_key [OF assms(2)] by blast
  note H = handleParentDelete_ok [OF assms(1,2) d1 this]
  show ?thesis
  proof (cases out1)
    case (Removed b)
    let ?d2 = "set_table name (finish_delete E i old (resolve_table name d1)) d1"
    have out: "out = Removed True" "d' = ?d2" using assms(3) Some d1 Removed by simp_all
    have T1: "related_table_ok E (K name) (resolve_table name d1)" using H by (simp add: database_ok_def)
    note F = finish_delete_ok [OF T1 conjunct2 [OF related_table_ok_get [OF T Some]], of i]
    have "database_ok E K ?d2" by (rule database_ok_set) (use H F in simp_all)
    moreover have s: "shrinks d1 ?d2" using F by (auto simp: shrinks_def split: if_splits intro: row_cleared_refl)
    moreover have "js_get (rows_of name ?d2) i = None" using F by simp
    moreover have "shrinks d ?d2" using H s shrinks_trans by blast
    ultimately show ?thesis using H Removed shrinks_unreferenced [OF s] by (simp only: out) blast
  next
    case (Violation j n u)
    then have "out = Violation j n u \<and> d' = d1" using assms(3) Some d1 by auto
    then show ?thesis using H by simp
  qed
qed

lemma cascade_deletes: "deletes E K (cascade_delete E fuel)"
proof (induction fuel)
  case (Suc fuel)
  show ?case unfolding deletes_def
  proof (intro allI impI)
    fix name i d out d'
    assume ok: "database_ok E K d" and del: "cascade_delete E (Suc fuel) name i d = Some (out, d')"
    show "database_ok E K d' \<and> shrinks d d' \<and> (\<forall>b. out = Removed b \<longrightarrow> js_get (rows_of name d') i = None)"
      using cascade_removes [OF Suc ok del] by blast
  qed
qed (simp add: deletes_def)

section \<open>Referential integrity\<close>

text \<open>
  C16. In a database whose rows hold their non-empty identifier under \<^verbatim>\<open>id\<close>, whose relations target a field other than
  \<^verbatim>\<open>id\<close>, and whose tables are reached within a column contract and have neither computed columns nor a schema
  (\<open>database_ok\<close>), a deletion that succeeds removes the row, only removes rows and clears references in the others, leaves
  no row of a related table that refers to the deleted one, and leaves a database of the same kind. Rows without their
  identifier are excluded: such dependents are deleted under the wrong name and stay (\<open>unkeyed_dependents_stay\<close>).
\<close>

theorem deletion_leaves_no_reference:
  assumes "database_ok E K d" and "cascade_delete E fuel name i d = Some (Removed True, d')"
  shows "database_ok E K d' \<and> shrinks d d' \<and> js_get (rows_of name d') i = None \<and>
    (\<forall>rel \<in> set (js_values (relations_of name d)). unreferenced (rl_targetTable rel) (rl_targetKey rel) i d')"
proof (cases fuel)
  case (Suc n)
  show ?thesis using cascade_removes [OF cascade_deletes assms(1) assms(2) [unfolded Suc]] by blast
qed (use assms(2) in simp)

text \<open>A blog: users, their posts, which go with them, and their invoices, which they cannot go without.\<close>

definition bare_env :: db_env where
  "bare_env = \<lparr>env_toNumber = \<lambda>s. None, env_parseDate = \<lambda>s. None, env_regexp = \<lambda>p s. False\<rparr>"

definition any_contract :: contract where
  "any_contract = \<lparr>cc_kind = \<lambda>f. None, cc_trimmed = \<lambda>f. False\<rparr>"

definition blog_relation :: "string \<Rightarrow> referential_action \<Rightarrow> relation_def" where
  "blog_relation t a = \<lparr>rl_name = t, rl_type = HasMany, rl_targetTable = t, rl_foreignKey = ''id'', rl_targetKey = ''user'', rl_onDelete = Some a\<rparr>"

definition add_row :: "string \<Rightarrow> string \<Rightarrow> row \<Rightarrow> database \<Rightarrow> database" where
  "add_row name i r d = set_table name (fst (put bare_env i r None (resolve_table name d))) d"

definition blog :: "(string \<times> string \<times> string) list \<Rightarrow> relation_def list \<Rightarrow> database" where
  "blog rows rels =
     fold (\<lambda>(t, i, u). add_row t i [(''id'', Prim (Str i)), (''user'', Prim (Str u))]) rows
       \<lparr>d_tables = [], d_relations = [(''users'', map (\<lambda>rel. (rl_name rel, rel)) rels)]\<rparr>"

lemma any_fits: "fits any_contract [] r"
  by (simp add: fits_def any_contract_def)

lemma new_table_ok: "related_table_ok E K new_table"
  using new_table_inv [of E K "[]"] by (simp add: related_table_ok_def new_table_def)

lemma add_row_ok:
  assumes "database_ok bare_env (\<lambda>_. any_contract) d" and "row_named i r"
  shows "database_ok bare_env (\<lambda>_. any_contract) (add_row name i r d)"
proof -
  have "related_table_ok bare_env any_contract (resolve_table name d)" using assms(1) by (simp add: database_ok_def)
  from put_ok [OF this any_fits assms(2)] show ?thesis
    unfolding add_row_def by (intro database_ok_set [OF assms(1)]) simp
qed

lemma add_rows_ok:
  "database_ok bare_env (\<lambda>_. any_contract) d \<Longrightarrow> \<forall>p \<in> set rows. fst (snd p) \<noteq> [] \<Longrightarrow>
   database_ok bare_env (\<lambda>_. any_contract)
     (fold (\<lambda>(t, i, u). add_row t i [(''id'', Prim (Str i)), (''user'', Prim (Str u))]) rows d)"
proof (induction rows arbitrary: d)
  case (Cons p rows)
  have "database_ok bare_env (\<lambda>_. any_contract)
      (add_row (fst p) (fst (snd p)) [(''id'', Prim (Str (fst (snd p)))), (''user'', Prim (Str (snd (snd p))))] d)"
    by (rule add_row_ok) (use Cons.prems in \<open>simp_all add: row_named_def get_field_def\<close>)
  from Cons.IH [OF this] Cons.prems(2) show ?case by (simp add: case_prod_beta)
qed simp

lemma blog_ok:
  assumes "\<forall>rel \<in> set rels. rl_targetKey rel \<noteq> ''id''" and "\<forall>p \<in> set rows. fst (snd p) \<noteq> []"
  shows "database_ok bare_env (\<lambda>_. any_contract) (blog rows rels)"
  unfolding blog_def
  by (rule add_rows_ok [OF _ assms(2)])
    (use assms(1) new_table_ok in \<open>simp add: database_ok_def relations_ok_def list_all_iff resolve_table_def\<close>)

definition posts_cascade :: database where
  "posts_cascade = blog [(''users'', ''u1'', []), (''posts'', ''p1'', ''u1''), (''posts'', ''p2'', ''u2'')] [blog_relation ''posts'' CASCADE]"

lemma deletion_leaves_no_reference_witness:
  "\<exists>d'. cascade_delete bare_env 3 ''users'' ''u1'' posts_cascade = Some (Removed True, d') \<and> unreferenced ''posts'' ''user'' ''u1'' d'"
proof -
  have ok: "database_ok bare_env (\<lambda>_. any_contract) posts_cascade"
    unfolding posts_cascade_def by (rule blog_ok) (simp_all add: blog_relation_def)
  have "map_option fst (cascade_delete bare_env 3 ''users'' ''u1'' posts_cascade) = Some (Removed True)" by code_simp
  then obtain d' where d': "cascade_delete bare_env 3 ''users'' ''u1'' posts_cascade = Some (Removed True, d')" by auto
  have "js_values (relations_of ''users'' posts_cascade) = [blog_relation ''posts'' CASCADE]" by code_simp
  then have "unreferenced ''posts'' ''user'' ''u1'' d'"
    using deletion_leaves_no_reference [OF ok d'] by (simp add: blog_relation_def)
  then show ?thesis using d' by blast
qed

section \<open>Deletions that fail\<close>

text \<open>A restriction found after a cascade refuses the deletion when the posts are gone already.\<close>

lemma violation_after_cascade:
  "map_option (\<lambda>(out, d). (out, js_keys (rows_of ''users'' d), js_keys (rows_of ''posts'' d)))
     (cascade_delete bare_env 3 ''users'' ''u1''
       (blog [(''users'', ''u1'', []), (''posts'', ''p1'', ''u1''), (''invoices'', ''v1'', ''u1'')]
         [blog_relation ''posts'' CASCADE, blog_relation ''invoices'' RESTRICT])) =
   Some (Violation ''u1'' 1 ''invoices'', [''u1''], [])"
  by code_simp

text \<open>A dependent without identifier is deleted under the name \<^verbatim>\<open>undefined\<close>, that is, not at all.\<close>

lemma unkeyed_dependents_stay:
  "map_option (\<lambda>(out, d). (out, js_keys (rows_of ''users'' d), js_keys (rows_of ''posts'' d)))
     (cascade_delete bare_env 3 ''users'' ''u1''
       (add_row ''posts'' ''p1'' [(''user'', Prim (Str ''u1''))] (blog [(''users'', ''u1'', [])] [blog_relation ''posts'' CASCADE]))) =
   Some (Removed True, [], [''p1''])"
  by code_simp

text \<open>
  Around a cycle of rows whose tables cascade to the next, a deletion never returns: the row is removed only after its
  dependents, which come back to it.
\<close>

theorem cyclic_deletion_diverges:
  assumes "\<forall>p \<in> X. \<exists>q \<in> X. cascade_step E d p q" and "(name, i) \<in> X"
  shows "cascade_delete E fuel name i d = None"
  by (rule cycle_diverges [OF assms])

definition own_manager :: database where
  "own_manager = blog [(''users'', ''u1'', ''u1'')] [blog_relation ''users'' CASCADE]"

lemma cyclic_deletion_diverges_witness: "\<forall>fuel. cascade_delete bare_env fuel ''users'' ''u1'' own_manager = None"
proof -
  have "cascade_step bare_env own_manager (''users'', ''u1'') (''users'', ''u1'')"
  proof -
    have 1: "js_get (rows_of ''users'' own_manager) ''u1'' = Some [(''id'', Prim (Str ''u1'')), (''user'', Prim (Str ''u1''))]"
      "js_values (relations_of ''users'' own_manager) = [blog_relation ''users'' CASCADE]"
      "referring_rows bare_env (blog_relation ''users'' CASCADE) ''u1'' own_manager = [[(''id'', Prim (Str ''u1'')), (''user'', Prim (Str ''u1''))]]"
      "dep_id [(''id'', Prim (Str ''u1'')), (''user'', Prim (Str ''u1''))] = ''u1''" by code_simp+
    then show ?thesis by (simp add: cascade_step_def blog_relation_def)
  qed
  then show ?thesis using cyclic_deletion_diverges [where X = "{(''users'', ''u1'')}"] by blast
qed

end
