(* ===== verification/Btree_Index.thy ===== *)
theory Btree_Index
  imports Prelude
begin

text \<open>
  The index tree of BroccoliDB, \<^verbatim>\<open>BroccoliBTreeIndexEngine\<close> of
  \<^verbatim>\<open>src/sessions/extensions/substrate/broccolidb-btree-index-engine.ts\<close>: nodes with keys, values and children, split when
  they are full on the way down. The comparison of keys is an argument of the operations on nodes; \<open>compare_keys\<close> is the one the engine
  uses, with \<^verbatim>\<open>localeCompare\<close> and the text of a number as arguments. Every inner node has a child for each position of a key, so that
  the guards on the number of children below are never false.
\<close>

section \<open>Nodes\<close>

datatype btree_key = K_num int | K_text string

fun key_string :: "(int \<Rightarrow> string) \<Rightarrow> btree_key \<Rightarrow> string" where
  "key_string str (K_num n) = str n"
| "key_string str (K_text s) = s"

definition compare_keys :: "(string \<Rightarrow> string \<Rightarrow> int) \<Rightarrow> (int \<Rightarrow> string) \<Rightarrow> btree_key \<Rightarrow> btree_key \<Rightarrow> int" where
  "compare_keys lc str a b =
     (case (a, b) of (K_num m, K_num n) \<Rightarrow> m - n | _ \<Rightarrow> lc (key_string str a) (key_string str b))"

datatype ('k, 'v) btree_node =
  Btree_node (isLeaf: bool) (node_keys: "'k list") (node_values: "'v list") (node_children: "('k, 'v) btree_node list")

fun height :: "('k, 'v) btree_node \<Rightarrow> nat" where
  "height (Btree_node leaf ks vs cs) = Suc (foldr max (map height cs) 0)"

lemma foldr_max_le: "x \<in> set xs \<Longrightarrow> x \<le> foldr max xs (0::nat)"
  by (induction xs) auto

lemma height_child: "c \<in> set cs \<Longrightarrow> height c < height (Btree_node leaf ks vs cs)"
  using foldr_max_le [of "height c" "map height cs"] by auto

lemma foldr_max_mono: "set xs \<subseteq> set ys \<Longrightarrow> foldr max xs (0::nat) \<le> foldr max ys 0"
  by (induction xs) (auto simp: foldr_max_le)

section \<open>Positions of a key\<close>

text \<open>The first key that is not smaller, and, counted from the right, the place behind the last key that is not greater.\<close>

definition key_position :: "('k \<Rightarrow> 'k \<Rightarrow> int) \<Rightarrow> 'k \<Rightarrow> 'k list \<Rightarrow> nat" where
  "key_position cmp key ks = length (takeWhile (\<lambda>k. 0 < cmp key k) ks)"

definition key_slot :: "('k \<Rightarrow> 'k \<Rightarrow> int) \<Rightarrow> 'k \<Rightarrow> 'k list \<Rightarrow> nat" where
  "key_slot cmp key ks = length ks - length (takeWhile (\<lambda>k. cmp key k < 0) (rev ks))"

definition key_at :: "('k \<Rightarrow> 'k \<Rightarrow> int) \<Rightarrow> 'k \<Rightarrow> 'k list \<Rightarrow> nat \<Rightarrow> bool" where
  "key_at cmp key ks i \<longleftrightarrow> i < length ks \<and> cmp key (ks ! i) = 0"

section \<open>Search and update\<close>

function searchNode :: "('k \<Rightarrow> 'k \<Rightarrow> int) \<Rightarrow> ('k, 'v) btree_node \<Rightarrow> 'k \<Rightarrow> 'v option" where
  "searchNode cmp (Btree_node leaf ks vs cs) key =
     (let i = key_position cmp key ks in
      if key_at cmp key ks i then Some (vs ! i)
      else if leaf \<or> length cs \<le> i then None
      else searchNode cmp (cs ! i) key)"
  by pat_completeness auto
termination
  by (relation "measure (\<lambda>(cmp, t, key). height t)") (auto simp del: height.simps intro!: height_child)

function updateIfExists :: "('k \<Rightarrow> 'k \<Rightarrow> int) \<Rightarrow> ('k, 'v) btree_node \<Rightarrow> 'k \<Rightarrow> 'v \<Rightarrow> bool \<times> ('k, 'v) btree_node" where
  "updateIfExists cmp (Btree_node leaf ks vs cs) key v =
     (let i = key_position cmp key ks in
      if key_at cmp key ks i then (True, Btree_node leaf ks (vs[i := v]) cs)
      else if leaf \<or> length cs \<le> i then (False, Btree_node leaf ks vs cs)
      else (let (found, c) = updateIfExists cmp (cs ! i) key v in (found, Btree_node leaf ks vs (cs[i := c]))))"
  by pat_completeness auto
termination
  by (relation "measure (\<lambda>(cmp, t, key, v). height t)") (auto simp del: height.simps intro!: height_child)

section \<open>Insertion\<close>

text \<open>The two halves of a full node, with the key and the value between them.\<close>

fun split_node :: "('k, 'v) btree_node \<Rightarrow> ('k, 'v) btree_node \<times> 'k \<times> 'v \<times> ('k, 'v) btree_node" where
  "split_node (Btree_node leaf ks vs cs) =
     (let mid = length ks div 2 in
      (Btree_node leaf (take mid ks) (take mid vs) (if leaf then cs else take (Suc mid) cs), ks ! mid, vs ! mid,
       Btree_node leaf (drop (Suc mid) ks) (drop (Suc mid) vs) (if leaf then [] else drop (Suc mid) cs)))"

lemma split_node_height:
  "split_node t = (l, k, v, r) \<Longrightarrow> height l \<le> height t \<and> height r \<le> height t"
  by (cases t) (auto simp: Let_def intro!: foldr_max_mono imageI, (metis in_set_takeD in_set_dropD)+)

definition splice_at :: "nat \<Rightarrow> 'a \<Rightarrow> 'a list \<Rightarrow> 'a list" where
  "splice_at i x xs = take i xs @ x # drop i xs"

text \<open>The child at the index replaced by two, with a key and a value between them in the parent.\<close>

fun splitChild :: "('k, 'v) btree_node \<Rightarrow> nat \<Rightarrow> ('k, 'v) btree_node \<times> 'k \<times> 'v \<times> ('k, 'v) btree_node \<Rightarrow> ('k, 'v) btree_node" where
  "splitChild (Btree_node leaf ks vs cs) i (l, k, v, r) =
     Btree_node leaf (splice_at i k ks) (splice_at i v vs) (take i cs @ [l, r] @ drop (Suc i) cs)"

function insertNonFull :: "('k \<Rightarrow> 'k \<Rightarrow> int) \<Rightarrow> nat \<Rightarrow> ('k, 'v) btree_node \<Rightarrow> 'k \<Rightarrow> 'v \<Rightarrow> ('k, 'v) btree_node" where
  "insertNonFull cmp maxDegree (Btree_node leaf ks vs cs) key v =
     (let i = key_slot cmp key ks in
      if leaf then Btree_node leaf (splice_at i key ks) (splice_at i v vs) cs
      else if length cs \<le> i then Btree_node leaf ks vs cs
      else if maxDegree \<le> length (node_keys (cs ! i))
      then (case split_node (cs ! i) of
              (l, k, w, r) \<Rightarrow>
                if 0 < cmp key k
                then splitChild (Btree_node leaf ks vs cs) i (l, k, w, insertNonFull cmp maxDegree r key v)
                else splitChild (Btree_node leaf ks vs cs) i (insertNonFull cmp maxDegree l key v, k, w, r))
      else Btree_node leaf ks vs (cs[i := insertNonFull cmp maxDegree (cs ! i) key v]))"
  by pat_completeness auto
termination
proof (relation "measure (\<lambda>(cmp, d, t, key, v). height t)", goal_cases)
  case (2 cmp d leaf ks vs cs key v i l b k c w r)
  then show ?case using split_node_height [of "cs ! i" l k w r] height_child [of "cs ! i" cs leaf ks vs]
    by (auto simp del: height.simps)
next
  case (3 cmp d leaf ks vs cs key v i l b k c w r)
  then show ?case using split_node_height [of "cs ! i" l k w r] height_child [of "cs ! i" cs leaf ks vs]
    by (auto simp del: height.simps)
next
  case (4 cmp d leaf ks vs cs key v i)
  then show ?case using height_child [of "cs ! i" cs leaf ks vs] by (auto simp del: height.simps)
qed simp

section \<open>Deletion\<close>

definition remove_at :: "nat \<Rightarrow> 'a list \<Rightarrow> 'a list" where
  "remove_at i xs = take i xs @ drop (Suc i) xs"

function deleteKeyFromNode :: "('k \<Rightarrow> 'k \<Rightarrow> int) \<Rightarrow> ('k, 'v) btree_node \<Rightarrow> 'k \<Rightarrow> bool \<times> ('k, 'v) btree_node" where
  "deleteKeyFromNode cmp (Btree_node leaf ks vs cs) key =
     (let i = key_position cmp key ks in
      if key_at cmp key ks i then (True, Btree_node leaf (remove_at i ks) (remove_at i vs) cs)
      else if leaf \<or> length cs \<le> i then (False, Btree_node leaf ks vs cs)
      else (let (found, c) = deleteKeyFromNode cmp (cs ! i) key in (found, Btree_node leaf ks vs (cs[i := c]))))"
  by pat_completeness auto
termination
  by (relation "measure (\<lambda>(cmp, t, key). height t)") (auto simp del: height.simps intro!: height_child)

section \<open>Ranges\<close>

function collectRange :: "('k \<Rightarrow> 'k \<Rightarrow> int) \<Rightarrow> ('k, 'v) btree_node \<Rightarrow> 'k \<Rightarrow> 'k \<Rightarrow> ('k \<times> 'v) list" where
  "collectRange cmp (Btree_node leaf ks vs cs) lo hi =
     concat (map (\<lambda>i.
       (if \<not> leaf \<and> 0 \<le> cmp (ks ! i) lo \<and> i < length cs then collectRange cmp (cs ! i) lo hi else []) @
       (if 0 \<le> cmp (ks ! i) lo \<and> cmp (ks ! i) hi \<le> 0 then [(ks ! i, vs ! i)] else [])) [0..<length ks]) @
     (if \<not> leaf \<and> ks \<noteq> [] \<and> cmp (last ks) hi \<le> 0 \<and> length ks < length cs then collectRange cmp (cs ! length ks) lo hi else [])"
  by pat_completeness auto
termination
  by (relation "measure (\<lambda>(cmp, t, lo, hi). height t)") (auto simp del: height.simps intro!: height_child)

section \<open>The engine\<close>

record ('k, 'v) btree_index =
  bx_root :: "('k, 'v) btree_node"
  bx_maxDegree :: nat
  bx_count :: int

definition empty_leaf :: "('k, 'v) btree_node" where
  "empty_leaf = Btree_node True [] [] []"

definition new_btree :: "nat \<Rightarrow> ('k, 'v) btree_index" where
  "new_btree d = \<lparr>bx_root = empty_leaf, bx_maxDegree = max 4 d, bx_count = 0\<rparr>"

definition bt_insert :: "('k \<Rightarrow> 'k \<Rightarrow> int) \<Rightarrow> 'k \<Rightarrow> 'v \<Rightarrow> ('k, 'v) btree_index \<Rightarrow> ('k, 'v) btree_index" where
  "bt_insert cmp key v X =
     (let (found, root) = updateIfExists cmp (bx_root X) key v in
      if found then X\<lparr>bx_root := root\<rparr>
      else (let root' = (if bx_maxDegree X \<le> length (node_keys root) then splitChild (Btree_node False [] [] [root]) 0 (split_node root) else root) in
            X\<lparr>bx_root := insertNonFull cmp (bx_maxDegree X) root' key v, bx_count := bx_count X + 1\<rparr>))"

definition bt_search :: "('k \<Rightarrow> 'k \<Rightarrow> int) \<Rightarrow> 'k \<Rightarrow> ('k, 'v) btree_index \<Rightarrow> 'v option" where
  "bt_search cmp key X = searchNode cmp (bx_root X) key"

definition bt_delete :: "('k \<Rightarrow> 'k \<Rightarrow> int) \<Rightarrow> 'k \<Rightarrow> ('k, 'v) btree_index \<Rightarrow> bool \<times> ('k, 'v) btree_index" where
  "bt_delete cmp key X =
     (let (found, root) = deleteKeyFromNode cmp (bx_root X) key in
      (found, X\<lparr>bx_root := root, bx_count := (if found then bx_count X - 1 else bx_count X)\<rparr>))"

definition bt_rangeScan :: "('k \<Rightarrow> 'k \<Rightarrow> int) \<Rightarrow> 'k \<Rightarrow> 'k \<Rightarrow> ('k, 'v) btree_index \<Rightarrow> ('k \<times> 'v) list" where
  "bt_rangeScan cmp lo hi X = collectRange cmp (bx_root X) lo hi"

definition bt_clear :: "('k, 'v) btree_index \<Rightarrow> ('k, 'v) btree_index" where
  "bt_clear X = X\<lparr>bx_root := empty_leaf, bx_count := 0\<rparr>"

end
