(* ===== verification/Btree_Refinement.thy ===== *)
theory Btree_Refinement
  imports Btree_Index "HOL-Library.Multiset"
begin

text \<open>
  The tree implements a map: the entries of a tree in order are a sorted list of keys and values, and every operation does to them
  what it should. The order of keys is the interface \<open>key_comparison\<close>. A key held by an inner node is the exception: deleting it breaks the tree.
\<close>

section \<open>Entries in order\<close>

fun weave :: "'a list list \<Rightarrow> 'a list \<Rightarrow> 'a list" where
  "weave [] es = es"
| "weave (x # xs) [] = x @ concat xs"
| "weave (x # xs) (e # es) = x @ e # weave xs es"

fun inorder :: "('k, 'v) btree_node \<Rightarrow> ('k \<times> 'v) list" where
  "inorder (Btree_node leaf ks vs cs) = (if leaf then zip ks vs else weave (map inorder cs) (zip ks vs))"

fun shape :: "('k, 'v) btree_node \<Rightarrow> bool" where
  "shape (Btree_node leaf ks vs cs) \<longleftrightarrow> length vs = length ks \<and>
     (if leaf then cs = [] else ks \<noteq> [] \<and> length cs = Suc (length ks) \<and> (\<forall>c \<in> set cs. shape c))"

definition left_part :: "'a list list \<Rightarrow> 'a list \<Rightarrow> 'a list" where
  "left_part xs es = concat (map (\<lambda>(x, e). x @ [e]) (zip xs es))"

definition right_part :: "'a list \<Rightarrow> 'a list list \<Rightarrow> 'a list" where
  "right_part es xs = concat (map (\<lambda>(e, x). e # x) (zip es xs))"

lemma right_part_Cons: "right_part (e # es) (x # xs) = e # x @ right_part es xs"
  by (simp add: right_part_def)

lemma weave_right: "length xs = Suc (length es) \<Longrightarrow> weave xs es = hd xs @ right_part es (tl xs)"
proof (induction es arbitrary: xs)
  case Nil
  then obtain x where "xs = [x]" by (cases xs) auto
  then show ?case by (simp add: right_part_def)
next
  case (Cons e es)
  then obtain x y ys where "xs = x # y # ys" by (cases xs; cases "tl xs") auto
  then show ?case using Cons by (simp add: right_part_def)
qed

lemma weave_at: "length xs = Suc (length es) \<Longrightarrow> i \<le> length es \<Longrightarrow>
  weave xs es = left_part (take i xs) (take i es) @ xs ! i @ right_part (drop i es) (drop (Suc i) xs)"
proof (induction i arbitrary: xs es)
  case 0
  then show ?case by (cases xs) (simp_all add: weave_right left_part_def)
next
  case (Suc i)
  then obtain x e xs' es' where "xs = x # xs'" "es = e # es'" by (cases xs; cases es) auto
  then show ?case using Suc by (simp add: left_part_def)
qed

lemma mset_weave: "mset (weave xs es) = mset es + mset (concat xs)"
  by (induction xs es rule: weave.induct) simp_all

lemma set_weave: "set (weave xs es) = set es \<union> (\<Union>x \<in> set xs. set x)"
  using mset_weave [of xs es] by (metis set_append set_concat set_mset_mset set_mset_union)

lemma map_weave: "map f (weave xs es) = weave (map (map f) xs) (map f es)"
  by (induction xs es rule: weave.induct) (simp_all add: map_concat)

lemma weave_distinct: "distinct (map fst (weave xs es)) \<Longrightarrow> e \<in> set es \<Longrightarrow> x \<in> set xs \<Longrightarrow> fst e \<notin> fst ` set x"
proof -
  assume d: "distinct (map fst (weave xs es))" and e: "e \<in> set es" and x: "x \<in> set xs"
  have "mset (map fst (weave xs es)) = mset (map fst (es @ concat xs))" using mset_weave [of xs es] by simp
  then have "distinct (map fst (es @ concat xs))" using d mset_eq_imp_distinct_iff by metis
  then show ?thesis using e x by auto
qed

lemma splice_at_length [simp]: "i \<le> length xs \<Longrightarrow> length (splice_at i x xs) = Suc (length xs)"
  by (simp add: splice_at_def)

lemma zip_splice_at: "length ks = length vs \<Longrightarrow> i \<le> length ks \<Longrightarrow> zip (splice_at i k ks) (splice_at i v vs) = splice_at i (k, v) (zip ks vs)"
  by (simp add: splice_at_def zip_append take_zip drop_zip)

lemma weave_splice:
  assumes "length xs = Suc (length es)" and "i \<le> length es"
  shows "weave (take i xs @ [a, b] @ drop (Suc i) xs) (splice_at i e es) =
    left_part (take i xs) (take i es) @ a @ e # b @ right_part (drop i es) (drop (Suc i) xs)"
proof -
  let ?xs = "take i xs @ [a, b] @ drop (Suc i) xs" and ?es = "splice_at i e es"
  have "length ?xs = Suc (length ?es)" "i \<le> length ?es" using assms by (simp_all add: splice_at_def)
  from weave_at [OF this] show ?thesis using assms by (simp add: splice_at_def nth_append right_part_def)
qed

lemma weave_update:
  assumes "length xs = Suc (length es)" and "i \<le> length es"
  shows "weave (xs[i := a]) es = left_part (take i xs) (take i es) @ a @ right_part (drop i es) (drop (Suc i) xs)"
  using weave_at [of "xs[i := a]" es i] assms by simp

section \<open>Halves of a node\<close>

lemma split_inorder:
  assumes "shape t" and "split_node t = (l, k, v, r)" and "4 \<le> length (node_keys t)"
  shows "inorder t = inorder l @ (k, v) # inorder r \<and> shape l \<and> shape r"
proof (cases t)
  case (Btree_node leaf ks vs cs)
  let ?mid = "length ks div 2" and ?es = "zip ks vs"
  have len: "length vs = length ks" "?mid < length ks" "0 < ?mid" "Suc ?mid < length ks" using assms(1,3) Btree_node by auto
  have at: "?es = take ?mid ?es @ (k, v) # drop (Suc ?mid) ?es"
    using assms(2) Btree_node len id_take_nth_drop [of ?mid ?es] by (auto simp: Let_def)
  show ?thesis
  proof (cases leaf)
    case True
    then show ?thesis using assms(1,2) Btree_node len at by (auto simp: Let_def take_zip drop_zip)
  next
    case False
    let ?xs = "map inorder cs"
    have cs: "length ?xs = Suc (length ?es)" "?mid \<le> length ?es" "\<forall>c \<in> set cs. shape c" using assms(1) Btree_node False len by auto
    have l: "l = Btree_node False (take ?mid ks) (take ?mid vs) (take (Suc ?mid) cs)" and r: "r = Btree_node False (drop (Suc ?mid) ks) (drop (Suc ?mid) vs) (drop (Suc ?mid) cs)"
      using assms(2) Btree_node False by (auto simp: Let_def)
    have "inorder l = left_part (take ?mid ?xs) (take ?mid ?es) @ ?xs ! ?mid"
      using weave_at [of "take (Suc ?mid) ?xs" "take ?mid ?es" ?mid] cs len
      by (simp add: l take_map take_zip right_part_def min_def)
    moreover obtain X Y where XY: "drop (Suc ?mid) ?xs = X # Y" using cs len by (cases "drop (Suc ?mid) ?xs") auto
    moreover have "inorder r = X @ right_part (drop (Suc ?mid) ?es) Y"
      using weave_right [of "drop (Suc ?mid) ?xs" "drop (Suc ?mid) ?es"] cs len XY by (simp add: r drop_map drop_zip)
    moreover have "drop ?mid ?es = (k, v) # drop (Suc ?mid) ?es"
      using assms(2) Btree_node False len Cons_nth_drop_Suc [of ?mid ?es] by (auto simp: Let_def)
    moreover have "inorder t = left_part (take ?mid ?xs) (take ?mid ?es) @ ?xs ! ?mid @ right_part (drop ?mid ?es) (drop (Suc ?mid) ?xs)"
      using weave_at [OF cs(1,2)] Btree_node False by simp
    ultimately have "inorder t = inorder l @ (k, v) # inorder r" by (simp only: right_part_Cons append.assoc append_Cons)
    moreover have "shape l" "shape r" using cs len unfolding l r by (auto dest: in_set_takeD in_set_dropD)
    ultimately show ?thesis by simp
  qed
qed

section \<open>Sorted entries\<close>

definition ordered :: "('k \<Rightarrow> 'k \<Rightarrow> int) \<Rightarrow> 'k set \<Rightarrow> ('k \<times> 'v) list \<Rightarrow> bool" where
  "ordered cmp K es \<longleftrightarrow> sorted_wrt (\<lambda>a b. cmp (fst a) (fst b) < 0) es \<and> fst ` set es \<subseteq> K"

definition below :: "('k \<Rightarrow> 'k \<Rightarrow> int) \<Rightarrow> 'k \<Rightarrow> ('k \<times> 'v) list \<Rightarrow> bool" where
  "below cmp key es \<longleftrightarrow> (\<forall>e \<in> set es. 0 < cmp key (fst e))"

definition above :: "('k \<Rightarrow> 'k \<Rightarrow> int) \<Rightarrow> 'k \<Rightarrow> ('k \<times> 'v) list \<Rightarrow> bool" where
  "above cmp key es \<longleftrightarrow> (\<forall>e \<in> set es. cmp key (fst e) < 0)"

definition insert_entry :: "('k \<Rightarrow> 'k \<Rightarrow> int) \<Rightarrow> 'k \<Rightarrow> 'v \<Rightarrow> ('k \<times> 'v) list \<Rightarrow> ('k \<times> 'v) list" where
  "insert_entry cmp key v es = takeWhile (\<lambda>e. 0 < cmp key (fst e)) es @ (key, v) # dropWhile (\<lambda>e. 0 < cmp key (fst e)) es"

lemma ordered_append:
  "ordered cmp K (a @ b) \<longleftrightarrow> ordered cmp K a \<and> ordered cmp K b \<and> (\<forall>x \<in> set a. \<forall>y \<in> set b. cmp (fst x) (fst y) < 0)"
  by (auto simp: ordered_def sorted_wrt_append)

lemma ordered_Nil [simp]: "ordered cmp K []"
  by (simp add: ordered_def)

lemma ordered_part: "ordered cmp K (a @ b @ c) \<Longrightarrow> ordered cmp K b"
  by (simp add: ordered_append)

lemma ordered_Cons:
  "ordered cmp K (e # es) \<longleftrightarrow> fst e \<in> K \<and> ordered cmp K es \<and> (\<forall>y \<in> set es. cmp (fst e) (fst y) < 0)"
  by (auto simp: ordered_def)

lemma above_dropWhile: "above cmp key es \<Longrightarrow> takeWhile (\<lambda>e. 0 < cmp key (fst e)) es = [] \<and> dropWhile (\<lambda>e. 0 < cmp key (fst e)) es = es"
  by (cases es) (auto simp: above_def)

lemma insert_entry_between:
  assumes "below cmp key a" and "above cmp key c"
  shows "insert_entry cmp key v (a @ b @ c) = a @ insert_entry cmp key v b @ c"
proof -
  let ?P = "\<lambda>e. 0 < cmp key (fst e)"
  have a: "\<And>x. x \<in> set a \<Longrightarrow> ?P x" using assms(1) by (simp add: below_def)
  have "takeWhile ?P (b @ c) = takeWhile ?P b \<and> dropWhile ?P (b @ c) = dropWhile ?P b @ c"
  proof (cases "\<forall>x \<in> set b. ?P x")
    case True
    have "takeWhile ?P (b @ c) = b @ takeWhile ?P c" using True by (intro takeWhile_append2) simp
    moreover have "dropWhile ?P (b @ c) = dropWhile ?P c" using True by (intro dropWhile_append2) simp
    moreover have "takeWhile ?P b = b" "dropWhile ?P b = []" using True by (simp_all only: takeWhile_eq_all_conv dropWhile_eq_Nil_conv)
    ultimately show ?thesis using above_dropWhile [OF assms(2)] by (simp only: append_Nil2 append_Nil simp_thms)
  next
    case False
    then show ?thesis by (metis takeWhile_append1 dropWhile_append1)
  qed
  then show ?thesis using a by (simp add: insert_entry_def)
qed

section \<open>Orders of keys\<close>

locale key_comparison =
  fixes cmp :: "'k \<Rightarrow> 'k \<Rightarrow> int" and K :: "'k set"
  assumes cmp_eq: "a \<in> K \<Longrightarrow> b \<in> K \<Longrightarrow> cmp a b = 0 \<longleftrightarrow> a = b"
    and cmp_swap: "a \<in> K \<Longrightarrow> b \<in> K \<Longrightarrow> cmp a b < 0 \<longleftrightarrow> 0 < cmp b a"
    and cmp_trans: "a \<in> K \<Longrightarrow> b \<in> K \<Longrightarrow> c \<in> K \<Longrightarrow> cmp a b < 0 \<Longrightarrow> cmp b c < 0 \<Longrightarrow> cmp a c < 0"
begin

lemma ordered_K: "ordered cmp K es \<Longrightarrow> e \<in> set es \<Longrightarrow> fst e \<in> K"
  by (auto simp: ordered_def)

lemma ordered_distinct: "ordered cmp K es \<Longrightarrow> distinct (map fst es)"
proof (induction es)
  case (Cons e es)
  then have "fst e \<notin> fst ` set es" using cmp_eq by (fastforce simp: ordered_Cons dest: ordered_K)
  then show ?case using Cons by (simp add: ordered_Cons)
qed simp

lemma below_last:
  assumes "ordered cmp K (es @ [e])" and "key \<in> K" and "0 < cmp key (fst e)"
  shows "below cmp key (es @ [e])"
proof -
  have "0 < cmp key (fst x)" if "x \<in> set es" for x
  proof -
    have "cmp (fst x) (fst e) < 0" "fst x \<in> K" "fst e \<in> K" using assms(1) that by (auto simp: ordered_append ordered_Cons dest: ordered_K)
    then show ?thesis using cmp_trans [of "fst x" "fst e" key] cmp_swap assms(2,3) by blast
  qed
  then show ?thesis using assms(3) by (auto simp: below_def)
qed

lemma above_first:
  assumes "ordered cmp K (e # es)" and "key \<in> K" and "cmp key (fst e) < 0"
  shows "above cmp key (e # es)"
proof -
  have "cmp key (fst x) < 0" if "x \<in> set es" for x
    using that assms cmp_trans [of key "fst e" "fst x"] by (auto simp: ordered_Cons dest: ordered_K)
  then show ?thesis using assms(3) by (auto simp: above_def)
qed

text \<open>The child a key belongs to, and the entries to the left and to the right of it.\<close>

definition divides :: "'k \<Rightarrow> 'k list \<Rightarrow> nat \<Rightarrow> bool" where
  "divides key ks i \<longleftrightarrow> i \<le> length ks \<and> (0 < i \<longrightarrow> 0 < cmp key (ks ! (i - 1))) \<and> (i < length ks \<longrightarrow> cmp key (ks ! i) < 0)"

lemma child_between:
  assumes "shape (Btree_node False ks vs cs)" and "ordered cmp K (inorder (Btree_node False ks vs cs))" and "key \<in> K" and "divides key ks i"
  obtains a c where "inorder (Btree_node False ks vs cs) = a @ inorder (cs ! i) @ c"
    and "a = left_part (take i (map inorder cs)) (take i (zip ks vs))" and "c = right_part (drop i (zip ks vs)) (drop (Suc i) (map inorder cs))"
    and "below cmp key a" and "above cmp key c" and "ordered cmp K (inorder (cs ! i))" and "shape (cs ! i)" and "i < length cs" and "cs ! i \<in> set cs"
proof -
  let ?xs = "map inorder cs" and ?es = "zip ks vs"
  let ?a = "left_part (take i ?xs) (take i ?es)" and ?c = "right_part (drop i ?es) (drop (Suc i) ?xs)"
  have len: "length ?xs = Suc (length ?es)" "i \<le> length ?es" "length ?es = length ks" "length vs = length ks" "i < length cs"
    using assms(1,4) by (auto simp: divides_def)
  have t: "inorder (Btree_node False ks vs cs) = ?a @ inorder (cs ! i) @ ?c" using weave_at [OF len(1,2)] len(5) by simp
  have ord: "ordered cmp K ?a" "ordered cmp K (inorder (cs ! i))" "ordered cmp K ?c" using assms(2) unfolding t by (simp_all add: ordered_append)
  have "below cmp key ?a"
  proof (cases i)
    case 0
    then show ?thesis by (simp add: left_part_def below_def)
  next
    case (Suc j)
    have "?a = (left_part (take j ?xs) (take j ?es) @ ?xs ! j) @ [?es ! j]"
      using len by (simp add: Suc left_part_def take_Suc_conv_app_nth)
    moreover have "0 < cmp key (fst (?es ! j))" using len assms(4) by (simp add: divides_def Suc)
    ultimately show ?thesis using below_last [OF _ assms(3)] ord(1) by metis
  qed
  moreover have "above cmp key ?c"
  proof (cases "i < length ks")
    case True
    have "drop i ?es = ?es ! i # drop (Suc i) ?es" "fst (?es ! i) = ks ! i" using True len Cons_nth_drop_Suc [of i ?es] by simp_all
    moreover obtain x xs where "drop (Suc i) ?xs = x # xs" using True len by (cases "drop (Suc i) ?xs") auto
    ultimately have "?c = ?es ! i # (x @ right_part (drop (Suc i) ?es) xs)" by (simp add: right_part_Cons)
    then show ?thesis using above_first assms(3,4) ord(3) True \<open>fst (?es ! i) = ks ! i\<close> by (metis divides_def)
  next
    case False
    then show ?thesis using len by (simp add: right_part_def above_def)
  qed
  moreover have "shape (cs ! i)" using assms(1) len(5) by simp
  ultimately show ?thesis using that [OF t] ord(2) len(5) by simp
qed

end

section \<open>Search and update\<close>

definition update_entries :: "'k \<Rightarrow> 'v \<Rightarrow> ('k \<times> 'v) list \<Rightarrow> ('k \<times> 'v) list" where
  "update_entries key v es = map (\<lambda>e. if fst e = key then (key, v) else e) es"

lemma update_absent: "key \<notin> fst ` set es \<Longrightarrow> update_entries key v es = es"
  unfolding update_entries_def by (rule map_idI) auto

lemma update_append: "update_entries key v (a @ b) = update_entries key v a @ update_entries key v b"
  by (simp add: update_entries_def)

lemma update_weave: "update_entries key v (weave xs es) = weave (map (update_entries key v) xs) (update_entries key v es)"
  by (simp add: update_entries_def [abs_def] map_weave)

lemma update_keys: "map fst (update_entries key v es) = map fst es"
  by (auto simp: update_entries_def)

lemma update_zip: "distinct ks \<Longrightarrow> i < length ks \<Longrightarrow> length vs = length ks \<Longrightarrow> zip ks (vs[i := v]) = update_entries (ks ! i) v (zip ks vs)"
  by (rule nth_equalityI) (auto simp: update_entries_def nth_eq_iff_index_eq nth_list_update)

lemma node_entry: "shape (Btree_node leaf ks vs cs) \<Longrightarrow> i < length ks \<Longrightarrow> (ks ! i, vs ! i) \<in> set (inorder (Btree_node leaf ks vs cs))"
  by (auto simp: set_weave set_zip)

lemma node_keys_in:
  assumes "shape (Btree_node leaf ks vs cs)"
  shows "set ks \<subseteq> fst ` set (inorder (Btree_node leaf ks vs cs))"
proof
  fix k
  assume "k \<in> set ks"
  then obtain i where "i < length ks" "k = ks ! i" by (auto simp: in_set_conv_nth)
  then show "k \<in> fst ` set (inorder (Btree_node leaf ks vs cs))" using node_entry [OF assms] by (intro image_eqI [where x = "(ks ! i, vs ! i)"]) auto
qed

context key_comparison
begin

lemma position_divides: "\<not> key_at cmp key ks (key_position cmp key ks) \<Longrightarrow> divides key ks (key_position cmp key ks)"
proof -
  let ?P = "\<lambda>k. 0 < cmp key k"
  let ?i = "length (takeWhile ?P ks)"
  assume no: "\<not> key_at cmp key ks (key_position cmp key ks)"
  have "?P (ks ! (?i - 1))" if "0 < ?i"
  proof -
    have "takeWhile ?P ks ! (?i - 1) \<in> set (takeWhile ?P ks)" using that by (intro nth_mem) linarith
    then have "?P (takeWhile ?P ks ! (?i - 1))" using set_takeWhileD by fast
    moreover have "takeWhile ?P ks ! (?i - 1) = ks ! (?i - 1)" using that by (intro takeWhile_nth) linarith
    ultimately show ?thesis by simp
  qed
  moreover have "\<not> ?P (ks ! ?i)" if "?i < length ks" using that nth_length_takeWhile by blast
  ultimately show ?thesis using no length_takeWhile_le [of ?P ks] by (auto simp: divides_def key_position_def key_at_def)
qed

lemma slot_divides:
  assumes "set ks \<subseteq> K" and "key \<in> K" and "key \<notin> set ks"
  shows "divides key ks (key_slot cmp key ks)"
proof -
  let ?Q = "\<lambda>k. cmp key k < 0"
  let ?n = "length (takeWhile ?Q (rev ks))" and ?i = "key_slot cmp key ks"
  have n: "?n \<le> length ks" "?i = length ks - ?n" using length_takeWhile_le [of ?Q "rev ks"] by (simp_all add: key_slot_def)
  have "0 < cmp key (ks ! (?i - 1))" if "0 < ?i"
  proof -
    have lt: "?n < length (rev ks)" using that n by simp
    then have "\<not> ?Q (rev ks ! ?n)" using nth_length_takeWhile by blast
    moreover have "rev ks ! ?n = ks ! (?i - 1)" using lt n(2) by (simp add: rev_nth)
    moreover have "ks ! (?i - 1) \<in> set ks" using that n by simp
    ultimately show ?thesis using assms cmp_eq [of key "ks ! (?i - 1)"] by force
  qed
  moreover have "cmp key (ks ! ?i) < 0" if "?i < length ks"
  proof -
    have pos: "0 < ?n" using that n by linarith
    then have "takeWhile ?Q (rev ks) ! (?n - 1) \<in> set (takeWhile ?Q (rev ks))" by (intro nth_mem) linarith
    then have "?Q (takeWhile ?Q (rev ks) ! (?n - 1))" using set_takeWhileD by fast
    moreover have "takeWhile ?Q (rev ks) ! (?n - 1) = rev ks ! (?n - 1)" using pos by (intro takeWhile_nth) linarith
    moreover have "rev ks ! (?n - 1) = ks ! (length ks - Suc (?n - 1))" by (rule rev_nth) (use pos n in linarith)
    moreover have "length ks - Suc (?n - 1) = ?i" using pos n(2) by linarith
    ultimately show ?thesis by simp
  qed
  ultimately show ?thesis using n by (simp add: divides_def)
qed

lemma outside:
  assumes "key \<in> K"
  shows "below cmp key es \<Longrightarrow> key \<notin> fst ` set es" and "above cmp key es \<Longrightarrow> key \<notin> fst ` set es"
  using cmp_eq [OF assms assms] by (force simp: below_def above_def)+

lemma leaf_between:
  assumes "ordered cmp K es" and "key \<in> K" and "divides key (map fst es) i"
  shows "below cmp key (take i es) \<and> above cmp key (drop i es)"
proof -
  have ord: "ordered cmp K (take i es)" "ordered cmp K (drop i es)" using assms(1) by (metis append_take_drop_id ordered_append)+
  have "below cmp key (take i es)"
  proof (cases i)
    case (Suc j)
    then have "take i es = take j es @ [es ! j]" "0 < cmp key (fst (es ! j))" using assms(3) by (auto simp: divides_def take_Suc_conv_app_nth)
    then show ?thesis using below_last [OF _ assms(2)] ord(1) by metis
  qed (simp add: below_def)
  moreover have "above cmp key (drop i es)"
  proof (cases "i < length es")
    case True
    then have "drop i es = es ! i # drop (Suc i) es" "cmp key (fst (es ! i)) < 0" using assms(3) by (auto simp: divides_def Cons_nth_drop_Suc)
    then show ?thesis using above_first [OF _ assms(2)] ord(2) by metis
  qed (simp add: above_def)
  ultimately show ?thesis ..
qed

lemma leaf_absent:
  assumes "ordered cmp K (zip ks vs)" and "length vs = length ks" and "key \<in> K" and "divides key ks i"
  shows "key \<notin> set ks"
proof -
  let ?es = "zip ks vs"
  have "map fst ?es = ks" using assms(2) by simp
  then have "below cmp key (take i ?es) \<and> above cmp key (drop i ?es)" using leaf_between [OF assms(1,3)] assms(4) by metis
  then have "key \<notin> fst ` (set (take i ?es) \<union> set (drop i ?es))" using outside [OF assms(3)] by blast
  moreover have "set (take i ?es) \<union> set (drop i ?es) = set ?es" by (metis append_take_drop_id set_append)
  moreover have "fst ` set ?es = set ks" using \<open>map fst ?es = ks\<close> by (metis set_map)
  ultimately show ?thesis by simp
qed

lemma searchNode_correct:
  "shape t \<Longrightarrow> ordered cmp K (inorder t) \<Longrightarrow> key \<in> K \<Longrightarrow> searchNode cmp t key = map_of (inorder t) key"
proof (induction t)
  case (Btree_node leaf ks vs cs)
  let ?t = "Btree_node leaf ks vs cs" and ?i = "key_position cmp key ks"
  show ?case
  proof (cases "key_at cmp key ks ?i")
    case True
    then have at: "(ks ! ?i, vs ! ?i) \<in> set (inorder ?t)" "?i < length ks" "cmp key (ks ! ?i) = 0" using node_entry [OF Btree_node.prems(1)] by (auto simp: key_at_def)
    then have "ks ! ?i = key" using cmp_eq Btree_node.prems(2,3) ordered_K by fastforce
    then have "map_of (inorder ?t) key = Some (vs ! ?i)" using map_of_is_SomeI [OF ordered_distinct [OF Btree_node.prems(2)] at(1)] by simp
    then show ?thesis using True by (simp del: inorder.simps)
  next
    case False
    note div = position_divides [OF False]
    show ?thesis
    proof (cases leaf)
      case True
      then have "key \<notin> set ks" using leaf_absent Btree_node.prems div by auto
      then have "map_of (zip ks vs) key = None" using Btree_node.prems(1) by simp
      then show ?thesis using True False by simp
    next
      case inner: False
      then obtain a c where b: "inorder ?t = a @ inorder (cs ! ?i) @ c" "below cmp key a" "above cmp key c"
        "ordered cmp K (inorder (cs ! ?i))" "shape (cs ! ?i)" "?i < length cs" "cs ! ?i \<in> set cs"
        using child_between [of ks vs cs key ?i] Btree_node.prems div by auto
      have "map_of (inorder ?t) key = map_of (inorder (cs ! ?i)) key"
      proof -
        have "map_of a key = None" "map_of c key = None" using outside [OF Btree_node.prems(3)] b(2,3) by (simp_all add: map_of_eq_None_iff)
        then show ?thesis unfolding b(1) by (simp add: map_add_def split: option.split)
      qed
      then show ?thesis using Btree_node.IH [OF b(7,5,4) Btree_node.prems(3)] False inner b(6) by (simp del: inorder.simps)
    qed
  qed
qed

lemma updateIfExists_correct:
  "shape t \<Longrightarrow> ordered cmp K (inorder t) \<Longrightarrow> key \<in> K \<Longrightarrow> updateIfExists cmp t key v = (b, t') \<Longrightarrow>
   shape t' \<and> (b \<longleftrightarrow> key \<in> fst ` set (inorder t)) \<and> inorder t' = update_entries key v (inorder t)"
proof (induction t arbitrary: b t')
  case (Btree_node leaf ks vs cs)
  let ?t = "Btree_node leaf ks vs cs" and ?i = "key_position cmp key ks" and ?es = "zip ks vs"
  have len: "length vs = length ks" using Btree_node.prems(1) by simp
  show ?case
  proof (cases "key_at cmp key ks ?i")
    case True
    then have t': "b" "t' = Btree_node leaf ks (vs[?i := v]) cs" using Btree_node.prems(4) by auto
    have at: "(ks ! ?i, vs ! ?i) \<in> set (inorder ?t)" "?i < length ks" "cmp key (ks ! ?i) = 0" using True node_entry [OF Btree_node.prems(1)] by (auto simp: key_at_def)
    then have key: "ks ! ?i = key" using cmp_eq Btree_node.prems(2,3) ordered_K by fastforce
    then have mem: "key \<in> fst ` set (inorder ?t)" using at(1) by force
    have d: "distinct (map fst (inorder ?t))" by (rule ordered_distinct [OF Btree_node.prems(2)])
    have "inorder t' = update_entries key v (inorder ?t)"
    proof (cases leaf)
      case True
      then show ?thesis using update_zip [of ks ?i vs v] d at(2) key t' len by simp
    next
      case False
      let ?xs = "map inorder cs"
      have d': "distinct (map fst (weave ?xs ?es))" using d False by simp
      then have "distinct (map fst ?es)"
        by (metis distinct_append map_append mset_append mset_eq_imp_distinct_iff mset_map mset_weave)
      then have z: "zip ks (vs[?i := v]) = update_entries key v ?es" using update_zip [of ks ?i vs v] at(2) key len by simp
      have "?es ! ?i \<in> set ?es" "fst (?es ! ?i) = key" using at(2) len key by (auto simp: in_set_conv_nth)
      then have absent: "key \<notin> fst ` set x" if "x \<in> set ?xs" for x using weave_distinct [OF d' _ that] by blast
      have own: "map (update_entries key v) ?xs = ?xs" by (rule map_idI) (rule update_absent, rule absent)
      have "inorder t' = weave ?xs (update_entries key v ?es)" using z False t' by simp
      also have "\<dots> = update_entries key v (weave ?xs ?es)" unfolding update_weave own ..
      finally show ?thesis using False by simp
    qed
    then show ?thesis using t' mem Btree_node.prems(1) by (simp del: inorder.simps)
  next
    case False
    note div = position_divides [OF False]
    show ?thesis
    proof (cases leaf)
      case True
      then have "key \<notin> set ks" using leaf_absent Btree_node.prems div by auto
      then have absent: "key \<notin> fst ` set (inorder ?t)" using True len by (auto dest: set_zip_leftD)
      show ?thesis using True False Btree_node.prems(1,4) absent update_absent [OF absent, of v] by (auto simp del: inorder.simps)
    next
      case inner: False
      then obtain a c where x: "inorder ?t = a @ inorder (cs ! ?i) @ c"
        "a = left_part (take ?i (map inorder cs)) (take ?i ?es)" "c = right_part (drop ?i ?es) (drop (Suc ?i) (map inorder cs))"
        "below cmp key a" "above cmp key c" "ordered cmp K (inorder (cs ! ?i))" "shape (cs ! ?i)" "?i < length cs" "cs ! ?i \<in> set cs"
        using child_between [of ks vs cs key ?i] Btree_node.prems div by auto
      obtain u where u: "updateIfExists cmp (cs ! ?i) key v = (b, u)" "t' = Btree_node leaf ks vs (cs[?i := u])"
        using Btree_node.prems(4) False inner x(8) by (auto simp: Let_def split: prod.splits)
      have IH: "shape u" "b \<longleftrightarrow> key \<in> fst ` set (inorder (cs ! ?i))" "inorder u = update_entries key v (inorder (cs ! ?i))"
        using Btree_node.IH [OF x(9,7,6) Btree_node.prems(3) u(1)] by auto
      have "inorder t' = a @ inorder u @ c"
        using weave_update [of "map inorder cs" ?es ?i "inorder u"] Btree_node.prems(1) inner div u(2)
        by (simp add: x(2,3) map_update divides_def)
      moreover have "key \<notin> fst ` set a" "key \<notin> fst ` set c" using outside [OF Btree_node.prems(3)] x(4,5) by blast+
      ultimately show ?thesis using IH Btree_node.prems(1) inner u(2) unfolding x(1)
        by (auto simp: update_append update_absent set_update_memI dest: set_update_subset_insert [THEN subsetD])
    qed
  qed
qed

end

section \<open>Insertion\<close>

lemma insert_entry_middle:
  "below cmp key (a @ [e]) \<Longrightarrow> insert_entry cmp key v (a @ e # b) = a @ e # insert_entry cmp key v b"
  "above cmp key (e # b) \<Longrightarrow> insert_entry cmp key v (a @ e # b) = insert_entry cmp key v a @ e # b"
  using insert_entry_between [of cmp key "a @ [e]" "[]" v b] insert_entry_between [of cmp key "[]" "e # b" v a] by (simp_all add: above_def below_def)

lemma insert_entry_take:
  assumes "below cmp key (take i es)" and "above cmp key (drop i es)"
  shows "insert_entry cmp key v es = splice_at i (key, v) es"
  using insert_entry_between [of cmp key "take i es" "drop i es" v "[]"] assms by (simp add: insert_entry_def splice_at_def)

lemma shape_split:
  assumes "shape (Btree_node leaf ks vs cs)" and "\<not> leaf" and "i < length cs" and "shape l" and "shape r"
  shows "shape (splitChild (Btree_node leaf ks vs cs) i (l, k, w, r))"
  using assms by (auto simp: splice_at_def dest: in_set_takeD in_set_dropD)

lemma inorder_split:
  assumes "shape (Btree_node False ks vs cs)" and "i \<le> length ks"
  shows "inorder (splitChild (Btree_node False ks vs cs) i (l, k, w, r)) =
    left_part (take i (map inorder cs)) (take i (zip ks vs)) @ inorder l @ (k, w) # inorder r @
    right_part (drop i (zip ks vs)) (drop (Suc i) (map inorder cs))"
  using weave_splice [of "map inorder cs" "zip ks vs" i "inorder l" "inorder r" "(k, w)"] assms zip_splice_at [of ks vs i k w]
  by (simp add: take_map drop_map)

context key_comparison
begin

lemma insertNonFull_correct:
  assumes "4 \<le> d"
  shows "shape t \<Longrightarrow> ordered cmp K (inorder t) \<Longrightarrow> key \<in> K \<Longrightarrow> key \<notin> fst ` set (inorder t) \<Longrightarrow>
    shape (insertNonFull cmp d t key v) \<and> inorder (insertNonFull cmp d t key v) = insert_entry cmp key v (inorder t)"
proof (induction t rule: measure_induct_rule [where f = height])
  case (less t)
  obtain leaf ks vs cs where t: "t = Btree_node leaf ks vs cs" by (cases t)
  let ?i = "key_slot cmp key ks" and ?es = "zip ks vs"
  have len: "length vs = length ks" using less.prems(1) t by simp
  have "set ks \<subseteq> fst ` set (inorder t)" using node_keys_in less.prems(1) unfolding t by blast
  then have ks: "set ks \<subseteq> K" "key \<notin> set ks" using less.prems(2,4) by (auto simp: ordered_def)
  note div = slot_divides [OF ks(1) less.prems(3) ks(2)]
  show ?case
  proof (cases leaf)
    case True
    then have "below cmp key (take ?i ?es) \<and> above cmp key (drop ?i ?es)"
      using leaf_between [of ?es key ?i] less.prems(2,3) div len by (simp add: t)
    then have "insert_entry cmp key v ?es = splice_at ?i (key, v) ?es" by (metis insert_entry_take)
    then show ?thesis using True less.prems(1) div zip_splice_at [of ks vs ?i key v] by (simp add: t divides_def Let_def)
  next
    case False
    then obtain a c where x: "inorder t = a @ inorder (cs ! ?i) @ c"
      "a = left_part (take ?i (map inorder cs)) (take ?i ?es)" "c = right_part (drop ?i ?es) (drop (Suc ?i) (map inorder cs))"
      "below cmp key a" "above cmp key c" "ordered cmp K (inorder (cs ! ?i))" "shape (cs ! ?i)" "?i < length cs" "cs ! ?i \<in> set cs"
      using child_between [of ks vs cs key ?i] less.prems(1,2,3) div unfolding t by (metis (full_types))
    have absent: "key \<notin> fst ` set (inorder (cs ! ?i))" using less.prems(4) unfolding x(1) by auto
    have ins: "insert_entry cmp key v (inorder t) = a @ insert_entry cmp key v (inorder (cs ! ?i)) @ c"
      unfolding x(1) by (rule insert_entry_between [OF x(4,5)])
    have small: "height (cs ! ?i) < height t" unfolding t by (rule height_child [OF x(9)])
    have sh: "shape (Btree_node False ks vs cs)" "?i \<le> length ks" using less.prems(1) div t False by (simp_all add: divides_def)
    show ?thesis
    proof (cases "d \<le> length (node_keys (cs ! ?i))")
      case full: True
      obtain l k w r where split: "split_node (cs ! ?i) = (l, k, w, r)" by (cases "split_node (cs ! ?i)")
      have parts: "inorder (cs ! ?i) = inorder l @ (k, w) # inorder r" "shape l" "shape r"
        using split_inorder [OF x(7) split] full assms by auto
      have ord: "ordered cmp K (inorder l)" "ordered cmp K (inorder r)" "ordered cmp K (inorder l @ [(k, w)])" "ordered cmp K ((k, w) # inorder r)" "k \<in> K"
        using x(6) unfolding parts(1) by (auto simp: ordered_append ordered_Cons)
      have heights: "height l < height t" "height r < height t" using split_node_height [OF split] small by auto
      have no: "key \<notin> fst ` set (inorder l)" "key \<notin> fst ` set (inorder r)" "key \<noteq> k" using absent unfolding parts(1) by auto
      show ?thesis
      proof (cases "0 < cmp key k")
        case True
        have eq: "insertNonFull cmp d t key v = splitChild (Btree_node False ks vs cs) ?i (l, k, w, insertNonFull cmp d r key v)"
          using False full split True x(8) by (simp add: t Let_def)
        have IH: "shape (insertNonFull cmp d r key v)" "inorder (insertNonFull cmp d r key v) = insert_entry cmp key v (inorder r)"
          using less.IH [OF heights(2) parts(3) ord(2) less.prems(3) no(2)] by auto
        have "insert_entry cmp key v (inorder (cs ! ?i)) = inorder l @ (k, w) # insert_entry cmp key v (inorder r)"
          unfolding parts(1) by (rule insert_entry_middle(1)) (use below_last [OF ord(3) less.prems(3)] True in simp)
        then have "inorder (insertNonFull cmp d t key v) = insert_entry cmp key v (inorder t)"
          unfolding eq inorder_split [OF sh] ins by (simp add: IH(2) x(2,3))
        moreover have "shape (insertNonFull cmp d t key v)" unfolding eq by (rule shape_split [OF sh(1) _ x(8) parts(2) IH(1)]) simp
        ultimately show ?thesis by blast
      next
        case less_key: False
        then have lt: "cmp key k < 0" using cmp_eq [OF less.prems(3) ord(5)] no(3) by force
        have eq: "insertNonFull cmp d t key v = splitChild (Btree_node False ks vs cs) ?i (insertNonFull cmp d l key v, k, w, r)"
          using False full split less_key x(8) by (simp add: t Let_def)
        have IH: "shape (insertNonFull cmp d l key v)" "inorder (insertNonFull cmp d l key v) = insert_entry cmp key v (inorder l)"
          using less.IH [OF heights(1) parts(2) ord(1) less.prems(3) no(1)] by auto
        have "insert_entry cmp key v (inorder (cs ! ?i)) = insert_entry cmp key v (inorder l) @ (k, w) # inorder r"
          unfolding parts(1) by (rule insert_entry_middle(2)) (use above_first [OF ord(4) less.prems(3)] lt in simp)
        then have "inorder (insertNonFull cmp d t key v) = insert_entry cmp key v (inorder t)"
          unfolding eq inorder_split [OF sh] ins by (simp add: IH(2) x(2,3))
        moreover have "shape (insertNonFull cmp d t key v)" unfolding eq by (rule shape_split [OF sh(1) _ x(8) IH(1) parts(3)]) simp
        ultimately show ?thesis by blast
      qed
    next
      case room: False
      let ?u = "insertNonFull cmp d (cs ! ?i) key v"
      have eq: "insertNonFull cmp d t key v = Btree_node False ks vs (cs[?i := ?u])" using False room x(8) by (simp add: t Let_def)
      have IH: "shape ?u" "inorder ?u = insert_entry cmp key v (inorder (cs ! ?i))"
        using less.IH [OF small x(7,6) less.prems(3) absent] by auto
      have "inorder (insertNonFull cmp d t key v) = a @ inorder ?u @ c"
        using weave_update [of "map inorder cs" ?es ?i "inorder ?u"] sh unfolding eq by (simp add: x(2,3) map_update)
      moreover have "shape (insertNonFull cmp d t key v)"
        using sh(1) IH(1) unfolding eq by (auto dest: set_update_subset_insert [THEN subsetD])
      ultimately show ?thesis unfolding ins IH(2) by blast
    qed
  qed
qed

end

section \<open>Deletion\<close>

fun inner_keys :: "('k, 'v) btree_node \<Rightarrow> 'k set" where
  "inner_keys (Btree_node leaf ks vs cs) = (if leaf then {} else set ks \<union> (\<Union>c \<in> set cs. inner_keys c))"

definition without_key :: "'k \<Rightarrow> ('k \<times> 'v) list \<Rightarrow> ('k \<times> 'v) list" where
  "without_key key es = filter (\<lambda>e. fst e \<noteq> key) es"

lemma without_absent: "key \<notin> fst ` set es \<Longrightarrow> without_key key es = es"
  unfolding without_key_def by (rule filter_True) auto

lemma without_append: "without_key key (a @ b) = without_key key a @ without_key key b"
  by (simp add: without_key_def)

lemma without_remove_at:
  assumes "distinct (map fst es)" and "i < length es"
  shows "without_key (fst (es ! i)) es = remove_at i es"
proof -
  have es: "es = take i es @ es ! i # drop (Suc i) es" using assms(2) by (simp add: id_take_nth_drop)
  then have "distinct (map fst (take i es) @ fst (es ! i) # map fst (drop (Suc i) es))" using assms(1) by (metis list.simps(9) map_append)
  then have no: "fst (es ! i) \<notin> fst ` set (take i es)" "fst (es ! i) \<notin> fst ` set (drop (Suc i) es)" by auto
  have "without_key (fst (es ! i)) (take i es @ es ! i # drop (Suc i) es) =
      without_key (fst (es ! i)) (take i es) @ without_key (fst (es ! i)) (drop (Suc i) es)" by (simp add: without_key_def)
  also have "\<dots> = take i es @ drop (Suc i) es" unfolding without_absent [OF no(1)] without_absent [OF no(2)] ..
  finally show ?thesis using es by (simp add: remove_at_def)
qed

lemma zip_remove_at: "length vs = length ks \<Longrightarrow> zip (remove_at i ks) (remove_at i vs) = remove_at i (zip ks vs)"
  by (simp add: remove_at_def zip_append take_zip drop_zip)

context key_comparison
begin

lemma deleteKeyFromNode_correct:
  "shape t \<Longrightarrow> ordered cmp K (inorder t) \<Longrightarrow> key \<in> K \<Longrightarrow> key \<notin> inner_keys t \<Longrightarrow> deleteKeyFromNode cmp t key = (b, t') \<Longrightarrow>
   shape t' \<and> (b \<longleftrightarrow> key \<in> fst ` set (inorder t)) \<and> inorder t' = without_key key (inorder t)"
proof (induction t arbitrary: b t')
  case (Btree_node leaf ks vs cs)
  let ?t = "Btree_node leaf ks vs cs" and ?i = "key_position cmp key ks" and ?es = "zip ks vs"
  have len: "length vs = length ks" using Btree_node.prems(1) by simp
  show ?case
  proof (cases "key_at cmp key ks ?i")
    case True
    then have at: "?i < length ks" "cmp key (ks ! ?i) = 0" by (simp_all add: key_at_def)
    have mem: "ks ! ?i \<in> fst ` set (inorder ?t)" using node_keys_in [OF Btree_node.prems(1)] nth_mem [OF at(1)] by blast
    then have "ks ! ?i \<in> K" using Btree_node.prems(2) unfolding ordered_def by blast
    then have key: "ks ! ?i = key" using cmp_eq [of key "ks ! ?i"] Btree_node.prems(3) at(2) by simp
    have leaf: leaf
    proof (rule ccontr)
      assume "\<not> leaf"
      then show False using Btree_node.prems(4) nth_mem [OF at(1)] key by simp
    qed
    have t': "b" "t' = Btree_node leaf (remove_at ?i ks) (remove_at ?i vs) cs" using Btree_node.prems(5) True by (auto simp: Let_def)
    have "distinct (map fst ?es)" using ordered_distinct [OF Btree_node.prems(2)] leaf by simp
    then have "without_key key ?es = remove_at ?i ?es" using without_remove_at [of ?es ?i] at(1) len key by simp
    moreover have "key \<in> fst ` set (inorder ?t)" using mem key by simp
    moreover have "shape t'" using t' Btree_node.prems(1) leaf at(1) by (simp add: remove_at_def)
    ultimately show ?thesis using t' leaf zip_remove_at [OF len] by simp
  next
    case False
    note div = position_divides [OF False]
    show ?thesis
    proof (cases leaf)
      case True
      then have "key \<notin> set ks" using leaf_absent Btree_node.prems div by auto
      then have absent: "key \<notin> fst ` set (inorder ?t)" using True len by (auto dest: set_zip_leftD)
      show ?thesis using True False Btree_node.prems(1,5) absent without_absent [OF absent] by (auto simp del: inorder.simps)
    next
      case inner: False
      then obtain a c where x: "inorder ?t = a @ inorder (cs ! ?i) @ c"
        "a = left_part (take ?i (map inorder cs)) (take ?i ?es)" "c = right_part (drop ?i ?es) (drop (Suc ?i) (map inorder cs))"
        "below cmp key a" "above cmp key c" "ordered cmp K (inorder (cs ! ?i))" "shape (cs ! ?i)" "?i < length cs" "cs ! ?i \<in> set cs"
        using child_between [of ks vs cs key ?i] Btree_node.prems div by auto
      obtain u where u: "deleteKeyFromNode cmp (cs ! ?i) key = (b, u)" "t' = Btree_node leaf ks vs (cs[?i := u])"
        using Btree_node.prems(5) False inner x(8) by (auto simp: Let_def split: prod.splits)
      have "key \<notin> inner_keys (cs ! ?i)" using Btree_node.prems(4) inner x(9) by auto
      then have IH: "shape u" "b \<longleftrightarrow> key \<in> fst ` set (inorder (cs ! ?i))" "inorder u = without_key key (inorder (cs ! ?i))"
        using Btree_node.IH [OF x(9,7,6) Btree_node.prems(3) _ u(1)] by auto
      have "inorder t' = a @ inorder u @ c"
        using weave_update [of "map inorder cs" ?es ?i "inorder u"] Btree_node.prems(1) inner div u(2)
        by (simp add: x(2,3) map_update divides_def)
      moreover have "key \<notin> fst ` set a" "key \<notin> fst ` set c" using outside [OF Btree_node.prems(3)] x(4,5) by blast+
      ultimately show ?thesis using IH Btree_node.prems(1) inner u(2) unfolding x(1)
        by (auto simp: without_append without_absent dest: set_update_subset_insert [THEN subsetD])
    qed
  qed
qed

end

section \<open>Ranges\<close>

definition in_range :: "('k \<Rightarrow> 'k \<Rightarrow> int) \<Rightarrow> 'k \<Rightarrow> 'k \<Rightarrow> 'k \<times> 'v \<Rightarrow> bool" where
  "in_range cmp lo hi e \<longleftrightarrow> 0 \<le> cmp (fst e) lo \<and> cmp (fst e) hi \<le> 0"

lemma filter_singletons: "concat (map (\<lambda>i. filter P [f i]) xs) = filter P (map f xs)"
  by (induction xs) simp_all

lemma weave_upt:
  assumes "length xs = Suc (length es)"
  shows "weave xs es = concat (map (\<lambda>i. xs ! i @ [es ! i]) [0..<length es]) @ xs ! length es"
proof -
  have "map (\<lambda>(x, e). x @ [e]) (zip (take (length es) xs) es) = map (\<lambda>i. xs ! i @ [es ! i]) [0..<length es]"
    using assms by (intro nth_equalityI) auto
  then show ?thesis using weave_at [OF assms le_refl] assms by (simp add: left_part_def right_part_def)
qed

context key_comparison
begin

lemma range_outside:
  assumes "ordered cmp K es" and "lo \<in> K" and "hi \<in> K"
  shows "ordered cmp K (es @ [e]) \<Longrightarrow> cmp (fst e) lo < 0 \<Longrightarrow> filter (in_range cmp lo hi) es = []"
    and "ordered cmp K (e # es) \<Longrightarrow> 0 < cmp (fst e) hi \<Longrightarrow> filter (in_range cmp lo hi) es = []"
proof -
  assume o: "ordered cmp K (es @ [e])" and l: "cmp (fst e) lo < 0"
  have "cmp (fst x) lo < 0" if "x \<in> set es" for x
    using that o l assms(2) cmp_trans [of "fst x" "fst e" lo] by (auto simp: ordered_append ordered_Cons dest: ordered_K)
  then show "filter (in_range cmp lo hi) es = []" unfolding filter_empty_conv in_range_def by (meson linorder_not_le)
next
  assume o: "ordered cmp K (e # es)" and l: "0 < cmp (fst e) hi"
  have "0 < cmp (fst x) hi" if x: "x \<in> set es" for x
  proof -
    have k: "fst x \<in> K" "fst e \<in> K" "cmp (fst e) (fst x) < 0" using x o by (auto simp: ordered_Cons dest: ordered_K)
    have "cmp hi (fst e) < 0" using l cmp_swap [OF assms(3) k(2)] by simp
    then have "cmp hi (fst x) < 0" using cmp_trans [OF assms(3) k(2,1)] k(3) by blast
    then show ?thesis using cmp_swap [OF assms(3) k(1)] by simp
  qed
  then show "filter (in_range cmp lo hi) es = []" unfolding filter_empty_conv in_range_def by (meson linorder_not_le)
qed

lemma ordered_weave_parts:
  assumes "ordered cmp K (weave xs es)" and "length xs = Suc (length es)"
  shows "i < length es \<Longrightarrow> ordered cmp K (xs ! i @ [es ! i])" and "es \<noteq> [] \<Longrightarrow> ordered cmp K (last es # xs ! length es)"
proof -
  assume i: "i < length es"
  have "drop i es = es ! i # drop (Suc i) es" using i by (simp add: Cons_nth_drop_Suc)
  moreover obtain y ys where "drop (Suc i) xs = y # ys" using i assms(2) by (cases "drop (Suc i) xs") auto
  ultimately have "right_part (drop i es) (drop (Suc i) xs) = es ! i # y @ right_part (drop (Suc i) es) ys" by (simp add: right_part_Cons)
  then have "weave xs es = left_part (take i xs) (take i es) @ (xs ! i @ [es ! i]) @ y @ right_part (drop (Suc i) es) ys"
    using weave_at [OF assms(2), of i] i by simp
  then show "ordered cmp K (xs ! i @ [es ! i])" using assms(1) ordered_part by metis
next
  assume ne: "es \<noteq> []"
  then have "[0..<length es] = [0..<length es - 1] @ [length es - 1]" using upt_Suc_append [of 0 "length es - 1"] by (cases es) auto
  then have w: "weave xs es = (concat (map (\<lambda>i. xs ! i @ [es ! i]) [0..<length es - 1]) @ xs ! (length es - 1)) @ (last es # xs ! length es)"
    using weave_upt [OF assms(2)] ne by (simp add: last_conv_nth)
  from assms(1) [unfolded w] show "ordered cmp K (last es # xs ! length es)" by (rule ordered_append [THEN iffD1, THEN conjunct2, THEN conjunct1])
qed

lemma collectRange_correct:
  "shape t \<Longrightarrow> ordered cmp K (inorder t) \<Longrightarrow> lo \<in> K \<Longrightarrow> hi \<in> K \<Longrightarrow> collectRange cmp t lo hi = filter (in_range cmp lo hi) (inorder t)"
proof (induction t)
  case (Btree_node leaf ks vs cs)
  let ?es = "zip ks vs" and ?P = "in_range cmp lo hi"
  have len: "length vs = length ks" using Btree_node.prems(1) by simp
  have entry: "(if 0 \<le> cmp (ks ! i) lo \<and> cmp (ks ! i) hi \<le> 0 then [(ks ! i, vs ! i)] else []) = filter ?P [?es ! i]" if "i < length ks" for i
    using that len by (simp add: in_range_def)
  show ?case
  proof (cases leaf)
    case True
    have "map (\<lambda>i. (if \<not> leaf \<and> 0 \<le> cmp (ks ! i) lo \<and> i < length cs then collectRange cmp (cs ! i) lo hi else []) @
          (if 0 \<le> cmp (ks ! i) lo \<and> cmp (ks ! i) hi \<le> 0 then [(ks ! i, vs ! i)] else [])) [0..<length ks] =
        map (\<lambda>i. filter ?P [?es ! i]) [0..<length ks]"
      by (rule map_cong [OF refl]) (simp only: True entry set_upt atLeastLessThan_iff simp_thms if_False append_Nil)
    then have "collectRange cmp (Btree_node leaf ks vs cs) lo hi = concat (map (\<lambda>i. filter ?P [?es ! i]) [0..<length ks])"
      using True by (simp only: collectRange.simps simp_thms if_False append_Nil2)
    also have "\<dots> = filter ?P (map (\<lambda>i. ?es ! i) [0..<length ks])" by (rule filter_singletons)
    also have "map (\<lambda>i. ?es ! i) [0..<length ks] = ?es" using map_nth [of ?es] len by simp
    finally show ?thesis using True by simp
  next
    case False
    let ?xs = "map inorder cs"
    have xs: "length ?xs = Suc (length ?es)" "length ?es = length ks" "ks \<noteq> []" "length cs = Suc (length ks)" "\<forall>c \<in> set cs. shape c"
      using Btree_node.prems(1) False by auto
    have ord: "ordered cmp K (weave ?xs ?es)" using Btree_node.prems(2) False by simp
    note parts = ordered_weave_parts [OF ord xs(1)]
    have IH: "collectRange cmp (cs ! i) lo hi = filter ?P (?xs ! i)" if "i < length cs" "ordered cmp K (?xs ! i)" for i
      using Btree_node.IH [of "cs ! i"] that xs(5) Btree_node.prems(3,4) by simp
    have child: "(if \<not> leaf \<and> 0 \<le> cmp (ks ! i) lo \<and> i < length cs then collectRange cmp (cs ! i) lo hi else []) = filter ?P (?xs ! i)"
      if i: "i < length ks" for i
    proof -
      have o: "ordered cmp K (?xs ! i @ [?es ! i])" using parts(1) [of i] i xs(2) by (simp only:)
      then have o2: "ordered cmp K (?xs ! i)" unfolding ordered_append by blast
      have k: "fst (?es ! i) = ks ! i" using i len by simp
      show ?thesis
      proof (cases "0 \<le> cmp (ks ! i) lo")
        case True
        then show ?thesis using False IH [OF _ o2] i xs(4) by simp
      next
        case no: False
        then have "filter ?P (?xs ! i) = []" using range_outside(1) [OF o2 Btree_node.prems(3,4) o] k by simp
        then show ?thesis using no by simp
      qed
    qed
    have last: "(if \<not> leaf \<and> ks \<noteq> [] \<and> cmp (last ks) hi \<le> 0 \<and> length ks < length cs then collectRange cmp (cs ! length ks) lo hi else []) = filter ?P (?xs ! length ks)"
    proof -
      have "vs \<noteq> []" using xs(3) len by auto
      then have es: "?es \<noteq> []" "fst (last ?es) = last ks" using xs(3) len by (simp_all add: last_zip)
      have o: "ordered cmp K (last ?es # ?xs ! length ks)" "ordered cmp K (?xs ! length ks)" using parts(2) [OF es(1)] xs(2) by (simp_all add: ordered_Cons)
      show ?thesis
      proof (cases "cmp (last ks) hi \<le> 0")
        case True
        then show ?thesis using False IH [OF _ o(2)] xs by simp
      next
        case no: False
        then have "filter ?P (?xs ! length ks) = []" using range_outside(2) [OF o(2) Btree_node.prems(3,4) o(1)] es(2) by simp
        then show ?thesis using no by simp
      qed
    qed
    have "collectRange cmp (Btree_node leaf ks vs cs) lo hi =
        concat (map (\<lambda>i. filter ?P (?xs ! i) @ filter ?P [?es ! i]) [0..<length ks]) @ filter ?P (?xs ! length ks)"
      unfolding collectRange.simps last by (intro arg_cong2 [where f = append] arg_cong [where f = concat] map_cong refl child entry; simp)
    also have "\<dots> = filter ?P (weave ?xs ?es)"
      unfolding weave_upt [OF xs(1)] by (simp add: filter_concat comp_def len)
    finally show ?thesis using False by simp
  qed
qed

end

section \<open>The engine\<close>

definition bt_view :: "('k, 'v) btree_index \<Rightarrow> 'k \<Rightarrow> 'v option" where
  "bt_view X = map_of (inorder (bx_root X))"

definition bt_inv :: "('k \<Rightarrow> 'k \<Rightarrow> int) \<Rightarrow> 'k set \<Rightarrow> ('k, 'v) btree_index \<Rightarrow> bool" where
  "bt_inv cmp K X \<longleftrightarrow> key_comparison cmp K \<and> shape (bx_root X) \<and> ordered cmp K (inorder (bx_root X)) \<and> 4 \<le> bx_maxDegree X \<and>
     bx_count X = int (length (inorder (bx_root X)))"



lemma map_of_update: "map_of (update_entries key v es) = (if key \<in> fst ` set es then (map_of es)(key \<mapsto> v) else map_of es)"
proof (induction es)
  case (Cons e es)
  then show ?case by (cases e) (auto simp: update_entries_def fun_eq_iff)
qed (simp add: update_entries_def)

lemma map_of_without: "map_of (without_key key es) = (map_of es)(key := None)"
  by (induction es) (auto simp: without_key_def fun_eq_iff)

lemma map_of_insert_entry:
  assumes "key \<notin> fst ` set es"
  shows "map_of (insert_entry cmp key v es) = (map_of es)(key \<mapsto> v)"
proof -
  let ?a = "takeWhile (\<lambda>e. 0 < cmp key (fst e)) es" and ?b = "dropWhile (\<lambda>e. 0 < cmp key (fst e)) es"
  have es: "map_of es x = (case map_of ?a x of None \<Rightarrow> map_of ?b x | Some v \<Rightarrow> Some v)" for x
    by (metis map_add_def map_of_append takeWhile_dropWhile_id)
  have "key \<notin> fst ` set ?a" using assms by (auto dest: set_takeWhileD)
  then have "map_of ?a key = None" by (simp add: map_of_eq_None_iff)
  then show ?thesis by (simp add: fun_eq_iff es insert_entry_def map_add_def split: option.split)
qed

lemma length_without: "distinct (map fst es) \<Longrightarrow> length (without_key key es) = (if key \<in> fst ` set es then length es - 1 else length es)"
proof (cases "key \<in> fst ` set es")
  case True
  assume d: "distinct (map fst es)"
  obtain i where "i < length es" "fst (es ! i) = key" using True by (auto simp: in_set_conv_nth)
  then show ?thesis using without_remove_at [OF d] True by (auto simp: remove_at_def)
qed (simp add: without_absent)

context key_comparison
begin

lemma ordered_update: "ordered cmp K es \<Longrightarrow> ordered cmp K (update_entries key v es)"
proof -
  assume o: "ordered cmp K es"
  have "sorted_wrt (\<lambda>a b. cmp a b < 0) (map fst es)" "set (map fst es) \<subseteq> K" using o by (simp_all add: ordered_def sorted_wrt_map)
  then have "sorted_wrt (\<lambda>a b. cmp a b < 0) (map fst (update_entries key v es))" "set (map fst (update_entries key v es)) \<subseteq> K" by (simp_all only: update_keys)
  then show ?thesis by (simp add: ordered_def sorted_wrt_map)
qed

lemma ordered_without: "ordered cmp K es \<Longrightarrow> ordered cmp K (without_key key es)"
  by (auto simp: ordered_def without_key_def sorted_wrt_filter)

lemma ordered_insert:
  assumes "ordered cmp K es" and "key \<in> K" and "key \<notin> fst ` set es"
  shows "ordered cmp K (insert_entry cmp key v es)"
proof -
  let ?a = "takeWhile (\<lambda>e. 0 < cmp key (fst e)) es" and ?b = "dropWhile (\<lambda>e. 0 < cmp key (fst e)) es"
  have ab: "ordered cmp K (?a @ ?b)" using assms(1) by simp
  have a: "cmp (fst x) key < 0" if "x \<in> set ?a" for x
  proof -
    have "0 < cmp key (fst x)" "fst x \<in> K" using that assms(1) set_takeWhileD ordered_K by fast+
    then show ?thesis using cmp_swap assms(2) by blast
  qed
  have b: "cmp key (fst y) < 0" if "y \<in> set ?b" for y
  proof (cases ?b)
    case Nil
    show ?thesis using that [unfolded Nil] by simp
  next
    case (Cons e es')
    have ord: "ordered cmp K (e # es')" using ab unfolding Cons ordered_append by blast
    then have "\<not> 0 < cmp key (fst e)" "fst e \<in> K" using Cons hd_dropWhile [of "\<lambda>e. 0 < cmp key (fst e)" es]
      by (auto simp: ordered_Cons)
    moreover have "e \<in> set ?b" unfolding Cons by simp
    then have "key \<noteq> fst e" using assms(3) set_dropWhileD by fast
    ultimately have "cmp key (fst e) < 0" using cmp_eq [OF assms(2), of "fst e"] by linarith
    then show ?thesis using above_first [OF ord assms(2)] that Cons by (auto simp: above_def)
  qed
  have ne: "cmp (fst x) (fst y) < 0" if "x \<in> set ?a" "y \<in> set ?b" for x y using ab that unfolding ordered_append by blast
  have "ordered cmp K ?a" "ordered cmp K ?b" using ab unfolding ordered_append by blast+
  then show ?thesis unfolding insert_entry_def ordered_append ordered_Cons using assms(2) a b ne by simp
qed

end

lemma length_insert_entry [simp]: "length (insert_entry cmp key v es) = Suc (length es)"
  by (metis add_Suc_right insert_entry_def length_Cons length_append takeWhile_dropWhile_id)

lemma root_split:
  assumes "shape root" and "4 \<le> length (node_keys root)"
  shows "shape (splitChild (Btree_node False [] [] [root]) 0 (split_node root)) \<and>
    inorder (splitChild (Btree_node False [] [] [root]) 0 (split_node root)) = inorder root"
proof -
  obtain l k v r where split: "split_node root = (l, k, v, r)" by (cases "split_node root")
  show ?thesis using split_inorder [OF assms(1) split assms(2)] by (simp add: split splice_at_def)
qed

context key_comparison
begin

lemma bt_insert_correct:
  assumes inv: "bt_inv cmp K X" and "key \<in> K"
  shows "bt_inv cmp K (bt_insert cmp key v X) \<and> bt_view (bt_insert cmp key v X) = (bt_view X)(key \<mapsto> v)"
proof -
  let ?es = "inorder (bx_root X)"
  have X: "shape (bx_root X)" "ordered cmp K ?es" "4 \<le> bx_maxDegree X" "bx_count X = int (length ?es)" using inv by (simp_all add: bt_inv_def)
  obtain b root where up: "updateIfExists cmp (bx_root X) key v = (b, root)" by (cases "updateIfExists cmp (bx_root X) key v")
  have root: "shape root" "b \<longleftrightarrow> key \<in> fst ` set ?es" "inorder root = update_entries key v ?es"
    using updateIfExists_correct [OF X(1,2) assms(2) up] by auto
  show ?thesis
  proof (cases b)
    case True
    then have "bt_insert cmp key v X = X\<lparr>bx_root := root\<rparr>" using up by (simp add: bt_insert_def)
    moreover have "length (update_entries key v ?es) = length ?es" by (simp add: update_entries_def)
    ultimately show ?thesis using X root True ordered_update key_comparison_axioms by (simp add: bt_inv_def bt_view_def map_of_update)
  next
    case False
    then have absent: "key \<notin> fst ` set ?es" and same: "inorder root = ?es" using root update_absent by auto
    define t where "t = (if bx_maxDegree X \<le> length (node_keys root) then splitChild (Btree_node False [] [] [root]) 0 (split_node root) else root)"
    have t: "shape t" "inorder t = ?es" using root_split [OF root(1)] X(3) root(1) same by (auto simp: t_def)
    let ?t = "insertNonFull cmp (bx_maxDegree X) t key v"
    have eq: "bt_insert cmp key v X = X\<lparr>bx_root := ?t, bx_count := bx_count X + 1\<rparr>"
      using up False unfolding bt_insert_def t_def by (simp add: Let_def)
    have ins: "shape ?t" "inorder ?t = insert_entry cmp key v ?es"
      using insertNonFull_correct [OF X(3) t(1) _ assms(2), of v] X(2) absent unfolding t(2) by auto
    show ?thesis unfolding eq using X(3,4) ins ordered_insert [OF X(2) assms(2) absent] map_of_insert_entry [OF absent] key_comparison_axioms
      by (simp add: bt_inv_def bt_view_def)
  qed
qed

lemma bt_delete_correct:
  assumes inv: "bt_inv cmp K X" and "key \<in> K" and "key \<notin> inner_keys (bx_root X)"
  shows "bt_inv cmp K (snd (bt_delete cmp key X)) \<and> bt_view (snd (bt_delete cmp key X)) = (bt_view X)(key := None) \<and>
    (fst (bt_delete cmp key X) \<longleftrightarrow> bt_view X key \<noteq> None)"
proof -
  let ?es = "inorder (bx_root X)"
  have X: "shape (bx_root X)" "ordered cmp K ?es" "4 \<le> bx_maxDegree X" "bx_count X = int (length ?es)" using inv by (simp_all add: bt_inv_def)
  obtain b root where del: "deleteKeyFromNode cmp (bx_root X) key = (b, root)" by (cases "deleteKeyFromNode cmp (bx_root X) key")
  have root: "shape root" "b \<longleftrightarrow> key \<in> fst ` set ?es" "inorder root = without_key key ?es"
    using deleteKeyFromNode_correct [OF X(1,2) assms(2,3) del] by auto
  have "int (length (without_key key ?es)) = (if b then int (length ?es) - 1 else int (length ?es))"
    using length_without [OF ordered_distinct [OF X(2)], of key] root(2) by (cases ?es) auto
  moreover have "map_of ?es key \<noteq> None \<longleftrightarrow> b" using root(2) by (simp add: map_of_eq_None_iff)
  ultimately show ?thesis using X root ordered_without [OF X(2), of key] key_comparison_axioms
    by (simp add: bt_delete_def del bt_inv_def bt_view_def map_of_without)
qed

lemma bt_init_inv: "bt_inv cmp K (new_btree d)"
  using key_comparison_axioms by (simp add: bt_inv_def new_btree_def empty_leaf_def)

lemma bt_clear_correct: "bt_inv cmp K X \<Longrightarrow> bt_inv cmp K (bt_clear X) \<and> bt_view (bt_clear X) = Map.empty"
  using key_comparison_axioms by (simp add: bt_inv_def bt_clear_def bt_view_def empty_leaf_def)

end






definition number_compare :: "btree_key \<Rightarrow> btree_key \<Rightarrow> int" where
  "number_compare = compare_keys (\<lambda>a b. 0) (\<lambda>n. [])"

definition nine_keys :: "(btree_key, int) btree_index" where
  "nine_keys = fold (\<lambda>n. bt_insert number_compare (K_num n) (10 * n)) [3, 9, 1, 7, 5, 8, 2, 6, 4] (new_btree 2)"


section \<open>Deletion of inner keys\<close>

text \<open>Without the key of an inner node its child to the left takes the place of both: what the other child holds is no longer found.\<close>

lemma inner_deletion_loses_keys:
  "bt_search number_compare (K_num 9) nine_keys = Some 90 \<and> K_num 7 \<in> inner_keys (bx_root nine_keys) \<and>
   bt_search number_compare (K_num 9) (snd (bt_delete number_compare (K_num 7) nine_keys)) = None \<and>
   bx_count (snd (bt_delete number_compare (K_num 7) nine_keys)) = 8"
  by (intro conjI; code_simp)

end
