(* ===== verification/Text_Lines.thy ===== *)
theory Text_Lines
  imports Prelude "HOL-Library.Sublist"
begin

text \<open>
  Text as the editing tools see it: lines, white space, the normalisation \<^verbatim>\<open>canonicalize\<close> of \<^verbatim>\<open>src/shared/string.ts\<close>,
  and the edit distance of \<^verbatim>\<open>PatchParser.ts\<close>.

  A string holds code units below 256. On these \<^verbatim>\<open>normalize("NFC")\<close> is the identity, and of the table
  \<^verbatim>\<open>PUNCT_EQUIV\<close> the quotation marks and the no-break space are left.
\<close>

section \<open>Lines\<close>

abbreviation newline :: char where
  "newline \<equiv> CHR 0x0A"

text \<open>\<^verbatim>\<open>text.split("\n")\<close> and \<^verbatim>\<open>lines.join("\n")\<close>\<close>

fun split_lines :: "string \<Rightarrow> string list" where
  "split_lines [] = [[]]"
| "split_lines (c # cs) =
     (if c = newline then [] # split_lines cs
      else (case split_lines cs of [] \<Rightarrow> [[c]] | l # ls \<Rightarrow> (c # l) # ls))"

fun join_lines :: "string list \<Rightarrow> string" where
  "join_lines [] = []"
| "join_lines [l] = l"
| "join_lines (l # ls) = l @ newline # join_lines ls"

lemma split_lines_ne [simp]: "split_lines s \<noteq> []"
  by (cases s) (auto split: list.split)

lemma join_Cons: "ls \<noteq> [] \<Longrightarrow> join_lines (l # ls) = l @ newline # join_lines ls"
  by (cases ls) simp_all

lemma join_split [simp]: "join_lines (split_lines s) = s"
proof (induction s)
  case (Cons c cs)
  show ?case
  proof (cases "split_lines cs")
    case (Cons l ls)
    then show ?thesis using Cons.IH by (cases ls) (auto simp: join_Cons)
  qed simp
qed simp

lemma split_line: "newline \<notin> set l \<Longrightarrow> split_lines l = [l]"
  by (induction l) auto

lemma split_line_append: "newline \<notin> set l \<Longrightarrow> split_lines (l @ newline # s) = l # split_lines s"
  by (induction l) auto

lemma split_join: "ls \<noteq> [] \<Longrightarrow> \<forall>l \<in> set ls. newline \<notin> set l \<Longrightarrow> split_lines (join_lines ls) = ls"
  by (induction ls rule: join_lines.induct) (auto simp: split_line split_line_append)

lemma split_no_newline: "l \<in> set (split_lines s) \<Longrightarrow> newline \<notin> set l"
  by (induction s arbitrary: l) (auto split: if_splits list.splits)

section \<open>White space\<close>

text \<open>\<^verbatim>\<open>trimEnd\<close>; \<^verbatim>\<open>trim\<close> is \<open>js_trim\<close>.\<close>

definition js_trimEnd :: "string \<Rightarrow> string" where
  "js_trimEnd s = rev (dropWhile js_space (rev s))"

section \<open>Normalisation\<close>

definition punct_equiv :: "char \<Rightarrow> char" where
  "punct_equiv c =
     (let n = (of_char c :: nat) in
      if n = 171 \<or> n = 187 then CHR 0x22 else if n = 160 then CHR 0x20 else c)"

text \<open>A backslash before the quote \<open>q\<close> is removed, in one pass.\<close>

fun unescape :: "char \<Rightarrow> string \<Rightarrow> string" where
  "unescape q (c # d # cs) = (if c = CHR 0x5C \<and> d = q then q # unescape q cs else c # unescape q (d # cs))"
| "unescape q cs = cs"

definition canonicalize :: "string \<Rightarrow> string" where
  "canonicalize s = unescape (CHR 0x22) (unescape (CHR 0x27) (unescape (CHR 0x60) (map punct_equiv s)))"

text \<open>Backslashes doubled, then a backslash before each \<open>q\<close>, where the original escapes \<open>q\<close> and the new text does not.\<close>

definition escape_quote :: "char \<Rightarrow> string \<Rightarrow> string" where
  "escape_quote q s = concat (map (\<lambda>c. if c = CHR 0x5C then [c, c] else if c = q then [CHR 0x5C, c] else [c]) s)"

definition preserveEscaping :: "string \<Rightarrow> string \<Rightarrow> string" where
  "preserveEscaping original new =
     fold (\<lambda>q s. if sublist [CHR 0x5C, q] original \<and> \<not> sublist [CHR 0x5C, q] new then escape_quote q s else s)
       [CHR 0x60, CHR 0x27, CHR 0x22] new"

section \<open>Edit distance\<close>

text \<open>The matrix is one array, row after row; a cell outside of it reads as 0.\<close>

definition cell_at :: "nat \<Rightarrow> nat list \<Rightarrow> nat \<Rightarrow> nat \<Rightarrow> nat" where
  "cell_at cols m r c = (if r * cols + c < length m then m ! (r * cols + c) else 0)"

definition cell_set :: "nat \<Rightarrow> nat \<Rightarrow> nat \<Rightarrow> nat \<Rightarrow> nat list \<Rightarrow> nat list" where
  "cell_set cols r c v m = m[r * cols + c := v]"

definition distance_cell :: "string \<Rightarrow> string \<Rightarrow> nat \<Rightarrow> nat \<Rightarrow> nat list \<Rightarrow> nat list" where
  "distance_cell s t i j m =
     (let cols = Suc (length s) in
      cell_set cols i j
        (if t ! (i - 1) = s ! (j - 1) then cell_at cols m (i - 1) (j - 1)
         else 1 + min (cell_at cols m (i - 1) (j - 1)) (min (cell_at cols m i (j - 1)) (cell_at cols m (i - 1) j))) m)"

definition levenshteinDistance :: "string \<Rightarrow> string \<Rightarrow> nat" where
  "levenshteinDistance s t =
     (let rows = Suc (length t); cols = Suc (length s);
          m0 = replicate (rows * cols) 0;
          m1 = fold (\<lambda>i. cell_set cols i 0 i) [0..<rows] m0;
          m2 = fold (\<lambda>j. cell_set cols 0 j j) [0..<cols] m1;
          m3 = fold (\<lambda>i m. fold (\<lambda>j. distance_cell s t i j) [1..<cols] m) [1..<rows] m2 in
      cell_at cols m3 (length t) (length s))"

text \<open>
  The share of the longer text that is left, at least 0.66. The quotient of the source is a rounded one; lengths below
  \<open>2 ^ 40\<close> cannot bring it closer to 0.66 than the rounding, so that the comparison is exact.
\<close>

definition similar :: "string \<Rightarrow> string \<Rightarrow> bool" where
  "similar s t =
     (let longer = (if length t < length s then s else t); shorter = (if length t < length s then t else s) in
      longer = [] \<or> 66 * length longer \<le> 100 * (length longer - levenshteinDistance shorter longer))"

end
