(* ===== verification/Text_Distance.thy ===== *)
theory Text_Distance
  imports Text_Lines
begin

text \<open>
  \<^verbatim>\<open>levenshteinDistance\<close> of \<^verbatim>\<open>PatchParser.ts\<close> fills one array cell by cell; what it returns is the least number of
  insertions, deletions and replacements that turn one text into the other.
\<close>

section \<open>Edits\<close>

inductive edits :: "string \<Rightarrow> string \<Rightarrow> nat \<Rightarrow> bool" where
  none: "edits [] [] 0"
| same: "edits s t n \<Longrightarrow> edits (s @ [c]) (t @ [c]) n"
| replace: "edits s t n \<Longrightarrow> edits (s @ [c]) (t @ [d]) (Suc n)"
| delete: "edits s t n \<Longrightarrow> edits (s @ [c]) t (Suc n)"
| insert: "edits s t n \<Longrightarrow> edits s (t @ [d]) (Suc n)"

text \<open>The distance of the first \<open>j\<close> characters of \<open>s\<close> and the first \<open>i\<close> of \<open>t\<close>.\<close>

fun dist :: "string \<Rightarrow> string \<Rightarrow> nat \<Rightarrow> nat \<Rightarrow> nat" where
  "dist s t 0 j = j"
| "dist s t (Suc i) 0 = Suc i"
| "dist s t (Suc i) (Suc j) =
     (if t ! i = s ! j then dist s t i j else 1 + min (dist s t i j) (min (dist s t (Suc i) j) (dist s t i (Suc j))))"

lemma dist_zero [simp]: "dist s t i 0 = i"
  by (cases i) simp_all

lemma dist_step: "dist s t i (Suc j) \<le> Suc (dist s t i j) \<and> dist s t i j \<le> Suc (dist s t i (Suc j)) \<and>
    dist s t (Suc i) j \<le> Suc (dist s t i j) \<and> dist s t i j \<le> Suc (dist s t (Suc i) j)"
proof (induction "i + j" arbitrary: i j rule: less_induct)
  case less
  have right: "dist s t i (Suc j) \<le> Suc (dist s t i j) \<and> dist s t i j \<le> Suc (dist s t i (Suc j))"
  proof (cases i)
    case (Suc k)
    have IH: "dist s t (Suc k) j \<le> Suc (dist s t k j)" "dist s t k j \<le> Suc (dist s t (Suc k) j)" "dist s t k j \<le> Suc (dist s t k (Suc j))"
      using less [of k j] Suc by auto
    have "dist s t i (Suc j) = (if t ! k = s ! j then dist s t k j else 1 + min (dist s t k j) (min (dist s t (Suc k) j) (dist s t k (Suc j))))"
      by (simp only: Suc dist.simps)
    then show ?thesis using IH by (simp only: Suc) (auto simp: min_def simp del: dist.simps)
  qed simp
  have down: "dist s t (Suc i) j \<le> Suc (dist s t i j) \<and> dist s t i j \<le> Suc (dist s t (Suc i) j)"
  proof (cases j)
    case (Suc k)
    have IH: "dist s t i (Suc k) \<le> Suc (dist s t i k)" "dist s t i k \<le> Suc (dist s t i (Suc k))" "dist s t i k \<le> Suc (dist s t (Suc i) k)"
      using less [of i k] Suc by auto
    have "dist s t (Suc i) j = (if t ! i = s ! k then dist s t i k else 1 + min (dist s t i k) (min (dist s t (Suc i) k) (dist s t i (Suc k))))"
      by (simp only: Suc dist.simps)
    then show ?thesis using IH by (simp only: Suc) (auto simp: min_def simp del: dist.simps)
  qed simp
  show ?case using right down by blast
qed

lemma dist_edits: "i \<le> length t \<Longrightarrow> j \<le> length s \<Longrightarrow> edits (take j s) (take i t) (dist s t i j)"
proof (induction s t i j rule: dist.induct)
  case (1 s t j)
  then show ?case
  proof (induction j)
    case (Suc j)
    then show ?case using edits.delete [of "take j s" "[]" j "s ! j"] by (simp add: take_Suc_conv_app_nth)
  qed (simp add: edits.none)
next
  case (2 s t i)
  then show ?case
  proof (induction i)
    case 0
    then show ?case using edits.insert [OF edits.none, of "t ! 0"] take_Suc_conv_app_nth [of 0 t] by (cases t) simp_all
  next
    case (Suc i)
    then show ?case using edits.insert [of "[]" "take (Suc i) t" "Suc i" "t ! Suc i"] by (simp add: take_Suc_conv_app_nth [of "Suc i"])
  qed
next
  case (3 s t i j)
  have ij: "i < length t" "j < length s" using 3 by auto
  have ends: "take (Suc i) t = take i t @ [t ! i]" "take (Suc j) s = take j s @ [s ! j]" using ij by (simp_all add: take_Suc_conv_app_nth)
  show ?case
  proof (cases "t ! i = s ! j")
    case True
    then show ?thesis using 3(1) ij edits.same unfolding ends by simp
  next
    case False
    then have e: "edits (take j s) (take i t) (dist s t i j)" "edits (take j s) (take (Suc i) t) (dist s t (Suc i) j)"
      "edits (take (Suc j) s) (take i t) (dist s t i (Suc j))" using 3(2-4) ij by simp_all
    have "edits (take (Suc j) s) (take (Suc i) t) (Suc (dist s t i j))" using edits.replace [OF e(1)] unfolding ends .
    moreover have "edits (take (Suc j) s) (take (Suc i) t) (Suc (dist s t (Suc i) j))" using edits.delete [OF e(2)] unfolding ends .
    moreover have "edits (take (Suc j) s) (take (Suc i) t) (Suc (dist s t i (Suc j)))" using edits.insert [OF e(3)] unfolding ends .
    ultimately show ?thesis using False by (simp add: min_def)
  qed
qed

lemma dist_local: "i \<le> length t \<Longrightarrow> j \<le> length s \<Longrightarrow> dist (s @ s') (t @ t') i j = dist s t i j"
proof (induction s t i j rule: dist.induct)
  case (3 s t i j)
  then show ?case by (simp add: nth_append)
qed simp_all

abbreviation full_dist :: "string \<Rightarrow> string \<Rightarrow> nat" where
  "full_dist s t \<equiv> dist s t (length t) (length s)"

lemma full_dist_snoc:
  "full_dist (s @ [c]) (t @ [d]) =
     (if d = c then full_dist s t else 1 + min (full_dist s t) (min (full_dist s (t @ [d])) (full_dist (s @ [c]) t)))"
  using dist_local [of "length t" t "length s" s "[c]" "[d]"] dist_local [of "Suc (length t)" "t @ [d]" "length s" s "[c]" "[]"]
    dist_local [of "length t" t "Suc (length s)" "s @ [c]" "[]" "[d]"]
  by (cases "d = c") (simp_all add: nth_append)

lemma edits_dist: "edits s t n \<Longrightarrow> full_dist s t \<le> n"
proof (induction rule: edits.induct)
  case (same s t n c)
  then show ?case by (simp add: full_dist_snoc del: length_append)
next
  case (replace s t n c d)
  then show ?case by (simp add: full_dist_snoc min_le_iff_disj del: length_append)
next
  case (delete s t n c)
  have "full_dist (s @ [c]) t \<le> Suc (full_dist s t)"
    using dist_step [of "s @ [c]" t "length t" "length s"] dist_local [of "length t" t "length s" s "[c]" "[]"] by simp
  then show ?case using delete by simp
next
  case (insert s t n d)
  have "full_dist s (t @ [d]) \<le> Suc (full_dist s t)"
    using dist_step [of s "t @ [d]" "length t" "length s"] dist_local [of "length t" t "length s" s "[]" "[d]"] by simp
  then show ?case using insert by simp
qed simp

section \<open>The array\<close>

text \<open>The cells of the set \<open>D\<close> hold their distance.\<close>

definition filled :: "string \<Rightarrow> string \<Rightarrow> (nat \<times> nat) set \<Rightarrow> nat list \<Rightarrow> bool" where
  "filled s t D m \<longleftrightarrow> length m = Suc (length t) * Suc (length s) \<and>
     (\<forall>(i, j) \<in> D. i \<le> length t \<longrightarrow> j \<le> length s \<longrightarrow> cell_at (Suc (length s)) m i j = dist s t i j)"

lemma cell_inj: "j < n \<Longrightarrow> j' < n \<Longrightarrow> i * n + j = i' * n + j' \<longleftrightarrow> i = i' \<and> j = (j' :: nat)"
proof
  assume "j < n" "j' < n" "i * n + j = i' * n + j'"
  then have "(i * n + j) div n = (i' * n + j') div n" "(i * n + j) mod n = (i' * n + j') mod n" by simp_all
  then show "i = i' \<and> j = j'" using \<open>j < n\<close> \<open>j' < n\<close> by simp
qed simp

lemma cell_bound: "i \<le> r \<Longrightarrow> j \<le> c \<Longrightarrow> i * Suc c + j < Suc r * Suc (c :: nat)"
proof -
  assume "i \<le> r" "j \<le> c"
  then have "i * Suc c + j \<le> r * Suc c + c" by (meson add_mono mult_le_mono1)
  then show ?thesis by simp
qed

lemma filled_set:
  assumes "filled s t D m" and "i \<le> length t" and "j \<le> length s" and "v = dist s t i j"
  shows "filled s t (insert (i, j) D) (cell_set (Suc (length s)) i j v m)"
proof -
  have len: "length m = Suc (length t) * Suc (length s)" using assms(1) by (simp add: filled_def)
  have "cell_at (Suc (length s)) (cell_set (Suc (length s)) i j v m) i' j' =
      (if i' = i \<and> j' = j then v else cell_at (Suc (length s)) m i' j')" if "i' \<le> length t" "j' \<le> length s" for i' j'
    using cell_inj [of j' "Suc (length s)" j i' i] cell_bound [OF assms(2,3)] that assms(3) len
    by (auto simp: cell_at_def cell_set_def nth_list_update)
  then show ?thesis using assms(1,4) len by (auto simp: filled_def cell_set_def)
qed

lemma filled_mono: "filled s t D m \<Longrightarrow> D' \<subseteq> D \<Longrightarrow> filled s t D' m"
  by (auto simp: filled_def)

lemma fill_column: "n \<le> Suc (length t) \<Longrightarrow> filled s t D m \<Longrightarrow>
  filled s t (D \<union> {0..<n} \<times> {0}) (fold (\<lambda>i. cell_set (Suc (length s)) i 0 i) [0..<n] m)"
proof (induction n)
  case (Suc n)
  have "dist s t n 0 = n" by (cases n) simp_all
  then have "filled s t (insert (n, 0) (D \<union> {0..<n} \<times> {0})) (cell_set (Suc (length s)) n 0 n (fold (\<lambda>i. cell_set (Suc (length s)) i 0 i) [0..<n] m))"
    using Suc by (intro filled_set) auto
  then have "filled s t (D \<union> {0..<Suc n} \<times> {0}) (cell_set (Suc (length s)) n 0 n (fold (\<lambda>i. cell_set (Suc (length s)) i 0 i) [0..<n] m))"
    by (rule filled_mono) auto
  then show ?case by simp
qed simp

lemma fill_row: "n \<le> Suc (length s) \<Longrightarrow> filled s t D m \<Longrightarrow>
  filled s t (D \<union> {0} \<times> {0..<n}) (fold (\<lambda>j. cell_set (Suc (length s)) 0 j j) [0..<n] m)"
proof (induction n)
  case (Suc n)
  then have "filled s t (insert (0, n) (D \<union> {0} \<times> {0..<n})) (cell_set (Suc (length s)) 0 n n (fold (\<lambda>j. cell_set (Suc (length s)) 0 j j) [0..<n] m))"
    by (intro filled_set) auto
  then have "filled s t (D \<union> {0} \<times> {0..<Suc n}) (cell_set (Suc (length s)) 0 n n (fold (\<lambda>j. cell_set (Suc (length s)) 0 j j) [0..<n] m))"
    by (rule filled_mono) auto
  then show ?case by simp
qed simp

lemma distance_cell_filled:
  assumes "filled s t D m" and "0 < i" and "i \<le> length t" and "0 < j" and "j \<le> length s"
    and "{(i - 1, j - 1), (i, j - 1), (i - 1, j)} \<subseteq> D"
  shows "filled s t (insert (i, j) D) (distance_cell s t i j m)"
proof -
  obtain i' j' where ij: "i = Suc i'" "j = Suc j'" using assms(2,4) by (metis Suc_pred)
  have at: "cell_at (Suc (length s)) m a b = dist s t a b" if "(a, b) \<in> D" "a \<le> length t" "b \<le> length s" for a b
    using assms(1) that by (auto simp: filled_def)
  show ?thesis unfolding distance_cell_def Let_def
    by (rule filled_set [OF assms(1,3,5)]) (use at [of i' j'] at [of i j'] at [of i' j] assms(3,5,6) in \<open>simp add: ij\<close>)
qed

lemma fill_inner:
  assumes "filled s t D m" and "0 < i" and "i \<le> length t" and "{0..<i} \<times> UNIV \<union> {(i, 0)} \<subseteq> D" and "n \<le> length s"
  shows "filled s t (D \<union> {i} \<times> {0..<Suc n}) (fold (distance_cell s t i) [1..<Suc n] m)"
  using assms(5)
proof (induction n)
  case 0
  then show ?case using assms(1,4) by (auto elim: filled_mono)
next
  case (Suc n)
  have "filled s t (insert (i, Suc n) (D \<union> {i} \<times> {0..<Suc n})) (distance_cell s t i (Suc n) (fold (distance_cell s t i) [1..<Suc n] m))"
    using Suc assms(2,3,4) by (intro distance_cell_filled) auto
  then have "filled s t (D \<union> {i} \<times> {0..<Suc (Suc n)}) (distance_cell s t i (Suc n) (fold (distance_cell s t i) [1..<Suc n] m))"
    by (rule filled_mono) auto
  moreover have "[1..<Suc (Suc n)] = [1..<Suc n] @ [Suc n]" by simp
  ultimately show ?case by (simp only: fold_append comp_apply fold.simps id_apply)
qed

lemma fill_rows:
  assumes "filled s t ({0} \<times> {0..length s} \<union> {0..length t} \<times> {0}) m" and "n \<le> length t"
  shows "filled s t ({0..n} \<times> {0..length s} \<union> {0..length t} \<times> {0}) (fold (\<lambda>i m. fold (distance_cell s t i) [1..<Suc (length s)] m) [1..<Suc n] m)"
  using assms(2)
proof (induction n)
  case 0
  then show ?case using assms(1) by simp
next
  case (Suc n)
  let ?D = "{0..n} \<times> {0..length s} \<union> {0..length t} \<times> {0}" and ?m = "fold (\<lambda>i m. fold (distance_cell s t i) [1..<Suc (length s)] m) [1..<Suc n] m"
  have "filled s t ?D ?m" using Suc by simp
  then have "filled s t (?D \<union> {0..<Suc n} \<times> UNIV) ?m" by (auto simp: filled_def)
  from fill_inner [OF this, of "Suc n" "length s"] Suc.prems
  have "filled s t (?D \<union> {0..<Suc n} \<times> UNIV \<union> {Suc n} \<times> {0..<Suc (length s)}) (fold (distance_cell s t (Suc n)) [1..<Suc (length s)] ?m)" by auto
  then have "filled s t ({0..Suc n} \<times> {0..length s} \<union> {0..length t} \<times> {0}) (fold (distance_cell s t (Suc n)) [1..<Suc (length s)] ?m)"
    by (rule filled_mono) auto
  moreover have "[1..<Suc (Suc n)] = [1..<Suc n] @ [Suc n]" by simp
  ultimately show ?case by (simp only: fold_append comp_apply fold.simps id_apply)
qed

lemma levenshtein_dist: "levenshteinDistance s t = full_dist s t"
proof -
  let ?rows = "Suc (length t)" and ?cols = "Suc (length s)"
  have "filled s t {} (replicate (?rows * ?cols) 0)" by (simp add: filled_def)
  from fill_column [OF le_refl this] have "filled s t ({} \<union> {0..<?rows} \<times> {0}) (fold (\<lambda>i. cell_set ?cols i 0 i) [0..<?rows] (replicate (?rows * ?cols) 0))" .
  from fill_row [OF le_refl this] have "filled s t ({0} \<times> {0..length s} \<union> {0..length t} \<times> {0})
      (fold (\<lambda>j. cell_set ?cols 0 j j) [0..<?cols] (fold (\<lambda>i. cell_set ?cols i 0 i) [0..<?rows] (replicate (?rows * ?cols) 0)))"
    by (rule filled_mono) auto
  from fill_rows [OF this le_refl] show ?thesis unfolding levenshteinDistance_def Let_def by (auto simp: filled_def)
qed

text \<open>
  C31. The distance the matrix computes is the least number of insertions, deletions and replacements of one character
  that turn one text into the other.
\<close>

theorem levenshtein_least:
  "edits s t (levenshteinDistance s t) \<and> levenshteinDistance s t = (LEAST n. edits s t n)"
proof
  show edits: "edits s t (levenshteinDistance s t)"
    using dist_edits [of "length t" t "length s" s] by (simp add: levenshtein_dist)
  show "levenshteinDistance s t = (LEAST n. edits s t n)"
    using edits_dist [of s t] by (intro Least_equality [symmetric] edits) (simp add: levenshtein_dist)
qed

end
