(* ===== verification/Patch_Parser.thy ===== *)
theory Patch_Parser
  imports Text_Lines
begin

text \<open>
  The parser of the patches the agent writes, \<^verbatim>\<open>PatchParser\<close> of \<^verbatim>\<open>src/core/task/tools/utils/PatchParser.ts\<close>, and the
  search for the place of a hunk.

  The index of the parser into the lines is the list of the lines from it on; a line beyond the end is the empty list of
  lines. The parser may not return: its loops are partial functions, and \<open>None\<close> is the call that never ends. Files
  are a map by path. The texts of warnings and the best similarity they show are left out.
\<close>

section \<open>Patches\<close>

definition BEGIN_PATCH :: string where "BEGIN_PATCH = ''*** Begin Patch''"
definition END_PATCH :: string where "END_PATCH = ''*** End Patch''"
definition ADD_FILE :: string where "ADD_FILE = ''*** Add File: ''"
definition UPDATE_FILE :: string where "UPDATE_FILE = ''*** Update File: ''"
definition DELETE_FILE :: string where "DELETE_FILE = ''*** Delete File: ''"
definition MOVE_TO :: string where "MOVE_TO = ''*** Move to: ''"
definition SECTION :: string where "SECTION = ''@@''"
definition END_FILE :: string where "END_FILE = ''*** End of File''"

lemmas markers = BEGIN_PATCH_def END_PATCH_def ADD_FILE_def UPDATE_FILE_def DELETE_FILE_def MOVE_TO_def SECTION_def END_FILE_def

datatype action_type = P_ADD | P_DELETE | P_UPDATE

record patch_chunk =
  pc_origIndex :: int
  pc_del :: "string list"
  pc_ins :: "string list"

record patch_action =
  pa_type :: action_type
  pa_newFile :: "string option"
  pa_chunks :: "patch_chunk list"
  pa_movePath :: "string option"

record patch_warning =
  pw_path :: string
  pw_chunkIndex :: nat
  pw_context :: string

datatype diff_error =
  Unknown_line string
| Duplicate_action action_type string
| Missing_file action_type string
| File_exists string
| Invalid_section_line "string option"
| Invalid_line string
| Missing_plus string
| Incomplete_sentinels
| Access_denied string
| File_not_found string
| Add_without_content
| Chunk_out_of_range string
| Chunk_out_of_order string
| No_content string

section \<open>Similar places\<close>

text \<open>\<^verbatim>\<open>findContext\<close>: the first line of the match, \<open>-1\<close> for none, and how far it is from an exact one.\<close>

definition segment :: "(string \<Rightarrow> string) \<Rightarrow> string list \<Rightarrow> nat \<Rightarrow> int \<Rightarrow> string" where
  "segment f lines n i = canonicalize (join_lines (map f (js_slice i (i + int n) lines)))"

definition first_match :: "(int \<Rightarrow> bool) \<Rightarrow> string list \<Rightarrow> int \<Rightarrow> int option" where
  "first_match P lines start = find P [start..int (length lines) - 1]"

definition same_text :: "(string \<Rightarrow> string) \<Rightarrow> string list \<Rightarrow> string list \<Rightarrow> int \<Rightarrow> bool" where
  "same_text f lines ctx i \<longleftrightarrow> segment f lines (length ctx) i = canonicalize (join_lines (map f ctx))"

definition findCore :: "string list \<Rightarrow> string list \<Rightarrow> int \<Rightarrow> int \<times> nat" where
  "findCore lines ctx start =
     (case first_match (same_text (\<lambda>s. s) lines ctx) lines start of Some i \<Rightarrow> (i, 0)
      | None \<Rightarrow>
     (case first_match (same_text js_trimEnd lines ctx) lines start of Some i \<Rightarrow> (i, 1)
      | None \<Rightarrow>
     (case first_match (same_text js_trim lines ctx) lines start of Some i \<Rightarrow> (i, 100)
      | None \<Rightarrow>
     (case first_match (\<lambda>i. similar (segment (\<lambda>s. s) lines (length ctx) i) (canonicalize (join_lines ctx))) lines start of
        Some i \<Rightarrow> (i, 1000)
      | None \<Rightarrow> (- 1, 0)))))"

definition findContext :: "string list \<Rightarrow> string list \<Rightarrow> int \<Rightarrow> bool \<Rightarrow> int \<times> nat" where
  "findContext lines ctx start eof =
     (if ctx = [] then (start, 0)
      else if eof
      then (let (i, fuzz) = findCore lines ctx (int (length lines) - int (length ctx)) in
            if i \<noteq> - 1 then (i, fuzz)
            else (let (i, fuzz) = findCore lines ctx start in (i, fuzz + 10000)))
      else findCore lines ctx start)"

section \<open>The next section\<close>

datatype line_mode = Keep_mode | Add_mode | Delete_mode

record peek_state =
  pk_old :: "string list"
  pk_del :: "string list"
  pk_ins :: "string list"
  pk_chunks :: "patch_chunk list"
  pk_mode :: line_mode

definition section_markers :: "string list" where
  "section_markers = map js_trim [END_PATCH, UPDATE_FILE, DELETE_FILE, ADD_FILE, END_FILE]"

definition peek_stops :: "string \<Rightarrow> bool" where
  "peek_stops l \<longleftrightarrow> l = [] \<or> prefix SECTION l \<or> list_ex (\<lambda>m. prefix m l) section_markers \<or> l = ''***''"

definition flush_chunk :: "peek_state \<Rightarrow> patch_chunk list" where
  "flush_chunk S =
     (if pk_ins S \<noteq> [] \<or> pk_del S \<noteq> []
      then pk_chunks S @ [\<lparr>pc_origIndex = int (length (pk_old S)) - int (length (pk_del S)), pc_del = pk_del S, pc_ins = pk_ins S\<rparr>]
      else pk_chunks S)"

definition peek_line :: "string \<Rightarrow> peek_state \<Rightarrow> peek_state" where
  "peek_line l S =
     (let (mode, line) =
        (if hd l = CHR ''+'' then (Add_mode, tl l) else if hd l = CHR ''-'' then (Delete_mode, tl l)
         else if hd l = CHR 0x20 then (Keep_mode, tl l) else (Keep_mode, l));
        S1 = (if mode = Keep_mode \<and> pk_mode S \<noteq> mode then S\<lparr>pk_chunks := flush_chunk S, pk_del := [], pk_ins := []\<rparr> else S);
        S2 = S1\<lparr>pk_mode := mode\<rparr> in
      case mode of
        Delete_mode \<Rightarrow> S2\<lparr>pk_del := pk_del S2 @ [line], pk_old := pk_old S2 @ [line]\<rparr>
      | Add_mode \<Rightarrow> S2\<lparr>pk_ins := pk_ins S2 @ [line]\<rparr>
      | Keep_mode \<Rightarrow> S2\<lparr>pk_old := pk_old S2 @ [line]\<rparr>)"

fun peek_loop :: "string list \<Rightarrow> peek_state \<Rightarrow> diff_error + (peek_state \<times> string list)" where
  "peek_loop [] S = Inr (S, [])"
| "peek_loop (l # ls) S =
     (if peek_stops l then Inr (S, l # ls)
      else if prefix ''***'' l then Inl (Invalid_line l)
      else peek_loop ls (peek_line l S))"

definition new_peek :: peek_state where
  "new_peek = \<lparr>pk_old = [], pk_del = [], pk_ins = [], pk_chunks = [], pk_mode = Keep_mode\<rparr>"

definition peek :: "string list \<Rightarrow> diff_error + (string list \<times> patch_chunk list \<times> string list \<times> bool)" where
  "peek ls =
     (case peek_loop ls new_peek of
        Inl e \<Rightarrow> Inl e
      | Inr (S, rest) \<Rightarrow>
          if rest \<noteq> [] \<and> hd rest = END_FILE then Inr (pk_old S, flush_chunk S, tl rest, True)
          else Inr (pk_old S, flush_chunk S, rest, False))"

section \<open>The sections of an update\<close>

record section_state =
  ss_rest :: "string list"
  ss_index :: int
  ss_chunks :: "patch_chunk list"
  ss_fuzz :: nat
  ss_warnings :: "patch_warning list"

definition section_ends :: "string list \<Rightarrow> bool" where
  "section_ends rest \<longleftrightarrow> (case rest of [] \<Rightarrow> False | l # _ \<Rightarrow> list_ex (\<lambda>m. prefix m l) section_markers)"

definition is_header :: "string \<Rightarrow> bool" where
  "is_header l \<longleftrightarrow> prefix ''@@ '' l \<or> l = ''@@''"

text \<open>The line that the header names, searched from the index on: the index after it, and the fuzz of a line with other blanks.\<close>

definition seek_header :: "string list \<Rightarrow> string \<Rightarrow> int \<Rightarrow> int \<times> nat" where
  "seek_header lines header index =
     (let name = (if prefix ''@@ '' header then js_trim (drop 3 header) else []); canon = canonicalize name in
      if name = [] then (index, 0)
      else (case first_match (\<lambda>i. let l = lines ! nat i in
                l \<noteq> [] \<and> (canonicalize l = canon \<or> canonicalize (js_trim l) = canon)) lines index of
              None \<Rightarrow> (index, 0)
            | Some i \<Rightarrow> (i + 1, if canonicalize (lines ! nat i) \<noteq> canon then 1 else 0)))"

definition shift_chunk :: "int \<Rightarrow> patch_chunk \<Rightarrow> patch_chunk" where
  "shift_chunk p c = c\<lparr>pc_origIndex := pc_origIndex c + p\<rparr>"

definition warning_context :: "string list \<Rightarrow> string" where
  "warning_context ctx = (let t = join_lines ctx in if 200 < length t then take 200 t @ ''...'' else t)"

definition section_step :: "string list \<Rightarrow> string \<Rightarrow> section_state \<Rightarrow> diff_error + section_state" where
  "section_step lines path S =
     (let line = (case ss_rest S of [] \<Rightarrow> None | l # _ \<Rightarrow> Some l);
          header = (case line of None \<Rightarrow> False | Some l \<Rightarrow> is_header l) in
      if \<not> header \<and> ss_index S \<noteq> 0 then Inl (Invalid_section_line line)
      else
        let (index, fuzz) = (if header then seek_header lines (the line) (ss_index S) else (ss_index S, 0));
            rest = (if header then tl (ss_rest S) else ss_rest S) in
        case peek rest of
          Inl e \<Rightarrow> Inl e
        | Inr (ctx, chunks, rest', eof) \<Rightarrow>
            let (i, fuzz') = findContext lines ctx index eof in
            if i = - 1
            then Inr (S\<lparr>ss_rest := rest', ss_index := index, ss_fuzz := ss_fuzz S + fuzz, ss_warnings := ss_warnings S @
                   [\<lparr>pw_path = path, pw_chunkIndex = length (ss_chunks S), pw_context = warning_context ctx\<rparr>]\<rparr>)
            else Inr (S\<lparr>ss_rest := rest', ss_index := i + int (length ctx), ss_fuzz := ss_fuzz S + fuzz + fuzz',
                   ss_chunks := ss_chunks S @ map (shift_chunk i) chunks\<rparr>))"

partial_function (option) section_loop :: "string list \<Rightarrow> string \<Rightarrow> section_state \<Rightarrow> (diff_error + section_state) option" where
  "section_loop lines path S =
     (if section_ends (ss_rest S) then Some (Inr S)
      else (case section_step lines path S of Inl e \<Rightarrow> Some (Inl e) | Inr S' \<Rightarrow> section_loop lines path S'))"

section \<open>The parser\<close>

record parser =
  pr_rest :: "string list"
  pr_actions :: "(string, patch_action) jsmap"
  pr_warnings :: "patch_warning list"
  pr_fuzz :: nat

type_synonym files = "(string, string) jsmap"

definition new_section :: "parser \<Rightarrow> string list \<Rightarrow> section_state" where
  "new_section P rest = \<lparr>ss_rest = rest, ss_index = 0, ss_chunks = [], ss_fuzz = pr_fuzz P, ss_warnings = pr_warnings P\<rparr>"

definition after_marker :: "string \<Rightarrow> string \<Rightarrow> string" where
  "after_marker m l = js_trim (drop (length m) l)"

definition parseUpdate :: "files \<Rightarrow> string \<Rightarrow> parser \<Rightarrow> (diff_error + parser) option" where
  "parseUpdate files path P =
     (if js_has (pr_actions P) path then Some (Inl (Duplicate_action P_UPDATE path))
      else
        let rest = tl (pr_rest P);
            moves = rest \<noteq> [] \<and> prefix MOVE_TO (hd rest);
            movePath = (if moves then Some (after_marker MOVE_TO (hd rest)) else None) in
        case js_get files path of
          None \<Rightarrow> Some (Inl (Missing_file P_UPDATE path))
        | Some text \<Rightarrow>
            (case section_loop (split_lines text) path (new_section P (if moves then tl rest else rest)) of
               None \<Rightarrow> None
             | Some (Inl e) \<Rightarrow> Some (Inl e)
             | Some (Inr S) \<Rightarrow>
                 Some (Inr \<lparr>pr_rest = ss_rest S,
                   pr_actions = js_set (pr_actions P) path
                     \<lparr>pa_type = P_UPDATE, pa_newFile = None, pa_chunks = ss_chunks S, pa_movePath = movePath\<rparr>,
                   pr_warnings = ss_warnings S, pr_fuzz = ss_fuzz S\<rparr>)))"

definition parseDelete :: "files \<Rightarrow> string \<Rightarrow> parser \<Rightarrow> diff_error + parser" where
  "parseDelete files path P =
     (if js_has (pr_actions P) path then Inl (Duplicate_action P_DELETE path)
      else if \<not> js_has files path then Inl (Missing_file P_DELETE path)
      else Inr (P\<lparr>pr_rest := tl (pr_rest P), pr_actions := js_set (pr_actions P) path
             \<lparr>pa_type = P_DELETE, pa_newFile = None, pa_chunks = [], pa_movePath = None\<rparr>\<rparr>))"

definition add_ends :: "string \<Rightarrow> bool" where
  "add_ends l \<longleftrightarrow> list_ex (\<lambda>m. prefix (js_trim m) l) [END_PATCH, UPDATE_FILE, DELETE_FILE, ADD_FILE]"

fun add_lines :: "string list \<Rightarrow> diff_error + (string list \<times> string list)" where
  "add_lines [] = Inr ([], [])"
| "add_lines (l # ls) =
     (if add_ends l then Inr ([], l # ls)
      else if \<not> prefix ''+'' l then Inl (Missing_plus l)
      else (case add_lines ls of Inl e \<Rightarrow> Inl e | Inr (xs, rest) \<Rightarrow> Inr (tl l # xs, rest)))"

definition parseAdd :: "files \<Rightarrow> string \<Rightarrow> parser \<Rightarrow> diff_error + parser" where
  "parseAdd files path P =
     (if js_has (pr_actions P) path then Inl (Duplicate_action P_ADD path)
      else if js_has files path then Inl (File_exists path)
      else (case add_lines (tl (pr_rest P)) of
              Inl e \<Rightarrow> Inl e
            | Inr (xs, rest) \<Rightarrow>
                Inr (P\<lparr>pr_rest := rest, pr_actions := js_set (pr_actions P) path
                  \<lparr>pa_type = P_ADD, pa_newFile = Some (join_lines xs), pa_chunks = [], pa_movePath = None\<rparr>\<rparr>)))"

definition parseNextAction :: "files \<Rightarrow> parser \<Rightarrow> (diff_error + parser) option" where
  "parseNextAction files P =
     (let line = hd (pr_rest P) in
      if prefix UPDATE_FILE line then parseUpdate files (after_marker UPDATE_FILE line) P
      else if prefix DELETE_FILE line then Some (parseDelete files (after_marker DELETE_FILE line) P)
      else if prefix ADD_FILE line then Some (parseAdd files (after_marker ADD_FILE line) P)
      else Some (Inl (Unknown_line line)))"

definition parse_ends :: "string list \<Rightarrow> bool" where
  "parse_ends rest \<longleftrightarrow> (case rest of [] \<Rightarrow> True | l # _ \<Rightarrow> prefix END_PATCH l)"

partial_function (option) parse_loop :: "files \<Rightarrow> parser \<Rightarrow> (diff_error + parser) option" where
  "parse_loop files st =
     (if parse_ends (pr_rest st) then Some (Inr st)
      else (case parseNextAction files st of
              None \<Rightarrow> None
            | Some r \<Rightarrow> (case r of Inl e \<Rightarrow> Some (Inl e) | Inr st' \<Rightarrow> parse_loop files st')))"

declare section_loop.simps [code] parse_loop.simps [code]

definition skipBeginSentinel :: "string list \<Rightarrow> string list" where
  "skipBeginSentinel ls = (case ls of [] \<Rightarrow> [] | l # rest \<Rightarrow> if prefix BEGIN_PATCH l then rest else l # rest)"

definition parse_patch :: "files \<Rightarrow> string list \<Rightarrow> (diff_error + parser) option" where
  "parse_patch files ls =
     parse_loop files \<lparr>pr_rest = skipBeginSentinel ls, pr_actions = [], pr_warnings = [], pr_fuzz = 0\<rparr>"

end
