(* ===== verification/Patch_Apply.thy ===== *)
theory Patch_Apply
  imports Patch_Parser
begin

text \<open>
  The handler of the patch tool, \<^verbatim>\<open>src/core/task/tools/handlers/ApplyPatchHandler.ts\<close>: from the text of the agent to the
  files it asks approval for, the changes it computes and the writes it makes.

  The workspace is the argument \<open>W\<close>: which paths may be read, which exist with what text, which resolve, and which belong
  to the knowledge ledger while writing there is not authorised. The editor the writes go through saves what it is given;
  the edits a user makes in it, messages and tracking are left out. A write is one of the operations \<open>Write\<close> and \<open>Remove\<close>.
\<close>

record workspace =
  ws_allowed :: "string \<Rightarrow> bool"
  ws_read :: "string \<Rightarrow> string option"
  ws_resolves :: "string \<Rightarrow> bool"
  ws_ledger :: "string \<Rightarrow> bool"

section \<open>Lines of the patch\<close>

definition BASH_WRAPPERS :: "string list" where
  "BASH_WRAPPERS = [''%%bash'', ''apply_patch'', ''EOF'', replicate 3 (CHR 0x60)]"

definition isPatchLine :: "string \<Rightarrow> bool" where
  "isPatchLine l \<longleftrightarrow>
     list_ex (\<lambda>m. prefix m l) [ADD_FILE, UPDATE_FILE, DELETE_FILE, MOVE_TO, SECTION, ''+'', ''-'', [CHR 0x20]] \<or> l = ''***''"

record strip_state =
  sp_inside :: bool
  sp_foundBegin :: bool
  sp_foundContent :: bool
  sp_result :: "string list"

definition strip_line :: "nat \<Rightarrow> nat \<times> string \<Rightarrow> strip_state \<Rightarrow> strip_state" where
  "strip_line n p S =
     (let (i, line) = p in
      if \<not> sp_inside S \<and> list_ex (\<lambda>w. prefix w line) BASH_WRAPPERS then S
      else if prefix BEGIN_PATCH line then S\<lparr>sp_inside := True, sp_foundBegin := True, sp_result := sp_result S @ [line]\<rparr>
      else if line = END_PATCH then S\<lparr>sp_inside := False, sp_result := sp_result S @ [line]\<rparr>
      else
        let content = isPatchLine line;
            S1 = (if content \<and> i \<noteq> n - 1 then S\<lparr>sp_foundContent := True\<rparr> else S) in
        if sp_inside S1 \<or> (\<not> sp_foundBegin S1 \<and> content) \<or> (line = [] \<and> sp_foundContent S1)
        then S1\<lparr>sp_result := sp_result S1 @ [line]\<rparr> else S1)"

definition stripBashWrapper :: "string list \<Rightarrow> string list" where
  "stripBashWrapper lines =
     (let S = fold (strip_line (length lines)) (enumerate 0 lines)
                \<lparr>sp_inside = False, sp_foundBegin = False, sp_foundContent = False, sp_result = []\<rparr>;
          result = rev (dropWhile (\<lambda>l. l = []) (rev (sp_result S))) in
      if \<not> sp_foundBegin S \<and> \<not> sp_foundContent S then lines else result)"

definition strip_return :: "string \<Rightarrow> string" where
  "strip_return l = (if l \<noteq> [] \<and> last l = CHR 0x0D then butlast l else l)"

definition preprocessLines :: "string \<Rightarrow> diff_error + string list" where
  "preprocessLines text =
     (let lines = stripBashWrapper (map strip_return (split_lines text));
          hasBegin = (lines \<noteq> [] \<and> prefix BEGIN_PATCH (hd lines));
          hasEnd = (lines \<noteq> [] \<and> last lines = END_PATCH) in
      if \<not> hasBegin \<and> \<not> hasEnd then Inr (BEGIN_PATCH # lines @ [END_PATCH])
      else if hasBegin \<and> hasEnd then Inr lines
      else Inl Incomplete_sentinels)"

definition extractFilesForOperations :: "string \<Rightarrow> string list \<Rightarrow> string list" where
  "extractFilesForOperations text ms =
     List.map_filter
       (\<lambda>line. map_option (\<lambda>m. after_marker m line)
          (find (\<lambda>m. prefix m line \<and> \<not> suffix (after_marker m line) (js_trim text)) ms))
       (stripBashWrapper (split_lines text))"

text \<open>The paths the approval of the call is asked for.\<close>

definition extractAllFiles :: "string \<Rightarrow> string list" where
  "extractAllFiles text = extractFilesForOperations text [ADD_FILE, UPDATE_FILE, DELETE_FILE]"

section \<open>Files\<close>

fun normalize_crlf :: "string \<Rightarrow> string" where
  "normalize_crlf (c # d # cs) =
     (if c = CHR 0x0D \<and> d = newline then newline # normalize_crlf cs else c # normalize_crlf (d # cs))"
| "normalize_crlf cs = cs"

fun loadFiles :: "workspace \<Rightarrow> string list \<Rightarrow> files \<Rightarrow> diff_error + files" where
  "loadFiles W [] m = Inr m"
| "loadFiles W (p # ps) m =
     (if \<not> ws_allowed W p then Inl (Access_denied p)
      else (case ws_read W p of None \<Rightarrow> Inl (File_not_found p)
            | Some text \<Rightarrow> loadFiles W ps (js_set m p (normalize_crlf text))))"

section \<open>Applying chunks\<close>

text \<open>The lines before a chunk are copied, its own inserted, as many as it deletes skipped.\<close>

fun chunk_loop :: "string \<Rightarrow> string list \<Rightarrow> patch_chunk list \<Rightarrow> int \<times> string list \<Rightarrow> diff_error + (int \<times> string list)" where
  "chunk_loop path lines [] acc = Inr acc"
| "chunk_loop path lines (c # cs) acc =
     (let (current, result) = acc in
      if int (length lines) < pc_origIndex c then Inl (Chunk_out_of_range path)
      else if pc_origIndex c < current then Inl (Chunk_out_of_order path)
      else chunk_loop path lines cs
        (pc_origIndex c + int (length (pc_del c)), result @ js_slice current (pc_origIndex c) lines @ pc_ins c))"

definition applyChunks :: "string \<Rightarrow> patch_chunk list \<Rightarrow> string \<Rightarrow> diff_error + string" where
  "applyChunks content chunks path =
     (if chunks = [] then Inr content
      else (let lines = split_lines content in
        case chunk_loop path lines chunks (0, []) of
          Inl e \<Rightarrow> Inl e
        | Inr (current, result) \<Rightarrow> Inr (join_lines (result @ js_slice current (int (length lines)) lines))))"

section \<open>Changes\<close>

record file_change =
  fc_type :: action_type
  fc_oldContent :: "string option"
  fc_newContent :: "string option"
  fc_movePath :: "string option"
  fc_startLines :: "int list"

type_synonym changes = "(string, file_change) jsmap"

definition change_of :: "files \<Rightarrow> string \<Rightarrow> patch_action \<Rightarrow> diff_error + file_change" where
  "change_of files path a =
     (case pa_type a of
        P_DELETE \<Rightarrow> Inr \<lparr>fc_type = P_DELETE, fc_oldContent = js_get files path, fc_newContent = None, fc_movePath = None, fc_startLines = []\<rparr>
      | P_ADD \<Rightarrow>
          (case pa_newFile a of
             None \<Rightarrow> Inl Add_without_content
           | Some t \<Rightarrow>
               if t = [] then Inl Add_without_content
               else Inr \<lparr>fc_type = P_ADD, fc_oldContent = None, fc_newContent = Some t, fc_movePath = None, fc_startLines = []\<rparr>)
      | P_UPDATE \<Rightarrow>
          (case js_get files path of
             None \<Rightarrow> Inl (Missing_file P_UPDATE path)
           | Some old \<Rightarrow>
               (case applyChunks old (pa_chunks a) path of
                  Inl e \<Rightarrow> Inl e
                | Inr new \<Rightarrow> Inr \<lparr>fc_type = P_UPDATE, fc_oldContent = Some old, fc_newContent = Some new, fc_movePath = pa_movePath a,
                    fc_startLines = map (\<lambda>c. pc_origIndex c + 1) (pa_chunks a)\<rparr>)))"

fun patchToCommit :: "workspace \<Rightarrow> files \<Rightarrow> (string \<times> patch_action) list \<Rightarrow> changes \<Rightarrow> diff_error + changes" where
  "patchToCommit W files [] m = Inr m"
| "patchToCommit W files ((path, a) # as) m =
     (if \<not> ws_resolves W path then patchToCommit W files as m
      else (case change_of files path a of Inl e \<Rightarrow> Inl e | Inr c \<Rightarrow> patchToCommit W files as (js_set m path c)))"

section \<open>Writing the changes\<close>

datatype file_op = Write string string | Remove string

text \<open>A path that is the empty string is none.\<close>

definition moved_to :: "file_change \<Rightarrow> string option" where
  "moved_to c =
     (if fc_type c = P_UPDATE then (case fc_movePath c of None \<Rightarrow> None | Some p \<Rightarrow> if p = [] then None else Some p) else None)"

definition messagePath :: "string \<Rightarrow> file_change \<Rightarrow> string" where
  "messagePath path c = (case moved_to c of None \<Rightarrow> path | Some p \<Rightarrow> p)"

definition pathToChangeKey :: "changes \<Rightarrow> (string, string) jsmap" where
  "pathToChangeKey m = fold (\<lambda>(path, c). \<lambda>k. js_set k (messagePath path c) path) m []"

text \<open>\<^verbatim>\<open>prepareFileChange\<close> and \<^verbatim>\<open>saveFileChange\<close>: the operations of one change, or the error of an empty text.\<close>

definition save_change :: "string \<Rightarrow> file_change \<Rightarrow> diff_error + file_op list" where
  "save_change path c =
     (let operationPath = messagePath path c in
      case fc_type c of
        P_DELETE \<Rightarrow> Inr [Remove operationPath]
      | _ \<Rightarrow>
          (case fc_newContent c of
             None \<Rightarrow> Inl (No_content operationPath)
           | Some t \<Rightarrow>
               if t = [] then Inl (No_content operationPath)
               else (case moved_to c of None \<Rightarrow> Inr [Write operationPath t] | Some p \<Rightarrow> Inr [Write p t, Remove path])))"

text \<open>The changes one after another; what is written before an error stays written.\<close>

fun apply_messages :: "changes \<Rightarrow> (string, string) jsmap \<Rightarrow> string list \<Rightarrow> file_op list \<times> diff_error option" where
  "apply_messages m keys [] = ([], None)"
| "apply_messages m keys (p # ps) =
     (if p = [] then apply_messages m keys ps
      else (case js_get keys p of
              None \<Rightarrow> apply_messages m keys ps
            | Some path \<Rightarrow>
                if path = [] then apply_messages m keys ps
                else (case js_get m path of
                        None \<Rightarrow> apply_messages m keys ps
                      | Some c \<Rightarrow>
                          (case save_change path c of
                             Inl e \<Rightarrow> ([], Some e)
                           | Inr ops \<Rightarrow> (let (ops', err) = apply_messages m keys ps in (ops @ ops', err))))))"

datatype patch_outcome =
  Missing_input
| Patch_failed diff_error "file_op list"
| Ledger_denied "string list"
| Patch_applied "file_op list" nat

definition patch_ops :: "patch_outcome \<Rightarrow> file_op list" where
  "patch_ops out = (case out of Patch_failed e ops \<Rightarrow> ops | Patch_applied ops n \<Rightarrow> ops | _ \<Rightarrow> [])"

definition apply_changes :: "workspace \<Rightarrow> changes \<Rightarrow> nat \<Rightarrow> patch_outcome" where
  "apply_changes W m fuzz =
     (let denied = filter (ws_ledger W) (js_keys m) in
      if denied \<noteq> [] then Ledger_denied denied
      else (case apply_messages m (pathToChangeKey m) (map (\<lambda>(path, c). messagePath path c) m) of
              (ops, None) \<Rightarrow> Patch_applied ops fuzz
            | (ops, Some e) \<Rightarrow> Patch_failed e ops))"

definition execute_patch :: "workspace \<Rightarrow> string \<Rightarrow> patch_outcome option" where
  "execute_patch W text =
     (if text = [] then Some Missing_input
      else (case preprocessLines text of
              Inl e \<Rightarrow> Some (Patch_failed e [])
            | Inr lines \<Rightarrow>
                (case loadFiles W (extractFilesForOperations text [UPDATE_FILE, DELETE_FILE]) [] of
                   Inl e \<Rightarrow> Some (Patch_failed e [])
                 | Inr files \<Rightarrow>
                     (case parse_patch files lines of
                        None \<Rightarrow> None
                      | Some r \<Rightarrow>
                          (case r of
                             Inl e \<Rightarrow> Some (Patch_failed e [])
                           | Inr P \<Rightarrow>
                               (case patchToCommit W files (pr_actions P) [] of
                                  Inl e \<Rightarrow> Some (Patch_failed e [])
                                | Inr m \<Rightarrow> Some (apply_changes W m (pr_fuzz P))))))))"

end
