(* ===== verification/Patch_Returns.thy ===== *)
theory Patch_Returns
  imports Patch_Apply
begin

text \<open>
  When the parser of patches returns. A section whose first line is blank, or begins with \<^verbatim>\<open>@@\<close> and is no header, is
  read again and again while the search in the file is still at its start; every other step reads a line.
\<close>

section \<open>What a step reads\<close>

lemma marker_sections: "list_ex (\<lambda>m. prefix m l) section_markers \<longleftrightarrow> prefix (js_trim END_PATCH) l \<or> prefix (js_trim UPDATE_FILE) l \<or>
    prefix (js_trim DELETE_FILE) l \<or> prefix (js_trim ADD_FILE) l \<or> prefix (js_trim END_FILE) l"
  by (simp add: section_markers_def)

lemma trim_END [simp]: "js_trim END_PATCH = END_PATCH"
  by code_simp

lemma END_stops: "prefix END_PATCH l \<Longrightarrow> peek_stops l \<and> \<not> is_header l"
proof -
  assume p: "prefix END_PATCH l"
  then obtain r where "l = END_PATCH @ r" by (auto simp: prefix_def)
  then have "\<not> is_header l" by (simp add: is_header_def END_PATCH_def)
  then show ?thesis using p by (simp add: peek_stops_def marker_sections)
qed

lemma peek_loop_reads:
  "peek_loop ls S = Inr (S', rest) \<Longrightarrow>
   \<exists>read. ls = read @ rest \<and> (\<forall>l \<in> set read. \<not> peek_stops l) \<and> (rest = [] \<or> peek_stops (hd rest))"
proof (induction ls S rule: peek_loop.induct)
  case (2 l ls S)
  show ?case
  proof (cases "peek_stops l")
    case True
    then show ?thesis using 2(2) by auto
  next
    case False
    then have "peek_loop ls (peek_line l S) = Inr (S', rest)" "\<not> prefix ''***'' l" using 2(2) by (auto split: if_splits)
    from 2(1) [OF False this(2) this(1)] obtain read where "ls = read @ rest" "\<forall>l \<in> set read. \<not> peek_stops l" "rest = [] \<or> peek_stops (hd rest)"
      by blast
    then show ?thesis using False by (intro exI [where x = "l # read"]) simp
  qed
qed simp

lemma END_FILE_not_END: "\<not> prefix END_PATCH END_FILE"
  by (simp add: markers)

lemma peek_reads:
  assumes "peek ls = Inr (ctx, chunks, rest, eof)"
  shows "\<exists>read. ls = read @ rest \<and> (\<forall>l \<in> set read. \<not> prefix END_PATCH l) \<and> (ls \<noteq> [] \<and> \<not> peek_stops (hd ls) \<longrightarrow> read \<noteq> [])"
proof -
  obtain S rest0 where S: "peek_loop ls new_peek = Inr (S, rest0)"
    using assms by (auto simp: peek_def split: sum.splits)
  obtain read where read: "ls = read @ rest0" "\<forall>l \<in> set read. \<not> peek_stops l" "rest0 = [] \<or> peek_stops (hd rest0)"
    using peek_loop_reads [OF S] by blast
  have free: "\<forall>l \<in> set read. \<not> prefix END_PATCH l" using read(2) END_stops by blast
  have ne: "ls \<noteq> [] \<and> \<not> peek_stops (hd ls) \<longrightarrow> read \<noteq> []" using read(1,3) by auto
  show ?thesis
  proof (cases "rest0 \<noteq> [] \<and> hd rest0 = END_FILE")
    case True
    then have "rest = tl rest0" "rest0 = END_FILE # tl rest0" using assms S by (auto simp: peek_def) (metis list.collapse)
    then have "ls = (read @ [END_FILE]) @ rest" using read(1) by simp
    then show ?thesis using free END_FILE_not_END by (intro exI [where x = "read @ [END_FILE]"]) auto
  next
    case False
    then have "rest = rest0" using assms S by (auto simp: peek_def)
    then show ?thesis using free read(1) ne by blast
  qed
qed

lemma peek_nothing:
  assumes "ls = [] \<or> peek_stops (hd ls) \<and> hd ls \<noteq> END_FILE"
  shows "peek ls = Inr ([], [], ls, False)"
proof -
  have "peek_loop ls new_peek = Inr (new_peek, ls)" using assms by (cases ls) auto
  then show ?thesis using assms by (auto simp: peek_def flush_chunk_def new_peek_def)
qed

text \<open>A step that does not fail reads from the lines, the end marker never among them.\<close>

lemma section_step_reads:
  assumes "section_step lines path S = Inr S'"
  shows "\<exists>read. ss_rest S = read @ ss_rest S' \<and> (\<forall>l \<in> set read. \<not> prefix END_PATCH l) \<and>
    (ss_rest S \<noteq> [] \<and> (is_header (hd (ss_rest S)) \<or> \<not> peek_stops (hd (ss_rest S))) \<longrightarrow> read \<noteq> [])"
proof -
  let ?header = "ss_rest S \<noteq> [] \<and> is_header (hd (ss_rest S))"
  let ?rest = "if ?header then tl (ss_rest S) else ss_rest S"
  obtain ctx chunks rest' eof where pk: "peek ?rest = Inr (ctx, chunks, rest', eof)" and rest': "ss_rest S' = rest'"
    using assms unfolding section_step_def Let_def
    by (cases "ss_rest S") (auto simp: case_prod_beta split: if_splits sum.splits)
  obtain read where read: "?rest = read @ rest'" "\<forall>l \<in> set read. \<not> prefix END_PATCH l"
    "?rest \<noteq> [] \<and> \<not> peek_stops (hd ?rest) \<longrightarrow> read \<noteq> []"
    using peek_reads [OF pk] by blast
  show ?thesis
  proof (cases ?header)
    case True
    then have "ss_rest S = hd (ss_rest S) # read @ rest'" using read(1) by (metis list.collapse)
    moreover have "\<not> prefix END_PATCH (hd (ss_rest S))" using True END_stops by blast
    ultimately show ?thesis using read(2) rest' by (intro exI [where x = "hd (ss_rest S) # read"]) simp
  next
    case False
    then show ?thesis using read rest' by (intro exI [where x = read]) auto
  qed
qed

section \<open>Stuck sections\<close>

text \<open>The step leaves its state as it is.\<close>

definition stuck :: "section_state \<Rightarrow> bool" where
  "stuck S \<longleftrightarrow> \<not> section_ends (ss_rest S) \<and> ss_index S = 0 \<and>
     (ss_rest S = [] \<or> peek_stops (hd (ss_rest S)) \<and> \<not> is_header (hd (ss_rest S)))"

lemma stuck_step: "stuck S \<Longrightarrow> section_step lines path S = Inr S"
proof -
  assume S: "stuck S"
  have "ss_rest S = [] \<or> peek_stops (hd (ss_rest S)) \<and> hd (ss_rest S) \<noteq> END_FILE"
  proof -
    have "list_ex (\<lambda>m. prefix m END_FILE) section_markers" by code_simp
    then show ?thesis using S by (auto simp: stuck_def section_ends_def split: list.splits)
  qed
  then have "peek (ss_rest S) = Inr ([], [], ss_rest S, False)" by (rule peek_nothing)
  moreover have "\<not> (case (case ss_rest S of [] \<Rightarrow> None | l # _ \<Rightarrow> Some l) of None \<Rightarrow> False | Some l \<Rightarrow> is_header l)"
    using S by (auto simp: stuck_def split: list.split)
  ultimately show ?thesis using S by (simp add: section_step_def Let_def findContext_def stuck_def)
qed

lemma stuck_diverges:
  assumes "stuck S"
  shows "section_loop lines path S = None"
proof (rule ccontr)
  assume "section_loop lines path S \<noteq> None"
  then obtain r where r: "section_loop lines path S = Some r" by blast
  have "\<not> stuck S"
  proof (rule section_loop.raw_induct [where P = "\<lambda>lines path S r. \<not> stuck S", OF _ r])
    fix f lines path S r
    assume IH: "\<And>lines path S r. f lines path S = Some r \<Longrightarrow> \<not> stuck S"
      and eq: "(if section_ends (ss_rest S) then Some (Inr S)
        else (case section_step lines path S of Inl e \<Rightarrow> Some (Inl e) | Inr S' \<Rightarrow> f lines path S')) = Some r"
    show "\<not> stuck S"
    proof
      assume "stuck S"
      then have "f lines path S = Some r" using eq stuck_step [of S lines path] by (simp add: stuck_def)
      then show False using IH \<open>stuck S\<close> by blast
    qed
  qed
  then show False using assms by blast
qed

text \<open>One step of a section, and the states it can come to.\<close>

inductive section_run :: "string list \<Rightarrow> string \<Rightarrow> section_state \<Rightarrow> section_state \<Rightarrow> bool" where
  stop: "section_run lines path S S"
| step: "\<not> section_ends (ss_rest S) \<Longrightarrow> section_step lines path S = Inr S1 \<Longrightarrow> section_run lines path S1 S2 \<Longrightarrow> section_run lines path S S2"

lemma section_loop_run: "section_run lines path S S' \<Longrightarrow> section_loop lines path S = section_loop lines path S'"
proof (induction rule: section_run.induct)
  case (step S lines path S1 S2)
  then show ?case by (subst section_loop.simps) simp
qed simp

lemma section_step_stuck:
  assumes "\<not> section_ends (ss_rest S)" and "section_step lines path S = Inr S'" and "\<not> stuck S"
  shows "length (ss_rest S') < length (ss_rest S)"
proof -
  obtain read where read: "ss_rest S = read @ ss_rest S'"
    "ss_rest S \<noteq> [] \<and> (is_header (hd (ss_rest S)) \<or> \<not> peek_stops (hd (ss_rest S))) \<longrightarrow> read \<noteq> []"
    using section_step_reads [OF assms(2)] by blast
  have "ss_rest S \<noteq> [] \<and> (is_header (hd (ss_rest S)) \<or> \<not> peek_stops (hd (ss_rest S)))"
  proof (rule ccontr)
    assume no: "\<not> ?thesis"
    then have "ss_index S = 0" using assms(2) by (cases "ss_rest S") (auto simp: section_step_def Let_def split: if_splits)
    then show False using no assms(1,3) by (auto simp: stuck_def)
  qed
  then show ?thesis using read by (metis length_append length_greater_0_conv less_add_same_cancel2)
qed

lemma section_returns_iff:
  "section_loop lines path S = None \<longleftrightarrow> (\<exists>S'. section_run lines path S S' \<and> stuck S')"
proof
  assume "\<exists>S'. section_run lines path S S' \<and> stuck S'"
  then show "section_loop lines path S = None" using section_loop_run stuck_diverges by metis
next
  assume "section_loop lines path S = None"
  then show "\<exists>S'. section_run lines path S S' \<and> stuck S'"
  proof (induction "length (ss_rest S)" arbitrary: S rule: less_induct)
    case less
    show ?case
    proof (cases "stuck S")
      case True
      then show ?thesis using section_run.stop by blast
    next
      case False
      have ne: "\<not> section_ends (ss_rest S)" using less(2) by (subst (asm) section_loop.simps) (auto split: if_splits)
      obtain S1 where S1: "section_step lines path S = Inr S1" "section_loop lines path S1 = None"
        using less(2) ne by (subst (asm) section_loop.simps) (auto split: sum.splits)
      from less(1) [OF section_step_stuck [OF ne S1(1) False] S1(2)] obtain S' where "section_run lines path S1 S'" "stuck S'" by blast
      then show ?thesis using section_run.step [OF ne S1(1)] by blast
    qed
  qed
qed

section \<open>The whole parser\<close>

definition irregular :: "string \<Rightarrow> bool" where
  "irregular l \<longleftrightarrow> l = [] \<or> l = ''***'' \<or> (prefix ''@@'' l \<and> \<not> is_header l)"

definition readable :: "string list \<Rightarrow> bool" where
  "readable ls \<longleftrightarrow> (\<exists>l \<in> set ls. prefix END_PATCH l) \<and> (\<forall>l \<in> set ls. \<not> irregular l)"

lemma readable_reads: "readable (read @ rest) \<Longrightarrow> \<forall>l \<in> set read. \<not> prefix END_PATCH l \<Longrightarrow> readable rest"
  by (auto simp: readable_def)

lemma readable_tl: "readable ls \<Longrightarrow> \<not> prefix END_PATCH (hd ls) \<Longrightarrow> ls \<noteq> [] \<and> readable (tl ls)"
  by (cases ls) (auto simp: readable_def)

lemma readable_not_stuck: "readable (ss_rest S) \<Longrightarrow> \<not> stuck S"
  by (cases "ss_rest S") (auto simp: readable_def stuck_def section_ends_def peek_stops_def irregular_def SECTION_def)

lemma section_run_reads:
  "section_run lines path S S' \<Longrightarrow> \<exists>read. ss_rest S = read @ ss_rest S' \<and> (\<forall>l \<in> set read. \<not> prefix END_PATCH l)"
proof (induction rule: section_run.induct)
  case (step S lines path S1 S2)
  obtain r1 where "ss_rest S = r1 @ ss_rest S1" "\<forall>l \<in> set r1. \<not> prefix END_PATCH l" using section_step_reads [OF step(2)] by blast
  moreover obtain r2 where "ss_rest S1 = r2 @ ss_rest S2" "\<forall>l \<in> set r2. \<not> prefix END_PATCH l" using step(4) by blast
  ultimately show ?case by (intro exI [where x = "r1 @ r2"]) auto
qed simp

lemma section_loop_Inr:
  assumes "section_loop lines path S = Some (Inr S')"
  shows "section_run lines path S S' \<and> section_ends (ss_rest S')"
proof -
  have "\<forall>S''. (Inr S' :: diff_error + section_state) = Inr S'' \<longrightarrow> section_run lines path S S'' \<and> section_ends (ss_rest S'')"
  proof (rule section_loop.raw_induct [where P = "\<lambda>lines path S r. \<forall>S'. r = Inr S' \<longrightarrow> section_run lines path S S' \<and> section_ends (ss_rest S')",
        OF _ assms])
    fix f lines path S r
    assume IH: "\<And>lines path S r. f lines path S = Some r \<Longrightarrow> \<forall>S'. r = Inr S' \<longrightarrow> section_run lines path S S' \<and> section_ends (ss_rest S')"
      and eq: "(if section_ends (ss_rest S) then Some (Inr S)
        else (case section_step lines path S of Inl e \<Rightarrow> Some (Inl e) | Inr S' \<Rightarrow> f lines path S')) = Some r"
    show "\<forall>S'. r = Inr S' \<longrightarrow> section_run lines path S S' \<and> section_ends (ss_rest S')"
    proof (cases "section_ends (ss_rest S)")
      case True
      then show ?thesis using eq by (auto intro: section_run.stop)
    next
      case False
      show ?thesis
      proof (cases "section_step lines path S")
        case (Inr S1)
        then have "f lines path S1 = Some r" using eq False by simp
        from IH [OF this] show ?thesis using section_run.step [OF False Inr] by blast
      qed (use eq False in auto)
    qed
  qed
  then show ?thesis by blast
qed

lemma section_readable:
  assumes "readable (ss_rest S)"
  shows "section_loop lines path S \<noteq> None"
proof
  assume "section_loop lines path S = None"
  then obtain S' where run: "section_run lines path S S'" "stuck S'" using section_returns_iff by blast
  obtain read where "ss_rest S = read @ ss_rest S'" "\<forall>l \<in> set read. \<not> prefix END_PATCH l" using section_run_reads [OF run(1)] by blast
  then show False using readable_reads assms readable_not_stuck run(2) by metis
qed

lemma add_lines_reads: "add_lines ls = Inr (xs, rest) \<Longrightarrow> \<exists>read. ls = read @ rest \<and> (\<forall>l \<in> set read. \<not> prefix END_PATCH l)"
proof (induction ls arbitrary: xs)
  case (Cons l ls)
  show ?case
  proof (cases "add_ends l")
    case True
    then show ?thesis using Cons.prems by simp
  next
    case False
    then obtain ys where "add_lines ls = Inr (ys, rest)" using Cons.prems by (auto split: if_splits sum.splits)
    from Cons.IH [OF this] obtain read where "ls = read @ rest" "\<forall>l \<in> set read. \<not> prefix END_PATCH l" by blast
    moreover have "\<not> prefix END_PATCH l" using False by (simp add: add_ends_def)
    ultimately show ?thesis by (intro exI [where x = "l # read"]) simp
  qed
qed simp

text \<open>An action on readable lines returns, and leaves readable lines, fewer than before.\<close>

lemma MOVE_not_END: "prefix MOVE_TO l \<Longrightarrow> \<not> prefix END_PATCH l"
  by (auto simp: prefix_def markers)

lemma update_rest:
  assumes "readable rest"
  shows "readable (if rest \<noteq> [] \<and> prefix MOVE_TO (hd rest) then tl rest else rest)"
  using readable_tl [OF assms] MOVE_not_END assms by auto

lemma action_returns:
  assumes "readable (pr_rest P)" and "\<not> parse_ends (pr_rest P)"
  shows "parseNextAction files P \<noteq> None \<and>
    (\<forall>P'. parseNextAction files P = Some (Inr P') \<longrightarrow> readable (pr_rest P') \<and> length (pr_rest P') < length (pr_rest P))"
proof -
  have "\<not> prefix END_PATCH (hd (pr_rest P))" using assms(2) by (cases "pr_rest P") (auto simp: parse_ends_def)
  then have tl: "pr_rest P \<noteq> []" "readable (tl (pr_rest P))" using readable_tl [OF assms(1)] by auto
  let ?rest = "if tl (pr_rest P) \<noteq> [] \<and> prefix MOVE_TO (hd (tl (pr_rest P))) then tl (tl (pr_rest P)) else tl (pr_rest P)"
  have rest: "readable ?rest" "length ?rest < length (pr_rest P)"
    using update_rest [OF tl(2)] tl(1) by (auto simp: length_tl intro: diff_less_mono2)
  have update: "parseUpdate files path P \<noteq> None \<and>
      (\<forall>P'. parseUpdate files path P = Some (Inr P') \<longrightarrow> readable (pr_rest P') \<and> length (pr_rest P') < length (pr_rest P))" for path
  proof (cases "js_get files path")
    case (Some old)
    obtain r where r: "section_loop (split_lines old) path (new_section P ?rest) = Some r"
      using section_readable [of "new_section P ?rest"] rest(1) by (auto simp: new_section_def)
    show ?thesis
    proof (cases r)
      case (Inr S)
      obtain read where "?rest = read @ ss_rest S" "\<forall>l \<in> set read. \<not> prefix END_PATCH l"
        using section_loop_Inr [OF r [unfolded Inr]] section_run_reads by (fastforce simp: new_section_def)
      then have "readable (ss_rest S)" "length (ss_rest S) \<le> length ?rest" using readable_reads [of read "ss_rest S"] rest(1) by simp_all
      then show ?thesis using Some r Inr rest(2) unfolding parseUpdate_def Let_def by auto
    qed (use Some r in \<open>auto simp: parseUpdate_def Let_def\<close>)
  qed (simp add: parseUpdate_def Let_def)
  have delete: "\<forall>P'. parseDelete files path P = Inr P' \<longrightarrow> readable (pr_rest P') \<and> length (pr_rest P') < length (pr_rest P)" for path
    using tl by (auto simp: parseDelete_def)
  have add: "\<forall>P'. parseAdd files path P = Inr P' \<longrightarrow> readable (pr_rest P') \<and> length (pr_rest P') < length (pr_rest P)" for path
  proof (intro allI impI)
    fix P'
    assume "parseAdd files path P = Inr P'"
    then obtain xs where "add_lines (tl (pr_rest P)) = Inr (xs, pr_rest P')"
      by (auto simp: parseAdd_def split: if_splits sum.splits)
    from add_lines_reads [OF this] obtain read where read: "tl (pr_rest P) = read @ pr_rest P'" "\<forall>l \<in> set read. \<not> prefix END_PATCH l" by blast
    moreover have "length (pr_rest P') < length (pr_rest P)" using arg_cong [OF read(1), of length] tl(1) by (cases "pr_rest P") auto
    ultimately show "readable (pr_rest P') \<and> length (pr_rest P') < length (pr_rest P)" using readable_reads tl(2) by metis
  qed
  show ?thesis using update delete add by (simp add: parseNextAction_def Let_def)
qed

lemma parse_loop_returns: "readable (pr_rest P) \<Longrightarrow> parse_loop files P \<noteq> None"
proof (induction "length (pr_rest P)" arbitrary: P rule: less_induct)
  case less
  show ?case
  proof (cases "parse_ends (pr_rest P)")
    case True
    then show ?thesis by (subst parse_loop.simps) simp
  next
    case False
    note act = action_returns [OF less(2) False, of files]
    then obtain r where r: "parseNextAction files P = Some r" by blast
    show ?thesis
    proof (cases r)
      case (Inr P')
      then show ?thesis using less(1) [of P'] act r False by (subst parse_loop.simps) simp
    qed (use r False in \<open>subst parse_loop.simps, simp\<close>)
  qed
qed

lemma BEGIN_not_END: "prefix BEGIN_PATCH l \<Longrightarrow> \<not> prefix END_PATCH l"
  by (auto simp: prefix_def markers)

lemma skip_readable: "readable ls \<Longrightarrow> readable (skipBeginSentinel ls)"
  using BEGIN_not_END by (cases ls) (auto simp: skipBeginSentinel_def readable_def)

text \<open>
  C29. The parser of patches returns, with a patch or an error, whatever the files hold, when some line ends the patch and no
  line of it is irregular: empty, three stars, or a section marker followed by neither a blank nor the end of the line.
\<close>

theorem parse_returns:
  assumes "\<exists>l \<in> set ls. prefix END_PATCH l" and "\<forall>l \<in> set ls. \<not> irregular l"
  shows "\<exists>r. parse_patch files ls = Some r"
proof -
  have "readable (skipBeginSentinel ls)" using assms skip_readable by (simp add: readable_def)
  then show ?thesis unfolding parse_patch_def using parse_loop_returns [of "\<lparr>pr_rest = skipBeginSentinel ls, pr_actions = [], pr_warnings = [], pr_fuzz = 0\<rparr>"]
    by auto
qed

lemma parse_returns_witness:
  "\<exists>r. parse_patch [(''a'', ''x'')] [''*** Begin Patch'', ''*** Update File: a'', ''@@'', ''-x'', ''+y'', ''*** End Patch''] = Some r"
  by (rule parse_returns) code_simp+

section \<open>Patches that hang\<close>

text \<open>
  When the first line of the body of an update is irregular, the parser never returns.
\<close>

theorem irregular_update_hangs:
  assumes "prefix BEGIN_PATCH b" and "prefix UPDATE_FILE u" and "js_has files (after_marker UPDATE_FILE u)" and "irregular l"
  shows "parse_patch files (b # u # l # rest) = None"
proof -
  let ?P = "\<lparr>pr_rest = u # l # rest, pr_actions = [], pr_warnings = [], pr_fuzz = 0\<rparr>"
  obtain content where content: "js_get files (after_marker UPDATE_FILE u) = Some content"
    using assms(3) by (cases "js_get files (after_marker UPDATE_FILE u)") (auto simp: js_get_None_iff)
  have markers_long: "m \<in> set section_markers \<Longrightarrow> \<not> prefix m [] \<and> \<not> prefix m ''***'' \<and> \<not> prefix ''@@'' m \<and> \<not> prefix m ''@@''" for m
    by (simp add: section_markers_def, elim disjE; hypsubst; code_simp)
  have no_marker: "\<not> prefix m l" if "m \<in> set section_markers" for m
    using assms(4) markers_long [OF that] that prefix_same_cases [of m l "''@@''"]
    by (auto simp: irregular_def)
  have l: "\<not> list_ex (\<lambda>m. prefix m l) section_markers" using no_marker by (auto simp: list_ex_iff)
  have "peek_stops l \<and> \<not> is_header l"
    using assms(4) by (auto simp: irregular_def peek_stops_def is_header_def SECTION_def)
  then have stuck: "stuck (new_section ?P (l # rest))" using l by (simp add: stuck_def new_section_def section_ends_def)
  have move: "\<not> prefix MOVE_TO l" using assms(4) by (auto simp: irregular_def MOVE_TO_def prefix_def)
  have "\<not> prefix END_PATCH u" using assms(2) by (auto simp: prefix_def markers)
  moreover have "parseNextAction files ?P = None"
    using assms(2) content move stuck_diverges [OF stuck] by (simp add: parseNextAction_def parseUpdate_def Let_def)
  ultimately have "parse_loop files ?P = None" by (subst parse_loop.simps) (simp add: parse_ends_def)
  then show ?thesis using assms(1) by (simp add: parse_patch_def skipBeginSentinel_def)
qed

lemma irregular_update_hangs_witness:
  "parse_patch [(''a'', ''x'')] (''*** Begin Patch'' # ''*** Update File: a'' # [] # [''-x'', ''+y'', ''*** End Patch'']) = None"
proof (rule irregular_update_hangs)
  show "prefix BEGIN_PATCH ''*** Begin Patch''" "prefix UPDATE_FILE ''*** Update File: a''"
    "js_has [(''a'', ''x'')] (after_marker UPDATE_FILE ''*** Update File: a'')" "irregular []"
    by code_simp+
qed

end
