(* ===== verification/Patch_Correct.thy ===== *)
theory Patch_Correct
  imports Patch_Returns
begin

text \<open>
  A patch rendered from the difference of two texts, parsed and applied to the first, writes the second: from the text
  the agent sends to the write of the handler.
\<close>

section \<open>Differences and their rendering\<close>

datatype hunk_line = Keep string | Del string | Ins string

definition render_line :: "hunk_line \<Rightarrow> string" where
  "render_line h = (case h of Keep l \<Rightarrow> CHR 0x20 # l | Del l \<Rightarrow> CHR ''-'' # l | Ins l \<Rightarrow> CHR ''+'' # l)"

definition old_side :: "hunk_line list \<Rightarrow> string list" where
  "old_side b = concat (map (\<lambda>h. case h of Keep l \<Rightarrow> [l] | Del l \<Rightarrow> [l] | Ins l \<Rightarrow> []) b)"

definition new_side :: "hunk_line list \<Rightarrow> string list" where
  "new_side b = concat (map (\<lambda>h. case h of Keep l \<Rightarrow> [l] | Del l \<Rightarrow> [] | Ins l \<Rightarrow> [l]) b)"

text \<open>Hunks, each after the lines \<open>gap\<close> that no hunk mentions.\<close>

type_synonym edits = "(string list \<times> hunk_line list) list"

definition old_text :: "edits \<Rightarrow> string list \<Rightarrow> string list" where
  "old_text es tail = concat (map (\<lambda>(gap, b). gap @ old_side b) es) @ tail"

definition new_text :: "edits \<Rightarrow> string list \<Rightarrow> string list" where
  "new_text es tail = concat (map (\<lambda>(gap, b). gap @ new_side b) es) @ tail"

definition section_text :: "edits \<Rightarrow> string list" where
  "section_text es = concat (map (\<lambda>(gap, b). SECTION # map render_line b) es)"

definition patch_lines :: "string \<Rightarrow> edits \<Rightarrow> string list" where
  "patch_lines path es = BEGIN_PATCH # (UPDATE_FILE @ path) # section_text es @ [END_PATCH]"

text \<open>Every hunk has an old side, and none of the lines the search passes over begins its text.\<close>

fun located :: "string list \<Rightarrow> nat \<Rightarrow> edits \<Rightarrow> bool" where
  "located lines n [] \<longleftrightarrow> True"
| "located lines n ((gap, b) # es) \<longleftrightarrow>
     old_side b \<noteq> [] \<and> list_all (\<lambda>i. \<not> same_text (\<lambda>s. s) lines (old_side b) (int i)) [n..<n + length gap] \<and>
     located lines (n + length gap + length (old_side b)) es"

lemma sides [simp]:
  "old_side [] = []" "new_side [] = []" "old_side (Keep l # b) = l # old_side b" "old_side (Del l # b) = l # old_side b"
  "old_side (Ins l # b) = old_side b" "new_side (Keep l # b) = l # new_side b" "new_side (Del l # b) = new_side b"
  "new_side (Ins l # b) = l # new_side b" "old_side (b @ c) = old_side b @ old_side c" "new_side (b @ c) = new_side b @ new_side c"
  by (simp_all add: old_side_def new_side_def)

lemma section_text_simps [simp]:
  "section_text [] = []" "section_text ((gap, b) # es) = SECTION # map render_line b @ section_text es"
  by (simp_all add: section_text_def)

section \<open>Rendered lines are read\<close>

lemma stop_starts: "peek_stops l \<Longrightarrow> l = [] \<or> hd l = CHR ''@'' \<or> hd l = CHR ''*''"
proof -
  have m: "m \<in> set section_markers \<Longrightarrow> m \<noteq> [] \<and> hd m = CHR ''*''" for m
    by (simp add: section_markers_def, elim disjE; hypsubst; code_simp)
  assume "peek_stops l"
  then consider "l = []" | "prefix SECTION l" | m where "m \<in> set section_markers" "prefix m l" | "l = ''***''"
    by (auto simp: peek_stops_def list_ex_iff)
  then show ?thesis
  proof cases
    case (3 m)
    then obtain r where "l = m @ r" "m \<noteq> []" "hd m = CHR ''*''" using m [OF 3(1)] by (auto simp: prefix_def)
    then show ?thesis by simp
  qed (auto simp: SECTION_def prefix_def)
qed

lemma render_not_stop: "\<not> peek_stops (render_line h) \<and> \<not> prefix ''***'' (render_line h)"
  using stop_starts [of "render_line h"] by (cases h) (auto simp: render_line_def)

lemma peek_rendered:
  "peek_loop (map render_line b @ rest) S = peek_loop rest (fold (\<lambda>h. peek_line (render_line h)) b S)"
  by (induction b arbitrary: S) (simp_all add: render_not_stop)

lemma peek_line_render:
  "peek_line (render_line (Keep l)) S =
     (if pk_mode S \<noteq> Keep_mode then S\<lparr>pk_chunks := flush_chunk S, pk_del := [], pk_ins := []\<rparr> else S)\<lparr>pk_mode := Keep_mode, pk_old := pk_old S @ [l]\<rparr>"
  "peek_line (render_line (Del l)) S = S\<lparr>pk_mode := Delete_mode, pk_del := pk_del S @ [l], pk_old := pk_old S @ [l]\<rparr>"
  "peek_line (render_line (Ins l)) S = S\<lparr>pk_mode := Add_mode, pk_ins := pk_ins S @ [l]\<rparr>"
  by (simp_all add: peek_line_def render_line_def Let_def)

section \<open>What the chunks of a hunk do\<close>

text \<open>The lines of the file from \<open>q\<close> on, edited by a hunk.\<close>

fun merge_lines :: "string list \<Rightarrow> nat \<Rightarrow> hunk_line list \<Rightarrow> string list" where
  "merge_lines lines q [] = []"
| "merge_lines lines q (Keep l # b) = lines ! q # merge_lines lines (Suc q) b"
| "merge_lines lines q (Del l # b) = merge_lines lines (Suc q) b"
| "merge_lines lines q (Ins l # b) = l # merge_lines lines q b"

lemma merge_snoc: "merge_lines lines q (b @ c) = merge_lines lines q b @ merge_lines lines (q + length (old_side b)) c"
  by (induction lines q b rule: merge_lines.induct) simp_all

lemma merge_exact: "take (length (old_side b)) (drop q lines) = old_side b \<Longrightarrow> merge_lines lines q b = new_side b"
proof (induction lines q b rule: merge_lines.induct)
  case (2 lines q l b)
  then have "q < length lines" by (cases "q < length lines") auto
  then have "drop q lines = lines ! q # drop (Suc q) lines" by (simp add: Cons_nth_drop_Suc)
  then show ?case using 2 by simp
next
  case (3 lines q l b)
  then have "q < length lines" by (cases "q < length lines") auto
  then have "drop q lines = lines ! q # drop (Suc q) lines" by (simp add: Cons_nth_drop_Suc)
  then show ?case using 3 by simp
qed simp_all

lemma chunk_loop_append:
  "chunk_loop path lines (cs @ ds) acc = (case chunk_loop path lines cs acc of Inl e \<Rightarrow> Inl e | Inr acc' \<Rightarrow> chunk_loop path lines ds acc')"
  by (induction path lines cs acc rule: chunk_loop.induct) (auto simp: Let_def)

lemma slice_extend: "c \<le> q \<Longrightarrow> q < length lines \<Longrightarrow> js_slice (int c) (int (Suc q)) lines = js_slice (int c) (int q) lines @ [lines ! q]"
  unfolding js_slice_nat using take_Suc_conv_app_nth [of "q - c" "drop c lines"] by (simp add: Suc_diff_le)

lemma slice_none [simp]: "js_slice i i lines = []"
  by (simp add: js_slice_def Let_def)

text \<open>The chunks made so far, applied, and what is pending.\<close>

definition peeked :: "string \<Rightarrow> string list \<Rightarrow> nat \<Rightarrow> patch_chunk list \<Rightarrow> string list \<Rightarrow> hunk_line list \<Rightarrow> peek_state \<Rightarrow> bool" where
  "peeked path lines p cs0 base b S \<longleftrightarrow>
     pk_old S = old_side b \<and> (pk_mode S = Keep_mode \<longrightarrow> pk_del S = [] \<and> pk_ins S = []) \<and> length (pk_del S) \<le> length (old_side b) \<and>
     (\<exists>c r. chunk_loop path lines (cs0 @ map (shift_chunk (int p)) (pk_chunks S)) (0, []) = Inr (int c, r) \<and>
        c \<le> p + length (old_side b) - length (pk_del S) \<and>
        r @ js_slice (int c) (int (p + length (old_side b) - length (pk_del S))) lines @ pk_ins S = base @ merge_lines lines p b)"

lemma flush_applied:
  assumes "peeked path lines p cs0 base b S" and "p + length (old_side b) \<le> length lines"
  shows "\<exists>c r. chunk_loop path lines (cs0 @ map (shift_chunk (int p)) (flush_chunk S)) (0, []) = Inr (int c, r) \<and>
    c \<le> p + length (old_side b) \<and> r @ js_slice (int c) (int (p + length (old_side b))) lines = base @ merge_lines lines p b"
proof -
  let ?n = "length (old_side b)" and ?d = "length (pk_del S)"
  obtain c r where c: "chunk_loop path lines (cs0 @ map (shift_chunk (int p)) (pk_chunks S)) (0, []) = Inr (int c, r)" "c \<le> p + ?n - ?d"
    "r @ js_slice (int c) (int (p + ?n - ?d)) lines @ pk_ins S = base @ merge_lines lines p b"
    and d: "?d \<le> ?n" and old: "pk_old S = old_side b"
    using assms(1) unfolding peeked_def by blast
  show ?thesis
  proof (cases "pk_ins S \<noteq> [] \<or> pk_del S \<noteq> []")
    case True
    let ?ch = "\<lparr>pc_origIndex = int ?n - int ?d, pc_del = pk_del S, pc_ins = pk_ins S\<rparr>"
    have orig: "int ?n - int ?d + int p = int (p + ?n - ?d)" using d by simp
    have "chunk_loop path lines [shift_chunk (int p) ?ch] (int c, r) =
        Inr (int (p + ?n), r @ js_slice (int c) (int (p + ?n - ?d)) lines @ pk_ins S)"
      using c(2) d assms(2) by (simp add: shift_chunk_def orig del: of_nat_add)
    moreover have "cs0 @ map (shift_chunk (int p)) (flush_chunk S) =
        (cs0 @ map (shift_chunk (int p)) (pk_chunks S)) @ [shift_chunk (int p) ?ch]"
      using True old by (simp add: flush_chunk_def)
    ultimately have "chunk_loop path lines (cs0 @ map (shift_chunk (int p)) (flush_chunk S)) (0, []) =
        Inr (int (p + ?n), base @ merge_lines lines p b)"
      using c(1,3) by (simp only: chunk_loop_append sum.case)
    then show ?thesis by (intro exI [where x = "p + ?n"] exI [where x = "base @ merge_lines lines p b"]) simp
  next
    case False
    then show ?thesis using c by (intro exI [where x = c] exI [where x = r]) (simp add: flush_chunk_def)
  qed
qed

lemma peeked_line:
  assumes "peeked path lines p cs0 base b S" and "p + length (old_side (b @ [h])) \<le> length lines"
  shows "peeked path lines p cs0 base (b @ [h]) (peek_line (render_line h) S)"
proof -
  let ?n = "length (old_side b)" and ?d = "length (pk_del S)"
  obtain c r where c: "chunk_loop path lines (cs0 @ map (shift_chunk (int p)) (pk_chunks S)) (0, []) = Inr (int c, r)" "c \<le> p + ?n - ?d"
    "r @ js_slice (int c) (int (p + ?n - ?d)) lines @ pk_ins S = base @ merge_lines lines p b"
    and d: "?d \<le> ?n" and old: "pk_old S = old_side b" and keep: "pk_mode S = Keep_mode \<longrightarrow> pk_del S = [] \<and> pk_ins S = []"
    using assms(1) unfolding peeked_def by blast
  show ?thesis
  proof (cases h)
    case (Keep l)
    have room: "p + ?n < length lines" using assms(2) Keep by simp
    obtain c' r' where c': "chunk_loop path lines (cs0 @ map (shift_chunk (int p)) (pk_chunks (peek_line (render_line h) S))) (0, []) = Inr (int c', r')"
      "c' \<le> p + ?n" "r' @ js_slice (int c') (int (p + ?n)) lines = base @ merge_lines lines p b"
      using flush_applied [OF assms(1)] room c keep by (cases "pk_mode S = Keep_mode") (auto simp: Keep peek_line_render)
    have "r' @ js_slice (int c') (int (Suc (p + ?n))) lines = base @ merge_lines lines p (b @ [h])"
      using slice_extend [OF c'(2) room] c'(3) by (simp add: Keep merge_snoc del: of_nat_Suc)
    moreover have "pk_del (peek_line (render_line h) S) = []" "pk_ins (peek_line (render_line h) S) = []"
      "pk_old (peek_line (render_line h) S) = old_side (b @ [h])"
      using keep old by (auto simp: Keep peek_line_render)
    ultimately show ?thesis using c'(1,2) unfolding peeked_def by (intro conjI exI [where x = c'] exI [where x = r']) (simp_all add: Keep)
  next
    case (Del l)
    show ?thesis unfolding peeked_def using c d old
      by (intro conjI exI [where x = c] exI [where x = r]) (simp_all add: Del peek_line_render merge_snoc Suc_diff_le)
  next
    case (Ins l)
    show ?thesis unfolding peeked_def using c d old
      by (intro conjI exI [where x = c] exI [where x = r]) (simp_all add: Ins peek_line_render merge_snoc)
  qed
qed

lemma peeked_lines:
  assumes "chunk_loop path lines cs0 (0, []) = Inr (int c, r)" and "c \<le> p" and "p + length (old_side b) \<le> length lines"
  shows "peeked path lines p cs0 (r @ js_slice (int c) (int p) lines) b (fold (\<lambda>h. peek_line (render_line h)) b new_peek)"
  using assms(3)
proof (induction b rule: rev_induct)
  case Nil
  then show ?case using assms(1,2) by (simp add: peeked_def new_peek_def)
next
  case (snoc h b)
  have "p + length (old_side b) \<le> length lines" using snoc.prems by simp
  from peeked_line [OF snoc.IH [OF this] snoc.prems] show ?case by simp
qed

text \<open>
  Wherever a hunk is placed, its chunks copy the file up to there and replace as many lines as its old side has by the
  lines it keeps, as the file has them, and those it inserts.
\<close>

lemma hunk_applies:
  assumes "rest \<noteq> []" and "peek_stops (hd rest)" and "hd rest \<noteq> END_FILE"
    and "chunk_loop path lines cs0 (0, []) = Inr (int c, r)" and "c \<le> p" and "p + length (old_side b) \<le> length lines"
  shows "\<exists>chunks. peek (map render_line b @ rest) = Inr (old_side b, chunks, rest, False) \<and>
    (\<exists>c' r'. chunk_loop path lines (cs0 @ map (shift_chunk (int p)) chunks) (0, []) = Inr (int c', r') \<and> c' \<le> p + length (old_side b) \<and>
       r' @ js_slice (int c') (int (p + length (old_side b))) lines = r @ js_slice (int c) (int p) lines @ merge_lines lines p b)"
proof -
  let ?S = "fold (\<lambda>h. peek_line (render_line h)) b new_peek"
  note pk = peeked_lines [OF assms(4-6)]
  have "peek_loop (map render_line b @ rest) new_peek = Inr (?S, rest)"
    using assms(1,2) by (cases rest) (simp_all add: peek_rendered)
  moreover have "pk_old ?S = old_side b" using pk by (simp add: peeked_def)
  ultimately have "peek (map render_line b @ rest) = Inr (old_side b, flush_chunk ?S, rest, False)"
    using assms(3) by (simp add: peek_def)
  then show ?thesis using flush_applied [OF pk assms(6)] by auto
qed

section \<open>The search\<close>

lemma find_upto: "a \<le> p \<Longrightarrow> p \<le> b \<Longrightarrow> \<forall>i. a \<le> i \<longrightarrow> i < p \<longrightarrow> \<not> P i \<Longrightarrow> P p \<Longrightarrow> find P [a..b] = Some p"
proof (induction "nat (p - a)" arbitrary: a)
  case 0
  then show ?case by (simp add: upto_rec1)
next
  case (Suc n)
  then have "a < p" by simp
  then have "find P [a..b] = find P [a + 1..b]" using Suc.prems by (simp add: upto_rec1)
  also have "\<dots> = Some p" by (rule Suc.hyps(1)) (use Suc.hyps(2) Suc.prems \<open>a < p\<close> in auto)
  finally show ?case .
qed

lemma finds_located:
  assumes "take (length ctx) (drop (n + g) lines) = ctx" and "ctx \<noteq> []"
    and "list_all (\<lambda>i. \<not> same_text (\<lambda>s. s) lines ctx (int i)) [n..<n + g]"
  shows "findContext lines ctx (int n) False = (int (n + g), 0)"
proof -
  have room: "n + g < length lines" using assms(1,2) by (cases "n + g < length lines") auto
  have "same_text (\<lambda>s. s) lines ctx (int (n + g))"
    using assms(1) js_slice_nat [of "n + g" "n + g + length ctx" lines] by (simp add: same_text_def segment_def)
  moreover have "\<not> same_text (\<lambda>s. s) lines ctx i" if "int n \<le> i" "i < int (n + g)" for i
  proof -
    have "i = int (nat i)" "nat i \<in> set [n..<n + g]" using that by auto
    then show ?thesis using assms(3) by (metis list_all_iff)
  qed
  ultimately have "find (same_text (\<lambda>s. s) lines ctx) [int n..int (length lines) - 1] = Some (int (n + g))"
    using room by (intro find_upto) auto
  then show ?thesis using assms(2) by (simp add: findContext_def findCore_def first_match_def)
qed

section \<open>The sections of a rendered update\<close>

lemma SECTION_header [simp]: "is_header SECTION" "peek_stops SECTION" "\<not> section_ends (SECTION # ls)" "SECTION \<noteq> END_FILE"
  by (code_simp | (simp add: section_ends_def, code_simp))+

lemma seek_SECTION: "seek_header lines SECTION n = (n, 0)"
  by (simp add: seek_header_def SECTION_def)

lemma next_section:
  assumes "section_ends rest" and "hd rest \<noteq> END_FILE"
  shows "section_text es @ rest \<noteq> [] \<and> peek_stops (hd (section_text es @ rest)) \<and> hd (section_text es @ rest) \<noteq> END_FILE"
proof (cases es)
  case Nil
  then show ?thesis using assms by (cases rest) (auto simp: section_ends_def peek_stops_def)
next
  case (Cons e es')
  then show ?thesis by (cases e) simp
qed

lemma section_rendered:
  assumes "section_ends rest" and "hd rest \<noteq> END_FILE" and "drop n lines = old_text es tail" and "n \<le> length lines" and "located lines n es"
    and "chunk_loop path lines cs (0, []) = Inr (int c, r)" and "c \<le> n"
  shows "\<exists>cs' c' r'. section_loop lines path
      \<lparr>ss_rest = section_text es @ rest, ss_index = int n, ss_chunks = cs, ss_fuzz = fz, ss_warnings = ws\<rparr> =
      Some (Inr \<lparr>ss_rest = rest, ss_index = int (length lines) - int (length tail), ss_chunks = cs', ss_fuzz = fz, ss_warnings = ws\<rparr>) \<and>
    chunk_loop path lines cs' (0, []) = Inr (int c', r') \<and> c' \<le> length lines \<and>
    r' @ js_slice (int c') (int (length lines)) lines = r @ js_slice (int c) (int n) lines @ new_text es tail"
  using assms(3-7)
proof (induction es arbitrary: n cs c r)
  case Nil
  have len: "length lines - n = length tail" using arg_cong [OF Nil.prems(1), of length] by (simp add: old_text_def)
  have "js_slice (int c) (int (length lines)) lines = js_slice (int c) (int n) lines @ tail"
  proof -
    have "drop c lines = take (n - c) (drop c lines) @ drop n lines"
      using append_take_drop_id [of "n - c" "drop c lines"] Nil.prems(5) by simp
    then show ?thesis using Nil.prems(1) by (simp add: js_slice_nat old_text_def)
  qed
  moreover have "int n = int (length lines) - int (length tail)" using len Nil.prems(2) by linarith
  ultimately show ?case using Nil.prems assms(1)
    by (subst section_loop.simps) (auto simp: new_text_def intro!: exI [where x = cs] exI [where x = c] exI [where x = r])
next
  case (Cons e es)
  obtain gap b where e: "e = (gap, b)" by (cases e)
  let ?p = "n + length gap" and ?m = "length (old_side b)"
  have old: "drop n lines = gap @ old_side b @ old_text es tail" using Cons.prems(1) by (simp add: e old_text_def)
  have "drop ?p lines = drop (length gap) (drop n lines)" by (simp add: add.commute)
  then have place: "drop ?p lines = old_side b @ old_text es tail" by (simp add: old)
  have gap: "take (length gap) (drop n lines) = gap" by (simp add: old)
  have total: "length lines - n = length gap + ?m + length (old_text es tail)" using arg_cong [OF old, of length] by simp
  have room: "?p + ?m \<le> length lines" using total Cons.prems(2) by linarith
  have after: "drop (?p + ?m) lines = old_text es tail"
  proof -
    have "drop (?p + ?m) lines = drop ?m (drop ?p lines)" by (simp add: add.commute)
    then show ?thesis by (simp add: place)
  qed
  have ctx: "take ?m (drop ?p lines) = old_side b" by (simp add: place)
  have loc: "old_side b \<noteq> []" "list_all (\<lambda>i. \<not> same_text (\<lambda>s. s) lines (old_side b) (int i)) [n..<?p]" "located lines (?p + ?m) es"
    using Cons.prems(3) by (simp_all add: e add.assoc)
  note found = finds_located [OF ctx loc(1,2)]
  note nxt = next_section [OF assms(1,2), of es]
  obtain chunks c' r' where pk: "peek (map render_line b @ section_text es @ rest) = Inr (old_side b, chunks, section_text es @ rest, False)"
    and cs': "chunk_loop path lines (cs @ map (shift_chunk (int ?p)) chunks) (0, []) = Inr (int c', r')" "c' \<le> ?p + ?m"
      "r' @ js_slice (int c') (int (?p + ?m)) lines = r @ js_slice (int c) (int ?p) lines @ merge_lines lines ?p b"
    using hunk_applies [of "section_text es @ rest" path lines cs c r ?p b] nxt Cons.prems(4,5) room by auto
  have step: "section_step lines path
      \<lparr>ss_rest = section_text (e # es) @ rest, ss_index = int n, ss_chunks = cs, ss_fuzz = fz, ss_warnings = ws\<rparr> =
      Inr \<lparr>ss_rest = section_text es @ rest, ss_index = int (?p + ?m), ss_chunks = cs @ map (shift_chunk (int ?p)) chunks, ss_fuzz = fz, ss_warnings = ws\<rparr>"
    using pk found by (simp add: section_step_def Let_def e seek_SECTION)
  have slice: "js_slice (int c) (int ?p) lines = js_slice (int c) (int n) lines @ gap"
  proof -
    have "take (?p - c) (drop c lines) = take (n - c) (drop c lines) @ take (length gap) (drop (n - c) (drop c lines))"
      using take_add [of "n - c" "length gap" "drop c lines"] Cons.prems(5) by (simp add: add.commute)
    then show ?thesis unfolding js_slice_nat using gap Cons.prems(5) by simp
  qed
  from Cons.IH [OF after room loc(3) cs'(1,2)] obtain cs'' c'' r'' where
    IH: "section_loop lines path
        \<lparr>ss_rest = section_text es @ rest, ss_index = int (?p + ?m), ss_chunks = cs @ map (shift_chunk (int ?p)) chunks, ss_fuzz = fz, ss_warnings = ws\<rparr> =
        Some (Inr \<lparr>ss_rest = rest, ss_index = int (length lines) - int (length tail), ss_chunks = cs'', ss_fuzz = fz, ss_warnings = ws\<rparr>)"
      "chunk_loop path lines cs'' (0, []) = Inr (int c'', r'')" "c'' \<le> length lines"
      "r'' @ js_slice (int c'') (int (length lines)) lines = r' @ js_slice (int c') (int (?p + ?m)) lines @ new_text es tail"
    by blast
  have "new_text (e # es) tail = gap @ new_side b @ new_text es tail" by (simp add: e new_text_def)
  then have "r'' @ js_slice (int c'') (int (length lines)) lines = r @ js_slice (int c) (int n) lines @ new_text (e # es) tail"
    using IH(4) cs'(3) merge_exact [OF ctx] slice by (metis append_assoc)
  moreover have "section_loop lines path
      \<lparr>ss_rest = section_text (e # es) @ rest, ss_index = int n, ss_chunks = cs, ss_fuzz = fz, ss_warnings = ws\<rparr> =
      Some (Inr \<lparr>ss_rest = rest, ss_index = int (length lines) - int (length tail), ss_chunks = cs'', ss_fuzz = fz, ss_warnings = ws\<rparr>)"
    using step IH(1) by (subst section_loop.simps) (simp add: e)
  ultimately show ?case using IH(2,3) by blast
qed

section \<open>From the text of the agent to the write\<close>

lemma parse_rendered:
  assumes "js_get files path = Some (join_lines (old_text es tail))" and "split_lines (join_lines (old_text es tail)) = old_text es tail"
    and "js_trim path = path" and "located (old_text es tail) 0 es"
  shows "\<exists>a. parse_patch files (patch_lines path es) =
      Some (Inr \<lparr>pr_rest = [END_PATCH], pr_actions = [(path, a)], pr_warnings = [], pr_fuzz = 0\<rparr>) \<and>
    (\<exists>c. change_of files path a = Inr c \<and> fc_type c = P_UPDATE \<and> fc_newContent c = Some (join_lines (new_text es tail)) \<and> fc_movePath c = None)"
proof -
  let ?lines = "old_text es tail"
  have END: "section_ends [END_PATCH]" "hd [END_PATCH] \<noteq> END_FILE" "\<not> prefix MOVE_TO END_PATCH" by code_simp+
  have U: "\<not> prefix END_PATCH (UPDATE_FILE @ path)" "\<not> prefix BEGIN_PATCH (UPDATE_FILE @ path)" by (simp_all add: markers)
  have move: "\<not> prefix MOVE_TO (hd (section_text es @ [END_PATCH]))" "section_text es @ [END_PATCH] \<noteq> []"
    using END(3) by (cases es; force simp: MOVE_TO_def SECTION_def)+
  obtain cs' c' r' where run: "section_loop ?lines path
      \<lparr>ss_rest = section_text es @ [END_PATCH], ss_index = int 0, ss_chunks = [], ss_fuzz = 0, ss_warnings = []\<rparr> =
      Some (Inr \<lparr>ss_rest = [END_PATCH], ss_index = int (length ?lines) - int (length tail), ss_chunks = cs', ss_fuzz = 0, ss_warnings = []\<rparr>)"
    and ch: "chunk_loop path ?lines cs' (0, []) = Inr (int c', r')" "r' @ js_slice (int c') (int (length ?lines)) ?lines = new_text es tail"
    using section_rendered [OF END(1,2), of 0 ?lines es tail path "[]" 0 "[]" 0 "[]"] assms(4) by (simp add: js_slice_nat) blast
  let ?a = "\<lparr>pa_type = P_UPDATE, pa_newFile = None, pa_chunks = cs', pa_movePath = None\<rparr>"
  have "parseNextAction files \<lparr>pr_rest = (UPDATE_FILE @ path) # section_text es @ [END_PATCH], pr_actions = [], pr_warnings = [], pr_fuzz = 0\<rparr> =
      Some (Inr \<lparr>pr_rest = [END_PATCH], pr_actions = [(path, ?a)], pr_warnings = [], pr_fuzz = 0\<rparr>)"
    using run assms(1-3) move by (simp add: parseNextAction_def parseUpdate_def Let_def after_marker_def new_section_def)
  then have "parse_loop files \<lparr>pr_rest = (UPDATE_FILE @ path) # section_text es @ [END_PATCH], pr_actions = [], pr_warnings = [], pr_fuzz = 0\<rparr> =
      Some (Inr \<lparr>pr_rest = [END_PATCH], pr_actions = [(path, ?a)], pr_warnings = [], pr_fuzz = 0\<rparr>)"
    using U(1) by (subst parse_loop.simps, simp add: parse_ends_def, subst parse_loop.simps, simp add: parse_ends_def)
  then have "parse_patch files (patch_lines path es) =
      Some (Inr \<lparr>pr_rest = [END_PATCH], pr_actions = [(path, ?a)], pr_warnings = [], pr_fuzz = 0\<rparr>)"
    by (simp add: parse_patch_def patch_lines_def skipBeginSentinel_def)
  moreover have "applyChunks (join_lines ?lines) cs' path = Inr (join_lines (new_text es tail))"
  proof (cases "cs' = []")
    case True
    then have "new_text es tail = ?lines" using ch by (simp add: js_slice_def)
    then show ?thesis using True by (simp add: applyChunks_def)
  next
    case False
    then show ?thesis using ch assms(2) by (simp add: applyChunks_def Let_def)
  qed
  ultimately show ?thesis using assms(1) by (intro exI [where x = ?a]) (simp add: change_of_def)
qed

text \<open>The lines of a rendered patch pass the preparation of the handler.\<close>

lemma strip_inside:
  "sp_inside S \<Longrightarrow> sp_foundBegin S \<Longrightarrow> \<forall>p \<in> set ps. snd p \<noteq> END_PATCH \<and> \<not> prefix BEGIN_PATCH (snd p) \<Longrightarrow>
   \<exists>S'. fold (strip_line n) ps S = S' \<and> sp_inside S' \<and> sp_foundBegin S' \<and> sp_result S' = sp_result S @ map snd ps"
proof (induction ps arbitrary: S)
  case (Cons p ps)
  have "sp_inside (strip_line n p S) \<and> sp_foundBegin (strip_line n p S) \<and> sp_result (strip_line n p S) = sp_result S @ [snd p]"
    using Cons.prems by (simp add: strip_line_def Let_def case_prod_beta)
  then show ?case using Cons.IH [of "strip_line n p S"] Cons.prems(3) by simp
qed simp

lemma strip_whole:
  assumes "\<forall>l \<in> set ls. l \<noteq> END_PATCH \<and> \<not> prefix BEGIN_PATCH l"
  shows "stripBashWrapper (BEGIN_PATCH # ls @ [END_PATCH]) = BEGIN_PATCH # ls @ [END_PATCH]"
proof -
  let ?all = "BEGIN_PATCH # ls @ [END_PATCH]" and ?S0 = "\<lparr>sp_inside = False, sp_foundBegin = False, sp_foundContent = False, sp_result = []\<rparr>"
  let ?n = "length ?all"
  have "\<forall>p \<in> set (enumerate 1 ls). snd p \<in> set ls" by (metis imageI list.set_map map_snd_enumerate)
  then have inner: "\<forall>p \<in> set (enumerate 1 ls). snd p \<noteq> END_PATCH \<and> \<not> prefix BEGIN_PATCH (snd p)" using assms by blast
  have wrap: "\<not> list_ex (\<lambda>w. prefix w BEGIN_PATCH) BASH_WRAPPERS" "\<not> prefix BEGIN_PATCH END_PATCH" by code_simp+
  have "strip_line ?n (0, BEGIN_PATCH) ?S0 = ?S0\<lparr>sp_inside := True, sp_foundBegin := True, sp_result := [BEGIN_PATCH]\<rparr>"
    using wrap by (simp add: strip_line_def)
  moreover obtain S' where S': "fold (strip_line ?n) (enumerate 1 ls) (?S0\<lparr>sp_inside := True, sp_foundBegin := True, sp_result := [BEGIN_PATCH]\<rparr>) = S'"
    "sp_inside S'" "sp_foundBegin S'" "sp_result S' = BEGIN_PATCH # ls"
    using strip_inside [of "?S0\<lparr>sp_inside := True, sp_foundBegin := True, sp_result := [BEGIN_PATCH]\<rparr>" "enumerate 1 ls" ?n] inner
    by auto
  moreover have "sp_result (strip_line ?n (Suc (length ls), END_PATCH) S') = ?all \<and> sp_foundBegin (strip_line ?n (Suc (length ls), END_PATCH) S')"
    using S' wrap by (simp add: strip_line_def)
  ultimately have "sp_result (fold (strip_line ?n) (enumerate 0 ?all) ?S0) = ?all \<and> sp_foundBegin (fold (strip_line ?n) (enumerate 0 ?all) ?S0)"
    by (simp add: enumerate_append_eq)
  moreover have "END_PATCH \<noteq> []" by (simp add: END_PATCH_def)
  ultimately show ?thesis by (simp add: stripBashWrapper_def Let_def)
qed

text \<open>Lines as they travel: without line feeds and returns.\<close>

definition clean :: "string \<Rightarrow> bool" where
  "clean l \<longleftrightarrow> newline \<notin> set l \<and> CHR 0x0D \<notin> set l"

lemma clean_return: "clean l \<Longrightarrow> strip_return l = l"
  by (auto simp: clean_def strip_return_def dest: last_in_set)

lemma no_crlf: "CHR 0x0D \<notin> set s \<Longrightarrow> normalize_crlf s = s"
  by (induction s rule: normalize_crlf.induct) auto

lemma clean_join: "\<forall>l \<in> set ls. clean l \<Longrightarrow> CHR 0x0D \<notin> set (join_lines ls)"
  by (induction ls rule: join_lines.induct) (auto simp: clean_def)

lemma clean_split: "ls \<noteq> [] \<Longrightarrow> \<forall>l \<in> set ls. clean l \<Longrightarrow> split_lines (join_lines ls) = ls"
  by (rule split_join) (auto simp: clean_def)

lemma body_lines:
  "l \<in> set (section_text es) \<Longrightarrow> l = SECTION \<or> (\<exists>gap b h. (gap, b) \<in> set es \<and> h \<in> set b \<and> l = render_line h)"
  by (fastforce simp: section_text_def)

lemma side_lines:
  "Keep l \<in> set b \<Longrightarrow> l \<in> set (old_side b)" "Del l \<in> set b \<Longrightarrow> l \<in> set (old_side b)" "Ins l \<in> set b \<Longrightarrow> l \<in> set (new_side b)"
  by (force simp: old_side_def new_side_def)+

lemma body_sides:
  assumes "(gap, b) \<in> set es" and "h \<in> set b"
  shows "\<exists>l \<in> set (old_text es tail) \<union> set (new_text es tail). \<exists>c. render_line h = c # l \<and> c \<in> {CHR 0x20, CHR ''-'', CHR ''+''}"
proof -
  have "\<exists>l \<in> set (old_side b) \<union> set (new_side b). \<exists>c. render_line h = c # l \<and> c \<in> {CHR 0x20, CHR ''-'', CHR ''+''}"
  proof (cases h)
    case (Keep l)
    then show ?thesis using assms(2) side_lines(1) [of l b] by (auto simp: render_line_def)
  next
    case (Del l)
    then show ?thesis using assms(2) side_lines(2) [of l b] by (auto simp: render_line_def)
  next
    case (Ins l)
    then show ?thesis using assms(2) side_lines(3) [of l b] by (auto simp: render_line_def)
  qed
  moreover have "set (old_side b) \<union> set (new_side b) \<subseteq> set (old_text es tail) \<union> set (new_text es tail)"
    using assms(1) by (fastforce simp: old_text_def new_text_def)
  ultimately show ?thesis by blast
qed

lemma body_line_cases:
  assumes "\<forall>l \<in> set (old_text es tail) \<union> set (new_text es tail). clean l" and "l \<in> set (section_text es)"
  shows "clean l \<and> \<not> prefix ''***'' l"
proof -
  consider "l = SECTION" | gap b h where "(gap, b) \<in> set es" "h \<in> set b" "l = render_line h"
    using body_lines [OF assms(2)] by blast
  then show ?thesis
  proof cases
    case 1
    then show ?thesis by (simp add: clean_def SECTION_def)
  next
    case 2
    from body_sides [OF 2(1,2), of tail] obtain c k where "k \<in> set (old_text es tail) \<union> set (new_text es tail)" "l = c # k"
      "c \<in> {CHR 0x20, CHR ''-'', CHR ''+''}" using 2(3) by blast
    then show ?thesis using assms(1) by (auto simp: clean_def)
  qed
qed

lemma stars: "prefix ''***'' END_PATCH" "prefix ''***'' BEGIN_PATCH" "prefix ''***'' UPDATE_FILE" "prefix ''***'' DELETE_FILE"
  by code_simp+

lemma trim_ends: "s = c # r @ [d] \<Longrightarrow> \<not> js_space c \<Longrightarrow> \<not> js_space d \<Longrightarrow> js_trim s = s"
  by (simp add: js_trim_def)

lemma suffix_last_line:
  assumes "suffix path (x @ newline # END_PATCH)" and "newline \<notin> set path"
  shows "suffix path END_PATCH"
proof (rule ccontr)
  assume no: "\<not> suffix path END_PATCH"
  have "suffix (newline # END_PATCH) (x @ newline # END_PATCH)" by (simp add: suffix_def)
  then have "suffix path (newline # END_PATCH) \<or> suffix (newline # END_PATCH) path" using assms(1) suffix_same_cases by blast
  then show False using no assms(2) by (auto simp: suffix_Cons dest: set_mono_suffix)
qed

lemma map_filter_the_empty: "\<forall>x \<in> set xs. g x = None \<Longrightarrow> List.map_filter g xs = []"
  by (induction xs) (auto simp: List.map_filter_simps)

lemma map_filter_append: "List.map_filter g (xs @ ys) = List.map_filter g xs @ List.map_filter g ys"
  by (induction xs) (auto simp: List.map_filter_simps split: option.split)

lemma extract_update:
  assumes "stripBashWrapper (split_lines text) = b # (UPDATE_FILE @ path) # ls"
    and "\<forall>l \<in> set (b # ls). \<not> prefix UPDATE_FILE l \<and> \<not> prefix DELETE_FILE l" and "js_trim path = path" and "\<not> suffix path (js_trim text)"
  shows "extractFilesForOperations text [UPDATE_FILE, DELETE_FILE] = [path]"
proof -
  let ?g = "\<lambda>line. map_option (\<lambda>m. after_marker m line)
        (find (\<lambda>m. prefix m line \<and> \<not> suffix (after_marker m line) (js_trim text)) [UPDATE_FILE, DELETE_FILE])"
  have own: "?g (UPDATE_FILE @ path) = Some path" using assms(3,4) by (simp add: after_marker_def)
  have other: "\<forall>l \<in> set (b # ls). ?g l = None" using assms(2) by simp
  have rest: "List.map_filter ?g ls = []" by (rule map_filter_the_empty) (use other in simp)
  have "extractFilesForOperations text [UPDATE_FILE, DELETE_FILE] = List.map_filter ?g (b # (UPDATE_FILE @ path) # ls)"
    unfolding extractFilesForOperations_def assms(1) ..
  also have "\<dots> = [path]" using other own rest by (simp only: List.map_filter_simps list.set insert_iff simp_thms option.case)
  finally show ?thesis .
qed

text \<open>
  C28. A patch rendered from a list of edits, each a stretch of lines with the lines to keep, delete and insert, given to the
  tool as text, writes exactly the edited text to the file and nothing else, without fuzz. Each edit keeps or deletes at least
  one line, and its kept and deleted lines do not occur, in this order, between the end of the edit before and its own place
  (\<open>located\<close>); lines hold no line feed or carriage return; the file has a line and the edited text is not empty. The path is
  not empty, has no blanks around it and no line break, is not a suffix of the end marker, and may be accessed, is readable
  with the old text, resolves, and is outside the ledger. Without the condition on the path the file is not found
  (\<open>Patch_Safety.unapproved_write\<close> and its finding), and an update to an empty text is refused
  (\<open>Patch_Safety.partial_patch\<close>).
\<close>

theorem rendered_patch_writes:
  assumes "path \<noteq> []" and "js_trim path = path" and "clean path" and "\<not> suffix path END_PATCH"
    and "old_text es tail \<noteq> []" and "\<forall>l \<in> set (old_text es tail) \<union> set (new_text es tail). clean l" and "located (old_text es tail) 0 es"
    and "ws_allowed W path" and "ws_read W path = Some (join_lines (old_text es tail))" and "ws_resolves W path" and "\<not> ws_ledger W path"
    and "join_lines (new_text es tail) \<noteq> []"
  shows "execute_patch W (join_lines (patch_lines path es)) = Some (Patch_applied [Write path (join_lines (new_text es tail))] 0)"
proof -
  let ?ls = "(UPDATE_FILE @ path) # section_text es" and ?text = "join_lines (patch_lines path es)" and ?files = "[(path, join_lines (old_text es tail))]"
  have all: "patch_lines path es = BEGIN_PATCH # ?ls @ [END_PATCH]" by (simp add: patch_lines_def)
  note body = body_line_cases [OF assms(6)]
  have clean_all: "\<forall>l \<in> set (patch_lines path es). clean l"
  proof -
    have "clean BEGIN_PATCH" "clean END_PATCH" "clean UPDATE_FILE" by code_simp+
    then show ?thesis using body assms(3) by (auto simp: all clean_def)
  qed
  have split: "split_lines ?text = patch_lines path es" by (rule clean_split [OF _ clean_all]) (simp add: all)
  have U: "UPDATE_FILE @ path \<noteq> END_PATCH" "\<not> prefix BEGIN_PATCH (UPDATE_FILE @ path)" "\<not> prefix DELETE_FILE (UPDATE_FILE @ path)"
    by (simp_all add: markers)
  have "l \<noteq> END_PATCH \<and> \<not> prefix BEGIN_PATCH l" if "l \<in> set ?ls" for l
    using that U body [of l] stars prefix_order.trans [of "''***''" BEGIN_PATCH l] by auto
  then have strip: "stripBashWrapper (patch_lines path es) = patch_lines path es" unfolding all by (intro strip_whole) blast
  have returns: "map strip_return (patch_lines path es) = patch_lines path es" using clean_all clean_return by (intro map_idI) blast
  have pre: "preprocessLines ?text = Inr (patch_lines path es)"
    by (simp add: preprocessLines_def split returns strip Let_def) (simp add: all)
  have load: "extractFilesForOperations ?text [UPDATE_FILE, DELETE_FILE] = [path]"
  proof -
    have whole: "?text = join_lines (BEGIN_PATCH # ?ls) @ newline # END_PATCH"
    proof -
      have "join_lines (xs @ [y]) = join_lines xs @ newline # y" if "xs \<noteq> []" for xs y
        using that by (induction xs rule: join_lines.induct) (auto simp: join_Cons)
      from this [of "BEGIN_PATCH # ?ls" END_PATCH] show ?thesis by (simp add: all)
    qed
    have "?text = CHR ''*'' # (tl (join_lines (BEGIN_PATCH # ?ls)) @ newline # ''*** End Patc'') @ ''h''"
      unfolding whole by (simp add: BEGIN_PATCH_def END_PATCH_def)
    then have "js_trim ?text = ?text" by (rule trim_ends) code_simp+
    then have free: "\<not> suffix path (js_trim ?text)"
      using suffix_last_line [of path "join_lines (BEGIN_PATCH # ?ls)"] assms(3,4) whole by (auto simp: clean_def)
    have "\<not> prefix UPDATE_FILE l \<and> \<not> prefix DELETE_FILE l" if "l \<in> set (section_text es)" for l
      using body [OF that] stars prefix_order.trans by blast
    moreover have "\<not> prefix UPDATE_FILE BEGIN_PATCH \<and> \<not> prefix DELETE_FILE BEGIN_PATCH" "\<not> prefix UPDATE_FILE END_PATCH \<and> \<not> prefix DELETE_FILE END_PATCH"
      by code_simp+
    ultimately have "\<forall>l \<in> set (BEGIN_PATCH # section_text es @ [END_PATCH]). \<not> prefix UPDATE_FILE l \<and> \<not> prefix DELETE_FILE l" by auto
    then show ?thesis using extract_update [of ?text BEGIN_PATCH path "section_text es @ [END_PATCH]"] free assms(2) strip split all by simp
  qed
  have files: "loadFiles W [path] [] = Inr ?files"
    using assms(6,8,9) no_crlf clean_join [of "old_text es tail"] by simp
  have "split_lines (join_lines (old_text es tail)) = old_text es tail" by (rule clean_split) (use assms(5,6) in auto)
  then obtain a c where a: "parse_patch ?files (patch_lines path es) =
      Some (Inr \<lparr>pr_rest = [END_PATCH], pr_actions = [(path, a)], pr_warnings = [], pr_fuzz = 0\<rparr>)"
    "change_of ?files path a = Inr c" "fc_type c = P_UPDATE" "fc_newContent c = Some (join_lines (new_text es tail))" "fc_movePath c = None"
    using parse_rendered [of ?files path es tail] assms(2,7) by auto
  have "patchToCommit W ?files [(path, a)] [] = Inr [(path, c)]" using a(2) assms(10) by simp
  moreover have "apply_changes W [(path, c)] 0 = Patch_applied [Write path (join_lines (new_text es tail))] 0"
    using a(3-5) assms(1,11,12)
    by (simp add: apply_changes_def pathToChangeKey_def messagePath_def moved_to_def save_change_def)
  moreover have "?text \<noteq> []"
  proof
    assume "?text = []"
    then show False using split all by simp
  qed
  ultimately show ?thesis using pre load files a(1) by (simp add: execute_patch_def)
qed

end
