(* ===== verification/Patch_Safety.thy ===== *)
theory Patch_Safety
  imports Patch_Correct
begin

text \<open>
  What a patch may write: only paths its lines name. Then concrete patches on which the handler does less, or more, than
  it was asked.
\<close>

declare map_of_eq_Some_iff [simp del]
declare Some_eq_map_of_iff [simp del]

section \<open>Paths and the lines that name them\<close>

definition names :: "string list \<Rightarrow> string \<Rightarrow> string \<Rightarrow> bool" where
  "names ls m path \<longleftrightarrow> (\<exists>l \<in> set ls. prefix m l \<and> after_marker m l = path)"

definition path_named :: "string list \<Rightarrow> string \<Rightarrow> bool" where
  "path_named ls path \<longleftrightarrow> (\<exists>m \<in> {ADD_FILE, UPDATE_FILE, DELETE_FILE}. names ls m path)"

definition actions_named :: "string list \<Rightarrow> parser \<Rightarrow> bool" where
  "actions_named ls P \<longleftrightarrow> set (pr_rest P) \<subseteq> set ls \<and>
     (\<forall>(path, a) \<in> set (pr_actions P). path_named ls path \<and> (case pa_movePath a of None \<Rightarrow> True | Some p \<Rightarrow> names ls MOVE_TO p))"

lemma actions_add:
  assumes "actions_named ls P" and "set rest \<subseteq> set ls" and "path_named ls path"
    and "case pa_movePath a of None \<Rightarrow> True | Some p \<Rightarrow> names ls MOVE_TO p"
  shows "actions_named ls (P\<lparr>pr_rest := rest, pr_actions := js_set (pr_actions P) path a\<rparr>)"
proof -
  have sub: "set (js_set m k v) \<subseteq> insert (k, v) (set m)" for m :: "(string, patch_action) jsmap" and k v by (induction m) auto
  show ?thesis unfolding actions_named_def
  proof (intro conjI ballI)
    fix q
    assume "q \<in> set (pr_actions (P\<lparr>pr_rest := rest, pr_actions := js_set (pr_actions P) path a\<rparr>))"
    then have "q = (path, a) \<or> q \<in> set (pr_actions P)" using sub [of path a "pr_actions P"] by auto
    then show "case q of (path, a) \<Rightarrow> path_named ls path \<and> (case pa_movePath a of None \<Rightarrow> True | Some p \<Rightarrow> names ls MOVE_TO p)"
      using assms(1,3,4) by (auto simp: actions_named_def)
  qed (use assms(2) in simp)
qed

lemma actions_effects [simp]: "actions_named ls (P\<lparr>pr_warnings := w, pr_fuzz := n\<rparr>) = actions_named ls P"
  by (simp add: actions_named_def)

lemma action_named:
  assumes "actions_named ls P" and "\<not> parse_ends (pr_rest P)" and "parseNextAction files P = Some (Inr P')"
  shows "actions_named ls P'"
proof -
  let ?line = "hd (pr_rest P)"
  have line: "?line \<in> set ls" and tl: "set (tl (pr_rest P)) \<subseteq> set ls"
    using assms(1,2) by (cases "pr_rest P"; auto simp: actions_named_def parse_ends_def)+
  have names: "prefix m ?line \<Longrightarrow> m \<in> {ADD_FILE, UPDATE_FILE, DELETE_FILE} \<Longrightarrow> path_named ls (after_marker m ?line)" for m
    using line by (auto simp: path_named_def names_def)
  consider (update) "prefix UPDATE_FILE ?line" "parseUpdate files (after_marker UPDATE_FILE ?line) P = Some (Inr P')"
    | (delete) "prefix DELETE_FILE ?line" "parseDelete files (after_marker DELETE_FILE ?line) P = Inr P'"
    | (add) "prefix ADD_FILE ?line" "parseAdd files (after_marker ADD_FILE ?line) P = Inr P'"
    using assms(3) by (auto simp: parseNextAction_def Let_def split: if_splits)
  then show ?thesis
  proof cases
    case update
    let ?moves = "tl (pr_rest P) \<noteq> [] \<and> prefix MOVE_TO (hd (tl (pr_rest P)))"
    let ?rest = "if ?moves then tl (tl (pr_rest P)) else tl (pr_rest P)"
    let ?move = "if ?moves then Some (after_marker MOVE_TO (hd (tl (pr_rest P)))) else None"
    obtain old S where S: "section_loop (split_lines old) (after_marker UPDATE_FILE ?line) (new_section P ?rest) = Some (Inr S)"
      and P': "P' = P\<lparr>pr_rest := ss_rest S, pr_actions := js_set (pr_actions P) (after_marker UPDATE_FILE ?line)
          \<lparr>pa_type = P_UPDATE, pa_newFile = None, pa_chunks = ss_chunks S, pa_movePath = ?move\<rparr>\<rparr>
          \<lparr>pr_warnings := ss_warnings S, pr_fuzz := ss_fuzz S\<rparr>"
      using update(2) unfolding parseUpdate_def Let_def by (auto split: if_splits option.splits sum.splits)
    have "set (ss_rest S) \<subseteq> set ?rest"
      using section_loop_Inr [OF S] section_run_reads by (fastforce simp: new_section_def)
    moreover have "set ?rest \<subseteq> set ls" using tl list.set_sel(2) [of "tl (pr_rest P)"] by auto
    moreover have "case ?move of None \<Rightarrow> True | Some p \<Rightarrow> names ls MOVE_TO p"
      using subsetD [OF tl hd_in_set] unfolding names_def by (auto intro!: bexI [where x = "hd (tl (pr_rest P))"])
    ultimately show ?thesis unfolding P' using actions_add [OF assms(1)] names [OF update(1)] by simp
  next
    case delete
    then show ?thesis using actions_add [OF assms(1) tl] names [OF delete(1)] by (auto simp: parseDelete_def split: if_splits)
  next
    case add
    then obtain xs rest where r: "add_lines (tl (pr_rest P)) = Inr (xs, rest)"
      and P': "P' = P\<lparr>pr_rest := rest, pr_actions := js_set (pr_actions P) (after_marker ADD_FILE ?line)
          \<lparr>pa_type = P_ADD, pa_newFile = Some (join_lines xs), pa_chunks = [], pa_movePath = None\<rparr>\<rparr>"
      by (auto simp: parseAdd_def split: if_splits sum.splits)
    have "set rest \<subseteq> set ls" using add_lines_reads [OF r] tl by fastforce
    then show ?thesis unfolding P' using actions_add [OF assms(1)] names [OF add(1)] by simp
  qed
qed

lemma parse_loop_named:
  assumes "parse_loop files P = Some (Inr P')" and "actions_named ls P"
  shows "actions_named ls P'"
proof -
  have "\<forall>Q. (Inr P' :: diff_error + parser) = Inr Q \<longrightarrow> actions_named ls P \<longrightarrow> actions_named ls Q"
  proof (rule parse_loop.raw_induct [where P = "\<lambda>files P r. \<forall>Q. r = Inr Q \<longrightarrow> actions_named ls P \<longrightarrow> actions_named ls Q", OF _ assms(1)])
    fix f files P r
    assume IH: "\<And>files P r. f files P = Some r \<Longrightarrow> \<forall>Q. r = Inr Q \<longrightarrow> actions_named ls P \<longrightarrow> actions_named ls Q"
      and eq: "(if parse_ends (pr_rest P) then Some (Inr P)
        else (case parseNextAction files P of None \<Rightarrow> None
          | Some r \<Rightarrow> (case r of Inl e \<Rightarrow> Some (Inl e) | Inr P' \<Rightarrow> f files P'))) = Some r"
    show "\<forall>Q. r = Inr Q \<longrightarrow> actions_named ls P \<longrightarrow> actions_named ls Q"
    proof (cases "parse_ends (pr_rest P)")
      case True
      then show ?thesis using eq by auto
    next
      case False
      show ?thesis
      proof (intro allI impI)
        fix Q
        assume Q: "r = Inr Q" "actions_named ls P"
        then obtain P1 where P1: "parseNextAction files P = Some (Inr P1)" "f files P1 = Some (Inr Q)"
          using eq False by (auto split: option.splits sum.splits)
        show "actions_named ls Q" using IH [OF P1(2)] action_named [OF Q(2) False P1(1)] by blast
      qed
    qed
  qed
  then show ?thesis using assms(2) by blast
qed

section \<open>Changes and writes\<close>

definition change_named :: "workspace \<Rightarrow> string list \<Rightarrow> string \<times> file_change \<Rightarrow> bool" where
  "change_named W ls p \<longleftrightarrow> path_named ls (fst p) \<and> ws_resolves W (fst p) \<and>
     (case moved_to (snd p) of None \<Rightarrow> True | Some q \<Rightarrow> names ls MOVE_TO q)"

lemma change_of_move: "change_of files path a = Inr c \<Longrightarrow> moved_to c = Some q \<Longrightarrow> pa_movePath a = Some q"
  by (auto simp: change_of_def moved_to_def split: action_type.splits option.splits sum.splits if_splits)

lemma commit_named:
  "patchToCommit W files as m = Inr m' \<Longrightarrow> \<forall>p \<in> set m. change_named W ls p \<Longrightarrow>
   \<forall>(path, a) \<in> set as. path_named ls path \<and> (case pa_movePath a of None \<Rightarrow> True | Some p \<Rightarrow> names ls MOVE_TO p) \<Longrightarrow>
   \<forall>p \<in> set m'. change_named W ls p"
proof (induction as arbitrary: m)
  case (Cons q as)
  obtain path a where q: "q = (path, a)" by (cases q)
  show ?case
  proof (cases "ws_resolves W path")
    case False
    then show ?thesis using Cons.IH [of m] Cons.prems by (simp add: q)
  next
    case True
    then obtain c where c: "change_of files path a = Inr c" "patchToCommit W files as (js_set m path c) = Inr m'"
      using Cons.prems(1) by (auto simp: q split: sum.splits)
    have "change_named W ls (path, c)"
      using Cons.prems(3) True change_of_move [OF c(1)] by (auto simp: q change_named_def split: option.splits)
    moreover have "set (js_set m path c) \<subseteq> insert (path, c) (set m)" by (induction m) auto
    ultimately have "\<forall>p \<in> set (js_set m path c). change_named W ls p" using Cons.prems(2) by blast
    then show ?thesis using Cons.IH [OF c(2)] Cons.prems(3) by simp
  qed
qed simp

definition op_path :: "file_op \<Rightarrow> string" where
  "op_path x = (case x of Write p t \<Rightarrow> p | Remove p \<Rightarrow> p)"

lemma save_change_paths:
  "save_change path c = Inr ops \<Longrightarrow> x \<in> set ops \<Longrightarrow> op_path x = path \<or> moved_to c = Some (op_path x)"
  by (auto simp: save_change_def messagePath_def op_path_def Let_def moved_to_def split: action_type.splits option.splits if_splits)

lemma messages_paths:
  "apply_messages m keys ps = (ops, err) \<Longrightarrow> x \<in> set ops \<Longrightarrow>
   \<exists>(path, c) \<in> set m. op_path x = path \<or> moved_to c = Some (op_path x)"
proof (induction ps arbitrary: ops)
  case (Cons p ps)
  obtain ops1 err1 where rest: "apply_messages m keys ps = (ops1, err1)" by (cases "apply_messages m keys ps")
  show ?case
  proof (cases "x \<in> set ops1")
    case True
    then show ?thesis using Cons.IH [of ops1] rest Cons.prems
      by (cases "err1 = err") (auto split: if_splits option.splits sum.splits)
  next
    case False
    then obtain path c ops' where "js_get m path = Some c" "save_change path c = Inr ops'" "x \<in> set ops'"
      using Cons.prems rest by (auto split: if_splits option.splits sum.splits)
    then show ?thesis using save_change_paths [of path c ops' x] map_of_SomeD [of m path c] by blast
  qed
qed simp

section \<open>What a patch may write\<close>

lemma execute_named:
  assumes "preprocessLines text = Inr ls" and "execute_patch W text = Some out" and "x \<in> set (patch_ops out)"
  shows "path_named ls (op_path x) \<and> ws_resolves W (op_path x) \<and> \<not> ws_ledger W (op_path x) \<or> names ls MOVE_TO (op_path x)"
proof -
  obtain files P m where P: "parse_patch files ls = Some (Inr P)" and m: "patchToCommit W files (pr_actions P) [] = Inr m"
    and out: "out = apply_changes W m (pr_fuzz P)"
    using assms by (auto simp: execute_patch_def patch_ops_def split: if_splits sum.splits option.splits)
  have "actions_named ls \<lparr>pr_rest = skipBeginSentinel ls, pr_actions = [], pr_warnings = [], pr_fuzz = 0\<rparr>"
    by (cases ls) (auto simp: actions_named_def skipBeginSentinel_def)
  then have "actions_named ls P" using parse_loop_named P by (simp add: parse_patch_def)
  then have all: "\<forall>p \<in> set m. change_named W ls p" using commit_named [OF m] by (simp add: actions_named_def)
  have free: "\<forall>p \<in> set m. \<not> ws_ledger W (fst p)"
    using assms(3) by (auto simp: out apply_changes_def Let_def patch_ops_def filter_empty_conv split: if_splits)
  obtain ops err where ops: "apply_messages m (pathToChangeKey m) (map (\<lambda>(path, c). messagePath path c) m) = (ops, err)"
    by (cases "apply_messages m (pathToChangeKey m) (map (\<lambda>(path, c). messagePath path c) m)")
  have "x \<in> set ops" using assms(3) ops by (auto simp: out apply_changes_def Let_def patch_ops_def split: if_splits option.splits)
  from messages_paths [OF ops this] obtain path c where "(path, c) \<in> set m" "op_path x = path \<or> moved_to c = Some (op_path x)" by blast
  then show ?thesis using all free by (fastforce simp: change_named_def)
qed

text \<open>
  C30. Every write is to a path a marker line of the patch names. It resolves in the workspace and is outside the ledger,
  unless the line is \<^verbatim>\<open>*** Move to:\<close>, whose path nothing checks.
\<close>

theorem writes_are_named:
  assumes "preprocessLines text = Inr ls" and "execute_patch W text = Some out" and "x \<in> set (patch_ops out)"
  shows "(\<exists>l \<in> set ls. \<exists>m \<in> {ADD_FILE, UPDATE_FILE, DELETE_FILE}. prefix m l \<and> after_marker m l = op_path x) \<and>
      ws_resolves W (op_path x) \<and> \<not> ws_ledger W (op_path x) \<or>
    (\<exists>l \<in> set ls. prefix MOVE_TO l \<and> after_marker MOVE_TO l = op_path x)"
  using execute_named [OF assms] by (auto simp: path_named_def names_def)

definition open_workspace :: workspace where
  "open_workspace = \<lparr>ws_allowed = \<lambda>p. True, ws_read = \<lambda>p. if p = ''a'' then Some ''x'' else None, ws_resolves = \<lambda>p. p = ''a'' \<or> p = ''n'',
     ws_ledger = \<lambda>p. p = ''wiki''\<rparr>"

definition line_text :: "string list \<Rightarrow> string" where
  "line_text ls = join_lines (BEGIN_PATCH # ls @ [END_PATCH])"

definition add_note :: string where
  "add_note = line_text [ADD_FILE @ ''n'', ''+hi'']"

lemma writes_are_named_witness:
  "ws_resolves open_workspace ''n'' \<and> \<not> ws_ledger open_workspace ''n'' \<or>
   (\<exists>l \<in> set [BEGIN_PATCH, ADD_FILE @ ''n'', ''+hi'', END_PATCH]. prefix MOVE_TO l \<and> after_marker MOVE_TO l = ''n'')"
proof -
  have 1: "preprocessLines add_note = Inr [BEGIN_PATCH, ADD_FILE @ ''n'', ''+hi'', END_PATCH]" by code_simp
  have 2: "execute_patch open_workspace add_note = Some (Patch_applied [Write ''n'' ''hi''] 0)" by code_simp
  have 3: "Write ''n'' ''hi'' \<in> set (patch_ops (Patch_applied [Write ''n'' ''hi''] 0))" by code_simp
  have path: "op_path (Write ''n'' ''hi'') = ''n''" by (simp add: op_path_def)
  show ?thesis using writes_are_named [OF 1 2 3] unfolding path by blast
qed

lemma rendered_patch_writes_witness:
  "execute_patch open_workspace (join_lines (patch_lines ''a'' [([], [Del ''x'', Ins ''y''])])) = Some (Patch_applied [Write ''a'' ''y''] 0)"
proof -
  have texts: "old_text [([], [Del ''x'', Ins ''y''])] [] = [''x'']" "new_text [([], [Del ''x'', Ins ''y''])] [] = [''y'']" by code_simp+
  have "''a'' \<noteq> ([] :: string)" "js_trim ''a'' = ''a''" "clean ''a''" "\<not> suffix ''a'' END_PATCH" "[''x''] \<noteq> ([] :: string list)"
    "\<forall>l \<in> set [''x''] \<union> set [''y'']. clean l" "located [''x''] 0 [([], [Del ''x'', Ins ''y''])]" "ws_allowed open_workspace ''a''"
    "ws_read open_workspace ''a'' = Some (join_lines [''x''])" "ws_resolves open_workspace ''a''" "\<not> ws_ledger open_workspace ''a''"
    "join_lines [''y''] \<noteq> []" by code_simp+
  then show ?thesis using rendered_patch_writes [of "''a''" "[([], [Del ''x'', Ins ''y''])]" "[]" open_workspace] unfolding texts by simp
qed

section \<open>Patches that do something else\<close>

text \<open>A file whose path ends the text is written and is not among those the approval is asked for.\<close>

lemma unapproved_write:
  "extractAllFiles (join_lines [ADD_FILE @ ''n'', ''+run n'']) = [] \<and>
   execute_patch open_workspace (join_lines [ADD_FILE @ ''n'', ''+run n'']) = Some (Patch_applied [Write ''n'' ''run n''] 0)"
  by code_simp

text \<open>A move writes to the ledger, which an addition there would be refused, and without approval.\<close>

definition move_to_wiki :: string where
  "move_to_wiki = line_text [UPDATE_FILE @ ''a'', MOVE_TO @ ''wiki'', ''@@'', ''-x'', ''+y'']"

lemma unchecked_move:
  "extractAllFiles move_to_wiki = [''a''] \<and>
   execute_patch open_workspace move_to_wiki = Some (Patch_applied [Write ''wiki'' ''y'', Remove ''a''] 0)"
  by code_simp

text \<open>A move and an addition of the same path: the addition is written twice and the moved file stays.\<close>

lemma move_forgotten:
  "execute_patch open_workspace (line_text [UPDATE_FILE @ ''a'', MOVE_TO @ ''n'', ''@@'', ''-x'', ''+y'', ADD_FILE @ ''n'', ''+z'']) =
   Some (Patch_applied [Write ''n'' ''z'', Write ''n'' ''z''] 0)"
  by code_simp

text \<open>An update that empties a file fails, after the writes before it.\<close>

lemma partial_patch:
  "execute_patch open_workspace (line_text [ADD_FILE @ ''n'', ''+hi'', UPDATE_FILE @ ''a'', ''@@'', ''-x'']) =
   Some (Patch_failed (No_content ''a'') [Write ''n'' ''hi''])"
  by code_simp

end
