(* ===== verification/Edit_Blocks.thy ===== *)
theory Edit_Blocks
  imports Text_Lines
begin

text \<open>
  Files rebuilt from SEARCH/REPLACE blocks, \<^verbatim>\<open>src/core/assistant-message/diff.ts\<close>: the markers, the three ways a block is
  found in the file, and the two versions of \<^verbatim>\<open>constructNewFileContent\<close>. The first is the one in use; the second repairs
  damaged markers by calling itself on lines it kept, with its depth bounded by fuel, \<open>None\<close> when that runs out.
\<close>

section \<open>Markers\<close>

text \<open>\<^verbatim>\<open>/^[c]{3,} WORD>?$/\<close>, and without the last character.\<close>

definition marker_rest :: "char \<Rightarrow> string \<Rightarrow> string option" where
  "marker_rest c l = (let n = length (takeWhile (\<lambda>x. x = c) l) in if 3 \<le> n then Some (drop n l) else None)"

definition marker_line :: "string list \<Rightarrow> string \<Rightarrow> string \<Rightarrow> bool" where
  "marker_line words cs l = list_ex (\<lambda>c. case marker_rest c l of None \<Rightarrow> False | Some r \<Rightarrow> r \<in> set words) cs"

definition isSearchBlockStart :: "string \<Rightarrow> bool" where
  "isSearchBlockStart = marker_line ['' SEARCH'', '' SEARCH>''] ''-<''"

definition isSearchBlockEnd :: "string \<Rightarrow> bool" where
  "isSearchBlockEnd = marker_line [''''] ''=''"

definition isReplaceBlockEnd :: "string \<Rightarrow> bool" where
  "isReplaceBlockEnd = marker_line ['' REPLACE'', '' REPLACE>''] ''+>''"

definition SEARCH_BLOCK_START :: string where "SEARCH_BLOCK_START = ''------- SEARCH''"
definition SEARCH_BLOCK_END :: string where "SEARCH_BLOCK_END = ''=======''"
definition REPLACE_BLOCK_END :: string where "REPLACE_BLOCK_END = ''+++++++ REPLACE''"

text \<open>A last line that begins like a marker, and is none, is left for the next chunk.\<close>

definition drop_partial :: "(string \<Rightarrow> bool) \<Rightarrow> string list \<Rightarrow> string list" where
  "drop_partial known lines =
     (if lines \<noteq> [] \<and> last lines \<noteq> [] \<and> hd (last lines) \<in> set ''-<=+>'' \<and> \<not> known (last lines) then butlast lines else lines)"

text \<open>The line, from 1, that the index is in.\<close>

definition getLineNumberFromCharIndex :: "string \<Rightarrow> int \<Rightarrow> nat" where
  "getLineNumberFromCharIndex content i = (if i \<le> 0 then 1 else length (split_lines (take (nat i) content)))"

section \<open>Finding a block\<close>

definition indexOf :: "string \<Rightarrow> string \<Rightarrow> nat \<Rightarrow> nat option" where
  "indexOf s pat from = find (\<lambda>i. prefix pat (drop i s)) [from..<Suc (length s)]"

definition search_lines :: "string \<Rightarrow> string list" where
  "search_lines search = (let ls = split_lines search in if last ls = [] then butlast ls else ls)"

text \<open>The number of the first line that begins at the index or after it.\<close>

fun start_line :: "string list \<Rightarrow> nat \<Rightarrow> nat \<Rightarrow> nat" where
  "start_line [] start current = 0"
| "start_line (l # ls) start current = (if current < start then Suc (start_line ls start (current + length l + 1)) else 0)"

definition line_offset :: "string list \<Rightarrow> nat \<Rightarrow> nat" where
  "line_offset ls n = sum_list (map (\<lambda>l. length l + 1) (take n ls))"

definition line_range :: "string list \<Rightarrow> nat \<Rightarrow> nat \<Rightarrow> nat \<times> nat" where
  "line_range ls n k = (line_offset ls n, line_offset ls (n + k))"

definition lineTrimmedFallbackMatch :: "string \<Rightarrow> string \<Rightarrow> nat \<Rightarrow> (nat \<times> nat) option" where
  "lineTrimmedFallbackMatch content search start =
     (let ls = split_lines content; ss = search_lines search; k = length ss in
      if length ls < k then None
      else map_option (\<lambda>i. line_range ls i k)
        (find (\<lambda>i. list_all (\<lambda>j. js_trim (ls ! (i + j)) = js_trim (ss ! j)) [0..<k]) [start_line ls start 0..<Suc (length ls - k)]))"

definition blockAnchorFallbackMatch :: "string \<Rightarrow> string \<Rightarrow> nat \<Rightarrow> (nat \<times> nat) option" where
  "blockAnchorFallbackMatch content search start =
     (let ls = split_lines content; ss = search_lines search; k = length ss in
      if length (split_lines search) < 3 \<or> length ls < k then None
      else map_option (\<lambda>i. line_range ls i k)
        (find (\<lambda>i. js_trim (ls ! i) = js_trim (hd ss) \<and> js_trim (ls ! (i + k - 1)) = js_trim (last ss))
          [start_line ls start 0..<Suc (length ls - k)]))"

datatype block_error =
  Empty_search
| No_match string
| Malformed_block string
| Invalid_transition
| No_lines
| No_search_marker
| No_separator
| No_replace_marker
| Wrong_match string
| Incomplete_block
| Undefined_line

section \<open>The first version\<close>

record block_state =
  bs_result :: string
  bs_last :: nat
  bs_search :: string
  bs_replace :: string
  bs_inSearch :: bool
  bs_inReplace :: bool
  bs_match :: "(nat \<times> nat) option"
  bs_replacements :: "(nat \<times> nat \<times> string) list"
  bs_outOfOrder :: bool

definition new_block_state :: block_state where
  "new_block_state =
     \<lparr>bs_result = [], bs_last = 0, bs_search = [], bs_replace = [], bs_inSearch = False, bs_inReplace = False, bs_match = None,
      bs_replacements = [], bs_outOfOrder = False\<rparr>"

text \<open>Where the search text is, and whether only the search from the start of the file found it, before the index.\<close>

definition find_block :: "string \<Rightarrow> string \<Rightarrow> nat \<Rightarrow> block_error + (nat \<times> nat)" where
  "find_block content search start =
     (if search = [] then (if content = [] then Inr (0, 0) else Inl Empty_search)
      else (case indexOf content search start of
              Some i \<Rightarrow> Inr (i, i + length search)
            | None \<Rightarrow>
           (case lineTrimmedFallbackMatch content search start of
              Some r \<Rightarrow> Inr r
            | None \<Rightarrow>
           (case blockAnchorFallbackMatch content search start of
              Some r \<Rightarrow> Inr r
            | None \<Rightarrow>
           (case indexOf content search 0 of
              Some i \<Rightarrow> Inr (i, i + length search)
            | None \<Rightarrow> Inl (No_match search))))))"

definition end_search :: "string \<Rightarrow> block_state \<Rightarrow> block_error + block_state" where
  "end_search content S =
     (case find_block content (bs_search S) (bs_last S) of
        Inl e \<Rightarrow> Inl e
      | Inr (i, j) \<Rightarrow>
          let outOfOrder = (bs_outOfOrder S \<or> i < bs_last S) in
          Inr (S\<lparr>bs_inSearch := False, bs_inReplace := True, bs_match := Some (i, j), bs_outOfOrder := outOfOrder,
            bs_result := (if outOfOrder then bs_result S else bs_result S @ js_slice (int (bs_last S)) (int i) content)\<rparr>))"

definition end_block :: "nat \<times> nat \<Rightarrow> block_state \<Rightarrow> block_state" where
  "end_block r S = S
     \<lparr>bs_replacements := bs_replacements S @ [(fst r, snd r, bs_replace S)],
      bs_last := (if bs_outOfOrder S then bs_last S else snd r),
      bs_inSearch := False, bs_inReplace := False, bs_search := [], bs_replace := [], bs_match := None, bs_outOfOrder := False\<rparr>"

definition block_line :: "string \<Rightarrow> string \<Rightarrow> block_state \<Rightarrow> block_error + block_state" where
  "block_line content line S =
     (if isSearchBlockStart line then Inr (S\<lparr>bs_inSearch := True, bs_search := [], bs_replace := []\<rparr>)
      else if isSearchBlockEnd line then end_search content S
      else if isReplaceBlockEnd line
      then (case bs_match S of None \<Rightarrow> Inl (Malformed_block (bs_search S)) | Some r \<Rightarrow> Inr (end_block r S))
      else if bs_inSearch S then Inr (S\<lparr>bs_search := bs_search S @ line @ [newline]\<rparr>)
      else if bs_inReplace S
      then Inr (S\<lparr>bs_replace := bs_replace S @ line @ [newline],
             bs_result := (if bs_match S \<noteq> None \<and> \<not> bs_outOfOrder S then bs_result S @ line @ [newline] else bs_result S)\<rparr>)
      else Inr S)"

fun block_lines :: "string \<Rightarrow> string list \<Rightarrow> block_state \<Rightarrow> block_error + block_state" where
  "block_lines content [] S = Inr S"
| "block_lines content (l # ls) S = (case block_line content l S of Inl e \<Rightarrow> Inl e | Inr S' \<Rightarrow> block_lines content ls S')"

text \<open>The file with every replacement made, in the order of their starts.\<close>

fun rebuild :: "string \<Rightarrow> nat \<Rightarrow> (nat \<times> nat \<times> string) list \<Rightarrow> string" where
  "rebuild content current [] = js_slice (int current) (int (length content)) content"
| "rebuild content current ((i, j, text) # rs) = js_slice (int current) (int i) content @ text @ rebuild content j rs"

definition constructNewFileContentV1 :: "string \<Rightarrow> string \<Rightarrow> bool \<Rightarrow> block_error + (string \<times> nat list)" where
  "constructNewFileContentV1 diff content isFinal =
     (case block_lines content
        (drop_partial (\<lambda>l. isSearchBlockStart l \<or> isSearchBlockEnd l \<or> isReplaceBlockEnd l) (split_lines diff)) new_block_state of
        Inl e \<Rightarrow> Inl e
      | Inr S \<Rightarrow>
          if isFinal
          then (let S1 = (case bs_match S of Some r \<Rightarrow> if bs_inReplace S then end_block r S else S | None \<Rightarrow> S);
                    rs = sort_key fst (bs_replacements S1) in
                Inr (rebuild content 0 rs, map fst rs))
          else Inr (bs_result S, map fst (bs_replacements S)))"

section \<open>The second version\<close>

datatype block_phase = Idle | Searching | Replacing

record repair_state =
  rs_phase :: block_phase
  rs_pending :: "string list"
  rs_result :: string
  rs_last :: int
  rs_search :: string
  rs_match :: "(nat \<times> nat) option"

definition new_repair_state :: repair_state where
  "new_repair_state = \<lparr>rs_phase = Idle, rs_pending = [], rs_result = [], rs_last = 0, rs_search = [], rs_match = None\<rparr>"

text \<open>The last kept line below the limit that matches, \<open>-1\<close> for none; a line beyond the end is undefined.\<close>

definition findLastMatchingLineIndex :: "(string \<Rightarrow> bool) \<Rightarrow> int \<Rightarrow> repair_state \<Rightarrow> block_error + int" where
  "findLastMatchingLineIndex P limit S =
     (if int (length (rs_pending S)) < limit then Inl Undefined_line
      else Inr (case find (\<lambda>i. P (rs_pending S ! i)) (rev [0..<nat limit]) of None \<Rightarrow> - 1 | Some i \<Rightarrow> int i))"

fun trim_pending :: "nat \<Rightarrow> string list \<Rightarrow> string list \<times> nat" where
  "trim_pending 0 pending = (pending, 0)"
| "trim_pending (Suc i) pending =
     (if js_trim (pending ! i) = [] then (let (p, n) = trim_pending i (butlast pending) in (p, Suc n)) else (pending, 0))"

definition activate_search :: "repair_state \<Rightarrow> block_error + repair_state" where
  "activate_search S = (if rs_phase S = Idle then Inr (S\<lparr>rs_phase := Searching, rs_search := []\<rparr>) else Inl Invalid_transition)"

definition repair_match :: "string \<Rightarrow> string \<Rightarrow> nat \<Rightarrow> block_error + (nat \<times> nat)" where
  "repair_match content search start =
     (if search = [] then Inr (0, length content)
      else (case indexOf content search start of
              Some i \<Rightarrow> Inr (i, i + length search)
            | None \<Rightarrow>
           (case lineTrimmedFallbackMatch content search start of
              Some r \<Rightarrow> Inr r
            | None \<Rightarrow>
           (case blockAnchorFallbackMatch content search start of Some r \<Rightarrow> Inr r | None \<Rightarrow> Inl (No_match search)))))"

definition before_replace :: "string \<Rightarrow> repair_state \<Rightarrow> block_error + repair_state" where
  "before_replace content S =
     (case repair_match content (rs_search S) (nat (rs_last S)) of
        Inl e \<Rightarrow> Inl e
      | Inr (i, j) \<Rightarrow>
          if int i < rs_last S then Inl (Wrong_match (rs_search S))
          else Inr (S\<lparr>rs_match := Some (i, j), rs_result := rs_result S @ js_slice (rs_last S) (int i) content\<rparr>))"

definition activate_replace :: "string \<Rightarrow> repair_state \<Rightarrow> block_error + repair_state" where
  "activate_replace content S =
     (if rs_phase S = Searching then before_replace content (S\<lparr>rs_phase := Replacing\<rparr>) else Inl Invalid_transition)"

type_synonym repair = "(block_error + (repair_state \<times> int)) option"

text \<open>Kept lines processed again; the number of blank lines removed adds up, and may lower the limit.\<close>

fun repair_lines :: "(string \<Rightarrow> int \<Rightarrow> repair_state \<Rightarrow> repair) \<Rightarrow> int \<Rightarrow> bool \<Rightarrow> string list \<Rightarrow> int \<Rightarrow> repair_state \<Rightarrow> repair" where
  "repair_lines go limit lower [] removed S = Some (Inr (S, removed))"
| "repair_lines go limit lower (l # ls) removed S =
     (case go l (if lower then limit - removed else limit) S of
        None \<Rightarrow> None
      | Some (Inl e) \<Rightarrow> Some (Inl e)
      | Some (Inr (S', n)) \<Rightarrow> repair_lines go limit lower ls (removed + n) S')"

definition full_limit :: "int \<Rightarrow> repair_state \<Rightarrow> int" where
  "full_limit limit S = (if limit < 0 then int (length (rs_pending S)) else limit)"

definition with_first :: "string \<Rightarrow> string list \<Rightarrow> string list" where
  "with_first l ls = l # tl ls"

definition with_last :: "string \<Rightarrow> string list \<Rightarrow> string list" where
  "with_last l ls = (if ls = [] then [] else butlast ls @ [l])"

definition tryFixSearchBlock :: "(string \<Rightarrow> int \<Rightarrow> repair_state \<Rightarrow> repair) \<Rightarrow> int \<Rightarrow> repair_state \<Rightarrow> repair" where
  "tryFixSearchBlock go limit0 S =
     (let limit = full_limit limit0 S in
      if limit = 0 then Some (Inl No_lines)
      else (case findLastMatchingLineIndex (marker_line ['' SEARCH''] ''-<'') limit S of
              Inl e \<Rightarrow> Some (Inl e)
            | Inr i \<Rightarrow>
                if i = - 1 then Some (Inl No_search_marker)
                else repair_lines go i False (with_first SEARCH_BLOCK_START (js_slice i limit (rs_pending S))) 0 S))"

definition tryFixReplaceBlock :: "(string \<Rightarrow> int \<Rightarrow> repair_state \<Rightarrow> repair) \<Rightarrow> int \<Rightarrow> repair_state \<Rightarrow> repair" where
  "tryFixReplaceBlock go limit0 S =
     (let limit = full_limit limit0 S in
      if limit = 0 then Some (Inl No_lines)
      else (case findLastMatchingLineIndex isSearchBlockEnd limit S of
              Inl e \<Rightarrow> Some (Inl e)
            | Inr i \<Rightarrow>
                if i = - 1 then Some (Inl No_separator)
                else repair_lines go i True (with_first SEARCH_BLOCK_END (js_slice i limit (rs_pending S))) 0 S))"

definition tryFixSearchReplaceBlock :: "(string \<Rightarrow> int \<Rightarrow> repair_state \<Rightarrow> repair) \<Rightarrow> int \<Rightarrow> repair_state \<Rightarrow> repair" where
  "tryFixSearchReplaceBlock go limit0 S =
     (let limit = full_limit limit0 S in
      if limit = 0 then Some (Inl No_lines)
      else (case findLastMatchingLineIndex (marker_line ['' REPLACE''] ''+>'') limit S of
              Inl e \<Rightarrow> Some (Inl e)
            | Inr i \<Rightarrow>
                if i \<noteq> limit - 1 then Some (Inl No_replace_marker)
                else repair_lines go i True (with_last REPLACE_BLOCK_END (js_slice i limit (rs_pending S))) 0 S))"

definition after_repair :: "bool \<Rightarrow> repair \<Rightarrow> (repair_state \<Rightarrow> block_error + repair_state) \<Rightarrow> int \<Rightarrow> repair" where
  "after_repair canWrite r next n =
     (case r of
        None \<Rightarrow> None
      | Some (Inl e) \<Rightarrow> Some (Inl e)
      | Some (Inr (S, _)) \<Rightarrow>
          Some (case next (if canWrite then S\<lparr>rs_pending := []\<rparr> else S) of Inl e \<Rightarrow> Inl e | Inr S' \<Rightarrow> Inr (S', n)))"

definition without_repair :: "repair_state \<Rightarrow> (repair_state \<Rightarrow> block_error + repair_state) \<Rightarrow> int \<Rightarrow> repair" where
  "without_repair S next n = Some (case next S of Inl e \<Rightarrow> Inl e | Inr S' \<Rightarrow> Inr (S', n))"

definition end_replace :: "repair_state \<Rightarrow> block_error + repair_state" where
  "end_replace S = Inr (S\<lparr>rs_last := (case rs_match S of None \<Rightarrow> - 1 | Some (i, j) \<Rightarrow> int j), rs_phase := Idle, rs_search := [], rs_match := None\<rparr>)"

fun internalProcessLine :: "nat \<Rightarrow> string \<Rightarrow> bool \<Rightarrow> string \<Rightarrow> int \<Rightarrow> repair_state \<Rightarrow> repair" where
  "internalProcessLine 0 content canWrite line limit S = None"
| "internalProcessLine (Suc fuel) content canWrite line limit S =
     (let go = internalProcessLine fuel content False in
      if isSearchBlockStart line
      then (let (pending, n) = trim_pending (nat (min limit (int (length (rs_pending S))))) (rs_pending S);
                S1 = S\<lparr>rs_pending := pending\<rparr>; limit1 = limit - int n in
            if 0 < limit1 then after_repair canWrite (tryFixSearchReplaceBlock go limit1 S1) activate_search (int n)
            else without_repair S1 activate_search (int n))
      else if isSearchBlockEnd line
      then (if rs_phase S = Idle then after_repair canWrite (tryFixSearchBlock go limit S) (activate_replace content) 0
            else without_repair S (activate_replace content) 0)
      else if isReplaceBlockEnd line
      then (if rs_phase S \<noteq> Replacing then after_repair canWrite (tryFixReplaceBlock go limit S) end_replace 0
            else without_repair S end_replace 0)
      else Some (Inr
        (if rs_phase S = Replacing then (if rs_match S \<noteq> None then S\<lparr>rs_result := rs_result S @ line @ [newline]\<rparr> else S)
         else if rs_phase S = Searching then S\<lparr>rs_search := rs_search S @ line @ [newline]\<rparr>
         else if canWrite then S\<lparr>rs_pending := rs_pending S @ [line]\<rparr> else S, 0)))"

fun process_lines :: "nat \<Rightarrow> string \<Rightarrow> string list \<Rightarrow> repair_state \<Rightarrow> (block_error + repair_state) option" where
  "process_lines fuel content [] S = Some (Inr S)"
| "process_lines fuel content (l # ls) S =
     (case internalProcessLine fuel content True l (int (length (rs_pending S))) S of
        None \<Rightarrow> None
      | Some (Inl e) \<Rightarrow> Some (Inl e)
      | Some (Inr (S', n)) \<Rightarrow> process_lines fuel content ls S')"

definition getResult :: "string \<Rightarrow> bool \<Rightarrow> repair_state \<Rightarrow> block_error + string" where
  "getResult content isFinal S =
     (if isFinal \<and> rs_phase S \<noteq> Idle then Inl Incomplete_block
      else Inr (rs_result S @ (if isFinal \<and> rs_last S < int (length content) then js_slice (rs_last S) (int (length content)) content else [])))"

definition constructNewFileContentV2 :: "nat \<Rightarrow> string \<Rightarrow> string \<Rightarrow> bool \<Rightarrow> (block_error + string) option" where
  "constructNewFileContentV2 fuel diff content isFinal =
     (case process_lines fuel content
        (drop_partial (\<lambda>l. l \<in> {SEARCH_BLOCK_START, SEARCH_BLOCK_END, REPLACE_BLOCK_END}) (split_lines diff)) new_repair_state of
        None \<Rightarrow> None
      | Some (Inl e) \<Rightarrow> Some (Inl e)
      | Some (Inr S) \<Rightarrow> Some (getResult content isFinal S))"

end
