(* ===== verification/Edit_Correct.thy ===== *)
theory Edit_Correct
  imports Edit_Blocks
begin

text \<open>
  Both versions of \<^verbatim>\<open>constructNewFileContent\<close> apply blocks written for the file in the order of the file. The second
  always returns, and what it keeps to repair damaged markers never is one.
\<close>

section \<open>Blocks written for a file\<close>

type_synonym blocks = "(string \<times> string list \<times> string list) list"

definition lines_text :: "string list \<Rightarrow> string" where
  "lines_text ls = concat (map (\<lambda>l. l @ [newline]) ls)"

definition original_file :: "blocks \<Rightarrow> string \<Rightarrow> string" where
  "original_file es tail = concat (map (\<lambda>(gap, s, r). gap @ lines_text s) es) @ tail"

definition edited_file :: "blocks \<Rightarrow> string \<Rightarrow> string" where
  "edited_file es tail = concat (map (\<lambda>(gap, s, r). gap @ lines_text r) es) @ tail"

definition block_text :: "blocks \<Rightarrow> string list" where
  "block_text es = concat (map (\<lambda>(gap, s, r). SEARCH_BLOCK_START # s @ SEARCH_BLOCK_END # r @ [REPLACE_BLOCK_END]) es)"

definition plain_line :: "string \<Rightarrow> bool" where
  "plain_line l \<longleftrightarrow> \<not> isSearchBlockStart l \<and> \<not> isSearchBlockEnd l \<and> \<not> isReplaceBlockEnd l"

text \<open>The search text of a block does not occur before its place, after the block before.\<close>

fun placed :: "string \<Rightarrow> nat \<Rightarrow> blocks \<Rightarrow> bool" where
  "placed content n [] \<longleftrightarrow> True"
| "placed content n ((gap, s, r) # es) \<longleftrightarrow>
     s \<noteq> [] \<and> list_all plain_line s \<and> list_all plain_line r \<and>
     list_all (\<lambda>i. \<not> prefix (lines_text s) (drop i content)) [n..<n + length gap] \<and>
     placed content (n + length gap + length (lines_text s)) es"

fun block_ranges :: "nat \<Rightarrow> blocks \<Rightarrow> (nat \<times> nat \<times> string) list" where
  "block_ranges n [] = []"
| "block_ranges n ((gap, s, r) # es) =
     (n + length gap, n + length gap + length (lines_text s), lines_text r) # block_ranges (n + length gap + length (lines_text s)) es"

lemma lines_text_simps [simp]: "lines_text [] = []" "lines_text (l # ls) = l @ newline # lines_text ls"
  by (simp_all add: lines_text_def)

lemma file_simps [simp]:
  "original_file [] tail = tail" "edited_file [] tail = tail" "block_text [] = []"
  "original_file ((gap, s, r) # es) tail = gap @ lines_text s @ original_file es tail"
  "edited_file ((gap, s, r) # es) tail = gap @ lines_text r @ edited_file es tail"
  "block_text ((gap, s, r) # es) = SEARCH_BLOCK_START # s @ SEARCH_BLOCK_END # r @ REPLACE_BLOCK_END # block_text es"
  by (simp_all add: original_file_def edited_file_def block_text_def)

lemma markers [simp]:
  "isSearchBlockStart SEARCH_BLOCK_START" "\<not> isSearchBlockStart SEARCH_BLOCK_END" "isSearchBlockEnd SEARCH_BLOCK_END"
  "\<not> isSearchBlockStart REPLACE_BLOCK_END" "\<not> isSearchBlockEnd REPLACE_BLOCK_END" "isReplaceBlockEnd REPLACE_BLOCK_END"
  by code_simp+

lemma find_first: "a \<le> p \<Longrightarrow> p < b \<Longrightarrow> P p \<Longrightarrow> list_all (\<lambda>i. \<not> P i) [a..<p] \<Longrightarrow> find P [a..<b] = Some p"
proof (induction "p - a" arbitrary: a)
  case 0
  then show ?case by (simp add: upt_rec)
next
  case (Suc n)
  then have "a < p" by simp
  then have "\<not> P a" "list_all (\<lambda>i. \<not> P i) [Suc a..<p]" using Suc.prems(4) by (auto simp: list_all_iff)
  then show ?case using Suc.hyps(1) [of "Suc a"] Suc.hyps(2) Suc.prems \<open>a < p\<close> by (simp add: upt_rec)
qed

lemma slice_gap: "drop n content = gap @ rest \<Longrightarrow> n \<le> length content \<Longrightarrow> js_slice (int n) (int (n + length gap)) content = gap"
  unfolding js_slice_nat by simp

lemma slice_rest: "n \<le> length content \<Longrightarrow> js_slice (int n) (int (length content)) content = drop n content"
  by (simp add: js_slice_nat)

text \<open>The place of a block, and the file after it.\<close>

lemma block_place:
  assumes "drop n content = original_file ((gap, s, r) # es) tail" and "n \<le> length content" and "placed content n ((gap, s, r) # es)"
  shows "indexOf content (lines_text s) n = Some (n + length gap)" and "lines_text s \<noteq> []"
    and "drop (n + length gap + length (lines_text s)) content = original_file es tail"
    and "n + length gap + length (lines_text s) \<le> length content"
    and "js_slice (int n) (int (n + length gap)) content = gap"
    and "placed content (n + length gap + length (lines_text s)) es"
proof -
  have at: "drop (n + length gap) content = lines_text s @ original_file es tail"
    using arg_cong [OF assms(1), of "drop (length gap)"] by (simp add: add.commute)
  show "drop (n + length gap + length (lines_text s)) content = original_file es tail"
    using arg_cong [OF at, of "drop (length (lines_text s))"] by (simp add: add.commute)
  have "length content - n = length gap + length (lines_text s) + length (original_file es tail)"
    using arg_cong [OF assms(1), of length] by simp
  then show room: "n + length gap + length (lines_text s) \<le> length content" using assms(2) by linarith
  show ne: "lines_text s \<noteq> []" using assms(3) by (cases s) auto
  show "indexOf content (lines_text s) n = Some (n + length gap)"
    unfolding indexOf_def by (rule find_first) (use at room ne assms(3) in auto)
  show "js_slice (int n) (int (n + length gap)) content = gap" by (rule slice_gap) (use assms in auto)
  show "placed content (n + length gap + length (lines_text s)) es" using assms(3) by simp
qed

section \<open>The first version\<close>

lemma search_lines_read:
  "list_all plain_line s \<Longrightarrow> bs_inSearch S \<Longrightarrow>
   block_lines content (s @ ls) S = block_lines content ls (S\<lparr>bs_search := bs_search S @ lines_text s\<rparr>)"
  by (induction s arbitrary: S) (auto simp: block_line_def plain_line_def)

lemma replace_lines_read:
  "list_all plain_line r \<Longrightarrow> \<not> bs_inSearch S \<Longrightarrow> bs_inReplace S \<Longrightarrow> bs_match S = Some m \<Longrightarrow> \<not> bs_outOfOrder S \<Longrightarrow>
   block_lines content (r @ ls) S =
     block_lines content ls (S\<lparr>bs_replace := bs_replace S @ lines_text r, bs_result := bs_result S @ lines_text r\<rparr>)"
  by (induction r arbitrary: S) (auto simp: block_line_def plain_line_def)

text \<open>The state between two blocks.\<close>

definition between :: "nat \<Rightarrow> string \<Rightarrow> (nat \<times> nat \<times> string) list \<Rightarrow> block_state" where
  "between n result rs = new_block_state\<lparr>bs_last := n, bs_result := result, bs_replacements := rs\<rparr>"

lemma block_read:
  assumes "drop n content = original_file ((gap, s, r) # es) tail" and "n \<le> length content" and "placed content n ((gap, s, r) # es)"
  shows "block_lines content (SEARCH_BLOCK_START # s @ SEARCH_BLOCK_END # r @ REPLACE_BLOCK_END # ls) (between n result rs) =
    block_lines content ls (between (n + length gap + length (lines_text s)) (result @ gap @ lines_text r)
      (rs @ [(n + length gap, n + length gap + length (lines_text s), lines_text r)]))"
proof -
  note place = block_place [OF assms]
  have plain: "list_all plain_line s" "list_all plain_line r" using assms(3) by simp_all
  let ?S0 = "between n result rs"
  let ?S1 = "?S0\<lparr>bs_inSearch := True, bs_search := lines_text s\<rparr>"
  let ?S2 = "?S1\<lparr>bs_inSearch := False, bs_inReplace := True, bs_match := Some (n + length gap, n + length gap + length (lines_text s)),
    bs_result := result @ gap\<rparr>"
  let ?S3 = "?S2\<lparr>bs_replace := lines_text r, bs_result := result @ gap @ lines_text r\<rparr>"
  have 1: "block_lines content (SEARCH_BLOCK_START # s @ SEARCH_BLOCK_END # r @ REPLACE_BLOCK_END # ls) ?S0 =
      block_lines content (SEARCH_BLOCK_END # r @ REPLACE_BLOCK_END # ls) ?S1"
    using search_lines_read [OF plain(1), of "?S0\<lparr>bs_inSearch := True\<rparr>" content] by (simp add: block_line_def between_def new_block_state_def)
  have "find_block content (lines_text s) n = Inr (n + length gap, n + length gap + length (lines_text s))"
    using place(1,2) by (simp add: find_block_def)
  then have 2: "block_lines content (SEARCH_BLOCK_END # r @ REPLACE_BLOCK_END # ls) ?S1 = block_lines content (r @ REPLACE_BLOCK_END # ls) ?S2"
    using place(5) by (simp add: block_line_def end_search_def between_def new_block_state_def)
  have 3: "block_lines content (r @ REPLACE_BLOCK_END # ls) ?S2 = block_lines content (REPLACE_BLOCK_END # ls) ?S3"
    using replace_lines_read [OF plain(2), of ?S2 _ content "REPLACE_BLOCK_END # ls"] by (simp add: between_def new_block_state_def)
  have 4: "block_lines content (REPLACE_BLOCK_END # ls) ?S3 =
      block_lines content ls (between (n + length gap + length (lines_text s)) (result @ gap @ lines_text r)
        (rs @ [(n + length gap, n + length gap + length (lines_text s), lines_text r)]))"
    by (simp add: block_line_def end_block_def between_def new_block_state_def)
  show ?thesis unfolding 1 2 3 4 ..
qed

lemma blocks_read:
  assumes "drop n content = original_file es tail" and "n \<le> length content" and "placed content n es"
  shows "\<exists>m. block_lines content (block_text es) (between n result rs) = Inr (between m (result @ edited_file es []) (rs @ block_ranges n es))"
  using assms
proof (induction es arbitrary: n result rs)
  case (Cons e es)
  obtain gap s r where e: "e = (gap, s, r)" by (cases e)
  note place = block_place [OF Cons.prems [unfolded e]]
  from Cons.IH [OF place(3,4,6), of "result @ gap @ lines_text r" "rs @ [(n + length gap, n + length gap + length (lines_text s), lines_text r)]"]
  show ?case using block_read [OF Cons.prems [unfolded e], of "block_text es" result rs] by (simp add: e)
qed (auto simp: between_def)

lemma ranges_sorted: "sorted (map fst (block_ranges n es)) \<and> (\<forall>x \<in> set (block_ranges n es). n \<le> fst x)"
proof (induction es arbitrary: n)
  case (Cons e es)
  obtain gap s r where e: "e = (gap, s, r)" by (cases e)
  have "n + length gap \<le> fst x" if "x \<in> set (block_ranges (n + length gap + length (lines_text s)) es)" for x
    using Cons [of "n + length gap + length (lines_text s)"] that by (meson add_leD1)
  then show ?case using Cons [of "n + length gap + length (lines_text s)"] by (force simp: e)
qed simp

lemma rebuild_ranges:
  assumes "drop n content = original_file es tail" and "n \<le> length content" and "placed content n es"
  shows "rebuild content n (block_ranges n es) = edited_file es tail"
  using assms
proof (induction es arbitrary: n)
  case Nil
  then show ?case by (simp add: slice_rest)
next
  case (Cons e es)
  obtain gap s r where e: "e = (gap, s, r)" by (cases e)
  note place = block_place [OF Cons.prems [unfolded e]]
  show ?case using Cons.IH [OF place(3,4,6)] place(5) by (simp add: e del: of_nat_add)
qed

section \<open>The second version\<close>

definition idle :: "nat \<Rightarrow> string \<Rightarrow> repair_state" where
  "idle n result = new_repair_state\<lparr>rs_last := int n, rs_result := result\<rparr>"

lemma search_lines_kept:
  "list_all plain_line s \<Longrightarrow> rs_phase S = Searching \<Longrightarrow>
   process_lines (Suc fuel) content (s @ ls) S = process_lines (Suc fuel) content ls (S\<lparr>rs_search := rs_search S @ lines_text s\<rparr>)"
  by (induction s arbitrary: S) (auto simp: plain_line_def)

lemma replace_lines_kept:
  "list_all plain_line r \<Longrightarrow> rs_phase S = Replacing \<Longrightarrow> rs_match S = Some m \<Longrightarrow>
   process_lines (Suc fuel) content (r @ ls) S = process_lines (Suc fuel) content ls (S\<lparr>rs_result := rs_result S @ lines_text r\<rparr>)"
  by (induction r arbitrary: S) (auto simp: plain_line_def)

lemma block_kept:
  assumes "drop n content = original_file ((gap, s, r) # es) tail" and "n \<le> length content" and "placed content n ((gap, s, r) # es)"
  shows "process_lines (Suc fuel) content (SEARCH_BLOCK_START # s @ SEARCH_BLOCK_END # r @ REPLACE_BLOCK_END # ls) (idle n result) =
    process_lines (Suc fuel) content ls (idle (n + length gap + length (lines_text s)) (result @ gap @ lines_text r))"
proof -
  note place = block_place [OF assms]
  have plain: "list_all plain_line s" "list_all plain_line r" using assms(3) by simp_all
  let ?S0 = "idle n result"
  let ?S1 = "?S0\<lparr>rs_phase := Searching, rs_search := lines_text s\<rparr>"
  let ?S2 = "?S1\<lparr>rs_phase := Replacing, rs_match := Some (n + length gap, n + length gap + length (lines_text s)), rs_result := result @ gap\<rparr>"
  let ?S3 = "?S2\<lparr>rs_result := result @ gap @ lines_text r\<rparr>"
  have 1: "process_lines (Suc fuel) content (SEARCH_BLOCK_START # s @ SEARCH_BLOCK_END # r @ REPLACE_BLOCK_END # ls) ?S0 =
      process_lines (Suc fuel) content (SEARCH_BLOCK_END # r @ REPLACE_BLOCK_END # ls) ?S1"
    using search_lines_kept [OF plain(1), of "?S0\<lparr>rs_phase := Searching\<rparr>" fuel content]
    by (simp add: without_repair_def activate_search_def idle_def new_repair_state_def)
  have "repair_match content (lines_text s) n = Inr (n + length gap, n + length gap + length (lines_text s))"
    using place(1,2) by (simp add: repair_match_def)
  then have 2: "process_lines (Suc fuel) content (SEARCH_BLOCK_END # r @ REPLACE_BLOCK_END # ls) ?S1 =
      process_lines (Suc fuel) content (r @ REPLACE_BLOCK_END # ls) ?S2"
    using place(5) by (simp add: without_repair_def activate_replace_def before_replace_def idle_def new_repair_state_def)
  have 3: "process_lines (Suc fuel) content (r @ REPLACE_BLOCK_END # ls) ?S2 = process_lines (Suc fuel) content (REPLACE_BLOCK_END # ls) ?S3"
    using replace_lines_kept [OF plain(2), of ?S2 _ fuel content "REPLACE_BLOCK_END # ls"] by (simp add: idle_def new_repair_state_def)
  have 4: "process_lines (Suc fuel) content (REPLACE_BLOCK_END # ls) ?S3 =
      process_lines (Suc fuel) content ls (idle (n + length gap + length (lines_text s)) (result @ gap @ lines_text r))"
    by (simp add: without_repair_def end_replace_def idle_def new_repair_state_def)
  show ?thesis unfolding 1 2 3 4 ..
qed

lemma blocks_kept:
  assumes "drop n content = original_file es tail" and "n \<le> length content" and "placed content n es"
  shows "process_lines (Suc fuel) content (block_text es) (idle n result) =
    Some (Inr (idle (length content - length tail) (result @ edited_file es [])))"
  using assms
proof (induction es arbitrary: n result)
  case Nil
  have "length content - n = length tail" using arg_cong [OF Nil.prems(1), of length] by simp
  then have "n = length content - length tail" using Nil.prems(2) by linarith
  then show ?case by simp
next
  case (Cons e es)
  obtain gap s r where e: "e = (gap, s, r)" by (cases e)
  note place = block_place [OF Cons.prems [unfolded e]]
  show ?case using Cons.IH [OF place(3,4,6), of "result @ gap @ lines_text r"] block_kept [OF Cons.prems [unfolded e], of fuel "block_text es" result]
    by (simp add: e)
qed

text \<open>
  The lines kept for a repair are those that are no markers, and the repairs look for markers among them: they always
  fail. The second version therefore returns with one unit of fuel.
\<close>

definition kept_plain :: "repair_state \<Rightarrow> bool" where
  "kept_plain S \<longleftrightarrow> list_all plain_line (rs_pending S)"

lemma plain_markers:
  assumes "plain_line l"
  shows "\<not> marker_line ['' SEARCH''] ''-<'' l" and "\<not> isSearchBlockEnd l" and "\<not> marker_line ['' REPLACE''] ''+>'' l"
  using assms by (auto simp: plain_line_def isSearchBlockStart_def isReplaceBlockEnd_def marker_line_def list_ex_iff split: option.splits)

lemma no_marker_kept:
  assumes "kept_plain S" and "\<And>l. plain_line l \<Longrightarrow> \<not> P l" and "findLastMatchingLineIndex P limit S = Inr i"
  shows "i = - 1"
proof -
  have len: "\<not> int (length (rs_pending S)) < limit" using assms(3) by (auto simp: findLastMatchingLineIndex_def split: if_splits)
  have "find (\<lambda>i. P (rs_pending S ! i)) (rev [0..<nat limit]) = None"
    using assms(1,2) len unfolding find_None_iff kept_plain_def list_all_length by auto
  then show ?thesis using assms(3) len by (auto simp: findLastMatchingLineIndex_def)
qed

lemma repairs_fail:
  assumes "kept_plain S"
  shows "(\<exists>e. tryFixSearchBlock go limit S = Some (Inl e)) \<and> (\<exists>e. tryFixReplaceBlock go limit S = Some (Inl e)) \<and>
    (0 < limit \<longrightarrow> (\<exists>e. tryFixSearchReplaceBlock go limit S = Some (Inl e)))"
proof -
  have "\<exists>e. tryFixSearchBlock go limit S = Some (Inl e)"
    using no_marker_kept [OF assms plain_markers(1)] by (auto simp: tryFixSearchBlock_def Let_def split: sum.split)
  moreover have "\<exists>e. tryFixReplaceBlock go limit S = Some (Inl e)"
    using no_marker_kept [OF assms plain_markers(2)] by (auto simp: tryFixReplaceBlock_def Let_def split: sum.split)
  moreover have "0 < limit \<longrightarrow> (\<exists>e. tryFixSearchReplaceBlock go limit S = Some (Inl e))"
    using no_marker_kept [where P = "marker_line ['' REPLACE''] ''+>''" and limit = limit and i = "limit - 1", OF assms plain_markers(3)]
    by (auto simp: tryFixSearchReplaceBlock_def Let_def full_limit_def split: sum.split)
  ultimately show ?thesis by blast
qed

lemma trim_pending_plain: "list_all plain_line ls \<Longrightarrow> list_all plain_line (fst (trim_pending i ls))"
proof (induction i arbitrary: ls)
  case (Suc i)
  have "list_all plain_line (butlast ls)" using Suc.prems by (auto simp: list_all_iff dest: in_set_butlastD)
  then show ?case using Suc by (simp add: case_prod_beta)
qed simp

lemma processed_plain:
  assumes "kept_plain S"
  shows "internalProcessLine (Suc fuel) content True line limit S \<noteq> None \<and>
    (\<forall>S' n. internalProcessLine (Suc fuel) content True line limit S = Some (Inr (S', n)) \<longrightarrow> kept_plain S')"
proof -
  let ?go = "internalProcessLine fuel content False"
  have effects: "activate_search T = Inr T' \<Longrightarrow> kept_plain T' = kept_plain T" "activate_replace content T = Inr T' \<Longrightarrow> kept_plain T' = kept_plain T"
    "end_replace T = Inr T' \<Longrightarrow> kept_plain T' = kept_plain T" for T T'
    by (auto simp: activate_search_def activate_replace_def before_replace_def end_replace_def kept_plain_def split: if_splits sum.splits)
  consider (start) "isSearchBlockStart line" | (sep) "\<not> isSearchBlockStart line" "isSearchBlockEnd line"
    | (stop) "\<not> isSearchBlockStart line" "\<not> isSearchBlockEnd line" "isReplaceBlockEnd line" | (plain) "plain_line line"
    by (auto simp: plain_line_def)
  then show ?thesis
  proof cases
    case start
    let ?p = "trim_pending (nat (min limit (int (length (rs_pending S))))) (rs_pending S)"
    let ?S = "S\<lparr>rs_pending := fst ?p\<rparr>" and ?limit = "limit - int (snd ?p)"
    have S: "kept_plain ?S" using assms trim_pending_plain by (simp add: kept_plain_def)
    have run: "internalProcessLine (Suc fuel) content True line limit S =
        (if 0 < ?limit then after_repair True (tryFixSearchReplaceBlock ?go ?limit ?S) activate_search (int (snd ?p))
         else without_repair ?S activate_search (int (snd ?p)))"
      using start by (simp add: Let_def case_prod_beta)
    show ?thesis
    proof (cases "0 < ?limit")
      case True
      then obtain e where "tryFixSearchReplaceBlock ?go ?limit ?S = Some (Inl e)" using repairs_fail [OF S] by blast
      then show ?thesis unfolding run using True by (simp add: after_repair_def)
    next
      case False
      then show ?thesis unfolding run using effects(1) [of ?S] S by (auto simp: without_repair_def split: sum.splits)
    qed
  next
    case sep
    obtain e where "tryFixSearchBlock ?go limit S = Some (Inl e)" using repairs_fail [OF assms] by blast
    then show ?thesis using sep effects(2) [of S] assms by (auto simp: Let_def after_repair_def without_repair_def split: sum.splits)
  next
    case stop
    obtain e where "tryFixReplaceBlock ?go limit S = Some (Inl e)" using repairs_fail [OF assms] by blast
    then show ?thesis using stop effects(3) [of S] assms by (auto simp: Let_def after_repair_def without_repair_def split: sum.splits)
  next
    case plain
    then show ?thesis using assms by (auto simp: Let_def plain_line_def kept_plain_def)
  qed
qed

lemma process_returns: "kept_plain S \<Longrightarrow> process_lines (Suc fuel) content ls S \<noteq> None"
proof (induction ls arbitrary: S)
  case (Cons l ls)
  note P = processed_plain [OF Cons.prems, of fuel content l "int (length (rs_pending S))"]
  then obtain r where r: "internalProcessLine (Suc fuel) content True l (int (length (rs_pending S))) S = Some r" by blast
  show ?case
  proof (cases r)
    case (Inl e)
    then show ?thesis using r by simp
  next
    case (Inr p)
    then show ?thesis using Cons.IH [of "fst p"] P r by (cases p) (simp del: internalProcessLine.simps)
  qed
qed simp

text \<open>
  The second version always returns, with one level of repair: no repair it starts goes deeper.
\<close>

theorem second_version_returns: "\<exists>r. constructNewFileContentV2 (Suc fuel) diff content isFinal = Some r"
proof -
  let ?ls = "drop_partial (\<lambda>l. l \<in> {SEARCH_BLOCK_START, SEARCH_BLOCK_END, REPLACE_BLOCK_END}) (split_lines diff)"
  obtain r where "process_lines (Suc fuel) content ?ls new_repair_state = Some r"
    using process_returns [of new_repair_state fuel content ?ls] by (auto simp: kept_plain_def new_repair_state_def)
  then show ?thesis by (cases r) (simp_all add: constructNewFileContentV2_def)
qed

section \<open>Blocks applied\<close>

lemma block_text_last: "es \<noteq> [] \<Longrightarrow> block_text es \<noteq> [] \<and> last (block_text es) = REPLACE_BLOCK_END"
proof (induction es)
  case (Cons e es)
  then show ?case by (cases e; cases "es = []") (auto simp: block_text_def)
qed simp

lemma keeps_last: "es \<noteq> [] \<Longrightarrow> known REPLACE_BLOCK_END \<Longrightarrow> drop_partial known (block_text es) = block_text es"
  using block_text_last by (simp add: drop_partial_def)

text \<open>
  C27. The blocks written for a list of edits, each the lines to search and the lines to put there, give the edited file:
  the first version at the end of the message, the first version while the message streams in, up to the last block, and
  the second version agree. The list is not empty and follows the order of the file; every search text has a line and
  does not occur between the end of the block before and its own place (\<open>placed\<close>); and no line of a search or replacement
  text holds a line break or is read as a marker, a line of three or more equals signs included. A replacement with such a separator line is
  damaged (\<open>separator_lost\<close>), and an empty search
  makes the first version throw on a file that is not empty (\<open>empty_search\<close>).
\<close>

theorem blocks_applied:
  assumes "es \<noteq> []" and "placed (original_file es tail) 0 es" and "\<forall>(gap, s, r) \<in> set es. newline \<notin> set (concat s) \<union> set (concat r)"
  shows "constructNewFileContentV1 (join_lines (block_text es)) (original_file es tail) True =
      Inr (edited_file es tail, map fst (block_ranges 0 es)) \<and>
    constructNewFileContentV1 (join_lines (block_text es)) (original_file es tail) False =
      Inr (edited_file es [], map fst (block_ranges 0 es)) \<and>
    constructNewFileContentV2 (Suc fuel) (join_lines (block_text es)) (original_file es tail) True = Some (Inr (edited_file es tail))"
proof -
  let ?c = "original_file es tail"
  have clean: "\<forall>l \<in> set (block_text es). newline \<notin> set l"
  proof -
    have "newline \<notin> set SEARCH_BLOCK_START" "newline \<notin> set SEARCH_BLOCK_END" "newline \<notin> set REPLACE_BLOCK_END" by code_simp+
    then show ?thesis using assms(3) by (fastforce simp: block_text_def)
  qed
  have split: "split_lines (join_lines (block_text es)) = block_text es"
    using split_join [OF _ clean] block_text_last [OF assms(1)] by blast
  have start: "drop 0 ?c = original_file es tail" "0 \<le> length ?c" by simp_all
  obtain m where m: "block_lines ?c (block_text es) new_block_state = Inr (between m (edited_file es []) (block_ranges 0 es))"
    using blocks_read [OF start assms(2), of "[]" "[]"] by (auto simp: between_def new_block_state_def)
  have sorted: "sort_key fst (block_ranges 0 es) = block_ranges 0 es"
    by (rule sort_key_id_if_sorted) (use ranges_sorted [of 0 es] in blast)
  have v1: "constructNewFileContentV1 (join_lines (block_text es)) ?c final =
      Inr (if final then edited_file es tail else edited_file es [], map fst (block_ranges 0 es))" for final
    using m rebuild_ranges [OF start assms(2)] sorted
    by (simp add: constructNewFileContentV1_def split keeps_last [OF assms(1)] between_def new_block_state_def Let_def)
  have "process_lines (Suc fuel) ?c (block_text es) new_repair_state = Some (Inr (idle (length ?c - length tail) (edited_file es [])))"
    using blocks_kept [OF start assms(2), of fuel "[]"] by (simp add: idle_def new_repair_state_def)
  moreover have "getResult ?c True (idle (length ?c - length tail) (edited_file es [])) = Inr (edited_file es tail)"
  proof -
    have "drop (length ?c - length tail) ?c = tail" by (simp add: original_file_def)
    moreover have "edited_file es tail = edited_file es [] @ tail" by (simp add: edited_file_def)
    moreover have "length tail \<le> length ?c" by (simp add: original_file_def)
    ultimately show ?thesis
      using slice_rest [of "length ?c - length tail" ?c] by (auto simp: getResult_def idle_def new_repair_state_def of_nat_diff)
  qed
  ultimately have "constructNewFileContentV2 (Suc fuel) (join_lines (block_text es)) ?c True = Some (Inr (edited_file es tail))"
    by (simp add: constructNewFileContentV2_def split keeps_last [OF assms(1)])
  then show ?thesis using v1 by simp
qed

definition greeting :: blocks where
  "greeting = [([], [''hello''], [''goodbye''])]"

lemma blocks_applied_witness:
  "constructNewFileContentV1 (join_lines (block_text greeting)) (original_file greeting ''world'') True =
     Inr (edited_file greeting ''world'', map fst (block_ranges 0 greeting)) \<and>
   edited_file greeting ''world'' = ''goodbye'' @ newline # ''world''"
proof -
  have "greeting \<noteq> []" "placed (original_file greeting ''world'') 0 greeting"
    "\<forall>(gap, s, r) \<in> set greeting. newline \<notin> set (concat s) \<union> set (concat r)" by code_simp+
  from blocks_applied [OF this] show ?thesis by (simp add: greeting_def)
qed

section \<open>Blocks that do something else\<close>

definition one_block :: "string list \<Rightarrow> string list \<Rightarrow> string list" where
  "one_block s r = SEARCH_BLOCK_START # s @ SEARCH_BLOCK_END # r @ [REPLACE_BLOCK_END]"

text \<open>A block inside the range of one before it: the end of what that one replaced is back.\<close>

lemma overlap_brings_back:
  "constructNewFileContentV1 (join_lines (one_block [''a'', ''b'', ''c''] [''x''] @ one_block [''b''] [''y''])) (lines_text [''a'', ''b'', ''c'']) True =
   Inr (lines_text [''x'', ''y'', ''c''], [0, 2])"
  by code_simp

text \<open>A line of the replacement that looks like the separator is lost.\<close>

lemma separator_lost:
  "constructNewFileContentV1 (join_lines (one_block [''a''] [''title'', ''====='', ''text''])) (lines_text [''a'']) True =
   Inr (lines_text [''title'', ''text''], [0])"
  by code_simp

text \<open>A line before the first block, which the first version passes over, makes the second fail.\<close>

lemma prose_fails:
  "constructNewFileContentV1 (join_lines (''Sure:'' # one_block [''a''] [''b''])) (lines_text [''a'']) True = Inr (lines_text [''b''], [0]) \<and>
   constructNewFileContentV2 1 (join_lines (''Sure:'' # one_block [''a''] [''b''])) (lines_text [''a'']) True = Some (Inl No_replace_marker)"
  by code_simp

text \<open>An empty search replaces the file in the second version only.\<close>

lemma empty_search:
  "constructNewFileContentV1 (join_lines (one_block [] [''b''])) (lines_text [''a'']) True = Inl Empty_search \<and>
   constructNewFileContentV2 1 (join_lines (one_block [] [''b''])) (lines_text [''a'']) True = Some (Inr (lines_text [''b'']))"
  by code_simp

end
