(* ===== verification/Message_Parser.thy ===== *)
theory Message_Parser
  imports Text_Lines
begin

text \<open>
  The text and the tool calls in a message of the model, \<^verbatim>\<open>parseAssistantMessageV2\<close> of
  \<^verbatim>\<open>src/core/assistant-message/parse-assistant-message.ts\<close>, and the names of tools of \<^verbatim>\<open>src/shared/tools.ts\<close>. The names
  are arguments of the parser: tools are registered at run time. The identifiers of calls are left out.
\<close>

section \<open>Blocks\<close>

type_synonym tool_params = "(string, string) jsmap"

datatype content_block = Text_block string bool | Tool_block string tool_params bool

definition toolParamNames :: "string list" where
  "toolParamNames =
     [''command'', ''requires_approval'', ''path'', ''absolutePath'', ''content'', ''diff'', ''regex'', ''file_pattern'', ''recursive'',
      ''action'', ''url'', ''coordinate'', ''text'', ''query'', ''symbol'', ''maxFiles'', ''includeEvidence'', ''allowed_domains'',
      ''blocked_domains'', ''prompt'', ''server_name'', ''tool_name'', ''arguments'', ''uri'', ''question'', ''options'', ''response'',
      ''result'', ''context'', ''title'', ''what_happened'', ''steps_to_reproduce'', ''api_request_output'', ''additional_context'',
      ''needs_more_exploration'', ''task_progress'', ''timeout'', ''input'', ''from_ref'', ''to_ref'', ''skill_name'', ''prompt_1'',
      ''prompt_2'', ''prompt_3'', ''prompt_4'', ''prompt_5'', ''maxDepth'', ''sourceStreamId'', ''targetStreamId'', ''limit'', ''id'',
      ''tags'', ''weight'', ''sourceId'', ''targetId'', ''seal'', ''summary'', ''resume_swarm_id'', ''full_reference'', ''verb'',
      ''payload'', ''project_knowledge'']"

section \<open>Names of tools\<close>

definition toolUseNames :: "string list" where
  "toolUseNames =
     [''ask_followup_question'', ''attempt_completion'', ''execute_command'', ''replace_in_file'', ''read_file'',
      ''write_to_file'', ''rename_files'', ''move_files'', ''delete_file'', ''search_files'', ''list_files'',
      ''list_code_definition_names'', ''browser_action'', ''use_mcp_tool'', ''access_mcp_resource'',
      ''load_mcp_documentation'', ''new_task'', ''plan_mode_respond'', ''act_mode_respond'', ''focus_chain'', ''web_fetch'',
      ''web_search'', ''condense'', ''summarize_task'', ''report_bug'', ''new_rule'', ''apply_patch'',
      ''generate_explanation'', ''use_skill'', ''use_subagents'', ''run_finalization'', ''project_map'',
      ''query_cognitive_memory'', ''create_cognitive_snapshot'', ''mem_link'', ''mem_merge'', ''mem_refresh'',
      ''mem_context'', ''mem_blast'', ''mem_choke'', ''mem_heal'', ''mem_forecast'', ''mem_centrality'', ''mem_subgraph'',
      ''mem_append_shared'', ''mem_get_shared'', ''mem_bundle'', ''mem_blame'', ''mem_changelog'', ''mem_claim'',
      ''mem_release'', ''mem_hubs'', ''diagnose_stability'', ''scaffold_module'', ''query_stability'', ''decompose_module'',
      ''generate_dependency_map'', ''recalibrate_stability'', ''stability_integrity_sweep'', ''ast_repair'', ''roadmap'',
      ''roadmap_checkpoint'', ''dietcode_kernel'', ''golden_cartridge'']"

text \<open>Names registered at run time, by namespace; blank ones are left out, and each counts once.\<close>

definition unique :: "string list \<Rightarrow> string list" where
  "unique xs = rev (remdups (rev xs))"

definition setDynamicToolUseNames :: "string \<Rightarrow> string list \<Rightarrow> (string, string list) jsmap \<Rightarrow> (string, string list) jsmap" where
  "setDynamicToolUseNames namespace names m = js_set m namespace (unique (filter (\<lambda>n. n \<noteq> []) (map js_trim names)))"

definition getToolUseNames :: "(string, string list) jsmap \<Rightarrow> string list" where
  "getToolUseNames m = unique (toolUseNames @ concat (js_values m))"

section \<open>Tags\<close>

definition open_tag :: "string \<Rightarrow> string" where
  "open_tag name = ''<'' @ name @ ''>''"

definition close_tag :: "string \<Rightarrow> string" where
  "close_tag name = ''</'' @ name @ ''>''"

record message_state =
  ms_blocks :: "content_block list"
  ms_textStart :: nat
  ms_inText :: bool
  ms_toolStart :: nat
  ms_tool :: "(string \<times> tool_params) option"
  ms_paramStart :: nat
  ms_param :: "string option"

text \<open>The tag ends at the index; the text from one index to another.\<close>

definition tag_ends :: "string \<Rightarrow> nat \<Rightarrow> string \<Rightarrow> bool" where
  "tag_ends msg i tag \<longleftrightarrow> suffix tag (take (Suc i) msg)"

definition message_part :: "string \<Rightarrow> nat \<Rightarrow> nat \<Rightarrow> string" where
  "message_part msg a b = js_trim (take (b - a) (drop a msg))"

text \<open>The content of a file is what is between the first opening and the last closing tag.\<close>

definition text_index :: "string \<Rightarrow> string \<Rightarrow> nat option" where
  "text_index s pat = find (\<lambda>i. prefix pat (drop i s)) [0..<Suc (length s)]"

definition last_text_index :: "string \<Rightarrow> string \<Rightarrow> nat option" where
  "last_text_index s pat = find (\<lambda>i. prefix pat (drop i s)) (rev [0..<Suc (length s)])"

definition file_content :: "string \<Rightarrow> string \<Rightarrow> tool_params \<Rightarrow> tool_params" where
  "file_content name body ps =
     (if name = ''write_to_file''
      then (case (text_index body (open_tag ''content''), last_text_index body (close_tag ''content'')) of
              (Some a, Some b) \<Rightarrow>
                if a < b
                then (let from' = a + length (open_tag ''content'') in js_set ps ''content'' (js_trim (take (b - from') (drop from' body))))
                else ps
            | _ \<Rightarrow> ps)
      else ps)"

section \<open>One character\<close>

definition tool_char :: "string \<Rightarrow> string list \<Rightarrow> nat \<Rightarrow> string \<times> tool_params \<Rightarrow> message_state \<Rightarrow> message_state" where
  "tool_char msg params i t S =
     (let (name, ps) = t in
      case find (\<lambda>p. tag_ends msg i (open_tag p)) params of
        Some p \<Rightarrow> S\<lparr>ms_tool := Some t, ms_param := Some p, ms_paramStart := Suc i\<rparr>
      | None \<Rightarrow>
          if tag_ends msg i (close_tag name)
          then (let end' = Suc i - length (close_tag name);
                    body = take (end' - ms_toolStart S) (drop (ms_toolStart S) msg) in
                S\<lparr>ms_blocks := ms_blocks S @ [Tool_block name (file_content name body ps) False],
                  ms_tool := None, ms_param := None, ms_textStart := Suc i\<rparr>)
          else S\<lparr>ms_tool := Some t, ms_param := None\<rparr>)"

definition text_char :: "string \<Rightarrow> string list \<Rightarrow> nat \<Rightarrow> message_state \<Rightarrow> message_state" where
  "text_char msg tools i S =
     (case find (\<lambda>t. tag_ends msg i (open_tag t)) tools of
        Some t \<Rightarrow>
          (let content = message_part msg (ms_textStart S) (Suc i - length (open_tag t)) in
           S\<lparr>ms_blocks := (if content = [] then ms_blocks S else ms_blocks S @ [Text_block content False]),
             ms_inText := False, ms_tool := Some (t, []), ms_param := None, ms_toolStart := Suc i\<rparr>)
      | None \<Rightarrow> if ms_inText S then S else S\<lparr>ms_textStart := i, ms_inText := True\<rparr>)"

definition message_char :: "string \<Rightarrow> string list \<Rightarrow> string list \<Rightarrow> nat \<Rightarrow> message_state \<Rightarrow> message_state" where
  "message_char msg tools params i S =
     (case ms_tool S of
        None \<Rightarrow> text_char msg tools i S
      | Some (name, ps) \<Rightarrow>
          (case ms_param S of
             None \<Rightarrow> tool_char msg params i (name, ps) S
           | Some p \<Rightarrow>
               if tag_ends msg i (close_tag p)
               then tool_char msg params i
                      (name, js_set ps p (message_part msg (ms_paramStart S) (Suc i - length (close_tag p)))) S
               else S))"

section \<open>The message\<close>

definition finish_message :: "string \<Rightarrow> message_state \<Rightarrow> content_block list" where
  "finish_message msg S =
     (case ms_tool S of
        Some (name, ps) \<Rightarrow>
          ms_blocks S @ [Tool_block name
            (case ms_param S of None \<Rightarrow> ps | Some p \<Rightarrow> js_set ps p (message_part msg (ms_paramStart S) (length msg))) True]
      | None \<Rightarrow>
          if ms_inText S
          then (let content = message_part msg (ms_textStart S) (length msg) in
                if content = [] then ms_blocks S else ms_blocks S @ [Text_block content True])
          else ms_blocks S)"

definition parseAssistantMessageV2 :: "string list \<Rightarrow> string list \<Rightarrow> string \<Rightarrow> content_block list" where
  "parseAssistantMessageV2 tools params msg =
     finish_message msg (fold (message_char msg tools params) [0..<length msg]
       \<lparr>ms_blocks = [], ms_textStart = 0, ms_inText = False, ms_toolStart = 0, ms_tool = None, ms_paramStart = 0, ms_param = None\<rparr>)"

end
