(* ===== verification/Message_Correct.thy ===== *)
theory Message_Correct
  imports Message_Parser
begin

text \<open>
  A message rendered from prose and tool calls is parsed to them again.
\<close>

section \<open>Tags\<close>

definition name_ok :: "string \<Rightarrow> bool" where
  "name_ok n \<longleftrightarrow> n \<noteq> [] \<and> CHR ''<'' \<notin> set n \<and> CHR ''>'' \<notin> set n \<and> CHR ''/'' \<notin> set n"

text \<open>The angle brackets of a tag are its ends.\<close>

definition tag_ok :: "string \<Rightarrow> bool" where
  "tag_ok t \<longleftrightarrow> (\<exists>u. t = CHR ''<'' # u @ [CHR ''>''] \<and> CHR ''<'' \<notin> set u \<and> CHR ''>'' \<notin> set u)"

lemma tags_ok: "name_ok n \<Longrightarrow> tag_ok (open_tag n)" "name_ok n \<Longrightarrow> tag_ok (close_tag n)"
  by (auto simp: tag_ok_def name_ok_def open_tag_def close_tag_def intro: exI [where x = "CHR ''/'' # n"])

lemma tag_last: "tag_ok t \<Longrightarrow> t \<noteq> [] \<and> last t = CHR ''>''"
  by (auto simp: tag_ok_def)

lemma tag_suffix_eq:
  assumes "tag_ok s" and "tag_ok t" and "suffix s t"
  shows "s = t"
proof -
  obtain zs where zs: "t = zs @ s" using assms(3) by (auto simp: suffix_def)
  obtain u v where u: "s = CHR ''<'' # u" and v: "t = CHR ''<'' # v" "CHR ''<'' \<notin> set v"
    using assms(1,2) by (auto simp: tag_ok_def)
  show ?thesis using zs u v by (cases zs) auto
qed

lemma tags_same: "tag_ok s \<Longrightarrow> tag_ok t \<Longrightarrow> suffix s w \<Longrightarrow> suffix t w \<Longrightarrow> s = t"
  using suffix_same_cases [of s w t] tag_suffix_eq by metis

lemma names_inj: "open_tag m = open_tag n \<longleftrightarrow> m = n" "close_tag m = close_tag n \<longleftrightarrow> m = n"
  by (simp_all add: open_tag_def close_tag_def)

lemma open_not_close: "name_ok m \<Longrightarrow> open_tag m \<noteq> close_tag n"
  by (cases m) (auto simp: open_tag_def close_tag_def name_ok_def)

text \<open>Behind the start of the message or the end of a tag, no tag reaches back.\<close>

definition fresh :: "string \<Rightarrow> bool" where
  "fresh pre \<longleftrightarrow> pre = [] \<or> last pre = CHR ''>''"

lemma fresh_suffix:
  assumes "fresh pre" and "tag_ok t" and "suffix t (pre @ u)" and "u \<noteq> []"
  shows "suffix t u"
proof (rule ccontr)
  assume no: "\<not> suffix t u"
  have "suffix u (pre @ u)" by (simp add: suffix_def)
  then have "suffix u t" using suffix_same_cases [OF assms(3)] no by blast
  then obtain x where x: "t = x @ u" by (auto simp: suffix_def)
  have "x \<noteq> []" using x no by auto
  moreover have "suffix x pre" using assms(3) x by (simp add: suffix_def)
  ultimately have "last x = CHR ''>''" using assms(1) by (auto simp: fresh_def suffix_def)
  then have "CHR ''>'' \<in> set (butlast t)" using x \<open>x \<noteq> []\<close> assms(4) last_in_set [of x] by (simp add: butlast_append)
  then show False using assms(2) by (auto simp: tag_ok_def)
qed

section \<open>Quiet parts\<close>

definition quiet :: "string \<Rightarrow> string set \<Rightarrow> nat \<Rightarrow> nat \<Rightarrow> bool" where
  "quiet msg ts a b \<longleftrightarrow> (\<forall>i t. a \<le> i \<longrightarrow> i < b \<longrightarrow> t \<in> ts \<longrightarrow> \<not> tag_ends msg i t)"

lemma tag_ends_at: "tag_ends (pre @ w @ post) (length pre + k) t \<longleftrightarrow> suffix t (pre @ take (Suc k) w)" if "k < length w"
  using that by (simp add: tag_ends_def)

lemma quiet_part:
  assumes "\<And>k t. k < length w \<Longrightarrow> t \<in> ts \<Longrightarrow> \<not> suffix t (pre @ take (Suc k) w)"
  shows "quiet (pre @ w @ post) ts (length pre) (length pre + length w)"
  unfolding quiet_def
proof (intro allI impI)
  fix i t
  assume "length pre \<le> i" "i < length pre + length w" "t \<in> ts"
  then obtain k where "i = length pre + k" "k < length w" using le_Suc_ex by fastforce
  then show "\<not> tag_ends (pre @ w @ post) i t" using tag_ends_at [of k w pre post t] assms [of k t] \<open>t \<in> ts\<close> by blast
qed

text \<open>Parts without the closing bracket, the last character apart.\<close>

lemma quiet_no_bracket:
  assumes "CHR ''>'' \<notin> set w" and "\<forall>t \<in> ts. tag_ok t"
  shows "quiet (pre @ w @ post) ts (length pre) (length pre + length w)"
proof (rule quiet_part)
  fix k t
  assume "k < length w" "t \<in> ts"
  then have ne: "take (Suc k) w \<noteq> []" by auto
  then have "last (pre @ take (Suc k) w) \<in> set w"
    using set_take_subset [of "Suc k" w] last_in_set [of "take (Suc k) w"] by (auto simp: last_append)
  then have no: "last (pre @ take (Suc k) w) \<noteq> CHR ''>''" using assms(1) by metis
  show "\<not> suffix t (pre @ take (Suc k) w)"
  proof
    assume "suffix t (pre @ take (Suc k) w)"
    moreover have "t \<noteq> []" "last t = CHR ''>''" using tag_last assms(2) \<open>t \<in> ts\<close> by blast+
    ultimately have "last (pre @ take (Suc k) w) = CHR ''>''" by (metis last_appendR suffix_def)
    then show False using no by simp
  qed
qed

lemma quiet_text: "ms_tool S = None \<Longrightarrow> quiet msg (open_tag ` set tools) a b \<Longrightarrow> a < b \<Longrightarrow>
  fold (message_char msg tools params) [a..<b] S = S\<lparr>ms_inText := True, ms_textStart := (if ms_inText S then ms_textStart S else a)\<rparr>"
proof (induction "b - a" arbitrary: a S)
  case (Suc n)
  have none: "find (\<lambda>t. tag_ends msg a (open_tag t)) tools = None" using Suc.prems by (auto simp: find_None_iff quiet_def)
  have step: "message_char msg tools params a S = S\<lparr>ms_inText := True, ms_textStart := (if ms_inText S then ms_textStart S else a)\<rparr>"
    using Suc.prems(1) none by (simp add: message_char_def text_char_def)
  show ?case
  proof (cases "Suc a = b")
    case True
    then show ?thesis using step by (simp add: upt_rec)
  next
    case False
    then have "quiet msg (open_tag ` set tools) (Suc a) b" "Suc a < b" "n = b - Suc a" using Suc by (auto simp: quiet_def)
    from Suc.hyps(1) [OF this(3) _ this(1,2)] show ?thesis using step Suc.prems(1,3) by (simp add: upt_rec [of a b])
  qed
qed simp

lemma quiet_tool: "ms_tool S = Some (name, ps) \<Longrightarrow> ms_param S = None \<Longrightarrow> quiet msg (insert (close_tag name) (open_tag ` set params)) a b \<Longrightarrow>
  fold (message_char msg tools params) [a..<b] S = S"
proof (induction "b - a" arbitrary: a)
  case (Suc n)
  have none: "find (\<lambda>t. tag_ends msg a (open_tag t)) params = None" "\<not> tag_ends msg a (close_tag name)"
    using Suc.prems(3) Suc.hyps(2) by (auto simp: find_None_iff quiet_def)
  have "message_char msg tools params a S = S" using Suc.prems(1,2) none by (simp add: message_char_def tool_char_def)
  moreover have "quiet msg (insert (close_tag name) (open_tag ` set params)) (Suc a) b" using Suc.prems(3) by (auto simp: quiet_def)
  ultimately show ?case using Suc.hyps Suc.prems(1,2) by (simp add: upt_rec [of a b])
qed simp

lemma quiet_param: "ms_tool S = Some (name, ps) \<Longrightarrow> ms_param S = Some p \<Longrightarrow> quiet msg {close_tag p} a b \<Longrightarrow>
  fold (message_char msg tools params) [a..<b] S = S"
proof (induction "b - a" arbitrary: a)
  case (Suc n)
  have "\<not> tag_ends msg a (close_tag p)" using Suc.prems(3) Suc.hyps(2) by (auto simp: quiet_def)
  then have "message_char msg tools params a S = S" using Suc.prems(1,2) by (simp add: message_char_def)
  moreover have "quiet msg {close_tag p} (Suc a) b" using Suc.prems(3) by (auto simp: quiet_def)
  ultimately show ?case using Suc.hyps Suc.prems(1,2) by (simp add: upt_rec [of a b])
qed simp

lemma fold_upt: "a \<le> b \<Longrightarrow> b \<le> c \<Longrightarrow> fold f [a..<c] S = fold f [b..<c] (fold f [a..<b] S)"
  by (metis comp_apply fold_append le_Suc_ex upt_add_eq_append)

lemma fold_upt3: "a \<le> b \<Longrightarrow> b \<le> c \<Longrightarrow> c \<le> d \<Longrightarrow> fold f [a..<d] S = fold f [c..<d] (fold f [b..<c] (fold f [a..<b] S))"
  using fold_upt [of a b d f S] fold_upt [of b c d f] by simp

text \<open>The end of a tag.\<close>

lemma find_tag:
  assumes "n \<in> set ns" and "\<forall>m \<in> set ns. name_ok m" and "suffix (open_tag n) w"
  shows "find (\<lambda>m. suffix (open_tag m) w) ns = Some n"
proof -
  have only: "suffix (open_tag m) w \<longleftrightarrow> m = n" if "m \<in> set ns" for m
    using tags_same [OF tags_ok(1) tags_ok(1), of m n w] assms that names_inj by blast
  then show ?thesis using assms(1) by (induction ns) auto
qed

lemma find_no_open:
  assumes "\<forall>m \<in> set ns. name_ok m" and "name_ok n" and "suffix (close_tag n) w"
  shows "find (\<lambda>m. suffix (open_tag m) w) ns = None"
  using tags_same [OF tags_ok(1) tags_ok(2), of _ n w] assms open_not_close by (auto simp: find_None_iff)

lemma find_open_with_close:
  assumes "\<forall>m \<in> set ns. name_ok m" and "name_ok n" and "suffix (close_tag n) w"
  shows "find (\<lambda>m. suffix (open_tag m) w) ns = None"
  using find_no_open [OF assms] .

text \<open>The text before a tag, and the tag without its last character, is quiet.\<close>

lemma quiet_until_tag:
  assumes "fresh pre" and "\<forall>s \<in> ts. tag_ok s" and "tag_ok g" and "\<forall>s \<in> ts. \<not> sublist s t"
  shows "quiet (pre @ (t @ butlast g) @ post) ts (length pre) (length pre + length (t @ butlast g))"
proof (rule quiet_part)
  fix k s
  let ?w = "t @ butlast g"
  assume k: "k < length ?w" and s: "s \<in> ts"
  show "\<not> suffix s (pre @ take (Suc k) ?w)"
  proof
    assume "suffix s (pre @ take (Suc k) ?w)"
    moreover have "take (Suc k) ?w \<noteq> []" using k by (metis list.size(3) not_less_zero old.nat.distinct(2) take_eq_Nil)
    ultimately have suf: "suffix s (take (Suc k) ?w)" using fresh_suffix [OF assms(1)] assms(2) s by metis
    have ends: "s \<noteq> []" "last s = CHR ''>''" using tag_last assms(2) s by blast+
    show False
    proof (cases "k < length t")
      case True
      then have "sublist s t" using suf by (metis Suc_leI append_take_drop_id sublist_append_leftI sublist_order.order_trans
            suffix_imp_sublist take_append take_all_iff append_Nil2 diff_is_0_eq' take0 sublist_append_rightI)
      then show False using assms(4) s by blast
    next
      case False
      then have "take (Suc k) ?w = t @ take (Suc (k - length t)) (butlast g)" "take (Suc (k - length t)) (butlast g) \<noteq> []"
        using k by (auto simp: Suc_diff_le not_less dest: arg_cong [where f = length])
      then have "last (take (Suc k) ?w) \<in> set (butlast g)"
        using last_in_set [of "take (Suc (k - length t)) (butlast g)"] set_take_subset [of "Suc (k - length t)" "butlast g"] by auto
      moreover have "last (take (Suc k) ?w) = CHR ''>''" using suf ends by (metis last_appendR suffix_def)
      ultimately show False using assms(3) by (auto simp: tag_ok_def butlast_append)
    qed
  qed
qed

lemma tag_at: "tag_ends (pre @ w @ post) (length pre + length w - 1) t \<longleftrightarrow> suffix t (pre @ w)" if "w \<noteq> []"
  using that by (simp add: tag_ends_def)

lemma close_tag_ne [simp]: "close_tag n \<noteq> []" and open_tag_ne [simp]: "open_tag n \<noteq> []"
  by (simp_all add: close_tag_def open_tag_def)

lemma fresh_tag: "tag_ok t \<Longrightarrow> fresh (w @ t)"
  using tag_last by (simp add: fresh_def)

section \<open>Steps over tags\<close>

lemma upt_last: "a < b \<Longrightarrow> [a..<b] = [a..<b - 1] @ [b - 1]"
  by (metis Suc_diff_1 bot_nat_0.not_eq_extremum less_Suc_eq_le less_nat_zero_code upt_Suc_append)

text \<open>Prose and the opening tag of a tool.\<close>

lemma read_prose:
  assumes "fresh pre" and "\<forall>m \<in> set tools. name_ok m" and "n \<in> set tools" and "\<forall>m \<in> set tools. \<not> sublist (open_tag m) t"
    and "msg = pre @ t @ open_tag n @ post" and "ms_tool S = None" and "\<not> ms_inText S" and "b = length pre + length t + length (open_tag n)"
  shows "fold (message_char msg tools params) [length pre..<b] S =
    S\<lparr>ms_blocks := ms_blocks S @ (if js_trim t = [] then [] else [Text_block (js_trim t) False]),
      ms_textStart := length pre, ms_inText := False, ms_toolStart := b, ms_tool := Some (n, []), ms_param := None\<rparr>"
proof -
  let ?g = "open_tag n" and ?f = "message_char msg tools params"
  have ok: "tag_ok ?g" "\<forall>s \<in> open_tag ` set tools. tag_ok s" using assms(2,3) tags_ok by auto
  have g: "?g = butlast ?g @ [CHR ''>'']" by (simp add: open_tag_def butlast_append)
  have msg: "msg = pre @ (t @ butlast ?g) @ CHR ''>'' # post" using assms(5) g by (metis append.assoc append_Cons append_Nil)
  let ?b = "length pre + length (t @ butlast ?g)"
  have b: "b - 1 = ?b" "length pre < b" "length pre < ?b" using assms(8) by (simp_all add: open_tag_def)
  have "quiet msg (open_tag ` set tools) (length pre) ?b" unfolding msg by (rule quiet_until_tag) (use assms(1,4) ok in auto)
  from quiet_text [OF assms(6) this b(3)] have
    before: "fold ?f [length pre..<b - 1] S = S\<lparr>ms_inText := True, ms_textStart := length pre\<rparr>" using assms(7) b(1) by simp
  have "tag_ends msg (b - 1) m = suffix m (pre @ t @ ?g)" for m
    using tag_at [of "t @ ?g" pre post m] assms(5,8) by (simp add: add.assoc)
  then have "find (\<lambda>m. tag_ends msg (b - 1) (open_tag m)) tools = Some n"
    using find_tag [OF assms(3,2)] by (simp add: suffix_def)
  moreover have "Suc (b - 1) - length ?g = length pre + length t" using assms(8) b(2) by simp
  moreover have "message_part msg (length pre) (length pre + length t) = js_trim t" by (simp add: message_part_def assms(5))
  moreover have "Suc (b - 1) = b" using b(2) by simp
  ultimately show ?thesis unfolding upt_last [OF b(2)] using before assms(6) by (simp add: message_char_def text_char_def Let_def)
qed

text \<open>A line end and the opening tag of a parameter.\<close>

lemma read_open:
  assumes "fresh pre" and "\<forall>p \<in> set params. name_ok p" and "p \<in> set params" and "name_ok n"
    and "msg = pre @ newline # open_tag p @ post" and "ms_tool S = Some (n, ps)" and "ms_param S = None"
    and "b = Suc (length pre + length (open_tag p))"
  shows "fold (message_char msg tools params) [length pre..<b] S = S\<lparr>ms_param := Some p, ms_paramStart := b\<rparr>"
proof -
  let ?g = "open_tag p" and ?f = "message_char msg tools params"
  have ok: "tag_ok ?g" "\<forall>s \<in> insert (close_tag n) (open_tag ` set params). tag_ok s" using assms(2,3,4) tags_ok by auto
  have g: "?g = butlast ?g @ [CHR ''>'']" by (simp add: open_tag_def butlast_append)
  have msg: "msg = pre @ ([newline] @ butlast ?g) @ CHR ''>'' # post" using assms(5) g by (metis append.assoc append_Cons append_Nil)
  let ?b = "length pre + length ([newline] @ butlast ?g)"
  have b: "b - 1 = ?b" "length pre < b" using assms(8) by (simp_all add: open_tag_def)
  have "\<not> sublist s [newline]" if "tag_ok s" for s
    using that by (auto simp: tag_ok_def sublist_def Cons_eq_append_conv append_eq_Cons_conv)
  then have "quiet msg (insert (close_tag n) (open_tag ` set params)) (length pre) ?b"
    unfolding msg by (intro quiet_until_tag assms(1) ok) (use ok in blast)
  from quiet_tool [OF assms(6,7) this] have before: "fold ?f [length pre..<b - 1] S = S" using b(1) by simp
  have "tag_ends msg (b - 1) m = suffix m (pre @ newline # ?g)" for m
    using tag_at [of "newline # ?g" pre post m] assms(5,8) by simp
  then have "find (\<lambda>m. tag_ends msg (b - 1) (open_tag m)) params = Some p"
    using find_tag [OF assms(3,2), of "pre @ newline # ?g"] by (simp add: suffix_def)
  moreover have "Suc (b - 1) = b" using b(2) by simp
  ultimately show ?thesis unfolding upt_last [OF b(2)] using before assms(6,7) by (simp add: message_char_def tool_char_def)
qed

text \<open>A value and its closing tag.\<close>

lemma read_value:
  assumes "fresh pre" and "\<forall>p \<in> set params. name_ok p" and "name_ok p" and "name_ok n" and "p \<noteq> n" and "\<not> sublist (close_tag p) v"
    and "msg = pre @ v @ close_tag p @ post" and "ms_tool S = Some (n, ps)" and "ms_param S = Some p" and "ms_paramStart S = length pre"
    and "b = length pre + length v + length (close_tag p)"
  shows "fold (message_char msg tools params) [length pre..<b] S = S\<lparr>ms_tool := Some (n, js_set ps p (js_trim v)), ms_param := None\<rparr>"
proof -
  let ?g = "close_tag p" and ?f = "message_char msg tools params"
  have ok: "tag_ok ?g" using assms(3) tags_ok by auto
  have g: "?g = butlast ?g @ [CHR ''>'']" by (simp add: close_tag_def butlast_append)
  have msg: "msg = pre @ (v @ butlast ?g) @ CHR ''>'' # post" using assms(7) g by (metis append.assoc append_Cons append_Nil)
  let ?b = "length pre + length (v @ butlast ?g)"
  have b: "b - 1 = ?b" "length pre < b" using assms(11) by (simp_all add: close_tag_def)
  have "quiet msg {?g} (length pre) ?b" unfolding msg by (rule quiet_until_tag) (use assms(1,6) ok in auto)
  from quiet_param [OF assms(8,9) this] have before: "fold ?f [length pre..<b - 1] S = S" using b(1) by simp
  have ends: "tag_ends msg (b - 1) m = suffix m (pre @ v @ ?g)" for m
    using tag_at [of "v @ ?g" pre post m] assms(7,11) by (simp add: add.assoc)
  have own: "suffix ?g (pre @ v @ ?g)" by (simp add: suffix_def)
  have "find (\<lambda>m. tag_ends msg (b - 1) (open_tag m)) params = None" unfolding ends by (rule find_no_open [OF assms(2,3) own])
  moreover have "\<not> tag_ends msg (b - 1) (close_tag n)"
  proof
    assume "tag_ends msg (b - 1) (close_tag n)"
    then have "close_tag n = ?g" unfolding ends by (rule tags_same [OF tags_ok(2) [OF assms(4)] ok _ own])
    then show False using assms(5) names_inj(2) by simp
  qed
  moreover have "tag_ends msg (b - 1) ?g" unfolding ends by (rule own)
  moreover have "Suc (b - 1) - length ?g = length pre + length v" using assms(11) b(2) by simp
  moreover have "message_part msg (length pre) (length pre + length v) = js_trim v" by (simp add: message_part_def assms(7))
  ultimately show ?thesis unfolding upt_last [OF b(2)] using before assms(8,9,10) by (simp add: message_char_def tool_char_def)
qed

text \<open>A line end and the closing tag of the tool.\<close>

lemma read_close:
  assumes "fresh pre" and "\<forall>p \<in> set params. name_ok p" and "name_ok n"
    and "msg = pre @ newline # close_tag n @ post" and "ms_tool S = Some (n, ps)" and "ms_param S = None"
    and "b = Suc (length pre + length (close_tag n))"
  shows "fold (message_char msg tools params) [length pre..<b] S =
    S\<lparr>ms_blocks := ms_blocks S @ [Tool_block n (file_content n (take (Suc (length pre) - ms_toolStart S) (drop (ms_toolStart S) msg)) ps) False],
      ms_tool := None, ms_param := None, ms_textStart := b\<rparr>"
proof -
  let ?g = "close_tag n" and ?f = "message_char msg tools params"
  have ok: "tag_ok ?g" "\<forall>s \<in> insert ?g (open_tag ` set params). tag_ok s" using assms(2,3) tags_ok by auto
  have g: "?g = butlast ?g @ [CHR ''>'']" by (simp add: close_tag_def butlast_append)
  have msg: "msg = pre @ ([newline] @ butlast ?g) @ CHR ''>'' # post" using assms(4) g by (metis append.assoc append_Cons append_Nil)
  let ?b = "length pre + length ([newline] @ butlast ?g)"
  have b: "b - 1 = ?b" "length pre < b" using assms(7) by (simp_all add: close_tag_def)
  have "\<not> sublist s [newline]" if "tag_ok s" for s
    using that by (auto simp: tag_ok_def sublist_def Cons_eq_append_conv append_eq_Cons_conv)
  then have "quiet msg (insert ?g (open_tag ` set params)) (length pre) ?b"
    unfolding msg by (intro quiet_until_tag assms(1) ok) (use ok in blast)
  from quiet_tool [OF assms(5,6) this] have before: "fold ?f [length pre..<b - 1] S = S" using b(1) by simp
  have ends: "tag_ends msg (b - 1) m = suffix m (pre @ newline # ?g)" for m
    using tag_at [of "newline # ?g" pre post m] assms(4,7) by simp
  have own: "suffix ?g (pre @ newline # ?g)" by (simp add: suffix_def)
  have "find (\<lambda>m. tag_ends msg (b - 1) (open_tag m)) params = None" unfolding ends by (rule find_no_open [OF assms(2,3) own])
  moreover have "tag_ends msg (b - 1) ?g" unfolding ends by (rule own)
  moreover have "Suc (b - 1) - length ?g = Suc (length pre)" "Suc (b - 1) = b" using assms(7) b(2) by simp_all
  ultimately show ?thesis unfolding upt_last [OF b(2)] using before assms(5,6) by (simp add: message_char_def tool_char_def Let_def)
qed

section \<open>Rendered messages\<close>

type_synonym tool_call = "string \<times> (string \<times> string) list"

definition param_text :: "string \<times> string \<Rightarrow> string" where
  "param_text p = newline # open_tag (fst p) @ snd p @ close_tag (fst p)"

definition tool_body :: "(string \<times> string) list \<Rightarrow> string" where
  "tool_body ps = concat (map param_text ps) @ [newline]"

definition tool_text :: "tool_call \<Rightarrow> string" where
  "tool_text c = open_tag (fst c) @ tool_body (snd c) @ close_tag (fst c)"

definition message_text :: "(string \<times> tool_call) list \<Rightarrow> string \<Rightarrow> string" where
  "message_text cs tail = concat (map (\<lambda>(t, c). t @ tool_text c) cs) @ tail"

definition prose_blocks :: "string \<Rightarrow> bool \<Rightarrow> content_block list" where
  "prose_blocks t partial = (if js_trim t = [] then [] else [Text_block (js_trim t) partial])"

definition trimmed :: "(string \<times> string) list \<Rightarrow> tool_params" where
  "trimmed ps = map (\<lambda>(p, v). (p, js_trim v)) ps"

lemma keys_trimmed: "js_keys (trimmed ps) = map fst ps"
  by (auto simp: trimmed_def)

definition call_block :: "tool_call \<Rightarrow> content_block" where
  "call_block c = Tool_block (fst c) (file_content (fst c) (tool_body (snd c)) (trimmed (snd c))) False"

definition message_blocks :: "(string \<times> tool_call) list \<Rightarrow> string \<Rightarrow> content_block list" where
  "message_blocks cs tail = concat (map (\<lambda>(t, c). prose_blocks t False @ [call_block c]) cs) @ prose_blocks tail True"

text \<open>Prose without an opening tag of a tool; parameters known, each once, whose values do not hold their own closing tag.\<close>

definition prose_ok :: "string list \<Rightarrow> string \<Rightarrow> bool" where
  "prose_ok tools t \<longleftrightarrow> (\<forall>m \<in> set tools. \<not> sublist (open_tag m) t)"

definition call_ok :: "string list \<Rightarrow> string list \<Rightarrow> tool_call \<Rightarrow> bool" where
  "call_ok tools params c \<longleftrightarrow> fst c \<in> set tools \<and> distinct (map fst (snd c)) \<and>
     (\<forall>(p, v) \<in> set (snd c). p \<in> set params \<and> p \<noteq> fst c \<and> \<not> sublist (close_tag p) v)"

lemma read_params:
  assumes names: "\<forall>p \<in> set params. name_ok p" "name_ok n"
  shows "distinct (map fst (ps @ qs)) \<Longrightarrow> \<forall>(p, v) \<in> set qs. p \<in> set params \<and> p \<noteq> n \<and> \<not> sublist (close_tag p) v \<Longrightarrow>
    fresh pre \<Longrightarrow> msg = pre @ concat (map param_text qs) @ post \<Longrightarrow> ms_tool S = Some (n, trimmed ps) \<Longrightarrow> ms_param S = None \<Longrightarrow>
    b = length pre + length (concat (map param_text qs)) \<Longrightarrow>
    \<exists>k. fold (message_char msg tools params) [length pre..<b] S = S\<lparr>ms_tool := Some (n, trimmed (ps @ qs)), ms_paramStart := k\<rparr>"
proof (induction qs arbitrary: ps pre S)
  case Nil
  then show ?case by (intro exI [of _ "ms_paramStart S"]) simp
next
  case (Cons q qs)
  obtain p v where q: "q = (p, v)" by (cases q)
  have p: "p \<in> set params" "name_ok p" "p \<noteq> n" "\<not> sublist (close_tag p) v" using Cons.prems(2) names(1) q by auto
  let ?f = "message_char msg tools params"
  let ?m1 = "Suc (length pre + length (open_tag p))" and ?pre1 = "pre @ newline # open_tag p"
  let ?pre2 = "?pre1 @ v @ close_tag p" and ?rest = "concat (map param_text qs) @ post"
  let ?S1 = "S\<lparr>ms_param := Some p, ms_paramStart := ?m1\<rparr>"
  let ?S2 = "S\<lparr>ms_tool := Some (n, trimmed (ps @ [q])), ms_param := None, ms_paramStart := ?m1\<rparr>"
  have qt: "param_text q = newline # open_tag p @ v @ close_tag p" by (simp add: q param_text_def)
  have msg: "msg = pre @ newline # open_tag p @ v @ close_tag p @ ?rest" using Cons.prems(4) by (simp add: qt)
  have len: "length ?pre1 = ?m1" "length ?pre2 = ?m1 + length v + length (close_tag p)" by simp_all
  have ends: "length pre \<le> ?m1" "?m1 \<le> length ?pre2" "length ?pre2 \<le> b" using Cons.prems(7) by (simp_all add: qt)
  have 1: "fold ?f [length pre..<?m1] S = ?S1"
    by (rule read_open [OF Cons.prems(3) names(1) p(1) names(2) msg Cons.prems(5,6) refl])
  have fresh: "fresh ?pre1" "fresh ?pre2" using fresh_tag tags_ok p(2) append.assoc by (metis append_Cons append_Nil)+
  have "js_set (trimmed ps) p (js_trim v) = trimmed (ps @ [q])"
  proof (subst js_set_append)
    show "p \<notin> set (js_keys (trimmed ps))" unfolding keys_trimmed using Cons.prems(1) by (simp add: q)
  qed (simp add: q trimmed_def)
  then have 2: "fold ?f [?m1..<length ?pre2] ?S1 = ?S2"
    using read_value [OF fresh(1) names(1) p(2) names(2) p(3,4), of msg ?rest ?S1 "trimmed ps" "length ?pre2" tools]
      msg Cons.prems(5) len by simp
  have "\<exists>k. fold ?f [length ?pre2..<b] ?S2 = ?S2\<lparr>ms_tool := Some (n, trimmed ((ps @ [q]) @ qs)), ms_paramStart := k\<rparr>"
    by (rule Cons.IH) (use Cons.prems(1,2,7) msg fresh(2) in \<open>simp_all add: qt\<close>)
  then obtain k where 3: "fold ?f [length ?pre2..<b] ?S2 = ?S2\<lparr>ms_tool := Some (n, trimmed ((ps @ [q]) @ qs)), ms_paramStart := k\<rparr>" ..
  have "fold ?f [length pre..<b] S = fold ?f [length ?pre2..<b] (fold ?f [?m1..<length ?pre2] (fold ?f [length pre..<?m1] S))"
    by (rule fold_upt3 [OF ends])
  then show ?case unfolding 1 2 3 using Cons.prems(6) by (intro exI [of _ k]) simp
qed

text \<open>Prose and the call behind it.\<close>

lemma read_call:
  assumes names: "\<forall>m \<in> set tools. name_ok m" "\<forall>p \<in> set params. name_ok p"
    and "fresh pre" and "prose_ok tools t" and "call_ok tools params c" and "msg = pre @ t @ tool_text c @ post"
    and "ms_tool S = None" and "\<not> ms_inText S" and "b = length pre + length t + length (tool_text c)"
  shows "\<exists>k m. fold (message_char msg tools params) [length pre..<b] S =
    S\<lparr>ms_blocks := ms_blocks S @ prose_blocks t False @ [call_block c], ms_textStart := b, ms_inText := False, ms_toolStart := m,
      ms_tool := None, ms_param := None, ms_paramStart := k\<rparr>"
proof -
  obtain n ps where c: "c = (n, ps)" by (cases c)
  have n: "n \<in> set tools" "name_ok n" and ps: "distinct (map fst ([] @ ps))"
    "\<forall>(p, v) \<in> set ps. p \<in> set params \<and> p \<noteq> n \<and> \<not> sublist (close_tag p) v"
    using assms(5) names(1) by (auto simp: call_ok_def c)
  let ?f = "message_char msg tools params" and ?body = "concat (map param_text ps)"
  let ?pre1 = "pre @ t @ open_tag n" and ?pre2 = "(pre @ t @ open_tag n) @ ?body"
  have msg: "msg = pre @ t @ open_tag n @ ?body @ newline # close_tag n @ post" using assms(6) by (simp add: c tool_text_def tool_body_def)
  have b: "b = Suc (length ?pre2 + length (close_tag n))" using assms(9) by (simp add: c tool_text_def tool_body_def)
  let ?S1 = "S\<lparr>ms_blocks := ms_blocks S @ prose_blocks t False, ms_textStart := length pre, ms_inText := False,
    ms_toolStart := length ?pre1, ms_tool := Some (n, []), ms_param := None\<rparr>"
  have 1: "fold ?f [length pre..<length ?pre1] S = ?S1"
    using read_prose [OF assms(3) names(1) n(1) _ _ assms(7,8), of t msg "?body @ newline # close_tag n @ post" "length ?pre1" params]
      msg assms(4) by (simp add: prose_ok_def prose_blocks_def)
  have fresh1: "fresh ?pre1" using fresh_tag [of "open_tag n" "pre @ t"] tags_ok n(2) by simp
  have fresh2: "fresh ?pre2"
  proof (cases ps rule: rev_cases)
    case Nil
    then show ?thesis using fresh1 by simp
  next
    case (snoc qs q)
    have "name_ok (fst q)" using ps(2) names(2) snoc by auto
    then show ?thesis using fresh_tag [OF tags_ok(2), of "fst q" "?pre1 @ concat (map param_text qs) @ newline # open_tag (fst q) @ snd q"]
      by (simp add: snoc param_text_def)
  qed
  have "\<exists>k. fold ?f [length ?pre1..<length ?pre2] ?S1 = ?S1\<lparr>ms_tool := Some (n, trimmed ([] @ ps)), ms_paramStart := k\<rparr>"
    by (rule read_params [OF names(2) n(2) ps fresh1]) (simp_all add: msg trimmed_def)
  then obtain k where 2: "fold ?f [length ?pre1..<length ?pre2] ?S1 = ?S1\<lparr>ms_tool := Some (n, trimmed ps), ms_paramStart := k\<rparr>" by auto
  let ?S2 = "?S1\<lparr>ms_tool := Some (n, trimmed ps), ms_paramStart := k\<rparr>"
  have body: "take (Suc (length ?pre2) - length ?pre1) (drop (length ?pre1) msg) = tool_body ps"
    by (simp add: msg tool_body_def)
  have 3: "fold ?f [length ?pre2..<b] ?S2 =
      ?S2\<lparr>ms_blocks := ms_blocks ?S2 @ [call_block c], ms_tool := None, ms_param := None, ms_textStart := b\<rparr>"
    using read_close [OF fresh2 names(2) n(2) _ _ _ b, of msg post ?S2 "trimmed ps" tools] body
    by (simp add: msg c call_block_def)
  have "fold ?f [length pre..<b] S = fold ?f [length ?pre2..<b] (fold ?f [length ?pre1..<length ?pre2] (fold ?f [length pre..<length ?pre1] S))"
  proof -
    have "length pre \<le> length ?pre1" "length ?pre1 \<le> length ?pre2" "length ?pre2 \<le> b" using b by simp_all
    then show ?thesis by (rule fold_upt3)
  qed
  then show ?thesis unfolding 1 2 3 by (intro exI [of _ k] exI [of _ "length ?pre1"]) simp
qed

lemma read_calls:
  assumes names: "\<forall>m \<in> set tools. name_ok m" "\<forall>p \<in> set params. name_ok p"
  shows "\<forall>(t, c) \<in> set cs. prose_ok tools t \<and> call_ok tools params c \<Longrightarrow> fresh pre \<Longrightarrow>
    msg = pre @ message_text cs tail \<Longrightarrow> ms_tool S = None \<Longrightarrow> \<not> ms_inText S \<Longrightarrow> ms_textStart S = length pre \<Longrightarrow> prose_ok tools tail \<Longrightarrow>
    finish_message msg (fold (message_char msg tools params) [length pre..<length msg] S) = ms_blocks S @ message_blocks cs tail"
proof (induction cs arbitrary: pre S)
  case Nil
  then have msg: "msg = pre @ tail" by (simp add: message_text_def)
  show ?case
  proof (cases "tail = []")
    case True
    then show ?thesis using Nil.prems(4,5) msg by (simp add: finish_message_def message_blocks_def prose_blocks_def js_trim_def)
  next
    case False
    have "quiet msg (open_tag ` set tools) (length pre) (length msg)"
    proof -
      have "quiet (pre @ tail @ []) (open_tag ` set tools) (length pre) (length pre + length tail)"
      proof (rule quiet_part)
        fix k s
        assume k: "k < length tail" and s: "s \<in> open_tag ` set tools"
        show "\<not> suffix s (pre @ take (Suc k) tail)"
        proof
          assume "suffix s (pre @ take (Suc k) tail)"
          moreover have "take (Suc k) tail \<noteq> []" "tag_ok s" using k s names(1) tags_ok by auto
          ultimately have "suffix s (take (Suc k) tail)" using fresh_suffix [OF Nil.prems(2)] by metis
          then have "sublist s tail" by (metis append_take_drop_id sublist_append_rightI sublist_order.order_trans suffix_imp_sublist)
          then show False using Nil.prems(7) s by (auto simp: prose_ok_def)
        qed
      qed
      then show ?thesis by (simp add: msg)
    qed
    from quiet_text [OF Nil.prems(4) this, of params] show ?thesis
      using False Nil.prems(4,5) by (simp add: msg finish_message_def message_part_def message_blocks_def prose_blocks_def)
  qed
next
  case (Cons p cs)
  obtain t c where p: "p = (t, c)" by (cases p)
  let ?pre = "pre @ t @ tool_text c" and ?f = "message_char msg tools params"
  have ok: "prose_ok tools t" "call_ok tools params c" using Cons.prems(1) p by auto
  have msg: "msg = pre @ t @ tool_text c @ message_text cs tail" using Cons.prems(3) by (simp add: p message_text_def)
  obtain k m where step: "fold ?f [length pre..<length ?pre] S =
      S\<lparr>ms_blocks := ms_blocks S @ prose_blocks t False @ [call_block c], ms_textStart := length ?pre, ms_inText := False, ms_toolStart := m,
        ms_tool := None, ms_param := None, ms_paramStart := k\<rparr>"
    using read_call [OF names Cons.prems(2) ok msg Cons.prems(4,5), of "length ?pre"] by auto
  have fresh: "fresh ?pre"
    using fresh_tag [OF tags_ok(2), of "fst c" "pre @ t @ open_tag (fst c) @ tool_body (snd c)"] ok(2) names(1)
    by (simp add: tool_text_def call_ok_def)
  have "fold ?f [length pre..<length msg] S = fold ?f [length ?pre..<length msg] (fold ?f [length pre..<length ?pre] S)"
    by (rule fold_upt) (simp_all add: msg)
  moreover have "finish_message msg (fold ?f [length ?pre..<length msg]
        (S\<lparr>ms_blocks := ms_blocks S @ prose_blocks t False @ [call_block c], ms_textStart := length ?pre, ms_inText := False, ms_toolStart := m,
           ms_tool := None, ms_param := None, ms_paramStart := k\<rparr>)) =
      (ms_blocks S @ prose_blocks t False @ [call_block c]) @ message_blocks cs tail"
    by (subst Cons.IH) (use Cons.prems(1,7) fresh msg in simp_all)
  ultimately show ?case unfolding step by (simp add: p message_blocks_def)
qed

section \<open>The content of a file\<close>

text \<open>
  What \<open>file_content\<close> reads again from the body of a call is the value of its parameter, when the tags of the content are in no other value.
\<close>

lemma sublist_tag_append:
  assumes "tag_ok t" and "x \<noteq> [] \<and> last x = CHR ''>'' \<or> y \<noteq> [] \<and> hd y = CHR ''<''"
  shows "sublist t (x @ y) \<longleftrightarrow> sublist t x \<or> sublist t y"
proof -
  obtain u where t: "t = CHR ''<'' # u @ [CHR ''>'']" "CHR ''<'' \<notin> set u" "CHR ''>'' \<notin> set u" using assms(1) by (auto simp: tag_ok_def)
  have False if eq: "t = t1 @ t2" "t1 \<noteq> []" "t2 \<noteq> []" "suffix t1 x" "prefix t2 y" for t1 t2
  proof -
    have "hd t2 \<in> set (tl t)" using eq(1-3) by (cases t1) auto
    then have "hd t2 \<noteq> CHR ''<''" using t by auto
    moreover have "last t1 \<in> set (butlast t)" using eq(1-3) by (simp add: butlast_append)
    then have "last t1 \<noteq> CHR ''>''" using t by (auto simp: butlast_append split: if_splits)
    moreover have "last x = last t1" using eq(2,4) by (metis last_appendR suffix_def)
    moreover have "hd y = hd t2" using eq(3,5) by (auto simp: prefix_def)
    ultimately show False using assms(2) by auto
  qed
  then show ?thesis unfolding sublist_append by (metis append_Nil append_Nil2 prefix_imp_sublist suffix_imp_sublist)
qed

lemma sublist_tag_tag: "tag_ok t \<Longrightarrow> tag_ok s \<Longrightarrow> sublist t s \<Longrightarrow> t = s"
proof -
  assume t: "tag_ok t" and s: "tag_ok s" and "sublist t s"
  then obtain x y where xy: "s = x @ t @ y" by (auto simp: sublist_def)
  have "x = []"
  proof (cases x)
    case (Cons c z)
    then have "CHR ''<'' \<in> set (tl s)" using t xy by (auto simp: tag_ok_def)
    then show ?thesis using s by (auto simp: tag_ok_def)
  qed simp
  moreover have "y = []"
  proof (cases y rule: rev_cases)
    case (snoc z c)
    then have "CHR ''>'' \<in> set (butlast s)" using t xy by (auto simp: tag_ok_def butlast_append)
    then show ?thesis using s by (auto simp: tag_ok_def butlast_append)
  qed
  ultimately show ?thesis using xy by simp
qed

lemma sublist_param:
  assumes "tag_ok t" and "name_ok p" and "newline \<notin> set t"
  shows "sublist t (param_text (p, v) @ z) \<longleftrightarrow> t = open_tag p \<or> sublist t v \<or> t = close_tag p \<or> sublist t z"
proof -
  have ok: "tag_ok (open_tag p)" "tag_ok (close_tag p)" using tags_ok [OF assms(2)] by auto
  have ends: "hd (open_tag p @ w) = CHR ''<''" "hd (close_tag p @ w) = CHR ''<''" "last (open_tag p) = CHR ''>''" "last (close_tag p) = CHR ''>''" for w
    by (simp_all add: open_tag_def close_tag_def)
  have nl: "\<not> sublist t [newline]"
    using assms(1) by (auto simp: tag_ok_def sublist_def Cons_eq_append_conv append_eq_Cons_conv)
  have own: "sublist t (open_tag p) \<longleftrightarrow> t = open_tag p" "sublist t (close_tag p) \<longleftrightarrow> t = close_tag p"
    using sublist_tag_tag [OF assms(1)] ok by auto
  have "sublist t (param_text (p, v) @ z) \<longleftrightarrow> sublist t ([newline] @ open_tag p @ v @ close_tag p @ z)" by (simp add: param_text_def)
  also have "\<dots> \<longleftrightarrow> sublist t (open_tag p @ v @ close_tag p @ z)"
    using sublist_tag_append [OF assms(1), of "[newline]" "open_tag p @ v @ close_tag p @ z"] ends(1) nl by simp
  also have "\<dots> \<longleftrightarrow> sublist t (open_tag p) \<or> sublist t (v @ close_tag p @ z)"
    by (rule sublist_tag_append [OF assms(1)]) (simp add: ends)
  also have "sublist t (v @ close_tag p @ z) \<longleftrightarrow> sublist t v \<or> sublist t (close_tag p @ z)"
    by (rule sublist_tag_append [OF assms(1)]) (simp add: ends)
  also have "sublist t (close_tag p @ z) \<longleftrightarrow> sublist t (close_tag p) \<or> sublist t z"
    by (rule sublist_tag_append [OF assms(1)]) (simp add: ends)
  finally show ?thesis unfolding own by blast
qed

lemma sublist_params:
  assumes "tag_ok t" and "newline \<notin> set t" and "\<forall>(p, v) \<in> set ps. name_ok p \<and> t \<noteq> open_tag p \<and> t \<noteq> close_tag p \<and> \<not> sublist t v"
  shows "sublist t (concat (map param_text ps) @ z) \<longleftrightarrow> sublist t z"
  using assms(3)
proof (induction ps)
  case (Cons q ps)
  then show ?case using sublist_param [OF assms(1) _ assms(2), of "fst q" "snd q" "concat (map param_text ps) @ z"]
    by (cases q) auto
qed simp

text \<open>The first and the last place of a tag.\<close>

lemma find_at: "P i \<Longrightarrow> \<forall>j \<in> set js. \<not> P j \<Longrightarrow> find P (js @ i # ks) = Some i"
  by (induction js) auto

lemma tag_straddles:
  assumes "tag_ok t" and "prefix t (drop j x @ t @ y)" and "j < length x"
  shows "sublist t x"
proof (cases "length t \<le> length (drop j x)")
  case True
  then have "prefix t (drop j x)" using assms(2) by (metis append_prefixD prefix_length_prefix prefixI)
  then show ?thesis by (metis append_take_drop_id prefix_def sublist_def)
next
  case False
  obtain u where t: "t = CHR ''<'' # u" "CHR ''<'' \<notin> set u" using assms(1) by (auto simp: tag_ok_def)
  let ?k = "length (drop j x)"
  have k: "0 < ?k" "?k < length t" using False assms(3) by auto
  obtain z where "drop j x @ t @ y = t @ z" using assms(2) by (auto simp: prefix_def)
  then have "t ! ?k = (drop j x @ t @ y) ! ?k" using k(2) by (simp only: nth_append if_True)
  also have "\<dots> = CHR ''<''" using t(1) by (simp add: nth_append)
  finally have "u ! (?k - 1) = CHR ''<''" using t(1) k by (cases ?k) auto
  moreover have "?k - 1 < length u" using k t(1) by simp
  ultimately show ?thesis using t(2) nth_mem by metis
qed

lemma first_at:
  assumes "tag_ok t" and "\<not> sublist t x"
  shows "text_index (x @ t @ y) t = Some (length x)"
proof -
  have "[0..<Suc (length (x @ t @ y))] = [0..<length x] @ length x # [Suc (length x)..<Suc (length (x @ t @ y))]"
    using upt_add_eq_append [of 0 "length x" "Suc (length (t @ y))"] by (simp add: upt_conv_Cons del: upt_Suc)
  then show ?thesis unfolding text_index_def
    using tag_straddles [OF assms(1)] assms(2) by (auto intro!: find_at simp del: upt_Suc)
qed

lemma last_at:
  assumes "tag_ok t" and "\<not> sublist t y"
  shows "last_text_index (x @ t @ y) t = Some (length x)"
proof -
  have no: "\<not> prefix t (drop j (x @ t @ y))" if "length x < j" for j
  proof
    assume pre: "prefix t (drop j (x @ t @ y))"
    obtain u where t: "t = CHR ''<'' # u" "CHR ''<'' \<notin> set u" using assms(1) by (auto simp: tag_ok_def)
    show False
    proof (cases "j < length x + length t")
      case True
      then have "drop j (x @ t @ y) ! 0 = t ! (j - length x)" using that by (simp add: nth_append)
      moreover have "drop j (x @ t @ y) ! 0 = CHR ''<''" using pre t(1) by (auto simp: prefix_def)
      ultimately have "u ! (j - length x - 1) = CHR ''<''" using t(1) that by (cases "j - length x") auto
      moreover have "j - length x - 1 < length u" using True that t(1) by simp
      ultimately show False using t(2) nth_mem by metis
    next
      case False
      then have "drop j (x @ t @ y) = drop (j - length x - length t) y" by simp
      then show False using pre assms(2) by (metis append_take_drop_id prefix_def sublist_def)
    qed
  qed
  have "rev [0..<Suc (length (x @ t @ y))] = rev [Suc (length x)..<Suc (length (x @ t @ y))] @ length x # rev [0..<length x]"
    using upt_add_eq_append [of 0 "length x" "Suc (length (t @ y))"] by (simp add: upt_conv_Cons del: upt_Suc)
  then show ?thesis unfolding last_text_index_def using no by (auto intro!: find_at simp del: upt_Suc)
qed

definition file_ok :: "tool_call \<Rightarrow> bool" where
  "file_ok c \<longleftrightarrow> fst c = ''write_to_file'' \<longrightarrow>
     (\<forall>(p, v) \<in> set (snd c). p \<noteq> ''content'' \<longrightarrow> \<not> sublist (open_tag ''content'') v \<and> \<not> sublist (close_tag ''content'') v)"

lemma js_set_same: "js_get m k = Some v \<Longrightarrow> js_set m k v = m"
  by (induction m) (auto split: if_splits)

lemma file_content_same:
  assumes "\<forall>(p, v) \<in> set ps. name_ok p \<and> \<not> sublist (close_tag p) v" and "distinct (map fst ps)" and "file_ok (n, ps)"
  shows "file_content n (tool_body ps) (trimmed ps) = trimmed ps"
proof (cases "n = ''write_to_file''")
  case True
  let ?c = "''content''"
  have c: "name_ok ?c" "newline \<notin> set (open_tag ?c)" "newline \<notin> set (close_tag ?c)" by code_simp+
  note ok = tags_ok [OF c(1)]
  have other: "\<forall>(p, v) \<in> set qs. name_ok p \<and> t \<noteq> open_tag p \<and> t \<noteq> close_tag p \<and> \<not> sublist t v"
    if "set qs \<subseteq> set ps" "?c \<notin> fst ` set qs" "t = open_tag ?c \<or> t = close_tag ?c" for qs t
  proof safe
    fix p v assume pv: "(p, v) \<in> set qs"
    then have p: "p \<noteq> ?c" "(p, v) \<in> set ps" using that(1,2) by force+
    then show "name_ok p" using assms(1) by auto
    then show "t = open_tag p \<Longrightarrow> False" "t = close_tag p \<Longrightarrow> False"
      using that(3) p(1) names_inj open_not_close [OF c(1), of p] open_not_close [of p ?c] by metis+
    show "sublist t v \<Longrightarrow> False" using assms(3) p that(3) True by (auto simp: file_ok_def)
  qed
  have nl: "\<not> sublist t [newline]" if "tag_ok t" for t
    using that by (auto simp: tag_ok_def sublist_def Cons_eq_append_conv append_eq_Cons_conv)
  show ?thesis
  proof (cases "?c \<in> fst ` set ps")
    case False
    have "\<not> sublist (open_tag ?c) (tool_body ps)"
      using sublist_params [OF ok(1) c(2) other [OF subset_refl False]] nl [OF ok(1)] by (simp add: tool_body_def)
    then have "text_index (tool_body ps) (open_tag ?c) = None"
      unfolding text_index_def find_None_iff by (metis append_take_drop_id prefix_def sublist_def)
    then show ?thesis by (simp add: file_content_def)
  next
    case True
    then obtain v where "(?c, v) \<in> set ps" by force
    then obtain qs rs where ps: "ps = qs @ (?c, v) # rs" by (meson split_list)
    have sides: "?c \<notin> fst ` set qs" "?c \<notin> fst ` set rs" "set qs \<subseteq> set ps" "set rs \<subseteq> set ps" using assms(2) by (auto simp: ps)
    let ?x = "concat (map param_text qs) @ [newline]" and ?y = "concat (map param_text rs) @ [newline]"
    have body: "tool_body ps = ?x @ open_tag ?c @ v @ close_tag ?c @ ?y" by (simp add: ps tool_body_def param_text_def)
    have "\<not> sublist (open_tag ?c) ?x"
      using sublist_params [OF ok(1) c(2) other [OF sides(3,1)]] nl [OF ok(1)] by simp
    then have first: "text_index (tool_body ps) (open_tag ?c) = Some (length ?x)"
      unfolding body by (rule first_at [OF ok(1)])
    have "\<not> sublist (close_tag ?c) ?y"
      using sublist_params [OF ok(2) c(3) other [OF sides(4,2)]] nl [OF ok(2)] by simp
    then have last: "last_text_index (tool_body ps) (close_tag ?c) = Some (length (?x @ open_tag ?c @ v))"
      using last_at [OF ok(2), of ?y "?x @ open_tag ?c @ v"] by (simp add: body)
    have val: "js_get (trimmed ps) ?c = Some (js_trim v)" using sides(1) by (auto simp: ps trimmed_def map_of_append map_add_Some_iff map_of_eq_None_iff image_iff)
    show ?thesis using first last
      by (simp add: file_content_def Let_def body open_tag_def js_set_same [OF val])
  qed
qed (simp add: file_content_def)

definition call_blocks :: "(string \<times> tool_call) list \<Rightarrow> string \<Rightarrow> content_block list" where
  "call_blocks cs tail =
     concat (map (\<lambda>(t, c). prose_blocks t False @ [Tool_block (fst c) (map (\<lambda>(p, v). (p, js_trim v)) (snd c)) False]) cs) @ prose_blocks tail True"

text \<open>
  C26. A message rendered from prose and tool calls is parsed to the same prose and calls: texts and values trimmed, blank prose left out, the prose behind
  the last call marked as partial. Names of tools and parameters have no bracket or slash. Prose must not hold the opening tag of a tool; the parameters of a call are known names, each at most once and
  none the name of the tool, and a value does not hold its own closing tag. In a call of \<^verbatim>\<open>write_to_file\<close> the other values do not hold the tags of the content. Without these conditions other
  calls are read, see \<open>content_renames_file\<close>.
\<close>

theorem parse_rendered_message:
  assumes "\<forall>m \<in> set tools. name_ok m" and "\<forall>p \<in> set params. name_ok p"
    and "\<forall>(t, c) \<in> set cs. prose_ok tools t \<and> call_ok tools params c \<and> file_ok c" and "prose_ok tools tail"
  shows "parseAssistantMessageV2 tools params (message_text cs tail) = call_blocks cs tail"
proof -
  let ?S = "\<lparr>ms_blocks = [], ms_textStart = 0, ms_inText = False, ms_toolStart = 0, ms_tool = None, ms_paramStart = 0, ms_param = None\<rparr>"
  have ok: "\<forall>(t, c) \<in> set cs. prose_ok tools t \<and> call_ok tools params c" using assms(3) by auto
  have "fresh []" by (simp add: fresh_def)
  from read_calls [OF assms(1,2) ok this, of "message_text cs tail" tail ?S] assms(4)
  have "parseAssistantMessageV2 tools params (message_text cs tail) = message_blocks cs tail" by (simp add: parseAssistantMessageV2_def)
  also have "\<dots> = call_blocks cs tail"
  proof -
    have "call_block c = Tool_block (fst c) (trimmed (snd c)) False" if "(t, c) \<in> set cs" for t c
      using file_content_same [of "snd c" "fst c"] that assms(2,3) by (fastforce simp: call_block_def call_ok_def)
    then show ?thesis unfolding message_blocks_def call_blocks_def trimmed_def by (auto intro!: arg_cong [where f = concat])
  qed
  finally show ?thesis .
qed

text \<open>The names of the product.\<close>

lemma product_names: "\<forall>m \<in> set toolUseNames. name_ok m" "\<forall>p \<in> set toolParamNames. name_ok p"
  by code_simp+

definition reading :: "(string \<times> tool_call) list" where
  "reading = [(''Let me look.'', ''read_file'', [(''path'', ''src/a.ts''), (''task_progress'', ''- [ ] look'')]),
              ([], ''write_to_file'', [(''path'', ''b''), (''content'', ''<path>c</path>'')])]"

lemma parse_rendered_message_witness:
  "parseAssistantMessageV2 toolUseNames toolParamNames (message_text reading ''Done'') = call_blocks reading ''Done''"
  by (rule parse_rendered_message [OF product_names]) code_simp+

text \<open>
  A file whose text holds the closing tag of its own parameter is cut there for the moment; what follows is searched for parameters, so that a
  tag in the text of the file names the path the file is written to.
\<close>

lemma content_renames_file:
  "parseAssistantMessageV2 toolUseNames toolParamNames
     (tool_text (''write_to_file'', [(''path'', ''a''), (''content'', ''x</content><path>b</path>y'')])) =
   [Tool_block ''write_to_file'' [(''path'', ''b''), (''content'', ''x</content><path>b</path>y'')] False]"
  by code_simp

end
