(* ===== verification/Command_Permissions.thy ===== *)
theory Command_Permissions
  imports Lifecycle_Types Text_Lines
begin

text \<open>
  Which shell commands the agent may run, \<^verbatim>\<open>CommandPermissionController\<close> of
  \<^verbatim>\<open>src/core/permissions/CommandPermissionController.ts\<close>: characters that are refused outright, the commands between
  operators and in subshells, and the wildcard rules each of them is held against.

  The tokens of a command are those of the package \<^verbatim>\<open>shell-quote\<close>: its \<^verbatim>\<open>parse\<close> is an argument, \<open>None\<close> where it
  throws. Patterns of the configuration are strings; on others the code throws. The line separators above code unit 255 are
  left out.
\<close>

section \<open>Configuration\<close>

record permission_config =
  pm_allow :: "string list option"
  pm_deny :: "string list option"
  pm_allowRedirects :: "bool option"

definition string_elements :: "json option \<Rightarrow> string list option" where
  "string_elements v = (case v of Some (JArr xs) \<Rightarrow> Some (List.map_filter (\<lambda>x. case x of JStr s \<Rightarrow> Some s | _ \<Rightarrow> None) xs) | _ \<Rightarrow> None)"

text \<open>The first variable of the environment that is set and not empty; a text that is not JSON, or is null, configures nothing.\<close>

definition parseConfig :: "(string \<Rightarrow> json option) \<Rightarrow> string option \<Rightarrow> string option \<Rightarrow> permission_config option" where
  "parseConfig json_parse env1 env2 =
     (case (if env1 = None \<or> env1 = Some [] then env2 else env1) of
        None \<Rightarrow> None
      | Some text \<Rightarrow>
          if text = [] then None
          else (case json_parse text of
                  None \<Rightarrow> None
                | Some JNull \<Rightarrow> None
                | Some (JObj m) \<Rightarrow>
                    Some \<lparr>pm_allow = string_elements (js_get m ''allow''), pm_deny = string_elements (js_get m ''deny''),
                      pm_allowRedirects = (case js_get m ''allowRedirects'' of Some (JBool b) \<Rightarrow> Some b | _ \<Rightarrow> None)\<rparr>
                | _ \<Rightarrow> Some \<lparr>pm_allow = None, pm_deny = None, pm_allowRedirects = None\<rparr>))"

section \<open>Results\<close>

datatype permission_reason =
  No_config | Allowed_by_rules | Denied | No_match_deny_default | Shell_operator_detected | Redirect_detected | Segment_denied | Segment_no_match

record permission_result =
  pr_allowed :: bool
  pr_matchedPattern :: "string option"
  pr_reason :: permission_reason
  pr_detectedOperator :: "string option"
  pr_failedSegment :: "string option"

definition verdict :: "bool \<Rightarrow> permission_reason \<Rightarrow> permission_result" where
  "verdict b r = \<lparr>pr_allowed = b, pr_matchedPattern = None, pr_reason = r, pr_detectedOperator = None, pr_failedSegment = None\<rparr>"

section \<open>Dangerous characters\<close>

definition line_separator :: "char \<Rightarrow> string option" where
  "line_separator c =
     (if c = CHR 0x0A then Some [CHR 0x5C, CHR ''n''] else if c = CHR 0x0D then Some [CHR 0x5C, CHR ''r'']
      else if c = CHR 0x85 then Some ''U+0085'' else None)"

fun dangerous_chars :: "bool \<Rightarrow> bool \<Rightarrow> bool \<Rightarrow> string \<Rightarrow> string option" where
  "dangerous_chars single double escaped [] = None"
| "dangerous_chars single double escaped (c # cs) =
     (if escaped then dangerous_chars single double False cs
      else if c = CHR 0x5C \<and> \<not> single then dangerous_chars single double True cs
      else if c = CHR 0x22 \<and> \<not> single then dangerous_chars single (\<not> double) False cs
      else if c = CHR 0x27 \<and> \<not> double then dangerous_chars (\<not> single) double False cs
      else if \<not> (single \<or> double) \<and> line_separator c \<noteq> None then line_separator c
      else if c = CHR 0x60 \<and> \<not> single then Some [CHR 0x60]
      else dangerous_chars single double False cs)"

definition detectDangerousCharsOutsideQuotes :: "string \<Rightarrow> string option" where
  "detectDangerousCharsOutsideQuotes = dangerous_chars False False False"

section \<open>Commands between operators\<close>

datatype shell_token = T_text string | T_op string | T_glob string | T_comment string

definition REDIRECT_OPERATORS :: "string list" where
  "REDIRECT_OPERATORS = [''>'', ''>>'', ''<'', ''>&'', ''<&'', ''|&'', ''<('', ''>('']"

definition COMMAND_SEPARATOR_OPERATORS :: "string list" where
  "COMMAND_SEPARATOR_OPERATORS = [''&&'', ''||'', ''|'', '';'']"

datatype parsed_command = Parsed (segments: "string list") (subshells: "parsed_command list") (hasRedirects: bool)

text \<open>The tokens up to the parenthesis that closes, and those behind it.\<close>

fun subshell_tokens :: "nat \<Rightarrow> shell_token list \<Rightarrow> shell_token list \<times> shell_token list" where
  "subshell_tokens balance [] = ([], [])"
| "subshell_tokens balance (t # ts) =
     (let balance' = (if t = T_op ''('' then Suc balance else if t = T_op '')'' then balance - 1 else balance) in
      if balance' = 0 then ([], ts) else (let (sub, rest) = subshell_tokens balance' ts in (t # sub, rest)))"

lemma subshell_tokens_length:
  "length (fst (subshell_tokens n ts)) \<le> length ts \<and> length (snd (subshell_tokens n ts)) \<le> length ts"
  by (induction ts arbitrary: n) (auto simp: Let_def split: prod.split, (metis fst_conv le_SucI snd_conv)+)

fun join_words :: "string list \<Rightarrow> string" where
  "join_words [] = []"
| "join_words [w] = w"
| "join_words (w # ws) = w @ CHR 0x20 # join_words ws"

definition flushSegment :: "string list \<Rightarrow> string list" where
  "flushSegment parts = (if parts = [] then [] else [join_words parts])"

definition prepend_segments :: "string list \<Rightarrow> parsed_command \<Rightarrow> parsed_command" where
  "prepend_segments xs p = Parsed (xs @ segments p) (subshells p) (hasRedirects p)"

function process :: "shell_token list \<Rightarrow> string list \<Rightarrow> parsed_command" where
  "process [] parts = Parsed (flushSegment parts) [] False"
| "process (t # ts) parts =
     (if t = T_op ''(''
      then (let (sub, rest) = subshell_tokens 1 ts; p = process rest [] in
            Parsed (flushSegment parts @ segments p) (process sub [] # subshells p) (hasRedirects p))
      else
        (case t of
           T_op op \<Rightarrow>
             if op \<in> set COMMAND_SEPARATOR_OPERATORS then prepend_segments (flushSegment parts) (process ts [])
             else if op \<in> set REDIRECT_OPERATORS then (let p = process ts parts in Parsed (segments p) (subshells p) True)
             else process ts parts
         | T_text w \<Rightarrow> process ts (parts @ [w])
         | T_glob w \<Rightarrow> process ts (parts @ [w])
         | T_comment w \<Rightarrow> process ts parts))"
  by pat_completeness auto
termination
  by (relation "measure (length \<circ> fst)") (auto simp: less_Suc_eq_le, (metis fst_conv snd_conv subshell_tokens_length)+)

definition parseCommandSegments :: "(string \<Rightarrow> shell_token list option) \<Rightarrow> string \<Rightarrow> parsed_command" where
  "parseCommandSegments parse input = (case parse input of None \<Rightarrow> Parsed [] [] False | Some tokens \<Rightarrow> process tokens [])"

section \<open>Rules\<close>

text \<open>The regular expression of a pattern: a star is any text, a question mark any character, the rest stands for itself.\<close>

fun matchesPattern :: "string \<Rightarrow> string \<Rightarrow> bool" where
  "matchesPattern s [] \<longleftrightarrow> s = []"
| "matchesPattern [] (p # ps) \<longleftrightarrow> p = CHR ''*'' \<and> matchesPattern [] ps"
| "matchesPattern (c # cs) (p # ps) \<longleftrightarrow>
     (if p = CHR ''*'' then matchesPattern (c # cs) ps \<or> matchesPattern cs (p # ps)
      else (p = CHR ''?'' \<or> p = c) \<and> matchesPattern cs ps)"

definition patterns :: "string list option \<Rightarrow> string list" where
  "patterns ps = (case ps of None \<Rightarrow> [] | Some xs \<Rightarrow> xs)"

definition validateSingleCommand :: "permission_config \<Rightarrow> string \<Rightarrow> permission_result" where
  "validateSingleCommand cfg command =
     (case find (matchesPattern command) (patterns (pm_deny cfg)) of
        Some p \<Rightarrow> (verdict False Denied)\<lparr>pr_matchedPattern := Some p\<rparr>
      | None \<Rightarrow>
          if patterns (pm_allow cfg) \<noteq> []
          then (case find (matchesPattern command) (patterns (pm_allow cfg)) of
                  Some p \<Rightarrow> (verdict True Allowed_by_rules)\<lparr>pr_matchedPattern := Some p\<rparr>
                | None \<Rightarrow> verdict False No_match_deny_default)
          else verdict True No_config)"

definition segment_reason :: "permission_reason \<Rightarrow> permission_reason" where
  "segment_reason r = (case r of Denied \<Rightarrow> Segment_denied | No_match_deny_default \<Rightarrow> Segment_no_match | _ \<Rightarrow> r)"

definition segment_failure :: "bool \<Rightarrow> string \<Rightarrow> permission_result \<Rightarrow> permission_result" where
  "segment_failure multi segment r = (if multi then r\<lparr>pr_failedSegment := Some segment, pr_reason := segment_reason (pr_reason r)\<rparr> else r)"

fun validateParsedCommand :: "permission_config \<Rightarrow> parsed_command \<Rightarrow> permission_result" where
  "validateParsedCommand cfg (Parsed segs subs redirects) =
     (if redirects \<and> pm_allowRedirects cfg \<noteq> Some True then verdict False Redirect_detected
      else (case find (\<lambda>s. \<not> pr_allowed (validateSingleCommand cfg s)) segs of
              Some s \<Rightarrow> segment_failure (1 < length segs \<or> subs \<noteq> []) s (validateSingleCommand cfg s)
            | None \<Rightarrow>
                (case find (\<lambda>r. \<not> pr_allowed r) (map (validateParsedCommand cfg) subs) of
                   Some r \<Rightarrow> r
                 | None \<Rightarrow> verdict True Allowed_by_rules)))"

definition validateCommand :: "(string \<Rightarrow> shell_token list option) \<Rightarrow> permission_config option \<Rightarrow> string \<Rightarrow> permission_result" where
  "validateCommand parse config command =
     (case config of
        None \<Rightarrow> verdict True No_config
      | Some cfg \<Rightarrow>
          (case detectDangerousCharsOutsideQuotes command of
             Some op \<Rightarrow> (verdict False Shell_operator_detected)\<lparr>pr_detectedOperator := Some op\<rparr>
           | None \<Rightarrow> validateParsedCommand cfg (parseCommandSegments parse command)))"

end
