(* ===== verification/Permission_Rules.thy ===== *)
theory Permission_Rules
  imports Command_Permissions
begin

text \<open>
  A command is permitted exactly when every piece of it between operators and parentheses is, at every depth. This holds for
  commands the tokeniser reads and whose operators the controller knows; the last section shows the others.
\<close>

section \<open>The texts a pattern stands for\<close>

fun pattern_texts :: "string \<Rightarrow> string set" where
  "pattern_texts [] = {[]}"
| "pattern_texts (p # ps) =
     (if p = CHR ''*'' then {u @ v | u v. v \<in> pattern_texts ps}
      else if p = CHR ''?'' then {c # v | c v. v \<in> pattern_texts ps}
      else {p # v | v. v \<in> pattern_texts ps})"

lemma star_texts: "(\<exists>u v. c # cs = u @ v \<and> v \<in> T) \<longleftrightarrow> c # cs \<in> T \<or> (\<exists>u v. cs = u @ v \<and> v \<in> T)"
  by (metis append_Cons append_Nil append_eq_Cons_conv)

lemma matches_texts: "matchesPattern s p \<longleftrightarrow> s \<in> pattern_texts p"
  by (induction s p rule: matchesPattern.induct) (auto simp: star_texts)

definition permitted :: "permission_config \<Rightarrow> string \<Rightarrow> bool" where
  "permitted cfg s \<longleftrightarrow> (\<forall>p \<in> set (patterns (pm_deny cfg)). s \<notin> pattern_texts p) \<and>
     (patterns (pm_allow cfg) = [] \<or> (\<exists>p \<in> set (patterns (pm_allow cfg)). s \<in> pattern_texts p))"

lemma single_permitted: "pr_allowed (validateSingleCommand cfg s) \<longleftrightarrow> permitted cfg s"
  by (auto simp: validateSingleCommand_def permitted_def verdict_def matches_texts find_None_iff find_Some_iff split: option.split)

section \<open>Commands at every depth\<close>

fun all_segments :: "parsed_command \<Rightarrow> string set" where
  "all_segments (Parsed segs subs r) = set segs \<union> (\<Union>p \<in> set subs. all_segments p)"

fun any_redirect :: "parsed_command \<Rightarrow> bool" where
  "any_redirect (Parsed segs subs r) \<longleftrightarrow> r \<or> (\<exists>p \<in> set subs. any_redirect p)"

lemma validated_all:
  "pr_allowed (validateParsedCommand cfg p) \<longleftrightarrow>
   (\<forall>s \<in> all_segments p. permitted cfg s) \<and> (any_redirect p \<longrightarrow> pm_allowRedirects cfg = Some True)"
proof (induction p)
  case (Parsed segs subs r)
  have failed: "\<not> pr_allowed (segment_failure m s (validateSingleCommand cfg s))" if "\<not> permitted cfg s" for m s
    using that single_permitted by (simp add: segment_failure_def)
  show ?case
  proof (cases "find (\<lambda>s. \<not> pr_allowed (validateSingleCommand cfg s)) segs")
    case (Some s)
    then have "s \<in> set segs" "\<not> permitted cfg s" by (auto simp: find_Some_iff single_permitted)
    then show ?thesis using Some failed by (auto simp: verdict_def)
  next
    case None
    then have segs: "\<forall>s \<in> set segs. permitted cfg s" by (simp add: find_None_iff single_permitted)
    show ?thesis
    proof (cases "find (\<lambda>r. \<not> pr_allowed r) (map (validateParsedCommand cfg) subs)")
      case (Some q)
      then have "\<not> pr_allowed q" "q \<in> validateParsedCommand cfg ` set subs" by (auto simp: find_Some_iff) 
      then show ?thesis using Some None Parsed.IH by (auto simp: verdict_def)
    next
      case none: None
      then have "\<forall>p \<in> set subs. pr_allowed (validateParsedCommand cfg p)" by (auto simp: find_None_iff)
      then show ?thesis using none None segs Parsed.IH by (auto simp: verdict_def)
    qed
  qed
qed

section \<open>Pieces of a command\<close>

fun balanced :: "nat \<Rightarrow> shell_token list \<Rightarrow> bool" where
  "balanced n [] \<longleftrightarrow> n = 0"
| "balanced n (t # ts) \<longleftrightarrow>
     (if t = T_op ''('' then balanced (Suc n) ts else if t = T_op '')'' then 0 < n \<and> balanced (n - 1) ts else balanced n ts)"

definition known_operators :: "shell_token list \<Rightarrow> bool" where
  "known_operators ts \<longleftrightarrow> (\<forall>op. T_op op \<in> set ts \<longrightarrow> op \<in> set ([''('', '')''] @ COMMAND_SEPARATOR_OPERATORS @ REDIRECT_OPERATORS))"

text \<open>The words between two operators that are not redirections.\<close>

fun pieces :: "string list \<Rightarrow> shell_token list \<Rightarrow> string list" where
  "pieces parts [] = flushSegment parts"
| "pieces parts (t # ts) =
     (case t of
        T_op op \<Rightarrow> if op \<in> set REDIRECT_OPERATORS then pieces parts ts else flushSegment parts @ pieces [] ts
      | T_text w \<Rightarrow> pieces (parts @ [w]) ts
      | T_glob w \<Rightarrow> pieces (parts @ [w]) ts
      | T_comment w \<Rightarrow> pieces parts ts)"

definition redirects :: "shell_token list \<Rightarrow> bool" where
  "redirects ts \<longleftrightarrow> (\<exists>op \<in> set REDIRECT_OPERATORS. T_op op \<in> set ts)"

lemma pieces_close: "pieces parts (ts @ T_op '')'' # rest) = pieces parts ts @ pieces [] rest"
  by (induction ts arbitrary: parts) (auto simp: REDIRECT_OPERATORS_def split: shell_token.split)

lemma subshell_splits:
  "balanced (Suc n) ts \<Longrightarrow> subshell_tokens (Suc n) ts = (sub, rest) \<Longrightarrow> ts = sub @ T_op '')'' # rest \<and> balanced n sub \<and> balanced 0 rest"
proof (induction ts arbitrary: n sub)
  case (Cons t ts)
  show ?case
  proof (cases "t = T_op '')'' \<and> n = 0")
    case True
    then show ?thesis using Cons.prems by simp
  next
    case False
    define m where "m = (if t = T_op ''('' then Suc n else if t = T_op '')'' then n - 1 else n)"
    obtain sub' where sub: "subshell_tokens (Suc m) ts = (sub', rest)" "sub = t # sub'" and "balanced (Suc m) ts"
      using Cons.prems False by (auto simp: m_def Let_def split: if_splits prod.splits)
    then show ?thesis using Cons.IH [of m sub'] False by (auto simp: m_def split: if_splits)
  qed
qed simp

lemma known_sub: "known_operators (a @ t # b) \<Longrightarrow> known_operators a \<and> known_operators b"
  by (auto simp: known_operators_def)

lemma process_pieces:
  "balanced 0 ts \<Longrightarrow> known_operators ts \<Longrightarrow>
   all_segments (process ts parts) = set (pieces parts ts) \<and> (any_redirect (process ts parts) \<longleftrightarrow> redirects ts)"
proof (induction ts parts rule: process.induct)
  case (1 parts)
  then show ?case by (simp add: redirects_def)
next
  case (2 t ts parts)
  show ?case
  proof (cases "t = T_op ''(''")
    case True
    obtain sub rest where sub: "subshell_tokens 1 ts = (sub, rest)" by (cases "subshell_tokens 1 ts")
    have split: "ts = sub @ T_op '')'' # rest" "balanced 0 sub" "balanced 0 rest"
      using subshell_splits [of 0 ts sub rest] "2.prems"(1) True sub by auto
    have known: "known_operators sub" "known_operators rest" using "2.prems"(2) known_sub [of "t # sub" _ rest] by (auto simp: split(1) known_operators_def)
    have rest: "all_segments (process rest []) = set (pieces [] rest) \<and> (any_redirect (process rest []) \<longleftrightarrow> redirects rest)"
      by (rule 2(1) [OF True sub [symmetric] refl split(3) known(2)])
    have inner: "all_segments (process sub []) = set (pieces [] sub) \<and> (any_redirect (process sub []) \<longleftrightarrow> redirects sub)"
      by (rule 2(2) [OF True sub [symmetric] refl _ split(2) known(1)]) simp
    have "process (t # ts) parts = Parsed (flushSegment parts @ segments (process rest [])) (process sub [] # subshells (process rest [])) (hasRedirects (process rest []))"
      using True sub by (simp add: Let_def)
    moreover have "all_segments (process rest []) = set (segments (process rest [])) \<union> (\<Union>p \<in> set (subshells (process rest [])). all_segments p)"
      "any_redirect (process rest []) \<longleftrightarrow> hasRedirects (process rest []) \<or> (\<exists>p \<in> set (subshells (process rest [])). any_redirect p)"
      by (cases "process rest []"; simp)+
    ultimately show ?thesis using rest inner True split(1)
      by (auto simp: pieces_close redirects_def REDIRECT_OPERATORS_def)
  next
    case False
    have known: "known_operators ts" using known_sub [of "[]" t ts] "2.prems"(2) by simp
    have bal: "balanced 0 ts" and close: "t \<noteq> T_op '')''" using "2.prems"(1) False by (simp_all split: if_splits)
    show ?thesis
    proof (cases t)
      case (T_op op)
      consider (sep) "op \<in> set COMMAND_SEPARATOR_OPERATORS" | (red) "op \<in> set REDIRECT_OPERATORS" "op \<notin> set COMMAND_SEPARATOR_OPERATORS"
        using "2.prems"(2) False close T_op unfolding known_operators_def by force
      then show ?thesis
      proof cases
        case sep
        then have "op \<notin> set REDIRECT_OPERATORS" by (auto simp: COMMAND_SEPARATOR_OPERATORS_def REDIRECT_OPERATORS_def)
        moreover have "all_segments (process ts []) = set (pieces [] ts) \<and> (any_redirect (process ts []) \<longleftrightarrow> redirects ts)"
          by (rule 2(4) [OF False T_op sep bal known])
        ultimately show ?thesis using sep False T_op by (cases "process ts []") (auto simp: prepend_segments_def redirects_def)
      next
        case red
        have "all_segments (process ts parts) = set (pieces parts ts) \<and> (any_redirect (process ts parts) \<longleftrightarrow> redirects ts)"
          by (rule 2(5) [OF False T_op red(2,1) bal known])
        then show ?thesis using red False T_op by (cases "process ts parts") (auto simp: redirects_def)
      qed
    next
      case (T_text w)
      then show ?thesis using 2(3) [OF False T_text bal known] by (simp add: redirects_def)
    next
      case (T_glob w)
      then show ?thesis using 2(7) [OF False T_glob bal known] by (simp add: redirects_def)
    next
      case (T_comment w)
      then show ?thesis using 2(8) [OF False T_comment bal known] by (simp add: redirects_def)
    qed
  qed
qed

section \<open>Permission\<close>

text \<open>
  C12. A command whose tokens are balanced and whose operators are known is permitted exactly when it has no dangerous character outside
  of quotes, redirections are allowed or it has none, and each piece between operators and parentheses, at every depth, is the text of no pattern
  of the rules that deny, and of one of those that allow when there are any.
\<close>

theorem permitted_iff_pieces_permitted:
  assumes "parse command = Some tokens" and "balanced 0 tokens" and "known_operators tokens"
  shows "pr_allowed (validateCommand parse (Some cfg) command) \<longleftrightarrow>
    detectDangerousCharsOutsideQuotes command = None \<and> (redirects tokens \<longrightarrow> pm_allowRedirects cfg = Some True) \<and>
    (\<forall>s \<in> set (pieces [] tokens). permitted cfg s)"
  using process_pieces [OF assms(2,3), of "[]"]
  by (auto simp: validateCommand_def parseCommandSegments_def assms(1) validated_all verdict_def split: option.split)

definition git_rules :: permission_config where
  "git_rules = \<lparr>pm_allow = Some [''git *'', ''npm test'', ''echo *''], pm_deny = Some [''* --force*''], pm_allowRedirects = None\<rparr>"

definition tokens_of :: "(string \<times> shell_token list) list \<Rightarrow> string \<Rightarrow> shell_token list option" where
  "tokens_of m = map_of m"

definition pull_and_test :: "string \<times> shell_token list" where
  "pull_and_test = (''git pull && (echo $(npm test) ; git push --force)'',
     [T_text ''git'', T_text ''pull'', T_op ''&&'', T_op ''('', T_text ''echo'', T_text ''$'', T_op ''('', T_text ''npm'', T_text ''test'', T_op '')'',
      T_op '';'', T_text ''git'', T_text ''push'', T_text ''--force'', T_op '')''])"

lemma permitted_iff_pieces_permitted_witness:
  "\<not> pr_allowed (validateCommand (tokens_of [pull_and_test]) (Some git_rules) (fst pull_and_test))"
proof -
  have "tokens_of [pull_and_test] (fst pull_and_test) = Some (snd pull_and_test)" "balanced 0 (snd pull_and_test)"
    by (simp_all add: tokens_of_def pull_and_test_def)
  moreover have "known_operators (snd pull_and_test)"
    by (auto simp: known_operators_def pull_and_test_def COMMAND_SEPARATOR_OPERATORS_def)
  moreover have "''git push --force'' \<in> set (pieces [] (snd pull_and_test))" by code_simp
  moreover have "\<not> permitted git_rules ''git push --force''" unfolding single_permitted [symmetric] by code_simp
  ultimately show ?thesis using permitted_iff_pieces_permitted [of "tokens_of [pull_and_test]"] by metis
qed

section \<open>Commands that slip through\<close>

text \<open>
  A command that the tokeniser cannot read has no pieces, and whatever the rules it is permitted; the comment in the code wants it refused.
\<close>

theorem unreadable_command_permitted:
  "parse command = None \<Longrightarrow> detectDangerousCharsOutsideQuotes command = None \<Longrightarrow>
   validateCommand parse (Some cfg) command = verdict True Allowed_by_rules"
  by (simp add: validateCommand_def parseCommandSegments_def)

lemma unreadable_command_permitted_witness:
  "validateCommand (\<lambda>s. None) (Some \<lparr>pm_allow = Some [''git *''], pm_deny = Some [''rm *''], pm_allowRedirects = None\<rparr>) ''rm -rf / ; echo ${'' =
   verdict True Allowed_by_rules"
  by (rule unreadable_command_permitted) code_simp+

text \<open>An operator that is neither a separator nor a redirection, such as the one that starts a command in the background, joins the commands around it.\<close>

lemma background_command:
  "validateCommand (\<lambda>s. Some [T_text ''git'', T_text ''status'', T_op ''&'', T_text ''rm'', T_text ''-rf'', T_text ''/''])
     (Some git_rules) ''git status & rm -rf /'' =
   verdict True Allowed_by_rules"
  by code_simp

end
