(* ===== verification/Context_Types.thy ===== *)
theory Context_Types
  imports Prelude
begin

text \<open>
  The conversation with the model: messages with blocks (the types of \<^verbatim>\<open>@anthropic-ai/sdk\<close>, as far as
  \<^verbatim>\<open>src/core/context/context-management/ContextManager.ts\<close> looks at them), and the identifiers of messages and blocks,
  \<^verbatim>\<open>src/shared/messages/context-identifiers.ts\<close>. The input of a tool is the text of its JSON. Random UUIDs are a stream, the
  argument \<open>uuid\<close>, with the position the next one is drawn from.
\<close>

section \<open>Messages\<close>

datatype chat_role = Role_user | Role_assistant

datatype content_piece = Piece_text string | Piece_other string

datatype result_content = Result_string string | Result_pieces "content_piece list" | Result_absent

datatype block_body =
    B_text string
  | B_tool_use string string string
  | B_tool_result string result_content
  | B_image string
  | B_other string

record chat_block =
  cb_contextId :: "string option"
  cb_body :: block_body

datatype message_content = Content_string string | Content_blocks "chat_block list"

record api_message =
  am_contextId :: "string option"
  am_role :: chat_role
  am_content :: message_content

text \<open>An element of an array, \<^verbatim>\<open>undefined\<close> out of its bounds.\<close>

definition item_at :: "'a list \<Rightarrow> nat \<Rightarrow> 'a option" where
  "item_at xs i = (if i < length xs then Some (xs ! i) else None)"

section \<open>The text of a block\<close>

fun first_piece :: "content_piece list \<Rightarrow> string option" where
  "first_piece [] = None"
| "first_piece (Piece_text t # ps) = Some t"
| "first_piece (Piece_other d # ps) = first_piece ps"

fun getTextFromBlock :: "chat_block \<Rightarrow> string option" where
  "getTextFromBlock b =
     (case cb_body b of
        B_text t \<Rightarrow> Some t
      | B_tool_result i (Result_string t) \<Rightarrow> Some t
      | B_tool_result i (Result_pieces ps) \<Rightarrow> first_piece ps
      | _ \<Rightarrow> None)"

fun set_piece :: "string \<Rightarrow> content_piece list \<Rightarrow> content_piece list" where
  "set_piece t [] = []"
| "set_piece t (Piece_text u # ps) = Piece_text t # ps"
| "set_piece t (Piece_other d # ps) = Piece_other d # set_piece t ps"

text \<open>The second component is what the code returns: whether there was a text to set.\<close>

fun setTextInBlock :: "chat_block \<Rightarrow> string \<Rightarrow> chat_block \<times> bool" where
  "setTextInBlock b t =
     (case cb_body b of
        B_text u \<Rightarrow> (b\<lparr>cb_body := B_text t\<rparr>, True)
      | B_tool_result i (Result_string u) \<Rightarrow> (b\<lparr>cb_body := B_tool_result i (Result_string t)\<rparr>, True)
      | B_tool_result i (Result_pieces ps) \<Rightarrow>
          if first_piece ps = None then (b, False) else (b\<lparr>cb_body := B_tool_result i (Result_pieces (set_piece t ps))\<rparr>, True)
      | _ \<Rightarrow> (b, False))"

declare getTextFromBlock.simps [simp del] setTextInBlock.simps [simp del]

lemma first_piece_set: "first_piece ps \<noteq> None \<Longrightarrow> first_piece (set_piece t ps) = Some t"
  by (induction ps rule: first_piece.induct) auto

lemma get_set_text: "getTextFromBlock b \<noteq> None \<Longrightarrow> getTextFromBlock (fst (setTextInBlock b t)) = Some t"
  by (auto simp: getTextFromBlock.simps setTextInBlock.simps first_piece_set split: block_body.splits result_content.splits)

lemma set_text_absent: "getTextFromBlock b = None \<Longrightarrow> fst (setTextInBlock b t) = b"
  by (auto simp: getTextFromBlock.simps setTextInBlock.simps split: block_body.splits result_content.splits)

lemma set_text_id: "cb_contextId (fst (setTextInBlock b t)) = cb_contextId b"
  by (auto simp: setTextInBlock.simps split: block_body.splits result_content.splits)

section \<open>Identifiers\<close>

definition CONTEXT_MESSAGE_ID_PREFIX :: string where
  "CONTEXT_MESSAGE_ID_PREFIX = ''ctx_msg_''"

definition CONTEXT_BLOCK_ID_PREFIX :: string where
  "CONTEXT_BLOCK_ID_PREFIX = ''ctx_blk_''"

definition is_hex :: "char \<Rightarrow> bool" where
  "is_hex c \<longleftrightarrow> c \<in> set ''0123456789abcdefABCDEF''"

definition UUID_PATTERN :: "string \<Rightarrow> bool" where
  "UUID_PATTERN s \<longleftrightarrow> length s = 36 \<and>
     (\<forall>i \<in> set [0..<36]. if i \<in> {8, 13, 18, 23} then s ! i = CHR ''-'' else is_hex (s ! i)) \<and>
     s ! 14 \<in> set ''12345678'' \<and> s ! 19 \<in> set ''89abAB''"

definition isContextIdentifier :: "string option \<Rightarrow> string \<Rightarrow> bool" where
  "isContextIdentifier v p =
     (case v of None \<Rightarrow> False | Some s \<Rightarrow> take (length p) s = p \<and> UUID_PATTERN (drop (length p) s))"

definition isContextMessageId :: "string option \<Rightarrow> bool" where
  "isContextMessageId v = isContextIdentifier v CONTEXT_MESSAGE_ID_PREFIX"

definition isContextBlockId :: "string option \<Rightarrow> bool" where
  "isContextBlockId v = isContextIdentifier v CONTEXT_BLOCK_ID_PREFIX"

definition createContextMessageId :: "(nat \<Rightarrow> string) \<Rightarrow> nat \<Rightarrow> string" where
  "createContextMessageId uuid n = CONTEXT_MESSAGE_ID_PREFIX @ uuid n"

definition createContextBlockId :: "(nat \<Rightarrow> string) \<Rightarrow> nat \<Rightarrow> string" where
  "createContextBlockId uuid n = CONTEXT_BLOCK_ID_PREFIX @ uuid n"

definition getMessageContextId :: "api_message \<Rightarrow> string option" where
  "getMessageContextId m = (if isContextMessageId (am_contextId m) then am_contextId m else None)"

definition getBlockContextId :: "chat_block \<Rightarrow> string option" where
  "getBlockContextId b = (if isContextBlockId (cb_contextId b) then cb_contextId b else None)"

text \<open>
  One identifier: kept when it is valid and new, drawn otherwise. The identifiers seen so far are threaded through blocks and messages;
  something changed when an identifier was drawn.
\<close>

definition identify :: "(string option \<Rightarrow> bool) \<Rightarrow> (nat \<Rightarrow> string) \<Rightarrow> string list \<Rightarrow> nat \<Rightarrow> string option \<Rightarrow> string \<times> nat" where
  "identify valid create seen n v =
     (case v of Some s \<Rightarrow> if valid v \<and> s \<notin> set seen then (s, n) else (create n, Suc n) | None \<Rightarrow> (create n, Suc n))"

fun identify_blocks :: "(nat \<Rightarrow> string) \<Rightarrow> string list \<Rightarrow> nat \<Rightarrow> chat_block list \<Rightarrow> chat_block list \<times> string list \<times> nat" where
  "identify_blocks uuid seen n [] = ([], seen, n)"
| "identify_blocks uuid seen n (b # bs) =
     (let (i, n1) = identify isContextBlockId (createContextBlockId uuid) seen n (cb_contextId b);
          (bs', seen', n') = identify_blocks uuid (i # seen) n1 bs
      in (b\<lparr>cb_contextId := Some i\<rparr> # bs', seen', n'))"

fun identify_messages :: "(nat \<Rightarrow> string) \<Rightarrow> string list \<Rightarrow> string list \<Rightarrow> nat \<Rightarrow> api_message list \<Rightarrow> api_message list \<times> nat" where
  "identify_messages uuid seen seenb n [] = ([], n)"
| "identify_messages uuid seen seenb n (m # ms) =
     (let (i, n1) = identify isContextMessageId (createContextMessageId uuid) seen n (am_contextId m);
          m1 = m\<lparr>am_contextId := Some i\<rparr>
      in case am_content m of
           Content_string t \<Rightarrow> (let (ms', n') = identify_messages uuid (i # seen) seenb n1 ms in (m1 # ms', n'))
         | Content_blocks bs \<Rightarrow>
             (let (bs', seenb', n2) = identify_blocks uuid seenb n1 bs;
                  (ms', n') = identify_messages uuid (i # seen) seenb' n2 ms
              in (m1\<lparr>am_content := Content_blocks bs'\<rparr> # ms', n')))"

definition ensureContextIdentifiers :: "(nat \<Rightarrow> string) \<Rightarrow> nat \<Rightarrow> api_message list \<Rightarrow> api_message list \<times> bool" where
  "ensureContextIdentifiers uuid n ms = (let (ms', n') = identify_messages uuid [] [] n ms in (ms', n' \<noteq> n))"

end
