(* ===== verification/Context_History.thy ===== *)
theory Context_History
  imports Context_Types
begin

text \<open>
  The alterations of messages kept by \<^verbatim>\<open>ContextManager\<close> (\<^verbatim>\<open>src/core/context/context-management/ContextManager.ts\<close>): for a message
  and a block the list of its updates in order of time, their merge with the file of the task, their roll back to a checkpoint, and the
  updates that are projections, found by the identity of message and block. An entry of the file is what \<^verbatim>\<open>JSON.parse\<close> reads; a file that
  is missing or cannot be read is \<open>None\<close>.
\<close>

section \<open>Updates\<close>

datatype edit_type =
  Edit_undefined | Edit_no_file_read | Edit_read_file | Edit_alter_file | Edit_file_mention | Edit_tool_result_compaction

record context_update =
  cu_timestamp :: int
  cu_type :: string
  cu_content :: "string list"
  cu_metadata :: "string list list"

type_synonym block_updates = "(nat, context_update list) jsmap"

type_synonym context_history = "(int, edit_type \<times> block_updates) jsmap"

definition RECOVERABLE_PROJECTION_V1 :: string where
  "RECOVERABLE_PROJECTION_V1 = ''recoverable-projection-v1''"

definition RECOVERABLE_PROJECTION_V2 :: string where
  "RECOVERABLE_PROJECTION_V2 = ''recoverable-projection-v2''"

text \<open>The first row of the metadata and its cells.\<close>

definition meta_row :: "context_update \<Rightarrow> string list" where
  "meta_row u = (case item_at (cu_metadata u) 0 of None \<Rightarrow> [] | Some row \<Rightarrow> row)"

definition meta_cell :: "context_update \<Rightarrow> nat \<Rightarrow> string option" where
  "meta_cell u i = item_at (meta_row u) i"

section \<open>The file of a task\<close>

definition map_of_entries :: "('k \<times> 'v) list \<Rightarrow> ('k, 'v) jsmap" where
  "map_of_entries es = fold (\<lambda>(k, v) m. js_set m k v) es []"

definition getSavedContextHistory :: "context_history option \<Rightarrow> context_history" where
  "getSavedContextHistory file =
     (case file of None \<Rightarrow> [] | Some es \<Rightarrow> map_of_entries (map (\<lambda>(i, t, bs). (i, t, map_of_entries bs)) es))"

text \<open>Of equal updates the first is kept; \<^verbatim>\<open>sort\<close> is stable.\<close>

definition first_ones :: "'a list \<Rightarrow> 'a list" where
  "first_ones xs = rev (remdups (rev xs))"

definition merge_block :: "nat \<times> context_update list \<Rightarrow> block_updates \<Rightarrow> block_updates" where
  "merge_block e bs = (case e of (j, us) \<Rightarrow>
     js_set bs j (sort_key cu_timestamp (first_ones ((case js_get bs j of None \<Rightarrow> [] | Some vs \<Rightarrow> vs) @ us))))"

definition merge_entry :: "int \<times> edit_type \<times> block_updates \<Rightarrow> context_history \<Rightarrow> context_history" where
  "merge_entry e persisted = (case e of (i, t, bs) \<Rightarrow>
     (case js_get persisted i of
        None \<Rightarrow> js_set persisted i (t, map_of_entries bs)
      | Some (t0, bs0) \<Rightarrow> js_set persisted i (t, fold merge_block bs bs0)))"

definition mergeContextHistories :: "context_history \<Rightarrow> context_history \<Rightarrow> context_history" where
  "mergeContextHistories persisted pending = fold merge_entry pending persisted"

datatype save_mode = Save_merge | Save_replace

text \<open>The history of the manager and the file after a save.\<close>

definition saveContextHistory :: "save_mode \<Rightarrow> context_history option \<Rightarrow> context_history \<Rightarrow> context_history \<times> context_history option" where
  "saveContextHistory mode file h =
     (let h' = (if mode = Save_merge then mergeContextHistories (getSavedContextHistory file) h else h) in (h', Some h'))"

section \<open>Roll back\<close>

definition cut_updates :: "int \<Rightarrow> context_update list \<Rightarrow> context_update list" where
  "cut_updates t us = rev (dropWhile (\<lambda>u. t < cu_timestamp u) (rev us))"

definition cut_blocks :: "int \<Rightarrow> block_updates \<Rightarrow> block_updates" where
  "cut_blocks t bs =
     filter (\<lambda>(j, us). us \<noteq> [] \<or> js_get bs j = Some []) (map (\<lambda>(j, us). (j, cut_updates t us)) bs)"

definition truncateContextHistoryAtTimestamp :: "int \<Rightarrow> context_history \<Rightarrow> context_history" where
  "truncateContextHistoryAtTimestamp t h =
     filter (\<lambda>(i, ty, bs). bs \<noteq> []) (map (\<lambda>(i, ty, bs). (i, ty, cut_blocks t bs)) h)"

definition truncateContextHistory :: "int \<Rightarrow> context_history option \<Rightarrow> context_history \<Rightarrow> context_history \<times> context_history option" where
  "truncateContextHistory t file h = saveContextHistory Save_replace file (truncateContextHistoryAtTimestamp t h)"

text \<open>The updates of a block, and the order they are kept in.\<close>

definition updates_at :: "context_history \<Rightarrow> int \<Rightarrow> nat \<Rightarrow> context_update list" where
  "updates_at h i j = (case js_get h i of None \<Rightarrow> [] | Some (t, bs) \<Rightarrow> (case js_get bs j of None \<Rightarrow> [] | Some us \<Rightarrow> us))"

definition history_ordered :: "context_history \<Rightarrow> bool" where
  "history_ordered h \<longleftrightarrow> js_wf h \<and>
     (\<forall>(i, t, bs) \<in> set h. js_wf bs \<and> (\<forall>(j, us) \<in> set bs. sorted (map cu_timestamp us)))"

lemma cut_updates_filter: "sorted (map cu_timestamp us) \<Longrightarrow> cut_updates t us = filter (\<lambda>u. cu_timestamp u \<le> t) us"
proof (induction us rule: rev_induct)
  case (snoc u us)
  then have us: "cut_updates t us = filter (\<lambda>u. cu_timestamp u \<le> t) us" and le: "\<forall>v \<in> set us. cu_timestamp v \<le> cu_timestamp u"
    by (auto simp: sorted_append)
  show ?case
  proof (cases "t < cu_timestamp u")
    case True
    then show ?thesis using us by (simp add: cut_updates_def)
  next
    case False
    then have "filter (\<lambda>v. cu_timestamp v \<le> t) us = us" using le by (auto simp: filter_id_conv)
    then show ?thesis using False by (simp add: cut_updates_def)
  qed
qed (simp add: cut_updates_def)

lemma cut_blocks_get:
  assumes "js_wf bs"
  shows "(case js_get (cut_blocks t bs) j of None \<Rightarrow> [] | Some us \<Rightarrow> us) = (case js_get bs j of None \<Rightarrow> [] | Some us \<Rightarrow> cut_updates t us)"
proof -
  have "js_wf (map (\<lambda>(j, us). (j, cut_updates t us)) bs)" by (subst js_wf_map_values) (rule assms)
  then show ?thesis
    by (simp add: cut_blocks_def js_get_filter js_get_map_values [of "\<lambda>_. cut_updates t"] split: option.split) 
qed

text \<open>A roll back takes away exactly the updates behind the time of the checkpoint.\<close>

lemma roll_back_updates:
  assumes "history_ordered h"
  shows "updates_at (truncateContextHistoryAtTimestamp t h) i j = filter (\<lambda>u. cu_timestamp u \<le> t) (updates_at h i j)"
proof -
  have wf: "js_wf h" using assms by (simp add: history_ordered_def)
  let ?f = "\<lambda>k (ty, bs). (ty, cut_blocks t bs)"
  have eq: "truncateContextHistoryAtTimestamp t h = filter (\<lambda>(i, ty, bs). bs \<noteq> []) (map (\<lambda>(k, v). (k, ?f k v)) h)"
    by (simp add: truncateContextHistoryAtTimestamp_def case_prod_unfold)
  have wf': "js_wf (map (\<lambda>(k, v). (k, ?f k v)) h)" by (subst js_wf_map_values) (rule wf)
  show ?thesis
  proof (cases "js_get h i")
    case None
    then show ?thesis unfolding updates_at_def eq js_get_filter [OF wf'] js_get_map_values by simp
  next
    case (Some v)
    obtain ty bs where v: "v = (ty, bs)" by (cases v)
    with Some have "(i, ty, bs) \<in> set h" by (auto dest: map_of_SomeD)
    then have bs: "js_wf bs" "\<And>us. js_get bs j = Some us \<Longrightarrow> sorted (map cu_timestamp us)"
      using assms by (auto simp: history_ordered_def dest!: map_of_SomeD)
    have "updates_at (truncateContextHistoryAtTimestamp t h) i j = (case js_get (cut_blocks t bs) j of None \<Rightarrow> [] | Some us \<Rightarrow> us)"
      unfolding updates_at_def eq js_get_filter [OF wf'] js_get_map_values using Some v by simp
    also have "\<dots> = filter (\<lambda>u. cu_timestamp u \<le> t) (updates_at h i j)"
      using Some v cut_updates_filter [OF bs(2)] by (simp add: cut_blocks_get [OF bs(1)] updates_at_def split: option.split)
    finally show ?thesis .
  qed
qed

text \<open>A merge keeps every update of both sides, in order of time.\<close>

lemma merge_block_updates:
  "\<exists>vs. js_get (merge_block (j, us) bs) j = Some vs \<and> sorted (map cu_timestamp vs) \<and>
     set vs = set us \<union> (case js_get bs j of None \<Rightarrow> {} | Some ws \<Rightarrow> set ws)"
  by (auto simp: merge_block_def first_ones_def split: option.split)

section \<open>Projections by identity\<close>

definition getProjectionIdentityKey :: "string \<Rightarrow> string \<Rightarrow> string" where
  "getProjectionIdentityKey m b = m @ [CHR 0x00] @ b"

definition getProjectionIdentityFromUpdate :: "context_update \<Rightarrow> string option" where
  "getProjectionIdentityFromUpdate u =
     (case (meta_cell u 0, meta_cell u 3, meta_cell u 4) of
        (Some v, Some m, Some b) \<Rightarrow>
          if v = RECOVERABLE_PROJECTION_V2 \<and> m \<noteq> [] \<and> b \<noteq> [] then Some (getProjectionIdentityKey m b) else None
      | _ \<Rightarrow> None)"

definition getLatestProjectionUpdateForIdentity :: "context_update list \<Rightarrow> string \<Rightarrow> context_update option" where
  "getLatestProjectionUpdateForIdentity us key = find (\<lambda>u. getProjectionIdentityFromUpdate u = Some key) (rev us)"

text \<open>
  The lists of updates that hold the latest projection of an identity, from the central store and from the history: the list and the time it
  was chosen for.
\<close>

definition last_timestamp :: "context_update list \<Rightarrow> int" where
  "last_timestamp us = (if us = [] then 0 else cu_timestamp (last us))"

definition index_update :: "context_update list \<Rightarrow> context_update \<Rightarrow> (string, context_update list) jsmap \<times> (string, int) jsmap \<Rightarrow>
    (string, context_update list) jsmap \<times> (string, int) jsmap" where
  "index_update us u acc = (case acc of (indexed, latest) \<Rightarrow>
     (case getProjectionIdentityFromUpdate u of
        None \<Rightarrow> (indexed, latest)
      | Some key \<Rightarrow>
          if (case js_get latest key of None \<Rightarrow> True | Some t \<Rightarrow> t \<le> cu_timestamp u)
          then (js_set indexed key us, js_set latest key (cu_timestamp u))
          else (indexed, latest)))"

definition getIdentityProjectionUpdateArrays ::
    "(string, context_update list) jsmap \<Rightarrow> context_history \<Rightarrow> (string, context_update list) jsmap" where
  "getIdentityProjectionUpdateArrays central h =
     fst (fold (\<lambda>(i, t, bs) acc. fold (\<lambda>(j, us) acc. fold (index_update us) us acc) bs acc) h
       (central, map (\<lambda>(key, us). (key, last_timestamp us)) central))"

definition getLatestIdentityProjectionUpdates ::
    "(string, context_update list) jsmap \<Rightarrow> context_history \<Rightarrow> (string, context_update) jsmap" where
  "getLatestIdentityProjectionUpdates central h =
     fold (\<lambda>(key, us) m. case getLatestProjectionUpdateForIdentity us key of None \<Rightarrow> m | Some u \<Rightarrow> js_set m key u)
       (getIdentityProjectionUpdateArrays central h) []"

end
