(* ===== verification/Context_Projection.thy ===== *)
theory Context_Projection
  imports Context_History
begin

text \<open>
  What is sent to the model, from \<^verbatim>\<open>ContextManager.ts\<close>: the next range to delete, the messages without it, with their recorded alterations, with
  reserved markers of projections escaped, and with a result behind every use of a tool. The SHA-256 digest is the argument \<open>sha\<close>.
\<close>

section \<open>Ranges\<close>

datatype keep_mode = Keep_none | Keep_lastTwo | Keep_half | Keep_quarter

type_synonym deleted_range = "(int \<times> int) option"

text \<open>The first message behind a range.\<close>

definition start_of_rest :: "deleted_range \<Rightarrow> int" where
  "start_of_rest r = (case r of None \<Rightarrow> 2 | Some (a, e) \<Rightarrow> e + 1)"

definition messages_to_remove :: "keep_mode \<Rightarrow> int \<Rightarrow> int \<Rightarrow> int" where
  "messages_to_remove keep n start =
     (case keep of
        Keep_none \<Rightarrow> max (n - start) 0
      | Keep_lastTwo \<Rightarrow> max (n - start - 2) 0
      | Keep_half \<Rightarrow> (n - start) div 4 * 2
      | Keep_quarter \<Rightarrow> (n - start) * 3 div 8 * 2)"

definition getNextTruncationRange :: "api_message list \<Rightarrow> deleted_range \<Rightarrow> keep_mode \<Rightarrow> int \<times> int" where
  "getNextTruncationRange ms r keep =
     (let start = start_of_rest r;
          e = start + messages_to_remove keep (int (length ms)) start - 1;
          e' = (if 0 \<le> e \<and> e < int (length ms) \<and> am_role (ms ! nat e) \<noteq> Role_assistant then e - 1 else e)
      in (2, e'))"

section \<open>Reserved markers\<close>

definition SYSTEM_PROJECTION_MARKER :: string where
  "SYSTEM_PROJECTION_MARKER = ''system_context_projection''"

definition word_char :: "char \<Rightarrow> bool" where
  "word_char c \<longleftrightarrow> c \<in> set ''0123456789ABCDEFGHIJKLMNOPQRSTUVWXYZ_abcdefghijklmnopqrstuvwxyz''"

definition lower :: "char \<Rightarrow> char" where
  "lower c = (let n = of_char c :: nat in if 65 \<le> n \<and> n \<le> 90 then char_of (n + 32) else c)"

text \<open>Behind \<^verbatim>\<open><\<close>: the slash if there is one, and what follows the marker, when the text goes on with it and then with no letter of a word.\<close>

definition after_marker :: "string \<Rightarrow> string option" where
  "after_marker s =
     (let n = length SYSTEM_PROJECTION_MARKER in
      if map lower (take n s) = SYSTEM_PROJECTION_MARKER \<and> (drop n s = [] \<or> \<not> word_char (hd (drop n s))) then Some (drop n s) else None)"

definition marker_match :: "string \<Rightarrow> (string \<times> string) option" where
  "marker_match s =
     (case s of
        [] \<Rightarrow> None
      | c # cs \<Rightarrow>
          if c = CHR ''/'' then map_option (\<lambda>r. (''/'', r)) (after_marker cs) else map_option (\<lambda>r. ([], r)) (after_marker s))"

lemma after_marker_length: "after_marker s = Some r \<Longrightarrow> length r \<le> length s"
  by (auto simp: after_marker_def Let_def split: if_splits)

lemma marker_match_length: "marker_match s = Some (p, r) \<Longrightarrow> length r \<le> length s"
  by (auto simp: marker_match_def split: list.splits if_splits dest!: after_marker_length)

function (sequential) escapeReservedProjectionMarkers :: "string \<Rightarrow> string" where
  "escapeReservedProjectionMarkers [] = []"
| "escapeReservedProjectionMarkers (c # cs) =
     (if c = CHR ''<'' then
        (case marker_match cs of
           Some (closing, r) \<Rightarrow> ''&lt;'' @ closing @ SYSTEM_PROJECTION_MARKER @ escapeReservedProjectionMarkers r
         | None \<Rightarrow> c # escapeReservedProjectionMarkers cs)
      else c # escapeReservedProjectionMarkers cs)"
  by pat_completeness auto
termination
  by (relation "measure length") (auto dest: marker_match_length)

definition escape_block :: "chat_block \<Rightarrow> chat_block" where
  "escape_block b =
     (case getTextFromBlock b of
        None \<Rightarrow> b
      | Some t \<Rightarrow>
          if t = [] \<or> escapeReservedProjectionMarkers t = t then b else fst (setTextInBlock b (escapeReservedProjectionMarkers t)))"

definition escape_message :: "api_message \<Rightarrow> api_message" where
  "escape_message m =
     (case am_content m of
        Content_string t \<Rightarrow> m\<lparr>am_content := Content_string (escapeReservedProjectionMarkers t)\<rparr>
      | Content_blocks bs \<Rightarrow> m\<lparr>am_content := Content_blocks (map escape_block bs)\<rparr>)"

definition escapeReservedMarkersInSourceMessages :: "api_message list \<Rightarrow> api_message list" where
  "escapeReservedMarkersInSourceMessages ms = map escape_message ms"

section \<open>Recorded alterations\<close>

definition index_message_blocks :: "api_message \<Rightarrow> (string, chat_block) jsmap \<Rightarrow> (string, chat_block) jsmap" where
  "index_message_blocks m indexed =
     (case (am_content m, getMessageContextId m) of
        (Content_blocks bs, Some i) \<Rightarrow>
          fold (\<lambda>b ix. case getBlockContextId b of None \<Rightarrow> ix | Some j \<Rightarrow> js_set ix (getProjectionIdentityKey i j) b) bs indexed
      | _ \<Rightarrow> indexed)"

definition indexBlocksByContextIdentity :: "api_message list \<Rightarrow> (string, chat_block) jsmap" where
  "indexBlocksByContextIdentity ms = fold index_message_blocks ms []"

definition canApplyPositionalUpdate :: "(string \<Rightarrow> string) \<Rightarrow> context_update \<Rightarrow> chat_block \<Rightarrow> bool" where
  "canApplyPositionalUpdate sha u b =
     (if meta_cell u 0 = Some RECOVERABLE_PROJECTION_V2 then False
      else if meta_cell u 0 \<noteq> Some RECOVERABLE_PROJECTION_V1 then True
      else (case (getTextFromBlock b, meta_cell u 2) of (Some t, Some d) \<Rightarrow> sha t = d | _ \<Rightarrow> False))"

definition canApplyIdentityUpdate :: "(string \<Rightarrow> string) \<Rightarrow> context_update \<Rightarrow> chat_block option \<Rightarrow> bool" where
  "canApplyIdentityUpdate sha u source =
     (case source of
        None \<Rightarrow> False
      | Some b \<Rightarrow>
          (case (getTextFromBlock b, meta_cell u 2) of
             (Some t, Some d) \<Rightarrow> Some t = item_at (cu_content u) 0 \<or> sha t = d
           | _ \<Rightarrow> False))"

text \<open>The alteration of a block: the later of the two that may be applied, the one by identity when they are of the same time.\<close>

definition identity_change ::
    "(string \<Rightarrow> string) \<Rightarrow> (string, context_update) jsmap \<Rightarrow> (string, chat_block) jsmap \<Rightarrow> string option \<Rightarrow> chat_block \<Rightarrow> context_update option" where
  "identity_change sha updates raw mid b =
     (case (mid, getBlockContextId b) of
        (Some i, Some j) \<Rightarrow>
          (let key = getProjectionIdentityKey i j in
           case js_get updates key of
             None \<Rightarrow> None
           | Some u \<Rightarrow> if canApplyIdentityUpdate sha u (js_get raw key) then Some u else None)
      | _ \<Rightarrow> None)"

definition positional_change :: "(string \<Rightarrow> string) \<Rightarrow> block_updates \<Rightarrow> nat \<Rightarrow> chat_block \<Rightarrow> context_update option" where
  "positional_change sha bs j b =
     (case js_get bs j of
        None \<Rightarrow> None
      | Some us \<Rightarrow> if us \<noteq> [] \<and> canApplyPositionalUpdate sha (last us) b then Some (last us) else None)"

definition latest_change :: "context_update option \<Rightarrow> context_update option \<Rightarrow> context_update option" where
  "latest_change byId byPlace =
     (case (byId, byPlace) of
        (Some u, Some v) \<Rightarrow> if cu_timestamp v \<le> cu_timestamp u then Some u else Some v
      | (Some u, None) \<Rightarrow> Some u
      | (None, v) \<Rightarrow> v)"

definition change_block :: "context_update option \<Rightarrow> chat_block \<Rightarrow> chat_block" where
  "change_block c b =
     (case c of
        None \<Rightarrow> b
      | Some u \<Rightarrow>
          if cu_type u \<noteq> ''text'' then b
          else (case item_at (cu_content u) 0 of None \<Rightarrow> b | Some t \<Rightarrow> fst (setTextInBlock b t)))"

definition change_message ::
    "(string \<Rightarrow> string) \<Rightarrow> (string, context_update) jsmap \<Rightarrow> (string, chat_block) jsmap \<Rightarrow> block_updates \<Rightarrow> api_message \<Rightarrow> api_message" where
  "change_message sha updates raw bs m =
     (case am_content m of
        Content_string t \<Rightarrow> m
      | Content_blocks cs \<Rightarrow>
          m\<lparr>am_content := Content_blocks
              (map (\<lambda>(j, b). change_block (latest_change (identity_change sha updates raw (getMessageContextId m) b) (positional_change sha bs j b)) b)
                 (enumerate 0 cs))\<rparr>)"

definition is_tool_result :: "chat_block \<Rightarrow> bool" where
  "is_tool_result b = (case cb_body b of B_tool_result i c \<Rightarrow> True | _ \<Rightarrow> False)"

text \<open>The results in the first message behind the range answer uses that were deleted.\<close>

definition drop_orphans :: "api_message \<Rightarrow> api_message" where
  "drop_orphans m =
     (case (am_role m, am_content m) of
        (Role_user, Content_blocks bs) \<Rightarrow> m\<lparr>am_content := Content_blocks (filter (\<lambda>b. \<not> is_tool_result b) bs)\<rparr>
      | _ \<Rightarrow> m)"

definition applyContextHistoryUpdates ::
    "(string \<Rightarrow> string) \<Rightarrow> (string, context_update list) jsmap \<Rightarrow> context_history \<Rightarrow> api_message list \<Rightarrow> int \<Rightarrow> (string, chat_block) jsmap \<Rightarrow>
     api_message list" where
  "applyContextHistoryUpdates sha central h ms start raw =
     (let second = js_slice start (int (length ms)) ms;
          second' = (if 2 < start \<and> second \<noteq> [] then drop_orphans (hd second) # tl second else second);
          indices = [0, 1] @ map (\<lambda>i. int i + start) [0..<length second];
          updates = getLatestIdentityProjectionUpdates central h
      in map (\<lambda>(i, m). change_message sha updates raw (case js_get h i of None \<Rightarrow> [] | Some (t, bs) \<Rightarrow> bs) m)
           (zip indices (take 2 ms @ second')))"

section \<open>Results behind uses\<close>

definition tool_use_id :: "chat_block \<Rightarrow> string option" where
  "tool_use_id b = (case cb_body b of B_tool_use i n a \<Rightarrow> if i \<noteq> [] then Some i else None | _ \<Rightarrow> None)"

definition tool_result_id :: "chat_block \<Rightarrow> string option" where
  "tool_result_id b = (case cb_body b of B_tool_result i c \<Rightarrow> if i \<noteq> [] then Some i else None | _ \<Rightarrow> None)"

definition chat_blocks :: "api_message \<Rightarrow> chat_block list" where
  "chat_blocks m = (case am_content m of Content_string t \<Rightarrow> [] | Content_blocks bs \<Rightarrow> bs)"

definition missing_result :: "string \<Rightarrow> chat_block" where
  "missing_result i = \<lparr>cb_contextId = None, cb_body = B_tool_result i (Result_string ''result missing'')\<rparr>"

text \<open>Whether a block out of order stands before the last expected result, and how many results are in their place.\<close>

fun scan_results :: "chat_block list \<Rightarrow> string list \<Rightarrow> nat \<Rightarrow> bool \<times> nat" where
  "scan_results (b # bs) (i # ids) k = (if tool_result_id b = Some i then scan_results bs ids (Suc k) else (True, k))"
| "scan_results bs ids k = (False, k)"

definition results_by_id :: "chat_block list \<Rightarrow> (string, chat_block) jsmap" where
  "results_by_id bs = fold (\<lambda>b m. case tool_result_id b of None \<Rightarrow> m | Some i \<Rightarrow> js_set m i b) bs []"

definition needs_reordering :: "chat_block list \<Rightarrow> string list \<Rightarrow> bool" where
  "needs_reordering bs ids =
     (results_by_id bs \<noteq> [] \<and> (case scan_results bs ids 0 of (out, k) \<Rightarrow> out \<or> k < length (results_by_id bs)))"

definition with_missing :: "string list \<Rightarrow> (string, chat_block) jsmap \<Rightarrow> (string, chat_block) jsmap" where
  "with_missing ids m = fold (\<lambda>i m. if js_has m i then m else js_set m i (missing_result i)) ids m"

definition answer_message :: "string list \<Rightarrow> api_message \<Rightarrow> api_message" where
  "answer_message ids m =
     (let bs = chat_blocks m; found = results_by_id bs; results = with_missing ids found in
      if needs_reordering bs ids \<or> (\<exists>i \<in> set ids. \<not> js_has found i)
      then m\<lparr>am_content := Content_blocks (map (\<lambda>i. the (js_get results i)) ids @ filter (\<lambda>b. tool_result_id b = None) bs)\<rparr>
      else m\<lparr>am_content := Content_blocks bs\<rparr>)"

definition tool_uses :: "api_message \<Rightarrow> string list" where
  "tool_uses m = (if am_role m = Role_assistant then List.map_filter tool_use_id (chat_blocks m) else [])"

fun ensureToolResultsFollowToolUse :: "api_message list \<Rightarrow> api_message list" where
  "ensureToolResultsFollowToolUse (m # n # ms) =
     m # ensureToolResultsFollowToolUse
       ((if tool_uses m \<noteq> [] \<and> am_role n = Role_user then answer_message (tool_uses m) n else n) # ms)"
| "ensureToolResultsFollowToolUse ms = ms"

section \<open>The messages of a request\<close>

text \<open>
  The messages sent. In place, the history gets the identifiers of \<open>ensureContextIdentifiers\<close>; that an answer which is a text, and not a
  list of blocks, is emptied in the history as well is left out.
\<close>

definition getAndAlterTruncatedMessages ::
    "(string \<Rightarrow> string) \<Rightarrow> (nat \<Rightarrow> string) \<Rightarrow> nat \<Rightarrow> (string, context_update list) jsmap \<Rightarrow> context_history \<Rightarrow> api_message list \<Rightarrow> deleted_range \<Rightarrow>
     api_message list" where
  "getAndAlterTruncatedMessages sha uuid n central h ms r =
     (if ms = [] then ms
      else (let raw = fst (ensureContextIdentifiers uuid n ms); source = escapeReservedMarkersInSourceMessages raw in
            if length ms = 1 then source
            else ensureToolResultsFollowToolUse
                   (applyContextHistoryUpdates sha central h source (start_of_rest r) (indexBlocksByContextIdentity raw))))"

end
