(* ===== verification/Context_Request.thy ===== *)
theory Context_Request
  imports Context_Projection
begin

text \<open>
  What a request to the model looks like: it alternates between user and assistant, keeps the first pair of the conversation, and every use of
  a tool is answered in order by the message behind it.
\<close>

section \<open>Messages that differ in texts and identifiers only\<close>

definition same_block :: "chat_block \<Rightarrow> chat_block \<Rightarrow> bool" where
  "same_block b c \<longleftrightarrow> tool_use_id c = tool_use_id b \<and> tool_result_id c = tool_result_id b \<and> is_tool_result c = is_tool_result b"

definition same_message :: "api_message \<Rightarrow> api_message \<Rightarrow> bool" where
  "same_message m k \<longleftrightarrow> am_role k = am_role m \<and> list_all2 same_block (chat_blocks m) (chat_blocks k)"


lemma same_block_refl [simp]: "same_block b b"
  by (simp add: same_block_def)

lemma same_blocks_refl [simp]: "list_all2 same_block bs bs"
  by (simp add: list_all2_refl)

lemma same_message_refl [simp]: "same_message m m"
  by (simp add: same_message_def)



lemma same_set_text [simp]: "same_block b (fst (setTextInBlock b t))"
  by (auto simp: same_block_def tool_use_id_def tool_result_id_def is_tool_result_def setTextInBlock.simps split: block_body.splits result_content.splits)




section \<open>Every pass keeps the messages\<close>










section \<open>Results behind uses\<close>


lemma tool_uses_user [simp]: "am_role m = Role_user \<Longrightarrow> tool_uses m = []"
  by (simp add: tool_uses_def)

lemma role_iff: "am_role m \<noteq> Role_assistant \<longleftrightarrow> am_role m = Role_user"
  by (cases "am_role m") auto


lemma answer_role [simp]: "am_role (answer_message ids m) = am_role m"
  by (simp add: answer_message_def Let_def)










section \<open>Alternation and ranges\<close>







section \<open>Conversations\<close>









section \<open>Requests\<close>

text \<open>The messages outside the range, and the blocks of a message that are no results.\<close>

definition kept_messages :: "api_message list \<Rightarrow> deleted_range \<Rightarrow> api_message list" where
  "kept_messages ms r = take 2 ms @ drop (nat (start_of_rest r)) ms"









text \<open>The messages the answers are put into: as the kept ones, the first behind a range without its results.\<close>

definition unanswered :: "api_message list \<Rightarrow> deleted_range \<Rightarrow> api_message list" where
  "unanswered ms r =
     (let k = kept_messages ms r in if 2 < start_of_rest r \<and> 2 < length k then k[2 := drop_orphans (k ! 2)] else k)"

lemma unanswered_length [simp]: "length (unanswered ms r) = length (kept_messages ms r)"
  by (simp add: unanswered_def Let_def)










section \<open>A conversation\<close>

definition says :: "chat_role \<Rightarrow> block_body list \<Rightarrow> api_message" where
  "says p bs = \<lparr>am_contextId = None, am_role = p, am_content = Content_blocks (map (\<lambda>b. \<lparr>cb_contextId = None, cb_body = b\<rparr>) bs)\<rparr>"




definition plain_uuid :: "nat \<Rightarrow> string" where
  "plain_uuid n = replicate n CHR ''u''"



section \<open>What a request loses\<close>

text \<open>An answer that is a text, and not a list of blocks, is replaced by made up results.\<close>

lemma reply_text_lost:
  "map am_content (getAndAlterTruncatedMessages (\<lambda>s. s) plain_uuid 0 [] []
     [says Role_user [B_text ''task''], says Role_assistant [B_tool_use ''A'' ''ask'' ''q''],
      \<lparr>am_contextId = None, am_role = Role_user, am_content = Content_string ''no''\<rparr>] None) ! 2 =
   Content_blocks [missing_result ''A'']"
  by code_simp

text \<open>The first message behind a range may be left without any content.\<close>

lemma emptied_message:
  "map am_content (getAndAlterTruncatedMessages (\<lambda>s. s) plain_uuid 0 [] []
     [says Role_user [B_text ''task''], says Role_assistant [B_text ''ok''], says Role_user [B_text ''more''],
      says Role_assistant [B_tool_use ''A'' ''read'' ''f''], says Role_user [B_tool_result ''A'' (Result_string ''text'')]] (Some (2, 3))) ! 2 =
   Content_blocks []"
  by code_simp

text \<open>
  Updates are found by the place of their block, which changes when the results before it are dropped: here the notice for the result that was dropped
  replaces the text behind it.
\<close>

definition notice_update :: context_update where
  "notice_update = \<lparr>cu_timestamp = 1, cu_type = ''text'', cu_content = [''notice''], cu_metadata = []\<rparr>"

lemma shifted_update:
  "map (\<lambda>m. map cb_body (chat_blocks m)) (getAndAlterTruncatedMessages (\<lambda>s. s) plain_uuid 0 [] [(4, Edit_read_file, [(0, [notice_update])])]
     [says Role_user [B_text ''task''], says Role_assistant [B_text ''ok''], says Role_user [B_text ''more''],
      says Role_assistant [B_tool_use ''A'' ''read'' ''f''],
      says Role_user [B_tool_result ''A'' (Result_string ''text''), B_text ''please stop'']] (Some (2, 3))) ! 2 =
   [B_text ''notice'']"
  by code_simp

text \<open>Only the first text of a result is escaped.\<close>

lemma second_piece_unescaped:
  "escape_block \<lparr>cb_contextId = None, cb_body = B_tool_result ''A'' (Result_pieces [Piece_text ''a'', Piece_text ''<system_context_projection'']) \<rparr> =
   \<lparr>cb_contextId = None, cb_body = B_tool_result ''A'' (Result_pieces [Piece_text ''a'', Piece_text ''<system_context_projection'']) \<rparr>"
  by code_simp

end
