(* ===== verification/Spec2Isabelle.thy ===== *)
theory Spec2Isabelle
  imports Lifecycle_Properties Lifecycle_Typing Sql_Properties Sql_Regeneration Lane_Scheduling Sibling_Scheduler Io_Bulkhead Io_Coalescer Fencing_Locks
    Lock_Authority Deadlock_Detector Mvcc_Engine Raft_Consensus Lsm_Refinement Db_Properties Db_Mutex Db_Integrity
    Btree_Refinement Text_Distance Patch_Safety Edit_Correct Message_Correct Permission_Rules Context_Request
begin

text \<open>
  Verification of the core of HEAV3NS: the lifecycle of the agent's tasks, the scheduling of what a task runs in parallel,
  the embedded database BroccoliDB, and the tools that turn the text of a model into changes of files. Paths are below
  \<^verbatim>\<open>src/\<close> of the repository.

  \<^bold>\<open>How the parts interact.\<close> A message of the model is parsed into prose and tool calls; the editing tools among them parse
  patches and SEARCH/REPLACE blocks and write files. A task runs its tool calls as siblings, ordered by a dependency
  graph, with bounded access to I/O; it can start subagents on lanes with dependencies of their own. Every task has a
  lifecycle record that only the funnel changes, by intents that are committed to a journal; the journal is kept in
  memory or in tables of the database. The database has tables with indices, branches, relations and a log, and engines
  beside them: a log-structured store, multi-version records, locks, a detector of deadlocks and a Raft node.

  \<^bold>\<open>Shared vocabulary.\<close> \<open>Prelude\<close> has insertion-ordered maps (\<open>jsmap\<close>, the \<^verbatim>\<open>Map\<close> and the plain objects of the language, whose
  integer-like names and inherited properties are left out), trimming, slices, the JSON values, and the interfaces
  \<open>transition_system\<close> (initial states, steps, an invariant) and \<open>monotone_system\<close> (and an order the steps follow). Every component with
  state is an interpretation of one of them on its own definitions, and its invariants and properties rest on the facts of
  that interpretation. Failure is a value: a sum, an option, or an outcome datatype with the errors the code throws. Clocks,
  random identifiers, hashes, locale orders, conversions of the host and callbacks are arguments.

  \<^bold>\<open>Task lifecycle\<close> (\<^verbatim>\<open>shared/lifecycle/taskLifecycleEvent.ts\<close>, \<^verbatim>\<open>core/task/lifecycle/\<close>).
  \<^item> \<open>Lifecycle_Types\<close>: records, events, causes, intents. \<open>Lifecycle_Guards\<close>: the runtime guards over JSON values and the encoders;
    \<open>Lifecycle_Typing\<close> shows that what passes a guard is the encoding of a value of the type.
  \<^item> \<open>Lifecycle_Store\<close>: the journal in memory, its commit with compare-and-swap, the constraint between a parent and its
    attached children. \<open>Lifecycle_Funnel\<close>: evaluation of an intent, submission, propagation, restore, eligibility.
  \<^item> \<open>Lifecycle_Invariants\<close>, \<open>Lifecycle_Preservation\<close>: the invariant of the journal, kept by every commit whatever other writers do.
    \<open>Lifecycle_Submit\<close> states what holds of a submission with its propagation to children as the locale \<open>submission_contract\<close>, which
    \<open>Lifecycle_Cascade\<close> and \<open>Lifecycle_Properties\<close> interpret three times. Fuel of a submission: the number of records plus two, which is
    enough because each nested submission closes a child that was open.
  \<^item> \<open>Lifecycle_Recovery\<close> and \<open>Lifecycle_Properties\<close>: restore returns, transitions obey the law, cancellation fences, parents close after their children.
    The invariant is over intents that are well formed (\<open>wf_intent\<close>); the funnel checks less, and \<open>blank_operation_unrestorable\<close> is the run in which that matters.
  \<^item> \<open>Sql_Tables\<close> (\<^verbatim>\<open>infrastructure/db/BroccoliStateDatabase.ts\<close>) with the locale \<open>kv_table\<close> for the kernel package under it, interpreted on
    maps; \<open>Sql_Journal\<close>: the durable journal; \<open>Sql_Refinement\<close>, \<open>Sql_Commit\<close>, \<open>Sql_Properties\<close>: it refines the journal in memory as
    long as no generation is replaced, reads repair the projection; \<open>Sql_Regeneration\<close>: what happens after a replacement.

  \<^bold>\<open>Scheduling\<close> (\<^verbatim>\<open>core/task/tools/\<close>, \<^verbatim>\<open>shared/subagent/\<close>).
  \<^item> \<open>Lane_Scheduling\<close> (\<^verbatim>\<open>laneStateMachine.ts\<close>, \<^verbatim>\<open>LaneDAG.ts\<close>): lanes run after their dependencies and an acyclic graph never wedges. The walks
    over the graph carry fuel; with a cycle of dependencies they diverge, as the code does.
  \<^item> \<open>Sibling_Graph\<close>, \<open>Sibling_Scheduler\<close> (\<^verbatim>\<open>siblings/SiblingToolScheduler.ts\<close>): validation accepts exactly the well-formed acyclic graphs; at every
    interleaving with settlements and cancellations at most the capacity run, after their prerequisites.
  \<^item> \<open>Io_Bulkhead\<close> (\<^verbatim>\<open>io/ParentIoBulkhead.ts\<close>): capacities, bounded overtaking, no idle slot while somebody waits. \<open>Io_Coalescer\<close>
    (\<^verbatim>\<open>io/IoRequestCoalescer.ts\<close>): one execution in flight per key.

  \<^bold>\<open>BroccoliDB\<close> (\<^verbatim>\<open>sessions/extensions/substrate/\<close>, types from \<^verbatim>\<open>core/contracts/broccolidb.contracts.ts\<close>).
  \<^item> \<open>Db_Values\<close> (\<^verbatim>\<open>broccolidb-schema-engine.ts\<close>), \<open>Db_Index\<close>, \<open>Db_Table\<close>, \<open>Db_Query\<close> (\<^verbatim>\<open>broccolidb-table.ts\<close>, \<^verbatim>\<open>broccolidb-branching.ts\<close>): rows,
    coercion, four families of indices behind the locale \<open>id_index\<close>, branches, transactions, the planner. \<open>Db_Invariant\<close>, \<open>Db_Reachable\<close>: indices cover the
    rows of every reachable table; \<open>Db_Planning\<close>: a planned query finds what a scan finds.
  \<^item> \<open>Db_Wal\<close>, \<open>Db_Kernel\<close> (\<^verbatim>\<open>broccolidb-wal.ts\<close>, \<^verbatim>\<open>broccolidb-kernel.ts\<close>): frames, checkpoints, recovery; \<open>Db_Recovery\<close>, \<open>Db_Restart\<close>: a restart restores the tables.
    \<open>Db_Properties\<close> collects the properties of tables and kernel.
  \<^item> \<open>Db_Relations\<close>, \<open>Db_Integrity\<close> (\<^verbatim>\<open>broccolidb-relations.ts\<close>): deletion with referential actions leaves no reference; fuel is the depth of
    the cascade, and around a cycle none suffices.
  \<^item> \<open>Db_Mutex\<close> (\<^verbatim>\<open>broccolidb-mutex.ts\<close>): all mutexes of the process, which share one asynchronous local storage. \<open>Fencing_Locks\<close> (\<^verbatim>\<open>broccolidb-fencing-mutex.ts\<close>, \<^verbatim>\<open>lock-authority.ts\<close>, the locale \<open>fencing\<close> interpreted for both),
    \<open>Lock_Authority\<close> (\<^verbatim>\<open>broccolidb-lock-authority.ts\<close>), \<open>Deadlock_Detector\<close> (\<^verbatim>\<open>broccolidb-deadlock-detector.ts\<close>; fuel: the number of transactions plus one).
  \<^item> \<open>Mvcc_Engine\<close> (\<^verbatim>\<open>broccolidb-mvcc-engine.ts\<close>), \<open>Raft_Consensus\<close> (\<^verbatim>\<open>broccolidb-raft-consensus.ts\<close>), \<open>Lsm_Store\<close> and \<open>Lsm_Refinement\<close>
    (\<^verbatim>\<open>broccolidb-lsm-store.ts\<close>): reads see committed versions, one vote per term and matching logs, a store that is a
    map on keys that the locale and the code units order alike.
  \<^item> \<open>Btree_Index\<close>, \<open>Btree_Refinement\<close> (\<^verbatim>\<open>broccolidb-btree-index-engine.ts\<close>): a tree whose nodes are split when full is an ordered map,
    for every comparison that is a \<open>key_comparison\<close>; what the deletion of an inner key loses.

  \<^bold>\<open>From text to files.\<close>
  \<^item> \<open>Message_Parser\<close>, \<open>Message_Correct\<close> (\<^verbatim>\<open>core/assistant-message/parse-assistant-message.ts\<close>, \<^verbatim>\<open>shared/tools.ts\<close>): a rendered message is parsed to its prose and tool calls.
  \<^item> \<open>Text_Lines\<close>, \<open>Text_Distance\<close> (\<^verbatim>\<open>shared/string.ts\<close>, \<^verbatim>\<open>core/task/tools/utils/PatchParser.ts\<close>): lines, normalisation, the edit distance, which is the least one.
  \<^item> \<open>Patch_Parser\<close> (\<^verbatim>\<open>PatchParser.ts\<close>), \<open>Patch_Apply\<close> (\<^verbatim>\<open>core/task/tools/handlers/ApplyPatchHandler.ts\<close>): patches and the writes they make. Loops that may not
    end are partial functions with value \<open>None\<close> for a run that never returns. \<open>Patch_Returns\<close>: when parsing returns and when it hangs; \<open>Patch_Correct\<close>: a rendered
    patch writes the edited text; \<open>Patch_Safety\<close>: writes are named by the patch.
  \<^item> \<open>Edit_Blocks\<close>, \<open>Edit_Correct\<close> (\<^verbatim>\<open>core/assistant-message/diff.ts\<close>): both versions of the SEARCH/REPLACE editor; one unit of fuel is enough for the second.

  \<^bold>\<open>What the model is shown.\<close> \<open>Context_Types\<close> (\<^verbatim>\<open>shared/messages/context-identifiers.ts\<close>): messages, blocks and their identifiers. \<open>Context_History\<close>,
  \<open>Context_Projection\<close> (\<^verbatim>\<open>core/context/context-management/ContextManager.ts\<close>): recorded alterations with merge and roll back, the range to delete, and the
  messages of a request. \<open>Context_Request\<close>: requests alternate and answer every use of a tool, and what they lose.

  \<^bold>\<open>Permissions.\<close> \<open>Command_Permissions\<close>, \<open>Permission_Rules\<close> (\<^verbatim>\<open>core/permissions/CommandPermissionController.ts\<close>): a shell command is permitted exactly when each
  piece of it between operators and parentheses is; the tokeniser is an argument, and commands it cannot read and that hold no dangerous character are permitted.

  \<^bold>\<open>Not modelled.\<close> Generated code (protocol buffers and their services), the user interfaces of terminal and editor, the hosts,
  providers of language models, prompts, telemetry and tests carry no logic of their own or only pass data on. The
  handlers of the other tools call the file system, a browser or a shell, which are not under \<^verbatim>\<open>src/\<close>. The engines of the database that keep statistics or caches
  (plan cache, tiered cache, sparse index, aggregation, views, vectors, time series), its coordinators of distributed
  transactions, and the services on top of it (kanban, roadmap, swarm, governance) are left for later: nothing
  modelled here depends on them. Numbers with a fraction, dates and \<^verbatim>\<open>NaN\<close> in rows, code units above 255 in text, failures of the disk, and
  tasks that run inside the callback of a mutex in parallel are outside the model; the note of each component in the manifest says what of its file is left out.
\<close>

end
